(* ===== verification/Prelude.thy ===== *)
theory Prelude
  imports Main "HOL-Library.Word"
begin

text \<open>
  What the component theories share: the names of the C integer types, the wrap-around of
  \<^verbatim>\<open>uint32_t\<close> arithmetic written out on natural numbers, and lemmas about
  indices, lists and maps that the library lacks. The model keeps a value of type
  \<^verbatim>\<open>uint32_t\<close> either as a 32-bit word (where the code works on its bits) or as a
  natural number below \<open>2 ^ 32\<close> whose arithmetic goes through \<open>w32\<close> (where the code only adds,
  subtracts and compares).
\<close>

type_synonym u8 = "8 word"
type_synonym u16 = "16 word"
type_synonym u32 = "32 word"
type_synonym u64 = "64 word"

text \<open>Collections of rewrite rules used by \<open>simp add:\<close> across the development.\<close>

named_theorems wrap_simps \<open>wrap-around of uint32_t arithmetic on natural numbers\<close>
named_theorems chain_simps \<open>singly linked chains through next fields\<close>

subsection \<open>Wrap-around of 32-bit unsigned arithmetic\<close>

definition w32 :: "nat \<Rightarrow> nat" where
  "w32 n = n mod 2 ^ 32"

definition sub32 :: "nat \<Rightarrow> nat \<Rightarrow> nat" where
  "sub32 a b = (if b \<le> a then a - b else a + 2 ^ 32 - b)"

lemma w32_less [simp]: "w32 n < 2 ^ 32"
  by (simp add: w32_def)

lemma w32_less_num [simp]: "w32 n < 4294967296"
  using w32_less [of n] by simp

lemma w32_id [wrap_simps]: "n < 2 ^ 32 \<Longrightarrow> w32 n = n"
  by (simp add: w32_def)

lemma w32_le: "w32 n \<le> n"
  by (simp add: w32_def)

lemma w32_idem [simp]: "w32 (w32 n) = w32 n"
  by (simp add: w32_def)

lemma sub32_le [wrap_simps]: "b \<le> a \<Longrightarrow> sub32 a b = a - b"
  by (simp add: sub32_def)

lemma sub32_less: "a < 2 ^ 32 \<Longrightarrow> b < 2 ^ 32 \<Longrightarrow> sub32 a b < 2 ^ 32"
  by (auto simp: sub32_def)

subsection \<open>Words\<close>

unbundle bit_operations_syntax

lemma and_not_mask_bits: "w AND NOT (mask k) = push_bit k (drop_bit k w)" for w :: "'a::len word"
  by (rule bit_word_eqI) (auto simp: bit_simps)

lemma unat_round_down:
  "unat (push_bit k (drop_bit k w)) = unat w div 2 ^ k * 2 ^ k" for w :: "'a::len word"
proof -
  have "unat w div 2 ^ k * 2 ^ k < 2 ^ LENGTH('a)"
    using unsigned_less [of w] by (meson div_times_less_eq_dividend order_le_less_trans)
  then show ?thesis
    unfolding unsigned_push_bit_eq unsigned_drop_bit_eq
    by (simp add: push_bit_eq_mult drop_bit_eq_div take_bit_nat_eq_self)
qed

subsection \<open>Lists\<close>

lemma nth_list_update_if:
  "i < length xs \<Longrightarrow> xs[i := v] ! j = (if i = j then v else xs ! j)"
  by (simp add: nth_list_update)

lemma distinct_remove1_set: "distinct xs \<Longrightarrow> set (remove1 x xs) = set xs - {x}"
  by (rule set_remove1_eq)

lemma takeWhile_neq_split:
  "x \<in> set xs \<Longrightarrow> takeWhile (\<lambda>y. y \<noteq> x) xs @ dropWhile (\<lambda>y. y \<noteq> x) xs = xs"
  by simp

subsection \<open>Chains: the list that next fields represent\<close>

text \<open>
  \<open>chain nxt p xs\<close> says that following \<open>nxt\<close> from the optional pointer \<open>p\<close> visits exactly the
  list \<open>xs\<close> and then reaches NULL. Pointers into an array are the array indices.
\<close>

fun chain :: "('a \<Rightarrow> 'a option) \<Rightarrow> 'a option \<Rightarrow> 'a list \<Rightarrow> bool" where
  "chain nxt p [] \<longleftrightarrow> p = None"
| "chain nxt p (x # xs) \<longleftrightarrow> p = Some x \<and> chain nxt (nxt x) xs"

lemma chain_None [simp, chain_simps]: "chain nxt None xs \<longleftrightarrow> xs = []"
  by (cases xs) auto

lemma chain_Some [chain_simps]:
  "chain nxt (Some x) xs \<longleftrightarrow> (\<exists>ys. xs = x # ys \<and> chain nxt (nxt x) ys)"
  by (cases xs) auto

lemma chain_unique: "chain nxt p xs \<Longrightarrow> chain nxt p ys \<Longrightarrow> xs = ys"
proof (induction xs arbitrary: p ys)
  case Nil
  then show ?case by simp
next
  case (Cons x xs)
  then show ?case by (cases ys) auto
qed

lemma chain_cong:
  "(\<And>x. x \<in> set xs \<Longrightarrow> f x = g x) \<Longrightarrow> chain f p xs \<longleftrightarrow> chain g p xs"
  by (induction xs arbitrary: p) auto

lemma chain_upd_notin [simp, chain_simps]:
  "x \<notin> set xs \<Longrightarrow> chain (f(x := v)) p xs \<longleftrightarrow> chain f p xs"
  by (rule chain_cong) auto

end
