(* ===== verification/Heap.thy ===== *)
theory Heap
  imports Prelude
begin

text \<open>
  The kernel heap of \<^verbatim>\<open>kernel/kernel.c\<close>: \<open>kernel_malloc\<close>, \<open>kernel_free\<close>, their aligned
  variants and the block check they run. The singly linked list of block headers is the list
  \<open>heap_list\<close>, in the order of the next pointers, each header with its address. Addresses
  and sizes are \<^verbatim>\<open>uint32_t\<close> values: natural numbers whose additions wrap through \<open>w32\<close>.
  \<open>words\<close> is the memory outside the headers, word by word: guard words and the raw pointer that
  \<open>kernel_malloc_align\<close> stores below an aligned block. A call that ends in \<open>kernel_panic\<close>
  returns the panic. The IRQ save and restore around both routines has no effect on the heap
  and is not modelled; messages printed before a panic are not either.
\<close>

unbundle bit_operations_syntax

subsection \<open>Constants and data\<close>

definition HEAP_START :: nat where "HEAP_START = 0xC1000000"
definition HEAP_SIZE :: nat where "HEAP_SIZE = 0x10000000"
definition HEAP_END :: nat where "HEAP_END = w32 (HEAP_START + HEAP_SIZE)"
definition HEAP_MAGIC :: nat where "HEAP_MAGIC = 0x48454150"
definition HEAP_GUARD :: nat where "HEAP_GUARD = 0xDEADC0DE"
definition HEAP_GUARD_SIZE :: nat where "HEAP_GUARD_SIZE = 4"
definition BLOCK_ALIGN :: nat where "BLOCK_ALIGN = 8"
definition PAGE_SIZE :: nat where "PAGE_SIZE = 4096"

text \<open>\<open>sizeof(block_header_t)\<close> on i686: two words, two bytes padded to a word, a pointer.\<close>

definition HDR :: nat where "HDR = 16"

record block_header =
  addr :: nat
  magic :: nat
  bsize :: nat
  free :: bool
  guard :: bool

record kheap =
  heap_list :: "block_header list"
  current_heap :: nat
  rover :: "nat option"
  debug_mode :: bool
  words :: "nat \<Rightarrow> nat"

datatype heap_panic =
    Block_out_of_range | Block_corrupted | Block_size_corrupted | Block_overflow
  | Next_corrupted | Out_of_heap | Free_out_of_range | Double_free
  | Not_a_block  \<comment> \<open>the pointer is not a block of the list: its header would be read from client bytes\<close>

definition heap_init :: "bool \<Rightarrow> kheap" where
  "heap_init dbg = \<lparr>heap_list = [], current_heap = HEAP_START, rover = None,
     debug_mode = dbg, words = (\<lambda>_. 0)\<rparr>"

subsection \<open>Helpers of the allocator\<close>

definition align :: "nat \<Rightarrow> nat" where
  "align n = push_bit 3 (drop_bit 3 (w32 (n + (BLOCK_ALIGN - 1))))"

definition page_align :: "nat \<Rightarrow> nat" where
  "page_align a = push_bit 12 (drop_bit 12 (w32 (a + (PAGE_SIZE - 1))))"

definition kernel_heap_guard_size :: "kheap \<Rightarrow> nat" where
  "kernel_heap_guard_size h = (if debug_mode h then HEAP_GUARD_SIZE else 0)"

text \<open>The guard bytes a block carries, decided by its own flag.\<close>

definition block_guard_size :: "block_header \<Rightarrow> nat" where
  "block_guard_size b = (if guard b then HEAP_GUARD_SIZE else 0)"

text \<open>
  A store of one word. The word may be the first word (the magic) of a header: a guard that is
  written past the end of its block overwrites the magic of the block that follows.
\<close>

definition store_word :: "nat \<Rightarrow> nat \<Rightarrow> kheap \<Rightarrow> kheap" where
  "store_word a v h = h\<lparr>words := (words h)(a := v),
     heap_list := map (\<lambda>b. if addr b = a then b\<lparr>magic := v\<rparr> else b) (heap_list h)\<rparr>"

definition kernel_heap_set_guard :: "block_header \<Rightarrow> kheap \<Rightarrow> kheap" where
  "kernel_heap_set_guard b h =
     (if guard b then store_word (w32 (addr b + HDR + bsize b)) HEAP_GUARD h else h)"

text \<open>
  \<open>kernel_heap_init_guard\<close> first sets the block's flag from the debug mode; the flag is given to
  the header when the model builds it (\<open>new_header\<close>).
\<close>

definition new_header :: "kheap \<Rightarrow> nat \<Rightarrow> nat \<Rightarrow> bool \<Rightarrow> block_header" where
  "new_header h a sz f =
     \<lparr>addr = a, magic = HEAP_MAGIC, bsize = sz, free = f, guard = debug_mode h\<rparr>"

definition kernel_heap_check_block :: "kheap \<Rightarrow> block_header \<Rightarrow> nat option \<Rightarrow> heap_panic option" where
  "kernel_heap_check_block h b nxt =
     (if addr b < HEAP_START \<or> w32 (addr b + HDR) > HEAP_END then Some Block_out_of_range
      else if magic b \<noteq> HEAP_MAGIC then Some Block_corrupted
      else if bsize b > HEAP_SIZE \<or> w32 (addr b + HDR + bsize b + block_guard_size b) > HEAP_END
        then Some Block_size_corrupted
      else if guard b \<and> words h (w32 (addr b + HDR + bsize b)) \<noteq> HEAP_GUARD
        then Some Block_overflow
      else (case nxt of None \<Rightarrow> None
            | Some n \<Rightarrow> if n < HEAP_START \<or> w32 (n + HDR) > HEAP_END
                        then Some Next_corrupted else None))"

text \<open>The address of the first block of a list, the next pointer of the block before it.\<close>

definition first_addr :: "block_header list \<Rightarrow> nat option" where
  "first_addr bs = (case bs of [] \<Rightarrow> None | b # _ \<Rightarrow> Some (addr b))"

lemma first_addr_simps [simp]:
  "first_addr [] = None" "first_addr (b # bs) = Some (addr b)"
  by (simp_all add: first_addr_def)

subsection \<open>kernel_malloc\<close>

text \<open>
  Both scanning loops of \<open>kernel_malloc\<close>: check each block, stop at the first free block that is
  large enough. Phase 1 runs to the end of the list (\<open>stop = None\<close>), phase 2 up to the rover.
\<close>

fun heap_scan :: "kheap \<Rightarrow> nat \<Rightarrow> nat option \<Rightarrow> block_header list \<Rightarrow> heap_panic + nat option" where
  "heap_scan h sz stop [] = Inr None"
| "heap_scan h sz stop (b # bs) =
     (if stop = Some (addr b) then Inr None
      else case kernel_heap_check_block h b (first_addr bs) of
             Some p \<Rightarrow> Inl p
           | None \<Rightarrow>
               if free b \<and> sz \<le> bsize b then Inr (Some (addr b))
               else heap_scan h sz stop bs)"

text \<open>Taking the block that a scan found: split it when the rest can hold a block, move the rover.\<close>

definition split_header :: "kheap \<Rightarrow> nat \<Rightarrow> block_header \<Rightarrow> block_header" where
  "split_header h sz b =
     (let gs = kernel_heap_guard_size h
      in new_header h (w32 (addr b + HDR + sz + gs)) (sub32 (bsize b - sz) (HDR + gs)) True)"

definition heap_split :: "kheap \<Rightarrow> nat \<Rightarrow> block_header list \<Rightarrow> block_header \<Rightarrow> block_header list
    \<Rightarrow> kheap \<times> block_header \<times> block_header list" where
  "heap_split h sz pre b post =
     (let leftover = bsize b - sz;
          min_split = HDR + kernel_heap_guard_size h + BLOCK_ALIGN
      in if min_split \<le> leftover
         then let s = split_header h sz b; b' = b\<lparr>bsize := sz\<rparr>
              in (kernel_heap_set_guard s (h\<lparr>heap_list := pre @ b' # s # post\<rparr>), b', s # post)
         else (h, b, post))"

definition heap_take :: "kheap \<Rightarrow> nat \<Rightarrow> block_header list \<Rightarrow> block_header \<Rightarrow> block_header list
    \<Rightarrow> kheap \<times> nat" where
  "heap_take h sz pre b post =
     (let (h1, b', post') = heap_split h sz pre b post;
          nxt = (case first_addr post' of Some a \<Rightarrow> Some a | None \<Rightarrow> first_addr (heap_list h1));
          h2 = h1\<lparr>rover := nxt,
                  heap_list := map (\<lambda>c. if addr c = addr b then c\<lparr>free := False\<rparr> else c)
                                   (heap_list h1)\<rparr>
      in (kernel_heap_set_guard b' h2, w32 (addr b + HDR)))"

text \<open>The block with a given address splits the list in what precedes it, itself and the rest.\<close>

definition heap_at :: "nat \<Rightarrow> block_header list
    \<Rightarrow> (block_header list \<times> block_header \<times> block_header list) option" where
  "heap_at a bs = (case dropWhile (\<lambda>b. addr b \<noteq> a) bs of
       [] \<Rightarrow> None
     | b # post \<Rightarrow> Some (takeWhile (\<lambda>b. addr b \<noteq> a) bs, b, post))"

definition heap_append :: "kheap \<Rightarrow> nat \<Rightarrow> heap_panic + kheap \<times> nat" where
  "heap_append h sz =
     (let gs = kernel_heap_guard_size h;
          cur = (if PAGE_SIZE \<le> sz then page_align (current_heap h) else current_heap h);
          cur' = w32 (cur + HDR + w32 (sz + gs))
      in if HEAP_END < cur' then Inl Out_of_heap
         else let b = new_header h cur sz False;
                  h1 = h\<lparr>current_heap := cur', heap_list := heap_list h @ [b]\<rparr>
              in Inr (kernel_heap_set_guard b h1, w32 (cur + HDR)))"

definition heap_first :: "kheap \<Rightarrow> nat \<Rightarrow> heap_panic + kheap \<times> nat" where
  "heap_first h sz =
     (let gs = kernel_heap_guard_size h;
          b = new_header h (current_heap h) sz False;
          cur' = w32 (current_heap h + HDR + w32 (sz + gs))
      in if HEAP_END < cur' then Inl Out_of_heap
         else Inr (kernel_heap_set_guard b
                     (h\<lparr>current_heap := cur', heap_list := [b], rover := Some (addr b)\<rparr>),
                   w32 (addr b + HDR)))"

definition heap_take_at :: "kheap \<Rightarrow> nat \<Rightarrow> nat \<Rightarrow> heap_panic + kheap \<times> nat" where
  "heap_take_at h sz a = (case heap_at a (heap_list h) of
       None \<Rightarrow> Inl Not_a_block
     | Some (pre, b, post) \<Rightarrow> Inr (heap_take h sz pre b post))"

definition kernel_malloc :: "nat \<Rightarrow> kheap \<Rightarrow> heap_panic + kheap \<times> nat" where
  "kernel_malloc n h =
     (let sz = align n in
      if heap_list h = [] then heap_first h sz
      else
        let rov = (case rover h of Some r \<Rightarrow> r | None \<Rightarrow> addr (hd (heap_list h)));
            h0 = h\<lparr>rover := Some rov\<rparr>
        in case heap_scan h0 sz None (dropWhile (\<lambda>b. addr b \<noteq> rov) (heap_list h)) of
             Inl p \<Rightarrow> Inl p
           | Inr (Some a) \<Rightarrow> heap_take_at h0 sz a
           | Inr None \<Rightarrow>
               (case heap_scan h0 sz (Some rov) (heap_list h) of
                  Inl p \<Rightarrow> Inl p
                | Inr (Some a) \<Rightarrow> heap_take_at h0 sz a
                | Inr None \<Rightarrow> heap_append h0 sz))"

subsection \<open>kernel_free\<close>

text \<open>The forward coalescing loop, over the blocks after the freed one.\<close>

fun heap_coalesce :: "block_header \<Rightarrow> block_header list \<Rightarrow> nat option
    \<Rightarrow> block_header \<times> block_header list \<times> nat option" where
  "heap_coalesce b [] rov = (b, [], rov)"
| "heap_coalesce b (n # ns) rov =
     (if free n \<and> addr n = w32 (addr b + HDR + bsize b + block_guard_size b)
      then heap_coalesce (b\<lparr>bsize := w32 (bsize b + HDR + bsize n + block_guard_size n)\<rparr>) ns
             (if rov = Some (addr n) then Some (addr b) else rov)
      else (b, n # ns, rov))"

definition kernel_free :: "nat \<Rightarrow> kheap \<Rightarrow> heap_panic + kheap" where
  "kernel_free ptr h =
     (if ptr = 0 then Inr h
      else if ptr < HEAP_START + HDR \<or> HEAP_END \<le> ptr then Inl Free_out_of_range
      else case heap_at (ptr - HDR) (heap_list h) of
             None \<Rightarrow> Inl Not_a_block
           | Some (pre, b, post) \<Rightarrow>
               (case kernel_heap_check_block h b (first_addr post) of
                  Some p \<Rightarrow> Inl p
                | None \<Rightarrow>
                    if free b then Inl Double_free
                    else let (b', post', rov) = heap_coalesce (b\<lparr>free := True\<rparr>) post (rover h)
                         in Inr (h\<lparr>heap_list := pre @ b' # post', rover := rov\<rparr>)))"

subsection \<open>The aligned variants\<close>

definition align_up :: "nat \<Rightarrow> nat \<Rightarrow> nat" where
  "align_up x a = unat (((word_of_nat x :: u32) + (word_of_nat a - 1))
                        AND NOT (word_of_nat a - 1))"

definition kernel_malloc_align :: "nat \<Rightarrow> nat \<Rightarrow> kheap \<Rightarrow> heap_panic + kheap \<times> nat" where
  "kernel_malloc_align al n h =
     (case kernel_malloc (w32 (n + al + 2 ^ 32 - 1 + 4)) h of
        Inl p \<Rightarrow> Inl p
      | Inr (h', raw) \<Rightarrow>
          let aligned = align_up (w32 (raw + 4)) al
          in Inr (store_word (sub32 aligned 4) raw h', aligned))"

definition kernel_free_align :: "nat \<Rightarrow> kheap \<Rightarrow> heap_panic + kheap" where
  "kernel_free_align p h = (if p = 0 then Inr h else kernel_free (words h (sub32 p 4)) h)"

subsection \<open>The invariant and what it gives\<close>

definition block_end :: "block_header \<Rightarrow> nat" where
  "block_end b = addr b + HDR + bsize b + block_guard_size b"

definition block_ok :: "kheap \<Rightarrow> block_header \<Rightarrow> bool" where
  "block_ok h b \<longleftrightarrow> HEAP_START \<le> addr b \<and> magic b = HEAP_MAGIC \<and> guard b = debug_mode h
     \<and> (guard b \<longrightarrow> words h (addr b + HDR + bsize b) = HEAP_GUARD)
     \<and> block_end b \<le> current_heap h"

definition tiled :: "block_header list \<Rightarrow> bool" where
  "tiled bs \<longleftrightarrow> sorted_wrt (\<lambda>b c. block_end b \<le> addr c) bs"

definition heap_inv :: "kheap \<Rightarrow> bool" where
  "heap_inv h \<longleftrightarrow> tiled (heap_list h) \<and> (\<forall>b \<in> set (heap_list h). block_ok h b)
     \<and> HEAP_START \<le> current_heap h \<and> current_heap h \<le> HEAP_END
     \<and> (\<forall>r. rover h = Some r \<longrightarrow> r \<in> addr ` set (heap_list h))"

definition heap_allocated :: "kheap \<Rightarrow> (nat \<times> nat) set" where
  "heap_allocated h = (\<lambda>b. (addr b + HDR, bsize b)) ` set (filter (\<lambda>b. \<not> free b) (heap_list h))"

lemmas heap_consts = HEAP_START_def HEAP_SIZE_def HEAP_END_def HEAP_MAGIC_def HEAP_GUARD_def
  HEAP_GUARD_SIZE_def BLOCK_ALIGN_def PAGE_SIZE_def HDR_def w32_def

lemma HEAP_END_val: "HEAP_END = 0xD1000000"
  by (simp add: heap_consts)

lemma block_end_gt: "addr b < block_end b"
  by (simp add: block_end_def heap_consts)

lemma tiled_addr_less:
  assumes "tiled (pre @ b # post)"
  shows "\<forall>c \<in> set pre. block_end c \<le> addr b" "\<forall>c \<in> set post. block_end b \<le> addr c"
  using assms by (auto simp: tiled_def sorted_wrt_append)

lemma tiled_other_addr:
  assumes "tiled (pre @ b # post)" "c \<in> set pre \<union> set post" "addr b \<le> a" "a < block_end b"
  shows "addr c \<noteq> a"
  using assms tiled_addr_less [OF assms(1)] block_end_gt [of c] by fastforce

lemma store_word_list:
  "\<forall>c \<in> set (heap_list h). addr c \<noteq> a \<Longrightarrow> heap_list (store_word a v h) = heap_list h"
  by (simp add: store_word_def map_idI)

lemma store_word_fields [simp]:
  "current_heap (store_word a v h) = current_heap h"
  "debug_mode (store_word a v h) = debug_mode h"
  "rover (store_word a v h) = rover h"
  "words (store_word a v h) = (words h)(a := v)"
  by (simp_all add: store_word_def)

lemma block_ok_bounds:
  assumes "heap_inv h" "b \<in> set (heap_list h)"
  shows "block_end b \<le> 0xD1000000" "HEAP_START \<le> addr b"
  using assms HEAP_END_val by (fastforce simp: heap_inv_def block_ok_def)+

lemma w32_block:
  assumes "block_end b \<le> 0xD1000000" "a \<le> block_end b"
  shows "w32 a = a"
proof (rule w32_id)
  show "a < 2 ^ 32" using assms by simp
qed

lemma check_block_None:
  assumes "block_ok h b" "current_heap h \<le> HEAP_END"
    and "\<forall>n. nxt = Some n \<longrightarrow> HEAP_START \<le> n \<and> n + HDR \<le> HEAP_END"
  shows "kernel_heap_check_block h b nxt = None"
proof -
  have e: "block_end b \<le> 0xD1000000"
    using assms(1,2) HEAP_END_val by (simp add: block_ok_def)
  then have w: "w32 (addr b + HDR) = addr b + HDR" "w32 (addr b + HDR + bsize b) = addr b + HDR + bsize b"
    "w32 (block_end b) = block_end b"
    by (rule w32_block, simp add: block_end_def)+
  have lo: "HEAP_START \<le> addr b" using assms(1) by (simp add: block_ok_def)
  have sz: "bsize b \<le> HEAP_SIZE" "addr b + HDR \<le> HEAP_END"
    using e lo by (simp_all add: block_end_def HEAP_END_val HEAP_START_def HEAP_SIZE_def)
  have n: "w32 (n + HDR) = n + HDR" if "nxt = Some n" for n
  proof (rule w32_id)
    have "n + HDR \<le> HEAP_END" using assms(3) that by simp
    then show "n + HDR < 2 ^ 32" using HEAP_END_val by simp
  qed
  have c1: "\<not> (addr b < HEAP_START \<or> HEAP_END < w32 (addr b + HDR))"
    using assms(1) w(1) sz(2) by (simp add: block_ok_def)
  have c2: "\<not> (HEAP_SIZE < bsize b
      \<or> HEAP_END < w32 (addr b + HDR + bsize b + block_guard_size b))"
    using sz(1) w(3) e HEAP_END_val by (simp add: block_end_def)
  have c3: "\<not> (guard b \<and> words h (w32 (addr b + HDR + bsize b)) \<noteq> HEAP_GUARD)"
    using assms(1) w(2) by (simp add: block_ok_def)
  have c4: "magic b = HEAP_MAGIC" using assms(1) by (simp add: block_ok_def)
  have c5: "(case nxt of None \<Rightarrow> None | Some n \<Rightarrow>
      if n < HEAP_START \<or> HEAP_END < w32 (n + HDR) then Some Next_corrupted else None) = None"
    using assms(3) n by (cases nxt) auto
  show ?thesis
    unfolding kernel_heap_check_block_def c5 using c1 c2 c3 c4 by simp
qed

lemma heap_scan_result:
  assumes "\<forall>b \<in> set bs. block_ok h b" "current_heap h \<le> HEAP_END"
  shows "\<exists>r. heap_scan h sz stop bs = Inr r
     \<and> (\<forall>a. r = Some a \<longrightarrow> (\<exists>b \<in> set bs. addr b = a \<and> free b \<and> sz \<le> bsize b))"
  using assms
proof (induction bs)
  case Nil
  then show ?case by simp
next
  case (Cons b bs)
  have "kernel_heap_check_block h b (first_addr bs) = None"
  proof (rule check_block_None)
    show "block_ok h b" "current_heap h \<le> HEAP_END" using Cons.prems by auto
    show "\<forall>n. first_addr bs = Some n \<longrightarrow> HEAP_START \<le> n \<and> n + HDR \<le> HEAP_END"
      using Cons.prems by (cases bs) (auto simp: block_ok_def block_end_def)
  qed
  then show ?case using Cons by auto
qed

lemma heap_scan_none:
  assumes "heap_scan h sz None bs = Inr None"
  shows "\<forall>b \<in> set bs. \<not> (free b \<and> sz \<le> bsize b)"
  using assms by (induction bs) (auto split: option.splits if_splits)

lemma heap_scan_none_stop:
  assumes "heap_scan h sz (Some r) bs = Inr None"
  shows "\<forall>b \<in> set (takeWhile (\<lambda>b. addr b \<noteq> r) bs). \<not> (free b \<and> sz \<le> bsize b)"
  using assms by (induction bs) (auto split: option.splits if_splits)

lemma heap_at_Some:
  "heap_at a bs = Some (pre, b, post) \<Longrightarrow> bs = pre @ b # post \<and> addr b = a"
  unfolding heap_at_def
  by (auto split: list.splits dest: hd_dropWhile simp: dropWhile_eq_Cons_conv)

lemma heap_at_mem: "a \<in> addr ` set bs \<Longrightarrow> \<exists>pre b post. heap_at a bs = Some (pre, b, post)"
  unfolding heap_at_def by (auto split: list.splits simp: dropWhile_eq_Nil_conv)


lemma split_header_sel:
  assumes "block_end b \<le> 0xD1000000" "sz \<le> bsize b" "guard b = debug_mode h"
    "HDR + kernel_heap_guard_size h + BLOCK_ALIGN \<le> bsize b - sz"
  shows "addr (split_header h sz b) = addr b + HDR + sz + kernel_heap_guard_size h"
    "bsize (split_header h sz b) = bsize b - sz - (HDR + kernel_heap_guard_size h)"
    "magic (split_header h sz b) = HEAP_MAGIC" "free (split_header h sz b)"
    "guard (split_header h sz b) = debug_mode h"
    "block_end (split_header h sz b) = block_end b"
    "addr (split_header h sz b) = block_end (b\<lparr>bsize := sz, free := False\<rparr>)"
proof -
  have a: "w32 (addr b + HDR + sz + kernel_heap_guard_size h) = addr b + HDR + sz + kernel_heap_guard_size h"
    using assms by (intro w32_block [of b]) (auto simp: block_end_def)
  have z: "sub32 (bsize b - sz) (HDR + kernel_heap_guard_size h) = bsize b - sz - (HDR + kernel_heap_guard_size h)"
    using assms(4) by (simp add: sub32_le)
  have g: "block_guard_size b = kernel_heap_guard_size h"
    using assms(3) by (simp add: block_guard_size_def kernel_heap_guard_size_def)
  show "addr (split_header h sz b) = addr b + HDR + sz + kernel_heap_guard_size h"
    "bsize (split_header h sz b) = bsize b - sz - (HDR + kernel_heap_guard_size h)"
    "magic (split_header h sz b) = HEAP_MAGIC" "free (split_header h sz b)"
    "guard (split_header h sz b) = debug_mode h"
    using a z by (simp_all add: split_header_def new_header_def Let_def)
  then show "block_end (split_header h sz b) = block_end b"
    "addr (split_header h sz b) = block_end (b\<lparr>bsize := sz, free := False\<rparr>)"
    using assms g by (auto simp: block_end_def block_guard_size_def kernel_heap_guard_size_def)
qed



lemma map_addr_upd:
  assumes "\<forall>c \<in> set pre \<union> set post. addr c \<noteq> addr b"
  shows "map (\<lambda>c. if addr c = addr b then f c else c) (pre @ b # post) = pre @ f b # post"
  using assms by (auto intro!: map_idI)

text \<open>What writing a guard does to a heap whose list is tiled around the block.\<close>

lemma guard_step:
  assumes l: "heap_list g = pre @ c # post" and e: "block_end c \<le> 0xD1000000"
    and t: "tiled (pre @ c # post)"
  shows "heap_list (kernel_heap_set_guard c g) = heap_list g"
    "current_heap (kernel_heap_set_guard c g) = current_heap g"
    "debug_mode (kernel_heap_set_guard c g) = debug_mode g"
    "rover (kernel_heap_set_guard c g) = rover g"
    "words (kernel_heap_set_guard c g) a =
       (if guard c \<and> a = addr c + HDR + bsize c then HEAP_GUARD else words g a)"
proof -
  let ?a = "addr c + HDR + bsize c"
  have w: "w32 ?a = ?a"
    using e by (intro w32_block [of c]) (auto simp: block_end_def)
  have "\<forall>d \<in> set (heap_list g). addr d \<noteq> ?a" if "guard c"
  proof
    fix d assume d: "d \<in> set (heap_list g)"
    have lt: "addr c < ?a" "?a < block_end c"
      using that by (simp_all add: block_end_def block_guard_size_def HEAP_GUARD_SIZE_def HDR_def)
    show "addr d \<noteq> ?a"
    proof (cases "d = c")
      case True
      with lt show ?thesis by simp
    next
      case False
      with d l have "d \<in> set pre \<union> set post" by auto
      from tiled_other_addr [OF t this, of ?a] lt show ?thesis by simp
    qed
  qed
  then show "heap_list (kernel_heap_set_guard c g) = heap_list g"
    by (auto simp: kernel_heap_set_guard_def w store_word_list)
  show "current_heap (kernel_heap_set_guard c g) = current_heap g"
    "debug_mode (kernel_heap_set_guard c g) = debug_mode g"
    "rover (kernel_heap_set_guard c g) = rover g"
    "words (kernel_heap_set_guard c g) a =
       (if guard c \<and> a = addr c + HDR + bsize c then HEAP_GUARD else words g a)"
    by (simp_all add: kernel_heap_set_guard_def w)
qed

lemma tiled_mid:
  "tiled (pre @ b # post) \<longleftrightarrow> tiled pre \<and> tiled post
     \<and> (\<forall>c \<in> set pre. block_end c \<le> addr b \<and> (\<forall>d \<in> set post. block_end c \<le> addr d))
     \<and> (\<forall>d \<in> set post. block_end b \<le> addr d)"
  by (auto simp: tiled_def sorted_wrt_append)

text \<open>
  A block that the allocator may write: everything of \<open>block_ok\<close> but the guard word, which
  \<open>kernel_heap_set_guard\<close> restores.
\<close>

definition head_ok :: "kheap \<Rightarrow> block_header \<Rightarrow> bool" where
  "head_ok h b \<longleftrightarrow> HEAP_START \<le> addr b \<and> magic b = HEAP_MAGIC \<and> guard b = debug_mode h
     \<and> block_end b \<le> current_heap h"

definition guard_ok :: "kheap \<Rightarrow> block_header \<Rightarrow> bool" where
  "guard_ok h b \<longleftrightarrow> (guard b \<longrightarrow> words h (addr b + HDR + bsize b) = HEAP_GUARD)"

lemma block_ok_split: "block_ok h b \<longleftrightarrow> head_ok h b \<and> guard_ok h b"
  by (auto simp: block_ok_def head_ok_def guard_ok_def)

lemma head_ok_free [simp]: "head_ok h (b\<lparr>free := f\<rparr>) = head_ok h b"
  by (simp add: head_ok_def block_end_def block_guard_size_def)


definition alloc_of :: "block_header list \<Rightarrow> (nat \<times> nat) set" where
  "alloc_of bs = (\<lambda>b. (addr b + HDR, bsize b)) ` set (filter (\<lambda>b. \<not> free b) bs)"

lemma alloc_of_append [simp]: "alloc_of (xs @ ys) = alloc_of xs \<union> alloc_of ys"
  by (simp add: alloc_of_def image_Un)

lemma alloc_of_Cons [simp]:
  "alloc_of (b # bs) = (if free b then {} else {(addr b + HDR, bsize b)}) \<union> alloc_of bs"
  by (simp add: alloc_of_def)

lemma alloc_of_Nil [simp]: "alloc_of [] = {}"
  by (simp add: alloc_of_def)

lemma block_ok_mono:
  "block_ok h c \<Longrightarrow> debug_mode g = debug_mode h \<Longrightarrow> current_heap h \<le> current_heap g
    \<Longrightarrow> (guard c \<Longrightarrow> words g (addr c + HDR + bsize c) = words h (addr c + HDR + bsize c)) \<Longrightarrow> block_ok g c"
  by (auto simp: block_ok_def)

lemma guard_word_in: "guard c \<Longrightarrow> addr c < addr c + HDR + bsize c \<and> addr c + HDR + bsize c < block_end c"
  by (simp add: block_end_def block_guard_size_def HEAP_GUARD_SIZE_def HDR_def)

lemma tiled_Nil [simp]: "tiled []"
  by (simp add: tiled_def)

lemma tiled_Cons: "tiled (b # bs) \<longleftrightarrow> tiled bs \<and> (\<forall>c \<in> set bs. block_end b \<le> addr c)"
  by (auto simp: tiled_def)

lemma tiled_ne: "tiled (pre @ b # post) \<Longrightarrow> \<forall>c \<in> set pre \<union> set post. addr c \<noteq> addr b"
  using tiled_other_addr [of pre b post _ "addr b"] block_end_gt [of b] by blast

text \<open>Marking a block of a tiled list as taken and writing its guard word.\<close>

lemma heap_mark_ok:
  assumes l: "heap_list g = pre @ b # post" and t: "tiled (pre @ b # post)"
    and oth: "\<forall>c \<in> set pre \<union> set post. block_ok g c"
    and hd: "head_ok g b" and cur: "current_heap g \<le> HEAP_END"
    and nxt: "nxt = Some r" "r \<in> addr ` set (heap_list g)"
    and h': "h' = kernel_heap_set_guard b (g\<lparr>rover := nxt,
        heap_list := map (\<lambda>c. if addr c = addr b then c\<lparr>free := False\<rparr> else c) (heap_list g)\<rparr>)"
  shows "heap_inv h'" "heap_allocated h' = insert (addr b + HDR, bsize b) (alloc_of (pre @ post))"
    "\<And>a. words h' a \<noteq> words g a \<Longrightarrow> addr b \<le> a \<and> a < block_end b"
    "debug_mode h' = debug_mode g"
proof -
  let ?b = "b\<lparr>free := False\<rparr>"
  let ?g = "g\<lparr>rover := nxt, heap_list := pre @ ?b # post\<rparr>"
  have ne: "\<forall>c \<in> set pre \<union> set post. addr c \<noteq> addr b"
    using tiled_ne [OF t] .
  have h'2: "h' = kernel_heap_set_guard ?b ?g"
    unfolding h' l map_addr_upd [OF ne] by (simp add: kernel_heap_set_guard_def)
  have be: "block_end ?b = block_end b" by (simp add: block_end_def block_guard_size_def)
  have t2: "tiled (pre @ ?b # post)" using t be by (simp add: tiled_mid)
  have e: "block_end ?b \<le> 0xD1000000" using hd cur HEAP_END_val be by (simp add: head_ok_def)
  note gs = guard_step [of ?g pre ?b post, OF _ e t2, folded h'2, simplified]
  have oth': "block_ok h' c" if c: "c \<in> set pre \<union> set post" for c
  proof (rule block_ok_mono)
    show "block_ok g c" using oth c by blast
    assume gc: "guard c"
    have "addr c + HDR + bsize c \<noteq> addr b + HDR + bsize b" if gb: "guard b"
      using guard_word_in [OF gc] guard_word_in [OF gb] tiled_addr_less [OF t] c by fastforce
    then show "words h' (addr c + HDR + bsize c) = words g (addr c + HDR + bsize c)"
      using gs(5) by auto
  qed (use gs in auto)
  have hb: "block_ok h' ?b"
    using hd gs be by (auto simp: block_ok_def head_ok_def)
  have cl: "HEAP_START \<le> current_heap g" using hd block_end_gt [of b] by (simp add: head_ok_def)
  have rr: "addr ` set (heap_list g) = addr ` set (heap_list h')" using gs l by auto
  show "heap_inv h'"
    unfolding heap_inv_def using gs t2 oth' hb cl cur nxt rr by auto
  show "heap_allocated h' = insert (addr b + HDR, bsize b) (alloc_of (pre @ post))"
    unfolding heap_allocated_def alloc_of_def [symmetric] using gs by auto
  show "addr b \<le> a \<and> a < block_end b" if "words h' a \<noteq> words g a" for a
    using that gs(5) [of a] guard_word_in [of b] by (auto split: if_splits)
  show "debug_mode h' = debug_mode g" using gs by simp
qed

text \<open>Taking a free block that is large enough, split or whole.\<close>

lemma heap_take_whole:
  assumes "\<not> HDR + kernel_heap_guard_size h + BLOCK_ALIGN \<le> bsize b - sz"
  shows "heap_split h sz pre b post = (h, b, post)"
  using assms by (simp add: heap_split_def Let_def)

lemma heap_split_ok:
  assumes l: "heap_list h = pre @ b # post" and inv: "heap_inv h" and sz: "sz \<le> bsize b"
    and c: "HDR + kernel_heap_guard_size h + BLOCK_ALIGN \<le> bsize b - sz"
    and s: "s = split_header h sz b" and b': "b' = b\<lparr>bsize := sz\<rparr>"
    and g: "g = kernel_heap_set_guard s (h\<lparr>heap_list := pre @ b' # s # post\<rparr>)"
  shows "heap_split h sz pre b post = (g, b', s # post)"
    "heap_list g = pre @ b' # s # post" "tiled (pre @ b' # s # post)"
    "current_heap g = current_heap h" "debug_mode g = debug_mode h"
    "\<forall>c \<in> set pre \<union> set (s # post). block_ok g c" "head_ok g b'" "free s"
    "\<And>a. words g a \<noteq> words h a \<Longrightarrow> addr b \<le> a \<and> a < block_end b"
    "block_end b' \<le> block_end b"
proof -
  have bm: "b \<in> set (heap_list h)" using l by simp
  have e: "block_end b \<le> 0xD1000000" using block_ok_bounds(1) [OF inv bm] .
  have tl: "tiled (pre @ b # post)" using inv l by (simp add: heap_inv_def)
  have hb: "head_ok h b" using inv bm by (auto simp: heap_inv_def block_ok_split)
  then have gd: "guard b = debug_mode h" by (simp add: head_ok_def)
  note sh = split_header_sel [OF e sz gd c, folded s]
  have sh7: "addr s = block_end b'" using sh(7) b' by (simp add: block_end_def block_guard_size_def)
  have eb': "block_end b' \<le> block_end b"
    using sh(6,7) block_end_gt [of s] sh7 by simp
  then show "block_end b' \<le> block_end b" .
  have tn: "tiled (pre @ b' # s # post)"
  proof -
    have ab: "addr b' = addr b" "addr b \<le> addr s"
      using b' sh7 block_end_gt [of b'] by simp_all
    show ?thesis
      using tl sh(6) sh7 ab eb' by (auto simp: tiled_mid tiled_Cons intro: order_trans)
  qed
  then show "tiled (pre @ b' # s # post)" .
  have es: "block_end s \<le> 0xD1000000" using sh(6) e by simp
  note gs = guard_step [of "h\<lparr>heap_list := pre @ b' # s # post\<rparr>" "pre @ [b']" s post, simplified,
      OF es tn, folded g]
  show "heap_split h sz pre b post = (g, b', s # post)"
    using c unfolding heap_split_def Let_def s b' g by simp
  show "heap_list g = pre @ b' # s # post" "current_heap g = current_heap h"
    "debug_mode g = debug_mode h" using gs by simp_all
  show "free s" using sh(4) .
  show "head_ok g b'"
    using hb eb' gs b' by (simp add: head_ok_def)
  have wd: "addr b \<le> a \<and> a < block_end b" if "words g a \<noteq> words h a" for a
    using that gs(5) [of a] guard_word_in [of s] sh(6) sh7 block_end_gt [of b'] b'
    by (auto split: if_splits)
  then show "\<And>a. words g a \<noteq> words h a \<Longrightarrow> addr b \<le> a \<and> a < block_end b" .
  have ok: "block_ok g d" if d: "d \<in> set pre \<union> set post" for d
  proof (rule block_ok_mono)
    show "block_ok h d" using d inv l by (auto simp: heap_inv_def)
    assume "guard d"
    then show "words g (addr d + HDR + bsize d) = words h (addr d + HDR + bsize d)"
      using wd [of "addr d + HDR + bsize d"] guard_word_in [of d] tiled_addr_less [OF tl] d by fastforce
  qed (use gs in auto)
  have "block_ok g s"
    using gs sh hb sh7 block_end_gt [of b'] b' by (auto simp: block_ok_def head_ok_def)
  with ok show "\<forall>c \<in> set pre \<union> set (s # post). block_ok g c" by auto
qed

lemma heap_take_ok:
  assumes l: "heap_list h = pre @ b # post" and inv: "heap_inv h" and sz: "sz \<le> bsize b"
    and f: "free b" and r: "heap_take h sz pre b post = (h', p)"
  shows "heap_inv h' \<and> p = addr b + HDR \<and> debug_mode h' = debug_mode h
     \<and> (\<exists>s. sz \<le> s \<and> s \<le> bsize b \<and> heap_allocated h' = insert (p, s) (heap_allocated h))
     \<and> (\<forall>a. words h' a \<noteq> words h a \<longrightarrow> addr b \<le> a \<and> a < block_end b)"
proof -
  have bm: "b \<in> set (heap_list h)" using l by simp
  have e: "block_end b \<le> 0xD1000000" using block_ok_bounds(1) [OF inv bm] .
  have cur: "current_heap h \<le> HEAP_END" using inv by (simp add: heap_inv_def)
  have al: "heap_allocated h = alloc_of (pre @ post)"
    unfolding heap_allocated_def alloc_of_def [symmetric] l using f by simp
  have p: "w32 (addr b + HDR) = addr b + HDR"
    using e by (intro w32_block [of b]) (auto simp: block_end_def)
  show ?thesis
  proof (cases "HDR + kernel_heap_guard_size h + BLOCK_ALIGN \<le> bsize b - sz")
    case True
    define s b' g where d: "s = split_header h sz b" "b' = b\<lparr>bsize := sz\<rparr>"
      "g = kernel_heap_set_guard s (h\<lparr>heap_list := pre @ b' # s # post\<rparr>)"
    note sp = heap_split_ok [OF l inv sz True d]
    have b': "addr b' = addr b" "bsize b' = sz" by (simp_all add: d)
    have r2: "h' = kernel_heap_set_guard b' (g\<lparr>rover := Some (addr s),
        heap_list := map (\<lambda>c. if addr c = addr b' then c\<lparr>free := False\<rparr> else c) (heap_list g)\<rparr>)"
      and p2: "p = addr b + HDR"
      using r p by (auto simp: heap_take_def sp(1) Let_def d)
    note m = heap_mark_ok [OF sp(2,3,6,7) _ refl _ r2]
    have c': "current_heap g \<le> HEAP_END" "addr s \<in> addr ` set (heap_list g)" using cur sp by auto
    note m = m [OF c']
    have "heap_allocated h' = insert (p, sz) (heap_allocated h)"
      using m(2) al sp(8) p2 b' by simp
    moreover have "\<forall>a. words h' a \<noteq> words h a \<longrightarrow> addr b \<le> a \<and> a < block_end b"
      using m(3) sp(9,10) b' by (metis order_less_le_trans)
    ultimately show ?thesis using m(1,4) p2 sz sp(5) by auto
  next
    case False
    note sp = heap_take_whole [OF False, of pre post]
    obtain r1 where r1: "(case first_addr post of Some a \<Rightarrow> Some a | None \<Rightarrow> first_addr (heap_list h)) = Some r1"
      "r1 \<in> addr ` set (heap_list h)"
      using l by (cases post; cases pre) auto
    have r2: "h' = kernel_heap_set_guard b (h\<lparr>rover := Some r1,
        heap_list := map (\<lambda>c. if addr c = addr b then c\<lparr>free := False\<rparr> else c) (heap_list h)\<rparr>)"
      and p2: "p = addr b + HDR"
      using r p r1 by (auto simp: heap_take_def sp Let_def)
    have o: "tiled (pre @ b # post)" "\<forall>c \<in> set pre \<union> set post. block_ok h c" "head_ok h b"
      using inv l by (auto simp: heap_inv_def block_ok_split)
    note m = heap_mark_ok [OF l o cur refl r1(2) r2]
    show ?thesis using m(1-4) al p2 sz by auto
  qed
qed

subsection \<open>Sizes, new blocks and kernel_malloc\<close>

lemma align_val: "n \<le> HEAP_SIZE \<Longrightarrow> align n = (n + 7) div 8 * 8"
proof -
  assume "n \<le> HEAP_SIZE"
  then have "n + 7 < 2 ^ 32" by (simp add: HEAP_SIZE_def)
  then have "w32 (n + (BLOCK_ALIGN - 1)) = n + 7" by (simp add: w32_id BLOCK_ALIGN_def)
  then show ?thesis by (simp add: align_def push_bit_eq_mult drop_bit_eq_div)
qed

lemma align_ge: "n \<le> HEAP_SIZE \<Longrightarrow> n \<le> align n"
  by (simp add: align_val)

lemma align_le: "n \<le> HEAP_SIZE \<Longrightarrow> align n \<le> HEAP_SIZE"
  by (simp add: align_val HEAP_SIZE_def)

lemma page_align_val: "a \<le> HEAP_END \<Longrightarrow> page_align a = (a + 4095) div 4096 * 4096"
proof -
  assume "a \<le> HEAP_END"
  then have "a + 4095 < 2 ^ 32" by (simp add: HEAP_END_val)
  then have "w32 (a + (PAGE_SIZE - 1)) = a + 4095" by (simp add: w32_id PAGE_SIZE_def)
  then show ?thesis by (simp add: page_align_def push_bit_eq_mult drop_bit_eq_div)
qed

lemma page_align_ge: "a \<le> HEAP_END \<Longrightarrow> a \<le> page_align a"
  by (simp add: page_align_val)

lemma page_align_le: "a \<le> HEAP_END \<Longrightarrow> page_align a \<le> HEAP_END"
  by (simp add: page_align_val HEAP_END_val)

lemma guard_size_le: "kernel_heap_guard_size h \<le> 4"
  by (simp add: kernel_heap_guard_size_def HEAP_GUARD_SIZE_def)

lemma new_end_no_wrap:
  assumes "cur \<le> HEAP_END" "sz \<le> HEAP_SIZE"
  shows "w32 (cur + HDR + w32 (sz + kernel_heap_guard_size h)) = cur + HDR + sz + kernel_heap_guard_size h"
proof -
  have "cur + HDR + sz + kernel_heap_guard_size h < 2 ^ 32" "sz + kernel_heap_guard_size h < 2 ^ 32"
    using assms guard_size_le [of h] by (simp_all add: HEAP_END_val HEAP_SIZE_def HDR_def)
  then show ?thesis by (simp add: w32_id add.assoc)
qed

lemma new_header_sel [simp]:
  "addr (new_header h a sz f) = a" "bsize (new_header h a sz f) = sz"
  "magic (new_header h a sz f) = HEAP_MAGIC" "free (new_header h a sz f) = f"
  "guard (new_header h a sz f) = debug_mode h"
  "block_end (new_header h a sz f) = a + HDR + sz + kernel_heap_guard_size h"
  by (simp_all add: new_header_def block_end_def block_guard_size_def kernel_heap_guard_size_def)

text \<open>A new block behind the last one.\<close>

lemma heap_new_ok:
  assumes inv: "heap_inv h" and lo: "current_heap h \<le> cur"
    and fit: "cur + HDR + sz + kernel_heap_guard_size h \<le> HEAP_END"
    and b: "b = new_header h cur sz False"
    and r: "rov = Some r" "r = cur \<or> r \<in> addr ` set (heap_list h)"
    and h': "h' = kernel_heap_set_guard b (h\<lparr>current_heap := block_end b,
        heap_list := heap_list h @ [b], rover := rov\<rparr>)"
  shows "heap_inv h'" "heap_allocated h' = insert (cur + HDR, sz) (heap_allocated h)"
    "debug_mode h' = debug_mode h" "\<And>a. words h' a \<noteq> words h a \<Longrightarrow> current_heap h \<le> a"
proof -
  have be: "block_end b = cur + HDR + sz + kernel_heap_guard_size h" by (simp add: b)
  have e: "block_end b \<le> 0xD1000000" using fit be HEAP_END_val by simp
  have ok: "\<forall>c \<in> set (heap_list h). block_ok h c" and t0: "tiled (heap_list h)"
    using inv by (auto simp: heap_inv_def)
  have t: "tiled (heap_list h @ [b])"
    using t0 ok lo b unfolding tiled_mid by (auto simp: block_ok_def)
  note gs = guard_step [of "h\<lparr>current_heap := block_end b, heap_list := heap_list h @ [b],
      rover := rov\<rparr>" "heap_list h" b "[]", simplified, OF e t, folded h']
  show w: "current_heap h \<le> a" if "words h' a \<noteq> words h a" for a
    using that gs(5) [of a] lo b by (auto split: if_splits)
  have oth: "block_ok h' c" if c: "c \<in> set (heap_list h)" for c
  proof (rule block_ok_mono)
    show "block_ok h c" using ok c by blast
    then show "guard c \<Longrightarrow> words h' (addr c + HDR + bsize c) = words h (addr c + HDR + bsize c)"
      using w [of "addr c + HDR + bsize c"] guard_word_in [of c] by (fastforce simp: block_ok_def)
    show "current_heap h \<le> current_heap h'" using gs(2) be lo by simp
  qed (use gs in auto)
  have bb: "block_ok h' b"
    using gs lo b inv by (auto simp: block_ok_def heap_inv_def)
  have "HEAP_START \<le> current_heap h'" "current_heap h' \<le> HEAP_END"
    using gs(2) be fit inv lo by (auto simp: heap_inv_def)
  then show "heap_inv h'"
    unfolding heap_inv_def using gs t oth bb r b by auto
  show "heap_allocated h' = insert (cur + HDR, sz) (heap_allocated h)"
    unfolding heap_allocated_def alloc_of_def [symmetric] using gs(1) b by simp
  show "debug_mode h' = debug_mode h" using gs by simp
qed

lemma heap_append_ok:
  assumes inv: "heap_inv h" and sz: "sz \<le> HEAP_SIZE" and rv: "rover h = Some r"
    and r: "heap_append h sz = Inr (h', p)"
  shows "heap_inv h' \<and> debug_mode h' = debug_mode h \<and> current_heap h + HDR \<le> p
     \<and> heap_allocated h' = insert (p, sz) (heap_allocated h)
     \<and> (\<forall>a. words h' a \<noteq> words h a \<longrightarrow> current_heap h \<le> a)"
proof -
  define cur where "cur = (if PAGE_SIZE \<le> sz then page_align (current_heap h) else current_heap h)"
  have cE: "current_heap h \<le> HEAP_END" using inv by (simp add: heap_inv_def)
  have cur: "current_heap h \<le> cur" "cur \<le> HEAP_END"
    using cE page_align_ge page_align_le by (simp_all add: cur_def)
  define b where "b = new_header h cur sz False"
  note nw = new_end_no_wrap [OF cur(2) sz, of h]
  have be: "block_end b = cur + HDR + sz + kernel_heap_guard_size h" by (simp add: b_def)
  have hr: "h\<lparr>current_heap := c, heap_list := l, rover := Some r\<rparr> = h\<lparr>current_heap := c, heap_list := l\<rparr>" for c l
    using rv by (cases h) simp
  have fit: "block_end b \<le> HEAP_END" and h': "h' = kernel_heap_set_guard b (h\<lparr>current_heap := block_end b,
        heap_list := heap_list h @ [b], rover := Some r\<rparr>)" and p: "p = w32 (cur + HDR)"
    using r hr unfolding heap_append_def Let_def cur_def [symmetric] nw b_def [symmetric] be
    by (auto split: if_splits)
  have "w32 (cur + HDR) = cur + HDR"
    using fit be HEAP_END_val by (intro w32_block [of b]) auto
  then have p2: "p = cur + HDR" using p by simp
  have "r = cur \<or> r \<in> addr ` set (heap_list h)" using inv rv by (simp add: heap_inv_def)
  note n = heap_new_ok [OF inv cur(1) fit [unfolded be] b_def refl this h']
  show ?thesis using n p2 cur(1) by auto
qed

lemma heap_first_ok:
  assumes inv: "heap_inv h" and sz: "sz \<le> HEAP_SIZE" and e: "heap_list h = []"
    and r: "heap_first h sz = Inr (h', p)"
  shows "heap_inv h' \<and> debug_mode h' = debug_mode h \<and> current_heap h + HDR \<le> p
     \<and> heap_allocated h' = insert (p, sz) (heap_allocated h)
     \<and> (\<forall>a. words h' a \<noteq> words h a \<longrightarrow> current_heap h \<le> a)"
proof -
  define b where "b = new_header h (current_heap h) sz False"
  have cE: "current_heap h \<le> HEAP_END" using inv by (simp add: heap_inv_def)
  note nw = new_end_no_wrap [OF cE sz, of h]
  have be: "block_end b = current_heap h + HDR + sz + kernel_heap_guard_size h" by (simp add: b_def)
  have ab: "addr b = current_heap h" by (simp add: b_def)
  have fit: "block_end b \<le> HEAP_END" and h': "h' = kernel_heap_set_guard b (h\<lparr>current_heap := block_end b,
        heap_list := heap_list h @ [b], rover := Some (current_heap h)\<rparr>)"
    and p: "p = w32 (current_heap h + HDR)"
    using r e unfolding heap_first_def Let_def nw b_def [symmetric] be ab
    by (auto split: if_splits)
  have "w32 (current_heap h + HDR) = current_heap h + HDR"
    using fit be HEAP_END_val by (intro w32_block [of b]) auto
  then have p2: "p = current_heap h + HDR" using p by simp
  note n = heap_new_ok [OF inv order_refl fit [unfolded be] b_def refl disjI1 [OF refl] h']
  show ?thesis using n p2 by auto
qed

text \<open>Where a block may lie: what separates it from the blocks in use.\<close>

definition apart :: "nat \<Rightarrow> nat \<Rightarrow> (nat \<times> nat) set \<Rightarrow> bool" where
  "apart p s A \<longleftrightarrow> (\<forall>(q, t) \<in> A. q + t + HDR \<le> p \<or> p + s + HDR \<le> q)"

lemma block_payload: "addr c + HDR + bsize c \<le> block_end c"
  by (simp add: block_end_def)

lemma free_block_apart:
  assumes "heap_inv h" "heap_list h = pre @ b # post" "free b" "s \<le> bsize b"
  shows "apart (addr b + HDR) s (heap_allocated h)"
proof -
  have t: "tiled (pre @ b # post)" using assms by (simp add: heap_inv_def)
  have "block_end c \<le> addr b \<or> block_end b \<le> addr c" if "c \<in> set (heap_list h)" "\<not> free c" for c
    using that assms(2,3) tiled_addr_less [OF t] by auto
  then show ?thesis
    using block_payload assms(4)
    unfolding apart_def heap_allocated_def by (fastforce simp: block_end_def)
qed

lemma allocated_block:
  assumes "heap_inv h" "(q, t) \<in> heap_allocated h"
  obtains c where "c \<in> set (heap_list h)" "\<not> free c" "q = addr c + HDR" "t = bsize c"
    "HEAP_START \<le> addr c" "q + t \<le> block_end c" "block_end c \<le> current_heap h"
    "current_heap h \<le> HEAP_END"
  using assms block_payload unfolding heap_allocated_def heap_inv_def block_ok_def by fastforce

lemma beyond_apart:
  assumes "heap_inv h" "current_heap h + HDR \<le> p"
  shows "apart p s (heap_allocated h)"
  unfolding apart_def
proof (intro ballI, clarify)
  fix q t assume "(q, t) \<in> heap_allocated h" "\<not> p + s + HDR \<le> q"
  then show "q + t + HDR \<le> p" using allocated_block [OF assms(1)] assms(2) by (smt (verit) add_mono_thms_linordered_semiring(3) order_trans)
qed


lemma heap_allocated_range:
  assumes "heap_inv h" "(p, s) \<in> heap_allocated h"
  shows "HEAP_START + HDR \<le> p" "p + s \<le> HEAP_END"
  using assms(1) allocated_block [OF assms] by (force intro: order_trans)+


definition untouched :: "kheap \<Rightarrow> kheap \<Rightarrow> bool" where
  "untouched h h' \<longleftrightarrow> (\<forall>(q, t) \<in> heap_allocated h. \<forall>a. q \<le> a \<and> a < q + t \<longrightarrow> words h' a = words h a)"

lemma untouched_take:
  assumes "heap_inv h" "heap_list h = pre @ b # post" "free b"
    and w: "\<forall>a. words h' a \<noteq> words h a \<longrightarrow> addr b \<le> a \<and> a < block_end b"
  shows "untouched h h'"
  unfolding untouched_def
proof (intro ballI, clarify)
  fix q s a assume q: "(q, s) \<in> heap_allocated h" "q \<le> a" "a < q + s"
  have t: "tiled (pre @ b # post)" using assms by (simp add: heap_inv_def)
  have d: "block_end c \<le> addr b \<or> block_end b \<le> addr c" if "c \<in> set (heap_list h)" "\<not> free c" for c
    using that assms(2,3) tiled_addr_less [OF t] by auto
  from allocated_block [OF assms(1) q(1)] obtain c where
    "c \<in> set (heap_list h)" "\<not> free c" "q = addr c + HDR" "q + s \<le> block_end c" by metis
  with d [of c] q have "\<not> (addr b \<le> a \<and> a < block_end b)" by auto
  with w show "words h' a = words h a" by blast
qed


lemma untouched_beyond:
  assumes "heap_inv h" "\<forall>a. words h' a \<noteq> words h a \<longrightarrow> current_heap h \<le> a"
  shows "untouched h h'"
  unfolding untouched_def
proof (intro ballI, clarify)
  fix q s a assume q: "(q, s) \<in> heap_allocated h" "q \<le> a" "a < q + s"
  from allocated_block [OF assms(1) q(1)] obtain c where
    "q + s \<le> block_end c" "block_end c \<le> current_heap h" by metis
  with q have "\<not> current_heap h \<le> a" by simp
  with assms(2) show "words h' a = words h a" by blast
qed


definition malloc_post :: "kheap \<Rightarrow> nat \<Rightarrow> kheap \<Rightarrow> nat \<Rightarrow> nat \<Rightarrow> bool" where
  "malloc_post h n h' p s \<longleftrightarrow> heap_inv h' \<and> n \<le> s \<and> heap_allocated h' = insert (p, s) (heap_allocated h)
     \<and> apart p s (heap_allocated h) \<and> HEAP_START + HDR \<le> p \<and> p + s \<le> HEAP_END
     \<and> untouched h h' \<and> debug_mode h' = debug_mode h"

lemma malloc_postI:
  assumes "heap_inv h'" "n \<le> s" "heap_allocated h' = insert (p, s) (heap_allocated h)"
    "apart p s (heap_allocated h)" "untouched h h'" "debug_mode h' = debug_mode h"
  shows "malloc_post h n h' p s"
  using assms heap_allocated_range [of h' p s] by (simp add: malloc_post_def)

lemma heap_take_at_ok:
  assumes inv: "heap_inv h" and b: "b \<in> set (heap_list h)" "addr b = a" "free b" "sz \<le> bsize b"
  shows "\<exists>h' p s. heap_take_at h sz a = Inr (h', p) \<and> malloc_post h sz h' p s"
proof -
  obtain pre c post where at: "heap_at a (heap_list h) = Some (pre, c, post)"
    using heap_at_mem b by blast
  then have l: "heap_list h = pre @ c # post" "addr c = a" using heap_at_Some by blast+
  have "tiled (pre @ c # post)" using inv l by (simp add: heap_inv_def)
  then have "b = c" using l b tiled_ne by fastforce
  obtain h' p where r: "heap_take h sz pre c post = (h', p)" by fastforce
  have fc: "free c" "sz \<le> bsize c" using b \<open>b = c\<close> by simp_all
  note t = heap_take_ok [OF l(1) inv fc(2,1) r]
  then obtain s where s: "sz \<le> s" "s \<le> bsize c" "heap_allocated h' = insert (p, s) (heap_allocated h)"
    by blast
  have "malloc_post h sz h' p s"
    using t s free_block_apart [OF inv l(1) fc(1) s(2)] untouched_take [OF inv l(1) fc(1)]
    by (intro malloc_postI) auto
  then show ?thesis using at r by (auto simp: heap_take_at_def)
qed

lemma malloc_post_rover:
  fixes h :: kheap
  shows "malloc_post (h\<lparr>rover := r\<rparr>) n h' p s = malloc_post h n h' p s"
  by (simp add: malloc_post_def untouched_def heap_allocated_def)

lemma malloc_post_mono: "malloc_post h m h' p s \<Longrightarrow> n \<le> m \<Longrightarrow> malloc_post h n h' p s"
  by (simp add: malloc_post_def)

lemma heap_inv_rover: "heap_inv h \<Longrightarrow> r \<in> addr ` set (heap_list h) \<Longrightarrow> heap_inv (h\<lparr>rover := Some r\<rparr>)"
  by (simp add: heap_inv_def block_ok_def)

text \<open>Every way \<open>kernel_malloc\<close> can go on a heap that satisfies the invariant.\<close>

lemma kernel_malloc_cases:
  assumes inv: "heap_inv h" and n: "n \<le> HEAP_SIZE"
  shows "(\<exists>h' p s. kernel_malloc n h = Inr (h', p) \<and> malloc_post h n h' p s)
     \<or> (kernel_malloc n h = Inl Out_of_heap \<and> (\<forall>b \<in> set (heap_list h). \<not> (free b \<and> align n \<le> bsize b)))"
proof (cases "heap_list h = []")
  case True
  then have r: "kernel_malloc n h = heap_first h (align n)" by (simp add: kernel_malloc_def)
  have "malloc_post h n h' p (align n)" if "heap_first h (align n) = Inr (h', p)" for h' p
    using heap_first_ok [OF inv align_le [OF n] True that] align_ge [OF n]
      beyond_apart [OF inv] untouched_beyond [OF inv] by (intro malloc_postI) auto
  moreover have "heap_first h (align n) = Inl Out_of_heap \<or> (\<exists>h' p. heap_first h (align n) = Inr (h', p))"
    by (simp add: heap_first_def Let_def)
  ultimately show ?thesis using r True by auto
next
  case False
  define rov where "rov = (case rover h of Some r \<Rightarrow> r | None \<Rightarrow> addr (hd (heap_list h)))"
  define g where "g = h\<lparr>rover := Some rov\<rparr>"
  let ?tl = "dropWhile (\<lambda>b. addr b \<noteq> rov) (heap_list h)"
  have rin: "rov \<in> addr ` set (heap_list h)"
    using inv False by (auto simp: rov_def heap_inv_def split: option.splits)
  then have ig: "heap_inv g" using heap_inv_rover inv by (simp add: g_def)
  have gl: "heap_list g = heap_list h" by (simp add: g_def)
  have okg: "\<forall>b \<in> set (heap_list g). block_ok g b" "current_heap g \<le> HEAP_END"
    using ig by (auto simp: heap_inv_def)
  have take: "\<exists>h' p s. heap_take_at g (align n) a = Inr (h', p) \<and> malloc_post h n h' p s"
    if "\<exists>b \<in> set (heap_list h). addr b = a \<and> free b \<and> align n \<le> bsize b" for a
    using that heap_take_at_ok [OF ig] align_ge [OF n] gl
    by (metis malloc_post_mono malloc_post_rover g_def)
  have app: "malloc_post h n h' p (align n)" if "heap_append g (align n) = Inr (h', p)" for h' p
    using heap_append_ok [OF ig align_le [OF n] _ that] align_ge [OF n]
      beyond_apart [OF ig] untouched_beyond [OF ig] malloc_post_rover [where h = h and r = "Some rov"]
      malloc_postI [of h' n "align n" p g] by (auto simp: g_def)
  have appe: "heap_append g (align n) = Inl Out_of_heap \<or> (\<exists>h' p. heap_append g (align n) = Inr (h', p))"
    by (simp add: heap_append_def Let_def)
  have sub: "\<forall>b \<in> set ?tl. block_ok g b" using okg gl by (auto dest: set_dropWhileD)
  obtain r1 where s1: "heap_scan g (align n) None ?tl = Inr r1"
    and f1: "\<forall>a. r1 = Some a \<longrightarrow> (\<exists>b \<in> set ?tl. addr b = a \<and> free b \<and> align n \<le> bsize b)"
    using heap_scan_result [OF sub okg(2)] by blast
  obtain r2 where s2: "heap_scan g (align n) (Some rov) (heap_list h) = Inr r2"
    and f2: "\<forall>a. r2 = Some a \<longrightarrow> (\<exists>b \<in> set (heap_list h). addr b = a \<and> free b \<and> align n \<le> bsize b)"
    using heap_scan_result [OF okg] gl by metis
  have m: "kernel_malloc n h = (case r1 of Some a \<Rightarrow> heap_take_at g (align n) a
      | None \<Rightarrow> (case r2 of Some a \<Rightarrow> heap_take_at g (align n) a | None \<Rightarrow> heap_append g (align n)))"
    using False s1 s2 unfolding kernel_malloc_def Let_def rov_def [symmetric] g_def [symmetric]
    by (simp split: option.splits)
  show ?thesis
  proof (cases r1)
    case (Some a)
    then have "\<exists>b \<in> set (heap_list h). addr b = a \<and> free b \<and> align n \<le> bsize b"
      using f1 by (auto dest: set_dropWhileD)
    from take [OF this] show ?thesis using m Some by auto
  next
    case None
    show ?thesis
    proof (cases r2)
      case (Some a)
      with f2 take m None show ?thesis by auto
    next
      case n2: None
      have "\<forall>b \<in> set (heap_list h). \<not> (free b \<and> align n \<le> bsize b)"
      proof -
        have "\<forall>b \<in> set ?tl. \<not> (free b \<and> align n \<le> bsize b)"
          "\<forall>b \<in> set (takeWhile (\<lambda>b. addr b \<noteq> rov) (heap_list h)). \<not> (free b \<and> align n \<le> bsize b)"
          using heap_scan_none s1 None heap_scan_none_stop s2 n2 by blast+
        moreover have "set (heap_list h) = set (takeWhile (\<lambda>b. addr b \<noteq> rov) (heap_list h)) \<union> set ?tl"
          by (metis set_append takeWhile_dropWhile_id)
        ultimately show ?thesis by blast
      qed
      then show ?thesis using app appe m None n2 by auto
    qed
  qed
qed

subsection \<open>kernel_free\<close>

lemma merge_ok:
  assumes "block_ok h b" "block_ok h c" "block_end b \<le> addr c" "current_heap h \<le> HEAP_END"
    and "addr c = w32 (addr b + HDR + bsize b + block_guard_size b)"
  defines "m \<equiv> b\<lparr>bsize := w32 (bsize b + HDR + bsize c + block_guard_size c)\<rparr>"
  shows "block_end m = block_end c" "block_ok h m" "addr m = addr b" "free m = free b"
proof -
  have gg: "block_guard_size b = block_guard_size c" "guard b = guard c"
    using assms(1,2) by (auto simp: block_ok_def block_guard_size_def)
  have e: "block_end b \<le> 0xD1000000" "block_end c \<le> 0xD1000000"
    using assms(1,2,4) HEAP_END_val by (simp_all add: block_ok_def)
  have a: "addr c = block_end b"
    using assms(5) w32_block [OF e(1)] by (simp add: block_end_def)
  have z: "bsize m = bsize b + HDR + bsize c + block_guard_size c"
    unfolding m_def using w32_block [OF e(2), of "bsize b + HDR + bsize c + block_guard_size c"] a
    by (simp add: block_end_def)
  show f: "addr m = addr b" "free m = free b" by (simp_all add: m_def)
  have gm: "guard m = guard b" "magic m = magic b" "block_guard_size m = block_guard_size b"
    by (simp_all add: m_def block_guard_size_def)
  show be: "block_end m = block_end c"
    using a z gg f gm by (simp add: block_end_def)
  have "addr m + HDR + bsize m = addr c + HDR + bsize c"
    using be gm gg f by (simp add: block_end_def)
  then show "block_ok h m"
    using assms(1,2) be gm gg f unfolding block_ok_def by metis
qed

lemma heap_coalesce_ok:
  assumes "heap_coalesce b post rov = (b', post', rov')"
    and "tiled (b # post)" "\<forall>c \<in> set (b # post). block_ok h c" "current_heap h \<le> HEAP_END"
  shows "tiled (b' # post') \<and> (\<forall>c \<in> set (b' # post'). block_ok h c) \<and> addr b' = addr b
    \<and> free b' = free b \<and> alloc_of post' = alloc_of post \<and> set post' \<subseteq> set post
    \<and> (\<forall>r X. rov = Some r \<longrightarrow> r \<in> X \<union> addr ` set (b # post)
        \<longrightarrow> (\<exists>r'. rov' = Some r' \<and> r' \<in> X \<union> addr ` set (b' # post')))
    \<and> (rov = None \<longrightarrow> rov' = None)
    \<and> (\<forall>c cs. post' = c # cs \<longrightarrow> \<not> (free c \<and> addr c = block_end b'))"
  using assms
proof (induction b post rov rule: heap_coalesce.induct)
  case (1 b rov)
  then show ?case by auto
next
  case (2 b n ns rov)
  show ?case
  proof (cases "free n \<and> addr n = w32 (addr b + HDR + bsize b + block_guard_size b)")
    case True
    define m where "m = b\<lparr>bsize := w32 (bsize b + HDR + bsize n + block_guard_size n)\<rparr>"
    have mo: "block_end m = block_end n" "block_ok h m" "addr m = addr b" "free m = free b"
      using merge_ok [of h b n] 2(3-5) True by (auto simp: m_def tiled_Cons)
    have "tiled (m # ns)" "\<forall>c \<in> set (m # ns). block_ok h c"
      using 2(3,4) mo by (auto simp: tiled_Cons)
    with 2(1) [OF True] 2(2,5) True
    have ih: "tiled (b' # post')" "\<forall>c \<in> set (b' # post'). block_ok h c" "addr b' = addr b"
      "free b' = free b" "alloc_of post' = alloc_of ns" "set post' \<subseteq> set ns"
      and ir: "\<forall>r X. (if rov = Some (addr n) then Some (addr b) else rov) = Some r
          \<longrightarrow> r \<in> X \<union> addr ` set (m # ns) \<longrightarrow> (\<exists>r'. rov' = Some r' \<and> r' \<in> X \<union> addr ` set (b' # post'))"
      and iN: "(if rov = Some (addr n) then Some (addr b) else rov) = None \<longrightarrow> rov' = None"
      and ia: "\<forall>c cs. post' = c # cs \<longrightarrow> \<not> (free c \<and> addr c = block_end b')"
      unfolding m_def [symmetric] using mo(3,4) by (auto simp: m_def [symmetric])
    have "\<exists>r'. rov' = Some r' \<and> r' \<in> X \<union> addr ` set (b' # post')"
      if "rov = Some r" "r \<in> X \<union> addr ` set (b # n # ns)" for r X
    proof (cases "r = addr n")
      case True
      with ir [rule_format, of "addr b" X] that mo(3) show ?thesis by auto
    next
      case False
      with ir [rule_format, of r X] that mo(3) show ?thesis by auto
    qed
    then show ?thesis using ih iN ia True by auto
  next
    case False
    then have r: "b' = b" "post' = n # ns" "rov' = rov" using 2(2) by auto
    have "block_end b \<le> 0xD1000000"
      using 2(4,5) HEAP_END_val by (simp add: block_ok_def)
    then have "w32 (addr b + HDR + bsize b + block_guard_size b) = block_end b"
      using w32_block [of b "block_end b"] by (simp add: block_end_def)
    then show ?thesis using r 2(3,4) False by auto
  qed
qed

lemma kernel_free_ok:
  assumes inv: "heap_inv h" and a: "(p, s) \<in> heap_allocated h" and p: "p < HEAP_END"
  shows "\<exists>h'. kernel_free p h = Inr h' \<and> heap_inv h'
     \<and> heap_allocated h' = heap_allocated h - {(p, s)}
     \<and> words h' = words h \<and> debug_mode h' = debug_mode h
     \<and> (\<exists>b \<in> set (heap_list h'). addr b = p - HDR \<and> free b)"
proof -
  from allocated_block [OF inv a] obtain c where c: "c \<in> set (heap_list h)" "\<not> free c"
    "p = addr c + HDR" "s = bsize c" "HEAP_START \<le> addr c" by metis
  obtain pre b post where at: "heap_at (p - HDR) (heap_list h) = Some (pre, b, post)"
    using heap_at_mem [of "p - HDR" "heap_list h"] c by fastforce
  then have l: "heap_list h = pre @ b # post" "addr b = p - HDR" using heap_at_Some by blast+
  have t: "tiled (pre @ b # post)" using inv l by (simp add: heap_inv_def)
  have ok: "\<forall>c \<in> set (heap_list h). block_ok h c" and cur: "current_heap h \<le> HEAP_END"
    using inv by (auto simp: heap_inv_def)
  have bc: "b = c" using l c tiled_ne [OF t] by fastforce
  have chk: "kernel_heap_check_block h b (first_addr post) = None"
  proof (rule check_block_None)
    show "block_ok h b" using ok l by simp
    show "\<forall>n. first_addr post = Some n \<longrightarrow> HEAP_START \<le> n \<and> n + HDR \<le> HEAP_END"
      using ok l cur by (cases post) (auto simp: block_ok_def block_end_def)
  qed (rule cur)
  obtain b' post' rov where r: "heap_coalesce (b\<lparr>free := True\<rparr>) post (rover h) = (b', post', rov)"
    by (metis prod_cases3)
  let ?h = "h\<lparr>heap_list := pre @ b' # post', rover := rov\<rparr>"
  have p0: "p \<noteq> 0" "\<not> p < HEAP_START + HDR" using c by (auto simp: HDR_def)
  have k: "kernel_free p h = Inr ?h"
    using p0 p at chk r bc c(2) by (simp add: kernel_free_def Let_def)
  have bt: "block_end (b\<lparr>free := True\<rparr>) = block_end b"
    by (simp add: block_end_def block_guard_size_def)
  have pre: "tiled (b\<lparr>free := True\<rparr> # post)" "\<forall>c \<in> set (b\<lparr>free := True\<rparr> # post). block_ok h c"
    using t ok l bt by (auto simp: tiled_Cons tiled_mid block_ok_split guard_ok_def)
  note co = heap_coalesce_ok [OF r pre cur]
  have t': "tiled (pre @ b' # post')"
    using co t by (auto simp: tiled_Cons tiled_mid)
  have rv: "\<exists>r'. rov = Some r' \<and> r' \<in> addr ` set (pre @ b' # post')" if "rover h = Some r" for r
  proof -
    have "r \<in> addr ` set pre \<union> addr ` set (b\<lparr>free := True\<rparr> # post)"
      using inv that l by (auto simp: heap_inv_def)
    then show ?thesis using co that by (auto simp: image_Un)
  qed
  have "heap_inv ?h"
  proof -
    have "\<forall>c \<in> set (pre @ b' # post'). block_ok ?h c"
      using co ok l by (auto simp: block_ok_def)
    moreover have "\<forall>r. rov = Some r \<longrightarrow> r \<in> addr ` set (pre @ b' # post')"
    proof (intro allI impI)
      fix r assume "rov = Some r"
      then obtain r0 where "rover h = Some r0" using co by fastforce
      with rv [of r0] \<open>rov = Some r\<close> show "r \<in> addr ` set (pre @ b' # post')" by auto
    qed
    ultimately show ?thesis using t' inv by (simp add: heap_inv_def)
  qed
  moreover have "heap_allocated ?h = heap_allocated h - {(p, s)}"
  proof -
    have "(p, s) \<notin> alloc_of (pre @ post)"
      using tiled_ne [OF t] l(2) c by (auto simp: alloc_of_def)
    then show ?thesis
      unfolding heap_allocated_def alloc_of_def [symmetric] using co l c bc by auto
  qed
  moreover have "b' \<in> set (heap_list ?h)" "addr b' = p - HDR" "free b'" using co l by auto
  ultimately show ?thesis using k by auto
qed

lemma heap_at_unique:
  assumes "tiled bs" "b \<in> set bs" "addr b = a"
  shows "\<exists>pre post. heap_at a bs = Some (pre, b, post) \<and> bs = pre @ b # post"
proof -
  obtain pre c post where at: "heap_at a bs = Some (pre, c, post)"
    using heap_at_mem [of a bs] assms by blast
  then have l: "bs = pre @ c # post" "addr c = a" using heap_at_Some by blast+
  then have "b = c" using assms tiled_ne [of pre c post] by fastforce
  then show ?thesis using at l by blast
qed

lemma kernel_free_double:
  assumes inv: "heap_inv h" and b: "b \<in> set (heap_list h)" "free b" "addr b = p - HDR"
    and p: "HEAP_START + HDR \<le> p" "p < HEAP_END"
  shows "kernel_free p h = Inl Double_free"
proof -
  have t: "tiled (heap_list h)" and ok: "\<forall>c \<in> set (heap_list h). block_ok h c"
    and cur: "current_heap h \<le> HEAP_END" using inv by (auto simp: heap_inv_def)
  obtain pre post where at: "heap_at (p - HDR) (heap_list h) = Some (pre, b, post)"
    and l: "heap_list h = pre @ b # post" using heap_at_unique [OF t b(1,3)] by blast
  have "kernel_heap_check_block h b (first_addr post) = None"
  proof (rule check_block_None)
    show "block_ok h b" using ok l by simp
    show "\<forall>n. first_addr post = Some n \<longrightarrow> HEAP_START \<le> n \<and> n + HDR \<le> HEAP_END"
      using ok l cur by (cases post) (auto simp: block_ok_def block_end_def)
  qed (rule cur)
  moreover have "p \<noteq> 0" using p(1) by (simp add: HDR_def)
  ultimately show ?thesis using at b p by (simp add: kernel_free_def)
qed

subsection \<open>The aligned variants\<close>

lemma align_up_val:
  assumes "x + 2 ^ k < 2 ^ 32"
  shows "align_up x (2 ^ k) = (x + 2 ^ k - 1) div 2 ^ k * 2 ^ k"
proof -
  have m: "(word_of_nat (2 ^ k) :: u32) - 1 = mask k"
    by (simp add: mask_eq_exp_minus_1)
  have "(mask k :: u32) = word_of_nat (2 ^ k - 1)"
    by (simp add: mask_eq_exp_minus_1 of_nat_diff)
  moreover have "x + (2 ^ k - 1) = x + 2 ^ k - 1" by simp
  ultimately have s: "(word_of_nat x :: u32) + mask k = word_of_nat (x + 2 ^ k - 1)"
    by (metis of_nat_add)
  have "align_up x (2 ^ k) = unat (push_bit k (drop_bit k (word_of_nat (x + 2 ^ k - 1) :: u32)))"
    unfolding align_up_def m s and_not_mask_bits ..
  also have "\<dots> = unat (word_of_nat (x + 2 ^ k - 1) :: u32) div 2 ^ k * 2 ^ k"
    by (rule unat_round_down)
  also have "unat (word_of_nat (x + 2 ^ k - 1) :: u32) = x + 2 ^ k - 1"
    using assms by (simp add: unsigned_of_nat take_bit_nat_eq_self)
  finally show ?thesis .
qed

lemma align_up_bounds:
  assumes "x + 2 ^ k < 2 ^ 32"
  shows "2 ^ k dvd align_up x (2 ^ k)" "x \<le> align_up x (2 ^ k)" "align_up x (2 ^ k) < x + 2 ^ k"
proof -
  let ?q = "(x + 2 ^ k - 1) div 2 ^ k"
  have m: "?q * 2 ^ k + (x + 2 ^ k - 1) mod 2 ^ k = x + 2 ^ k - 1" by (rule div_mult_mod_eq)
  have l: "(x + 2 ^ k - 1) mod 2 ^ k < 2 ^ k" by simp
  have p: "0 < (2::nat) ^ k" by simp
  show "2 ^ k dvd align_up x (2 ^ k)" by (simp add: align_up_val [OF assms])
  show "x \<le> align_up x (2 ^ k)" "align_up x (2 ^ k) < x + 2 ^ k"
    unfolding align_up_val [OF assms] using m l p by linarith+
qed

lemma kernel_malloc_align_ok:
  assumes inv: "heap_inv h" and n: "n + 2 ^ k + 3 \<le> HEAP_SIZE"
    and r: "kernel_malloc_align (2 ^ k) n h = Inr (h', p)"
  shows "\<exists>raw s. heap_inv h' \<and> heap_allocated h' = insert (raw, s) (heap_allocated h)
     \<and> apart raw s (heap_allocated h)
     \<and> 2 ^ k dvd p \<and> raw + 4 \<le> p \<and> p + n \<le> raw + s \<and> raw + s \<le> HEAP_END \<and> raw < HEAP_END
     \<and> words h' (p - 4) = raw \<and> untouched h h'"
proof -
  have "n + 2 ^ k + 3 < 2 ^ 32" using n by (simp add: HEAP_SIZE_def)
  then have w: "w32 (n + 2 ^ k + 2 ^ 32 - 1 + 4) = n + 2 ^ k + 3"
    unfolding w32_def using mod_add_self2 [of "n + 2 ^ k + 3" "2 ^ 32 :: nat"] by (simp add: ac_simps)
  let ?n = "n + 2 ^ k + 3"
  obtain g raw s where g: "kernel_malloc ?n h = Inr (g, raw)" "malloc_post h ?n g raw s"
    using kernel_malloc_cases [OF inv n] r w by (auto simp: kernel_malloc_align_def split: sum.splits)
  have m: "heap_inv g" "?n \<le> s" "heap_allocated g = insert (raw, s) (heap_allocated h)"
    "apart raw s (heap_allocated h)" "raw + s \<le> HEAP_END" "untouched h g"
    using g(2) by (simp_all add: malloc_post_def)
  define al where "al = align_up (raw + 4) (2 ^ k)"
  have "raw + 4 + 2 ^ k < 2 ^ 32" using m(2,5) by (simp add: HEAP_END_val)
  note au = align_up_bounds [OF this, folded al_def]
  have rw: "w32 (raw + 4) = raw + 4" using m(2,5) by (simp add: HEAP_END_val w32_id)
  have sb: "sub32 al 4 = al - 4" using au(2) by (simp add: sub32_def)
  have h': "h' = store_word (al - 4) raw g" and p: "p = al"
    using r g w rw sb by (auto simp: kernel_malloc_align_def Let_def al_def)
  have in_al: "raw \<le> al - 4" "al - 4 < raw + s" using au m(2) by auto
  from allocated_block [OF m(1), of raw s] m(3) obtain c where
    c: "c \<in> set (heap_list g)" "raw = addr c + HDR" "s = bsize c" by auto
  have t: "tiled (heap_list g)" using m(1) by (simp add: heap_inv_def)
  obtain pre post where l: "heap_list g = pre @ c # post"
    using heap_at_unique [OF t c(1) refl] by blast
  note t = t [unfolded l]
  have inside: "addr c < al - 4" "al - 4 < addr c + HDR + bsize c" using in_al c by (auto simp: HDR_def)
  have ne: "addr d \<noteq> al - 4 \<and> (guard d \<longrightarrow> addr d + HDR + bsize d \<noteq> al - 4)" if "d \<in> set (heap_list g)" for d
  proof (cases "d = c")
    case True
    then show ?thesis using inside by auto
  next
    case False
    then have "block_end d \<le> addr c \<or> block_end c \<le> addr d"
      using that l tiled_addr_less [OF t] by auto
    then show ?thesis
      using inside block_end_gt [of d] block_payload [of c] guard_word_in [of d] by auto
  qed
  then have hl: "heap_list h' = heap_list g" unfolding h' by (intro store_word_list) auto
  have "heap_inv h'"
    unfolding heap_inv_def hl
    using m(1) ne unfolding h' heap_inv_def by (auto simp: block_ok_def)
  moreover have "heap_allocated h' = insert (raw, s) (heap_allocated h)"
    using m(3) hl by (simp add: heap_allocated_def)
  moreover have "untouched h h'"
    unfolding untouched_def
  proof (intro ballI, clarify)
    fix q u a assume q: "(q, u) \<in> heap_allocated h" "q \<le> a" "a < q + u"
    then have "q + u + HDR \<le> raw \<or> raw + s + HDR \<le> q" using m(4) by (auto simp: apart_def)
    then have "a \<noteq> al - 4" using q in_al by auto
    then show "words h' a = words h a" using m(6) q unfolding h' by (auto simp: untouched_def)
  qed
  ultimately show ?thesis
    using m au p h' by (intro exI [of _ raw] exI [of _ s]) auto
qed

subsection \<open>The contract of an allocator\<close>

text \<open>
  What the rest of the kernel relies on: a block that is handed out lies apart from every block
  in use, and giving a block back takes exactly that block out of use.
\<close>

locale block_allocator =
  fixes acquire :: "nat \<Rightarrow> 's \<Rightarrow> 'e + 's \<times> nat"
    and release :: "nat \<Rightarrow> 's \<Rightarrow> 'e + 's"
    and inv :: "'s \<Rightarrow> bool"
    and live :: "'s \<Rightarrow> (nat \<times> nat) set"
    and gap :: nat and limit :: nat and top :: nat
  assumes gap: "0 < gap"
    and acquire_law: "inv s \<Longrightarrow> n \<le> limit \<Longrightarrow> acquire n s = Inr (s', p) \<Longrightarrow>
      inv s' \<and> (\<exists>m \<ge> n. live s' = insert (p, m) (live s)
        \<and> (\<forall>(q, t) \<in> live s. q + t + gap \<le> p \<or> p + m + gap \<le> q))"
    and release_law: "inv s \<Longrightarrow> (p, m) \<in> live s \<Longrightarrow> p < top \<Longrightarrow>
      \<exists>s'. release p s = Inr s' \<and> inv s' \<and> live s' = live s - {(p, m)}"
begin

definition separate :: "'s \<Rightarrow> bool" where
  "separate s \<longleftrightarrow> (\<forall>(p, m) \<in> live s. \<forall>(q, t) \<in> live s.
     (p, m) = (q, t) \<or> q + t + gap \<le> p \<or> p + m + gap \<le> q)"

lemma acquire_separate:
  assumes "inv s" "n \<le> limit" "acquire n s = Inr (s', p)" "separate s"
  shows "separate s'"
  using acquire_law [OF assms(1-3)] assms(4) unfolding separate_def by fastforce

lemma release_separate:
  assumes "inv s" "(p, m) \<in> live s" "p < top" "release p s = Inr s'" "separate s"
  shows "inv s' \<and> separate s'"
  using release_law [OF assms(1-3)] assms(4,5) unfolding separate_def by auto

lemma acquire_release:
  assumes "inv s" "n \<le> limit" "acquire n s = Inr (s', p)" "p < top"
  shows "\<exists>s''. release p s' = Inr s'' \<and> inv s'' \<and> live s'' = live s"
proof -
  obtain m where m: "inv s'" "live s' = insert (p, m) (live s)"
    "\<forall>(q, t) \<in> live s. q + t + gap \<le> p \<or> p + m + gap \<le> q"
    using acquire_law [OF assms(1-3)] by blast
  then have "(p, m) \<notin> live s" using gap by fastforce
  then show ?thesis using release_law [of s' p m] m assms(4) by auto
qed

end

lemma kernel_malloc_post:
  assumes "heap_inv h" "n \<le> HEAP_SIZE" "kernel_malloc n h = Inr (h', p)"
  shows "\<exists>s. malloc_post h n h' p s"
  using kernel_malloc_cases [OF assms(1,2)] assms(3) by auto

interpretation kh: block_allocator kernel_malloc kernel_free heap_inv heap_allocated HDR HEAP_SIZE HEAP_END
proof unfold_locales
  show "0 < HDR" by (simp add: HDR_def)
  show "heap_inv s' \<and> (\<exists>m \<ge> n. heap_allocated s' = insert (p, m) (heap_allocated s)
      \<and> (\<forall>(q, t) \<in> heap_allocated s. q + t + HDR \<le> p \<or> p + m + HDR \<le> q))"
    if "heap_inv s" "n \<le> HEAP_SIZE" "kernel_malloc n s = Inr (s', p)" for s n s' p
    using kernel_malloc_post [OF that] unfolding malloc_post_def apart_def by blast
  show "\<exists>s'. kernel_free p s = Inr s' \<and> heap_inv s' \<and> heap_allocated s' = heap_allocated s - {(p, m)}"
    if "heap_inv s" "(p, m) \<in> heap_allocated s" "p < HEAP_END" for s p m
    using kernel_free_ok [OF that] by blast
qed

text \<open>The heaps a kernel can reach: allocations of any size up to the heap's, frees of live blocks.\<close>

inductive heap_reach :: "bool \<Rightarrow> kheap \<Rightarrow> bool" for d where
  init: "heap_reach d (heap_init d)"
| alloc: "heap_reach d h \<Longrightarrow> n \<le> HEAP_SIZE \<Longrightarrow> kernel_malloc n h = Inr (h', p) \<Longrightarrow> heap_reach d h'"
| dealloc: "heap_reach d h \<Longrightarrow> (p, s) \<in> heap_allocated h \<Longrightarrow> kernel_free p h = Inr h' \<Longrightarrow> heap_reach d h'"

lemma heap_inv_init: "heap_inv (heap_init d)"
  by (simp add: heap_inv_def heap_init_def HEAP_END_val HEAP_START_def)

lemma heap_allocated_alloc: "heap_allocated h = alloc_of (heap_list h)"
  by (simp add: heap_allocated_def alloc_of_def)

lemma heap_allocated_init: "heap_allocated (heap_init d) = {}"
  by (simp add: heap_allocated_alloc heap_init_def)

lemmas heap_eval = kernel_malloc_def heap_init_def heap_first_def Let_def heap_consts align_def
  kernel_heap_guard_size_def kernel_heap_set_guard_def new_header_def heap_allocated_alloc
  push_bit_eq_mult drop_bit_eq_div

lemma kernel_malloc_24:
  "\<exists>h'. kernel_malloc 24 (heap_init False) = Inr (h', 0xC1000010)
    \<and> heap_allocated h' = {(0xC1000010, 24)}"
  by (simp add: heap_eval)

lemma kernel_free_Inr_bound:
  "kernel_free p h = Inr h' \<Longrightarrow> p = 0 \<or> p < HEAP_END"
  by (auto simp: kernel_free_def split: if_splits)

lemma heap_reach_inv: "heap_reach d h \<Longrightarrow> heap_inv h \<and> kh.separate h"
proof (induction rule: heap_reach.induct)
  case init
  show ?case unfolding kh.separate_def by (simp add: heap_inv_init heap_allocated_init)
next
  case (alloc h n h' p)
  then show ?case using kh.acquire_law kh.acquire_separate by metis
next
  case (dealloc h p s h')
  then have "p < HEAP_END"
    using kernel_free_Inr_bound heap_allocated_range [of h p s] by (fastforce simp: HDR_def)
  with dealloc show ?case using kh.release_separate by metis
qed

subsection \<open>Properties\<close>

text \<open>
  C1. On a heap that satisfies the invariant, a request of up to \<open>HEAP_SIZE\<close> bytes never panics on
  a block check. It either returns a block of at least the requested size, inside the heap, apart
  (by a header at least) from every block in use, adding exactly that block to the blocks in use,
  keeping the invariant and every word of the blocks in use; or it panics for lack of memory, and
  then no free block of the list is large enough.
\<close>

theorem kernel_malloc_spec:
  assumes "heap_inv h" and "n \<le> HEAP_SIZE"
  shows "(\<exists>h' p s. kernel_malloc n h = Inr (h', p) \<and> heap_inv h' \<and> n \<le> s
        \<and> heap_allocated h' = insert (p, s) (heap_allocated h)
        \<and> (\<forall>(q, t) \<in> heap_allocated h. q + t + HDR \<le> p \<or> p + s + HDR \<le> q)
        \<and> HEAP_START + HDR \<le> p \<and> p + s \<le> HEAP_END
        \<and> (\<forall>(q, t) \<in> heap_allocated h. \<forall>a. q \<le> a \<and> a < q + t \<longrightarrow> words h' a = words h a))
     \<or> (kernel_malloc n h = Inl Out_of_heap
        \<and> (\<forall>b \<in> set (heap_list h). \<not> (free b \<and> align n \<le> bsize b)))"
  using kernel_malloc_cases [OF assms]
  unfolding malloc_post_def apart_def untouched_def by blast

lemma kernel_malloc_spec_witness:
  "heap_inv (heap_init True) \<and> 100 \<le> HEAP_SIZE
   \<and> (\<exists>h' p. kernel_malloc 100 (heap_init True) = Inr (h', p) \<and> heap_inv h')"
proof -
  have "kernel_malloc 100 (heap_init True) \<noteq> Inl Out_of_heap"
    by (simp add: heap_eval)
  moreover have "(100::nat) \<le> HEAP_SIZE" by (simp add: HEAP_SIZE_def)
  ultimately show ?thesis
    using kernel_malloc_spec [of "heap_init True" 100] heap_inv_init [of True] by blast
qed

text \<open>
  C3. Freeing a live block succeeds, takes exactly that block out of use, keeps the invariant and
  every word of memory, and a second free of the same pointer is caught as a double free.
\<close>

theorem kernel_free_spec:
  assumes "heap_inv h" and "(p, s) \<in> heap_allocated h" and "p < HEAP_END"
  shows "\<exists>h'. kernel_free p h = Inr h' \<and> heap_inv h'
     \<and> heap_allocated h' = heap_allocated h - {(p, s)} \<and> words h' = words h
     \<and> kernel_free p h' = Inl Double_free"
proof -
  obtain h' b where h': "kernel_free p h = Inr h'" "heap_inv h'"
    "heap_allocated h' = heap_allocated h - {(p, s)}" "words h' = words h"
    "b \<in> set (heap_list h')" "addr b = p - HDR" "free b"
    using kernel_free_ok [OF assms] by blast
  then show ?thesis
    using kernel_free_double [OF h'(2,5,7,6)] heap_allocated_range [OF assms(1,2)] assms(3) by blast
qed

lemma kernel_free_spec_witness:
  "\<exists>h' p h''. kernel_malloc 24 (heap_init False) = Inr (h', p) \<and> kernel_free p h' = Inr h''
     \<and> heap_allocated h'' = {}"
proof -
  obtain h' where m: "kernel_malloc 24 (heap_init False) = Inr (h', 0xC1000010)"
    and a: "heap_allocated h' = {(0xC1000010, 24)}"
    using kernel_malloc_24 by blast
  have i: "heap_inv h'" using kh.acquire_law [OF heap_inv_init _ m] by (simp add: HEAP_SIZE_def)
  show ?thesis
    using kernel_free_spec [OF i, of "0xC1000010" 24] m a by (auto simp: HEAP_END_val)
qed

text \<open>
  C4. Whatever sequence of allocations and frees of live blocks the kernel runs from the empty heap,
  the blocks in use lie inside the heap and are pairwise apart by at least a header.
\<close>

theorem heap_reach_separate:
  assumes "heap_reach d h" and "(p, s) \<in> heap_allocated h" and "(q, t) \<in> heap_allocated h"
  shows "HEAP_START \<le> p \<and> p + s \<le> HEAP_END
    \<and> ((p, s) = (q, t) \<or> q + t + HDR \<le> p \<or> p + s + HDR \<le> q)"
  using heap_reach_inv [OF assms(1)] heap_allocated_range [of h p s] assms(2,3)
  unfolding kh.separate_def by (fastforce simp: HDR_def)

lemma heap_reach_separate_witness:
  "\<exists>h. heap_reach False h \<and> (0xC1000010, 24) \<in> heap_allocated h \<and> 0xC1000010 + (24::nat) \<le> HEAP_END"
proof -
  obtain h' where m: "kernel_malloc 24 (heap_init False) = Inr (h', 0xC1000010)"
    and a: "heap_allocated h' = {(0xC1000010, 24)}"
    using kernel_malloc_24 by blast
  have "heap_reach False h'"
    by (rule heap_reach.alloc [OF heap_reach.init _ m]) (simp add: HEAP_SIZE_def)
  then show ?thesis
    using heap_reach_separate [of False h' "0xC1000010" 24 "0xC1000010" 24] a by auto
qed

text \<open>
  \<open>kernel_malloc_align\<close> with a power of two returns an aligned pointer whose bytes lie inside
  one new block, and \<open>kernel_free_align\<close> of that pointer brings back exactly the blocks that were
  in use before.
\<close>

theorem kernel_malloc_align_roundtrip:
  assumes "heap_inv h" and "n + 2 ^ k + 3 \<le> HEAP_SIZE"
    and "kernel_malloc_align (2 ^ k) n h = Inr (h', p)"
  shows "2 ^ k dvd p \<and> p + n \<le> HEAP_END
     \<and> (\<forall>(q, t) \<in> heap_allocated h. q + t \<le> p \<or> p + n \<le> q)
     \<and> (\<exists>h''. kernel_free_align p h' = Inr h'' \<and> heap_inv h'' \<and> heap_allocated h'' = heap_allocated h)"
proof -
  obtain raw s where r: "heap_inv h'" "heap_allocated h' = insert (raw, s) (heap_allocated h)"
    "apart raw s (heap_allocated h)" "2 ^ k dvd p" "raw + 4 \<le> p" "p + n \<le> raw + s"
    "raw + s \<le> HEAP_END" "raw < HEAP_END" "words h' (p - 4) = raw"
    using kernel_malloc_align_ok [OF assms] by blast
  have "(raw, s) \<notin> heap_allocated h" using r(3) by (fastforce simp: apart_def HDR_def)
  moreover have "kernel_free_align p h' = kernel_free raw h'"
    using r(5,9) by (simp add: kernel_free_align_def sub32_def)
  ultimately have "\<exists>h''. kernel_free_align p h' = Inr h'' \<and> heap_inv h'' \<and> heap_allocated h'' = heap_allocated h"
    using kh.release_law [OF r(1), of raw s] r(2,8) by auto
  moreover have "\<forall>(q, t) \<in> heap_allocated h. q + t \<le> p \<or> p + n \<le> q"
    using r(3,5,6) by (fastforce simp: apart_def)
  ultimately show ?thesis using r by auto
qed

lemma kernel_malloc_align_roundtrip_witness:
  "\<exists>h' p. kernel_malloc_align (2 ^ 12) 4096 (heap_init False) = Inr (h', p) \<and> 2 ^ 12 dvd p
     \<and> (\<exists>h''. kernel_free_align p h' = Inr h'' \<and> heap_allocated h'' = {})"
proof -
  have w: "w32 4294975491 = 8195" by (simp add: w32_def)
  have "kernel_malloc 8195 (heap_init False) \<noteq> Inl Out_of_heap"
    by (simp add: heap_eval)
  then obtain h' p where m: "kernel_malloc_align (2 ^ 12) 4096 (heap_init False) = Inr (h', p)"
    using kernel_malloc_cases [OF heap_inv_init, of 8195 False] w
    by (auto simp: kernel_malloc_align_def Let_def HEAP_SIZE_def)
  have "(4096::nat) + 2 ^ 12 + 3 \<le> HEAP_SIZE" by (simp add: HEAP_SIZE_def)
  from kernel_malloc_align_roundtrip [OF heap_inv_init this m] m
  show ?thesis by (auto simp: heap_allocated_def heap_init_def)
qed

text \<open>
  Beyond \<open>HEAP_SIZE\<close> the size arithmetic wraps and the checks miss it: \<open>align\<close> rounds the
  largest sizes to 0, so such a request succeeds with a block of no bytes; and a size that carries
  the end of the heap past \<open>2 ^ 32\<close> is granted, with a block that reaches beyond the heap and a
  heap end that wrapped to a low address.
\<close>

theorem kernel_malloc_size_wraps:
  "(\<exists>h' p. kernel_malloc 0xFFFFFFFC (heap_init False) = Inr (h', p) \<and> heap_allocated h' = {(p, 0)})
   \<and> (\<exists>h' p. kernel_malloc 0x3F000000 (heap_init False) = Inr (h', p)
        \<and> heap_allocated h' = {(p, 0x3F000000)} \<and> HEAP_END < p + 0x3F000000 \<and> current_heap h' = 16)"
  by (simp add: heap_eval)

end
