(* ===== verification/Buddy.thy ===== *)
theory Buddy
  imports Heap
begin

text \<open>
  The physical page allocator of \<^verbatim>\<open>kernel/vmm/vmm.c\<close>: zones of pages with one free list
  per order, splitting on allocation and coalescing on release, the zone table, and the
  construction of the zones from the boot loader's memory map. A page descriptor is addressed by
  its index in the zone's array, so a \<^verbatim>\<open>page_desc_t *\<close> is an index and NULL is \<open>None\<close>; the
  next fields and list heads are kept as the code keeps them. A walk along next fields runs with
  fuel and returns \<open>None\<close> when it does not reach NULL within it. A physical address is a natural
  number below \<open>2 ^ 32\<close>; the NULL pointer an allocation returns on failure is 0.
\<close>

subsection \<open>Zones and their free lists\<close>

definition MAX_ORDER :: nat where "MAX_ORDER = 20"
definition MAX_ZONES :: nat where "MAX_ZONES = 8"
definition MIN_MANAGED_PHYS :: nat where "MIN_MANAGED_PHYS = 0x00200000"
definition PAGE_SHIFT :: nat where "PAGE_SHIFT = 12"

record page_desc =
  pg_order :: nat
  pg_used :: bool
  pg_next :: "nat option"

record buddy_zone =
  base_phys :: nat
  num_pages :: nat
  pages :: "nat \<Rightarrow> page_desc"
  free_list :: "nat \<Rightarrow> nat option"
  max_order :: nat

text \<open>The two loops of \<open>largest_order_fit\<close>: the largest power that fits, then down to the alignment.\<close>

function order_up :: "nat \<Rightarrow> nat \<Rightarrow> nat \<Rightarrow> nat" where
  "order_up remain mo k = (if k < mo \<and> push_bit (k + 1) 1 \<le> remain then order_up remain mo (k + 1) else k)"
  by pat_completeness auto
termination by (relation "measure (\<lambda>(r, m, k). m - k)") auto

fun order_down :: "nat \<Rightarrow> nat \<Rightarrow> nat" where
  "order_down idx 0 = 0"
| "order_down idx (Suc k) = (if idx AND (push_bit (Suc k) 1 - 1) \<noteq> 0 then order_down idx k else Suc k)"

definition largest_order_fit :: "nat \<Rightarrow> nat \<Rightarrow> nat \<Rightarrow> nat option" where
  "largest_order_fit idx limit mo =
     (let remain = sub32 limit idx;
          k = order_down idx (order_up remain mo 0)
      in if remain < push_bit k 1 then None else Some k)"

definition zone_freelist_init :: "buddy_zone \<Rightarrow> buddy_zone" where
  "zone_freelist_init z = z\<lparr>free_list := \<lambda>k. None\<rparr>"

definition zone_push_free :: "buddy_zone \<Rightarrow> nat \<Rightarrow> nat \<Rightarrow> buddy_zone" where
  "zone_push_free z i k =
     z\<lparr>pages := (pages z)(i := \<lparr>pg_order = k, pg_used = False, pg_next = free_list z k\<rparr>),
       free_list := (free_list z)(k := Some i)\<rparr>"

definition zone_pop_free :: "buddy_zone \<Rightarrow> nat \<Rightarrow> (buddy_zone \<times> nat) option" where
  "zone_pop_free z k = (case free_list z k of
       None \<Rightarrow> None
     | Some i \<Rightarrow> Some (z\<lparr>free_list := (free_list z)(k := pg_next (pages z i)),
                        pages := (pages z)(i := (pages z i)\<lparr>pg_next := None\<rparr>)\<rparr>, i))"

definition buddy_index :: "nat \<Rightarrow> nat \<Rightarrow> nat" where
  "buddy_index idx k = idx XOR push_bit k 1"

function zone_max_order :: "nat \<Rightarrow> nat \<Rightarrow> nat" where
  "zone_max_order n mo = (if 0 < mo \<and> n < push_bit mo 1 then zone_max_order n (mo - 1) else mo)"
  by pat_completeness auto
termination by (relation "measure snd") auto

text \<open>The loop of \<open>zone_build\<close>; the block fits into the zone, so the index does not wrap.\<close>

function zone_fill :: "buddy_zone \<Rightarrow> nat \<Rightarrow> buddy_zone" where
  "zone_fill z idx =
     (if idx < num_pages z then
        (case largest_order_fit idx (num_pages z) (max_order z) of
           None \<Rightarrow> z
         | Some k \<Rightarrow> zone_fill (zone_push_free z idx k) (idx + push_bit k 1))
      else z)"
  by pat_completeness auto
termination
  by (relation "measure (\<lambda>(z, idx). num_pages z - idx)") (auto simp: zone_push_free_def push_bit_eq_mult intro!: diff_less_mono2)

definition zone_build :: "buddy_zone \<Rightarrow> buddy_zone" where
  "zone_build z =
     (let z1 = zone_freelist_init z;
          z2 = z1\<lparr>max_order := zone_max_order (num_pages z) MAX_ORDER,
                  pages := \<lambda>i. \<lparr>pg_order = 0, pg_used = False, pg_next = None\<rparr>\<rparr>
      in zone_fill z2 0)"

subsection \<open>Allocation in a zone\<close>

fun split_loop :: "buddy_zone \<Rightarrow> nat \<Rightarrow> nat \<Rightarrow> nat \<Rightarrow> buddy_zone" where
  "split_loop z idx want 0 = z"
| "split_loop z idx want (Suc k) =
     (if want < Suc k then split_loop (zone_push_free z (idx + push_bit k 1) k) idx want k else z)"

definition set_head :: "buddy_zone \<Rightarrow> nat \<Rightarrow> nat \<Rightarrow> bool \<Rightarrow> buddy_zone" where
  "set_head z i k u = z\<lparr>pages := (pages z)(i := (pages z i)\<lparr>pg_order := k, pg_used := u\<rparr>)\<rparr>"

definition zone_split_to :: "buddy_zone \<Rightarrow> nat \<Rightarrow> nat \<Rightarrow> nat \<Rightarrow> buddy_zone" where
  "zone_split_to z i have_order want =
     (let z' = split_loop z i want have_order in set_head z' i want (pg_used (pages z' i)))"

function zone_find :: "buddy_zone \<Rightarrow> nat \<Rightarrow> (buddy_zone \<times> nat \<times> nat) option" where
  "zone_find z k =
     (if k \<le> max_order z then
        (case zone_pop_free z k of
           Some (z', i) \<Rightarrow> Some (z', i, k)
         | None \<Rightarrow> zone_find z (k + 1))
      else None)"
  by pat_completeness auto
termination by (relation "measure (\<lambda>(z, k). Suc (max_order z) - k)") auto

definition zone_alloc_pages :: "buddy_zone \<Rightarrow> nat \<Rightarrow> buddy_zone \<times> nat" where
  "zone_alloc_pages z k =
     (if max_order z < k then (z, 0)
      else case zone_find z k of
             None \<Rightarrow> (z, 0)
           | Some (z1, i, have_order) \<Rightarrow>
               let z2 = (if k < have_order then zone_split_to z1 i have_order k else z1)
               in (set_head z2 i k True, w32 (base_phys z + push_bit PAGE_SHIFT i)))"

subsection \<open>Release into a zone\<close>

text \<open>
  The removal loop keeps a pointer to the link it looks at: the list head or the next field of a
  page. It returns whether the buddy was found.
\<close>

datatype link = Head_link nat | Next_of nat

fun link_get :: "buddy_zone \<Rightarrow> link \<Rightarrow> nat option" where
  "link_get z (Head_link k) = free_list z k"
| "link_get z (Next_of i) = pg_next (pages z i)"

fun link_set :: "buddy_zone \<Rightarrow> link \<Rightarrow> nat option \<Rightarrow> buddy_zone" where
  "link_set z (Head_link k) v = z\<lparr>free_list := (free_list z)(k := v)\<rparr>"
| "link_set z (Next_of i) v = z\<lparr>pages := (pages z)(i := (pages z i)\<lparr>pg_next := v\<rparr>)\<rparr>"

definition unlink_at :: "buddy_zone \<Rightarrow> link \<Rightarrow> nat \<Rightarrow> buddy_zone" where
  "unlink_at z pp b =
     (let z1 = link_set z pp (pg_next (pages z b))
      in z1\<lparr>pages := (pages z1)(b := (pages z1 b)\<lparr>pg_next := None\<rparr>)\<rparr>)"

fun zone_unlink :: "nat \<Rightarrow> buddy_zone \<Rightarrow> link \<Rightarrow> nat \<Rightarrow> (buddy_zone \<times> bool) option" where
  "zone_unlink 0 z pp b = None"
| "zone_unlink (Suc f) z pp b =
     (case link_get z pp of
        None \<Rightarrow> Some (z, False)
      | Some p \<Rightarrow>
          if p = b then Some (unlink_at z pp b, True)
          else zone_unlink f z (Next_of p) b)"

definition set_order :: "buddy_zone \<Rightarrow> nat \<Rightarrow> nat \<Rightarrow> buddy_zone" where
  "set_order z i k = z\<lparr>pages := (pages z)(i := (pages z i)\<lparr>pg_order := k\<rparr>)\<rparr>"

lemma link_set_max_order [simp]:
  "max_order (link_set z pp v) = max_order z" "num_pages (link_set z pp v) = num_pages z"
  "base_phys (link_set z pp v) = base_phys z"
  by (cases pp; simp)+

lemma zone_unlink_max_order:
  "zone_unlink f z pp b = Some (z', r) \<Longrightarrow>
     max_order z' = max_order z \<and> num_pages z' = num_pages z \<and> base_phys z' = base_phys z"
  by (induction f z pp b rule: zone_unlink.induct) (auto simp: unlink_at_def Let_def split: option.splits if_splits)

function zone_coalesce :: "buddy_zone \<Rightarrow> nat \<Rightarrow> nat \<Rightarrow> (buddy_zone \<times> nat \<times> nat) option" where
  "zone_coalesce z idx k =
     (if k < max_order z then
        let bidx = buddy_index idx k in
        if num_pages z \<le> bidx then Some (z, idx, k)
        else if pg_used (pages z bidx) \<or> pg_order (pages z bidx) \<noteq> k then Some (z, idx, k)
        else case zone_unlink (num_pages z + 1) z (Head_link k) bidx of
               None \<Rightarrow> None
             | Some (z', False) \<Rightarrow> Some (z', idx, k)
             | Some (z', True) \<Rightarrow>
                 let idx' = (if bidx < idx then bidx else idx)
                 in zone_coalesce (set_order z' idx' (k + 1)) idx' (k + 1)
      else Some (z, idx, k))"
  by pat_completeness auto
termination
  by (relation "measure (\<lambda>(z, idx, k). max_order z - k)")
    (auto simp: set_order_def dest!: zone_unlink_max_order simp del: zone_unlink.simps)

declare order_up.simps [simp del] zone_max_order.simps [simp del] zone_fill.simps [simp del]
  zone_find.simps [simp del] zone_coalesce.simps [simp del]

definition zone_free_pages :: "buddy_zone \<Rightarrow> nat \<Rightarrow> nat \<Rightarrow> buddy_zone option" where
  "zone_free_pages z phys k =
     (if phys < base_phys z then Some z
      else
        let off = phys - base_phys z; idx = drop_bit PAGE_SHIFT off in
        if off AND (PAGE_SIZE - 1) \<noteq> 0 then Some z
        else if num_pages z \<le> idx then Some z
        else case zone_coalesce (set_head z idx k False) idx k of
               None \<Rightarrow> None
             | Some (z', idx', k') \<Rightarrow> Some (zone_push_free z' idx' k'))"

subsection \<open>The zone table\<close>

type_synonym buddy_state = "buddy_zone list"

fun find_zone_from :: "buddy_state \<Rightarrow> nat \<Rightarrow> nat \<Rightarrow> nat option" where
  "find_zone_from [] phys i = None"
| "find_zone_from (z # zs) phys i =
     (if base_phys z \<le> phys \<and> phys < w32 (base_phys z + w32 (push_bit PAGE_SHIFT (num_pages z)))
      then Some i else find_zone_from zs phys (i + 1))"

definition find_zone_by_phys :: "buddy_state \<Rightarrow> nat \<Rightarrow> nat option" where
  "find_zone_by_phys zs phys = find_zone_from zs phys 0"

text \<open>\<open>alloc_pages\<close> panics, \<open>None\<close>, when no zone has a block.\<close>

fun alloc_pages :: "buddy_state \<Rightarrow> nat \<Rightarrow> (buddy_state \<times> nat) option" where
  "alloc_pages [] k = None"
| "alloc_pages (z # zs) k =
     (case zone_alloc_pages z k of
        (z', p) \<Rightarrow> if p \<noteq> 0 then Some (z' # zs, p)
          else (case alloc_pages zs k of None \<Rightarrow> None | Some (zs', q) \<Rightarrow> Some (z' # zs', q)))"

definition free_pages :: "buddy_state \<Rightarrow> nat \<Rightarrow> nat \<Rightarrow> buddy_state option" where
  "free_pages zs phys k =
     (case find_zone_by_phys zs phys of
        None \<Rightarrow> Some zs
      | Some i \<Rightarrow> (case zone_free_pages (zs ! i) phys k of
            None \<Rightarrow> None | Some z' \<Rightarrow> Some (zs[i := z'])))"

definition buddy_total_pages :: "buddy_state \<Rightarrow> nat" where
  "buddy_total_pages zs = foldl (\<lambda>s z. w32 (s + num_pages z)) 0 zs"

fun count_list :: "nat \<Rightarrow> buddy_zone \<Rightarrow> nat \<Rightarrow> nat option \<Rightarrow> nat \<Rightarrow> nat option" where
  "count_list 0 z k p s = None"
| "count_list (Suc f) z k None s = Some s"
| "count_list (Suc f) z k (Some i) s = count_list f z k (pg_next (pages z i)) (w32 (s + push_bit k 1))"

fun count_orders :: "buddy_zone \<Rightarrow> nat list \<Rightarrow> nat \<Rightarrow> nat option" where
  "count_orders z [] s = Some s"
| "count_orders z (k # ks) s =
     (case count_list (num_pages z + 1) z k (free_list z k) s of
        None \<Rightarrow> None | Some s' \<Rightarrow> count_orders z ks s')"

fun buddy_free_from :: "buddy_state \<Rightarrow> nat \<Rightarrow> nat option" where
  "buddy_free_from [] s = Some s"
| "buddy_free_from (z # zs) s =
     (case count_orders z [0..<max_order z + 1] s of
        None \<Rightarrow> None | Some s' \<Rightarrow> buddy_free_from zs s')"

definition buddy_free_pages :: "buddy_state \<Rightarrow> nat option" where
  "buddy_free_pages zs = buddy_free_from zs 0"


subsection \<open>Construction of the zones from the memory map\<close>

text \<open>
  Addresses of the boot loader's map are \<^verbatim>\<open>uint64_t\<close>. \<open>align_up64\<close> and \<open>align_dn64\<close> are
  the inline functions of \<^verbatim>\<open>vmm.h\<close>.
\<close>

definition align_up64 :: "nat \<Rightarrow> nat \<Rightarrow> nat" where
  "align_up64 v a = unat (((word_of_nat v :: u64) + (word_of_nat a - 1)) AND NOT (word_of_nat a - 1))"

definition align_dn64 :: "nat \<Rightarrow> nat \<Rightarrow> nat" where
  "align_dn64 v a = unat ((word_of_nat v :: u64) AND NOT (word_of_nat a - 1))"

definition PAGE_DESC_SIZE :: nat where "PAGE_DESC_SIZE = 8"

text \<open>
  The zone's base and page count are truncated to 32 bits; the descriptors come from the kernel
  heap, whose panic is passed on.
\<close>

definition add_zone :: "nat \<Rightarrow> nat \<Rightarrow> buddy_state \<times> kheap \<Rightarrow> heap_panic + buddy_state \<times> kheap" where
  "add_zone base0 end0 s =
     (case s of (zs, h) \<Rightarrow>
        if MAX_ZONES \<le> length zs then Inr (zs, h)
        else
          let base = align_up64 base0 PAGE_SIZE; en = align_dn64 end0 PAGE_SIZE in
          if en \<le> base then Inr (zs, h)
          else
            let n = w32 (drop_bit PAGE_SHIFT (en - base)) in
            (case kernel_malloc_align 16 (w32 (n * PAGE_DESC_SIZE)) h of
               Inl p \<Rightarrow> Inl p
             | Inr (h', va) \<Rightarrow>
                 if va = 0 then Inl Out_of_heap
                 else Inr (zs @ [zone_build \<lparr>base_phys = w32 base, num_pages = n,
                      pages = (\<lambda>i. \<lparr>pg_order = 0, pg_used = False, pg_next = None\<rparr>),
                      free_list = (\<lambda>k. None), max_order = 0\<rparr>], h')))"

type_synonym range64 = "nat \<times> nat"

definition carve_exclusion :: "range64 \<Rightarrow> range64 \<Rightarrow> range64 list" where
  "carve_exclusion r x =
     (if snd x \<le> fst r \<or> snd r \<le> fst x then [r]
      else (if fst r < fst x then [(fst r, fst x)] else [])
         @ (if snd x < snd r then [(snd x, snd r)] else []))"

text \<open>The arrays \<^verbatim>\<open>todo\<close> and \<^verbatim>\<open>next\<close> hold 8 ranges; what would not fit is dropped.\<close>

fun carve_step :: "range64 list \<Rightarrow> range64 \<Rightarrow> range64 list \<Rightarrow> range64 list" where
  "carve_step [] x nxt = nxt"
| "carve_step (r # rs) x nxt =
     (if length nxt + 2 \<le> 8 then carve_step rs x (nxt @ carve_exclusion r x) else nxt)"

fun carve_all :: "range64 list \<Rightarrow> range64 list \<Rightarrow> range64 list" where
  "carve_all todo [] = todo"
| "carve_all todo (x # xs) =
     (let nxt = carve_step todo x [] in if nxt = [] then [] else carve_all nxt xs)"

fun add_ranges :: "range64 list \<Rightarrow> buddy_state \<times> kheap \<Rightarrow> heap_panic + buddy_state \<times> kheap" where
  "add_ranges [] s = Inr s"
| "add_ranges ((a, b) # rs) s =
     (if a < b then (case add_zone a b s of Inl p \<Rightarrow> Inl p | Inr s' \<Rightarrow> add_ranges rs s')
      else add_ranges rs s)"

text \<open>
  An entry of the memory map, and what \<open>buddy_init\<close> reads of the boot information: the module
  ranges (none when the flag or the count is 0) and the entries in order. The records are read
  out of physical memory by the boot loader's layout, which is not modelled.
\<close>

record mmap_entry =
  m_addr :: nat
  m_len :: nat
  m_type :: nat

definition MULTIBOOT_MEMORY_AVAILABLE :: nat where "MULTIBOOT_MEMORY_AVAILABLE = 1"
definition KERNEL_HEAP_PHYS :: nat where "KERNEL_HEAP_PHYS = 0x10200000"
definition KERNEL_HEAP_SIZE :: nat where "KERNEL_HEAP_SIZE = 256 * 1024 * 1024"
definition KERNEL_STACK_PHYS :: nat where "KERNEL_STACK_PHYS = 0x30000000"
definition PAGE_ENTRIES :: nat where "PAGE_ENTRIES = 1024"

fun module_exclusions :: "range64 list \<Rightarrow> nat \<Rightarrow> range64 list" where
  "module_exclusions [] n = []"
| "module_exclusions ((s, e) # ms) n =
     (if n < 32 then (if s < e then (s, e) # module_exclusions ms (n + 1) else module_exclusions ms n)
      else [])"

definition base_exclusions :: "nat \<Rightarrow> nat \<Rightarrow> nat \<Rightarrow> nat \<Rightarrow> range64 list" where
  "base_exclusions kstart kend fb fblen =
     [(0, MIN_MANAGED_PHYS)]
     @ (if kstart < kend then [(kstart, kend)] else [])
     @ (if fblen \<noteq> 0 then [(fb, fb + fblen)] else [])
     @ [(KERNEL_HEAP_PHYS, KERNEL_HEAP_PHYS + KERNEL_HEAP_SIZE),
        (KERNEL_STACK_PHYS, KERNEL_STACK_PHYS + PAGE_ENTRIES * PAGE_SIZE)]"

fun add_entries :: "range64 list \<Rightarrow> mmap_entry list \<Rightarrow> buddy_state \<times> kheap
    \<Rightarrow> heap_panic + buddy_state \<times> kheap" where
  "add_entries xs [] s = Inr s"
| "add_entries xs (m # ms) s =
     (if m_type m \<noteq> MULTIBOOT_MEMORY_AVAILABLE \<or> m_len m = 0 then add_entries xs ms s
      else case add_ranges (carve_all [(m_addr m, (m_addr m + m_len m) mod 2 ^ 64)] xs) s of
             Inl p \<Rightarrow> Inl p
           | Inr s' \<Rightarrow> add_entries xs ms s')"

definition buddy_init :: "range64 list \<Rightarrow> mmap_entry list \<Rightarrow> nat \<Rightarrow> nat \<Rightarrow> nat \<Rightarrow> nat
    \<Rightarrow> kheap \<Rightarrow> heap_panic + buddy_state \<times> kheap" where
  "buddy_init mods entries kstart kend fb fblen h =
     (let xs = base_exclusions kstart kend fb fblen
      in add_entries (xs @ module_exclusions mods (length xs)) entries ([], h))"

subsection \<open>Blocks of pages\<close>

definition block :: "nat \<times> nat \<Rightarrow> nat set" where
  "block b = {fst b ..< fst b + 2 ^ snd b}"

definition tiling :: "nat \<Rightarrow> nat \<Rightarrow> (nat \<times> nat) set \<Rightarrow> bool" where
  "tiling mo n B \<longleftrightarrow> (\<forall>(i, k) \<in> B. k \<le> mo \<and> 2 ^ k dvd i \<and> i + 2 ^ k \<le> n)
     \<and> pairwise (\<lambda>b c. block b \<inter> block c = {}) B"

lemma block_head [simp]: "i \<in> block (i, k)"
  by (simp add: block_def)

lemma block_halves: "block (i, Suc k) = block (i, k) \<union> block (i + 2 ^ k, k)"
  by (auto simp: block_def)

lemma block_halves_disj: "block (i, k) \<inter> block (i + 2 ^ k, k) = {}"
  by (auto simp: block_def)

lemma tiling_insert:
  "b \<notin> B \<Longrightarrow> tiling mo n (insert b B) \<longleftrightarrow> tiling mo n B
     \<and> (snd b \<le> mo \<and> 2 ^ snd b dvd fst b \<and> fst b + 2 ^ snd b \<le> n)
     \<and> (\<forall>c \<in> B. block b \<inter> block c = {})"
  unfolding tiling_def pairwise_insert by (cases b) (auto simp: Int_commute)

lemma tiling_same_head: "tiling mo n B \<Longrightarrow> (i, k) \<in> B \<Longrightarrow> (i, m) \<in> B \<Longrightarrow> k = m"
  unfolding tiling_def pairwise_def by (metis block_head disjoint_iff prod.inject)

lemma tiling_split:
  assumes t: "tiling mo n (insert (i, Suc k) B)" and n: "(i, Suc k) \<notin> B"
  shows "tiling mo n (insert (i, k) (insert (i + 2 ^ k, k) B))"
    "(i, k) \<notin> insert (i + 2 ^ k, k) B" "(i + 2 ^ k, k) \<notin> B"
proof -
  have s: "tiling mo n B" "Suc k \<le> mo" "2 ^ Suc k dvd i" "i + 2 ^ Suc k \<le> n"
    "\<forall>c \<in> B. block (i, Suc k) \<inter> block c = {}"
    using t unfolding tiling_insert [OF n] by simp_all
  have d: "\<forall>c \<in> B. block (i, k) \<inter> block c = {} \<and> block (i + 2 ^ k, k) \<inter> block c = {}"
    using s(5) unfolding block_halves by blast
  show nb: "(i + 2 ^ k, k) \<notin> B"
  proof -
    have "block (i + 2 ^ k, k) \<inter> block (i + 2 ^ k, k) \<noteq> {}" using block_head [of "i + 2 ^ k" k] by blast
    then show ?thesis using d by blast
  qed
  show na: "(i, k) \<notin> insert (i + 2 ^ k, k) B"
  proof -
    have "block (i, k) \<inter> block (i, k) \<noteq> {}" using block_head [of i k] by blast
    then show ?thesis using d by auto
  qed
  have dv: "2 ^ k dvd i" "2 ^ k dvd i + 2 ^ k"
    using s(3) by (auto intro: dvd_trans [of "2 ^ k" "2 ^ Suc k"])
  show "tiling mo n (insert (i, k) (insert (i + 2 ^ k, k) B))"
    unfolding tiling_insert [OF na] tiling_insert [OF nb]
    using s d dv block_halves_disj [of i k] by auto
qed

lemma tiling_merge:
  assumes t: "tiling mo n (insert (i, k) (insert (i + 2 ^ k, k) B))"
    and n: "(i, k) \<notin> insert (i + 2 ^ k, k) B" "(i + 2 ^ k, k) \<notin> B"
    and a: "2 ^ Suc k dvd i" "k < mo"
  shows "tiling mo n (insert (i, Suc k) B)" "(i, Suc k) \<notin> B"
proof -
  have s: "tiling mo n B" "i + 2 ^ k + 2 ^ k \<le> n"
    "\<forall>c \<in> B. block (i, k) \<inter> block c = {}" "\<forall>c \<in> B. block (i + 2 ^ k, k) \<inter> block c = {}"
    using t unfolding tiling_insert [OF n(1)] tiling_insert [OF n(2)] by simp_all
  then show nb: "(i, Suc k) \<notin> B"
    using block_head [of i k] block_head [of i "Suc k"] by blast
  have "\<forall>c \<in> B. block (i, Suc k) \<inter> block c = {}"
    unfolding block_halves using s by blast
  then show "tiling mo n (insert (i, Suc k) B)"
    unfolding tiling_insert [OF nb] using s a by simp
qed

subsection \<open>The buddy of a block\<close>

lemma buddy_index_cases:
  assumes "2 ^ k dvd i"
  shows "(2 ^ Suc k dvd i \<and> buddy_index i k = i + 2 ^ k)
    \<or> (2 ^ k \<le> i \<and> 2 ^ Suc k dvd i - 2 ^ k \<and> buddy_index i k = i - 2 ^ k)"
proof -
  from assms obtain q where q: "i = push_bit k q" by (auto simp: push_bit_eq_mult mult.commute elim: dvdE)
  have x: "buddy_index i k = push_bit k (q XOR 1)"
    unfolding buddy_index_def q by (simp add: push_bit_xor)
  show ?thesis
  proof (cases "even q")
    case True
    then have "q XOR 1 = q + 1" by (simp add: xor_nat_def xor_one_eq)
    moreover have "2 ^ Suc k dvd i" using True q by (auto simp: push_bit_eq_mult elim!: evenE)
    ultimately show ?thesis using x q by (simp add: push_bit_eq_mult)
  next
    case False
    then obtain r where r: "q = 2 * r + 1" by (auto elim: oddE)
    have "q XOR 1 = 2 * r" unfolding r by (simp add: xor_nat_def xor_one_eq)
    then show ?thesis using x q r by (simp add: push_bit_eq_mult)
  qed
qed

subsection \<open>What the free lists of a zone represent\<close>

definition zlist :: "buddy_zone \<Rightarrow> nat \<Rightarrow> nat list \<Rightarrow> bool" where
  "zlist z k xs \<longleftrightarrow> chain (\<lambda>i. pg_next (pages z i)) (free_list z k) xs \<and> distinct xs
     \<and> (\<forall>i \<in> set xs. \<not> pg_used (pages z i) \<and> pg_order (pages z i) = k \<and> k \<le> max_order z)"

definition zlists :: "buddy_zone \<Rightarrow> (nat \<Rightarrow> nat list) \<Rightarrow> bool" where
  "zlists z fl \<longleftrightarrow> (\<forall>k. zlist z k (fl k))"

lemma zlistsD:
  assumes "zlists z fl"
  shows "zlist z k (fl k)" "chain (\<lambda>i. pg_next (pages z i)) (free_list z k) (fl k)" "distinct (fl k)"
    "i \<in> set (fl k) \<Longrightarrow> \<not> pg_used (pages z i)" "i \<in> set (fl k) \<Longrightarrow> pg_order (pages z i) = k"
    "i \<in> set (fl k) \<Longrightarrow> k \<le> max_order z"
  using assms unfolding zlists_def zlist_def by blast+

definition fblocks :: "(nat \<Rightarrow> nat list) \<Rightarrow> (nat \<times> nat) set" where
  "fblocks fl = {(i, k). i \<in> set (fl k)}"

definition marked :: "buddy_zone \<Rightarrow> (nat \<times> nat) set \<Rightarrow> bool" where
  "marked z A \<longleftrightarrow> (\<forall>(i, k) \<in> A. pg_used (pages z i) \<and> pg_order (pages z i) = k)"

text \<open>
  \<open>zone_ok z fl A\<close>: the lists \<open>fl\<close> and the blocks \<open>A\<close> in use cut the pages of the zone into
  aligned blocks. \<open>in_hand z fl A i k\<close>: the same, with one block more that is in no list and not in use.
\<close>

lemma markedD: "marked z A \<Longrightarrow> (i, k) \<in> A \<Longrightarrow> pg_used (pages z i) \<and> pg_order (pages z i) = k"
  by (auto simp: marked_def)

lemma marked_insert: "marked z A \<Longrightarrow> pg_used (pages z i) \<Longrightarrow> pg_order (pages z i) = k
    \<Longrightarrow> marked z (insert (i, k) A)"
  by (auto simp: marked_def)

lemma zlists_marked_disj:
  "zlists z fl \<Longrightarrow> marked z A \<Longrightarrow> i \<in> set (fl k) \<Longrightarrow> i \<notin> fst ` A"
  using zlistsD(4) [of z fl i k] by (auto simp: marked_def)

definition zone_ok :: "buddy_zone \<Rightarrow> (nat \<Rightarrow> nat list) \<Rightarrow> (nat \<times> nat) set \<Rightarrow> bool" where
  "zone_ok z fl A \<longleftrightarrow> zlists z fl \<and> marked z A \<and> tiling (max_order z) (num_pages z) (fblocks fl \<union> A)
     \<and> \<Union> (block ` (fblocks fl \<union> A)) = {..<num_pages z}"

definition in_hand :: "buddy_zone \<Rightarrow> (nat \<Rightarrow> nat list) \<Rightarrow> (nat \<times> nat) set \<Rightarrow> nat \<Rightarrow> nat \<Rightarrow> bool" where
  "in_hand z fl A i k \<longleftrightarrow> zlists z fl \<and> marked z A \<and> (i, k) \<notin> fblocks fl \<union> A
     \<and> tiling (max_order z) (num_pages z) (insert (i, k) (fblocks fl \<union> A))
     \<and> \<Union> (block ` insert (i, k) (fblocks fl \<union> A)) = {..<num_pages z}"

lemma zone_okD:
  assumes "zone_ok z fl A"
  shows "zlists z fl" "marked z A" "tiling (max_order z) (num_pages z) (fblocks fl \<union> A)"
    "\<Union> (block ` (fblocks fl \<union> A)) = {..<num_pages z}"
  using assms unfolding zone_ok_def by blast+

lemma in_handD:
  assumes "in_hand z fl A i k"
  shows "zlists z fl" "marked z A" "(i, k) \<notin> fblocks fl \<union> A"
    "tiling (max_order z) (num_pages z) (insert (i, k) (fblocks fl \<union> A))"
    "\<Union> (block ` insert (i, k) (fblocks fl \<union> A)) = {..<num_pages z}"
  using assms unfolding in_hand_def by blast+

lemma fblocks_upd_Cons: "fblocks (fl(k := i # fl k)) = insert (i, k) (fblocks fl)"
  by (auto simp: fblocks_def)

lemma tiling_other_head:
  assumes "tiling mo n (insert (i, k) B)" "(i, k) \<notin> B" "(j, m) \<in> B" "p \<in> block (i, k)"
  shows "j \<noteq> p"
  using assms unfolding tiling_insert [OF assms(2)] by (metis block_head disjoint_iff)

lemma zlists_cong:
  assumes "zlists z fl" "max_order z' = max_order z" "\<And>k. free_list z' k = free_list z k"
    "\<And>i. i \<in> fst ` fblocks fl \<Longrightarrow> pages z' i = pages z i"
  shows "zlists z' fl"
proof -
  have e: "pages z' i = pages z i" if "i \<in> set (fl k)" for i k
    using assms(4) that by (force simp: fblocks_def)
  have "chain (\<lambda>i. pg_next (pages z' i)) p (fl k) = chain (\<lambda>i. pg_next (pages z i)) p (fl k)" for p k
    by (rule chain_cong) (simp add: e)
  then show ?thesis using assms(1-3) e unfolding zlists_def zlist_def by simp
qed

lemma marked_cong:
  "marked z A \<Longrightarrow> (\<And>i. i \<in> fst ` A \<Longrightarrow> pages z' i = pages z i) \<Longrightarrow> marked z' A"
  by (force simp: marked_def)

lemma zlists_push:
  assumes "zlists z fl" "i \<notin> fst ` fblocks fl" "k \<le> max_order z"
  shows "zlists (zone_push_free z i k) (fl(k := i # fl k))"
proof -
  let ?z = "zone_push_free z i k"
  have n: "i \<notin> set (fl m)" for m using assms(2) by (force simp: fblocks_def)
  have "chain (\<lambda>j. pg_next (pages ?z j)) p (fl m) = chain (\<lambda>j. pg_next (pages z j)) p (fl m)" for p m
    by (rule chain_cong) (use n [of m] in \<open>auto simp: zone_push_free_def\<close>)
  then show ?thesis
    using assms n unfolding zlists_def zlist_def
    by (auto simp: zone_push_free_def)
qed

lemma push_fields [simp]:
  "max_order (zone_push_free z i k) = max_order z" "num_pages (zone_push_free z i k) = num_pages z"
  "base_phys (zone_push_free z i k) = base_phys z"
  "j \<noteq> i \<Longrightarrow> pages (zone_push_free z i k) j = pages z j"
  by (simp_all add: zone_push_free_def)

lemma in_hand_other:
  assumes "in_hand z fl A i k" "p \<in> block (i, k)"
  shows "p \<notin> fst ` fblocks fl" "p \<notin> fst ` A"
  using tiling_other_head [OF in_handD(4,3) [OF assms(1)] _ assms(2)] by force+

lemma in_hand_bounds:
  assumes "in_hand z fl A i k"
  shows "k \<le> max_order z" "2 ^ k dvd i" "i + 2 ^ k \<le> num_pages z"
  using in_handD(4) [OF assms] by (simp_all add: tiling_def)

lemma hand_push:
  assumes h: "in_hand z fl A i k"
  shows "zone_ok (zone_push_free z i k) (fl(k := i # fl k)) A"
  unfolding zone_ok_def
proof (intro conjI)
  note o = in_hand_other [OF h block_head]
  show "zlists (zone_push_free z i k) (fl(k := i # fl k))"
    using zlists_push [OF in_handD(1) [OF h] o(1) in_hand_bounds(1) [OF h]] .
  show "marked (zone_push_free z i k) A"
    by (rule marked_cong [OF in_handD(2) [OF h]]) (metis o(2) push_fields(4))
  show "tiling (max_order (zone_push_free z i k)) (num_pages (zone_push_free z i k))
      (fblocks (fl(k := i # fl k)) \<union> A)"
    "\<Union> (block ` (fblocks (fl(k := i # fl k)) \<union> A)) = {..<num_pages (zone_push_free z i k)}"
    using in_handD(4,5) [OF h] unfolding fblocks_upd_Cons by simp_all
qed

lemma hand_split:
  assumes h: "in_hand z fl A i (Suc k)"
  shows "in_hand (zone_push_free z (i + 2 ^ k) k) (fl(k := (i + 2 ^ k) # fl k)) A i k"
  unfolding in_hand_def
proof (intro conjI)
  let ?z = "zone_push_free z (i + 2 ^ k) k" and ?fl = "fl(k := (i + 2 ^ k) # fl k)"
  have r: "i + 2 ^ k \<in> block (i, Suc k)" by (simp add: block_def)
  note o = in_hand_other [OF h r]
  have t: "tiling (max_order z) (num_pages z) (insert (i, Suc k) (fblocks fl \<union> A))"
    and n: "(i, Suc k) \<notin> fblocks fl \<union> A"
    and c: "\<Union> (block ` insert (i, Suc k) (fblocks fl \<union> A)) = {..<num_pages z}"
    using in_handD [OF h] by simp_all
  note s = tiling_split [OF t n]
  show "zlists ?z ?fl"
    using zlists_push [OF in_handD(1) [OF h] o(1)] in_hand_bounds(1) [OF h] by simp
  show "marked ?z A"
    by (rule marked_cong [OF in_handD(2) [OF h]]) (metis o(2) push_fields(4))
  show "(i, k) \<notin> fblocks ?fl \<union> A"
    using s(2) unfolding fblocks_upd_Cons by auto
  show "tiling (max_order ?z) (num_pages ?z) (insert (i, k) (fblocks ?fl \<union> A))"
    using s(1) unfolding fblocks_upd_Cons by simp
  show "\<Union> (block ` insert (i, k) (fblocks ?fl \<union> A)) = {..<num_pages ?z}"
    using c unfolding fblocks_upd_Cons by (simp add: block_halves Un_assoc)
qed

lemma hand_set_head:
  assumes h: "in_hand z fl A i k" and e: "max_order z' = max_order z" "num_pages z' = num_pages z"
    "free_list z' = free_list z" "\<And>j. j \<noteq> i \<Longrightarrow> pages z' j = pages z j"
  shows "in_hand z' fl A i k"
proof -
  note o = in_hand_other [OF h block_head]
  have "zlists z' fl"
    by (rule zlists_cong [OF in_handD(1) [OF h] e(1)]) (use e o in \<open>metis+\<close>)
  moreover have "marked z' A"
    by (rule marked_cong [OF in_handD(2) [OF h]]) (use e o in metis)
  ultimately show ?thesis using in_handD(3-5) [OF h] e(1,2) unfolding in_hand_def by simp
qed

lemma set_head_fields [simp]:
  "max_order (set_head z i k u) = max_order z" "num_pages (set_head z i k u) = num_pages z"
  "free_list (set_head z i k u) = free_list z" "base_phys (set_head z i k u) = base_phys z"
  "j \<noteq> i \<Longrightarrow> pages (set_head z i k u) j = pages z j"
  "max_order (set_order z i k) = max_order z" "num_pages (set_order z i k) = num_pages z"
  "free_list (set_order z i k) = free_list z" "base_phys (set_order z i k) = base_phys z"
  "j \<noteq> i \<Longrightarrow> pages (set_order z i k) j = pages z j"
  by (simp_all add: set_head_def set_order_def)

lemma hand_take:
  assumes h: "in_hand z fl A i k"
  shows "zone_ok (set_head z i k True) fl (insert (i, k) A)"
proof -
  have h': "in_hand (set_head z i k True) fl A i k" by (rule hand_set_head [OF h]) simp_all
  have p: "pg_used (pages (set_head z i k True) i)" "pg_order (pages (set_head z i k True) i) = k"
    by (simp_all add: set_head_def)
  have "marked (set_head z i k True) (insert (i, k) A)"
    by (rule marked_insert [OF in_handD(2) [OF h'] p])
  moreover have e: "fblocks fl \<union> insert (i, k) A = insert (i, k) (fblocks fl \<union> A)" by simp
  ultimately show ?thesis using in_handD(1,4,5) [OF h'] unfolding zone_ok_def e by blast
qed

lemma ok_release:
  assumes o: "zone_ok z fl A" and a: "(i, k) \<in> A"
  shows "in_hand (set_head z i k False) fl (A - {(i, k)}) i k"
proof -
  have nf: "(i, k) \<notin> fblocks fl"
    using zlists_marked_disj [OF zone_okD(1,2) [OF o], of i k] a by (force simp: fblocks_def)
  have e: "insert (i, k) (fblocks fl \<union> (A - {(i, k)})) = fblocks fl \<union> A" using a by auto
  have "in_hand z fl (A - {(i, k)}) i k"
  proof -
    have "marked z (A - {(i, k)})" using zone_okD(2) [OF o] by (auto simp: marked_def)
    then show ?thesis unfolding in_hand_def e using zone_okD(1,3,4) [OF o] nf by blast
  qed
  then show ?thesis by (rule hand_set_head) simp_all
qed

lemma ok_pop:
  assumes o: "zone_ok z fl A" and p: "zone_pop_free z k = Some (z', i)"
  shows "\<exists>rest. fl k = i # rest \<and> in_hand z' (fl(k := rest)) A i k"
proof -
  have i: "free_list z k = Some i" using p by (auto simp: zone_pop_free_def split: option.splits)
  then have z': "z' = z\<lparr>free_list := (free_list z)(k := pg_next (pages z i)),
      pages := (pages z)(i := (pages z i)\<lparr>pg_next := None\<rparr>)\<rparr>"
    using p by (simp add: zone_pop_free_def)
  note zl = zone_okD(1) [OF o]
  then have "chain (\<lambda>i. pg_next (pages z i)) (Some i) (fl k)" using zlistsD(2) [OF zl, of k] i by simp
  then obtain rest where r: "fl k = i # rest" "chain (\<lambda>i. pg_next (pages z i)) (pg_next (pages z i)) rest"
    by (auto simp: chain_Some)
  have ik: "(i, k) \<in> fblocks fl" using r by (simp add: fblocks_def)
  have nm: "i \<notin> set ((fl(k := rest)) m)" for m
  proof (cases "m = k")
    case True
    have "distinct (i # rest)" using zlistsD(3) [OF zl, of k] r(1) by simp
    then show ?thesis using True by simp
  next
    case False
    have "pg_order (pages z i) = k" "i \<in> set (fl m) \<Longrightarrow> pg_order (pages z i) = m"
      using zlistsD(5) [OF zl, of i k] zlistsD(5) [OF zl, of i m] r(1) by auto
    then show ?thesis using False by auto
  qed
  have fb: "fblocks (fl(k := rest)) = fblocks fl - {(i, k)}"
    using r(1) nm [of k] nm by (auto simp: fblocks_def split: if_splits)
  have "i \<in> set (fl k)" using r(1) by simp
  then have us: "\<not> pg_used (pages z i)" by (rule zlistsD(4) [OF zl])
  have "zlists z' (fl(k := rest))"
  proof -
    have c: "chain (\<lambda>j. pg_next (pages z' j)) p ((fl(k := rest)) m)
      = chain (\<lambda>j. pg_next (pages z j)) p ((fl(k := rest)) m)" for p m
      by (rule chain_cong) (use nm [of m] z' in auto)
    have zm: "zlist z m (fl m)" for m using zlistsD(1) [OF zl] .
    have "zlist z' m ((fl(k := rest)) m)" for m
      using zm [of m] r nm [of m] unfolding zlist_def c by (cases "m = k") (auto simp: z')
    then show ?thesis unfolding zlists_def by blast
  qed
  moreover have "marked z' A"
  proof -
    have "i \<notin> fst ` A" using zone_okD(2) [OF o] us by (auto simp: marked_def)
    then have "pages z' j = pages z j" if "j \<in> fst ` A" for j using that by (auto simp: z')
    then show ?thesis by (rule marked_cong [OF zone_okD(2) [OF o]])
  qed
  moreover have "(i, k) \<notin> A"
    using zone_okD(2) [OF o] us by (auto simp: marked_def)
  moreover have "insert (i, k) (fblocks (fl(k := rest)) \<union> A) = fblocks fl \<union> A"
    using fb ik by auto
  ultimately have "in_hand z' (fl(k := rest)) A i k"
    unfolding in_hand_def using zone_okD(3,4) [OF o] fb by (simp add: z')
  then show ?thesis using r(1) by blast
qed

text \<open>No free block has a free buddy of its order: the free lists are fully coalesced.\<close>

definition no_buddies :: "nat \<Rightarrow> (nat \<Rightarrow> nat list) \<Rightarrow> bool" where
  "no_buddies mo fl \<longleftrightarrow> (\<forall>k < mo. \<forall>i \<in> set (fl k). buddy_index i k \<notin> set (fl k))"

lemma no_buddies_shrink:
  "no_buddies mo fl \<Longrightarrow> (\<And>k. set (fl' k) \<subseteq> set (fl k)) \<Longrightarrow> no_buddies mo fl'"
  unfolding no_buddies_def by blast

lemma buddy_index_invol [simp]: "buddy_index (buddy_index i k) k = i"
  by (simp add: buddy_index_def xor.assoc)

lemma buddy_index_neq: "buddy_index i k \<noteq> i"
proof
  assume "buddy_index i k = i"
  then have "i XOR buddy_index i k = 0" by simp
  then show False by (simp add: buddy_index_def push_bit_eq_mult flip: xor.assoc)
qed

lemma no_buddies_push:
  assumes "no_buddies mo fl" "k < mo \<Longrightarrow> buddy_index i k \<notin> set (fl k)"
  shows "no_buddies mo (fl(k := i # fl k))"
  using assms buddy_index_neq unfolding no_buddies_def
  by auto

subsection \<open>Allocation\<close>

definition same_frame :: "buddy_zone \<Rightarrow> buddy_zone \<Rightarrow> bool" where
  "same_frame z z' \<longleftrightarrow> max_order z' = max_order z \<and> num_pages z' = num_pages z \<and> base_phys z' = base_phys z"

lemma same_frame_trans: "same_frame x y \<Longrightarrow> same_frame y z \<Longrightarrow> same_frame x z"
  by (simp add: same_frame_def)

lemma same_frame_refl [simp]: "same_frame z z"
  by (simp add: same_frame_def)

lemma same_frame_ops [simp]:
  "same_frame z (zone_push_free z i k)" "same_frame z (set_head z i k u)" "same_frame z (set_order z i k)"
  by (simp_all add: same_frame_def)

lemma split_loop_ok:
  assumes "in_hand z fl A i k" "want \<le> k" "no_buddies (max_order z) fl"
  shows "\<exists>fl'. in_hand (split_loop z i want k) fl' A i want
    \<and> same_frame z (split_loop z i want k) \<and> no_buddies (max_order z) fl'"
  using assms
proof (induction k arbitrary: z fl)
  case 0
  then show ?case by auto
next
  case (Suc k)
  show ?case
  proof (cases "want < Suc k")
    case True
    let ?z = "zone_push_free z (i + 2 ^ k) k"
    note h = hand_split [OF Suc.prems(1)]
    have "buddy_index (i + 2 ^ k) k \<notin> set (fl k)"
    proof -
      have "2 ^ Suc k dvd i" using in_hand_bounds(2) [OF Suc.prems(1)] .
      then have "2 ^ k dvd i" by (auto intro: dvd_trans [of "2 ^ k" "2 ^ Suc k"])
      have "\<not> 2 ^ Suc k dvd i - 2 ^ k" if "2 ^ k \<le> i"
      proof
        assume "2 ^ Suc k dvd i - 2 ^ k"
        with \<open>2 ^ Suc k dvd i\<close> have "2 ^ Suc k dvd i - (i - 2 ^ k)" by (rule dvd_diff_nat)
        then show False using that dvd_imp_le [of "2 ^ Suc k" "2 ^ k :: nat"] by simp
      qed
      then have "buddy_index i k = i + 2 ^ k" using buddy_index_cases [OF \<open>2 ^ k dvd i\<close>] by blast
      then have "buddy_index (i + 2 ^ k) k = i" by (metis buddy_index_invol)
      then show ?thesis
        using in_hand_other(1) [OF Suc.prems(1) block_head] by (force simp: fblocks_def)
    qed
    then have "no_buddies (max_order ?z) (fl(k := (i + 2 ^ k) # fl k))"
      using no_buddies_push Suc.prems(3) by simp
    from Suc.IH [OF h _ this] True show ?thesis
      by (auto intro: same_frame_trans [OF same_frame_ops(1)] simp: push_bit_eq_mult)
  next
    case False
    then show ?thesis using Suc.prems by (auto simp: le_antisym not_less)
  qed
qed

lemma zone_pop_same_frame: "zone_pop_free z k = Some (z', i) \<Longrightarrow> same_frame z z'"
  by (auto simp: zone_pop_free_def same_frame_def split: option.splits)

lemma zone_find_ok:
  assumes "zone_ok z fl A" "no_buddies (max_order z) fl" "zone_find z k = Some (z', i, m)"
  shows "k \<le> m \<and> m \<le> max_order z \<and> same_frame z z'
    \<and> (\<exists>fl'. in_hand z' fl' A i m \<and> no_buddies (max_order z) fl')"
  using assms
proof (induction z k rule: zone_find.induct)
  case (1 z k)
  show ?case
  proof (cases "k \<le> max_order z")
    case True
    show ?thesis
    proof (cases "zone_pop_free z k")
      case None
      with 1(1) [OF True None] 1(2-4) True show ?thesis by (auto simp: zone_find.simps [of z k])
    next
      case (Some p)
      then have e: "zone_pop_free z k = Some (z', i)" "m = k"
        using 1(4) True by (auto simp: zone_find.simps [of z k] split: prod.splits)
      from ok_pop [OF 1(2) e(1)] obtain rest where r: "fl k = i # rest" "in_hand z' (fl(k := rest)) A i k"
        by blast
      have "no_buddies (max_order z) (fl(k := rest))"
        by (rule no_buddies_shrink [OF 1(3)]) (use r in auto)
      then show ?thesis using r e True zone_pop_same_frame by blast
    qed
  next
    case False
    then show ?thesis using 1(4) by (simp add: zone_find.simps [of z k])
  qed
qed

lemma zone_find_None:
  assumes "zone_find z k = None" "k \<le> m" "m \<le> max_order z"
  shows "free_list z m = None"
  using assms
proof (induction z k rule: zone_find.induct)
  case (1 z k)
  have p: "zone_pop_free z k = None"
    using 1(2-4) by (auto simp: zone_find.simps [of z k] split: option.splits)
  show ?case
  proof (cases "m = k")
    case True
    with p show ?thesis by (simp add: zone_pop_free_def split: option.splits)
  next
    case False
    with 1 p show ?thesis by (auto simp: zone_find.simps [of z k])
  qed
qed

lemma zone_alloc_pages_ok:
  assumes o: "zone_ok z fl A" and nb: "no_buddies (max_order z) fl"
    and r: "zone_alloc_pages z k = (z', p)"
  shows "(z' = z \<and> p = 0 \<and> (\<forall>m \<ge> k. fl m = []))
    \<or> (\<exists>i fl'. (i, k) \<notin> A \<and> zone_ok z' fl' (insert (i, k) A) \<and> no_buddies (max_order z') fl'
        \<and> p = w32 (base_phys z + push_bit PAGE_SHIFT i) \<and> same_frame z z')"
proof (cases "k \<le> max_order z \<and> zone_find z k \<noteq> None")
  case False
  then have "zone_alloc_pages z k = (z, 0)"
    unfolding zone_alloc_pages_def by (cases "zone_find z k") auto
  then have z: "z' = z" "p = 0" using r by simp_all
  have "fl m = []" if "k \<le> m" for m
  proof (cases "m \<le> max_order z")
    case True
    with False that have "zone_find z k = None" by (metis le_trans)
    from zone_find_None [OF this that True] show ?thesis
      using zlistsD(2) [OF zone_okD(1) [OF o], of m] by simp
  next
    case False
    then show ?thesis using zlistsD(6) [OF zone_okD(1) [OF o], of _ m] by (cases "fl m") auto
  qed
  then show ?thesis using z by blast
next
  case True
  then obtain z1 i m where f: "zone_find z k = Some (z1, i, m)" by (metis prod_cases3 option.exhaust)
  from zone_find_ok [OF o nb f] obtain fl1 where
    f1: "k \<le> m" "same_frame z z1" "in_hand z1 fl1 A i m" "no_buddies (max_order z) fl1" by blast
  let ?z2 = "if k < m then zone_split_to z1 i m k else z1"
  have sf: "max_order z1 = max_order z" using f1(2) by (simp add: same_frame_def)
  obtain fl2 where f2: "in_hand ?z2 fl2 A i k" "no_buddies (max_order z) fl2" "same_frame z ?z2"
  proof (cases "k < m")
    case True
    from split_loop_ok [OF f1(3,1)] f1(4) sf obtain fl2 where
      s: "in_hand (split_loop z1 i k m) fl2 A i k" "same_frame z1 (split_loop z1 i k m)"
      "no_buddies (max_order z) fl2" by auto
    have "in_hand ?z2 fl2 A i k"
      using True by (simp add: zone_split_to_def Let_def) (rule hand_set_head [OF s(1)], simp_all)
    moreover have "same_frame z ?z2"
      using True s(2) f1(2) by (simp add: zone_split_to_def Let_def same_frame_def)
    ultimately show thesis using that s(3) by blast
  next
    case False
    then show thesis using that f1 by (simp add: le_antisym not_less)
  qed
  have "z' = set_head ?z2 i k True" "p = w32 (base_phys z + push_bit PAGE_SHIFT i)"
    using r True f by (auto simp: zone_alloc_pages_def Let_def)
  moreover have "(i, k) \<notin> A" using in_handD(3) [OF f2(1)] by blast
  moreover have "same_frame z (set_head ?z2 i k True)"
    by (rule same_frame_trans [OF f2(3) same_frame_ops(2)])
  moreover have "no_buddies (max_order (set_head ?z2 i k True)) fl2"
    using f2(2,3) by (simp add: same_frame_def)
  ultimately show ?thesis using hand_take [OF f2(1)] by blast
qed

subsection \<open>Release\<close>

lemma zone_unlink_found:
  assumes "chain (\<lambda>i. pg_next (pages z i)) (link_get z pp) (ys @ b # zs)" "b \<notin> set ys" "length ys < f"
  shows "zone_unlink f z pp b = Some (unlink_at z (if ys = [] then pp else Next_of (last ys)) b, True)"
  using assms
proof (induction ys arbitrary: pp f)
  case Nil
  then show ?case by (cases f) auto
next
  case (Cons y ys)
  from Cons.prems obtain g where f: "f = Suc g" by (cases f) auto
  have "zone_unlink g z (Next_of y) b
      = Some (unlink_at z (if ys = [] then Next_of y else Next_of (last ys)) b, True)"
    using Cons.prems f by (intro Cons.IH) auto
  then show ?case using Cons.prems f by auto
qed

lemma zone_unlink_missing:
  assumes "chain (\<lambda>i. pg_next (pages z i)) (link_get z pp) ys" "b \<notin> set ys" "length ys < f"
  shows "zone_unlink f z pp b = Some (z, False)"
  using assms
proof (induction ys arbitrary: pp f)
  case Nil
  then show ?case by (cases f) auto
next
  case (Cons y ys)
  from Cons.prems obtain g where f: "f = Suc g" by (cases f) auto
  have "zone_unlink g z (Next_of y) b = Some (z, False)"
    using Cons.prems f by (intro Cons.IH) auto
  then show ?case using Cons.prems f by auto
qed

lemma chain_drop_one:
  assumes "chain nxt p (ys @ l # b # zs)" "distinct (ys @ l # b # zs)"
    "nxt' l = nxt b" "\<And>j. j \<noteq> l \<Longrightarrow> j \<noteq> b \<Longrightarrow> nxt' j = nxt j"
  shows "chain nxt' p (ys @ l # zs)"
  using assms(1,2)
proof (induction ys arbitrary: p)
  case Nil
  then have "chain nxt (nxt b) zs" by simp
  moreover have "chain nxt' (nxt b) zs = chain nxt (nxt b) zs"
  proof (rule chain_cong)
    fix x assume "x \<in> set zs"
    then have "x \<noteq> l" "x \<noteq> b" using Nil.prems by auto
    then show "nxt' x = nxt x" by (rule assms(4))
  qed
  ultimately show ?case using Nil assms(3) by simp
next
  case (Cons y ys)
  then show ?case using assms(4) by auto
qed

text \<open>Unlinking a block changes next fields only, and removes the block from its list.\<close>

lemma zone_unlink_zlists:
  assumes z: "zlists z fl" and l: "fl k = ys @ b # zs" and f: "length (fl k) < f"
  shows "\<exists>z'. zone_unlink f z (Head_link k) b = Some (z', True) \<and> zlists z' (fl(k := ys @ zs))
    \<and> same_frame z z'
    \<and> (\<forall>j. pg_used (pages z' j) = pg_used (pages z j) \<and> pg_order (pages z' j) = pg_order (pages z j))"
proof -
  note d = zlistsD(3) [OF z, of k, unfolded l]
  define lk where "lk = (if ys = [] then Head_link k else Next_of (last ys))"
  define z1 where "z1 = link_set z lk (pg_next (pages z b))"
  define z' where "z' = z1\<lparr>pages := (pages z1)(b := (pages z1 b)\<lparr>pg_next := None\<rparr>)\<rparr>"
  have ua: "unlink_at z lk b = z'" by (simp add: unlink_at_def z'_def z1_def Let_def)
  have u: "zone_unlink f z (Head_link k) b = Some (z', True)"
    using zone_unlink_found [of z "Head_link k" ys b zs f] zlistsD(2) [OF z, of k] d l f
    by (simp add: lk_def flip: ua)
  have flags: "pg_used (pages z' j) = pg_used (pages z j) \<and> pg_order (pages z' j) = pg_order (pages z j)" for j
    by (cases lk) (auto simp: z'_def z1_def)
  have sf: "same_frame z z'" by (simp add: same_frame_def z'_def z1_def)
  have nm: "j \<notin> set (fl m)" if "m \<noteq> k" "j \<in> set (fl k)" for j m
    using zlistsD(5) [OF z, of j m] zlistsD(5) [OF z, of j k] that by auto
  have fl_eq: "free_list z' m = (if lk = Head_link m then pg_next (pages z b) else free_list z m)" for m
    by (cases lk) (auto simp: z'_def z1_def)
  have nx: "pg_next (pages z' j) = (if j = b then None else if lk = Next_of j then pg_next (pages z b)
      else pg_next (pages z j))" for j
    by (cases lk) (auto simp: z'_def z1_def)
  have "zlist z' m ((fl(k := ys @ zs)) m)" for m
  proof (cases "m = k")
    case False
    have "chain (\<lambda>i. pg_next (pages z' i)) (free_list z m) (fl m) = chain (\<lambda>i. pg_next (pages z i)) (free_list z m) (fl m)"
      by (rule chain_cong) (use nm [OF False] l in \<open>force simp: nx lk_def\<close>)
    moreover have "free_list z' m = free_list z m" using False by (auto simp: fl_eq lk_def)
    ultimately show ?thesis using zlistsD(1) [OF z, of m] False flags sf
      by (simp add: zlist_def same_frame_def)
  next
    case True
    have c: "chain (\<lambda>i. pg_next (pages z i)) (free_list z k) (ys @ b # zs)"
      using zlistsD(2) [OF z, of k] l by simp
    have "chain (\<lambda>i. pg_next (pages z' i)) (free_list z' k) (ys @ zs)"
    proof (cases ys rule: rev_cases)
      case Nil
      have "chain (\<lambda>i. pg_next (pages z i)) (pg_next (pages z b)) zs" using c Nil by simp
      moreover have "chain (\<lambda>i. pg_next (pages z' i)) (pg_next (pages z b)) zs
          = chain (\<lambda>i. pg_next (pages z i)) (pg_next (pages z b)) zs"
        by (rule chain_cong) (use d Nil in \<open>auto simp: nx lk_def\<close>)
      ultimately show ?thesis using Nil by (simp add: fl_eq lk_def)
    next
      case (snoc xs x)
      have "chain (\<lambda>i. pg_next (pages z' i)) (free_list z k) (xs @ x # zs)"
        by (rule chain_drop_one [of "\<lambda>i. pg_next (pages z i)" _ xs x b zs])
          (use c d snoc in \<open>auto simp: nx lk_def\<close>)
      then show ?thesis using snoc by (simp add: fl_eq lk_def)
    qed
    then show ?thesis using True zlistsD(1) [OF z, of k] d l flags sf
      by (auto simp: zlist_def same_frame_def)
  qed
  then have "zlists z' (fl(k := ys @ zs))" unfolding zlists_def by blast
  then show ?thesis using u sf flags by blast
qed

lemma zlist_length:
  assumes "zlists z fl" "tiling (max_order z) (num_pages z) (insert b (fblocks fl \<union> A))"
  shows "length (fl k) \<le> num_pages z"
proof -
  have "i < num_pages z" if "i \<in> set (fl k)" for i
  proof -
    have "i + 2 ^ k \<le> num_pages z" using assms(2) that by (auto simp: tiling_def fblocks_def)
    moreover have "0 < (2::nat) ^ k" by simp
    ultimately show ?thesis by linarith
  qed
  then have "set (fl k) \<subseteq> {..<num_pages z}" by blast
  then have "card (set (fl k)) \<le> num_pages z" using card_mono [of "{..<num_pages z}"] by force
  then show ?thesis using zlistsD(3) [OF assms(1), of k] by (simp add: distinct_card)
qed

lemma fblocks_remove:
  assumes "zlists z fl" "fl k = ys @ b # zs"
  shows "fblocks fl = insert (b, k) (fblocks (fl(k := ys @ zs)))" "(b, k) \<notin> fblocks (fl(k := ys @ zs))"
  using zlistsD(3) [OF assms(1), of k] assms(2) by (auto simp: fblocks_def split: if_splits)

lemma hand_merge:
  assumes h: "in_hand z fl A i k" and b: "buddy_index i k \<in> set (fl k)" and k: "k < max_order z"
    and m: "m = (if buddy_index i k < i then buddy_index i k else i)" and f: "num_pages z < f"
    and nb: "no_buddies (max_order z) fl"
  shows "\<exists>z' fl'. zone_unlink f z (Head_link k) (buddy_index i k) = Some (z', True) \<and> same_frame z z'
    \<and> in_hand z' fl' A m (Suc k) \<and> no_buddies (max_order z) fl'"
proof -
  let ?b = "buddy_index i k"
  obtain ys zs where l: "fl k = ys @ ?b # zs" using b by (meson split_list)
  have len: "length (fl k) < f"
    using zlist_length [OF in_handD(1,4) [OF h], of k] f by simp
  obtain z' where z': "zone_unlink f z (Head_link k) ?b = Some (z', True)"
    "zlists z' (fl(k := ys @ zs))" "same_frame z z'"
    "\<forall>j. pg_used (pages z' j) = pg_used (pages z j) \<and> pg_order (pages z' j) = pg_order (pages z j)"
    using zone_unlink_zlists [OF in_handD(1) [OF h] l len] by blast
  let ?fl = "fl(k := ys @ zs)"
  let ?B = "fblocks ?fl \<union> A"
  note fb = fblocks_remove [OF in_handD(1) [OF h] l]
  have bA: "(?b, k) \<notin> A" using zlists_marked_disj [OF in_handD(1,2) [OF h] b] by force
  have B: "fblocks fl \<union> A = insert (?b, k) ?B" using fb by blast
  have t: "tiling (max_order z) (num_pages z) (insert (i, k) (insert (?b, k) ?B))"
    and cov: "\<Union> (block ` insert (i, k) (insert (?b, k) ?B)) = {..<num_pages z}"
    and ni: "(i, k) \<notin> insert (?b, k) ?B" and nbb: "(?b, k) \<notin> ?B"
    using in_handD(3-5) [OF h] fb(2) bA unfolding B by blast+
  have mm: "2 ^ Suc k dvd m \<and> tiling (max_order z) (num_pages z) (insert (m, k) (insert (m + 2 ^ k, k) ?B))
      \<and> (m, k) \<notin> insert (m + 2 ^ k, k) ?B \<and> (m + 2 ^ k, k) \<notin> ?B
      \<and> block (m, Suc k) = block (i, k) \<union> block (?b, k)"
    using buddy_index_cases [OF in_hand_bounds(2) [OF h]]
  proof (elim disjE conjE)
    assume a: "2 ^ Suc k dvd i" "?b = i + 2 ^ k"
    then have "m = i" using m by simp
    then show ?thesis using a t ni nbb by (simp add: block_halves)
  next
    assume a: "2 ^ k \<le> i" "2 ^ Suc k dvd i - 2 ^ k" "?b = i - 2 ^ k"
    have "0 < (2::nat) ^ k" by simp
    then have "i - 2 ^ k < i" using a(1) by linarith
    then have "m = i - 2 ^ k" "?b < i" using m a(3) by simp_all
    then have e: "m = ?b" "m + 2 ^ k = i" using a by simp_all
    have "insert (m, k) (insert (m + 2 ^ k, k) ?B) = insert (i, k) (insert (?b, k) ?B)"
      unfolding e(2) using e(1) by blast
    then show ?thesis using a t ni nbb e by (auto simp: block_halves)
  qed
  note tm = tiling_merge [of "max_order z" "num_pages z" m k ?B]
  have "tiling (max_order z) (num_pages z) (insert (m, Suc k) ?B)" "(m, Suc k) \<notin> ?B"
    using tm mm k by blast+
  moreover have "\<Union> (block ` insert (m, Suc k) ?B) = {..<num_pages z}"
    using cov mm by auto
  moreover have "marked z' A" using in_handD(2) [OF h] z'(4) by (simp add: marked_def)
  ultimately have "in_hand z' ?fl A m (Suc k)"
    using z'(2,3) by (simp add: in_hand_def same_frame_def)
  moreover have "no_buddies (max_order z) ?fl"
    by (rule no_buddies_shrink [OF nb]) (use l in auto)
  ultimately show ?thesis using z' by blast
qed

declare zone_unlink.simps [simp del]

lemma zone_coalesce_ok:
  assumes "in_hand z fl A i k" "no_buddies (max_order z) fl"
  shows "\<exists>z' i' k' fl'. zone_coalesce z i k = Some (z', i', k') \<and> in_hand z' fl' A i' k'
    \<and> same_frame z z' \<and> no_buddies (max_order z) fl'
    \<and> (k' < max_order z \<longrightarrow> buddy_index i' k' \<notin> set (fl' k'))"
  using assms
proof (induction z i k arbitrary: fl rule: zone_coalesce.induct)
  case (1 z i k)
  let ?b = "buddy_index i k"
  note h = 1(2) and nb = 1(3)
  have stop: ?case if "zone_coalesce z i k = Some (z, i, k)" "k < max_order z \<Longrightarrow> ?b \<notin> set (fl k)"
    using that h nb same_frame_refl by blast
  show ?case
  proof (cases "k < max_order z \<and> ?b < num_pages z \<and> \<not> pg_used (pages z ?b) \<and> pg_order (pages z ?b) = k")
    case False
    have "?b < num_pages z" if "?b \<in> set (fl k)"
    proof -
      have "?b + 2 ^ k \<le> num_pages z"
        using in_handD(4) [OF h] that by (auto simp: tiling_def fblocks_def)
      moreover have "0 < (2::nat) ^ k" by simp
      ultimately show ?thesis by linarith
    qed
    then have nin: "k < max_order z \<Longrightarrow> ?b \<notin> set (fl k)"
      using False zlistsD(4,5) [OF in_handD(1) [OF h], of ?b k] by blast
    show ?thesis
      by (rule stop [OF _ nin]) (use False in \<open>auto simp: zone_coalesce.simps [of z] Let_def\<close>)
  next
    case True
    show ?thesis
    proof (cases "?b \<in> set (fl k)")
      case False
      have "zone_unlink (num_pages z + 1) z (Head_link k) ?b = Some (z, False)"
        using zone_unlink_missing [of z "Head_link k" "fl k"] False zlistsD(2) [OF in_handD(1) [OF h], of k]
          zlist_length [OF in_handD(1,4) [OF h], of k] by auto
      then show ?thesis
        using False True by (intro stop) (auto simp: zone_coalesce.simps [of z] Let_def)
    next
      case t2: True
      define m where "m = (if ?b < i then ?b else i)"
      obtain z' fl' where z': "zone_unlink (num_pages z + 1) z (Head_link k) ?b = Some (z', True)"
        "same_frame z z'" "in_hand z' fl' A m (Suc k)" "no_buddies (max_order z) fl'"
        using hand_merge [OF h t2 _ m_def _ nb, of "num_pages z + 1"] True by auto
      let ?z = "set_order z' m (Suc k)"
      have h2: "in_hand ?z fl' A m (Suc k)" by (rule hand_set_head [OF z'(3)]) simp_all
      have sf: "max_order ?z = max_order z" using z'(2) by (simp add: same_frame_def)
      have nle: "\<not> num_pages z \<le> ?b" "k < max_order z"
        "\<not> (pg_used (pages z ?b) \<or> pg_order (pages z ?b) \<noteq> k)" using True by auto
      have "no_buddies (max_order ?z) fl'" using z'(4) sf by simp
      from 1(1) [OF nle(2) refl nle(1,3) z'(1) refl refl m_def, simplified Suc_eq_plus1 [symmetric], OF h2 this] sf
      obtain z2 i2 k2 fl2 where r: "zone_coalesce ?z m (Suc k) = Some (z2, i2, k2)"
        "in_hand z2 fl2 A i2 k2" "same_frame ?z z2" "no_buddies (max_order z) fl2"
        "k2 < max_order z \<longrightarrow> buddy_index i2 k2 \<notin> set (fl2 k2)"
        by auto
      have "zone_coalesce z i k = zone_coalesce ?z m (Suc k)"
        using True z'(1) by (simp add: zone_coalesce.simps [of z] Let_def m_def)
      moreover have "same_frame z z2"
        by (rule same_frame_trans [OF same_frame_trans [OF z'(2) same_frame_ops(3)] r(3)])
      ultimately show ?thesis using r by metis
    qed
  qed
qed

lemma and_page_mask: "x AND (PAGE_SIZE - 1) = x mod 4096"
  using take_bit_eq_mask [of 12 x] by (simp add: take_bit_eq_mod mask_eq_exp_minus_1 PAGE_SIZE_def)

lemma zone_free_pages_ok:
  assumes o: "zone_ok z fl A" and nb: "no_buddies (max_order z) fl" and a: "(i, k) \<in> A"
  shows "\<exists>z' fl'. zone_free_pages z (base_phys z + push_bit PAGE_SHIFT i) k = Some z'
    \<and> zone_ok z' fl' (A - {(i, k)}) \<and> no_buddies (max_order z') fl' \<and> same_frame z z'"
proof -
  let ?z = "set_head z i k False"
  note h = ok_release [OF o a]
  have sf: "max_order ?z = max_order z" by simp
  from zone_coalesce_ok [OF h] nb obtain z1 i1 k1 fl1 where
    c: "zone_coalesce ?z i k = Some (z1, i1, k1)" "in_hand z1 fl1 (A - {(i, k)}) i1 k1"
    "same_frame ?z z1" "no_buddies (max_order z) fl1"
    "k1 < max_order z \<longrightarrow> buddy_index i1 k1 \<notin> set (fl1 k1)" by auto
  let ?off = "push_bit PAGE_SHIFT i"
  have "?off AND (PAGE_SIZE - 1) = 0" "drop_bit PAGE_SHIFT ?off = i"
    unfolding and_page_mask by (simp_all add: PAGE_SHIFT_def push_bit_eq_mult drop_bit_eq_div)
  moreover have "i < num_pages z"
  proof -
    have "i + 2 ^ k \<le> num_pages z" using zone_okD(3) [OF o] a by (auto simp: tiling_def)
    moreover have "0 < (2::nat) ^ k" by simp
    ultimately show ?thesis by linarith
  qed
  ultimately have "zone_free_pages z (base_phys z + ?off) k = Some (zone_push_free z1 i1 k1)"
    using c(1) by (simp add: zone_free_pages_def Let_def)
  moreover have "same_frame z (zone_push_free z1 i1 k1)"
    using c(3) by (simp add: same_frame_def)
  moreover have "no_buddies (max_order (zone_push_free z1 i1 k1)) (fl1(k1 := i1 # fl1 k1))"
    using no_buddies_push [OF c(4), of k1 i1] c(3,5) by (simp add: same_frame_def)
  ultimately show ?thesis using hand_push [OF c(2)] by blast
qed

subsection \<open>Construction\<close>

lemma and_low_mask: "(x AND (push_bit k 1 - 1) = 0) \<longleftrightarrow> 2 ^ k dvd x" for x :: nat
proof -
  have "x AND (push_bit k 1 - 1) = x mod 2 ^ k"
    using take_bit_eq_mask [of k x] by (simp add: take_bit_eq_mod mask_eq_exp_minus_1 push_bit_eq_mult)
  then show ?thesis by (metis mod_eq_0_iff_dvd)
qed

lemma order_up_ok:
  assumes "2 ^ k \<le> r" "k \<le> mo"
  shows "order_up r mo k \<le> mo \<and> 2 ^ order_up r mo k \<le> r
    \<and> (order_up r mo k = mo \<or> r < 2 ^ Suc (order_up r mo k))"
  using assms
proof (induction r mo k rule: order_up.induct)
  case (1 r mo k)
  show ?case
  proof (cases "k < mo \<and> push_bit (k + 1) 1 \<le> r")
    case True
    then show ?thesis using 1 by (simp add: order_up.simps [of r mo k] push_bit_eq_mult)
  next
    case False
    then have "order_up r mo k = k" by (simp only: order_up.simps [of r mo k]) simp
    then show ?thesis using False 1(2,3) by (auto simp: push_bit_eq_mult)
  qed
qed

lemma order_down_ok:
  "order_down i k \<le> k \<and> 2 ^ order_down i k dvd i
    \<and> (order_down i k = k \<or> \<not> 2 ^ Suc (order_down i k) dvd i)"
proof (induction k)
  case 0
  then show ?case by simp
next
  case (Suc k)
  then show ?case using and_low_mask [of i "Suc k"] by (auto simp del: power_Suc)
qed

lemma largest_order_fit_ok:
  assumes "i < n"
  obtains k where "largest_order_fit i n mo = Some k" "k \<le> mo" "2 ^ k dvd i" "i + 2 ^ k \<le> n"
    "k = mo \<or> \<not> (2 ^ Suc k dvd i \<and> i + 2 ^ Suc k \<le> n)"
proof -
  let ?r = "n - i"
  let ?u = "order_up ?r mo 0" let ?k = "order_down i ?u"
  have u: "?u \<le> mo" "2 ^ ?u \<le> ?r" "?u = mo \<or> ?r < 2 ^ Suc ?u"
    using order_up_ok [of 0 ?r mo] assms by auto
  note d = order_down_ok [of i ?u]
  have le: "(2::nat) ^ ?k \<le> 2 ^ ?u" using d by (intro power_increasing) auto
  have "\<not> ?r < 2 ^ ?k" using le u(2) by linarith
  then have "largest_order_fit i n mo = Some ?k"
    using assms by (simp add: largest_order_fit_def Let_def sub32_le push_bit_eq_mult)
  moreover have "?k \<le> mo" "2 ^ ?k dvd i" using d u by auto
  moreover have "i + 2 ^ ?k \<le> n" using le u(2) assms by linarith
  moreover have "?k = mo \<or> \<not> (2 ^ Suc ?k dvd i \<and> i + 2 ^ Suc ?k \<le> n)"
    using d u(3) assms by (cases "?k = ?u") auto
  ultimately show thesis using that by blast
qed

text \<open>A block is maximal when no block of the next order could start at its head.\<close>

definition maximal :: "nat \<Rightarrow> nat \<Rightarrow> (nat \<Rightarrow> nat list) \<Rightarrow> bool" where
  "maximal mo n fl \<longleftrightarrow> (\<forall>k. \<forall>i \<in> set (fl k). k = mo \<or> \<not> (2 ^ Suc k dvd i \<and> i + 2 ^ Suc k \<le> n))"

lemma maximal_no_buddies:
  assumes "maximal mo n fl" "tiling mo n (fblocks fl)"
  shows "no_buddies mo fl"
  unfolding no_buddies_def
proof (intro allI impI ballI notI)
  fix k i assume k: "k < mo" and i: "i \<in> set (fl k)" and b: "buddy_index i k \<in> set (fl k)"
  have t: "2 ^ k dvd i" "i + 2 ^ k \<le> n" "buddy_index i k + 2 ^ k \<le> n"
    using assms(2) i b by (auto simp: tiling_def fblocks_def)
  have "\<forall>j \<in> set (fl k). \<not> (2 ^ Suc k dvd j \<and> j + 2 ^ Suc k \<le> n)"
    using assms(1) k unfolding maximal_def by auto
  then have mi: "\<not> (2 ^ Suc k dvd i \<and> i + 2 ^ Suc k \<le> n)"
    "\<not> (2 ^ Suc k dvd buddy_index i k \<and> buddy_index i k + 2 ^ Suc k \<le> n)"
    using i b by blast+
  from buddy_index_cases [OF t(1)] show False
    using mi t by (elim disjE conjE) auto
qed

definition zone_filled :: "buddy_zone \<Rightarrow> nat \<Rightarrow> (nat \<Rightarrow> nat list) \<Rightarrow> bool" where
  "zone_filled z idx fl \<longleftrightarrow> zlists z fl \<and> tiling (max_order z) (num_pages z) (fblocks fl)
     \<and> \<Union> (block ` fblocks fl) = {..<idx} \<and> maximal (max_order z) (num_pages z) fl"

lemma zone_fill_step:
  assumes f: "zone_filled z idx fl" and k: "k \<le> max_order z" "2 ^ k dvd idx" "idx + 2 ^ k \<le> num_pages z"
    "k = max_order z \<or> \<not> (2 ^ Suc k dvd idx \<and> idx + 2 ^ Suc k \<le> num_pages z)"
  shows "zone_filled (zone_push_free z idx k) (idx + 2 ^ k) (fl(k := idx # fl k))"
proof -
  have fD: "zlists z fl" "tiling (max_order z) (num_pages z) (fblocks fl)"
    "\<Union> (block ` fblocks fl) = {..<idx}" "maximal (max_order z) (num_pages z) fl"
    using f unfolding zone_filled_def by blast+
  have lt: "p < idx" if "c \<in> fblocks fl" "p \<in> block c" for c p
  proof -
    have "p \<in> \<Union> (block ` fblocks fl)" using that by blast
    then show ?thesis unfolding fD(3) by simp
  qed
  have dj: "block (idx, k) \<inter> block c = {}" if "c \<in> fblocks fl" for c
    using lt [OF that] by (force simp: block_def [of "(idx, k)"])
  have nf: "idx \<notin> fst ` fblocks fl"
    using lt block_head [of idx] by fastforce
  then have n: "(idx, k) \<notin> fblocks fl" by force
  have "zlists (zone_push_free z idx k) (fl(k := idx # fl k))" by (rule zlists_push [OF fD(1) nf k(1)])
  moreover have "tiling (max_order z) (num_pages z) (insert (idx, k) (fblocks fl))"
    unfolding tiling_insert [OF n] using fD(2) k dj by simp
  moreover have "\<Union> (block ` insert (idx, k) (fblocks fl)) = {..<idx + 2 ^ k}"
  proof -
    have "block (idx, k) \<union> {..<idx} = {..<idx + 2 ^ k}" by (auto simp: block_def)
    then show ?thesis using fD(3) by simp
  qed
  moreover have "maximal (max_order z) (num_pages z) (fl(k := idx # fl k))"
    using fD(4) k(4) unfolding maximal_def by auto
  ultimately show ?thesis by (simp only: zone_filled_def fblocks_upd_Cons push_fields)
qed

lemma zone_fill_ok:
  assumes "zone_filled z idx fl" "idx \<le> num_pages z"
  shows "\<exists>fl'. zone_filled (zone_fill z idx) (num_pages z) fl' \<and> same_frame z (zone_fill z idx)"
  using assms
proof (induction z idx arbitrary: fl rule: zone_fill.induct)
  case (1 z idx)
  show ?case
  proof (cases "idx < num_pages z")
    case True
    obtain k where k: "largest_order_fit idx (num_pages z) (max_order z) = Some k" "k \<le> max_order z"
      "2 ^ k dvd idx" "idx + 2 ^ k \<le> num_pages z"
      "k = max_order z \<or> \<not> (2 ^ Suc k dvd idx \<and> idx + 2 ^ Suc k \<le> num_pages z)"
      using largest_order_fit_ok [OF True] by blast
    have e: "zone_fill z idx = zone_fill (zone_push_free z idx k) (idx + 2 ^ k)"
      using True k(1) by (simp add: zone_fill.simps [of z] push_bit_eq_mult)
    obtain fl' where "zone_filled (zone_fill (zone_push_free z idx k) (idx + 2 ^ k)) (num_pages z) fl'"
      "same_frame (zone_push_free z idx k) (zone_fill (zone_push_free z idx k) (idx + 2 ^ k))"
      using 1(1) [OF True k(1)] zone_fill_step [OF 1(2) k(2-5)] k(4) by (auto simp: push_bit_eq_mult)
    then show ?thesis unfolding e using same_frame_trans [OF same_frame_ops(1)] by blast
  next
    case False
    then have "zone_fill z idx = z" "idx = num_pages z" using 1(3) by (auto simp: zone_fill.simps [of z])
    then show ?thesis using 1(2) by auto
  qed
qed

lemma zone_max_order_le: "zone_max_order n mo \<le> mo"
proof (induction n mo rule: zone_max_order.induct)
  case (1 n mo)
  then show ?case by (auto simp: zone_max_order.simps [of n mo])
qed

lemma zone_build_ok:
  shows "\<exists>fl. zone_ok (zone_build z) fl {} \<and> no_buddies (max_order (zone_build z)) fl"
    "num_pages (zone_build z) = num_pages z" "base_phys (zone_build z) = base_phys z"
    "max_order (zone_build z) \<le> MAX_ORDER"
proof -
  define y where "y = z\<lparr>free_list := \<lambda>k. None, max_order := zone_max_order (num_pages z) MAX_ORDER,
      pages := \<lambda>i. \<lparr>pg_order = 0, pg_used = False, pg_next = None\<rparr>\<rparr>"
  have b: "zone_build z = zone_fill y 0"
    by (simp add: zone_build_def Let_def zone_freelist_init_def y_def)
  have "fblocks (\<lambda>k. []) = {}" by (simp add: fblocks_def)
  then have "zone_filled y 0 (\<lambda>k. [])"
    by (simp add: zone_filled_def zlists_def zlist_def tiling_def maximal_def y_def)
  then obtain fl where fl: "zone_filled (zone_build z) (num_pages y) fl" "same_frame y (zone_build z)"
    using zone_fill_ok [of y 0] b by auto
  show n: "num_pages (zone_build z) = num_pages z" "base_phys (zone_build z) = base_phys z"
    "max_order (zone_build z) \<le> MAX_ORDER"
    using fl(2) zone_max_order_le by (simp_all add: same_frame_def y_def)
  have "zone_ok (zone_build z) fl {}"
    using fl n unfolding zone_ok_def zone_filled_def by (simp add: marked_def y_def)
  moreover have "no_buddies (max_order (zone_build z)) fl"
    using fl(1) maximal_no_buddies unfolding zone_filled_def by blast
  ultimately show "\<exists>fl. zone_ok (zone_build z) fl {} \<and> no_buddies (max_order (zone_build z)) fl" by blast
qed

subsection \<open>All zones\<close>

definition zone_inv :: "buddy_zone \<Rightarrow> (nat \<times> nat) set \<Rightarrow> bool" where
  "zone_inv z A \<longleftrightarrow> (\<exists>fl. zone_ok z fl A \<and> no_buddies (max_order z) fl)"

text \<open>
  A zone in the 32-bit address space: not at address 0, which the code takes for a failed
  allocation, and not reaching \<open>2 ^ 32\<close>, where its end would wrap to 0.
\<close>

definition zone_fits :: "buddy_zone \<Rightarrow> bool" where
  "zone_fits z \<longleftrightarrow> 0 < base_phys z \<and> base_phys z + 4096 * num_pages z < 2 ^ 32"

definition zone_range :: "buddy_zone \<Rightarrow> nat set" where
  "zone_range z = {base_phys z ..< base_phys z + 4096 * num_pages z}"

definition frame_at :: "buddy_zone \<Rightarrow> nat \<times> nat \<Rightarrow> nat \<times> nat" where
  "frame_at z b = (base_phys z + 4096 * fst b, snd b)"

definition phys_block :: "nat \<times> nat \<Rightarrow> nat set" where
  "phys_block b = {fst b ..< fst b + 4096 * 2 ^ snd b}"

fun zones_inv :: "buddy_state \<Rightarrow> (nat \<times> nat) set \<Rightarrow> bool" where
  "zones_inv [] F \<longleftrightarrow> F = {}"
| "zones_inv (z # zs) F \<longleftrightarrow> zone_fits z \<and> (\<forall>y \<in> set zs. zone_range z \<inter> zone_range y = {})
     \<and> (\<exists>A G. zone_inv z A \<and> zones_inv zs G \<and> F = frame_at z ` A \<union> G)"

lemma tiling_subset: "tiling mo n (B \<union> A) \<Longrightarrow> tiling mo n A"
  unfolding tiling_def by (auto intro: pairwise_subset)

lemma zone_inv_tiling: "zone_inv z A \<Longrightarrow> tiling (max_order z) (num_pages z) A"
  unfolding zone_inv_def using zone_okD(3) tiling_subset by blast

lemma frame_in_range:
  assumes "zone_inv z A" "(i, k) \<in> A"
  shows "phys_block (frame_at z (i, k)) \<subseteq> zone_range z" "fst (frame_at z (i, k)) \<in> zone_range z"
proof -
  have "i + 2 ^ k \<le> num_pages z"
    using zone_inv_tiling [OF assms(1)] assms(2) by (auto simp: tiling_def)
  moreover have "0 < (2::nat) ^ k" by simp
  ultimately have "i < num_pages z" "4096 * i + 4096 * 2 ^ k \<le> 4096 * num_pages z" by linarith+
  then show "phys_block (frame_at z (i, k)) \<subseteq> zone_range z" "fst (frame_at z (i, k)) \<in> zone_range z"
    unfolding phys_block_def frame_at_def zone_range_def fst_conv snd_conv atLeastLessThan_iff
    by auto
qed

lemma frame_range:
  assumes "zone_inv z A" "(p, k) \<in> frame_at z ` A"
  shows "p \<in> zone_range z"
proof -
  from assms(2) obtain i where "(i, k) \<in> A" "(p, k) = frame_at z (i, k)"
    by (auto simp: frame_at_def)
  then show ?thesis using frame_in_range(2) [OF assms(1), of i k] by (metis fst_conv)
qed

lemma phys_block_head [simp]: "p \<in> phys_block (p, k)"
  by (simp add: phys_block_def)

lemma zones_inv_frame:
  "zones_inv zs F \<Longrightarrow> f \<in> F \<Longrightarrow> \<exists>z \<in> set zs. phys_block f \<subseteq> zone_range z"
proof (induction zs arbitrary: F)
  case Nil
  then show ?case by simp
next
  case (Cons z zs)
  then obtain A G where a: "zone_inv z A" "zones_inv zs G" "f \<in> frame_at z ` A \<union> G" by auto
  then show ?case using Cons.IH frame_in_range [of z A] by fastforce
qed

lemma frame_at_disjoint:
  assumes "zone_inv z A" "b \<in> A" "c \<in> A" "b \<noteq> c"
  shows "phys_block (frame_at z b) \<inter> phys_block (frame_at z c) = {}"
proof -
  obtain i k j m where bc: "b = (i, k)" "c = (j, m)" by (metis surj_pair)
  have "block (i, k) \<inter> block (j, m) = {}"
    using zone_inv_tiling [OF assms(1)] assms(2-4) bc unfolding tiling_def pairwise_def by blast
  then have "i \<notin> block (j, m)" "j \<notin> block (i, k)" using block_head by blast+
  then have "i + 2 ^ k \<le> j \<or> j + 2 ^ m \<le> i" by (auto simp: block_def)
  then have "4096 * (i + 2 ^ k) \<le> 4096 * j \<or> 4096 * (j + 2 ^ m) \<le> 4096 * i" by auto
  then show ?thesis unfolding bc phys_block_def frame_at_def by auto
qed

lemma zones_inv_disjoint:
  "zones_inv zs F \<Longrightarrow> b \<in> F \<Longrightarrow> c \<in> F \<Longrightarrow> b \<noteq> c \<Longrightarrow> phys_block b \<inter> phys_block c = {}"
proof (induction zs arbitrary: F)
  case Nil
  then show ?case by simp
next
  case (Cons z zs)
  then obtain A G where a: "zone_inv z A" "zones_inv zs G" "F = frame_at z ` A \<union> G"
    "\<forall>y \<in> set zs. zone_range z \<inter> zone_range y = {}" by auto
  have x: "phys_block f \<inter> phys_block g = {}" if "f \<in> frame_at z ` A" "g \<in> G" for f g
  proof -
    have "phys_block f \<subseteq> zone_range z" using that(1) frame_in_range(1) [OF a(1)] by auto
    moreover have "\<exists>y \<in> set zs. phys_block g \<subseteq> zone_range y"
      by (rule zones_inv_frame [OF a(2) that(2)])
    then obtain y where "y \<in> set zs" "phys_block g \<subseteq> zone_range y" by blast
    ultimately show ?thesis using a(4) by blast
  qed
  consider "b \<in> frame_at z ` A" "c \<in> frame_at z ` A" | "b \<in> frame_at z ` A" "c \<in> G"
    | "b \<in> G" "c \<in> frame_at z ` A" | "b \<in> G" "c \<in> G" using Cons.prems a(3) by blast
  then show ?case
  proof cases
    case 1
    then show ?thesis using frame_at_disjoint [OF a(1)] Cons.prems(4) by blast
  next
    case 2
    then show ?thesis by (rule x)
  next
    case 3
    then show ?thesis using x by blast
  next
    case 4
    then show ?thesis using Cons.IH [OF a(2)] Cons.prems(4) by blast
  qed
qed

lemma same_frame_range:
  "same_frame z z' \<Longrightarrow> zone_range z' = zone_range z \<and> zone_fits z' = zone_fits z \<and> frame_at z' = frame_at z"
  by (auto simp: same_frame_def zone_range_def zone_fits_def frame_at_def fun_eq_iff)

lemma frame_phys:
  assumes "zone_fits z" "i \<le> num_pages z"
  shows "w32 (base_phys z + push_bit PAGE_SHIFT i) = base_phys z + 4096 * i"
  using assms by (intro w32_id [THEN trans]) (simp_all add: zone_fits_def push_bit_eq_mult PAGE_SHIFT_def)

lemma zone_alloc_inv:
  assumes i: "zone_inv z A" and f: "zone_fits z" and r: "zone_alloc_pages z k = (z', p)"
  shows "(z' = z \<and> p = 0) \<or> (\<exists>i. zone_inv z' (insert (i, k) A) \<and> (i, k) \<notin> A \<and> p = base_phys z + 4096 * i
    \<and> p \<noteq> 0 \<and> same_frame z z')"
proof -
  obtain fl where fl: "zone_ok z fl A" "no_buddies (max_order z) fl" using i by (auto simp: zone_inv_def)
  from zone_alloc_pages_ok [OF fl r] show ?thesis
  proof (elim disjE exE conjE)
    fix i fl' assume a: "(i, k) \<notin> A" "zone_ok z' fl' (insert (i, k) A)" "no_buddies (max_order z') fl'"
      "p = w32 (base_phys z + push_bit PAGE_SHIFT i)" "same_frame z z'"
    have iv: "zone_inv z' (insert (i, k) A)" using a by (auto simp: zone_inv_def)
    then have "i \<le> num_pages z"
      using zone_inv_tiling [OF iv] a(5) by (auto simp: tiling_def same_frame_def)
    then have "p = base_phys z + 4096 * i" using a(4) frame_phys [OF f] by simp
    then show ?thesis using iv a f by (auto simp: zone_fits_def)
  qed blast
qed

lemma alloc_pages_inv:
  "zones_inv zs F \<Longrightarrow> alloc_pages zs k = Some (zs', p) \<Longrightarrow>
    zones_inv zs' (insert (p, k) F) \<and> (p, k) \<notin> F \<and> map zone_range zs' = map zone_range zs"
proof (induction zs arbitrary: F zs' p)
  case Nil
  then show ?case by simp
next
  case (Cons z zs)
  from Cons.prems(1) obtain A G where a: "zone_inv z A" "zones_inv zs G" "F = frame_at z ` A \<union> G"
    "\<forall>y \<in> set zs. zone_range z \<inter> zone_range y = {}" "zone_fits z" by auto
  obtain z1 q where r: "zone_alloc_pages z k = (z1, q)" by fastforce
  from zone_alloc_inv [OF a(1,5) r] show ?case
  proof (elim disjE exE conjE)
    assume q: "z1 = z" "q = 0"
    then obtain zs1 where s: "alloc_pages zs k = Some (zs1, p)" "zs' = z # zs1"
      using Cons.prems(2) r by (auto split: option.splits)
    note ih = Cons.IH [OF a(2) s(1)]
    have rg: "zone_range ` set zs1 = zone_range ` set zs" using ih by (metis set_map)
    have pd: "(p, k) \<notin> frame_at z ` A"
    proof
      assume "(p, k) \<in> frame_at z ` A"
      then have "p \<in> zone_range z" using frame_range [OF a(1)] by blast
      moreover obtain y where y: "y \<in> set zs1" "phys_block (p, k) \<subseteq> zone_range y"
          using zones_inv_frame [of zs1 "insert (p, k) G" "(p, k)"] ih by blast
      moreover obtain y' where "y' \<in> set zs" "zone_range y' = zone_range y"
        using rg y(1) by (metis image_iff)
      ultimately show False using a(4) phys_block_head [of p k] by blast
    qed
    have "zones_inv zs' (insert (p, k) F)"
      unfolding s(2) zones_inv.simps
    proof (intro conjI exI)
      show "zone_fits z" by (rule a(5))
      show "\<forall>y \<in> set zs1. zone_range z \<inter> zone_range y = {}" using a(4) rg by (metis image_iff)
      show "zone_inv z A" by (rule a(1))
      show "zones_inv zs1 (insert (p, k) G)" using ih by blast
      show "insert (p, k) F = frame_at z ` A \<union> insert (p, k) G" using a(3) by blast
    qed
    then show ?thesis using ih pd a(3) s(2) by auto
  next
    fix i assume q: "zone_inv z1 (insert (i, k) A)" "(i, k) \<notin> A" "q = base_phys z + 4096 * i"
      "q \<noteq> 0" "same_frame z z1"
    then have s: "zs' = z1 # zs" "p = q" using Cons.prems(2) r by auto
    note sf = same_frame_range [OF q(5)]
    have pf: "(p, k) = frame_at z (i, k)" using s q(3) by (simp add: frame_at_def)
    have "zones_inv zs' (insert (p, k) F)"
      unfolding s(1) zones_inv.simps
    proof (intro conjI exI)
      show "zone_fits z1" using a(5) sf by simp
      show "\<forall>y \<in> set zs. zone_range z1 \<inter> zone_range y = {}" using a(4) sf by simp
      show "zone_inv z1 (insert (i, k) A)" by (rule q(1))
      show "zones_inv zs G" by (rule a(2))
      show "insert (p, k) F = frame_at z1 ` insert (i, k) A \<union> G" using a(3) sf pf by simp
    qed
    moreover have "(p, k) \<notin> frame_at z ` A"
      using q(2) pf by (auto simp: frame_at_def)
    moreover have "(p, k) \<notin> G"
    proof
      assume "(p, k) \<in> G"
      then obtain y where "y \<in> set zs" "phys_block (p, k) \<subseteq> zone_range y"
        using zones_inv_frame [OF a(2)] by blast
      moreover have "p \<in> zone_range z"
        using frame_in_range(2) [OF q(1), of i k] sf pf by (metis fst_conv insertI1)
      ultimately show False using a(4) phys_block_head [of p k] by blast
    qed
    ultimately show ?thesis using a(3) s sf by simp
  qed
qed

lemma find_zone_from_eq:
  assumes "z \<in> set zs" "phys \<in> zone_range z" "\<forall>z \<in> set zs. zone_fits z"
    "\<forall>z \<in> set zs. \<forall>y \<in> set zs. phys \<in> zone_range z \<longrightarrow> phys \<in> zone_range y \<longrightarrow> z = y"
  shows "\<exists>i < length zs. find_zone_from zs phys n = Some (n + i) \<and> zs ! i = z"
  using assms
proof (induction zs arbitrary: n)
  case Nil
  then show ?case by simp
next
  case (Cons y zs)
  have fy: "zone_fits y" using Cons.prems(3) by simp
  then have "w32 (push_bit PAGE_SHIFT (num_pages y)) = 4096 * num_pages y"
    by (simp add: zone_fits_def push_bit_eq_mult PAGE_SHIFT_def w32_id)
  moreover have "w32 (base_phys y + 4096 * num_pages y) = base_phys y + 4096 * num_pages y"
    using fy by (simp add: zone_fits_def w32_id)
  ultimately have c: "(base_phys y \<le> phys
      \<and> phys < w32 (base_phys y + w32 (push_bit PAGE_SHIFT (num_pages y)))) \<longleftrightarrow> phys \<in> zone_range y"
    by (simp add: zone_range_def)
  show ?case
  proof (cases "phys \<in> zone_range y")
    case True
    then have "y = z" using Cons.prems by (metis list.set_intros(1))
    then show ?thesis using c True by auto
  next
    case False
    then have "z \<in> set zs" using Cons.prems(1,2) by auto
    with Cons.IH [of "Suc n"] Cons.prems(2-4) obtain i where
      "i < length zs" "find_zone_from zs phys (Suc n) = Some (Suc n + i)" "zs ! i = z" by auto
    then show ?thesis using c False by (intro exI [of _ "Suc i"]) simp
  qed
qed

lemma zones_inv_fits: "zones_inv zs F \<Longrightarrow> \<forall>z \<in> set zs. zone_fits z"
  by (induction zs arbitrary: F) auto

lemma zones_inv_unique:
  "zones_inv zs F \<Longrightarrow> z \<in> set zs \<Longrightarrow> y \<in> set zs \<Longrightarrow> p \<in> zone_range z \<Longrightarrow> p \<in> zone_range y \<Longrightarrow> z = y"
  by (induction zs arbitrary: F) fastforce+

lemma zone_free_inv:
  assumes "zone_inv z A" "(i, k) \<in> A"
  shows "\<exists>z'. zone_free_pages z (base_phys z + 4096 * i) k = Some z' \<and> zone_inv z' (A - {(i, k)}) \<and> same_frame z z'"
proof -
  obtain fl where fl: "zone_ok z fl A" "no_buddies (max_order z) fl"
    using assms(1) by (auto simp: zone_inv_def)
  have "push_bit PAGE_SHIFT i = 4096 * i" by (simp add: push_bit_eq_mult PAGE_SHIFT_def)
  then show ?thesis using zone_free_pages_ok [OF fl assms(2)] unfolding zone_inv_def by metis
qed

lemma frame_at_inj: "frame_at z b = frame_at z c \<longleftrightarrow> b = c"
  by (cases b; cases c) (auto simp: frame_at_def)

lemma zones_update:
  "zones_inv zs F \<Longrightarrow> (p, k) \<in> F \<Longrightarrow> j < length zs \<Longrightarrow> p \<in> zone_range (zs ! j) \<Longrightarrow>
    \<exists>z'. zone_free_pages (zs ! j) p k = Some z' \<and> zones_inv (zs[j := z']) (F - {(p, k)})
      \<and> same_frame (zs ! j) z'"
proof (induction zs arbitrary: F j)
  case Nil
  then show ?case by simp
next
  case (Cons z zs)
  from Cons.prems(1) obtain A G where a: "zone_inv z A" "zones_inv zs G" "F = frame_at z ` A \<union> G"
    "\<forall>y \<in> set zs. zone_range z \<inter> zone_range y = {}" "zone_fits z" by auto
  have G: "\<exists>y \<in> set zs. q \<in> zone_range y" if "(q, m) \<in> G" for q m
    using zones_inv_frame [OF a(2) that] phys_block_head by blast
  show ?case
  proof (cases j)
    case 0
    then have pz: "p \<in> zone_range z" using Cons.prems(4) by simp
    then have "(p, k) \<notin> G" using G a(4) by blast
    then obtain i where i: "(i, k) \<in> A" "(p, k) = frame_at z (i, k)"
      using Cons.prems(2) a(3) by (auto simp: frame_at_def)
    then have pi: "p = base_phys z + 4096 * i" by (simp add: frame_at_def)
    obtain z' where z': "zone_free_pages z p k = Some z'" "zone_inv z' (A - {(i, k)})" "same_frame z z'"
      using zone_free_inv [OF a(1) i(1)] pi by blast
    note sf = same_frame_range [OF z'(3)]
    have "zones_inv (z' # zs) (F - {(p, k)})"
      unfolding zones_inv.simps
    proof (intro conjI exI)
      show "zone_fits z'" using a(5) sf by simp
      show "\<forall>y \<in> set zs. zone_range z' \<inter> zone_range y = {}" using a(4) sf by simp
      show "zone_inv z' (A - {(i, k)})" by (rule z'(2))
      show "zones_inv zs G" by (rule a(2))
      show "F - {(p, k)} = frame_at z' ` (A - {(i, k)}) \<union> G"
        using a(3) sf i(2) \<open>(p, k) \<notin> G\<close> frame_at_inj by (auto simp: image_iff)
    qed
    then show ?thesis using z' 0 by auto
  next
    case (Suc m)
    then have m: "m < length zs" "p \<in> zone_range (zs ! m)" using Cons.prems(3,4) by simp_all
    then have "p \<notin> zone_range z" using a(4) by (meson disjoint_iff nth_mem)
    then have nA: "(p, k) \<notin> frame_at z ` A" using frame_range [OF a(1)] by blast
    then have "(p, k) \<in> G" using Cons.prems(2) a(3) by blast
    from Cons.IH [OF a(2) this m] obtain z' where z': "zone_free_pages (zs ! m) p k = Some z'"
      "zones_inv (zs[m := z']) (G - {(p, k)})" "same_frame (zs ! m) z'" by blast
    have rg: "\<forall>y \<in> set (zs[m := z']). zone_range z \<inter> zone_range y = {}"
      using a(4) same_frame_range [OF z'(3)] m(1) by (metis in_set_conv_nth length_list_update nth_list_update nth_mem)
    have "zones_inv (z # zs[m := z']) (F - {(p, k)})"
      unfolding zones_inv.simps
    proof (intro conjI exI)
      show "F - {(p, k)} = frame_at z ` A \<union> (G - {(p, k)})" using a(3) nA by blast
    qed (use a(1,5) rg z'(2) in auto)
    then show ?thesis using z' Suc by auto
  qed
qed

lemma free_pages_inv:
  assumes "zones_inv zs F" "(p, k) \<in> F"
  shows "\<exists>zs'. free_pages zs p k = Some zs' \<and> zones_inv zs' (F - {(p, k)})
    \<and> map zone_range zs' = map zone_range zs"
proof -
  obtain z where z: "z \<in> set zs" "p \<in> zone_range z"
    using zones_inv_frame [OF assms] phys_block_head by blast
  obtain i where i: "i < length zs" "find_zone_by_phys zs p = Some i" "zs ! i = z"
    using find_zone_from_eq [OF z zones_inv_fits [OF assms(1)], of 0] zones_inv_unique [OF assms(1)]
    unfolding find_zone_by_phys_def by fastforce
  from zones_update [OF assms i(1)] z(2) i(3) obtain z' where
    "zone_free_pages z p k = Some z'" "zones_inv (zs[i := z']) (F - {(p, k)})" "same_frame z z'" by blast
  then show ?thesis
    using i same_frame_range by (intro exI [of _ "zs[i := z']"]) (simp add: free_pages_def map_update list_update_same_conv)
qed

subsection \<open>The count of free pages\<close>

lemma w32_add_left: "w32 (w32 a + b) = w32 (a + b)"
  by (simp add: w32_def mod_add_left_eq)

lemma count_list_eq:
  assumes "chain (\<lambda>i. pg_next (pages z i)) p xs" "length xs < f" "s < 2 ^ 32"
  shows "count_list f z k p s = Some (w32 (s + length xs * 2 ^ k))"
  using assms
proof (induction xs arbitrary: f p s)
  case Nil
  then show ?case by (cases f) (simp_all add: w32_id)
next
  case (Cons x xs)
  then obtain g where f: "f = Suc g" by (cases f) auto
  have "count_list g z k (pg_next (pages z x)) (w32 (s + 2 ^ k))
      = Some (w32 (w32 (s + 2 ^ k) + length xs * 2 ^ k))"
    by (rule Cons.IH) (use Cons.prems f in auto)
  then show ?case using Cons.prems f
    by (simp add: push_bit_eq_mult w32_add_left add.assoc)
qed

lemma count_orders_eq:
  assumes "\<forall>k \<in> set ks. length (fl k) \<le> num_pages z" "zlists z fl" "s < 2 ^ 32"
  shows "count_orders z ks s = Some (w32 (s + (\<Sum>k \<leftarrow> ks. length (fl k) * 2 ^ k)))"
  using assms
proof (induction ks arbitrary: s)
  case Nil
  then show ?case by (simp add: w32_id)
next
  case (Cons k ks)
  have "count_list (num_pages z + 1) z k (free_list z k) s = Some (w32 (s + length (fl k) * 2 ^ k))"
    using Cons.prems zlistsD(2) [OF Cons.prems(2), of k] by (intro count_list_eq) (auto simp: less_Suc_eq_le)
  then show ?case using Cons by (simp add: w32_add_left add.assoc)
qed

lemma block_card: "card (block b) = 2 ^ snd b"
  by (simp add: block_def)

lemma tiling_finite:
  assumes "tiling mo n B"
  shows "finite B"
proof (rule finite_subset)
  have "i < n \<and> k \<le> mo" if "(i, k) \<in> B" for i k
  proof -
    have "i + 2 ^ k \<le> n" "k \<le> mo" using assms that by (auto simp: tiling_def)
    moreover have "0 < (2::nat) ^ k" by simp
    ultimately show ?thesis by linarith
  qed
  then show "B \<subseteq> {..<n} \<times> {..mo}" by auto
qed simp

lemma tiling_card:
  assumes "tiling mo n B" "\<Union> (block ` B) = {..<n}"
  shows "(\<Sum>b \<in> B. 2 ^ snd b) = n"
proof -
  have "card (\<Union> (block ` B)) = (\<Sum>b \<in> B. card (block b))"
    using tiling_finite [OF assms(1)] assms(1)
    by (intro card_UN_disjoint) (auto simp: tiling_def pairwise_def block_def)
  then show ?thesis using assms(2) by (simp add: block_card)
qed

lemma fblocks_sum:
  assumes "zlists z fl" "tiling (max_order z) (num_pages z) (fblocks fl)"
  shows "(\<Sum>b \<in> fblocks fl. 2 ^ snd b) = (\<Sum>k \<leftarrow> [0..<max_order z + 1]. length (fl k) * 2 ^ k)"
proof -
  have "fblocks fl = (\<Union>k \<in> {..max_order z}. (\<lambda>i. (i, k)) ` set (fl k))"
    using zlistsD(6) [OF assms(1)] by (fastforce simp: fblocks_def)
  then have "(\<Sum>b \<in> fblocks fl. 2 ^ snd b)
      = (\<Sum>k \<le> max_order z. \<Sum>b \<in> (\<lambda>i. (i, k)) ` set (fl k). 2 ^ snd b :: nat)"
    by (simp only:) (rule sum.UNION_disjoint, auto)
  also have "\<dots> = (\<Sum>k \<le> max_order z. length (fl k) * 2 ^ k)"
  proof (rule sum.cong [OF refl])
    fix k
    have "(\<Sum>b \<in> (\<lambda>i. (i, k)) ` set (fl k). 2 ^ snd b :: nat) = (\<Sum>i \<in> set (fl k). 2 ^ k)"
      by (subst sum.reindex) (auto simp: inj_on_def)
    then show "(\<Sum>b \<in> (\<lambda>i. (i, k)) ` set (fl k). 2 ^ snd b :: nat) = length (fl k) * 2 ^ k"
      using zlistsD(3) [OF assms(1), of k] by (simp add: distinct_card)
  qed
  also have "\<dots> = (\<Sum>k \<leftarrow> [0..<max_order z + 1]. length (fl k) * 2 ^ k)"
    unfolding interv_sum_list_conv_sum_set_nat by (rule sum.cong) auto
  finally show ?thesis .
qed

lemma zone_count:
  assumes "zone_inv z A" "s < 2 ^ 32"
  shows "count_orders z [0..<max_order z + 1] s = Some (w32 (s + (num_pages z - (\<Sum>b \<in> A. 2 ^ snd b))))"
    "(\<Sum>b \<in> A. 2 ^ snd b) \<le> num_pages z"
proof -
  obtain fl where o: "zone_ok z fl A" using assms(1) by (auto simp: zone_inv_def)
  note t = zone_okD(3,4) [OF o]
  have fF: "finite (fblocks fl)" "finite A" using tiling_finite [OF t(1)] by simp_all
  have dj: "fblocks fl \<inter> A = {}"
    using zlists_marked_disj [OF zone_okD(1,2) [OF o]] by (force simp: fblocks_def)
  have s: "(\<Sum>b \<in> fblocks fl. 2 ^ snd b) + (\<Sum>b \<in> A. 2 ^ snd b) = num_pages z"
    using tiling_card [OF t] fF dj by (simp add: sum.union_disjoint)
  then show "(\<Sum>b \<in> A. 2 ^ snd b) \<le> num_pages z" by linarith
  have tf: "tiling (max_order z) (num_pages z) (fblocks fl)"
    using tiling_subset [of _ _ A "fblocks fl"] t(1) by (simp add: Un_commute)
  have l: "length (fl k) \<le> num_pages z" for k
  proof (cases "fl k")
    case (Cons i xs)
    then have "(i, k) \<in> fblocks fl" by (simp add: fblocks_def)
    then have "insert (i, k) (fblocks fl \<union> A) = fblocks fl \<union> A" by blast
    then show ?thesis using zlist_length [OF zone_okD(1) [OF o], of "(i, k)" A k] t(1) by simp
  qed simp
  have "(\<Sum>k \<leftarrow> [0..<max_order z + 1]. length (fl k) * 2 ^ k) = num_pages z - (\<Sum>b \<in> A. 2 ^ snd b)"
    using fblocks_sum [OF zone_okD(1) [OF o] tf] s by linarith
  then show "count_orders z [0..<max_order z + 1] s = Some (w32 (s + (num_pages z - (\<Sum>b \<in> A. 2 ^ snd b))))"
    using count_orders_eq [of "[0..<max_order z + 1]" fl z s] l zone_okD(1) [OF o] assms(2) by simp
qed

subsection \<open>The memory map\<close>

definition seg :: "range64 \<Rightarrow> nat set" where
  "seg r = {fst r ..< snd r}"

definition seg_sorted :: "range64 list \<Rightarrow> bool" where
  "seg_sorted rs \<longleftrightarrow> sorted_wrt (\<lambda>a b. snd a \<le> fst b) rs \<and> (\<forall>r \<in> set rs. fst r \<le> snd r)"

lemma carve_exclusion_elem:
  assumes "fst x < snd x" "fst r \<le> snd r" "q \<in> set (carve_exclusion r x)"
  shows "fst r \<le> fst q" "fst q \<le> snd q" "snd q \<le> snd r" "snd x \<le> fst q \<or> snd q \<le> fst x \<or> fst q = snd q"
  using assms by (cases r; cases x; cases q; force simp: carve_exclusion_def split: if_splits)+

lemma carve_exclusion_wrt:
  "fst x < snd x \<Longrightarrow> sorted_wrt (\<lambda>a b. snd a \<le> fst b) (carve_exclusion r x)"
  by (simp add: carve_exclusion_def)

lemma carve_exclusion_seg:
  assumes "fst x < snd x" "fst r \<le> snd r" "q \<in> set (carve_exclusion r x)"
  shows "seg q \<subseteq> seg r" "seg q \<inter> seg x = {}"
proof -
  note e = carve_exclusion_elem [OF assms]
  show "seg q \<subseteq> seg r" using e(1,3) unfolding seg_def by (simp add: ivl_subset)
  show "seg q \<inter> seg x = {}"
  proof (rule ccontr)
    assume "seg q \<inter> seg x \<noteq> {}"
    then obtain p where "p \<in> seg q" "p \<in> seg x" by blast
    then show False using e(4) by (auto simp: seg_def)
  qed
qed

lemma carve_exclusion_cover:
  assumes "fst r \<le> p" "p < snd r" "\<not> (fst x \<le> p \<and> p < snd x)"
  shows "\<exists>q \<in> set (carve_exclusion r x). fst q \<le> p \<and> p < snd q"
  using assms by (cases r; cases x; force simp: carve_exclusion_def)

lemma carve_exclusion_sorted:
  assumes "fst x < snd x" "seg_sorted (nxt @ r # rs)"
  shows "seg_sorted ((nxt @ carve_exclusion r x) @ rs)"
proof -
  have r: "fst r \<le> snd r" using assms(2) by (simp add: seg_sorted_def)
  note e = carve_exclusion_elem [OF assms(1) r]
  have s: "sorted_wrt (\<lambda>a b. snd a \<le> fst b) nxt" "sorted_wrt (\<lambda>a b. snd a \<le> fst b) rs"
    "\<forall>a \<in> set nxt. snd a \<le> fst r \<and> (\<forall>b \<in> set rs. snd a \<le> fst b)" "\<forall>b \<in> set rs. snd r \<le> fst b"
    "\<forall>a \<in> set nxt \<union> set rs. fst a \<le> snd a"
    using assms(2) unfolding seg_sorted_def sorted_wrt_append by auto
  have "\<forall>a \<in> set nxt. \<forall>q \<in> set (carve_exclusion r x). snd a \<le> fst q"
    using s(3) e(1) by (meson order_trans)
  moreover have "\<forall>q \<in> set (carve_exclusion r x). \<forall>b \<in> set rs. snd q \<le> fst b"
    using s(4) e(3) by (meson order_trans)
  ultimately show ?thesis
    using s e(2) carve_exclusion_wrt [OF assms(1), of r]
    unfolding seg_sorted_def sorted_wrt_append by auto
qed

lemma carve_step_ok:
  assumes "fst x < snd x" "seg_sorted (nxt @ rs)" "\<forall>q \<in> set nxt. seg q \<subseteq> S \<and> seg q \<inter> seg x = {}"
    "\<forall>r \<in> set rs. seg r \<subseteq> S"
  shows "seg_sorted (carve_step rs x nxt) \<and> (\<forall>q \<in> set (carve_step rs x nxt). seg q \<subseteq> S \<and> seg q \<inter> seg x = {})"
  using assms
proof (induction rs x nxt rule: carve_step.induct)
  case (1 x nxt)
  then show ?case by simp
next
  case (2 r rs x nxt)
  show ?case
  proof (cases "length nxt + 2 \<le> 8")
    case True
    have "fst r \<le> snd r" using 2(3) by (simp add: seg_sorted_def)
    then have c: "seg q \<subseteq> S \<and> seg q \<inter> seg x = {}" if "q \<in> set (carve_exclusion r x)" for q
      using carve_exclusion_seg [OF 2(2) \<open>fst r \<le> snd r\<close> that] 2(5) by auto
    have "seg_sorted (carve_step rs x (nxt @ carve_exclusion r x))
      \<and> (\<forall>q \<in> set (carve_step rs x (nxt @ carve_exclusion r x)). seg q \<subseteq> S \<and> seg q \<inter> seg x = {})"
    proof (rule 2(1) [OF True 2(2) carve_exclusion_sorted [OF 2(2,3)]])
      show "\<forall>q \<in> set (nxt @ carve_exclusion r x). seg q \<subseteq> S \<and> seg q \<inter> seg x = {}"
        using 2(4) c unfolding set_append by blast
      show "\<forall>q \<in> set rs. seg q \<subseteq> S" using 2(5) by simp
    qed
    then show ?thesis using True by simp
  next
    case False
    then show ?thesis using 2(3,4) by (simp add: seg_sorted_def sorted_wrt_append)
  qed
qed

lemma carve_all_ok:
  assumes "\<forall>x \<in> set xs. fst x < snd x" "seg_sorted todo" "\<forall>q \<in> set todo. seg q \<subseteq> S"
  shows "seg_sorted (carve_all todo xs)
    \<and> (\<forall>q \<in> set (carve_all todo xs). seg q \<subseteq> S \<and> (\<forall>x \<in> set xs. seg q \<inter> seg x = {}))"
  using assms
proof (induction todo xs arbitrary: S rule: carve_all.induct)
  case (1 todo)
  then show ?case by simp
next
  case (2 todo x xs)
  let ?n = "carve_step todo x []"
  have s: "seg_sorted ?n" "\<forall>q \<in> set ?n. seg q \<subseteq> S \<and> seg q \<inter> seg x = {}"
    using carve_step_ok [of x "[]" todo S] 2(2-4) by auto
  show ?case
  proof (cases "?n = []")
    case True
    then show ?thesis by (simp add: seg_sorted_def)
  next
    case False
    have "seg_sorted (carve_all ?n xs) \<and> (\<forall>q \<in> set (carve_all ?n xs). seg q \<subseteq> S - seg x
        \<and> (\<forall>y \<in> set xs. seg q \<inter> seg y = {}))"
      using s 2(2) by (intro 2(1) [OF refl False]) auto
    then show ?thesis using False by auto
  qed
qed

lemma align64_val:
  assumes "v + 4095 < 2 ^ 64"
  shows "align_up64 v PAGE_SIZE = (v + 4095) div 4096 * 4096" "align_dn64 v PAGE_SIZE = v div 4096 * 4096"
proof -
  have m: "(word_of_nat PAGE_SIZE :: u64) - 1 = mask 12"
    by (simp add: PAGE_SIZE_def mask_eq_exp_minus_1)
  have s: "(word_of_nat v :: u64) + mask 12 = word_of_nat (v + 4095)"
    by (simp add: mask_eq_exp_minus_1)
  have u: "unat (word_of_nat v :: u64) = v" "unat (word_of_nat (v + 4095) :: u64) = v + 4095"
    using assms by (simp_all only: unsigned_of_nat) (simp_all add: take_bit_nat_eq_self)
  show "align_up64 v PAGE_SIZE = (v + 4095) div 4096 * 4096" "align_dn64 v PAGE_SIZE = v div 4096 * 4096"
    unfolding align_up64_def align_dn64_def m s and_not_mask_bits unat_round_down u by simp_all
qed

lemma add_zone_ok:
  assumes r: "add_zone a b (zs, h) = Inr (zs', h')" and ab: "0 < a" "a < b" "b < 2 ^ 32"
  shows "zs' = zs \<or> (\<exists>z. zs' = zs @ [z] \<and> zone_inv z {} \<and> zone_fits z \<and> zone_range z \<subseteq> seg (a, b))"
proof (cases "MAX_ZONES \<le> length zs \<or> align_dn64 b PAGE_SIZE \<le> align_up64 a PAGE_SIZE")
  case True
  then have "zs' = zs" using r by (auto simp: add_zone_def Let_def split: if_splits)
  then show ?thesis ..
next
  case False
  define base en where be: "base = align_up64 a PAGE_SIZE" "en = align_dn64 b PAGE_SIZE"
  have ee: "en = b div 4096 * 4096" "base = (a + 4095) div 4096 * 4096"
    unfolding be using ab by (simp_all add: align64_val)
  have lt: "base < en" using False be by simp
  have bnd: "a \<le> base" "en \<le> b" unfolding ee by linarith+
  have n: "4096 * ((en - base) div 4096) = en - base"
    unfolding ee by (metis diff_mult_distrib dvd_mult_div_cancel dvd_triv_right)
  define k where "k = (en - base) div 4096"
  have wk: "w32 (drop_bit PAGE_SHIFT (en - base)) = k" "w32 base = base"
    using n ab bnd lt by (simp_all add: k_def PAGE_SHIFT_def drop_bit_eq_div w32_id)
  obtain z0 where z0: "zs' = zs @ [zone_build z0]" "base_phys z0 = base" "num_pages z0 = k"
    using r False wk unfolding add_zone_def Let_def be [symmetric]
    by (fastforce split: sum.splits if_splits)
  obtain fl where "zone_ok (zone_build z0) fl {}" "no_buddies (max_order (zone_build z0)) fl"
    using zone_build_ok(1) by blast
  then have "zone_inv (zone_build z0) {}" by (auto simp: zone_inv_def)
  moreover have "base + 4096 * k = en" using n lt k_def by simp
  then have "zone_fits (zone_build z0)" "zone_range (zone_build z0) \<subseteq> seg (a, b)"
    using zone_build_ok(2,3) [of z0] z0 bnd ab by (simp_all add: zone_fits_def zone_range_def seg_def)
  ultimately show ?thesis using z0(1) by blast
qed

lemma zones_inv_snoc:
  "zones_inv zs F \<Longrightarrow> zone_inv z {} \<Longrightarrow> zone_fits z \<Longrightarrow> \<forall>y \<in> set zs. zone_range y \<inter> zone_range z = {}
    \<Longrightarrow> zones_inv (zs @ [z]) F"
proof (induction zs arbitrary: F)
  case Nil
  then show ?case by auto
next
  case (Cons y zs)
  then show ?case by auto
qed

lemma add_ranges_ok:
  assumes "add_ranges rs (zs, h) = Inr (zs', h')" "zones_inv zs {}"
    "seg_sorted rs" "\<forall>r \<in> set rs. seg r \<subseteq> {0<..<2 ^ 32 - 1}" "\<forall>z \<in> set zs. \<forall>r \<in> set rs. zone_range z \<inter> seg r = {}"
  shows "zones_inv zs' {} \<and> (\<forall>z \<in> set zs'. z \<in> set zs \<or> (\<exists>r \<in> set rs. zone_range z \<subseteq> seg r))"
  using assms
proof (induction rs arbitrary: zs h)
  case Nil
  then show ?case by simp
next
  case (Cons r rs)
  obtain a b where ab: "r = (a, b)" by fastforce
  show ?case
  proof (cases "a < b")
    case False
    then have "add_ranges rs (zs, h) = Inr (zs', h')" using Cons.prems(1) ab by simp
    from Cons.IH [OF this] Cons.prems(2-5) show ?thesis by (auto simp: seg_sorted_def)
  next
    case True
    obtain zs1 h1 where s1: "add_zone a b (zs, h) = Inr (zs1, h1)" "add_ranges rs (zs1, h1) = Inr (zs', h')"
      using Cons.prems(1) ab True by (auto split: sum.splits)
    have sr: "seg (a, b) \<subseteq> {0<..<2 ^ 32 - 1}" using Cons.prems(4) ab by simp
    moreover have "a \<in> seg (a, b)" "b - 1 \<in> seg (a, b)" using True by (auto simp: seg_def)
    ultimately have "0 < a" "b - 1 < 2 ^ 32 - 1" by auto
    then have ba: "0 < a" "b < 2 ^ 32" by simp_all
    have rest: "seg (a, b) \<inter> seg q = {}" if "q \<in> set rs" for q
      using Cons.prems(3) that ab True by (auto simp: seg_sorted_def seg_def)
    from add_zone_ok [OF s1(1) ba(1) True ba(2)]
    have z1: "zones_inv zs1 {} \<and> (\<forall>z \<in> set zs1. z \<in> set zs \<or> zone_range z \<subseteq> seg (a, b))"
    proof (elim disjE exE conjE)
      fix z assume z: "zs1 = zs @ [z]" "zone_inv z {}" "zone_fits z" "zone_range z \<subseteq> seg (a, b)"
      have "\<forall>y \<in> set zs. zone_range y \<inter> zone_range z = {}"
        using Cons.prems(5) z(4) ab by fastforce
      then show ?thesis using zones_inv_snoc [OF Cons.prems(2) z(2,3)] z by auto
    qed (use Cons.prems(2) in simp)
    have "\<forall>z \<in> set zs1. \<forall>q \<in> set rs. zone_range z \<inter> seg q = {}"
      using z1 Cons.prems(5) rest by fastforce
    with Cons.IH [OF s1(2)] z1 Cons.prems(3,4) have
      "zones_inv zs' {} \<and> (\<forall>z \<in> set zs'. z \<in> set zs1 \<or> (\<exists>r \<in> set rs. zone_range z \<subseteq> seg r))"
      by (simp add: seg_sorted_def)
    then show ?thesis using z1 ab by auto
  qed
qed

definition entry_seg :: "mmap_entry \<Rightarrow> nat set" where
  "entry_seg m = {m_addr m ..< m_addr m + m_len m}"

definition usable :: "mmap_entry \<Rightarrow> bool" where
  "usable m \<longleftrightarrow> m_type m = MULTIBOOT_MEMORY_AVAILABLE \<and> m_len m \<noteq> 0"

lemma add_entries_ok:
  assumes "add_entries xs ms (zs, h) = Inr (zs', h')" "zones_inv zs {}"
    "\<forall>x \<in> set xs. fst x < snd x" "(0, MIN_MANAGED_PHYS) \<in> set xs"
    "\<forall>m \<in> set ms. usable m \<longrightarrow> m_addr m + m_len m < 2 ^ 32"
    "sorted_wrt (\<lambda>m n. entry_seg m \<inter> entry_seg n = {}) ms"
    "\<forall>z \<in> set zs. \<forall>m \<in> set ms. zone_range z \<inter> entry_seg m = {}"
  shows "zones_inv zs' {} \<and> (\<forall>z \<in> set zs'. z \<in> set zs
    \<or> (\<exists>m \<in> set ms. usable m \<and> zone_range z \<subseteq> entry_seg m \<and> (\<forall>x \<in> set xs. zone_range z \<inter> seg x = {})))"
  using assms
proof (induction ms arbitrary: zs h)
  case Nil
  then show ?case by simp
next
  case (Cons m ms)
  show ?case
  proof (cases "usable m")
    case False
    then have "add_entries xs ms (zs, h) = Inr (zs', h')"
      using Cons.prems(1) by (auto simp: usable_def)
    from Cons.IH [OF this Cons.prems(2-4)] Cons.prems(5-7) have
      "zones_inv zs' {} \<and> (\<forall>z \<in> set zs'. z \<in> set zs \<or> (\<exists>m \<in> set ms. usable m
        \<and> zone_range z \<subseteq> entry_seg m \<and> (\<forall>x \<in> set xs. zone_range z \<inter> seg x = {})))" by simp
    then show ?thesis by (metis list.set_intros(2))
  next
    case True
    define rs where "rs = carve_all [(m_addr m, m_addr m + m_len m)] xs"
    have mb: "m_addr m + m_len m < 2 ^ 32" using Cons.prems(5) True by simp
    then have mm: "(m_addr m + m_len m) mod 2 ^ 64 = m_addr m + m_len m" by simp
    obtain zs1 h1 where s1: "add_ranges rs (zs, h) = Inr (zs1, h1)" "add_entries xs ms (zs1, h1) = Inr (zs', h')"
      using Cons.prems(1) True mm unfolding rs_def usable_def by (auto split: sum.splits)
    have rs: "seg_sorted rs" "\<forall>q \<in> set rs. seg q \<subseteq> entry_seg m \<and> (\<forall>x \<in> set xs. seg q \<inter> seg x = {})"
      using carve_all_ok [OF Cons.prems(3), of "[(m_addr m, m_addr m + m_len m)]" "entry_seg m"]
      unfolding rs_def by (auto simp: seg_sorted_def seg_def entry_seg_def)
    have pos: "seg q \<subseteq> {0<..<2 ^ 32 - 1}" if "q \<in> set rs" for q
    proof
      fix p assume p: "p \<in> seg q"
      then have "p \<notin> seg (0, MIN_MANAGED_PHYS)" "p \<in> entry_seg m" using rs that Cons.prems(4) by blast+
      then show "p \<in> {0<..<2 ^ 32 - 1}" using mb by (auto simp: seg_def MIN_MANAGED_PHYS_def entry_seg_def)
    qed
    have "\<forall>z \<in> set zs. \<forall>q \<in> set rs. zone_range z \<inter> seg q = {}"
      using Cons.prems(7) rs(2) by fastforce
    from add_ranges_ok [OF s1(1) Cons.prems(2) rs(1) _ this] pos
    have z1: "zones_inv zs1 {}" "\<forall>z \<in> set zs1. z \<in> set zs \<or> (\<exists>r \<in> set rs. zone_range z \<subseteq> seg r)" by auto
    have zm: "z \<in> set zs \<or> (zone_range z \<subseteq> entry_seg m \<and> (\<forall>x \<in> set xs. zone_range z \<inter> seg x = {}))"
      if "z \<in> set zs1" for z
      using z1(2) that rs(2) by (meson disjoint_iff subset_iff)
    have "\<forall>z \<in> set zs1. \<forall>n \<in> set ms. zone_range z \<inter> entry_seg n = {}"
      using zm Cons.prems(6,7) by fastforce
    then have "zones_inv zs' {} \<and> (\<forall>z \<in> set zs'. z \<in> set zs1
      \<or> (\<exists>m \<in> set ms. usable m \<and> zone_range z \<subseteq> entry_seg m \<and> (\<forall>x \<in> set xs. zone_range z \<inter> seg x = {})))"
      using Cons.prems(3-6) by (intro Cons.IH [OF s1(2) z1(1)]) auto
    then show ?thesis using zm True by auto
  qed
qed

lemma base_exclusions_ok:
  "x \<in> set (base_exclusions ks ke fb fl) \<Longrightarrow> fst x < snd x"
  by (auto simp: base_exclusions_def MIN_MANAGED_PHYS_def KERNEL_HEAP_SIZE_def PAGE_ENTRIES_def
      PAGE_SIZE_def split: if_splits)

lemma module_exclusions_ok: "x \<in> set (module_exclusions ms n) \<Longrightarrow> fst x < snd x"
  by (induction ms n rule: module_exclusions.induct) (auto split: if_splits)

subsection \<open>The contract of a page allocator\<close>

locale frame_allocator =
  fixes alloc :: "'s \<Rightarrow> nat \<Rightarrow> ('s \<times> nat) option"
    and dealloc :: "'s \<Rightarrow> nat \<Rightarrow> nat \<Rightarrow> 's option"
    and inv :: "'s \<Rightarrow> (nat \<times> nat) set \<Rightarrow> bool"
  assumes alloc_law: "inv s F \<Longrightarrow> alloc s k = Some (s', p) \<Longrightarrow> (p, k) \<notin> F \<and> inv s' (insert (p, k) F)"
    and dealloc_law: "inv s F \<Longrightarrow> (p, k) \<in> F \<Longrightarrow> \<exists>s'. dealloc s p k = Some s' \<and> inv s' (F - {(p, k)})"
    and disjoint_law: "inv s F \<Longrightarrow> b \<in> F \<Longrightarrow> c \<in> F \<Longrightarrow> b \<noteq> c \<Longrightarrow> phys_block b \<inter> phys_block c = {}"
begin

lemma alloc_fresh:
  assumes "inv s F" "alloc s k = Some (s', p)" "b \<in> F"
  shows "phys_block (p, k) \<inter> phys_block b = {}"
  using alloc_law [OF assms(1,2)] disjoint_law [of s' "insert (p, k) F" "(p, k)" b] assms(3) by auto

lemma alloc_dealloc:
  assumes "inv s F" "alloc s k = Some (s', p)"
  shows "\<exists>s''. dealloc s' p k = Some s'' \<and> inv s'' F"
  using alloc_law [OF assms] dealloc_law [of s' "insert (p, k) F" p k] by auto

end

interpretation buddy: frame_allocator alloc_pages free_pages zones_inv
proof unfold_locales
  show "(p, k) \<notin> F \<and> zones_inv s' (insert (p, k) F)"
    if "zones_inv s F" "alloc_pages s k = Some (s', p)" for s F k s' p
    using alloc_pages_inv [OF that] by blast
  show "\<exists>s'. free_pages s p k = Some s' \<and> zones_inv s' (F - {(p, k)})"
    if "zones_inv s F" "(p, k) \<in> F" for s F p k
    using free_pages_inv [OF that] by blast
  show "phys_block b \<inter> phys_block c = {}"
    if "zones_inv s F" "b \<in> F" "c \<in> F" "b \<noteq> c" for s F b c
    by (rule zones_inv_disjoint [OF that])
qed

lemma zones_count:
  assumes "zones_inv zs F" "s < 2 ^ 32"
  shows "finite F \<and> (\<Sum>b \<in> F. 2 ^ snd b) \<le> (\<Sum>z \<leftarrow> zs. num_pages z)
    \<and> buddy_free_from zs s = Some (w32 (s + ((\<Sum>z \<leftarrow> zs. num_pages z) - (\<Sum>b \<in> F. 2 ^ snd b))))"
  using assms
proof (induction zs arbitrary: F s)
  case Nil
  then show ?case by (simp add: w32_id)
next
  case (Cons z zs)
  from Cons.prems(1) obtain A G where a: "zone_inv z A" "zones_inv zs G" "F = frame_at z ` A \<union> G"
    "\<forall>y \<in> set zs. zone_range z \<inter> zone_range y = {}" by auto
  have fA: "finite A" using tiling_finite [OF zone_inv_tiling [OF a(1)]] .
  note zc = zone_count [OF a(1) Cons.prems(2)]
  note ih = Cons.IH [OF a(2) w32_less, of "s + (num_pages z - (\<Sum>b \<in> A. 2 ^ snd b))"]
  have dj: "frame_at z ` A \<inter> G = {}"
  proof (rule ccontr)
    assume "frame_at z ` A \<inter> G \<noteq> {}"
    then obtain p k where pk: "(p, k) \<in> frame_at z ` A" "(p, k) \<in> G" by auto
    obtain y where "y \<in> set zs" "p \<in> zone_range y"
      using zones_inv_frame [OF a(2) pk(2)] phys_block_head by blast
    then show False using frame_range [OF a(1) pk(1)] a(4) by blast
  qed
  have sA: "(\<Sum>b \<in> frame_at z ` A. 2 ^ snd b) = (\<Sum>b \<in> A. 2 ^ snd b :: nat)"
    by (subst sum.reindex) (auto simp: inj_on_def frame_at_inj, simp add: frame_at_def)
  have sF: "(\<Sum>b \<in> F. 2 ^ snd b) = (\<Sum>b \<in> A. 2 ^ snd b) + (\<Sum>b \<in> G. 2 ^ snd b :: nat)"
    unfolding a(3) using fA ih dj sA by (simp add: sum.union_disjoint)
  have e: "s + (num_pages z - (\<Sum>b \<in> A. 2 ^ snd b)) + ((\<Sum>z \<leftarrow> zs. num_pages z) - (\<Sum>b \<in> G. 2 ^ snd b))
      = s + ((\<Sum>z \<leftarrow> z # zs. num_pages z) - (\<Sum>b \<in> F. 2 ^ snd b))"
    using ih zc(2) sF by simp
  have "buddy_free_from (z # zs) s
      = Some (w32 (s + ((\<Sum>z \<leftarrow> z # zs. num_pages z) - (\<Sum>b \<in> F. 2 ^ snd b))))"
    using ih zc(1) unfolding w32_add_left e by simp
  then show ?case using ih zc(2) fA sF a(3) by auto
qed

text \<open>The states the page allocator reaches, with the blocks handed out and not yet released.\<close>

inductive buddy_reach :: "buddy_state \<Rightarrow> buddy_state \<Rightarrow> (nat \<times> nat) set \<Rightarrow> bool" for zs0 where
  start: "buddy_reach zs0 zs0 {}"
| alloc: "buddy_reach zs0 zs F \<Longrightarrow> alloc_pages zs k = Some (zs', p) \<Longrightarrow> buddy_reach zs0 zs' (insert (p, k) F)"
| release: "buddy_reach zs0 zs F \<Longrightarrow> (p, k) \<in> F \<Longrightarrow> free_pages zs p k = Some zs'
    \<Longrightarrow> buddy_reach zs0 zs' (F - {(p, k)})"

lemma buddy_reach_inv:
  "buddy_reach zs0 zs F \<Longrightarrow> zones_inv zs0 {} \<Longrightarrow> zones_inv zs F \<and> map zone_range zs = map zone_range zs0"
proof (induction rule: buddy_reach.induct)
  case start
  then show ?case by simp
next
  case (alloc zs F k zs' p)
  then show ?case using alloc_pages_inv by metis
next
  case (release zs F p k zs')
  then show ?case using free_pages_inv [of zs F p k] by auto
qed

lemma zone_range_pages: "map zone_range zs = map zone_range ys \<Longrightarrow>
    (\<Sum>z \<leftarrow> zs. num_pages z) = (\<Sum>z \<leftarrow> ys. num_pages z)"
proof (induction zs arbitrary: ys)
  case Nil
  then show ?case by simp
next
  case (Cons z zs)
  then obtain y us where y: "ys = y # us" "zone_range z = zone_range y" "map zone_range zs = map zone_range us"
    by (cases ys) auto
  have "card (zone_range z) = card (zone_range y)" using y(2) by simp
  then have "num_pages z = num_pages y" by (simp add: zone_range_def)
  then show ?case using Cons.IH [OF y(3)] y(1) by simp
qed

subsection \<open>Properties\<close>

text \<open>
  C2. Whatever sequence of page allocations and releases runs from freshly built zones, the blocks
  handed out are pairwise disjoint and inside the zones, every block handed out can be released
  (the walk of the free list ends), and the free pages the allocator counts are exactly all pages
  less those handed out.
\<close>

theorem buddy_reach_sound:
  assumes "zones_inv zs0 {}" and "buddy_reach zs0 zs F"
    and "(\<Sum>z \<leftarrow> zs0. num_pages z) < 2 ^ 32"
  shows "(\<forall>b \<in> F. \<forall>c \<in> F. b \<noteq> c \<longrightarrow> phys_block b \<inter> phys_block c = {})
    \<and> (\<forall>b \<in> F. \<exists>z \<in> set zs0. phys_block b \<subseteq> zone_range z)
    \<and> (\<forall>(p, k) \<in> F. free_pages zs p k \<noteq> None)
    \<and> buddy_free_pages zs = Some ((\<Sum>z \<leftarrow> zs0. num_pages z) - (\<Sum>b \<in> F. 2 ^ snd b))"
proof (intro conjI ballI impI, goal_cases)
  note i = buddy_reach_inv [OF assms(2,1)]
  note zc = zones_count [of zs F 0] zone_range_pages [of zs zs0]
  {
    case (1 b c)
    then show ?case using buddy.disjoint_law i by blast
  next
    case (2 b)
    then obtain y where y: "y \<in> set zs" "phys_block b \<subseteq> zone_range y"
      using zones_inv_frame i by blast
    moreover have "zone_range ` set zs = zone_range ` set zs0" using i by (metis set_map)
    ultimately show ?case by (metis image_iff)
  next
    case (3 b)
    then show ?case using buddy.dealloc_law i by (cases b) fastforce
  next
    case 4
    show ?case using zc i assms(3) by (simp add: buddy_free_pages_def w32_id)
  }
qed

definition sample_zone :: buddy_zone where
  "sample_zone = zone_build \<lparr>base_phys = 0x200000, num_pages = 6,
     pages = (\<lambda>i. \<lparr>pg_order = 0, pg_used = False, pg_next = None\<rparr>), free_list = (\<lambda>k. None), max_order = 0\<rparr>"

lemma sample_zone_inv: "zones_inv [sample_zone] {}" "num_pages sample_zone = 6"
proof -
  have "zone_inv sample_zone {}" unfolding sample_zone_def zone_inv_def by (rule zone_build_ok(1))
  moreover have "zone_fits sample_zone" "num_pages sample_zone = 6"
    by (simp_all add: sample_zone_def zone_fits_def zone_build_ok(2,3))
  ultimately show "zones_inv [sample_zone] {}" "num_pages sample_zone = 6" by auto
qed

lemma buddy_reach_sound_witness:
  "buddy_free_pages [sample_zone] = Some 6"
  using buddy_reach_sound [OF sample_zone_inv(1) buddy_reach.start] by (simp add: sample_zone_inv(2))

text \<open>
  C5. In one zone, an allocation of order \<open>k\<close> either returns the physical address of a block that
  is aligned to its size within the zone, marks it used and adds exactly that block to the blocks
  in use, disjoint from all of them; or it leaves the zone as it is and returns NULL, and then the
  free list of every order from \<open>k\<close> up is empty.
\<close>

theorem zone_alloc_pages_spec:
  assumes "zone_inv z A" and "zone_fits z" and "zone_alloc_pages z k = (z', p)"
  shows "(z' = z \<and> p = 0 \<and> (\<forall>m \<ge> k. free_list z m = None))
    \<or> (\<exists>i. p = base_phys z + 4096 * i \<and> p \<noteq> 0 \<and> 2 ^ k dvd i \<and> i + 2 ^ k \<le> num_pages z
        \<and> pg_used (pages z' i) \<and> pg_order (pages z' i) = k
        \<and> (\<forall>b \<in> A. block (i, k) \<inter> block b = {}) \<and> zone_inv z' (insert (i, k) A))"
proof -
  obtain fl where fl: "zone_ok z fl A" "no_buddies (max_order z) fl"
    using assms(1) by (auto simp: zone_inv_def)
  from zone_alloc_pages_ok [OF fl assms(3)] show ?thesis
  proof (elim disjE exE conjE)
    assume "z' = z" "p = 0" "\<forall>m \<ge> k. fl m = []"
    then show ?thesis using zlistsD(2) [OF zone_okD(1) [OF fl(1)]] by (metis chain.simps(1))
  next
    fix i fl'
    assume a: "(i, k) \<notin> A" "zone_ok z' fl' (insert (i, k) A)" "no_buddies (max_order z') fl'"
      "p = w32 (base_phys z + push_bit PAGE_SHIFT i)" "same_frame z z'"
    have iv: "zone_inv z' (insert (i, k) A)" using a by (auto simp: zone_inv_def)
    note t = zone_inv_tiling [OF iv, unfolded tiling_insert [OF a(1)]]
    have "p = base_phys z + 4096 * i"
      using a(4,5) frame_phys [OF assms(2)] t by (simp add: same_frame_def)
    moreover have "pg_used (pages z' i) \<and> pg_order (pages z' i) = k"
      using markedD [OF zone_okD(2) [OF a(2)]] by blast
    ultimately show ?thesis using iv t a(5) assms(2) by (auto simp: same_frame_def zone_fits_def)
  qed
qed

lemma zone_alloc_pages_spec_witness:
  "\<exists>z' p. zone_alloc_pages sample_zone 1 = (z', p)
    \<and> (p = 0 \<or> (\<exists>i. p = base_phys sample_zone + 4096 * i \<and> 2 ^ 1 dvd i \<and> i + 2 \<le> num_pages sample_zone))"
proof -
  obtain z' p where r: "zone_alloc_pages sample_zone 1 = (z', p)" by fastforce
  have "zone_inv sample_zone {}" "zone_fits sample_zone" using sample_zone_inv(1) by auto
  from zone_alloc_pages_spec [OF this r] show ?thesis using r by force
qed

text \<open>
  C6. In one zone, releasing a block in use ends, takes exactly that block out of use, keeps the
  partition of the zone's pages into blocks, and leaves the free lists fully coalesced: no free
  block below the highest order has a free buddy of its order.
\<close>

theorem zone_free_pages_spec:
  assumes "zone_inv z A" and "(i, k) \<in> A"
  shows "\<exists>z' fl. zone_free_pages z (base_phys z + 4096 * i) k = Some z' \<and> zone_ok z' fl (A - {(i, k)})
    \<and> (\<forall>m < max_order z'. \<forall>j \<in> set (fl m). buddy_index j m \<notin> set (fl m))"
  using zone_free_inv [OF assms] unfolding zone_inv_def no_buddies_def by blast

lemma zone_free_pages_spec_witness:
  "\<exists>z' z'' p. zone_alloc_pages sample_zone 0 = (z', p)
    \<and> (p \<noteq> 0 \<longrightarrow> zone_free_pages z' p 0 = Some z'')"
proof -
  obtain z' p where r: "zone_alloc_pages sample_zone 0 = (z', p)" by fastforce
  have z: "zone_inv sample_zone {}" "zone_fits sample_zone" using sample_zone_inv(1) by auto
  from zone_alloc_inv [OF z r] show ?thesis
  proof (elim disjE exE conjE)
    fix i assume i: "zone_inv z' (insert (i, 0) {})" "p = base_phys sample_zone + 4096 * i"
      "same_frame sample_zone z'"
    then show ?thesis using zone_free_pages_spec [OF i(1), of i 0] r by (auto simp: same_frame_def)
  qed (use r in auto)
qed

text \<open>
  \<open>buddy_init\<close> on a memory map whose available entries lie below 4 GiB and do not overlap builds
  zones that do not overlap, with all their pages free, each inside one available entry and
  outside the low memory, the kernel image, the frame buffer, the kernel heap, the kernel stack
  and the boot modules it recorded.
\<close>

theorem buddy_init_spec:
  assumes "buddy_init mods entries ks ke fb fl h = Inr (zs, h')"
    and "\<forall>m \<in> set entries. usable m \<longrightarrow> m_addr m + m_len m < 2 ^ 32"
    and "sorted_wrt (\<lambda>m n. entry_seg m \<inter> entry_seg n = {}) entries"
  shows "zones_inv zs {} \<and> (\<forall>z \<in> set zs. (\<exists>m \<in> set entries. usable m \<and> zone_range z \<subseteq> entry_seg m)
    \<and> (\<forall>x \<in> set (base_exclusions ks ke fb fl
          @ module_exclusions mods (length (base_exclusions ks ke fb fl))). zone_range z \<inter> seg x = {}))"
proof -
  let ?xs = "base_exclusions ks ke fb fl @ module_exclusions mods (length (base_exclusions ks ke fb fl))"
  have r: "add_entries ?xs entries ([], h) = Inr (zs, h')"
    using assms(1) by (simp add: buddy_init_def Let_def)
  have x: "\<forall>x \<in> set ?xs. fst x < snd x" "(0, MIN_MANAGED_PHYS) \<in> set ?xs"
  proof -
    show "\<forall>x \<in> set ?xs. fst x < snd x"
      unfolding set_append using base_exclusions_ok module_exclusions_ok by blast
    show "(0, MIN_MANAGED_PHYS) \<in> set ?xs" by (simp add: base_exclusions_def)
  qed
  have "zones_inv zs {} \<and> (\<forall>z \<in> set zs. z \<in> set [] \<or> (\<exists>m \<in> set entries. usable m
      \<and> zone_range z \<subseteq> entry_seg m \<and> (\<forall>x \<in> set ?xs. zone_range z \<inter> seg x = {})))"
    by (rule add_entries_ok [OF r _ x assms(2,3)]) simp_all
  then show ?thesis by (metis empty_iff list.set(1))
qed

lemma buddy_init_spec_witness:
  "\<exists>zs h'. buddy_init [] [\<lparr>m_addr = 0, m_len = 0x9FC00, m_type = 1\<rparr>, \<lparr>m_addr = 0x100000, m_len = 0x100000, m_type = 2\<rparr>]
     0x200000 0x400000 0 0 (heap_init False) = Inr (zs, h') \<and> zones_inv zs {}"
proof -
  let ?e = "[\<lparr>m_addr = 0, m_len = 0x9FC00, m_type = 1\<rparr>, \<lparr>m_addr = 0x100000, m_len = 0x100000, m_type = 2\<rparr>]"
  have r: "buddy_init [] ?e 0x200000 0x400000 0 0 (heap_init False) = Inr ([], heap_init False)"
    by (simp add: buddy_init_def Let_def base_exclusions_def MULTIBOOT_MEMORY_AVAILABLE_def
        MIN_MANAGED_PHYS_def carve_exclusion_def)
  have e: "\<forall>m \<in> set ?e. usable m \<longrightarrow> m_addr m + m_len m < 2 ^ 32"
    "sorted_wrt (\<lambda>m n. entry_seg m \<inter> entry_seg n = {}) ?e" by (simp_all add: entry_seg_def)
  show ?thesis using buddy_init_spec [OF r e] r by blast
qed

text \<open>
  A zone above 4 GiB is not managed as such: \<open>add_zone\<close> truncates its base to 32 bits. The
  range from 4 GiB to 4 GiB + 16 MiB becomes a zone at physical address 0, over the low memory and
  the kernel image that the exclusions keep out.
\<close>

theorem add_zone_truncates:
  "\<exists>z h'. add_zone (2 ^ 32) (2 ^ 32 + 0x1000000) ([], heap_init False) = Inr ([z], h')
    \<and> zone_inv z {} \<and> zone_range z = {0..<0x1000000}"
proof -
  have a: "align_up64 (2 ^ 32) PAGE_SIZE = 2 ^ 32" "align_dn64 (2 ^ 32 + 0x1000000) PAGE_SIZE = 2 ^ 32 + 0x1000000"
    by (simp_all add: align64_val)
  have h: "\<exists>h' p. kernel_malloc_align 16 32768 (heap_init False) = Inr (h', p) \<and> p \<noteq> 0"
  proof -
    have w: "w32 4295000083 = 32787" "w32 (3238002704 + 4) = 3238002708" by (simp_all add: w32_def)
    show ?thesis
      using align_up_bounds(2) [of 3238002708 4]
      by (simp add: kernel_malloc_align_def w heap_eval)
  qed
  then obtain h' p where h': "kernel_malloc_align 16 32768 (heap_init False) = Inr (h', p)" "p \<noteq> 0" by blast
  let ?z = "\<lparr>base_phys = 0, num_pages = 4096, pages = (\<lambda>i. \<lparr>pg_order = 0, pg_used = False, pg_next = None\<rparr>),
    free_list = (\<lambda>k. None), max_order = 0\<rparr>"
  have "add_zone (2 ^ 32) (2 ^ 32 + 0x1000000) ([], heap_init False) = Inr ([zone_build ?z], h')"
    unfolding add_zone_def a using h'
    by (simp add: Let_def MAX_ZONES_def PAGE_SHIFT_def drop_bit_eq_div w32_def PAGE_DESC_SIZE_def)
  moreover have "zone_inv (zone_build ?z) {}" unfolding zone_inv_def by (rule zone_build_ok(1))
  moreover have "zone_range (zone_build ?z) = {0..<0x1000000}"
    by (simp add: zone_range_def zone_build_ok(2,3))
  ultimately show ?thesis by blast
qed

text \<open>
  A zone that ends exactly at 4 GiB never takes a block back: the end of the zone wraps to 0 in
  \<open>find_zone_by_phys\<close>, which finds no zone, and \<open>free_pages\<close> drops the block silently.
\<close>

theorem free_pages_last_zone:
  assumes "base_phys z + 4096 * num_pages z = 2 ^ 32" and "0 < num_pages z" and "0 < base_phys z"
  shows "find_zone_by_phys [z] p = None \<and> free_pages [z] p k = Some [z]"
proof -
  have "4096 * num_pages z < 2 ^ 32" using assms by linarith
  then have "w32 (push_bit PAGE_SHIFT (num_pages z)) = 4096 * num_pages z"
    by (simp add: push_bit_eq_mult PAGE_SHIFT_def w32_id)
  then show ?thesis using assms(1) by (simp add: find_zone_by_phys_def free_pages_def w32_def)
qed

lemma free_pages_last_zone_witness:
  "\<exists>z. zone_inv z {} \<and> base_phys z = 0xFFFFF000 \<and> free_pages [z] 0xFFFFF000 0 = Some [z]"
proof -
  obtain z where f: "base_phys z = 0xFFFFF000" "num_pages z = 1" "zone_inv z {}"
  proof
    let ?z = "zone_build \<lparr>base_phys = 0xFFFFF000, num_pages = 1,
     pages = (\<lambda>i. \<lparr>pg_order = 0, pg_used = False, pg_next = None\<rparr>), free_list = (\<lambda>k. None), max_order = 0\<rparr>"
    show "base_phys ?z = 0xFFFFF000" "num_pages ?z = 1" by (simp_all add: zone_build_ok(2,3))
    show "zone_inv ?z {}" unfolding zone_inv_def by (rule zone_build_ok(1))
  qed
  then have "free_pages [z] 0xFFFFF000 0 = Some [z]"
    using free_pages_last_zone [of z "0xFFFFF000" 0] by simp
  with f show ?thesis by blast
qed

end
