(* ===== verification/Cstring.thy ===== *)
theory Cstring
  imports Prelude "HOL-Library.Sublist"
begin

text \<open>
  The string functions of \<^verbatim>\<open>kernel/stdlib/stdlib.c\<close> and \<^verbatim>\<open>kernel/string.c\<close>. A
  \<^verbatim>\<open>char *\<close> is the list of bytes from the pointed-at byte to the end of its buffer; a function
  that reads or writes past the end of the buffer has no defined result, \<open>None\<close>. A returned
  pointer into the string is the offset from its start, NULL is \<open>None\<close> inside the result. Source
  and destination buffers are distinct, as the C standard requires. \<^verbatim>\<open>char\<close> is signed on i686,
  so a byte compared with an \<^verbatim>\<open>int\<close> is read by \<open>sint\<close>; buffers are shorter than
  \<open>2 ^ 32\<close>, so the offsets do not wrap.
\<close>

type_synonym cstring = "u8 list"

subsection \<open>Character classes\<close>

definition isalpha :: "int \<Rightarrow> bool" where
  "isalpha c \<longleftrightarrow> (65 \<le> c \<and> c \<le> 90) \<or> (97 \<le> c \<and> c \<le> 122)"

definition isdigit :: "int \<Rightarrow> bool" where
  "isdigit c \<longleftrightarrow> 48 \<le> c \<and> c \<le> 57"

definition isalnum :: "int \<Rightarrow> bool" where
  "isalnum c \<longleftrightarrow> isalpha c \<or> isdigit c"

definition isspace :: "int \<Rightarrow> bool" where
  "isspace c \<longleftrightarrow> c = 32 \<or> c = 9 \<or> c = 10 \<or> c = 13 \<or> c = 12 \<or> c = 11"

definition isupper :: "int \<Rightarrow> bool" where
  "isupper c \<longleftrightarrow> 65 \<le> c \<and> c \<le> 90"

definition islower :: "int \<Rightarrow> bool" where
  "islower c \<longleftrightarrow> 97 \<le> c \<and> c \<le> 122"

definition isprint :: "int \<Rightarrow> bool" where
  "isprint c \<longleftrightarrow> 32 \<le> c \<and> c \<le> 126"

definition ispunct :: "int \<Rightarrow> bool" where
  "ispunct c \<longleftrightarrow> isprint c \<and> \<not> isalnum c \<and> \<not> isspace c"

definition iscntrl :: "int \<Rightarrow> bool" where
  "iscntrl c \<longleftrightarrow> (0 \<le> c \<and> c \<le> 31) \<or> c = 127"

definition isxdigit :: "int \<Rightarrow> bool" where
  "isxdigit c \<longleftrightarrow> isdigit c \<or> (65 \<le> c \<and> c \<le> 70) \<or> (97 \<le> c \<and> c \<le> 102)"

definition toupper :: "int \<Rightarrow> int" where
  "toupper c = (if islower c then c - 97 + 65 else c)"

definition tolower :: "int \<Rightarrow> int" where
  "tolower c = (if isupper c then c - 65 + 97 else c)"

subsection \<open>Length, comparison and search\<close>

fun strlen_loop :: "cstring \<Rightarrow> nat \<Rightarrow> nat option" where
  "strlen_loop [] n = None"
| "strlen_loop (c # s) n = (if c \<noteq> 0 then strlen_loop s (n + 1) else Some n)"

definition strlen :: "cstring \<Rightarrow> nat option" where
  "strlen s = strlen_loop s 0"

fun strcmp :: "cstring \<Rightarrow> cstring \<Rightarrow> int option" where
  "strcmp (a # s) (b # t) = (if a \<noteq> 0 \<and> a = b then strcmp s t else Some (uint a - uint b))"
| "strcmp _ _ = None"

fun strncmp :: "cstring \<Rightarrow> cstring \<Rightarrow> nat \<Rightarrow> int option" where
  "strncmp s t 0 = Some 0"
| "strncmp (a # s) (b # t) (Suc n) = (if a \<noteq> 0 \<and> a = b then strncmp s t n else Some (uint a - uint b))"
| "strncmp _ _ _ = None"

fun strcasecmp :: "cstring \<Rightarrow> cstring \<Rightarrow> int option" where
  "strcasecmp (a # s) (b # t) =
     (if a \<noteq> 0 \<and> b \<noteq> 0 then
        (if tolower (uint a) \<noteq> tolower (uint b) then Some (tolower (uint a) - tolower (uint b))
         else strcasecmp s t)
      else Some (tolower (uint a) - tolower (uint b)))"
| "strcasecmp _ _ = None"

fun strchr_loop :: "cstring \<Rightarrow> int \<Rightarrow> nat \<Rightarrow> nat option option" where
  "strchr_loop [] c k = None"
| "strchr_loop (a # s) c k =
     (if a \<noteq> 0 then (if sint a = c then Some (Some k) else strchr_loop s c (k + 1))
      else Some (if c = 0 then Some k else None))"

definition strchr :: "cstring \<Rightarrow> int \<Rightarrow> nat option option" where
  "strchr s c = strchr_loop s c 0"

fun strrchr_loop :: "cstring \<Rightarrow> int \<Rightarrow> nat \<Rightarrow> nat option \<Rightarrow> nat option option" where
  "strrchr_loop [] c k r = None"
| "strrchr_loop (a # s) c k r =
     (if a \<noteq> 0 then strrchr_loop s c (k + 1) (if sint a = c then Some k else r)
      else Some (if c = 0 then Some k else r))"

definition strrchr :: "cstring \<Rightarrow> int \<Rightarrow> nat option option" where
  "strrchr s c = strrchr_loop s c 0 None"

text \<open>The inner loop of \<open>strstr\<close>: whether the needle ends before the two differ.\<close>

fun strstr_match :: "cstring \<Rightarrow> cstring \<Rightarrow> bool option" where
  "strstr_match (h # hs) (n # ns) =
     (if h \<noteq> 0 \<and> n \<noteq> 0 \<and> h = n then strstr_match hs ns else Some (n = 0))"
| "strstr_match _ _ = None"

fun strstr_loop :: "cstring \<Rightarrow> cstring \<Rightarrow> nat \<Rightarrow> nat option option" where
  "strstr_loop [] needle k = None"
| "strstr_loop (h # hs) needle k =
     (if h \<noteq> 0 then
        (case strstr_match (h # hs) needle of
           None \<Rightarrow> None
         | Some True \<Rightarrow> Some (Some k)
         | Some False \<Rightarrow> strstr_loop hs needle (k + 1))
      else Some None)"

definition strstr :: "cstring \<Rightarrow> cstring \<Rightarrow> nat option option" where
  "strstr haystack needle = (case needle of
       [] \<Rightarrow> None
     | n # _ \<Rightarrow> if n = 0 then Some (Some 0) else strstr_loop haystack needle 0)"

text \<open>The scan of the second string in \<open>strspn\<close>, \<open>strcspn\<close> and \<open>strpbrk\<close>: does it hold the byte?\<close>

fun in_set :: "u8 \<Rightarrow> cstring \<Rightarrow> bool option" where
  "in_set c [] = None"
| "in_set c (a # s) = (if a \<noteq> 0 then (if c = a then Some True else in_set c s) else Some False)"

fun strspn_loop :: "cstring \<Rightarrow> cstring \<Rightarrow> nat \<Rightarrow> nat option" where
  "strspn_loop [] t k = None"
| "strspn_loop (c # s) t k =
     (if c \<noteq> 0 then
        (case in_set c t of None \<Rightarrow> None | Some False \<Rightarrow> Some k | Some True \<Rightarrow> strspn_loop s t (k + 1))
      else Some k)"

definition strspn :: "cstring \<Rightarrow> cstring \<Rightarrow> nat option" where
  "strspn s t = strspn_loop s t 0"

fun strcspn_loop :: "cstring \<Rightarrow> cstring \<Rightarrow> nat \<Rightarrow> nat option" where
  "strcspn_loop [] t k = None"
| "strcspn_loop (c # s) t k =
     (if c \<noteq> 0 then
        (case in_set c t of None \<Rightarrow> None | Some True \<Rightarrow> Some k | Some False \<Rightarrow> strcspn_loop s t (k + 1))
      else Some k)"

definition strcspn :: "cstring \<Rightarrow> cstring \<Rightarrow> nat option" where
  "strcspn s t = strcspn_loop s t 0"

fun strpbrk_loop :: "cstring \<Rightarrow> cstring \<Rightarrow> nat \<Rightarrow> nat option option" where
  "strpbrk_loop [] t k = None"
| "strpbrk_loop (c # s) t k =
     (if c \<noteq> 0 then
        (case in_set c t of None \<Rightarrow> None | Some True \<Rightarrow> Some (Some k)
         | Some False \<Rightarrow> strpbrk_loop s t (k + 1))
      else Some None)"

definition strpbrk :: "cstring \<Rightarrow> cstring \<Rightarrow> nat option option" where
  "strpbrk s t = strpbrk_loop s t 0"

fun memchr_loop :: "cstring \<Rightarrow> u8 \<Rightarrow> nat \<Rightarrow> nat \<Rightarrow> nat option option" where
  "memchr_loop p c k 0 = Some None"
| "memchr_loop [] c k (Suc n) = None"
| "memchr_loop (a # p) c k (Suc n) = (if a = c then Some (Some k) else memchr_loop p c (k + 1) n)"

definition memchr :: "cstring \<Rightarrow> int \<Rightarrow> nat \<Rightarrow> nat option option" where
  "memchr p v n = memchr_loop p (word_of_int v) 0 n"

subsection \<open>Copying\<close>

text \<open>The copying functions return the destination buffer from the pointed-at byte on.\<close>

fun strcpy :: "cstring \<Rightarrow> cstring \<Rightarrow> cstring option" where
  "strcpy (d # ds) (c # s) = (if c \<noteq> 0 then map_option ((#) c) (strcpy ds s) else Some (0 # ds))"
| "strcpy _ _ = None"

definition SIZE_MAX :: nat where "SIZE_MAX = 2 ^ 32 - 1"

fun strncpy_fill :: "cstring \<Rightarrow> nat \<Rightarrow> cstring option" where
  "strncpy_fill [] n = (if n = 0 then Some [] else None)"
| "strncpy_fill (d # ds) n = (if n = 0 then Some (d # ds) else map_option ((#) 0) (strncpy_fill ds (n - 1)))"

text \<open>The test \<^verbatim>\<open>n-- && ...\<close> also decrements the counter when it is 0.\<close>

fun strncpy :: "cstring \<Rightarrow> cstring \<Rightarrow> nat \<Rightarrow> cstring option" where
  "strncpy ds s 0 = strncpy_fill ds SIZE_MAX"
| "strncpy (d # ds) (c # s) (Suc n) =
     map_option ((#) c) (if c \<noteq> 0 then strncpy ds s n else strncpy_fill ds n)"
| "strncpy _ _ _ = None"

fun strcat :: "cstring \<Rightarrow> cstring \<Rightarrow> cstring option" where
  "strcat [] s = None"
| "strcat (d # ds) s = (if d \<noteq> 0 then map_option ((#) d) (strcat ds s) else strcpy (d # ds) s)"

text \<open>The copying loop of \<open>strncat\<close>, with the closing NUL when the counter ran out.\<close>

fun strncat_copy :: "cstring \<Rightarrow> cstring \<Rightarrow> nat \<Rightarrow> cstring option" where
  "strncat_copy [] s 0 = None"
| "strncat_copy (d # ds) s 0 = Some (0 # ds)"
| "strncat_copy (d # ds) (c # s) (Suc n) =
     map_option ((#) c) (if c \<noteq> 0 then strncat_copy ds s n else Some ds)"
| "strncat_copy _ _ _ = None"

fun strncat :: "cstring \<Rightarrow> cstring \<Rightarrow> nat \<Rightarrow> cstring option" where
  "strncat [] s n = None"
| "strncat (d # ds) s n =
     (if d \<noteq> 0 then map_option ((#) d) (strncat ds s n) else strncat_copy (d # ds) s n)"

subsection \<open>strtok\<close>

text \<open>
  The state is the buffer the tokens are cut from and the static \<open>strtok_last\<close>, an offset into it.
  A call with a string starts at its offset; the result is the offset of the token.
\<close>

record tok_state =
  tok_buf :: cstring
  strtok_last :: "nat option"

definition strtok :: "tok_state \<Rightarrow> nat option \<Rightarrow> cstring \<Rightarrow> (tok_state \<times> nat option) option" where
  "strtok st str delim =
     (case (case str of Some p \<Rightarrow> Some p | None \<Rightarrow> strtok_last st) of
        None \<Rightarrow> Some (st, None)
      | Some p \<Rightarrow>
          (case strspn (drop p (tok_buf st)) delim of
             None \<Rightarrow> None
           | Some k \<Rightarrow>
               (case drop (p + k) (tok_buf st) of
                  [] \<Rightarrow> None
                | c # s \<Rightarrow>
                    if c = 0 then Some (st\<lparr>strtok_last := None\<rparr>, None)
                    else (case strpbrk (c # s) delim of
                            None \<Rightarrow> None
                          | Some None \<Rightarrow> Some (st\<lparr>strtok_last := None\<rparr>, Some (p + k))
                          | Some (Some e) \<Rightarrow>
                              Some (st\<lparr>tok_buf := (tok_buf st)[p + k + e := 0],
                                       strtok_last := Some (p + k + e + 1)\<rparr>, Some (p + k))))))"

subsection \<open>The string a buffer holds\<close>

definition str_of :: "cstring \<Rightarrow> u8 list" where
  "str_of s = takeWhile (\<lambda>c. c \<noteq> 0) s"

lemma str_of_simps [simp]:
  "str_of [] = []" "str_of (c # s) = (if c = 0 then [] else c # str_of s)"
  by (simp_all add: str_of_def)

lemma strlen_loop_eq: "strlen_loop s n = (if 0 \<in> set s then Some (n + length (str_of s)) else None)"
  by (induction s n rule: strlen_loop.induct) auto

lemma strlen_eq: "strlen s = (if 0 \<in> set s then Some (length (str_of s)) else None)"
  by (simp add: strlen_def strlen_loop_eq)

lemma str_of_append_0: "0 \<notin> set xs \<Longrightarrow> str_of (xs @ 0 # ys) = xs"
  by (induction xs) auto

lemma str_of_no_0: "0 \<notin> set (str_of s)"
  by (induction s) auto

lemma strcmp_eq:
  assumes "0 \<in> set s" "0 \<in> set t"
  shows "\<exists>r. strcmp s t = Some r \<and> (r = 0 \<longleftrightarrow> str_of s = str_of t)
    \<and> (r < 0 \<longleftrightarrow> (str_of s, str_of t) \<in> lexord {(a, b). a < b})"
  using assms
proof (induction s t rule: strcmp.induct)
  case (1 a s b t)
  show ?case
  proof (cases "a \<noteq> 0 \<and> a = b")
    case True
    then show ?thesis using 1 by auto
  next
    case False
    have u: "(uint a - uint b < 0) = (a < b)" "(uint a - uint b = 0) = (a = b)"
      by (simp_all add: word_less_def word_uint_eq_iff)
    show ?thesis using False u by (auto simp: word_gt_0)
  qed
qed auto

lemma strcasecmp_refl: "0 \<in> set s \<Longrightarrow> strcasecmp s s = Some 0"
  by (induction s) auto

lemma strcpy_eq: "strcpy ds s = (if 0 \<in> set s \<and> length (str_of s) < length ds
    then Some (str_of s @ 0 # drop (length (str_of s) + 1) ds) else None)"
  by (induction ds s rule: strcpy.induct) auto

lemma strcat_eq: "strcat ds s = (if 0 \<in> set ds \<and> 0 \<in> set s \<and> length (str_of ds) + length (str_of s) < length ds
    then Some (str_of ds @ str_of s @ 0 # drop (length (str_of ds) + length (str_of s) + 1) ds) else None)"
proof (induction ds s rule: strcat.induct)
  case (2 d ds s)
  then show ?case by (cases "d = 0") (auto simp: strcpy_eq simp del: strcpy.simps)
qed simp

lemma strncat_copy_eq: "0 \<in> set s \<Longrightarrow> strncat_copy ds s n = (if length (take n (str_of s)) < length ds
    then Some (take n (str_of s) @ 0 # drop (length (take n (str_of s)) + 1) ds) else None)"
  by (induction ds s n rule: strncat_copy.induct) auto

lemma strncat_eq: "0 \<in> set s \<Longrightarrow> strncat ds s n =
   (if 0 \<in> set ds \<and> length (str_of ds) + length (take n (str_of s)) < length ds
    then Some (str_of ds @ take n (str_of s) @ 0 # drop (length (str_of ds) + length (take n (str_of s)) + 1) ds)
    else None)"
proof (induction ds s n rule: strncat.induct)
  case (2 d ds s n)
  then show ?case by (cases "d = 0") (auto simp: strncat_copy_eq simp del: strncat_copy.simps)
qed simp

lemma strncpy_fill_eq:
  "strncpy_fill ds n = (if n \<le> length ds then Some (replicate n 0 @ drop n ds) else None)"
  by (induction ds n rule: strncpy_fill.induct) (auto simp: drop_Cons' replicate_Suc [symmetric] gr0_conv_Suc)

lemma strncpy_eq: "0 \<in> set s \<Longrightarrow> n \<le> length ds \<Longrightarrow> strncpy ds s n =
   (if length (str_of s) < n then Some (str_of s @ replicate (n - length (str_of s)) 0 @ drop n ds)
    else map_option ((@) (take n (str_of s))) (strncpy_fill (drop n ds) SIZE_MAX))"
proof (induction ds s n rule: strncpy.induct)
  case (1 ds s)
  then show ?case by (simp add: option.map_id [unfolded id_def] cong: option.map_cong)
next
  case (2 d ds c s n)
  show ?case
  proof (cases "c = 0")
    case True
    then show ?thesis using 2(3) by (simp add: strncpy_fill_eq)
  next
    case False
    then show ?thesis using 2 by (auto simp: option.map_comp comp_def)
  qed
qed auto

subsection \<open>Searching\<close>

lemma strstr_match_eq:
  "0 \<in> set h \<Longrightarrow> 0 \<in> set n \<Longrightarrow> strstr_match h n = Some (prefix (str_of n) (str_of h))"
  by (induction h n rule: strstr_match.induct) auto

lemma strstr_loop_eq:
  assumes "0 \<in> set h" "0 \<in> set n" "str_of n \<noteq> []"
  shows "case strstr_loop h n k of None \<Rightarrow> False
    | Some None \<Rightarrow> \<forall>j. \<not> prefix (str_of n) (drop j (str_of h))
    | Some (Some m) \<Rightarrow> \<exists>j. m = k + j \<and> prefix (str_of n) (drop j (str_of h))
        \<and> (\<forall>i < j. \<not> prefix (str_of n) (drop i (str_of h)))"
  using assms
proof (induction h n k rule: strstr_loop.induct)
  case (1 n k)
  then show ?case by simp
next
  case (2 c h n k)
  show ?case
  proof (cases "c = 0")
    case True
    then show ?thesis using 2 by simp
  next
    case False
    have m: "strstr_match (c # h) n = Some (prefix (str_of n) (str_of (c # h)))"
      using 2 by (intro strstr_match_eq) auto
    show ?thesis
    proof (cases "prefix (str_of n) (str_of (c # h))")
      case True
      then show ?thesis using m False by (auto intro!: exI [of _ 0])
    next
      case np: False
      have all: "(\<forall>j. \<not> prefix (str_of n) (drop j (str_of (c # h))))
          \<longleftrightarrow> (\<forall>j. \<not> prefix (str_of n) (drop j (str_of h)))"
        using np False by (auto simp: drop_Cons split: nat.splits)
      have "strstr_loop (c # h) n k = strstr_loop h n (k + 1)" using m np False by simp
      moreover have "case strstr_loop h n (k + 1) of None \<Rightarrow> False
        | Some None \<Rightarrow> \<forall>j. \<not> prefix (str_of n) (drop j (str_of h))
        | Some (Some m) \<Rightarrow> \<exists>j. m = k + 1 + j \<and> prefix (str_of n) (drop j (str_of h))
            \<and> (\<forall>i < j. \<not> prefix (str_of n) (drop i (str_of h)))"
        using 2 False m np by simp
      ultimately show ?thesis
      proof (cases "strstr_loop h n (k + 1)")
        case (Some r)
        show ?thesis
        proof (cases r)
          case None
          then show ?thesis using Some all \<open>strstr_loop (c # h) n k = _\<close>
            \<open>case strstr_loop h n (k + 1) of None \<Rightarrow> False | _ \<Rightarrow> _\<close> by simp
        next
          case s: (Some q)
          then obtain j where j: "q = k + 1 + j" "prefix (str_of n) (drop j (str_of h))"
            "\<forall>i < j. \<not> prefix (str_of n) (drop i (str_of h))"
            using Some \<open>case strstr_loop h n (k + 1) of None \<Rightarrow> False | _ \<Rightarrow> _\<close> by auto
          have "\<forall>i < Suc j. \<not> prefix (str_of n) (drop i (str_of (c # h)))"
            using j(3) np False by (auto simp: drop_Cons less_Suc_eq_0_disj split: nat.splits)
          then show ?thesis using Some s j False \<open>strstr_loop (c # h) n k = _\<close>
            by (auto intro!: exI [of _ "Suc j"])
        qed
      qed simp
    qed
  qed
qed

lemma in_set_eq: "0 \<in> set s \<Longrightarrow> c \<noteq> 0 \<Longrightarrow> in_set c s = Some (c \<in> set (str_of s))"
  by (induction c s rule: in_set.induct) auto

lemma strspn_loop_eq: "0 \<in> set s \<Longrightarrow> 0 \<in> set t \<Longrightarrow>
    strspn_loop s t k = Some (k + length (takeWhile (\<lambda>c. c \<in> set (str_of t)) (str_of s)))"
  by (induction s t k rule: strspn_loop.induct) (auto simp: in_set_eq)

lemma strcspn_loop_eq: "0 \<in> set s \<Longrightarrow> 0 \<in> set t \<Longrightarrow>
    strcspn_loop s t k = Some (k + length (takeWhile (\<lambda>c. c \<notin> set (str_of t)) (str_of s)))"
  by (induction s t k rule: strcspn_loop.induct) (auto simp: in_set_eq)

lemma strpbrk_loop_eq: "0 \<in> set s \<Longrightarrow> 0 \<in> set t \<Longrightarrow>
    strpbrk_loop s t k = Some (if \<exists>c \<in> set (str_of s). c \<in> set (str_of t)
      then Some (k + length (takeWhile (\<lambda>c. c \<notin> set (str_of t)) (str_of s))) else None)"
  by (induction s t k rule: strpbrk_loop.induct) (auto simp: in_set_eq)

subsection \<open>Tokens\<close>

text \<open>The non-empty fields between delimiter bytes.\<close>

function tokens :: "u8 set \<Rightarrow> u8 list \<Rightarrow> u8 list list" where
  "tokens D xs = (let w = dropWhile (\<lambda>c. c \<in> D) xs in
     if w = [] then [] else takeWhile (\<lambda>c. c \<notin> D) w # tokens D (dropWhile (\<lambda>c. c \<notin> D) w))"
  by pat_completeness auto
termination
proof (relation "measure (\<lambda>(D, xs). length xs)", goal_cases)
  case 1
  then show ?case by simp
next
  case (2 D xs w)
  then have "hd w \<notin> D" "w \<noteq> []" using hd_dropWhile [of "\<lambda>c. c \<in> D" xs] by auto
  then have "length (dropWhile (\<lambda>c. c \<notin> D) w) < length w"
    by (cases w) (auto simp: length_dropWhile_le less_Suc_eq_le)
  also have "\<dots> \<le> length xs" using 2 by (simp add: length_dropWhile_le)
  finally show ?case by simp
qed

declare tokens.simps [simp del]

lemma drop_str_of: "k \<le> length (str_of s) \<Longrightarrow> str_of (drop k s) = drop k (str_of s)"
proof (induction s arbitrary: k)
  case (Cons c s)
  then show ?case by (cases k; cases "c = 0") auto
qed simp

lemma drop_0_mem: "0 \<in> set s \<Longrightarrow> k \<le> length (str_of s) \<Longrightarrow> 0 \<in> set (drop k s)"
proof (induction s arbitrary: k)
  case (Cons c s)
  then show ?case by (cases k; cases "c = 0") auto
qed simp

lemma str_of_update:
  "0 \<in> set s \<Longrightarrow> k < length (str_of s) \<Longrightarrow> str_of (s[k := 0]) = take k (str_of s)"
proof (induction s arbitrary: k)
  case (Cons c s)
  then show ?case by (cases k; cases "c = 0") auto
qed simp

lemma length_str_of_less: "0 \<in> set s \<Longrightarrow> length (str_of s) < length s"
  by (induction s) auto

lemma strtok_none:
  "strtok st None delim = (case strtok_last st of None \<Rightarrow> Some (st, None) | Some l \<Rightarrow> strtok st (Some l) delim)"
  by (simp add: strtok_def split: option.split)

text \<open>One call: what it returns, what it leaves for the next call, and which bytes it keeps.\<close>

lemma strtok_step:
  fixes st p delim
  defines "D \<equiv> set (str_of delim)"
  defines "s \<equiv> str_of (drop p (tok_buf st))"
  defines "w \<equiv> dropWhile (\<lambda>c. c \<in> D) s"
  assumes b: "0 \<in> set (drop p (tok_buf st))" and d: "0 \<in> set delim"
  shows "if w = [] then strtok st (Some p) delim = Some (st\<lparr>strtok_last := None\<rparr>, None)
    else \<exists>st' q. strtok st (Some p) delim = Some (st', Some q) \<and> p \<le> q
      \<and> length (tok_buf st') = length (tok_buf st)
      \<and> str_of (drop q (tok_buf st')) = takeWhile (\<lambda>c. c \<notin> D) w
      \<and> 0 \<in> set (drop q (tok_buf st'))
      \<and> (\<forall>i < p. tok_buf st' ! i = tok_buf st ! i)
      \<and> (case strtok_last st' of None \<Rightarrow> dropWhile (\<lambda>c. c \<notin> D) w = []
         | Some l \<Rightarrow> dropWhile (\<lambda>c. c \<notin> D) w \<noteq> [] \<and> q + length (takeWhile (\<lambda>c. c \<notin> D) w) < l
             \<and> str_of (drop l (tok_buf st')) = tl (dropWhile (\<lambda>c. c \<notin> D) w)
             \<and> 0 \<in> set (drop l (tok_buf st')))"
proof -
  define a where "a = length (takeWhile (\<lambda>c. c \<in> D) s)"
  let ?B = "drop p (tok_buf st)"
  have al: "a \<le> length s" by (simp add: a_def length_takeWhile_le)
  have wd: "w = drop a s" by (simp add: w_def a_def dropWhile_eq_drop)
  have sp: "strspn ?B delim = Some a"
    using strspn_loop_eq [OF b d, of 0] by (simp add: strspn_def a_def D_def s_def)
  have b0: "0 \<in> set (drop a ?B)" using drop_0_mem [OF b] al by (simp add: s_def)
  have sw: "str_of (drop a ?B) = w" using drop_str_of [of a ?B] al unfolding s_def wd .
  have dd: "drop a ?B = drop (p + a) (tok_buf st)" by (simp add: add.commute)
  obtain c r where cr2: "drop a ?B = c # r" using b0 by (cases "drop a ?B") auto
  then have cr1: "drop (p + a) (tok_buf st) = c # r" unfolding dd .
  have swc: "str_of (c # r) = w" "0 \<in> set (c # r)" using sw b0 unfolding cr2 by blast+
  show ?thesis
  proof (cases "w = []")
    case True
    then have "c = 0" using swc(1) by (simp split: if_splits)
    then show ?thesis using True sp cr1 by (simp add: strtok_def)
  next
    case False
    then have c0: "c \<noteq> 0" using swc(1) by auto
    define e where "e = length (takeWhile (\<lambda>c. c \<notin> D) w)"
    have te: "takeWhile (\<lambda>c. c \<notin> D) w = take e w" "dropWhile (\<lambda>c. c \<notin> D) w = drop e w"
      unfolding e_def by (rule takeWhile_eq_take, rule dropWhile_eq_drop)
    have pb: "strpbrk (c # r) delim = Some (if \<exists>x \<in> set w. x \<in> D then Some e else None)"
      using strpbrk_loop_eq [OF swc(2) d, of 0] unfolding swc(1) by (simp add: strpbrk_def D_def e_def)
    show ?thesis
    proof (cases "\<exists>x \<in> set w. x \<in> D")
      case nd: False
      then have ee: "takeWhile (\<lambda>c. c \<notin> D) w = w" "dropWhile (\<lambda>c. c \<notin> D) w = []"
        by (auto simp: takeWhile_eq_all_conv)
      have "strtok st (Some p) delim = Some (st\<lparr>strtok_last := None\<rparr>, Some (p + a))"
        using sp cr1 c0 pb nd by (simp add: strtok_def)
      moreover have "str_of (drop (p + a) (tok_buf st)) = w" "0 \<in> set (drop (p + a) (tok_buf st))"
        unfolding cr1 using swc by simp_all
      ultimately show ?thesis using False by (simp add: ee)
    next
      case True
      let ?q = "p + a" let ?buf = "(tok_buf st)[p + a + e := 0]"
      let ?st = "st\<lparr>tok_buf := ?buf, strtok_last := Some (p + a + e + 1)\<rparr>"
      have r: "strtok st (Some p) delim = Some (?st, Some ?q)"
        using sp cr1 c0 pb True by (simp add: strtok_def)
      have el: "e < length w"
      proof -
        have "dropWhile (\<lambda>c. c \<notin> D) w \<noteq> []" using True by auto
        then show ?thesis using te(2) by (metis drop_all leI)
      qed
      have dq: "drop ?q ?buf = (drop a ?B)[e := 0]"
        by (simp add: drop_update_swap add.commute)
      have l1: "length (str_of (drop a ?B)) < length (drop a ?B)" by (rule length_str_of_less [OF b0])
      have dl: "drop (p + a + e + 1) ?buf = drop (e + 1) (drop a ?B)"
        by (simp add: add.commute add.left_commute)
      have t: "str_of (drop ?q ?buf) = take e w"
        unfolding dq using str_of_update [OF b0] el sw by simp
      have z: "0 \<in> set (drop ?q ?buf)"
        unfolding dq using el l1 sw by (simp add: set_update_memI)
      have "str_of (drop (e + 1) (drop a ?B)) = drop (e + 1) w" "0 \<in> set (drop (e + 1) (drop a ?B))"
        using drop_str_of [of "e + 1" "drop a ?B"] drop_0_mem [OF b0, of "e + 1"] el sw by simp_all
      then show ?thesis
        unfolding te using False r t z el dl by (auto simp: tl_drop drop_Suc intro!: exI [of _ ?st])
    qed
  qed
qed


text \<open>Calling \<open>strtok\<close> until it returns NULL, with fuel: the offsets of the tokens.\<close>

fun strtok_all :: "nat \<Rightarrow> tok_state \<Rightarrow> nat option \<Rightarrow> cstring \<Rightarrow> (tok_state \<times> nat list) option" where
  "strtok_all 0 st a delim = None"
| "strtok_all (Suc f) st a delim =
     (case strtok st a delim of
        None \<Rightarrow> None
      | Some (st', None) \<Rightarrow> Some (st', [])
      | Some (st', Some q) \<Rightarrow>
          (case strtok_all f st' None delim of None \<Rightarrow> None | Some (st'', qs) \<Rightarrow> Some (st'', q # qs)))"

lemma strtok_None_end: "strtok_last st = None \<Longrightarrow> strtok st None delim = Some (st, None)"
  by (simp add: strtok_def)

lemma take_str_of: "0 \<in> set s \<Longrightarrow> take (Suc (length (str_of s))) s = str_of s @ [0]"
  by (induction s) auto

lemma str_of_prefix_eq:
  assumes "length b = length c" "0 \<in> set (drop q b)" "\<forall>i \<le> q + length (str_of (drop q b)). c ! i = b ! i"
  shows "str_of (drop q c) = str_of (drop q b)"
proof -
  let ?n = "length (str_of (drop q b))"
  have n: "?n < length (drop q b)" by (rule length_str_of_less [OF assms(2)])
  have e: "take (Suc ?n) (drop q c) = take (Suc ?n) (drop q b)"
    using n assms(1,3) by (intro nth_equalityI) auto
  have "take (Suc ?n) (drop q c) = str_of (drop q b) @ [0]"
    unfolding e by (rule take_str_of [OF assms(2)])
  then have "drop q c = str_of (drop q b) @ 0 # drop (Suc ?n) (drop q c)"
    by (metis append.assoc append_Cons append_Nil append_take_drop_id)
  then show ?thesis by (metis str_of_append_0 str_of_no_0)
qed

lemma tokens_skip: "c \<in> D \<Longrightarrow> tokens D (c # xs) = tokens D xs"
  by (simp add: tokens.simps [of D "c # xs"] tokens.simps [of D xs])

lemma tokens_Nil: "tokens D [] = []"
  by (simp add: tokens.simps)

lemma strtok_all_ok:
  assumes "0 \<in> set (drop p (tok_buf st))" "0 \<in> set delim"
    "length (tokens (set (str_of delim)) (str_of (drop p (tok_buf st)))) < f"
    "a = Some p \<or> (a = None \<and> strtok_last st = Some p)"
  shows "\<exists>st' qs. strtok_all f st a delim = Some (st', qs)
    \<and> map (\<lambda>q. str_of (drop q (tok_buf st'))) qs = tokens (set (str_of delim)) (str_of (drop p (tok_buf st)))
    \<and> (\<forall>i < p. tok_buf st' ! i = tok_buf st ! i) \<and> length (tok_buf st') = length (tok_buf st)"
  using assms
proof (induction f arbitrary: st p a)
  case 0
  then show ?case by simp
next
  case (Suc f)
  let ?D = "set (str_of delim)"
  define s where "s = str_of (drop p (tok_buf st))"
  define w where "w = dropWhile (\<lambda>c. c \<in> ?D) s"
  have call: "strtok st a delim = strtok st (Some p) delim"
    using Suc.prems(4) by (auto simp: strtok_none)
  note step = strtok_step [OF Suc.prems(1,2), folded s_def, folded w_def]
  have tk: "tokens ?D s = (if w = [] then [] else takeWhile (\<lambda>c. c \<notin> ?D) w # tokens ?D (dropWhile (\<lambda>c. c \<notin> ?D) w))"
    by (simp add: tokens.simps [of ?D s] w_def Let_def)
  show ?case
  proof (cases "w = []")
    case True
    then show ?thesis using step call tk by (auto simp: s_def)
  next
    case False
    let ?t = "takeWhile (\<lambda>c. c \<notin> ?D) w" let ?r = "dropWhile (\<lambda>c. c \<notin> ?D) w"
    from step False obtain st1 q where o: "strtok st (Some p) delim = Some (st1, Some q)" "p \<le> q"
      "length (tok_buf st1) = length (tok_buf st)" "str_of (drop q (tok_buf st1)) = ?t"
      "0 \<in> set (drop q (tok_buf st1))" "\<forall>i < p. tok_buf st1 ! i = tok_buf st ! i"
      and l: "case strtok_last st1 of None \<Rightarrow> ?r = [] | Some l \<Rightarrow> ?r \<noteq> [] \<and> q + length ?t < l
             \<and> str_of (drop l (tok_buf st1)) = tl ?r \<and> 0 \<in> set (drop l (tok_buf st1))" by auto
    have fl: "length (tokens ?D ?r) < f" using Suc.prems(3) tk False by (simp add: s_def)
    show ?thesis
    proof (cases "strtok_last st1")
      case None
      then have "?r = []" using l by (simp only: option.case)
      then have "tokens ?D ?r = []" by (simp only: tokens_Nil)
      moreover obtain g where "f = Suc g" using fl by (cases f) auto
      ultimately show ?thesis
        using None o call tk False strtok_None_end [OF None] by (simp add: s_def)
    next
      case (Some l)
      then have r: "?r \<noteq> []" "q + length ?t < l" "str_of (drop l (tok_buf st1)) = tl ?r"
        "0 \<in> set (drop l (tok_buf st1))" using l by auto
      have hr: "hd ?r \<in> ?D" using hd_dropWhile [OF r(1)] by simp
      have tr: "tokens ?D ?r = tokens ?D (tl ?r)"
        using tokens_skip [OF hr, of "tl ?r"] r(1) by simp
      from Suc.IH [OF r(4) Suc.prems(2), of None] r(3) fl Some tr obtain st2 qs where
        i: "strtok_all f st1 None delim = Some (st2, qs)"
        "map (\<lambda>q. str_of (drop q (tok_buf st2))) qs = tokens ?D (tl ?r)"
        "\<forall>i < l. tok_buf st2 ! i = tok_buf st1 ! i" "length (tok_buf st2) = length (tok_buf st1)" by auto
      have "str_of (drop q (tok_buf st2)) = str_of (drop q (tok_buf st1))"
        using i(3,4) o(4,5) r(2) by (intro str_of_prefix_eq) auto
      then have q: "str_of (drop q (tok_buf st2)) = ?t" using o(4) by simp
      have "\<forall>i < p. tok_buf st2 ! i = tok_buf st ! i" using i(3) o(2,6) r(2) by auto
      then show ?thesis using i q o(1,3) call tk False tr by (simp add: s_def)
    qed
  qed
qed

subsection \<open>Properties\<close>

text \<open>
  On two terminated strings \<open>strcmp\<close> stays inside the buffers, returns 0 exactly when the strings
  are equal, and a negative number exactly when the first is lexicographically smaller by
  unsigned bytes; so does \<open>strlen\<close> return the number of bytes before the terminator.
\<close>

theorem strcmp_spec:
  assumes "0 \<in> set s" and "0 \<in> set t"
  shows "strlen s = Some (length (str_of s)) \<and> (\<exists>r. strcmp s t = Some r \<and> (r = 0 \<longleftrightarrow> str_of s = str_of t)
    \<and> (r < 0 \<longleftrightarrow> (str_of s, str_of t) \<in> lexord {(a, b). a < b}))"
  using strcmp_eq [OF assms] assms(1) by (simp add: strlen_eq)

lemma strcmp_spec_witness: "\<exists>r. strcmp [97, 200, 0] [97, 98, 0] = Some r \<and> r > 0"
proof -
  have "0 \<in> set [97, 200, 0 :: u8]" "0 \<in> set [97, 98, 0 :: u8]" by simp_all
  from strcmp_spec [OF this] show ?thesis by auto
qed

text \<open>
  On terminated strings \<open>strstr\<close> returns the first offset at which the needle occurs in the
  haystack, NULL when it does not occur, and offset 0 for the empty needle.
\<close>

theorem strstr_spec:
  assumes "0 \<in> set h" and "0 \<in> set n"
  shows "case strstr h n of None \<Rightarrow> False
    | Some None \<Rightarrow> \<forall>j. \<not> prefix (str_of n) (drop j (str_of h))
    | Some (Some k) \<Rightarrow> prefix (str_of n) (drop k (str_of h)) \<and> (\<forall>i < k. \<not> prefix (str_of n) (drop i (str_of h)))"
proof (cases "str_of n = []")
  case True
  then obtain ns where "n = 0 # ns" using assms(2) by (cases n) (auto split: if_splits)
  then show ?thesis by (simp add: strstr_def)
next
  case False
  then obtain c ns where "n = c # ns" "c \<noteq> 0" by (cases n) (auto split: if_splits)
  then have "strstr h n = strstr_loop h n 0" by (simp add: strstr_def)
  with strstr_loop_eq [OF assms False, of 0] show ?thesis by (auto split: option.splits)
qed

lemma strstr_spec_witness: "strstr [1, 2, 2, 3, 0] [2, 3, 0] = Some (Some 2)
  \<and> \<not> prefix (str_of [2, 3, 0]) (drop 1 (str_of [1, 2, 2, 3, 0 :: u8]))"
proof -
  have r: "strstr [1, 2, 2, 3, 0] [2, 3, 0] = Some (Some 2)" by (simp add: strstr_def)
  have "0 \<in> set [1, 2, 2, 3, 0 :: u8]" "0 \<in> set [2, 3, 0 :: u8]" by simp_all
  from strstr_spec [OF this]
  have "\<forall>i < 2. \<not> prefix (str_of [2, 3, 0]) (drop i (str_of [1, 2, 2, 3, 0 :: u8]))" unfolding r by simp
  from spec [OF this, of 1] show ?thesis using r by simp
qed

text \<open>
  \<open>strncpy\<close> with a source shorter than \<open>n\<close> copies it and fills up to \<open>n\<close> bytes with NUL, as
  specified. With a source of \<open>n\<close> bytes or more its counter wraps, and it goes on to write
  \<open>2 ^ 32 - 1\<close> NUL bytes behind the copy: it leaves every destination smaller than that.
\<close>

theorem strncpy_spec:
  assumes "0 \<in> set s" and "n \<le> length ds"
  shows "(length (str_of s) < n \<longrightarrow>
      strncpy ds s n = Some (str_of s @ replicate (n - length (str_of s)) 0 @ drop n ds))
    \<and> (n \<le> length (str_of s) \<and> length ds < n + SIZE_MAX \<longrightarrow> strncpy ds s n = None)"
proof (intro conjI impI)
  assume "length (str_of s) < n"
  then show "strncpy ds s n = Some (str_of s @ replicate (n - length (str_of s)) 0 @ drop n ds)"
    using strncpy_eq [OF assms] by simp
next
  assume a: "n \<le> length (str_of s) \<and> length ds < n + SIZE_MAX"
  then have "\<not> SIZE_MAX \<le> length (drop n ds)" using assms(2) unfolding length_drop by linarith
  then have "strncpy_fill (drop n ds) SIZE_MAX = None" by (simp add: strncpy_fill_eq)
  then show "strncpy ds s n = None" using strncpy_eq [OF assms] a by simp
qed

lemma strncpy_spec_witness:
  "strncpy [9, 9, 9, 9] [1, 2, 0] 3 = Some [1, 2, 0, 9] \<and> strncpy [9, 9, 9, 9] [1, 2, 3, 0] 3 = None"
proof -
  have a: "0 \<in> set [1, 2, 0 :: u8]" "0 \<in> set [1, 2, 3, 0 :: u8]" "3 \<le> length [9, 9, 9, 9 :: u8]" by simp_all
  show ?thesis
    using strncpy_spec [OF a(1,3)] strncpy_spec [OF a(2,3)] by (simp add: SIZE_MAX_def)
qed

text \<open>
  \<open>strncat\<close> appends at most \<open>n\<close> bytes of the source to the string in the destination and
  always terminates it, keeping the bytes behind; it leaves the buffer exactly when the result
  does not fit. \<open>strcat\<close> is the case without bound.
\<close>

theorem strncat_spec:
  assumes "0 \<in> set s" and "0 \<in> set ds"
  shows "strncat ds s n = (let r = str_of ds @ take n (str_of s) in
      if length r < length ds then Some (r @ 0 # drop (length r + 1) ds) else None)
    \<and> strcat ds s = (let r = str_of ds @ str_of s in
      if length r < length ds then Some (r @ 0 # drop (length r + 1) ds) else None)"
  using assms by (simp add: strncat_eq strcat_eq Let_def)

lemma strncat_spec_witness: "strncat [7, 0, 9, 9] [1, 2, 3, 0] 2 = Some [7, 1, 2, 0]"
proof -
  have "0 \<in> set [1, 2, 3, 0 :: u8]" "0 \<in> set [7, 0, 9, 9 :: u8]" by simp_all
  moreover have "str_of [7, 0, 9, 9] = [7]" "str_of [1, 2, 3, 0] = [1, 2, 3]" by simp_all
  ultimately show ?thesis using strncat_spec [of "[1, 2, 3, 0]" "[7, 0, 9, 9]" 2]
    unfolding Let_def by (simp del: strncat.simps strcat.simps str_of_simps)
qed

text \<open>
  Calling \<open>strtok\<close> on a terminated string and then with NULL until it returns NULL ends, and the
  tokens it returned are exactly the non-empty fields between delimiter bytes, in order, each
  terminated in the buffer.
\<close>

theorem strtok_spec:
  assumes "0 \<in> set (drop p (tok_buf st))" and "0 \<in> set delim"
    and "length (str_of (drop p (tok_buf st))) < f"
  shows "\<exists>st' qs. strtok_all f st (Some p) delim = Some (st', qs)
    \<and> map (\<lambda>q. str_of (drop q (tok_buf st'))) qs = tokens (set (str_of delim)) (str_of (drop p (tok_buf st)))"
proof -
  have "length (tokens D xs) \<le> length xs" for D xs
  proof (induction D xs rule: tokens.induct)
    case (1 D xs)
    let ?w = "dropWhile (\<lambda>c. c \<in> D) xs"
    show ?case
    proof (cases "?w = []")
      case False
      then have "length (dropWhile (\<lambda>c. c \<notin> D) ?w) < length ?w"
        using hd_dropWhile [of "\<lambda>c. c \<in> D" xs]
        by (cases ?w) (auto simp: length_dropWhile_le less_Suc_eq_le)
      moreover have "length ?w \<le> length xs" by (rule length_dropWhile_le)
      moreover have "length (tokens D (dropWhile (\<lambda>c. c \<notin> D) ?w)) \<le> length (dropWhile (\<lambda>c. c \<notin> D) ?w)"
        using 1 [OF refl False] by simp
      moreover have "tokens D xs = takeWhile (\<lambda>c. c \<notin> D) ?w # tokens D (dropWhile (\<lambda>c. c \<notin> D) ?w)"
        using False by (subst tokens.simps) (simp only: Let_def if_False)
      ultimately show ?thesis by simp
    qed (simp add: tokens.simps [of D xs] Let_def)
  qed
  then have "length (tokens (set (str_of delim)) (str_of (drop p (tok_buf st)))) < f"
    using assms(3) order_le_less_trans by blast
  from strtok_all_ok [OF assms(1,2) this, of "Some p"] show ?thesis by blast
qed

lemma strtok_spec_witness:
  "\<exists>st' qs. strtok_all 9 \<lparr>tok_buf = [32, 97, 98, 32, 32, 99, 0], strtok_last = None\<rparr> (Some 0) [32, 0] = Some (st', qs)
    \<and> length qs = length (tokens {32} [32, 97, 98, 32, 32, 99])"
proof -
  let ?st = "\<lparr>tok_buf = [32, 97, 98, 32, 32, 99, 0], strtok_last = None\<rparr>"
  have "0 \<in> set (drop 0 (tok_buf ?st))" "0 \<in> set [32, 0 :: u8]"
    "length (str_of (drop 0 (tok_buf ?st))) < 9" by simp_all
  from strtok_spec [OF this] show ?thesis by (auto dest!: arg_cong [of _ _ length])
qed

text \<open>
  \<open>strchr\<close> and \<open>strrchr\<close> never find a byte of 128 or more that is passed as its unsigned value,
  although the string holds it, since \<^verbatim>\<open>char\<close> is signed and the argument is not converted.
\<close>

theorem strchr_high_byte:
  "strchr [0xE9, 0] 0xE9 = Some None \<and> strrchr [0xE9, 0] 0xE9 = Some None
   \<and> strchr [0xE9, 0] (0xE9 - 256) = Some (Some 0)"
  by (simp add: strchr_def strrchr_def)

end
