(* ===== verification/Numconv.thy ===== *)
theory Numconv
  imports Cstring "HOL-Library.Signed_Division"
begin

text \<open>
  Number conversion and the small arithmetic helpers of \<^verbatim>\<open>kernel/stdlib/stdlib.c\<close>. On i686
  \<^verbatim>\<open>int\<close> and \<^verbatim>\<open>long\<close> have 32 bits and \<^verbatim>\<open>long long\<close> 64. Signed arithmetic that overflows
  is undefined, \<open>None\<close>, and so is writing past a local buffer. A conversion to text returns the
  bytes it writes to the caller's buffer, the terminator included.
\<close>

subsection \<open>Printing\<close>

text \<open>The digit loop, least digit first: \<^verbatim>\<open>do ... while (value > 0)\<close>.\<close>

function rev_digits :: "nat \<Rightarrow> nat \<Rightarrow> nat list" where
  "rev_digits b v = (if b < 2 then [] else v mod b # (if 0 < v div b then rev_digits b (v div b) else []))"
  by pat_completeness auto
termination
  by (relation "measure snd") (auto simp: div_greater_zero_iff intro!: div_less_dividend)

text \<open>The loop of the hexadecimal variants, by mask and shift.\<close>

function rev_hex :: "nat \<Rightarrow> nat list" where
  "rev_hex v = (v AND 15) # (if drop_bit 4 v \<noteq> 0 then rev_hex (drop_bit 4 v) else [])"
  by pat_completeness auto
termination
proof (relation "measure id")
  fix v :: nat assume "drop_bit 4 v \<noteq> 0"
  then have "v div 16 \<noteq> 0" by (simp add: drop_bit_eq_div)
  then show "(drop_bit 4 v, v) \<in> measure id" by (simp add: drop_bit_eq_div)
qed simp

declare rev_digits.simps [simp del] rev_hex.simps [simp del]

definition digit_table :: cstring where
  "digit_table = map word_of_nat ([48..<58] @ [97..<123])"

definition digit_char :: "nat \<Rightarrow> u8" where
  "digit_char d = word_of_nat (48 + d)"

text \<open>A buffer of \<open>n\<close> bytes filled with \<open>b\<close>, then copied out backwards and terminated.\<close>

definition emit :: "nat \<Rightarrow> u8 list \<Rightarrow> cstring option" where
  "emit n b = (if length b \<le> n then Some (rev b @ [0]) else None)"

definition kitoa :: "int \<Rightarrow> cstring option" where
  "kitoa value =
     (if value < 0 then
        (if value = - (2 ^ 31) then None
         else emit 12 (map digit_char (rev_digits 10 (nat (- value))) @ [45]))
      else emit 12 (map digit_char (rev_digits 10 (nat value))))"

definition kutoa :: "nat \<Rightarrow> cstring option" where
  "kutoa value = emit 11 (map digit_char (rev_digits 10 value))"

definition utoa_hex :: "nat \<Rightarrow> cstring option" where
  "utoa_hex value = emit 9 (map ((!) digit_table) (rev_digits 16 value))"

definition ltoa :: "int \<Rightarrow> cstring option" where
  "ltoa value =
     (if value < 0 then
        (if value = - (2 ^ 31) then None
         else map_option ((#) 45) (emit 20 (map digit_char (rev_digits 10 (nat (- value))))))
      else emit 20 (map digit_char (rev_digits 10 (nat value))))"

definition ultoa :: "nat \<Rightarrow> cstring option" where
  "ultoa value = emit 20 (map digit_char (rev_digits 10 value))"

definition ultoa_hex :: "nat \<Rightarrow> cstring option" where
  "ultoa_hex value = emit 16 (map ((!) digit_table) (rev_hex value))"

definition lltoa :: "int \<Rightarrow> cstring option" where
  "lltoa value =
     (if value < 0 then
        (if value = - (2 ^ 63) then None
         else map_option ((#) 45) (emit 32 (map digit_char (rev_digits 10 (nat (- value))))))
      else emit 32 (map digit_char (rev_digits 10 (nat value))))"

definition ulltoa :: "nat \<Rightarrow> cstring option" where
  "ulltoa value = emit 32 (map digit_char (rev_digits 10 value))"

definition ulltoa_hex :: "nat \<Rightarrow> cstring option" where
  "ulltoa_hex value = emit 16 (map ((!) digit_table) (rev_hex value))"

text \<open>In the variants with a base the loop does not run for a value that is not positive.\<close>

definition base_digits :: "int \<Rightarrow> int \<Rightarrow> u8 list" where
  "base_digits value base =
     (if value = 0 then [48]
      else if 0 < value then map ((!) digit_table) (rev_digits (nat base) (nat value)) else [])"

definition itoa_base :: "int \<Rightarrow> int \<Rightarrow> cstring option" where
  "itoa_base value base =
     (if base < 2 \<or> 36 < base then Some [0]
      else if value < 0 \<and> base = 10 then
        (if value = - (2 ^ 31) then None else emit 65 (base_digits (- value) base @ [45]))
      else emit 65 (base_digits value base))"

definition utoa_base :: "nat \<Rightarrow> int \<Rightarrow> cstring option" where
  "utoa_base value base =
     (if base < 2 \<or> 36 < base then Some [0] else emit 65 (base_digits (int value) base))"

subsection \<open>Parsing\<close>

fun skip_blank :: "cstring \<Rightarrow> cstring option" where
  "skip_blank [] = None"
| "skip_blank (c # s) = (if c = 32 \<or> c = 9 \<or> c = 10 \<or> c = 13 then skip_blank s else Some (c # s))"

text \<open>The digit loop; \<open>mx\<close> is the largest value of the result type.\<close>

fun parse_digits :: "int \<Rightarrow> cstring \<Rightarrow> int \<Rightarrow> int option" where
  "parse_digits mx [] r = None"
| "parse_digits mx (c # s) r =
     (if 48 \<le> c \<and> c \<le> 57 then
        (let r' = r * 10 + (uint c - 48) in if r' \<le> mx then parse_digits mx s r' else None)
      else Some r)"

definition parse_int :: "int \<Rightarrow> cstring \<Rightarrow> int option" where
  "parse_int mx s =
     (case skip_blank s of
        None \<Rightarrow> None
      | Some [] \<Rightarrow> None
      | Some (c # t) \<Rightarrow>
          (if c = 45 then map_option uminus (parse_digits mx t 0)
           else if c = 43 then parse_digits mx t 0
           else parse_digits mx (c # t) 0))"

definition atoi :: "cstring \<Rightarrow> int option" where
  "atoi s = parse_int (2 ^ 31 - 1) s"

definition atol :: "cstring \<Rightarrow> int option" where
  "atol s = parse_int (2 ^ 31 - 1) s"

definition atoll :: "cstring \<Rightarrow> int option" where
  "atoll s = parse_int (2 ^ 63 - 1) s"

subsection \<open>Arithmetic helpers\<close>

definition in_int :: "int \<Rightarrow> bool" where
  "in_int x \<longleftrightarrow> - (2 ^ 31) \<le> x \<and> x < 2 ^ 31"

definition map_range :: "int \<Rightarrow> int \<Rightarrow> int \<Rightarrow> int \<Rightarrow> int \<Rightarrow> int option" where
  "map_range input in_min in_max out_min out_max =
     (if in_max = in_min then Some out_min
      else
        let a = input - in_min; b = out_max - out_min; den = in_max - in_min in
        if \<not> in_int a \<or> \<not> in_int b \<or> \<not> in_int (a * b) \<or> \<not> in_int den then None
        else let q = (a * b) sdiv den in
          if \<not> in_int q \<or> \<not> in_int (out_min + q) then None else Some (out_min + q))"

definition clamp :: "int \<Rightarrow> int \<Rightarrow> int \<Rightarrow> int" where
  "clamp v mn mx = (if v < mn then mn else if mx < v then mx else v)"

definition c_abs :: "int \<Rightarrow> int option" where
  "c_abs n = (if n < 0 then (if n = - (2 ^ 31) then None else Some (- n)) else Some n)"

definition llabs :: "int \<Rightarrow> int option" where
  "llabs n = (if n < 0 then (if n = - (2 ^ 63) then None else Some (- n)) else Some n)"

text \<open>The generator's state is the static \<^verbatim>\<open>next\<close>.\<close>

definition srand :: "nat \<Rightarrow> nat" where
  "srand seed = seed"

definition rand :: "nat \<Rightarrow> nat \<times> nat" where
  "rand nxt = (let n = w32 (nxt * 1103515245 + 12345) in (n, (n div 65536) mod 32768))"

subsection \<open>Digits and their value\<close>

definition value_of :: "nat \<Rightarrow> nat list \<Rightarrow> nat" where
  "value_of b ds = foldl (\<lambda>a d. a * b + d) 0 ds"

lemma foldl_value: "foldl (\<lambda>a d. a * b + d) acc ds = acc * b ^ length ds + value_of b ds" for acc :: nat
proof (induction ds arbitrary: acc)
  case (Cons d ds)
  show ?case using Cons [of "acc * b + d"] Cons [of d]
    by (simp add: value_of_def algebra_simps)
qed (simp add: value_of_def)

lemma value_of_snoc: "value_of b (ds @ [d]) = value_of b ds * b + d"
  by (simp add: value_of_def)

lemma rev_digits_value:
  assumes "2 \<le> b"
  shows "value_of b (rev (rev_digits b v)) = v \<and> (\<forall>d \<in> set (rev_digits b v). d < b) \<and> rev_digits b v \<noteq> []
    \<and> (0 < v \<longrightarrow> last (rev_digits b v) \<noteq> 0)"
  using assms
proof (induction b v rule: rev_digits.induct)
  case (1 b v)
  show ?case
  proof (cases "0 < v div b")
    case True
    have e: "rev_digits b v = v mod b # rev_digits b (v div b)"
      using 1(2) True by (subst rev_digits.simps) simp
    have ih: "value_of b (rev (rev_digits b (v div b))) = v div b" "\<forall>d \<in> set (rev_digits b (v div b)). d < b"
      "rev_digits b (v div b) \<noteq> []" "last (rev_digits b (v div b)) \<noteq> 0"
      using 1(1) [OF _ True 1(2)] 1(2) True by simp_all
    show ?thesis unfolding e using ih 1(2) by (simp add: value_of_snoc)
  next
    case False
    then have "v < b" using 1(2) by (auto simp: div_greater_zero_iff)
    moreover have "rev_digits b v = [v mod b]"
      using 1(2) False by (subst rev_digits.simps) simp
    ultimately show ?thesis by (simp add: value_of_def)
  qed
qed

lemma rev_digits_length:
  "2 \<le> b \<Longrightarrow> v < b ^ n \<Longrightarrow> 0 < n \<Longrightarrow> length (rev_digits b v) \<le> n"
proof (induction n arbitrary: v)
  case (Suc n)
  show ?case
  proof (cases "0 < v div b")
    case True
    have "v div b < b ^ n" using Suc.prems by (simp add: less_mult_imp_div_less mult.commute)
    moreover have "0 < n"
    proof (rule ccontr)
      assume "\<not> 0 < n"
      then show False using True Suc.prems by (simp add: div_greater_zero_iff)
    qed
    ultimately have "length (rev_digits b (v div b)) \<le> n" using Suc by simp
    then show ?thesis by (subst rev_digits.simps) simp
  qed (subst rev_digits.simps, simp)
qed simp

lemma rev_hex_eq: "rev_hex v = rev_digits 16 v"
proof (induction v rule: rev_hex.induct)
  case (1 v)
  have a: "v AND 15 = v mod 16"
    using take_bit_eq_mask [of 4 v] by (simp add: take_bit_eq_mod mask_eq_exp_minus_1)
  then show ?case
    using 1 by (simp add: rev_hex.simps [of v] rev_digits.simps [of 16 v] drop_bit_eq_div)
qed

lemma emit_ok: "length b \<le> n \<Longrightarrow> emit n b = Some (rev b @ [0])"
  by (simp add: emit_def)

subsection \<open>Parsing what was printed\<close>

lemma digit_char_unat: "d < 10 \<Longrightarrow> unat (digit_char d) = 48 + d"
  unfolding digit_char_def by (subst unsigned_of_nat) (simp add: take_bit_nat_eq_self)

lemma digit_char_props:
  assumes "d < 10"
  shows "48 \<le> digit_char d" "digit_char d \<le> 57" "uint (digit_char d) = 48 + int d"
proof -
  show "48 \<le> digit_char d" "digit_char d \<le> 57"
    using digit_char_unat [OF assms] assms by (simp_all add: word_le_nat_alt)
  show "uint (digit_char d) = 48 + int d"
    using digit_char_unat [OF assms] by (metis of_nat_add of_nat_numeral uint_nat)
qed

lemma parse_digits_ok:
  assumes "\<forall>d \<in> set ds. d < 10" "int (acc * 10 ^ length ds + value_of 10 ds) \<le> mx"
  shows "parse_digits mx (map digit_char ds @ [0]) (int acc) = Some (int (acc * 10 ^ length ds + value_of 10 ds))"
  using assms
proof (induction ds arbitrary: acc)
  case Nil
  then show ?case by (simp add: value_of_def)
next
  case (Cons d ds)
  have v: "acc * 10 ^ length (d # ds) + value_of 10 (d # ds) = (acc * 10 + d) * 10 ^ length ds + value_of 10 ds"
    using foldl_value [where b = 10 and acc = "d" and ds = ds]
    by (simp add: value_of_def algebra_simps)
  have "acc * 10 + d \<le> (acc * 10 + d) * 10 ^ length ds + value_of 10 ds"
    by (simp add: trans_le_add1)
  then have le: "int (acc * 10 + d) \<le> mx" using Cons.prems(2) v by linarith
  have p: "48 \<le> digit_char d" "digit_char d \<le> 57" "int acc * 10 + (uint (digit_char d) - 48) = int (acc * 10 + d)"
    using digit_char_props [of d] Cons.prems(1) by simp_all
  have "parse_digits mx (map digit_char (d # ds) @ [0]) (int acc)
      = parse_digits mx (map digit_char ds @ [0]) (int (acc * 10 + d))"
    using le by (simp only: list.map append_Cons parse_digits.simps p Let_def if_True simp_thms)
  moreover have "int ((acc * 10 + d) * 10 ^ length ds + value_of 10 ds) \<le> mx"
    using Cons.prems(2) unfolding v .
  ultimately show ?case unfolding v using Cons.IH [of "acc * 10 + d"] Cons.prems(1) by simp
qed

lemma parse_int_digits:
  assumes "\<forall>d \<in> set ds. d < 10" "ds \<noteq> []" "int (value_of 10 ds) \<le> mx"
  shows "parse_int mx (map digit_char ds @ [0]) = Some (int (value_of 10 ds))"
    "parse_int mx (45 # map digit_char ds @ [0]) = Some (- int (value_of 10 ds))"
proof -
  have pd: "parse_digits mx (map digit_char ds @ [0]) 0 = Some (int (value_of 10 ds))"
    using parse_digits_ok [of ds 0 mx] assms by simp
  then show "parse_int mx (45 # map digit_char ds @ [0]) = Some (- int (value_of 10 ds))"
    by (simp add: parse_int_def)
  obtain d es where d: "ds = d # es" using assms(2) by (cases ds) auto
  have u: "unat (digit_char d) = 48 + d" using digit_char_unat assms(1) d by simp
  have ne: "digit_char d \<noteq> c" if "unat c < 48" for c
    using u that by auto
  have "digit_char d \<noteq> 32 \<and> digit_char d \<noteq> 9 \<and> digit_char d \<noteq> 10 \<and> digit_char d \<noteq> 13
      \<and> digit_char d \<noteq> 45 \<and> digit_char d \<noteq> 43"
    by (intro conjI ne) simp_all
  then show "parse_int mx (map digit_char ds @ [0]) = Some (int (value_of 10 ds))"
    using pd by (simp add: parse_int_def d del: parse_digits.simps)
qed

lemma dec_digits:
  assumes "v < 10 ^ n" "0 < n"
  shows "\<forall>d \<in> set (rev (rev_digits 10 v)). d < 10" "rev (rev_digits 10 v) \<noteq> []"
    "value_of 10 (rev (rev_digits 10 v)) = v" "length (rev_digits 10 v) \<le> n"
  using rev_digits_value [of 10 v] rev_digits_length [of 10 v n] assms by simp_all

subsection \<open>Properties\<close>

text \<open>
  Every value but the least of its type survives printing and parsing: \<open>atoi\<close> reads back what
  \<open>kitoa\<close> and \<open>ltoa\<close> print and \<open>atoll\<close> what \<open>lltoa\<close> prints, no local buffer overflows, and the
  negation of the least value is undefined.
\<close>

theorem print_parse_roundtrip:
  "(\<forall>v. - (2 ^ 31) < v \<and> v < 2 ^ 31 \<longrightarrow> (\<exists>s t. kitoa v = Some s \<and> atoi s = Some v \<and> ltoa v = Some t \<and> atol t = Some v))
   \<and> (\<forall>v. - (2 ^ 63) < v \<and> v < 2 ^ 63 \<longrightarrow> (\<exists>s. lltoa v = Some s \<and> atoll s = Some v))
   \<and> kitoa (- (2 ^ 31)) = None \<and> ltoa (- (2 ^ 31)) = None \<and> lltoa (- (2 ^ 63)) = None"
proof (intro conjI allI impI)
  fix v :: int assume v: "- (2 ^ 31) < v \<and> v < 2 ^ 31"
  define m where "m = nat \<bar>v\<bar>"
  have b: "m < 10 ^ 10" "int m \<le> 2 ^ 31 - 1" using v by (auto simp: m_def)
  note d = dec_digits [OF b(1) zero_less_numeral]
  note p = parse_int_digits [OF d(1,2), of "2 ^ 31 - 1", unfolded d(3), OF b(2)]
  show "\<exists>s t. kitoa v = Some s \<and> atoi s = Some v \<and> ltoa v = Some t \<and> atol t = Some v"
  proof (cases "v < 0")
    case True
    then have m: "nat (- v) = m" "v = - int m" by (simp_all add: m_def)
    then show ?thesis using True v d(4) p(2)
      by (simp add: kitoa_def ltoa_def atoi_def atol_def emit_ok rev_map)
  next
    case False
    then have m: "nat v = m" "v = int m" by (simp_all add: m_def)
    then show ?thesis using False d(4) p(1)
      by (simp add: kitoa_def ltoa_def atoi_def atol_def emit_ok rev_map)
  qed
next
  fix v :: int assume v: "- (2 ^ 63) < v \<and> v < 2 ^ 63"
  define m where "m = nat \<bar>v\<bar>"
  have b: "m < 10 ^ 20" "int m \<le> 2 ^ 63 - 1" using v by (auto simp: m_def)
  note d = dec_digits [OF b(1) zero_less_numeral]
  note p = parse_int_digits [OF d(1,2), of "2 ^ 63 - 1", unfolded d(3), OF b(2)]
  show "\<exists>s. lltoa v = Some s \<and> atoll s = Some v"
  proof (cases "v < 0")
    case True
    then have m: "nat (- v) = m" "v = - int m" by (simp_all add: m_def)
    then show ?thesis using True v d(4) p(2)
      by (simp add: lltoa_def atoll_def emit_ok rev_map)
  next
    case False
    then have m: "nat v = m" "v = int m" by (simp_all add: m_def)
    then show ?thesis using False d(4) p(1)
      by (simp add: lltoa_def atoll_def emit_ok rev_map)
  qed
qed (simp_all add: kitoa_def ltoa_def lltoa_def)

lemma print_parse_roundtrip_witness: "\<exists>s. kitoa (- 307) = Some s \<and> atoi s = Some (- 307)"
proof -
  have "- (2 ^ 31) < (- 307 :: int) \<and> (- 307 :: int) < 2 ^ 31" by simp
  then show ?thesis using print_parse_roundtrip by blast
qed


text \<open>
  For every base from 2 to 36, \<open>utoa_base\<close> prints the digits of the value without a leading zero,
  none of its buffers overflows for a 32-bit value, the digits denote the value, and the
  hexadecimal printers by division and by mask and shift print the same text as base 16.
\<close>

theorem utoa_base_spec:
  assumes "2 \<le> b" and "b \<le> 36" and "v < 2 ^ 32"
  shows "\<exists>ds. utoa_base v (int b) = Some (map ((!) digit_table) ds @ [0]) \<and> (\<forall>d \<in> set ds. d < b)
      \<and> value_of b ds = v \<and> (v \<noteq> 0 \<longrightarrow> hd ds \<noteq> 0)
      \<and> (b = 16 \<longrightarrow> utoa_hex v = utoa_base v 16 \<and> ultoa_hex v = utoa_base v 16 \<and> ulltoa_hex v = utoa_base v 16)"
proof -
  let ?r = "rev_digits b v"
  note d = rev_digits_value [OF assms(1), of v]
  have "v < b ^ 32"
  proof -
    have "(2::nat) ^ 32 \<le> b ^ 32" using assms(1) by (intro power_mono) auto
    then show ?thesis using assms(3) by linarith
  qed
  then have l: "length ?r \<le> 32" using rev_digits_length [OF assms(1)] by simp
  have bd: "base_digits (int v) (int b) = map ((!) digit_table) ?r"
  proof (cases "v = 0")
    case True
    have "rev_digits b 0 = [0]" using assms(1) by (subst rev_digits.simps) simp
    then show ?thesis using True by (simp add: base_digits_def digit_table_def)
  qed (simp add: base_digits_def)
  have "utoa_base v (int b) = emit 65 (map ((!) digit_table) ?r)"
    using assms(1,2) bd by (simp add: utoa_base_def)
  then have u: "utoa_base v (int b) = Some (map ((!) digit_table) (rev ?r) @ [0])"
    using l by (simp add: emit_ok rev_map)
  moreover have "v \<noteq> 0 \<longrightarrow> hd (rev ?r) \<noteq> 0" using d by (simp add: hd_rev)
  moreover have "utoa_hex v = utoa_base v 16 \<and> ultoa_hex v = utoa_base v 16 \<and> ulltoa_hex v = utoa_base v 16"
    if b: "b = 16"
  proof -
    have "v < 16 ^ 8" using assms(3) by simp
    then have "length (rev_digits 16 v) \<le> 8" using rev_digits_length [of 16 v 8] by simp
    then show ?thesis using u b by (simp add: utoa_hex_def ultoa_hex_def ulltoa_hex_def rev_hex_eq emit_ok rev_map)
  qed
  ultimately show ?thesis using d by (intro exI [of _ "rev ?r"]) simp
qed

lemma utoa_base_spec_witness:
  "\<exists>ds. utoa_base 255 (int 2) = Some (map ((!) digit_table) ds @ [0]) \<and> value_of 2 ds = 255"
proof -
  have "(2::nat) \<le> 2" "(2::nat) \<le> 36" "(255::nat) < 2 ^ 32" by simp_all
  from utoa_base_spec [OF this] show ?thesis by blast
qed

text \<open>
  \<open>itoa_base\<close> prints nothing for a negative value in any base but 10: its digit loop runs only on
  positive values, and only base 10 negates the value first.
\<close>

theorem itoa_base_negative:
  assumes "value < 0" and "2 \<le> b" and "b \<le> 36" and "b \<noteq> 10"
  shows "itoa_base value b = Some [0]"
  using assms by (simp add: itoa_base_def base_digits_def emit_def)

lemma itoa_base_negative_witness: "itoa_base (- 255) 16 = Some [0]"
  by (rule itoa_base_negative) simp_all

text \<open>
  For an input inside a non-empty input range, and spans whose product fits into an \<^verbatim>\<open>int\<close>,
  \<open>map_range\<close> is defined and maps into the output range, the ends to the ends.
\<close>

theorem map_range_spec:
  assumes "lo < hi" and "lo \<le> x" and "x \<le> hi" and "a \<le> b"
    and "in_int a" and "in_int b" and "in_int lo" and "in_int hi" and "in_int (hi - lo)" and "in_int ((hi - lo) * (b - a))"
  shows "\<exists>y. map_range x lo hi a b = Some y \<and> a \<le> y \<and> y \<le> b
    \<and> map_range lo lo hi a b = Some a \<and> map_range hi lo hi a b = Some b"
proof -
  have pos: "0 < hi - lo" "0 \<le> b - a" using assms by simp_all
  have r: "\<exists>y. map_range v lo hi a b = Some y \<and> y = a + ((v - lo) * (b - a)) div (hi - lo)
      \<and> a \<le> y \<and> y \<le> b" if v: "lo \<le> v" "v \<le> hi" for v
  proof -
    let ?p = "(v - lo) * (b - a)"
    let ?q = "?p div (hi - lo)"
    have p: "0 \<le> ?p" "?p \<le> (hi - lo) * (b - a)" using v pos by (simp_all add: mult_right_mono)
    have q0: "0 \<le> ?q" using p pos by (simp add: pos_imp_zdiv_nonneg_iff)
    have q1: "?q \<le> b - a"
    proof -
      have "?q \<le> ((hi - lo) * (b - a)) div (hi - lo)" using p(2) pos(1) by (rule zdiv_mono1)
      then show ?thesis using pos(1) by simp
    qed
    have ba: "b - a < 2 ^ 31"
    proof -
      have "1 * (b - a) \<le> (hi - lo) * (b - a)" using pos by (intro mult_right_mono) auto
      then show ?thesis using assms(10) by (simp add: in_int_def)
    qed
    have i: "in_int (v - lo)" "in_int (b - a)" "in_int ?p"
    proof -
      show "in_int (v - lo)" "in_int (b - a)" using v assms(9) pos(2) ba by (auto simp: in_int_def)
      have "?p < 2 ^ 31" using p(2) assms(10) by (simp add: in_int_def)
      then show "in_int ?p" using p(1) unfolding in_int_def by linarith
    qed
    have "in_int ?q" "in_int (a + ?q)"
      using q0 q1 ba assms(5,6) by (auto simp: in_int_def)
    moreover have "?p sdiv (hi - lo) = ?q"
      using p(1) pos(1) by (simp add: signed_divide_int_def sgn_if)
    ultimately show ?thesis using i assms(1,9) q0 q1 by (simp add: map_range_def Let_def)
  qed
  show ?thesis using r [OF assms(2,3)] r [of lo] r [of hi] assms(1) by auto
qed

lemma map_range_spec_witness: "\<exists>y. map_range 5 0 10 (- 100) 100 = Some y \<and> - 100 \<le> y \<and> y \<le> 100"
proof -
  have "\<exists>y. map_range 5 0 10 (- 100) 100 = Some y \<and> - 100 \<le> y \<and> y \<le> 100
    \<and> map_range 0 0 10 (- 100) 100 = Some (- 100) \<and> map_range 10 0 10 (- 100) 100 = Some 100"
    by (rule map_range_spec) (simp_all add: in_int_def)
  then show ?thesis by blast
qed

end
