(* ===== verification/Sortsearch.thy ===== *)
theory Sortsearch
  imports Cstring "HOL-Library.Multiset"
begin

text \<open>
  \<^verbatim>\<open>qsort\<close> and \<^verbatim>\<open>bsearch\<close> of \<^verbatim>\<open>kernel/stdlib/stdlib.c\<close>. The array is a list of elements of
  \<^verbatim>\<open>size\<close> bytes, the pivot pointer is the index it points at, and an access outside the
  array is undefined, \<open>None\<close>. The comparison is a parameter. Recursion of \<open>qsort\<close> runs with fuel;
  one unit per element is enough when the comparison is consistent.
\<close>

subsection \<open>bsearch\<close>

function bsearch_loop :: "('k \<Rightarrow> 'a \<Rightarrow> int) \<Rightarrow> 'k \<Rightarrow> 'a list \<Rightarrow> nat \<Rightarrow> nat \<Rightarrow> nat option" where
  "bsearch_loop compare key arr left right =
     (if left < right then
        let mid = (left + right) div 2; c = compare key (arr ! mid) in
        if c = 0 then Some mid
        else if c < 0 then bsearch_loop compare key arr left mid
        else bsearch_loop compare key arr (mid + 1) right
      else None)"
  by pat_completeness auto
termination by (relation "measure (\<lambda>(c, k, a, l, r). r - l)") auto

declare bsearch_loop.simps [simp del]

definition bsearch :: "('k \<Rightarrow> 'a \<Rightarrow> int) \<Rightarrow> 'k \<Rightarrow> 'a list \<Rightarrow> nat option" where
  "bsearch compare key arr = bsearch_loop compare key arr 0 (length arr)"

subsection \<open>qsort\<close>

function scan_left :: "('a \<Rightarrow> 'a \<Rightarrow> int) \<Rightarrow> 'a list \<Rightarrow> nat \<Rightarrow> nat \<Rightarrow> nat option" where
  "scan_left compare arr p left =
     (if left < length arr then
        (if compare (arr ! left) (arr ! p) < 0 then scan_left compare arr p (left + 1) else Some left)
      else None)"
  by pat_completeness auto
termination by (relation "measure (\<lambda>(c, a, p, l). length a - l)") auto

text \<open>Going down below index 0 wraps to \<open>SIZE_MAX\<close>, outside the array.\<close>

fun scan_right :: "('a \<Rightarrow> 'a \<Rightarrow> int) \<Rightarrow> 'a list \<Rightarrow> nat \<Rightarrow> nat \<Rightarrow> nat option" where
  "scan_right compare arr p 0 =
     (if arr = [] then None else if compare (arr ! 0) (arr ! p) > 0 then None else Some 0)"
| "scan_right compare arr p (Suc r) =
     (if length arr \<le> Suc r then None
      else if compare (arr ! Suc r) (arr ! p) > 0 then scan_right compare arr p r else Some (Suc r))"

lemma scan_left_bounds: "scan_left compare arr p left = Some l \<Longrightarrow> left \<le> l \<and> l < length arr"
  by (induction compare arr p left rule: scan_left.induct)
    (force split: if_splits simp: scan_left.simps)

definition swap :: "nat \<Rightarrow> nat \<Rightarrow> 'a list \<Rightarrow> 'a list" where
  "swap i j xs = xs[i := xs ! j, j := xs ! i]"

lemma length_swap [simp]: "length (swap i j xs) = length xs"
  by (simp add: swap_def)

function partition_loop :: "('a \<Rightarrow> 'a \<Rightarrow> int) \<Rightarrow> nat \<Rightarrow> 'a list \<Rightarrow> nat \<Rightarrow> nat \<Rightarrow> ('a list \<times> nat \<times> nat) option" where
  "partition_loop compare p arr left right =
     (if left \<le> right then
        (case scan_left compare arr p left of
           None \<Rightarrow> None
         | Some l \<Rightarrow>
             (case scan_right compare arr p right of
                None \<Rightarrow> None
              | Some r \<Rightarrow>
                  if l \<le> r then
                    partition_loop compare p (swap l r arr) (l + 1) (if r = 0 then SIZE_MAX else r - 1)
                  else partition_loop compare p arr l r))
      else Some (arr, left, right))"
  by pat_completeness auto
termination
proof (relation "measure (\<lambda>(c, p, a, l, r). 2 * (length a - l) + (if l \<le> r then 1 else 0))", goal_cases)
  case 1
  then show ?case by simp
next
  case (2 compare p arr left right l r)
  then show ?case using scan_left_bounds [OF 2(2)] by auto
next
  case (3 compare p arr left right l r)
  then show ?case using scan_left_bounds [OF 3(2)] by auto
qed

declare scan_left.simps [simp del] scan_right.simps [simp del] partition_loop.simps [simp del]

fun qsort :: "nat \<Rightarrow> ('a \<Rightarrow> 'a \<Rightarrow> int) \<Rightarrow> nat \<Rightarrow> 'a list \<Rightarrow> 'a list option" where
  "qsort 0 compare sz arr = None"
| "qsort (Suc f) compare sz arr =
     (let num = length arr in
      if num < 2 then Some arr
      else if 256 < sz then Some arr
      else
        (case partition_loop compare (num div 2) arr 0 (num - 1) of
           None \<Rightarrow> None
         | Some (a, left, right) \<Rightarrow>
             (case (if 0 < right then map_option (\<lambda>x. x @ drop (right + 1) a) (qsort f compare sz (take (right + 1) a))
                    else Some a) of
                None \<Rightarrow> None
              | Some a2 \<Rightarrow>
                  if left < num then map_option (\<lambda>x. take left a2 @ x) (qsort f compare sz (drop left a2))
                  else Some a2)))"

subsection \<open>Correctness of bsearch\<close>

text \<open>The array is ordered for the key: the sign of the comparison never goes up along it.\<close>

definition ordered_for :: "('k \<Rightarrow> 'a \<Rightarrow> int) \<Rightarrow> 'k \<Rightarrow> 'a list \<Rightarrow> bool" where
  "ordered_for compare key arr \<longleftrightarrow>
     sorted_wrt (\<lambda>x y. (compare key x < 0 \<longrightarrow> compare key y < 0) \<and> (compare key x = 0 \<longrightarrow> compare key y \<le> 0)) arr"

lemma ordered_for_nth:
  "ordered_for compare key arr \<Longrightarrow> i < j \<Longrightarrow> j < length arr \<Longrightarrow>
    (compare key (arr ! i) < 0 \<longrightarrow> compare key (arr ! j) < 0) \<and> (compare key (arr ! i) = 0 \<longrightarrow> compare key (arr ! j) \<le> 0)"
  unfolding ordered_for_def using sorted_wrt_nth_less by blast

lemma bsearch_loop_ok:
  assumes "ordered_for compare key arr" "right \<le> length arr"
    "\<forall>i < length arr. compare key (arr ! i) = 0 \<longrightarrow> left \<le> i \<and> i < right"
  shows "case bsearch_loop compare key arr left right of
      Some i \<Rightarrow> i < length arr \<and> compare key (arr ! i) = 0
    | None \<Rightarrow> \<forall>i < length arr. compare key (arr ! i) \<noteq> 0"
  using assms
proof (induction compare key arr left right rule: bsearch_loop.induct)
  case (1 compare key arr left right)
  show ?case
  proof (cases "left < right")
    case False
    then show ?thesis using 1(5) by (auto simp: bsearch_loop.simps [of _ _ _ left right])
  next
    case True
    define mid where "mid = (left + right) div 2"
    have m: "left \<le> mid" "mid < right" "mid < length arr" using True 1(4) by (auto simp: mid_def)
    note e = bsearch_loop.simps [of compare key arr left right, folded mid_def, unfolded Let_def]
    consider "compare key (arr ! mid) = 0" | "compare key (arr ! mid) < 0" | "compare key (arr ! mid) > 0"
      by linarith
    then show ?thesis
    proof cases
      case 1
      then show ?thesis using e m True by simp
    next
      case 2
      have "\<forall>i < length arr. compare key (arr ! i) = 0 \<longrightarrow> left \<le> i \<and> i < mid"
      proof (intro allI impI)
        fix i assume i: "i < length arr" "compare key (arr ! i) = 0"
        have "\<not> mid < i" using ordered_for_nth [OF 1(3), of mid i] 2 i by auto
        moreover have "i \<noteq> mid" using 2 i by auto
        ultimately show "left \<le> i \<and> i < mid" using 1(5) i by auto
      qed
      then show ?thesis using 1(1) [OF True mid_def refl] 2 m 1(3) True e by simp
    next
      case 3
      have "\<forall>i < length arr. compare key (arr ! i) = 0 \<longrightarrow> mid + 1 \<le> i \<and> i < right"
      proof (intro allI impI)
        fix i assume i: "i < length arr" "compare key (arr ! i) = 0"
        have "\<not> i < mid" using ordered_for_nth [OF 1(3), of i mid] 3 i m by auto
        moreover have "i \<noteq> mid" using 3 i by auto
        ultimately show "mid + 1 \<le> i \<and> i < right" using 1(5) i by auto
      qed
      then show ?thesis using 1(2) [OF True mid_def refl] 3 1(3,4) True e by simp
    qed
  qed
qed

subsection \<open>qsort ends inside the array and permutes it\<close>

definition consistent :: "('a \<Rightarrow> 'a \<Rightarrow> int) \<Rightarrow> bool" where
  "consistent c \<longleftrightarrow> (\<forall>x. c x x = 0) \<and> (\<forall>x y. c x y < 0 \<longleftrightarrow> 0 < c y x)
     \<and> (\<forall>x y z. c x y \<le> 0 \<longrightarrow> c y z \<le> 0 \<longrightarrow> c x z \<le> 0)"

lemma consistentD:
  assumes "consistent c"
  shows "c x x = 0" "c x y < 0 \<longleftrightarrow> 0 < c y x" "c x y \<le> 0 \<Longrightarrow> c y z \<le> 0 \<Longrightarrow> c x z \<le> 0"
    "0 \<le> c x y \<longleftrightarrow> c y x \<le> 0"
  using assms unfolding consistent_def by (blast, blast, blast, metis linorder_not_le)

lemma scan_left_ok:
  assumes "left \<le> j" "j < length arr" "0 \<le> c (arr ! j) (arr ! p)"
  shows "\<exists>l. scan_left c arr p left = Some l \<and> left \<le> l \<and> l \<le> j \<and> 0 \<le> c (arr ! l) (arr ! p)"
  using assms
proof (induction c arr p left rule: scan_left.induct)
  case (1 c arr p left)
  show ?case
  proof (cases "c (arr ! left) (arr ! p) < 0")
    case True
    then have "left \<noteq> j" using 1(4) by auto
    then have lt: "left + 1 \<le> j" "left < length arr" using 1(2,3) by auto
    from 1(1) [OF lt(2) True lt(1) 1(3,4)] show ?thesis
      using True lt by (auto simp: scan_left.simps [of c arr p left])
  next
    case False
    then show ?thesis using 1(2,3) by (auto simp: scan_left.simps [of c arr p left])
  qed
qed

lemma scan_right_ok:
  assumes "j \<le> right" "right < length arr" "c (arr ! j) (arr ! p) \<le> 0"
  shows "\<exists>r. scan_right c arr p right = Some r \<and> j \<le> r \<and> r \<le> right \<and> c (arr ! r) (arr ! p) \<le> 0"
  using assms
proof (induction c arr p right rule: scan_right.induct)
  case (1 c arr p)
  then show ?case by (auto simp: scan_right.simps)
next
  case (2 c arr p r)
  show ?case
  proof (cases "c (arr ! Suc r) (arr ! p) > 0")
    case True
    then have "j \<noteq> Suc r" using 2(4) by auto
    then have lt: "j \<le> r" "r < length arr" using 2(2,3) by auto
    from 2(1) [OF _ True lt 2(4)] 2(3) show ?thesis
      using True by (auto simp: scan_right.simps)
  next
    case False
    then show ?thesis using 2(2,3) by (auto simp: scan_right.simps)
  qed
qed

lemma swap_nth:
  "i < length xs \<Longrightarrow> j < length xs \<Longrightarrow> k < length xs \<Longrightarrow>
    swap i j xs ! k = (if k = i then xs ! j else if k = j then xs ! i else xs ! k)"
  by (auto simp: swap_def nth_list_update)

lemma mset_swap_eq: "i < length xs \<Longrightarrow> j < length xs \<Longrightarrow> mset (swap i j xs) = mset xs"
  unfolding swap_def by (rule mset_swap)

definition part_inv :: "('a \<Rightarrow> 'a \<Rightarrow> int) \<Rightarrow> nat \<Rightarrow> 'a list \<Rightarrow> nat \<Rightarrow> nat \<Rightarrow> bool" where
  "part_inv c p arr l r \<longleftrightarrow> 0 < p \<and> p < length arr \<and> r < length arr \<and> (l \<le> r \<longrightarrow>
     l \<le> p \<and> p \<le> r
     \<or> p < l \<and> (\<exists>j > r. j < length arr \<and> 0 \<le> c (arr ! j) (arr ! p))
     \<or> r < p \<and> (\<exists>j < l. c (arr ! j) (arr ! p) \<le> 0))"

lemma part_inv_step:
  assumes c: "consistent c" and i: "part_inv c p arr left right" and le: "left \<le> right"
  obtains l r where "scan_left c arr p left = Some l" "scan_right c arr p right = Some r"
    "left \<le> l" "r \<le> right" "l < length arr"
    "l \<le> r \<Longrightarrow> 0 < r \<and> part_inv c p (swap l r arr) (l + 1) (r - 1)"
    "\<not> l \<le> r \<Longrightarrow> part_inv c p arr l r" "left \<le> p \<and> p \<le> right \<Longrightarrow> l \<le> r"
proof -
  have b: "0 < p" "p < length arr" "right < length arr" using i by (auto simp: part_inv_def)
  have pp: "0 \<le> c (arr ! p) (arr ! p)" "c (arr ! p) (arr ! p) \<le> 0" using consistentD(1) [OF c] by simp_all
  from i le consider (A) "left \<le> p" "p \<le> right"
    | (B) j where "p < left" "right < j" "j < length arr" "0 \<le> c (arr ! j) (arr ! p)"
    | (C) j where "right < p" "j < left" "c (arr ! j) (arr ! p) \<le> 0"
    unfolding part_inv_def by blast
  then show thesis
  proof cases
    case A
    obtain l where l: "scan_left c arr p left = Some l" "left \<le> l" "l \<le> p" "0 \<le> c (arr ! l) (arr ! p)"
      using scan_left_ok [of left p arr c p] A(1) b(2) pp(1) by blast
    obtain r where r: "scan_right c arr p right = Some r" "p \<le> r" "r \<le> right" "c (arr ! r) (arr ! p) \<le> 0"
      using scan_right_ok [of p right arr c p] A(2) b(3) pp(2) by blast
    have s: "swap l r arr ! k = (if k = l then arr ! r else if k = r then arr ! l else arr ! k)"
      if "k < length arr" for k using swap_nth [of l arr r k] that l(3) r(3) b by simp
    have "part_inv c p (swap l r arr) (l + 1) (r - 1)"
    proof -
      consider "l < p" "p < r" | "l = p" "p < r" | "l < p" "r = p" | "l = p" "r = p"
        using l(3) r(2) by linarith
      then show ?thesis
      proof cases
        case 1
        then show ?thesis using b r(3) by (auto simp: part_inv_def)
      next
        case 2
        have "0 \<le> c (arr ! p) (arr ! r)" using r(4) consistentD(4) [OF c] by blast
        then have "0 \<le> c (swap l r arr ! r) (swap l r arr ! p)" using s b r(3) 2 by simp
        then show ?thesis using 2 b r(3) unfolding part_inv_def by (auto intro!: exI [of _ r])
      next
        case 3
        have "c (arr ! p) (arr ! l) \<le> 0" using l(4) consistentD(4) [OF c] by blast
        then have "c (swap l r arr ! l) (swap l r arr ! p) \<le> 0" using s b 3 by simp
        then show ?thesis using 3 b r(3) unfolding part_inv_def by (auto intro!: exI [of _ l])
      next
        case 4
        then show ?thesis using b by (auto simp: part_inv_def)
      qed
    qed
    moreover have "0 < r" "l \<le> r" "l < length arr" using l r b by auto
    ultimately show thesis using that l r by blast
  next
    case B
    obtain l where l: "scan_left c arr p left = Some l" "left \<le> l" "l \<le> j"
      using scan_left_ok [of left j arr c p] B le by auto
    obtain r where r: "scan_right c arr p right = Some r" "p \<le> r" "r \<le> right"
      using scan_right_ok [of p right arr c p] B le b pp by auto
    have jl: "l < length arr" using l B by simp
    have i1: "0 < r \<and> part_inv c p (swap l r arr) (l + 1) (r - 1)" if "l \<le> r"
    proof -
      have "swap l r arr ! j = arr ! j" "swap l r arr ! p = arr ! p"
        using swap_nth [of l arr r] B l r b that by simp_all
      then show ?thesis
        using B l r b that unfolding part_inv_def by (auto intro!: exI [of _ j])
    qed
    have i2: "part_inv c p arr l r" if "\<not> l \<le> r"
      using b r that by (simp add: part_inv_def)
    show thesis by (rule that [OF l(1) r(1) l(2) r(3) jl i1 i2]) (use B in auto)
  next
    case C
    obtain l where l: "scan_left c arr p left = Some l" "left \<le> l" "l \<le> p"
      using scan_left_ok [of left p arr c p] C le b pp by auto
    obtain r where r: "scan_right c arr p right = Some r" "j \<le> r" "r \<le> right"
      using scan_right_ok [of j right arr c p] C le b by auto
    have i1: "0 < r \<and> part_inv c p (swap l r arr) (l + 1) (r - 1)" if "l \<le> r"
    proof -
      have "swap l r arr ! j = arr ! j" "swap l r arr ! p = arr ! p"
        using swap_nth [of l arr r] C l r b that by simp_all
      then show ?thesis
        using C l r b that unfolding part_inv_def by (auto intro!: exI [of _ j])
    qed
    have i2: "part_inv c p arr l r" if "\<not> l \<le> r"
      using b r that by (simp add: part_inv_def)
    have jl: "l < length arr" using l b by simp
    show thesis by (rule that [OF l(1) r(1) l(2) r(3) jl i1 i2]) (use C in auto)
  qed
qed

lemma partition_loop_ok:
  assumes "consistent c" "part_inv c p arr left right"
  shows "\<exists>a l r. partition_loop c p arr left right = Some (a, l, r) \<and> mset a = mset arr
    \<and> left \<le> l \<and> r \<le> right
    \<and> (left \<le> p \<and> p \<le> right \<longrightarrow> left < l \<and> r < right)"
  using assms
proof (induction c p arr left right rule: partition_loop.induct)
  case (1 c p arr left right)
  show ?case
  proof (cases "left \<le> right")
    case False
    then show ?thesis using 1 by (auto simp: partition_loop.simps [of c p arr left right])
  next
    case True
    obtain l r where s: "scan_left c arr p left = Some l" "scan_right c arr p right = Some r"
      "left \<le> l" "r \<le> right" "l < length arr"
      "l \<le> r \<Longrightarrow> 0 < r \<and> part_inv c p (swap l r arr) (l + 1) (r - 1)"
      "\<not> l \<le> r \<Longrightarrow> part_inv c p arr l r" "left \<le> p \<and> p \<le> right \<Longrightarrow> l \<le> r"
      by (rule part_inv_step [OF 1(3,4) True]) blast
    show ?thesis
    proof (cases "l \<le> r")
      case t: True
      have r0: "0 < r" "part_inv c p (swap l r arr) (l + 1) (r - 1)" using s(6) [OF t] by blast+
      have e: "partition_loop c p arr left right = partition_loop c p (swap l r arr) (l + 1) (r - 1)"
        using True s(1,2) t r0 by (simp add: partition_loop.simps [of c p arr left right])
      have rn: "r < length arr" using s(4) 1(4) by (simp add: part_inv_def)
      have "(if r = 0 then SIZE_MAX else r - 1) = r - 1" using r0 by simp
      from 1(1) [OF True s(1,2) t 1(3), unfolded this, OF r0(2)] obtain a l2 r2 where
        "partition_loop c p (swap l r arr) (l + 1) (r - 1) = Some (a, l2, r2)" "mset a = mset (swap l r arr)"
        "l + 1 \<le> l2" "r2 \<le> r - 1" by blast
      then show ?thesis unfolding e using s r0(1) rn t mset_swap_eq [OF s(5) rn] by auto
    next
      case f: False
      have e: "partition_loop c p arr left right = Some (arr, l, r)"
        using True s(1,2) f by (simp add: partition_loop.simps [of c p arr left right]
            partition_loop.simps [of c p arr l r])
      show ?thesis unfolding e using s f by auto
    qed
  qed
qed

lemma qsort_ok:
  assumes "consistent c" "length arr \<le> f" "0 < f"
  shows "\<exists>r. qsort f c sz arr = Some r \<and> mset r = mset arr"
  using assms(2,3)
proof (induction f arbitrary: arr)
  case (Suc f)
  show ?case
  proof (cases "length arr < 2 \<or> 256 < sz")
    case True
    then show ?thesis by (auto simp: Let_def)
  next
    case False
    let ?n = "length arr"
    have pi: "part_inv c (?n div 2) arr 0 (?n - 1)" using False by (auto simp: part_inv_def)
    obtain a l r where p: "partition_loop c (?n div 2) arr 0 (?n - 1) = Some (a, l, r)" "mset a = mset arr"
      "0 < l" "r < ?n - 1"
      using partition_loop_ok [OF assms(1) pi] False by auto
    have la: "length a = ?n" using p(2) by (metis size_mset)
    have fp: "0 < f" "?n - 1 \<le> f" using Suc.prems False by auto
    obtain a2 where a2: "(if 0 < r then map_option (\<lambda>x. x @ drop (r + 1) a) (qsort f c sz (take (r + 1) a))
        else Some a) = Some a2" "mset a2 = mset arr"
    proof (cases "0 < r")
      case True
      obtain x where "qsort f c sz (take (r + 1) a) = Some x" "mset x = mset (take (r + 1) a)"
      proof -
        have "length (take (r + 1) a) \<le> f" using p(4) fp(2) by simp
        from Suc.IH [OF this fp(1)] show ?thesis using that by blast
      qed
      moreover have "mset (take (r + 1) a) + mset (drop (r + 1) a) = mset a"
        by (metis append_take_drop_id mset_append)
      ultimately show thesis using that [of "x @ drop (r + 1) a"] True p(2) by simp
    qed (use that [of a] p(2) in simp)
    have la2: "length a2 = ?n" using a2(2) by (metis size_mset)
    show ?thesis
    proof (cases "l < ?n")
      case True
      obtain x where x: "qsort f c sz (drop l a2) = Some x" "mset x = mset (drop l a2)"
      proof -
        have "length (drop l a2) \<le> f" using p(3) fp(2) la2 by simp
        from Suc.IH [OF this fp(1)] show ?thesis using that by blast
      qed
      have "mset (take l a2) + mset (drop l a2) = mset a2"
        by (metis append_take_drop_id mset_append)
      then show ?thesis using False p(1) a2 x True by (simp add: Let_def)
    next
      case f: False
      then show ?thesis using False p(1) a2 by (simp add: Let_def)
    qed
  qed
qed simp

subsection \<open>Properties\<close>

text \<open>
  On an array ordered for the key, \<open>bsearch\<close> stays inside the array, returns an element that
  compares equal to the key, and NULL only when there is none.
\<close>

theorem bsearch_spec:
  assumes "ordered_for compare key arr"
  shows "case bsearch compare key arr of
      Some i \<Rightarrow> i < length arr \<and> compare key (arr ! i) = 0
    | None \<Rightarrow> \<forall>i < length arr. compare key (arr ! i) \<noteq> 0"
  unfolding bsearch_def by (rule bsearch_loop_ok [OF assms]) simp_all

lemma bsearch_spec_witness:
  "case bsearch (\<lambda>k x. k - x) (5 :: int) [1, 3, 5, 9] of Some i \<Rightarrow> i < 4 | None \<Rightarrow> False"
proof -
  have o: "ordered_for (\<lambda>k x. k - x) (5 :: int) [1, 3, 5, 9]" by (simp add: ordered_for_def)
  have "([1, 3, 5, 9] :: int list) ! 2 = 5" by simp
  then have "\<not> (\<forall>i < length [1, 3, 5, 9 :: int]. (5 :: int) - [1, 3, 5, 9] ! i \<noteq> 0)" by (intro notI) (drule spec [of _ 2], simp)
  with bsearch_spec [OF o] show ?thesis by (auto split: option.splits)
qed

text \<open>
  C22. With a consistent comparison, \<open>qsort\<close> ends, never leaves the array although its pivot pointer
  keeps pointing at a moving element, and returns a permutation of the array.
\<close>

theorem qsort_permutes:
  assumes "consistent compare"
  shows "\<exists>r. qsort (length arr + 1) compare sz arr = Some r \<and> mset r = mset arr"
  by (rule qsort_ok [OF assms]) simp_all

lemma qsort_permutes_witness: "\<exists>r. qsort 5 (\<lambda>x y. x - y) 4 [9, 5, 1, 2 :: int] = Some r \<and> mset r = {#1, 2, 5, 9#}"
proof -
  have c: "consistent (\<lambda>x y. x - y :: int)" by (auto simp: consistent_def)
  have "mset [9, 5, 1, 2 :: int] = {#1, 2, 5, 9#}" by simp
  moreover have "length [9, 5, 1, 2 :: int] + 1 = 5" by simp
  ultimately show ?thesis using qsort_permutes [OF c, of "[9, 5, 1, 2]" 4] by metis
qed

text \<open>
  \<open>qsort\<close> does not sort: the pivot pointer stays at its index while elements are swapped through
  it, and on this array the result is out of order. Arrays of elements above 256 bytes are not
  touched at all.
\<close>

theorem qsort_not_sorted:
  "qsort 5 (\<lambda>x y. x - y) 4 [9, 5, 1, 2 :: int] = Some [1, 5, 2, 9]
   \<and> qsort 5 (\<lambda>x y. x - y) 257 [2, 1 :: int] = Some [2, 1]"
  by code_simp

end
