(* ===== verification/Memops.thy ===== *)
theory Memops
  imports Prelude
begin

text \<open>
  The memory primitives of \<^verbatim>\<open>kernel/stdlib/mem.c\<close>: \<^verbatim>\<open>memmove\<close>, \<^verbatim>\<open>memcmp\<close>, \<^verbatim>\<open>memset\<close>,
  \<^verbatim>\<open>memcpy\<close> and \<^verbatim>\<open>memcpy_nt\<close>. Memory is a function from addresses to bytes; the ranges do
  not reach \<open>2 ^ 32\<close>, so addresses do not wrap. An SSE group loads all its registers before it
  stores them, so it copies a block at once; \<^verbatim>\<open>movdqa\<close> and \<^verbatim>\<open>movntdq\<close> fault on an address that
  is not a multiple of 16, and a fault is \<open>None\<close>. The switch statements that copy up to 15 bytes
  fall through from the highest byte down.
\<close>

type_synonym mem = "nat \<Rightarrow> u8"

subsection \<open>Copying pieces\<close>

definition copy_block :: "nat \<Rightarrow> nat \<Rightarrow> nat \<Rightarrow> mem \<Rightarrow> mem" where
  "copy_block n d s m = (\<lambda>a. if d \<le> a \<and> a < d + n then m (s + (a - d)) else m a)"

text \<open>The fall-through switch, from byte \<open>n - 1\<close> down to byte 0.\<close>

fun copy_down :: "nat \<Rightarrow> nat \<Rightarrow> nat \<Rightarrow> mem \<Rightarrow> mem" where
  "copy_down 0 d s m = m"
| "copy_down (Suc n) d s m = copy_down n d s (m(d + n := m (s + n)))"

text \<open>A byte loop that goes up.\<close>

fun copy_up :: "nat \<Rightarrow> nat \<Rightarrow> nat \<Rightarrow> mem \<Rightarrow> mem" where
  "copy_up 0 d s m = m"
| "copy_up (Suc n) d s m = copy_up n (d + 1) (s + 1) (m(d := m s))"

definition aligned16 :: "nat \<Rightarrow> bool" where
  "aligned16 a \<longleftrightarrow> a mod 16 = 0"

text \<open>
  \<^verbatim>\<open>while (size >= k)\<close> around one SSE group of \<open>k\<close> bytes; \<open>ok\<close> says whether the alignment its
  instructions need is there.
\<close>

function copy_chunks :: "nat \<Rightarrow> (nat \<Rightarrow> nat \<Rightarrow> bool) \<Rightarrow> nat \<times> nat \<times> nat \<times> mem \<Rightarrow> (nat \<times> nat \<times> nat \<times> mem) option" where
  "copy_chunks k ok (d, s, n, m) =
     (if 0 < k \<and> k \<le> n then
        (if ok d s then copy_chunks k ok (d + k, s + k, n - k, copy_block k d s m) else None)
      else Some (d, s, n, m))"
  by pat_completeness auto
termination by (relation "measure (\<lambda>(k, ok, d, s, n, m). n)") auto

declare copy_chunks.simps [simp del]

definition both_aligned :: "nat \<Rightarrow> nat \<Rightarrow> bool" where
  "both_aligned d s \<longleftrightarrow> aligned16 d \<and> aligned16 s"

definition dst_aligned :: "nat \<Rightarrow> nat \<Rightarrow> bool" where
  "dst_aligned d s \<longleftrightarrow> aligned16 d"

definition any_alignment :: "nat \<Rightarrow> nat \<Rightarrow> bool" where
  "any_alignment d s \<longleftrightarrow> True"

text \<open>The head copy that brings the destination to a multiple of 16.\<close>

definition copy_head :: "nat \<times> nat \<times> nat \<times> mem \<Rightarrow> nat \<times> nat \<times> nat \<times> mem" where
  "copy_head = (\<lambda>(d, s, n, m).
     let mis = d mod 16 in
     if mis \<noteq> 0 then let h = min (16 - mis) n in (d + h, s + h, n - h, copy_down h d s m)
     else (d, s, n, m))"

text \<open>Three chunk loops and the final switch.\<close>

definition copy_body :: "(nat \<Rightarrow> nat \<Rightarrow> bool) \<Rightarrow> (nat \<Rightarrow> nat \<Rightarrow> bool) \<Rightarrow> (nat \<Rightarrow> nat \<Rightarrow> bool)
    \<Rightarrow> nat \<times> nat \<times> nat \<times> mem \<Rightarrow> mem option" where
  "copy_body ok1 ok2 ok3 st =
     (case copy_chunks 128 ok1 st of None \<Rightarrow> None
      | Some st1 \<Rightarrow> (case copy_chunks 64 ok2 st1 of None \<Rightarrow> None
          | Some st2 \<Rightarrow> (case copy_chunks 16 ok3 st2 of None \<Rightarrow> None
              | Some (d, s, n, m) \<Rightarrow> Some (copy_down n d s m))))"

subsection \<open>The functions\<close>

definition memcpy :: "nat \<Rightarrow> nat \<Rightarrow> nat \<Rightarrow> mem \<Rightarrow> mem option" where
  "memcpy dst src sz m =
     (case copy_head (dst, src, sz, m) of (d, s, n, m1) \<Rightarrow>
        if d mod 16 = 0 \<and> s mod 16 = 0 then copy_body both_aligned both_aligned dst_aligned (d, s, n, m1)
        else copy_body any_alignment any_alignment any_alignment (d, s, n, m1))"

text \<open>\<^verbatim>\<open>mis\<close> still holds the misalignment of the original destination in the test.\<close>

definition memcpy_nt :: "nat \<Rightarrow> nat \<Rightarrow> nat \<Rightarrow> mem \<Rightarrow> mem option" where
  "memcpy_nt dst src sz m =
     (let mis = dst mod 16 in
      case copy_head (dst, src, sz, m) of (d, s, n, m1) \<Rightarrow>
        if mis = s mod 16 then copy_body both_aligned both_aligned both_aligned (d, s, n, m1)
        else copy_body dst_aligned dst_aligned dst_aligned (d, s, n, m1))"

fun move_back :: "nat \<Rightarrow> nat \<Rightarrow> nat \<Rightarrow> mem \<Rightarrow> mem" where
  "move_back d s 0 m = m"
| "move_back d s (Suc n) m = move_back d s n (m(d + n := m (s + n)))"

text \<open>
  The backward loop of \<open>memmove\<close> over 16-byte groups, by the start addresses and the size left:
  \<^verbatim>\<open>dend\<close> is \<open>d + n\<close> and \<^verbatim>\<open>send\<close> is \<open>s + n\<close>.
\<close>

function move_chunks :: "nat \<Rightarrow> nat \<Rightarrow> nat \<Rightarrow> mem \<Rightarrow> (nat \<times> mem) option" where
  "move_chunks d s n m =
     (if 16 \<le> n then
        (if aligned16 (d + n - 16) then
           move_chunks d s (n - 16) (copy_block 16 (d + n - 16) (s + n - 16) m)
         else None)
      else Some (n, m))"
  by pat_completeness auto
termination by (relation "measure (\<lambda>(d, s, n, m). n)") auto

declare move_chunks.simps [simp del]

definition memmove :: "nat \<Rightarrow> nat \<Rightarrow> nat \<Rightarrow> mem \<Rightarrow> mem option" where
  "memmove dst src sz m =
     (if dst < src \<or> src + sz \<le> dst then memcpy dst src sz m
      else
        let tail = (if (dst + sz) mod 16 \<noteq> 0 then min ((dst + sz) mod 16) sz else 0);
            n = sz - tail;
            m1 = copy_up tail (dst + n) (src + n) m
        in case move_chunks dst src n m1 of
             None \<Rightarrow> None
           | Some (k, m2) \<Rightarrow> Some (move_back dst src k m2))"

definition fill :: "nat \<Rightarrow> nat \<Rightarrow> u8 \<Rightarrow> mem \<Rightarrow> mem" where
  "fill n d v m = (\<lambda>a. if d \<le> a \<and> a < d + n then v else m a)"

fun set_up :: "nat \<Rightarrow> nat \<Rightarrow> u8 \<Rightarrow> mem \<Rightarrow> mem" where
  "set_up 0 d v m = m"
| "set_up (Suc n) d v m = set_up n (d + 1) v (m(d := v))"

text \<open>The store loop: \<open>cnt\<close> groups of 16 bytes.\<close>

fun set_chunks :: "nat \<Rightarrow> nat \<Rightarrow> u8 \<Rightarrow> mem \<Rightarrow> mem option" where
  "set_chunks 0 d v m = Some m"
| "set_chunks (Suc c) d v m = (if aligned16 d then set_chunks c (d + 16) v (fill 16 d v m) else None)"

definition memset :: "nat \<Rightarrow> int \<Rightarrow> nat \<Rightarrow> mem \<Rightarrow> mem option" where
  "memset dst val sz m =
     (let v = word_of_int val;
          mis = dst mod 16;
          h = (if mis \<noteq> 0 then min (16 - mis) sz else 0);
          m1 = set_up h dst v m; d = dst + h; n = sz - h
      in if 16 \<le> n then
           (case set_chunks (n div 16) d v m1 of None \<Rightarrow> None
            | Some m2 \<Rightarrow> Some (set_up (n mod 16) (d + 16 * (n div 16)) v m2))
         else Some (set_up n d v m1))"

text \<open>
  \<^verbatim>\<open>pcmpeqb\<close>, \<^verbatim>\<open>pmovmskb\<close> and \<^verbatim>\<open>bsf\<close> give the first index of the group at which the bytes differ.
\<close>

definition first_diff :: "mem \<Rightarrow> nat \<Rightarrow> nat \<Rightarrow> nat \<Rightarrow> nat option" where
  "first_diff m a b n = List.find (\<lambda>i. m (a + i) \<noteq> m (b + i)) [0..<n]"

function memcmp :: "nat \<Rightarrow> nat \<Rightarrow> nat \<Rightarrow> mem \<Rightarrow> int" where
  "memcmp a b sz m =
     (if 16 \<le> sz then
        (case first_diff m a b 16 of
           Some i \<Rightarrow> (if m (a + i) < m (b + i) then -1 else 1)
         | None \<Rightarrow> memcmp (a + 16) (b + 16) (sz - 16) m)
      else
        (case first_diff m a b sz of
           Some i \<Rightarrow> (if m (a + i) < m (b + i) then -1 else 1)
         | None \<Rightarrow> 0))"
  by pat_completeness auto
termination by (relation "measure (\<lambda>(a, b, n, m). n)") auto

declare memcmp.simps [simp del]

subsection \<open>Copying lemmas\<close>

lemma copy_block_0 [simp]: "copy_block 0 d s m = m"
  by (auto simp: copy_block_def fun_eq_iff)

text \<open>Regions for which copying the front first does not disturb the rest of the source.\<close>

definition forward_safe :: "nat \<Rightarrow> nat \<Rightarrow> nat \<Rightarrow> bool" where
  "forward_safe d s n \<longleftrightarrow> d \<le> s \<or> s + n \<le> d"

lemma copy_block_append:
  "forward_safe d s (a + b) \<Longrightarrow> copy_block b (d + a) (s + a) (copy_block a d s m) = copy_block (a + b) d s m"
  by (auto simp: copy_block_def forward_safe_def fun_eq_iff)

lemma copy_down_block: "d + n \<le> s \<or> s + n \<le> d \<or> d = s \<Longrightarrow> copy_down n d s m = copy_block n d s m"
proof (induction n arbitrary: m)
  case (Suc n)
  have "copy_down n d s (m(d + n := m (s + n))) = copy_block n d s (m(d + n := m (s + n)))"
    using Suc.prems by (intro Suc.IH) auto
  also have "\<dots> = copy_block (Suc n) d s m"
    using Suc.prems by (auto simp: copy_block_def fun_eq_iff less_Suc_eq)
  finally show ?case by simp
qed simp

text \<open>What the functions need: the regions are disjoint, equal, or the destination lies 15 below.\<close>

definition copy_safe :: "nat \<Rightarrow> nat \<Rightarrow> nat \<Rightarrow> bool" where
  "copy_safe d s n \<longleftrightarrow> d + n \<le> s \<or> s + n \<le> d \<or> d = s \<or> d + 15 \<le> s"

lemma copy_safe_forward: "copy_safe d s n \<Longrightarrow> forward_safe d s n"
  by (auto simp: copy_safe_def forward_safe_def)

lemma copy_safe_down: "copy_safe d s n \<Longrightarrow> k \<le> 15 \<Longrightarrow> k \<le> n \<Longrightarrow> copy_down k d s m = copy_block k d s m"
  by (rule copy_down_block) (auto simp: copy_safe_def)

lemma copy_safe_rest: "copy_safe d s n \<Longrightarrow> k \<le> n \<Longrightarrow> copy_safe (d + k) (s + k) (n - k)"
  by (auto simp: copy_safe_def)

text \<open>The state of a copy: what is left, and that the memory is the copy of what is done.\<close>

definition copied :: "nat \<Rightarrow> nat \<Rightarrow> nat \<Rightarrow> mem \<Rightarrow> nat \<times> nat \<times> nat \<times> mem \<Rightarrow> bool" where
  "copied d0 s0 n0 m0 = (\<lambda>(d, s, n, m). \<exists>k. d = d0 + k \<and> s = s0 + k \<and> k + n = n0 \<and> m = copy_block k d0 s0 m0)"

lemma copied_step:
  assumes "copied d0 s0 n0 m0 (d, s, n, m)" "copy_safe d0 s0 n0" "k \<le> n"
  shows "copied d0 s0 n0 m0 (d + k, s + k, n - k, copy_block k d s m)"
proof -
  obtain j where j: "d = d0 + j" "s = s0 + j" "j + n = n0" "m = copy_block j d0 s0 m0"
    using assms(1) by (auto simp: copied_def)
  have "forward_safe d0 s0 (j + k)"
    using assms(2,3) j(3) by (auto simp: copy_safe_def forward_safe_def)
  then have "copy_block k d s m = copy_block (j + k) d0 s0 m0"
    using copy_block_append j by simp
  then show ?thesis using j assms(3) unfolding copied_def by (auto intro!: exI [of _ "j + k"])
qed

lemma copy_chunks_ok:
  assumes "copied d0 s0 n0 m0 (d, s, n, m)" "copy_safe d0 s0 n0" "0 < k"
    and "\<And>d s. P d s \<Longrightarrow> P (d + k) (s + k)" "\<And>d s. P d s \<Longrightarrow> ok d s" "P d s"
  shows "\<exists>d' s' n' m'. copy_chunks k ok (d, s, n, m) = Some (d', s', n', m')
    \<and> copied d0 s0 n0 m0 (d', s', n', m') \<and> n' < k \<and> P d' s'"
  using assms(1,6)
proof (induction n arbitrary: d s m rule: less_induct)
  case (less n)
  show ?case
  proof (cases "k \<le> n")
    case True
    have "copied d0 s0 n0 m0 (d + k, s + k, n - k, copy_block k d s m)"
      by (rule copied_step [OF less.prems(1) assms(2) True])
    from less.IH [OF _ this assms(4) [OF less.prems(2)]] assms(3) True
    obtain r where "copy_chunks k ok (d + k, s + k, n - k, copy_block k d s m) = Some r"
      "copied d0 s0 n0 m0 r \<and> fst (snd (snd r)) < k \<and> P (fst r) (fst (snd r))" by fastforce
    then show ?thesis
      using True assms(3,5) less.prems(2) by (cases r) (auto simp: copy_chunks.simps [of k ok d])
  next
    case False
    then show ?thesis using less.prems by (auto simp: copy_chunks.simps [of k ok d])
  qed
qed

lemma copy_body_ok:
  assumes c: "copied d0 s0 n0 m0 (d, s, n, m)" "copy_safe d0 s0 n0"
    and P: "\<And>d s. P d s \<Longrightarrow> P (d + 16) (s + 16)" "\<And>d s. P d s \<Longrightarrow> ok1 d s \<and> ok2 d s \<and> ok3 d s" "P d s"
  shows "copy_body ok1 ok2 ok3 (d, s, n, m) = Some (copy_block n0 d0 s0 m0)"
proof -
  have st: "P (d + k * 16) (s + k * 16)" if "P d s" for k d s
    using that
  proof (induction k arbitrary: d s)
    case (Suc k)
    from Suc.IH [OF P(1) [OF Suc.prems]] show ?case by (simp add: ac_simps)
  qed simp
  have P8: "\<And>d s. P d s \<Longrightarrow> P (d + 128) (s + 128)" "\<And>d s. P d s \<Longrightarrow> P (d + 64) (s + 64)"
    using st [of _ _ 8] st [of _ _ 4] by simp_all
  obtain d1 s1 n1 m1 where 1: "copy_chunks 128 ok1 (d, s, n, m) = Some (d1, s1, n1, m1)"
    "copied d0 s0 n0 m0 (d1, s1, n1, m1)" "P d1 s1"
    using copy_chunks_ok [where P = P and ok = ok1 and k = 128, OF c _ P8(1) _ P(3)] P(2) by auto
  obtain d2 s2 n2 m2 where 2: "copy_chunks 64 ok2 (d1, s1, n1, m1) = Some (d2, s2, n2, m2)"
    "copied d0 s0 n0 m0 (d2, s2, n2, m2)" "P d2 s2"
    using copy_chunks_ok [where P = P and ok = ok2 and k = 64, OF 1(2) c(2) _ P8(2) _ 1(3)] P(2) by auto
  obtain d3 s3 n3 m3 where 3: "copy_chunks 16 ok3 (d2, s2, n2, m2) = Some (d3, s3, n3, m3)"
    "copied d0 s0 n0 m0 (d3, s3, n3, m3)" "n3 < 16"
    using copy_chunks_ok [where P = P and ok = ok3 and k = 16, OF 2(2) c(2) _ P(1) _ 2(3)] P(2) by auto
  obtain k where k: "d3 = d0 + k" "s3 = s0 + k" "k + n3 = n0" using 3(2) by (auto simp: copied_def)
  have sf: "copy_safe d3 s3 n3" using copy_safe_rest [OF c(2), of k] k by auto
  have "copy_down n3 d3 s3 m3 = copy_block n3 d3 s3 m3"
    using copy_safe_down [OF sf, of n3] 3(3) by simp
  moreover have "copy_block n3 d3 s3 m3 = copy_block n0 d0 s0 m0"
    using copied_step [OF 3(2) c(2), of n3] by (auto simp: copied_def)
  ultimately show ?thesis using 1(1) 2(1) 3(1) by (simp add: copy_body_def)
qed

lemma copy_head_ok:
  assumes "copy_safe d s n"
  obtains h where "copy_head (d, s, n, m) = (d + h, s + h, n - h, copy_block h d s m)"
    "copied d s n m (d + h, s + h, n - h, copy_block h d s m)" "h \<le> n" "aligned16 (d + h) \<or> n - h = 0"
    "d mod 16 = 0 \<Longrightarrow> h = 0"
proof (cases "d mod 16 = 0")
  case True
  show thesis
    by (rule that [of 0]) (use True in \<open>auto simp: copy_head_def copied_def aligned16_def\<close>)
next
  case False
  define h where "h = min (16 - d mod 16) n"
  have h: "h \<le> n" "h \<le> 15" using False by (auto simp: h_def)
  have e: "copy_head (d, s, n, m) = (d + h, s + h, n - h, copy_block h d s m)"
    using False copy_safe_down [OF assms h(2,1)] by (simp add: copy_head_def Let_def h_def)
  have al: "aligned16 (d + h) \<or> n - h = 0"
  proof (cases "16 - d mod 16 \<le> n")
    case True
    then have hh: "h = 16 - d mod 16" by (simp add: h_def)
    obtain q r where qr: "d = 16 * q + r" "r < 16" "d mod 16 = r"
      by (metis mult_div_mod_eq mod_less_divisor zero_less_numeral)
    then have "d + h = 16 * (q + 1)" using hh by simp
    then show ?thesis unfolding aligned16_def by simp
  qed (simp add: h_def)
  have "copied d s n m (d + h, s + h, n - h, copy_block h d s m)"
    using h(1) by (auto simp: copied_def)
  then show thesis using that [OF e _ h(1) al] False by blast
qed

lemma memcpy_ok:
  assumes "copy_safe d s n"
  shows "memcpy d s n m = Some (copy_block n d s m)"
proof -
  obtain h where h: "copy_head (d, s, n, m) = (d + h, s + h, n - h, copy_block h d s m)"
    "copied d s n m (d + h, s + h, n - h, copy_block h d s m)"
    by (rule copy_head_ok [OF assms, of m]) blast
  have b1: "copy_body both_aligned both_aligned dst_aligned (d + h, s + h, n - h, copy_block h d s m)
      = Some (copy_block n d s m)" if "aligned16 (d + h)" "aligned16 (s + h)"
    by (rule copy_body_ok [where P = both_aligned, OF h(2) assms])
      (use that in \<open>auto simp: both_aligned_def dst_aligned_def aligned16_def\<close>)
  have b2: "copy_body any_alignment any_alignment any_alignment (d + h, s + h, n - h, copy_block h d s m)
      = Some (copy_block n d s m)"
    by (rule copy_body_ok [where P = any_alignment, OF h(2) assms]) (auto simp: any_alignment_def)
  show ?thesis using h(1) b1 b2 by (simp add: memcpy_def aligned16_def)
qed

subsection \<open>memmove\<close>

lemma copy_up_block: "d \<le> s \<or> s + n \<le> d \<Longrightarrow> copy_up n d s m = copy_block n d s m"
proof (induction n arbitrary: d s m)
  case (Suc n)
  have e: "m(d := m s) = copy_block 1 d s m"
    by (auto simp: copy_block_def fun_eq_iff)
  have "copy_up n (d + 1) (s + 1) (copy_block 1 d s m) = copy_block n (d + 1) (s + 1) (copy_block 1 d s m)"
    using Suc.prems by (intro Suc.IH) auto
  also have "\<dots> = copy_block (1 + n) d s m"
    using Suc.prems by (intro copy_block_append) (auto simp: forward_safe_def)
  finally show ?case unfolding copy_up.simps e by simp
qed simp

lemma copy_block_back:
  "s \<le> d \<Longrightarrow> copy_block a d s (copy_block b (d + a) (s + a) m) = copy_block (a + b) d s m"
  by (auto simp: copy_block_def fun_eq_iff)

lemma move_back_block: "s \<le> d \<Longrightarrow> move_back d s n m = copy_block n d s m"
proof (induction n arbitrary: m)
  case (Suc n)
  have "m(d + n := m (s + n)) = copy_block 1 (d + n) (s + n) m"
    by (auto simp: copy_block_def fun_eq_iff)
  then show ?case using Suc copy_block_back [of s d n 1 m] by simp
qed simp

lemma move_chunks_ok:
  assumes "s \<le> d" "aligned16 (d + n) \<or> n < 16"
  shows "\<exists>k m'. move_chunks d s n m = Some (k, m') \<and> copy_block k d s m' = copy_block n d s m"
  using assms
proof (induction d s n m rule: move_chunks.induct)
  case (1 d s n m)
  show ?case
  proof (cases "16 \<le> n")
    case True
    then have al: "aligned16 (d + n)" using 1(3) by simp
    have a: "aligned16 (d + n - 16)"
    proof -
      have "d + n = 16 + (d + n - 16)" using True by simp
      then show ?thesis using al unfolding aligned16_def by (metis mod_add_self1)
    qed
    have "aligned16 (d + (n - 16)) \<or> n - 16 < 16" using a True by simp
    from 1(1) [OF True a 1(2) this] obtain k m' where
      r: "move_chunks d s (n - 16) (copy_block 16 (d + n - 16) (s + n - 16) m) = Some (k, m')"
      "copy_block k d s m' = copy_block (n - 16) d s (copy_block 16 (d + n - 16) (s + n - 16) m)" by blast
    have "copy_block (n - 16) d s (copy_block 16 (d + (n - 16)) (s + (n - 16)) m) = copy_block (n - 16 + 16) d s m"
      by (rule copy_block_back [OF 1(2)])
    then show ?thesis using r True a by (simp add: move_chunks.simps [of d s n])
  next
    case False
    then show ?thesis by (simp add: move_chunks.simps [of d s n])
  qed
qed

lemma memmove_ok:
  assumes "copy_safe d s n \<or> d = s \<or> s + 15 \<le> d"
  shows "memmove d s n m = Some (copy_block n d s m)"
proof (cases "d < s \<or> s + n \<le> d")
  case True
  then have "copy_safe d s n" using assms by (auto simp: copy_safe_def)
  then show ?thesis using True memcpy_ok by (simp add: memmove_def)
next
  case False
  then have sd: "s \<le> d" "d = s \<or> s + 15 \<le> d" using assms by (auto simp: copy_safe_def)
  define t where "t = (if (d + n) mod 16 \<noteq> 0 then min ((d + n) mod 16) n else 0)"
  have t: "t \<le> n" "t \<le> 15" using mod_less_divisor [of 16 "d + n"] by (auto simp: t_def min_def)
  have al: "aligned16 (d + (n - t)) \<or> n - t < 16"
  proof (cases "(d + n) mod 16 \<le> n")
    case True
    then have tt: "t = (d + n) mod 16" by (auto simp: t_def)
    have "d + (n - t) = d + n - (d + n) mod 16" using t tt by simp
    then show ?thesis unfolding aligned16_def by (metis minus_mod_eq_mult_div mod_mult_self1_is_0)
  next
    case False
    then have "n < 16" using mod_less_divisor [of 16 "d + n"] by linarith
    then show ?thesis by (simp add: less_imp_diff_less)
  qed
  have up: "copy_up t (d + (n - t)) (s + (n - t)) m = copy_block t (d + (n - t)) (s + (n - t)) m"
    using sd t by (intro copy_up_block) auto
  obtain k m' where r: "move_chunks d s (n - t) (copy_block t (d + (n - t)) (s + (n - t)) m) = Some (k, m')"
    "copy_block k d s m' = copy_block (n - t) d s (copy_block t (d + (n - t)) (s + (n - t)) m)"
    using move_chunks_ok [OF sd(1) al] by blast
  have "copy_block k d s m' = copy_block n d s m"
    unfolding r(2) copy_block_back [OF sd(1)] using t(1) by simp
  moreover have "memmove d s n m = (case move_chunks d s (n - t) (copy_up t (d + (n - t)) (s + (n - t)) m) of
      None \<Rightarrow> None | Some (k, m2) \<Rightarrow> Some (move_back d s k m2))"
    using False unfolding memmove_def Let_def t_def [symmetric] by (simp only: if_False)
  ultimately show ?thesis using r(1) up move_back_block [OF sd(1)] by simp
qed

subsection \<open>memset and memcmp\<close>

lemma fill_append: "fill b (d + a) v (fill a d v m) = fill (a + b) d v m"
  by (auto simp: fill_def fun_eq_iff)

lemma set_up_fill: "set_up n d v m = fill n d v m"
proof (induction n arbitrary: d m)
  case (Suc n)
  have "m(d := v) = fill 1 d v m" by (auto simp: fill_def fun_eq_iff)
  then show ?case using Suc fill_append [of n d 1 v m] by simp
qed (auto simp: fill_def fun_eq_iff)

lemma set_chunks_fill: "aligned16 d \<Longrightarrow> set_chunks c d v m = Some (fill (16 * c) d v m)"
proof (induction c arbitrary: d m)
  case (Suc c)
  have "aligned16 (d + 16)" using Suc.prems by (simp add: aligned16_def)
  from Suc.IH [OF this] show ?case using Suc.prems fill_append [of "16 * c" d 16 v m] by simp
qed (auto simp: fill_def fun_eq_iff)

lemma head_aligned:
  assumes "d mod 16 \<noteq> 0" "h = 16 - d mod 16"
  shows "aligned16 (d + h)"
proof -
  obtain q r where qr: "d = 16 * q + r" "r < 16" "d mod 16 = r"
    by (metis mult_div_mod_eq mod_less_divisor zero_less_numeral)
  then have "d + h = 16 * (q + 1)" using assms(2) by simp
  then show ?thesis unfolding aligned16_def by simp
qed

lemma memset_ok: "memset d v n m = Some (fill n d (word_of_int v) m)"
proof -
  define h where "h = (if d mod 16 \<noteq> 0 then min (16 - d mod 16) n else 0)"
  let ?v = "word_of_int v :: u8"
  let ?n = "n - h"
  have hn: "h \<le> n" by (auto simp: h_def)
  have al: "aligned16 (d + h)" if "16 \<le> ?n"
  proof (cases "d mod 16 = 0")
    case True
    then show ?thesis by (simp add: h_def aligned16_def)
  next
    case False
    have "16 - d mod 16 \<le> n"
    proof (rule ccontr)
      assume "\<not> 16 - d mod 16 \<le> n"
      then have "h = n" using False by (simp add: h_def)
      then show False using that by simp
    qed
    then have "h = 16 - d mod 16" using False by (simp add: h_def)
    then show ?thesis by (rule head_aligned [OF False])
  qed
  have f: "fill (?n mod 16) (d + h + 16 * (?n div 16)) ?v (fill (16 * (?n div 16)) (d + h) ?v (fill h d ?v m))
      = fill n d ?v m"
  proof -
    have "h + (16 * (?n div 16) + ?n mod 16) = n" using hn mult_div_mod_eq [of 16 ?n] by linarith
    then show ?thesis unfolding fill_append add.assoc [of d h] by (metis add.assoc fill_append)
  qed
  have g: "fill ?n (d + h) ?v (fill h d ?v m) = fill n d ?v m"
    unfolding fill_append using hn by simp
  show ?thesis
    using al f g set_chunks_fill [of "d + h" "?n div 16" ?v "fill h d ?v m"]
    unfolding memset_def Let_def h_def [symmetric] set_up_fill by simp
qed

lemma find_upt_shift: "List.find P [k..<k + n] = map_option (\<lambda>i. i + k) (List.find (\<lambda>i. P (i + k)) [0..<n])"
proof -
  have "[k..<k + n] = map (\<lambda>i. i + k) [0..<n]" by (simp add: map_add_upt add.commute)
  moreover have "List.find P (map f xs) = map_option f (List.find (\<lambda>i. P (f i)) xs)" for f :: "nat \<Rightarrow> nat" and xs
    by (induction xs) auto
  ultimately show ?thesis by simp
qed

lemma find_append: "List.find P (xs @ ys) = (case List.find P xs of Some x \<Rightarrow> Some x | None \<Rightarrow> List.find P ys)"
  by (induction xs) auto

lemma first_diff_split:
  "k \<le> n \<Longrightarrow> first_diff m a b n = (case first_diff m a b k of Some i \<Rightarrow> Some i
     | None \<Rightarrow> map_option (\<lambda>i. i + k) (first_diff m (a + k) (b + k) (n - k)))"
proof -
  assume "k \<le> n"
  then have "[0..<n] = [0..<k] @ [k..<k + (n - k)]"
    by (metis le_add_diff_inverse upt_add_eq_append zero_le)
  then show ?thesis
    unfolding first_diff_def by (simp add: find_append find_upt_shift add.commute add.left_commute split: option.split)
qed

lemma memcmp_eq: "memcmp a b n m = (case first_diff m a b n of
    Some i \<Rightarrow> if m (a + i) < m (b + i) then -1 else 1 | None \<Rightarrow> 0)"
proof (induction a b n m rule: memcmp.induct)
  case (1 a b n m)
  show ?case
  proof (cases "16 \<le> n")
    case True
    show ?thesis
      using 1 [OF True] True first_diff_split [OF True, of m a b]
      by (auto simp: memcmp.simps [of a b n] ac_simps split: option.splits)
  next
    case False
    then show ?thesis by (simp add: memcmp.simps [of a b n])
  qed
qed

subsection \<open>memcpy_nt\<close>

lemma copy_body_fault:
  assumes "\<not> aligned16 s" "16 \<le> n"
  shows "copy_body both_aligned both_aligned both_aligned (d, s, n, m) = None"
proof -
  have f: "copy_chunks k both_aligned (d, s, n, m) = None" if "0 < k" "k \<le> n" for k
    using assms that by (simp add: copy_chunks.simps [of k _ d] both_aligned_def)
  have g: "copy_chunks k both_aligned (d, s, n, m) = Some (d, s, n, m)" if "\<not> k \<le> n" for k
    using that by (simp add: copy_chunks.simps [of k _ d])
  show ?thesis
    using f [of 128] f [of 64] f [of 16] g [of 128] g [of 64] assms(2)
    by (cases "128 \<le> n"; cases "64 \<le> n") (simp_all add: copy_body_def)
qed

lemma copy_body_small:
  assumes c: "copied d0 s0 n0 m0 (d, s, n, m)" "copy_safe d0 s0 n0" "n < 16"
  shows "copy_body ok1 ok2 ok3 (d, s, n, m) = Some (copy_block n0 d0 s0 m0)"
proof -
  have g: "copy_chunks k ok (d, s, n, m) = Some (d, s, n, m)" if "16 \<le> k" for k ok
    using that c(3) by (simp add: copy_chunks.simps [of k _ d])
  obtain k where k: "d = d0 + k" "s = s0 + k" "k + n = n0" using c(1) by (auto simp: copied_def)
  have "copy_down n d s m = copy_block n d s m"
    using copy_safe_down [of d s n n m] copy_safe_rest [OF c(2), of k] k c(3) by auto
  moreover have "copy_block n d s m = copy_block n0 d0 s0 m0"
    using copied_step [OF c(1,2), of n] by (auto simp: copied_def)
  ultimately show ?thesis using g by (simp add: copy_body_def)
qed

lemma memcpy_nt_eq:
  assumes sf: "copy_safe d s n"
  shows "memcpy_nt d s n m =
    (let h = min (16 - d mod 16) n in
     if d mod 16 \<noteq> 0 \<and> (s + h) mod 16 = d mod 16 \<and> 16 \<le> n - h then None
     else Some (copy_block n d s m))"
proof (cases "d mod 16 = 0")
  case True
  have hd: "copy_head (d, s, n, m) = (d, s, n, m)" using True by (simp add: copy_head_def)
  have c: "copied d s n m (d, s, n, m)" by (auto simp: copied_def)
  have b1: "copy_body both_aligned both_aligned both_aligned (d, s, n, m) = Some (copy_block n d s m)"
    if "aligned16 s"
    by (rule copy_body_ok [where P = both_aligned, OF c sf])
      (use that True in \<open>auto simp: both_aligned_def aligned16_def\<close>)
  have b2: "copy_body dst_aligned dst_aligned dst_aligned (d, s, n, m) = Some (copy_block n d s m)"
    by (rule copy_body_ok [where P = dst_aligned, OF c sf])
      (use True in \<open>auto simp: dst_aligned_def aligned16_def\<close>)
  show ?thesis using True hd b1 b2 by (auto simp: memcpy_nt_def Let_def aligned16_def)
next
  case False
  define h where "h = min (16 - d mod 16) n"
  have h: "h \<le> n" "h \<le> 15" using False by (auto simp: h_def)
  have hd: "copy_head (d, s, n, m) = (d + h, s + h, n - h, copy_block h d s m)"
    using False copy_safe_down [OF sf h(2,1)] by (simp add: copy_head_def Let_def h_def)
  have c: "copied d s n m (d + h, s + h, n - h, copy_block h d s m)"
    using h(1) by (auto simp: copied_def)
  have al: "aligned16 (d + h)" if "16 \<le> n - h"
    using that False by (intro head_aligned) (auto simp: h_def min_def)
  have b2: "copy_body dst_aligned dst_aligned dst_aligned (d + h, s + h, n - h, copy_block h d s m)
      = Some (copy_block n d s m)"
  proof (cases "16 \<le> n - h")
    case True
    show ?thesis
      by (rule copy_body_ok [where P = dst_aligned, OF c sf])
        (use al [OF True] in \<open>auto simp: dst_aligned_def aligned16_def\<close>)
  next
    case f: False
    then show ?thesis by (intro copy_body_small [OF c sf]) simp
  qed
  have b1: "copy_body both_aligned both_aligned both_aligned (d + h, s + h, n - h, copy_block h d s m)
      = (if 16 \<le> n - h then None else Some (copy_block n d s m))" if "(s + h) mod 16 = d mod 16"
  proof -
    have "\<not> aligned16 (s + h)" using that False by (simp add: aligned16_def)
    then show ?thesis
      using copy_body_fault [of "s + h" "n - h"] copy_body_small [OF c sf] by (auto simp: not_le)
  qed
  have e: "memcpy_nt d s n m = (if d mod 16 = (s + h) mod 16
      then copy_body both_aligned both_aligned both_aligned (d + h, s + h, n - h, copy_block h d s m)
      else copy_body dst_aligned dst_aligned dst_aligned (d + h, s + h, n - h, copy_block h d s m))"
    unfolding memcpy_nt_def hd by simp
  show ?thesis unfolding e Let_def h_def [symmetric] using b1 b2 False by auto
qed

subsection \<open>Properties\<close>

text \<open>
  C21. \<open>memcpy\<close> copies exactly the region, through every alignment of the two pointers and every
  size, without an alignment fault, when the regions are disjoint; \<open>memmove\<close> does so too for
  overlapping regions whose start addresses are at least 15 bytes apart.
\<close>

theorem memcpy_memmove_spec:
  assumes "d + n \<le> s \<or> s + n \<le> d \<or> d + 15 \<le> s \<or> s + 15 \<le> d"
  shows "memmove d s n m = Some (copy_block n d s m)
    \<and> (d + n \<le> s \<or> s + n \<le> d \<longrightarrow> memcpy d s n m = Some (copy_block n d s m))"
  using assms memmove_ok [of d s n m] memcpy_ok [of d s n m] by (auto simp: copy_safe_def)

lemma memcpy_memmove_spec_witness:
  "\<exists>m'. memmove 0x1003 0x1013 200 (\<lambda>a. word_of_nat a) = Some m' \<and> m' 0x1003 = 0x13"
  using memcpy_memmove_spec [of "0x1003" 200 "0x1013" "\<lambda>a. word_of_nat a"]
  by (simp add: copy_block_def)

text \<open>
  \<open>memmove\<close> is wrong for overlapping regions less than 15 bytes apart: moving three bytes down by
  one triplicates the last byte (the switch of \<open>memcpy\<close> copies downwards), and moving them up by
  one triplicates the first (the tail loop copies upwards).
\<close>

theorem memmove_overlap_broken:
  "(\<exists>m'. memmove 0x1000 0x1001 3 m = Some m' \<and> m' 0x1000 = m 0x1003 \<and> m' 0x1001 = m 0x1003)
   \<and> (\<exists>m'. memmove 0x1001 0x1000 3 m = Some m' \<and> m' 0x1002 = m 0x1000 \<and> m' 0x1003 = m 0x1000)"
  by (simp add: memmove_def memcpy_def copy_head_def copy_body_def copy_chunks.simps move_chunks.simps
      numeral_3_eq_3)

text \<open>
  For disjoint regions \<open>memcpy_nt\<close> copies exactly the region, except when the destination is
  misaligned, the source has the same misalignment after the head copy and 16 bytes are left:
  it tests a stale misalignment there and runs into a misaligned \<^verbatim>\<open>movdqa\<close>.
\<close>

theorem memcpy_nt_spec:
  assumes "d + n \<le> s \<or> s + n \<le> d"
  shows "memcpy_nt d s n m =
    (let h = min (16 - d mod 16) n in
     if d mod 16 \<noteq> 0 \<and> (s + h) mod 16 = d mod 16 \<and> 16 \<le> n - h then None
     else Some (copy_block n d s m))"
  using assms by (intro memcpy_nt_eq) (auto simp: copy_safe_def)

lemma memcpy_nt_spec_witness:
  "memcpy_nt 0x1004 0x2008 64 (\<lambda>a. word_of_nat a) = None
   \<and> memcpy_nt 0x1004 0x2004 64 (\<lambda>a. word_of_nat a) = Some (copy_block 64 0x1004 0x2004 (\<lambda>a. word_of_nat a))"
  using memcpy_nt_spec [of "0x1004" 64 "0x2008" "\<lambda>a. word_of_nat a"]
    memcpy_nt_spec [of "0x1004" 64 "0x2004" "\<lambda>a. word_of_nat a"] by simp

text \<open>
  \<open>memset\<close> fills exactly the region with the low byte of the value, and \<open>memcmp\<close> returns the sign
  of the first pair of bytes that differ, 0 when there is none; both for every size and alignment.
\<close>

theorem memset_memcmp_spec:
  "memset d v n m = Some (\<lambda>a. if d \<le> a \<and> a < d + n then word_of_int v else m a)
   \<and> (memcmp a b n m = 0 \<longleftrightarrow> (\<forall>i < n. m (a + i) = m (b + i)))
   \<and> (memcmp a b n m < 0 \<longleftrightarrow> (\<exists>i < n. m (a + i) < m (b + i) \<and> (\<forall>j < i. m (a + j) = m (b + j))))"
proof (intro conjI)
  show "memset d v n m = Some (\<lambda>a. if d \<le> a \<and> a < d + n then word_of_int v else m a)"
    by (simp add: memset_ok fill_def)
  have N: "first_diff m a b n = None \<longleftrightarrow> (\<forall>i < n. m (a + i) = m (b + i))"
    by (auto simp: first_diff_def find_None_iff)
  have S: "first_diff m a b n = Some i \<longleftrightarrow> i < n \<and> m (a + i) \<noteq> m (b + i) \<and> (\<forall>j < i. m (a + j) = m (b + j))" for i
    unfolding first_diff_def find_Some_iff by (auto dest: spec)
  show "memcmp a b n m = 0 \<longleftrightarrow> (\<forall>i < n. m (a + i) = m (b + i))"
    unfolding memcmp_eq N [symmetric] by (auto split: option.split)
  show "memcmp a b n m < 0 \<longleftrightarrow> (\<exists>i < n. m (a + i) < m (b + i) \<and> (\<forall>j < i. m (a + j) = m (b + j)))"
  proof (cases "first_diff m a b n")
    case None
    then show ?thesis unfolding memcmp_eq using N by auto
  next
    case (Some i)
    note s = S [of i, THEN iffD1, OF Some]
    have "(\<exists>k < n. m (a + k) < m (b + k) \<and> (\<forall>j < k. m (a + j) = m (b + j))) \<longleftrightarrow> m (a + i) < m (b + i)"
      using s by (metis less_irrefl nat_neq_iff)
    then show ?thesis unfolding memcmp_eq Some by simp
  qed
qed

lemma memset_memcmp_spec_witness: "memcmp 0 100 3 (\<lambda>a. 0) = 0"
  using memset_memcmp_spec [of 0 0 3 "\<lambda>a. 0" 0 100] by simp

end
