(* ===== verification/Sched.thy ===== *)
theory Sched
  imports Cstring Numconv
begin

text \<open>
  The scheduler of \<^verbatim>\<open>kernel/schedule/schedule.c\<close>: the run queue of 256 priorities with its two
  levels of bitmaps, the switch to the next task, blocking and waking, locks, semaphores, signals,
  task exit and the reaping of dead tasks, kernel stacks, and the timer handler of
  \<^verbatim>\<open>kernel/io/irq.c\<close> that drives it. A \<^verbatim>\<open>process_control_block_t *\<close> is a number that names the
  block, and NULL is \<open>None\<close>. The queues of the run queue keep the code's head, tail and
  \<^verbatim>\<open>rq_next\<close> pointers, because a block that is enqueued twice breaks them; the task list, the
  zombie list and the lists of waiters are lists in the order of their links.
\<close>

subsection \<open>Process control blocks and the state of the scheduler\<close>

datatype proc_state =
    PROCESS_STATE_UNUSED | PROCESS_STATE_RUNNING | PROCESS_STATE_READY
  | PROCESS_STATE_BLOCKED | PROCESS_STATE_TERMINATED

datatype cpu_mode = CPU_KERNEL_MODE | CPU_USER_MODE

definition MAX_PRIORITY :: nat where "MAX_PRIORITY = 256"
definition PRIORITY_DECAY_RATE :: int where "PRIORITY_DECAY_RATE = 10"
definition PRIORITY_QUANTA_PUNISH :: int where "PRIORITY_QUANTA_PUNISH = 10"
definition PRIORITY_RESET_DECAY :: nat where "PRIORITY_RESET_DECAY = 10"
definition EXIT_SIGINT :: u8 where "EXIT_SIGINT = 2"
definition EXIT_SIGPIPE :: u8 where "EXIT_SIGPIPE = 13"
definition EXIT_SIGALRM :: u8 where "EXIT_SIGALRM = 14"
definition SIGNAL_TRAMPOLINE_ADDR :: u32 where "SIGNAL_TRAMPOLINE_ADDR = 0xBFF00000"
definition EFAULT :: int where "EFAULT = 14"

text \<open>The registers of a \<^verbatim>\<open>processor_context_t\<close> that the scheduler reads or writes; the others are
  copied with them and are kept in \<open>other_regs\<close>.\<close>

record processor_context =
  eax :: u32
  eip :: u32
  cs :: u32
  esp_at_trap :: u32
  other_regs :: "u32 list"

record pcb =
  pid :: u32
  pstate :: proc_state
  pname :: "u8 list"
  cwd :: "u8 list"
  entry :: u32
  k_esp :: nat
  esp_max :: nat
  esp_min :: nat
  k_eflags :: u32
  priv :: cpu_mode
  proc_ctx :: processor_context
  exit_signal :: u8
  esp0 :: nat
  fpu_fx :: "u8 list"
  rq_next :: "nat option"
  priority :: u8
  address_space :: nat
  brk_start :: u32
  brk_end :: u32
  waiting_on :: int
  status_ptr :: u32
  quanta_used :: u32
  original_priority :: u8
  reset_count :: u8
  signal_handlers :: "nat \<Rightarrow> u32"
  signal_bitmask :: u32
  blocked_signals :: u32
  signal_ctx :: processor_context
  signal_fpu_fx :: "u8 list"
  in_signal_handler :: bool
  no_requeue :: bool
  alarm_ticks :: u32
  cpu_user_ticks :: u32
  cpu_kernel_ticks :: u32
  user_mem :: "u32 \<Rightarrow> u32"

record prio_queue =
  q_head :: "nat option"
  q_tail :: "nat option"

record sched_state =
  tasks :: "nat \<Rightarrow> pcb"
  prio_q :: "nat \<Rightarrow> prio_queue"
  top_bitmap :: u8
  prio_bitmap :: "nat \<Rightarrow> u32"
  current_task :: nat
  task_list :: "nat list"
  zombie_list :: "nat list"
  reaped :: "nat list"
  next_pid :: u32
  next_kernel_stack :: nat
  free_kernel_stacks :: nat
  stack_mem :: "nat \<Rightarrow> nat"
  current_aspace :: nat
  multitasking_ready :: bool
  lock_count :: u32
  saved_eflags :: u32
  eflags :: u32
  preempt_count :: u32
  fx_clean :: "u8 list"

abbreviation upd_task :: "nat \<Rightarrow> (pcb \<Rightarrow> pcb) \<Rightarrow> sched_state \<Rightarrow> sched_state" where
  "upd_task t f s \<equiv> s\<lparr>tasks := (tasks s)(t := f (tasks s t))\<rparr>"

subsection \<open>The scheduler lock and preemption\<close>

text \<open>Bit 9 of EFLAGS is the interrupt flag, which \<^verbatim>\<open>cli\<close> clears and \<^verbatim>\<open>sti\<close> sets.\<close>

definition cli :: "sched_state \<Rightarrow> sched_state" where
  "cli s = s\<lparr>eflags := eflags s AND NOT 0x200\<rparr>"

definition sti :: "sched_state \<Rightarrow> sched_state" where
  "sti s = s\<lparr>eflags := eflags s OR 0x200\<rparr>"

definition lock_scheduler :: "sched_state \<Rightarrow> sched_state" where
  "lock_scheduler s =
     (if \<not> multitasking_ready s then s
      else let s1 = (if lock_count s = 0 then s\<lparr>saved_eflags := eflags s\<rparr> else s)
           in cli (s1\<lparr>lock_count := lock_count s1 + 1\<rparr>))"

definition unlock_scheduler :: "sched_state \<Rightarrow> sched_state" where
  "unlock_scheduler s =
     (if \<not> multitasking_ready s then s
      else let s1 = s\<lparr>lock_count := lock_count s - 1\<rparr>
           in if lock_count s1 = 0 then (if saved_eflags s1 AND 0x200 \<noteq> 0 then sti s1 else s1) else s1)"

definition preempt_disable :: "sched_state \<Rightarrow> sched_state" where
  "preempt_disable s = s\<lparr>preempt_count := preempt_count s + 1\<rparr>"

definition preempt_enable :: "sched_state \<Rightarrow> sched_state" where
  "preempt_enable s = (if preempt_count s > 0 then s\<lparr>preempt_count := preempt_count s - 1\<rparr> else s)"

subsection \<open>The bitmaps\<close>

text \<open>The compiler builtins that count leading and trailing zero bits; they are undefined at 0.\<close>

definition builtin_clz :: "u32 \<Rightarrow> nat" where
  "builtin_clz w = length (takeWhile (\<lambda>i. \<not> bit w i) (rev [0..<32]))"

definition builtin_ctz :: "u32 \<Rightarrow> nat" where
  "builtin_ctz w = length (takeWhile (\<lambda>i. \<not> bit w i) [0..<32])"

definition bm_set :: "u8 \<Rightarrow> sched_state \<Rightarrow> sched_state" where
  "bm_set p s =
     (let wd = unat (drop_bit 5 p); b = unat (p AND 31)
      in s\<lparr>prio_bitmap := (prio_bitmap s)(wd := prio_bitmap s wd OR push_bit b 1),
           top_bitmap := top_bitmap s OR push_bit wd 1\<rparr>)"

definition bm_clear :: "u8 \<Rightarrow> sched_state \<Rightarrow> sched_state" where
  "bm_clear p s =
     (let wd = unat (drop_bit 5 p); b = unat (p AND 31);
          s1 = s\<lparr>prio_bitmap := (prio_bitmap s)(wd := prio_bitmap s wd AND NOT (push_bit b 1))\<rparr>
      in if prio_bitmap s1 wd = 0 then s1\<lparr>top_bitmap := top_bitmap s1 AND NOT (push_bit wd 1)\<rparr> else s1)"

definition highest_ready_prio :: "sched_state \<Rightarrow> nat option" where
  "highest_ready_prio s =
     (let tb = top_bitmap s
      in if tb = 0 then None
         else let wd = 31 - builtin_clz (ucast tb);
                  b = 31 - builtin_clz (prio_bitmap s wd)
              in Some (push_bit 5 wd OR b))"

subsection \<open>The run queue\<close>

text \<open>A queue with a head has a tail: the code dereferences it without a check.\<close>

definition enqueue :: "nat \<Rightarrow> sched_state \<Rightarrow> sched_state" where
  "enqueue t s =
     (let s1 = lock_scheduler s;
          p = priority (tasks s1 t);
          q = prio_q s1 (unat p);
          s2 = upd_task t (rq_next_update (\<lambda>_. None)) s1;
          s3 = (case q_head q of
                  None \<Rightarrow> bm_set p (s2\<lparr>prio_q := (prio_q s2)(unat p := \<lparr>q_head = Some t, q_tail = Some t\<rparr>)\<rparr>)
                | Some h \<Rightarrow>
                    (upd_task (the (q_tail q)) (rq_next_update (\<lambda>_. Some t)) s2)
                      \<lparr>prio_q := (prio_q s2)(unat p := q\<lparr>q_tail := Some t\<rparr>)\<rparr>)
      in unlock_scheduler s3)"

definition dequeue :: "sched_state \<Rightarrow> nat option \<times> sched_state" where
  "dequeue s =
     (case highest_ready_prio s of
        None \<Rightarrow> (None, s)
      | Some p \<Rightarrow>
          (let q = prio_q s p
           in case q_head q of
                None \<Rightarrow> (None, bm_clear (word_of_nat p) s)
              | Some t \<Rightarrow>
                  (let q1 = q\<lparr>q_head := rq_next (tasks s t)\<rparr>;
                       s1 = upd_task t (rq_next_update (\<lambda>_. None)) s
                   in if q_head q1 = None
                      then (Some t, bm_clear (word_of_nat p) (s1\<lparr>prio_q := (prio_q s1)(p := q1\<lparr>q_tail := None\<rparr>)\<rparr>))
                      else (Some t, s1\<lparr>prio_q := (prio_q s1)(p := q1)\<rparr>))))"

subsection \<open>Bit counting\<close>

lemma takeWhile_rev_upt:
  "(\<exists>i < n. P i) \<Longrightarrow> length (takeWhile (\<lambda>i. \<not> P i) (rev [0..<n])) = n - 1 - (GREATEST i. i < n \<and> P i)"
proof (induction n)
  case 0
  then show ?case by simp
next
  case (Suc n)
  show ?case
  proof (cases "P n")
    case True
    then have "(GREATEST i. i < Suc n \<and> P i) = n" by (intro Greatest_equality) auto
    then show ?thesis using True by simp
  next
    case False
    then have e: "\<exists>i < n. P i" using Suc.prems by (auto simp: less_Suc_eq)
    have g: "(GREATEST i. i < Suc n \<and> P i) = (GREATEST i. i < n \<and> P i)"
      using False by (metis less_Suc_eq)
    have "(GREATEST i. i < n \<and> P i) < n"
      using GreatestI_ex_nat [of "\<lambda>i. i < n \<and> P i" n] e by auto
    with Suc.IH [OF e] False g show ?thesis by simp
  qed
qed

lemma clz_highest:
  assumes "w \<noteq> 0"
  shows "bit w (31 - builtin_clz w)" and "31 - builtin_clz w < 32"
    and "\<And>j. bit w j \<Longrightarrow> j \<le> 31 - builtin_clz w"
proof -
  have len: "bit w j \<Longrightarrow> j < 32" for j using bit_imp_le_length [of w j] by simp
  from assms obtain i where i: "bit w i" by (metis bit_eq_iff bit_0_eq bot_apply bot_bool_def)
  then have ex: "\<exists>i < 32. bit w i" using len by blast
  let ?g = "GREATEST i. i < 32 \<and> bit w i"
  have g: "?g < 32 \<and> bit w ?g"
    using GreatestI_ex_nat [of "\<lambda>i. i < 32 \<and> bit w i" 32] ex by auto
  have "builtin_clz w = 32 - 1 - ?g" unfolding builtin_clz_def by (rule takeWhile_rev_upt [OF ex])
  then have e: "31 - builtin_clz w = ?g" using g by simp
  show "bit w (31 - builtin_clz w)" "31 - builtin_clz w < 32" using g e by auto
  show "j \<le> 31 - builtin_clz w" if "bit w j" for j
    unfolding e using that len by (intro Greatest_le_nat [of _ _ 32]) auto
qed

lemma ctz_lowest:
  assumes "w \<noteq> 0"
  shows "bit w (builtin_ctz w)" and "builtin_ctz w < 32" and "\<And>j. j < builtin_ctz w \<Longrightarrow> \<not> bit w j"
proof -
  let ?P = "\<lambda>i. \<not> bit w i"
  from assms obtain i where i: "bit w i" by (metis bit_eq_iff bit_0_eq bot_apply bot_bool_def)
  have "i < 32" using bit_imp_le_length [OF i] by simp
  have lt: "builtin_ctz w < length [0..<32]"
  proof -
    have "takeWhile ?P [0..<32] \<noteq> [0..<32]"
      unfolding takeWhile_eq_all_conv using i \<open>i < 32\<close> by auto
    then have "length (takeWhile ?P [0..<32]) \<noteq> length [0..<32]"
      using takeWhile_eq_take [of ?P "[0..<32]"] take_all [OF order_refl, of "[0..<32]"] by metis
    then show ?thesis unfolding builtin_ctz_def using length_takeWhile_le [of ?P "[0..<32]"] by linarith
  qed
  then show "builtin_ctz w < 32" by simp
  show "bit w (builtin_ctz w)"
    using nth_length_takeWhile [of ?P "[0..<32]"] lt unfolding builtin_ctz_def by simp
  show "\<not> bit w j" if "j < builtin_ctz w" for j
    using takeWhile_nth [of j ?P "[0..<32]"] that lt nth_mem [of j "takeWhile ?P [0..<32]"]
    unfolding builtin_ctz_def
    by (metis (no_types, lifting) add_0 length_upt minus_nat.diff_0 nth_upt order.strict_trans set_takeWhileD)
qed

subsection \<open>The invariant of the run queue\<close>

lemma prio_word: "unat (drop_bit 5 (p :: u8)) = unat p div 32"
proof -
  have "unat (drop_bit 5 p) = unat p div 2 ^ 5" unfolding unat_drop_bit_eq by (rule drop_bit_eq_div)
  then show ?thesis by simp
qed

lemma prio_bit: "unat ((p :: u8) AND 31) = unat p mod 32"
proof -
  have e: "p AND 31 = take_bit 5 p" by (simp add: take_bit_eq_mask mask_eq_exp_minus_1)
  have "unat (p AND 31) = unat p mod 2 ^ 5" unfolding e unsigned_take_bit_eq by (rule take_bit_eq_mod)
  then show ?thesis by simp
qed

lemma or_shift5: "b < 32 \<Longrightarrow> push_bit 5 a OR b = a * 32 + (b :: nat)"
proof -
  assume "b < 32"
  have "push_bit 5 a AND b = 0"
  proof (rule bit_eqI)
    fix n
    have "bit b n \<Longrightarrow> n < 5"
    proof (rule ccontr)
      assume "bit b n" "\<not> n < 5"
      then have "odd (b div 2 ^ n)" by (simp add: bit_iff_odd)
      moreover have "(32 :: nat) \<le> 2 ^ n" using power_increasing [of 5 n "2 :: nat"] \<open>\<not> n < 5\<close> by simp
      ultimately show False using \<open>b < 32\<close> by simp
    qed
    then show "bit (push_bit 5 a AND b) n \<longleftrightarrow> bit (0 :: nat) n" by (auto simp: bit_simps)
  qed
  then show ?thesis by (simp add: disjunctive_add_eq_or [symmetric] push_bit_eq_mult)
qed

definition queued :: "(nat \<Rightarrow> nat list) \<Rightarrow> nat set" where
  "queued qs = (\<Union>p \<in> {..<256}. set (qs p))"

definition rq_inv :: "sched_state \<Rightarrow> (nat \<Rightarrow> nat list) \<Rightarrow> bool" where
  "rq_inv s qs \<longleftrightarrow>
     (\<forall>p < 256. chain (\<lambda>t. rq_next (tasks s t)) (q_head (prio_q s p)) (qs p)) \<and>
     (\<forall>p < 256. distinct (qs p)) \<and>
     (\<forall>p < 256. qs p \<noteq> [] \<longrightarrow> q_tail (prio_q s p) = Some (last (qs p))) \<and>
     (\<forall>p < 256. \<forall>p' < 256. p \<noteq> p' \<longrightarrow> set (qs p) \<inter> set (qs p') = {}) \<and>
     (\<forall>p < 256. bit (prio_bitmap s (p div 32)) (p mod 32) \<longleftrightarrow> qs p \<noteq> []) \<and>
     (\<forall>w < 8. bit (top_bitmap s) w \<longleftrightarrow> prio_bitmap s w \<noteq> 0) \<and>
     (\<forall>p < 256. \<forall>t. t \<in> set (qs p) \<longrightarrow> unat (priority (tasks s t)) = p)"

lemma rq_invD:
  assumes "rq_inv s qs"
  shows "p < 256 \<Longrightarrow> chain (\<lambda>t. rq_next (tasks s t)) (q_head (prio_q s p)) (qs p)"
    and "p < 256 \<Longrightarrow> distinct (qs p)"
    and "p < 256 \<Longrightarrow> qs p \<noteq> [] \<Longrightarrow> q_tail (prio_q s p) = Some (last (qs p))"
    and "p < 256 \<Longrightarrow> p' < 256 \<Longrightarrow> p \<noteq> p' \<Longrightarrow> set (qs p) \<inter> set (qs p') = {}"
    and "p < 256 \<Longrightarrow> bit (prio_bitmap s (p div 32)) (p mod 32) \<longleftrightarrow> qs p \<noteq> []"
    and "w < 8 \<Longrightarrow> bit (top_bitmap s) w \<longleftrightarrow> prio_bitmap s w \<noteq> 0"
    and "p < 256 \<Longrightarrow> t \<in> set (qs p) \<Longrightarrow> unat (priority (tasks s t)) = p"
  using assms unfolding rq_inv_def by blast+

lemma rq_inv_cong:
  assumes "rq_inv s qs" and "\<And>t. t \<in> queued qs \<Longrightarrow> rq_next (tasks s' t) = rq_next (tasks s t)"
    and "\<And>t. t \<in> queued qs \<Longrightarrow> priority (tasks s' t) = priority (tasks s t)"
    and "prio_q s' = prio_q s" "prio_bitmap s' = prio_bitmap s" "top_bitmap s' = top_bitmap s"
  shows "rq_inv s' qs"
proof -
  have "chain (\<lambda>t. rq_next (tasks s' t)) h (qs p) \<longleftrightarrow> chain (\<lambda>t. rq_next (tasks s t)) h (qs p)"
    if "p < 256" for p h
    by (rule chain_cong) (use assms(2) that in \<open>auto simp: queued_def\<close>)
  moreover have "unat (priority (tasks s' t)) = p" if "p < 256" "t \<in> set (qs p)" for p t
  proof -
    have "t \<in> queued qs" using that by (auto simp: queued_def)
    then show ?thesis using assms(3) rq_invD(7) [OF assms(1) that] by simp
  qed
  ultimately show ?thesis using assms(1) unfolding rq_inv_def assms(4-6) by simp
qed

lemma sched_lock_fields [simp]:
  "tasks (lock_scheduler s) = tasks s" "prio_q (lock_scheduler s) = prio_q s"
  "top_bitmap (lock_scheduler s) = top_bitmap s" "prio_bitmap (lock_scheduler s) = prio_bitmap s"
  "current_task (lock_scheduler s) = current_task s" "task_list (lock_scheduler s) = task_list s"
  "zombie_list (lock_scheduler s) = zombie_list s" "reaped (lock_scheduler s) = reaped s"
  "next_pid (lock_scheduler s) = next_pid s" "next_kernel_stack (lock_scheduler s) = next_kernel_stack s"
  "free_kernel_stacks (lock_scheduler s) = free_kernel_stacks s" "stack_mem (lock_scheduler s) = stack_mem s"
  "current_aspace (lock_scheduler s) = current_aspace s"
  "multitasking_ready (lock_scheduler s) = multitasking_ready s" "preempt_count (lock_scheduler s) = preempt_count s"
  by (simp_all add: lock_scheduler_def cli_def Let_def)

lemma sched_unlock_fields [simp]:
  "tasks (unlock_scheduler s) = tasks s" "prio_q (unlock_scheduler s) = prio_q s"
  "top_bitmap (unlock_scheduler s) = top_bitmap s" "prio_bitmap (unlock_scheduler s) = prio_bitmap s"
  "current_task (unlock_scheduler s) = current_task s" "task_list (unlock_scheduler s) = task_list s"
  "zombie_list (unlock_scheduler s) = zombie_list s" "reaped (unlock_scheduler s) = reaped s"
  "next_pid (unlock_scheduler s) = next_pid s" "next_kernel_stack (unlock_scheduler s) = next_kernel_stack s"
  "free_kernel_stacks (unlock_scheduler s) = free_kernel_stacks s" "stack_mem (unlock_scheduler s) = stack_mem s"
  "current_aspace (unlock_scheduler s) = current_aspace s"
  "multitasking_ready (unlock_scheduler s) = multitasking_ready s" "preempt_count (unlock_scheduler s) = preempt_count s"
  by (simp_all add: unlock_scheduler_def sti_def Let_def)

lemma bm_fields [simp]:
  "tasks (bm_set p s) = tasks s" "prio_q (bm_set p s) = prio_q s"
  "current_task (bm_set p s) = current_task s" "task_list (bm_set p s) = task_list s"
  "zombie_list (bm_set p s) = zombie_list s" "reaped (bm_set p s) = reaped s"
  "tasks (bm_clear p s) = tasks s" "prio_q (bm_clear p s) = prio_q s"
  "current_task (bm_clear p s) = current_task s" "task_list (bm_clear p s) = task_list s"
  "zombie_list (bm_clear p s) = zombie_list s" "reaped (bm_clear p s) = reaped s"
  by (simp_all add: bm_set_def bm_clear_def Let_def)

lemma prio_lt: "unat (p :: u8) < 256"
  using unsigned_less [of p] by simp

lemma div_mod_eq: "p' div 32 = p div 32 \<Longrightarrow> p' mod 32 = p mod 32 \<Longrightarrow> p' = (p :: nat)"
  by (metis div_mod_decomp)

lemma bm_set_bit:
  "bit (prio_bitmap (bm_set p s) (p' div 32)) (p' mod 32)
     \<longleftrightarrow> bit (prio_bitmap s (p' div 32)) (p' mod 32) \<or> p' = unat p"
proof -
  have "unat p mod 32 < 32" by simp
  then show ?thesis
    by (auto simp: bm_set_def Let_def prio_word prio_bit bit_simps dest: div_mod_eq)
qed

lemma bm_clear_words:
  "prio_bitmap (bm_clear p s) = (prio_bitmap s)(unat p div 32 :=
     prio_bitmap s (unat p div 32) AND NOT (push_bit (unat p mod 32) 1))"
  by (simp add: bm_clear_def Let_def prio_word prio_bit)

lemma bm_clear_bit:
  "bit (prio_bitmap (bm_clear p s) (p' div 32)) (p' mod 32)
     \<longleftrightarrow> bit (prio_bitmap s (p' div 32)) (p' mod 32) \<and> p' \<noteq> unat p"
proof -
  have m: "p' mod 32 < 32" by simp
  have "bit (prio_bitmap s w AND NOT (push_bit (unat p mod 32) 1)) (p' mod 32)
      \<longleftrightarrow> bit (prio_bitmap s w) (p' mod 32) \<and> p' mod 32 \<noteq> unat p mod 32" for w
    using m by (auto simp: bit_simps)
  then show ?thesis
    unfolding bm_clear_words by (cases "p' div 32 = unat p div 32") (auto simp del: push_bit_of_1 dest: div_mod_eq)
qed

lemma bm_set_top:
  assumes "\<And>w. w < 8 \<Longrightarrow> bit (top_bitmap s) w \<longleftrightarrow> prio_bitmap s w \<noteq> 0" and "w < 8"
  shows "bit (top_bitmap (bm_set p s)) w \<longleftrightarrow> prio_bitmap (bm_set p s) w \<noteq> 0"
proof -
  have "bit (prio_bitmap s w OR push_bit (unat p mod 32) 1) (unat p mod 32)" for w
    by (auto simp: bit_simps)
  then have nz: "prio_bitmap s w OR push_bit (unat p mod 32) 1 \<noteq> 0" for w
    by (metis bit_0_eq bot_apply bot_bool_def)
  show ?thesis
    using assms nz by (auto simp: bm_set_def Let_def prio_word prio_bit bit_simps)
qed

lemma bm_clear_top:
  assumes "\<And>w. w < 8 \<Longrightarrow> bit (top_bitmap s) w \<longleftrightarrow> prio_bitmap s w \<noteq> 0" and "w < 8"
    and nz: "prio_bitmap s (unat p div 32) \<noteq> 0"
  shows "bit (top_bitmap (bm_clear p s)) w \<longleftrightarrow> prio_bitmap (bm_clear p s) w \<noteq> 0"
  using assms by (auto simp: bm_clear_def Let_def prio_word prio_bit bit_simps)

lemma highest_ready_prio_None:
  assumes "rq_inv s qs"
  shows "highest_ready_prio s = None \<longleftrightarrow> (\<forall>p < 256. qs p = [])"
proof
  assume "highest_ready_prio s = None"
  then have tb: "top_bitmap s = 0" by (auto simp: highest_ready_prio_def Let_def split: if_splits)
  show "\<forall>p < 256. qs p = []"
  proof (intro allI impI)
    fix p :: nat
    assume p: "p < 256"
    then have "p div 32 < 8" by simp
    with rq_invD(6) [OF assms this] tb have "prio_bitmap s (p div 32) = 0" by simp
    with rq_invD(5) [OF assms p] show "qs p = []" by simp
  qed
next
  assume emp: "\<forall>p < 256. qs p = []"
  have "\<not> bit (top_bitmap s) w" for w
  proof
    assume b: "bit (top_bitmap s) w"
    then have "w < 8" using bit_imp_le_length by fastforce
    with b rq_invD(6) [OF assms this] have "prio_bitmap s w \<noteq> 0" by simp
    then obtain i where i: "bit (prio_bitmap s w) i" by (metis bit_eq_iff bit_0_eq bot_apply bot_bool_def)
    then have "i < 32" using bit_imp_le_length by fastforce
    then have "(w * 32 + i) div 32 = w" "(w * 32 + i) mod 32 = i" "w * 32 + i < 256" using \<open>w < 8\<close> by auto
    with rq_invD(5) [OF assms, of "w * 32 + i"] i have "qs (w * 32 + i) \<noteq> []" by simp
    with emp \<open>w * 32 + i < 256\<close> show False by blast
  qed
  then have "top_bitmap s = 0" by (intro bit_eqI) simp
  then show "highest_ready_prio s = None" by (simp add: highest_ready_prio_def)
qed

lemma highest_ready_prio_Some:
  assumes "rq_inv s qs" and "highest_ready_prio s = Some p"
  shows "p < 256" and "qs p \<noteq> []" and "\<And>p'. p < p' \<Longrightarrow> p' < 256 \<Longrightarrow> qs p' = []"
proof -
  let ?tb = "ucast (top_bitmap s) :: u32"
  let ?wd = "31 - builtin_clz ?tb"
  let ?b = "31 - builtin_clz (prio_bitmap s ?wd)"
  have tb0: "top_bitmap s \<noteq> 0" and p: "p = push_bit 5 ?wd OR ?b"
    using assms(2) by (auto simp: highest_ready_prio_def Let_def split: if_splits)
  have bt: "bit ?tb i \<longleftrightarrow> bit (top_bitmap s) i" for i
    using bit_imp_le_length [of "top_bitmap s" i] by (auto simp: bit_simps)
  have tb: "?tb \<noteq> 0" using tb0 bt by (metis bit_eq_iff bit_0_eq bot_apply bot_bool_def)
  note W = clz_highest [OF tb]
  have w: "bit (top_bitmap s) ?wd" using W(1) bt by blast
  have w8: "?wd < 8" using bit_imp_le_length [OF w] by simp
  have pb: "prio_bitmap s ?wd \<noteq> 0" using rq_invD(6) [OF assms(1) w8] w by blast
  note B = clz_highest [OF pb]
  have pe: "p = ?wd * 32 + ?b" unfolding p by (rule or_shift5 [OF B(2)])
  have dm: "p div 32 = ?wd" "p mod 32 = ?b" unfolding pe using B(2) by auto
  show p256: "p < 256" unfolding pe using B(2) w8 by linarith
  show "qs p \<noteq> []" using rq_invD(5) [OF assms(1) p256] B(1) dm by simp
  show "qs p' = []" if "p < p'" "p' < 256" for p'
  proof (rule ccontr)
    assume "qs p' \<noteq> []"
    then have b: "bit (prio_bitmap s (p' div 32)) (p' mod 32)" using rq_invD(5) [OF assms(1) that(2)] by simp
    then have "prio_bitmap s (p' div 32) \<noteq> 0" by (metis bit_0_eq bot_apply bot_bool_def)
    moreover have "p' div 32 < 8" using that(2) by simp
    ultimately have "bit (top_bitmap s) (p' div 32)" using rq_invD(6) [OF assms(1)] by blast
    then have le: "p' div 32 \<le> ?wd" using W(3) bt by blast
    have ge: "?wd \<le> p' div 32" using that(1) dm(1) by (metis div_le_mono less_imp_le)
    then have "p' div 32 = ?wd" using le by simp
    with b B(3) have "p' mod 32 \<le> ?b" by simp
    then have "p' \<le> p" using \<open>p' div 32 = ?wd\<close> pe by (metis add_le_cancel_left div_mult_mod_eq)
    with that(1) show False by simp
  qed
qed

subsection \<open>Enqueue and dequeue implement a queue per priority\<close>

lemma chain_snoc:
  assumes "chain f h xs" "xs \<noteq> []" "distinct xs" "t \<notin> set xs"
  shows "chain (f(t := None, last xs := Some t)) h (xs @ [t])"
  using assms
proof (induction xs arbitrary: h)
  case Nil
  then show ?case by simp
next
  case (Cons x xs)
  show ?case
  proof (cases "xs = []")
    case True
    with Cons.prems show ?thesis by auto
  next
    case False
    then have "last xs \<in> set xs" "last xs \<noteq> x" using Cons.prems by auto
    then show ?thesis using Cons False by auto
  qed
qed

lemma enqueue_task: "\<exists>r. tasks (enqueue t s) u = (tasks s u)\<lparr>rq_next := r\<rparr>"
proof (cases "q_head (prio_q s (unat (priority (tasks s t))))")
  case None
  then show ?thesis by (auto simp: enqueue_def Let_def intro: exI [of _ "rq_next (tasks s u)"])
next
  case (Some a)
  then show ?thesis by (auto simp: enqueue_def Let_def intro: exI [of _ "rq_next (tasks s u)"])
qed

lemma enqueue_task_fields [simp]:
  "pstate (tasks (enqueue t s) u) = pstate (tasks s u)" "priority (tasks (enqueue t s) u) = priority (tasks s u)"
  "waiting_on (tasks (enqueue t s) u) = waiting_on (tasks s u)" "priv (tasks (enqueue t s) u) = priv (tasks s u)"
  "no_requeue (tasks (enqueue t s) u) = no_requeue (tasks s u)" "pid (tasks (enqueue t s) u) = pid (tasks s u)"
  "signal_bitmask (tasks (enqueue t s) u) = signal_bitmask (tasks s u)"
  "blocked_signals (tasks (enqueue t s) u) = blocked_signals (tasks s u)"
  "signal_handlers (tasks (enqueue t s) u) = signal_handlers (tasks s u)"
  "in_signal_handler (tasks (enqueue t s) u) = in_signal_handler (tasks s u)"
  "proc_ctx (tasks (enqueue t s) u) = proc_ctx (tasks s u)" "user_mem (tasks (enqueue t s) u) = user_mem (tasks s u)"
  "status_ptr (tasks (enqueue t s) u) = status_ptr (tasks s u)"
  using enqueue_task [of t s u] by auto

lemma enqueue_fields [simp]:
  "current_task (enqueue t s) = current_task s" "task_list (enqueue t s) = task_list s"
  "zombie_list (enqueue t s) = zombie_list s" "reaped (enqueue t s) = reaped s"
  "next_pid (enqueue t s) = next_pid s" "multitasking_ready (enqueue t s) = multitasking_ready s"
  by (auto simp: enqueue_def Let_def bm_set_def split: option.split)

lemma enqueue_next:
  assumes "rq_inv s qs" and "p = unat (priority (tasks s t))"
  shows "(\<lambda>u. rq_next (tasks (enqueue t s) u)) =
     (if qs p = [] then (\<lambda>u. rq_next (tasks s u))(t := None)
      else (\<lambda>u. rq_next (tasks s u))(t := None, last (qs p) := Some t))"
proof -
  have p: "p < 256" unfolding assms(2) by (rule prio_lt)
  have h: "q_head (prio_q s p) = None \<longleftrightarrow> qs p = []"
    using rq_invD(1) [OF assms(1) p] by (cases "qs p") auto
  show ?thesis
  proof (cases "qs p")
    case Nil
    then show ?thesis using h by (auto simp: enqueue_def Let_def assms(2))
  next
    case (Cons a xs)
    then have "q_tail (prio_q s p) = Some (last (qs p))" using rq_invD(3) [OF assms(1) p] by simp
    with Cons h show ?thesis
      by (cases "q_head (prio_q s p)") (auto simp: enqueue_def Let_def assms(2) fun_eq_iff)
  qed
qed

lemma enqueue_inv:
  assumes inv: "rq_inv s qs" and t: "t \<notin> queued qs" and p_def: "p = unat (priority (tasks s t))"
  shows "rq_inv (enqueue t s) (qs(p := qs p @ [t]))"
proof -
  have p: "p < 256" unfolding p_def by (rule prio_lt)
  have tn: "t \<notin> set (qs p')" if "p' < 256" for p' using t that by (auto simp: queued_def)
  have h: "q_head (prio_q s p) = None \<longleftrightarrow> qs p = []"
    using rq_invD(1) [OF inv p] by (cases "qs p") auto
  let ?s = "enqueue t s"
  have pq_other: "prio_q ?s p' = prio_q s p'" if "p' \<noteq> p" for p'
    using that by (auto simp: enqueue_def Let_def p_def split: option.split)
  have pq_head: "q_head (prio_q ?s p) = (if qs p = [] then Some t else q_head (prio_q s p))"
    using h by (cases "q_head (prio_q s p)") (auto simp: enqueue_def Let_def p_def)
  have pq_tail: "q_tail (prio_q ?s p) = Some t"
    by (auto simp: enqueue_def Let_def p_def split: option.split)
  have pb: "prio_bitmap ?s = (if qs p = [] then prio_bitmap (bm_set (priority (tasks s t)) s) else prio_bitmap s)"
    using h by (cases "q_head (prio_q s p)") (auto simp: enqueue_def Let_def p_def bm_set_def)
  have tb: "top_bitmap ?s = (if qs p = [] then top_bitmap (bm_set (priority (tasks s t)) s) else top_bitmap s)"
    using h by (cases "q_head (prio_q s p)") (auto simp: enqueue_def Let_def p_def bm_set_def)
  let ?f = "\<lambda>u. rq_next (tasks s u)"
  have nx: "(\<lambda>u. rq_next (tasks ?s u)) = (if qs p = [] then ?f(t := None) else ?f(t := None, last (qs p) := Some t))"
    by (rule enqueue_next [OF inv p_def])
  have ch: "chain (\<lambda>u. rq_next (tasks ?s u)) (q_head (prio_q ?s p')) ((qs(p := qs p @ [t])) p')" if p': "p' < 256" for p'
  proof (cases "p' = p")
    case True
    then show ?thesis
      unfolding nx using pq_head chain_snoc [OF rq_invD(1) [OF inv p] _ rq_invD(2) [OF inv p] tn [OF p]] by auto
  next
    case False
    have "last (qs p) \<notin> set (qs p')" if "qs p \<noteq> []"
      using rq_invD(4) [OF inv p p'] False last_in_set [OF that] by blast
    then show ?thesis unfolding nx using pq_other [OF False] False rq_invD(1) [OF inv p'] tn [OF p'] by auto
  qed
  have di: "distinct ((qs(p := qs p @ [t])) p')" if p': "p' < 256" for p'
    using rq_invD(2) [OF inv p'] tn [OF p'] by auto
  have ta: "q_tail (prio_q ?s p') = Some (last ((qs(p := qs p @ [t])) p'))"
    if p': "p' < 256" and ne: "(qs(p := qs p @ [t])) p' \<noteq> []" for p'
    using rq_invD(3) [OF inv p'] ne pq_tail pq_other [of p'] by (cases "p' = p") auto
  have dj: "set ((qs(p := qs p @ [t])) p1) \<inter> set ((qs(p := qs p @ [t])) p2) = {}"
    if "p1 < 256" "p2 < 256" "p1 \<noteq> p2" for p1 p2
    using rq_invD(4) [OF inv that] tn [OF that(1)] tn [OF that(2)] that(3) by auto
  have bt: "bit (prio_bitmap ?s (p' div 32)) (p' mod 32) \<longleftrightarrow> (qs(p := qs p @ [t])) p' \<noteq> []" if p': "p' < 256" for p'
    unfolding pb using rq_invD(5) [OF inv p'] by (auto simp: bm_set_bit p_def)
  have tp: "bit (top_bitmap ?s) w \<longleftrightarrow> prio_bitmap ?s w \<noteq> 0" if w: "w < 8" for w
    unfolding pb tb using rq_invD(6) [OF inv w] bm_set_top [OF rq_invD(6) [OF inv] w] by auto
  have pr: "unat (priority (tasks ?s u)) = p'" if "p' < 256" "u \<in> set ((qs(p := qs p @ [t])) p')" for p' u
    using rq_invD(7) [OF inv that(1), of u] that(2) p_def by (auto split: if_splits)
  show ?thesis unfolding rq_inv_def using ch di ta dj bt tp pr by blast
qed

lemma queued_upd:
  assumes "rq_inv s qs" and "p < 256" and "qs p = t # ts"
  shows "queued (qs(p := ts)) = queued qs - {t}"
proof -
  have "t \<notin> set ts" using rq_invD(2) [OF assms(1,2)] assms(3) by simp
  moreover have "t \<notin> set (qs p')" if "p' < 256" "p' \<noteq> p" for p'
    using rq_invD(4) [OF assms(1) that(1) assms(2) that(2)] assms(3) by auto
  ultimately have "(\<exists>p' < 256. x \<in> set ((qs(p := ts)) p')) \<longleftrightarrow> (\<exists>p' < 256. x \<in> set (qs p')) \<and> x \<noteq> t" for x
    using assms(2,3) by (metis fun_upd_apply insertE insertCI list.simps(15))
  then show ?thesis unfolding queued_def by blast
qed

lemma queued_snoc: "p < 256 \<Longrightarrow> queued (qs(p := qs p @ [t])) = insert t (queued qs)"
  unfolding queued_def by (auto split: if_splits)

lemma queued_empty: "queued qs = {} \<longleftrightarrow> (\<forall>p < 256. qs p = [])"
  unfolding queued_def by auto

lemma dequeue_None:
  assumes "rq_inv s qs"
  shows "fst (dequeue s) = None \<longleftrightarrow> queued qs = {}" and "fst (dequeue s) = None \<Longrightarrow> snd (dequeue s) = s"
proof -
  have hd: "q_head (prio_q s p) \<noteq> None" if "highest_ready_prio s = Some p" for p
    using highest_ready_prio_Some [OF assms that] rq_invD(1) [OF assms, of p] by (cases "qs p") auto
  show "fst (dequeue s) = None \<longleftrightarrow> queued qs = {}"
    unfolding queued_empty highest_ready_prio_None [OF assms, symmetric]
    using hd by (auto simp: dequeue_def Let_def split: option.split)
  show "fst (dequeue s) = None \<Longrightarrow> snd (dequeue s) = s"
    using hd by (auto simp: dequeue_def Let_def split: option.splits if_splits)
qed

lemma dequeue_Some:
  assumes inv: "rq_inv s qs" and d: "dequeue s = (Some t, s')"
  obtains p ts where "p < 256" "qs p = t # ts" "\<And>p'. p < p' \<Longrightarrow> p' < 256 \<Longrightarrow> qs p' = []"
    "rq_inv s' (qs(p := ts))" "tasks s' = (tasks s)(t := (tasks s t)\<lparr>rq_next := None\<rparr>)"
proof -
  obtain p where hp: "highest_ready_prio s = Some p"
    using d by (auto simp: dequeue_def split: option.splits)
  note H = highest_ready_prio_Some [OF inv hp]
  obtain a ts where qp: "qs p = a # ts" using H(2) by (cases "qs p") auto
  have ch: "q_head (prio_q s p) = Some a" "chain (\<lambda>u. rq_next (tasks s u)) (rq_next (tasks s a)) ts"
    using rq_invD(1) [OF inv H(1)] qp by auto
  have a: "a = t" using d hp ch(1) by (auto simp: dequeue_def Let_def split: if_splits)
  have pu: "unat (word_of_nat p :: u8) = p" using H(1) by (simp add: unat_of_nat)
  have nn: "rq_next (tasks s t) = None \<longleftrightarrow> ts = []" using ch(2) unfolding a by (cases ts) auto
  let ?s1 = "upd_task t (rq_next_update (\<lambda>_. None)) s"
  have s': "s' = (if ts = [] then bm_clear (word_of_nat p) (?s1\<lparr>prio_q := (prio_q s)(p := (prio_q s p)\<lparr>q_head := None, q_tail := None\<rparr>)\<rparr>)
                  else ?s1\<lparr>prio_q := (prio_q s)(p := (prio_q s p)\<lparr>q_head := rq_next (tasks s t)\<rparr>)\<rparr>)"
    using d hp ch(1) nn unfolding a by (auto simp: dequeue_def Let_def)
  have tk: "tasks s' = (tasks s)(t := (tasks s t)\<lparr>rq_next := None\<rparr>)" unfolding s' by simp
  have nx: "(\<lambda>u. rq_next (tasks s' u)) = (\<lambda>u. rq_next (tasks s u))(t := None)" unfolding tk by auto
  have tnot: "t \<notin> set ((qs(p := ts)) p')" if p': "p' < 256" for p'
    using rq_invD(2) [OF inv H(1)] rq_invD(4) [OF inv H(1) p'] qp p' unfolding a by auto
  have pq: "prio_q s' p' = prio_q s p'" if "p' \<noteq> p" for p' unfolding s' using that by simp
  have ph: "q_head (prio_q s' p) = rq_next (tasks s t)" unfolding s' using nn by (cases "ts = []") auto
  have pt: "q_tail (prio_q s' p) = Some (last ts)" if "ts \<noteq> []"
    unfolding s' using rq_invD(3) [OF inv H(1)] qp that by simp
  have ch': "chain (\<lambda>u. rq_next (tasks s' u)) (q_head (prio_q s' p')) ((qs(p := ts)) p')" if p': "p' < 256" for p'
  proof -
    have "chain (\<lambda>u. rq_next (tasks s u)) (q_head (prio_q s' p')) ((qs(p := ts)) p')"
      using rq_invD(1) [OF inv p'] ch(2) pq [of p'] ph unfolding a by (cases "p' = p") auto
    then show ?thesis unfolding nx using tnot [OF p'] by simp
  qed
  have di: "distinct ((qs(p := ts)) p')" if p': "p' < 256" for p'
    using rq_invD(2) [OF inv p'] rq_invD(2) [OF inv H(1)] qp by auto
  have ta: "q_tail (prio_q s' p') = Some (last ((qs(p := ts)) p'))" if p': "p' < 256" and "(qs(p := ts)) p' \<noteq> []" for p'
    using rq_invD(3) [OF inv p'] that(2) pt pq [of p'] by (cases "p' = p") auto
  have sub: "set ((qs(p := ts)) p') \<subseteq> set (qs p')" for p' using qp by auto
  have dj: "set ((qs(p := ts)) p1) \<inter> set ((qs(p := ts)) p2) = {}" if "p1 < 256" "p2 < 256" "p1 \<noteq> p2" for p1 p2
    using rq_invD(4) [OF inv that] sub [of p1] sub [of p2] by blast
  have pnz: "prio_bitmap s (p div 32) \<noteq> 0"
    using rq_invD(5) [OF inv H(1)] H(2) by (metis bit_0_eq bot_apply bot_bool_def)
  have bt: "bit (prio_bitmap s' (p' div 32)) (p' mod 32) \<longleftrightarrow> (qs(p := ts)) p' \<noteq> []" if p': "p' < 256" for p'
    unfolding s' using rq_invD(5) [OF inv p'] qp by (auto simp: bm_clear_bit pu)
  have tp: "bit (top_bitmap s') w \<longleftrightarrow> prio_bitmap s' w \<noteq> 0" if w: "w < 8" for w
  proof (cases "ts = []")
    case True
    let ?s2 = "?s1\<lparr>prio_q := (prio_q s)(p := (prio_q s p)\<lparr>q_head := None, q_tail := None\<rparr>)\<rparr>"
    have "bit (top_bitmap (bm_clear (word_of_nat p) ?s2)) w \<longleftrightarrow> prio_bitmap (bm_clear (word_of_nat p) ?s2) w \<noteq> 0"
      by (rule bm_clear_top [OF _ w]) (use rq_invD(6) [OF inv] pnz pu in simp_all)
    then show ?thesis unfolding s' using True by simp
  next
    case False
    then show ?thesis unfolding s' using rq_invD(6) [OF inv w] by simp
  qed
  have pr: "unat (priority (tasks s' u)) = p'" if "p' < 256" "u \<in> set ((qs(p := ts)) p')" for p' u
    using rq_invD(7) [OF inv that(1), of u] that(2) qp unfolding tk by (auto split: if_splits)
  have "rq_inv s' (qs(p := ts))" unfolding rq_inv_def using ch' di ta dj bt tp pr by blast
  with that H qp tk a show thesis by blast
qed

lemma dequeue_fields [simp]:
  "current_task (snd (dequeue s)) = current_task s" "task_list (snd (dequeue s)) = task_list s"
  "zombie_list (snd (dequeue s)) = zombie_list s" "reaped (snd (dequeue s)) = reaped s"
  "next_pid (snd (dequeue s)) = next_pid s" "multitasking_ready (snd (dequeue s)) = multitasking_ready s"
  by (auto simp: dequeue_def Let_def bm_clear_def split: option.split)

subsection \<open>The interface of a queue of ready tasks\<close>

text \<open>
  What the scheduler relies on: a queue keeps one list of tasks per priority, a task joins the end
  of the list of its priority, and the task taken is the first of the highest list that is not
  empty.
\<close>

locale ready_queue =
  fixes inv :: "'s \<Rightarrow> (nat \<Rightarrow> nat list) \<Rightarrow> bool"
    and enq :: "nat \<Rightarrow> 's \<Rightarrow> 's"
    and deq :: "'s \<Rightarrow> nat option \<times> 's"
    and prio :: "'s \<Rightarrow> nat \<Rightarrow> nat"
  assumes prio_less: "prio s t < 256"
    and enq_law: "inv s qs \<Longrightarrow> t \<notin> queued qs \<Longrightarrow> inv (enq t s) (qs(prio s t := qs (prio s t) @ [t]))"
    and deq_none: "inv s qs \<Longrightarrow> deq s = (None, s') \<Longrightarrow> s' = s \<and> queued qs = {}"
    and deq_some: "inv s qs \<Longrightarrow> deq s = (Some t, s') \<Longrightarrow>
      \<exists>p ts. p < 256 \<and> qs p = t # ts \<and> (\<forall>p'. p < p' \<and> p' < 256 \<longrightarrow> qs p' = []) \<and> inv s' (qs(p := ts))"
begin

definition order :: "(nat \<Rightarrow> nat list) \<Rightarrow> nat list" where
  "order qs = concat (map qs (rev [0..<256]))"

primrec drain :: "nat \<Rightarrow> 's \<Rightarrow> nat list" where
  "drain 0 s = []"
| "drain (Suc n) s = (case deq s of (None, s') \<Rightarrow> [] | (Some t, s') \<Rightarrow> t # drain n s')"

lemma order_take:
  assumes "p < 256" "qs p = t # ts" "\<forall>p'. p < p' \<and> p' < 256 \<longrightarrow> qs p' = []"
  shows "order qs = t # order (qs(p := ts))"
proof -
  have up: "[0..<256] = [0..<p] @ p # [p + 1..<256]"
    using upt_add_eq_append [of 0 p "256 - p"] upt_conv_Cons [of p 256] assms(1) by simp
  have e: "concat (map qs (rev [p + 1..<256])) = []" "concat (map (qs(p := ts)) (rev [p + 1..<256])) = []"
    using assms(3) by auto
  have f: "map (qs(p := ts)) (rev [0..<p]) = map qs (rev [0..<p])" by auto
  have sp: "order q = concat (map q (rev [p + 1..<256])) @ q p @ concat (map q (rev [0..<p]))" for q :: "nat \<Rightarrow> nat list"
    unfolding order_def up by simp
  show ?thesis unfolding sp e f using assms(2) by simp
qed

lemma order_empty: "queued qs = {} \<Longrightarrow> order qs = []"
  unfolding order_def queued_empty by auto

lemma drain_order: "inv s qs \<Longrightarrow> length (order qs) \<le> n \<Longrightarrow> drain n s = order qs"
proof (induction n arbitrary: s qs)
  case 0
  then show ?case by simp
next
  case (Suc n)
  obtain r s' where d: "deq s = (r, s')" by fastforce
  show ?case
  proof (cases r)
    case None
    with d deq_none [OF Suc.prems(1)] have "queued qs = {}" by blast
    then show ?thesis using d None order_empty by simp
  next
    case (Some t)
    with d deq_some [OF Suc.prems(1)] obtain p ts where P: "p < 256" "qs p = t # ts"
      "\<forall>p'. p < p' \<and> p' < 256 \<longrightarrow> qs p' = []" "inv s' (qs(p := ts))" by blast
    note o = order_take [OF P(1-3)]
    have "drain n s' = order (qs(p := ts))" by (rule Suc.IH [OF P(4)]) (use Suc.prems(2) o in \<open>simp del: fun_upd_apply\<close>)
    then show ?thesis using d Some o by simp
  qed
qed

lemma drain_complete: "inv s qs \<Longrightarrow> length (order qs) \<le> n \<Longrightarrow> set (drain n s) = queued qs"
  by (simp add: drain_order) (auto simp: order_def queued_def)

end

interpretation rq: ready_queue rq_inv enqueue dequeue "\<lambda>s t. unat (priority (tasks s t))"
proof unfold_locales
  fix s s' :: sched_state and qs t
  show "unat (priority (tasks s t)) < 256" by (rule prio_lt)
  show "rq_inv (enqueue t s) (qs(unat (priority (tasks s t)) := qs (unat (priority (tasks s t))) @ [t]))"
    if "rq_inv s qs" "t \<notin> queued qs" by (rule enqueue_inv [OF that refl])
  show "s' = s \<and> queued qs = {}" if "rq_inv s qs" "dequeue s = (None, s')"
    using dequeue_None [OF that(1)] that(2) by simp
  show "\<exists>p ts. p < 256 \<and> qs p = t # ts \<and> (\<forall>p'. p < p' \<and> p' < 256 \<longrightarrow> qs p' = []) \<and> rq_inv s' (qs(p := ts))"
    if "rq_inv s qs" "dequeue s = (Some t, s')"
    by (rule dequeue_Some [OF that]) blast
qed

subsection \<open>Changing the state of a task\<close>

definition task_set_state :: "nat \<Rightarrow> proc_state \<Rightarrow> sched_state \<Rightarrow> sched_state" where
  "task_set_state t st s = unlock_scheduler (upd_task t (pstate_update (\<lambda>_. st)) (lock_scheduler s))"

definition task_unblock :: "nat \<Rightarrow> sched_state \<Rightarrow> sched_state" where
  "task_unblock t s =
     (let s1 = lock_scheduler s
      in unlock_scheduler
           (if pstate (tasks s1 t) = PROCESS_STATE_BLOCKED
            then enqueue t (upd_task t (pstate_update (\<lambda>_. PROCESS_STATE_READY)) s1)
            else s1))"

definition enqueue_task_list :: "nat \<Rightarrow> sched_state \<Rightarrow> sched_state" where
  "enqueue_task_list t s = s\<lparr>task_list := task_list s @ [t]\<rparr>"

definition get_task_count :: "sched_state \<Rightarrow> nat" where
  "get_task_count s = w32 (length (task_list s))"

definition task_lookup_by_pid :: "u32 \<Rightarrow> sched_state \<Rightarrow> nat option" where
  "task_lookup_by_pid p s = find (\<lambda>t. p = pid (tasks s t)) (task_list s)"

subsection \<open>Kernel stacks\<close>

text \<open>A free stack holds the link to the next one in its first word; 0 is NULL. \<open>None\<close> is the panic.\<close>

definition KERNEL_STACK_TOP :: nat where "KERNEL_STACK_TOP = 0xF03FC000"
definition KERNEL_STACK_BOTTOM :: nat where "KERNEL_STACK_BOTTOM = 0xF0000000"
definition KERNEL_STACK_SIZE :: nat where "KERNEL_STACK_SIZE = 16384"

definition alloc_kernel_stack :: "sched_state \<Rightarrow> (nat \<times> sched_state) option" where
  "alloc_kernel_stack s =
     (if free_kernel_stacks s \<noteq> 0
      then Some (free_kernel_stacks s, s\<lparr>free_kernel_stacks := stack_mem s (free_kernel_stacks s)\<rparr>)
      else if next_kernel_stack s < KERNEL_STACK_BOTTOM + KERNEL_STACK_SIZE then None
      else let n = next_kernel_stack s - KERNEL_STACK_SIZE in Some (n, s\<lparr>next_kernel_stack := n\<rparr>))"

definition free_kernel_stack :: "nat \<Rightarrow> sched_state \<Rightarrow> sched_state" where
  "free_kernel_stack base s =
     (if base = 0 then s
      else s\<lparr>stack_mem := (stack_mem s)(base := free_kernel_stacks s), free_kernel_stacks := base\<rparr>)"

subsection \<open>Reaping dead tasks\<close>

text \<open>The blocks freed, with their contexts and address space, are recorded in \<open>reaped\<close>.\<close>

definition reap_one :: "nat \<Rightarrow> sched_state \<Rightarrow> sched_state" where
  "reap_one t s =
     (let s1 = (if esp0 (tasks s t) \<noteq> 0
                then free_kernel_stack (sub32 (esp0 (tasks s t)) KERNEL_STACK_SIZE) s else s)
      in s1\<lparr>reaped := reaped s1 @ [t]\<rparr>)"

fun reap_scan :: "nat list \<Rightarrow> sched_state \<Rightarrow> nat list \<times> sched_state" where
  "reap_scan [] s = ([], s)"
| "reap_scan (t # ts) s =
     (if t = current_task s then (let (r, s1) = reap_scan ts s in (t # r, s1))
      else reap_scan ts (reap_one t s))"

definition reap_zombies :: "sched_state \<Rightarrow> sched_state" where
  "reap_zombies s = (let (r, s1) = reap_scan (zombie_list s) s in s1\<lparr>zombie_list := r\<rparr>)"

subsection \<open>Signals\<close>

definition task_ipc_signal_raise :: "nat \<Rightarrow> u8 \<Rightarrow> sched_state \<Rightarrow> int \<times> sched_state" where
  "task_ipc_signal_raise t sig s =
     (if sig \<ge> 16 then (-1, s)
      else let s1 = upd_task t (\<lambda>T. T\<lparr>signal_bitmask := signal_bitmask T OR push_bit (unat sig) 1\<rparr>) s
           in (0, if pstate (tasks s1 t) = PROCESS_STATE_BLOCKED then task_unblock t s1 else s1))"

definition task_ipc_register_signal_handler :: "nat \<Rightarrow> u8 \<Rightarrow> u32 \<Rightarrow> sched_state \<Rightarrow> int \<times> sched_state" where
  "task_ipc_register_signal_handler t sig h s =
     (if sig \<ge> 16 then (-1, s)
      else (0, upd_task t (\<lambda>T. T\<lparr>signal_handlers := (signal_handlers T)(unat sig := h)\<rparr>) s))"

text \<open>
  What the delivery of a signal ends in: nothing to deliver, the task has to exit because the
  signal has no handler, or its context now enters the handler.
\<close>

datatype delivery =
    Deliver_none sched_state
  | Deliver_exit u8 sched_state
  | Deliver_handler processor_context sched_state

definition task_ipc_deliver_signals :: "nat \<Rightarrow> processor_context \<Rightarrow> sched_state \<Rightarrow> delivery" where
  "task_ipc_deliver_signals t ctx s =
     (let T = tasks s t; deliverable = signal_bitmask T AND NOT (blocked_signals T)
      in if priv T \<noteq> CPU_USER_MODE then Deliver_none s
         else if in_signal_handler T then Deliver_none s
         else if deliverable = 0 then Deliver_none s
         else let sig = builtin_ctz deliverable;
                  T1 = T\<lparr>signal_bitmask := signal_bitmask T AND NOT (push_bit sig 1),
                         signal_ctx := ctx, signal_fpu_fx := fpu_fx T\<rparr>;
                  handler = signal_handlers T1 sig
              in if handler = 0 then Deliver_exit (word_of_nat sig) (upd_task t (\<lambda>_. T1) s)
                 else let user_sp = esp_at_trap ctx - 8;
                          T2 = T1\<lparr>user_mem := (user_mem T1)(user_sp := SIGNAL_TRAMPOLINE_ADDR,
                                                            user_sp + 4 := word_of_nat sig),
                                  in_signal_handler := True\<rparr>
                      in Deliver_handler (ctx\<lparr>esp_at_trap := user_sp, eip := handler\<rparr>) (upd_task t (\<lambda>_. T2) s))"

definition task_ipc_break_fid :: "u32 \<Rightarrow> sched_state \<Rightarrow> sched_state option" where
  "task_ipc_break_fid fid s =
     (case task_lookup_by_pid fid s of
        None \<Rightarrow> Some s
      | Some t \<Rightarrow>
          if priv (tasks s t) = CPU_KERNEL_MODE then None
          else Some (snd (task_ipc_signal_raise t EXIT_SIGINT s)))"

subsection \<open>Exit, and the switch to the next task\<close>

text \<open>
  The loop of \<open>task_exit\<close> over the task list wakes each task that waits for the one that exits.
  \<open>cto t a\<close> says whether \<^verbatim>\<open>copy_to_user\<close> can write at address \<open>a\<close> of task \<open>t\<close>.
\<close>

definition exit_wake :: "(nat \<Rightarrow> u32 \<Rightarrow> bool) \<Rightarrow> nat \<Rightarrow> u8 \<Rightarrow> nat \<Rightarrow> sched_state \<Rightarrow> sched_state" where
  "exit_wake cto x sig t s =
     (let T = tasks s t
      in if word_of_int (waiting_on T) = pid (tasks s x)
         then let ok = (status_ptr T \<noteq> 0 \<and> cto t (status_ptr T));
                  T1 = T\<lparr>waiting_on := -1,
                         user_mem := (if ok then (user_mem T)(status_ptr T := push_bit 8 (ucast sig)) else user_mem T),
                         pstate := PROCESS_STATE_READY,
                         proc_ctx := (proc_ctx T)\<lparr>eax := if ok then pid (tasks s x) else word_of_int (- EFAULT)\<rparr>\<rparr>
              in enqueue t (upd_task t (\<lambda>_. T1) s)
         else s)"

text \<open>
  The part of \<open>task_exit\<close> before its \<open>task_yield\<close>. Closing the descriptors of the task reaches the
  scheduler only by waking the tasks that block on its pipes and sockets: \<open>wakes\<close> lists them.
  \<open>None\<close> is the panic when the first user process dies.
\<close>

definition task_exit_prep ::
  "(nat \<Rightarrow> u32 \<Rightarrow> bool) \<Rightarrow> nat list \<Rightarrow> nat \<Rightarrow> u8 \<Rightarrow> sched_state \<Rightarrow> sched_state option" where
  "task_exit_prep cto wakes x sig s =
     (let s1 = lock_scheduler s
      in if pid (tasks s1 x) = 1 then None
         else let s2 = upd_task x (\<lambda>T. T\<lparr>pstate := PROCESS_STATE_TERMINATED, exit_signal := sig\<rparr>) s1;
                  s3 = fold task_unblock wakes s2;
                  s4 = fold (exit_wake cto x sig) (task_list s3) s3
              in Some (s4\<lparr>task_list := remove1 x (task_list s4), zombie_list := x # zombie_list s4\<rparr>))"

definition yield_entry :: "sched_state \<Rightarrow> sched_state" where
  "yield_entry s =
     (let s1 = reap_zombies (lock_scheduler s); c = current_task s1
      in if pstate (tasks s1 c) = PROCESS_STATE_RUNNING
         then let s2 = upd_task c (pstate_update (\<lambda>_. PROCESS_STATE_READY)) s1
              in if no_requeue (tasks s2 c) then s2 else enqueue c s2
         else s1)"

datatype yield_outcome = Switch_to nat | Panic_no_task | Panic_init_died

text \<open>
  The end of the loop of \<open>task_yield\<close>, with what \<open>switch_task\<close> does to this state: it makes the task
  current, and when it returns to user mode it resets the lock and the preemption counters and
  turns interrupts on; a kernel task gets the EFLAGS it was suspended with.
\<close>

definition switch_to :: "nat \<Rightarrow> sched_state \<Rightarrow> sched_state" where
  "switch_to t s =
     (let s1 = preempt_enable (upd_task t (pstate_update (\<lambda>_. PROCESS_STATE_RUNNING)) s);
          s2 = s1\<lparr>current_task := t\<rparr>
      in if priv (tasks s2 t) = CPU_USER_MODE
         then sti (s2\<lparr>lock_count := 0, preempt_count := 0\<rparr>)
         else s2\<lparr>eflags := k_eflags (tasks s2 t)\<rparr>)"

partial_function (option) sched_loop ::
  "(nat \<Rightarrow> u32 \<Rightarrow> bool) \<Rightarrow> (nat \<Rightarrow> nat list) \<Rightarrow> sched_state \<Rightarrow> (yield_outcome \<times> sched_state) option" where
  "sched_loop cto cw s =
     (case dequeue s of
        (None, s1) \<Rightarrow> Some (Panic_no_task, s1)
      | (Some t, s1) \<Rightarrow>
          if pstate (tasks s1 t) = PROCESS_STATE_READY then
            (if priv (tasks s1 t) = CPU_USER_MODE then
               (case task_ipc_deliver_signals t (proc_ctx (tasks s1 t))
                       (s1\<lparr>current_aspace := address_space (tasks s1 t)\<rparr>) of
                  Deliver_none s2 \<Rightarrow> Some (Switch_to t, switch_to t s2)
                | Deliver_handler ctx s2 \<Rightarrow>
                    Some (Switch_to t, switch_to t (upd_task t (proc_ctx_update (\<lambda>_. ctx)) s2))
                | Deliver_exit sig s2 \<Rightarrow>
                    (case task_exit_prep cto (cw t) t sig s2 of
                       None \<Rightarrow> Some (Panic_init_died, s2)
                     | Some s3 \<Rightarrow> sched_loop cto cw (yield_entry s3)))
             else Some (Switch_to t, switch_to t s1))
          else sched_loop cto cw s1)"

definition task_yield where
  "task_yield cto cw s = sched_loop cto cw (yield_entry s)"

definition task_block where
  "task_block cto cw s =
     task_yield cto cw (upd_task (current_task s) (pstate_update (\<lambda>_. PROCESS_STATE_BLOCKED)) s)"

definition task_exit where
  "task_exit cto cw x sig s =
     (case task_exit_prep cto (cw x) x sig s of
        None \<Rightarrow> Some (Panic_init_died, s)
      | Some s1 \<Rightarrow> task_yield cto cw s1)"

subsection \<open>The invariant of the scheduler\<close>

definition waits_idle :: "int \<Rightarrow> bool" where
  "waits_idle w \<longleftrightarrow> w = -1 \<or> w = 0"

definition sched_ok :: "sched_state \<Rightarrow> (nat \<Rightarrow> nat list) \<Rightarrow> bool" where
  "sched_ok s qs \<longleftrightarrow>
     rq_inv s qs \<and>
     (\<forall>t. t \<in> queued qs \<longrightarrow> pstate (tasks s t) = PROCESS_STATE_READY \<and> t \<in> set (task_list s)) \<and>
     (\<forall>t. t \<in> set (task_list s) \<longrightarrow> pstate (tasks s t) = PROCESS_STATE_READY \<longrightarrow>
        no_requeue (tasks s t) \<or> t \<in> queued qs) \<and>
     (\<forall>t. t \<in> set (task_list s) \<longrightarrow> pstate (tasks s t) \<noteq> PROCESS_STATE_BLOCKED \<longrightarrow>
        waits_idle (waiting_on (tasks s t))) \<and>
     (\<forall>t. t \<in> set (task_list s) \<longrightarrow> pid (tasks s t) \<noteq> -1 \<and>
        (priv (tasks s t) = CPU_USER_MODE \<longrightarrow> pid (tasks s t) \<noteq> 0)) \<and>
     distinct (task_list s) \<and>
     (\<forall>t. t \<in> set (task_list s) \<longrightarrow> pstate (tasks s t) = PROCESS_STATE_RUNNING \<longrightarrow> t = current_task s) \<and>
     (pstate (tasks s (current_task s)) = PROCESS_STATE_RUNNING \<longrightarrow> current_task s \<in> set (task_list s))"

lemma sched_okD:
  assumes "sched_ok s qs"
  shows "rq_inv s qs"
    and "t \<in> queued qs \<Longrightarrow> pstate (tasks s t) = PROCESS_STATE_READY"
    and "t \<in> queued qs \<Longrightarrow> t \<in> set (task_list s)"
    and "t \<in> set (task_list s) \<Longrightarrow> pstate (tasks s t) = PROCESS_STATE_READY \<Longrightarrow> no_requeue (tasks s t) \<or> t \<in> queued qs"
    and "t \<in> set (task_list s) \<Longrightarrow> pstate (tasks s t) \<noteq> PROCESS_STATE_BLOCKED \<Longrightarrow> waits_idle (waiting_on (tasks s t))"
    and "t \<in> set (task_list s) \<Longrightarrow> pid (tasks s t) \<noteq> -1"
    and "t \<in> set (task_list s) \<Longrightarrow> priv (tasks s t) = CPU_USER_MODE \<Longrightarrow> pid (tasks s t) \<noteq> 0"
    and "distinct (task_list s)"
    and "t \<in> set (task_list s) \<Longrightarrow> pstate (tasks s t) = PROCESS_STATE_RUNNING \<Longrightarrow> t = current_task s"
    and "pstate (tasks s (current_task s)) = PROCESS_STATE_RUNNING \<Longrightarrow> current_task s \<in> set (task_list s)"
  using assms unfolding sched_ok_def by blast+

text \<open>The parts of the state that a step may change without touching the invariant.\<close>

lemma sched_ok_cong:
  assumes "sched_ok s qs" and "\<And>t. rq_next (tasks s' t) = rq_next (tasks s t)"
    and "\<And>t. pstate (tasks s' t) = pstate (tasks s t)" and "\<And>t. waiting_on (tasks s' t) = waiting_on (tasks s t)"
    and "\<And>t. no_requeue (tasks s' t) = no_requeue (tasks s t)" and "\<And>t. pid (tasks s' t) = pid (tasks s t)"
    and "\<And>t. priv (tasks s' t) = priv (tasks s t)" and "\<And>t. priority (tasks s' t) = priority (tasks s t)"
    and "prio_q s' = prio_q s" "prio_bitmap s' = prio_bitmap s" "top_bitmap s' = top_bitmap s"
    and "task_list s' = task_list s" "current_task s' = current_task s"
  shows "sched_ok s' qs"
proof -
  have "rq_inv s' qs" by (rule rq_inv_cong [OF sched_okD(1) [OF assms(1)]]) (simp_all add: assms)
  then show ?thesis using assms(1) unfolding sched_ok_def assms(3-7,12,13) by blast
qed

lemma sched_ok_lock [simp]:
  "sched_ok (lock_scheduler s) qs \<longleftrightarrow> sched_ok s qs" "sched_ok (unlock_scheduler s) qs \<longleftrightarrow> sched_ok s qs"
  by (auto intro: sched_ok_cong)

text \<open>Making a task that is not queued ready and queueing it.\<close>

lemma sched_ok_ready:
  assumes ok: "sched_ok s qs" and t: "t \<notin> queued qs" "t \<in> set (task_list s)"
    and s': "rq_next (tasks s' t) = rq_next (tasks s t)" "pstate (tasks s' t) = PROCESS_STATE_READY"
      "waits_idle (waiting_on (tasks s' t))" "no_requeue (tasks s' t) = no_requeue (tasks s t)"
      "pid (tasks s' t) = pid (tasks s t)" "priv (tasks s' t) = priv (tasks s t)"
      "\<And>u. u \<noteq> t \<Longrightarrow> tasks s' u = tasks s u"
      "prio_q s' = prio_q s" "prio_bitmap s' = prio_bitmap s" "top_bitmap s' = top_bitmap s"
      "task_list s' = task_list s" "current_task s' = current_task s"
  shows "\<exists>qs'. sched_ok (enqueue t s') qs' \<and> queued qs' = insert t (queued qs)"
proof -
  let ?p = "unat (priority (tasks s' t))"
  let ?qs = "qs(?p := qs ?p @ [t])"
  have nx: "rq_next (tasks s' u) = rq_next (tasks s u)" for u
    using s'(1) s'(7) [of u] by (cases "u = t") simp_all
  have pr: "priority (tasks s' u) = priority (tasks s u)" if "u \<in> queued qs" for u
    using s'(7) [of u] t(1) that by (cases "u = t") simp_all
  have inv: "rq_inv s' qs" by (rule rq_inv_cong [OF sched_okD(1) [OF ok] nx pr s'(8-10)])
  have q: "queued ?qs = insert t (queued qs)" by (rule queued_snoc [OF prio_lt])
  have e: "rq_inv (enqueue t s') ?qs" by (rule enqueue_inv [OF inv t(1) refl])
  have tk: "pstate (tasks (enqueue t s') u) = (if u = t then PROCESS_STATE_READY else pstate (tasks s u))"
    "waits_idle (waiting_on (tasks (enqueue t s') u)) \<longleftrightarrow> u = t \<or> waits_idle (waiting_on (tasks s u))"
    "no_requeue (tasks (enqueue t s') u) = no_requeue (tasks s u)" "pid (tasks (enqueue t s') u) = pid (tasks s u)"
    "priv (tasks (enqueue t s') u) = priv (tasks s u)" for u
    using s' by (cases "u = t"; simp)+
  have "sched_ok (enqueue t s') ?qs"
    unfolding sched_ok_def q tk enqueue_fields s'(11,12)
  proof (intro conjI allI impI)
    show "rq_inv (enqueue t s') ?qs" by (rule e)
    show "(if u = t then PROCESS_STATE_READY else pstate (tasks s u)) = PROCESS_STATE_READY"
      "u \<in> set (task_list s)" if "u \<in> insert t (queued qs)" for u
      using that sched_okD(2,3) [OF ok, of u] t(2) by auto
    show "no_requeue (tasks s u) \<or> u \<in> insert t (queued qs)"
      if "u \<in> set (task_list s)" "(if u = t then PROCESS_STATE_READY else pstate (tasks s u)) = PROCESS_STATE_READY" for u
      using that sched_okD(4) [OF ok that(1)] by (auto split: if_splits)
    show "u = t \<or> waits_idle (waiting_on (tasks s u))"
      if "u \<in> set (task_list s)" "(if u = t then PROCESS_STATE_READY else pstate (tasks s u)) \<noteq> PROCESS_STATE_BLOCKED" for u
      using that sched_okD(5) [OF ok that(1)] by (auto split: if_splits)
    show "pid (tasks s u) \<noteq> -1" if "u \<in> set (task_list s)" for u using sched_okD(6) [OF ok that] .
    show "pid (tasks s u) \<noteq> 0" if "u \<in> set (task_list s)" "priv (tasks s u) = CPU_USER_MODE" for u
      using sched_okD(7) [OF ok that] .
    show "distinct (task_list s)" using sched_okD(8) [OF ok] .
    show "u = current_task s"
      if "u \<in> set (task_list s)" "(if u = t then PROCESS_STATE_READY else pstate (tasks s u)) = PROCESS_STATE_RUNNING" for u
      using that sched_okD(9) [OF ok that(1)] by (auto split: if_splits)
    show "current_task s \<in> set (task_list s)"
      if "(if current_task s = t then PROCESS_STATE_READY else pstate (tasks s (current_task s))) = PROCESS_STATE_RUNNING"
      using that sched_okD(10) [OF ok] by (auto split: if_splits)
  qed
  with q show ?thesis by blast
qed

lemma sched_ok_unblock:
  assumes ok: "sched_ok s qs" and t: "t \<in> set (task_list s)" "waits_idle (waiting_on (tasks s t))"
  shows "\<exists>qs'. sched_ok (task_unblock t s) qs'"
proof (cases "pstate (tasks s t) = PROCESS_STATE_BLOCKED")
  case True
  have "t \<notin> queued qs" using sched_okD(2) [OF ok] True by fastforce
  from sched_ok_ready [OF ok this t(1), of "upd_task t (pstate_update (\<lambda>_. PROCESS_STATE_READY)) (lock_scheduler s)"] t(2)
  show ?thesis using True by (auto simp: task_unblock_def Let_def)
next
  case False
  then show ?thesis using ok by (auto simp: task_unblock_def Let_def)
qed

lemma task_unblock_fields [simp]:
  "current_task (task_unblock t s) = current_task s" "task_list (task_unblock t s) = task_list s"
  "zombie_list (task_unblock t s) = zombie_list s" "reaped (task_unblock t s) = reaped s"
  "next_pid (task_unblock t s) = next_pid s"
  by (auto simp: task_unblock_def Let_def)

lemma task_unblock_task_fields [simp]:
  "waiting_on (tasks (task_unblock t s) u) = waiting_on (tasks s u)" "pid (tasks (task_unblock t s) u) = pid (tasks s u)"
  "priv (tasks (task_unblock t s) u) = priv (tasks s u)"
  "no_requeue (tasks (task_unblock t s) u) = no_requeue (tasks s u)"
  by (auto simp: task_unblock_def Let_def)

lemma task_unblock_pstate:
  "pstate (tasks (task_unblock t s) u) =
     (if u = t \<and> pstate (tasks s t) = PROCESS_STATE_BLOCKED then PROCESS_STATE_READY else pstate (tasks s u))"
  by (auto simp: task_unblock_def Let_def)

text \<open>Waking a list of tasks, none of which waits for the exit of another.\<close>

lemma sched_ok_unblocks:
  "sched_ok s qs \<Longrightarrow> \<forall>t. t \<in> set ws \<longrightarrow> t \<in> set (task_list s) \<and> waits_idle (waiting_on (tasks s t)) \<Longrightarrow>
   \<exists>qs'. sched_ok (fold task_unblock ws s) qs'"
proof (induction ws arbitrary: s qs)
  case Nil
  then show ?case by auto
next
  case (Cons t ws)
  from sched_ok_unblock [OF Cons.prems(1), of t] Cons.prems(2) obtain qs1 where "sched_ok (task_unblock t s) qs1" by auto
  from Cons.IH [OF this] Cons.prems(2) show ?case by simp
qed

lemma fold_unblock_fields [simp]:
  "current_task (fold task_unblock ws s) = current_task s" "task_list (fold task_unblock ws s) = task_list s"
  "zombie_list (fold task_unblock ws s) = zombie_list s" "reaped (fold task_unblock ws s) = reaped s"
  "waiting_on (tasks (fold task_unblock ws s) u) = waiting_on (tasks s u)"
  "pid (tasks (fold task_unblock ws s) u) = pid (tasks s u)"
  "priv (tasks (fold task_unblock ws s) u) = priv (tasks s u)"
  "no_requeue (tasks (fold task_unblock ws s) u) = no_requeue (tasks s u)"
  by (induction ws arbitrary: s) auto

subsection \<open>Exit and the switch keep the invariant\<close>

text \<open>What no step undoes: an idle task stays idle, and a task that is blocked was so before.\<close>

definition sched_mono :: "sched_state \<Rightarrow> sched_state \<Rightarrow> bool" where
  "sched_mono s s' \<longleftrightarrow>
     (\<forall>t. waits_idle (waiting_on (tasks s t)) \<longrightarrow> waits_idle (waiting_on (tasks s' t))) \<and>
     (\<forall>t. pstate (tasks s' t) = PROCESS_STATE_BLOCKED \<longrightarrow>
        pstate (tasks s t) = PROCESS_STATE_BLOCKED \<and> (t \<in> set (task_list s) \<longrightarrow> t \<in> set (task_list s')))"

lemma sched_mono_refl: "sched_mono s s"
  by (simp add: sched_mono_def)

lemma sched_mono_trans: "sched_mono a b \<Longrightarrow> sched_mono b c \<Longrightarrow> sched_mono a c"
  unfolding sched_mono_def by blast

definition wakes_ok :: "sched_state \<Rightarrow> nat list \<Rightarrow> bool" where
  "wakes_ok s ws \<longleftrightarrow> (\<forall>t. t \<in> set ws \<longrightarrow> waits_idle (waiting_on (tasks s t)) \<and>
     (pstate (tasks s t) = PROCESS_STATE_BLOCKED \<longrightarrow> t \<in> set (task_list s)))"

lemma wakes_ok_mono: "wakes_ok s ws \<Longrightarrow> sched_mono s s' \<Longrightarrow> wakes_ok s' ws"
  unfolding wakes_ok_def sched_mono_def by blast

lemma sched_mono_unblock: "sched_mono s (task_unblock t s)"
  by (auto simp: sched_mono_def task_unblock_pstate)

lemma sched_ok_wakes:
  "sched_ok s qs \<Longrightarrow> wakes_ok s ws \<Longrightarrow>
   (\<exists>qs'. sched_ok (fold task_unblock ws s) qs') \<and> sched_mono s (fold task_unblock ws s)"
proof (induction ws arbitrary: s qs)
  case Nil
  then show ?case by (auto simp: sched_mono_refl)
next
  case (Cons t ws)
  have "\<exists>qs1. sched_ok (task_unblock t s) qs1"
  proof (cases "pstate (tasks s t) = PROCESS_STATE_BLOCKED")
    case True
    then show ?thesis using sched_ok_unblock [OF Cons.prems(1), of t] Cons.prems(2) by (auto simp: wakes_ok_def)
  next
    case False
    then show ?thesis using Cons.prems(1) by (auto simp: task_unblock_def Let_def)
  qed
  then obtain qs1 where ok: "sched_ok (task_unblock t s) qs1" by blast
  have w: "wakes_ok (task_unblock t s) ws"
    by (rule wakes_ok_mono [OF _ sched_mono_unblock]) (use Cons.prems(2) in \<open>simp add: wakes_ok_def\<close>)
  from Cons.IH [OF ok w] sched_mono_trans [OF sched_mono_unblock] show ?case by auto
qed

lemma exit_wake_fields [simp]:
  "current_task (exit_wake cto x sig t s) = current_task s" "task_list (exit_wake cto x sig t s) = task_list s"
  "zombie_list (exit_wake cto x sig t s) = zombie_list s"
  "pid (tasks (exit_wake cto x sig t s) u) = pid (tasks s u)"
  "priv (tasks (exit_wake cto x sig t s) u) = priv (tasks s u)"
  by (auto simp: exit_wake_def Let_def)

lemma exit_wake_mono: "sched_mono s (exit_wake cto x sig t s)"
  by (auto simp: sched_mono_def exit_wake_def Let_def waits_idle_def)

text \<open>A waiting task is blocked, so it is not queued yet when the exit wakes it.\<close>

lemma exit_wake_ok:
  assumes ok: "sched_ok s qs" and x: "pid (tasks s x) \<noteq> 0" "pid (tasks s x) \<noteq> -1" "pstate (tasks s x) \<noteq> PROCESS_STATE_BLOCKED"
    and t: "t \<in> set (task_list s)"
  shows "\<exists>qs'. sched_ok (exit_wake cto x sig t s) qs' \<and> queued qs' \<subseteq> insert t (queued qs) \<and>
    (waits_idle (waiting_on (tasks s x)) \<longrightarrow> x \<notin> queued qs \<longrightarrow> x \<notin> queued qs') \<and>
    (waits_idle (waiting_on (tasks s x)) \<longrightarrow> pstate (tasks (exit_wake cto x sig t s) x) = pstate (tasks s x))"
proof (cases "word_of_int (waiting_on (tasks s t)) = pid (tasks s x)")
  case False
  then show ?thesis using ok by (auto simp: exit_wake_def Let_def)
next
  case True
  have ni: "\<not> waits_idle (waiting_on (tasks s t))" using True x(1,2) by (auto simp: waits_idle_def)
  then have b: "pstate (tasks s t) = PROCESS_STATE_BLOCKED" using sched_okD(5) [OF ok t] by blast
  then have nq: "t \<notin> queued qs" using sched_okD(2) [OF ok] by fastforce
  define T1 where "T1 = (let T = tasks s t; ok = (status_ptr T \<noteq> 0 \<and> cto t (status_ptr T)) in
    T\<lparr>waiting_on := -1,
      user_mem := (if ok then (user_mem T)(status_ptr T := push_bit 8 (ucast sig)) else user_mem T),
      pstate := PROCESS_STATE_READY,
      proc_ctx := (proc_ctx T)\<lparr>eax := if ok then pid (tasks s x) else word_of_int (- EFAULT)\<rparr>\<rparr>)"
  have T1: "rq_next T1 = rq_next (tasks s t)" "pstate T1 = PROCESS_STATE_READY" "waiting_on T1 = -1"
    "no_requeue T1 = no_requeue (tasks s t)" "pid T1 = pid (tasks s t)" "priv T1 = priv (tasks s t)"
    by (simp_all add: T1_def Let_def)
  have e: "exit_wake cto x sig t s = enqueue t (upd_task t (\<lambda>_. T1) s)"
    unfolding exit_wake_def T1_def using True by (simp add: Let_def)
  have "\<exists>qs'. sched_ok (enqueue t (upd_task t (\<lambda>_. T1) s)) qs' \<and> queued qs' = insert t (queued qs)"
    by (rule sched_ok_ready [OF ok nq t]) (simp_all add: T1 waits_idle_def)
  then obtain qs' where q: "sched_ok (exit_wake cto x sig t s) qs'" "queued qs' = insert t (queued qs)" unfolding e by blast
  have "x \<noteq> t" using b x(3) by auto
  then show ?thesis using q unfolding e by (intro exI [of _ qs']) auto
qed

lemma exit_wakes_ok:
  "sched_ok s qs \<Longrightarrow> pid (tasks s x) \<noteq> 0 \<Longrightarrow> pid (tasks s x) \<noteq> -1 \<Longrightarrow>
   pstate (tasks s x) = PROCESS_STATE_TERMINATED \<Longrightarrow> waits_idle (waiting_on (tasks s x)) \<Longrightarrow> x \<notin> queued qs \<Longrightarrow>
   set ts \<subseteq> set (task_list s) \<Longrightarrow>
   \<exists>qs'. sched_ok (fold (exit_wake cto x sig) ts s) qs' \<and> x \<notin> queued qs' \<and>
     pstate (tasks (fold (exit_wake cto x sig) ts s) x) = PROCESS_STATE_TERMINATED \<and>
     sched_mono s (fold (exit_wake cto x sig) ts s) \<and>
     task_list (fold (exit_wake cto x sig) ts s) = task_list s \<and>
     current_task (fold (exit_wake cto x sig) ts s) = current_task s"
proof (induction ts arbitrary: s qs)
  case Nil
  then show ?case by (auto simp: sched_mono_refl)
next
  case (Cons t ts)
  let ?s = "exit_wake cto x sig t s"
  have t: "t \<in> set (task_list s)" using Cons.prems(7) by simp
  have nb: "pstate (tasks s x) \<noteq> PROCESS_STATE_BLOCKED" using Cons.prems(4) by simp
  obtain qs1 where q: "sched_ok ?s qs1" "x \<notin> queued qs1" "pstate (tasks ?s x) = PROCESS_STATE_TERMINATED"
    using exit_wake_ok [OF Cons.prems(1-3) nb t, of cto sig] Cons.prems(4-6) by auto
  have w: "waits_idle (waiting_on (tasks ?s x))"
    using exit_wake_mono [of s cto x sig t] Cons.prems(5) unfolding sched_mono_def by blast
  have "\<exists>qs'. sched_ok (fold (exit_wake cto x sig) ts ?s) qs' \<and> x \<notin> queued qs' \<and>
     pstate (tasks (fold (exit_wake cto x sig) ts ?s) x) = PROCESS_STATE_TERMINATED \<and>
     sched_mono ?s (fold (exit_wake cto x sig) ts ?s) \<and>
     task_list (fold (exit_wake cto x sig) ts ?s) = task_list ?s \<and>
     current_task (fold (exit_wake cto x sig) ts ?s) = current_task ?s"
    by (rule Cons.IH [OF q(1) _ _ q(3) w q(2)]) (use Cons.prems in simp_all)
  then show ?case using sched_mono_trans [OF exit_wake_mono] by auto
qed

lemma task_exit_prep_ok:
  assumes ok: "sched_ok s qs" and x: "x \<in> set (task_list s)" "x \<notin> queued qs"
    "pstate (tasks s x) \<noteq> PROCESS_STATE_BLOCKED" "pid (tasks s x) \<noteq> 0" "pid (tasks s x) \<noteq> 1"
    and w: "wakes_ok s ws"
  obtains s' qs' where "task_exit_prep cto ws x sig s = Some s'" "sched_ok s' qs'"
    "task_list s' = remove1 x (task_list s)" "current_task s' = current_task s" "sched_mono s s'"
    "pstate (tasks s' x) = PROCESS_STATE_TERMINATED"
proof -
  define s2 where "s2 = upd_task x (\<lambda>T. T\<lparr>pstate := PROCESS_STATE_TERMINATED, exit_signal := sig\<rparr>) (lock_scheduler s)"
  have wi: "waits_idle (waiting_on (tasks s x))" by (rule sched_okD(5) [OF ok x(1,3)])
  have inv2: "rq_inv s2 qs" by (rule rq_inv_cong [OF sched_okD(1) [OF ok]]) (simp_all add: s2_def)
  have st2: "pstate (tasks s2 t) = (if t = x then PROCESS_STATE_TERMINATED else pstate (tasks s t))"
    "waiting_on (tasks s2 t) = waiting_on (tasks s t)" "no_requeue (tasks s2 t) = no_requeue (tasks s t)"
    "pid (tasks s2 t) = pid (tasks s t)" "priv (tasks s2 t) = priv (tasks s t)"
    "task_list s2 = task_list s" "current_task s2 = current_task s" for t
    by (simp_all add: s2_def)
  have ok2: "sched_ok s2 qs"
    unfolding sched_ok_def st2
  proof (intro conjI allI impI)
    show "rq_inv s2 qs" by (rule inv2)
    show "(if t = x then PROCESS_STATE_TERMINATED else pstate (tasks s t)) = PROCESS_STATE_READY"
      "t \<in> set (task_list s)" if "t \<in> queued qs" for t
      using that x(2) sched_okD(2,3) [OF ok that] by auto
    show "no_requeue (tasks s t) \<or> t \<in> queued qs"
      if "t \<in> set (task_list s)" "(if t = x then PROCESS_STATE_TERMINATED else pstate (tasks s t)) = PROCESS_STATE_READY" for t
      using that sched_okD(4) [OF ok that(1)] by (auto split: if_splits)
    show "waits_idle (waiting_on (tasks s t))"
      if "t \<in> set (task_list s)" "(if t = x then PROCESS_STATE_TERMINATED else pstate (tasks s t)) \<noteq> PROCESS_STATE_BLOCKED" for t
      using that wi sched_okD(5) [OF ok that(1)] by (auto split: if_splits)
    show "pid (tasks s t) \<noteq> -1" if "t \<in> set (task_list s)" for t using sched_okD(6) [OF ok that] .
    show "pid (tasks s t) \<noteq> 0" if "t \<in> set (task_list s)" "priv (tasks s t) = CPU_USER_MODE" for t
      using sched_okD(7) [OF ok that] .
    show "distinct (task_list s)" using sched_okD(8) [OF ok] .
    show "t = current_task s"
      if "t \<in> set (task_list s)" "(if t = x then PROCESS_STATE_TERMINATED else pstate (tasks s t)) = PROCESS_STATE_RUNNING" for t
      using that sched_okD(9) [OF ok that(1)] by (auto split: if_splits)
    show "current_task s \<in> set (task_list s)"
      if "(if current_task s = x then PROCESS_STATE_TERMINATED else pstate (tasks s (current_task s))) = PROCESS_STATE_RUNNING"
      using that sched_okD(10) [OF ok] by (auto split: if_splits)
  qed
  have m2: "sched_mono s s2" unfolding sched_mono_def st2 by auto
  define s3 where "s3 = fold task_unblock ws s2"
  obtain qs3 where ok3: "sched_ok s3 qs3" and m3: "sched_mono s2 s3"
    using sched_ok_wakes [OF ok2 wakes_ok_mono [OF w m2]] unfolding s3_def by blast
  have t1: "pstate (tasks (task_unblock a u) x) = PROCESS_STATE_TERMINATED"
    if "pstate (tasks u x) = PROCESS_STATE_TERMINATED" for a u
    using that by (cases "x = a") (simp_all add: task_unblock_pstate)
  have tm: "pstate (tasks (fold task_unblock vs u) x) = PROCESS_STATE_TERMINATED"
    if "pstate (tasks u x) = PROCESS_STATE_TERMINATED" for vs u
    using that by (induction vs arbitrary: u) (simp_all add: t1)
  have t3: "pstate (tasks s3 x) = PROCESS_STATE_TERMINATED" unfolding s3_def by (rule tm) (simp add: s2_def)
  have x3: "pid (tasks s3 x) \<noteq> 0" "pid (tasks s3 x) \<noteq> -1" "waits_idle (waiting_on (tasks s3 x))"
    "task_list s3 = task_list s" "current_task s3 = current_task s"
    using x(4) sched_okD(6) [OF ok x(1)] wi by (simp_all add: s3_def st2)
  have nq3: "x \<notin> queued qs3" using sched_okD(2) [OF ok3, of x] t3 by auto
  define s4 where "s4 = fold (exit_wake cto x sig) (task_list s3) s3"
  obtain qs4 where ok4: "sched_ok s4 qs4" "x \<notin> queued qs4" "pstate (tasks s4 x) = PROCESS_STATE_TERMINATED"
    "sched_mono s3 s4" "task_list s4 = task_list s" "current_task s4 = current_task s"
    using exit_wakes_ok [OF ok3 x3(1,2) t3 x3(3) nq3 subset_refl, of cto sig] x3(4,5) unfolding s4_def by auto
  let ?s' = "s4\<lparr>task_list := remove1 x (task_list s4), zombie_list := x # zombie_list s4\<rparr>"
  have r: "rq_inv ?s' qs4" by (rule rq_inv_cong [OF sched_okD(1) [OF ok4(1)]]) simp_all
  have d: "distinct (task_list s4)" by (rule sched_okD(8) [OF ok4(1)])
  have sx: "t \<in> set (remove1 x (task_list s4)) \<longleftrightarrow> t \<in> set (task_list s4) \<and> t \<noteq> x" for t
    using d by simp
  have "sched_ok ?s' qs4"
    unfolding sched_ok_def
  proof (intro conjI allI impI)
    show "rq_inv ?s' qs4" by (rule r)
    show "pstate (tasks ?s' t) = PROCESS_STATE_READY" "t \<in> set (task_list ?s')" if "t \<in> queued qs4" for t
      using that ok4(2) sched_okD(2,3) [OF ok4(1) that] d by auto
    show "no_requeue (tasks ?s' t) \<or> t \<in> queued qs4"
      if "t \<in> set (task_list ?s')" "pstate (tasks ?s' t) = PROCESS_STATE_READY" for t
      using that sched_okD(4) [OF ok4(1), of t] sx by simp
    show "waits_idle (waiting_on (tasks ?s' t))"
      if "t \<in> set (task_list ?s')" "pstate (tasks ?s' t) \<noteq> PROCESS_STATE_BLOCKED" for t
      using that sched_okD(5) [OF ok4(1), of t] sx by simp
    show "pid (tasks ?s' t) \<noteq> -1" if "t \<in> set (task_list ?s')" for t
      using that sched_okD(6) [OF ok4(1), of t] sx by simp
    show "pid (tasks ?s' t) \<noteq> 0" if "t \<in> set (task_list ?s')" "priv (tasks ?s' t) = CPU_USER_MODE" for t
      using that sched_okD(7) [OF ok4(1), of t] sx by simp
    show "distinct (task_list ?s')" using d by simp
    show "t = current_task ?s'" if "t \<in> set (task_list ?s')" "pstate (tasks ?s' t) = PROCESS_STATE_RUNNING" for t
      using that sched_okD(9) [OF ok4(1), of t] sx by simp
    show "current_task ?s' \<in> set (task_list ?s')" if "pstate (tasks ?s' (current_task ?s')) = PROCESS_STATE_RUNNING"
    proof -
      have c: "pstate (tasks s4 (current_task s4)) = PROCESS_STATE_RUNNING" using that by simp
      then have "current_task s4 \<noteq> x" using ok4(3) by fastforce
      then show ?thesis using sched_okD(10) [OF ok4(1) c] by (simp add: in_set_remove1)
    qed
  qed
  moreover have "task_exit_prep cto ws x sig s = Some ?s'"
    using x(5) unfolding task_exit_prep_def s2_def s3_def s4_def by (simp add: Let_def)
  moreover have "sched_mono s ?s'"
  proof -
    have m4: "sched_mono s s4" using m2 m3 ok4(4) sched_mono_trans by blast
    show ?thesis
      unfolding sched_mono_def
    proof (intro conjI allI impI)
      fix t
      show "waits_idle (waiting_on (tasks ?s' t))" if "waits_idle (waiting_on (tasks s t))"
        using m4 that by (simp add: sched_mono_def)
      assume b: "pstate (tasks ?s' t) = PROCESS_STATE_BLOCKED"
      show "pstate (tasks s t) = PROCESS_STATE_BLOCKED" using m4 b by (simp add: sched_mono_def)
      have "t \<noteq> x" using b ok4(3) by auto
      then show "t \<in> set (task_list ?s')" if "t \<in> set (task_list s)"
        using that ok4(5) by (simp add: in_set_remove1)
    qed
  qed
  ultimately show thesis using that [of ?s' qs4] ok4(3,5,6) by simp
qed

lemma free_stack_fields [simp]:
  "tasks (free_kernel_stack b s) = tasks s" "prio_q (free_kernel_stack b s) = prio_q s"
  "top_bitmap (free_kernel_stack b s) = top_bitmap s" "prio_bitmap (free_kernel_stack b s) = prio_bitmap s"
  "current_task (free_kernel_stack b s) = current_task s" "task_list (free_kernel_stack b s) = task_list s"
  "zombie_list (free_kernel_stack b s) = zombie_list s" "reaped (free_kernel_stack b s) = reaped s"
  by (simp_all add: free_kernel_stack_def)

lemma reap_one_fields [simp]:
  "tasks (reap_one t s) = tasks s" "prio_q (reap_one t s) = prio_q s"
  "top_bitmap (reap_one t s) = top_bitmap s" "prio_bitmap (reap_one t s) = prio_bitmap s"
  "current_task (reap_one t s) = current_task s" "task_list (reap_one t s) = task_list s"
  "zombie_list (reap_one t s) = zombie_list s" "reaped (reap_one t s) = reaped s @ [t]"
  by (simp_all add: reap_one_def Let_def)

lemma reap_scan_fields:
  "tasks (snd (reap_scan ts s)) = tasks s \<and> prio_q (snd (reap_scan ts s)) = prio_q s \<and>
   top_bitmap (snd (reap_scan ts s)) = top_bitmap s \<and> prio_bitmap (snd (reap_scan ts s)) = prio_bitmap s \<and>
   current_task (snd (reap_scan ts s)) = current_task s \<and> task_list (snd (reap_scan ts s)) = task_list s \<and>
   fst (reap_scan ts s) = filter (\<lambda>t. t = current_task s) ts \<and>
   reaped (snd (reap_scan ts s)) = reaped s @ filter (\<lambda>t. t \<noteq> current_task s) ts"
  by (induction ts s rule: reap_scan.induct) (auto simp: split_beta Let_def)

lemma reap_fields [simp]:
  "tasks (reap_zombies s) = tasks s" "prio_q (reap_zombies s) = prio_q s"
  "top_bitmap (reap_zombies s) = top_bitmap s" "prio_bitmap (reap_zombies s) = prio_bitmap s"
  "current_task (reap_zombies s) = current_task s" "task_list (reap_zombies s) = task_list s"
  "zombie_list (reap_zombies s) = filter (\<lambda>t. t = current_task s) (zombie_list s)"
  "reaped (reap_zombies s) = reaped s @ filter (\<lambda>t. t \<noteq> current_task s) (zombie_list s)"
  using reap_scan_fields [of "zombie_list s" s] by (simp_all add: reap_zombies_def split_beta Let_def)

subsection \<open>The switch always ends, in the task of the highest priority\<close>

definition none_running :: "sched_state \<Rightarrow> bool" where
  "none_running s \<longleftrightarrow> pstate (tasks s (current_task s)) \<noteq> PROCESS_STATE_RUNNING \<and>
     (\<forall>t. t \<in> set (task_list s) \<longrightarrow> pstate (tasks s t) \<noteq> PROCESS_STATE_RUNNING)"

lemma sched_okI:
  assumes "rq_inv s qs"
    and "\<And>t. t \<in> queued qs \<Longrightarrow> pstate (tasks s t) = PROCESS_STATE_READY"
    and "\<And>t. t \<in> queued qs \<Longrightarrow> t \<in> set (task_list s)"
    and "\<And>t. t \<in> set (task_list s) \<Longrightarrow> pstate (tasks s t) = PROCESS_STATE_READY \<Longrightarrow> no_requeue (tasks s t) \<or> t \<in> queued qs"
    and "\<And>t. t \<in> set (task_list s) \<Longrightarrow> pstate (tasks s t) \<noteq> PROCESS_STATE_BLOCKED \<Longrightarrow> waits_idle (waiting_on (tasks s t))"
    and "\<And>t. t \<in> set (task_list s) \<Longrightarrow> pid (tasks s t) \<noteq> -1"
    and "\<And>t. t \<in> set (task_list s) \<Longrightarrow> priv (tasks s t) = CPU_USER_MODE \<Longrightarrow> pid (tasks s t) \<noteq> 0"
    and "distinct (task_list s)"
    and "\<And>t. t \<in> set (task_list s) \<Longrightarrow> pstate (tasks s t) = PROCESS_STATE_RUNNING \<Longrightarrow> t = current_task s"
    and "pstate (tasks s (current_task s)) = PROCESS_STATE_RUNNING \<Longrightarrow> current_task s \<in> set (task_list s)"
  shows "sched_ok s qs"
  using assms unfolding sched_ok_def by blast

lemma yield_entry_ok:
  assumes ok: "sched_ok s qs"
  obtains qs' where "sched_ok (yield_entry s) qs'" "task_list (yield_entry s) = task_list s"
    "current_task (yield_entry s) = current_task s" "sched_mono s (yield_entry s)" "none_running (yield_entry s)"
proof -
  let ?s1 = "reap_zombies (lock_scheduler s)"
  let ?c = "current_task s"
  have ok1: "sched_ok ?s1 qs" by (rule sched_ok_cong [OF ok]) simp_all
  show thesis
  proof (cases "pstate (tasks s ?c) = PROCESS_STATE_RUNNING")
    case False
    then have e: "yield_entry s = ?s1" by (simp add: yield_entry_def Let_def)
    have "none_running ?s1" using False sched_okD(9) [OF ok] unfolding none_running_def by auto
    moreover have "sched_mono s ?s1" by (simp add: sched_mono_def)
    ultimately show thesis using that [of qs] ok1 unfolding e by simp
  next
    case True
    have cl: "?c \<in> set (task_list s)" by (rule sched_okD(10) [OF ok True])
    have nq: "?c \<notin> queued qs" using sched_okD(2) [OF ok, of ?c] True by auto
    have wi: "waits_idle (waiting_on (tasks s ?c))" using sched_okD(5) [OF ok cl] True by simp
    let ?s2 = "upd_task ?c (pstate_update (\<lambda>_. PROCESS_STATE_READY)) ?s1"
    have e: "yield_entry s = (if no_requeue (tasks s ?c) then ?s2 else enqueue ?c ?s2)"
      using True by (simp add: yield_entry_def Let_def)
    have st: "pstate (tasks (yield_entry s) t) = (if t = ?c then PROCESS_STATE_READY else pstate (tasks s t))"
      "waiting_on (tasks (yield_entry s) t) = waiting_on (tasks s t)"
      "no_requeue (tasks (yield_entry s) t) = no_requeue (tasks s t)"
      "pid (tasks (yield_entry s) t) = pid (tasks s t)" "priv (tasks (yield_entry s) t) = priv (tasks s t)"
      "task_list (yield_entry s) = task_list s" "current_task (yield_entry s) = ?c" for t
      unfolding e by auto
    have nr: "none_running (yield_entry s)"
      unfolding none_running_def st using sched_okD(9) [OF ok] by auto
    have mo: "sched_mono s (yield_entry s)" unfolding sched_mono_def st by auto
    have "\<exists>qs'. sched_ok (yield_entry s) qs'"
    proof (cases "no_requeue (tasks s ?c)")
      case False
      have "\<exists>qs'. sched_ok (enqueue ?c ?s2) qs' \<and> queued qs' = insert ?c (queued qs)"
        by (rule sched_ok_ready [OF ok nq cl]) (use wi in simp_all)
      then show ?thesis unfolding e using False by auto
    next
      case nrq: True
      have "rq_inv (yield_entry s) qs"
        unfolding e using nrq by (simp, intro rq_inv_cong [OF sched_okD(1) [OF ok]]) (simp_all)
      then have "sched_ok (yield_entry s) qs"
      proof (rule sched_okI)
        fix t
        show "pstate (tasks (yield_entry s) t) = PROCESS_STATE_READY" if "t \<in> queued qs"
          unfolding st using sched_okD(2) [OF ok that] by simp
        show "no_requeue (tasks (yield_entry s) t) \<or> t \<in> queued qs"
          if "t \<in> set (task_list (yield_entry s))" "pstate (tasks (yield_entry s) t) = PROCESS_STATE_READY"
          using that nrq sched_okD(4) [OF ok, of t] unfolding st by (cases "t = ?c") simp_all
        show "waits_idle (waiting_on (tasks (yield_entry s) t))"
          if "t \<in> set (task_list (yield_entry s))" "pstate (tasks (yield_entry s) t) \<noteq> PROCESS_STATE_BLOCKED"
          using that wi sched_okD(5) [OF ok, of t] unfolding st by (cases "t = ?c") simp_all
        show "t = current_task (yield_entry s)"
          if "t \<in> set (task_list (yield_entry s))" "pstate (tasks (yield_entry s) t) = PROCESS_STATE_RUNNING"
          using that sched_okD(9) [OF ok, of t] unfolding st by (auto split: if_splits)
      qed (insert sched_okD(3,6-8) [OF ok] cl, unfold st, blast+)
      then show ?thesis by blast
    qed
    then show thesis using that nr mo st(6,7) by blast
  qed
qed

text \<open>The delivery of a signal changes nothing the invariant speaks of.\<close>

lemma deliver_frame:
  assumes "task_ipc_deliver_signals t ctx s = d"
    and "s' = (case d of Deliver_none u \<Rightarrow> u | Deliver_exit g u \<Rightarrow> u | Deliver_handler c u \<Rightarrow> u)"
  shows "\<exists>T. s' = s\<lparr>tasks := (tasks s)(t := T)\<rparr> \<and> rq_next T = rq_next (tasks s t) \<and> pstate T = pstate (tasks s t) \<and>
    waiting_on T = waiting_on (tasks s t) \<and> no_requeue T = no_requeue (tasks s t) \<and> pid T = pid (tasks s t) \<and>
    priv T = priv (tasks s t) \<and> priority T = priority (tasks s t)"
  unfolding assms(2) assms(1) [symmetric]
  by (auto simp: task_ipc_deliver_signals_def Let_def intro: exI [of _ "tasks s t"])

lemma deliver_ok:
  assumes "task_ipc_deliver_signals t ctx s = d" "sched_ok s qs"
    and "s' = (case d of Deliver_none u \<Rightarrow> u | Deliver_exit g u \<Rightarrow> u | Deliver_handler c u \<Rightarrow> u)"
  shows "sched_ok s' qs" "task_list s' = task_list s" "current_task s' = current_task s" "sched_mono s s'"
    "pstate (tasks s' u) = pstate (tasks s u)" "priority (tasks s' u) = priority (tasks s u)"
    "pid (tasks s' u) = pid (tasks s u)"
proof -
  obtain T where T: "s' = s\<lparr>tasks := (tasks s)(t := T)\<rparr>" "rq_next T = rq_next (tasks s t)" "pstate T = pstate (tasks s t)"
    "waiting_on T = waiting_on (tasks s t)" "no_requeue T = no_requeue (tasks s t)" "pid T = pid (tasks s t)"
    "priv T = priv (tasks s t)" "priority T = priority (tasks s t)"
    using deliver_frame [OF assms(1,3)] by blast
  show "sched_ok s' qs" by (rule sched_ok_cong [OF assms(2)]) (simp_all add: T)
  show "sched_mono s s'" by (simp add: sched_mono_def T)
  show "task_list s' = task_list s" "current_task s' = current_task s"
    "pstate (tasks s' u) = pstate (tasks s u)" "priority (tasks s' u) = priority (tasks s u)"
    "pid (tasks s' u) = pid (tasks s u)" by (simp_all add: T)
qed

text \<open>A task taken from the queue is not queued any more; marked dead it leaves the invariant intact.\<close>

lemma dequeue_ok:
  assumes ok: "sched_ok s qs" and nr: "none_running s" and d: "dequeue s = (Some t, s1)"
  obtains qs1 where "t \<in> set (task_list s)" "pstate (tasks s1 t) = PROCESS_STATE_READY"
    "sched_ok (upd_task t (pstate_update (\<lambda>_. PROCESS_STATE_TERMINATED)) s1) qs1" "t \<notin> queued qs1"
    "\<And>u. u \<in> queued qs1 \<Longrightarrow> priority (tasks s1 u) \<le> priority (tasks s1 t)"
    "tasks s1 = (tasks s)(t := (tasks s t)\<lparr>rq_next := None\<rparr>)" "task_list s1 = task_list s" "current_task s1 = current_task s"
proof -
  obtain p ts where P: "p < 256" "qs p = t # ts" "\<And>p'. p < p' \<Longrightarrow> p' < 256 \<Longrightarrow> qs p' = []"
    "rq_inv s1 (qs(p := ts))" "tasks s1 = (tasks s)(t := (tasks s t)\<lparr>rq_next := None\<rparr>)"
    using dequeue_Some [OF sched_okD(1) [OF ok] d] by metis
  have tq: "t \<in> queued qs" unfolding queued_def by (rule UN_I [of p]) (simp_all add: P(1,2))
  have q1: "queued (qs(p := ts)) = queued qs - {t}" by (rule queued_upd [OF sched_okD(1) [OF ok] P(1,2)])
  have fl: "task_list s1 = task_list s" "current_task s1 = current_task s"
    using dequeue_fields(1,2) [of s] d by simp_all
  let ?s = "upd_task t (pstate_update (\<lambda>_. PROCESS_STATE_TERMINATED)) s1"
  have st: "pstate (tasks ?s u) = (if u = t then PROCESS_STATE_TERMINATED else pstate (tasks s u))"
    "waiting_on (tasks ?s u) = waiting_on (tasks s u)" "no_requeue (tasks ?s u) = no_requeue (tasks s u)"
    "pid (tasks ?s u) = pid (tasks s u)" "priv (tasks ?s u) = priv (tasks s u)"
    "task_list ?s = task_list s" "current_task ?s = current_task s" for u
    using P(5) fl by simp_all
  have "rq_inv ?s (qs(p := ts))" by (rule rq_inv_cong [OF P(4)]) simp_all
  then have "sched_ok ?s (qs(p := ts))"
  proof (rule sched_okI)
    fix u
    show "pstate (tasks ?s u) = PROCESS_STATE_READY" "u \<in> set (task_list ?s)" if "u \<in> queued (qs(p := ts))"
      using that sched_okD(2,3) [OF ok, of u] unfolding st q1 by auto
    show "no_requeue (tasks ?s u) \<or> u \<in> queued (qs(p := ts))"
      if "u \<in> set (task_list ?s)" "pstate (tasks ?s u) = PROCESS_STATE_READY"
      using that sched_okD(4) [OF ok, of u] unfolding st q1 by (cases "u = t") simp_all
    show "waits_idle (waiting_on (tasks ?s u))"
      if "u \<in> set (task_list ?s)" "pstate (tasks ?s u) \<noteq> PROCESS_STATE_BLOCKED"
      using that sched_okD(5) [OF ok, of u] sched_okD(2) [OF ok tq] unfolding st by (cases "u = t") simp_all
    show "u = current_task ?s" if "u \<in> set (task_list ?s)" "pstate (tasks ?s u) = PROCESS_STATE_RUNNING"
      using that sched_okD(9) [OF ok, of u] unfolding st by (auto split: if_splits)
    show "current_task ?s \<in> set (task_list ?s)" if "pstate (tasks ?s (current_task ?s)) = PROCESS_STATE_RUNNING"
      using that nr unfolding st none_running_def by (cases "current_task s = t") simp_all
  qed (insert sched_okD(6-8) [OF ok], unfold st, blast+)
  moreover have "priority (tasks s1 u) \<le> priority (tasks s1 t)" if u: "u \<in> queued (qs(p := ts))" for u
  proof -
    obtain p' where p': "p' < 256" "u \<in> set (qs p')" using u q1 by (auto simp: queued_def)
    have "p' \<le> p" using P(3) [of p'] p' by (cases "p < p'") auto
    moreover have "unat (priority (tasks s u)) = p'" "unat (priority (tasks s t)) = p"
      using rq_invD(7) [OF sched_okD(1) [OF ok]] p' P(1,2) by auto
    ultimately show ?thesis using P(5) by (simp add: word_le_nat_alt)
  qed
  moreover have "pstate (tasks s1 t) = PROCESS_STATE_READY" using sched_okD(2) [OF ok tq] P(5) by simp
  ultimately show thesis using that [of "qs(p := ts)"] sched_okD(3) [OF ok tq] q1 P(5) fl by blast
qed

lemma switch_to_fields [simp]:
  "task_list (switch_to t s) = task_list s" "current_task (switch_to t s) = t"
  "prio_q (switch_to t s) = prio_q s" "prio_bitmap (switch_to t s) = prio_bitmap s"
  "top_bitmap (switch_to t s) = top_bitmap s"
  "tasks (switch_to t s) = (tasks s)(t := (tasks s t)\<lparr>pstate := PROCESS_STATE_RUNNING\<rparr>)"
  by (simp_all add: switch_to_def preempt_enable_def sti_def Let_def)

text \<open>What a return of \<open>task_yield\<close> guarantees.\<close>

definition yield_post :: "yield_outcome \<Rightarrow> sched_state \<Rightarrow> bool" where
  "yield_post r s \<longleftrightarrow>
     (case r of
        Switch_to t \<Rightarrow>
          (\<exists>qs. sched_ok s qs \<and> (\<forall>u. u \<in> queued qs \<longrightarrow> priority (tasks s u) \<le> priority (tasks s t))) \<and>
          current_task s = t \<and> t \<in> set (task_list s) \<and> pstate (tasks s t) = PROCESS_STATE_RUNNING
      | Panic_no_task \<Rightarrow> (\<exists>qs. sched_ok s qs \<and> queued qs = {})
      | Panic_init_died \<Rightarrow> True)"

lemma switch_post:
  assumes ok: "sched_ok (upd_task t (pstate_update (\<lambda>_. PROCESS_STATE_TERMINATED)) s) qs" and t: "t \<notin> queued qs" "t \<in> set (task_list s)"
    and nr: "\<And>u. u \<in> set (task_list s) \<Longrightarrow> u \<noteq> t \<Longrightarrow> pstate (tasks s u) \<noteq> PROCESS_STATE_RUNNING"
    and pr: "\<And>u. u \<in> queued qs \<Longrightarrow> priority (tasks s u) \<le> priority (tasks s t)"
  shows "yield_post (Switch_to t) (switch_to t s)"
proof -
  let ?z = "upd_task t (pstate_update (\<lambda>_. PROCESS_STATE_TERMINATED)) s"
  have st: "pstate (tasks (switch_to t s) u) = (if u = t then PROCESS_STATE_RUNNING else pstate (tasks ?z u))"
    "waiting_on (tasks (switch_to t s) u) = waiting_on (tasks ?z u)"
    "no_requeue (tasks (switch_to t s) u) = no_requeue (tasks ?z u)"
    "pid (tasks (switch_to t s) u) = pid (tasks ?z u)" "priv (tasks (switch_to t s) u) = priv (tasks ?z u)"
    "task_list (switch_to t s) = task_list ?z" "current_task (switch_to t s) = t" for u
    by simp_all
  have "rq_inv (switch_to t s) qs" by (rule rq_inv_cong [OF sched_okD(1) [OF ok]]) simp_all
  then have "sched_ok (switch_to t s) qs"
  proof (rule sched_okI)
    fix u
    show "pstate (tasks (switch_to t s) u) = PROCESS_STATE_READY" if "u \<in> queued qs"
      using that t(1) sched_okD(2) [OF ok that] unfolding st by auto
    show "no_requeue (tasks (switch_to t s) u) \<or> u \<in> queued qs"
      if "u \<in> set (task_list (switch_to t s))" "pstate (tasks (switch_to t s) u) = PROCESS_STATE_READY"
      using that sched_okD(4) [OF ok, of u] unfolding st by (auto split: if_splits)
    show "waits_idle (waiting_on (tasks (switch_to t s) u))"
      if "u \<in> set (task_list (switch_to t s))" "pstate (tasks (switch_to t s) u) \<noteq> PROCESS_STATE_BLOCKED"
      using that sched_okD(5) [OF ok, of u] unfolding st by (auto split: if_splits)
    show "u = current_task (switch_to t s)"
      if "u \<in> set (task_list (switch_to t s))" "pstate (tasks (switch_to t s) u) = PROCESS_STATE_RUNNING"
      using that nr [of u] by (auto split: if_splits)
    show "current_task (switch_to t s) \<in> set (task_list (switch_to t s))" using t(2) by simp
  qed (insert sched_okD(3,6-8) [OF ok], unfold st, blast+)
  then show ?thesis using pr t(2) unfolding yield_post_def by (auto intro!: exI [of _ qs])
qed

lemma sched_loop_ends:
  assumes "sched_ok s qs" "none_running s" "\<And>x. wakes_ok s (cw x)"
  shows "\<exists>r s'. sched_loop cto cw s = Some (r, s') \<and> yield_post r s' \<and> set (task_list s') \<subseteq> set (task_list s)"
  using assms
proof (induction "length (task_list s)" arbitrary: s qs rule: less_induct)
  case less
  note IH = less.hyps
  note ok = less.prems(1) and nr = less.prems(2) and cw = less.prems(3)
  obtain d s1 where d: "dequeue s = (d, s1)" by fastforce
  show ?case
  proof (cases d)
    case None
    then have "queued qs = {}" "s1 = s" using dequeue_None [OF sched_okD(1) [OF ok]] d by simp_all
    then show ?thesis using d None ok by (subst sched_loop.simps) (auto simp: yield_post_def)
  next
    case (Some t)
    obtain qs1 where D: "t \<in> set (task_list s)" "pstate (tasks s1 t) = PROCESS_STATE_READY"
      "sched_ok (upd_task t (pstate_update (\<lambda>_. PROCESS_STATE_TERMINATED)) s1) qs1" "t \<notin> queued qs1"
      "\<And>u. u \<in> queued qs1 \<Longrightarrow> priority (tasks s1 u) \<le> priority (tasks s1 t)"
      "tasks s1 = (tasks s)(t := (tasks s t)\<lparr>rq_next := None\<rparr>)" "task_list s1 = task_list s" "current_task s1 = current_task s"
      using dequeue_ok [OF ok nr d [unfolded Some]] by metis
    have nr1: "pstate (tasks s1 u) \<noteq> PROCESS_STATE_RUNNING" if "u \<in> set (task_list s)" for u
      using nr that D(6) by (auto simp: none_running_def)
    show ?thesis
    proof (cases "priv (tasks s1 t) = CPU_USER_MODE")
      case False
      have "yield_post (Switch_to t) (switch_to t s1)"
        by (rule switch_post [OF D(3,4)]) (use D(1,7) nr1 D(5) in auto)
      then show ?thesis using d Some D(2,7) False by (subst sched_loop.simps) simp
    next
      case True
      let ?s1 = "s1\<lparr>current_aspace := address_space (tasks s1 t)\<rparr>"
      define dl where "dl = task_ipc_deliver_signals t (proc_ctx (tasks s1 t)) ?s1"
      define s2 where "s2 = (case dl of Deliver_none u \<Rightarrow> u | Deliver_exit g u \<Rightarrow> u | Deliver_handler c u \<Rightarrow> u)"
      obtain T where T: "s2 = ?s1\<lparr>tasks := (tasks ?s1)(t := T)\<rparr>" "rq_next T = rq_next (tasks ?s1 t)"
        "pstate T = pstate (tasks ?s1 t)" "waiting_on T = waiting_on (tasks ?s1 t)"
        "no_requeue T = no_requeue (tasks ?s1 t)" "pid T = pid (tasks ?s1 t)" "priv T = priv (tasks ?s1 t)"
        "priority T = priority (tasks ?s1 t)"
        using deliver_frame [OF dl_def [symmetric] s2_def] by blast
      let ?z = "upd_task t (pstate_update (\<lambda>_. PROCESS_STATE_TERMINATED))"
      have ok2: "sched_ok (?z (upd_task t (proc_ctx_update f) s2)) qs1" "sched_ok (?z s2) qs1" for f
        by (rule sched_ok_cong [OF D(3)]; simp add: T)+
      have pr2: "priority (tasks s2 u) \<le> priority (tasks s2 t)" if "u \<in> queued qs1" for u
        using D(5) [OF that] that D(4) by (cases "u = t") (simp_all add: T)
      have nr2: "pstate (tasks s2 u) \<noteq> PROCESS_STATE_RUNNING" if "u \<in> set (task_list s2)" "u \<noteq> t" for u
        using that nr1 [of u] D(7) by (simp add: T)
      have t2: "t \<in> set (task_list s2)" using D(1,7) by (simp add: T)
      have sw: "yield_post (Switch_to t) (switch_to t s2)"
        by (rule switch_post [OF ok2(2) D(4) t2 nr2 pr2])
      have swc: "yield_post (Switch_to t) (switch_to t (upd_task t (proc_ctx_update f) s2))" for f
        by (rule switch_post [OF ok2(1) D(4)]) (use t2 nr2 pr2 in \<open>auto split: if_splits\<close>)
      have tl2: "task_list s2 = task_list s" using D(7) by (simp add: T)
      have step: "sched_loop cto cw s = (case dl of
            Deliver_none s2 \<Rightarrow> Some (Switch_to t, switch_to t s2)
          | Deliver_handler ctx s2 \<Rightarrow> Some (Switch_to t, switch_to t (upd_task t (proc_ctx_update (\<lambda>_. ctx)) s2))
          | Deliver_exit sig s2 \<Rightarrow> (case task_exit_prep cto (cw t) t sig s2 of
               None \<Rightarrow> Some (Panic_init_died, s2)
             | Some s3 \<Rightarrow> sched_loop cto cw (yield_entry s3)))"
        using d Some D(2) True by (subst sched_loop.simps) (simp add: dl_def)
      show ?thesis
      proof (cases dl)
        case (Deliver_none u)
        then have u: "u = s2" by (simp add: s2_def)
        have "sched_loop cto cw s = Some (Switch_to t, switch_to t s2)" unfolding step Deliver_none u by simp
        then show ?thesis using sw tl2 by simp
      next
        case (Deliver_handler c u)
        then have u: "u = s2" by (simp add: s2_def)
        have "sched_loop cto cw s = Some (Switch_to t, switch_to t (upd_task t (proc_ctx_update (\<lambda>_. c)) s2))"
          unfolding step Deliver_handler u by simp
        then show ?thesis using swc tl2 by simp
      next
        case (Deliver_exit sig u)
        then have u: "u = s2" by (simp add: s2_def)
        have e: "task_exit_prep cto (cw t) t sig (?z s2) = task_exit_prep cto (cw t) t sig s2"
          unfolding task_exit_prep_def Let_def by (simp add: lock_scheduler_def cli_def Let_def)
        show ?thesis
        proof (cases "pid (tasks s2 t) = 1")
          case True
          then have "task_exit_prep cto (cw t) t sig s2 = None" by (simp add: task_exit_prep_def)
          then have "sched_loop cto cw s = Some (Panic_init_died, s2)" unfolding step Deliver_exit u by simp
          then show ?thesis using tl2 by (simp add: yield_post_def)
        next
          case False
          have mz: "sched_mono s (?z s2)" unfolding sched_mono_def using D(6,7) T by auto
          have p0: "pid (tasks (?z s2) t) \<noteq> 0"
            using sched_okD(7) [OF ok D(1)] True T(6,7) D(6) by (simp add: T(1))
          obtain s3 qs3 where E: "task_exit_prep cto (cw t) t sig (?z s2) = Some s3" "sched_ok s3 qs3"
            "task_list s3 = remove1 t (task_list (?z s2))" "sched_mono (?z s2) s3"
          proof (rule task_exit_prep_ok [OF ok2(2), where x = t and ws = "cw t" and cto = cto and sig = sig])
            show "wakes_ok (?z s2) (cw t)" by (rule wakes_ok_mono [OF cw mz])
          qed (use t2 D(4) p0 False in simp_all)
          have w3: "wakes_ok s3 (cw x)" for x by (rule wakes_ok_mono [OF cw sched_mono_trans [OF mz E(4)]])
          obtain qs4 where Y: "sched_ok (yield_entry s3) qs4" "task_list (yield_entry s3) = task_list s3"
            "sched_mono s3 (yield_entry s3)" "none_running (yield_entry s3)"
            using yield_entry_ok [OF E(2)] by metis
          have w4: "wakes_ok (yield_entry s3) (cw x)" for x by (rule wakes_ok_mono [OF w3 Y(3)])
          have l3: "task_list s3 = remove1 t (task_list s)" using E(3) tl2 by simp
          have "length (task_list (yield_entry s3)) < length (task_list s)"
            using D(1) length_pos_if_in_set [OF D(1)] unfolding Y(2) l3 by (simp add: length_remove1)
          from IH [OF this Y(1,4) w4] obtain r s' where R: "sched_loop cto cw (yield_entry s3) = Some (r, s')"
            "yield_post r s'" "set (task_list s') \<subseteq> set (task_list (yield_entry s3))" by blast
          have "sched_loop cto cw s = Some (r, s')" unfolding step Deliver_exit u using E(1) R(1) by (simp add: e)
          then show ?thesis using R(2,3) unfolding Y(2) l3 by (auto dest: subsetD [OF set_remove1_subset])
        qed
      qed
    qed
  qed
qed

end
