(* ===== verification/Schedops.thy ===== *)
theory Schedops
  imports Sched
begin

text \<open>
  The operations built on the scheduler: creating tasks, waiting for the exit of a child
  (\<open>sys_waitpid\<close> of \<^verbatim>\<open>kernel/syscall/syscall.c\<close>), the decay of priorities and the timer handler of
  \<^verbatim>\<open>kernel/io/irq.c\<close>; and the states the scheduler can reach through them.
\<close>

subsection \<open>Creating tasks\<close>

definition USER_MODE_SEGMENT :: u32 where "USER_MODE_SEGMENT = 0x23"
definition USER_MODE_CODE_SEGMENT :: u32 where "USER_MODE_CODE_SEGMENT = 0x1B"
definition INIT_EFLAGS :: u32 where "INIT_EFLAGS = 0x202"
definition USER_HEAP_START :: u32 where "USER_HEAP_START = 0x20000000"

definition zero_ctx :: processor_context where
  "zero_ctx = \<lparr>eax = 0, eip = 0, cs = 0, esp_at_trap = 0, other_regs = replicate 14 0\<rparr>"

text \<open>A block cleared by \<^verbatim>\<open>memset\<close>.\<close>

definition zero_pcb :: pcb where
  "zero_pcb =
     \<lparr>pid = 0, pstate = PROCESS_STATE_UNUSED, pname = replicate 32 0, cwd = replicate 256 0, entry = 0, k_esp = 0,
      esp_max = 0, esp_min = 0, k_eflags = 0, priv = CPU_KERNEL_MODE, proc_ctx = zero_ctx, exit_signal = 0, esp0 = 0,
      fpu_fx = replicate 512 0, rq_next = None, priority = 0, address_space = 0, brk_start = 0, brk_end = 0,
      waiting_on = 0, status_ptr = 0, quanta_used = 0, original_priority = 0, reset_count = 0,
      signal_handlers = (\<lambda>_. 0), signal_bitmask = 0, blocked_signals = 0, signal_ctx = zero_ctx,
      signal_fpu_fx = replicate 512 0, in_signal_handler = False, no_requeue = False, alarm_ticks = 0,
      cpu_user_ticks = 0, cpu_kernel_ticks = 0, user_mem = (\<lambda>_. 0)\<rparr>"

text \<open>
  \<open>other_regs\<close> holds ds, es, fs, gs, edi, esi, ebp, esp_at_pushal, ebx, edx, ecx, stub_eflags,
  eflags and ss.
\<close>

definition user_ctx :: "u32 \<Rightarrow> processor_context" where
  "user_ctx e = \<lparr>eax = 0, eip = e, cs = USER_MODE_CODE_SEGMENT, esp_at_trap = 0,
     other_regs = replicate 4 USER_MODE_SEGMENT @ replicate 7 0 @ [INIT_EFLAGS, INIT_EFLAGS, USER_MODE_SEGMENT]\<rparr>"

text \<open>
  \<open>a\<close> is the block that \<^verbatim>\<open>kernel_malloc_align\<close> returned. \<open>None\<close> stands for a panic for want of a kernel
  stack, or for a name that overruns its field.
\<close>

definition task_create :: "nat \<Rightarrow> u32 \<Rightarrow> u8 list \<Rightarrow> cpu_mode \<Rightarrow> u8 \<Rightarrow> sched_state \<Rightarrow> sched_state option" where
  "task_create a e name pr prio s =
     (case strncpy (replicate 32 0) name 31 of
        None \<Rightarrow> None
      | Some nm \<Rightarrow>
          let P = zero_pcb\<lparr>pid := next_pid s, pstate := PROCESS_STATE_READY, priv := pr, k_eflags := INIT_EFLAGS,
                     priority := prio, original_priority := prio, pname := nm,
                     cwd := 47 # replicate 255 0, fpu_fx := fx_clean s, signal_fpu_fx := fx_clean s, entry := e\<rparr>
          in (case alloc_kernel_stack (s\<lparr>next_pid := next_pid s + 1\<rparr>) of
                None \<Rightarrow> None
              | Some (stk, s1) \<Rightarrow>
                  let top = w32 (stk + KERNEL_STACK_SIZE);
                      P1 = (if pr = CPU_USER_MODE
                            then P\<lparr>proc_ctx := user_ctx e, signal_ctx := user_ctx e, brk_start := USER_HEAP_START,
                                   brk_end := USER_HEAP_START, esp0 := top\<rparr>
                            else P\<lparr>k_esp := top, esp0 := top, esp_max := stk, esp_min := top\<rparr>)
                  in Some (enqueue_task_list a (s1\<lparr>tasks := (tasks s1)(a := P1)\<rparr>))))"

text \<open>The state before the first task exists, and the block of the kernel itself.\<close>

definition sched_zero :: "u8 list \<Rightarrow> u32 \<Rightarrow> sched_state" where
  "sched_zero fx fl =
     \<lparr>tasks = (\<lambda>_. zero_pcb), prio_q = (\<lambda>_. \<lparr>q_head = None, q_tail = None\<rparr>), top_bitmap = 0,
      prio_bitmap = (\<lambda>_. 0), current_task = 0, task_list = [], zombie_list = [], reaped = [], next_pid = 0,
      next_kernel_stack = KERNEL_STACK_TOP, free_kernel_stacks = 0, stack_mem = (\<lambda>_. 0), current_aspace = 0,
      multitasking_ready = False, lock_count = 0, saved_eflags = 0, eflags = fl, preempt_count = 0, fx_clean = fx\<rparr>"

definition multitasking_init :: "nat \<Rightarrow> nat \<Rightarrow> sched_state \<Rightarrow> sched_state" where
  "multitasking_init a esp s =
     s\<lparr>tasks := (tasks s)(a := zero_pcb\<lparr>pid := next_pid s, k_esp := esp, esp_max := 0x00200000, esp0 := esp,
                  pstate := PROCESS_STATE_BLOCKED,
                  pname := the (strncpy (replicate 32 0)
                    [83, 101, 114, 111, 116, 111, 110, 105, 110, 32, 75, 101, 114, 110, 101, 108, 0] 32)\<rparr>),
       next_pid := next_pid s + 1, task_list := [a], current_task := a\<rparr>"

definition multitasking_make_ready :: "sched_state \<Rightarrow> sched_state" where
  "multitasking_make_ready s = s\<lparr>multitasking_ready := True\<rparr>"

subsection \<open>Waiting for the exit of a task\<close>

definition ESRCH :: int where "ESRCH = 3"

text \<open>
  The call either returns with a value for the caller, or blocks: \<open>None\<close> is the latter, and the
  state is the one in which \<open>task_block\<close> runs.
\<close>

definition sys_waitpid :: "int \<Rightarrow> u32 \<Rightarrow> sched_state \<Rightarrow> int option \<times> sched_state" where
  "sys_waitpid p st s =
     (let s1 = lock_scheduler s;
          wait = upd_task (current_task s1) (\<lambda>T. T\<lparr>waiting_on := p, status_ptr := st\<rparr>) s1
      in if p = -1 then (None, wait)
         else (case task_lookup_by_pid (word_of_int p) s1 of
                 None \<Rightarrow> (Some (- ESRCH), unlock_scheduler s1)
               | Some t \<Rightarrow>
                   if pstate (tasks s1 t) \<noteq> PROCESS_STATE_TERMINATED then (None, wait)
                   else (Some 0, unlock_scheduler s1)))"

subsection \<open>Priorities and the timer\<close>

definition task_priority_decay :: "nat \<Rightarrow> sched_state \<Rightarrow> int \<times> sched_state" where
  "task_priority_decay t s =
     (let T = tasks s t; prio = uint (priority T); quanta = sint (quanta_used T)
      in if quanta < PRIORITY_QUANTA_PUNISH then (prio, s)
         else if prio = 0 then
           (let r = reset_count T + 1;
                T1 = (if unat r \<ge> PRIORITY_RESET_DECAY
                      then T\<lparr>reset_count := 0,
                             original_priority := (if original_priority T > 0 then original_priority T - 1
                                                   else original_priority T)\<rparr>
                      else T\<lparr>reset_count := r\<rparr>)
            in (uint (original_priority T1), upd_task t (\<lambda>_. T1) s))
         else (clamp (prio - PRIORITY_DECAY_RATE) 0 (int MAX_PRIORITY), upd_task t (quanta_used_update (\<lambda>_. 0)) s))"

definition SCHEDULE_QUANTUM :: u64 where "SCHEDULE_QUANTUM = 10"
definition VBE_TICKS_PER_FRAME :: u32 where "VBE_TICKS_PER_FRAME = 8"

record pit_state =
  timer_ticks :: u64
  vbe_ticks :: u32
  last_quantum_tick :: u64
  vbe_worker_task :: nat

definition alarm_tick :: "nat \<Rightarrow> sched_state \<Rightarrow> sched_state" where
  "alarm_tick t s =
     (if alarm_ticks (tasks s t) > 0
      then let s1 = upd_task t (\<lambda>T. T\<lparr>alarm_ticks := alarm_ticks T - 1\<rparr>) s
           in if alarm_ticks (tasks s1 t) = 0 then snd (task_ipc_signal_raise t EXIT_SIGALRM s1) else s1
      else s)"

definition account_tick :: "processor_context \<Rightarrow> sched_state \<Rightarrow> sched_state" where
  "account_tick ctx s =
     (if pstate (tasks s (current_task s)) = PROCESS_STATE_RUNNING
      then upd_task (current_task s)
             (\<lambda>T. if cs ctx = USER_MODE_CODE_SEGMENT then T\<lparr>cpu_user_ticks := cpu_user_ticks T + 1\<rparr>
                  else T\<lparr>cpu_kernel_ticks := cpu_kernel_ticks T + 1\<rparr>) s
      else s)"

text \<open>
  The handler ends by returning, or by switching tasks, and then the outcome of \<open>task_yield\<close> is its
  result. \<open>polls\<close> are the tasks whose \<^verbatim>\<open>poll\<close> or \<^verbatim>\<open>select\<close> call \<^verbatim>\<open>poll_waiter_tick\<close> completes at this
  tick, with the result it stores for each; it wakes them.
\<close>

definition irq_pit_handler where
  "irq_pit_handler cto cw polls ctx (pit :: pit_state) s =
     (let pit = pit\<lparr>timer_ticks := timer_ticks pit + 1, vbe_ticks := vbe_ticks pit + 1\<rparr>
      in if \<not> multitasking_ready s then Some (pit, None, s)
         else
           let s = fold alarm_tick (task_list s) s;
               s = account_tick ctx s;
               s = fold (\<lambda>(t, rc) s. task_unblock t (upd_task t (\<lambda>T. T\<lparr>proc_ctx := (proc_ctx T)\<lparr>eax := rc\<rparr>\<rparr>) s)) polls s;
               (pit, s) = (if vbe_ticks pit \<ge> VBE_TICKS_PER_FRAME
                           then (pit\<lparr>vbe_ticks := 0\<rparr>, enqueue (vbe_worker_task pit) s) else (pit, s));
               c = current_task s
           in if preempt_count s = 0 \<and> priv (tasks s c) = CPU_USER_MODE \<and> pstate (tasks s c) = PROCESS_STATE_RUNNING
              then let pit = pit\<lparr>last_quantum_tick := last_quantum_tick pit + 1\<rparr>
                   in if last_quantum_tick pit \<ge> SCHEDULE_QUANTUM
                      then if cs ctx \<noteq> USER_MODE_CODE_SEGMENT then Some (pit, None, s)
                           else let s = upd_task c (\<lambda>T. T\<lparr>quanta_used := quanta_used T + 1\<rparr>) s;
                                    (np, s) = task_priority_decay c s;
                                    s = upd_task c (\<lambda>T. T\<lparr>priority := word_of_int np, proc_ctx := ctx\<rparr>) s
                                in (case task_yield cto cw s of
                                      None \<Rightarrow> None
                                    | Some (r, s1) \<Rightarrow> Some (pit\<lparr>last_quantum_tick := 0\<rparr>, Some r, s1))
                      else Some (pit, None, s)
              else Some (pit, None, s))"

subsection \<open>The states the scheduler reaches\<close>

lemma task_yield_ends:
  assumes "sched_ok s qs" "\<And>x. wakes_ok s (cw x)"
  shows "\<exists>r s'. task_yield cto cw s = Some (r, s') \<and> yield_post r s' \<and> set (task_list s') \<subseteq> set (task_list s)"
proof -
  obtain qs' where Y: "sched_ok (yield_entry s) qs'" "task_list (yield_entry s) = task_list s"
    "sched_mono s (yield_entry s)" "none_running (yield_entry s)"
    using yield_entry_ok [OF assms(1)] by metis
  show ?thesis
    unfolding task_yield_def Y(2) [symmetric]
    by (rule sched_loop_ends [OF Y(1,4)]) (rule wakes_ok_mono [OF assms(2) Y(3)])
qed

text \<open>
  Runs of the scheduler by these operations, \<^verbatim>\<open>fork\<close> not among them, in which a task is woken or signalled only when it does not wait for the
  exit of another, no task is enqueued that is queued already, and a block that is created is not in use. The kernel does not see to
  the first two (\<open>exit_wake_loses_tasks\<close> shows what happens otherwise), so what follows is about such runs and not about all.
\<close>

inductive sched_run :: "sched_state \<Rightarrow> bool" where
  reach_boot: "sched_run (multitasking_init a esp (sched_zero fx fl))"
| reach_ready: "sched_run s \<Longrightarrow> sched_run (multitasking_make_ready s)"
| reach_create: "sched_run s \<Longrightarrow> a \<notin> set (task_list s) \<Longrightarrow> a \<noteq> current_task s \<Longrightarrow> next_pid s \<noteq> 0 \<Longrightarrow>
    next_pid s \<noteq> -1 \<Longrightarrow> task_create a e name pr prio s = Some s' \<Longrightarrow> sched_run (enqueue a s')"
| reach_worker: "sched_run s \<Longrightarrow> a \<notin> set (task_list s) \<Longrightarrow> a \<noteq> current_task s \<Longrightarrow> next_pid s \<noteq> 0 \<Longrightarrow>
    next_pid s \<noteq> -1 \<Longrightarrow> task_create a e name CPU_KERNEL_MODE prio s = Some s' \<Longrightarrow>
    sched_run (upd_task a (no_requeue_update (\<lambda>_. True)) s')"
| reach_frame: "sched_run s \<Longrightarrow> t \<in> set (task_list s) \<Longrightarrow> pstate (tasks s t) = PROCESS_STATE_READY \<Longrightarrow>
    (\<And>qs. rq_inv s qs \<Longrightarrow> t \<notin> queued qs) \<Longrightarrow> sched_run (enqueue t s)"
| reach_unblock: "sched_run s \<Longrightarrow> t \<in> set (task_list s) \<Longrightarrow> waits_idle (waiting_on (tasks s t)) \<Longrightarrow>
    sched_run (task_unblock t s)"
| reach_signal: "sched_run s \<Longrightarrow> t \<in> set (task_list s) \<Longrightarrow> waits_idle (waiting_on (tasks s t)) \<Longrightarrow>
    sched_run (snd (task_ipc_signal_raise t sig s))"
| reach_decay: "sched_run s \<Longrightarrow> pstate (tasks s (current_task s)) = PROCESS_STATE_RUNNING \<Longrightarrow>
    task_priority_decay (current_task s) s = (np, s') \<Longrightarrow>
    sched_run (upd_task (current_task s) (priority_update (\<lambda>_. word_of_int np)) s')"
| reach_yield: "sched_run s \<Longrightarrow> (\<And>x. wakes_ok s (cw x)) \<Longrightarrow> task_yield cto cw s = Some (Switch_to t, s') \<Longrightarrow>
    sched_run s'"
| reach_block: "sched_run s \<Longrightarrow> (\<And>x. wakes_ok s (cw x)) \<Longrightarrow> pstate (tasks s (current_task s)) = PROCESS_STATE_RUNNING \<Longrightarrow>
    task_block cto cw s = Some (Switch_to t, s') \<Longrightarrow> sched_run s'"
| reach_waitpid: "sched_run s \<Longrightarrow> sys_waitpid p st s = (Some r, s') \<Longrightarrow> sched_run s'"
| reach_wait: "sched_run s \<Longrightarrow> pstate (tasks s (current_task s)) = PROCESS_STATE_RUNNING \<Longrightarrow>
    (\<And>x. current_task s \<notin> set (cw x) \<and> wakes_ok s (cw x)) \<Longrightarrow>
    sys_waitpid p st s = (None, s1) \<Longrightarrow> task_block cto cw s1 = Some (Switch_to t, s') \<Longrightarrow> sched_run s'"
| reach_exit: "sched_run s \<Longrightarrow> (\<And>x. wakes_ok s (cw x)) \<Longrightarrow> pstate (tasks s (current_task s)) = PROCESS_STATE_RUNNING \<Longrightarrow>
    pid (tasks s (current_task s)) \<noteq> 0 \<Longrightarrow> task_exit cto cw (current_task s) sig s = Some (Switch_to t, s') \<Longrightarrow>
    sched_run s'"

lemma boot_ok: "sched_ok (multitasking_init a esp (sched_zero fx fl)) (\<lambda>_. [])"
  by (simp add: sched_ok_def rq_inv_def queued_def multitasking_init_def sched_zero_def zero_pcb_def waits_idle_def)

lemma create_ok:
  assumes ok: "sched_ok s qs" and a: "a \<notin> set (task_list s)" "a \<noteq> current_task s"
    and np: "next_pid s \<noteq> 0" "next_pid s \<noteq> -1" and c: "task_create a e name pr prio s = Some s'"
  shows "rq_inv s' qs" "a \<notin> queued qs" "task_list s' = task_list s @ [a]" "current_task s' = current_task s"
    "\<And>u. u \<noteq> a \<Longrightarrow> tasks s' u = tasks s u" "pstate (tasks s' a) = PROCESS_STATE_READY" "waiting_on (tasks s' a) = 0"
    "pid (tasks s' a) = next_pid s" "priv (tasks s' a) = pr" "no_requeue (tasks s' a) = False"
proof -
  have st: "tasks s1 = tasks s \<and> prio_q s1 = prio_q s \<and> prio_bitmap s1 = prio_bitmap s \<and> top_bitmap s1 = top_bitmap s \<and>
      task_list s1 = task_list s \<and> current_task s1 = current_task s"
    if "alloc_kernel_stack (s\<lparr>next_pid := n\<rparr>) = Some (k, s1)" for n k s1
    using that by (auto simp: alloc_kernel_stack_def Let_def split: if_splits)
  show aq: "a \<notin> queued qs" using sched_okD(3) [OF ok] a(1) by blast
  show 1: "task_list s' = task_list s @ [a]" "current_task s' = current_task s"
    "\<And>u. u \<noteq> a \<Longrightarrow> tasks s' u = tasks s u" "pstate (tasks s' a) = PROCESS_STATE_READY" "waiting_on (tasks s' a) = 0"
    "pid (tasks s' a) = next_pid s" "priv (tasks s' a) = pr" "no_requeue (tasks s' a) = False"
    using c by (auto simp: task_create_def Let_def enqueue_task_list_def zero_pcb_def dest!: st split: option.splits if_splits)
  have 2: "prio_q s' = prio_q s" "prio_bitmap s' = prio_bitmap s" "top_bitmap s' = top_bitmap s"
    using c by (auto simp: task_create_def Let_def enqueue_task_list_def dest!: st split: option.splits)
  show "rq_inv s' qs"
  proof (rule rq_inv_cong [OF sched_okD(1) [OF ok] _ _ 2])
    fix t
    assume "t \<in> queued qs"
    then have "t \<noteq> a" using aq by auto
    then show "rq_next (tasks s' t) = rq_next (tasks s t)" "priority (tasks s' t) = priority (tasks s t)"
      using 1(3) by simp_all
  qed
qed

text \<open>Changing the block of a task that is not queued, and keeping it out of the ready state.\<close>

lemma sched_ok_update:
  assumes ok: "sched_ok s qs" and t: "t \<notin> queued qs" "t \<in> set (task_list s)"
    and s': "\<And>u. u \<noteq> t \<Longrightarrow> tasks s' u = tasks s u" "prio_q s' = prio_q s" "prio_bitmap s' = prio_bitmap s"
      "top_bitmap s' = top_bitmap s" "task_list s' = task_list s" "current_task s' = current_task s"
    and T: "pstate (tasks s' t) \<noteq> PROCESS_STATE_READY"
      "pstate (tasks s' t) \<noteq> PROCESS_STATE_BLOCKED \<Longrightarrow> waits_idle (waiting_on (tasks s' t))"
      "pid (tasks s' t) = pid (tasks s t)" "priv (tasks s' t) = priv (tasks s t)"
      "pstate (tasks s' t) = PROCESS_STATE_RUNNING \<Longrightarrow> t = current_task s"
  shows "sched_ok s' qs"
proof -
  have q: "tasks s' u = tasks s u" if "u \<in> queued qs" for u using that t(1) s'(1) by metis
  have "rq_inv s' qs" by (rule rq_inv_cong [OF sched_okD(1) [OF ok] _ _ s'(2-4)]) (simp_all add: q)
  then show ?thesis
  proof (rule sched_okI)
    fix u
    show "pstate (tasks s' u) = PROCESS_STATE_READY" "u \<in> set (task_list s')" if "u \<in> queued qs"
      using sched_okD(2,3) [OF ok that] q [OF that] s'(5) by simp_all
    show "no_requeue (tasks s' u) \<or> u \<in> queued qs" if "u \<in> set (task_list s')" "pstate (tasks s' u) = PROCESS_STATE_READY"
      using sched_okD(4) [OF ok, of u] that s'(1) [of u] s'(5) T(1) by (cases "u = t") simp_all
    show "waits_idle (waiting_on (tasks s' u))" if "u \<in> set (task_list s')" "pstate (tasks s' u) \<noteq> PROCESS_STATE_BLOCKED"
      using sched_okD(5) [OF ok, of u] that s'(1) [of u] s'(5) T(2) by (cases "u = t") simp_all
    show "pid (tasks s' u) \<noteq> -1" if "u \<in> set (task_list s')"
      using sched_okD(6) [OF ok, of u] that s'(1) [of u] s'(5) T(3) by (cases "u = t") simp_all
    show "pid (tasks s' u) \<noteq> 0" if "u \<in> set (task_list s')" "priv (tasks s' u) = CPU_USER_MODE"
      using sched_okD(7) [OF ok, of u] that s'(1) [of u] s'(5) T(3,4) by (cases "u = t") simp_all
    show "distinct (task_list s')" using sched_okD(8) [OF ok] s'(5) by simp
    show "u = current_task s'" if "u \<in> set (task_list s')" "pstate (tasks s' u) = PROCESS_STATE_RUNNING"
    proof (cases "u = t")
      case True
      then show ?thesis using that(2) T(5) s'(6) by simp
    next
      case False
      then show ?thesis using sched_okD(9) [OF ok, of u] that s'(1) [OF False] s'(5,6) by metis
    qed
    show "current_task s' \<in> set (task_list s')" if "pstate (tasks s' (current_task s')) = PROCESS_STATE_RUNNING"
    proof (cases "current_task s = t")
      case True
      then show ?thesis using t(2) s'(5,6) by simp
    next
      case False
      then show ?thesis using sched_okD(10) [OF ok] that s'(1) [OF False] s'(5,6) by simp
    qed
  qed
qed

lemma running_facts:
  assumes "sched_ok s qs" "pstate (tasks s (current_task s)) = PROCESS_STATE_RUNNING"
  shows "current_task s \<in> set (task_list s)" "current_task s \<notin> queued qs" "waits_idle (waiting_on (tasks s (current_task s)))"
proof -
  show c: "current_task s \<in> set (task_list s)" by (rule sched_okD(10) [OF assms])
  show "current_task s \<notin> queued qs" using sched_okD(2) [OF assms(1), of "current_task s"] assms(2) by auto
  show "waits_idle (waiting_on (tasks s (current_task s)))" using sched_okD(5) [OF assms(1) c] assms(2) by simp
qed

lemma create_enqueue_ok:
  assumes ok: "sched_ok s qs" and a: "a \<notin> set (task_list s)" "a \<noteq> current_task s"
    and np: "next_pid s \<noteq> 0" "next_pid s \<noteq> -1" and c: "task_create a e name pr prio s = Some s'"
  shows "\<exists>qs'. sched_ok (enqueue a s') qs'" "pr = CPU_KERNEL_MODE \<Longrightarrow> sched_ok (upd_task a (no_requeue_update (\<lambda>_. True)) s') qs"
proof -
  note C = create_ok [OF assms]
  have gen: "sched_ok z qs"
    if z: "\<And>u. u \<noteq> a \<Longrightarrow> tasks z u = tasks s u" "prio_q z = prio_q s'" "prio_bitmap z = prio_bitmap s'"
      "top_bitmap z = top_bitmap s'" "task_list z = task_list s'" "current_task z = current_task s'"
      "pid (tasks z a) = pid (tasks s' a)" "waiting_on (tasks z a) = 0"
      "pstate (tasks z a) = PROCESS_STATE_TERMINATED \<or> pstate (tasks z a) = PROCESS_STATE_READY \<and> no_requeue (tasks z a)" for z
  proof -
    have q: "u \<noteq> a" if "u \<in> queued qs" for u using that C(2) by auto
    have "rq_inv z qs" by (rule rq_inv_cong [OF C(1) _ _ z(2-4)]) (use q z(1) C(5) in auto)
    then show ?thesis
    proof (rule sched_okI)
      fix u
      show "pstate (tasks z u) = PROCESS_STATE_READY" "u \<in> set (task_list z)" if "u \<in> queued qs"
        using sched_okD(2,3) [OF ok that] q [OF that] z(1) [of u] z(5) C(3) by auto
      show "no_requeue (tasks z u) \<or> u \<in> queued qs" if "u \<in> set (task_list z)" "pstate (tasks z u) = PROCESS_STATE_READY"
        using sched_okD(4) [OF ok, of u] that z(1) [of u] z(5,9) C(3) by (cases "u = a") auto
      show "waits_idle (waiting_on (tasks z u))" if "u \<in> set (task_list z)" "pstate (tasks z u) \<noteq> PROCESS_STATE_BLOCKED"
        using sched_okD(5) [OF ok, of u] that z(1) [of u] z(5,8) C(3) by (cases "u = a") (auto simp: waits_idle_def)
      show "pid (tasks z u) \<noteq> -1" if "u \<in> set (task_list z)"
        using sched_okD(6) [OF ok, of u] that z(1) [of u] z(5,7) C(3,8) np by (cases "u = a") auto
      show "pid (tasks z u) \<noteq> 0" if "u \<in> set (task_list z)" "priv (tasks z u) = CPU_USER_MODE"
        using sched_okD(7) [OF ok, of u] that z(1) [of u] z(5,7) C(3,8) np by (cases "u = a") auto
      show "distinct (task_list z)" using sched_okD(8) [OF ok] z(5) C(3) a by simp
      show "u = current_task z" if "u \<in> set (task_list z)" "pstate (tasks z u) = PROCESS_STATE_RUNNING"
      proof -
        have "u \<noteq> a" using that(2) z(9) by auto
        then show ?thesis using sched_okD(9) [OF ok, of u] that z(1) [of u] z(5,6) C(3,4) by auto
      qed
      show "current_task z \<in> set (task_list z)" if "pstate (tasks z (current_task z)) = PROCESS_STATE_RUNNING"
        using sched_okD(10) [OF ok] that z(1) [of "current_task s"] z(5,6) C(3,4) a(2) by simp
    qed
  qed
  let ?z = "upd_task a (pstate_update (\<lambda>_. PROCESS_STATE_TERMINATED)) s'"
  have okz: "sched_ok ?z qs" by (rule gen) (use C(5,7) in simp_all)
  have "\<exists>qs'. sched_ok (enqueue a s') qs' \<and> queued qs' = insert a (queued qs)"
    by (rule sched_ok_ready [OF okz C(2)]) (use C in \<open>simp_all add: waits_idle_def\<close>)
  then show "\<exists>qs'. sched_ok (enqueue a s') qs'" by blast
  show "sched_ok (upd_task a (no_requeue_update (\<lambda>_. True)) s') qs"
    by (rule gen) (use C(5,6,7) in simp_all)
qed

lemma signal_ok:
  assumes ok: "sched_ok s qs" and t: "t \<in> set (task_list s)" "waits_idle (waiting_on (tasks s t))"
  shows "\<exists>qs'. sched_ok (snd (task_ipc_signal_raise t sig s)) qs'"
proof (cases "sig \<ge> 16")
  case True
  then show ?thesis using ok by (auto simp: task_ipc_signal_raise_def)
next
  case False
  let ?s = "upd_task t (\<lambda>T. T\<lparr>signal_bitmask := signal_bitmask T OR push_bit (unat sig) 1\<rparr>) s"
  have "sched_ok ?s qs" by (rule sched_ok_cong [OF ok]) simp_all
  moreover from sched_ok_unblock [OF this] t have "\<exists>qs'. sched_ok (task_unblock t ?s) qs'" by simp
  ultimately show ?thesis using False by (auto simp: task_ipc_signal_raise_def Let_def)
qed

lemma exit_ok:
  assumes ok: "sched_ok s qs" and w: "\<And>x. wakes_ok s (cw x)"
    and x: "pstate (tasks s x) \<noteq> PROCESS_STATE_BLOCKED" "x \<in> set (task_list s)" "x \<notin> queued qs" "pid (tasks s x) \<noteq> 0"
  shows "\<exists>r s'. task_exit cto cw x sig s = Some (r, s') \<and> yield_post r s' \<and>
    (pid (tasks s x) \<noteq> 1 \<longrightarrow> x \<notin> set (task_list s'))"
proof (cases "pid (tasks s x) = 1")
  case True
  then show ?thesis by (auto simp: task_exit_def task_exit_prep_def yield_post_def)
next
  case False
  obtain s1 qs1 where E: "task_exit_prep cto (cw x) x sig s = Some s1" "sched_ok s1 qs1"
    "task_list s1 = remove1 x (task_list s)" "sched_mono s s1"
  proof (rule task_exit_prep_ok [OF ok x(2,3,1,4) False, where ws = "cw x" and cto = cto and sig = sig])
    show "wakes_ok s (cw x)" by (rule w)
  qed simp_all
  obtain r s' where Y: "task_yield cto cw s1 = Some (r, s')" "yield_post r s'" "set (task_list s') \<subseteq> set (task_list s1)"
    using task_yield_ends [OF E(2), of cw cto] wakes_ok_mono [OF w E(4)] by blast
  have "x \<notin> set (task_list s')" using Y(3) E(3) sched_okD(8) [OF ok] by auto
  then show ?thesis using Y E(1) by (auto simp: task_exit_def)
qed

lemma sched_run_ok:
  assumes "sched_run s"
  shows "\<exists>qs. sched_ok s qs"
  using assms
proof (induction rule: sched_run.induct)
  case (reach_boot a esp fx fl)
  then show ?case using boot_ok by blast
next
  case (reach_ready s)
  then obtain qs where "sched_ok s qs" by blast
  then have "sched_ok (multitasking_make_ready s) qs"
    by (rule sched_ok_cong) (simp_all add: multitasking_make_ready_def)
  then show ?case by blast
next
  case (reach_create s a e name pr prio s')
  then show ?case using create_enqueue_ok(1) by blast
next
  case (reach_worker s a e name prio s')
  then show ?case using create_enqueue_ok(2) by blast
next
  case (reach_frame s t)
  then obtain qs where ok: "sched_ok s qs" by blast
  have "t \<notin> queued qs" by (rule reach_frame.hyps(4) [OF sched_okD(1) [OF ok]])
  from sched_ok_ready [OF ok this reach_frame.hyps(2), of s] show ?case
    using reach_frame.hyps(2,3) sched_okD(5) [OF ok reach_frame.hyps(2)] by auto
next
  case (reach_unblock s t)
  then show ?case using sched_ok_unblock by blast
next
  case (reach_signal s t sig)
  then show ?case using signal_ok by blast
next
  case (reach_decay s np s')
  then obtain qs where ok: "sched_ok s qs" by blast
  note R = running_facts [OF ok reach_decay.hyps(2)]
  have "\<exists>T. s' = upd_task (current_task s) (\<lambda>_. T) s \<and> pstate T = pstate (tasks s (current_task s)) \<and>
      waiting_on T = waiting_on (tasks s (current_task s)) \<and> pid T = pid (tasks s (current_task s)) \<and>
      priv T = priv (tasks s (current_task s))"
    using reach_decay.hyps(3) unfolding task_priority_decay_def Let_def
    by (auto split: if_splits intro!: exI [of _ "tasks s' (current_task s)"])
  then obtain T where T: "s' = upd_task (current_task s) (\<lambda>_. T) s" "pstate T = pstate (tasks s (current_task s))"
    "waiting_on T = waiting_on (tasks s (current_task s))" "pid T = pid (tasks s (current_task s))"
    "priv T = priv (tasks s (current_task s))" by blast
  have "sched_ok (upd_task (current_task s) (priority_update (\<lambda>_. word_of_int np)) s') qs"
    by (rule sched_ok_update [OF ok R(2,1)]) (use T reach_decay.hyps(2) R(3) in simp_all)
  then show ?case by blast
next
  case (reach_yield s cw cto t s')
  then obtain qs where ok: "sched_ok s qs" by blast
  from task_yield_ends [OF ok, of cw cto] reach_yield.hyps(2) show ?case
    using reach_yield.hyps(3) by (auto simp: yield_post_def)
next
  case (reach_block s cw cto t s')
  then obtain qs where ok: "sched_ok s qs" by blast
  note R = running_facts [OF ok reach_block.hyps(3)]
  let ?s = "upd_task (current_task s) (pstate_update (\<lambda>_. PROCESS_STATE_BLOCKED)) s"
  have ok1: "sched_ok ?s qs" by (rule sched_ok_update [OF ok R(2,1)]) simp_all
  have "wakes_ok ?s (cw x)" for x using reach_block.hyps(2) [of x] R(1) by (auto simp: wakes_ok_def)
  from task_yield_ends [OF ok1, of cw cto, OF this] show ?case
    using reach_block.hyps(4) by (auto simp: task_block_def yield_post_def)
next
  case (reach_waitpid s p st r s')
  then obtain qs where ok: "sched_ok s qs" by blast
  have "s' = unlock_scheduler (lock_scheduler s)"
    using reach_waitpid.hyps(2) by (auto simp: sys_waitpid_def Let_def split: option.splits if_splits)
  then show ?case using ok by auto
next
  case (reach_wait s cw p st s1 cto t s')
  then obtain qs where ok: "sched_ok s qs" by blast
  note R = running_facts [OF ok reach_wait.hyps(2)]
  have s1: "s1 = upd_task (current_task s) (\<lambda>T. T\<lparr>waiting_on := p, status_ptr := st\<rparr>) (lock_scheduler s)"
    using reach_wait.hyps(4) by (auto simp: sys_waitpid_def Let_def split: option.splits if_splits)
  let ?s = "upd_task (current_task s1) (pstate_update (\<lambda>_. PROCESS_STATE_BLOCKED)) s1"
  have ok1: "sched_ok ?s qs" by (rule sched_ok_update [OF ok R(2,1)]) (simp_all add: s1)
  have "wakes_ok ?s (cw x)" for x
    using reach_wait.hyps(3) [of x] by (auto simp: wakes_ok_def s1)
  from task_yield_ends [OF ok1, of cw cto, OF this] show ?case
    using reach_wait.hyps(5) by (auto simp: task_block_def yield_post_def)
next
  case (reach_exit s cw cto sig t s')
  then obtain qs where ok: "sched_ok s qs" by blast
  note R = running_facts [OF ok reach_exit.hyps(3)]
  have nb: "pstate (tasks s (current_task s)) \<noteq> PROCESS_STATE_BLOCKED" using reach_exit.hyps(3) by simp
  from exit_ok [OF ok _ nb R(1,2) reach_exit.hyps(4), of cw cto sig] reach_exit.hyps(2,5) show ?case
    by (auto simp: yield_post_def)
qed

subsection \<open>Properties\<close>

text \<open>The order in which repeated calls of \<open>dequeue\<close> hand out the tasks.\<close>

primrec dispatch :: "nat \<Rightarrow> sched_state \<Rightarrow> nat list" where
  "dispatch 0 s = []"
| "dispatch (Suc n) s = (case dequeue s of (None, s') \<Rightarrow> [] | (Some t, s') \<Rightarrow> t # dispatch n s')"

lemma dispatch_drain: "dispatch n s = rq.drain n s"
  by (induction n arbitrary: s) (auto simp: split: option.split prod.split)

text \<open>
  C23. The run queue of head, tail and link pointers under two levels of bitmaps is a queue per
  priority: a task that is enqueued goes behind the others of its priority and into no other queue,
  and the tasks leave in the order of falling priority, first come first served within one. Reached
  from any state whose links and bitmaps agree with the queues \<open>qs\<close>.
\<close>

theorem run_queue_spec:
  assumes "rq_inv s qs" and "t \<notin> queued qs" and "p = unat (priority (tasks s t))"
    and "length (concat (map qs (rev [0..<256]))) \<le> n"
  shows "rq_inv (enqueue t s) (qs(p := qs p @ [t])) \<and> dispatch n s = concat (map qs (rev [0..<256]))"
  using rq.enq_law [OF assms(1,2)] rq.drain_order [OF assms(1), of n] assms(3,4)
  unfolding dispatch_drain rq.order_def by simp

definition sched_demo :: sched_state where
  "sched_demo = enqueue 2 (the (task_create 2 0x400000 [97, 0] CPU_USER_MODE 5 (multitasking_init 1 0 (sched_zero [] 0))))"

lemma zero_rq: "rq_inv (sched_zero fx fl) (\<lambda>_. [])"
  by (simp add: rq_inv_def sched_zero_def zero_pcb_def)

lemma run_queue_spec_witness:
  "dispatch 2 (enqueue 8 (enqueue 7 (sched_zero [] 0))) = [7, 8]"
proof -
  let ?z = "sched_zero [] 0"
  have pr: "priority (tasks ?z u) = 0" for u by (simp add: sched_zero_def zero_pcb_def)
  have 1: "rq_inv (enqueue 7 ?z) ((\<lambda>_. [])(0 := [7]))"
    using run_queue_spec [OF zero_rq, where t = 7 and p = 0 and n = 0] by (simp add: pr queued_def)
  have 2: "rq_inv (enqueue 8 (enqueue 7 ?z)) (((\<lambda>_. [])(0 := [7]))(0 := [7, 8]))"
    using run_queue_spec [OF 1, where t = 8 and p = 0 and n = 1] by (simp add: pr queued_def upt_rec [of 0])
  have c: "concat (map (((\<lambda>_. [])(0 := [7]))(0 := [7, 8])) (rev [0..<256])) = [7, 8 :: nat]"
    by (simp add: upt_rec [of 0])
  show ?thesis
    using run_queue_spec [OF 2, where t = 9 and p = 0 and n = 2] unfolding c by (simp add: pr queued_def)
qed

text \<open>
  In such a run of creating tasks, waking and signalling them, blocking,
  waiting for a child, yielding and exiting, the links, tails and bitmaps of the run queue describe
  duplicate-free disjoint queues, every queued task is ready, no ready task is lost from them (but the
  one worker that asks not to be requeued), and at most one task is running, the current one.
\<close>

lemma sched_run_sound:
  assumes "sched_run s"
  shows "\<exists>qs. rq_inv s qs \<and>
    (\<forall>t. t \<in> queued qs \<longrightarrow> pstate (tasks s t) = PROCESS_STATE_READY \<and> t \<in> set (task_list s)) \<and>
    (\<forall>t. t \<in> set (task_list s) \<and> pstate (tasks s t) = PROCESS_STATE_READY \<longrightarrow> no_requeue (tasks s t) \<or> t \<in> queued qs) \<and>
    (\<forall>t. t \<in> set (task_list s) \<and> pstate (tasks s t) = PROCESS_STATE_RUNNING \<longrightarrow> t = current_task s)"
proof -
  obtain qs where ok: "sched_ok s qs" using sched_run_ok [OF assms] by blast
  show ?thesis by (intro exI [of _ qs]) (use sched_okD [OF ok] in blast)
qed

lemma demo_name: "strncpy (replicate 32 0) [97, 0] 31 = Some (97 # replicate 31 0)"
  by code_simp

lemma demo_reach: "sched_run sched_demo"
  unfolding sched_demo_def
proof (rule reach_create)
  let ?b = "multitasking_init 1 0 (sched_zero [] 0)"
  show "sched_run ?b" by (rule reach_boot)
  show "task_create 2 0x400000 [97, 0] CPU_USER_MODE 5 ?b = Some (the (task_create 2 0x400000 [97, 0] CPU_USER_MODE 5 ?b))"
    by (simp add: task_create_def multitasking_init_def sched_zero_def alloc_kernel_stack_def
        KERNEL_STACK_TOP_def KERNEL_STACK_BOTTOM_def KERNEL_STACK_SIZE_def Let_def demo_name)
qed (simp_all add: multitasking_init_def sched_zero_def)

lemma demo_fields:
  "task_list sched_demo = [1, 2]" "pstate (tasks sched_demo 2) = PROCESS_STATE_READY"
  "no_requeue (tasks sched_demo 2) = False" "current_task sched_demo = 1"
  "waiting_on (tasks sched_demo u) = 0"
  by (simp_all add: sched_demo_def task_create_def multitasking_init_def sched_zero_def alloc_kernel_stack_def
      KERNEL_STACK_TOP_def KERNEL_STACK_BOTTOM_def KERNEL_STACK_SIZE_def Let_def demo_name enqueue_task_list_def zero_pcb_def)

lemma sched_run_sound_witness: "\<exists>qs. rq_inv sched_demo qs \<and> 2 \<in> queued qs"
proof -
  obtain qs where "rq_inv sched_demo qs"
    "\<forall>t. t \<in> set (task_list sched_demo) \<and> pstate (tasks sched_demo t) = PROCESS_STATE_READY \<longrightarrow>
       no_requeue (tasks sched_demo t) \<or> t \<in> queued qs"
    using sched_run_sound [OF demo_reach] by blast
  then show ?thesis using demo_fields by auto
qed

text \<open>
  \<open>task_yield\<close> always ends. When it switches, it switches to a task of the highest priority among
  those that are ready, that task is then the running one, and the state is again a reachable one; it
  panics for want of a task only when no task is ready. This includes the tasks that the switch
  itself ends because a signal without a handler is pending for them. The hypothesis is about the
  tasks that the closing of descriptors wakes: none of them waits for the exit of another task.
\<close>

lemma task_yield_spec:
  assumes reach: "sched_run s" and w: "\<And>x. wakes_ok s (cw x)"
  shows "\<exists>r s'. task_yield cto cw s = Some (r, s') \<and>
    (\<forall>t. r = Switch_to t \<longrightarrow> sched_run s' \<and> current_task s' = t \<and> pstate (tasks s' t) = PROCESS_STATE_RUNNING \<and>
       (\<forall>u. u \<in> set (task_list s') \<and> pstate (tasks s' u) = PROCESS_STATE_READY \<and> \<not> no_requeue (tasks s' u) \<longrightarrow>
          priority (tasks s' u) \<le> priority (tasks s' t))) \<and>
    (r = Panic_no_task \<longrightarrow>
       (\<forall>u. u \<in> set (task_list s') \<and> pstate (tasks s' u) = PROCESS_STATE_READY \<longrightarrow> no_requeue (tasks s' u)))"
proof -
  obtain qs where "sched_ok s qs" using sched_run_ok [OF reach] by blast
  from task_yield_ends [OF this, of cw cto] w obtain r s' where
    Y: "task_yield cto cw s = Some (r, s')" "yield_post r s'" by blast
  have sw: "sched_run s' \<and> current_task s' = t \<and> pstate (tasks s' t) = PROCESS_STATE_RUNNING \<and>
       (\<forall>u. u \<in> set (task_list s') \<and> pstate (tasks s' u) = PROCESS_STATE_READY \<and> \<not> no_requeue (tasks s' u) \<longrightarrow>
          priority (tasks s' u) \<le> priority (tasks s' t))" if "r = Switch_to t" for t
  proof -
    obtain qs' where q: "sched_ok s' qs'" "\<forall>u. u \<in> queued qs' \<longrightarrow> priority (tasks s' u) \<le> priority (tasks s' t)"
      "current_task s' = t" "pstate (tasks s' t) = PROCESS_STATE_RUNNING"
      using Y(2) \<open>r = Switch_to t\<close> by (auto simp: yield_post_def)
    have "sched_run s'" by (rule reach_yield [OF reach w Y(1) [unfolded that]])
    then show ?thesis using q sched_okD(4) [OF q(1)] by blast
  qed
  have pn: "\<forall>u. u \<in> set (task_list s') \<and> pstate (tasks s' u) = PROCESS_STATE_READY \<longrightarrow> no_requeue (tasks s' u)"
    if "r = Panic_no_task"
  proof -
    obtain qs' where "sched_ok s' qs'" "queued qs' = {}" using Y(2) \<open>r = Panic_no_task\<close> by (auto simp: yield_post_def)
    then show ?thesis using sched_okD(4) by blast
  qed
  show ?thesis using Y(1) sw pn by blast
qed

lemma task_yield_spec_witness:
  "\<exists>r s'. task_yield (\<lambda>_ _. True) (\<lambda>_. [1]) sched_demo = Some (r, s')"
proof -
  have "wakes_ok sched_demo ((\<lambda>_. [1]) x)" for x :: nat
    using demo_fields by (simp add: wakes_ok_def waits_idle_def)
  from task_yield_spec [OF demo_reach this] show ?thesis by blast
qed

text \<open>Enqueueing a task that is in its queue already cuts off everything behind it.\<close>

lemma chain_cut:
  "chain f h (us @ t # vs) \<Longrightarrow> distinct (us @ t # vs) \<Longrightarrow> z \<notin> set (us @ [t]) \<Longrightarrow>
   chain (f(t := None, z := v)) h (us @ [t])"
  by (induction us arbitrary: h) auto

lemma enqueue_twice:
  assumes inv: "rq_inv s qs" and p_def: "p = unat (priority (tasks s t))" and q: "qs p = us @ t # v # vs"
  shows "chain (\<lambda>u. rq_next (tasks (enqueue t s) u)) (q_head (prio_q (enqueue t s) p)) (us @ [t])"
proof -
  have p: "p < 256" unfolding p_def by (rule prio_lt)
  note I = rq_invD(1,2) [OF inv p]
  have nx: "(\<lambda>u. rq_next (tasks (enqueue t s) u)) = (\<lambda>u. rq_next (tasks s u))(t := None, last (qs p) := Some t)"
    using enqueue_next [OF inv p_def] q by simp
  obtain h where h: "q_head (prio_q s p) = Some h" using I(1) q by (cases us) auto
  then have hd: "q_head (prio_q (enqueue t s) p) = q_head (prio_q s p)"
    by (auto simp: enqueue_def Let_def p_def)
  have "last (qs p) = last (v # vs)" using q by simp
  then have "last (qs p) \<notin> set (us @ [t])" using I(2) q last_in_set [of "v # vs"] by auto
  then show ?thesis unfolding hd nx using I q chain_cut [of "\<lambda>u. rq_next (tasks s u)"] by metis
qed

text \<open>
  \<open>task_exit\<close> wakes a task that waits for the exiting one without looking at its state, and a signal
  may have made that task ready before. It is then enqueued a second time: when other tasks have
  joined its queue behind it in between, the links of the queue end at it, and those tasks, though
  ready, are not in any queue from then on.
\<close>

theorem exit_wake_loses_tasks:
  assumes "rq_inv s qs" and "word_of_int (waiting_on (tasks s t)) = pid (tasks s x)"
    and "p = unat (priority (tasks s t))" and "qs p = us @ t # v # vs"
  shows "chain (\<lambda>u. rq_next (tasks (exit_wake cto x sig t s) u)) (q_head (prio_q (exit_wake cto x sig t s) p)) (us @ [t])
    \<and> v \<notin> set (us @ [t])"
proof -
  define T where "T = (let T = tasks s t; ok = (status_ptr T \<noteq> 0 \<and> cto t (status_ptr T)) in
    T\<lparr>waiting_on := -1,
      user_mem := (if ok then (user_mem T)(status_ptr T := push_bit 8 (ucast sig)) else user_mem T),
      pstate := PROCESS_STATE_READY,
      proc_ctx := (proc_ctx T)\<lparr>eax := if ok then pid (tasks s x) else word_of_int (- EFAULT)\<rparr>\<rparr>)"
  have T: "rq_next T = rq_next (tasks s t)" "priority T = priority (tasks s t)" by (simp_all add: T_def Let_def)
  have e: "exit_wake cto x sig t s = enqueue t (upd_task t (\<lambda>_. T) s)"
    unfolding exit_wake_def T_def using assms(2) by (simp add: Let_def)
  have inv: "rq_inv (upd_task t (\<lambda>_. T) s) qs" by (rule rq_inv_cong [OF assms(1)]) (simp_all add: T)
  have "distinct (qs p)" unfolding assms(3) by (rule rq_invD(2) [OF assms(1) prio_lt])
  then show ?thesis
    unfolding e using enqueue_twice [OF inv, of p t us v vs] assms(3,4) T(2) by auto
qed

lemma exit_wake_loses_tasks_witness:
  "chain (\<lambda>u. rq_next (tasks (exit_wake (\<lambda>_ _. True) 9 1 7 (enqueue 8 (enqueue 7 (sched_zero [] 0)))) u))
     (q_head (prio_q (exit_wake (\<lambda>_ _. True) 9 1 7 (enqueue 8 (enqueue 7 (sched_zero [] 0)))) 0)) [7]"
proof -
  let ?z = "sched_zero [] 0"
  have f: "priority (tasks ?z u) = 0" "waiting_on (tasks ?z u) = 0" "pid (tasks ?z u) = 0" for u
    by (simp_all add: sched_zero_def zero_pcb_def)
  have 1: "rq_inv (enqueue 7 ?z) ((\<lambda>_. [])(0 := [7]))"
    using enqueue_inv [OF zero_rq [of "[]" 0] _ refl, where t = 7] by (simp add: f queued_def)
  have 2: "rq_inv (enqueue 8 (enqueue 7 ?z)) ((\<lambda>_. [])(0 := [7, 8]))"
    using enqueue_inv [OF 1 _ refl, where t = 8] by (simp add: f queued_def)
  show ?thesis
    using exit_wake_loses_tasks [OF 2, of 7 9 0 "[]" 8 "[]" "\<lambda>_ _. True" 1] by (simp add: f)
qed

text \<open>
  A signal is delivered only to a user task that is not in a handler and has a pending signal that
  it does not block. Then the lowest such signal is taken, and only its bit is cleared; the context is
  saved; and with a handler the context enters it, eight bytes down the stack, with the trampoline as
  return address and the signal number as argument, while without a handler the task has to exit.
\<close>

theorem deliver_signals_spec:
  assumes "priv (tasks s t) = CPU_USER_MODE" and "\<not> in_signal_handler (tasks s t)"
    and d: "pending = signal_bitmask (tasks s t) AND NOT (blocked_signals (tasks s t))"
  shows "if pending = 0 then task_ipc_deliver_signals t ctx s = Deliver_none s
    else \<exists>k s'. bit pending k \<and> k < 32 \<and> (\<forall>j. j < k \<longrightarrow> \<not> bit pending j) \<and>
      (\<forall>j. bit (signal_bitmask (tasks s' t)) j \<longleftrightarrow> bit (signal_bitmask (tasks s t)) j \<and> j \<noteq> k) \<and>
      signal_ctx (tasks s' t) = ctx \<and> (\<forall>u. u \<noteq> t \<longrightarrow> tasks s' u = tasks s u) \<and>
      (if signal_handlers (tasks s t) k = 0 then task_ipc_deliver_signals t ctx s = Deliver_exit (word_of_nat k) s'
       else task_ipc_deliver_signals t ctx s =
              Deliver_handler (ctx\<lparr>esp_at_trap := esp_at_trap ctx - 8, eip := signal_handlers (tasks s t) k\<rparr>) s' \<and>
            in_signal_handler (tasks s' t) \<and>
            user_mem (tasks s' t) (esp_at_trap ctx - 8) = SIGNAL_TRAMPOLINE_ADDR \<and>
            user_mem (tasks s' t) (esp_at_trap ctx - 4) = word_of_nat k)"
proof (cases "pending = 0")
  case True
  then show ?thesis using assms by (simp add: task_ipc_deliver_signals_def Let_def)
next
  case False
  let ?k = "builtin_ctz pending"
  note K = ctz_lowest [OF False]
  have b: "bit (signal_bitmask (tasks s t) AND NOT (push_bit ?k 1)) j \<longleftrightarrow> bit (signal_bitmask (tasks s t)) j \<and> j \<noteq> ?k" for j
    using bit_imp_le_length [of "signal_bitmask (tasks s t)" j] K(2) by (auto simp: bit_simps)
  define d where "d = task_ipc_deliver_signals t ctx s"
  define s' where "s' = (case d of Deliver_none u \<Rightarrow> u | Deliver_exit g u \<Rightarrow> u | Deliver_handler c u \<Rightarrow> u)"
  have e: "esp_at_trap ctx - 8 + 4 = esp_at_trap ctx - 4" by simp
  have ne: "esp_at_trap ctx - 8 \<noteq> esp_at_trap ctx - 4" by simp
  have "bit pending ?k \<and> ?k < 32 \<and> (\<forall>j. j < ?k \<longrightarrow> \<not> bit pending j)" using K by blast
  moreover have "(\<forall>j. bit (signal_bitmask (tasks s' t)) j \<longleftrightarrow> bit (signal_bitmask (tasks s t)) j \<and> j \<noteq> ?k)"
    unfolding s'_def d_def task_ipc_deliver_signals_def Let_def assms(3) [symmetric]
    using assms(1,2) False b by simp
  moreover have "signal_ctx (tasks s' t) = ctx \<and> (\<forall>u. u \<noteq> t \<longrightarrow> tasks s' u = tasks s u)"
    unfolding s'_def d_def task_ipc_deliver_signals_def Let_def assms(3) [symmetric]
    using assms(1,2) False by simp
  moreover have "if signal_handlers (tasks s t) ?k = 0 then d = Deliver_exit (word_of_nat ?k) s'
       else d = Deliver_handler (ctx\<lparr>esp_at_trap := esp_at_trap ctx - 8, eip := signal_handlers (tasks s t) ?k\<rparr>) s' \<and>
            in_signal_handler (tasks s' t) \<and>
            user_mem (tasks s' t) (esp_at_trap ctx - 8) = SIGNAL_TRAMPOLINE_ADDR \<and>
            user_mem (tasks s' t) (esp_at_trap ctx - 4) = word_of_nat ?k"
    unfolding s'_def d_def task_ipc_deliver_signals_def Let_def assms(3) [symmetric]
    using assms(1,2) False by simp
  ultimately show ?thesis using False unfolding d_def by (simp only: if_False) blast
qed

lemma deliver_signals_spec_witness:
  "task_ipc_deliver_signals 0 zero_ctx (upd_task 0 (\<lambda>T. T\<lparr>priv := CPU_USER_MODE\<rparr>) (sched_zero [] 0))
     = Deliver_none (upd_task 0 (\<lambda>T. T\<lparr>priv := CPU_USER_MODE\<rparr>) (sched_zero [] 0))"
  using deliver_signals_spec [of "upd_task 0 (\<lambda>T. T\<lparr>priv := CPU_USER_MODE\<rparr>) (sched_zero [] 0)" 0 0 zero_ctx]
  by (simp add: sched_zero_def zero_pcb_def)

text \<open>A kernel stack that is freed is the next one handed out, and the free list is as before.\<close>

lemma kernel_stack_reuse:
  "b \<noteq> 0 \<Longrightarrow> \<exists>s'. alloc_kernel_stack (free_kernel_stack b s) = Some (b, s') \<and> free_kernel_stacks s' = free_kernel_stacks s"
  by (simp add: alloc_kernel_stack_def free_kernel_stack_def)

text \<open>Waiting for any child (a process number of -1) is never ended by an exit: no process has that number.\<close>

lemma waitpid_any_never_woken:
  "pid (tasks s x) \<noteq> -1 \<Longrightarrow> waiting_on (tasks s t) = -1 \<Longrightarrow> exit_wake cto x sig t s = s"
  by (auto simp: exit_wake_def Let_def)

text \<open>The decay of a priority never leaves the range of its type.\<close>

lemma priority_decay_bounds:
  assumes "task_priority_decay t s = (np, s')"
  shows "0 \<le> np" "np \<le> max (uint (priority (tasks s t))) (uint (original_priority (tasks s t)))"
proof -
  have "uint (w - 1) \<le> uint w" if "0 < w" for w :: u8
  proof -
    have "w \<noteq> 0" using that by auto
    then have "w - 1 \<le> w" by (simp add: word_le_nat_alt unat_minus_one)
    then show ?thesis by (simp add: word_le_def)
  qed
  then show "0 \<le> np" "np \<le> max (uint (priority (tasks s t))) (uint (original_priority (tasks s t)))"
    using assms by (auto simp: task_priority_decay_def Let_def clamp_def PRIORITY_DECAY_RATE_def MAX_PRIORITY_def
        max_def split: if_splits)
qed

end
