(* ===== verification/Sync.thy ===== *)
theory Sync
  imports Schedops
begin

text \<open>
  The blocking locks and the semaphores of \<^verbatim>\<open>kernel/schedule/schedule.c\<close>. The waiters of each are
  the list of tasks in the order of the wait nodes. A call that blocks ends in the state in which it
  yields; what it does when it is resumed is a definition of its own.
\<close>

subsection \<open>Locks\<close>

record lock =
  held :: bool
  block_on_hold :: bool
  lk_owner :: "nat option"
  lk_waiters :: "nat list"

definition enqueue_waiter :: "lock \<Rightarrow> nat \<Rightarrow> lock" where
  "enqueue_waiter l t = l\<lparr>lk_waiters := lk_waiters l @ [t]\<rparr>"

definition dequeue_waiter :: "lock \<Rightarrow> nat option \<times> lock" where
  "dequeue_waiter l = (case lk_waiters l of [] \<Rightarrow> (None, l) | t # ts \<Rightarrow> (Some t, l\<lparr>lk_waiters := ts\<rparr>))"

definition task_lock_init :: "bool \<Rightarrow> lock" where
  "task_lock_init b = \<lparr>held = False, block_on_hold = b, lk_owner = None, lk_waiters = []\<rparr>"

datatype lock_result = Lock_ok | Lock_block | Lock_busy

text \<open>\<open>Lock_block\<close>: the caller goes into \<open>task_block\<close>, and returns 0 after it. \<open>Lock_busy\<close> is -1.\<close>

definition task_lock_acquire :: "nat \<Rightarrow> lock \<Rightarrow> lock_result \<times> lock" where
  "task_lock_acquire cur l =
     (if \<not> held l then
        let l1 = l\<lparr>held := True, lk_owner := Some cur\<rparr> in (if block_on_hold l1 then Lock_block else Lock_ok, l1)
      else if block_on_hold l then (Lock_block, enqueue_waiter l cur)
      else (Lock_busy, l))"

definition task_lock_release :: "lock \<Rightarrow> sched_state \<Rightarrow> lock \<times> sched_state" where
  "task_lock_release l s =
     (let owner = lk_owner l
      in if held l then
           (case dequeue_waiter l of
              (Some nxt, l1) \<Rightarrow>
                (l1\<lparr>lk_owner := Some nxt, held := True\<rparr>,
                 if block_on_hold l then task_unblock (the owner) s else s)
            | (None, l1) \<Rightarrow>
                (l1\<lparr>held := False, lk_owner := None\<rparr>,
                 if block_on_hold l then task_unblock (the owner) s else s))
         else (l, s))"

text \<open>What a lock stands for: the tasks that hold it and wait for it, in order.\<close>

definition lock_queue :: "lock \<Rightarrow> nat list" where
  "lock_queue l = (if held l then the (lk_owner l) # lk_waiters l else [])"

definition lock_inv :: "lock \<Rightarrow> bool" where
  "lock_inv l \<longleftrightarrow> (held l \<longleftrightarrow> lk_owner l \<noteq> None) \<and> (\<not> held l \<longrightarrow> lk_waiters l = [])"

lemma lock_init_inv: "lock_inv (task_lock_init b) \<and> lock_queue (task_lock_init b) = []"
  by (simp add: lock_inv_def lock_queue_def task_lock_init_def)

text \<open>
  C24. A lock that blocks is a first-come-first-served queue of tasks: acquiring it always puts the caller
  at the end and blocks it, even when the lock was free, and releasing it wakes the task at the front
  and removes it. A lock that does not block is a flag: acquiring it fails when it is held.
\<close>

theorem lock_refines_queue:
  assumes "lock_inv l"
  shows "lock_inv (snd (task_lock_acquire cur l)) \<and> lock_inv (fst (task_lock_release l s)) \<and>
    (if block_on_hold l
     then fst (task_lock_acquire cur l) = Lock_block \<and> lock_queue (snd (task_lock_acquire cur l)) = lock_queue l @ [cur]
     else fst (task_lock_acquire cur l) = (if lock_queue l = [] then Lock_ok else Lock_busy) \<and>
          lock_queue (snd (task_lock_acquire cur l)) = (if lock_queue l = [] then [cur] else lock_queue l)) \<and>
    lock_queue (fst (task_lock_release l s)) = tl (lock_queue l) \<and>
    snd (task_lock_release l s) =
      (if block_on_hold l \<and> lock_queue l \<noteq> [] then task_unblock (hd (lock_queue l)) s else s)"
  using assms
  by (auto simp: lock_inv_def lock_queue_def task_lock_acquire_def task_lock_release_def enqueue_waiter_def
      dequeue_waiter_def Let_def split: list.splits option.splits)

lemma lock_refines_queue_witness:
  "lock_queue (snd (task_lock_acquire 5 (task_lock_init True))) = [5] \<and> fst (task_lock_acquire 5 (task_lock_init True)) = Lock_block"
  using lock_refines_queue [of "task_lock_init True" 5] lock_init_inv [of True] by (simp add: task_lock_init_def)

subsection \<open>Semaphores\<close>

record lock_semaphore =
  max_count :: u32
  current_count :: u32
  sem_waiters :: "nat list"

definition task_semaphore_init :: "u32 \<Rightarrow> lock_semaphore" where
  "task_semaphore_init n = \<lparr>max_count = n, current_count = n, sem_waiters = []\<rparr>"

definition enqueue_waiter_semaphore :: "lock_semaphore \<Rightarrow> nat \<Rightarrow> lock_semaphore" where
  "enqueue_waiter_semaphore m t = m\<lparr>sem_waiters := sem_waiters m @ [t]\<rparr>"

definition dequeue_waiter_semaphore :: "lock_semaphore \<Rightarrow> nat option \<times> lock_semaphore" where
  "dequeue_waiter_semaphore m = (case sem_waiters m of [] \<Rightarrow> (None, m) | t # ts \<Rightarrow> (Some t, m\<lparr>sem_waiters := ts\<rparr>))"

text \<open>
  The body of the waiting loop up to \<^verbatim>\<open>kernel_yield\<close>, and the rest of the call when the loop ends. The
  truth value says whether the semaphore was acquired; otherwise the caller has yielded.
\<close>

definition sem_block :: "lock_semaphore \<Rightarrow> sched_state \<Rightarrow> bool \<times> lock_semaphore \<times> sched_state" where
  "sem_block m s =
     (False, m, unlock_scheduler (upd_task (current_task s) (pstate_update (\<lambda>_. PROCESS_STATE_BLOCKED)) s))"

definition sem_take :: "lock_semaphore \<Rightarrow> sched_state \<Rightarrow> bool \<times> lock_semaphore \<times> sched_state" where
  "sem_take m s = (True, m\<lparr>current_count := current_count m - 1\<rparr>, unlock_scheduler s)"

definition task_semaphore_acquire :: "lock_semaphore \<Rightarrow> sched_state \<Rightarrow> bool \<times> lock_semaphore \<times> sched_state" where
  "task_semaphore_acquire m s =
     (let s1 = lock_scheduler s
      in if current_count m = 0 then sem_block (enqueue_waiter_semaphore m (current_task s1)) s1
         else sem_take m s1)"

text \<open>After \<^verbatim>\<open>kernel_yield\<close> returns: the lock is taken again and the condition of the loop tested.\<close>

definition task_semaphore_resume :: "lock_semaphore \<Rightarrow> sched_state \<Rightarrow> bool \<times> lock_semaphore \<times> sched_state" where
  "task_semaphore_resume m s =
     (let s1 = lock_scheduler s in if current_count m = 0 then sem_block m s1 else sem_take m s1)"

definition task_semaphore_release :: "lock_semaphore \<Rightarrow> sched_state \<Rightarrow> lock_semaphore \<times> sched_state" where
  "task_semaphore_release m s =
     (let s1 = lock_scheduler s;
          m1 = m\<lparr>current_count := current_count m + 1\<rparr>;
          (w, m2) = dequeue_waiter_semaphore m1;
          s2 = (case w of None \<Rightarrow> s1 | Some t \<Rightarrow> task_unblock t s1)
      in (m2, unlock_scheduler s2))"

subsection \<open>Tasks that use a semaphore\<close>

text \<open>Where a task stands with respect to the semaphore: outside, in the waiting loop, or holding it.\<close>

datatype sem_place = Sem_out | Sem_waiting | Sem_holding

record sem_sys =
  sy_sched :: sched_state
  sy_sem :: lock_semaphore
  sy_place :: "nat \<Rightarrow> sem_place"

text \<open>A task runs when it is not blocked or dead: the scheduler has made it the current one.\<close>

definition run_task :: "nat \<Rightarrow> sched_state \<Rightarrow> sched_state" where
  "run_task t s = (upd_task t (pstate_update (\<lambda>_. PROCESS_STATE_RUNNING)) s)\<lparr>current_task := t\<rparr>"

definition can_run :: "nat \<Rightarrow> sched_state \<Rightarrow> bool" where
  "can_run t s \<longleftrightarrow> pstate (tasks s t) = PROCESS_STATE_READY \<or> pstate (tasks s t) = PROCESS_STATE_RUNNING"

inductive sem_step :: "sem_sys \<Rightarrow> sem_sys \<Rightarrow> bool" where
  sem_enter: "sy_place y t = Sem_out \<Longrightarrow> can_run t (sy_sched y) \<Longrightarrow>
    task_semaphore_acquire (sy_sem y) (run_task t (sy_sched y)) = (got, m, s) \<Longrightarrow>
    sem_step y \<lparr>sy_sched = s, sy_sem = m, sy_place = (sy_place y)(t := if got then Sem_holding else Sem_waiting)\<rparr>"
| sem_resume: "sy_place y t = Sem_waiting \<Longrightarrow> can_run t (sy_sched y) \<Longrightarrow>
    task_semaphore_resume (sy_sem y) (run_task t (sy_sched y)) = (got, m, s) \<Longrightarrow>
    sem_step y \<lparr>sy_sched = s, sy_sem = m, sy_place = (sy_place y)(t := if got then Sem_holding else Sem_waiting)\<rparr>"
| sem_leave: "sy_place y t = Sem_holding \<Longrightarrow> can_run t (sy_sched y) \<Longrightarrow>
    task_semaphore_release (sy_sem y) (run_task t (sy_sched y)) = (m, s) \<Longrightarrow>
    sem_step y \<lparr>sy_sched = s, sy_sem = m, sy_place = (sy_place y)(t := Sem_out)\<rparr>"

inductive sem_reach :: "sem_sys \<Rightarrow> sem_sys \<Rightarrow> bool" for y where
  sem_start: "sem_reach y y"
| sem_next: "sem_reach y z \<Longrightarrow> sem_step z z' \<Longrightarrow> sem_reach y z'"

inductive_cases sem_stepE: "sem_step y z"

lemma sem_reach_trans: "sem_reach x y \<Longrightarrow> sem_reach y z \<Longrightarrow> sem_reach x z"
  by (rotate_tac, induction rule: sem_reach.induct) (auto intro: sem_next)

lemmas sem_defs = task_semaphore_acquire_def task_semaphore_resume_def task_semaphore_release_def sem_block_def
  sem_take_def enqueue_waiter_semaphore_def dequeue_waiter_semaphore_def run_task_def

text \<open>The count and the number of holders add up to the maximum.\<close>

definition holders :: "(nat \<Rightarrow> sem_place) \<Rightarrow> nat set" where
  "holders f = {t. f t = Sem_holding}"

definition sem_inv :: "sem_sys \<Rightarrow> bool" where
  "sem_inv y \<longleftrightarrow> finite (holders (sy_place y)) \<and>
     unat (current_count (sy_sem y)) + card (holders (sy_place y)) = unat (max_count (sy_sem y))"

lemma holders_upd:
  "holders (f(t := v)) = (if v = Sem_holding then insert t (holders f) else holders f - {t})"
  by (auto simp: holders_def)

lemma holders_iff: "t \<in> holders f \<longleftrightarrow> f t = Sem_holding"
  by (simp add: holders_def)

lemma sem_step_inv:
  assumes "sem_step y z" "sem_inv y"
  shows "sem_inv z \<and> max_count (sy_sem z) = max_count (sy_sem y)"
  using assms(1)
proof cases
  case (sem_enter t got m s)
  have c: "current_count (sy_sem y) \<noteq> 0 \<Longrightarrow> unat (current_count (sy_sem y) - 1) = unat (current_count (sy_sem y)) - 1"
    and p: "current_count (sy_sem y) \<noteq> 0 \<Longrightarrow> 0 < unat (current_count (sy_sem y))"
    by (simp_all add: unat_minus_one unat_gt_0)
  show ?thesis
    using sem_enter assms(2) c p unfolding sem_inv_def
    by (auto simp: sem_defs Let_def holders_upd holders_iff split: if_splits)
next
  case (sem_resume t got m s)
  have c: "current_count (sy_sem y) \<noteq> 0 \<Longrightarrow> unat (current_count (sy_sem y) - 1) = unat (current_count (sy_sem y)) - 1"
    and p: "current_count (sy_sem y) \<noteq> 0 \<Longrightarrow> 0 < unat (current_count (sy_sem y))"
    by (simp_all add: unat_minus_one unat_gt_0)
  show ?thesis
    using sem_resume assms(2) c p unfolding sem_inv_def
    by (auto simp: sem_defs Let_def holders_upd holders_iff split: if_splits)
next
  case (sem_leave t m s)
  let ?H = "holders (sy_place y)"
  have t: "t \<in> ?H" "finite ?H" using sem_leave assms(2) by (auto simp: sem_inv_def holders_iff)
  then have cd: "card (?H - {t}) = card ?H - 1" "0 < card ?H" by (auto simp: card_gt_0_iff)
  have "unat (current_count (sy_sem y)) < unat (max_count (sy_sem y))" using assms(2) cd(2) by (auto simp: sem_inv_def)
  then have "unat (current_count (sy_sem y) + 1) = unat (current_count (sy_sem y)) + 1"
  proof -
    have "unat (max_count (sy_sem y)) < 2 ^ 32" using unsigned_less [of "max_count (sy_sem y)"] by simp
    with \<open>unat (current_count (sy_sem y)) < unat (max_count (sy_sem y))\<close> show ?thesis by (simp add: unat_word_ariths)
  qed
  then show ?thesis
    using sem_leave assms(2) t cd unfolding sem_inv_def
    by (auto simp: sem_defs Let_def holders_upd holders_iff split: list.splits)
qed

text \<open>
  C25. A semaphore admits at most its initial count of holders, under every interleaving of acquiring,
  resuming and releasing by any number of tasks: its count and the number of holders always add up
  to the initial count, and the count never wraps.
\<close>

theorem semaphore_safety:
  assumes "sem_reach y z" and "sy_sem y = task_semaphore_init n" and "\<And>t. sy_place y t = Sem_out"
  shows "finite (holders (sy_place z)) \<and> unat (current_count (sy_sem z)) + card (holders (sy_place z)) = unat n"
proof -
  have "holders (sy_place y) = {}" using assms(3) by (simp add: holders_def)
  then have y: "sem_inv y \<and> max_count (sy_sem y) = n" using assms(2) by (simp add: sem_inv_def task_semaphore_init_def)
  have "sem_inv z \<and> max_count (sy_sem z) = max_count (sy_sem y)"
    using assms(1)
  proof (induction rule: sem_reach.induct)
    case sem_start
    then show ?case using y by simp
  next
    case (sem_next z z')
    then show ?case using sem_step_inv by metis
  qed
  with y show ?thesis by (simp add: sem_inv_def)
qed

text \<open>Two tasks that are ready, and a free semaphore with one permit.\<close>

definition sem_demo :: sem_sys where
  "sem_demo = \<lparr>sy_sched = (sched_zero [] 0)\<lparr>tasks := (\<lambda>_. zero_pcb\<lparr>pstate := PROCESS_STATE_READY\<rparr>), multitasking_ready := True\<rparr>,
     sy_sem = task_semaphore_init 1, sy_place = (\<lambda>_. Sem_out)\<rparr>"

lemma semaphore_safety_witness:
  "\<exists>z. sem_reach sem_demo z \<and> holders (sy_place z) = {1} \<and> current_count (sy_sem z) = 0"
proof -
  let ?s = "sy_sched sem_demo"
  obtain got m s where a: "task_semaphore_acquire (sy_sem sem_demo) (run_task 1 ?s) = (got, m, s)"
    by (metis prod_cases3)
  then have g: "got" by (auto simp: sem_defs sem_demo_def task_semaphore_init_def Let_def)
  let ?z = "\<lparr>sy_sched = s, sy_sem = m, sy_place = (sy_place sem_demo)(1 := if got then Sem_holding else Sem_waiting)\<rparr>"
  have "sem_step sem_demo ?z"
    by (rule sem_enter [OF _ _ a]) (simp_all add: sem_demo_def can_run_def)
  then have r: "sem_reach sem_demo ?z" by (rule sem_next [OF sem_start])
  have h: "holders (sy_place ?z) = {1}" using g by (auto simp: sem_demo_def holders_def)
  have "unat (current_count (sy_sem ?z)) + card (holders (sy_place ?z)) = unat (1 :: u32)"
    using semaphore_safety [OF r, of 1] by (simp add: sem_demo_def)
  then have "current_count (sy_sem ?z) = 0" unfolding h by (simp add: unat_eq_zero)
  with r h show ?thesis by blast
qed

subsection \<open>A wake-up that is lost\<close>

text \<open>A task in the waiting loop that is blocked and not among the waiters is never woken again.\<close>

definition sem_stuck :: "nat \<Rightarrow> sem_sys \<Rightarrow> bool" where
  "sem_stuck b y \<longleftrightarrow> sy_place y b = Sem_waiting \<and> pstate (tasks (sy_sched y) b) = PROCESS_STATE_BLOCKED \<and>
     b \<notin> set (sem_waiters (sy_sem y))"

lemma sem_stuck_step:
  assumes "sem_step y z" "sem_stuck b y"
  shows "sem_stuck b z"
  using assms(1)
proof cases
  case (sem_enter t got m s)
  have "t \<noteq> b" using sem_enter assms(2) by (auto simp: sem_stuck_def)
  then show ?thesis using sem_enter assms(2)
    by (auto simp: sem_stuck_def sem_defs Let_def split: if_splits)
next
  case (sem_resume t got m s)
  have "t \<noteq> b" using sem_resume assms(2) by (auto simp: sem_stuck_def can_run_def)
  then show ?thesis using sem_resume assms(2)
    by (auto simp: sem_stuck_def sem_defs Let_def split: if_splits)
next
  case (sem_leave t m s)
  have "t \<noteq> b" using sem_leave assms(2) by (auto simp: sem_stuck_def)
  then show ?thesis using sem_leave assms(2)
    by (auto simp: sem_stuck_def sem_defs Let_def task_unblock_pstate split: list.splits)
qed

lemma sem_stuck_reach: "sem_reach y z \<Longrightarrow> sem_stuck b y \<Longrightarrow> sem_stuck b z"
  by (induction rule: sem_reach.induct) (auto intro: sem_stuck_step)

text \<open>The steps as functions, to follow a run of the system.\<close>

definition sem_acq :: "nat \<Rightarrow> sem_sys \<Rightarrow> sem_sys" where
  "sem_acq t y = (let (got, m, s) = task_semaphore_acquire (sy_sem y) (run_task t (sy_sched y))
     in \<lparr>sy_sched = s, sy_sem = m, sy_place = (sy_place y)(t := if got then Sem_holding else Sem_waiting)\<rparr>)"

definition sem_res :: "nat \<Rightarrow> sem_sys \<Rightarrow> sem_sys" where
  "sem_res t y = (let (got, m, s) = task_semaphore_resume (sy_sem y) (run_task t (sy_sched y))
     in \<lparr>sy_sched = s, sy_sem = m, sy_place = (sy_place y)(t := if got then Sem_holding else Sem_waiting)\<rparr>)"

definition sem_rel :: "nat \<Rightarrow> sem_sys \<Rightarrow> sem_sys" where
  "sem_rel t y = (let (m, s) = task_semaphore_release (sy_sem y) (run_task t (sy_sched y))
     in \<lparr>sy_sched = s, sy_sem = m, sy_place = (sy_place y)(t := Sem_out)\<rparr>)"

lemma sem_fun_steps:
  "sy_place y t = Sem_out \<Longrightarrow> can_run t (sy_sched y) \<Longrightarrow> sem_step y (sem_acq t y)"
  "sy_place y t = Sem_waiting \<Longrightarrow> can_run t (sy_sched y) \<Longrightarrow> sem_step y (sem_res t y)"
  "sy_place y t = Sem_holding \<Longrightarrow> can_run t (sy_sched y) \<Longrightarrow> sem_step y (sem_rel t y)"
proof -
  assume p: "sy_place y t = Sem_out" "can_run t (sy_sched y)"
  obtain got m s where a: "task_semaphore_acquire (sy_sem y) (run_task t (sy_sched y)) = (got, m, s)" by (metis prod_cases3)
  show "sem_step y (sem_acq t y)" unfolding sem_acq_def a Let_def prod.case by (rule sem_enter [OF p a])
next
  assume p: "sy_place y t = Sem_waiting" "can_run t (sy_sched y)"
  obtain got m s where a: "task_semaphore_resume (sy_sem y) (run_task t (sy_sched y)) = (got, m, s)" by (metis prod_cases3)
  show "sem_step y (sem_res t y)" unfolding sem_res_def a Let_def prod.case by (rule sem_resume [OF p a])
next
  assume p: "sy_place y t = Sem_holding" "can_run t (sy_sched y)"
  obtain m s where a: "task_semaphore_release (sy_sem y) (run_task t (sy_sched y)) = (m, s)" by fastforce
  show "sem_step y (sem_rel t y)" unfolding sem_rel_def a Let_def prod.case by (rule sem_leave [OF p a])
qed

lemma sem_acq_effect:
  "sy_place (sem_acq t y) = (sy_place y)(t := if current_count (sy_sem y) = 0 then Sem_waiting else Sem_holding)"
  "current_count (sy_sem (sem_acq t y)) = (if current_count (sy_sem y) = 0 then 0 else current_count (sy_sem y) - 1)"
  "sem_waiters (sy_sem (sem_acq t y)) = sem_waiters (sy_sem y) @ (if current_count (sy_sem y) = 0 then [t] else [])"
  "pstate (tasks (sy_sched (sem_acq t y)) u) =
     (if u = t then if current_count (sy_sem y) = 0 then PROCESS_STATE_BLOCKED else PROCESS_STATE_RUNNING
      else pstate (tasks (sy_sched y) u))"
  by (auto simp: sem_acq_def sem_defs Let_def)

lemma sem_res_effect:
  "sy_place (sem_res t y) = (sy_place y)(t := if current_count (sy_sem y) = 0 then Sem_waiting else Sem_holding)"
  "current_count (sy_sem (sem_res t y)) = (if current_count (sy_sem y) = 0 then 0 else current_count (sy_sem y) - 1)"
  "sem_waiters (sy_sem (sem_res t y)) = sem_waiters (sy_sem y)"
  "pstate (tasks (sy_sched (sem_res t y)) u) =
     (if u = t then if current_count (sy_sem y) = 0 then PROCESS_STATE_BLOCKED else PROCESS_STATE_RUNNING
      else pstate (tasks (sy_sched y) u))"
  by (auto simp: sem_res_def sem_defs Let_def)

lemma sem_rel_effect:
  "sy_place (sem_rel t y) = (sy_place y)(t := Sem_out)"
  "current_count (sy_sem (sem_rel t y)) = current_count (sy_sem y) + 1"
  "sem_waiters (sy_sem (sem_rel t y)) = tl (sem_waiters (sy_sem y))"
  "pstate (tasks (sy_sched (sem_rel t y)) u) =
     (if u = t then PROCESS_STATE_RUNNING
      else if sem_waiters (sy_sem y) \<noteq> [] \<and> u = hd (sem_waiters (sy_sem y)) \<and>
           pstate (tasks (sy_sched y) u) = PROCESS_STATE_BLOCKED then PROCESS_STATE_READY
      else pstate (tasks (sy_sched y) u))"
  by (auto simp: sem_rel_def sem_defs Let_def task_unblock_pstate split: list.split)

text \<open>
  A waiter of a semaphore can miss its wake-up for good. A task joins the waiters only before its
  waiting loop; when it is woken but another task takes the permit first, it blocks again without
  being a waiter. In the run below, two tasks use a semaphore with one permit; it ends with the permit
  free and nobody holding it, while the second task is blocked, and stays so in every continuation.
\<close>

theorem semaphore_lost_wakeup:
  "\<exists>y. sem_reach sem_demo y \<and> current_count (sy_sem y) = 1 \<and> holders (sy_place y) = {} \<and>
     (\<forall>z. sem_reach y z \<longrightarrow> sy_place z 2 = Sem_waiting \<and> pstate (tasks (sy_sched z) 2) = PROCESS_STATE_BLOCKED)"
proof -
  define y1 where "y1 = sem_acq 1 sem_demo"
  define y2 where "y2 = sem_acq 2 y1"
  define y3 where "y3 = sem_rel 1 y2"
  define y4 where "y4 = sem_acq 1 y3"
  define y5 where "y5 = sem_res 2 y4"
  define y6 where "y6 = sem_rel 1 y5"
  note eff = sem_acq_effect sem_res_effect sem_rel_effect
  have d: "sy_place sem_demo = (\<lambda>_. Sem_out)" "current_count (sy_sem sem_demo) = 1" "sem_waiters (sy_sem sem_demo) = []"
    "pstate (tasks (sy_sched sem_demo) u) = PROCESS_STATE_READY" for u
    by (simp_all add: sem_demo_def task_semaphore_init_def)
  have e1: "sy_place y1 = (\<lambda>_. Sem_out)(1 := Sem_holding)" "current_count (sy_sem y1) = 0" "sem_waiters (sy_sem y1) = []"
    "pstate (tasks (sy_sched y1) u) = (if u = 1 then PROCESS_STATE_RUNNING else PROCESS_STATE_READY)" for u
    unfolding y1_def eff d by simp_all
  have e2: "sy_place y2 = (\<lambda>_. Sem_out)(1 := Sem_holding, 2 := Sem_waiting)" "current_count (sy_sem y2) = 0"
    "sem_waiters (sy_sem y2) = [2]" "pstate (tasks (sy_sched y2) 1) = PROCESS_STATE_RUNNING"
    "pstate (tasks (sy_sched y2) 2) = PROCESS_STATE_BLOCKED"
    unfolding y2_def eff e1 by simp_all
  have e3: "sy_place y3 = (\<lambda>_. Sem_out)(2 := Sem_waiting)" "current_count (sy_sem y3) = 1"
    "sem_waiters (sy_sem y3) = []" "pstate (tasks (sy_sched y3) 1) = PROCESS_STATE_RUNNING"
    "pstate (tasks (sy_sched y3) 2) = PROCESS_STATE_READY"
    unfolding y3_def eff e2 by (simp_all add: fun_eq_iff)
  have e4: "sy_place y4 = (\<lambda>_. Sem_out)(2 := Sem_waiting, 1 := Sem_holding)" "current_count (sy_sem y4) = 0"
    "sem_waiters (sy_sem y4) = []" "pstate (tasks (sy_sched y4) 1) = PROCESS_STATE_RUNNING"
    "pstate (tasks (sy_sched y4) 2) = PROCESS_STATE_READY"
    unfolding y4_def eff e3 by simp_all
  have e5: "sy_place y5 = (\<lambda>_. Sem_out)(1 := Sem_holding, 2 := Sem_waiting)" "current_count (sy_sem y5) = 0"
    "sem_waiters (sy_sem y5) = []" "pstate (tasks (sy_sched y5) 1) = PROCESS_STATE_RUNNING"
    "pstate (tasks (sy_sched y5) 2) = PROCESS_STATE_BLOCKED"
    unfolding y5_def eff e4 by (simp_all add: fun_eq_iff)
  have e6: "sy_place y6 = (\<lambda>_. Sem_out)(2 := Sem_waiting)" "current_count (sy_sem y6) = 1"
    "sem_waiters (sy_sem y6) = []" "pstate (tasks (sy_sched y6) 2) = PROCESS_STATE_BLOCKED"
    unfolding y6_def eff e5 by (simp_all add: fun_eq_iff)
  have S1: "sem_step sem_demo y1" unfolding y1_def by (rule sem_fun_steps(1)) (simp_all add: d can_run_def del: One_nat_def)
  have S2: "sem_step y1 y2" unfolding y2_def by (rule sem_fun_steps(1)) (simp_all add: e1 can_run_def del: One_nat_def)
  have S3: "sem_step y2 y3" unfolding y3_def by (rule sem_fun_steps(3)) (simp_all add: e2 can_run_def del: One_nat_def)
  have S4: "sem_step y3 y4" unfolding y4_def by (rule sem_fun_steps(1)) (simp_all add: e3 can_run_def del: One_nat_def)
  have S5: "sem_step y4 y5" unfolding y5_def by (rule sem_fun_steps(2)) (simp_all add: e4 can_run_def del: One_nat_def)
  have S6: "sem_step y5 y6" unfolding y6_def by (rule sem_fun_steps(3)) (simp_all add: e5 can_run_def del: One_nat_def)
  have r: "sem_reach sem_demo y6"
    by (rule sem_next [OF sem_next [OF sem_next [OF sem_next [OF sem_next [OF sem_next [OF sem_start S1] S2] S3] S4] S5] S6])
  have "current_count (sy_sem y6) = 1" "sy_place y6 = (\<lambda>_. Sem_out)(2 := Sem_waiting)" using e6 by simp_all
  then have h: "current_count (sy_sem y6) = 1" "holders (sy_place y6) = {}" by (auto simp: holders_def)
  have "sem_stuck 2 y6" unfolding sem_stuck_def using e6 by simp
  then have "sy_place z 2 = Sem_waiting \<and> pstate (tasks (sy_sched z) 2) = PROCESS_STATE_BLOCKED" if "sem_reach y6 z" for z
    using sem_stuck_reach [OF that] by (simp add: sem_stuck_def)
  with r h show ?thesis by blast
qed

lemma semaphore_lost_wakeup_witness:
  "\<exists>y. sem_reach sem_demo y \<and> current_count (sy_sem y) = 1 \<and> pstate (tasks (sy_sched y) 2) = PROCESS_STATE_BLOCKED"
  using semaphore_lost_wakeup sem_start by blast

end
