(* ===== verification/Ring.thy ===== *)
theory Ring
  imports Prelude
begin

text \<open>
  The byte rings that the pipes, the sockets and the terminals share: an array, the position of the
  next byte to read, the position of the next byte to write and the number of bytes held. The two
  copying loops are the same code in each of them; \<open>ring_view\<close> is the content they stand for. The
  locale states what a client of such a buffer may rely on, and proves once that the bytes leave in
  the order in which they came, none lost, none twice.
\<close>

subsection \<open>The copying loops\<close>

text \<open>\<^verbatim>\<open>out[i] = buf[pos]; pos = (pos + 1) % size\<close>, \<open>k\<close> times: the bytes and the new position.\<close>

fun ring_get :: "'b list \<Rightarrow> nat \<Rightarrow> nat \<Rightarrow> nat \<Rightarrow> 'b list \<times> nat" where
  "ring_get buf sz pos 0 = ([], pos)"
| "ring_get buf sz pos (Suc k) = (let (xs, pos1) = ring_get buf sz ((pos + 1) mod sz) k in (buf ! pos # xs, pos1))"

text \<open>\<^verbatim>\<open>buf[pos] = in[i]; pos = (pos + 1) % size\<close> for each byte.\<close>

fun ring_put :: "'b list \<Rightarrow> nat \<Rightarrow> nat \<Rightarrow> 'b list \<Rightarrow> 'b list \<times> nat" where
  "ring_put buf sz pos [] = (buf, pos)"
| "ring_put buf sz pos (x # xs) = ring_put (buf[pos := x]) sz ((pos + 1) mod sz) xs"

definition ring_view :: "'b list \<Rightarrow> nat \<Rightarrow> nat \<Rightarrow> 'b list" where
  "ring_view buf pos k = map (\<lambda>i. buf ! ((pos + i) mod length buf)) [0..<k]"

definition ring_ok :: "'b list \<Rightarrow> nat \<Rightarrow> nat \<Rightarrow> nat \<Rightarrow> nat \<Rightarrow> bool" where
  "ring_ok buf sz rp wp k \<longleftrightarrow> length buf = sz \<and> 0 < sz \<and> k \<le> sz \<and> rp < sz \<and> wp = (rp + k) mod sz"

lemma ring_view_length [simp]: "length (ring_view buf pos k) = k"
  by (simp add: ring_view_def)

lemma ring_view_0 [simp]: "ring_view buf pos 0 = []"
  by (simp add: ring_view_def)

lemma ring_view_Suc:
  "ring_view buf pos (Suc k) = buf ! (pos mod length buf) # ring_view buf (Suc pos mod length buf) k"
proof -
  have "[0..<Suc k] = 0 # map Suc [0..<k]" by (simp add: upt_conv_Cons map_Suc_upt)
  then show ?thesis by (simp add: ring_view_def comp_def mod_simps)
qed

lemma ring_view_append: "ring_view buf pos (j + k) = ring_view buf pos j @ ring_view buf ((pos + j) mod length buf) k"
proof (rule nth_equalityI)
  fix i
  assume "i < length (ring_view buf pos (j + k))"
  then have i: "i < j + k" by simp
  show "ring_view buf pos (j + k) ! i = (ring_view buf pos j @ ring_view buf ((pos + j) mod length buf) k) ! i"
    using i by (cases "i < j") (auto simp: ring_view_def nth_append mod_simps)
qed simp

lemma ring_get_view:
  assumes "length buf = sz" "0 < sz" "pos < sz"
  shows "ring_get buf sz pos k = (ring_view buf pos k, (pos + k) mod sz)"
  using assms(3)
proof (induction k arbitrary: pos)
  case 0
  then show ?case by simp
next
  case (Suc k)
  have "(pos + 1) mod sz < sz" using assms(2) by simp
  from Suc.IH [OF this] show ?case
    using Suc.prems assms(1) by (simp add: ring_view_Suc mod_simps)
qed

lemma ring_view_upd:
  assumes "length buf = sz" "0 < sz" "k < sz" "rp < sz"
  shows "ring_view (buf[(rp + k) mod sz := x]) rp k = ring_view buf rp k"
proof -
  have "(rp + k) mod sz \<noteq> (rp + i) mod sz" if "i < k" for i
  proof
    assume "(rp + k) mod sz = (rp + i) mod sz"
    then have "(rp + i) mod sz = (rp + k) mod sz" by simp
    then have "sz dvd (rp + k) - (rp + i)" using mod_eq_dvd_iff_nat [of "rp + i" "rp + k" sz] that by simp
    then have "sz dvd k - i" by simp
    then show False using that assms(3) by (auto dest: dvd_imp_le)
  qed
  then show ?thesis using assms(1) by (auto simp: ring_view_def)
qed

lemma ring_put_view:
  assumes "length buf = sz" "0 < sz" "rp < sz" "k + length xs \<le> sz" "wp = (rp + k) mod sz"
  shows "\<exists>buf'. ring_put buf sz wp xs = (buf', (rp + k + length xs) mod sz) \<and> length buf' = sz \<and>
    ring_view buf' rp (k + length xs) = ring_view buf rp k @ xs"
  using assms(1,4,5)
proof (induction xs arbitrary: buf k wp)
  case Nil
  then show ?case by simp
next
  case (Cons x xs)
  let ?b = "buf[wp := x]"
  have wp: "wp < sz" using Cons.prems(3) assms(2) by simp
  have "(wp + 1) mod sz = (rp + (k + 1)) mod sz" using Cons.prems(3) by (simp add: mod_simps)
  from Cons.IH [OF _ _ this, of ?b] Cons.prems obtain b' where
    b': "ring_put ?b sz ((wp + 1) mod sz) xs = (b', (rp + (k + 1) + length xs) mod sz)" "length b' = sz"
    "ring_view b' rp (k + 1 + length xs) = ring_view ?b rp (k + 1) @ xs" by auto
  have "ring_view ?b rp (k + 1) = ring_view ?b rp k @ [?b ! ((rp + k) mod sz)]"
    using Cons.prems(1) by (simp add: ring_view_def)
  also have "\<dots> = ring_view buf rp k @ [x]"
    using ring_view_upd [OF Cons.prems(1) assms(2) _ assms(3), of k x] Cons.prems wp by simp
  finally show ?case using b' by (simp add: ac_simps)
qed

text \<open>Both loops on a ring that is in order.\<close>

lemma ring_get_ok:
  assumes "ring_ok buf sz rp wp k" "j \<le> k"
  shows "ring_get buf sz rp j = (take j (ring_view buf rp k), (rp + j) mod sz)"
    and "ring_ok buf sz ((rp + j) mod sz) wp (k - j)"
    and "ring_view buf ((rp + j) mod sz) (k - j) = drop j (ring_view buf rp k)"
proof -
  have v: "ring_view buf rp k = ring_view buf rp j @ ring_view buf ((rp + j) mod sz) (k - j)"
    using ring_view_append [of buf rp j "k - j"] assms by (simp add: ring_ok_def)
  show "ring_get buf sz rp j = (take j (ring_view buf rp k), (rp + j) mod sz)"
    using ring_get_view [of buf sz rp j] assms(1) v by (simp add: ring_ok_def)
  show "ring_view buf ((rp + j) mod sz) (k - j) = drop j (ring_view buf rp k)" using v by simp
  show "ring_ok buf sz ((rp + j) mod sz) wp (k - j)"
  proof -
    have "((rp + j) mod sz + (k - j)) mod sz = (rp + j + (k - j)) mod sz" by (rule mod_add_left_eq)
    also have "rp + j + (k - j) = rp + k" using assms(2) by simp
    finally have "((rp + j) mod sz + (k - j)) mod sz = (rp + k) mod sz" .
    moreover have "k - j \<le> sz" using assms(1) le_trans [OF diff_le_self] by (auto simp: ring_ok_def)
    ultimately show ?thesis using assms by (simp add: ring_ok_def)
  qed
qed

lemma ring_put_ok:
  assumes "ring_ok buf sz rp wp k" "k + length xs \<le> sz"
  obtains buf' where "ring_put buf sz wp xs = (buf', (rp + k + length xs) mod sz)"
    "ring_ok buf' sz rp ((rp + k + length xs) mod sz) (k + length xs)"
    "ring_view buf' rp (k + length xs) = ring_view buf rp k @ xs"
proof -
  from ring_put_view [of buf sz rp k xs wp] assms obtain buf' where
    "ring_put buf sz wp xs = (buf', (rp + k + length xs) mod sz)" "length buf' = sz"
    "ring_view buf' rp (k + length xs) = ring_view buf rp k @ xs" by (auto simp: ring_ok_def)
  then show thesis using that [of buf'] assms by (simp add: ring_ok_def add.assoc)
qed

subsection \<open>The interface of a byte stream\<close>

text \<open>
  A buffer takes the front of what it is offered, as much as there is room for, and gives what it holds
  from the front.
\<close>

locale byte_fifo =
  fixes inv :: "'s \<Rightarrow> bool"
    and contents :: "'s \<Rightarrow> 'b list"
    and capacity :: "'s \<Rightarrow> nat"
    and put :: "'b list \<Rightarrow> 's \<Rightarrow> nat \<times> 's"
    and get :: "nat \<Rightarrow> 's \<Rightarrow> 'b list \<times> 's"
  assumes put_law: "inv s \<Longrightarrow> put xs s = (n, s') \<Longrightarrow>
      inv s' \<and> n = min (length xs) (capacity s - length (contents s)) \<and> contents s' = contents s @ take n xs \<and> capacity s' = capacity s"
    and get_law: "inv s \<Longrightarrow> get n s = (xs, s') \<Longrightarrow>
      inv s' \<and> length xs = min n (length (contents s)) \<and> contents s = xs @ contents s' \<and> capacity s' = capacity s"
begin

text \<open>A run of writes (\<open>Inl\<close>) and reads (\<open>Inr\<close>): the bytes accepted, the bytes given back, the end.\<close>

fun run :: "('b list + nat) list \<Rightarrow> 's \<Rightarrow> 'b list \<times> 'b list \<times> 's" where
  "run [] s = ([], [], s)"
| "run (Inl xs # ops) s = (let (n, s1) = put xs s; (i, out, s2) = run ops s1 in (take n xs @ i, out, s2))"
| "run (Inr n # ops) s = (let (xs, s1) = get n s; (i, out, s2) = run ops s1 in (i, xs @ out, s2))"

lemma run_stream:
  "inv s \<Longrightarrow> run ops s = (i, out, s') \<Longrightarrow> inv s' \<and> contents s @ i = out @ contents s'"
proof (induction ops s arbitrary: i out s' rule: run.induct)
  case (1 s)
  then show ?case by simp
next
  case (2 xs ops s)
  obtain n s1 where p: "put xs s = (n, s1)" by fastforce
  obtain i1 o1 s2 where r: "run ops s1 = (i1, o1, s2)" by (metis prod_cases3)
  note P = put_law [OF "2.prems"(1) p]
  have "inv s2 \<and> contents s1 @ i1 = o1 @ contents s2" using "2.IH" [OF p [symmetric] refl] P r by blast
  moreover have "i = take n xs @ i1" "out = o1" "s' = s2" using "2.prems"(2) by (simp_all add: p r)
  ultimately show ?case using P by simp
next
  case (3 n ops s)
  obtain xs s1 where p: "get n s = (xs, s1)" by fastforce
  obtain i1 o1 s2 where r: "run ops s1 = (i1, o1, s2)" by (metis prod_cases3)
  note P = get_law [OF "3.prems"(1) p]
  have "inv s2 \<and> contents s1 @ i1 = o1 @ contents s2" using "3.IH" [OF p [symmetric] refl] P r by blast
  moreover have "i = i1" "out = xs @ o1" "s' = s2" using "3.prems"(2) by (simp_all add: p r)
  ultimately show ?case using P by simp
qed

lemma put_get_roundtrip:
  "inv s \<Longrightarrow> contents s = [] \<Longrightarrow> length xs \<le> capacity s \<Longrightarrow> put xs s = (n, s1) \<Longrightarrow> get (length xs) s1 = (ys, s2) \<Longrightarrow>
   ys = xs \<and> contents s2 = []"
proof -
  assume a: "inv s" "contents s = []" "length xs \<le> capacity s" "put xs s = (n, s1)" "get (length xs) s1 = (ys, s2)"
  have s1: "inv s1" "contents s1 = xs" using put_law [OF a(1,4)] a(2,3) by auto
  have c: "length ys = min (length xs) (length (contents s1))" "contents s1 = ys @ contents s2"
    using get_law [OF s1(1) a(5)] by blast+
  have g: "length ys = length xs" using c(1) unfolding s1(2) by simp
  note c(2) [unfolded s1(2)]
  note g = g this
  from arg_cong [OF g(2), of length] g(1) have "contents s2 = []" by simp
  with g(2) show "ys = xs \<and> contents s2 = []" by simp
qed

end

end
