(* ===== verification/Pipe.thy ===== *)
theory Pipe
  imports Sched Ring
begin

text \<open>
  The pipes of \<^verbatim>\<open>kernel/schedule/schedule.c\<close>. A pipe is a byte ring with reference counts of its two
  ends and two lists of blocked tasks. A read or a write that finds nothing to do joins a list and
  blocks its task; what the code does then is the same pass again, so one pass is one definition. The
  allocation of a wait node cannot fail in this kernel, whose allocator panics instead of returning
  NULL, and the branch for it is left out. Every operation works on the store of pipes and endpoints,
  from which a pipe disappears when it is freed; reaching for a freed one is \<open>Io_fault\<close>.
\<close>

subsection \<open>State\<close>

definition EBADF :: int where "EBADF = 9"
definition EPIPE :: int where "EPIPE = 32"

record pipe_state =
  p_buffer :: "u8 list"
  p_size :: nat
  p_read_pos :: nat
  p_write_pos :: nat
  p_data_len :: nat
  p_readers :: nat
  p_writers :: nat
  p_read_waiters :: "nat list"
  p_write_waiters :: "nat list"

record pipe_endpoint =
  ep_pipe :: "nat option"
  is_read_end :: bool

record pipe_store =
  pipes :: "nat \<Rightarrow> pipe_state option"
  pipe_eps :: "nat \<Rightarrow> pipe_endpoint option"

datatype io_result = Io_ret int | Io_block | Io_fault

subsection \<open>Waiters\<close>

definition pipe_waiter_dequeue :: "nat list \<Rightarrow> nat option \<times> nat list" where
  "pipe_waiter_dequeue ws = (case ws of [] \<Rightarrow> (None, []) | t # ts \<Rightarrow> (Some t, ts))"

definition pipe_waiter_enqueue :: "nat list \<Rightarrow> nat \<Rightarrow> nat list" where
  "pipe_waiter_enqueue ws t = ws @ [t]"

definition pipe_wake_one_reader :: "pipe_state \<times> sched_state \<Rightarrow> pipe_state \<times> sched_state" where
  "pipe_wake_one_reader ps =
     (let (t, ws) = pipe_waiter_dequeue (p_read_waiters (fst ps))
      in ((fst ps)\<lparr>p_read_waiters := ws\<rparr>, case t of None \<Rightarrow> snd ps | Some x \<Rightarrow> task_unblock x (snd ps)))"

definition pipe_wake_one_writer :: "pipe_state \<times> sched_state \<Rightarrow> pipe_state \<times> sched_state" where
  "pipe_wake_one_writer ps =
     (let (t, ws) = pipe_waiter_dequeue (p_write_waiters (fst ps))
      in ((fst ps)\<lparr>p_write_waiters := ws\<rparr>, case t of None \<Rightarrow> snd ps | Some x \<Rightarrow> task_unblock x (snd ps)))"

fun wake_list :: "nat list \<Rightarrow> sched_state \<Rightarrow> sched_state" where
  "wake_list [] s = s"
| "wake_list (t # ts) s = wake_list ts (task_unblock t s)"

definition pipe_wake_all_readers :: "pipe_state \<times> sched_state \<Rightarrow> pipe_state \<times> sched_state" where
  "pipe_wake_all_readers ps = ((fst ps)\<lparr>p_read_waiters := []\<rparr>, wake_list (p_read_waiters (fst ps)) (snd ps))"

definition pipe_wake_all_writers :: "pipe_state \<times> sched_state \<Rightarrow> pipe_state \<times> sched_state" where
  "pipe_wake_all_writers ps = ((fst ps)\<lparr>p_write_waiters := []\<rparr>, wake_list (p_write_waiters (fst ps)) (snd ps))"

subsection \<open>Reading and writing\<close>

text \<open>One pass of the loop of \<open>task_ipc_pipe_read\<close>: the result, the bytes stored, the pipe.\<close>

definition block_current :: "sched_state \<Rightarrow> sched_state" where
  "block_current s = unlock_scheduler (upd_task (current_task s) (pstate_update (\<lambda>_. PROCESS_STATE_BLOCKED)) s)"

definition pipe_read_pass :: "nat \<Rightarrow> pipe_state \<times> sched_state \<Rightarrow> io_result \<times> u8 list \<times> pipe_state \<times> sched_state" where
  "pipe_read_pass n ps =
     (let p = fst ps; s = lock_scheduler (snd ps)
      in if p_data_len p > 0 then
           let k = min n (p_data_len p);
               (xs, rp) = ring_get (p_buffer p) (p_size p) (p_read_pos p) k;
               p1 = p\<lparr>p_read_pos := rp, p_data_len := p_data_len p - k\<rparr>;
               (p2, s1) = (if p_write_waiters p1 \<noteq> [] then pipe_wake_one_writer (p1, s) else (p1, s))
           in (Io_ret (int k), xs, p2, unlock_scheduler s1)
         else if p_writers p = 0 then (Io_ret 0, [], p, unlock_scheduler s)
         else (Io_block, [], p\<lparr>p_read_waiters := pipe_waiter_enqueue (p_read_waiters p) (current_task s)\<rparr>, block_current s))"

definition pipe_write_pass :: "u8 list \<Rightarrow> pipe_state \<times> sched_state \<Rightarrow> io_result \<times> pipe_state \<times> sched_state" where
  "pipe_write_pass xs ps =
     (let p = fst ps; s = lock_scheduler (snd ps)
      in if p_readers p = 0 then
           (Io_ret (- EPIPE), p, snd (task_ipc_signal_raise (current_task s) EXIT_SIGPIPE (unlock_scheduler s)))
         else if p_data_len p < p_size p then
           let k = min (length xs) (p_size p - p_data_len p);
               (buf, wp) = ring_put (p_buffer p) (p_size p) (p_write_pos p) (take k xs);
               p1 = p\<lparr>p_buffer := buf, p_write_pos := wp, p_data_len := p_data_len p + k\<rparr>;
               (p2, s1) = (if p_read_waiters p1 \<noteq> [] then pipe_wake_one_reader (p1, s) else (p1, s))
           in (Io_ret (int k), p2, unlock_scheduler s1)
         else (Io_block, p\<lparr>p_write_waiters := pipe_waiter_enqueue (p_write_waiters p) (current_task s)\<rparr>, block_current s))"

text \<open>
  The calls on a node: \<open>None\<close> is a NULL node, and its content the \<^verbatim>\<open>fs_data\<close> pointer. \<open>buf\<close> tells
  whether the buffer is not NULL.
\<close>

definition task_ipc_pipe_read ::
  "nat option option \<Rightarrow> bool \<Rightarrow> nat \<Rightarrow> pipe_store \<times> sched_state \<Rightarrow> io_result \<times> u8 list \<times> pipe_store \<times> sched_state" where
  "task_ipc_pipe_read node buf n st =
     (if node = None \<or> \<not> buf \<or> n = 0 then (Io_ret 0, [], st)
      else (case the node of
              None \<Rightarrow> (Io_ret (- EBADF), [], st)
            | Some e \<Rightarrow>
                (case pipe_eps (fst st) e of
                   None \<Rightarrow> (Io_fault, [], st)
                 | Some ep \<Rightarrow>
                     if ep_pipe ep = None \<or> \<not> is_read_end ep then (Io_ret (- EBADF), [], st)
                     else (case pipes (fst st) (the (ep_pipe ep)) of
                             None \<Rightarrow> (Io_fault, [], st)
                           | Some p \<Rightarrow>
                               let (r, xs, p1, s1) = pipe_read_pass n (p, snd st)
                               in (r, xs, (fst st)\<lparr>pipes := (pipes (fst st))(the (ep_pipe ep) \<mapsto> p1)\<rparr>, s1)))))"

definition task_ipc_pipe_write ::
  "nat option option \<Rightarrow> bool \<Rightarrow> u8 list \<Rightarrow> pipe_store \<times> sched_state \<Rightarrow> io_result \<times> pipe_store \<times> sched_state" where
  "task_ipc_pipe_write node buf xs st =
     (if node = None \<or> \<not> buf \<or> xs = [] then (Io_ret 0, st)
      else (case the node of
              None \<Rightarrow> (Io_ret (- EBADF), st)
            | Some e \<Rightarrow>
                (case pipe_eps (fst st) e of
                   None \<Rightarrow> (Io_fault, st)
                 | Some ep \<Rightarrow>
                     if ep_pipe ep = None \<or> is_read_end ep then (Io_ret (- EBADF), st)
                     else (case pipes (fst st) (the (ep_pipe ep)) of
                             None \<Rightarrow> (Io_fault, st)
                           | Some p \<Rightarrow>
                               let (r, p1, s1) = pipe_write_pass xs (p, snd st)
                               in (r, (fst st)\<lparr>pipes := (pipes (fst st))(the (ep_pipe ep) \<mapsto> p1)\<rparr>, s1)))))"

text \<open>Closing one end frees the endpoint, and with the last end the pipe.\<close>

definition pipe_close_end :: "bool \<Rightarrow> pipe_state \<times> sched_state \<Rightarrow> pipe_state \<times> sched_state" where
  "pipe_close_end rd ps =
     (let p = fst ps; s = lock_scheduler (snd ps);
          (p1, s1) =
            (if rd then let q = (if p_readers p > 0 then p\<lparr>p_readers := p_readers p - 1\<rparr> else p)
                        in if p_readers q = 0 then pipe_wake_all_writers (q, s) else (q, s)
             else let q = (if p_writers p > 0 then p\<lparr>p_writers := p_writers p - 1\<rparr> else p)
                  in if p_writers q = 0 then pipe_wake_all_readers (q, s) else (q, s))
      in (p1, unlock_scheduler s1))"

definition task_ipc_pipe_close :: "nat option option \<Rightarrow> pipe_store \<times> sched_state \<Rightarrow> io_result \<times> pipe_store \<times> sched_state" where
  "task_ipc_pipe_close node st =
     (case node of
        None \<Rightarrow> (Io_ret 0, st)
      | Some None \<Rightarrow> (Io_ret 0, st)
      | Some (Some e) \<Rightarrow>
          (case pipe_eps (fst st) e of
             None \<Rightarrow> (Io_fault, st)
           | Some ep \<Rightarrow>
               (case ep_pipe ep of
                  None \<Rightarrow> (Io_ret 0, st)
                | Some i \<Rightarrow>
                    (case pipes (fst st) i of
                       None \<Rightarrow> (Io_fault, st)
                     | Some p \<Rightarrow>
                         let (p1, s1) = pipe_close_end (is_read_end ep) (p, snd st)
                         in (Io_ret 0,
                             \<lparr>pipes = (pipes (fst st))(i := if p_readers p1 = 0 \<and> p_writers p1 = 0 then None else Some p1),
                              pipe_eps = (pipe_eps (fst st))(e := None)\<rparr>, s1)))))"

subsection \<open>A pipe is a byte stream\<close>

definition pipe_contents :: "pipe_state \<Rightarrow> u8 list" where
  "pipe_contents p = ring_view (p_buffer p) (p_read_pos p) (p_data_len p)"

definition pipe_inv :: "pipe_state \<Rightarrow> bool" where
  "pipe_inv p \<longleftrightarrow> ring_ok (p_buffer p) (p_size p) (p_read_pos p) (p_write_pos p) (p_data_len p)"

lemma pipe_contents_length [simp]: "length (pipe_contents p) = p_data_len p"
  by (simp add: pipe_contents_def)

lemma pipe_wake_fields [simp]:
  "p_buffer (fst (pipe_wake_one_reader ps)) = p_buffer (fst ps)" "p_size (fst (pipe_wake_one_reader ps)) = p_size (fst ps)"
  "p_read_pos (fst (pipe_wake_one_reader ps)) = p_read_pos (fst ps)" "p_write_pos (fst (pipe_wake_one_reader ps)) = p_write_pos (fst ps)"
  "p_data_len (fst (pipe_wake_one_reader ps)) = p_data_len (fst ps)" "p_readers (fst (pipe_wake_one_reader ps)) = p_readers (fst ps)"
  "p_writers (fst (pipe_wake_one_reader ps)) = p_writers (fst ps)"
  "p_buffer (fst (pipe_wake_one_writer ps)) = p_buffer (fst ps)" "p_size (fst (pipe_wake_one_writer ps)) = p_size (fst ps)"
  "p_read_pos (fst (pipe_wake_one_writer ps)) = p_read_pos (fst ps)" "p_write_pos (fst (pipe_wake_one_writer ps)) = p_write_pos (fst ps)"
  "p_data_len (fst (pipe_wake_one_writer ps)) = p_data_len (fst ps)" "p_readers (fst (pipe_wake_one_writer ps)) = p_readers (fst ps)"
  "p_writers (fst (pipe_wake_one_writer ps)) = p_writers (fst ps)"
  by (simp_all add: pipe_wake_one_reader_def pipe_wake_one_writer_def split_beta Let_def)

lemma pipe_read_pass_spec:
  assumes "pipe_inv p" and r: "pipe_read_pass n (p, s) = (r, xs, p', s')"
  shows "pipe_inv p' \<and> xs = take n (pipe_contents p) \<and> pipe_contents p' = drop n (pipe_contents p) \<and>
    p_size p' = p_size p \<and> p_readers p' = p_readers p \<and> p_writers p' = p_writers p \<and>
    r = (if p_data_len p > 0 then Io_ret (int (min n (p_data_len p)))
         else if p_writers p = 0 then Io_ret 0 else Io_block)"
proof (cases "p_data_len p > 0")
  case True
  let ?k = "min n (p_data_len p)"
  have "?k \<le> p_data_len p" by simp
  note G = ring_get_ok [OF assms(1) [unfolded pipe_inv_def] this]
  let ?p1 = "p\<lparr>p_read_pos := (p_read_pos p + ?k) mod p_size p, p_data_len := p_data_len p - ?k\<rparr>"
  have e: "r = Io_ret (int ?k)" "xs = take ?k (ring_view (p_buffer p) (p_read_pos p) (p_data_len p))"
    "p' = (if p_write_waiters p \<noteq> [] then fst (pipe_wake_one_writer (?p1, lock_scheduler s)) else ?p1)"
    using r True G(1) by (auto simp: pipe_read_pass_def Let_def split_beta split: if_splits)
  have "p_buffer p' = p_buffer p" "p_size p' = p_size p" "p_read_pos p' = (p_read_pos p + ?k) mod p_size p"
    "p_write_pos p' = p_write_pos p" "p_data_len p' = p_data_len p - ?k" "p_readers p' = p_readers p" "p_writers p' = p_writers p"
    unfolding e(3) by simp_all
  moreover have "take ?k (pipe_contents p) = take n (pipe_contents p)" "drop ?k (pipe_contents p) = drop n (pipe_contents p)"
    by (simp_all add: min_def)
  ultimately show ?thesis using G True e(1,2) by (simp add: pipe_inv_def pipe_contents_def)
next
  case False
  then show ?thesis using assms by (auto simp: pipe_read_pass_def Let_def pipe_contents_def pipe_inv_def split: if_splits)
qed

lemma pipe_write_pass_spec:
  assumes "pipe_inv p" and r: "pipe_write_pass xs (p, s) = (r, p', s')"
  shows "pipe_inv p' \<and> p_size p' = p_size p \<and> p_readers p' = p_readers p \<and> p_writers p' = p_writers p \<and>
    (let k = (if p_readers p = 0 then 0 else min (length xs) (p_size p - p_data_len p))
     in pipe_contents p' = pipe_contents p @ take k xs) \<and>
    r = (if p_readers p = 0 then Io_ret (- EPIPE)
         else if p_data_len p < p_size p then Io_ret (int (min (length xs) (p_size p - p_data_len p)))
         else Io_block)"
proof (cases "p_readers p \<noteq> 0 \<and> p_data_len p < p_size p")
  case True
  let ?k = "min (length xs) (p_size p - p_data_len p)"
  have len: "p_data_len p + length (take ?k xs) \<le> p_size p" using True by auto
  obtain buf where B: "ring_put (p_buffer p) (p_size p) (p_write_pos p) (take ?k xs) =
      (buf, (p_read_pos p + p_data_len p + length (take ?k xs)) mod p_size p)"
    "ring_ok buf (p_size p) (p_read_pos p) ((p_read_pos p + p_data_len p + length (take ?k xs)) mod p_size p)
      (p_data_len p + length (take ?k xs))"
    "ring_view buf (p_read_pos p) (p_data_len p + length (take ?k xs)) =
      ring_view (p_buffer p) (p_read_pos p) (p_data_len p) @ take ?k xs"
    by (rule ring_put_ok [OF assms(1) [unfolded pipe_inv_def] len])
  have lk: "length (take ?k xs) = ?k" by simp
  let ?wp = "(p_read_pos p + p_data_len p + ?k) mod p_size p"
  let ?p1 = "p\<lparr>p_buffer := buf, p_write_pos := ?wp, p_data_len := p_data_len p + ?k\<rparr>"
  have e: "r = Io_ret (int ?k)"
    "p' = (if p_read_waiters p \<noteq> [] then fst (pipe_wake_one_reader (?p1, lock_scheduler s)) else ?p1)"
    using r True B(1) unfolding lk by (auto simp: pipe_write_pass_def Let_def split_beta split: if_splits)
  have "p_buffer p' = buf" "p_size p' = p_size p" "p_read_pos p' = p_read_pos p"
    "p_write_pos p' = ?wp" "p_data_len p' = p_data_len p + ?k" "p_readers p' = p_readers p" "p_writers p' = p_writers p"
    unfolding e(2) by simp_all
  then show ?thesis using B(2,3) True e(1) unfolding lk by (simp add: pipe_inv_def pipe_contents_def Let_def)
next
  case False
  then show ?thesis
    using assms by (auto simp: pipe_write_pass_def Let_def pipe_contents_def pipe_inv_def ring_ok_def split: if_splits)
qed

text \<open>The pipe as a provider of the byte stream interface: while a reader is left, a write takes what fits.\<close>

definition pipe_put :: "u8 list \<Rightarrow> pipe_state \<times> sched_state \<Rightarrow> nat \<times> pipe_state \<times> sched_state" where
  "pipe_put xs ps = (let (r, ps1) = pipe_write_pass xs ps in (case r of Io_ret k \<Rightarrow> nat k | _ \<Rightarrow> 0, ps1))"

definition pipe_get :: "nat \<Rightarrow> pipe_state \<times> sched_state \<Rightarrow> u8 list \<times> pipe_state \<times> sched_state" where
  "pipe_get n ps = (let (r, xs, ps1) = pipe_read_pass n ps in (xs, ps1))"

interpretation pipe: byte_fifo "\<lambda>ps. pipe_inv (fst ps) \<and> p_readers (fst ps) > 0" "\<lambda>ps. pipe_contents (fst ps)"
  "\<lambda>ps. p_size (fst ps)" pipe_put pipe_get
proof unfold_locales
  fix ps ps' :: "pipe_state \<times> sched_state" and xs n
  assume inv: "pipe_inv (fst ps) \<and> p_readers (fst ps) > 0"
  show "(pipe_inv (fst ps') \<and> p_readers (fst ps') > 0) \<and> n = min (length xs) (p_size (fst ps) - length (pipe_contents (fst ps))) \<and>
      pipe_contents (fst ps') = pipe_contents (fst ps) @ take n xs \<and> p_size (fst ps') = p_size (fst ps)"
    if "pipe_put xs ps = (n, ps')"
  proof -
    obtain r where w: "pipe_write_pass xs (fst ps, snd ps) = (r, fst ps', snd ps')" "n = (case r of Io_ret k \<Rightarrow> nat k | _ \<Rightarrow> 0)"
    proof -
      obtain r q where w: "pipe_write_pass xs ps = (r, q)" by (cases "pipe_write_pass xs ps") blast
      then show thesis using \<open>pipe_put xs ps = (n, ps')\<close> by (intro that [of r]) (simp_all add: pipe_put_def)
    qed
    have le: "p_data_len (fst ps) \<le> p_size (fst ps)" using inv by (simp add: pipe_inv_def ring_ok_def)
    show ?thesis using pipe_write_pass_spec [OF _ w(1)] inv w(2) le by (auto simp: Let_def)
  qed
  show "(pipe_inv (fst ps') \<and> p_readers (fst ps') > 0) \<and> length xs = min n (length (pipe_contents (fst ps))) \<and>
      pipe_contents (fst ps) = xs @ pipe_contents (fst ps') \<and> p_size (fst ps') = p_size (fst ps)"
    if "pipe_get n ps = (xs, ps')" for xs :: "u8 list"
  proof -
    obtain r where w: "pipe_read_pass n (fst ps, snd ps) = (r, xs, fst ps', snd ps')"
    proof -
      obtain r ys q where w: "pipe_read_pass n ps = (r, ys, q)" by (metis prod_cases3)
      then show thesis using \<open>pipe_get n ps = (xs, ps')\<close> by (intro that [of r]) (simp_all add: pipe_get_def)
    qed
    show ?thesis using pipe_read_pass_spec [OF _ w] inv by (simp add: min.commute)
  qed
qed

subsection \<open>Properties of pipes\<close>

text \<open>A run of writes (\<open>Inl\<close>) and reads (\<open>Inr\<close>) on one pipe: bytes accepted, bytes read, the end.\<close>

fun pipe_run :: "(u8 list + nat) list \<Rightarrow> pipe_state \<times> sched_state \<Rightarrow> u8 list \<times> u8 list \<times> pipe_state \<times> sched_state" where
  "pipe_run [] ps = ([], [], ps)"
| "pipe_run (Inl xs # ops) ps =
     (let (k, ps1) = pipe_put xs ps; (i, out, ps2) = pipe_run ops ps1 in (take k xs @ i, out, ps2))"
| "pipe_run (Inr n # ops) ps =
     (let (xs, ps1) = pipe_get n ps; (i, out, ps2) = pipe_run ops ps1 in (i, xs @ out, ps2))"

lemma pipe_run_eq: "pipe_run ops ps = pipe.run ops ps"
proof (induction ops arbitrary: ps)
  case Nil
  then show ?case by simp
next
  case (Cons a ops)
  then show ?case by (cases a) (simp_all add: Let_def split_beta)
qed

text \<open>
  C7. What is read from a pipe is what was written to it, in order, nothing lost and nothing twice: in
  every run of writes and reads of any sizes, the bytes it held followed by the bytes the writes
  accepted are the bytes the reads returned followed by those it holds; and it never holds more than
  its buffer. This covers the wrap-around of both positions and the partial writes and reads.
\<close>

theorem pipe_stream:
  assumes "pipe_inv p" and "p_readers p > 0" and "pipe_run ops (p, s) = (i, out, p', s')"
  shows "pipe_contents p @ i = out @ pipe_contents p' \<and> length (pipe_contents p') \<le> p_size p'"
proof -
  have "pipe.run ops (p, s) = (i, out, p', s')" using assms(3) unfolding pipe_run_eq .
  from pipe.run_stream [OF _ this] assms(1,2)
  have "pipe_inv p'" "pipe_contents p @ i = out @ pipe_contents p'" by simp_all
  then show ?thesis by (simp add: pipe_inv_def ring_ok_def)
qed

definition PIPE_BUFFER_SIZE :: nat where "PIPE_BUFFER_SIZE = 4096"

text \<open>The pipe that \<open>sys_pipe\<close> sets up; the content of the fresh buffer does not matter.\<close>

definition new_pipe :: "u8 list \<Rightarrow> pipe_state" where
  "new_pipe buf = \<lparr>p_buffer = buf, p_size = PIPE_BUFFER_SIZE, p_read_pos = 0, p_write_pos = 0, p_data_len = 0,
     p_readers = 1, p_writers = 1, p_read_waiters = [], p_write_waiters = []\<rparr>"

definition pipe_create :: "nat \<Rightarrow> nat \<Rightarrow> nat \<Rightarrow> u8 list \<Rightarrow> pipe_store \<Rightarrow> pipe_store" where
  "pipe_create i er ew buf st =
     \<lparr>pipes = (pipes st)(i \<mapsto> new_pipe buf),
      pipe_eps = (pipe_eps st)(er \<mapsto> \<lparr>ep_pipe = Some i, is_read_end = True\<rparr>,
                               ew \<mapsto> \<lparr>ep_pipe = Some i, is_read_end = False\<rparr>)\<rparr>"

lemma new_pipe_inv: "length buf = PIPE_BUFFER_SIZE \<Longrightarrow> pipe_inv (new_pipe buf) \<and> pipe_contents (new_pipe buf) = []"
  by (simp add: pipe_inv_def new_pipe_def ring_ok_def PIPE_BUFFER_SIZE_def pipe_contents_def)

lemma pipe_stream_witness:
  "\<forall>s0. \<exists>i out p' s'. pipe_run [Inl [1, 2, 3], Inr 2] (\<lparr>p_buffer = [0, 0, 0, 0], p_size = 4, p_read_pos = 3, p_write_pos = 3,
      p_data_len = 0, p_readers = 1, p_writers = 1, p_read_waiters = [], p_write_waiters = []\<rparr>, s0) = (i, out, p', s') \<and>
    i = out @ pipe_contents p'"
proof
  fix s0 :: sched_state
  let ?p = "\<lparr>p_buffer = [0, 0, 0, 0], p_size = 4, p_read_pos = 3, p_write_pos = 3,
      p_data_len = 0, p_readers = 1, p_writers = 1, p_read_waiters = [], p_write_waiters = []\<rparr> :: pipe_state"
  obtain i out p' s' where r: "pipe_run [Inl [1, 2, 3], Inr 2] (?p, s0) = (i, out, p', s')" by (metis prod_cases4)
  have "pipe_inv ?p" by (simp add: pipe_inv_def ring_ok_def)
  from pipe_stream [OF this _ r] have "i = out @ pipe_contents p'" by (simp add: pipe_contents_def)
  with r show "\<exists>i out p' s'. pipe_run [Inl [1, 2, 3], Inr 2] (?p, s0) = (i, out, p', s') \<and> i = out @ pipe_contents p'" by blast
qed

subsection \<open>The life of pipes and their ends\<close>

definition ends_of :: "(nat \<Rightarrow> pipe_endpoint option) \<Rightarrow> nat \<Rightarrow> bool \<Rightarrow> nat set" where
  "ends_of eps i rd = {e. eps e = Some \<lparr>ep_pipe = Some i, is_read_end = rd\<rparr>}"

definition pipe_store_inv :: "pipe_store \<Rightarrow> bool" where
  "pipe_store_inv st \<longleftrightarrow>
     (\<forall>e ep. pipe_eps st e = Some ep \<longrightarrow> (\<exists>i. ep_pipe ep = Some i \<and> pipes st i \<noteq> None)) \<and>
     (\<forall>i p. pipes st i = Some p \<longrightarrow> pipe_inv p \<and>
        finite (ends_of (pipe_eps st) i True) \<and> p_readers p = card (ends_of (pipe_eps st) i True) \<and>
        finite (ends_of (pipe_eps st) i False) \<and> p_writers p = card (ends_of (pipe_eps st) i False))"

inductive pipe_reach :: "pipe_store \<times> sched_state \<Rightarrow> bool" where
  pipe_none: "pipe_reach (\<lparr>pipes = \<lambda>_. None, pipe_eps = \<lambda>_. None\<rparr>, s)"
| pipe_new: "pipe_reach (st, s) \<Longrightarrow> pipes st i = None \<Longrightarrow> pipe_eps st er = None \<Longrightarrow> pipe_eps st ew = None \<Longrightarrow> er \<noteq> ew \<Longrightarrow>
    length buf = PIPE_BUFFER_SIZE \<Longrightarrow> pipe_reach (pipe_create i er ew buf st, s)"
| pipe_sched: "pipe_reach (st, s) \<Longrightarrow> pipe_reach (st, s')"
| pipe_read: "pipe_reach st \<Longrightarrow> task_ipc_pipe_read node b n st = (r, xs, st') \<Longrightarrow> pipe_reach st'"
| pipe_write: "pipe_reach st \<Longrightarrow> task_ipc_pipe_write node b xs st = (r, st') \<Longrightarrow> pipe_reach st'"
| pipe_close: "pipe_reach st \<Longrightarrow> task_ipc_pipe_close node st = (r, st') \<Longrightarrow> pipe_reach st'"

lemma ends_create:
  assumes "eps er = None" "eps ew = None" "er \<noteq> ew"
  shows "ends_of (eps(er \<mapsto> \<lparr>ep_pipe = Some i, is_read_end = True\<rparr>, ew \<mapsto> \<lparr>ep_pipe = Some i, is_read_end = False\<rparr>)) j rd =
    (if j = i then insert (if rd then er else ew) (ends_of eps i rd) else ends_of eps j rd)"
  using assms by (auto simp: ends_of_def)

lemma store_inv_same:
  assumes inv: "pipe_store_inv st" and p: "pipes st i = Some p"
    and p': "pipe_inv p'" "p_readers p' = p_readers p" "p_writers p' = p_writers p"
  shows "pipe_store_inv (st\<lparr>pipes := (pipes st)(i \<mapsto> p')\<rparr>)"
  unfolding pipe_store_inv_def
proof (intro conjI allI impI)
  fix e ep
  assume "pipe_eps (st\<lparr>pipes := (pipes st)(i \<mapsto> p')\<rparr>) e = Some ep"
  then have "pipe_eps st e = Some ep" by simp
  then obtain j where "ep_pipe ep = Some j" "pipes st j \<noteq> None" using inv unfolding pipe_store_inv_def by blast
  then show "\<exists>j. ep_pipe ep = Some j \<and> pipes (st\<lparr>pipes := (pipes st)(i \<mapsto> p')\<rparr>) j \<noteq> None" by auto
next
  fix j q
  assume q: "pipes (st\<lparr>pipes := (pipes st)(i \<mapsto> p')\<rparr>) j = Some q"
  let ?E = "pipe_eps (st\<lparr>pipes := (pipes st)(i \<mapsto> p')\<rparr>)"
  have old: "pipes st k = Some u \<Longrightarrow> pipe_inv u \<and> finite (ends_of (pipe_eps st) k True) \<and> p_readers u = card (ends_of (pipe_eps st) k True) \<and>
      finite (ends_of (pipe_eps st) k False) \<and> p_writers u = card (ends_of (pipe_eps st) k False)" for k u
    using inv unfolding pipe_store_inv_def by blast
  have "pipe_inv q \<and> finite (ends_of ?E j True) \<and> p_readers q = card (ends_of ?E j True) \<and>
      finite (ends_of ?E j False) \<and> p_writers q = card (ends_of ?E j False)"
    using q old [OF p] old [of j q] p' by (cases "j = i") auto
  then show "pipe_inv q" "finite (ends_of ?E j True)" "p_readers q = card (ends_of ?E j True)"
    "finite (ends_of ?E j False)" "p_writers q = card (ends_of ?E j False)" by blast+
qed

lemma close_end_fields:
  "pipe_inv (fst (pipe_close_end rd (p, s))) \<longleftrightarrow> pipe_inv p"
  "p_readers (fst (pipe_close_end rd (p, s))) = (if rd then p_readers p - 1 else p_readers p)"
  "p_writers (fst (pipe_close_end rd (p, s))) = (if rd then p_writers p else p_writers p - 1)"
  by (auto simp: pipe_close_end_def Let_def pipe_wake_all_writers_def pipe_wake_all_readers_def pipe_inv_def)

lemma store_inv_live:
  assumes "pipe_store_inv st" "pipe_eps st e = Some ep"
  obtains i p where "ep_pipe ep = Some i" "pipes st i = Some p" "pipe_inv p"
    "p_readers p = card (ends_of (pipe_eps st) i True)" "p_writers p = card (ends_of (pipe_eps st) i False)"
    "finite (ends_of (pipe_eps st) i True)" "finite (ends_of (pipe_eps st) i False)" "e \<in> ends_of (pipe_eps st) i (is_read_end ep)"
proof -
  obtain i where i: "ep_pipe ep = Some i" "pipes st i \<noteq> None" using assms unfolding pipe_store_inv_def by blast
  then obtain p where p: "pipes st i = Some p" by blast
  have "e \<in> ends_of (pipe_eps st) i (is_read_end ep)" using assms(2) i(1) by (simp add: ends_of_def)
  then show thesis using that [OF i(1) p] assms(1) p unfolding pipe_store_inv_def by blast
qed

lemma pipe_read_store:
  assumes inv: "pipe_store_inv (fst st)" and r: "task_ipc_pipe_read node b n st = (r, xs, st')"
  shows "pipe_store_inv (fst st') \<and> pipe_eps (fst st') = pipe_eps (fst st)"
proof (cases "\<exists>e ep i p. node = Some (Some e) \<and> pipe_eps (fst st) e = Some ep \<and> ep_pipe ep = Some i \<and>
    pipes (fst st) i = Some p \<and> is_read_end ep \<and> b \<and> n \<noteq> 0")
  case True
  then obtain e ep i p where c: "node = Some (Some e)" "pipe_eps (fst st) e = Some ep" "ep_pipe ep = Some i"
    "pipes (fst st) i = Some p" "is_read_end ep" "b" "n \<noteq> 0" by blast
  obtain r1 xs1 p1 s1 where p1: "pipe_read_pass n (p, snd st) = (r1, xs1, p1, s1)" by (metis prod_cases4)
  have st': "fst st' = (fst st)\<lparr>pipes := (pipes (fst st))(i \<mapsto> p1)\<rparr>"
    using r c p1 by (auto simp: task_ipc_pipe_read_def)
  have "pipe_inv p" using inv c(4) unfolding pipe_store_inv_def by blast
  from pipe_read_pass_spec [OF this p1] store_inv_same [OF inv c(4), of p1] st' show ?thesis by simp
next
  case False
  then have "fst st' = fst st" using r by (auto simp: task_ipc_pipe_read_def split: if_splits option.splits)
  then show ?thesis using inv by simp
qed

lemma pipe_write_store:
  assumes inv: "pipe_store_inv (fst st)" and r: "task_ipc_pipe_write node b xs st = (r, st')"
  shows "pipe_store_inv (fst st') \<and> pipe_eps (fst st') = pipe_eps (fst st)"
proof (cases "\<exists>e ep i p. node = Some (Some e) \<and> pipe_eps (fst st) e = Some ep \<and> ep_pipe ep = Some i \<and>
    pipes (fst st) i = Some p \<and> \<not> is_read_end ep \<and> b \<and> xs \<noteq> []")
  case True
  then obtain e ep i p where c: "node = Some (Some e)" "pipe_eps (fst st) e = Some ep" "ep_pipe ep = Some i"
    "pipes (fst st) i = Some p" "\<not> is_read_end ep" "b" "xs \<noteq> []" by blast
  obtain r1 p1 s1 where p1: "pipe_write_pass xs (p, snd st) = (r1, p1, s1)" by (metis prod_cases3)
  have st': "fst st' = (fst st)\<lparr>pipes := (pipes (fst st))(i \<mapsto> p1)\<rparr>"
    using r c p1 by (auto simp: task_ipc_pipe_write_def)
  have "pipe_inv p" using inv c(4) unfolding pipe_store_inv_def by blast
  from pipe_write_pass_spec [OF this p1] store_inv_same [OF inv c(4), of p1] st' show ?thesis by simp
next
  case False
  then have "fst st' = fst st" using r by (auto simp: task_ipc_pipe_write_def split: if_splits option.splits)
  then show ?thesis using inv by simp
qed

lemma ends_remove: "ends_of (eps(e := None)) i rd = ends_of eps i rd - {e}"
  by (auto simp: ends_of_def)

lemma pipe_close_store:
  assumes inv: "pipe_store_inv (fst st)" and r: "task_ipc_pipe_close node st = (r, st')"
  shows "pipe_store_inv (fst st')"
proof (cases "\<exists>e ep. node = Some (Some e) \<and> pipe_eps (fst st) e = Some ep")
  case False
  then show ?thesis using r inv by (auto simp: task_ipc_pipe_close_def split: option.splits)
next
  case True
  then obtain e ep where e: "node = Some (Some e)" "pipe_eps (fst st) e = Some ep" by blast
  obtain i p where L: "ep_pipe ep = Some i" "pipes (fst st) i = Some p" "pipe_inv p"
    "p_readers p = card (ends_of (pipe_eps (fst st)) i True)" "p_writers p = card (ends_of (pipe_eps (fst st)) i False)"
    "finite (ends_of (pipe_eps (fst st)) i True)" "finite (ends_of (pipe_eps (fst st)) i False)"
    "e \<in> ends_of (pipe_eps (fst st)) i (is_read_end ep)"
    by (rule store_inv_live [OF inv e(2)])
  obtain p1 s1 where c: "pipe_close_end (is_read_end ep) (p, snd st) = (p1, s1)" by fastforce
  have p1: "pipe_inv p1" "p_readers p1 = (if is_read_end ep then p_readers p - 1 else p_readers p)"
    "p_writers p1 = (if is_read_end ep then p_writers p else p_writers p - 1)"
    using close_end_fields [of "is_read_end ep" p "snd st"] L(3) unfolding c by simp_all
  let ?E = "(pipe_eps (fst st))(e := None)"
  have other: "e \<notin> ends_of (pipe_eps (fst st)) i (\<not> is_read_end ep)" "j \<noteq> i \<Longrightarrow> e \<notin> ends_of (pipe_eps (fst st)) j rd" for j rd
    using e(2) L(1) by (cases ep; auto simp: ends_of_def)+
  have cnt: "finite (ends_of ?E i True)" "p_readers p1 = card (ends_of ?E i True)"
    "finite (ends_of ?E i False)" "p_writers p1 = card (ends_of ?E i False)"
    using L(4-8) p1 other(1) by (cases "is_read_end ep"; simp add: ends_remove)+
  have st': "fst st' = \<lparr>pipes = (pipes (fst st))(i := if p_readers p1 = 0 \<and> p_writers p1 = 0 then None else Some p1), pipe_eps = ?E\<rparr>"
    using r e L(1,2) c by (auto simp: task_ipc_pipe_close_def Let_def)
  show ?thesis
    unfolding pipe_store_inv_def
  proof (intro conjI allI impI)
    fix f fp
    assume f: "pipe_eps (fst st') f = Some fp"
    then have f2: "pipe_eps (fst st) f = Some fp" "f \<noteq> e" unfolding st' by (auto split: if_splits)
    obtain j q where J: "ep_pipe fp = Some j" "pipes (fst st) j = Some q" "f \<in> ends_of (pipe_eps (fst st)) j (is_read_end fp)"
      by (rule store_inv_live [OF inv f2(1)])
    have "pipes (fst st') j \<noteq> None"
    proof (cases "j = i")
      case True
      then have "f \<in> ends_of ?E i (is_read_end fp)" using J(3) f2(2) by (simp add: ends_remove)
      then have "\<not> (p_readers p1 = 0 \<and> p_writers p1 = 0)" using cnt by (cases "is_read_end fp") auto
      then show ?thesis unfolding st' using True by simp
    next
      case False
      then show ?thesis unfolding st' using J(2) by simp
    qed
    then show "\<exists>j. ep_pipe fp = Some j \<and> pipes (fst st') j \<noteq> None" using J(1) by blast
  next
    fix j q
    assume q: "pipes (fst st') j = Some q"
    have old: "j \<noteq> i \<Longrightarrow> pipes (fst st) j = Some q" using q unfolding st' by simp
    have E: "pipe_eps (fst st') = ?E" unfolding st' by simp
    have same: "j \<noteq> i \<Longrightarrow> ends_of ?E j rd = ends_of (pipe_eps (fst st)) j rd" for rd
      using other(2) by (simp add: ends_remove)
    have "pipe_inv q \<and> finite (ends_of ?E j True) \<and> p_readers q = card (ends_of ?E j True) \<and>
        finite (ends_of ?E j False) \<and> p_writers q = card (ends_of ?E j False)"
    proof (cases "j = i")
      case True
      then have "q = p1" using q unfolding st' by (simp split: if_splits)
      then show ?thesis using p1(1) cnt True by simp
    next
      case False
      show ?thesis unfolding same [OF False] using inv old [OF False] unfolding pipe_store_inv_def by blast
    qed
    then show "pipe_inv q" "finite (ends_of (pipe_eps (fst st')) j True)" "p_readers q = card (ends_of (pipe_eps (fst st')) j True)"
      "finite (ends_of (pipe_eps (fst st')) j False)" "p_writers q = card (ends_of (pipe_eps (fst st')) j False)"
      unfolding E by blast+
  qed
qed

lemma pipe_create_store:
  assumes inv: "pipe_store_inv st" and n: "pipes st i = None" "pipe_eps st er = None" "pipe_eps st ew = None" "er \<noteq> ew"
    and b: "length buf = PIPE_BUFFER_SIZE"
  shows "pipe_store_inv (pipe_create i er ew buf st)"
proof -
  let ?s = "pipe_create i er ew buf st"
  have ends: "ends_of (pipe_eps ?s) j rd =
      (if j = i then insert (if rd then er else ew) (ends_of (pipe_eps st) i rd) else ends_of (pipe_eps st) j rd)" for j rd
    unfolding pipe_create_def by (simp add: ends_create [OF n(2-4)])
  have none: "ends_of (pipe_eps st) i rd = {}" for rd
  proof -
    have False if "pipe_eps st e = Some \<lparr>ep_pipe = Some i, is_read_end = rd\<rparr>" for e
      using inv that n(1) unfolding pipe_store_inv_def by fastforce
    then show ?thesis by (auto simp: ends_of_def)
  qed
  show ?thesis
    unfolding pipe_store_inv_def
  proof (intro conjI allI impI)
    fix e ep
    assume e: "pipe_eps ?s e = Some ep"
    show "\<exists>j. ep_pipe ep = Some j \<and> pipes ?s j \<noteq> None"
    proof (cases "e = er \<or> e = ew")
      case True
      then show ?thesis using e by (auto simp: pipe_create_def split: if_splits)
    next
      case False
      then have "pipe_eps st e = Some ep" using e by (simp add: pipe_create_def)
      then obtain j where "ep_pipe ep = Some j" "pipes st j \<noteq> None" using inv unfolding pipe_store_inv_def by blast
      then show ?thesis by (auto simp: pipe_create_def)
    qed
  next
    fix j q
    assume q: "pipes ?s j = Some q"
    have "pipe_inv q \<and> finite (ends_of (pipe_eps ?s) j True) \<and> p_readers q = card (ends_of (pipe_eps ?s) j True) \<and>
        finite (ends_of (pipe_eps ?s) j False) \<and> p_writers q = card (ends_of (pipe_eps ?s) j False)"
    proof (cases "j = i")
      case True
      then have "q = new_pipe buf" using q by (simp add: pipe_create_def)
      then show ?thesis unfolding ends using True none new_pipe_inv [OF b] by (simp add: new_pipe_def)
    next
      case False
      then have old: "pipes st j = Some q" using q by (simp add: pipe_create_def)
      show ?thesis unfolding ends if_not_P [OF False] using inv old unfolding pipe_store_inv_def by blast
    qed
    then show "pipe_inv q" "finite (ends_of (pipe_eps ?s) j True)" "p_readers q = card (ends_of (pipe_eps ?s) j True)"
      "finite (ends_of (pipe_eps ?s) j False)" "p_writers q = card (ends_of (pipe_eps ?s) j False)" by blast+
  qed
qed

lemma pipe_reach_inv: "pipe_reach st \<Longrightarrow> pipe_store_inv (fst st)"
proof (induction rule: pipe_reach.induct)
  case (pipe_none s)
  then show ?case by (simp add: pipe_store_inv_def)
next
  case (pipe_new st s i er ew buf)
  then show ?case using pipe_create_store by simp
next
  case (pipe_sched st s s')
  then show ?case by simp
next
  case (pipe_read st node b n r xs st')
  then show ?case using pipe_read_store by blast
next
  case (pipe_write st node b xs r st')
  then show ?case using pipe_write_store by blast
next
  case (pipe_close st node r st')
  then show ?case using pipe_close_store by blast
qed

text \<open>
  C8. In every state that creating, reading, writing and closing pipes can reach, an operation on an open
  end never touches a freed pipe. A read at an open end returns the oldest bytes, up to its size; it
  reports the end of the data exactly when the pipe is empty and no writing end is open, and blocks
  when one is. A write at an open end fails with a broken pipe exactly when no reading end is open, takes
  what fits when there is room, and blocks when there is none. A pipe goes away with its last end.
\<close>

theorem pipe_reach_safe:
  assumes "pipe_reach st" and "pipe_eps (fst st) e = Some ep" and "n > 0" and "xs \<noteq> []"
  shows "\<exists>i p. ep_pipe ep = Some i \<and> pipes (fst st) i = Some p \<and> length (pipe_contents p) \<le> p_size p \<and>
    (is_read_end ep \<longrightarrow>
       fst (snd (task_ipc_pipe_read (Some (Some e)) True n st)) = take n (pipe_contents p) \<and>
       fst (task_ipc_pipe_read (Some (Some e)) True n st) =
         (if pipe_contents p \<noteq> [] then Io_ret (int (min n (length (pipe_contents p))))
          else if ends_of (pipe_eps (fst st)) i False = {} then Io_ret 0 else Io_block)) \<and>
    (\<not> is_read_end ep \<longrightarrow>
       fst (task_ipc_pipe_write (Some (Some e)) True xs st) =
         (if ends_of (pipe_eps (fst st)) i True = {} then Io_ret (- EPIPE)
          else if length (pipe_contents p) < p_size p
               then Io_ret (int (min (length xs) (p_size p - length (pipe_contents p)))) else Io_block)) \<and>
    fst (task_ipc_pipe_close (Some (Some e)) st) = Io_ret 0 \<and>
    (pipes (fst (snd (task_ipc_pipe_close (Some (Some e)) st))) i = None \<longleftrightarrow>
       ends_of (pipe_eps (fst st)) i True \<union> ends_of (pipe_eps (fst st)) i False = {e})"
proof -
  note inv = pipe_reach_inv [OF assms(1)]
  obtain i p where L: "ep_pipe ep = Some i" "pipes (fst st) i = Some p" "pipe_inv p"
    "p_readers p = card (ends_of (pipe_eps (fst st)) i True)" "p_writers p = card (ends_of (pipe_eps (fst st)) i False)"
    "finite (ends_of (pipe_eps (fst st)) i True)" "finite (ends_of (pipe_eps (fst st)) i False)"
    "e \<in> ends_of (pipe_eps (fst st)) i (is_read_end ep)"
    by (rule store_inv_live [OF inv assms(2)])
  have z: "p_readers p = 0 \<longleftrightarrow> ends_of (pipe_eps (fst st)) i True = {}"
    "p_writers p = 0 \<longleftrightarrow> ends_of (pipe_eps (fst st)) i False = {}" using L(4-7) by simp_all
  have le: "length (pipe_contents p) \<le> p_size p" using L(3) by (simp add: pipe_inv_def ring_ok_def)
  obtain r x1 p1 s1 where rp: "pipe_read_pass n (p, snd st) = (r, x1, p1, s1)" by (metis prod_cases4)
  note R = pipe_read_pass_spec [OF L(3) rp]
  have read: "fst (snd (task_ipc_pipe_read (Some (Some e)) True n st)) = take n (pipe_contents p) \<and>
       fst (task_ipc_pipe_read (Some (Some e)) True n st) =
         (if pipe_contents p \<noteq> [] then Io_ret (int (min n (length (pipe_contents p))))
          else if ends_of (pipe_eps (fst st)) i False = {} then Io_ret 0 else Io_block)" if "is_read_end ep"
  proof -
    have "pipe_contents p = [] \<longleftrightarrow> p_data_len p = 0" by (metis length_0_conv pipe_contents_length)
    then show ?thesis using that assms(2,3) L(1,2) rp R z(2) by (simp add: task_ipc_pipe_read_def)
  qed
  obtain r2 p2 s2 where wp: "pipe_write_pass xs (p, snd st) = (r2, p2, s2)" by (metis prod_cases3)
  note W = pipe_write_pass_spec [OF L(3) wp]
  have wrt: "fst (task_ipc_pipe_write (Some (Some e)) True xs st) =
         (if ends_of (pipe_eps (fst st)) i True = {} then Io_ret (- EPIPE)
          else if length (pipe_contents p) < p_size p
               then Io_ret (int (min (length xs) (p_size p - length (pipe_contents p)))) else Io_block)" if "\<not> is_read_end ep"
    using that assms(2,4) L(1,2) wp W z(1) by (simp add: task_ipc_pipe_write_def)
  obtain p3 s3 where cp: "pipe_close_end (is_read_end ep) (p, snd st) = (p3, s3)" by fastforce
  have c: "p_readers p3 = (if is_read_end ep then p_readers p - 1 else p_readers p)"
    "p_writers p3 = (if is_read_end ep then p_writers p else p_writers p - 1)"
    using close_end_fields [of "is_read_end ep" p "snd st"] unfolding cp by simp_all
  have close: "fst (task_ipc_pipe_close (Some (Some e)) st) = Io_ret 0"
    "pipes (fst (snd (task_ipc_pipe_close (Some (Some e)) st))) i =
       (if p_readers p3 = 0 \<and> p_writers p3 = 0 then None else Some p3)"
    using assms(2) L(1,2) cp by (simp_all add: task_ipc_pipe_close_def)
  let ?R = "ends_of (pipe_eps (fst st)) i True" and ?W = "ends_of (pipe_eps (fst st)) i False"
  have dj: "?R \<inter> ?W = {}" by (auto simp: ends_of_def)
  have gone: "p_readers p3 = 0 \<and> p_writers p3 = 0 \<longleftrightarrow> ?R \<union> ?W = {e}"
  proof (cases "is_read_end ep")
    case True
    then have "e \<in> ?R" using L(8) by simp
    then have "card ?R - 1 = 0 \<longleftrightarrow> ?R = {e}" using L(6) by (metis card_1_singleton_iff card_Diff_singleton card_0_eq finite_Diff
        insert_Diff One_nat_def singletonD card.empty diff_self_eq_0 card_insert_disjoint insertI1)
    then show ?thesis using True c L(4,5) z(2) dj \<open>e \<in> ?R\<close> by auto
  next
    case False
    then have "e \<in> ?W" using L(8) by simp
    then have "card ?W - 1 = 0 \<longleftrightarrow> ?W = {e}" using L(7) by (metis card_1_singleton_iff card_Diff_singleton card_0_eq finite_Diff
        insert_Diff One_nat_def singletonD card.empty diff_self_eq_0 card_insert_disjoint insertI1)
    then show ?thesis using False c L(4,5) z(1) dj \<open>e \<in> ?W\<close> by auto
  qed
  show ?thesis
    using L(1,2) le read wrt close gone by (intro exI [of _ i] exI [of _ p]) (simp split: if_splits)
qed

lemma pipe_reach_safe_witness:
  "\<forall>s. fst (task_ipc_pipe_read (Some (Some 0)) True 1
     (pipe_create 0 0 1 (replicate PIPE_BUFFER_SIZE 0) \<lparr>pipes = \<lambda>_. None, pipe_eps = \<lambda>_. None\<rparr>, s)) = Io_block"
proof
  fix s :: sched_state
  let ?z = "\<lparr>pipes = \<lambda>_. None, pipe_eps = \<lambda>_. None\<rparr> :: pipe_store"
  let ?b = "replicate PIPE_BUFFER_SIZE 0 :: u8 list"
  let ?st = "(pipe_create 0 0 1 ?b ?z, s)"
  have r: "pipe_reach ?st" by (rule pipe_new [OF pipe_none]) simp_all
  have e: "pipe_eps (fst ?st) 0 = Some \<lparr>ep_pipe = Some 0, is_read_end = True\<rparr>" by (simp add: pipe_create_def)
  have "pipes (fst ?st) 0 = Some (new_pipe ?b)" by (simp add: pipe_create_def)
  moreover have "pipe_contents (new_pipe ?b) = []" using new_pipe_inv [of ?b] by simp
  moreover have "1 \<in> ends_of (pipe_eps (fst ?st)) 0 False" by (simp add: pipe_create_def ends_of_def)
  ultimately show "fst (task_ipc_pipe_read (Some (Some 0)) True 1 ?st) = Io_block"
    using pipe_reach_safe [OF r e, of 1 "[1]"] by auto
qed

end
