(* ===== verification/Paging.thy ===== *)
theory Paging
  imports Buddy
begin

text \<open>
  Virtual memory, \<^verbatim>\<open>kernel/vmm/vmm.c\<close>. Every access of the code goes through a virtual address: the
  page directory and the page tables of the current address space through the self map, those of
  another one through the window that \<open>kmap\<close> opens. The model does the same: \<open>mmu\<close> is the two-level
  walk of the processor from \<open>cr3\<close>, and a load or a store through an address it does not translate is
  a \<open>Page_fault\<close>. The physical memory has two views, the entries of the frames used as page tables and
  the bytes of the frames used as data; no frame is used as both, and the translation buffer is not
  modelled, since every change of an entry is followed by \<open>invlpg\<close> or a reload of \<open>cr3\<close>. Frames come
  from the buddy allocator.
\<close>

subsection \<open>The machine\<close>

definition PAGE_MASK :: u32 where "PAGE_MASK = 0xFFFFF000"
definition PAGE_PRESENT :: u32 where "PAGE_PRESENT = 1"
definition PAGE_USER :: u32 where "PAGE_USER = 4"
definition PAGE_FLAGS :: u32 where "PAGE_FLAGS = 3"
definition USER_PAGE_FLAGS :: u32 where "USER_PAGE_FLAGS = 7"
definition KERNEL_PDE_BASE :: nat where "KERNEL_PDE_BASE = 768"
definition SELF_PDE_BASE :: nat where "SELF_PDE_BASE = 1023"
definition KMAP_PDE_BASE :: nat where "KMAP_PDE_BASE = 1022"
definition SELF_PD_VA :: u32 where "SELF_PD_VA = 0xFFFFF000"
definition SELF_PT_BASE_VA :: u32 where "SELF_PT_BASE_VA = 0xFFC00000"
definition KMAP_BASE :: u32 where "KMAP_BASE = push_bit 22 (word_of_nat KMAP_PDE_BASE)"
definition USER_SPACE_START :: u32 where "USER_SPACE_START = 0x00400000"
definition USER_SPACE_END :: u32 where "USER_SPACE_END = 0xBFFFFFFF"

record vm =
  frames :: "u32 \<Rightarrow> nat \<Rightarrow> u32"
  bytes :: "u32 \<Rightarrow> u8"
  cr3 :: u32
  kmap_pt_phys :: u32
  zones :: buddy_state

datatype vm_error = Page_fault | Vm_panic

definition vmm_pdi :: "u32 \<Rightarrow> nat" where "vmm_pdi va = unat (drop_bit 22 va)"
definition vmm_pti :: "u32 \<Rightarrow> nat" where "vmm_pti va = unat (drop_bit 12 va AND 0x3FF)"

definition present :: "u32 \<Rightarrow> bool" where "present e \<longleftrightarrow> e AND PAGE_PRESENT \<noteq> 0"

definition pte_of :: "vm \<Rightarrow> u32 \<Rightarrow> u32 \<Rightarrow> u32 option" where
  "pte_of s pd va =
     (let pde = frames s pd (vmm_pdi va) in
      if \<not> present pde then None
      else let pte = frames s (pde AND PAGE_MASK) (vmm_pti va) in if present pte then Some pte else None)"

definition mmu :: "vm \<Rightarrow> u32 \<Rightarrow> u32 option" where
  "mmu s va = map_option (\<lambda>pte. pte AND PAGE_MASK) (pte_of s (cr3 s AND PAGE_MASK) va)"

definition vbind :: "'e + 'a \<Rightarrow> ('a \<Rightarrow> 'e + 'b) \<Rightarrow> 'e + 'b" where
  "vbind m f = (case m of Inl e \<Rightarrow> Inl e | Inr x \<Rightarrow> f x)"

lemma vbind_simps [simp]: "vbind (Inl e) f = Inl e" "vbind (Inr x) f = f x"
  by (simp_all add: vbind_def)

definition vload :: "u32 \<Rightarrow> nat \<Rightarrow> vm \<Rightarrow> vm_error + u32" where
  "vload va i s = (case mmu s va of None \<Rightarrow> Inl Page_fault | Some f \<Rightarrow> Inr (frames s f i))"

definition fset :: "u32 \<Rightarrow> nat \<Rightarrow> u32 \<Rightarrow> vm \<Rightarrow> vm" where
  "fset f i x s = s\<lparr>frames := (frames s)(f := (frames s f)(i := x))\<rparr>"

definition fzero :: "u32 \<Rightarrow> vm \<Rightarrow> vm" where
  "fzero f s = s\<lparr>frames := (frames s)(f := (\<lambda>i. 0))\<rparr>"

definition vstore :: "u32 \<Rightarrow> nat \<Rightarrow> u32 \<Rightarrow> vm \<Rightarrow> vm_error + vm" where
  "vstore va i x s = (case mmu s va of None \<Rightarrow> Inl Page_fault | Some f \<Rightarrow> Inr (fset f i x s))"

text \<open>\<^verbatim>\<open>memset(pt, 0, PAGE_SIZE)\<close> on a page table.\<close>

definition vzero :: "u32 \<Rightarrow> vm \<Rightarrow> vm_error + vm" where
  "vzero va s = (case mmu s va of None \<Rightarrow> Inl Page_fault | Some f \<Rightarrow> Inr (fzero f s))"

definition cur_pd_va :: u32 where "cur_pd_va = SELF_PD_VA"

definition pt_va :: "nat \<Rightarrow> u32" where
  "pt_va i = SELF_PT_BASE_VA + word_of_nat i * word_of_nat PAGE_SIZE"

definition kmap_pt_va :: u32 where "kmap_pt_va = pt_va KMAP_PDE_BASE"

definition alloc_frame :: "vm \<Rightarrow> vm_error + u32 \<times> vm" where
  "alloc_frame s = (case alloc_pages (zones s) 0 of
     None \<Rightarrow> Inl Vm_panic | Some (zs, p) \<Rightarrow> Inr (word_of_nat p, s\<lparr>zones := zs\<rparr>))"

definition free_frame :: "u32 \<Rightarrow> vm \<Rightarrow> vm_error + vm" where
  "free_frame p s = (case free_pages (zones s) (unat p) 0 of
     None \<Rightarrow> Inl Vm_panic | Some zs \<Rightarrow> Inr (s\<lparr>zones := zs\<rparr>))"

subsection \<open>The window\<close>

definition kmap :: "u32 \<Rightarrow> vm \<Rightarrow> vm_error + vm" where
  "kmap phys s =
     (if kmap_pt_phys s = 0 then Inl Vm_panic
      else vstore kmap_pt_va 0 ((phys AND PAGE_MASK) OR PAGE_FLAGS) s)"

definition kunmap :: "vm \<Rightarrow> vm_error + vm" where
  "kunmap s = vstore kmap_pt_va 0 0 s"

text \<open>\<^verbatim>\<open>kmap(f)\<close>, one read at index \<open>i\<close>, \<^verbatim>\<open>kunmap()\<close>.\<close>

definition kpeek :: "u32 \<Rightarrow> nat \<Rightarrow> vm \<Rightarrow> vm_error + u32 \<times> vm" where
  "kpeek f i s = vbind (kmap f s) (\<lambda>s. vbind (vload KMAP_BASE i s) (\<lambda>x. vbind (kunmap s) (\<lambda>s. Inr (x, s))))"

subsection \<open>Mapping and unmapping\<close>

definition map_page_local :: "u32 \<Rightarrow> u32 \<Rightarrow> u32 \<Rightarrow> u32 \<Rightarrow> bool \<Rightarrow> vm \<Rightarrow> vm_error + vm" where
  "map_page_local va pa fl pde_flags ow s =
     (let i = vmm_pdi va; j = vmm_pti va in
      vbind (vload cur_pd_va i s) (\<lambda>pde.
      vbind (if \<not> present pde then
               vbind (alloc_frame s) (\<lambda>(pt, s).
               if pt = 0 then Inl Vm_panic
               else vbind (vstore cur_pd_va i ((pt AND PAGE_MASK) OR pde_flags OR PAGE_PRESENT) s) (\<lambda>s.
                    vzero (pt_va i) s))
             else Inr s) (\<lambda>s.
      vbind (vload (pt_va i) j s) (\<lambda>old.
      if present old \<and> \<not> ow then Inl Vm_panic
      else vstore (pt_va i) j (pa OR (fl AND 0xFFF) OR PAGE_PRESENT) s))))"

definition map_page_foreign :: "u32 \<Rightarrow> u32 \<Rightarrow> u32 \<Rightarrow> u32 \<Rightarrow> u32 \<Rightarrow> bool \<Rightarrow> vm \<Rightarrow> vm_error + vm" where
  "map_page_foreign as_cr3 va pa fl pde_flags ow s =
     (let i = vmm_pdi va; j = vmm_pti va in
      vbind (kmap as_cr3 s) (\<lambda>s.
      vbind (vload KMAP_BASE i s) (\<lambda>pde.
      vbind (if \<not> present pde then
               vbind (alloc_frame s) (\<lambda>(pt, s).
               if pt = 0 then vbind (kunmap s) (\<lambda>s. Inl Vm_panic)
               else vbind (vstore KMAP_BASE i ((pt AND PAGE_MASK) OR pde_flags OR PAGE_PRESENT) s) (\<lambda>s.
                    vbind (kunmap s) (\<lambda>s. vbind (kmap pt s) (\<lambda>s. vbind (vzero KMAP_BASE s) (\<lambda>s. vbind (kunmap s) (\<lambda>s.
                    Inr ((pt AND PAGE_MASK) OR pde_flags OR PAGE_PRESENT, s)))))))
             else vbind (kunmap s) (\<lambda>s. Inr (pde, s))) (\<lambda>(pde, s).
      vbind (kmap (pde AND PAGE_MASK) s) (\<lambda>s.
      vbind (vload KMAP_BASE j s) (\<lambda>old.
      if present old \<and> \<not> ow then vbind (kunmap s) (\<lambda>s. Inl Vm_panic)
      else vbind (vstore KMAP_BASE j (pa OR (fl AND 0xFFF) OR PAGE_PRESENT) s) kunmap))))))"

definition map_page :: "u32 \<Rightarrow> u32 \<Rightarrow> u32 \<Rightarrow> u32 \<Rightarrow> bool \<Rightarrow> vm \<Rightarrow> vm_error + vm" where
  "map_page pd vaddr paddr fl ow s =
     (let va = vaddr AND PAGE_MASK; pa = paddr AND PAGE_MASK;
          pde_flags = (if fl AND PAGE_USER \<noteq> 0 then PAGE_FLAGS OR PAGE_USER else PAGE_FLAGS);
          as_cr3 = pd AND PAGE_MASK
      in if cr3 s AND PAGE_MASK = as_cr3 then map_page_local va pa fl pde_flags ow s
         else map_page_foreign as_cr3 va pa fl pde_flags ow s)"

text \<open>The scan for an entry that is still present, through the address the table is seen at.\<close>

fun scan_empty :: "u32 \<Rightarrow> nat \<Rightarrow> nat \<Rightarrow> vm \<Rightarrow> vm_error + bool" where
  "scan_empty va i 0 s = Inr True"
| "scan_empty va i (Suc n) s = vbind (vload va i s) (\<lambda>e. if present e then Inr False else scan_empty va (i + 1) n s)"

definition unmap_page_local :: "u32 \<Rightarrow> bool \<Rightarrow> vm \<Rightarrow> vm_error + vm" where
  "unmap_page_local va fr s =
     (let i = vmm_pdi va; j = vmm_pti va in
      vbind (vload cur_pd_va i s) (\<lambda>pde.
      if \<not> present pde then Inr s
      else vbind (vload (pt_va i) j s) (\<lambda>entry.
      if \<not> present entry then Inr s
      else vbind (if fr then free_frame (entry AND PAGE_MASK) s else Inr s) (\<lambda>s.
      vbind (vstore (pt_va i) j 0 s) (\<lambda>s.
      if i < KERNEL_PDE_BASE then
        vbind (scan_empty (pt_va i) 0 PAGE_ENTRIES s) (\<lambda>empty.
        if empty then
          vbind (vload cur_pd_va i s) (\<lambda>e. vbind (vstore cur_pd_va i 0 s) (\<lambda>s. free_frame (e AND PAGE_MASK) s))
        else Inr s)
      else Inr s)))))"

definition unmap_page_foreign :: "u32 \<Rightarrow> u32 \<Rightarrow> bool \<Rightarrow> vm \<Rightarrow> vm_error + vm" where
  "unmap_page_foreign as_cr3 va fr s =
     (let i = vmm_pdi va; j = vmm_pti va in
      vbind (kpeek as_cr3 i s) (\<lambda>(pde, s).
      if \<not> present pde then Inr s
      else vbind (kmap (pde AND PAGE_MASK) s) (\<lambda>s.
      vbind (vload KMAP_BASE j s) (\<lambda>entry.
      if \<not> present entry then kunmap s
      else vbind (if fr then free_frame (entry AND PAGE_MASK) s else Inr s) (\<lambda>s.
      vbind (vstore KMAP_BASE j 0 s) (\<lambda>s.
      if i < KERNEL_PDE_BASE then
        vbind (scan_empty KMAP_BASE 0 PAGE_ENTRIES s) (\<lambda>empty.
        vbind (kunmap s) (\<lambda>s.
        if empty then
          vbind (kmap as_cr3 s) (\<lambda>s. vbind (vstore KMAP_BASE i 0 s) (\<lambda>s. vbind (kunmap s) (\<lambda>s.
          free_frame (pde AND PAGE_MASK) s)))
        else Inr s))
      else kunmap s))))))"

definition unmap_page :: "u32 \<Rightarrow> u32 \<Rightarrow> bool \<Rightarrow> vm \<Rightarrow> vm_error + vm" where
  "unmap_page pd vaddr fr s =
     (let va = vaddr AND PAGE_MASK; as_cr3 = pd AND PAGE_MASK
      in if cr3 s AND PAGE_MASK = as_cr3 then unmap_page_local va fr s else unmap_page_foreign as_cr3 va fr s)"

definition get_mapping :: "u32 \<Rightarrow> u32 \<Rightarrow> vm \<Rightarrow> vm_error + u32 \<times> vm" where
  "get_mapping pd vaddr s =
     (let va = vaddr AND PAGE_MASK; i = vmm_pdi va; j = vmm_pti va; as_cr3 = pd AND PAGE_MASK in
      if cr3 s AND PAGE_MASK = as_cr3 then
        vbind (vload cur_pd_va i s) (\<lambda>pde.
        if \<not> present pde then Inr (0, s)
        else vbind (vload (pt_va i) j s) (\<lambda>pte. Inr (if present pte then pte AND PAGE_MASK else 0, s)))
      else
        vbind (kpeek as_cr3 i s) (\<lambda>(pde, s).
        if \<not> present pde then Inr (0, s)
        else vbind (kpeek (pde AND PAGE_MASK) j s) (\<lambda>(pte, s). Inr (if present pte then pte AND PAGE_MASK else 0, s))))"

definition alloc_map_page :: "u32 \<Rightarrow> u32 \<Rightarrow> u32 \<Rightarrow> vm \<Rightarrow> vm_error + u32 \<times> vm" where
  "alloc_map_page pd vaddr fl s =
     vbind (alloc_frame s) (\<lambda>(phys, s).
     if phys = 0 then Inl Vm_panic
     else vbind (map_page pd vaddr phys fl False s) (\<lambda>s. Inr (phys, s)))"

text \<open>\<open>ensure_pt\<close> returns the address at which the table is seen, through the window for another address space.\<close>

definition ensure_pt :: "u32 \<Rightarrow> nat \<Rightarrow> u32 \<Rightarrow> vm \<Rightarrow> vm_error + u32 \<times> vm" where
  "ensure_pt pd i fl s =
     (if cr3 s AND PAGE_MASK = pd AND PAGE_MASK then
        vbind (vload cur_pd_va i s) (\<lambda>pde.
        if \<not> present pde then
          vbind (alloc_frame s) (\<lambda>(pt, s).
          if pt = 0 then Inl Vm_panic
          else vbind (vstore cur_pd_va i ((pt AND PAGE_MASK) OR (fl AND 0xFFF) OR PAGE_PRESENT) s) (\<lambda>s.
               vbind (vzero (pt_va i) s) (\<lambda>s. Inr (pt_va i, s))))
        else Inr (pt_va i, s))
      else
        vbind (kmap pd s) (\<lambda>s.
        vbind (vload KMAP_BASE i s) (\<lambda>pde.
        vbind (if \<not> present pde then
                 vbind (alloc_frame s) (\<lambda>(pt, s).
                 if pt = 0 then Inl Vm_panic
                 else vbind (vstore KMAP_BASE i ((pt AND PAGE_MASK) OR (fl AND 0xFFF) OR PAGE_PRESENT) s) (\<lambda>s.
                      vbind (kmap pt s) (\<lambda>s. vbind (vzero KMAP_BASE s) kunmap)))
               else Inr s) (\<lambda>s.
        vbind (kunmap s) (\<lambda>s.
        vbind (kpeek pd i s) (\<lambda>(pde, s).
        vbind (kmap (pde AND PAGE_MASK) s) (\<lambda>s. Inr (KMAP_BASE, s))))))))"

text \<open>\<open>map_get_pt_for_as\<close>: \<open>None\<close> is NULL. For the current address space the address is returned unchecked.\<close>

definition map_get_pt_for_as :: "u32 \<Rightarrow> nat \<Rightarrow> vm \<Rightarrow> vm_error + u32 option \<times> vm" where
  "map_get_pt_for_as pd i s =
     (if cr3 s AND PAGE_MASK = pd AND PAGE_MASK then Inr (Some (pt_va i), s)
      else vbind (kpeek pd i s) (\<lambda>(pde, s).
           if \<not> present pde then Inr (None, s)
           else vbind (kmap (pde AND PAGE_MASK) s) (\<lambda>s. Inr (Some KMAP_BASE, s))))"

subsection \<open>Entries and addresses\<close>

lemma PAGE_MASK_not: "PAGE_MASK = NOT (mask 12)"
  by (simp add: PAGE_MASK_def mask_eq_exp_minus_1)

lemma aligned_entry:
  assumes "p AND PAGE_MASK = p"
  shows "(p OR PAGE_FLAGS) AND PAGE_MASK = p" "(p OR (fl AND 0xFFF) OR PAGE_PRESENT) AND PAGE_MASK = p"
    "(p OR PAGE_FLAGS OR PAGE_PRESENT) AND PAGE_MASK = p" "(p OR (PAGE_FLAGS OR PAGE_USER) OR PAGE_PRESENT) AND PAGE_MASK = p"
proof -
  have z: "PAGE_FLAGS AND PAGE_MASK = 0" "PAGE_PRESENT AND PAGE_MASK = 0" "PAGE_USER AND PAGE_MASK = 0"
    by (simp_all add: PAGE_FLAGS_def PAGE_MASK_def PAGE_PRESENT_def PAGE_USER_def)
  have f: "fl AND 0xFFF AND PAGE_MASK = 0"
    by (simp add: PAGE_MASK_def and.assoc)
  note f = f f [unfolded and.assoc]
  show "(p OR PAGE_FLAGS) AND PAGE_MASK = p" "(p OR (fl AND 0xFFF) OR PAGE_PRESENT) AND PAGE_MASK = p"
    "(p OR PAGE_FLAGS OR PAGE_PRESENT) AND PAGE_MASK = p" "(p OR (PAGE_FLAGS OR PAGE_USER) OR PAGE_PRESENT) AND PAGE_MASK = p"
    using assms z f by (simp_all add: bit.conj_disj_distrib2 and.assoc)
qed

lemma present_entry [simp]:
  "present (p OR PAGE_FLAGS)" "present (p OR PAGE_PRESENT)" "\<not> present 0" "present (p OR (x OR PAGE_PRESENT))"
proof -
  have b: "PAGE_PRESENT = 1" "PAGE_FLAGS = 3" by (simp_all add: PAGE_PRESENT_def PAGE_FLAGS_def)
  have i: "present e" if "bit e 0" for e
    using that by (auto simp: present_def PAGE_PRESENT_def and_one_eq odd_iff_mod_2_eq_one bit_0)
  show "present (p OR PAGE_FLAGS)" by (rule i) (simp add: b bit_or_iff)
  show "present (p OR PAGE_PRESENT)" by (rule i) (simp add: b bit_or_iff)
  show "present (p OR (x OR PAGE_PRESENT))" by (rule i) (simp add: b bit_or_iff)
  show "\<not> present 0" by (simp add: present_def)
qed

lemma mask_idem [simp]: "x AND PAGE_MASK AND PAGE_MASK = x AND PAGE_MASK"
  by (simp add: and.assoc)

lemma unat_less32: "unat w < 2 ^ 32" for w :: u32
proof -
  have "unat w < 2 ^ LENGTH(32)" by (rule unsigned_less)
  then show ?thesis by simp
qed

lemma vmm_pdi_nat: "vmm_pdi va = unat va div 2 ^ 22"
proof -
  have "take_bit 32 (unat va) = unat va" using unat_less32 by (simp add: take_bit_nat_eq_self)
  then show ?thesis unfolding vmm_pdi_def unsigned_drop_bit_eq by (simp add: drop_bit_eq_div)
qed

lemma vmm_pti_nat: "vmm_pti va = unat va div 2 ^ 12 mod 1024"
proof -
  have "(0x3FF :: u32) = mask 10" by (simp add: mask_eq_exp_minus_1)
  then have "vmm_pti va = unat (take_bit 10 (drop_bit 12 va))" by (simp add: vmm_pti_def take_bit_eq_mask)
  also have "\<dots> = take_bit 10 (unat (drop_bit 12 va))" by (rule unsigned_take_bit_eq)
  moreover have "take_bit 32 (unat va) = unat va" using unat_less32 by (simp add: take_bit_nat_eq_self)
  ultimately show ?thesis unfolding unsigned_drop_bit_eq
    by (simp add: drop_bit_eq_div take_bit_eq_mod [of 10])
qed

lemma vmm_index_less [simp]: "vmm_pdi va < 1024" "vmm_pti va < 1024"
proof -
  have "unat va < 2 ^ 32" by (rule unat_less32)
  then show "vmm_pdi va < 1024" by (simp add: vmm_pdi_nat)
  show "vmm_pti va < 1024" by (simp add: vmm_pti_nat)
qed

lemma mask_nat: "unat (va AND PAGE_MASK) = unat va div 4096 * 4096"
  using unat_round_down [of 12 va] by (simp add: PAGE_MASK_not and_not_mask_bits)

lemma index_mask [simp]: "vmm_pdi (va AND PAGE_MASK) = vmm_pdi va" "vmm_pti (va AND PAGE_MASK) = vmm_pti va"
  by (simp_all add: vmm_pdi_nat vmm_pti_nat mask_nat div_mult2_eq [symmetric])

lemma split_1024: "b < 1024 \<Longrightarrow> d < 1024 \<Longrightarrow> a * 1024 + b = c * 1024 + d \<longleftrightarrow> a = c \<and> b = d" for a b c d :: nat
proof
  assume b: "b < 1024" "d < 1024" and e: "a * 1024 + b = c * 1024 + d"
  have "(a * 1024 + b) div 1024 = a" "(c * 1024 + d) div 1024 = c" using b by simp_all
  then have "a = c" using e by simp
  then show "a = c \<and> b = d" using e by simp
qed simp

lemma same_page_iff: "va AND PAGE_MASK = vb AND PAGE_MASK \<longleftrightarrow> vmm_pdi va = vmm_pdi vb \<and> vmm_pti va = vmm_pti vb"
proof -
  have a: "unat v div 4096 = vmm_pdi v * 1024 + vmm_pti v" for v :: u32
    using div_mult_mod_eq [of "unat v div 4096" 1024] by (simp add: vmm_pdi_nat vmm_pti_nat div_mult2_eq [symmetric])
  have "va AND PAGE_MASK = vb AND PAGE_MASK \<longleftrightarrow> unat va div 4096 = unat vb div 4096"
    unfolding word_unat_eq_iff mask_nat by simp
  also have "\<dots> \<longleftrightarrow> vmm_pdi va * 1024 + vmm_pti va = vmm_pdi vb * 1024 + vmm_pti vb" by (simp only: a)
  also have "\<dots> \<longleftrightarrow> vmm_pdi va = vmm_pdi vb \<and> vmm_pti va = vmm_pti vb"
    by (rule split_1024) simp_all
  finally show ?thesis .
qed

lemma unat_pt_va: "i < 1024 \<Longrightarrow> unat (pt_va i) = 0xFFC00000 + i * 4096"
proof -
  assume i: "i < 1024"
  have "pt_va i = word_of_nat (0xFFC00000 + i * 4096)"
    by (simp add: pt_va_def SELF_PT_BASE_VA_def PAGE_SIZE_def)
  then show ?thesis using i by (simp add: unat_of_nat del: of_nat_add of_nat_mult)
qed

lemma pt_va_index [simp]: "i < 1024 \<Longrightarrow> vmm_pdi (pt_va i) = 1023" "i < 1024 \<Longrightarrow> vmm_pti (pt_va i) = i"
proof -
  have "(1047552 + i) mod 1024 = i mod 1024" using mod_mult_self3 [of 1023 1024 i] by simp
  then show "i < 1024 \<Longrightarrow> vmm_pdi (pt_va i) = 1023" "i < 1024 \<Longrightarrow> vmm_pti (pt_va i) = i"
    by (simp_all add: vmm_pdi_nat vmm_pti_nat unat_pt_va)
qed

lemma fixed_index [simp]:
  "vmm_pdi SELF_PD_VA = 1023" "vmm_pti SELF_PD_VA = 1023" "vmm_pdi KMAP_BASE = 1022" "vmm_pti KMAP_BASE = 0"
  by (simp_all add: vmm_pdi_nat vmm_pti_nat SELF_PD_VA_def KMAP_BASE_def KMAP_PDE_BASE_def)

subsection \<open>Access through the self map and the window\<close>

text \<open>
  The entries that the code relies on: the current directory maps itself at 1023 and the table of the
  window at 1022, and the window is closed.
\<close>

definition vm_ready :: "vm \<Rightarrow> bool" where
  "vm_ready s \<longleftrightarrow> cr3 s AND PAGE_MASK = cr3 s \<and> frames s (cr3 s) SELF_PDE_BASE = cr3 s OR PAGE_FLAGS \<and>
     frames s (cr3 s) KMAP_PDE_BASE = kmap_pt_phys s OR PAGE_FLAGS \<and>
     kmap_pt_phys s AND PAGE_MASK = kmap_pt_phys s \<and> kmap_pt_phys s \<noteq> 0 \<and> cr3 s \<noteq> kmap_pt_phys s \<and>
     frames s (kmap_pt_phys s) 0 = 0"

definition win :: "u32 \<Rightarrow> vm \<Rightarrow> vm" where
  "win f s = fset (kmap_pt_phys s) 0 (f OR PAGE_FLAGS) s"

lemma fset_simps [simp]:
  "frames (fset f i x s) g = (if g = f then (frames s f)(i := x) else frames s g)" "cr3 (fset f i x s) = cr3 s"
  "kmap_pt_phys (fset f i x s) = kmap_pt_phys s" "zones (fset f i x s) = zones s" "bytes (fset f i x s) = bytes s"
  "frames (fzero f s) g = (if g = f then (\<lambda>i. 0) else frames s g)" "cr3 (fzero f s) = cr3 s"
  "kmap_pt_phys (fzero f s) = kmap_pt_phys s" "zones (fzero f s) = zones s" "bytes (fzero f s) = bytes s"
  by (simp_all add: fset_def fzero_def)

lemma win_simps [simp]:
  "cr3 (win f s) = cr3 s" "kmap_pt_phys (win f s) = kmap_pt_phys s" "zones (win f s) = zones s" "bytes (win f s) = bytes s"
  by (simp_all add: win_def)

lemma frames_win [simp]: "g \<noteq> kmap_pt_phys s \<Longrightarrow> frames (win f s) g = frames s g"
  by (simp add: win_def)

lemma win_zones [simp]: "(win f s)\<lparr>zones := z\<rparr> = win f (s\<lparr>zones := z\<rparr>)"
  by (simp add: win_def fset_def)

lemma vm_ready_fset [simp]:
  "vm_ready s \<Longrightarrow> f \<noteq> kmap_pt_phys s \<Longrightarrow> f \<noteq> cr3 s \<or> i < KMAP_PDE_BASE \<Longrightarrow> vm_ready (fset f i x s)"
  by (auto simp: vm_ready_def KMAP_PDE_BASE_def SELF_PDE_BASE_def)

lemma vm_ready_fzero [simp]:
  "vm_ready s \<Longrightarrow> f \<noteq> kmap_pt_phys s \<Longrightarrow> f \<noteq> cr3 s \<Longrightarrow> vm_ready (fzero f s)"
  by (auto simp: vm_ready_def)

lemma vm_ready_zones [simp]: "vm_ready (s\<lparr>zones := z\<rparr>) = vm_ready s"
  by (simp add: vm_ready_def)

lemma mmu_self:
  assumes "vm_ready s"
  shows "mmu s cur_pd_va = Some (cr3 s)"
    "i < 1024 \<Longrightarrow> mmu s (pt_va i) = (if present (frames s (cr3 s) i) then Some (frames s (cr3 s) i AND PAGE_MASK) else None)"
  using assms by (simp_all add: mmu_def pte_of_def cur_pd_va_def vm_ready_def aligned_entry(1) Let_def SELF_PDE_BASE_def)

lemma mmu_window:
  assumes "vm_ready s" "f AND PAGE_MASK = f"
  shows "mmu (win f s) KMAP_BASE = Some f"
  using assms
  by (simp add: mmu_def pte_of_def vm_ready_def aligned_entry(1) Let_def KMAP_PDE_BASE_def win_def)

lemma mmu_kmap_pt:
  assumes "vm_ready s"
  shows "mmu s kmap_pt_va = Some (kmap_pt_phys s)" "mmu (win f s) kmap_pt_va = Some (kmap_pt_phys s)"
  using assms
  by (simp_all add: mmu_def pte_of_def kmap_pt_va_def vm_ready_def aligned_entry(1) Let_def KMAP_PDE_BASE_def
      SELF_PDE_BASE_def win_def)

lemma self_access:
  assumes "vm_ready s"
  shows "vload cur_pd_va i s = Inr (frames s (cr3 s) i)" "vstore cur_pd_va i x s = Inr (fset (cr3 s) i x s)"
    "k < 1024 \<Longrightarrow> vload (pt_va k) i s =
       (if present (frames s (cr3 s) k) then Inr (frames s (frames s (cr3 s) k AND PAGE_MASK) i) else Inl Page_fault)"
    "k < 1024 \<Longrightarrow> vstore (pt_va k) i x s =
       (if present (frames s (cr3 s) k) then Inr (fset (frames s (cr3 s) k AND PAGE_MASK) i x s) else Inl Page_fault)"
    "k < 1024 \<Longrightarrow> vzero (pt_va k) s =
       (if present (frames s (cr3 s) k) then Inr (fzero (frames s (cr3 s) k AND PAGE_MASK) s) else Inl Page_fault)"
  by (simp_all add: vload_def vstore_def vzero_def mmu_self [OF assms])

lemma window_open:
  assumes "vm_ready s" "f AND PAGE_MASK = f"
  shows "kmap f s = Inr (win f s)" "kmap f (win g s) = Inr (win f s)" "kunmap (win f s) = Inr s"
proof -
  note m = mmu_kmap_pt [OF assms(1)] mmu_window [OF assms]
  have kp: "kmap_pt_phys s \<noteq> 0" using assms(1) by (simp add: vm_ready_def)
  show "kmap f s = Inr (win f s)" using assms(2) kp by (simp add: kmap_def vstore_def m win_def)
  have "fset (kmap_pt_phys s) 0 (f OR PAGE_FLAGS) (win g s) = win f s" by (simp add: win_def fset_def)
  then show "kmap f (win g s) = Inr (win f s)" using assms(2) kp by (simp add: kmap_def vstore_def m)
  have "fset (kmap_pt_phys s) 0 0 (win f s) = s"
  proof (rule vm.equality)
    show "frames (fset (kmap_pt_phys s) 0 0 (win f s)) = frames s"
      using assms(1) by (auto simp: win_def vm_ready_def fun_eq_iff)
  qed (simp_all add: fset_def win_def)
  then show "kunmap (win f s) = Inr s" by (simp add: kunmap_def vstore_def m)
qed

lemma window_access:
  assumes "vm_ready s" "f AND PAGE_MASK = f" "f \<noteq> kmap_pt_phys s"
  shows "kmap f s = Inr (win f s)" "kmap f (win g s) = Inr (win f s)"
    "vload KMAP_BASE i (win f s) = Inr (frames s f i)"
    "vstore KMAP_BASE i x (win f s) = Inr (win f (fset f i x s))"
    "vzero KMAP_BASE (win f s) = Inr (win f (fzero f s))"
    "kunmap (win f s) = Inr s"
proof -
  note m = mmu_window [OF assms(1,2)]
  show "kmap f s = Inr (win f s)" "kmap f (win g s) = Inr (win f s)" "kunmap (win f s) = Inr s"
    by (rule window_open [OF assms(1,2)])+
  show "vload KMAP_BASE i (win f s) = Inr (frames s f i)" by (simp add: vload_def m assms(3))
  have c: "fset f i x (win f s) = win f (fset f i x s)" "fzero f (win f s) = win f (fzero f s)"
    using assms(3) by (auto simp: win_def fset_def fzero_def fun_upd_twist)
  show "vstore KMAP_BASE i x (win f s) = Inr (win f (fset f i x s))" "vzero KMAP_BASE (win f s) = Inr (win f (fzero f s))"
    using c by (simp_all add: vstore_def vzero_def m)
qed

lemma kpeek_eq: "vm_ready s \<Longrightarrow> f AND PAGE_MASK = f \<Longrightarrow> f \<noteq> kmap_pt_phys s \<Longrightarrow> kpeek f i s = Inr (frames s f i, s)"
  by (simp add: kpeek_def window_access)

lemma alloc_frame_win:
  "alloc_frame (win f s) = (case alloc_frame s of Inl e \<Rightarrow> Inl e | Inr (p, s') \<Rightarrow> Inr (p, win f s'))"
  by (simp add: alloc_frame_def split: option.split)

lemma free_frame_win:
  "free_frame p (win f s) = (case free_frame p s of Inl e \<Rightarrow> Inl e | Inr s' \<Rightarrow> Inr (win f s'))"
  by (simp add: free_frame_def split: option.split)

lemma scan_empty_eq:
  "(\<And>k. vload va k s = Inr (g k)) \<Longrightarrow> scan_empty va i n s = Inr (\<forall>k. i \<le> k \<and> k < i + n \<longrightarrow> \<not> present (g k))"
proof (induction n arbitrary: i)
  case 0
  then show ?case by auto
next
  case (Suc n)
  have "(\<forall>k. i \<le> k \<and> k < i + Suc n \<longrightarrow> \<not> present (g k)) \<longleftrightarrow>
      \<not> present (g i) \<and> (\<forall>k. i + 1 \<le> k \<and> k < i + 1 + n \<longrightarrow> \<not> present (g k))" (is "?l \<longleftrightarrow> ?r")
  proof
    assume ?r
    show ?l
    proof (intro allI impI)
      fix k
      assume "i \<le> k \<and> k < i + Suc n"
      then show "\<not> present (g k)" using \<open>?r\<close> by (cases "k = i") auto
    qed
  qed auto
  then show ?case using Suc.prems Suc.IH [of "i + 1"] by simp
qed

subsection \<open>The invariant of the address spaces\<close>

definition zones_aligned :: "buddy_state \<Rightarrow> bool" where
  "zones_aligned zs \<longleftrightarrow> (\<forall>a b. {a..<b} \<in> zone_range ` set zs \<and> a < b \<longrightarrow> 4096 dvd a)"

definition user_pde :: "nat \<Rightarrow> bool" where "user_pde i \<longleftrightarrow> 1 \<le> i \<and> i < KERNEL_PDE_BASE"

definition tab :: "vm \<Rightarrow> u32 \<Rightarrow> nat \<Rightarrow> u32" where "tab s p i = frames s p i AND PAGE_MASK"

definition has_tab :: "vm \<Rightarrow> u32 \<Rightarrow> nat \<Rightarrow> bool" where "has_tab s p i \<longleftrightarrow> user_pde i \<and> present (frames s p i)"

text \<open>
  \<open>A\<close>: the page directories; \<open>F\<close>: the blocks the allocator has handed out. Each directory maps itself
  and the window, each user page table belongs to one directory and one entry, was handed out by the
  allocator, and is neither a directory nor the table of the window.
\<close>

definition vm_inv :: "u32 set \<Rightarrow> (nat \<times> nat) set \<Rightarrow> vm \<Rightarrow> bool" where
  "vm_inv A F s \<longleftrightarrow> vm_ready s \<and> cr3 s \<in> A \<and> kmap_pt_phys s \<notin> A \<and>
     (\<forall>p \<in> A. p AND PAGE_MASK = p \<and> frames s p SELF_PDE_BASE = p OR PAGE_FLAGS \<and> frames s p KMAP_PDE_BASE = kmap_pt_phys s OR PAGE_FLAGS) \<and>
     (\<forall>p \<in> A. \<forall>i. has_tab s p i \<longrightarrow> tab s p i \<notin> A \<and> tab s p i \<noteq> kmap_pt_phys s \<and> (unat (tab s p i), 0) \<in> F) \<and>
     (\<forall>p \<in> A. \<forall>q \<in> A. \<forall>i j. has_tab s p i \<and> has_tab s q j \<and> tab s p i = tab s q j \<longrightarrow> p = q \<and> i = j) \<and>
     (\<forall>f \<in> insert (kmap_pt_phys s) A. (unat f, 0) \<in> F \<or> (\<forall>z \<in> set (zones s). unat f \<notin> zone_range z)) \<and>
     zones_inv (zones s) F \<and> zones_aligned (zones s)"

lemma vm_invD:
  assumes "vm_inv A F s"
  shows "vm_ready s" "cr3 s \<in> A" "kmap_pt_phys s \<notin> A" "zones_inv (zones s) F" "zones_aligned (zones s)"
    "\<And>p. p \<in> A \<Longrightarrow> p AND PAGE_MASK = p" "\<And>p. p \<in> A \<Longrightarrow> frames s p SELF_PDE_BASE = p OR PAGE_FLAGS"
    "\<And>p. p \<in> A \<Longrightarrow> frames s p KMAP_PDE_BASE = kmap_pt_phys s OR PAGE_FLAGS"
    "\<And>p i. p \<in> A \<Longrightarrow> has_tab s p i \<Longrightarrow> tab s p i \<notin> A"
    "\<And>p i. p \<in> A \<Longrightarrow> has_tab s p i \<Longrightarrow> tab s p i \<noteq> kmap_pt_phys s"
    "\<And>p i. p \<in> A \<Longrightarrow> has_tab s p i \<Longrightarrow> (unat (tab s p i), 0) \<in> F"
    "\<And>p q i j. p \<in> A \<Longrightarrow> q \<in> A \<Longrightarrow> has_tab s p i \<Longrightarrow> has_tab s q j \<Longrightarrow> tab s p i = tab s q j \<Longrightarrow> p = q \<and> i = j"
    "\<And>f. f \<in> insert (kmap_pt_phys s) A \<Longrightarrow> (unat f, 0) \<in> F \<or> (\<forall>z \<in> set (zones s). unat f \<notin> zone_range z)"
  using assms unfolding vm_inv_def by blast+

lemma vm_invI:
  assumes "vm_ready s" "cr3 s \<in> A" "kmap_pt_phys s \<notin> A" "zones_inv (zones s) F" "zones_aligned (zones s)"
    "\<And>p. p \<in> A \<Longrightarrow> p AND PAGE_MASK = p \<and> frames s p SELF_PDE_BASE = p OR PAGE_FLAGS \<and>
       frames s p KMAP_PDE_BASE = kmap_pt_phys s OR PAGE_FLAGS"
    "\<And>p i. p \<in> A \<Longrightarrow> has_tab s p i \<Longrightarrow> tab s p i \<notin> A \<and> tab s p i \<noteq> kmap_pt_phys s \<and> (unat (tab s p i), 0) \<in> F"
    "\<And>p q i j. p \<in> A \<Longrightarrow> q \<in> A \<Longrightarrow> has_tab s p i \<Longrightarrow> has_tab s q j \<Longrightarrow> tab s p i = tab s q j \<Longrightarrow> p = q \<and> i = j"
    "\<And>f. f \<in> insert (kmap_pt_phys s) A \<Longrightarrow> (unat f, 0) \<in> F \<or> (\<forall>z \<in> set (zones s). unat f \<notin> zone_range z)"
  shows "vm_inv A F s"
  using assms unfolding vm_inv_def by blast

lemma notin_ranges:
  "zone_range ` set zs = zone_range ` set zs' \<Longrightarrow> (\<forall>z \<in> set zs. a \<notin> zone_range z) \<longleftrightarrow> (\<forall>z \<in> set zs'. a \<notin> zone_range z)"
proof -
  assume e: "zone_range ` set zs = zone_range ` set zs'"
  have "(\<forall>z \<in> set xs. a \<notin> zone_range z) \<longleftrightarrow> (\<forall>R \<in> zone_range ` set xs. a \<notin> R)" for xs by blast
  from this [of zs] this [of zs'] show ?thesis unfolding e by (rule trans [OF _ sym])
qed

text \<open>A frame that the allocator hands out is new to every table.\<close>

lemma zones_inv_offset:
  "zones_inv zs F \<Longrightarrow> (p, k) \<in> F \<Longrightarrow> \<exists>z \<in> set zs. p \<in> zone_range z \<and> 4096 dvd p - base_phys z"
proof (induction zs arbitrary: F)
  case Nil
  then show ?case by simp
next
  case (Cons z zs)
  then obtain A G where a: "zone_inv z A" "zones_inv zs G" "(p, k) \<in> frame_at z ` A \<union> G" by auto
  show ?case
  proof (cases "(p, k) \<in> G")
    case True
    then show ?thesis using Cons.IH [OF a(2)] by auto
  next
    case False
    then obtain i where i: "(i, k) \<in> A" "p = base_phys z + 4096 * i" using a(3) by (auto simp: frame_at_def)
    then show ?thesis using frame_in_range(2) [OF a(1) i(1)] by (auto simp: frame_at_def)
  qed
qed

lemma frame_address:
  assumes "zones_inv zs F" "zones_aligned zs" "(p, k) \<in> F"
  shows "0 < p" "p < 2 ^ 32" "unat (word_of_nat p :: u32) = p" "(word_of_nat p :: u32) AND PAGE_MASK = word_of_nat p"
proof -
  obtain z where z: "z \<in> set zs" "p \<in> zone_range z" "4096 dvd p - base_phys z" using zones_inv_offset [OF assms(1,3)] by blast
  have f: "zone_fits z" using zones_inv_fits [OF assms(1)] z(1) by blast
  show p: "0 < p" "p < 2 ^ 32" using f z(2) by (auto simp: zone_fits_def zone_range_def)
  have "{base_phys z..<base_phys z + 4096 * num_pages z} \<in> zone_range ` set zs"
    using z(1) by (auto simp: zone_range_def)
  moreover have "base_phys z < base_phys z + 4096 * num_pages z" using z(2) by (simp add: zone_range_def)
  ultimately have "4096 dvd base_phys z" using assms(2) unfolding zones_aligned_def by blast
  then have d: "4096 dvd p" using z(2,3) by (auto simp: zone_range_def dest: dvd_diffD)
  show u: "unat (word_of_nat p :: u32) = p" using p by (simp add: unat_of_nat)
  show "(word_of_nat p :: u32) AND PAGE_MASK = word_of_nat p"
    unfolding word_unat_eq_iff mask_nat u using d by simp
qed

lemma alloc_frame_fresh:
  assumes inv: "vm_inv A F s" and a: "alloc_pages (zones s) 0 = Some (zs, n)"
  defines "q \<equiv> word_of_nat n :: u32"
  shows "unat q = n" "q AND PAGE_MASK = q" "q \<noteq> 0" "(n, 0) \<notin> F" "q \<notin> A" "q \<noteq> kmap_pt_phys s"
    "\<And>p i. p \<in> A \<Longrightarrow> has_tab s p i \<Longrightarrow> tab s p i \<noteq> q" "zones_inv zs (insert (n, 0) F)" "zones_aligned zs"
    "zone_range ` set zs = zone_range ` set (zones s)"
proof -
  note D = vm_invD [OF inv]
  have z: "zones_inv zs (insert (n, 0) F)" "(n, 0) \<notin> F" "map zone_range zs = map zone_range (zones s)"
    using alloc_pages_inv [OF D(4) a] by auto
  from arg_cong [OF z(3), of set] show r: "zone_range ` set zs = zone_range ` set (zones s)" by simp
  show al: "zones_aligned zs" using D(5) unfolding zones_aligned_def r .
  have m: "(n, 0) \<in> insert (n, 0) F" by simp
  note P = frame_address [OF z(1) al m]
  show u: "unat q = n" "q AND PAGE_MASK = q" using P by (simp_all add: q_def)
  show "q \<noteq> 0" using P(1) u(1) by auto
  show "(n, 0) \<notin> F" "zones_inv zs (insert (n, 0) F)" using z by auto
  obtain y where y: "y \<in> set zs" "n \<in> zone_range y" using zones_inv_offset [OF z(1) m] by blast
  then obtain x where x: "x \<in> set (zones s)" "n \<in> zone_range x" using r by (metis image_iff)
  have "q \<notin> insert (kmap_pt_phys s) A" using D(13) [of q] x z(2) u(1) by auto
  then show "q \<notin> A" "q \<noteq> kmap_pt_phys s" by auto
  show "tab s p i \<noteq> q" if "p \<in> A" "has_tab s p i" for p i
    using D(11) [OF that] z(2) u(1) by auto
qed

text \<open>An entry written into a user page table changes nothing of the structure.\<close>

lemma vm_inv_fset_tab:
  assumes inv: "vm_inv A F s" and p: "p \<in> A" "has_tab s p i"
  shows "vm_inv A F (fset (tab s p i) j x s)"
proof -
  note D = vm_invD [OF inv]
  have t: "tab s p i \<notin> A" "tab s p i \<noteq> kmap_pt_phys s" "tab s p i \<noteq> cr3 s" using D(2) D(9,10) [OF p] by auto
  have f: "frames (fset (tab s p i) j x s) q = frames s q" if "q \<in> A" for q using that t by auto
  have h: "has_tab (fset (tab s p i) j x s) q k = has_tab s q k" "tab (fset (tab s p i) j x s) q k = tab s q k"
    if "q \<in> A" for q k using f [OF that] by (simp_all add: has_tab_def tab_def)
  show ?thesis
  proof (rule vm_invI)
    show "vm_ready (fset (tab s p i) j x s)" using D(1) t by simp
    show "(unat f, 0) \<in> F \<or> (\<forall>z \<in> set (zones (fset (tab s p i) j x s)). unat f \<notin> zone_range z)"
      if "f \<in> insert (kmap_pt_phys (fset (tab s p i) j x s)) A" for f using D(13) that by simp
    show "q = r \<and> k = l" if "q \<in> A" "r \<in> A" "has_tab (fset (tab s p i) j x s) q k" "has_tab (fset (tab s p i) j x s) r l"
      "tab (fset (tab s p i) j x s) q k = tab (fset (tab s p i) j x s) r l" for q r k l
      using D(12) [of q r k l] that h by metis
  qed (use D f h in \<open>auto simp: SELF_PDE_BASE_def\<close>)
qed

text \<open>A new, empty page table.\<close>

definition new_tab :: "u32 \<Rightarrow> nat \<Rightarrow> u32 \<Rightarrow> u32 \<Rightarrow> buddy_state \<Rightarrow> vm \<Rightarrow> vm" where
  "new_tab p i q fl zs s = fzero q (fset p i (q OR fl OR PAGE_PRESENT) (s\<lparr>zones := zs\<rparr>))"

lemma new_tab_simps [simp]:
  "cr3 (new_tab p i q fl zs s) = cr3 s" "kmap_pt_phys (new_tab p i q fl zs s) = kmap_pt_phys s"
  "zones (new_tab p i q fl zs s) = zs" "bytes (new_tab p i q fl zs s) = bytes s"
  "frames (new_tab p i q fl zs s) f = (if f = q then (\<lambda>k. 0) else if f = p then (frames s p)(i := q OR fl OR PAGE_PRESENT) else frames s f)"
  by (simp_all add: new_tab_def)

lemma vm_inv_new_tab:
  assumes inv: "vm_inv A F s" and a: "alloc_pages (zones s) 0 = Some (zs, n)" and p: "p \<in> A" "user_pde i"
    and np: "\<not> has_tab s p i" and q: "q = word_of_nat n" and fl: "(q OR fl OR PAGE_PRESENT) AND PAGE_MASK = q"
  shows "vm_inv A (insert (n, 0) F) (new_tab p i q fl zs s)"
    and "has_tab (new_tab p i q fl zs s) p i" and "tab (new_tab p i q fl zs s) p i = q"
proof -
  note D = vm_invD [OF inv]
  note Q = alloc_frame_fresh [OF inv a, folded q]
  let ?s = "new_tab p i q fl zs s"
  have i: "i < KMAP_PDE_BASE" "i \<noteq> SELF_PDE_BASE" "i \<noteq> KMAP_PDE_BASE"
    using p(2) by (auto simp: user_pde_def KERNEL_PDE_BASE_def KMAP_PDE_BASE_def SELF_PDE_BASE_def)
  have pq: "p \<noteq> q" using Q(5) p(1) by auto
  have f: "frames ?s r = (if r = p then (frames s p)(i := q OR fl OR PAGE_PRESENT) else frames s r)" if "r \<in> A" for r
    using that Q(5) by auto
  have t: "has_tab ?s r k = (if r = p \<and> k = i then True else has_tab s r k)"
    "tab ?s r k = (if r = p \<and> k = i then q else tab s r k)" if "r \<in> A" for r k
    using f [OF that] p(2) fl by (auto simp: has_tab_def tab_def)
  show "has_tab ?s p i" "tab ?s p i = q" using t p(1) by auto
  show "vm_inv A (insert (n, 0) F) ?s"
  proof (rule vm_invI)
    have "p \<noteq> kmap_pt_phys s" using D(3) p(1) by auto
    moreover have "cr3 s \<noteq> q" using D(2) Q(5) by auto
    ultimately show "vm_ready ?s" using D(1) Q(6) i unfolding new_tab_def by simp
    show "r = u \<and> k = l" if "r \<in> A" "u \<in> A" "has_tab ?s r k" "has_tab ?s u l" "tab ?s r k = tab ?s u l" for r u k l
    proof -
      have "tab s x m \<noteq> q" if "x \<in> A" "has_tab s x m" for x m using Q(7) that by blast
      note n = this [OF that(1), of k] this [OF that(2), of l]
      show ?thesis
        using that(3-5) D(12) [OF that(1,2), of k l] n
        unfolding t(1) [OF that(1)] t(1) [OF that(2)] t(2) [OF that(1)] t(2) [OF that(2)]
        by (auto split: if_splits)
    qed
    show "(unat g, 0) \<in> insert (n, 0) F \<or> (\<forall>z \<in> set (zones ?s). unat g \<notin> zone_range z)"
      if "g \<in> insert (kmap_pt_phys ?s) A" for g
      using D(13) [of g] that notin_ranges [OF Q(10), of "unat g"] by simp
    show "r AND PAGE_MASK = r \<and> frames ?s r SELF_PDE_BASE = r OR PAGE_FLAGS \<and>
        frames ?s r KMAP_PDE_BASE = kmap_pt_phys ?s OR PAGE_FLAGS" if "r \<in> A" for r
      using D(6-8) [OF that] i unfolding f [OF that] by auto
    show "tab ?s r k \<notin> A \<and> tab ?s r k \<noteq> kmap_pt_phys ?s \<and> (unat (tab ?s r k), 0) \<in> insert (n, 0) F"
      if "r \<in> A" "has_tab ?s r k" for r k
      using D(9-11) [OF that(1), of k] that(2) Q(1,5,6) unfolding t(1) [OF that(1)] t(2) [OF that(1)]
      by (simp split: if_splits)
  qed (use D(2,3) Q(8,9) in simp_all)
qed

subsection \<open>What the paths through the self map and the window come to\<close>

definition pde_flags_of :: "u32 \<Rightarrow> u32" where
  "pde_flags_of fl = (if fl AND PAGE_USER \<noteq> 0 then PAGE_FLAGS OR PAGE_USER else PAGE_FLAGS)"

lemma pde_flags_entry: "q AND PAGE_MASK = q \<Longrightarrow> (q OR pde_flags_of fl OR PAGE_PRESENT) AND PAGE_MASK = q"
  unfolding pde_flags_of_def using aligned_entry(3,4) [of q] by simp

definition page_entry :: "u32 \<Rightarrow> u32 \<Rightarrow> u32" where
  "page_entry pa fl = (pa AND PAGE_MASK) OR (fl AND 0xFFF) OR PAGE_PRESENT"

lemma page_entry_simps [simp]: "present (page_entry pa fl)" "page_entry pa fl AND PAGE_MASK = pa AND PAGE_MASK"
  unfolding page_entry_def by (rule present_entry) (rule aligned_entry, simp)

text \<open>The page table of the entry, created when it is missing.\<close>

definition map_result :: "u32 \<Rightarrow> u32 \<Rightarrow> u32 \<Rightarrow> u32 \<Rightarrow> bool \<Rightarrow> vm \<Rightarrow> vm_error + vm" where
  "map_result p va pa fl ow s =
     (let i = vmm_pdi va; j = vmm_pti va in
      if present (frames s p i) then
        (if present (frames s (tab s p i) j) \<and> \<not> ow then Inl Vm_panic else Inr (fset (tab s p i) j (page_entry pa fl) s))
      else (case alloc_pages (zones s) 0 of
          None \<Rightarrow> Inl Vm_panic
        | Some (zs, n) \<Rightarrow> let q = word_of_nat n in Inr (fset q j (page_entry pa fl) (new_tab p i q (pde_flags_of fl) zs s))))"

lemma map_page_eq:
  assumes inv: "vm_inv A F s" and p: "p \<in> A" and u: "user_pde (vmm_pdi va)"
  shows "map_page p va pa fl ow s = map_result p va pa fl ow s"
proof -
  note D = vm_invD [OF inv]
  let ?i = "vmm_pdi va" and ?j = "vmm_pti va"
  have i: "?i < KMAP_PDE_BASE" using u by (simp add: user_pde_def KERNEL_PDE_BASE_def KMAP_PDE_BASE_def)
  have m: "p AND PAGE_MASK = p" "cr3 s AND PAGE_MASK = cr3 s" using D(6) [OF p] D(6) [OF D(2)] by simp_all
  have pk: "p \<noteq> kmap_pt_phys s" "cr3 s \<noteq> kmap_pt_phys s" using D(2,3) p by auto
  show ?thesis
  proof (cases "present (frames s p ?i)")
    case True
    then have h: "has_tab s p ?i" using u by (simp add: has_tab_def)
    have t: "tab s p ?i \<noteq> kmap_pt_phys s" "tab s p ?i AND PAGE_MASK = tab s p ?i" using D(10) [OF p h] by (simp_all add: tab_def)
    have tc: "tab s p ?i \<noteq> cr3 s" using D(2) D(9) [OF p h] by metis
    show ?thesis
    proof (cases "cr3 s = p")
      case True
      then show ?thesis using \<open>present _\<close>
        by (simp add: map_page_def map_page_local_def map_result_def m self_access [OF D(1)] tab_def page_entry_def Let_def)
    next
      case False
      note w = window_access [OF D(1) m(1) pk(1)] window_access [OF D(1) t(2,1)]
      have "map_page p va pa fl ow s = map_page_foreign p (va AND PAGE_MASK) (pa AND PAGE_MASK) fl (pde_flags_of fl) ow s"
        using False by (simp add: map_page_def m pde_flags_of_def)
      also have "\<dots> = (if present (frames s (tab s p ?i) ?j) \<and> \<not> ow then Inl Vm_panic
          else vbind (Inr (win (tab s p ?i) (fset (tab s p ?i) ?j (page_entry pa fl) s))) kunmap)"
        using \<open>present _\<close> by (simp add: map_page_foreign_def w tab_def [symmetric] page_entry_def Let_def)
      finally have e: "map_page p va pa fl ow s = (if present (frames s (tab s p ?i) ?j) \<and> \<not> ow then Inl Vm_panic
          else kunmap (win (tab s p ?i) (fset (tab s p ?i) ?j (page_entry pa fl) s)))" by simp
      have "vm_ready (fset (tab s p ?i) ?j (page_entry pa fl) s)" using D(1) tc t(1) by simp
      then have "kunmap (win (tab s p ?i) (fset (tab s p ?i) ?j (page_entry pa fl) s)) = Inr (fset (tab s p ?i) ?j (page_entry pa fl) s)"
        by (rule window_access(6)) (simp_all add: t)
      with e show ?thesis using \<open>present _\<close> by (simp add: map_result_def Let_def)
    qed
  next
    case np: False
    show ?thesis
    proof (cases "alloc_pages (zones s) 0")
      case None
      then show ?thesis using np
        by (simp add: map_page_def map_page_local_def map_page_foreign_def map_result_def m self_access [OF D(1)]
            window_access [OF D(1) m(1) pk(1)] alloc_frame_def Let_def)
    next
      case (Some r)
      then obtain zs n where a: "alloc_pages (zones s) 0 = Some (zs, n)" by (cases r) auto
      define q :: u32 where "q = word_of_nat n"
      note Q = alloc_frame_fresh [OF inv a, folded q_def]
      have qp: "q \<noteq> p" "q \<noteq> cr3 s" using Q(5) p D(2) by auto
      let ?e = "q OR pde_flags_of fl OR PAGE_PRESENT" and ?s0 = "s\<lparr>zones := zs\<rparr>"
      have e: "?e AND PAGE_MASK = q" "present ?e" using pde_flags_entry [OF Q(2)] by simp_all
      have al: "alloc_frame s = Inr (q, ?s0)" by (simp add: alloc_frame_def a q_def)
      have r0: "vm_ready ?s0" using D(1) by simp
      show ?thesis
      proof (cases "cr3 s = p")
        case True
        have pf: "(if fl AND PAGE_USER \<noteq> 0 then PAGE_FLAGS OR PAGE_USER else PAGE_FLAGS) = pde_flags_of fl"
          by (simp add: pde_flags_of_def)
        have r1: "vm_ready (fset p ?i ?e ?s0)" using r0 i pk by simp
        have r2: "vm_ready (new_tab p ?i q (pde_flags_of fl) zs s)" unfolding new_tab_def using r1 Q(6) qp by simp
        have "map_page_local (va AND PAGE_MASK) (pa AND PAGE_MASK) fl (pde_flags_of fl) ow s =
            vbind (vbind (vstore cur_pd_va ?i ?e ?s0) (vzero (pt_va ?i)))
              (\<lambda>s. vbind (vload (pt_va ?i) ?j s) (\<lambda>old. if present old \<and> \<not> ow then Inl Vm_panic
                 else vstore (pt_va ?i) ?j (page_entry pa fl) s))"
          unfolding page_entry_def using np True by (simp add: map_page_local_def self_access(1) [OF D(1)] al Q(2,3) Let_def)
        also have "vstore cur_pd_va ?i ?e ?s0 = Inr (fset p ?i ?e ?s0)" using True by (simp add: self_access(2) [OF r0])
        also have "vbind (Inr (fset p ?i ?e ?s0)) (vzero (pt_va ?i)) = Inr (new_tab p ?i q (pde_flags_of fl) zs s)"
          using True by (simp add: self_access(5) [OF r1] e new_tab_def)
        finally show ?thesis using True np qp e
          by (simp add: map_page_def m pf map_result_def a q_def [symmetric] self_access(3,4) [OF r2] Let_def)
      next
        case False
        let ?s1 = "fset p ?i ?e ?s0" and ?s2 = "new_tab p ?i q (pde_flags_of fl) zs s"
        have r1: "vm_ready ?s1" using r0 i pk by simp
        have r2: "vm_ready ?s2" unfolding new_tab_def using r1 Q(6) qp by simp
        have r3: "vm_ready (fset q ?j (page_entry pa fl) ?s2)" using r2 Q(6) qp by simp
        have q1: "q \<noteq> kmap_pt_phys ?s0" "q \<noteq> kmap_pt_phys ?s1" "q \<noteq> kmap_pt_phys ?s2"
          "q \<noteq> kmap_pt_phys (fset q ?j (page_entry pa fl) ?s2)" "p \<noteq> kmap_pt_phys ?s0" "p \<noteq> kmap_pt_phys ?s1"
          using Q(6) pk by simp_all
        note w0 = window_access [OF D(1) m(1) pk(1)] window_access(4) [OF r0 m(1) q1(5)] window_access(6) [OF r1 m(1) q1(6)]
        note w1 = window_access(1,5) [OF r1 Q(2) q1(2)]
        have z: "fzero q ?s1 = ?s2" by (simp add: new_tab_def)
        note w2 = window_access(1,3,4,6) [OF r2 Q(2) q1(3)] window_access(6) [OF r3 Q(2) q1(4)]
        have "map_page p va pa fl ow s = map_page_foreign p (va AND PAGE_MASK) (pa AND PAGE_MASK) fl (pde_flags_of fl) ow s"
          using False by (simp add: map_page_def m pde_flags_of_def)
        also have "\<dots> = Inr (fset q ?j (page_entry pa fl) ?s2)"
          using np by (simp add: map_page_foreign_def w0 alloc_frame_win al Q(2,3) w1 z w2 e page_entry_def [symmetric] Let_def)
        finally show ?thesis using np by (simp add: map_result_def a q_def [symmetric] Let_def)
      qed
    qed
  qed
qed

definition no_entry :: "vm \<Rightarrow> u32 \<Rightarrow> bool" where
  "no_entry s f \<longleftrightarrow> (\<forall>k < 1024. \<not> present (frames s f k))"

definition unmap_result :: "u32 \<Rightarrow> u32 \<Rightarrow> bool \<Rightarrow> vm \<Rightarrow> vm_error + vm" where
  "unmap_result p va fr s =
     (let i = vmm_pdi va; j = vmm_pti va; t = tab s p i in
      if present (frames s p i) \<and> present (frames s t j) then
        vbind (if fr then free_frame (frames s t j AND PAGE_MASK) s else Inr s) (\<lambda>s.
        let s2 = fset t j 0 s in
        if no_entry s2 t then free_frame t (fset p i 0 s2) else Inr s2)
      else Inr s)"

lemma free_frame_cases:
  obtains e where "free_frame p s = Inl e" | z where "free_frame p s = Inr (s\<lparr>zones := z\<rparr>)"
  by (cases "free_pages (zones s) (unat p) 0") (auto simp: free_frame_def)

lemma unmap_page_eq:
  assumes inv: "vm_inv A F s" and p: "p \<in> A" and u: "user_pde (vmm_pdi va)"
  shows "unmap_page p va fr s = unmap_result p va fr s"
proof -
  note D = vm_invD [OF inv]
  let ?i = "vmm_pdi va" and ?j = "vmm_pti va"
  have i: "?i < KERNEL_PDE_BASE" "?i < KMAP_PDE_BASE" using u by (simp_all add: user_pde_def KERNEL_PDE_BASE_def KMAP_PDE_BASE_def)
  have m: "p AND PAGE_MASK = p" "cr3 s AND PAGE_MASK = cr3 s" using D(6) [OF p] D(6) [OF D(2)] by simp_all
  have pk: "p \<noteq> kmap_pt_phys s" "cr3 s \<noteq> kmap_pt_phys s" using D(2,3) p by auto
  show ?thesis
  proof (cases "present (frames s p ?i)")
    case False
    then show ?thesis
      by (simp add: unmap_page_def unmap_page_local_def unmap_page_foreign_def unmap_result_def m self_access [OF D(1)]
          kpeek_eq [OF D(1) m(1) pk(1)] Let_def)
  next
    case pde: True
    define t where "t = tab s p ?i"
    have h: "has_tab s p ?i" using u pde by (simp add: has_tab_def)
    have tt: "frames s p ?i AND PAGE_MASK = t" by (simp add: t_def tab_def)
    have t: "t \<noteq> kmap_pt_phys s" "t AND PAGE_MASK = t" "t \<noteq> cr3 s" "t \<noteq> p"
      using D(2) p D(9,10) [OF p h] by (auto simp: t_def) (simp add: tab_def)
    show ?thesis
    proof (cases "present (frames s t ?j)")
      case False
      then show ?thesis using pde
        by (simp add: unmap_page_def unmap_page_local_def unmap_page_foreign_def unmap_result_def m self_access [OF D(1)]
            kpeek_eq [OF D(1) m(1) pk(1)] window_access [OF D(1) t(2,1)] tt t_def [symmetric] Let_def)
    next
      case pte: True
      let ?g = "\<lambda>s. if fr then free_frame (frames s t ?j AND PAGE_MASK) s else Inr s"
      consider (fail) e where "?g s = Inl e" | (ok) z where "?g s = Inr (s\<lparr>zones := z\<rparr>)"
      proof (cases fr)
        case True
        then show ?thesis using that by (rule_tac free_frame_cases [of "frames s t ?j AND PAGE_MASK" s]) auto
      next
        case False
        then show ?thesis using that(2) [of "zones s"] by simp
      qed
      then show ?thesis
      proof cases
        case fail
        then have "fr" "free_frame (frames s t ?j AND PAGE_MASK) s = Inl e" by (auto split: if_splits)
        then show ?thesis using pde pte
          by (simp add: unmap_page_def unmap_page_local_def unmap_page_foreign_def unmap_result_def m self_access [OF D(1)]
              kpeek_eq [OF D(1) m(1) pk(1)] window_access [OF D(1) t(2,1)] free_frame_win tt t_def [symmetric] Let_def)
      next
        case ok
        let ?s1 = "s\<lparr>zones := z\<rparr>"
        let ?s2 = "fset t ?j 0 ?s1"
        let ?s3 = "fset p ?i 0 ?s2"
        have r1: "vm_ready ?s1" using D(1) by simp
        have r2: "vm_ready ?s2" using r1 t by simp
        have r3: "vm_ready ?s3" using r2 pk i by simp
        have k: "t \<noteq> kmap_pt_phys ?s1" "t \<noteq> kmap_pt_phys ?s2" "p \<noteq> kmap_pt_phys ?s2" "p \<noteq> kmap_pt_phys ?s3" using t pk by simp_all
        have R: "unmap_result p va fr s = (if no_entry ?s2 t then free_frame t ?s3 else Inr ?s2)"
          unfolding unmap_result_def Let_def t_def [symmetric] ok using pde pte by simp
        show ?thesis
        proof (cases "cr3 s = p")
          case True
          have t2: "present (frames ?s2 (cr3 ?s2) ?i)" "frames ?s2 (cr3 ?s2) ?i AND PAGE_MASK = t"
            using pde tt t True by auto
          have sc: "scan_empty (pt_va ?i) 0 PAGE_ENTRIES ?s2 = Inr (no_entry ?s2 t)"
            using scan_empty_eq [of "pt_va ?i" ?s2 "frames ?s2 t" 0 PAGE_ENTRIES] t2
            by (simp add: self_access(3) [OF r2] no_entry_def PAGE_ENTRIES_def)
          have "unmap_page p va fr s = vbind (scan_empty (pt_va ?i) 0 PAGE_ENTRIES ?s2) (\<lambda>empty.
              if empty then vbind (vload cur_pd_va ?i ?s2) (\<lambda>e. vbind (vstore cur_pd_va ?i 0 ?s2) (\<lambda>s. free_frame (e AND PAGE_MASK) s))
              else Inr ?s2)"
            using True pde pte ok i tt
            by (simp add: unmap_page_def unmap_page_local_def m self_access(1,3) [OF D(1)] self_access(4) [OF r1] Let_def
                cong: if_cong)
          also have "\<dots> = (if no_entry ?s2 t then free_frame t ?s3 else Inr ?s2)"
            unfolding sc using t2 True by (simp add: self_access(1,2) [OF r2])
          finally show ?thesis unfolding R .
        next
          case False
          note w = window_access [OF D(1) t(2,1)] window_access(4) [OF r1 t(2) k(1)]
          have sc: "scan_empty KMAP_BASE 0 PAGE_ENTRIES (win t ?s2) = Inr (no_entry ?s2 t)"
            using scan_empty_eq [of KMAP_BASE "win t ?s2" "frames ?s2 t" 0 PAGE_ENTRIES]
            by (simp add: window_access(3) [OF r2 t(2) k(2)] no_entry_def PAGE_ENTRIES_def)
          have g: "(if fr then free_frame (frames s t ?j AND PAGE_MASK) (win t s) else Inr (win t s)) = Inr (win t ?s1)"
            using ok by (auto simp: free_frame_win split: if_splits)
          have "unmap_page p va fr s = vbind (scan_empty KMAP_BASE 0 PAGE_ENTRIES (win t ?s2)) (\<lambda>empty.
              vbind (kunmap (win t ?s2)) (\<lambda>s.
              if empty then vbind (kmap p s) (\<lambda>s. vbind (vstore KMAP_BASE ?i 0 s) (\<lambda>s. vbind (kunmap s) (free_frame t))) else Inr s))"
            using False pde pte i
            by (simp add: unmap_page_def unmap_page_foreign_def m kpeek_eq [OF D(1) m(1) pk(1)] w tt g Let_def
                cong: if_cong)
          also have "\<dots> = (if no_entry ?s2 t then free_frame t ?s3 else Inr ?s2)"
            unfolding sc by (simp add: window_access(6) [OF r2 t(2) k(2)] window_access(1,4) [OF r2 m(1) k(3)]
                window_access(6) [OF r3 m(1) k(4)])
          finally show ?thesis unfolding R .
        qed
      qed
    qed
  qed
qed

lemma get_mapping_eq:
  assumes inv: "vm_inv A F s" and p: "p \<in> A" and u: "user_pde (vmm_pdi va)"
  shows "get_mapping p va s = Inr (case pte_of s p va of None \<Rightarrow> 0 | Some pte \<Rightarrow> pte AND PAGE_MASK, s)"
proof -
  note D = vm_invD [OF inv]
  have m: "p AND PAGE_MASK = p" "cr3 s AND PAGE_MASK = cr3 s" using D(6) [OF p] D(6) [OF D(2)] by simp_all
  have pk: "p \<noteq> kmap_pt_phys s" using D(3) p by auto
  show ?thesis
  proof (cases "present (frames s p (vmm_pdi va))")
    case False
    then show ?thesis
      by (simp add: get_mapping_def pte_of_def m self_access [OF D(1)] kpeek_eq [OF D(1) m(1) pk] Let_def)
  next
    case True
    then have h: "has_tab s p (vmm_pdi va)" using u by (simp add: has_tab_def)
    have "frames s p (vmm_pdi va) AND PAGE_MASK \<noteq> kmap_pt_phys s" using D(10) [OF p h] by (simp add: tab_def)
    note k = kpeek_eq [OF D(1) _ this]
    show ?thesis using True
      by (simp add: get_mapping_def pte_of_def m self_access [OF D(1)] kpeek_eq [OF D(1) m(1) pk] k Let_def)
  qed
qed

subsection \<open>The page map that the tables stand for\<close>

lemma user_range: "USER_SPACE_START \<le> va \<and> va \<le> USER_SPACE_END \<longleftrightarrow> user_pde (vmm_pdi va)"
  by (auto simp: user_pde_def vmm_pdi_nat KERNEL_PDE_BASE_def USER_SPACE_START_def USER_SPACE_END_def word_le_nat_alt)

lemma pte_of_tab:
  "pte_of s p v = (if present (frames s p (vmm_pdi v)) then
     (if present (frames s (tab s p (vmm_pdi v)) (vmm_pti v)) then Some (frames s (tab s p (vmm_pdi v)) (vmm_pti v)) else None) else None)"
  by (simp add: pte_of_def tab_def Let_def)

text \<open>An entry of a page table shows at one page of one address space.\<close>

lemma pte_of_fset_tab:
  assumes inv: "vm_inv A F s" and p: "p \<in> A" "has_tab s p (vmm_pdi va)" and q: "q \<in> A" "user_pde (vmm_pdi v)"
  shows "pte_of (fset (tab s p (vmm_pdi va)) (vmm_pti va) x s) q v =
    (if q = p \<and> v AND PAGE_MASK = va AND PAGE_MASK then (if present x then Some x else None) else pte_of s q v)"
proof -
  note D = vm_invD [OF inv]
  let ?t = "tab s p (vmm_pdi va)"
  have t: "?t \<noteq> q" using D(9) [OF p] q(1) by auto
  show ?thesis
  proof (cases "present (frames s q (vmm_pdi v))")
    case False
    then have "\<not> (q = p \<and> v AND PAGE_MASK = va AND PAGE_MASK)" using p(2) by (auto simp: has_tab_def same_page_iff)
    then show ?thesis using False t by (simp add: pte_of_tab)
  next
    case True
    then have h: "has_tab s q (vmm_pdi v)" using q(2) by (simp add: has_tab_def)
    have "tab s q (vmm_pdi v) = ?t \<longleftrightarrow> q = p \<and> vmm_pdi v = vmm_pdi va" using D(12) [OF q(1) p(1) h p(2)] by auto
    then show ?thesis using True t by (auto simp: pte_of_tab same_page_iff tab_def)
  qed
qed

lemma pte_of_new_tab:
  assumes inv: "vm_inv A F s" and a: "alloc_pages (zones s) 0 = Some (zs, n)" and p: "p \<in> A" "user_pde i"
    and np: "\<not> present (frames s p i)" and t: "q = word_of_nat n" "(q OR fl OR PAGE_PRESENT) AND PAGE_MASK = q"
    and r: "r \<in> A" "user_pde (vmm_pdi v)"
  shows "pte_of (new_tab p i q fl zs s) r v = pte_of s r v"
proof -
  note Q = alloc_frame_fresh [OF inv a, folded t(1)]
  have rq: "r \<noteq> q" using Q(5) r(1) by auto
  show ?thesis
  proof (cases "r = p \<and> vmm_pdi v = i")
    case True
    then show ?thesis using np rq t by (simp add: pte_of_tab tab_def)
  next
    case False
    then have f: "frames (new_tab p i q fl zs s) r (vmm_pdi v) = frames s r (vmm_pdi v)" using rq by auto
    show ?thesis
    proof (cases "present (frames s r (vmm_pdi v))")
      case True
      then have h: "has_tab s r (vmm_pdi v)" using r(2) by (simp add: has_tab_def)
      have "tab s r (vmm_pdi v) \<noteq> q" "tab s r (vmm_pdi v) \<noteq> p" using Q(7) [OF r(1) h] vm_invD(9) [OF inv r(1) h] p(1) by auto
      then show ?thesis using f True by (simp add: pte_of_tab tab_def)
    qed (use f in \<open>simp add: pte_of_tab\<close>)
  qed
qed

text \<open>
  C14. Mapping a page of user space, through the self map or the window, whichever address space is
  current: it never touches an address that is not mapped; it panics exactly when the page is mapped
  and may not be overwritten, or when a page table is needed and no frame is left; otherwise this page
  of this address space, and no other page of any address space, maps to the given frame with the given
  flags, and the page tables stay disjoint and owned.
\<close>

theorem map_page_spec:
  assumes inv: "vm_inv A F s" and p: "p \<in> A" and u: "USER_SPACE_START \<le> va \<and> va \<le> USER_SPACE_END"
  shows "case map_page p va pa fl ow s of
      Inl e \<Rightarrow> e = Vm_panic \<and> (pte_of s p va \<noteq> None \<and> \<not> ow \<or> \<not> present (frames s p (vmm_pdi va)) \<and> alloc_pages (zones s) 0 = None)
    | Inr s' \<Rightarrow> (pte_of s p va = None \<or> ow) \<and> (\<exists>F'. F \<subseteq> F' \<and> vm_inv A F' s') \<and> bytes s' = bytes s \<and>
        (\<forall>q \<in> A. \<forall>v. USER_SPACE_START \<le> v \<and> v \<le> USER_SPACE_END \<longrightarrow>
           pte_of s' q v = (if q = p \<and> v AND PAGE_MASK = va AND PAGE_MASK then Some (page_entry pa fl) else pte_of s q v))"
proof -
  have u': "user_pde (vmm_pdi va)" using u user_range by blast
  note e = map_page_eq [OF inv p u', of pa fl ow]
  show ?thesis
  proof (cases "present (frames s p (vmm_pdi va))")
    case True
    then have h: "has_tab s p (vmm_pdi va)" using u' by (simp add: has_tab_def)
    let ?t = "tab s p (vmm_pdi va)"
    show ?thesis
    proof (cases "present (frames s ?t (vmm_pti va)) \<and> \<not> ow")
      case True
      then show ?thesis using \<open>present _\<close> e by (simp add: map_result_def pte_of_tab Let_def)
    next
      case False
      then have r: "map_page p va pa fl ow s = Inr (fset ?t (vmm_pti va) (page_entry pa fl) s)"
        using True e by (simp add: map_result_def Let_def)
      have "pte_of s p va = None \<or> ow" using False by (auto simp: pte_of_tab)
      moreover have "vm_inv A F (fset ?t (vmm_pti va) (page_entry pa fl) s)" by (rule vm_inv_fset_tab [OF inv p h])
      ultimately show ?thesis unfolding r using pte_of_fset_tab [OF inv p h] user_range by auto
    qed
  next
    case False
    then have nh: "\<not> has_tab s p (vmm_pdi va)" "pte_of s p va = None" by (simp_all add: has_tab_def pte_of_tab)
    show ?thesis
    proof (cases "alloc_pages (zones s) 0")
      case None
      then show ?thesis using False e by (simp add: map_result_def Let_def)
    next
      case (Some r)
      then obtain zs n where a: "alloc_pages (zones s) 0 = Some (zs, n)" by (cases r) auto
      let ?q = "word_of_nat n :: u32"
      let ?s1 = "new_tab p (vmm_pdi va) ?q (pde_flags_of fl) zs s"
      note Q = alloc_frame_fresh [OF inv a]
      note fl = pde_flags_entry [OF Q(2), of fl]
      note I = vm_inv_new_tab [OF inv a p u' nh(1) refl fl]
      have r: "map_page p va pa fl ow s = Inr (fset (tab ?s1 p (vmm_pdi va)) (vmm_pti va) (page_entry pa fl) ?s1)"
        unfolding I(3) using False e a by (simp add: map_result_def Let_def)
      note J = vm_inv_fset_tab [OF I(1) p I(2), of "vmm_pti va" "page_entry pa fl"]
      have v: "pte_of (fset (tab ?s1 p (vmm_pdi va)) (vmm_pti va) (page_entry pa fl) ?s1) q v =
          (if q = p \<and> v AND PAGE_MASK = va AND PAGE_MASK then Some (page_entry pa fl) else pte_of s q v)"
        if "q \<in> A" "USER_SPACE_START \<le> v \<and> v \<le> USER_SPACE_END" for q v
      proof -
        have uv: "user_pde (vmm_pdi v)" using that(2) user_range by blast
        show ?thesis
          using pte_of_fset_tab [OF I(1) p I(2) that(1) uv] pte_of_new_tab [OF inv a p u' False refl fl that(1) uv] by simp
      qed
      show ?thesis unfolding r using nh(2) J v by auto
    qed
  qed
qed

text \<open>A machine after boot: one directory, the window, six free frames.\<close>

definition sample_vm :: vm where
  "sample_vm = \<lparr>frames = (\<lambda>f. if f = 0x1000 then (\<lambda>i. if i = 1023 then 0x1003 else if i = 1022 then 0x2003 else 0) else (\<lambda>i. 0)),
     bytes = (\<lambda>a. 0), cr3 = 0x1000, kmap_pt_phys = 0x2000, zones = [sample_zone]\<rparr>"

lemma sample_vm_inv: "vm_inv {0x1000} {} sample_vm"
proof -
  have b: "base_phys sample_zone = 0x200000" by (simp add: sample_zone_def zone_build_ok(3))
  have r: "zone_range sample_zone = {0x200000..<0x206000}" by (simp add: zone_range_def b sample_zone_inv(2))
  have al: "zones_aligned [sample_zone]" unfolding zones_aligned_def
  proof (intro allI impI)
    fix a c assume "{a..<c} \<in> zone_range ` set [sample_zone] \<and> a < c"
    then have "a = 0x200000" by (auto simp: r atLeastLessThan_eq_iff)
    then show "4096 dvd a" by simp
  qed
  have rd: "vm_ready sample_vm"
    by (simp add: vm_ready_def sample_vm_def PAGE_MASK_def PAGE_FLAGS_def SELF_PDE_BASE_def KMAP_PDE_BASE_def)
  have nt: "\<not> has_tab sample_vm 0x1000 i" for i
    by (auto simp: has_tab_def sample_vm_def user_pde_def KERNEL_PDE_BASE_def)
  show ?thesis
    by (rule vm_invI) (use rd al nt sample_zone_inv(1) in \<open>auto simp: sample_vm_def r PAGE_MASK_def PAGE_FLAGS_def
        SELF_PDE_BASE_def KMAP_PDE_BASE_def\<close>)
qed

lemma map_page_spec_witness:
  "case map_page 0x1000 0x00400000 0x00201000 7 False sample_vm of
     Inl e \<Rightarrow> e = Vm_panic | Inr s' \<Rightarrow> pte_of s' 0x1000 0x00400000 = Some (page_entry 0x00201000 7)"
proof -
  have u: "USER_SPACE_START \<le> (0x00400000 :: u32) \<and> 0x00400000 \<le> USER_SPACE_END"
    by (simp add: USER_SPACE_START_def USER_SPACE_END_def)
  show ?thesis
    using map_page_spec [OF sample_vm_inv _ u, where p = "0x1000" and pa = "0x00201000" and fl = 7 and ow = False] u by (auto split: sum.splits)
qed

subsection \<open>Unmapping\<close>

lemma vm_inv_free:
  assumes inv: "vm_inv A F s" and f: "(unat f, 0) \<in> F" "f \<notin> A" "f \<noteq> kmap_pt_phys s"
    "\<And>q i. q \<in> A \<Longrightarrow> has_tab s q i \<Longrightarrow> tab s q i \<noteq> f"
  obtains z where "free_frame f s = Inr (s\<lparr>zones := z\<rparr>)" "vm_inv A (F - {(unat f, 0)}) (s\<lparr>zones := z\<rparr>)"
proof -
  note D = vm_invD [OF inv]
  obtain z where z: "free_pages (zones s) (unat f) 0 = Some z" "zones_inv z (F - {(unat f, 0)})"
    "map zone_range z = map zone_range (zones s)" using free_pages_inv [OF D(4) f(1)] by blast
  from arg_cong [OF z(3), of set] have r: "zone_range ` set z = zone_range ` set (zones s)" by simp
  let ?s = "s\<lparr>zones := z\<rparr>"
  have h: "has_tab ?s q i = has_tab s q i" "tab ?s q i = tab s q i" for q i by (simp_all add: has_tab_def tab_def)
  have "vm_inv A (F - {(unat f, 0)}) ?s"
  proof (rule vm_invI)
    show "vm_ready ?s" using D(1) by simp
    show "zones_aligned (zones ?s)" using D(5) unfolding zones_aligned_def by (simp add: r)
    show "tab ?s p i \<notin> A \<and> tab ?s p i \<noteq> kmap_pt_phys ?s \<and> (unat (tab ?s p i), 0) \<in> F - {(unat f, 0)}"
      if "p \<in> A" "has_tab ?s p i" for p i
      using D(9-11) [OF that(1), of i] f(4) [OF that(1), of i] that(2) unfolding h by (simp add: word_unat_eq_iff)
    show "p = q \<and> i = j" if "p \<in> A" "q \<in> A" "has_tab ?s p i" "has_tab ?s q j" "tab ?s p i = tab ?s q j" for p q i j
      using D(12) that unfolding h by blast
    show "(unat g, 0) \<in> F - {(unat f, 0)} \<or> (\<forall>x \<in> set (zones ?s). unat g \<notin> zone_range x)"
      if "g \<in> insert (kmap_pt_phys ?s) A" for g
    proof -
      have "g \<noteq> f" using that f(2,3) by auto
      then have "unat g \<noteq> unat f" by (simp add: word_unat_eq_iff)
      then show ?thesis using D(13) [of g] that notin_ranges [OF r, of "unat g"] by simp
    qed
  qed (use D(2,3,6-8) z(2) in simp_all)
  moreover have "free_frame f s = Inr ?s" by (simp add: free_frame_def z)
  ultimately show thesis using that by blast
qed

lemma vm_inv_drop_tab:
  assumes inv: "vm_inv A F s" and p: "p \<in> A" "user_pde i"
  shows "vm_inv A F (fset p i 0 s)"
    and "has_tab (fset p i 0 s) q j \<longleftrightarrow> has_tab s q j \<and> \<not> (q = p \<and> j = i)"
    and "has_tab (fset p i 0 s) q j \<Longrightarrow> tab (fset p i 0 s) q j = tab s q j"
proof -
  note D = vm_invD [OF inv]
  have i: "i < KMAP_PDE_BASE" "i \<noteq> SELF_PDE_BASE" "i \<noteq> KMAP_PDE_BASE"
    using p(2) by (auto simp: user_pde_def KERNEL_PDE_BASE_def KMAP_PDE_BASE_def SELF_PDE_BASE_def)
  have pk: "p \<noteq> kmap_pt_phys s" using D(3) p(1) by auto
  show h: "has_tab (fset p i 0 s) q j \<longleftrightarrow> has_tab s q j \<and> \<not> (q = p \<and> j = i)" for q j
    by (auto simp: has_tab_def)
  show t: "tab (fset p i 0 s) q j = tab s q j" if "has_tab (fset p i 0 s) q j" for q j
    using that by (auto simp: has_tab_def tab_def split: if_splits)
  show "vm_inv A F (fset p i 0 s)"
  proof (rule vm_invI)
    show "vm_ready (fset p i 0 s)" using D(1) pk i by simp
    show "tab (fset p i 0 s) r k \<notin> A \<and> tab (fset p i 0 s) r k \<noteq> kmap_pt_phys (fset p i 0 s) \<and> (unat (tab (fset p i 0 s) r k), 0) \<in> F"
      if "r \<in> A" "has_tab (fset p i 0 s) r k" for r k
      using D(9-11) [OF that(1), of k] that(2) t [OF that(2)] h [of r k] by simp
    show "r = q \<and> k = l" if "r \<in> A" "q \<in> A" "has_tab (fset p i 0 s) r k" "has_tab (fset p i 0 s) q l"
      "tab (fset p i 0 s) r k = tab (fset p i 0 s) q l" for r q k l
      using D(12) [OF that(1,2), of k l] that(3-5) t [OF that(3)] t [OF that(4)] h [of r k] h [of q l] by simp
    show "r AND PAGE_MASK = r \<and> frames (fset p i 0 s) r SELF_PDE_BASE = r OR PAGE_FLAGS \<and>
        frames (fset p i 0 s) r KMAP_PDE_BASE = kmap_pt_phys (fset p i 0 s) OR PAGE_FLAGS" if "r \<in> A" for r
      using D(6-8) [OF that] i by auto
    show "(unat f, 0) \<in> F \<or> (\<forall>z \<in> set (zones (fset p i 0 s)). unat f \<notin> zone_range z)"
      if "f \<in> insert (kmap_pt_phys (fset p i 0 s)) A" for f using D(13) [of f] that by simp
  qed (use D(2-5) in simp_all)
qed

lemma pte_of_drop_tab:
  assumes "p \<in> A" "vm_inv A F s" "user_pde (vmm_pdi va)" "no_entry s (tab s p (vmm_pdi va))" "q \<in> A" "user_pde (vmm_pdi v)"
  shows "pte_of (fset p (vmm_pdi va) 0 s) q v = pte_of s q v"
proof -
  have "tab s q (vmm_pdi v) \<noteq> p" if "has_tab s q (vmm_pdi v)" using vm_invD(9) [OF assms(2,5) that] assms(1) by auto
  then show ?thesis using assms(3,4,6)
    by (auto simp: pte_of_tab tab_def has_tab_def no_entry_def)
qed

text \<open>A frame that may be returned: handed out, and not one that the tables use.\<close>

definition data_frame :: "u32 set \<Rightarrow> (nat \<times> nat) set \<Rightarrow> vm \<Rightarrow> u32 \<Rightarrow> bool" where
  "data_frame A F s f \<longleftrightarrow> (unat f, 0) \<in> F \<and> f \<notin> A \<and> f \<noteq> kmap_pt_phys s \<and>
     (\<forall>q \<in> A. \<forall>i. has_tab s q i \<longrightarrow> tab s q i \<noteq> f)"

lemma pte_of_zones [simp]: "pte_of (s\<lparr>zones := z\<rparr>) q v = pte_of s q v"
  by (simp add: pte_of_def Let_def)

lemma vm_bytes_zones [simp]: "bytes (s\<lparr>zones := z\<rparr>) = bytes s" "frames (s\<lparr>zones := z\<rparr>) = frames s" for s :: vm
  by simp_all

lemma unmap_tail:
  assumes inv: "vm_inv A F s" and p: "p \<in> A" "has_tab s p (vmm_pdi va)"
  defines "t \<equiv> tab s p (vmm_pdi va)"
  shows "\<exists>s'. (let s2 = fset t (vmm_pti va) 0 s in if no_entry s2 t then free_frame t (fset p (vmm_pdi va) 0 s2) else Inr s2) = Inr s' \<and>
    vm_inv A (if \<forall>k < 1024. k \<noteq> vmm_pti va \<longrightarrow> \<not> present (frames s t k) then F - {(unat t, 0)} else F) s' \<and>
    bytes s' = bytes s \<and> (\<forall>q \<in> A. \<forall>v. user_pde (vmm_pdi v) \<longrightarrow>
      pte_of s' q v = (if q = p \<and> v AND PAGE_MASK = va AND PAGE_MASK then None else pte_of s q v))"
proof -
  let ?s2 = "fset t (vmm_pti va) 0 s"
  have u: "user_pde (vmm_pdi va)" using p(2) by (simp add: has_tab_def)
  note I2 = vm_inv_fset_tab [OF inv p, of "vmm_pti va" 0, folded t_def]
  note V2 = pte_of_fset_tab [OF inv p, of _ _ 0, folded t_def]
  have ne: "no_entry ?s2 t \<longleftrightarrow> (\<forall>k < 1024. k \<noteq> vmm_pti va \<longrightarrow> \<not> present (frames s t k))"
    by (auto simp: no_entry_def)
  have tA: "t \<notin> A" "t \<noteq> kmap_pt_phys s" "(unat t, 0) \<in> F" using vm_invD(9-11) [OF inv p] by (simp_all add: t_def)
  have h2: "has_tab ?s2 q k = has_tab s q k" "tab ?s2 q k = tab s q k" if "q \<in> A" for q k
    using that tA(1) by (auto simp: has_tab_def tab_def)
  show ?thesis
  proof (cases "no_entry ?s2 t")
    case False
    then show ?thesis using I2 V2 ne by (auto simp: Let_def)
  next
    case True
    note K = vm_inv_drop_tab [OF I2 p(1) u]
    let ?s3 = "fset p (vmm_pdi va) 0 ?s2"
    have nt: "tab ?s3 q k \<noteq> t" if "q \<in> A" "has_tab ?s3 q k" for q k
      using K(2) [of q k] K(3) [OF that(2)] h2 [OF that(1)] that vm_invD(12) [OF inv that(1) p(1) _ p(2)]
      by (auto simp: t_def)
    obtain z where z: "free_frame t ?s3 = Inr (?s3\<lparr>zones := z\<rparr>)" "vm_inv A (F - {(unat t, 0)}) (?s3\<lparr>zones := z\<rparr>)"
      by (rule vm_inv_free [OF K(1) tA(3,1) _ nt]) (use tA(2) in auto)
    have "no_entry ?s2 (tab ?s2 p (vmm_pdi va))" using True h2(2) [OF p(1)] by (simp add: t_def)
    note V3 = pte_of_drop_tab [OF p(1) I2 u this]
    then show ?thesis using True z V2 V3 ne by (auto simp: Let_def)
  qed
qed

text \<open>
  C15. Unmapping a page of user space always succeeds: the page, and no other page of any address space,
  is unmapped; the frame goes back to the allocator when the caller asks for it, the page table goes
  back exactly when this was its last page, and nothing else is freed. An unmapped page is left alone.
\<close>

theorem unmap_page_spec:
  assumes inv: "vm_inv A F s" and p: "p \<in> A" and u: "USER_SPACE_START \<le> va \<and> va \<le> USER_SPACE_END"
    and fr_ok: "\<And>pte. fr \<Longrightarrow> pte_of s p va = Some pte \<Longrightarrow> data_frame A F s (pte AND PAGE_MASK)"
  shows "\<exists>s'. unmap_page p va fr s = Inr s' \<and> bytes s' = bytes s \<and>
    (case pte_of s p va of
       None \<Rightarrow> s' = s
     | Some pte \<Rightarrow> vm_inv A (F - (if fr then {(unat (pte AND PAGE_MASK), 0)} else {}) -
         (if \<forall>k < 1024. k \<noteq> vmm_pti va \<longrightarrow> \<not> present (frames s (tab s p (vmm_pdi va)) k)
          then {(unat (tab s p (vmm_pdi va)), 0)} else {})) s') \<and>
    (\<forall>q \<in> A. \<forall>v. USER_SPACE_START \<le> v \<and> v \<le> USER_SPACE_END \<longrightarrow>
       pte_of s' q v = (if q = p \<and> v AND PAGE_MASK = va AND PAGE_MASK then None else pte_of s q v))"
proof -
  have u': "user_pde (vmm_pdi va)" using u user_range by blast
  note e = unmap_page_eq [OF inv p u', of fr]
  let ?t = "tab s p (vmm_pdi va)"
  show ?thesis
  proof (cases "pte_of s p va")
    case None
    then have "unmap_page p va fr s = Inr s" using e by (auto simp: unmap_result_def pte_of_tab Let_def split: if_splits)
    moreover have "pte_of s q v = None" if "q = p" "v AND PAGE_MASK = va AND PAGE_MASK" for q v
      using None that by (auto simp: pte_of_tab same_page_iff split: if_splits)
    ultimately show ?thesis using None by auto
  next
    case (Some pte)
    then have h: "has_tab s p (vmm_pdi va)" "present pte" "frames s ?t (vmm_pti va) = pte"
      using u' by (auto simp: has_tab_def pte_of_tab split: if_splits)
    have pr: "present (frames s p (vmm_pdi va))" using h(1) by (simp add: has_tab_def)
    obtain z where z: "(if fr then free_frame (pte AND PAGE_MASK) s else Inr s) = Inr (s\<lparr>zones := z\<rparr>)"
      "vm_inv A (F - (if fr then {(unat (pte AND PAGE_MASK), 0)} else {})) (s\<lparr>zones := z\<rparr>)"
    proof (cases fr)
      case True
      have d: "(unat (pte AND PAGE_MASK), 0) \<in> F" "pte AND PAGE_MASK \<notin> A" "pte AND PAGE_MASK \<noteq> kmap_pt_phys s"
        "\<And>q i. q \<in> A \<Longrightarrow> has_tab s q i \<Longrightarrow> tab s q i \<noteq> pte AND PAGE_MASK"
        using fr_ok [OF True Some] unfolding data_frame_def by blast+
      show thesis by (rule vm_inv_free [OF inv d]) (use that True in simp_all)
    next
      case False
      then show thesis using that [of "zones s"] inv by simp
    qed
    let ?s1 = "s\<lparr>zones := z\<rparr>"
    have t1: "tab ?s1 q k = tab s q k" "has_tab ?s1 q k = has_tab s q k" "pte_of ?s1 q v = pte_of s q v" for q k v
      by (simp_all add: tab_def has_tab_def)
    have "unmap_page p va fr s =
        (let s2 = fset ?t (vmm_pti va) 0 ?s1 in if no_entry s2 ?t then free_frame ?t (fset p (vmm_pdi va) 0 s2) else Inr s2)"
      unfolding e unmap_result_def Let_def h(3) z(1) using pr h(2) by simp
    note e1 = this
    have h1: "has_tab ?s1 p (vmm_pdi va)" using h(1) by (simp add: t1)
    let ?F = "F - (if fr then {(unat (pte AND PAGE_MASK), 0)} else {})"
    from unmap_tail [OF z(2) p h1, unfolded t1(1)] obtain s' where s':
      "(let s2 = fset ?t (vmm_pti va) 0 ?s1 in if no_entry s2 ?t then free_frame ?t (fset p (vmm_pdi va) 0 s2) else Inr s2) = Inr s'"
      "vm_inv A (if \<forall>k < 1024. k \<noteq> vmm_pti va \<longrightarrow> \<not> present (frames ?s1 ?t k) then ?F - {(unat ?t, 0)} else ?F) s'"
      "bytes s' = bytes ?s1" "\<forall>q \<in> A. \<forall>v. user_pde (vmm_pdi v) \<longrightarrow>
        pte_of s' q v = (if q = p \<and> v AND PAGE_MASK = va AND PAGE_MASK then None else pte_of ?s1 q v)"
      by blast
    have f1: "frames ?s1 = frames s" by simp
    let ?C = "\<forall>k < 1024. k \<noteq> vmm_pti va \<longrightarrow> \<not> present (frames s ?t k)"
    have fe: "?F - (if ?C then {(unat ?t, 0)} else {}) = (if ?C then ?F - {(unat ?t, 0)} else ?F)"
      by (cases ?C) (simp_all only: if_P if_not_P Diff_empty if_True if_False)
    have iv: "vm_inv A (?F - (if ?C then {(unat ?t, 0)} else {})) s'" unfolding fe using s'(2) unfolding f1 .
    have bt: "bytes s' = bytes s" using s'(3) by simp
    have vw: "pte_of s' q v = (if q = p \<and> v AND PAGE_MASK = va AND PAGE_MASK then None else pte_of s q v)"
      if "q \<in> A" "USER_SPACE_START \<le> v \<and> v \<le> USER_SPACE_END" for q v
      using s'(4) that user_range by simp
    show ?thesis unfolding Some e1 s'(1) option.case
      by (rule exI [of _ s'], intro conjI refl ballI allI impI, rule bt, rule iv, rule vw)
  qed
qed

lemma unmap_page_spec_witness:
  "\<exists>s'. unmap_page 0x1000 0x00400000 True sample_vm = Inr s' \<and> bytes s' = bytes sample_vm"
proof -
  have u: "USER_SPACE_START \<le> (0x00400000 :: u32) \<and> 0x00400000 \<le> USER_SPACE_END"
    by (simp add: USER_SPACE_START_def USER_SPACE_END_def)
  have "pte_of sample_vm 0x1000 0x00400000 = None"
    by (simp add: pte_of_def sample_vm_def vmm_pdi_nat Let_def)
  then show ?thesis
    using unmap_page_spec [OF sample_vm_inv _ u, where p = "0x1000" and fr = True] by auto
qed

end
