(* ===== verification/Usercopy.thy ===== *)
theory Usercopy
  imports Paging
begin

text \<open>
  \<open>copy_to_user\<close> and \<open>copy_from_user\<close> of \<^verbatim>\<open>kernel/vmm/vmm.c\<close>: the range checks, then a copy page by
  page through the window. The bytes of the kernel's buffer are a list; the interrupts, off while the
  window is open, are not modelled. The reference is the copy byte by byte, each through the page map.
\<close>

subsection \<open>The code\<close>

fun put_bytes :: "u32 \<Rightarrow> u8 list \<Rightarrow> (u32 \<Rightarrow> u8) \<Rightarrow> u32 \<Rightarrow> u8" where
  "put_bytes a [] m = m"
| "put_bytes a (x # xs) m = put_bytes (a + 1) xs (m(a := x))"

fun get_bytes :: "u32 \<Rightarrow> nat \<Rightarrow> (u32 \<Rightarrow> u8) \<Rightarrow> u8 list" where
  "get_bytes a 0 m = []"
| "get_bytes a (Suc n) m = m a # get_bytes (a + 1) n m"

text \<open>\<open>memcpy\<close> to and from the page seen at a virtual address.\<close>

definition vwrite :: "u32 \<Rightarrow> u32 \<Rightarrow> u8 list \<Rightarrow> vm \<Rightarrow> vm_error + vm" where
  "vwrite va off xs s = (case mmu s va of None \<Rightarrow> Inl Page_fault | Some f \<Rightarrow> Inr (s\<lparr>bytes := put_bytes (f + off) xs (bytes s)\<rparr>))"

definition vread :: "u32 \<Rightarrow> u32 \<Rightarrow> nat \<Rightarrow> vm \<Rightarrow> vm_error + u8 list" where
  "vread va off n s = (case mmu s va of None \<Rightarrow> Inl Page_fault | Some f \<Rightarrow> Inr (get_bytes (f + off) n (bytes s)))"

definition page_off :: "u32 \<Rightarrow> u32" where "page_off va = va AND (word_of_nat PAGE_SIZE - 1)"

definition chunk_len :: "u32 \<Rightarrow> nat \<Rightarrow> nat" where
  "chunk_len va n = (let chunk = PAGE_SIZE - unat (page_off va) in if chunk > n then n else chunk)"

lemma page_off_nat: "unat (page_off va) = unat va mod 4096"
proof -
  have "page_off va = take_bit 12 va" by (simp add: page_off_def PAGE_SIZE_def take_bit_eq_mask mask_eq_exp_minus_1)
  then have "unat (page_off va) = take_bit 12 (unat va)" by (simp only: unsigned_take_bit_eq)
  then show ?thesis by (simp add: take_bit_eq_mod)
qed

lemma chunk_len_pos: "0 < n \<Longrightarrow> 0 < chunk_len va n \<and> chunk_len va n \<le> n"
  by (simp add: chunk_len_def page_off_nat PAGE_SIZE_def Let_def)

function copy_to_loop :: "u32 \<Rightarrow> u32 \<Rightarrow> u8 list \<Rightarrow> vm \<Rightarrow> vm_error + int \<times> vm" where
  "copy_to_loop pd dst src s =
     (if src = [] then Inr (0, s)
      else vbind (get_mapping pd (dst AND PAGE_MASK) s) (\<lambda>(phys, s).
        if phys = 0 then Inr (-1, s)
        else let chunk = chunk_len dst (length src) in
          vbind (kmap phys s) (\<lambda>s.
          vbind (vwrite KMAP_BASE (page_off dst) (take chunk src) s) (\<lambda>s.
          vbind (kunmap s) (\<lambda>s. copy_to_loop pd (dst + word_of_nat chunk) (drop chunk src) s)))))"
  by pat_completeness auto
termination by (relation "measure (\<lambda>(pd, dst, src, s). length src)") (auto simp: chunk_len_pos)

function copy_from_loop :: "u32 \<Rightarrow> u32 \<Rightarrow> nat \<Rightarrow> u8 list \<Rightarrow> vm \<Rightarrow> vm_error + int \<times> u8 list \<times> vm" where
  "copy_from_loop pd src n acc s =
     (if n = 0 then Inr (0, acc, s)
      else vbind (get_mapping pd (src AND PAGE_MASK) s) (\<lambda>(phys, s).
        if phys = 0 then Inr (-1, acc, s)
        else let chunk = chunk_len src n in
          vbind (kmap phys s) (\<lambda>s.
          vbind (vread KMAP_BASE (page_off src) chunk s) (\<lambda>xs.
          vbind (kunmap s) (\<lambda>s. copy_from_loop pd (src + word_of_nat chunk) (n - chunk) (acc @ xs) s)))))"
  by pat_completeness auto
termination by (relation "measure (\<lambda>(pd, src, n, acc, s). n)") (use chunk_len_pos in \<open>auto simp: Let_def\<close>)

declare copy_to_loop.simps [simp del] copy_from_loop.simps [simp del]

definition range_bad :: "u32 \<Rightarrow> nat \<Rightarrow> bool" where
  "range_bad va n \<longleftrightarrow> (va < USER_SPACE_START \<or> va > USER_SPACE_END) \<or>
     (va + word_of_nat n - 1 < va \<or> va + word_of_nat n - 1 > USER_SPACE_END)"

text \<open>NULL pointers are \<open>None\<close>; \<open>copy_from_user\<close> returns the bytes it has written to the front of the buffer.\<close>

definition copy_to_user :: "u32 option \<Rightarrow> u32 \<Rightarrow> u8 list option \<Rightarrow> vm \<Rightarrow> vm_error + int \<times> vm" where
  "copy_to_user pd dst src s =
     (case (pd, src) of
        (Some p, Some xs) \<Rightarrow>
          if xs = [] then Inr (0, s)
          else if range_bad dst (length xs) then Inr (-1, s)
          else copy_to_loop p dst xs s
      | _ \<Rightarrow> Inr (-1, s))"

definition copy_from_user :: "u32 option \<Rightarrow> bool \<Rightarrow> u32 \<Rightarrow> nat \<Rightarrow> vm \<Rightarrow> vm_error + int \<times> u8 list \<times> vm" where
  "copy_from_user pd dst_ok src n s =
     (case pd of
        Some p \<Rightarrow>
          if \<not> dst_ok then Inr (-1, [], s)
          else if n = 0 then Inr (0, [], s)
          else if range_bad src n then Inr (-1, [], s)
          else copy_from_loop p src n [] s
      | None \<Rightarrow> Inr (-1, [], s))"

subsection \<open>The reference: byte by byte\<close>

text \<open>The physical address of a user byte; a page mapped to frame 0 counts as unmapped in the code.\<close>

definition user_addr :: "vm \<Rightarrow> u32 \<Rightarrow> u32 \<Rightarrow> u32 option" where
  "user_addr s p v = (case pte_of s p v of
     None \<Rightarrow> None | Some pte \<Rightarrow> if pte AND PAGE_MASK = 0 then None else Some ((pte AND PAGE_MASK) + page_off v))"

fun poke_bytes :: "(u32 \<Rightarrow> u32 option) \<Rightarrow> u32 \<Rightarrow> u8 list \<Rightarrow> (u32 \<Rightarrow> u8) \<Rightarrow> int \<times> (u32 \<Rightarrow> u8)" where
  "poke_bytes f d [] m = (0, m)"
| "poke_bytes f d (x # xs) m = (case f d of None \<Rightarrow> (-1, m) | Some a \<Rightarrow> poke_bytes f (d + 1) xs (m(a := x)))"

fun peek_bytes :: "(u32 \<Rightarrow> u32 option) \<Rightarrow> u32 \<Rightarrow> nat \<Rightarrow> (u32 \<Rightarrow> u8) \<Rightarrow> int \<times> u8 list" where
  "peek_bytes f d 0 m = (0, [])"
| "peek_bytes f d (Suc n) m = (case f d of None \<Rightarrow> (-1, [])
     | Some a \<Rightarrow> let (r, xs) = peek_bytes f (d + 1) n m in (r, m a # xs))"

lemma next_byte:
  assumes "unat d mod 4096 + 1 < 4096"
  shows "(d + 1) AND PAGE_MASK = d AND PAGE_MASK" "page_off (d + 1) = page_off d + 1" "unat (d + 1) = unat d + 1"
proof -
  have l: "unat d < 2 ^ 32" by (rule unat_less32)
  have "unat d \<noteq> 2 ^ 32 - 1" using assms by auto
  then have "unat d + 1 < 2 ^ 32" using l by linarith
  then show u: "unat (d + 1) = unat d + 1" by (simp add: unat_word_ariths)
  have q: "(unat d + 1) div 4096 = unat d div 4096" "(unat d + 1) mod 4096 = unat d mod 4096 + 1"
    using assms by (simp_all add: div_Suc mod_Suc)
  show "(d + 1) AND PAGE_MASK = d AND PAGE_MASK" unfolding word_unat_eq_iff mask_nat u q ..
  show "page_off (d + 1) = page_off d + 1"
  proof -
    have "unat (page_off d + 1) = unat (page_off d) + 1"
      using assms by (simp add: unat_word_ariths page_off_nat)
    then show ?thesis unfolding word_unat_eq_iff page_off_nat u q(2) by (simp add: page_off_nat)
  qed
qed

lemma user_addr_page:
  "v AND PAGE_MASK = w AND PAGE_MASK \<Longrightarrow> pte_of s p v = pte_of s p w"
  by (simp add: pte_of_tab same_page_iff)

lemma pte_of_bytes [simp]: "pte_of (s\<lparr>bytes := m\<rparr>) p v = pte_of s p v"
  by (simp add: pte_of_def Let_def)

lemma user_addr_bytes [simp]: "user_addr (s\<lparr>bytes := m\<rparr>) = user_addr s"
  by (intro ext) (simp add: user_addr_def)

subsection \<open>One page\<close>

definition frame_of :: "vm \<Rightarrow> u32 \<Rightarrow> u32 \<Rightarrow> u32" where
  "frame_of s p v = (case pte_of s p v of None \<Rightarrow> 0 | Some pte \<Rightarrow> pte AND PAGE_MASK)"

lemma user_addr_frame: "user_addr s p v = (if frame_of s p v = 0 then None else Some (frame_of s p v + page_off v))"
  by (simp add: user_addr_def frame_of_def split: option.split)

lemma frame_of_page: "v AND PAGE_MASK = w AND PAGE_MASK \<Longrightarrow> frame_of s p v = frame_of s p w"
  unfolding frame_of_def using user_addr_page by metis

lemma poke_page:
  "frame_of s p d \<noteq> 0 \<Longrightarrow> unat d mod 4096 + length xs \<le> 4096 \<Longrightarrow>
   poke_bytes (user_addr s p) d xs m = (0, put_bytes (frame_of s p d + page_off d) xs m)"
proof (induction xs arbitrary: d m)
  case Nil
  then show ?case by simp
next
  case (Cons x xs)
  have a: "user_addr s p d = Some (frame_of s p d + page_off d)" using Cons.prems(1) by (simp add: user_addr_frame)
  show ?case
  proof (cases xs)
    case Nil
    then show ?thesis using a by (simp add: fun_upd_def)
  next
    case (Cons y ys)
    then have "unat d mod 4096 + 1 < 4096" using Cons.prems(2) by simp
    note n = next_byte [OF this]
    have "frame_of s p (d + 1) = frame_of s p d" by (rule frame_of_page) (rule n)
    moreover have "unat (d + 1) mod 4096 = unat d mod 4096 + 1"
      using n(3) \<open>unat d mod 4096 + 1 < 4096\<close> by (simp add: mod_Suc)
    ultimately show ?thesis using Cons.IH [of "d + 1" "m(frame_of s p d + page_off d := x)"] Cons.prems n(2)
      by (simp add: a add.assoc fun_upd_def)
  qed
qed

lemma peek_page:
  "frame_of s p d \<noteq> 0 \<Longrightarrow> unat d mod 4096 + n \<le> 4096 \<Longrightarrow>
   peek_bytes (user_addr s p) d n m = (0, get_bytes (frame_of s p d + page_off d) n m)"
proof (induction n arbitrary: d)
  case 0
  then show ?case by simp
next
  case (Suc k)
  have a: "user_addr s p d = Some (frame_of s p d + page_off d)" using Suc.prems(1) by (simp add: user_addr_frame)
  show ?case
  proof (cases k)
    case 0
    then show ?thesis using a by (simp add: fun_upd_def)
  next
    case (Suc l)
    then have "unat d mod 4096 + 1 < 4096" using Suc.prems(2) by simp
    note n = next_byte [OF this]
    have "frame_of s p (d + 1) = frame_of s p d" by (rule frame_of_page) (rule n)
    moreover have "unat (d + 1) mod 4096 = unat d mod 4096 + 1"
      using n(3) \<open>unat d mod 4096 + 1 < 4096\<close> by (simp add: mod_Suc)
    ultimately show ?thesis using Suc.IH [of "d + 1"] Suc.prems n(2)
      by (simp add: a add.assoc fun_upd_def)
  qed
qed

lemma poke_append:
  "poke_bytes f d (xs @ ys) m = (let (r, m') = poke_bytes f d xs m in
     if r = 0 then poke_bytes f (d + word_of_nat (length xs)) ys m' else (r, m'))"
proof (induction xs arbitrary: d m)
  case Nil
  then show ?case by simp
next
  case (Cons x xs)
  have "d + 1 + word_of_nat (length xs) = d + word_of_nat (length (x # xs))" by (simp add: ac_simps)
  note e = this
  show ?case unfolding e [symmetric] by (simp add: Cons fun_upd_def split: option.split)
qed

lemma peek_append:
  "peek_bytes f d (j + k) m = (let (r, xs) = peek_bytes f d j m in
     if r = 0 then (let (q, ys) = peek_bytes f (d + word_of_nat j) k m in (q, xs @ ys)) else (r, xs))"
proof (induction j arbitrary: d)
  case 0
  then show ?case by (simp add: Let_def)
next
  case (Suc j)
  then show ?case by (simp add: add.assoc split_beta Let_def split: option.split)
qed

subsection \<open>The loops are the reference\<close>

lemma vm_inv_bytes: "vm_inv A F (s\<lparr>bytes := m\<rparr>) = vm_inv A F s"
  by (simp add: vm_inv_def vm_ready_def has_tab_def tab_def)

lemma win_bytes: "win f (s\<lparr>bytes := m\<rparr>) = (win f s)\<lparr>bytes := m\<rparr>"
  by (simp add: win_def fset_def)

lemma vm_ready_bytes [simp]: "vm_ready (s\<lparr>bytes := m\<rparr>) = vm_ready s"
  by (simp add: vm_ready_def)

text \<open>The user page of an address inside the space, and the frame that the code finds for it.\<close>

lemma get_frame:
  assumes "vm_inv A F s" "p \<in> A" "USER_SPACE_START \<le> v \<and> v \<le> USER_SPACE_END"
  shows "get_mapping p (v AND PAGE_MASK) s = Inr (frame_of s p v, s)"
proof -
  have "user_pde (vmm_pdi (v AND PAGE_MASK))" using assms(3) user_range by simp
  from get_mapping_eq [OF assms(1,2) this] show ?thesis
    using user_addr_page [of "v AND PAGE_MASK" v s p] by (simp add: frame_of_def and.assoc)
qed

lemma frame_of_masked [simp]: "frame_of s p v AND PAGE_MASK = frame_of s p v"
  by (simp add: frame_of_def and.assoc split: option.split)

lemma page_copy:
  assumes "vm_ready s" "f AND PAGE_MASK = f"
  shows "vwrite KMAP_BASE off xs (win f s) = Inr (win f (s\<lparr>bytes := put_bytes (f + off) xs (bytes s)\<rparr>))"
    "vread KMAP_BASE off n (win f s) = Inr (get_bytes (f + off) n (bytes s))"
  using mmu_window [OF assms] by (simp_all add: vwrite_def vread_def win_bytes)

lemma chunk_page: "unat d mod 4096 + chunk_len d n \<le> 4096"
proof -
  have "unat d mod 4096 < 4096" by simp
  then show ?thesis by (auto simp: chunk_len_def page_off_nat PAGE_SIZE_def Let_def)
qed

text \<open>The range check leaves every byte of the range in user space.\<close>

definition user_span :: "u32 \<Rightarrow> nat \<Rightarrow> bool" where
  "user_span v n \<longleftrightarrow> unat USER_SPACE_START \<le> unat v \<and> unat v + n \<le> unat USER_SPACE_END + 1"

lemma user_span_head: "user_span v n \<Longrightarrow> 0 < n \<Longrightarrow> USER_SPACE_START \<le> v \<and> v \<le> USER_SPACE_END"
  by (auto simp: user_span_def word_le_nat_alt)

lemma user_span_step:
  assumes "user_span v n" "k \<le> n"
  shows "user_span (v + word_of_nat k) (n - k)"
proof -
  have "unat v + k < 2 ^ 32" using assms by (simp add: user_span_def USER_SPACE_END_def)
  then have "unat (v + word_of_nat k) = unat v + k" by (simp add: unat_word_ariths unat_of_nat)
  then show ?thesis using assms by (simp add: user_span_def)
qed

lemma range_bad_span:
  assumes "0 < n" "n < 2 ^ 32"
  shows "\<not> range_bad v n \<longleftrightarrow> user_span v n"
proof -
  have v: "unat v < 2 ^ 32" by (rule unat_less32)
  have e: "unat (v + word_of_nat n - 1) = (unat v + n - 1) mod 2 ^ 32"
  proof -
    have "v + word_of_nat n - 1 = word_of_nat (unat v + n - 1)" using assms(1) by (simp add: of_nat_diff)
    then show ?thesis by (simp add: unat_of_nat)
  qed
  show ?thesis
  proof (cases "unat v + n - 1 < 2 ^ 32")
    case True
    then show ?thesis using assms(1) e
      by (auto simp: range_bad_def user_span_def word_le_nat_alt word_less_nat_alt)
  next
    case False
    then have "(unat v + n - 1) mod 2 ^ 32 = unat v + n - 1 - 2 ^ 32" using v assms(2) by (simp add: mod_if)
    moreover have "unat v + n - 1 - 2 ^ 32 < unat v" using assms(2) False by linarith
    ultimately have "range_bad v n" using e by (simp add: range_bad_def word_less_nat_alt)
    moreover have "\<not> user_span v n" using False by (auto simp: user_span_def USER_SPACE_END_def)
    ultimately show ?thesis by simp
  qed
qed

lemma copy_to_loop_eq:
  "vm_inv A F s \<Longrightarrow> p \<in> A \<Longrightarrow> user_span dst (length src) \<Longrightarrow>
   copy_to_loop p dst src s = Inr (let (r, m) = poke_bytes (user_addr s p) dst src (bytes s) in (r, s\<lparr>bytes := m\<rparr>))"
proof (induction p dst src s rule: copy_to_loop.induct)
  case (1 p dst src s)
  show ?case
  proof (cases "src = []")
    case True
    then show ?thesis by (simp add: copy_to_loop.simps [of p dst "[]"])
  next
    case False
    then have ne: "0 < length src" by simp
    note g = get_frame [OF "1.prems"(1,2) user_span_head [OF "1.prems"(3) ne]]
    show ?thesis
    proof (cases "frame_of s p dst = 0")
      case True
      then have "copy_to_loop p dst src s = Inr (-1, s)" using g False by (simp add: copy_to_loop.simps [of p dst src] Let_def)
      moreover obtain x xs where "src = x # xs" using False by (cases src) auto
      ultimately show ?thesis using True by (simp add: user_addr_frame [of s p dst])
    next
      case f: False
      let ?f = "frame_of s p dst" and ?k = "chunk_len dst (length src)"
      let ?s1 = "s\<lparr>bytes := put_bytes (?f + page_off dst) (take ?k src) (bytes s)\<rparr>"
      note rd = vm_invD(1) [OF "1.prems"(1)]
      have rd1: "vm_ready ?s1" using rd by simp
      have k: "?k \<le> length src" using chunk_len_pos [OF ne] by simp
      note w = window_open(1) [OF rd frame_of_masked] page_copy(1) [OF rd frame_of_masked] window_open(3) [OF rd1 frame_of_masked]
      have i1: "vm_inv A F ?s1" using "1.prems"(1) by (simp only: vm_inv_bytes)
      have sp: "user_span (dst + word_of_nat ?k) (length (drop ?k src))" using user_span_step [OF "1.prems"(3) k] by simp
      have IH: "copy_to_loop p (dst + word_of_nat ?k) (drop ?k src) ?s1 =
          Inr (let (r, m) = poke_bytes (user_addr ?s1 p) (dst + word_of_nat ?k) (drop ?k src) (bytes ?s1) in (r, ?s1\<lparr>bytes := m\<rparr>))"
        by (rule "1.IH" [OF False f refl i1 "1.prems"(2) sp])
      have e: "copy_to_loop p dst src s = copy_to_loop p (dst + word_of_nat ?k) (drop ?k src) ?s1"
        using False f g w by (simp add: copy_to_loop.simps [of p dst src] Let_def)
      have lt: "length (take ?k src) = ?k" using k by simp
      have "unat dst mod 4096 + length (take ?k src) \<le> 4096" unfolding lt by (rule chunk_page)
      note P = poke_page [OF f this, of "bytes s"]
      have "poke_bytes (user_addr s p) dst src (bytes s) = poke_bytes (user_addr s p) (dst + word_of_nat ?k) (drop ?k src) (bytes ?s1)"
        using poke_append [of "user_addr s p" dst "take ?k src" "drop ?k src" "bytes s"] P unfolding lt by simp
      then show ?thesis unfolding e IH by (simp add: split_beta Let_def)
    qed
  qed
qed

lemma copy_from_loop_eq:
  "vm_inv A F s \<Longrightarrow> p \<in> A \<Longrightarrow> user_span src n \<Longrightarrow>
   copy_from_loop p src n acc s = Inr (let (r, xs) = peek_bytes (user_addr s p) src n (bytes s) in (r, acc @ xs, s))"
proof (induction p src n acc s rule: copy_from_loop.induct)
  case (1 p src n acc s)
  show ?case
  proof (cases "n = 0")
    case True
    then show ?thesis by (simp add: copy_from_loop.simps [of p src 0])
  next
    case False
    then have ne: "0 < n" by simp
    note g = get_frame [OF "1.prems"(1,2) user_span_head [OF "1.prems"(3) ne]]
    show ?thesis
    proof (cases "frame_of s p src = 0")
      case True
      then have "copy_from_loop p src n acc s = Inr (-1, acc, s)" using g False by (simp add: copy_from_loop.simps [of p src n] Let_def)
      moreover obtain l where "n = Suc l" using False by (cases n) auto
      ultimately show ?thesis using True by (simp add: user_addr_frame [of s p src])
    next
      case f: False
      let ?f = "frame_of s p src" and ?k = "chunk_len src n"
      let ?xs = "get_bytes (?f + page_off src) ?k (bytes s)"
      note rd = vm_invD(1) [OF "1.prems"(1)]
      have k: "?k \<le> n" using chunk_len_pos [OF ne] by simp
      note w = window_open(1,3) [OF rd frame_of_masked] page_copy(2) [OF rd frame_of_masked]
      have sp: "user_span (src + word_of_nat ?k) (n - ?k)" using user_span_step [OF "1.prems"(3) k] .
      have IH: "copy_from_loop p (src + word_of_nat ?k) (n - ?k) (acc @ ?xs) s =
          Inr (let (r, ys) = peek_bytes (user_addr s p) (src + word_of_nat ?k) (n - ?k) (bytes s) in (r, (acc @ ?xs) @ ys, s))"
        by (rule "1.IH" [OF False f refl "1.prems"(1,2) sp])
      have e: "copy_from_loop p src n acc s = copy_from_loop p (src + word_of_nat ?k) (n - ?k) (acc @ ?xs) s"
        using False f g w by (simp add: copy_from_loop.simps [of p src n] Let_def)
      note P = peek_page [OF f chunk_page, of n "bytes s"]
      have "peek_bytes (user_addr s p) src n (bytes s) =
          (let (r, ys) = peek_bytes (user_addr s p) (src + word_of_nat ?k) (n - ?k) (bytes s) in (r, ?xs @ ys))"
        using peek_append [of "user_addr s p" src ?k "n - ?k" "bytes s"] P k by simp
      then show ?thesis unfolding e IH by (simp add: split_beta Let_def)
    qed
  qed
qed

subsection \<open>Properties\<close>

text \<open>
  C16. Copying to and from user space page by page through the window is the same as checking the range
  and then moving one byte after the other, each to the address that the page map gives it: the result
  is -1 for a bad range and at the first page that is not mapped, with the bytes in front of it moved,
  and 0 when all of them were; nothing else of the machine changes, and no access faults.
\<close>

theorem user_copy_bytewise:
  assumes inv: "vm_inv A F s" and p: "p \<in> A" and len: "length src < 2 ^ 32" "n < 2 ^ 32"
  shows "copy_to_user (Some p) dst (Some src) s =
      (if src = [] then Inr (0, s)
       else if \<not> user_span dst (length src) then Inr (-1, s)
       else Inr (let (r, m) = poke_bytes (user_addr s p) dst src (bytes s) in (r, s\<lparr>bytes := m\<rparr>)))
    \<and> copy_from_user (Some p) True dst n s =
      (if n = 0 then Inr (0, [], s)
       else if \<not> user_span dst n then Inr (-1, [], s)
       else Inr (let (r, xs) = peek_bytes (user_addr s p) dst n (bytes s) in (r, xs, s)))"
proof
  show "copy_to_user (Some p) dst (Some src) s =
      (if src = [] then Inr (0, s)
       else if \<not> user_span dst (length src) then Inr (-1, s)
       else Inr (let (r, m) = poke_bytes (user_addr s p) dst src (bytes s) in (r, s\<lparr>bytes := m\<rparr>)))"
    using range_bad_span [of "length src" dst] len(1) copy_to_loop_eq [OF inv p, of dst src]
    by (cases "src = []"; cases "user_span dst (length src)") (simp_all add: copy_to_user_def)
  show "copy_from_user (Some p) True dst n s =
      (if n = 0 then Inr (0, [], s)
       else if \<not> user_span dst n then Inr (-1, [], s)
       else Inr (let (r, xs) = peek_bytes (user_addr s p) dst n (bytes s) in (r, xs, s)))"
    using range_bad_span [of n dst] len(2) copy_from_loop_eq [OF inv p, of dst n "[]"]
    by (cases "n = 0"; cases "user_span dst n") (simp_all add: copy_from_user_def)
qed

lemma user_copy_bytewise_witness:
  "copy_to_user (Some 0x1000) 0x00400000 (Some [1, 2]) sample_vm = Inr (-1, sample_vm)"
proof -
  have n: "user_addr sample_vm 0x1000 0x00400000 = None"
    by (simp add: user_addr_def pte_of_def sample_vm_def vmm_pdi_nat Let_def)
  have sp: "user_span 0x00400000 (Suc (Suc 0))" by (simp add: user_span_def USER_SPACE_START_def USER_SPACE_END_def)
  show ?thesis
    using user_copy_bytewise [OF sample_vm_inv, where p = "0x1000" and src = "[1, 2]" and dst = "0x00400000" and n = 0] n sp
    by simp
qed

text \<open>Bytes written one after the other to distinct addresses are read back.\<close>

lemma poke_peek:
  assumes "inj_on (\<lambda>k. f (d + word_of_nat k)) {..<length xs}" "\<forall>k < length xs. f (d + word_of_nat k) \<noteq> None"
  shows "fst (poke_bytes f d xs m) = 0 \<and> peek_bytes f d (length xs) (snd (poke_bytes f d xs m)) = (0, xs) \<and>
    (\<forall>a. (\<forall>k < length xs. f (d + word_of_nat k) \<noteq> Some a) \<longrightarrow> snd (poke_bytes f d xs m) a = m a)"
  using assms
proof (induction xs arbitrary: d m)
  case Nil
  then show ?case by simp
next
  case (Cons x xs)
  have s: "d + 1 + word_of_nat k = d + word_of_nat (Suc k)" for k by (simp add: ac_simps)
  obtain a where a: "f d = Some a" using Cons.prems(2) by force
  have i: "inj_on (\<lambda>k. f (d + 1 + word_of_nat k)) {..<length xs}"
  proof (rule inj_onI)
    fix j k
    assume jk: "j \<in> {..<length xs}" "k \<in> {..<length xs}" "f (d + 1 + word_of_nat j) = f (d + 1 + word_of_nat k)"
    then have "Suc j = Suc k" using inj_onD [OF Cons.prems(1), of "Suc j" "Suc k"] unfolding s by auto
    then show "j = k" by simp
  qed
  have n: "\<forall>k < length xs. f (d + 1 + word_of_nat k) \<noteq> None" using Cons.prems(2) unfolding s by auto
  note IH = Cons.IH [OF i n, of "m(a := x)"]
  have fr: "\<forall>k < length xs. f (d + 1 + word_of_nat k) \<noteq> Some a"
  proof (intro allI impI notI)
    fix k
    assume "k < length xs" "f (d + 1 + word_of_nat k) = Some a"
    then have "Suc k = 0" using inj_onD [OF Cons.prems(1), of "Suc k" 0] a unfolding s by auto
    then show False by simp
  qed
  have "snd (poke_bytes f (d + 1) xs (m(a := x))) a = x" using IH fr by (simp add: fun_upd_def)
  moreover have "snd (poke_bytes f (d + 1) xs (m(a := x))) b = m b"
    if "\<forall>k < length (x # xs). f (d + word_of_nat k) \<noteq> Some b" for b
  proof -
    have "b \<noteq> a" using that a by force
    moreover have "\<forall>k < length xs. f (d + 1 + word_of_nat k) \<noteq> Some b" using that unfolding s by auto
    ultimately show ?thesis using IH by (simp add: fun_upd_def)
  qed
  ultimately show ?case using IH a by (simp add: Let_def fun_upd_def)
qed

text \<open>
  What the kernel writes to user memory it reads back: for a range of user space whose bytes are all
  mapped, no two of them to the same place, \<open>copy_to_user\<close> followed by \<open>copy_from_user\<close> returns the same
  bytes, and every physical byte outside the range keeps its value.
\<close>

theorem user_copy_roundtrip:
  assumes inv: "vm_inv A F s" and p: "p \<in> A" and len: "0 < length xs" "length xs < 2 ^ 32" and sp: "user_span va (length xs)"
    and mapped: "\<forall>k < length xs. user_addr s p (va + word_of_nat k) \<noteq> None"
    and distinct: "inj_on (\<lambda>k. user_addr s p (va + word_of_nat k)) {..<length xs}"
  shows "\<exists>s'. copy_to_user (Some p) va (Some xs) s = Inr (0, s') \<and> copy_from_user (Some p) True va (length xs) s' = Inr (0, xs, s') \<and>
    frames s' = frames s \<and> (\<forall>a. (\<forall>k < length xs. user_addr s p (va + word_of_nat k) \<noteq> Some a) \<longrightarrow> bytes s' a = bytes s a)"
proof -
  let ?r = "poke_bytes (user_addr s p) va xs (bytes s)"
  let ?s = "s\<lparr>bytes := snd ?r\<rparr>"
  note R = poke_peek [OF distinct mapped, of "bytes s"]
  have i: "vm_inv A F ?s" using inv by (simp only: vm_inv_bytes)
  have "range_bad va (length xs) = False" using range_bad_span [OF len] sp by simp
  then have "copy_to_user (Some p) va (Some xs) s = Inr (0, ?s)"
    using R len(1) copy_to_loop_eq [OF inv p sp] by (auto simp: copy_to_user_def split_beta Let_def)
  moreover have "copy_from_user (Some p) True va (length xs) ?s = Inr (0, xs, ?s)"
    using R len(1) copy_from_loop_eq [OF i p sp, of "[]"] \<open>range_bad va (length xs) = False\<close>
    by (auto simp: copy_from_user_def split_beta Let_def)
  ultimately show ?thesis using R by (intro exI [of _ ?s]) simp
qed

lemma sample_alloc: "alloc_pages [sample_zone] 0 \<noteq> None"
proof -
  obtain z' p where r: "zone_alloc_pages sample_zone 0 = (z', p)" by fastforce
  have i: "zone_inv sample_zone {}" "zone_fits sample_zone" using sample_zone_inv(1) by auto
  then obtain fl where fl: "zone_ok sample_zone fl {}" "no_buddies (max_order sample_zone) fl" by (auto simp: zone_inv_def)
  have "0 \<in> {..<num_pages sample_zone}" using sample_zone_inv(2) by simp
  then have "fblocks fl \<noteq> {}" using zone_okD(4) [OF fl(1)] by auto
  then have "\<not> (\<forall>m \<ge> 0. fl m = [])" by (fastforce simp: fblocks_def)
  then have "\<not> (z' = sample_zone \<and> p = 0 \<and> (\<forall>m \<ge> 0. fl m = []))" by blast
  with zone_alloc_pages_ok [OF fl r] obtain j fl' where j: "zone_ok z' fl' {(j, 0)}" "no_buddies (max_order z') fl'"
    "p = w32 (base_phys sample_zone + push_bit PAGE_SHIFT j)" "same_frame sample_zone z'" by auto
  then have "zone_inv z' {(j, 0)}" by (auto simp: zone_inv_def)
  from zone_inv_tiling [OF this] have "j \<le> num_pages sample_zone" using j(4) by (auto simp: tiling_def same_frame_def)
  then have "p \<noteq> 0" using frame_phys [OF i(2)] i(2) j(3) by (simp add: zone_fits_def)
  then show ?thesis using r by simp
qed

lemma user_copy_roundtrip_witness:
  "\<exists>s s'. copy_to_user (Some 0x1000) 0x00400000 (Some [7, 9]) s = Inr (0, s') \<and>
    copy_from_user (Some 0x1000) True 0x00400000 2 s' = Inr (0, [7, 9], s')"
proof -
  have u: "user_pde (vmm_pdi 0x00400000)" by (simp add: user_pde_def vmm_pdi_nat KERNEL_PDE_BASE_def)
  let ?p = "0x1000 :: u32"
  have np: "\<not> present (frames sample_vm ?p (vmm_pdi 0x00400000))" by (simp add: sample_vm_def vmm_pdi_nat)
  have z: "zones sample_vm = [sample_zone]" by (simp add: sample_vm_def)
  obtain zs n where a: "alloc_pages (zones sample_vm) 0 = Some (zs, n)" using sample_alloc unfolding z by auto
  note Q = alloc_frame_fresh [OF sample_vm_inv a]
  let ?q = "word_of_nat n :: u32" and ?i = "vmm_pdi 0x00400000" and ?j = "vmm_pti 0x00400000"
  have pA: "?p \<in> {?p}" by simp
  have nh: "\<not> has_tab sample_vm ?p ?i" using np by (simp add: has_tab_def)
  note I = vm_inv_new_tab [OF sample_vm_inv a pA u nh refl pde_flags_entry [OF Q(2), of 7]]
  let ?s1 = "new_tab ?p ?i ?q (pde_flags_of 7) zs sample_vm"
  let ?s = "fset (tab ?s1 ?p ?i) ?j (page_entry 0x00201000 7) ?s1"
  note J = vm_inv_fset_tab [OF I(1) pA I(2), of ?j "page_entry 0x00201000 7"]
  have v: "pte_of ?s ?p w = Some (page_entry 0x00201000 7)" if "w AND PAGE_MASK = 0x00400000 AND PAGE_MASK" for w
  proof -
    have "user_pde (vmm_pdi w)" using that u by (simp add: same_page_iff)
    from pte_of_fset_tab [OF I(1) pA I(2) pA this, of "page_entry 0x00201000 7"] that show ?thesis by simp
  qed
  have ad: "user_addr ?s ?p 0x00400000 = Some 0x00201000" "user_addr ?s ?p (0x00400000 + 1) = Some 0x00201001"
  proof -
    have m: "(0x00201000 :: u32) AND PAGE_MASK = 0x00201000" "(0x00400000 + 1 :: u32) AND PAGE_MASK = 0x00400000 AND PAGE_MASK"
      "page_off 0x00400000 = 0" "page_off (0x00400000 + 1) = 1"
      by (simp_all add: PAGE_MASK_def page_off_def PAGE_SIZE_def)
    show "user_addr ?s ?p 0x00400000 = Some 0x00201000" "user_addr ?s ?p (0x00400000 + 1) = Some 0x00201001"
      using v [OF refl] v [OF m(2)] m unfolding user_addr_def by simp_all
  qed
  have sp: "user_span 0x00400000 (length [7 :: u8, 9])" by (simp add: user_span_def USER_SPACE_START_def USER_SPACE_END_def)
  have two: "k < length [7 :: u8, 9] \<longleftrightarrow> k = 0 \<or> k = 1" for k by auto
  have l: "0 < length [7 :: u8, 9]" "length [7 :: u8, 9] < 2 ^ 32" by simp_all
  have mp: "\<forall>k < length [7 :: u8, 9]. user_addr ?s ?p (0x00400000 + word_of_nat k) \<noteq> None"
    unfolding two using ad by auto
  have ij: "inj_on (\<lambda>k. user_addr ?s ?p (0x00400000 + word_of_nat k)) {..<length [7 :: u8, 9]}"
    by (rule inj_onI) (use ad in \<open>auto simp: two less_Suc_eq\<close>)
  from user_copy_roundtrip [OF J pA l sp mp ij] obtain s' where
    "copy_to_user (Some ?p) 0x00400000 (Some [7, 9]) ?s = Inr (0, s')"
    "copy_from_user (Some ?p) True 0x00400000 (length [7 :: u8, 9]) s' = Inr (0, [7, 9], s')" by blast
  moreover have "length [7 :: u8, 9] = 2" by simp
  ultimately show ?thesis by metis
qed

end
