(* ===== verification/Shm.thy ===== *)
theory Shm
  imports Paging
begin

text \<open>
  Shared memory, \<^verbatim>\<open>kernel/vmm/vmm.c\<close> and the system calls of \<^verbatim>\<open>kernel/syscall/syscall.c\<close>: objects of
  page frames with a reference count, the table of their numbers, and for each address space the list
  of its mappings, sorted by address. The objects live in a store indexed by their pointer; a result of
  \<open>Inl\<close> is a panic or a fault of the page tables.
\<close>

definition SHMEM_START :: nat where "SHMEM_START = 0x60000000"
definition SHMEM_END :: nat where "SHMEM_END = 0x9FFFFFFF"
definition MAX_SHM_OBJECTS :: nat where "MAX_SHM_OBJECTS = 256"

record shm_object =
  sh_size :: nat
  sh_npages :: nat
  sh_pages :: "u32 list"
  sh_refcount :: nat

record shmem_map =
  sm_start :: nat
  sm_size :: nat
  sm_shm :: nat

record shm_state =
  shms :: "nat \<Rightarrow> shm_object option"
  shm_table :: "nat option list"
  shmem_lists :: "u32 \<Rightarrow> shmem_map list"

definition page_round :: "nat \<Rightarrow> nat" where
  "page_round n = w32 (n + PAGE_SIZE - 1) div PAGE_SIZE * PAGE_SIZE"

fun alloc_frames :: "nat \<Rightarrow> vm \<Rightarrow> vm_error + u32 list \<times> vm" where
  "alloc_frames 0 s = Inr ([], s)"
| "alloc_frames (Suc n) s = vbind (alloc_frame s) (\<lambda>(f, s). vbind (alloc_frames n s) (\<lambda>(fs, s). Inr (f # fs, s)))"

text \<open>The new object and the address \<open>ptr\<close> that \<open>kernel_malloc\<close> gave it.\<close>

definition shm_create :: "nat \<Rightarrow> nat \<Rightarrow> shm_state \<times> vm \<Rightarrow> vm_error + shm_state \<times> vm" where
  "shm_create ptr sz st =
     (let sz = page_round sz; npages = sz div PAGE_SIZE in
      vbind (alloc_frames npages (snd st)) (\<lambda>(fs, s).
      Inr ((fst st)\<lparr>shms := (shms (fst st))(ptr \<mapsto> \<lparr>sh_size = sz, sh_npages = npages, sh_pages = fs, sh_refcount = 1\<rparr>)\<rparr>, s)))"

fun find_region :: "nat \<Rightarrow> nat \<Rightarrow> shmem_map list \<Rightarrow> nat" where
  "find_region base sz [] = (if w32 (base + sz) \<le> SHMEM_END then base else 0)"
| "find_region base sz (x # xs) =
     (if w32 (base + sz) \<le> sm_start x then base
      else find_region (page_round (sm_start x + sm_size x)) sz xs)"

definition shm_find_free_region :: "shmem_map list \<Rightarrow> nat \<Rightarrow> nat" where
  "shm_find_free_region xs sz = find_region SHMEM_START (page_round sz) xs"

fun map_pages :: "u32 \<Rightarrow> nat \<Rightarrow> nat \<Rightarrow> u32 list \<Rightarrow> vm \<Rightarrow> vm_error + vm" where
  "map_pages pd va i [] s = Inr s"
| "map_pages pd va i (f # fs) s =
     vbind (map_page pd (word_of_nat (va + i * PAGE_SIZE)) f USER_PAGE_FLAGS True s) (map_pages pd va (i + 1) fs)"

fun unmap_pages :: "u32 \<Rightarrow> nat \<Rightarrow> nat \<Rightarrow> nat \<Rightarrow> vm \<Rightarrow> vm_error + vm" where
  "unmap_pages pd va i 0 s = Inr s"
| "unmap_pages pd va i (Suc n) s =
     vbind (unmap_page pd (word_of_nat (va + i * PAGE_SIZE)) False s) (unmap_pages pd va (i + 1) n)"

fun insert_map :: "shmem_map \<Rightarrow> shmem_map list \<Rightarrow> shmem_map list" where
  "insert_map y [] = [y]"
| "insert_map y (x # xs) = (if sm_start x < sm_start y then x # insert_map y xs else y # x # xs)"

definition shm_map :: "u32 \<Rightarrow> nat \<Rightarrow> shm_state \<times> vm \<Rightarrow> vm_error + nat \<times> shm_state \<times> vm" where
  "shm_map pd ptr st =
     (case shms (fst st) ptr of
        None \<Rightarrow> Inl Page_fault
      | Some shm \<Rightarrow>
          let va = shm_find_free_region (shmem_lists (fst st) pd) (sh_size shm) in
          if va = 0 then Inl Vm_panic
          else vbind (map_pages pd va 0 (sh_pages shm) (snd st)) (\<lambda>s.
            let y = \<lparr>sm_start = va, sm_size = sh_size shm, sm_shm = ptr\<rparr>
            in Inr (va, (fst st)\<lparr>shmem_lists := (shmem_lists (fst st))(pd := insert_map y (shmem_lists (fst st) pd)),
                                 shms := (shms (fst st))(ptr \<mapsto> shm\<lparr>sh_refcount := w32 (sh_refcount shm + 1)\<rparr>)\<rparr>, s)))"

fun free_frames :: "u32 list \<Rightarrow> vm \<Rightarrow> vm_error + vm" where
  "free_frames [] s = Inr s"
| "free_frames (f # fs) s = vbind (free_frame f s) (free_frames fs)"

fun table_clear :: "nat \<Rightarrow> nat option list \<Rightarrow> nat option list" where
  "table_clear ptr [] = []"
| "table_clear ptr (e # es) = (if e = Some ptr then None # es else e # table_clear ptr es)"

definition shm_drop :: "nat \<Rightarrow> shm_object \<Rightarrow> shm_state \<times> vm \<Rightarrow> vm_error + shm_state \<times> vm" where
  "shm_drop ptr shm st =
     (let rc = sub32 (sh_refcount shm) 1 in
      if rc = 0 then vbind (free_frames (sh_pages shm) (snd st)) (\<lambda>s.
        Inr ((fst st)\<lparr>shms := (shms (fst st))(ptr := None), shm_table := table_clear ptr (shm_table (fst st))\<rparr>, s))
      else Inr ((fst st)\<lparr>shms := (shms (fst st))(ptr \<mapsto> shm\<lparr>sh_refcount := rc\<rparr>)\<rparr>, snd st))"

fun find_map :: "nat \<Rightarrow> shmem_map list \<Rightarrow> shmem_map option" where
  "find_map va [] = None"
| "find_map va (x # xs) = (if sm_start x = va then Some x else find_map va xs)"

fun remove_map :: "nat \<Rightarrow> shmem_map list \<Rightarrow> shmem_map list" where
  "remove_map va [] = []"
| "remove_map va (x # xs) = (if sm_start x = va then xs else x # remove_map va xs)"

definition shm_unmap :: "u32 \<Rightarrow> nat \<Rightarrow> shm_state \<times> vm \<Rightarrow> vm_error + shm_state \<times> vm" where
  "shm_unmap pd va st =
     (case find_map va (shmem_lists (fst st) pd) of
        None \<Rightarrow> Inr st
      | Some x \<Rightarrow> (case shms (fst st) (sm_shm x) of
          None \<Rightarrow> Inl Page_fault
        | Some shm \<Rightarrow> vbind (unmap_pages pd va 0 (sh_npages shm) (snd st)) (\<lambda>s.
            shm_drop (sm_shm x) shm
              ((fst st)\<lparr>shmem_lists := (shmem_lists (fst st))(pd := remove_map va (shmem_lists (fst st) pd))\<rparr>, s))))"

fun first_free :: "nat option list \<Rightarrow> nat \<Rightarrow> int" where
  "first_free [] i = -1"
| "first_free (e # es) i = (if e = None then int i else first_free es (i + 1))"

definition shm_alloc_id :: "shm_state \<Rightarrow> int" where
  "shm_alloc_id st = first_free (shm_table st) 0"

subsection \<open>System calls\<close>

definition ENOMEM :: int where "ENOMEM = 12"
definition EINVAL :: int where "EINVAL = 22"

text \<open>The result is the value left in \<^verbatim>\<open>errno\<close>.\<close>

definition sys_shm_create :: "nat \<Rightarrow> nat \<Rightarrow> shm_state \<times> vm \<Rightarrow> vm_error + int \<times> shm_state \<times> vm" where
  "sys_shm_create ptr sz st =
     (let i = shm_alloc_id (fst st) in
      if i < 0 then Inr (- ENOMEM, st)
      else vbind (shm_create ptr sz st) (\<lambda>(st, s).
        Inr (i, st\<lparr>shm_table := (shm_table st)[nat i := Some ptr]\<rparr>, s)))"

definition sys_shm_map :: "u32 \<Rightarrow> int \<Rightarrow> shm_state \<times> vm \<Rightarrow> vm_error + int \<times> shm_state \<times> vm" where
  "sys_shm_map pd i st =
     (if i < 0 \<or> i \<ge> int MAX_SHM_OBJECTS then Inr (- EINVAL, st)
      else case shm_table (fst st) ! nat i of
        None \<Rightarrow> Inr (- EINVAL, st)
      | Some ptr \<Rightarrow> vbind (shm_map pd ptr st) (\<lambda>(va, st). Inr (int va, st)))"

definition sys_shm_unmap :: "u32 \<Rightarrow> nat \<Rightarrow> shm_state \<times> vm \<Rightarrow> vm_error + int \<times> shm_state \<times> vm" where
  "sys_shm_unmap pd va st =
     (if va < SHMEM_START \<or> va \<ge> SHMEM_END then Inr (- EINVAL, st)
      else vbind (shm_unmap pd va st) (\<lambda>st. Inr (0, st)))"

subsection \<open>The regions of an address space\<close>

text \<open>Sorted, page-aligned, inside the window for shared memory, and pairwise disjoint.\<close>

definition region_ok :: "shmem_map \<Rightarrow> bool" where
  "region_ok x \<longleftrightarrow> SHMEM_START \<le> sm_start x \<and> 0 < sm_size x \<and> sm_start x + sm_size x \<le> SHMEM_END \<and>
     4096 dvd sm_start x \<and> 4096 dvd sm_size x"

definition maps_ok :: "shmem_map list \<Rightarrow> bool" where
  "maps_ok xs \<longleftrightarrow> (\<forall>x \<in> set xs. region_ok x) \<and> sorted_wrt (\<lambda>x y. sm_start x + sm_size x \<le> sm_start y) xs"

definition map_range :: "shmem_map \<Rightarrow> nat set" where
  "map_range x = {sm_start x ..< sm_start x + sm_size x}"

lemma page_round_dvd: "4096 dvd n \<Longrightarrow> n + 4095 < 2 ^ 32 \<Longrightarrow> page_round n = n"
  by (auto simp: page_round_def PAGE_SIZE_def w32_id elim!: dvdE)

lemma page_round_region: "region_ok x \<Longrightarrow> page_round (sm_start x + sm_size x) = sm_start x + sm_size x"
  by (rule page_round_dvd) (auto simp: region_ok_def SHMEM_END_def)

lemma find_region_spec:
  assumes "maps_ok xs" "\<forall>x \<in> set xs. base \<le> sm_start x" "4096 dvd base" "SHMEM_START \<le> base" "base \<le> SHMEM_END"
    "0 < sz" "4096 dvd sz" "sz \<le> 0x40000000"
  shows "find_region base sz xs = 0 \<and> (\<forall>a. base \<le> a \<and> a + sz \<le> SHMEM_END \<longrightarrow> (\<exists>x \<in> set xs. {a..<a + sz} \<inter> map_range x \<noteq> {}))
    \<or> (base \<le> find_region base sz xs \<and> find_region base sz xs + sz \<le> SHMEM_END \<and> 4096 dvd find_region base sz xs \<and>
       (\<forall>x \<in> set xs. {find_region base sz xs ..< find_region base sz xs + sz} \<inter> map_range x = {}) \<and>
       (\<forall>a. base \<le> a \<and> a < find_region base sz xs \<longrightarrow> (\<exists>x \<in> set xs. {a..<a + sz} \<inter> map_range x \<noteq> {})))"
  using assms
proof (induction xs arbitrary: base)
  case Nil
  have "base + sz < 2 ^ 32" using Nil.prems by (simp add: SHMEM_END_def)
  then show ?case using Nil.prems by (auto simp: w32_id)
next
  case (Cons x xs)
  have w: "w32 (base + sz) = base + sz" using Cons.prems by (intro w32_id) (simp add: SHMEM_END_def)
  have x: "region_ok x" "maps_ok xs" "\<forall>y \<in> set xs. sm_start x + sm_size x \<le> sm_start y" "base \<le> sm_start x"
    using Cons.prems(1,2) by (auto simp: maps_ok_def)
  show ?case
  proof (cases "base + sz \<le> sm_start x")
    case True
    have "{base..<base + sz} \<inter> map_range y = {}" if "y \<in> set (x # xs)" for y
      using that True x(3) by (fastforce simp: map_range_def)
    moreover have "base + sz \<le> SHMEM_END" using True x(1) by (simp add: region_ok_def)
    ultimately show ?thesis using True Cons.prems(3) w by auto
  next
    case False
    let ?b = "sm_start x + sm_size x"
    have e: "find_region base sz (x # xs) = find_region ?b sz xs" using False w page_round_region [OF x(1)] by simp
    have b: "4096 dvd ?b" "SHMEM_START \<le> ?b" "?b \<le> SHMEM_END" "0 < sm_size x" using x(1) by (auto simp: region_ok_def)
    have low: "{a..<a + sz} \<inter> map_range x \<noteq> {}" if "base \<le> a" "a < ?b" for a
    proof -
      have "max a (sm_start x) \<in> {a..<a + sz} \<inter> map_range x"
        using that False Cons.prems(6) b(4) by (auto simp: map_range_def)
      then show ?thesis by blast
    qed
    have hi: "{a..<a + sz} \<inter> map_range x = {}" if "?b \<le> a" for a
      using that by (auto simp: map_range_def)
    note IH = Cons.IH [OF x(2,3) b(1-3) Cons.prems(6-8)]
    show ?thesis unfolding e
    proof (rule disjE [OF IH], goal_cases)
      case 1
      then show ?case using low by (metis list.set_intros not_less)
    next
      case 2
      let ?r = "find_region ?b sz xs"
      have "\<forall>a. base \<le> a \<and> a < ?r \<longrightarrow> (\<exists>y \<in> set (x # xs). {a..<a + sz} \<inter> map_range y \<noteq> {})"
        using 2 low by (metis list.set_intros not_less)
      moreover have "base \<le> ?r" using 2 x(4) by linarith
      ultimately show ?case using 2 hi by simp
    qed
  qed
qed

lemma insert_map_set [simp]: "set (insert_map y xs) = insert y (set xs)"
  by (induction xs) auto

lemma insert_map_ok:
  assumes "maps_ok xs" "region_ok y" "\<forall>x \<in> set xs. map_range y \<inter> map_range x = {}"
  shows "maps_ok (insert_map y xs)"
  using assms(1,3)
proof (induction xs)
  case Nil
  then show ?case using assms(2) by (simp add: maps_ok_def)
next
  case (Cons x xs)
  have x: "region_ok x" "maps_ok xs" "\<forall>z \<in> set xs. sm_start x + sm_size x \<le> sm_start z" using Cons.prems(1) by (auto simp: maps_ok_def)
  have pos: "0 < sm_size x" "0 < sm_size y" using x(1) assms(2) by (auto simp: region_ok_def)
  have sep: "sm_start x + sm_size x \<le> sm_start y \<or> sm_start y + sm_size y \<le> sm_start x"
  proof (rule ccontr)
    assume n: "\<not> ?thesis"
    then have "max (sm_start x) (sm_start y) \<in> map_range y \<inter> map_range x" using pos by (auto simp: map_range_def)
    then show False using Cons.prems(2) by auto
  qed
  show ?case
  proof (cases "sm_start x < sm_start y")
    case True
    then have "sm_start x + sm_size x \<le> sm_start y" using sep pos by auto
    then show ?thesis using True Cons x by (auto simp: maps_ok_def)
  next
    case False
    then have "sm_start y + sm_size y \<le> sm_start x" using sep pos by auto
    then show ?thesis using False Cons.prems(1) assms(2) x(3) by (fastforce simp: maps_ok_def)
  qed
qed

lemma remove_map_subset: "set (remove_map va xs) \<subseteq> set xs"
  by (induction xs) auto

lemma remove_map_ok: "maps_ok xs \<Longrightarrow> maps_ok (remove_map va xs)"
proof (induction xs)
  case Nil
  then show ?case by simp
next
  case (Cons x xs)
  then show ?case using remove_map_subset [of va xs] by (auto simp: maps_ok_def)
qed

text \<open>
  C20. For objects of at least one byte and at most the window's gigabyte, the region that a mapping gets
  is the lowest free one: page-aligned, inside the window, disjoint from every region of the address
  space, and 0 is returned only when no free region of that size exists; the list stays sorted and
  disjoint when the region is inserted, and when any region is removed.
\<close>

theorem shm_region_spec:
  assumes ok: "maps_ok xs" and sz: "0 < sz" "sz \<le> 0x40000000"
  shows "(let r = shm_find_free_region xs sz; n = page_round sz in
      if r = 0 then (\<forall>a. SHMEM_START \<le> a \<and> a + n \<le> SHMEM_END \<longrightarrow> (\<exists>x \<in> set xs. {a..<a + n} \<inter> map_range x \<noteq> {}))
      else sz \<le> n \<and> SHMEM_START \<le> r \<and> r + n \<le> SHMEM_END \<and> 4096 dvd r \<and>
        (\<forall>x \<in> set xs. {r..<r + n} \<inter> map_range x = {}) \<and>
        (\<forall>a. SHMEM_START \<le> a \<and> a < r \<longrightarrow> (\<exists>x \<in> set xs. {a..<a + n} \<inter> map_range x \<noteq> {})) \<and>
        maps_ok (insert_map \<lparr>sm_start = r, sm_size = n, sm_shm = ptr\<rparr> xs))
    \<and> maps_ok (remove_map va xs)"
proof -
  let ?n = "page_round sz" and ?r = "shm_find_free_region xs sz"
  have n: "?n = (sz + 4095) div 4096 * 4096" using sz by (simp add: page_round_def PAGE_SIZE_def w32_id)
  have nb: "sz \<le> ?n" "4096 dvd ?n" "?n \<le> 0x40000000" "0 < ?n" unfolding n using sz by auto
  have b: "\<forall>x \<in> set xs. SHMEM_START \<le> sm_start x" using ok by (auto simp: maps_ok_def region_ok_def)
  have s: "4096 dvd SHMEM_START" "SHMEM_START \<le> SHMEM_END" "0 < SHMEM_START" by (simp_all add: SHMEM_START_def SHMEM_END_def)
  note F = find_region_spec [OF ok b s(1) order_refl s(2) nb(4,2,3), folded shm_find_free_region_def]
  show ?thesis
  proof (cases "?r = 0")
    case True
    then show ?thesis using F s(3) remove_map_ok [OF ok] by (simp add: Let_def)
  next
    case False
    let ?y = "\<lparr>sm_start = ?r, sm_size = ?n, sm_shm = ptr\<rparr>"
    have "SHMEM_START \<le> ?r \<and> ?r + ?n \<le> SHMEM_END \<and> 4096 dvd ?r \<and> (\<forall>x \<in> set xs. {?r..<?r + ?n} \<inter> map_range x = {}) \<and>
        (\<forall>a. SHMEM_START \<le> a \<and> a < ?r \<longrightarrow> (\<exists>x \<in> set xs. {a..<a + ?n} \<inter> map_range x \<noteq> {}))"
      by (rule disjE [OF F], rule notE [OF False], erule conjunct1, assumption)
    note G = this
    have r: "SHMEM_START \<le> ?r" "?r + ?n \<le> SHMEM_END" "4096 dvd ?r"
      "\<forall>x \<in> set xs. {?r..<?r + ?n} \<inter> map_range x = {}"
      "\<forall>a. SHMEM_START \<le> a \<and> a < ?r \<longrightarrow> (\<exists>x \<in> set xs. {a..<a + ?n} \<inter> map_range x \<noteq> {})"
      using G by - (elim conjE, assumption)+
    have "region_ok ?y" using r(1-3) nb by (simp add: region_ok_def)
    moreover have "map_range ?y = {?r..<?r + ?n}" by (simp add: map_range_def)
    ultimately have "maps_ok (insert_map ?y xs)" using insert_map_ok [OF ok] r(4) by simp
    then show ?thesis using False r nb(1) remove_map_ok [OF ok] by (simp add: Let_def)
  qed
qed

lemma shm_region_spec_witness:
  "shm_find_free_region [\<lparr>sm_start = 0x60000000, sm_size = 0x1000, sm_shm = 1\<rparr>, \<lparr>sm_start = 0x60003000, sm_size = 0x1000, sm_shm = 2\<rparr>] 0x1800 = 0x60001000 \<and>
   maps_ok (remove_map 0x60000000 [\<lparr>sm_start = 0x60000000, sm_size = 0x1000, sm_shm = 1\<rparr>, \<lparr>sm_start = 0x60003000, sm_size = 0x1000, sm_shm = 2\<rparr>])"
  (is "?a \<and> maps_ok (remove_map _ ?xs)")
proof
  have "maps_ok ?xs" by (simp add: maps_ok_def region_ok_def SHMEM_START_def SHMEM_END_def)
  from shm_region_spec [OF this, of 1 0 "0x60000000"] show "maps_ok (remove_map 0x60000000 ?xs)" by simp
  show ?a by (simp add: shm_find_free_region_def page_round_def PAGE_SIZE_def SHMEM_START_def w32_def)
qed

text \<open>
  An object of size 0, which the system call accepts, breaks the order of the list: the region of the
  next object is put in front of it at the same address, the search steps back to that address, and the
  object mapped after that gets the region of the one before; \<open>map_page\<close> is told to overwrite.
\<close>

theorem shm_zero_size_overlap:
  "let r1 = shm_find_free_region [] 0; l1 = insert_map \<lparr>sm_start = r1, sm_size = 0, sm_shm = 1\<rparr> [];
       r2 = shm_find_free_region l1 4096; l2 = insert_map \<lparr>sm_start = r2, sm_size = 4096, sm_shm = 2\<rparr> l1;
       r3 = shm_find_free_region l2 4096
   in r1 = SHMEM_START \<and> r2 = SHMEM_START \<and> r3 = r2"
  by (simp add: shm_find_free_region_def page_round_def PAGE_SIZE_def SHMEM_START_def SHMEM_END_def w32_def Let_def)

subsection \<open>Reference counts\<close>

text \<open>
  The count of an object starts at one and \<^verbatim>\<open>shm_map\<close> adds to it, so that where it is one more than the number of the object's mappings
  the three operations keep it so, and \<^verbatim>\<open>shm_unmap\<close> never brings it to zero: it frees neither the object nor its number. (\<^verbatim>\<open>execve\<close> and the
  frame buffer layers drop mappings, and layers their own objects, without looking at the count.)
\<close>

definition maps_of :: "u32 set \<Rightarrow> nat \<Rightarrow> shm_state \<Rightarrow> nat" where
  "maps_of A ptr st = (\<Sum>p \<in> A. length (filter (\<lambda>x. sm_shm x = ptr) (shmem_lists st p)))"

definition shm_inv :: "u32 set \<Rightarrow> shm_state \<Rightarrow> bool" where
  "shm_inv A st \<longleftrightarrow> length (shm_table st) = MAX_SHM_OBJECTS \<and>
     (\<forall>ptr shm. shms st ptr = Some shm \<longrightarrow> sh_refcount shm = maps_of A ptr st + 1 \<and> sh_refcount shm < 2 ^ 32) \<and>
     (\<forall>p \<in> A. \<forall>x \<in> set (shmem_lists st p). shms st (sm_shm x) \<noteq> None) \<and>
     (\<forall>ptr. Some ptr \<in> set (shm_table st) \<longrightarrow> shms st ptr \<noteq> None)"

lemma insert_map_count:
  "length (filter P (insert_map y xs)) = length (filter P xs) + (if P y then 1 else 0)"
  by (induction xs) auto

lemma remove_map_count:
  "find_map va xs = Some x \<Longrightarrow> length (filter P xs) = length (filter P (remove_map va xs)) + (if P x then 1 else 0)"
  by (induction xs) (auto split: if_splits)

lemma find_map_set: "find_map va xs = Some x \<Longrightarrow> x \<in> set xs"
  by (induction xs) (auto split: if_splits)

lemma maps_of_upd:
  assumes "finite A" "p \<in> A"
  shows "maps_of A ptr (st\<lparr>shmem_lists := (shmem_lists st)(p := ys), shms := h\<rparr>) + length (filter (\<lambda>x. sm_shm x = ptr) (shmem_lists st p))
    = maps_of A ptr st + length (filter (\<lambda>x. sm_shm x = ptr) ys)"
proof -
  have "(\<Sum>q \<in> A - {p}. length (filter (\<lambda>x. sm_shm x = ptr) (((shmem_lists st)(p := ys)) q))) =
      (\<Sum>q \<in> A - {p}. length (filter (\<lambda>x. sm_shm x = ptr) (shmem_lists st q)))"
    by (rule sum.cong) auto
  then show ?thesis unfolding maps_of_def using assms by (simp add: sum.remove [of A p])
qed

lemma first_free_spec: "first_free es i = -1 \<or> (\<exists>k. first_free es i = int (i + k) \<and> k < length es \<and> es ! k = None)"
proof (induction es arbitrary: i)
  case Nil
  then show ?case by simp
next
  case (Cons e es)
  show ?case
  proof (cases "e = None")
    case True
    then show ?thesis by (auto intro: exI [of _ 0])
  next
    case False
    then show ?thesis using Cons.IH [of "i + 1"] by (auto intro: exI [of _ "Suc _"])
  qed
qed

lemma shm_invD:
  assumes "shm_inv A st"
  shows "\<And>ptr shm. shms st ptr = Some shm \<Longrightarrow> sh_refcount shm = maps_of A ptr st + 1"
    "\<And>ptr shm. shms st ptr = Some shm \<Longrightarrow> sh_refcount shm < 2 ^ 32"
  using assms unfolding shm_inv_def by blast+

lemma shm_inv_create:
  assumes inv: "shm_inv A st" and fresh: "shms st ptr = None" and fin: "finite A"
    and r: "sys_shm_create ptr sz (st, s) = Inr (r, st', s')"
  shows "shm_inv A st'"
proof (cases "shm_alloc_id st < 0")
  case True
  then show ?thesis using r inv by (simp add: sys_shm_create_def)
next
  case False
  obtain fs where e: "st' = st\<lparr>shms := (shms st)(ptr \<mapsto> \<lparr>sh_size = page_round sz, sh_npages = page_round sz div PAGE_SIZE,
        sh_pages = fs, sh_refcount = 1\<rparr>), shm_table := (shm_table st)[nat (shm_alloc_id st) := Some ptr]\<rparr>"
    using r False by (auto simp: sys_shm_create_def shm_create_def vbind_def Let_def split: sum.splits)
  have no: "\<forall>p \<in> A. \<forall>x \<in> set (shmem_lists st p). sm_shm x \<noteq> ptr" using inv fresh unfolding shm_inv_def by fastforce
  then have z: "maps_of A ptr st = 0" unfolding maps_of_def by (auto simp: filter_empty_conv)
  have mo: "maps_of A q st' = maps_of A q st" for q unfolding e maps_of_def by simp
  show ?thesis unfolding shm_inv_def
  proof (intro conjI allI impI ballI)
    show "length (shm_table st') = MAX_SHM_OBJECTS" using inv by (simp add: e shm_inv_def)
  next
    fix q shm assume q: "shms st' q = Some shm"
    show "sh_refcount shm = maps_of A q st' + 1" unfolding mo
      using q z shm_invD(1) [OF inv, of q shm] by (cases "q = ptr") (auto simp: e)
    show "sh_refcount shm < 2 ^ 32" using q shm_invD(2) [OF inv, of q shm] by (cases "q = ptr") (auto simp: e)
  next
    fix p x assume "p \<in> A" "x \<in> set (shmem_lists st' p)"
    then show "shms st' (sm_shm x) \<noteq> None" using inv by (auto simp: e shm_inv_def)
  next
    fix q assume "Some q \<in> set (shm_table st')"
    then have "q = ptr \<or> Some q \<in> set (shm_table st)" using set_update_subset_insert by (fastforce simp: e)
    then show "shms st' q \<noteq> None" using inv by (auto simp: e shm_inv_def)
  qed
qed

lemma shm_inv_map:
  assumes inv: "shm_inv A st" and fin: "finite A" and p: "p \<in> A" and b: "maps_of A ptr st + 2 < 2 ^ 32"
    and r: "shm_map p ptr (st, s) = Inr (va, st', s')"
  shows "shm_inv A st'"
proof -
  obtain shm where h: "shms st ptr = Some shm" using r by (auto simp: shm_map_def split: option.splits)
  let ?va = "shm_find_free_region (shmem_lists st p) (sh_size shm)"
  let ?y = "\<lparr>sm_start = ?va, sm_size = sh_size shm, sm_shm = ptr\<rparr>"
  have e: "st' = st\<lparr>shmem_lists := (shmem_lists st)(p := insert_map ?y (shmem_lists st p)),
      shms := (shms st)(ptr \<mapsto> shm\<lparr>sh_refcount := w32 (sh_refcount shm + 1)\<rparr>)\<rparr>"
    using r h by (auto simp: shm_map_def vbind_def Let_def split: sum.splits if_splits)
  have rc: "sh_refcount shm = maps_of A ptr st + 1" using shm_invD(1) [OF inv h] .
  have mo: "maps_of A q st' = maps_of A q st + (if q = ptr then 1 else 0)" for q
    using maps_of_upd [OF fin p, where ptr = q and st = st and ys = "insert_map ?y (shmem_lists st p)"] unfolding e by (auto simp: insert_map_count)
  show ?thesis unfolding shm_inv_def
  proof (intro conjI allI impI ballI)
    show "length (shm_table st') = MAX_SHM_OBJECTS" using inv by (simp add: e shm_inv_def)
  next
    fix q sh assume q: "shms st' q = Some sh"
    show "sh_refcount sh = maps_of A q st' + 1" unfolding mo
      using q shm_invD(1) [OF inv, of q sh] rc b by (cases "q = ptr") (auto simp: e w32_id)
    show "sh_refcount sh < 2 ^ 32" using q shm_invD(2) [OF inv, of q sh] by (cases "q = ptr") (auto simp: e)
  next
    fix u x assume "u \<in> A" "x \<in> set (shmem_lists st' u)"
    then show "shms st' (sm_shm x) \<noteq> None" using inv h by (auto simp: e shm_inv_def split: if_splits)
  next
    fix q assume "Some q \<in> set (shm_table st')"
    then show "shms st' q \<noteq> None" using inv by (auto simp: e shm_inv_def)
  qed
qed

lemma shm_inv_unmap:
  assumes inv: "shm_inv A st" and fin: "finite A" and p: "p \<in> A" and r: "shm_unmap p va (st, s) = Inr (st', s')"
  shows "shm_inv A st' \<and> dom (shms st') = dom (shms st) \<and> shm_table st' = shm_table st"
proof (cases "find_map va (shmem_lists st p)")
  case None
  then show ?thesis using r inv by (simp add: shm_unmap_def)
next
  case (Some x)
  then have xs: "x \<in> set (shmem_lists st p)" by (rule find_map_set)
  then obtain shm where h: "shms st (sm_shm x) = Some shm" using inv p unfolding shm_inv_def by blast
  let ?ptr = "sm_shm x"
  have rc: "sh_refcount shm = maps_of A ?ptr st + 1" "sh_refcount shm < 2 ^ 32" using shm_invD [OF inv] h by blast+
  have "0 < length (filter (\<lambda>y. sm_shm y = ?ptr) (shmem_lists st p))" using xs by (auto simp: filter_empty_conv)
  also have "\<dots> \<le> maps_of A ?ptr st" unfolding maps_of_def by (rule member_le_sum) (use p fin in auto)
  finally have pos: "1 < sh_refcount shm" using rc by simp
  have e: "st' = st\<lparr>shmem_lists := (shmem_lists st)(p := remove_map va (shmem_lists st p)),
      shms := (shms st)(?ptr \<mapsto> shm\<lparr>sh_refcount := sh_refcount shm - 1\<rparr>)\<rparr>"
    using r Some h pos by (auto simp: shm_unmap_def shm_drop_def vbind_def sub32_le Let_def split: sum.splits)
  have mo: "maps_of A q st' + (if q = ?ptr then 1 else 0) = maps_of A q st" for q
    using maps_of_upd [OF fin p, where ptr = q and st = st and ys = "remove_map va (shmem_lists st p)"] remove_map_count [OF Some, of "\<lambda>y. sm_shm y = q"]
    unfolding e by auto
  have "shm_inv A st'" unfolding shm_inv_def
  proof (intro conjI allI impI ballI)
    show "length (shm_table st') = MAX_SHM_OBJECTS" using inv by (simp add: e shm_inv_def)
  next
    fix q sh assume q: "shms st' q = Some sh"
    show "sh_refcount sh = maps_of A q st' + 1"
      using q shm_invD(1) [OF inv, of q sh] rc mo [of q] by (cases "q = ?ptr") (auto simp: e)
    show "sh_refcount sh < 2 ^ 32" using q shm_invD(2) [OF inv, of q sh] rc by (cases "q = ?ptr") (auto simp: e)
  next
    fix u y assume "u \<in> A" "y \<in> set (shmem_lists st' u)"
    then show "shms st' (sm_shm y) \<noteq> None" using inv h remove_map_subset by (fastforce simp: e shm_inv_def split: if_splits)
  next
    fix q assume "Some q \<in> set (shm_table st')"
    then show "shms st' q \<noteq> None" using inv by (auto simp: e shm_inv_def)
  qed
  then show ?thesis using h by (auto simp: e)
qed

end
