(* ===== verification/Addrspace.thy ===== *)
theory Addrspace
  imports Usercopy Shm
begin

text \<open>
  Address spaces, \<^verbatim>\<open>kernel/vmm/vmm.c\<close>, and the tables that \<^verbatim>\<open>kernel/vmm/paging_init.c\<close> builds before
  paging is on. The addresses that the linker gives to the boot tables are a record of the model. The
  heap object of an address space is left out: an address space is its page directory, and its list of
  shared mappings is in the state of the shared memory.
\<close>

subsection \<open>The boot tables\<close>

definition KERNEL_PHYS_BASE :: u32 where "KERNEL_PHYS_BASE = 0x00200000"
definition KERNEL_VMA_BASE :: u32 where "KERNEL_VMA_BASE = 0xC0000000"
definition KERNEL_HEAP_VMA :: u32 where "KERNEL_HEAP_VMA = 0xC1000000"
definition HEAP_PHYS :: u32 where "HEAP_PHYS = word_of_nat KERNEL_HEAP_PHYS"
definition HEAP_SIZE :: u32 where "HEAP_SIZE = word_of_nat KERNEL_HEAP_SIZE"
definition STACK_PHYS :: u32 where "STACK_PHYS = word_of_nat KERNEL_STACK_PHYS"
definition KERNEL_PDE_COUNT :: nat where "KERNEL_PDE_COUNT = (KERNEL_HEAP_SIZE + 0x3FFFFF) div 0x400000"
definition KERNEL_HEAP_PDA :: nat where "KERNEL_HEAP_PDA = unat (drop_bit 22 KERNEL_HEAP_VMA)"
definition FB_VMA_BASE :: u32 where "FB_VMA_BASE = 0xE0000000"
definition FB_MAX_SIZE :: nat where "FB_MAX_SIZE = 2560 * 1440 * 4"
definition FB_PDE_COUNT :: nat where "FB_PDE_COUNT = (FB_MAX_SIZE + 0x3FFFFF) div 0x400000"
definition KERNEL_STACK_VMA :: u32 where "KERNEL_STACK_VMA = 0xF0000000"
definition LAYER_PDE_BASE :: nat where "LAYER_PDE_BASE = unat (drop_bit 22 FB_VMA_BASE) + FB_PDE_COUNT"
definition LAYER_PDE_COUNT :: nat where "LAYER_PDE_COUNT = unat (drop_bit 22 KERNEL_STACK_VMA) - LAYER_PDE_BASE"

definition virt_to_phys :: "u32 \<Rightarrow> u32" where
  "virt_to_phys v =
     (if KERNEL_HEAP_VMA \<le> v \<and> v < KERNEL_HEAP_VMA + HEAP_SIZE then v - KERNEL_HEAP_VMA + HEAP_PHYS
      else if KERNEL_VMA_BASE \<le> v \<and> v < KERNEL_HEAP_VMA then v - KERNEL_VMA_BASE + KERNEL_PHYS_BASE
      else v)"

definition phys_to_virt :: "u32 \<Rightarrow> u32" where
  "phys_to_virt p =
     (if HEAP_PHYS \<le> p \<and> p < HEAP_PHYS + HEAP_SIZE then p - HEAP_PHYS + KERNEL_HEAP_VMA
      else if KERNEL_PHYS_BASE \<le> p \<and> p < HEAP_PHYS then p - KERNEL_PHYS_BASE + KERNEL_VMA_BASE
      else p)"

record boot_layout =
  page_directory :: u32
  first_page_table :: u32
  kernel_page_tables :: "nat \<Rightarrow> u32"
  heap_page_tables :: "nat \<Rightarrow> u32"
  fb_page_tables :: "nat \<Rightarrow> u32"
  layer_page_tables :: "nat \<Rightarrow> u32"
  kernel_stack_page_table :: u32

definition mk_entry :: "u32 \<Rightarrow> u32 \<Rightarrow> u32" where
  "mk_entry phys fl = (phys AND 0xFFFFF000) OR fl"

text \<open>\<^verbatim>\<open>for (i = 0; i < PAGE_ENTRIES; ++i) table[i] = entry(i)\<close>.\<close>

definition fill_table :: "u32 \<Rightarrow> (nat \<Rightarrow> u32) \<Rightarrow> vm \<Rightarrow> vm" where
  "fill_table f e s = fold (\<lambda>i s. fset f i (e i) s) [0..<PAGE_ENTRIES] s"

text \<open>For each of \<open>n\<close> tables: fill it, then enter it in the directory from index \<open>base\<close> on.\<close>

definition fill_range :: "u32 \<Rightarrow> nat \<Rightarrow> (nat \<Rightarrow> u32) \<Rightarrow> (nat \<Rightarrow> nat \<Rightarrow> u32) \<Rightarrow> (nat \<Rightarrow> u32) \<Rightarrow> nat \<Rightarrow> vm \<Rightarrow> vm" where
  "fill_range pd base tabs e pde n s =
     fold (\<lambda>k s. fset pd (base + k) (pde k) (fill_table (tabs k) (e k) s)) [0..<n] s"

definition linear_entry :: "u32 \<Rightarrow> nat \<Rightarrow> nat \<Rightarrow> u32" where
  "linear_entry phys k i = phys + word_of_nat k * 0x400000 + word_of_nat i * word_of_nat PAGE_SIZE"

definition paging_init :: "boot_layout \<Rightarrow> u32 \<Rightarrow> vm \<Rightarrow> vm" where
  "paging_init L fb s0 =
     (let pd = page_directory L;
          s = fill_table pd (\<lambda>i. 0) s0;
          s = fill_table (first_page_table L) (\<lambda>i. mk_entry (word_of_nat i * word_of_nat PAGE_SIZE) PAGE_FLAGS) s;
          s = fset pd 0 (mk_entry (first_page_table L) PAGE_FLAGS) s;
          s = fill_range pd 768 (kernel_page_tables L) (\<lambda>k i. mk_entry (linear_entry KERNEL_PHYS_BASE k i) PAGE_FLAGS)
                (\<lambda>k. mk_entry (kernel_page_tables L k) PAGE_FLAGS) 64 s;
          s = fill_range pd (unat (drop_bit 22 FB_VMA_BASE)) (fb_page_tables L) (\<lambda>k i. linear_entry fb k i OR PAGE_FLAGS)
                (\<lambda>k. fb_page_tables L k OR PAGE_FLAGS) FB_PDE_COUNT s;
          s = fill_range pd LAYER_PDE_BASE (layer_page_tables L) (\<lambda>k i. 0) (\<lambda>k. mk_entry (layer_page_tables L k) PAGE_FLAGS)
                LAYER_PDE_COUNT s;
          s = fill_range pd KERNEL_HEAP_PDA (heap_page_tables L) (\<lambda>k i. linear_entry HEAP_PHYS k i OR PAGE_FLAGS)
                (\<lambda>k. heap_page_tables L k OR PAGE_FLAGS) KERNEL_PDE_COUNT s;
          s = fill_table (kernel_stack_page_table L) (\<lambda>i. (STACK_PHYS + word_of_nat i * word_of_nat PAGE_SIZE) OR PAGE_FLAGS) s;
          s = fset pd (unat (drop_bit 22 KERNEL_STACK_VMA)) (mk_entry (kernel_stack_page_table L) PAGE_FLAGS) s
      in s\<lparr>cr3 := pd\<rparr>)"

text \<open>\<open>vmm_init\<close>: \<^verbatim>\<open>page_directory\<close> lies in the identity-mapped part, at its physical address.\<close>

definition vmm_init :: "boot_layout \<Rightarrow> vm \<Rightarrow> vm_error + vm" where
  "vmm_init L s =
     (let pd_phys = cr3 s AND PAGE_MASK; pd_tmp = page_directory L in
      vbind (vload pd_tmp SELF_PDE_BASE s) (\<lambda>e.
      vbind (if \<not> present e then vstore pd_tmp SELF_PDE_BASE ((pd_phys AND PAGE_MASK) OR PAGE_FLAGS) s else Inr s) (\<lambda>s.
      vbind (vload pd_tmp KMAP_PDE_BASE s) (\<lambda>e.
      vbind (if \<not> present e then
               vbind (alloc_frame s) (\<lambda>(k, s).
               if k = 0 then Inl Vm_panic
               else vstore pd_tmp KMAP_PDE_BASE ((k AND PAGE_MASK) OR PAGE_FLAGS) (s\<lparr>kmap_pt_phys := k\<rparr>))
             else Inr s) (\<lambda>s.
      vbind (kunmap (s\<lparr>cr3 := pd_phys\<rparr>)) (\<lambda>s. vzero kmap_pt_va s))))))"

subsection \<open>Creating, destroying and switching\<close>

fun copy_pdes :: "nat \<Rightarrow> nat \<Rightarrow> vm \<Rightarrow> vm_error + vm" where
  "copy_pdes i 0 s = Inr s"
| "copy_pdes i (Suc n) s =
     vbind (vload cur_pd_va i s) (\<lambda>e. vbind (vstore KMAP_BASE i e s) (copy_pdes (i + 1) n))"

definition create_address_space :: "vm \<Rightarrow> vm_error + u32 \<times> vm" where
  "create_address_space s =
     vbind (alloc_frame s) (\<lambda>(pd, s).
     if pd = 0 then Inl Vm_panic
     else vbind (kmap pd s) (\<lambda>s.
       vbind (vzero KMAP_BASE s) (\<lambda>s.
       vbind (copy_pdes KERNEL_PDE_BASE (PAGE_ENTRIES - KERNEL_PDE_BASE) s) (\<lambda>s.
       vbind (vstore KMAP_BASE SELF_PDE_BASE ((pd AND PAGE_MASK) OR PAGE_FLAGS) s) (\<lambda>s.
       vbind (vstore KMAP_BASE KMAP_PDE_BASE ((kmap_pt_phys s AND PAGE_MASK) OR PAGE_FLAGS) s) (\<lambda>s.
       vbind (vload cur_pd_va 0 s) (\<lambda>e.
       vbind (vstore KMAP_BASE 0 (e OR PAGE_FLAGS) s) (\<lambda>s.
       vbind (kunmap s) (\<lambda>s. Inr (pd, s))))))))))"

text \<open>The entries \<open>i, i + 1, \<dots>\<close> of the table in the window: free the page unless it is shared memory, clear the entry.\<close>

fun destroy_entries :: "bool \<Rightarrow> nat \<Rightarrow> nat \<Rightarrow> vm \<Rightarrow> vm_error + vm" where
  "destroy_entries sh i 0 s = Inr s"
| "destroy_entries sh i (Suc n) s =
     vbind (vload KMAP_BASE i s) (\<lambda>e.
     if \<not> present e then destroy_entries sh (i + 1) n s
     else vbind (if \<not> sh then free_frame (e AND PAGE_MASK) s else Inr s) (\<lambda>s.
          vbind (vstore KMAP_BASE i 0 s) (destroy_entries sh (i + 1) n)))"

fun destroy_tables :: "u32 \<Rightarrow> nat \<Rightarrow> nat \<Rightarrow> vm \<Rightarrow> vm_error + vm" where
  "destroy_tables pd i 0 s = Inr s"
| "destroy_tables pd i (Suc n) s =
     vbind (kpeek pd i s) (\<lambda>(pde, s).
     if \<not> present pde then destroy_tables pd (i + 1) n s
     else
       let sh = (vmm_pdi (word_of_nat SHMEM_START) \<le> i \<and> i \<le> vmm_pdi (word_of_nat SHMEM_END)); t = pde AND PAGE_MASK in
       vbind (kmap t s) (\<lambda>s.
       vbind (destroy_entries sh 0 PAGE_ENTRIES s) (\<lambda>s.
       vbind (kunmap s) (\<lambda>s.
       vbind (free_frame t s) (\<lambda>s.
       vbind (kmap pd s) (\<lambda>s.
       vbind (vstore KMAP_BASE i 0 s) (\<lambda>s.
       vbind (kunmap s) (destroy_tables pd (i + 1) n))))))))"

definition destroy_address_space :: "u32 option \<Rightarrow> vm \<Rightarrow> vm_error + vm" where
  "destroy_address_space as s =
     (case as of
        None \<Rightarrow> Inr s
      | Some pd \<Rightarrow> vbind (destroy_tables pd 1 (KERNEL_PDE_BASE - 1) s) (free_frame pd))"

definition switch_address_space :: "u32 option \<Rightarrow> vm \<Rightarrow> vm" where
  "switch_address_space as s =
     (case as of
        None \<Rightarrow> s
      | Some pd \<Rightarrow> let new = pd AND PAGE_MASK in if cr3 s AND PAGE_MASK \<noteq> new then s\<lparr>cr3 := new\<rparr> else s)"

subsection \<open>What the boot tables translate\<close>

lemma fill_table_frames:
  "frames (fill_table f e s) g i = (if g = f \<and> i < PAGE_ENTRIES then e i else frames s g i)"
proof -
  have "frames (fold (\<lambda>i s. fset f i (e i) s) [0..<n] s) g i = (if g = f \<and> i < n then e i else frames s g i)" for n
    by (induction n) (auto simp: less_Suc_eq)
  then show ?thesis unfolding fill_table_def .
qed

lemma fill_range_frames:
  assumes "inj_on tabs {..<n}" "pd \<notin> tabs ` {..<n}"
  shows "frames (fill_range pd base tabs e pde n s) pd i = (if base \<le> i \<and> i < base + n then pde (i - base) else frames s pd i)"
    and "k < n \<Longrightarrow> i < PAGE_ENTRIES \<Longrightarrow> frames (fill_range pd base tabs e pde n s) (tabs k) i = e k i"
    and "g \<noteq> pd \<Longrightarrow> g \<notin> tabs ` {..<n} \<Longrightarrow> frames (fill_range pd base tabs e pde n s) g i = frames s g i"
proof -
  let ?f = "\<lambda>n. fold (\<lambda>k s. fset pd (base + k) (pde k) (fill_table (tabs k) (e k) s)) [0..<n] s"
  have A: "frames (?f m) pd i = (if base \<le> i \<and> i < base + m then pde (i - base) else frames s pd i)" if "m \<le> n" for m
    using that assms(2) by (induction m) (auto simp: fill_table_frames less_Suc_eq)
  have B: "k < m \<Longrightarrow> i < PAGE_ENTRIES \<Longrightarrow> frames (?f m) (tabs k) i = e k i" if "m \<le> n" for m
    using that
  proof (induction m)
    case 0
    then show ?case by simp
  next
    case (Suc m)
    have "tabs k \<noteq> pd" using assms(2) Suc.prems by auto
    moreover have "tabs k = tabs m \<longleftrightarrow> k = m" using inj_on_eq_iff [OF assms(1)] Suc.prems by simp
    ultimately show ?case using Suc by (auto simp: fill_table_frames less_Suc_eq)
  qed
  have C: "g \<noteq> pd \<Longrightarrow> g \<notin> tabs ` {..<n} \<Longrightarrow> frames (?f m) g i = frames s g i" if "m \<le> n" for m
    using that by (induction m) (auto simp: fill_table_frames)
  show "frames (fill_range pd base tabs e pde n s) pd i = (if base \<le> i \<and> i < base + n then pde (i - base) else frames s pd i)"
    using A [of n] by (simp add: fill_range_def)
  show "k < n \<Longrightarrow> i < PAGE_ENTRIES \<Longrightarrow> frames (fill_range pd base tabs e pde n s) (tabs k) i = e k i"
    using B [of n] by (simp add: fill_range_def)
  show "g \<noteq> pd \<Longrightarrow> g \<notin> tabs ` {..<n} \<Longrightarrow> frames (fill_range pd base tabs e pde n s) g i = frames s g i"
    using C [of n] by (simp add: fill_range_def)
qed

lemma masked_iff: "x AND PAGE_MASK = x \<longleftrightarrow> 4096 dvd unat x"
proof -
  have "unat x div 4096 * 4096 = unat x \<longleftrightarrow> 4096 dvd unat x" by (metis dvd_triv_right dvd_div_mult_self)
  then show ?thesis by (simp only: word_unat_eq_iff mask_nat)
qed

lemma masked_add: "x AND PAGE_MASK = x \<Longrightarrow> y AND PAGE_MASK = y \<Longrightarrow> (x + y) AND PAGE_MASK = x + y"
  unfolding masked_iff by (simp add: unat_word_ariths dvd_mod)

lemma masked_mult: "(a * 4096) AND PAGE_MASK = a * 4096"
  unfolding masked_iff by (simp add: unat_word_ariths dvd_mod)

lemma linear_entry_masked: "phys AND PAGE_MASK = phys \<Longrightarrow> linear_entry phys k i AND PAGE_MASK = linear_entry phys k i"
proof -
  assume p: "phys AND PAGE_MASK = phys"
  have e: "linear_entry phys k i = phys + (word_of_nat k * 1024) * 4096 + word_of_nat i * 4096"
    by (simp add: linear_entry_def PAGE_SIZE_def)
  show ?thesis unfolding e by (intro masked_add p masked_mult)
qed

lemma address_parts: "v = word_of_nat (vmm_pdi v) * 0x400000 + word_of_nat (vmm_pti v) * 4096 + page_off v"
proof -
  have "unat v = vmm_pdi v * 0x400000 + vmm_pti v * 4096 + unat v mod 4096"
  proof -
    have "unat v div 4096 = vmm_pdi v * 1024 + vmm_pti v"
      using div_mult_mod_eq [of "unat v div 4096" 1024] by (simp add: vmm_pdi_nat vmm_pti_nat div_mult2_eq [symmetric])
    then show ?thesis using div_mult_mod_eq [of "unat v" 4096] by simp
  qed
  from arg_cong [OF this, of "word_of_nat :: nat \<Rightarrow> u32"]
  have "v = word_of_nat (vmm_pdi v) * 0x400000 + word_of_nat (vmm_pti v) * 4096 + word_of_nat (unat v mod 4096)" by simp
  then show ?thesis unfolding page_off_nat [symmetric] by simp
qed

lemma linear_entry_address:
  assumes "vmm_pdi v = base + k"
  shows "linear_entry phys k (vmm_pti v) + page_off v = v - word_of_nat base * 0x400000 + phys"
proof -
  have "v = word_of_nat (base + k) * 0x400000 + word_of_nat (vmm_pti v) * 4096 + page_off v"
    using address_parts [of v] assms by simp
  then show ?thesis by (simp add: linear_entry_def PAGE_SIZE_def algebra_simps)
qed

definition boot_tables :: "boot_layout \<Rightarrow> u32 list" where
  "boot_tables L = page_directory L # first_page_table L # kernel_stack_page_table L # map (kernel_page_tables L) [0..<64] @
     map (heap_page_tables L) [0..<64] @ map (fb_page_tables L) [0..<4] @ map (layer_page_tables L) [0..<60]"

text \<open>The linker places the tables at page boundaries, each on a page of its own.\<close>

definition layout_ok :: "boot_layout \<Rightarrow> bool" where
  "layout_ok L \<longleftrightarrow> distinct (boot_tables L) \<and> (\<forall>t \<in> set (boot_tables L). t AND PAGE_MASK = t)"

lemma boot_counts:
  "KERNEL_PDE_COUNT = 64" "KERNEL_HEAP_PDA = 772" "FB_PDE_COUNT = 4" "LAYER_PDE_BASE = 900" "LAYER_PDE_COUNT = 60"
  "unat (drop_bit 22 FB_VMA_BASE) = 896" "unat (drop_bit 22 KERNEL_STACK_VMA) = 960"
  by (simp_all add: KERNEL_PDE_COUNT_def KERNEL_HEAP_SIZE_def KERNEL_HEAP_PDA_def KERNEL_HEAP_VMA_def FB_PDE_COUNT_def
      FB_MAX_SIZE_def LAYER_PDE_BASE_def LAYER_PDE_COUNT_def FB_VMA_BASE_def KERNEL_STACK_VMA_def)

lemma layout_tables:
  assumes "layout_ok L"
  defines "K \<equiv> kernel_page_tables L ` {..<64}" and "H \<equiv> heap_page_tables L ` {..<64}" and "B \<equiv> fb_page_tables L ` {..<4}"
    and "Y \<equiv> layer_page_tables L ` {..<60}"
  shows "inj_on (kernel_page_tables L) {..<64}" "inj_on (heap_page_tables L) {..<64}" "inj_on (fb_page_tables L) {..<4}"
    "inj_on (layer_page_tables L) {..<60}" "page_directory L \<notin> K \<union> H \<union> B \<union> Y" "page_directory L \<noteq> first_page_table L"
    "page_directory L \<noteq> kernel_stack_page_table L" "kernel_stack_page_table L \<notin> K \<union> H" "first_page_table L \<notin> K \<union> H"
    "K \<inter> H = {}" "K \<inter> B = {}" "K \<inter> Y = {}" "\<forall>t \<in> K \<union> H. t AND PAGE_MASK = t"
proof -
  have e: "set (map f [0..<n]) = f ` {..<n}" for f :: "nat \<Rightarrow> u32" and n by (simp add: atLeast0LessThan)
  have d: "distinct (boot_tables L)" using assms(1) by (simp add: layout_ok_def)
  show "inj_on (kernel_page_tables L) {..<64}" "inj_on (heap_page_tables L) {..<64}" "inj_on (fb_page_tables L) {..<4}"
    "inj_on (layer_page_tables L) {..<60}"
    using d unfolding boot_tables_def distinct.simps distinct_append distinct_map by (simp_all add: atLeast0LessThan)
  from d have p: "page_directory L \<notin> insert (first_page_table L) (insert (kernel_stack_page_table L) (K \<union> (H \<union> (B \<union> Y))))"
    "first_page_table L \<notin> insert (kernel_stack_page_table L) (K \<union> (H \<union> (B \<union> Y)))"
    "kernel_stack_page_table L \<notin> K \<union> (H \<union> (B \<union> Y))" "K \<inter> (H \<union> (B \<union> Y)) = {}"
    unfolding boot_tables_def distinct.simps distinct_append set_append set_simps e K_def H_def B_def Y_def
    by - (elim conjE, assumption)+
  from p(1) show "page_directory L \<notin> K \<union> H \<union> B \<union> Y" "page_directory L \<noteq> first_page_table L"
    "page_directory L \<noteq> kernel_stack_page_table L" by auto
  from p(2) show "first_page_table L \<notin> K \<union> H" by auto
  from p(3) show "kernel_stack_page_table L \<notin> K \<union> H" by auto
  from p(4) show "K \<inter> H = {}" "K \<inter> B = {}" "K \<inter> Y = {}" by auto
  show "\<forall>t \<in> K \<union> H. t AND PAGE_MASK = t"
    using assms(1) unfolding layout_ok_def boot_tables_def set_append set_simps e K_def H_def by blast
qed

lemma fset_cr3 [simp]: "frames (s\<lparr>cr3 := c\<rparr>) = frames s" for s :: vm
  by simp

lemma paging_init_frames:
  fixes fb :: u32 and s0 :: vm
  assumes L: "layout_ok L"
  defines "s \<equiv> paging_init L fb s0"
  shows "k < 4 \<Longrightarrow> frames s (page_directory L) (768 + k) = mk_entry (kernel_page_tables L k) PAGE_FLAGS"
    and "k < 64 \<Longrightarrow> frames s (page_directory L) (772 + k) = heap_page_tables L k OR PAGE_FLAGS"
    and "k < 4 \<Longrightarrow> i < 1024 \<Longrightarrow> frames s (kernel_page_tables L k) i = mk_entry (linear_entry KERNEL_PHYS_BASE k i) PAGE_FLAGS"
    and "k < 64 \<Longrightarrow> i < 1024 \<Longrightarrow> frames s (heap_page_tables L k) i = linear_entry HEAP_PHYS k i OR PAGE_FLAGS"
proof -
  note T = layout_tables [OF L]
  let ?pd = "page_directory L"
  define s1 where "s1 = fset ?pd 0 (mk_entry (first_page_table L) PAGE_FLAGS)
    (fill_table (first_page_table L) (\<lambda>i. mk_entry (word_of_nat i * word_of_nat PAGE_SIZE) PAGE_FLAGS) (fill_table ?pd (\<lambda>i. 0) s0))"
  define s2 where "s2 = fill_range ?pd 768 (kernel_page_tables L) (\<lambda>k i. mk_entry (linear_entry KERNEL_PHYS_BASE k i) PAGE_FLAGS)
      (\<lambda>k. mk_entry (kernel_page_tables L k) PAGE_FLAGS) 64 s1"
  define s3 where "s3 = fill_range ?pd 896 (fb_page_tables L) (\<lambda>k i. linear_entry fb k i OR PAGE_FLAGS)
      (\<lambda>k. fb_page_tables L k OR PAGE_FLAGS) 4 s2"
  define s4 where "s4 = fill_range ?pd 900 (layer_page_tables L) (\<lambda>k i. 0) (\<lambda>k. mk_entry (layer_page_tables L k) PAGE_FLAGS) 60 s3"
  define s5 where "s5 = fill_range ?pd 772 (heap_page_tables L) (\<lambda>k i. linear_entry HEAP_PHYS k i OR PAGE_FLAGS)
      (\<lambda>k. heap_page_tables L k OR PAGE_FLAGS) 64 s4"
  have s: "s = (fset ?pd 960 (mk_entry (kernel_stack_page_table L) PAGE_FLAGS)
      (fill_table (kernel_stack_page_table L) (\<lambda>i. (STACK_PHYS + word_of_nat i * word_of_nat PAGE_SIZE) OR PAGE_FLAGS) s5))\<lparr>cr3 := ?pd\<rparr>"
    unfolding s_def paging_init_def boot_counts Let_def s5_def s4_def s3_def s2_def s1_def ..
  note F2 = fill_range_frames [where pd = "?pd" and tabs = "kernel_page_tables L" and n = 64, OF T(1)]
  note F3 = fill_range_frames [where pd = "?pd" and tabs = "fb_page_tables L" and n = 4, OF T(3)]
  note F4 = fill_range_frames [where pd = "?pd" and tabs = "layer_page_tables L" and n = 60, OF T(4)]
  note F5 = fill_range_frames [where pd = "?pd" and tabs = "heap_page_tables L" and n = 64, OF T(2)]
  have n: "?pd \<notin> kernel_page_tables L ` {..<64}" "?pd \<notin> fb_page_tables L ` {..<4}" "?pd \<notin> layer_page_tables L ` {..<60}"
    "?pd \<notin> heap_page_tables L ` {..<64}" using T(5) by auto
  have pd: "frames s ?pd i = frames s5 ?pd i" if "i \<noteq> 960" for i using that T(7) by (simp add: s fill_table_frames)
  have tb: "frames s g i = frames s5 g i" if "g \<noteq> ?pd" "g \<noteq> kernel_stack_page_table L" for g i
    using that by (simp add: s fill_table_frames)
  show "frames s ?pd (768 + k) = mk_entry (kernel_page_tables L k) PAGE_FLAGS" if "k < 4"
    using that pd [of "768 + k"] unfolding s5_def F5(1) [OF n(4)] s4_def F4(1) [OF n(3)] s3_def F3(1) [OF n(2)] s2_def F2(1) [OF n(1)]
    by simp
  show "frames s ?pd (772 + k) = heap_page_tables L k OR PAGE_FLAGS" if "k < 64"
    using that pd [of "772 + k"] unfolding s5_def F5(1) [OF n(4)] by simp
  show "frames s (heap_page_tables L k) i = linear_entry HEAP_PHYS k i OR PAGE_FLAGS" if "k < 64" "i < 1024"
  proof -
    have "heap_page_tables L k \<noteq> ?pd" "heap_page_tables L k \<noteq> kernel_stack_page_table L"
      using T(5,8) imageI [of k "{..<64}" "heap_page_tables L"] that(1) by (metis UnI1 UnI2 lessThan_iff)+
    then show ?thesis using tb F5(2) [OF n(4) that(1)] that(2) by (simp add: s5_def PAGE_ENTRIES_def)
  qed
  show "frames s (kernel_page_tables L k) i = mk_entry (linear_entry KERNEL_PHYS_BASE k i) PAGE_FLAGS" if "k < 4" "i < 1024"
  proof -
    let ?g = "kernel_page_tables L k"
    have k: "?g \<in> kernel_page_tables L ` {..<64}" using that(1) by auto
    have g: "?g \<noteq> ?pd" "?g \<noteq> kernel_stack_page_table L" "?g \<notin> heap_page_tables L ` {..<64}" "?g \<notin> fb_page_tables L ` {..<4}"
      "?g \<notin> layer_page_tables L ` {..<60}" using T(5) T(8) T(10) T(11) T(12) k by (metis UnI1 disjoint_iff)+
    have "frames s ?g i = frames s2 ?g i"
      unfolding tb [OF g(1,2)] s5_def F5(3) [OF n(4) g(1,3)] s4_def F4(3) [OF n(3) g(1,5)] s3_def F3(3) [OF n(2) g(1,4)] ..
    then show ?thesis using F2(2) [OF n(1), of k i] that by (simp add: s2_def PAGE_ENTRIES_def)
  qed
qed

text \<open>
  C19. The tables that \<open>paging_init\<close> builds translate every address of the kernel's image and of its heap
  to the physical address that \<open>virt_to_phys\<close> computes, and \<open>phys_to_virt\<close> inverts it there.
\<close>

theorem paging_init_translates:
  assumes L: "layout_ok L" and v: "KERNEL_VMA_BASE \<le> v \<and> v < KERNEL_HEAP_VMA + HEAP_SIZE"
  shows "(case pte_of (paging_init L fb s0) (cr3 (paging_init L fb s0)) v of
      None \<Rightarrow> False | Some e \<Rightarrow> (e AND PAGE_MASK) + page_off v = virt_to_phys v)
    \<and> phys_to_virt (virt_to_phys v) = v"
proof
  let ?s = "paging_init L fb s0"
  note T = layout_tables [OF L] and F = paging_init_frames [OF L, where fb = fb and ?s0.0 = s0]
  have c: "cr3 ?s = page_directory L" by (simp add: paging_init_def Let_def)
  have un: "unat v < 0xD1000000" "0xC0000000 \<le> unat v"
    using v by (simp_all add: KERNEL_VMA_BASE_def KERNEL_HEAP_VMA_def HEAP_SIZE_def KERNEL_HEAP_SIZE_def word_le_nat_alt word_less_nat_alt)
  have pm: "KERNEL_PHYS_BASE AND PAGE_MASK = KERNEL_PHYS_BASE" "HEAP_PHYS AND PAGE_MASK = HEAP_PHYS"
    by (simp_all add: KERNEL_PHYS_BASE_def HEAP_PHYS_def KERNEL_HEAP_PHYS_def PAGE_MASK_def)
  show "case pte_of ?s (cr3 ?s) v of None \<Rightarrow> False | Some e \<Rightarrow> (e AND PAGE_MASK) + page_off v = virt_to_phys v"
  proof (cases "v < KERNEL_HEAP_VMA")
    case True
    then have "unat v < 0xC1000000" by (simp add: KERNEL_HEAP_VMA_def word_less_nat_alt)
    then have "768 \<le> vmm_pdi v" "vmm_pdi v < 772" using un(2)
      by (simp_all add: vmm_pdi_nat less_eq_div_iff_mult_less_eq div_less_iff_less_mult)
    then obtain k where k: "vmm_pdi v = 768 + k" "k < 4" by (auto dest: le_Suc_ex)
    let ?t = "kernel_page_tables L k"
    have t: "?t AND PAGE_MASK = ?t" using T(13) k(2) by auto
    have m: "linear_entry KERNEL_PHYS_BASE k i AND PAGE_MASK = linear_entry KERNEL_PHYS_BASE k i" for i by (rule linear_entry_masked [OF pm(1)])
    have mk: "mk_entry x PAGE_FLAGS = x OR PAGE_FLAGS" if "x AND PAGE_MASK = x" for x
      using that by (simp add: mk_entry_def PAGE_MASK_def)
    have "pte_of ?s (cr3 ?s) v = Some (linear_entry KERNEL_PHYS_BASE k (vmm_pti v) OR PAGE_FLAGS)"
      using F(1) [OF k(2)] F(3) [OF k(2) vmm_index_less(2) [of v]]
      by (simp add: pte_of_def c k(1) mk [OF t] mk [OF m] aligned_entry(1) [OF t])
    moreover have "linear_entry KERNEL_PHYS_BASE k (vmm_pti v) + page_off v = virt_to_phys v"
      using linear_entry_address [OF k(1)] True v by (auto simp: virt_to_phys_def KERNEL_VMA_BASE_def)
    ultimately show ?thesis by (simp add: aligned_entry(1) [OF m])
  next
    case False
    then have "0xC1000000 \<le> unat v" by (simp add: KERNEL_HEAP_VMA_def word_less_nat_alt)
    then have "772 \<le> vmm_pdi v" "vmm_pdi v < 836" using un(1)
      by (simp_all add: vmm_pdi_nat less_eq_div_iff_mult_less_eq div_less_iff_less_mult)
    then obtain k where k: "vmm_pdi v = 772 + k" "k < 64" by (auto dest: le_Suc_ex)
    let ?t = "heap_page_tables L k"
    have t: "?t AND PAGE_MASK = ?t" using T(13) k(2) by auto
    have m: "linear_entry HEAP_PHYS k i AND PAGE_MASK = linear_entry HEAP_PHYS k i" for i by (rule linear_entry_masked [OF pm(2)])
    have "pte_of ?s (cr3 ?s) v = Some (linear_entry HEAP_PHYS k (vmm_pti v) OR PAGE_FLAGS)"
      using F(2) [OF k(2)] F(4) [OF k(2) vmm_index_less(2) [of v]]
      by (simp add: pte_of_def c k(1) aligned_entry(1) [OF t])
    moreover have "linear_entry HEAP_PHYS k (vmm_pti v) + page_off v = virt_to_phys v"
      using linear_entry_address [OF k(1)] False v by (auto simp: virt_to_phys_def KERNEL_HEAP_VMA_def)
    ultimately show ?thesis by (simp add: aligned_entry(1) [OF m])
  qed
  show "phys_to_virt (virt_to_phys v) = v"
  proof (cases "v < KERNEL_HEAP_VMA")
    case True
    let ?p = "v - 0xC0000000 + 0x00200000"
    have "unat ?p = unat v - 0xC0000000 + 0x00200000"
      using un True by (simp add: KERNEL_HEAP_VMA_def word_less_nat_alt unat_sub_if' unat_word_ariths word_le_nat_alt)
    then have "0x00200000 \<le> unat ?p" "unat ?p < 0x10200000" using un True by (simp_all add: KERNEL_HEAP_VMA_def word_less_nat_alt)
    then show ?thesis using True v
      by (auto simp: virt_to_phys_def phys_to_virt_def KERNEL_VMA_BASE_def KERNEL_HEAP_VMA_def HEAP_PHYS_def HEAP_SIZE_def
          KERNEL_HEAP_PHYS_def KERNEL_HEAP_SIZE_def KERNEL_PHYS_BASE_def word_le_nat_alt word_less_nat_alt)
  next
    case False
    let ?p = "v - 0xC1000000 + 0x10200000"
    have "unat ?p = unat v - 0xC1000000 + 0x10200000"
      using un False by (simp add: KERNEL_HEAP_VMA_def word_less_nat_alt unat_sub_if' unat_word_ariths word_le_nat_alt)
    then have "0x10200000 \<le> unat ?p" "unat ?p < 0x20200000" using un False by (simp_all add: KERNEL_HEAP_VMA_def word_less_nat_alt)
    then show ?thesis using False v
      by (auto simp: virt_to_phys_def phys_to_virt_def KERNEL_VMA_BASE_def KERNEL_HEAP_VMA_def HEAP_PHYS_def HEAP_SIZE_def
          KERNEL_HEAP_PHYS_def KERNEL_HEAP_SIZE_def KERNEL_PHYS_BASE_def word_le_nat_alt word_less_nat_alt)
  qed
qed

definition page_at :: "nat \<Rightarrow> u32" where "page_at i = word_of_nat (i * 4096)"

definition sample_layout :: boot_layout where
  "sample_layout = \<lparr>page_directory = page_at 0x100, first_page_table = page_at 0x101,
     kernel_page_tables = (\<lambda>k. page_at (0x103 + k)), heap_page_tables = (\<lambda>k. page_at (0x143 + k)),
     fb_page_tables = (\<lambda>k. page_at (0x183 + k)), layer_page_tables = (\<lambda>k. page_at (0x187 + k)),
     kernel_stack_page_table = page_at 0x102\<rparr>"

lemma sample_layout_ok: "layout_ok sample_layout"
proof -
  have s: "map (\<lambda>k. page_at (a + k)) [0..<n] = map page_at [a..<a + n]" for a n
    by (rule nth_equalityI) simp_all
  have j: "a \<le> b \<Longrightarrow> b \<le> c \<Longrightarrow> [a..<b] @ [b..<c] = [a..<c]" for a b c :: nat
    by (metis le_Suc_ex upt_add_eq_append)
  have h: "[page_at 0x100, page_at 0x101, page_at 0x102] = map page_at [0x100..<0x103]" by (simp add: upt_rec)
  have "boot_tables sample_layout = [page_at 0x100, page_at 0x101, page_at 0x102] @ map (\<lambda>k. page_at (0x103 + k)) [0..<64] @
      map (\<lambda>k. page_at (0x143 + k)) [0..<64] @ map (\<lambda>k. page_at (0x183 + k)) [0..<4] @ map (\<lambda>k. page_at (0x187 + k)) [0..<60]"
    unfolding boot_tables_def sample_layout_def boot_layout.select_convs by (simp only: append_Cons append_Nil)
  also have "\<dots> = map page_at ([0x100..<0x103] @ [0x103..<0x103 + 64] @ [0x143..<0x143 + 64] @ [0x183..<0x183 + 4] @ [0x187..<0x187 + 60])"
    unfolding s h map_append ..
  also have "[0x100..<0x103] @ [0x103..<0x103 + 64] @ [0x143..<0x143 + 64] @ [0x183..<0x183 + 4] @ [0x187..<0x187 + 60] = [0x100..<0x1C3::nat]"
    using j [of "0x100" "0x103" "0x143"] j [of "0x100" "0x143" "0x183"] j [of "0x100" "0x183" "0x187"] j [of "0x100" "0x187" "0x1C3"]
    by (simp del: upt_rec_numeral append_assoc add: append_assoc [symmetric])
  finally have b: "boot_tables sample_layout = map page_at [0x100..<0x1C3]" .
  have u: "unat (page_at i) = i * 4096" if "i < 0x1C3" for i using that unfolding page_at_def unat_of_nat by simp
  have "inj_on page_at {0x100..<0x1C3}"
  proof (rule inj_onI)
    fix i j assume "i \<in> {0x100..<0x1C3}" "j \<in> {0x100..<0x1C3}" "page_at i = page_at j"
    then have "i * 4096 = j * 4096" using u by (metis atLeastLessThan_iff)
    then show "i = j" by simp
  qed
  moreover have "page_at i AND PAGE_MASK = page_at i" if "i \<in> {0x100..<0x1C3}" for i
    using that u [of i] by (simp add: masked_iff)
  ultimately show ?thesis unfolding layout_ok_def b distinct_map set_map set_upt
    using distinct_upt by blast
qed

lemma paging_init_translates_witness:
  "\<forall>s0. case pte_of (paging_init sample_layout 0xFD000000 s0) (cr3 (paging_init sample_layout 0xFD000000 s0)) 0xC1000010 of
     None \<Rightarrow> False | Some e \<Rightarrow> (e AND PAGE_MASK) + 0x10 = 0x10200010"
proof
  fix s0
  have v: "KERNEL_VMA_BASE \<le> 0xC1000010 \<and> 0xC1000010 < KERNEL_HEAP_VMA + HEAP_SIZE"
    by (simp add: KERNEL_VMA_BASE_def KERNEL_HEAP_VMA_def HEAP_SIZE_def KERNEL_HEAP_SIZE_def)
  have "page_off 0xC1000010 = 0x10" by (simp add: page_off_def PAGE_SIZE_def)
  moreover have "virt_to_phys 0xC1000010 = 0x10200010"
    by (simp add: virt_to_phys_def KERNEL_HEAP_VMA_def HEAP_SIZE_def KERNEL_HEAP_SIZE_def HEAP_PHYS_def KERNEL_HEAP_PHYS_def)
  ultimately show "case pte_of (paging_init sample_layout 0xFD000000 s0) (cr3 (paging_init sample_layout 0xFD000000 s0)) 0xC1000010 of
     None \<Rightarrow> False | Some e \<Rightarrow> (e AND PAGE_MASK) + 0x10 = 0x10200010"
    using paging_init_translates [OF sample_layout_ok v, of "0xFD000000" s0] by (auto split: option.splits)
qed

subsection \<open>A new address space\<close>

fun fcopy :: "u32 \<Rightarrow> nat \<Rightarrow> nat \<Rightarrow> vm \<Rightarrow> vm" where
  "fcopy q i 0 s = s"
| "fcopy q i (Suc n) s = fcopy q (i + 1) n (fset q i (frames s (cr3 s) i) s)"

lemma fcopy_simps [simp]:
  "cr3 (fcopy q i n s) = cr3 s" "kmap_pt_phys (fcopy q i n s) = kmap_pt_phys s" "zones (fcopy q i n s) = zones s"
  "bytes (fcopy q i n s) = bytes s"
  by (induction q i n s rule: fcopy.induct) simp_all

lemma fcopy_frames:
  "q \<noteq> cr3 s \<Longrightarrow> frames (fcopy q i n s) g k = (if g = q \<and> i \<le> k \<and> k < i + n then frames s (cr3 s) k else frames s g k)"
  by (induction q i n s rule: fcopy.induct) auto

lemma vm_ready_fcopy: "vm_ready s \<Longrightarrow> q \<noteq> kmap_pt_phys s \<Longrightarrow> q \<noteq> cr3 s \<Longrightarrow> vm_ready (fcopy q i n s)"
  by (induction q i n s rule: fcopy.induct) simp_all

lemma self_load_win:
  assumes "vm_ready s"
  shows "vload cur_pd_va i (win f s) = Inr (frames s (cr3 s) i)"
proof -
  have c: "cr3 s \<noteq> kmap_pt_phys s" using assms by (simp add: vm_ready_def)
  have "mmu (win f s) cur_pd_va = Some (cr3 s)"
    using assms c by (simp add: mmu_def pte_of_def cur_pd_va_def vm_ready_def aligned_entry(1) SELF_PDE_BASE_def)
  then show ?thesis using c by (simp add: vload_def)
qed

lemma copy_pdes_eq:
  "vm_ready s \<Longrightarrow> q AND PAGE_MASK = q \<Longrightarrow> q \<noteq> kmap_pt_phys s \<Longrightarrow> q \<noteq> cr3 s \<Longrightarrow>
   copy_pdes i n (win q s) = Inr (win q (fcopy q i n s))"
proof (induction n arbitrary: i s)
  case 0
  then show ?case by simp
next
  case (Suc n)
  then show ?case by (simp add: self_load_win window_access(4))
qed

lemma create_address_space_ok:
  assumes inv: "vm_inv A F s"
  shows "case create_address_space s of
      Inl e \<Rightarrow> e = Vm_panic \<and> alloc_pages (zones s) 0 = None
    | Inr (p, s') \<Rightarrow> p \<notin> A \<and> vm_inv (insert p A) (insert (unat p, 0) F) s' \<and> cr3 s' = cr3 s \<and> bytes s' = bytes s \<and>
        (\<forall>v. USER_SPACE_START \<le> v \<and> v \<le> USER_SPACE_END \<longrightarrow> pte_of s' p v = None) \<and>
        (\<forall>q \<in> A. \<forall>v. USER_SPACE_START \<le> v \<and> v \<le> USER_SPACE_END \<longrightarrow> pte_of s' q v = pte_of s q v) \<and>
        (\<forall>i. KERNEL_PDE_BASE \<le> i \<and> i < KMAP_PDE_BASE \<longrightarrow> frames s' p i = frames s (cr3 s) i)"
proof (cases "alloc_pages (zones s) 0")
  case None
  then show ?thesis by (simp add: create_address_space_def alloc_frame_def)
next
  case (Some r)
  then obtain zs n where a: "alloc_pages (zones s) 0 = Some (zs, n)" by (cases r) auto
  define q :: u32 where "q = word_of_nat n"
  note D = vm_invD [OF inv]
  note Q = alloc_frame_fresh [OF inv a, folded q_def]
  let ?s0 = "s\<lparr>zones := zs\<rparr>"
  let ?s1 = "fcopy q KERNEL_PDE_BASE (PAGE_ENTRIES - KERNEL_PDE_BASE) (fzero q ?s0)"
  let ?s2 = "fset q SELF_PDE_BASE (q OR PAGE_FLAGS) ?s1"
  let ?s3 = "fset q KMAP_PDE_BASE (kmap_pt_phys s OR PAGE_FLAGS) ?s2"
  let ?s4 = "fset q 0 (frames s (cr3 s) 0 OR PAGE_FLAGS) ?s3"
  have qc: "q \<noteq> cr3 s" using Q(5) D(2) by auto
  have km: "kmap_pt_phys s AND PAGE_MASK = kmap_pt_phys s" using D(1) by (simp add: vm_ready_def)
  have r0: "vm_ready ?s0" and k0: "q \<noteq> kmap_pt_phys ?s0" using D(1) Q(6) by simp_all
  have rz: "vm_ready (fzero q ?s0)" using r0 Q(6) qc by simp
  have r1: "vm_ready ?s1" using vm_ready_fcopy [OF rz] Q(6) qc by simp
  have r2: "vm_ready ?s2" and r3: "vm_ready ?s3" and r4: "vm_ready ?s4" using r1 Q(6) qc by simp_all
  have k: "q \<noteq> kmap_pt_phys (fzero q ?s0)" "q \<noteq> kmap_pt_phys ?s1" "q \<noteq> kmap_pt_phys ?s2" "q \<noteq> kmap_pt_phys ?s3" "q \<noteq> kmap_pt_phys ?s4"
    using Q(6) by simp_all
  have c3: "frames ?s3 (cr3 ?s3) 0 = frames s (cr3 s) 0" using qc by (simp add: fcopy_frames)
  have e: "create_address_space s = Inr (q, ?s4)"
    using Q(2,3) copy_pdes_eq [OF rz Q(2) k(1)] qc km self_load_win [OF r3, of 0 q] c3
    by (simp add: create_address_space_def alloc_frame_def a q_def [symmetric] window_access(1,5) [OF r0 Q(2) k0]
        window_access(4) [OF r1 Q(2) k(2)] window_access(4) [OF r2 Q(2) k(3)] window_access(4) [OF r3 Q(2) k(4)]
        window_access(6) [OF r4 Q(2) k(5)])
  have fo: "frames ?s4 g = frames s g" if "g \<noteq> q" for g using that qc by (auto simp: fcopy_frames fun_eq_iff)
  have fq: "frames ?s4 q i = (if i = 0 then frames s (cr3 s) 0 OR PAGE_FLAGS else if i = KMAP_PDE_BASE then kmap_pt_phys s OR PAGE_FLAGS
      else if i = SELF_PDE_BASE then q OR PAGE_FLAGS else if KERNEL_PDE_BASE \<le> i \<and> i < PAGE_ENTRIES then frames s (cr3 s) i else 0)" for i
    using qc by (auto simp: fcopy_frames KMAP_PDE_BASE_def SELF_PDE_BASE_def KERNEL_PDE_BASE_def PAGE_ENTRIES_def)
  have nt: "\<not> has_tab ?s4 q i" for i
    unfolding has_tab_def fq by (auto simp: user_pde_def KMAP_PDE_BASE_def SELF_PDE_BASE_def KERNEL_PDE_BASE_def)
  have ht: "has_tab ?s4 p i = has_tab s p i" "tab ?s4 p i = tab s p i" if "p \<in> A" for p i
    unfolding has_tab_def tab_def using fo [of p] Q(5) that by metis+
  have inv4: "vm_inv (insert q A) (insert (unat q, 0) F) ?s4"
  proof (rule vm_invI)
    show "vm_ready ?s4" by (rule r4)
    show "cr3 ?s4 \<in> insert q A" "kmap_pt_phys ?s4 \<notin> insert q A" using D(2,3) Q(6) by auto
    show "zones_inv (zones ?s4) (insert (unat q, 0) F)" "zones_aligned (zones ?s4)" using Q(1,8,9) by simp_all
    show "p AND PAGE_MASK = p \<and> frames ?s4 p SELF_PDE_BASE = p OR PAGE_FLAGS \<and>
        frames ?s4 p KMAP_PDE_BASE = kmap_pt_phys ?s4 OR PAGE_FLAGS" if "p \<in> insert q A" for p
    proof (cases "p = q")
      case True
      show ?thesis unfolding True fq using Q(2) by (simp add: KMAP_PDE_BASE_def SELF_PDE_BASE_def)
    next
      case False
      then show ?thesis unfolding fo [OF False] using that D(6-8) by auto
    qed
    show "tab ?s4 p i \<notin> insert q A \<and> tab ?s4 p i \<noteq> kmap_pt_phys ?s4 \<and> (unat (tab ?s4 p i), 0) \<in> insert (unat q, 0) F"
      if "p \<in> insert q A" "has_tab ?s4 p i" for p i
    proof -
      have p: "p \<in> A" using that nt by (cases "p = q") auto
      then show ?thesis using that(2) D(9-11) [OF p] Q(7) [OF p] unfolding ht [OF p] by simp
    qed
    show "p = r \<and> i = j" if "p \<in> insert q A" "r \<in> insert q A" "has_tab ?s4 p i" "has_tab ?s4 r j" "tab ?s4 p i = tab ?s4 r j" for p r i j
    proof -
      have p: "p \<in> A" and r: "r \<in> A" using that(1-4) nt by (metis insertE)+
      show ?thesis using D(12) [OF p r] that(3-5) unfolding ht [OF p] ht [OF r] by blast
    qed
    show "(unat f, 0) \<in> insert (unat q, 0) F \<or> (\<forall>z \<in> set (zones ?s4). unat f \<notin> zone_range z)"
      if "f \<in> insert (kmap_pt_phys ?s4) (insert q A)" for f
      using that D(13) [of f] notin_ranges [OF Q(10), of "unat f"] by auto
  qed
  have pn: "pte_of ?s4 q v = None" if "USER_SPACE_START \<le> v \<and> v \<le> USER_SPACE_END" for v
  proof -
    have "user_pde (vmm_pdi v)" using that user_range by blast
    then have "\<not> present (frames ?s4 q (vmm_pdi v))" using nt [of "vmm_pdi v"] unfolding has_tab_def by blast
    then show ?thesis by (simp add: pte_of_tab)
  qed
  have po: "pte_of ?s4 p v = pte_of s p v" if "p \<in> A" "USER_SPACE_START \<le> v \<and> v \<le> USER_SPACE_END" for p v
  proof -
    have u: "user_pde (vmm_pdi v)" using that(2) user_range by blast
    have pq: "p \<noteq> q" using Q(5) that(1) by auto
    show ?thesis
    proof (cases "present (frames s p (vmm_pdi v))")
      case True
      then have "has_tab s p (vmm_pdi v)" using u by (simp add: has_tab_def)
      then have tq: "tab s p (vmm_pdi v) \<noteq> q" using Q(7) that(1) by blast
      show ?thesis unfolding pte_of_tab ht(2) [OF that(1)] fo [OF pq] fo [OF tq] ..
    next
      case False
      then show ?thesis unfolding pte_of_tab fo [OF pq] by simp
    qed
  qed
  have pk: "frames ?s4 q i = frames s (cr3 s) i" if "KERNEL_PDE_BASE \<le> i \<and> i < KMAP_PDE_BASE" for i
    unfolding fq using that by (simp add: KERNEL_PDE_BASE_def KMAP_PDE_BASE_def SELF_PDE_BASE_def PAGE_ENTRIES_def)
  show ?thesis unfolding e sum.case prod.case using Q(5) inv4 pn po pk by (auto simp del: fset_simps(1))
qed

text \<open>
  C18. A new address space starts with no user page and with the kernel's half of the current one; it is
  entered through the self map and the window like any other, shares no user table with another address
  space, and no page of another one changes. The only failure is the panic when no frame is left.
\<close>

theorem create_address_space_spec:
  assumes inv: "vm_inv A F s"
  shows "case create_address_space s of
      Inl e \<Rightarrow> e = Vm_panic \<and> alloc_pages (zones s) 0 = None
    | Inr (p, s') \<Rightarrow> p \<notin> A \<and> vm_inv (insert p A) (insert (unat p, 0) F) s' \<and> cr3 s' = cr3 s \<and> bytes s' = bytes s \<and>
        (\<forall>v. USER_SPACE_START \<le> v \<and> v \<le> USER_SPACE_END \<longrightarrow> pte_of s' p v = None) \<and>
        (\<forall>q \<in> A. \<forall>v. USER_SPACE_START \<le> v \<and> v \<le> USER_SPACE_END \<longrightarrow> pte_of s' q v = pte_of s q v) \<and>
        (\<forall>i. KERNEL_PDE_BASE \<le> i \<and> i < KMAP_PDE_BASE \<longrightarrow> frames s' p i = frames s (cr3 s) i)"
  by (rule create_address_space_ok [OF inv])

lemma create_address_space_spec_witness:
  "\<exists>p s'. create_address_space sample_vm = Inr (p, s') \<and> p \<noteq> 0x1000 \<and> pte_of s' p 0x00400000 = None"
proof -
  have z: "zones sample_vm = [sample_zone]" by (simp add: sample_vm_def)
  have u: "USER_SPACE_START \<le> (0x00400000 :: u32) \<and> 0x00400000 \<le> USER_SPACE_END"
    by (simp add: USER_SPACE_START_def USER_SPACE_END_def)
  show ?thesis using create_address_space_spec [OF sample_vm_inv] sample_alloc u unfolding z
    by (auto split: sum.splits)
qed

subsection \<open>Destroying an address space\<close>

definition handed :: "u32 \<Rightarrow> nat \<times> nat" where "handed f = (unat f, 0)"

lemma handed_inj [simp]: "handed f = handed g \<longleftrightarrow> f = g"
  by (simp add: handed_def word_unat_eq_iff)

text \<open>The page frames that a user page table holds at the entries in \<open>R\<close>.\<close>

definition held :: "vm \<Rightarrow> u32 \<Rightarrow> nat set \<Rightarrow> u32 set" where
  "held s t R = {frames s t k AND PAGE_MASK | k. k \<in> R \<and> present (frames s t k)}"

definition held_inj :: "vm \<Rightarrow> u32 \<Rightarrow> nat set \<Rightarrow> bool" where
  "held_inj s t R \<longleftrightarrow> (\<forall>j \<in> R. \<forall>k \<in> R. present (frames s t j) \<and> present (frames s t k) \<and>
     frames s t j AND PAGE_MASK = frames s t k AND PAGE_MASK \<longrightarrow> j = k)"

text \<open>Only the table \<open>t\<close> and the allocator differ.\<close>

definition only_tab :: "u32 \<Rightarrow> vm \<Rightarrow> vm \<Rightarrow> bool" where
  "only_tab t s s' \<longleftrightarrow> cr3 s' = cr3 s \<and> kmap_pt_phys s' = kmap_pt_phys s \<and> bytes s' = bytes s \<and>
     (\<forall>g. g \<noteq> t \<longrightarrow> frames s' g = frames s g)"

lemma only_tab_refl [simp]: "only_tab t s s"
  by (simp add: only_tab_def)

lemma only_tab_trans: "only_tab t s s1 \<Longrightarrow> only_tab t s1 s2 \<Longrightarrow> only_tab t s s2"
  by (simp add: only_tab_def)

lemma only_tab_has:
  assumes "only_tab t s s'" "t \<notin> A" "q \<in> A"
  shows "has_tab s' q i = has_tab s q i" "tab s' q i = tab s q i"
  using assms by (auto simp: only_tab_def has_tab_def tab_def)

lemma data_frame_only_tab:
  assumes "only_tab t s s'" "t \<notin> A" "data_frame A F s f" "handed f \<in> F'"
  shows "data_frame A F' s' f"
  using assms only_tab_has [OF assms(1,2)] unfolding data_frame_def handed_def
  by (simp add: only_tab_def)

lemma held_insert:
  assumes "present (frames s t i)"
  shows "held s t {i..<i + Suc n} = insert (frames s t i AND PAGE_MASK) (held s t {i + 1..<i + 1 + n})"
proof -
  have "{i..<i + Suc n} = insert i {i + 1..<i + 1 + n}" by auto
  then show ?thesis using assms unfolding held_def by auto
qed

lemma held_skip: "\<not> present (frames s t i) \<Longrightarrow> held s t {i..<i + Suc n} = held s t {i + 1..<i + 1 + n}"
proof -
  assume n: "\<not> present (frames s t i)"
  have "{i..<i + Suc n} = insert i {i + 1..<i + 1 + n}" by auto
  then show ?thesis using n unfolding held_def by auto
qed

lemma destroy_entries_ok:
  assumes "vm_inv A F s" "p \<in> A" "has_tab s p i0" "t = tab s p i0"
    "\<not> sh \<Longrightarrow> \<forall>f \<in> held s t {i..<i + n}. data_frame A F s f" "\<not> sh \<Longrightarrow> held_inj s t {i..<i + n}"
  shows "\<exists>s'. destroy_entries sh i n (win t s) = Inr (win t s') \<and> only_tab t s s' \<and>
    vm_inv A (F - handed ` (if sh then {} else held s t {i..<i + n})) s'"
  using assms
proof (induction n arbitrary: i F s)
  case 0
  then show ?case by (auto simp: held_def)
next
  case (Suc n)
  note D = vm_invD [OF Suc.prems(1)]
  have tA: "t \<notin> A" "t \<noteq> kmap_pt_phys s" using D(9,10) [OF Suc.prems(2,3)] by (simp_all add: Suc.prems(4))
  have tm: "t AND PAGE_MASK = t" by (simp add: Suc.prems(4) tab_def)
  note W = window_access(3,4) [OF D(1) tm tA(2)]
  have sub: "{i + 1..<i + 1 + n} \<subseteq> {i..<i + Suc n}" by auto
  show ?case
  proof (cases "present (frames s t i)")
    case False
    have "\<exists>s'. destroy_entries sh (i + 1) n (win t s) = Inr (win t s') \<and> only_tab t s s' \<and>
        vm_inv A (F - handed ` (if sh then {} else held s t {i + 1..<i + 1 + n})) s'"
      by (rule Suc.IH [OF Suc.prems(1-4)]) (use Suc.prems(5,6) sub held_skip [OF False, of n] in \<open>auto simp: held_inj_def\<close>)
    then show ?thesis using False W(1) held_skip [OF False, of n] by (cases sh) simp_all
  next
    case True
    let ?f = "frames s t i AND PAGE_MASK"
    have "\<exists>z. (if \<not> sh then free_frame ?f (win t s) else Inr (win t s)) = Inr (win t (s\<lparr>zones := z\<rparr>)) \<and>
        vm_inv A (if sh then F else F - {handed ?f}) (s\<lparr>zones := z\<rparr>)"
    proof (cases sh)
      case True
      then show ?thesis using Suc.prems(1) by (intro exI [of _ "zones s"]) simp
    next
      case False
      have df: "data_frame A F s ?f" using Suc.prems(5) [OF False] unfolding held_insert [OF True] by simp
      obtain z where "free_frame ?f s = Inr (s\<lparr>zones := z\<rparr>)" "vm_inv A (F - {(unat ?f, 0)}) (s\<lparr>zones := z\<rparr>)"
        by (rule vm_inv_free [OF Suc.prems(1), of ?f]) (use df in \<open>auto simp: data_frame_def\<close>)
      then show ?thesis using False by (auto simp: free_frame_win handed_def)
    qed
    then obtain z where z: "(if \<not> sh then free_frame ?f (win t s) else Inr (win t s)) = Inr (win t (s\<lparr>zones := z\<rparr>))"
      "vm_inv A (if sh then F else F - {handed ?f}) (s\<lparr>zones := z\<rparr>)" by blast
    let ?s1 = "s\<lparr>zones := z\<rparr>" and ?F1 = "if sh then F else F - {handed ?f}"
    let ?s2 = "fset t i 0 ?s1"
    have h1: "has_tab ?s1 p i0" "tab ?s1 p i0 = t" using Suc.prems(3,4) by (simp_all add: has_tab_def tab_def)
    have i2: "vm_inv A ?F1 ?s2" using vm_inv_fset_tab [OF z(2) Suc.prems(2) h1(1), of i 0] unfolding h1(2) .
    have o2: "only_tab t s ?s2" by (simp add: only_tab_def)
    note H2 = only_tab_has [OF o2 tA(1) Suc.prems(2), of i0]
    have hs: "held ?s2 t {i + 1..<i + 1 + n} = held s t {i + 1..<i + 1 + n}"
      unfolding held_def by (intro Collect_cong ex_cong1) auto
    have ij: "held_inj ?s2 t {i + 1..<i + 1 + n}" if "\<not> sh" using Suc.prems(6) [OF that] sub by (auto simp: held_inj_def)
    have df: "\<forall>f \<in> held ?s2 t {i + 1..<i + 1 + n}. data_frame A ?F1 ?s2 f" if sh: "\<not> sh"
    proof
      fix f assume "f \<in> held ?s2 t {i + 1..<i + 1 + n}"
      then have f: "f \<in> held s t {i + 1..<i + 1 + n}" unfolding hs .
      then obtain k where k: "k \<in> {i + 1..<i + 1 + n}" "present (frames s t k)" "f = frames s t k AND PAGE_MASK" by (auto simp: held_def)
      have "f \<noteq> ?f"
      proof
        assume "f = ?f"
        then have "k = i" using Suc.prems(6) [OF sh] k True unfolding held_inj_def by force
        then show False using k(1) by simp
      qed
      moreover have "data_frame A F s f" using Suc.prems(5) [OF sh] f unfolding held_insert [OF True] by simp
      ultimately show "data_frame A ?F1 ?s2 f"
        using sh by (intro data_frame_only_tab [OF o2 tA(1)]) (auto simp: data_frame_def handed_def word_unat_eq_iff)
    qed
    have "\<exists>s'. destroy_entries sh (i + 1) n (win t ?s2) = Inr (win t s') \<and> only_tab t ?s2 s' \<and>
        vm_inv A (?F1 - handed ` (if sh then {} else held ?s2 t {i + 1..<i + 1 + n})) s'"
      by (rule Suc.IH [OF i2 Suc.prems(2)]) (use H2 Suc.prems(3,4) df ij in auto)
    then obtain s' where s': "destroy_entries sh (i + 1) n (win t ?s2) = Inr (win t s')" "only_tab t ?s2 s'"
      "vm_inv A (?F1 - handed ` (if sh then {} else held s t {i + 1..<i + 1 + n})) s'" unfolding hs by blast
    have w: "vstore KMAP_BASE i 0 (win t ?s1) = Inr (win t ?s2)"
      using window_access(4) [of ?s1 t i 0] D(1) tm tA(2) by simp
    have "destroy_entries sh i (Suc n) (win t s) = Inr (win t s')"
      using True W(1) z(1) w s'(1) by simp
    moreover have "?F1 - handed ` (if sh then {} else held s t {i + 1..<i + 1 + n}) =
        F - handed ` (if sh then {} else held s t {i..<i + Suc n})"
      unfolding held_insert [OF True] by auto
    ultimately show ?thesis using only_tab_trans [OF o2 s'(2)] s'(3) by auto
  qed
qed

definition shm_pde :: "nat \<Rightarrow> bool" where
  "shm_pde i \<longleftrightarrow> vmm_pdi (word_of_nat SHMEM_START) \<le> i \<and> i \<le> vmm_pdi (word_of_nat SHMEM_END)"

text \<open>What the address space owns at one entry of its directory: the page table and, unless they are shared, its pages.\<close>

definition own :: "vm \<Rightarrow> u32 \<Rightarrow> nat \<Rightarrow> u32 set" where
  "own s p i = (if has_tab s p i
     then insert (tab s p i) (if shm_pde i then {} else held s (tab s p i) {0..<PAGE_ENTRIES}) else {})"

text \<open>Its private pages are frames of the allocator, none of them a table, and no frame is mapped twice.\<close>

definition private_ok :: "u32 set \<Rightarrow> (nat \<times> nat) set \<Rightarrow> vm \<Rightarrow> u32 \<Rightarrow> nat set \<Rightarrow> bool" where
  "private_ok A F s p I \<longleftrightarrow>
     (\<forall>i \<in> I. has_tab s p i \<and> \<not> shm_pde i \<longrightarrow>
        (\<forall>f \<in> held s (tab s p i) {0..<PAGE_ENTRIES}. data_frame A F s f) \<and> held_inj s (tab s p i) {0..<PAGE_ENTRIES}) \<and>
     (\<forall>i \<in> I. \<forall>j \<in> I. has_tab s p i \<and> has_tab s p j \<and> \<not> shm_pde i \<and> \<not> shm_pde j \<and> i \<noteq> j \<longrightarrow>
        held s (tab s p i) {0..<PAGE_ENTRIES} \<inter> held s (tab s p j) {0..<PAGE_ENTRIES} = {})"

lemma destroy_table_ok:
  assumes inv: "vm_inv A F s" and p: "p \<in> A" "has_tab s p i" and pc: "p \<noteq> cr3 s"
    and priv: "private_ok A F s p {i}"
  shows "\<exists>s'. (let t = frames s p i AND PAGE_MASK in
       vbind (kmap t s) (\<lambda>s. vbind (destroy_entries (shm_pde i) 0 PAGE_ENTRIES s) (\<lambda>s. vbind (kunmap s) (\<lambda>s.
       vbind (free_frame t s) (\<lambda>s. vbind (kmap p s) (\<lambda>s. vbind (vstore KMAP_BASE i 0 s) kunmap)))))) = Inr s' \<and>
     vm_inv A (F - handed ` own s p i) s' \<and> cr3 s' = cr3 s \<and> kmap_pt_phys s' = kmap_pt_phys s \<and> bytes s' = bytes s \<and>
     (\<forall>g. g \<noteq> tab s p i \<longrightarrow> frames s' g = (if g = p then (frames s p)(i := 0) else frames s g))"
proof -
  note D = vm_invD [OF inv]
  let ?t = "tab s p i" and ?sh = "shm_pde i"
  have u: "user_pde i" using p(2) by (simp add: has_tab_def)
  have tA: "?t \<notin> A" "?t \<noteq> kmap_pt_phys s" "(unat ?t, 0) \<in> F" "?t AND PAGE_MASK = ?t"
    using D(9-11) [OF p] by (simp_all add: tab_def)
  have pk: "p \<noteq> kmap_pt_phys s" "p AND PAGE_MASK = p" using D(3,6) p(1) by auto
  have pr: "\<not> ?sh \<Longrightarrow> \<forall>f \<in> held s ?t {0..<0 + PAGE_ENTRIES}. data_frame A F s f"
    "\<not> ?sh \<Longrightarrow> held_inj s ?t {0..<0 + PAGE_ENTRIES}" using priv p(2) by (auto simp: private_ok_def)
  obtain s1 where s1: "destroy_entries ?sh 0 PAGE_ENTRIES (win ?t s) = Inr (win ?t s1)" "only_tab ?t s s1"
    "vm_inv A (F - handed ` (if ?sh then {} else held s ?t {0..<PAGE_ENTRIES})) s1"
    using destroy_entries_ok [OF inv p refl pr, unfolded add_0] by blast
  let ?F1 = "F - handed ` (if ?sh then {} else held s ?t {0..<PAGE_ENTRIES})"
  note H1 = only_tab_has [OF s1(2) tA(1)]
  have k1: "cr3 s1 = cr3 s" "kmap_pt_phys s1 = kmap_pt_phys s" "bytes s1 = bytes s" "\<And>g. g \<noteq> ?t \<Longrightarrow> frames s1 g = frames s g"
    using s1(2) by (simp_all add: only_tab_def)
  have pt: "p \<noteq> ?t" using p(1) tA(1) by auto
  note DT = vm_inv_drop_tab [OF s1(3) p(1) u]
  let ?s2 = "fset p i 0 s1"
  have tf: "(unat ?t, 0) \<in> ?F1"
  proof -
    have "?t \<notin> held s ?t {0..<PAGE_ENTRIES}" if "\<not> ?sh"
    proof
      assume "?t \<in> held s ?t {0..<PAGE_ENTRIES}"
      then have "data_frame A F s ?t" using priv p(2) that by (auto simp: private_ok_def)
      then show False using p by (auto simp: data_frame_def)
    qed
    moreover have "handed ?t \<in> F" using tA(3) by (simp add: handed_def)
    ultimately have "handed ?t \<in> ?F1" by auto
    then show ?thesis by (simp only: handed_def)
  qed
  have nt: "tab ?s2 q k \<noteq> ?t" if "q \<in> A" "has_tab ?s2 q k" for q k
    using DT(2) [of q k] DT(3) [OF that(2)] H1 [OF that(1)] that D(12) [OF that(1) p(1) _ p(2)] by auto
  obtain z where z: "free_frame ?t ?s2 = Inr (?s2\<lparr>zones := z\<rparr>)" "vm_inv A (?F1 - {(unat ?t, 0)}) (?s2\<lparr>zones := z\<rparr>)"
    by (rule vm_inv_free [OF DT(1) tf tA(1) _ nt]) (use tA(2) k1 in auto)
  have zf: "free_frame ?t s1 = Inr (s1\<lparr>zones := z\<rparr>)"
    using z(1) by (auto simp: free_frame_def split: option.splits dest: arg_cong [of _ _ zones])
  let ?s3 = "s1\<lparr>zones := z\<rparr>"
  have r1: "vm_ready s1" using vm_invD(1) [OF s1(3)] .
  have r3: "vm_ready ?s3" using r1 by simp
  have r4: "vm_ready (fset p i 0 ?s3)" using r3 pk(1) pc k1 by simp
  have c: "fset p i 0 ?s3 = ?s2\<lparr>zones := z\<rparr>" by (simp add: fset_def)
  have kk: "?t \<noteq> kmap_pt_phys s1" "p \<noteq> kmap_pt_phys ?s3" "p \<noteq> kmap_pt_phys (fset p i 0 ?s3)" using tA(2) pk(1) k1 by simp_all
  have run: "(let t = frames s p i AND PAGE_MASK in
       vbind (kmap t s) (\<lambda>s. vbind (destroy_entries ?sh 0 PAGE_ENTRIES s) (\<lambda>s. vbind (kunmap s) (\<lambda>s.
       vbind (free_frame t s) (\<lambda>s. vbind (kmap p s) (\<lambda>s. vbind (vstore KMAP_BASE i 0 s) kunmap)))))) = Inr (?s2\<lparr>zones := z\<rparr>)"
    unfolding tab_def [symmetric] Let_def c [symmetric]
    by (simp add: window_access(1) [OF D(1) tA(4,2)] s1(1) window_access(6) [OF r1 tA(4) kk(1)] zf
        window_access(1,4) [OF r3 pk(2) kk(2)] window_access(6) [OF r4 pk(2) kk(3)] del: win_zones)
  have "F - handed ` own s p i = ?F1 - {(unat ?t, 0)}" using p(2) by (auto simp: own_def handed_def)
  moreover have "\<forall>g. g \<noteq> ?t \<longrightarrow> frames (?s2\<lparr>zones := z\<rparr>) g = (if g = p then (frames s p)(i := 0) else frames s g)"
    using k1(4) pt by auto
  ultimately show ?thesis unfolding run using z(2) k1 by (intro exI [of _ "?s2\<lparr>zones := z\<rparr>"]) simp
qed

lemma vbind_assoc: "vbind (vbind m f) g = vbind m (\<lambda>x. vbind (f x) g)"
  by (simp add: vbind_def split: sum.splits)

lemma own_subset_data:
  assumes "vm_inv A F s" "p \<in> A" "private_ok A F s p I" "i \<in> I" "f \<in> own s p i"
  shows "f \<notin> A" "handed f \<in> F"
proof -
  have "f = tab s p i \<and> has_tab s p i \<or> data_frame A F s f"
    using assms(3-5) by (auto simp: own_def private_ok_def split: if_splits)
  then show "f \<notin> A" "handed f \<in> F"
    using vm_invD(9,11) [OF assms(1,2)] by (auto simp: data_frame_def handed_def)
qed

lemma destroy_step:
  assumes inv: "vm_inv A F s" and p: "p \<in> A" "p \<noteq> cr3 s" and i: "user_pde i" "i \<notin> I"
    and priv: "private_ok A F s p (insert i I)"
  shows "\<exists>s1. destroy_tables p i (Suc n) s = destroy_tables p (i + 1) n s1 \<and> vm_inv A (F - handed ` own s p i) s1 \<and>
    cr3 s1 = cr3 s \<and> kmap_pt_phys s1 = kmap_pt_phys s \<and> bytes s1 = bytes s \<and> \<not> has_tab s1 p i \<and>
    private_ok A (F - handed ` own s p i) s1 p I \<and>
    (\<forall>j. j \<noteq> i \<longrightarrow> has_tab s1 p j = has_tab s p j \<and> (j \<in> I \<longrightarrow> own s1 p j = own s p j)) \<and>
    (\<forall>q \<in> A - {p}. \<forall>v. user_pde (vmm_pdi v) \<longrightarrow> pte_of s1 q v = pte_of s q v)"
proof -
  note D = vm_invD [OF inv]
  have pk: "p \<noteq> kmap_pt_phys s" "p AND PAGE_MASK = p" using D(3,6) p(1) by auto
  show ?thesis
  proof (cases "present (frames s p i)")
    case False
    then have "\<not> has_tab s p i" "own s p i = {}" by (simp_all add: has_tab_def own_def)
    moreover have "private_ok A F s p I" using priv by (auto simp: private_ok_def)
    ultimately show ?thesis using False inv by (intro exI [of _ s]) (simp add: kpeek_eq [OF D(1) pk(2,1)])
  next
    case True
    then have h: "has_tab s p i" using i(1) by (simp add: has_tab_def)
    have "private_ok A F s p {i}" using priv by (auto simp: private_ok_def)
    from destroy_table_ok [OF inv p(1) h p(2) this] obtain s1 where s1:
      "(let t = frames s p i AND PAGE_MASK in
       vbind (kmap t s) (\<lambda>s. vbind (destroy_entries (shm_pde i) 0 PAGE_ENTRIES s) (\<lambda>s. vbind (kunmap s) (\<lambda>s.
       vbind (free_frame t s) (\<lambda>s. vbind (kmap p s) (\<lambda>s. vbind (vstore KMAP_BASE i 0 s) kunmap)))))) = Inr s1"
      "vm_inv A (F - handed ` own s p i) s1" "cr3 s1 = cr3 s" "kmap_pt_phys s1 = kmap_pt_phys s" "bytes s1 = bytes s"
      "\<forall>g. g \<noteq> tab s p i \<longrightarrow> frames s1 g = (if g = p then (frames s p)(i := 0) else frames s g)" by blast
    have pt: "p \<noteq> tab s p i" using D(9) [OF p(1) h] p(1) by auto
    have fp: "frames s1 p = (frames s p)(i := 0)" using s1(6) pt by simp
    have fq: "frames s1 q = frames s q" if "q \<in> A - {p}" for q
    proof -
      have "q \<noteq> tab s p i" "q \<noteq> p" using D(9) [OF p(1) h] that by auto
      then show ?thesis using s1(6) by simp
    qed
    have ht: "has_tab s1 p j = has_tab s p j" "tab s1 p j = tab s p j" if "j \<noteq> i" for j
      using that by (simp_all add: has_tab_def tab_def fp)
    have ft: "frames s1 (tab s q j) = frames s (tab s q j)" if "q \<in> A" "has_tab s q j" "\<not> (q = p \<and> j = i)" for q j
    proof -
      have "tab s q j \<noteq> tab s p i" using D(12) [OF that(1) p(1) that(2) h] that(3) by blast
      moreover have "tab s q j \<noteq> p" using D(9) [OF that(1,2)] p(1) by auto
      ultimately show ?thesis using s1(6) by simp
    qed
    have hd: "held s1 (tab s1 p j) R = held s (tab s p j) R" "held_inj s1 (tab s1 p j) R = held_inj s (tab s p j) R"
      if "j \<noteq> i" "has_tab s p j" for j R
      unfolding held_def held_inj_def ht(2) [OF that(1)] using ft [OF p(1) that(2)] that(1) by simp_all
    have jI: "j \<noteq> i" if "j \<in> I" for j using i(2) that by auto
    have priv1: "private_ok A (F - handed ` own s p i) s1 p I"
      unfolding private_ok_def
    proof (intro conjI ballI impI)
      fix j f assume j: "j \<in> I" "has_tab s1 p j \<and> \<not> shm_pde j" "f \<in> held s1 (tab s1 p j) {0..<PAGE_ENTRIES}"
      have hj: "has_tab s p j" using j(2) ht(1) [OF jI [OF j(1)]] by simp
      have f: "f \<in> held s (tab s p j) {0..<PAGE_ENTRIES}" using j(3) unfolding hd(1) [OF jI [OF j(1)] hj] .
      then have df: "data_frame A F s f" using priv j(1,2) hj by (auto simp: private_ok_def)
      have "f \<notin> own s p i"
      proof
        assume "f \<in> own s p i"
        moreover have "f \<noteq> tab s p i" using df p(1) h by (auto simp: data_frame_def)
        ultimately have "\<not> shm_pde i" "f \<in> held s (tab s p i) {0..<PAGE_ENTRIES}" by (auto simp: own_def split: if_splits)
        moreover have "held s (tab s p i) {0..<PAGE_ENTRIES} \<inter> held s (tab s p j) {0..<PAGE_ENTRIES} = {}"
          using priv j(1,2) h hj jI [OF j(1)] \<open>\<not> shm_pde i\<close> unfolding private_ok_def by blast
        ultimately show False using f by auto
      qed
      then have "handed f \<in> F - handed ` own s p i" using df by (auto simp: data_frame_def handed_def [symmetric])
      moreover have "tab s1 q k \<noteq> f" if "q \<in> A" "has_tab s1 q k" for q k
      proof (cases "q = p")
        case True
        then have "k \<noteq> i" using that(2) by (auto simp: has_tab_def fp)
        then show ?thesis using df ht [of k] that True by (auto simp: data_frame_def)
      next
        case False
        then have "frames s1 q = frames s q" using fq that(1) by simp
        then show ?thesis using df that by (auto simp: data_frame_def has_tab_def tab_def)
      qed
      ultimately show "data_frame A (F - handed ` own s p i) s1 f" using df s1(4) by (simp add: data_frame_def handed_def)
    next
      fix j assume j: "j \<in> I" "has_tab s1 p j \<and> \<not> shm_pde j"
      have hj: "has_tab s p j" using j(2) ht(1) [OF jI [OF j(1)]] by simp
      show "held_inj s1 (tab s1 p j) {0..<PAGE_ENTRIES}"
        unfolding hd(2) [OF jI [OF j(1)] hj] using priv j hj by (auto simp: private_ok_def)
    next
      fix j k assume jk: "j \<in> I" "k \<in> I" "has_tab s1 p j \<and> has_tab s1 p k \<and> \<not> shm_pde j \<and> \<not> shm_pde k \<and> j \<noteq> k"
      have hj: "has_tab s p j" "has_tab s p k" using jk(3) ht(1) [OF jI [OF jk(1)]] ht(1) [OF jI [OF jk(2)]] by simp_all
      show "held s1 (tab s1 p j) {0..<PAGE_ENTRIES} \<inter> held s1 (tab s1 p k) {0..<PAGE_ENTRIES} = {}"
        unfolding hd(1) [OF jI [OF jk(1)] hj(1)] hd(1) [OF jI [OF jk(2)] hj(2)]
        using priv jk hj unfolding private_ok_def by blast
    qed
    have ow: "own s1 p j = own s p j" if "j \<noteq> i" for j
      using ht [OF that] hd [OF that] by (auto simp: own_def)
    have pv: "pte_of s1 q v = pte_of s q v" if "q \<in> A - {p}" "user_pde (vmm_pdi v)" for q v
    proof (cases "present (frames s q (vmm_pdi v))")
      case True
      then have "has_tab s q (vmm_pdi v)" using that(2) by (simp add: has_tab_def)
      with ft [of q "vmm_pdi v"] that(1) have "frames s1 (tab s q (vmm_pdi v)) = frames s (tab s q (vmm_pdi v))" by auto
      then show ?thesis using fq [OF that(1)] by (simp add: pte_of_tab tab_def)
    next
      case False
      then show ?thesis using fq [OF that(1)] by (simp add: pte_of_tab)
    qed
    have e: "destroy_tables p i (Suc n) s = destroy_tables p (i + 1) n s1"
    proof -
      have "destroy_tables p i (Suc n) s = vbind ((let t = frames s p i AND PAGE_MASK in
         vbind (kmap t s) (\<lambda>s. vbind (destroy_entries (shm_pde i) 0 PAGE_ENTRIES s) (\<lambda>s. vbind (kunmap s) (\<lambda>s.
         vbind (free_frame t s) (\<lambda>s. vbind (kmap p s) (\<lambda>s. vbind (vstore KMAP_BASE i 0 s) kunmap))))))) (destroy_tables p (i + 1) n)"
        using True by (simp add: kpeek_eq [OF D(1) pk(2,1)] vbind_assoc shm_pde_def Let_def)
      then show ?thesis unfolding s1(1) by simp
    qed
    have "\<not> has_tab s1 p i" by (simp add: has_tab_def fp)
    then show ?thesis using e s1(2-5) priv1 ow pv ht(1) by (intro exI [of _ s1]) blast
  qed
qed

lemma destroy_tables_ok:
  "vm_inv A F s \<Longrightarrow> p \<in> A \<Longrightarrow> p \<noteq> cr3 s \<Longrightarrow> 1 \<le> i \<Longrightarrow> i + n \<le> KERNEL_PDE_BASE \<Longrightarrow> private_ok A F s p {i..<i + n} \<Longrightarrow>
   \<exists>s'. destroy_tables p i n s = Inr s' \<and> vm_inv A (F - handed ` (\<Union>j \<in> {i..<i + n}. own s p j)) s' \<and>
     cr3 s' = cr3 s \<and> kmap_pt_phys s' = kmap_pt_phys s \<and> bytes s' = bytes s \<and>
     (\<forall>q \<in> A - {p}. \<forall>v. user_pde (vmm_pdi v) \<longrightarrow> pte_of s' q v = pte_of s q v)"
proof (induction n arbitrary: i s F)
  case 0
  then show ?case by auto
next
  case (Suc n)
  have u: "user_pde i" using Suc.prems(4,5) by (simp add: user_pde_def)
  have r: "{i..<i + Suc n} = insert i {i + 1..<i + 1 + n}" by auto
  have pr: "private_ok A F s p (insert i {i + 1..<i + 1 + n})" using Suc.prems(6) unfolding r .
  have ni: "i \<notin> {i + 1..<i + 1 + n}" by simp
  obtain s1 where s1: "destroy_tables p i (Suc n) s = destroy_tables p (i + 1) n s1" "vm_inv A (F - handed ` own s p i) s1"
    "cr3 s1 = cr3 s" "kmap_pt_phys s1 = kmap_pt_phys s" "bytes s1 = bytes s"
    "private_ok A (F - handed ` own s p i) s1 p {i + 1..<i + 1 + n}"
    "\<forall>j. j \<noteq> i \<longrightarrow> has_tab s1 p j = has_tab s p j \<and> (j \<in> {i + 1..<i + 1 + n} \<longrightarrow> own s1 p j = own s p j)"
    "\<forall>q \<in> A - {p}. \<forall>v. user_pde (vmm_pdi v) \<longrightarrow> pte_of s1 q v = pte_of s q v"
    using destroy_step [OF Suc.prems(1-3) u ni pr, of n] by blast
  have "1 \<le> i + 1" "i + 1 + n \<le> KERNEL_PDE_BASE" "p \<noteq> cr3 s1" using Suc.prems(3,5) s1(3) by simp_all
  from Suc.IH [OF s1(2) Suc.prems(2) this(3) this(1,2) s1(6)] obtain s' where s':
    "destroy_tables p (i + 1) n s1 = Inr s'"
    "vm_inv A (F - handed ` own s p i - handed ` (\<Union>j \<in> {i + 1..<i + 1 + n}. own s1 p j)) s'"
    "cr3 s' = cr3 s1" "kmap_pt_phys s' = kmap_pt_phys s1" "bytes s' = bytes s1"
    "\<forall>q \<in> A - {p}. \<forall>v. user_pde (vmm_pdi v) \<longrightarrow> pte_of s' q v = pte_of s1 q v" by blast
  have "(\<Union>j \<in> {i + 1..<i + 1 + n}. own s1 p j) = (\<Union>j \<in> {i + 1..<i + 1 + n}. own s p j)"
    using s1(7) by (intro SUP_cong) auto
  then have "F - handed ` own s p i - handed ` (\<Union>j \<in> {i + 1..<i + 1 + n}. own s1 p j) = F - handed ` (\<Union>j \<in> {i..<i + Suc n}. own s p j)"
    unfolding r by auto
  then show ?case using s1 s' by (intro exI [of _ s']) simp
qed

text \<open>
  C17. Destroying an address space that is not the current one succeeds and gives back exactly what it
  owned: its directory, its user page tables and the frames of its private pages, each once; frames of
  shared memory and everything that belongs to another address space stay, and no page of another
  address space changes.
\<close>

theorem destroy_address_space_spec:
  assumes inv: "vm_inv A F s" and p: "p \<in> A" "p \<noteq> cr3 s" "(unat p, 0) \<in> F"
    and priv: "private_ok A F s p {1..<KERNEL_PDE_BASE}"
  shows "\<exists>s'. destroy_address_space (Some p) s = Inr s' \<and>
    vm_inv (A - {p}) (F - handed ` insert p (\<Union>i \<in> {1..<KERNEL_PDE_BASE}. own s p i)) s' \<and> bytes s' = bytes s \<and>
    (\<forall>q \<in> A - {p}. \<forall>v. USER_SPACE_START \<le> v \<and> v \<le> USER_SPACE_END \<longrightarrow> pte_of s' q v = pte_of s q v)"
proof -
  have k: "1 + (KERNEL_PDE_BASE - 1) = KERNEL_PDE_BASE" by (simp add: KERNEL_PDE_BASE_def)
  let ?O = "\<Union>i \<in> {1..<KERNEL_PDE_BASE}. own s p i"
  from destroy_tables_ok [OF inv p(1,2), of 1 "KERNEL_PDE_BASE - 1"] priv obtain s1 where s1:
    "destroy_tables p 1 (KERNEL_PDE_BASE - 1) s = Inr s1" "vm_inv A (F - handed ` ?O) s1"
    "cr3 s1 = cr3 s" "kmap_pt_phys s1 = kmap_pt_phys s" "bytes s1 = bytes s"
    "\<forall>q \<in> A - {p}. \<forall>v. user_pde (vmm_pdi v) \<longrightarrow> pte_of s1 q v = pte_of s q v" unfolding k by auto
  have i1: "vm_inv (A - {p}) (F - handed ` ?O) s1"
    using s1(2) p(2) s1(3) unfolding vm_inv_def by auto
  have po: "p \<notin> ?O" using own_subset_data(1) [OF inv p(1) priv] p(1) by blast
  have "handed p \<in> F - handed ` ?O" using p(3) po by (auto simp: handed_def [symmetric])
  then have pf: "(unat p, 0) \<in> F - handed ` ?O" by (simp add: handed_def)
  note D = vm_invD [OF s1(2)]
  obtain z where z: "free_frame p s1 = Inr (s1\<lparr>zones := z\<rparr>)" "vm_inv (A - {p}) (F - handed ` ?O - {(unat p, 0)}) (s1\<lparr>zones := z\<rparr>)"
    by (rule vm_inv_free [OF i1 pf]) (use D(3,9) p(1) in auto)
  have e: "destroy_address_space (Some p) s = Inr (s1\<lparr>zones := z\<rparr>)" 
    unfolding destroy_address_space_def option.case s1(1) vbind_simps by (rule z(1))
  have f: "F - handed ` ?O - {(unat p, 0)} = F - handed ` insert p ?O" by (auto simp: handed_def)
  have v: "pte_of (s1\<lparr>zones := z\<rparr>) q v = pte_of s q v" if "q \<in> A - {p}" "USER_SPACE_START \<le> v \<and> v \<le> USER_SPACE_END" for q v
    using s1(6) that user_range by simp
  show ?thesis unfolding e using z(2) [unfolded f] v s1(5)
    by (intro exI [of _ "s1\<lparr>zones := z\<rparr>"] conjI refl ballI allI impI) simp_all
qed

lemma destroy_address_space_spec_witness:
  "\<exists>p s s'. create_address_space sample_vm = Inr (p, s) \<and> destroy_address_space (Some p) s = Inr s' \<and> vm_inv {0x1000} {} s'"
proof -
  have z: "zones sample_vm = [sample_zone]" by (simp add: sample_vm_def)
  obtain p s where c: "create_address_space sample_vm = Inr (p, s)" "p \<notin> {0x1000}" "vm_inv (insert p {0x1000}) (insert (unat p, 0) {}) s"
    "cr3 s = cr3 sample_vm" "\<forall>v. USER_SPACE_START \<le> v \<and> v \<le> USER_SPACE_END \<longrightarrow> pte_of s p v = None"
    using create_address_space_ok [OF sample_vm_inv] sample_alloc unfolding z by (auto split: sum.splits)
  have nt: "\<not> has_tab s p i \<or> (\<exists>f. (unat f, 0) = (unat p, 0 :: nat) \<and> f = tab s p i)" for i
    using vm_invD(11) [OF c(3), of p i] by auto
  then have no: "\<not> has_tab s p i" for i
    using vm_invD(9) [OF c(3), of p i] by (auto simp: word_unat_eq_iff [symmetric])
  have "cr3 s = 0x1000" using c(4) by (simp add: sample_vm_def)
  then have pc: "p \<noteq> cr3 s" using c(2) by auto
  have pr: "private_ok (insert p {0x1000}) (insert (unat p, 0) {}) s p {1..<KERNEL_PDE_BASE}" using no by (auto simp: private_ok_def)
  have ow: "own s p i = {}" for i using no by (simp add: own_def)
  obtain s' where s': "destroy_address_space (Some p) s = Inr s'"
    "vm_inv (insert p {0x1000} - {p}) (insert (unat p, 0) {} - handed ` insert p (\<Union>i \<in> {1..<KERNEL_PDE_BASE}. own s p i)) s'"
    using destroy_address_space_spec [OF c(3) _ pc _ pr] by auto
  have "insert p {0x1000} - {p} = {0x1000}" using c(2) by auto
  moreover have "insert (unat p, 0) {} - handed ` insert p (\<Union>i \<in> {1..<KERNEL_PDE_BASE}. own s p i) = {}"
    using ow by (simp add: handed_def)
  ultimately show ?thesis using c(1) s' by auto
qed

end
