(* ===== verification/Blkcache.thy ===== *)
theory Blkcache
  imports Prelude "HOL-Library.Monad_Syntax"
begin

text \<open>
  The block cache of \<^verbatim>\<open>kernel/filesystem/blkcache.c\<close>: 256 entries of one sector, found through
  64 hash chains and kept in a doubly linked list in the order of their last use, with the memory
  drives that the boot loader's modules give. An entry is its index in the array \<^verbatim>\<open>entries\<close>.

  The IDE driver is an argument, and what is proved holds for every driver, whatever its calls return and deliver:
  \<open>ide_rd\<close> and \<open>ide_wr\<close> stand for \<^verbatim>\<open>ide_read_sectors\<close> and \<^verbatim>\<open>ide_write_sector\<close>, with the state \<open>'d\<close> of the
  controller and its disks; a read gives the return code, what the buffer holds afterwards and the new state. No law of a
  disk is assumed (the driver keeps 28 bits of a sector's number and takes a transfer that timed out for a good one).
  A buffer is the list of its bytes, of a fixed length, and never NULL. A walk
  along a hash chain is a \<open>partial_function\<close>, so the value \<open>None\<close> of an operation says that
  it does not return.
\<close>

subsection \<open>State\<close>

definition BLKCACHE_NUM_BUCKETS :: nat where "BLKCACHE_NUM_BUCKETS = 64"
definition BLKCACHE_MAX_ENTRIES :: nat where "BLKCACHE_MAX_ENTRIES = 256"
definition BLKCACHE_MEMDRIVE_BASE :: nat where "BLKCACHE_MEMDRIVE_BASE = 0x80"

record blkcache_entry =
  e_drive :: nat
  e_lba :: nat
  e_data :: "u8 list"
  e_valid :: bool
  lru_prev :: "nat option"
  lru_next :: "nat option"
  hash_next :: "nat option"

record memdrive =
  md_base :: nat
  md_size :: nat
  md_valid :: bool

record 'd blk =
  entries :: "nat \<Rightarrow> blkcache_entry"
  hash_table :: "nat \<Rightarrow> nat option"
  lru_head :: "nat option"
  lru_tail :: "nat option"
  used_count :: nat
  memdrives :: "nat \<Rightarrow> memdrive"
  bmem :: "nat \<Rightarrow> u8"
  disks :: 'd

record 'd ide_ops =
  ide_rd :: "'d \<Rightarrow> nat \<Rightarrow> nat \<Rightarrow> nat \<Rightarrow> u8 list \<Rightarrow> int \<times> u8 list \<times> 'd"
  ide_wr :: "'d \<Rightarrow> nat \<Rightarrow> nat \<Rightarrow> u8 list \<Rightarrow> int \<times> 'd"
  ide_flush :: "'d \<Rightarrow> nat \<Rightarrow> 'd"

definition upd_ent :: "nat \<Rightarrow> (blkcache_entry \<Rightarrow> blkcache_entry) \<Rightarrow> 'd blk \<Rightarrow> 'd blk" where
  "upd_ent i f s = s\<lparr>entries := (entries s)(i := f (entries s i))\<rparr>"

subsection \<open>The devices below the cache\<close>

definition blkcache_drive_is_mem :: "nat \<Rightarrow> bool" where
  "blkcache_drive_is_mem d \<longleftrightarrow>
     BLKCACHE_MEMDRIVE_BASE \<le> d \<and> d < (BLKCACHE_MEMDRIVE_BASE + 16) mod 2 ^ 8"

definition memdrive_read_sector :: "'d blk \<Rightarrow> nat \<Rightarrow> nat \<Rightarrow> u8 list \<Rightarrow> int \<times> u8 list" where
  "memdrive_read_sector s d lba buf =
     (let md = memdrives s (d - BLKCACHE_MEMDRIVE_BASE); off = lba * 512
      in if \<not> md_valid md then (-1, buf)
         else if off + 512 > md_size md then (-1, buf)
         else (0, map (\<lambda>j. bmem s (w32 (md_base md + off + j))) [0..<512]))"

definition blkdev_read_sector :: "'d ide_ops \<Rightarrow> 'd blk \<Rightarrow> nat \<Rightarrow> nat \<Rightarrow> u8 list \<Rightarrow> int \<times> u8 list \<times> 'd blk" where
  "blkdev_read_sector io s d lba buf =
     (if blkcache_drive_is_mem d then (case memdrive_read_sector s d lba buf of (r, xs) \<Rightarrow> (r, xs, s))
      else case ide_rd io (disks s) d lba 1 buf of (r, xs, ds) \<Rightarrow> (r, xs, s\<lparr>disks := ds\<rparr>))"

text \<open>The part of a buffer that holds the \<open>i\<close>-th sector, and the buffer with that part replaced.\<close>

definition sector_of :: "u8 list \<Rightarrow> nat \<Rightarrow> u8 list" where
  "sector_of buf i = take 512 (drop (i * 512) buf)"






subsection \<open>The list in order of use\<close>

definition lru_remove :: "nat \<Rightarrow> 'd blk \<Rightarrow> 'd blk" where
  "lru_remove e s =
     (let p = lru_prev (entries s e); n = lru_next (entries s e);
          s1 = (case p of Some q \<Rightarrow> upd_ent q (lru_next_update (\<lambda>_. n)) s | None \<Rightarrow> s\<lparr>lru_head := n\<rparr>);
          s2 = (case n of Some q \<Rightarrow> upd_ent q (lru_prev_update (\<lambda>_. p)) s1 | None \<Rightarrow> s1\<lparr>lru_tail := p\<rparr>)
      in upd_ent e (\<lambda>x. x\<lparr>lru_prev := None, lru_next := None\<rparr>) s2)"

definition lru_push_front :: "nat \<Rightarrow> 'd blk \<Rightarrow> 'd blk" where
  "lru_push_front e s =
     (let s1 = upd_ent e (\<lambda>x. x\<lparr>lru_prev := None, lru_next := lru_head s\<rparr>) s;
          s2 = (case lru_head s of Some h \<Rightarrow> upd_ent h (lru_prev_update (\<lambda>_. Some e)) s1
                | None \<Rightarrow> s1\<lparr>lru_tail := Some e\<rparr>)
      in s2\<lparr>lru_head := Some e\<rparr>)"

subsection \<open>The hash chains\<close>

definition blkcache_hash :: "nat \<Rightarrow> nat \<Rightarrow> nat" where
  "blkcache_hash d lba = w32 (w32 (d * 2654435761) + lba) mod BLKCACHE_NUM_BUCKETS"

datatype hlink = Bucket nat | Next_of nat

fun get_link :: "'d blk \<Rightarrow> hlink \<Rightarrow> nat option" where
  "get_link s (Bucket b) = hash_table s b"
| "get_link s (Next_of i) = hash_next (entries s i)"

fun set_link :: "hlink \<Rightarrow> nat option \<Rightarrow> 'd blk \<Rightarrow> 'd blk" where
  "set_link (Bucket b) v s = s\<lparr>hash_table := (hash_table s)(b := v)\<rparr>"
| "set_link (Next_of i) v s = upd_ent i (hash_next_update (\<lambda>_. v)) s"

partial_function (option) hash_unlink :: "nat \<Rightarrow> hlink \<Rightarrow> 'd blk \<Rightarrow> 'd blk option" where
  "hash_unlink e pp s =
     (case get_link s pp of
        None \<Rightarrow> Some s
      | Some x \<Rightarrow>
          if x = e then Some (upd_ent e (hash_next_update (\<lambda>_. None)) (set_link pp (hash_next (entries s e)) s))
          else hash_unlink e (Next_of x) s)"

definition hash_remove :: "nat \<Rightarrow> 'd blk \<Rightarrow> 'd blk option" where
  "hash_remove e s = hash_unlink e (Bucket (blkcache_hash (e_drive (entries s e)) (e_lba (entries s e)))) s"

definition hash_insert :: "nat \<Rightarrow> 'd blk \<Rightarrow> 'd blk" where
  "hash_insert e s =
     (let b = blkcache_hash (e_drive (entries s e)) (e_lba (entries s e));
          s1 = upd_ent e (hash_next_update (\<lambda>_. hash_table s b)) s
      in s1\<lparr>hash_table := (hash_table s1)(b := Some e)\<rparr>)"

partial_function (option) lookup_from :: "'d blk \<Rightarrow> nat \<Rightarrow> nat \<Rightarrow> nat option \<Rightarrow> nat option option" where
  "lookup_from s d lba p =
     (case p of
        None \<Rightarrow> Some None
      | Some e \<Rightarrow>
          if e_valid (entries s e) \<and> e_drive (entries s e) = d \<and> e_lba (entries s e) = lba then Some (Some e)
          else lookup_from s d lba (hash_next (entries s e)))"

definition cache_lookup :: "'d blk \<Rightarrow> nat \<Rightarrow> nat \<Rightarrow> nat option option" where
  "cache_lookup s d lba = lookup_from s d lba (hash_table s (blkcache_hash d lba))"

definition cache_fill :: "nat \<Rightarrow> nat \<Rightarrow> nat \<Rightarrow> 'd blk \<Rightarrow> 'd blk" where
  "cache_fill e d lba s =
     lru_push_front e (hash_insert e (upd_ent e (\<lambda>x. x\<lparr>e_drive := d, e_lba := lba, e_valid := True\<rparr>) s))"

definition cache_alloc :: "nat \<Rightarrow> nat \<Rightarrow> 'd blk \<Rightarrow> (nat option \<times> 'd blk) option" where
  "cache_alloc d lba s =
     (if used_count s < BLKCACHE_MAX_ENTRIES then
        let e = used_count s
        in Some (Some e, cache_fill e d lba
                   (upd_ent e (e_valid_update (\<lambda>_. False)) (s\<lparr>used_count := used_count s + 1\<rparr>)))
      else case lru_tail s of
        None \<Rightarrow> Some (None, s)
      | Some e \<Rightarrow> do {
          let s1 = lru_remove e s;
          s2 \<leftarrow> (if e_valid (entries s1 e) then hash_remove e s1 else Some s1);
          Some (Some e, cache_fill e d lba s2)
        })"

subsection \<open>The operations\<close>

definition zero_entry :: blkcache_entry where
  "zero_entry = \<lparr>e_drive = 0, e_lba = 0, e_data = replicate 512 0, e_valid = False,
     lru_prev = None, lru_next = None, hash_next = None\<rparr>"

definition blkcache_init :: "'d blk \<Rightarrow> 'd blk" where
  "blkcache_init s = s\<lparr>entries := (\<lambda>_. zero_entry), hash_table := (\<lambda>_. None),
     memdrives := (\<lambda>_. \<lparr>md_base = 0, md_size = 0, md_valid = False\<rparr>),
     lru_head := None, lru_tail := None, used_count := 0\<rparr>"

definition lru_touch :: "nat \<Rightarrow> 'd blk \<Rightarrow> 'd blk" where
  "lru_touch e s = lru_push_front e (lru_remove e s)"

definition set_data :: "nat \<Rightarrow> u8 list \<Rightarrow> 'd blk \<Rightarrow> 'd blk" where
  "set_data e xs = upd_ent e (e_data_update (\<lambda>_. xs))"

definition blkcache_read_sector :: "'d ide_ops \<Rightarrow> nat \<Rightarrow> nat \<Rightarrow> u8 list \<Rightarrow> 'd blk
    \<Rightarrow> (int \<times> u8 list \<times> 'd blk) option" where
  "blkcache_read_sector io d lba buf s = do {
     hit \<leftarrow> cache_lookup s d lba;
     case hit of
       Some e \<Rightarrow> Some (0, e_data (entries s e), lru_touch e s)
     | None \<Rightarrow> do {
         (got, s1) \<leftarrow> cache_alloc d lba s;
         case got of
           None \<Rightarrow> Some (blkdev_read_sector io s1 d lba buf)
         | Some e \<Rightarrow>
             (case blkdev_read_sector io s1 d lba (e_data (entries s1 e)) of
                (r, xs, s2) \<Rightarrow>
                  let s3 = set_data e xs s2
                  in if r \<noteq> 0 then Some (r, buf, upd_ent e (e_valid_update (\<lambda>_. False)) s3)
                     else Some (0, xs, s3))
       }
   }"











definition blkcache_is_memdrive :: "nat \<Rightarrow> bool" where
  "blkcache_is_memdrive d = blkcache_drive_is_mem d"

subsection \<open>Doubly linked lists\<close>




definition dll :: "(nat \<Rightarrow> nat option) \<Rightarrow> (nat \<Rightarrow> nat option) \<Rightarrow> nat option \<Rightarrow> nat option \<Rightarrow> nat list \<Rightarrow> bool" where
  "dll nx pv h t xs \<longleftrightarrow> chain nx h xs \<and> chain pv t (rev xs) \<and> distinct xs"



subsection \<open>Which fields the list operations leave alone\<close>

named_theorems blk_frame \<open>what an operation of the cache does not change\<close>

lemma upd_ent_simps [simp]:
  "entries (upd_ent i f s) j = (if j = i then f (entries s i) else entries s j)"
  "hash_table (upd_ent i f s) = hash_table s" "lru_head (upd_ent i f s) = lru_head s"
  "lru_tail (upd_ent i f s) = lru_tail s" "used_count (upd_ent i f s) = used_count s"
  "memdrives (upd_ent i f s) = memdrives s" "bmem (upd_ent i f s) = bmem s" "disks (upd_ent i f s) = disks s"
  by (simp_all add: upd_ent_def)

lemma lru_remove_frame [blk_frame]:
  "e_drive (entries (lru_remove e s) i) = e_drive (entries s i)"
  "e_lba (entries (lru_remove e s) i) = e_lba (entries s i)"
  "e_data (entries (lru_remove e s) i) = e_data (entries s i)"
  "e_valid (entries (lru_remove e s) i) = e_valid (entries s i)"
  "hash_next (entries (lru_remove e s) i) = hash_next (entries s i)"
  "hash_table (lru_remove e s) = hash_table s" "used_count (lru_remove e s) = used_count s"
  "memdrives (lru_remove e s) = memdrives s" "bmem (lru_remove e s) = bmem s" "disks (lru_remove e s) = disks s"
  by (auto simp: lru_remove_def Let_def split: option.splits)

lemma lru_push_front_frame [blk_frame]:
  "e_drive (entries (lru_push_front e s) i) = e_drive (entries s i)"
  "e_lba (entries (lru_push_front e s) i) = e_lba (entries s i)"
  "e_data (entries (lru_push_front e s) i) = e_data (entries s i)"
  "e_valid (entries (lru_push_front e s) i) = e_valid (entries s i)"
  "hash_next (entries (lru_push_front e s) i) = hash_next (entries s i)"
  "hash_table (lru_push_front e s) = hash_table s" "used_count (lru_push_front e s) = used_count s"
  "memdrives (lru_push_front e s) = memdrives s" "bmem (lru_push_front e s) = bmem s"
  "disks (lru_push_front e s) = disks s"
  by (auto simp: lru_push_front_def Let_def split: option.splits)

lemma hash_insert_frame [blk_frame]:
  "e_drive (entries (hash_insert e s) i) = e_drive (entries s i)"
  "e_lba (entries (hash_insert e s) i) = e_lba (entries s i)"
  "e_data (entries (hash_insert e s) i) = e_data (entries s i)"
  "e_valid (entries (hash_insert e s) i) = e_valid (entries s i)"
  "lru_next (entries (hash_insert e s) i) = lru_next (entries s i)"
  "lru_prev (entries (hash_insert e s) i) = lru_prev (entries s i)"
  "lru_head (hash_insert e s) = lru_head s" "lru_tail (hash_insert e s) = lru_tail s"
  "used_count (hash_insert e s) = used_count s"
  "memdrives (hash_insert e s) = memdrives s" "bmem (hash_insert e s) = bmem s" "disks (hash_insert e s) = disks s"
  by (auto simp: hash_insert_def Let_def)

lemma set_data_frame [blk_frame]:
  "e_drive (entries (set_data e xs s) i) = e_drive (entries s i)"
  "e_lba (entries (set_data e xs s) i) = e_lba (entries s i)"
  "e_valid (entries (set_data e xs s) i) = e_valid (entries s i)"
  "hash_next (entries (set_data e xs s) i) = hash_next (entries s i)"
  "lru_next (entries (set_data e xs s) i) = lru_next (entries s i)"
  "lru_prev (entries (set_data e xs s) i) = lru_prev (entries s i)"
  "e_data (entries (set_data e xs s) i) = (if i = e then xs else e_data (entries s i))"
  "lru_head (set_data e xs s) = lru_head s" "lru_tail (set_data e xs s) = lru_tail s"
  "hash_table (set_data e xs s) = hash_table s" "used_count (set_data e xs s) = used_count s"
  "memdrives (set_data e xs s) = memdrives s" "bmem (set_data e xs s) = bmem s" "disks (set_data e xs s) = disks s"
  by (simp_all add: set_data_def)

subsection \<open>The order of use\<close>

definition lru_is :: "'d blk \<Rightarrow> nat list \<Rightarrow> bool" where
  "lru_is s xs \<longleftrightarrow>
     dll (\<lambda>i. lru_next (entries s i)) (\<lambda>i. lru_prev (entries s i)) (lru_head s) (lru_tail s) xs"





subsection \<open>The hash chains\<close>

definition chains :: "'d blk \<Rightarrow> (nat \<Rightarrow> nat list) \<Rightarrow> bool" where
  "chains s c \<longleftrightarrow> (\<forall>b<64. chain (\<lambda>i. hash_next (entries s i)) (hash_table s b) (c b) \<and> distinct (c b)) \<and>
     (\<forall>b<64. \<forall>b'<64. b \<noteq> b' \<longrightarrow> set (c b) \<inter> set (c b') = {})"



lemma lookup_from_eq:
  "chain (\<lambda>i. hash_next (entries s i)) p xs \<Longrightarrow>
   lookup_from s d l p = Some (find (\<lambda>e. e_valid (entries s e) \<and> e_drive (entries s e) = d \<and> e_lba (entries s e) = l) xs)"
proof (induction xs arbitrary: p)
  case Nil
  then show ?case by (simp add: lookup_from.simps)
next
  case (Cons x xs)
  then show ?case by (auto simp: lookup_from.simps [of s d l "Some x"])
qed





subsection \<open>The invariant of the structure\<close>

definition key_is :: "'d blk \<Rightarrow> nat \<Rightarrow> nat \<Rightarrow> nat \<Rightarrow> bool" where
  "key_is s d l i \<longleftrightarrow> i < used_count s \<and> e_valid (entries s i) \<and> e_drive (entries s i) = d \<and> e_lba (entries s i) = l"

definition members :: "'d blk \<Rightarrow> nat \<Rightarrow> nat set" where
  "members s b = {i. i < used_count s \<and> e_valid (entries s i)
     \<and> blkcache_hash (e_drive (entries s i)) (e_lba (entries s i)) = b}"

definition blk_ok :: "'d blk \<Rightarrow> bool" where
  "blk_ok s \<longleftrightarrow> used_count s \<le> 256 \<and> (\<exists>xs. lru_is s xs \<and> set xs = {..<used_count s})
     \<and> (\<exists>c. chains s c \<and> (\<forall>b<64. set (c b) = members s b))
     \<and> (\<forall>i j d l. key_is s d l i \<longrightarrow> key_is s d l j \<longrightarrow> i = j)"






lemma blk_ok_devices [simp]:
  "blk_ok (s\<lparr>disks := ds\<rparr>) = blk_ok s" "blk_ok (s\<lparr>memdrives := md\<rparr>) = blk_ok s"
  by (simp_all add: blk_ok_def key_is_def members_def lru_is_def chains_def)


lemma lru_touch_frame [blk_frame]:
  "e_drive (entries (lru_touch e s) i) = e_drive (entries s i)"
  "e_lba (entries (lru_touch e s) i) = e_lba (entries s i)"
  "e_data (entries (lru_touch e s) i) = e_data (entries s i)"
  "e_valid (entries (lru_touch e s) i) = e_valid (entries s i)"
  "hash_next (entries (lru_touch e s) i) = hash_next (entries s i)"
  "hash_table (lru_touch e s) = hash_table s" "used_count (lru_touch e s) = used_count s"
  "memdrives (lru_touch e s) = memdrives s" "bmem (lru_touch e s) = bmem s" "disks (lru_touch e s) = disks s"
  by (simp_all add: lru_touch_def blk_frame)


subsection \<open>Taking an entry\<close>

lemma cache_fill_frame [blk_frame]:
  "e_drive (entries (cache_fill e d l s) i) = (if i = e then d else e_drive (entries s i))"
  "e_lba (entries (cache_fill e d l s) i) = (if i = e then l else e_lba (entries s i))"
  "e_data (entries (cache_fill e d l s) i) = e_data (entries s i)"
  "e_valid (entries (cache_fill e d l s) i) \<longleftrightarrow> i = e \<or> e_valid (entries s i)"
  "used_count (cache_fill e d l s) = used_count s"
  "memdrives (cache_fill e d l s) = memdrives s" "bmem (cache_fill e d l s) = bmem s" "disks (cache_fill e d l s) = disks s"
  by (simp_all add: cache_fill_def blk_frame)






subsection \<open>Dropping the entries of a drive\<close>





subsection \<open>Buffers of several sectors\<close>


lemma sector_nth: "(j + 1) * 512 \<le> length b \<Longrightarrow> k < 512 \<Longrightarrow> sector_of b j ! k = b ! (j * 512 + k)"
  by (simp add: sector_of_def)



lemma sectors_eqI:
  assumes "length b = 512 * m" "length b' = 512 * m" "\<And>j. j < m \<Longrightarrow> sector_of b j = sector_of b' j"
  shows "b = b'"
proof (rule nth_equalityI)
  show "length b = length b'" using assms by simp
  fix k assume k: "k < length b"
  let ?j = "k div 512"
  have j: "?j < m" using k assms(1) by (simp add: less_mult_imp_div_less mult.commute)
  then have "(?j + 1) * 512 \<le> m * 512" by (intro mult_le_mono1) simp
  then have le: "(?j + 1) * 512 \<le> length b" "(?j + 1) * 512 \<le> length b'" using assms(1,2) by simp_all
  have "b ! (?j * 512 + k mod 512) = b' ! (?j * 512 + k mod 512)"
    using sector_nth [OF le(1), of "k mod 512"] sector_nth [OF le(2), of "k mod 512"] assms(3) [OF j] by simp
  then show "b ! k = b' ! k" by simp
qed

subsection \<open>The cache as a map\<close>





























subsection \<open>The operations on the map\<close>














text \<open>The disks of a concrete driver: four drives that hold a byte at each place of each sector.\<close>

type_synonym demo_disk = "nat \<Rightarrow> nat \<Rightarrow> nat \<Rightarrow> u8"

definition demo_io :: "demo_disk ide_ops" where
  "demo_io = \<lparr>
     ide_rd = (\<lambda>ds d l n buf. if d < 4 then (0, map (\<lambda>i. ds d (l + i div 512) (i mod 512)) [0..<length buf], ds) else (-1, buf, ds)),
     ide_wr = (\<lambda>ds d l xs. if d < 4 then (0, ds(d := (ds d)(l := (!) xs))) else (-1, ds)),
     ide_flush = (\<lambda>ds d. ds)\<rparr>"

definition demo_blk :: "demo_disk blk" where
  "demo_blk = \<lparr>entries = (\<lambda>_. zero_entry), hash_table = (\<lambda>_. None), lru_head = None, lru_tail = None, used_count = 0,
     memdrives = (\<lambda>_. \<lparr>md_base = 0, md_size = 0, md_valid = False\<rparr>), bmem = (\<lambda>_. 0), disks = (\<lambda>d l j. word_of_nat (l + j))\<rparr>"



subsection \<open>Reads that fail\<close>

text \<open>
  A failed read marks its entry invalid and leaves it in its hash chain. When the entry is evicted it
  is not taken out of the chain, because it is invalid, and it is inserted a second time.
\<close>

fun read_times :: "'d ide_ops \<Rightarrow> nat \<Rightarrow> nat \<Rightarrow> u8 list \<Rightarrow> nat \<Rightarrow> 'd blk \<Rightarrow> 'd blk option" where
  "read_times io d l buf 0 s = Some s"
| "read_times io d l buf (Suc n) s = do {
     (r, b, s') \<leftarrow> blkcache_read_sector io d l buf s;
     read_times io d l buf n s'
   }"

definition dead_chain :: "nat \<Rightarrow> nat \<Rightarrow> nat \<Rightarrow> 'd blk \<Rightarrow> bool" where
  "dead_chain d l n s \<longleftrightarrow> used_count s = n \<and> hash_table s (blkcache_hash d l) = (if n = 0 then None else Some (n - 1))
     \<and> (\<forall>i<n. \<not> e_valid (entries s i) \<and> hash_next (entries s i) = (if i = 0 then None else Some (i - 1)))
     \<and> (if n = 0 then lru_head s = None else lru_head s \<noteq> None \<and> lru_tail s = Some 0)"

definition dead_loop :: "nat \<Rightarrow> nat \<Rightarrow> 'd blk \<Rightarrow> bool" where
  "dead_loop d l s \<longleftrightarrow> (\<exists>e<256. hash_table s (blkcache_hash d l) = Some e)
     \<and> (\<forall>i<256. \<not> e_valid (entries s i) \<and> (\<exists>j<256. hash_next (entries s i) = Some j))"

lemma dead_chain_links:
  "dead_chain d l n s \<Longrightarrow> m \<le> n \<Longrightarrow>
   chain (\<lambda>i. hash_next (entries s i)) (if m = 0 then None else Some (m - 1)) (rev [0..<m])"
  by (induction m) (auto simp: dead_chain_def)

lemma dead_chain_lookup:
  assumes "dead_chain d l n s"
  shows "cache_lookup s d l = Some None"
proof -
  have "chain (\<lambda>i. hash_next (entries s i)) (hash_table s (blkcache_hash d l)) (rev [0..<n])"
    using dead_chain_links [OF assms order_refl] assms by (simp add: dead_chain_def)
  then show ?thesis using assms lookup_from_eq unfolding cache_lookup_def dead_chain_def by (fastforce simp: find_None_iff)
qed

lemma dead_loop_lookup:
  assumes "dead_loop d l s"
  shows "cache_lookup s d l = None"
proof -
  have "\<not> (t = s \<and> (\<exists>e<256. p = Some e))" if "lookup_from t d' l' p = Some y" for t d' l' p y
  proof (rule lookup_from.raw_induct [where P = "\<lambda>t d l p y. \<not> (t = s \<and> (\<exists>e<256. p = Some e))", OF _ that], rule notI)
    fix f :: "'a blk \<Rightarrow> nat \<Rightarrow> nat \<Rightarrow> nat option \<Rightarrow> nat option option" and t d' l' p y
    assume ih: "\<And>t d l p y. f t d l p = Some y \<Longrightarrow> \<not> (t = s \<and> (\<exists>e<256. p = Some e))"
      and eq: "(case p of None \<Rightarrow> Some None
        | Some e \<Rightarrow> if e_valid (entries t e) \<and> e_drive (entries t e) = d' \<and> e_lba (entries t e) = l' then Some (Some e)
                    else f t d' l' (hash_next (entries t e))) = Some y"
      and "t = s \<and> (\<exists>e<256. p = Some e)"
    then obtain e where e: "p = Some e" "e < 256" "t = s" by blast
    then obtain j where j: "j < 256" "hash_next (entries s e) = Some j" "\<not> e_valid (entries s e)"
      using assms unfolding dead_loop_def by blast
    then have "f s d' l' (Some j) = Some y" using eq e by simp
    then show False using ih j(1) by blast
  qed
  then show ?thesis
    using assms unfolding cache_lookup_def dead_loop_def by (metis option.exhaust)
qed

lemma lru_push_ends:
  "lru_head (lru_push_front e s) = Some e"
  "lru_tail (lru_push_front e s) = (if lru_head s = None then Some e else lru_tail s)"
  by (simp_all add: lru_push_front_def Let_def split: option.splits)

lemma dead_read:
  assumes s: "dead_chain d l n s" "n \<le> 256" and dev: "\<not> blkcache_drive_is_mem d"
    and fail: "\<And>ds buf. fst (ide_rd io ds d l 1 buf) \<noteq> 0"
  shows "\<exists>r s'. blkcache_read_sector io d l buf s = Some (r, buf, s') \<and> r \<noteq> 0
    \<and> (if n < 256 then dead_chain d l (n + 1) s' else dead_loop d l s')"
proof -
  let ?e = "if n < 256 then n else 0"
  let ?t = "if n < 256 then upd_ent n (e_valid_update (\<lambda>_. False)) (s\<lparr>used_count := n + 1\<rparr>) else lru_remove 0 s"
  let ?s1 = "cache_fill ?e d l ?t"
  have a: "cache_alloc d l s = Some (Some ?e, ?s1)"
    using s by (auto simp: cache_alloc_def dead_chain_def BLKCACHE_MAX_ENTRIES_def blk_frame)
  obtain r xs ds where r: "ide_rd io (disks ?s1) d l 1 (e_data (entries ?s1 ?e)) = (r, xs, ds)" by (metis prod_cases3)
  let ?s' = "upd_ent ?e (e_valid_update (\<lambda>_. False)) (set_data ?e xs (?s1\<lparr>disks := ds\<rparr>))"
  have r0: "r \<noteq> 0" using fail r by (metis fst_conv)
  have rd: "blkcache_read_sector io d l buf s = Some (r, buf, ?s')"
    using dead_chain_lookup [OF s(1)] a r r0 dev
    by (simp add: blkcache_read_sector_def blkdev_read_sector_def Let_def)
  have hn: "hash_next (entries ?s' i) = (if i = ?e then hash_table s (blkcache_hash d l) else hash_next (entries s i))" for i
    by (simp add: blk_frame cache_fill_def hash_insert_def Let_def)
  have ht: "hash_table ?s' (blkcache_hash d l) = Some ?e"
    by (simp add: blk_frame cache_fill_def hash_insert_def Let_def)
  have va: "e_valid (entries ?s' i) \<longleftrightarrow> i \<noteq> ?e \<and> e_valid (entries s i)" for i
    by (simp add: blk_frame)
  show ?thesis
  proof (cases "n < 256")
    case True
    have "lru_head ?s' = Some ?e" "lru_tail ?s' = (if n = 0 then Some ?e else lru_tail s)" "used_count ?s' = n + 1"
      using True s(1) by (simp_all add: cache_fill_def lru_push_ends blk_frame set_data_frame dead_chain_def)
    moreover have "\<forall>i<n + 1. \<not> e_valid (entries ?s' i) \<and> hash_next (entries ?s' i) = (if i = 0 then None else Some (i - 1))"
      unfolding va hn using s(1) True by (auto simp: dead_chain_def less_Suc_eq)
    ultimately have "dead_chain d l (n + 1) ?s'"
      using ht True s(1) unfolding dead_chain_def by (simp split: if_splits)
    then show ?thesis using rd r0 True by (auto simp: blk_frame)
  next
    case False
    then have n: "n = 256" using s(2) by simp
    have "dead_loop d l ?s'"
      unfolding dead_loop_def va hn ht
      using s(1) n by (auto simp: dead_chain_def intro: exI [of _ "_ - 1"])
    then show ?thesis using rd r0 False by (auto simp: blk_frame)
  qed
qed

lemma dead_reads:
  assumes "\<not> blkcache_drive_is_mem d" "\<And>ds buf. fst (ide_rd io ds d l 1 buf) \<noteq> 0"
  shows "dead_chain d l n s \<Longrightarrow> n + k = 256 \<Longrightarrow>
    \<exists>t. read_times io d l buf (k + 1) s = Some t \<and> dead_loop d l t"
proof (induction k arbitrary: n s)
  case 0
  then have n: "n = 256" by simp
  from dead_read [of d l n s io buf] 0 assms n show ?case by auto
next
  case (Suc k)
  have lt: "n < 256" using Suc.prems by simp
  obtain r s' where s': "blkcache_read_sector io d l buf s = Some (r, buf, s')" "dead_chain d l (n + 1) s'"
    using dead_read [of d l n s io buf] Suc.prems assms lt by auto
  have "(n + 1) + k = 256" using Suc.prems(2) by simp
  from Suc.IH [OF s'(2) this] s'(1) show ?case by auto
qed

text \<open>
  When a drive of the IDE driver fails to read a sector (it answers -1 for a drive that is not
  there), 257 reads of the sector through a fresh cache return, and the next one never does: the
  hash chain of the sector has become a circle of invalid entries.
\<close>

theorem blkcache_failed_reads_hang:
  assumes "\<not> blkcache_drive_is_mem d" "\<And>ds buf. fst (ide_rd io ds d l 1 buf) \<noteq> 0"
  shows "\<exists>t. read_times io d l buf 257 (blkcache_init s) = Some t \<and> blkcache_read_sector io d l buf t = None"
proof -
  have "dead_chain d l 0 (blkcache_init s)" by (simp add: dead_chain_def blkcache_init_def)
  from dead_reads [OF assms this, of 256 buf] obtain t where
    "read_times io d l buf 257 (blkcache_init s) = Some t" "dead_loop d l t" by (auto simp: blkcache_init_def)
  moreover from this have "cache_lookup t d l = None" by (intro dead_loop_lookup)
  ultimately show ?thesis by (auto simp: blkcache_read_sector_def)
qed

lemma blkcache_failed_reads_hang_witness:
  "\<exists>t. read_times demo_io 4 0 [] 257 (blkcache_init demo_blk) = Some t \<and> blkcache_read_sector demo_io 4 0 [] t = None"
  by (rule blkcache_failed_reads_hang) (simp_all add: demo_io_def blkcache_drive_is_mem_def BLKCACHE_MEMDRIVE_BASE_def)

end
