(* ===== verification/Vnode.thy ===== *)
theory Vnode
  imports Prelude "HOL-Library.Monad_Syntax"
begin

text \<open>
  The data that the file systems, the permission checks and the file descriptors share
  (\<^verbatim>\<open>kernel/filesystem/vfs.h\<close>, \<^verbatim>\<open>kernel/syscall/sys/file.h\<close>, \<^verbatim>\<open>kernel/syscall/sys/errno.h\<close>,
  the credentials in \<^verbatim>\<open>kernel/schedule/schedule.h\<close> and the files and directories of
  \<^verbatim>\<open>kernel/filesystem/tmpfs/tmpfs.h\<close>): nodes, private data and credentials live in a store, a pointer
  is the key of an object in it, and an object that is freed or was never allocated is \<open>None\<close>. An
  operation that follows a pointer to such an object, or leaves the bounds of a buffer, is \<open>None\<close>.
  A name or path is its characters without the closing NUL, and \<^verbatim>\<open>kernel_malloc\<close>, which does not
  return NULL, gives a pointer never used before.
\<close>

subsection \<open>Constants\<close>

definition VFS_FLAG_FILE :: u32 where "VFS_FLAG_FILE = 0x1"
definition VFS_FLAG_DIRECTORY :: u32 where "VFS_FLAG_DIRECTORY = 0x2"
definition VFS_FLAG_SYMLINK :: u32 where "VFS_FLAG_SYMLINK = 0x4"
definition VFS_FLAG_PIPE :: u32 where "VFS_FLAG_PIPE = 0x8"
definition VFS_FLAG_SOCKET :: u32 where "VFS_FLAG_SOCKET = 0x10"
definition VFS_FLAG_DISKIO :: u32 where "VFS_FLAG_DISKIO = 0x20"

lemmas vfs_flag_defs = VFS_FLAG_FILE_def VFS_FLAG_DIRECTORY_def VFS_FLAG_SYMLINK_def VFS_FLAG_PIPE_def
  VFS_FLAG_SOCKET_def VFS_FLAG_DISKIO_def

definition S_IFMT :: u32 where "S_IFMT = 0xF000"
definition S_IFREG :: u32 where "S_IFREG = 0x8000"
definition S_IFDIR :: u32 where "S_IFDIR = 0x4000"
definition S_IFIFO :: u32 where "S_IFIFO = 0x1000"
definition S_IFLNK :: u32 where "S_IFLNK = 0xA000"
definition S_ISUID :: u32 where "S_ISUID = 0x0800"
definition S_ISGID :: u32 where "S_ISGID = 0x0400"
definition S_ISVTX :: u32 where "S_ISVTX = 0x0200"

definition O_RDONLY :: u32 where "O_RDONLY = 0"
definition O_WRONLY :: u32 where "O_WRONLY = 1"
definition O_RDWR :: u32 where "O_RDWR = 2"
definition O_APPEND :: u32 where "O_APPEND = 0x0008"
definition O_CREAT :: u32 where "O_CREAT = 0x0200"
definition O_TRUNC :: u32 where "O_TRUNC = 0x0400"
definition O_EXCL :: u32 where "O_EXCL = 0x0800"

lemmas open_flag_defs = O_RDONLY_def O_WRONLY_def O_RDWR_def O_APPEND_def O_CREAT_def O_TRUNC_def O_EXCL_def

definition EPERM :: int where "EPERM = 1"
definition ENOENT :: int where "ENOENT = 2"
definition ESRCH :: int where "ESRCH = 3"
definition EIO :: int where "EIO = 5"
definition EBADF :: int where "EBADF = 9"
definition EACCES :: int where "EACCES = 13"
definition EEXIST :: int where "EEXIST = 17"
definition ENOTDIR :: int where "ENOTDIR = 20"
definition EISDIR :: int where "EISDIR = 21"
definition EINVAL :: int where "EINVAL = 22"
definition ENOSYS :: int where "ENOSYS = 88"
definition ENOTEMPTY :: int where "ENOTEMPTY = 90"
definition ENAMETOOLONG :: int where "ENAMETOOLONG = 91"

lemmas errno_defs = EPERM_def ENOENT_def ESRCH_def EIO_def EBADF_def EACCES_def EEXIST_def ENOTDIR_def EISDIR_def
  EINVAL_def ENOSYS_def ENOTEMPTY_def ENAMETOOLONG_def

definition NGROUPS_MAX :: nat where "NGROUPS_MAX = 16"

subsection \<open>Credentials and nodes\<close>

record cred =
  c_uid :: u16
  c_gid :: u16
  c_euid :: u16
  c_egid :: u16
  c_groups :: "nat \<Rightarrow> u16"
  c_ngroups :: nat
  c_umask :: u32

record vnode =
  v_name :: "u8 list"
  v_inode :: nat
  v_size :: nat
  v_flags :: u32
  v_uid :: u16
  v_gid :: u16
  v_mode :: u32
  v_refcount :: nat
  v_data :: "nat option"
  v_ops :: "nat option"
  v_parent :: "nat option"
  v_children :: "nat option"
  v_next :: "nat option"

definition has_flag :: "u32 \<Rightarrow> vnode \<Rightarrow> bool" where
  "has_flag f n \<longleftrightarrow> v_flags n AND f \<noteq> 0"

subsection \<open>The store\<close>

text \<open>
  \<open>tdirs\<close> keeps the entries of a tmpfs directory as the list of their nodes, the head of the linked
  list first. \<open>fresh\<close> is above every address in use.
\<close>

record tmpfs_file =
  tf_data :: "u8 list option"
  tf_size :: nat

record vfs =
  nodes :: "nat \<Rightarrow> vnode option"
  tfiles :: "nat \<Rightarrow> tmpfs_file option"
  tdirs :: "nat \<Rightarrow> nat list option"
  fresh :: nat
  caller :: "cred option"
  vfs_root :: "nat option"
  vfs_mounts :: "(u8 list \<times> nat) list"

definition set_node :: "nat \<Rightarrow> vnode option \<Rightarrow> vfs \<Rightarrow> vfs" where
  "set_node p n s = s\<lparr>nodes := (nodes s)(p := n)\<rparr>"

definition set_tfile :: "nat \<Rightarrow> tmpfs_file option \<Rightarrow> vfs \<Rightarrow> vfs" where
  "set_tfile p f s = s\<lparr>tfiles := (tfiles s)(p := f)\<rparr>"

definition set_tdir :: "nat \<Rightarrow> nat list option \<Rightarrow> vfs \<Rightarrow> vfs" where
  "set_tdir p d s = s\<lparr>tdirs := (tdirs s)(p := d)\<rparr>"

text \<open>A \<^verbatim>\<open>uint32_t\<close> returned as \<^verbatim>\<open>int\<close>.\<close>

definition as_int :: "nat \<Rightarrow> int" where
  "as_int n = (if n < 2 ^ 31 then int n else int n - 2 ^ 32)"

lemma set_simps [simp]:
  "nodes (set_node p n s) q = (if q = p then n else nodes s q)" "tfiles (set_node p n s) = tfiles s" "tdirs (set_node p n s) = tdirs s"
  "nodes (set_tfile p f s) = nodes s" "tfiles (set_tfile p f s) q = (if q = p then f else tfiles s q)" "tdirs (set_tfile p f s) = tdirs s"
  "nodes (set_tdir p d s) = nodes s" "tfiles (set_tdir p d s) = tfiles s" "tdirs (set_tdir p d s) q = (if q = p then d else tdirs s q)"
  "fresh (set_node p n s) = fresh s" "fresh (set_tfile p f s) = fresh s" "fresh (set_tdir p d s) = fresh s"
  "caller (set_node p n s) = caller s" "caller (set_tfile p f s) = caller s" "caller (set_tdir p d s) = caller s"
  "vfs_root (set_node p n s) = vfs_root s" "vfs_root (set_tfile p f s) = vfs_root s" "vfs_root (set_tdir p d s) = vfs_root s"
  "vfs_mounts (set_node p n s) = vfs_mounts s" "vfs_mounts (set_tfile p f s) = vfs_mounts s" "vfs_mounts (set_tdir p d s) = vfs_mounts s"
  by (simp_all add: set_node_def set_tfile_def set_tdir_def)

end
