(* ===== verification/Creds.thy ===== *)
theory Creds
  imports Vnode
begin

text \<open>
  Permissions and credentials: \<^verbatim>\<open>kernel/filesystem/vfs_perm.c\<close> and, of
  \<^verbatim>\<open>kernel/syscall/syscall.c\<close>, the calls that read and change the user and group of a task
  (\<^verbatim>\<open>sys_getuid\<close> to \<^verbatim>\<open>sys_setgroups\<close>, \<^verbatim>\<open>sys_umask\<close>, the set-user-id part of \<^verbatim>\<open>sys_execve\<close>), those
  that change the owner and mode of a node (\<^verbatim>\<open>sys_chmod\<close>, \<^verbatim>\<open>sys_chown\<close>), the test of \<^verbatim>\<open>sys_kill\<close> and
  the tests that \<^verbatim>\<open>sys_open\<close>, \<^verbatim>\<open>sys_read\<close> and \<^verbatim>\<open>sys_write\<close> make of an access. A call returns what it
  leaves in \<^verbatim>\<open>errno\<close>; the node that a path resolves to is an argument, \<open>None\<close> when there is none.
\<close>

definition PERM_READ :: u32 where "PERM_READ = 0x04"
definition PERM_WRITE :: u32 where "PERM_WRITE = 0x02"
definition PERM_EXEC :: u32 where "PERM_EXEC = 0x01"

subsection \<open>The checks\<close>

definition proc_in_group :: "cred \<Rightarrow> u16 \<Rightarrow> bool" where
  "proc_in_group c g \<longleftrightarrow> c_egid c = g \<or> (\<exists>i\<in>set [0..<c_ngroups c]. c_groups c i = g)"

definition vfs_check_permission :: "vnode option \<Rightarrow> cred option \<Rightarrow> u32 \<Rightarrow> int" where
  "vfs_check_permission node proc want =
     (case (node, proc) of
        (Some n, Some c) \<Rightarrow>
          if c_euid c = 0 then 0
          else if v_mode n = 0 then 0
          else let perm = (if c_euid c = v_uid n then drop_bit 6 (v_mode n) AND 0x7
                           else if proc_in_group c (v_gid n) then drop_bit 3 (v_mode n) AND 0x7
                           else v_mode n AND 0x7)
               in if perm AND want = want then 0 else -1
      | _ \<Rightarrow> -1)"

definition vfs_check_dir_write :: "vnode option \<Rightarrow> cred option \<Rightarrow> int" where
  "vfs_check_dir_write dir proc = vfs_check_permission dir proc (PERM_WRITE OR PERM_EXEC)"

subsection \<open>The calls on credentials\<close>

definition sys_getuid :: "cred \<Rightarrow> int" where "sys_getuid c = uint (c_uid c)"
definition sys_getgid :: "cred \<Rightarrow> int" where "sys_getgid c = uint (c_gid c)"
definition sys_geteuid :: "cred \<Rightarrow> int" where "sys_geteuid c = uint (c_euid c)"
definition sys_getegid :: "cred \<Rightarrow> int" where "sys_getegid c = uint (c_egid c)"

definition sys_setuid :: "u32 \<Rightarrow> cred \<Rightarrow> int \<times> cred" where
  "sys_setuid arg c =
     (let u = ucast arg
      in if c_euid c = 0 then (0, c\<lparr>c_uid := u, c_euid := u\<rparr>)
         else if u = c_uid c then (0, c\<lparr>c_euid := u\<rparr>)
         else (- EPERM, c))"

definition sys_setgid :: "u32 \<Rightarrow> cred \<Rightarrow> int \<times> cred" where
  "sys_setgid arg c =
     (let g = ucast arg
      in if c_euid c = 0 then (0, c\<lparr>c_gid := g, c_egid := g\<rparr>)
         else if g = c_gid c then (0, c\<lparr>c_egid := g\<rparr>)
         else (- EPERM, c))"

definition sys_seteuid :: "u32 \<Rightarrow> cred \<Rightarrow> int \<times> cred" where
  "sys_seteuid arg c =
     (let u = ucast arg in if c_euid c = 0 \<or> u = c_uid c then (0, c\<lparr>c_euid := u\<rparr>) else (- EPERM, c))"

definition sys_setegid :: "u32 \<Rightarrow> cred \<Rightarrow> int \<times> cred" where
  "sys_setegid arg c =
     (let g = ucast arg in if c_euid c = 0 \<or> g = c_gid c then (0, c\<lparr>c_egid := g\<rparr>) else (- EPERM, c))"

text \<open>\<open>list\<close> is the array in user memory: what it holds before, and for \<open>sys_getgroups\<close> afterwards.\<close>

definition sys_getgroups :: "u32 \<Rightarrow> (nat \<Rightarrow> u16) \<Rightarrow> cred \<Rightarrow> int \<times> (nat \<Rightarrow> u16)" where
  "sys_getgroups arg list c =
     (let sz = sint arg
      in if sz = 0 then (int (c_ngroups c), list)
         else if sz < int (c_ngroups c) then (- EINVAL, list)
         else (int (c_ngroups c), \<lambda>i. if i < c_ngroups c then c_groups c i else list i))"

definition sys_setgroups :: "u32 \<Rightarrow> (nat \<Rightarrow> u16) \<Rightarrow> cred \<Rightarrow> int \<times> cred" where
  "sys_setgroups arg list c =
     (let sz = sint arg
      in if c_euid c \<noteq> 0 then (- EPERM, c)
         else if sz < 0 \<or> sz > int NGROUPS_MAX then (- EINVAL, c)
         else (0, c\<lparr>c_groups := (\<lambda>i. if int i < sz then list i else c_groups c i), c_ngroups := nat sz\<rparr>))"

definition sys_umask :: "u32 \<Rightarrow> cred \<Rightarrow> int \<times> cred" where
  "sys_umask arg c = (sint (c_umask c), c\<lparr>c_umask := arg AND 0x1FF\<rparr>)"

text \<open>What a successful \<^verbatim>\<open>execve\<close> of a node does, and the test before it.\<close>

definition exec_creds :: "vnode \<Rightarrow> cred \<Rightarrow> cred" where
  "exec_creds n c =
     (let c1 = (if v_mode n AND S_ISUID \<noteq> 0 then c\<lparr>c_euid := v_uid n\<rparr> else c)
      in if v_mode n AND S_ISGID \<noteq> 0 then c1\<lparr>c_egid := v_gid n\<rparr> else c1)"

definition sys_execve_creds :: "vnode option \<Rightarrow> bool \<Rightarrow> cred \<Rightarrow> int \<times> cred" where
  "sys_execve_creds node loads c =
     (case node of
        None \<Rightarrow> (- ENOENT, c)
      | Some n \<Rightarrow>
          if vfs_check_permission (Some n) (Some c) PERM_EXEC \<noteq> 0 then (- EACCES, c)
          else if loads then (0, exec_creds n c) else (- EIO, c))"

subsection \<open>The calls on nodes and tasks\<close>

text \<open>\<open>too_long\<close>: \<^verbatim>\<open>build_abs_path\<close> failed.\<close>

definition sys_chmod :: "bool \<Rightarrow> vnode option \<Rightarrow> u32 \<Rightarrow> cred \<Rightarrow> int \<times> vnode option" where
  "sys_chmod too_long node new_mode c =
     (if too_long then (- ENAMETOOLONG, node)
      else case node of
        None \<Rightarrow> (- ENOENT, None)
      | Some n \<Rightarrow>
          if c_euid c \<noteq> 0 \<and> c_euid c \<noteq> v_uid n then (- EPERM, node)
          else (0, Some (n\<lparr>v_mode := (v_mode n AND S_IFMT) OR (new_mode AND NOT S_IFMT)\<rparr>)))"

definition sys_chown :: "bool \<Rightarrow> vnode option \<Rightarrow> u32 \<Rightarrow> u32 \<Rightarrow> cred \<Rightarrow> int \<times> vnode option" where
  "sys_chown too_long node arg3 arg4 c =
     (let new_uid = ucast arg3 :: u16; new_gid = ucast arg4 :: u16
      in if too_long then (- ENAMETOOLONG, node)
      else case node of
        None \<Rightarrow> (- ENOENT, None)
      | Some n \<Rightarrow>
          if c_euid c = 0 then
            (0, Some (n\<lparr>v_uid := (if new_uid \<noteq> -1 then new_uid else v_uid n),
                        v_gid := (if new_gid \<noteq> -1 then new_gid else v_gid n),
                        v_mode := v_mode n AND NOT (S_ISUID OR S_ISGID)\<rparr>))
          else if c_euid c = v_uid n \<and> new_uid = -1 \<and> new_gid \<noteq> -1 \<and> proc_in_group c new_gid then
            (0, Some (n\<lparr>v_gid := new_gid, v_mode := v_mode n AND NOT (S_ISUID OR S_ISGID)\<rparr>))
          else (- EPERM, node))"

text \<open>The target of \<^verbatim>\<open>kill\<close> is its credentials; the result 0 stands for the signal being raised.\<close>

definition sys_kill_check :: "cred option \<Rightarrow> int \<Rightarrow> cred \<Rightarrow> int" where
  "sys_kill_check target sig c =
     (case target of
        None \<Rightarrow> - ESRCH
      | Some t \<Rightarrow>
          if sig \<ge> 16 then - EINVAL
          else if c_euid c \<noteq> 0 \<and> c_euid c \<noteq> c_uid t \<and> c_uid c \<noteq> c_uid t then - EPERM
          else 0)"

subsection \<open>Opening an existing node and using the descriptor\<close>

definition open_want :: "u32 \<Rightarrow> u32" where
  "open_want fl =
     (let acc = fl AND 0x3;
          w1 = (if acc = O_RDONLY \<or> acc = O_RDWR then PERM_READ else 0)
      in if acc = O_WRONLY \<or> acc = O_RDWR then w1 OR PERM_WRITE else w1)"

definition open_existing_check :: "vnode \<Rightarrow> u32 \<Rightarrow> cred \<Rightarrow> int" where
  "open_existing_check n fl c =
     (if fl AND O_CREAT \<noteq> 0 \<and> fl AND O_EXCL \<noteq> 0 then - EEXIST
      else if open_want fl \<noteq> 0 \<and> vfs_check_permission (Some n) (Some c) (open_want fl) \<noteq> 0 then - EACCES
      else 0)"

definition handle_readable :: "u32 \<Rightarrow> bool" where
  "handle_readable fl \<longleftrightarrow> fl AND 0x3 \<noteq> O_WRONLY"

definition handle_writable :: "u32 \<Rightarrow> bool" where
  "handle_writable fl \<longleftrightarrow> fl AND 0x3 \<noteq> O_RDONLY"

subsection \<open>What a task can become\<close>

text \<open>
  The credentials of a task after any sequence of these calls. \<open>N\<close> is the set of the nodes that
  exist to be executed.
\<close>

inductive cred_reach :: "vnode set \<Rightarrow> cred \<Rightarrow> cred \<Rightarrow> bool" for N c where
  cred_start: "cred_reach N c c"
| cred_setuid: "cred_reach N c d \<Longrightarrow> cred_reach N c (snd (sys_setuid a d))"
| cred_setgid: "cred_reach N c d \<Longrightarrow> cred_reach N c (snd (sys_setgid a d))"
| cred_seteuid: "cred_reach N c d \<Longrightarrow> cred_reach N c (snd (sys_seteuid a d))"
| cred_setegid: "cred_reach N c d \<Longrightarrow> cred_reach N c (snd (sys_setegid a d))"
| cred_setgroups: "cred_reach N c d \<Longrightarrow> cred_reach N c (snd (sys_setgroups a l d))"
| cred_umask: "cred_reach N c d \<Longrightarrow> cred_reach N c (snd (sys_umask a d))"
| cred_exec: "cred_reach N c d \<Longrightarrow> n \<in> N \<Longrightarrow> cred_reach N c (snd (sys_execve_creds (Some n) loads d))"

definition setuid_owners :: "vnode set \<Rightarrow> u16 set" where
  "setuid_owners N = v_uid ` {n\<in>N. v_mode n AND S_ISUID \<noteq> 0}"

definition setgid_owners :: "vnode set \<Rightarrow> u16 set" where
  "setgid_owners N = v_gid ` {n\<in>N. v_mode n AND S_ISGID \<noteq> 0}"

definition bounded_by :: "vnode set \<Rightarrow> cred \<Rightarrow> cred \<Rightarrow> bool" where
  "bounded_by N c d \<longleftrightarrow> c_uid d = c_uid c \<and> c_gid d = c_gid c \<and> c_groups d = c_groups c \<and> c_ngroups d = c_ngroups c
     \<and> c_euid d \<in> {c_uid c, c_euid c} \<union> setuid_owners N \<and> c_egid d \<in> {c_gid c, c_egid c} \<union> setgid_owners N"

lemmas cred_call_defs = sys_setuid_def sys_setgid_def sys_seteuid_def sys_setegid_def sys_setgroups_def sys_umask_def
  sys_execve_creds_def exec_creds_def

lemma cred_reach_bounded:
  assumes "cred_reach N c d" "c_uid c \<noteq> 0" "c_euid c \<noteq> 0" "0 \<notin> setuid_owners N"
  shows "bounded_by N c d"
  using assms(1)
proof (induction rule: cred_reach.induct)
  case (cred_exec d n loads)
  then show ?case
    by (auto simp: bounded_by_def sys_execve_creds_def exec_creds_def Let_def setuid_owners_def setgid_owners_def)
next
  case (cred_setgroups d a l)
  have "c_euid d \<noteq> 0" using cred_setgroups.IH assms(2-4) by (auto simp: bounded_by_def)
  then show ?case using cred_setgroups.IH by (simp add: sys_setgroups_def Let_def)
qed (use assms(2-4) in \<open>auto simp: bounded_by_def cred_call_defs Let_def\<close>)

text \<open>
  C33. A task that is not root stays bounded for ever: whatever sequence of these calls it makes, its real
  user and group and its supplementary groups never change, its effective user is its real one, its
  first effective one or the owner of a set-user-id program, and likewise its group. So it
  becomes root only through a set-user-id program that root owns.
\<close>

theorem cred_reach_unprivileged:
  assumes "cred_reach N c d" "c_uid c \<noteq> 0" "c_euid c \<noteq> 0" "0 \<notin> setuid_owners N"
  shows "bounded_by N c d \<and> c_euid d \<noteq> 0"
  using cred_reach_bounded [OF assms] assms(2-4) by (auto simp: bounded_by_def)

definition demo_cred :: cred where
  "demo_cred = \<lparr>c_uid = 7, c_gid = 7, c_euid = 7, c_egid = 7, c_groups = (\<lambda>_. 0), c_ngroups = 0, c_umask = 0x12\<rparr>"

definition demo_node :: vnode where
  "demo_node = \<lparr>v_name = [], v_inode = 0, v_size = 0, v_flags = VFS_FLAG_FILE, v_uid = 9, v_gid = 9, v_mode = 0x89ED,
     v_refcount = 1, v_data = None, v_ops = None, v_parent = None, v_children = None, v_next = None\<rparr>"

lemma cred_reach_unprivileged_witness:
  "\<exists>d. cred_reach {demo_node} demo_cred d \<and> c_euid d = 9 \<and> c_uid d = 7"
proof -
  let ?d = "snd (sys_execve_creds (Some demo_node) True demo_cred)"
  have r: "cred_reach {demo_node} demo_cred ?d" by (rule cred_exec [OF cred_start]) simp
  have "0 \<notin> setuid_owners {demo_node}" by (auto simp: setuid_owners_def demo_node_def)
  then have "bounded_by {demo_node} demo_cred ?d"
    using cred_reach_unprivileged [OF r] by (simp add: demo_cred_def)
  moreover have "c_euid ?d = 9"
    by (simp add: sys_execve_creds_def exec_creds_def vfs_check_permission_def demo_node_def demo_cred_def
        PERM_EXEC_def proc_in_group_def S_ISUID_def S_ISGID_def Let_def)
  ultimately show ?thesis using r by (auto simp: bounded_by_def demo_cred_def)
qed

subsection \<open>Well-formed credentials and nodes\<close>

definition cred_ok :: "cred \<Rightarrow> bool" where
  "cred_ok c \<longleftrightarrow> c_ngroups c \<le> NGROUPS_MAX \<and> c_umask c AND 0x1FF = c_umask c"

lemma cred_reach_cred_ok: "cred_reach N c d \<Longrightarrow> cred_ok c \<Longrightarrow> cred_ok d"
  by (induction rule: cred_reach.induct) (auto simp: cred_ok_def cred_call_defs Let_def and.assoc)

lemma mode_bits:
  "((m AND S_IFMT) OR (x AND NOT S_IFMT)) AND S_IFMT = m AND S_IFMT"
  "(m AND NOT S_ISUID AND NOT S_ISGID) AND S_IFMT = m AND S_IFMT"
  "(m AND NOT S_ISUID AND NOT S_ISGID) AND S_ISUID = 0" "(m AND NOT S_ISUID AND NOT S_ISGID) AND S_ISGID = 0"
proof -
  show "((m AND S_IFMT) OR (x AND NOT S_IFMT)) AND S_IFMT = m AND S_IFMT"
    by (rule bit_word_eqI) (auto simp: bit_simps)
qed (simp_all add: and.assoc S_IFMT_def S_ISUID_def S_ISGID_def)

text \<open>What a node and a caller's rights over it are: the type of a node is in the upper bits of its mode.\<close>

definition same_type :: "vnode \<Rightarrow> vnode \<Rightarrow> bool" where
  "same_type n m \<longleftrightarrow> v_mode m AND S_IFMT = v_mode n AND S_IFMT \<and> v_flags m = v_flags n
     \<and> v_ops m = v_ops n \<and> v_data m = v_data n \<and> v_size m = v_size n \<and> v_refcount m = v_refcount n"

lemmas mode_call_defs = sys_chmod_def sys_chown_def

text \<open>
  C35. Changing the mode or the owner keeps a node the type it is, a regular file or a directory, and
  its data; a caller that is neither root nor the owner changes nothing and gets an error, only root
  changes the owner, and a change of owner or group leaves no set-user-id or set-group-id bit. The
  calls on credentials keep at most 16 groups and a file mask of nine bits.
\<close>

theorem mode_and_owner_calls:
  "(\<forall>long m c n r n'. sys_chmod long (Some n) m c = (r, Some n') \<longrightarrow>
      same_type n n' \<and> v_uid n' = v_uid n \<and> v_gid n' = v_gid n \<and> (r \<noteq> 0 \<longrightarrow> n' = n) \<and>
      (r = 0 \<longrightarrow> c_euid c = 0 \<or> c_euid c = v_uid n))
   \<and> (\<forall>long a b c n r n'. sys_chown long (Some n) a b c = (r, Some n') \<longrightarrow>
      same_type n n' \<and> (r \<noteq> 0 \<longrightarrow> n' = n) \<and> (v_uid n' \<noteq> v_uid n \<longrightarrow> c_euid c = 0) \<and>
      (v_gid n' \<noteq> v_gid n \<longrightarrow> c_euid c = 0 \<or> c_euid c = v_uid n \<and> proc_in_group c (v_gid n')) \<and>
      (r = 0 \<longrightarrow> v_mode n' AND S_ISUID = 0 \<and> v_mode n' AND S_ISGID = 0))
   \<and> (\<forall>N c d. cred_reach N c d \<longrightarrow> cred_ok c \<longrightarrow> cred_ok d)"
proof (intro conjI allI impI)
  fix N c d assume "cred_reach N c d" "cred_ok c"
  then show "cred_ok d" by (rule cred_reach_cred_ok)
qed (auto simp: mode_call_defs same_type_def mode_bits Let_def EPERM_def ENAMETOOLONG_def split: if_splits)

lemma mode_and_owner_calls_witness:
  "cred_ok (snd (sys_umask 0xFFF demo_cred)) \<and> same_type demo_node (demo_node\<lparr>v_mode := 0x81ED\<rparr>)"
proof
  have "cred_ok demo_cred" by (simp add: cred_ok_def demo_cred_def)
  then show "cred_ok (snd (sys_umask 0xFFF demo_cred))"
    using mode_and_owner_calls cred_umask [OF cred_start [of "{}" demo_cred]] by blast
  have "sys_chmod False (Some demo_node) 0x1ED (demo_cred\<lparr>c_euid := 9\<rparr>) = (0, Some (demo_node\<lparr>v_mode := 0x81ED\<rparr>))"
    by (simp add: sys_chmod_def demo_node_def S_IFMT_def)
  then show "same_type demo_node (demo_node\<lparr>v_mode := 0x81ED\<rparr>)" using mode_and_owner_calls by blast
qed

subsection \<open>What an open descriptor allows\<close>

lemma access_cases:
  fixes fl :: u32
  shows "fl AND 0x3 = 0 \<or> fl AND 0x3 = 1 \<or> fl AND 0x3 = 2 \<or> fl AND 0x3 = 3"
proof -
  have "fl AND 0x3 = take_bit 2 fl" by (simp add: take_bit_eq_mask mask_eq_exp_minus_1)
  then have "unat (fl AND 0x3) < 4" by (simp add: unsigned_take_bit_eq take_bit_nat_def)
  then have "unat (fl AND 0x3) \<in> {0, 1, 2, 3}" by auto
  then have "unat (fl AND 0x3) \<in> unat ` {0, 1, 2, 3 :: u32}" by auto
  then show ?thesis by (auto simp: word_unat_eq_iff)
qed

lemma want_both: "p AND (a OR b) = a OR b \<longleftrightarrow> p AND a = a \<and> p AND b = b" for p a b :: u32
  by (auto simp: bit_eq_iff bit_simps)

lemma check_want:
  "vfs_check_permission n c (PERM_READ OR PERM_WRITE) = 0 \<longleftrightarrow>
   vfs_check_permission n c PERM_READ = 0 \<and> vfs_check_permission n c PERM_WRITE = 0"
  by (cases n; cases c) (simp_all add: vfs_check_permission_def Let_def want_both)

text \<open>
  C34. A descriptor that \<^verbatim>\<open>open\<close> gives for an existing node allows reading only when the caller may read
  the node, and writing only when it may write it, for the access modes 0, 1 and 2. For the access mode 3
  \<^verbatim>\<open>open\<close> tests nothing, and both \<^verbatim>\<open>read\<close> and \<^verbatim>\<open>write\<close> take the descriptor: any user reads and
  overwrites any file.
\<close>

theorem open_access_modes:
  "(fl AND 0x3 \<noteq> 3 \<longrightarrow> open_existing_check n fl c = 0 \<longrightarrow>
      (handle_readable fl \<longrightarrow> vfs_check_permission (Some n) (Some c) PERM_READ = 0) \<and>
      (handle_writable fl \<longrightarrow> vfs_check_permission (Some n) (Some c) PERM_WRITE = 0))
   \<and> (fl AND 0x3 = 3 \<longrightarrow> fl AND O_CREAT = 0 \<longrightarrow>
      open_existing_check n fl c = 0 \<and> handle_readable fl \<and> handle_writable fl)"
proof -
  have r: "open_existing_check n fl c = 0 \<longrightarrow>
     (open_want fl = 0 \<or> vfs_check_permission (Some n) (Some c) (open_want fl) = 0)"
    by (simp add: open_existing_check_def EEXIST_def EACCES_def)
  have e: "open_want fl = 0 \<longrightarrow> fl AND O_CREAT = 0 \<longrightarrow> open_existing_check n fl c = 0"
    by (simp add: open_existing_check_def)
  from access_cases [of fl] show ?thesis
  proof (elim disjE)
    assume "fl AND 0x3 = 0"
    moreover from this have "open_want fl = PERM_READ" by (simp add: open_want_def open_flag_defs)
    ultimately show ?thesis using r by (simp add: handle_writable_def O_RDONLY_def PERM_READ_def)
  next
    assume "fl AND 0x3 = 1"
    moreover from this have "open_want fl = PERM_WRITE" by (simp add: open_want_def open_flag_defs)
    ultimately show ?thesis using r by (simp add: handle_readable_def O_WRONLY_def PERM_WRITE_def)
  next
    assume "fl AND 0x3 = 2"
    moreover from this have "open_want fl = PERM_READ OR PERM_WRITE" by (simp add: open_want_def open_flag_defs)
    moreover have "PERM_READ OR PERM_WRITE \<noteq> 0" by (simp add: PERM_READ_def PERM_WRITE_def)
    ultimately show ?thesis using r check_want by simp
  next
    assume "fl AND 0x3 = 3"
    moreover from this have "open_want fl = 0" by (simp add: open_want_def open_flag_defs)
    ultimately show ?thesis using e by (simp add: handle_readable_def handle_writable_def open_flag_defs)
  qed
qed

lemma open_access_modes_witness:
  "open_existing_check (demo_node\<lparr>v_mode := 0x8180\<rparr>) 3 demo_cred = 0
   \<and> vfs_check_permission (Some (demo_node\<lparr>v_mode := 0x8180\<rparr>)) (Some demo_cred) PERM_READ \<noteq> 0
   \<and> vfs_check_permission (Some demo_node) (Some demo_cred) PERM_READ = 0"
proof (intro conjI)
  show "open_existing_check (demo_node\<lparr>v_mode := 0x8180\<rparr>) 3 demo_cred = 0"
    using open_access_modes [of 3 "demo_node\<lparr>v_mode := 0x8180\<rparr>" demo_cred] by (simp add: O_CREAT_def)
  have "open_existing_check demo_node 0 demo_cred = 0"
    by (simp add: open_existing_check_def open_want_def vfs_check_permission_def demo_node_def demo_cred_def
        open_flag_defs PERM_READ_def proc_in_group_def Let_def)
  then show "vfs_check_permission (Some demo_node) (Some demo_cred) PERM_READ = 0"
    using open_access_modes [of 0 demo_node demo_cred] by (simp add: handle_readable_def O_WRONLY_def)
qed (simp add: vfs_check_permission_def demo_node_def demo_cred_def PERM_READ_def proc_in_group_def)

end
