(* ===== verification/Tmpfs.thy ===== *)
theory Tmpfs
  imports Vnode Cstring
begin

text \<open>
  The memory file system of \<^verbatim>\<open>kernel/filesystem/tmpfs/tmpfs.c\<close>: every operation of its table
  \<^verbatim>\<open>tmpfs_ops\<close> and its mount. Offsets and sizes are \<^verbatim>\<open>uint32_t\<close>, whose sums wrap around; a
  buffer is given as its bytes, and \<open>None\<close> is an access to freed memory or beyond a buffer.
\<close>

subsection \<open>Files\<close>

definition mem_read :: "u8 list option \<Rightarrow> nat \<Rightarrow> nat \<Rightarrow> u8 list option" where
  "mem_read d off n =
     (if n = 0 then Some []
      else case d of None \<Rightarrow> None
        | Some xs \<Rightarrow> if off + n \<le> length xs then Some (take n (drop off xs)) else None)"

definition mem_write :: "u8 list option \<Rightarrow> nat \<Rightarrow> u8 list \<Rightarrow> u8 list option option" where
  "mem_write d off ys =
     (if ys = [] then Some d
      else case d of None \<Rightarrow> None
        | Some xs \<Rightarrow> if off + length ys \<le> length xs then Some (Some (take off xs @ ys @ drop (off + length ys) xs)) else None)"

definition file_of :: "vnode \<Rightarrow> vfs \<Rightarrow> (nat \<times> tmpfs_file) option" where
  "file_of n s = do { q \<leftarrow> v_data n; f \<leftarrow> tfiles s q; Some (q, f) }"

definition tmpfs_read :: "nat \<Rightarrow> nat \<Rightarrow> nat \<Rightarrow> vfs \<Rightarrow> (int \<times> u8 list \<times> vfs) option" where
  "tmpfs_read p off sz s = do {
     n \<leftarrow> nodes s p;
     if \<not> has_flag VFS_FLAG_FILE n then Some (-1, [], s)
     else do {
       (q, f) \<leftarrow> file_of n s;
       if off \<ge> tf_size f then Some (0, [], s)
       else do {
         let bytes_to_read = (if w32 (off + sz) > tf_size f then tf_size f - off else sz);
         xs \<leftarrow> mem_read (tf_data f) off bytes_to_read;
         Some (as_int bytes_to_read, xs, s)
       }
     }
   }"

definition grow_file :: "tmpfs_file \<Rightarrow> nat \<Rightarrow> tmpfs_file option" where
  "grow_file f new_size = do {
     old \<leftarrow> (case tf_data f of None \<Rightarrow> Some [] | Some _ \<Rightarrow> mem_read (tf_data f) 0 (min (tf_size f) new_size));
     Some \<lparr>tf_data = Some (old @ replicate (new_size - length old) 0), tf_size = new_size\<rparr>
   }"

definition tmpfs_write :: "nat \<Rightarrow> nat \<Rightarrow> u8 list \<Rightarrow> vfs \<Rightarrow> (int \<times> vfs) option" where
  "tmpfs_write p off buf s = do {
     n \<leftarrow> nodes s p;
     if \<not> has_flag VFS_FLAG_FILE n then Some (-1, s)
     else do {
       (q, f) \<leftarrow> file_of n s;
       let new_size = w32 (off + length buf);
       (f1, n1) \<leftarrow> (if new_size > tf_size f then do { g \<leftarrow> grow_file f new_size; Some (g, n\<lparr>v_size := new_size\<rparr>) }
                   else Some (f, n));
       d \<leftarrow> mem_write (tf_data f1) off buf;
       Some (as_int (length buf), set_tfile q (Some (f1\<lparr>tf_data := d\<rparr>)) (set_node p (Some n1) s))
     }
   }"

definition tmpfs_truncate :: "nat \<Rightarrow> nat \<Rightarrow> vfs \<Rightarrow> (int \<times> vfs) option" where
  "tmpfs_truncate p sz s = do {
     n \<leftarrow> nodes s p;
     if \<not> has_flag VFS_FLAG_FILE n then Some (-1, s)
     else case v_data n of
       None \<Rightarrow> Some (-1, s)
     | Some q \<Rightarrow> do {
         f \<leftarrow> tfiles s q;
         let s1 = set_node p (Some (n\<lparr>v_size := sz\<rparr>)) s;
         if sz = tf_size f then Some (0, s1)
         else if sz = 0 then Some (0, set_tfile q (Some \<lparr>tf_data = None, tf_size = 0\<rparr>) s1)
         else do { g \<leftarrow> grow_file f sz; Some (0, set_tfile q (Some g) s1) }
       }
   }"

subsection \<open>Directories\<close>

definition dir_of :: "vnode \<Rightarrow> vfs \<Rightarrow> (nat \<times> nat list) option" where
  "dir_of n s = do { q \<leftarrow> v_data n; d \<leftarrow> tdirs s q; Some (q, d) }"

text \<open>The walk along the entries; \<open>Some None\<close> when no name matches.\<close>

fun find_name :: "vfs \<Rightarrow> u8 list \<Rightarrow> nat list \<Rightarrow> nat option option" where
  "find_name s nm [] = Some None"
| "find_name s nm (e # es) = do {
     n \<leftarrow> nodes s e;
     if v_name n = nm then Some (Some e) else find_name s nm es
   }"

definition tmpfs_unlink :: "nat \<Rightarrow> u8 list \<Rightarrow> vfs \<Rightarrow> (int \<times> vfs) option" where
  "tmpfs_unlink parent nm s = do {
     pn \<leftarrow> nodes s parent;
     if \<not> has_flag VFS_FLAG_DIRECTORY pn then Some (-1, s)
     else do {
       (q, es) \<leftarrow> dir_of pn s;
       r \<leftarrow> find_name s nm es;
       case r of
         None \<Rightarrow> Some (-1, s)
       | Some e \<Rightarrow> do {
           n \<leftarrow> nodes s e;
           if has_flag VFS_FLAG_DIRECTORY n then Some (-1, s)
           else if v_refcount n > 1 then Some (-1, s)
           else do {
             s1 \<leftarrow> (case v_data n of None \<Rightarrow> Some s | Some fq \<Rightarrow> do { f \<leftarrow> tfiles s fq; Some (set_tfile fq None s) });
             Some (0, set_node e None (set_tdir q (Some (remove1 e es)) s1))
           }
         }
     }
   }"

definition tmpfs_rmdir :: "nat \<Rightarrow> u8 list \<Rightarrow> vfs \<Rightarrow> (int \<times> vfs) option" where
  "tmpfs_rmdir parent nm s = do {
     pn \<leftarrow> nodes s parent;
     if \<not> has_flag VFS_FLAG_DIRECTORY pn then Some (-1, s)
     else do {
       (q, es) \<leftarrow> dir_of pn s;
       r \<leftarrow> find_name s nm es;
       case r of
         None \<Rightarrow> Some (-1, s)
       | Some e \<Rightarrow> do {
           n \<leftarrow> nodes s e;
           if \<not> has_flag VFS_FLAG_DIRECTORY n then Some (-1, s)
           else if v_refcount n > 1 then Some (-1, s)
           else case v_data n of
             None \<Rightarrow> Some (0, set_node e None (set_tdir q (Some (remove1 e es)) s))
           | Some cq \<Rightarrow> do {
               cd \<leftarrow> tdirs s cq;
               if cd \<noteq> [] then Some (-1, s)
               else Some (0, set_node e None (set_tdir q (Some (remove1 e es)) (set_tdir cq None s)))
             }
         }
     }
   }"

definition tmpfs_readdir :: "nat \<Rightarrow> nat \<Rightarrow> vfs \<Rightarrow> (nat option \<times> vfs) option" where
  "tmpfs_readdir p i s = do {
     n \<leftarrow> nodes s p;
     if \<not> has_flag VFS_FLAG_DIRECTORY n then Some (None, s)
     else do { (q, es) \<leftarrow> dir_of n s; Some (if i < length es then Some (es ! i) else None, s) }
   }"

definition tmpfs_finddir :: "nat \<Rightarrow> u8 list \<Rightarrow> vfs \<Rightarrow> (nat option \<times> vfs) option" where
  "tmpfs_finddir p nm s = do {
     n \<leftarrow> nodes s p;
     if \<not> has_flag VFS_FLAG_DIRECTORY n then Some (None, s)
     else do { (q, es) \<leftarrow> dir_of n s; r \<leftarrow> find_name s nm es; Some (r, s) }
   }"

text \<open>
  A name is copied by the kernel's own \<open>strncpy\<close>, which clears memory far beyond the 256 bytes of
  the field when the name does not fit.
\<close>

definition copy_str :: "nat \<Rightarrow> u8 list \<Rightarrow> u8 list option" where
  "copy_str k xs = map_option str_of (strncpy (replicate k 0) (xs @ [0]) k)"

definition TMPFS_OPS :: nat where "TMPFS_OPS = 1"

definition new_tnode :: "nat \<Rightarrow> u8 list \<Rightarrow> u32 \<Rightarrow> nat \<Rightarrow> u32 \<Rightarrow> u32 \<Rightarrow> u32 \<Rightarrow> nat \<Rightarrow> cred option \<Rightarrow> vnode" where
  "new_tnode addr nm fl parent ifmt perm deflt dat c =
     \<lparr>v_name = nm, v_inode = addr, v_size = 0, v_flags = fl,
      v_uid = (case c of Some d \<Rightarrow> c_euid d | None \<Rightarrow> 0), v_gid = (case c of Some d \<Rightarrow> c_egid d | None \<Rightarrow> 0),
      v_mode = (case c of Some d \<Rightarrow> ifmt OR (perm AND NOT (c_umask d)) | None \<Rightarrow> ifmt OR deflt),
      v_refcount = 1, v_data = Some dat, v_ops = Some TMPFS_OPS, v_parent = Some parent, v_children = None, v_next = None\<rparr>"

definition tmpfs_create_file :: "nat \<Rightarrow> u8 list \<Rightarrow> vfs \<Rightarrow> (nat option \<times> vfs) option" where
  "tmpfs_create_file parent nm s = do {
     pn \<leftarrow> nodes s parent;
     if \<not> has_flag VFS_FLAG_DIRECTORY pn then Some (None, s)
     else do {
       nm' \<leftarrow> copy_str 256 nm;
       let p = fresh s;
       let q = fresh s + 1;
       let n = new_tnode p nm' VFS_FLAG_FILE parent S_IFREG 0x1B6 0x1A4 q (caller s);
       (dq, es) \<leftarrow> dir_of pn s;
       Some (Some p, set_tdir dq (Some (p # es)) (set_tfile q (Some \<lparr>tf_data = None, tf_size = 0\<rparr>)
         (set_node p (Some n) (s\<lparr>fresh := fresh s + 2\<rparr>))))
     }
   }"

definition tmpfs_create_dir :: "nat \<Rightarrow> u8 list \<Rightarrow> vfs \<Rightarrow> (nat option \<times> vfs) option" where
  "tmpfs_create_dir parent nm s = do {
     pn \<leftarrow> nodes s parent;
     if \<not> has_flag VFS_FLAG_DIRECTORY pn then Some (None, s)
     else do {
       nm' \<leftarrow> copy_str 256 nm;
       let p = fresh s;
       let q = fresh s + 1;
       let n = new_tnode p nm' VFS_FLAG_DIRECTORY parent S_IFDIR 0x1FF 0x1ED q (caller s);
       (dq, es) \<leftarrow> dir_of pn s;
       Some (Some p, set_tdir dq (Some (p # es)) (set_tdir q (Some [])
         (set_node p (Some n) (s\<lparr>fresh := fresh s + 2\<rparr>))))
     }
   }"

definition tmpfs_mount :: "vfs \<Rightarrow> nat \<times> vfs" where
  "tmpfs_mount s =
     (let p = fresh s; q = fresh s + 1;
          n = \<lparr>v_name = [0x2F], v_inode = 0, v_size = 0, v_flags = VFS_FLAG_DIRECTORY, v_uid = 0, v_gid = 0,
               v_mode = S_IFDIR OR 0x1ED, v_refcount = 1, v_data = Some q, v_ops = Some TMPFS_OPS, v_parent = None,
               v_children = None, v_next = None\<rparr>
      in (p, set_tdir q (Some []) (set_node p (Some n) (s\<lparr>fresh := fresh s + 2\<rparr>))))"

definition tmpfs_open :: "nat \<Rightarrow> vfs \<Rightarrow> int \<times> vfs" where "tmpfs_open p s = (0, s)"
definition tmpfs_close :: "nat \<Rightarrow> vfs \<Rightarrow> int \<times> vfs" where "tmpfs_close p s = (0, s)"

subsection \<open>A file is the list of its bytes\<close>

lemma copy_str_eq: "0 \<notin> set xs \<Longrightarrow> k < 2 ^ 31 \<Longrightarrow> copy_str k xs = (if length xs < k then Some xs else None)"
proof -
  assume z: "0 \<notin> set xs" and k: "k < 2 ^ 31"
  have s: "str_of (xs @ [0]) = xs" using z by (induction xs) auto
  have e: "0 \<in> set (xs @ [0 :: u8])" "k \<le> length (replicate k (0 :: u8))" by simp_all
  show "copy_str k xs = (if length xs < k then Some xs else None)"
  proof (cases "length xs < k")
    case True
    then have "strncpy (replicate k 0) (xs @ [0]) k = Some (xs @ replicate (k - length xs) 0)"
      using strncpy_eq [OF e] by (simp add: s strncpy_fill_eq)
    moreover have "replicate (k - length xs) (0 :: u8) = 0 # replicate (k - length xs - 1) 0"
      using True by (metis Suc_diff_Suc Suc_eq_plus1 diff_Suc_1 replicate_Suc diff_diff_left)
    moreover have "str_of (xs @ 0 # ys) = xs" for ys using z by (induction xs) auto
    ultimately show ?thesis using True by (simp add: copy_str_def)
  next
    case False
    then have "strncpy (replicate k 0) (xs @ [0]) k = None"
      using strncpy_eq [OF e] k by (simp add: s strncpy_fill_eq SIZE_MAX_def)
    then show ?thesis using False by (simp add: copy_str_def)
  qed
qed

definition file_ok :: "tmpfs_file \<Rightarrow> bool" where
  "file_ok f \<longleftrightarrow> tf_size f < 2 ^ 32 \<and> (case tf_data f of None \<Rightarrow> tf_size f = 0 | Some d \<Rightarrow> length d = tf_size f)"

definition bytes_of :: "tmpfs_file \<Rightarrow> u8 list" where
  "bytes_of f = (case tf_data f of None \<Rightarrow> [] | Some d \<Rightarrow> d)"

text \<open>The file, what a write of \<open>ys\<close> at \<open>off\<close> and a change of its length make of its bytes.\<close>

definition put_bytes :: "nat \<Rightarrow> u8 list \<Rightarrow> u8 list \<Rightarrow> u8 list" where
  "put_bytes off ys xs = take off (xs @ replicate (off - length xs) 0) @ ys @ drop (off + length ys) xs"

definition resize :: "nat \<Rightarrow> u8 list \<Rightarrow> u8 list" where
  "resize n xs = take n xs @ replicate (n - length xs) 0"

lemma file_ok_length: "file_ok f \<Longrightarrow> length (bytes_of f) = tf_size f"
  by (auto simp: file_ok_def bytes_of_def split: option.splits)

lemma mem_read_bytes:
  "file_ok f \<Longrightarrow> off + n \<le> tf_size f \<Longrightarrow> mem_read (tf_data f) off n = Some (take n (drop off (bytes_of f)))"
  by (auto simp: file_ok_def bytes_of_def mem_read_def split: option.splits)

lemma grow_file_eq:
  assumes "file_ok f" "n < 2 ^ 32"
  shows "\<exists>g. grow_file f n = Some g \<and> file_ok g \<and> bytes_of g = resize n (bytes_of f) \<and> tf_size g = n \<and> tf_data g \<noteq> None"
proof (cases "tf_data f")
  case None
  then show ?thesis using assms by (simp add: grow_file_def file_ok_def bytes_of_def resize_def)
next
  case (Some d)
  then have d: "length d = tf_size f" using assms(1) by (simp add: file_ok_def)
  have "mem_read (Some d) 0 (min (tf_size f) n) = Some (take n d)"
    using d by (auto simp: mem_read_def min_def)
  then show ?thesis using assms Some d by (auto simp: grow_file_def file_ok_def bytes_of_def resize_def min_def)
qed

lemma tmpfs_read_eq:
  assumes "nodes s p = Some n" "has_flag VFS_FLAG_FILE n" "file_of n s = Some (q, f)" "file_ok f" "off + sz < 2 ^ 32"
  shows "tmpfs_read p off sz s = Some (as_int (length (take sz (drop off (bytes_of f)))), take sz (drop off (bytes_of f)), s)"
proof -
  note l = file_ok_length [OF assms(4)]
  have w: "w32 (off + sz) = off + sz" by (rule w32_id [OF assms(5)])
  show ?thesis
  proof (cases "off \<ge> tf_size f")
    case True
    then show ?thesis using assms l by (simp add: tmpfs_read_def as_int_def)
  next
    case False
    let ?k = "if off + sz > tf_size f then tf_size f - off else sz"
    have "mem_read (tf_data f) off ?k = Some (take ?k (drop off (bytes_of f)))"
      by (rule mem_read_bytes [OF assms(4)]) (use False in auto)
    moreover have "take ?k (drop off (bytes_of f)) = take sz (drop off (bytes_of f))"
      using l by simp
    moreover have "?k = length (take sz (drop off (bytes_of f)))" using l by simp
    ultimately show ?thesis using assms False w by (simp add: tmpfs_read_def)
  qed
qed

lemma tmpfs_write_eq:
  assumes "nodes s p = Some n" "has_flag VFS_FLAG_FILE n" "file_of n s = Some (q, f)" "file_ok f" "v_size n = tf_size f"
    "off + length buf < 2 ^ 32"
  shows "\<exists>g. tmpfs_write p off buf s = Some (as_int (length buf), set_tfile q (Some g) (set_node p (Some (n\<lparr>v_size := tf_size g\<rparr>)) s))
    \<and> file_ok g \<and> bytes_of g = put_bytes off buf (bytes_of f)"
proof -
  note l = file_ok_length [OF assms(4)]
  have w: "w32 (off + length buf) = off + length buf" by (rule w32_id [OF assms(6)])
  obtain h where h: "(if off + length buf > tf_size f then do { g \<leftarrow> grow_file f (off + length buf); Some (g, n\<lparr>v_size := off + length buf\<rparr>) }
      else Some (f, n)) = Some (h, n\<lparr>v_size := tf_size h\<rparr>)" "file_ok h" "off + length buf \<le> tf_size h"
      "bytes_of h = (if off + length buf > tf_size f then resize (off + length buf) (bytes_of f) else bytes_of f)"
  proof (cases "off + length buf > tf_size f")
    case True
    then show ?thesis using that grow_file_eq [OF assms(4,6)] by fastforce
  next
    case False
    moreover have "n\<lparr>v_size := tf_size f\<rparr> = n" using assms(5) by simp
    ultimately show ?thesis using that [of f] assms(4) by simp
  qed
  note lh = file_ok_length [OF h(2)]
  obtain d where d: "mem_write (tf_data h) off buf = Some d" "file_ok (h\<lparr>tf_data := d\<rparr>)"
    "bytes_of (h\<lparr>tf_data := d\<rparr>) = take off (bytes_of h) @ buf @ drop (off + length buf) (bytes_of h)"
  proof (cases "tf_data h")
    case None
    then have "buf = []" "tf_size h = 0" using h(2,3) by (auto simp: file_ok_def)
    then show ?thesis using that [of None] None h(2) by (simp add: mem_write_def file_ok_def bytes_of_def)
  next
    case (Some xs)
    then have l: "length xs = tf_size h" using h(2) by (simp add: file_ok_def)
    show ?thesis
      by (rule that [of "Some (take off xs @ buf @ drop (off + length buf) xs)"])
        (use Some l h(2,3) in \<open>auto simp: mem_write_def file_ok_def bytes_of_def\<close>)
  qed
  let ?g = "h\<lparr>tf_data := d\<rparr>"
  have "tmpfs_write p off buf s = Some (as_int (length buf), set_tfile q (Some ?g) (set_node p (Some (n\<lparr>v_size := tf_size ?g\<rparr>)) s))"
    using assms(1-3) w h(1) d(1) by (simp add: tmpfs_write_def cong: if_cong)
  moreover have "bytes_of ?g = put_bytes off buf (bytes_of f)"
  proof -
    have "take off (bytes_of h) = take off (bytes_of f @ replicate (off - length (bytes_of f)) 0)"
      using h(4) l by (auto simp: resize_def take_append min_def split: if_splits)
    moreover have "drop (off + length buf) (bytes_of h) = drop (off + length buf) (bytes_of f)"
      using h(4) l by (auto simp: resize_def split: if_splits)
    ultimately show ?thesis by (simp add: d(3) put_bytes_def)
  qed
  ultimately show ?thesis using d(2) by blast
qed

lemma tmpfs_truncate_eq:
  assumes "nodes s p = Some n" "has_flag VFS_FLAG_FILE n" "file_of n s = Some (q, f)" "file_ok f" "sz < 2 ^ 32"
  shows "\<exists>g. tmpfs_truncate p sz s = Some (0, set_tfile q (Some g) (set_node p (Some (n\<lparr>v_size := sz\<rparr>)) s))
    \<and> file_ok g \<and> bytes_of g = resize sz (bytes_of f) \<and> tf_size g = sz"
proof -
  note l = file_ok_length [OF assms(4)]
  have q: "v_data n = Some q" "tfiles s q = Some f" using assms(3) by (auto simp: file_of_def split: bind_splits)
  consider "sz = tf_size f" | "sz \<noteq> tf_size f" "sz = 0" | "sz \<noteq> tf_size f" "sz \<noteq> 0" by blast
  then show ?thesis
  proof cases
    case 1
    have "set_tfile q (Some f) (set_node p m s) = set_node p m s" for m
      using q(2) by (simp add: set_tfile_def set_node_def fun_upd_idem)
    then show ?thesis using 1 assms q l by (intro exI [of _ f]) (simp add: tmpfs_truncate_def resize_def)
  next
    case 2
    then show ?thesis using assms q
      by (intro exI [of _ "\<lparr>tf_data = None, tf_size = 0\<rparr>"]) (simp add: tmpfs_truncate_def resize_def file_ok_def bytes_of_def)
  next
    case 3
    obtain g where "grow_file f sz = Some g" "file_ok g" "bytes_of g = resize sz (bytes_of f)" "tf_size g = sz"
      using grow_file_eq [OF assms(4,5)] by blast
    then show ?thesis using 3 assms q by (intro exI [of _ g]) (simp add: tmpfs_truncate_def)
  qed
qed

subsection \<open>The invariant of the tree\<close>

definition node_ok :: "vfs \<Rightarrow> nat \<Rightarrow> vnode \<Rightarrow> bool" where
  "node_ok s p n \<longleftrightarrow> p < fresh s \<and> (\<exists>q<fresh s. v_data n = Some q \<and>
     (has_flag VFS_FLAG_FILE n \<and> \<not> has_flag VFS_FLAG_DIRECTORY n \<and> (\<exists>f. tfiles s q = Some f \<and> file_ok f \<and> v_size n = tf_size f)
      \<or> has_flag VFS_FLAG_DIRECTORY n \<and> \<not> has_flag VFS_FLAG_FILE n \<and> tdirs s q \<noteq> None))"

definition nodes_ok :: "vfs \<Rightarrow> bool" where
  "nodes_ok s \<longleftrightarrow> (\<forall>p n. nodes s p = Some n \<longrightarrow> node_ok s p n) \<and>
     (\<forall>p p' n n'. nodes s p = Some n \<longrightarrow> nodes s p' = Some n' \<longrightarrow> v_data n = v_data n' \<longrightarrow> p = p')"

definition dirs_ok :: "vfs \<Rightarrow> bool" where
  "dirs_ok s \<longleftrightarrow> (\<forall>q es. tdirs s q = Some es \<longrightarrow> q < fresh s \<and> distinct es \<and> (\<forall>e\<in>set es. nodes s e \<noteq> None)) \<and>
     (\<forall>q q' es es' e. tdirs s q = Some es \<longrightarrow> tdirs s q' = Some es' \<longrightarrow> e \<in> set es \<longrightarrow> e \<in> set es' \<longrightarrow> q = q')"

definition tree_ok :: "vfs \<Rightarrow> bool" where
  "tree_ok s \<longleftrightarrow> nodes_ok s \<and> dirs_ok s"

lemma nodes_okD: "nodes_ok s \<Longrightarrow> nodes s p = Some n \<Longrightarrow> node_ok s p n"
  by (simp add: nodes_ok_def)

lemma nodes_ok_inj: "nodes_ok s \<Longrightarrow> nodes s p = Some n \<Longrightarrow> nodes s p' = Some n' \<Longrightarrow> v_data n = v_data n' \<Longrightarrow> p = p'"
  unfolding nodes_ok_def by blast

lemma dirs_okD: "dirs_ok s \<Longrightarrow> tdirs s q = Some es \<Longrightarrow> q < fresh s \<and> distinct es \<and> (\<forall>e\<in>set es. nodes s e \<noteq> None)"
  by (simp add: dirs_ok_def)

lemma dirs_ok_one: "dirs_ok s \<Longrightarrow> tdirs s q = Some es \<Longrightarrow> tdirs s q' = Some es' \<Longrightarrow> e \<in> set es \<Longrightarrow> e \<in> set es' \<Longrightarrow> q = q'"
  unfolding dirs_ok_def by blast

lemma dir_node:
  assumes "tree_ok s" "nodes s p = Some n" "has_flag VFS_FLAG_DIRECTORY n"
  shows "\<exists>q es. dir_of n s = Some (q, es) \<and> v_data n = Some q \<and> tdirs s q = Some es"
  using nodes_okD [of s p n] assms by (auto simp: tree_ok_def node_ok_def dir_of_def)

lemma file_node:
  assumes "tree_ok s" "nodes s p = Some n" "\<not> has_flag VFS_FLAG_DIRECTORY n"
  shows "has_flag VFS_FLAG_FILE n \<and> (\<exists>q f. file_of n s = Some (q, f) \<and> v_data n = Some q \<and> tfiles s q = Some f \<and> file_ok f \<and> v_size n = tf_size f)"
  using nodes_okD [of s p n] assms by (auto simp: tree_ok_def node_ok_def file_of_def)

lemma file_flag_not_dir:
  "tree_ok s \<Longrightarrow> nodes s p = Some n \<Longrightarrow> has_flag VFS_FLAG_FILE n \<Longrightarrow> \<not> has_flag VFS_FLAG_DIRECTORY n"
  using nodes_okD [of s p n] by (auto simp: tree_ok_def node_ok_def)

lemma find_name_eq:
  "(\<And>e. e \<in> set es \<Longrightarrow> nodes s e \<noteq> None) \<Longrightarrow>
   find_name s nm es = Some (find (\<lambda>e. v_name (the (nodes s e)) = nm) es)"
proof (induction es)
  case (Cons a es)
  then obtain n where "nodes s a = Some n" by fastforce
  then show ?case using Cons by simp
qed simp

lemma nodes_okI:
  assumes "nodes_ok s" "\<And>p n. nodes s' p = Some n \<Longrightarrow> node_ok s' p n"
    "\<And>p n. nodes s' p = Some n \<Longrightarrow> \<exists>m. nodes s p = Some m \<and> v_data m = v_data n"
  shows "nodes_ok s'"
  unfolding nodes_ok_def
proof (intro conjI allI impI)
  fix p p' n n' assume "nodes s' p = Some n" "nodes s' p' = Some n'" "v_data n = v_data n'"
  then show "p = p'" using assms(3) nodes_ok_inj [OF assms(1)] by metis
qed (rule assms(2))

lemma node_ok_cong:
  "node_ok s p n \<Longrightarrow> fresh s \<le> fresh s' \<Longrightarrow> (\<And>q. v_data n = Some q \<Longrightarrow> tfiles s' q = tfiles s q \<and> (tdirs s' q = None \<longleftrightarrow> tdirs s q = None)) \<Longrightarrow>
   node_ok s' p n"
  unfolding node_ok_def by force

lemma dirs_ok_nodes:
  assumes "dirs_ok s" "tdirs s' = tdirs s" "fresh s' = fresh s" "\<And>e. nodes s e \<noteq> None \<Longrightarrow> nodes s' e \<noteq> None"
  shows "dirs_ok s'"
  using assms unfolding dirs_ok_def by metis

lemma find_name_ok:
  "tree_ok s \<Longrightarrow> tdirs s q = Some es \<Longrightarrow> find_name s nm es = Some (find (\<lambda>e. v_name (the (nodes s e)) = nm) es)"
  using dirs_okD [of s q es] by (intro find_name_eq) (auto simp: tree_ok_def)

text \<open>Updates that keep the invariant: of a node's other fields, and of a file with its size.\<close>

lemma tree_ok_node:
  assumes "tree_ok s" "nodes s p = Some n" "v_data m = v_data n" "v_flags m = v_flags n" "v_size m = v_size n"
  shows "tree_ok (set_node p (Some m) s)"
proof -
  have "node_ok s p n" using assms(1,2) nodes_okD by (simp add: tree_ok_def)
  then have "node_ok (set_node p (Some m) s) p m" using assms(3-5) by (simp add: node_ok_def has_flag_def)
  moreover have "node_ok (set_node p (Some m) s) p' n'" if "nodes s p' = Some n'" for p' n'
    using assms(1) that nodes_okD [of s p' n'] by (simp add: tree_ok_def node_ok_def)
  ultimately have n: "node_ok (set_node p (Some m) s) p' n'" if "nodes (set_node p (Some m) s) p' = Some n'" for p' n'
    using that by (simp split: if_splits)
  have "nodes_ok (set_node p (Some m) s)"
  proof (rule nodes_okI [OF _ n])
    show "nodes_ok s" using assms(1) by (simp add: tree_ok_def)
    show "\<exists>m'. nodes s p' = Some m' \<and> v_data m' = v_data n'" if "nodes (set_node p (Some m) s) p' = Some n'" for p' n'
      using that assms(2,3) by (cases "p' = p") simp_all
  qed
  moreover have "dirs_ok (set_node p (Some m) s)"
  proof (rule dirs_ok_nodes)
    show "dirs_ok s" using assms(1) by (simp add: tree_ok_def)
  qed (auto simp: fun_eq_iff)
  ultimately show ?thesis by (simp add: tree_ok_def)
qed

lemma tree_ok_file:
  assumes "tree_ok s" "nodes s p = Some n" "has_flag VFS_FLAG_FILE n" "v_data n = Some q" "file_ok g"
  shows "tree_ok (set_tfile q (Some g) (set_node p (Some (n\<lparr>v_size := tf_size g\<rparr>)) s))"
proof -
  let ?s = "set_tfile q (Some g) (set_node p (Some (n\<lparr>v_size := tf_size g\<rparr>)) s)"
  have d: "\<not> has_flag VFS_FLAG_DIRECTORY n" by (rule file_flag_not_dir [OF assms(1-3)])
  have "node_ok s p n" using assms(1,2) nodes_okD by (simp add: tree_ok_def)
  then have "p < fresh s" "q < fresh s" using assms(4) by (auto simp: node_ok_def)
  then have "node_ok ?s p (n\<lparr>v_size := tf_size g\<rparr>)" using assms(3-5) d by (simp add: node_ok_def has_flag_def)
  moreover have "node_ok ?s p' n'" if n': "nodes s p' = Some n'" "p' \<noteq> p" for p' n'
  proof -
    have "v_data n' \<noteq> Some q" using nodes_ok_inj [of s p' n' p n] assms(1,2,4) n' by (auto simp: tree_ok_def)
    moreover have "node_ok s p' n'" using assms(1) n'(1) nodes_okD by (simp add: tree_ok_def)
    ultimately show ?thesis by - (rule node_ok_cong [of s p' n'], auto)
  qed
  ultimately have n: "node_ok ?s p' n'" if "nodes ?s p' = Some n'" for p' n'
    using that by (cases "p' = p") simp_all
  have "nodes_ok ?s"
  proof (rule nodes_okI [OF _ n])
    show "nodes_ok s" using assms(1) by (simp add: tree_ok_def)
    show "\<exists>m'. nodes s p' = Some m' \<and> v_data m' = v_data n'" if "nodes ?s p' = Some n'" for p' n'
      using that assms(2) by (cases "p' = p") auto
  qed
  moreover have "dirs_ok ?s"
  proof (rule dirs_ok_nodes)
    show "dirs_ok s" using assms(1) by (simp add: tree_ok_def)
  qed (auto simp: fun_eq_iff)
  ultimately show ?thesis by (simp add: tree_ok_def)
qed

text \<open>A new node at the head of a directory.\<close>

lemma tree_ok_new:
  assumes ok: "tree_ok s" and p: "nodes s dp = Some dn" "has_flag VFS_FLAG_DIRECTORY dn" "dir_of dn s = Some (dq, es)"
    and n: "v_data n = Some (fresh s + 1)"
    and kind: "has_flag VFS_FLAG_FILE n \<and> \<not> has_flag VFS_FLAG_DIRECTORY n \<and> fs = Some f \<and> file_ok f \<and> v_size n = tf_size f \<and> ds = None
      \<or> has_flag VFS_FLAG_DIRECTORY n \<and> \<not> has_flag VFS_FLAG_FILE n \<and> ds = Some []"
  shows "tree_ok (set_tdir dq (Some (fresh s # es)) (set_tdir (fresh s + 1) ds (set_tfile (fresh s + 1) fs
    (set_node (fresh s) (Some n) (s\<lparr>fresh := fresh s + 2\<rparr>)))))" (is "tree_ok ?s")
proof -
  have dq: "tdirs s dq = Some es" "v_data dn = Some dq" using dir_node [OF ok p(1,2)] p(3) by auto
  have no: "nodes_ok s" and dk: "dirs_ok s" using ok by (simp_all add: tree_ok_def)
  have lt: "p' < fresh s" "\<exists>q'<fresh s. v_data n' = Some q'" if "nodes s p' = Some n'" for p' n'
    using nodes_okD [OF no that] by (auto simp: node_ok_def)
  have dlt: "q' < fresh s" "e \<in> set es' \<Longrightarrow> e < fresh s" if "tdirs s q' = Some es'" for q' es' e
    using dirs_okD [OF dk that] lt by auto
  have nn: "nodes ?s p' = (if p' = fresh s then Some n else nodes s p')" for p' by simp
  have old: "node_ok ?s p' n'" if n': "nodes s p' = Some n'" for p' n'
    using lt [OF n'] dq(1) by (intro node_ok_cong [OF nodes_okD [OF no n']]) auto
  have "dq < fresh s" using dlt dq by blast
  then have new: "node_ok ?s (fresh s) n" using kind n by (auto simp: node_ok_def)
  have "nodes_ok ?s"
    unfolding nodes_ok_def
  proof (intro conjI allI impI)
    show "node_ok ?s p' n'" if "nodes ?s p' = Some n'" for p' n'
      using that old new unfolding nn by (auto split: if_splits)
    fix p' p'' n' n'' assume h: "nodes ?s p' = Some n'" "nodes ?s p'' = Some n''" "v_data n' = v_data n''"
    have v: "v_data n' = Some (fresh s + 1) \<longleftrightarrow> p' = fresh s" if "nodes ?s p' = Some n'" for p' n'
      using that n lt [of p' n'] unfolding nn by (cases "p' = fresh s") auto
    show "p' = p''"
    proof (cases "p' = fresh s")
      case True
      then show ?thesis using v [OF h(1)] v [OF h(2)] h(3) by simp
    next
      case False
      then have "p'' \<noteq> fresh s" using v [OF h(1)] v [OF h(2)] h(3) by simp
      then show ?thesis using False h nodes_ok_inj [OF no, of p' n' p'' n''] unfolding nn by simp
    qed
  qed
  moreover have "dirs_ok ?s"
    unfolding dirs_ok_def
  proof (intro conjI allI impI)
    have td: "tdirs ?s q' = (if q' = dq then Some (fresh s # es) else if q' = fresh s + 1 then ds else tdirs s q')" for q' by simp
    have ds: "ds = None \<or> ds = Some []" using kind by auto
    fix q' es' assume q': "tdirs ?s q' = Some es'"
    have "e < fresh s" if "e \<in> set es" for e using dlt dq that by blast
    then have nin: "fresh s \<notin> set es" by blast
    show "q' < fresh ?s" using q' dlt \<open>dq < fresh s\<close> unfolding td by (fastforce split: if_splits)
    show "distinct es'" using q' nin ds dirs_okD [OF dk] dq(1) unfolding td by (auto split: if_splits)
    show "\<forall>e\<in>set es'. nodes ?s e \<noteq> None"
      using q' ds dirs_okD [OF dk] dq(1) unfolding td nn by (auto split: if_splits)
    fix q'' es'' e assume q'': "tdirs ?s q'' = Some es''" and e: "e \<in> set es'" "e \<in> set es''"
    show "q' = q''"
    proof (cases "e = fresh s")
      case True
      have "q = dq" if "tdirs ?s q = Some xs" "fresh s \<in> set xs" for q xs
      proof (rule ccontr)
        assume "q \<noteq> dq"
        then have "tdirs s q = Some xs" using that ds unfolding td by (auto split: if_splits)
        then show False using dlt(2) that(2) by blast
      qed
      then show ?thesis using q' q'' e True by blast
    next
      case False
      have "\<exists>ys. tdirs s q = Some ys \<and> e \<in> set ys" if "tdirs ?s q = Some xs" "e \<in> set xs" for q xs
        using that False ds dq(1) unfolding td by (auto split: if_splits)
      then show ?thesis using q' q'' e dirs_ok_one [OF dk] by blast
    qed
  qed
  ultimately show ?thesis by (simp add: tree_ok_def)
qed

text \<open>
  A node taken out of its directory and freed with its data: \<open>t\<close> is the store in which the data
  \<open>q\<close> of the node is freed.
\<close>

definition data_freed :: "nat \<Rightarrow> vfs \<Rightarrow> vfs \<Rightarrow> bool" where
  "data_freed q s t \<longleftrightarrow> nodes t = nodes s \<and> fresh t = fresh s \<and> (\<forall>r. r \<noteq> q \<longrightarrow> tfiles t r = tfiles s r \<and> tdirs t r = tdirs s r)
     \<and> (tdirs t q = None \<or> tdirs t q = tdirs s q)"

lemma tree_ok_drop:
  assumes ok: "tree_ok s" and dq: "tdirs s dq = Some es" and e: "e \<in> set es" "nodes s e = Some n" "v_data n = Some q"
    and t: "data_freed q s t"
  shows "tree_ok (set_node e None (set_tdir dq (Some (remove1 e es)) t))" (is "tree_ok ?s")
proof -
  have no: "nodes_ok s" and dk: "dirs_ok s" using ok by (simp_all add: tree_ok_def)
  have d: "distinct es" using dirs_okD [OF dk dq] by blast
  have nn: "nodes ?s p' = (if p' = e then None else nodes s p')" and fr: "fresh ?s = fresh s" for p'
    using t by (simp_all add: data_freed_def)
  have td: "tdirs ?s q' = (if q' = dq then Some (remove1 e es) else tdirs t q')" for q' by simp
  have old: "node_ok ?s p' n'" if n': "nodes s p' = Some n'" "p' \<noteq> e" for p' n'
  proof -
    have "v_data n' \<noteq> Some q" using nodes_ok_inj [OF no n'(1) e(2)] e(3) n'(2) by auto
    then show ?thesis using t dq by (intro node_ok_cong [OF nodes_okD [OF no n'(1)]]) (auto simp: data_freed_def)
  qed
  have "nodes_ok ?s"
  proof (rule nodes_okI [OF no])
    show "node_ok ?s p' n'" if "nodes ?s p' = Some n'" for p' n'
      using that old unfolding nn by (simp split: if_splits)
    show "\<exists>m. nodes s p' = Some m \<and> v_data m = v_data n'" if "nodes ?s p' = Some n'" for p' n'
      using that unfolding nn by (simp split: if_splits)
  qed
  moreover have "dirs_ok ?s"
    unfolding dirs_ok_def
  proof (intro conjI allI impI)
    have sub: "\<exists>ys. tdirs s q' = Some ys \<and> set xs \<subseteq> set ys - {e} \<and> distinct xs" if "tdirs ?s q' = Some xs" for q' xs
    proof (cases "q' = dq")
      case True
      then show ?thesis using that d dq by auto
    next
      case False
      then have "tdirs t q' = Some xs" using that unfolding td by simp
      then have "tdirs s q' = Some xs" using t by (cases "q' = q") (auto simp: data_freed_def)
      then show ?thesis using dirs_ok_one [OF dk dq, of q' xs e] e(1) False dirs_okD [OF dk] by blast
    qed
    fix q' es' assume q': "tdirs ?s q' = Some es'"
    then obtain ys where ys: "tdirs s q' = Some ys" "set es' \<subseteq> set ys - {e}" "distinct es'" using sub by blast
    show "q' < fresh ?s" "distinct es'" using dirs_okD [OF dk ys(1)] ys(3) fr by simp_all
    show "\<forall>x\<in>set es'. nodes ?s x \<noteq> None" using dirs_okD [OF dk ys(1)] ys(2) unfolding nn by auto
    fix q'' es'' x assume "tdirs ?s q'' = Some es''" "x \<in> set es'" "x \<in> set es''"
    then show "q' = q''" using sub ys dirs_ok_one [OF dk ys(1)] by blast
  qed
  ultimately show ?thesis by (simp add: tree_ok_def)
qed

subsection \<open>What a file and a directory hold\<close>

definition file_data :: "vfs \<Rightarrow> nat \<Rightarrow> u8 list option" where
  "file_data s p = do { n \<leftarrow> nodes s p; (q, f) \<leftarrow> file_of n s; Some (bytes_of f) }"

definition listing :: "vfs \<Rightarrow> nat \<Rightarrow> (u8 list \<times> nat) list" where
  "listing s p = (case nodes s p of None \<Rightarrow> [] | Some n \<Rightarrow>
     (case dir_of n s of None \<Rightarrow> [] | Some (q, es) \<Rightarrow> map (\<lambda>e. (v_name (the (nodes s e)), e)) es))"

lemma find_map_of: "find (\<lambda>e. f e = nm) es = map_of (map (\<lambda>e. (f e, e)) es) nm"
  by (induction es) auto

lemma tmpfs_finddir_eq:
  assumes "tree_ok s" "nodes s p = Some n" "has_flag VFS_FLAG_DIRECTORY n"
  shows "tmpfs_finddir p nm s = Some (map_of (listing s p) nm, s)"
proof -
  obtain q es where d: "dir_of n s = Some (q, es)" "tdirs s q = Some es" using dir_node [OF assms] by blast
  then show ?thesis
    using assms(2,3) find_name_ok [OF assms(1) d(2), of nm] by (simp add: tmpfs_finddir_def listing_def find_map_of)
qed

lemma tmpfs_readdir_eq:
  assumes "tree_ok s" "nodes s p = Some n" "has_flag VFS_FLAG_DIRECTORY n"
  shows "tmpfs_readdir p i s = Some (if i < length (listing s p) then Some (snd (listing s p ! i)) else None, s)"
  using dir_node [OF assms] assms(2,3) by (auto simp: tmpfs_readdir_def listing_def)

lemma listing_live:
  assumes "tree_ok s" "(nm, e) \<in> set (listing s p)"
  shows "\<exists>n. nodes s e = Some n \<and> v_name n = nm"
proof -
  obtain n q es where "nodes s p = Some n" "dir_of n s = Some (q, es)" "e \<in> set es" "nm = v_name (the (nodes s e))"
    using assms(2) by (cases "nodes s p"; cases "dir_of (the (nodes s p)) s") (auto simp: listing_def)
  moreover from this have "tdirs s q = Some es" by (auto simp: dir_of_def split: bind_splits)
  ultimately show ?thesis using dirs_okD [of s q es] assms(1) by (fastforce simp: tree_ok_def)
qed

subsection \<open>Making and removing entries\<close>

definition name_ok :: "u8 list \<Rightarrow> bool" where
  "name_ok nm \<longleftrightarrow> 0 \<notin> set nm \<and> length nm < 256"

definition same_files :: "vfs \<Rightarrow> vfs \<Rightarrow> nat set \<Rightarrow> bool" where
  "same_files s s' A \<longleftrightarrow> (\<forall>p. p \<notin> A \<longrightarrow> nodes s' p = nodes s p \<and> file_data s' p = file_data s p)"

definition made :: "vfs \<Rightarrow> nat \<Rightarrow> u8 list \<Rightarrow> nat \<Rightarrow> vfs \<Rightarrow> bool" where
  "made s p nm c s' \<longleftrightarrow> tree_ok s' \<and> nodes s c = None \<and> listing s' p = (nm, c) # listing s p
     \<and> (\<forall>d. d \<noteq> p \<longrightarrow> d \<noteq> c \<longrightarrow> listing s' d = listing s d) \<and> same_files s s' {c} \<and> listing s' c = []"

lemma made_entry:
  assumes ok: "tree_ok s" and p: "nodes s p = Some pn" "has_flag VFS_FLAG_DIRECTORY pn" "dir_of pn s = Some (dq, es)"
    and n: "v_data n = Some (fresh s + 1)" "v_name n = nm"
    and kind: "has_flag VFS_FLAG_FILE n \<and> \<not> has_flag VFS_FLAG_DIRECTORY n \<and> fs = Some f \<and> file_ok f \<and> v_size n = tf_size f \<and> ds = None
      \<or> has_flag VFS_FLAG_DIRECTORY n \<and> \<not> has_flag VFS_FLAG_FILE n \<and> ds = Some []"
    and s': "s' = set_tdir dq (Some (fresh s # es)) (set_tdir (fresh s + 1) ds (set_tfile (fresh s + 1) fs
      (set_node (fresh s) (Some n) (s\<lparr>fresh := fresh s + 2\<rparr>))))"
  shows "made s p nm (fresh s) s'"
proof -
  have ok': "tree_ok s'" unfolding s' by (rule tree_ok_new [OF ok p n(1) kind])
  have no: "nodes_ok s" and dk: "dirs_ok s" using ok by (simp_all add: tree_ok_def)
  have dq: "tdirs s dq = Some es" "v_data pn = Some dq" using dir_node [OF ok p(1,2)] p(3) by auto
  have lt: "q < fresh s" "\<exists>r<fresh s. v_data m = Some r" if "nodes s q = Some m" for q m
    using nodes_okD [OF no that] by (auto simp: node_ok_def)
  have fr: "nodes s (fresh s) = None" using lt(1) by (metis less_irrefl option.exhaust)
  have nn: "nodes s' q = (if q = fresh s then Some n else nodes s q)" for q by (simp add: s')
  have live: "nodes s e \<noteq> None" if "tdirs s q = Some xs" "e \<in> set xs" for q xs e using dirs_okD [OF dk that(1)] that(2) by blast
  have old: "map (\<lambda>e. (v_name (the (nodes s' e)), e)) xs = map (\<lambda>e. (v_name (the (nodes s e)), e)) xs" if "tdirs s q = Some xs" for q xs
  proof (intro map_cong refl)
    fix e assume "e \<in> set xs"
    then have "e \<noteq> fresh s" using live [OF that] fr by metis
    then show "(v_name (the (nodes s' e)), e) = (v_name (the (nodes s e)), e)" by (simp add: nn)
  qed
  have pd: "p \<noteq> fresh s" "dq \<noteq> fresh s + 1" using p(1) fr dirs_okD [OF dk dq(1)] by auto
  have "listing s p = map (\<lambda>e. (v_name (the (nodes s e)), e)) es" using p by (simp add: listing_def)
  moreover have "dir_of pn s' = Some (dq, fresh s # es)" using dq pd by (simp add: dir_of_def s')
  ultimately have a: "listing s' p = (nm, fresh s) # listing s p"
    using pd p(1) old [OF dq(1)] n(2) by (simp add: listing_def nn)
  have d: "listing s' q = listing s q" if "q \<noteq> p" "q \<noteq> fresh s" for q
  proof (cases "nodes s q")
    case None
    then show ?thesis using that by (simp add: listing_def nn)
  next
    case (Some m)
    then obtain r where r: "v_data m = Some r" "r < fresh s" using lt by blast
    have "r \<noteq> dq" using nodes_ok_inj [OF no Some p(1)] r(1) dq(2) that(1) by auto
    then have "dir_of m s' = dir_of m s" using r by (simp add: dir_of_def s')
    then show ?thesis using Some that old [of r] r(1)
      by (auto simp: listing_def nn dir_of_def split: option.splits bind_splits)
  qed
  have f: "same_files s s' {fresh s}"
    unfolding same_files_def
  proof (intro allI impI conjI)
    fix q assume q: "q \<notin> {fresh s}"
    then show "nodes s' q = nodes s q" by (simp add: nn)
    show "file_data s' q = file_data s q"
    proof (cases "nodes s q")
      case (Some m)
      then obtain r where "v_data m = Some r" "r < fresh s" using lt by blast
      then show ?thesis using Some q by (simp add: file_data_def nn file_of_def s')
    qed (use q in \<open>simp add: file_data_def nn\<close>)
  qed
  have "listing s' (fresh s) = []" using kind n(1) pd by (auto simp: listing_def nn dir_of_def s')
  then show ?thesis using ok' fr a d f by (simp add: made_def)
qed

lemma tmpfs_create_file_ok:
  assumes ok: "tree_ok s" and p: "nodes s p = Some pn" "has_flag VFS_FLAG_DIRECTORY pn" and nm: "name_ok nm"
  shows "\<exists>c s' n. tmpfs_create_file p nm s = Some (Some c, s') \<and> made s p nm c s' \<and> file_data s' c = Some []
    \<and> nodes s' c = Some n \<and> has_flag VFS_FLAG_FILE n \<and> v_refcount n = 1"
proof -
  obtain dq es where d: "dir_of pn s = Some (dq, es)" using dir_node [OF ok p] by blast
  let ?n = "new_tnode (fresh s) nm VFS_FLAG_FILE p S_IFREG 0x1B6 0x1A4 (fresh s + 1) (caller s)"
  let ?f = "\<lparr>tf_data = None, tf_size = 0\<rparr>"
  let ?s = "set_tdir dq (Some (fresh s # es)) (set_tfile (fresh s + 1) (Some ?f) (set_node (fresh s) (Some ?n) (s\<lparr>fresh := fresh s + 2\<rparr>)))"
  have nm': "copy_str 256 nm = Some nm" using nm by (simp add: name_ok_def copy_str_eq)
  have r: "tmpfs_create_file p nm s = Some (Some (fresh s), ?s)"
    using p d nm' by (simp add: tmpfs_create_file_def Let_def)
  have tn: "tdirs s (fresh s + 1) = None"
    using dirs_okD [of s "fresh s + 1"] ok by (cases "tdirs s (fresh s + 1)") (auto simp: tree_ok_def)
  have "set_tdir (fresh s + 1) None t = t" if "tdirs t (fresh s + 1) = None" for t
    using that by (simp add: set_tdir_def fun_upd_idem)
  then have e: "?s = set_tdir dq (Some (fresh s # es)) (set_tdir (fresh s + 1) None (set_tfile (fresh s + 1) (Some ?f)
      (set_node (fresh s) (Some ?n) (s\<lparr>fresh := fresh s + 2\<rparr>))))" using tn by simp
  have "made s p nm (fresh s) ?s"
    by (rule made_entry [OF ok p d _ _ _ e, of nm ?f]) (auto simp: new_tnode_def has_flag_def vfs_flag_defs file_ok_def)
  moreover have "file_data ?s (fresh s) = Some []" by (simp add: file_data_def file_of_def new_tnode_def bytes_of_def)
  ultimately show ?thesis using r by (intro exI [of _ "fresh s"] exI [of _ ?s] exI [of _ ?n]) (simp add: new_tnode_def has_flag_def vfs_flag_defs)
qed

lemma tmpfs_create_dir_ok:
  assumes ok: "tree_ok s" and p: "nodes s p = Some pn" "has_flag VFS_FLAG_DIRECTORY pn" and nm: "name_ok nm"
  shows "\<exists>c s'. tmpfs_create_dir p nm s = Some (Some c, s') \<and> made s p nm c s' \<and> (\<exists>n. nodes s' c = Some n \<and> has_flag VFS_FLAG_DIRECTORY n)"
proof -
  obtain dq es where d: "dir_of pn s = Some (dq, es)" using dir_node [OF ok p] by blast
  let ?n = "new_tnode (fresh s) nm VFS_FLAG_DIRECTORY p S_IFDIR 0x1FF 0x1ED (fresh s + 1) (caller s)"
  let ?s = "set_tdir dq (Some (fresh s # es)) (set_tdir (fresh s + 1) (Some []) (set_node (fresh s) (Some ?n) (s\<lparr>fresh := fresh s + 2\<rparr>)))"
  have nm': "copy_str 256 nm = Some nm" using nm by (simp add: name_ok_def copy_str_eq)
  have r: "tmpfs_create_dir p nm s = Some (Some (fresh s), ?s)"
    using p d nm' by (simp add: tmpfs_create_dir_def Let_def)
  have "set_tfile q (tfiles t q) t = t" for q t by (simp add: set_tfile_def)
  then have "?s = set_tdir dq (Some (fresh s # es)) (set_tdir (fresh s + 1) (Some []) (set_tfile (fresh s + 1) (tfiles s (fresh s + 1))
      (set_node (fresh s) (Some ?n) (s\<lparr>fresh := fresh s + 2\<rparr>))))"
    by (simp add: set_tfile_def set_node_def)
  then have "made s p nm (fresh s) ?s"
    by (rule made_entry [OF ok p d, rotated -1]) (auto simp: new_tnode_def has_flag_def vfs_flag_defs)
  then show ?thesis using r by (intro exI [of _ "fresh s"] exI [of _ ?s]) (simp add: new_tnode_def has_flag_def vfs_flag_defs)
qed

definition gone :: "vfs \<Rightarrow> nat \<Rightarrow> u8 list \<Rightarrow> nat \<Rightarrow> vfs \<Rightarrow> bool" where
  "gone s p nm e s' \<longleftrightarrow> tree_ok s' \<and> nodes s' e = None \<and> listing s' p = remove1 (nm, e) (listing s p)
     \<and> (\<forall>d. d \<noteq> p \<longrightarrow> d \<noteq> e \<longrightarrow> listing s' d = listing s d) \<and> same_files s s' {e}"

lemma map_remove1_entry:
  "distinct es \<Longrightarrow> e \<in> set es \<Longrightarrow> map (\<lambda>e. (f e, e)) (remove1 e es) = remove1 (f e, e) (map (\<lambda>e. (f e, e)) es)"
  by (induction es) auto

lemma gone_entry:
  assumes ok: "tree_ok s" and p: "nodes s p = Some pn" "dir_of pn s = Some (dq, es)" "p \<noteq> e"
    and e: "map_of (listing s p) nm = Some e" "nodes s e = Some n" "v_data n = Some q" and t: "data_freed q s t"
    and s': "s' = set_node e None (set_tdir dq (Some (remove1 e es)) t)"
  shows "gone s p nm e s'"
proof -
  have no: "nodes_ok s" and dk: "dirs_ok s" using ok by (simp_all add: tree_ok_def)
  have dq: "tdirs s dq = Some es" "v_data pn = Some dq" using p(2) by (auto simp: dir_of_def split: bind_splits)
  have ls: "listing s p = map (\<lambda>e. (v_name (the (nodes s e)), e)) es" using p(1,2) by (simp add: listing_def)
  have em: "e \<in> set es" "nm = v_name (the (nodes s e))" using map_of_SomeD [OF e(1)] unfolding ls by auto
  have d: "distinct es" using dirs_okD [OF dk dq(1)] by blast
  have ok': "tree_ok s'" unfolding s' by (rule tree_ok_drop [OF ok dq(1) em(1) e(2,3) t])
  have nn: "nodes s' p' = (if p' = e then None else nodes s p')" for p' using t by (simp add: s' data_freed_def)
  have td: "tdirs s' q' = (if q' = dq then Some (remove1 e es) else tdirs t q')" for q' by (simp add: s')
  have other: "q' \<noteq> q" if "nodes s x = Some m" "x \<noteq> e" "v_data m = Some q'" for x m q'
    using nodes_ok_inj [OF no that(1) e(2)] e(3) that(2,3) by auto
  have old: "map (\<lambda>e. (v_name (the (nodes s' e)), e)) xs = map (\<lambda>e. (v_name (the (nodes s e)), e)) xs" if "e \<notin> set xs" for xs
    using that by (intro map_cong refl) (auto simp: nn)
  have "dir_of pn s' = Some (dq, remove1 e es)" using dq by (simp add: dir_of_def td)
  then have "listing s' p = map (\<lambda>e. (v_name (the (nodes s' e)), e)) (remove1 e es)" using p(1,3) by (simp add: listing_def nn)
  also have "\<dots> = map (\<lambda>e. (v_name (the (nodes s e)), e)) (remove1 e es)" by (rule old) (use d in simp)
  also have "\<dots> = remove1 (nm, e) (listing s p)" unfolding ls em(2) by (rule map_remove1_entry [OF d em(1)])
  finally have a: "listing s' p = remove1 (nm, e) (listing s p)" .
  have b: "listing s' x = listing s x" if "x \<noteq> p" "x \<noteq> e" for x
  proof (cases "nodes s x")
    case (Some m)
    obtain r where r: "v_data m = Some r" using nodes_okD [OF no Some] by (auto simp: node_ok_def)
    have "r \<noteq> dq" using nodes_ok_inj [OF no Some p(1)] r dq(2) that(1) by auto
    moreover have "r \<noteq> q" by (rule other [OF Some that(2) r])
    ultimately have "tdirs s' r = tdirs s r" using t by (simp add: td data_freed_def)
    moreover have "e \<notin> set xs" if "tdirs s r = Some xs" for xs
      using dirs_ok_one [OF dk dq(1) that em(1)] \<open>r \<noteq> dq\<close> by blast
    ultimately show ?thesis using Some that old r
      by (auto simp: listing_def nn dir_of_def split: option.splits bind_splits)
  qed (simp add: listing_def nn that)
  have f: "same_files s s' {e}"
    unfolding same_files_def
  proof (intro allI impI conjI)
    fix x assume x: "x \<notin> {e}"
    then show "nodes s' x = nodes s x" by (simp add: nn)
    show "file_data s' x = file_data s x"
    proof (cases "nodes s x")
      case (Some m)
      obtain r where r: "v_data m = Some r" using nodes_okD [OF no Some] by (auto simp: node_ok_def)
      have "r \<noteq> q" using other [OF Some _ r] x by simp
      then have "tfiles s' r = tfiles s r" using t by (simp add: s' data_freed_def)
      then show ?thesis using Some x r by (simp add: file_data_def nn file_of_def)
    qed (use x in \<open>simp add: file_data_def nn\<close>)
  qed
  show ?thesis using ok' a b f by (simp add: gone_def nn)
qed

lemma tmpfs_unlink_ok:
  assumes ok: "tree_ok s" and p: "nodes s p = Some pn" "has_flag VFS_FLAG_DIRECTORY pn"
  shows "case map_of (listing s p) nm of
      None \<Rightarrow> tmpfs_unlink p nm s = Some (-1, s)
    | Some e \<Rightarrow> \<exists>n. nodes s e = Some n \<and>
        (if has_flag VFS_FLAG_DIRECTORY n \<or> v_refcount n > 1 then tmpfs_unlink p nm s = Some (-1, s)
         else \<exists>s'. tmpfs_unlink p nm s = Some (0, s') \<and> gone s p nm e s')"
proof -
  obtain q es where d: "dir_of pn s = Some (q, es)" "tdirs s q = Some es" using dir_node [OF ok p] by blast
  have fn: "find_name s nm es = Some (map_of (listing s p) nm)"
    using p(1) d(1) find_name_ok [OF ok d(2), of nm] by (simp add: listing_def find_map_of)
  show ?thesis
  proof (cases "map_of (listing s p) nm")
    case None
    then show ?thesis using p d(1) fn by (simp add: tmpfs_unlink_def)
  next
    case (Some e)
    then obtain n where n: "nodes s e = Some n" using listing_live [OF ok map_of_SomeD] by blast
    have "\<exists>s'. tmpfs_unlink p nm s = Some (0, s') \<and> gone s p nm e s'"
      if k: "\<not> has_flag VFS_FLAG_DIRECTORY n" "\<not> v_refcount n > 1"
    proof -
      obtain fq f where f: "v_data n = Some fq" "tfiles s fq = Some f" using file_node [OF ok n k(1)] by blast
      have "p \<noteq> e" using p n k(1) by auto
      moreover have "data_freed fq s (set_tfile fq None s)" by (simp add: data_freed_def)
      ultimately have "gone s p nm e (set_node e None (set_tdir q (Some (remove1 e es)) (set_tfile fq None s)))"
        using gone_entry [OF ok p(1) d(1) _ Some n f(1)] by blast
      then show ?thesis using p d(1) fn Some n k f by (simp add: tmpfs_unlink_def)
    qed
    moreover have "tmpfs_unlink p nm s = Some (-1, s)" if "has_flag VFS_FLAG_DIRECTORY n \<or> v_refcount n > 1"
      using that p d(1) fn Some n by (auto simp: tmpfs_unlink_def)
    ultimately show ?thesis using Some n by simp
  qed
qed

lemma tmpfs_rmdir_ok:
  assumes ok: "tree_ok s" and p: "nodes s p = Some pn" "has_flag VFS_FLAG_DIRECTORY pn"
  shows "case map_of (listing s p) nm of
      None \<Rightarrow> tmpfs_rmdir p nm s = Some (-1, s)
    | Some e \<Rightarrow> \<exists>n. nodes s e = Some n \<and>
        (if \<not> has_flag VFS_FLAG_DIRECTORY n \<or> v_refcount n > 1 \<or> listing s e \<noteq> [] then tmpfs_rmdir p nm s = Some (-1, s)
         else \<exists>s'. tmpfs_rmdir p nm s = Some (0, s') \<and> gone s p nm e s')"
proof -
  obtain q es where d: "dir_of pn s = Some (q, es)" "tdirs s q = Some es" using dir_node [OF ok p] by blast
  have fn: "find_name s nm es = Some (map_of (listing s p) nm)"
    using p(1) d(1) find_name_ok [OF ok d(2), of nm] by (simp add: listing_def find_map_of)
  show ?thesis
  proof (cases "map_of (listing s p) nm")
    case None
    then show ?thesis using p d(1) fn by (simp add: tmpfs_rmdir_def)
  next
    case (Some e)
    then obtain n where n: "nodes s e = Some n" using listing_live [OF ok map_of_SomeD] by blast
    show ?thesis
    proof (cases "\<not> has_flag VFS_FLAG_DIRECTORY n \<or> v_refcount n > 1")
      case True
      then have "tmpfs_rmdir p nm s = Some (-1, s)" using p d(1) fn Some n by (auto simp: tmpfs_rmdir_def)
      then show ?thesis using Some n True by auto
    next
      case False
      then obtain cq cs where c: "v_data n = Some cq" "tdirs s cq = Some cs" "dir_of n s = Some (cq, cs)"
        using dir_node [OF ok n] by blast
      have lc: "listing s e = [] \<longleftrightarrow> cs = []" using n c(3) by (simp add: listing_def)
      have "gone s p nm e (set_node e None (set_tdir q (Some (remove1 e es)) (set_tdir cq None s)))" if "cs = []"
      proof -
        have "listing s p \<noteq> []" using Some by auto
        then have "p \<noteq> e" using that lc by auto
        moreover have "data_freed cq s (set_tdir cq None s)" by (simp add: data_freed_def)
        ultimately show ?thesis using gone_entry [OF ok p(1) d(1) _ Some n c(1)] by blast
      qed
      then show ?thesis using p d(1) fn Some n False c lc by (simp add: tmpfs_rmdir_def)
    qed
  qed
qed

subsection \<open>The reachable file systems\<close>

definition empty_vfs :: "cred option \<Rightarrow> vfs" where
  "empty_vfs c = \<lparr>nodes = (\<lambda>_. None), tfiles = (\<lambda>_. None), tdirs = (\<lambda>_. None), fresh = 1, caller = c, vfs_root = None, vfs_mounts = []\<rparr>"

text \<open>
  The states that the operations reach from a mounted, empty file system. The caller may change, and
  the layer above counts references to a node. Offsets and lengths stay below \<open>2 ^ 32\<close> in sum, and a
  name fits its field.
\<close>

inductive tmpfs_reach :: "vfs \<Rightarrow> bool" where
  tr_mount: "tmpfs_reach (snd (tmpfs_mount (empty_vfs c)))"
| tr_caller: "tmpfs_reach s \<Longrightarrow> tmpfs_reach (s\<lparr>caller := c\<rparr>)"
| tr_count: "tmpfs_reach s \<Longrightarrow> nodes s p = Some n \<Longrightarrow> tmpfs_reach (set_node p (Some (n\<lparr>v_refcount := k\<rparr>)) s)"
| tr_write: "tmpfs_reach s \<Longrightarrow> nodes s p = Some n \<Longrightarrow> off + length buf < 2 ^ 32 \<Longrightarrow> tmpfs_write p off buf s = Some (r, s') \<Longrightarrow> tmpfs_reach s'"
| tr_truncate: "tmpfs_reach s \<Longrightarrow> nodes s p = Some n \<Longrightarrow> sz < 2 ^ 32 \<Longrightarrow> tmpfs_truncate p sz s = Some (r, s') \<Longrightarrow> tmpfs_reach s'"
| tr_unlink: "tmpfs_reach s \<Longrightarrow> nodes s p = Some n \<Longrightarrow> tmpfs_unlink p nm s = Some (r, s') \<Longrightarrow> tmpfs_reach s'"
| tr_rmdir: "tmpfs_reach s \<Longrightarrow> nodes s p = Some n \<Longrightarrow> tmpfs_rmdir p nm s = Some (r, s') \<Longrightarrow> tmpfs_reach s'"
| tr_create: "tmpfs_reach s \<Longrightarrow> nodes s p = Some n \<Longrightarrow> name_ok nm \<Longrightarrow> tmpfs_create_file p nm s = Some (c, s') \<Longrightarrow> tmpfs_reach s'"
| tr_mkdir: "tmpfs_reach s \<Longrightarrow> nodes s p = Some n \<Longrightarrow> name_ok nm \<Longrightarrow> tmpfs_create_dir p nm s = Some (c, s') \<Longrightarrow> tmpfs_reach s'"

lemma write_ok:
  assumes ok: "tree_ok s" and p: "nodes s p = Some n" and lt: "off + length buf < 2 ^ 32"
  shows "\<exists>r s'. tmpfs_write p off buf s = Some (r, s') \<and> tree_ok s' \<and>
    (has_flag VFS_FLAG_FILE n \<longrightarrow> r = as_int (length buf) \<and> (\<exists>xs. file_data s p = Some xs \<and> file_data s' p = Some (put_bytes off buf xs))
       \<and> (\<forall>x. x \<noteq> p \<longrightarrow> nodes s' x = nodes s x \<and> file_data s' x = file_data s x)
       \<and> (\<exists>m. nodes s' p = Some m \<and> v_flags m = v_flags n)) \<and> (\<not> has_flag VFS_FLAG_FILE n \<longrightarrow> r = -1 \<and> s' = s)"
proof (cases "has_flag VFS_FLAG_FILE n")
  case False
  then show ?thesis using ok p by (simp add: tmpfs_write_def)
next
  case True
  obtain q f where f: "file_of n s = Some (q, f)" "v_data n = Some q" "tfiles s q = Some f" "file_ok f" "v_size n = tf_size f"
    using file_node [OF ok p file_flag_not_dir [OF ok p True]] by blast
  obtain g where g: "tmpfs_write p off buf s = Some (as_int (length buf), set_tfile q (Some g) (set_node p (Some (n\<lparr>v_size := tf_size g\<rparr>)) s))"
    "file_ok g" "bytes_of g = put_bytes off buf (bytes_of f)"
    using tmpfs_write_eq [OF p True f(1,4,5) lt] by blast
  let ?s = "set_tfile q (Some g) (set_node p (Some (n\<lparr>v_size := tf_size g\<rparr>)) s)"
  have "tree_ok ?s" by (rule tree_ok_file [OF ok p True f(2) g(2)])
  moreover have "file_data s p = Some (bytes_of f)" using p f(1) by (simp add: file_data_def)
  moreover have "file_data ?s p = Some (bytes_of g)" using f(2) by (simp add: file_data_def file_of_def)
  moreover have "file_data ?s x = file_data s x" if "x \<noteq> p" for x
  proof (cases "nodes s x")
    case (Some m)
    have "v_data m \<noteq> Some q" using nodes_ok_inj [of s x m p n] ok Some p f(2) that by (auto simp: tree_ok_def)
    then have "(case v_data m of Some r \<Rightarrow> tfiles ?s r = tfiles s r | None \<Rightarrow> True)" by (auto split: option.splits)
    then show ?thesis using Some that by (cases "v_data m") (simp_all add: file_data_def file_of_def)
  qed (simp add: file_data_def that)
  ultimately show ?thesis using g(1,3) True by auto
qed

lemma truncate_ok:
  assumes ok: "tree_ok s" and p: "nodes s p = Some n" and lt: "sz < 2 ^ 32"
  shows "\<exists>r s'. tmpfs_truncate p sz s = Some (r, s') \<and> tree_ok s' \<and>
    (has_flag VFS_FLAG_FILE n \<longrightarrow> r = 0 \<and> (\<exists>xs. file_data s p = Some xs \<and> file_data s' p = Some (resize sz xs)))
     \<and> (\<not> has_flag VFS_FLAG_FILE n \<longrightarrow> r = -1 \<and> s' = s)"
proof (cases "has_flag VFS_FLAG_FILE n")
  case False
  then show ?thesis using ok p by (simp add: tmpfs_truncate_def)
next
  case True
  obtain q f where f: "file_of n s = Some (q, f)" "v_data n = Some q" "file_ok f"
    using file_node [OF ok p file_flag_not_dir [OF ok p True]] by blast
  obtain g where g: "tmpfs_truncate p sz s = Some (0, set_tfile q (Some g) (set_node p (Some (n\<lparr>v_size := tf_size g\<rparr>)) s))"
    "file_ok g" "bytes_of g = resize sz (bytes_of f)"
    using tmpfs_truncate_eq [OF p True f(1,3) lt] by auto
  let ?s = "set_tfile q (Some g) (set_node p (Some (n\<lparr>v_size := tf_size g\<rparr>)) s)"
  have "tree_ok ?s" by (rule tree_ok_file [OF ok p True f(2) g(2)])
  moreover have "file_data s p = Some (bytes_of f)" using p f(1) by (simp add: file_data_def)
  moreover have "file_data ?s p = Some (bytes_of g)" using f(2) by (simp add: file_data_def file_of_def)
  ultimately show ?thesis using g(1,3) True by auto
qed

lemma remove_tree_ok:
  assumes "tree_ok s" "nodes s p = Some n"
  shows "\<exists>r s'. tmpfs_unlink p nm s = Some (r, s') \<and> tree_ok s'" "\<exists>r s'. tmpfs_rmdir p nm s = Some (r, s') \<and> tree_ok s'"
proof -
  have "(\<exists>r s'. tmpfs_unlink p nm s = Some (r, s') \<and> tree_ok s') \<and> (\<exists>r s'. tmpfs_rmdir p nm s = Some (r, s') \<and> tree_ok s')"
  proof (cases "has_flag VFS_FLAG_DIRECTORY n")
    case True
    from tmpfs_unlink_ok [OF assms True, of nm] tmpfs_rmdir_ok [OF assms True, of nm] assms(1) show ?thesis
      by (auto simp: gone_def split: option.splits if_splits)
  qed (use assms in \<open>simp add: tmpfs_unlink_def tmpfs_rmdir_def\<close>)
  then show "\<exists>r s'. tmpfs_unlink p nm s = Some (r, s') \<and> tree_ok s'" "\<exists>r s'. tmpfs_rmdir p nm s = Some (r, s') \<and> tree_ok s'"
    by simp_all
qed

lemma create_tree_ok:
  assumes "tree_ok s" "nodes s p = Some n" "name_ok nm"
  shows "\<exists>c s'. tmpfs_create_file p nm s = Some (c, s') \<and> tree_ok s'" "\<exists>c s'. tmpfs_create_dir p nm s = Some (c, s') \<and> tree_ok s'"
proof -
  have "(\<exists>c s'. tmpfs_create_file p nm s = Some (c, s') \<and> tree_ok s') \<and> (\<exists>c s'. tmpfs_create_dir p nm s = Some (c, s') \<and> tree_ok s')"
  proof (cases "has_flag VFS_FLAG_DIRECTORY n")
    case True
    from tmpfs_create_file_ok [OF assms(1,2) True assms(3)] tmpfs_create_dir_ok [OF assms(1,2) True assms(3)] show ?thesis
      by (auto simp: made_def)
  qed (use assms in \<open>simp add: tmpfs_create_file_def tmpfs_create_dir_def\<close>)
  then show "\<exists>c s'. tmpfs_create_file p nm s = Some (c, s') \<and> tree_ok s'" "\<exists>c s'. tmpfs_create_dir p nm s = Some (c, s') \<and> tree_ok s'"
    by simp_all
qed

lemma mount_tree_ok: "tree_ok (snd (tmpfs_mount (empty_vfs c)))"
  by (auto simp: tmpfs_mount_def empty_vfs_def tree_ok_def nodes_ok_def dirs_ok_def node_ok_def has_flag_def vfs_flag_defs Let_def
      split: if_splits)

lemma tmpfs_reach_ok: "tmpfs_reach s \<Longrightarrow> tree_ok s"
proof (induction rule: tmpfs_reach.induct)
  case (tr_mount c)
  show ?case by (rule mount_tree_ok)
next
  case (tr_caller s c)
  then show ?case by (simp add: tree_ok_def nodes_ok_def dirs_ok_def node_ok_def)
next
  case (tr_count s p n k)
  then show ?case by (intro tree_ok_node [of s p n]) simp_all
next
  case (tr_write s p n off buf r s')
  from write_ok [OF tr_write.IH tr_write.hyps(2,3)] tr_write.hyps(4) show ?case by auto
next
  case (tr_truncate s p n sz r s')
  from truncate_ok [OF tr_truncate.IH tr_truncate.hyps(2,3)] tr_truncate.hyps(4) show ?case by auto
next
  case (tr_unlink s p n nm r s')
  from remove_tree_ok(1) [OF tr_unlink.IH tr_unlink.hyps(2), of nm] tr_unlink.hyps(3) show ?case by auto
next
  case (tr_rmdir s p n nm r s')
  from remove_tree_ok(2) [OF tr_rmdir.IH tr_rmdir.hyps(2), of nm] tr_rmdir.hyps(3) show ?case by auto
next
  case (tr_create s p n nm c s')
  from create_tree_ok(1) [OF tr_create.IH tr_create.hyps(2,3)] tr_create.hyps(4) show ?case by auto
next
  case (tr_mkdir s p n nm c s')
  from create_tree_ok(2) [OF tr_mkdir.IH tr_mkdir.hyps(2,3)] tr_mkdir.hyps(4) show ?case by auto
qed

lemma put_bytes_read: "take (length buf) (drop off (put_bytes off buf xs)) = buf"
  by (simp add: put_bytes_def)

text \<open>
  C30. In every reachable file system, a file behaves as its list of bytes: a write replaces the bytes
  from its offset on, zeros filling a gap, returns its length and touches no other file; reading it back
  gives what was written; truncating cuts the list or extends it with zeros. No operation on a live node
  follows a dangling pointer or leaves a buffer.
\<close>

theorem tmpfs_files:
  assumes s: "tmpfs_reach s" and p: "nodes s p = Some n" and fl: "has_flag VFS_FLAG_FILE n"
  shows "\<exists>xs. file_data s p = Some xs \<and>
    (\<forall>off sz. off + sz < 2 ^ 32 \<longrightarrow>
       tmpfs_read p off sz s = Some (as_int (length (take sz (drop off xs))), take sz (drop off xs), s)) \<and>
    (\<forall>off buf. off + length buf < 2 ^ 32 \<longrightarrow> (\<exists>s'. tmpfs_write p off buf s = Some (as_int (length buf), s')
       \<and> file_data s' p = Some (put_bytes off buf xs) \<and> tmpfs_reach s'
       \<and> (\<forall>x. x \<noteq> p \<longrightarrow> nodes s' x = nodes s x \<and> file_data s' x = file_data s x)
       \<and> tmpfs_read p off (length buf) s' = Some (as_int (length buf), buf, s'))) \<and>
    (\<forall>sz<2 ^ 32. \<exists>s'. tmpfs_truncate p sz s = Some (0, s') \<and> file_data s' p = Some (resize sz xs))"
proof -
  have rd: "\<exists>xs. file_data t p = Some xs \<and> (\<forall>off sz. off + sz < 2 ^ 32 \<longrightarrow>
       tmpfs_read p off sz t = Some (as_int (length (take sz (drop off xs))), take sz (drop off xs), t))"
    if t: "tmpfs_reach t" "nodes t p = Some m" "has_flag VFS_FLAG_FILE m" for t m
  proof -
    note ok = tmpfs_reach_ok [OF t(1)]
    obtain q f where "file_of m t = Some (q, f)" "file_ok f"
      using file_node [OF ok t(2) file_flag_not_dir [OF ok t(2,3)]] by blast
    then show ?thesis using tmpfs_read_eq [OF t(2,3)] t(2) by (auto simp: file_data_def)
  qed
  note ok = tmpfs_reach_ok [OF s]
  obtain xs where xs: "file_data s p = Some xs" "\<And>off sz. off + sz < 2 ^ 32 \<Longrightarrow>
       tmpfs_read p off sz s = Some (as_int (length (take sz (drop off xs))), take sz (drop off xs), s)"
    using rd [OF s p fl] by blast
  have "\<exists>s'. tmpfs_write p off buf s = Some (as_int (length buf), s') \<and> file_data s' p = Some (put_bytes off buf xs) \<and> tmpfs_reach s'
       \<and> (\<forall>x. x \<noteq> p \<longrightarrow> nodes s' x = nodes s x \<and> file_data s' x = file_data s x)
       \<and> tmpfs_read p off (length buf) s' = Some (as_int (length buf), buf, s')" if lt: "off + length buf < 2 ^ 32" for off buf
  proof -
    obtain s' where s': "tmpfs_write p off buf s = Some (as_int (length buf), s')" "file_data s' p = Some (put_bytes off buf xs)"
      "\<forall>x. x \<noteq> p \<longrightarrow> nodes s' x = nodes s x \<and> file_data s' x = file_data s x" "\<exists>m. nodes s' p = Some m \<and> v_flags m = v_flags n"
      using write_ok [OF ok p lt] fl xs(1) by auto
    note r = tr_write [OF s p lt s'(1)]
    obtain m where m: "nodes s' p = Some m" "v_flags m = v_flags n" using s'(4) by blast
    then have "has_flag VFS_FLAG_FILE m" using fl by (simp add: has_flag_def)
    from rd [OF r m(1) this] s'(2) lt
    have "tmpfs_read p off (length buf) s' = Some (as_int (length (take (length buf) (drop off (put_bytes off buf xs)))),
        take (length buf) (drop off (put_bytes off buf xs)), s')"
      by auto
    then have "tmpfs_read p off (length buf) s' = Some (as_int (length buf), buf, s')" unfolding put_bytes_read .
    then show ?thesis using s' r by blast
  qed
  moreover have "\<exists>s'. tmpfs_truncate p sz s = Some (0, s') \<and> file_data s' p = Some (resize sz xs)" if "sz < 2 ^ 32" for sz
    using truncate_ok [OF ok p that] fl xs(1) by auto
  ultimately show ?thesis using xs by (intro exI [of _ xs]) blast
qed

text \<open>A file system with one file.\<close>

definition demo_fs :: vfs where
  "demo_fs = snd (tmpfs_mount (empty_vfs None))"

lemma demo_root:
  "tmpfs_reach demo_fs" "\<exists>n. nodes demo_fs 1 = Some n \<and> has_flag VFS_FLAG_DIRECTORY n" "listing demo_fs 1 = []"
proof -
  show "tmpfs_reach demo_fs" unfolding demo_fs_def by (rule tr_mount)
  show "\<exists>n. nodes demo_fs 1 = Some n \<and> has_flag VFS_FLAG_DIRECTORY n" "listing demo_fs 1 = []"
    by (auto simp: demo_fs_def tmpfs_mount_def empty_vfs_def has_flag_def vfs_flag_defs listing_def dir_of_def Let_def)
qed

lemma demo_file:
  "\<exists>c s n. tmpfs_create_file 1 [97] demo_fs = Some (Some c, s) \<and> tmpfs_reach s \<and> nodes s c = Some n
     \<and> has_flag VFS_FLAG_FILE n \<and> file_data s c = Some [] \<and> listing s 1 = [([97], c)] \<and> nodes s 1 = nodes demo_fs 1"
proof -
  obtain m where m: "nodes demo_fs 1 = Some m" "has_flag VFS_FLAG_DIRECTORY m" using demo_root(2) by blast
  have nm: "name_ok [97]" by (simp add: name_ok_def)
  obtain c s n where c: "tmpfs_create_file 1 [97] demo_fs = Some (Some c, s)" "made demo_fs 1 [97] c s" "file_data s c = Some []"
    "nodes s c = Some n" "has_flag VFS_FLAG_FILE n"
    using tmpfs_create_file_ok [OF tmpfs_reach_ok [OF demo_root(1)] m nm] by blast
  moreover have "tmpfs_reach s" by (rule tr_create [OF demo_root(1) m(1) nm c(1)])
  moreover have "listing s 1 = [([97], c)]" using c(2) demo_root(3) by (simp add: made_def)
  moreover have "nodes s 1 = nodes demo_fs 1" using c(2) m(1) unfolding made_def same_files_def by (metis option.distinct(1) singletonD)
  ultimately show ?thesis by blast
qed

lemma tmpfs_files_witness:
  "\<exists>s c s'. tmpfs_reach s \<and> tmpfs_write c 2 [5, 6] s = Some (2, s') \<and> file_data s' c = Some [0, 0, 5, 6]"
proof -
  obtain c s n where c: "tmpfs_reach s" "nodes s c = Some n" "has_flag VFS_FLAG_FILE n" "file_data s c = Some []"
    using demo_file by blast
  have w: "\<exists>s'. tmpfs_write c 2 [5, 6] s = Some (as_int (length [5, 6 :: u8]), s') \<and> file_data s' c = Some (put_bytes 2 [5, 6] [])"
    using tmpfs_files [OF c(1-3)] c(4) by (fastforce dest: spec [of _ "2 :: nat"] spec [of _ "[5, 6] :: u8 list"])
  have "as_int (length [5, 6 :: u8]) = 2" "put_bytes 2 [5, 6] [] = [0, 0, 5, 6]"
    by (simp add: as_int_def) (simp add: put_bytes_def eval_nat_numeral)
  then show ?thesis using w c(1) by metis
qed

text \<open>
  C31. A directory of a reachable file system behaves as its listing, the list of its names and nodes with
  the newest first: a lookup gives the first node of the name, and reading the directory its entries in
  order; making a file or directory puts it in front and leaves every other directory and file alone, so it
  hides an older entry of the same name; unlinking a file that is not held, or removing an empty directory,
  takes exactly its entry out and frees exactly its node, and otherwise fails and changes nothing.
\<close>

theorem tmpfs_directories:
  assumes s: "tmpfs_reach s" and p: "nodes s p = Some pn" "has_flag VFS_FLAG_DIRECTORY pn"
  shows "(\<forall>nm. tmpfs_finddir p nm s = Some (map_of (listing s p) nm, s))
    \<and> (\<forall>i. tmpfs_readdir p i s = Some (if i < length (listing s p) then Some (snd (listing s p ! i)) else None, s))
    \<and> (\<forall>nm. name_ok nm \<longrightarrow> (\<exists>c s'. tmpfs_create_file p nm s = Some (Some c, s') \<and> made s p nm c s' \<and> file_data s' c = Some []))
    \<and> (\<forall>nm. name_ok nm \<longrightarrow> (\<exists>c s'. tmpfs_create_dir p nm s = Some (Some c, s') \<and> made s p nm c s'))
    \<and> (\<forall>nm. case map_of (listing s p) nm of
          None \<Rightarrow> tmpfs_unlink p nm s = Some (-1, s) \<and> tmpfs_rmdir p nm s = Some (-1, s)
        | Some e \<Rightarrow> \<exists>n. nodes s e = Some n \<and>
            (if has_flag VFS_FLAG_DIRECTORY n \<or> v_refcount n > 1 then tmpfs_unlink p nm s = Some (-1, s)
             else \<exists>s'. tmpfs_unlink p nm s = Some (0, s') \<and> gone s p nm e s') \<and>
            (if \<not> has_flag VFS_FLAG_DIRECTORY n \<or> v_refcount n > 1 \<or> listing s e \<noteq> [] then tmpfs_rmdir p nm s = Some (-1, s)
             else \<exists>s'. tmpfs_rmdir p nm s = Some (0, s') \<and> gone s p nm e s'))"
proof (intro conjI allI impI)
  note ok = tmpfs_reach_ok [OF s]
  show "tmpfs_finddir p nm s = Some (map_of (listing s p) nm, s)" for nm by (rule tmpfs_finddir_eq [OF ok p])
  show "tmpfs_readdir p i s = Some (if i < length (listing s p) then Some (snd (listing s p ! i)) else None, s)" for i
    by (rule tmpfs_readdir_eq [OF ok p])
  show "\<exists>c s'. tmpfs_create_file p nm s = Some (Some c, s') \<and> made s p nm c s' \<and> file_data s' c = Some []" if "name_ok nm" for nm
    using tmpfs_create_file_ok [OF ok p that] by blast
  show "\<exists>c s'. tmpfs_create_dir p nm s = Some (Some c, s') \<and> made s p nm c s'" if "name_ok nm" for nm
    using tmpfs_create_dir_ok [OF ok p that] by blast
  show "case map_of (listing s p) nm of
          None \<Rightarrow> tmpfs_unlink p nm s = Some (-1, s) \<and> tmpfs_rmdir p nm s = Some (-1, s)
        | Some e \<Rightarrow> \<exists>n. nodes s e = Some n \<and>
            (if has_flag VFS_FLAG_DIRECTORY n \<or> v_refcount n > 1 then tmpfs_unlink p nm s = Some (-1, s)
             else \<exists>s'. tmpfs_unlink p nm s = Some (0, s') \<and> gone s p nm e s') \<and>
            (if \<not> has_flag VFS_FLAG_DIRECTORY n \<or> v_refcount n > 1 \<or> listing s e \<noteq> [] then tmpfs_rmdir p nm s = Some (-1, s)
             else \<exists>s'. tmpfs_rmdir p nm s = Some (0, s') \<and> gone s p nm e s')" for nm
  proof (cases "map_of (listing s p) nm")
    case None
    then show ?thesis using tmpfs_unlink_ok [OF ok p, of nm] tmpfs_rmdir_ok [OF ok p, of nm] by simp
  next
    case (Some e)
    obtain n where n: "nodes s e = Some n" using listing_live [OF ok map_of_SomeD [OF Some]] by blast
    show ?thesis
      using tmpfs_unlink_ok [OF ok p, of nm] tmpfs_rmdir_ok [OF ok p, of nm]
      unfolding Some option.case n option.inject by blast
  qed
qed

lemma tmpfs_directories_witness:
  "\<exists>s c. tmpfs_reach s \<and> listing s 1 = [([97], c)] \<and> tmpfs_finddir 1 [97] s = Some (Some c, s)"
proof -
  obtain c s where c: "tmpfs_reach s" "listing s 1 = [([97], c)]" "nodes s 1 = nodes demo_fs 1" using demo_file by blast
  obtain n where n: "nodes s 1 = Some n" "has_flag VFS_FLAG_DIRECTORY n" using demo_root(2) c(3) by auto
  from tmpfs_directories [OF c(1) n] c show ?thesis by (intro exI [of _ s] exI [of _ c]) simp
qed

text \<open>
  C32. The sum of offset and length wraps around: a write whose end lies beyond \<open>2 ^ 32\<close> takes the small
  sum as the new size and copies the bytes outside the buffer of the file; and a read from an offset inside
  a file whose end wraps reads outside it.
\<close>

theorem tmpfs_offset_wraps:
  assumes "nodes s p = Some n" "has_flag VFS_FLAG_FILE n" "file_of n s = Some (q, f)" "file_ok f"
    and "off < 2 ^ 32" "length buf < 2 ^ 32" "2 ^ 32 \<le> off + length buf" "sz < 2 ^ 32" "o2 < tf_size f" "2 ^ 32 \<le> o2 + sz"
    "o2 + sz - 2 ^ 32 \<le> tf_size f"
  shows "tmpfs_write p off buf s = None \<and> tmpfs_read p o2 sz s = None"
proof
  have w: "w32 (off + length buf) = off + length buf - 2 ^ 32" using assms(5-7) by (simp add: w32_def mod_if)
  have lt: "off + length buf - 2 ^ 32 < off + length buf" using assms(7) by simp
  have b: "buf \<noteq> []" using assms(5,7) by auto
  have mw: "mem_write (tf_data g) off buf = None" if "file_ok g" for g
    using that b assms(7) by (auto simp: mem_write_def file_ok_def split: option.splits)
  show "tmpfs_write p off buf s = None"
  proof (cases "w32 (off + length buf) > tf_size f")
    case True
    obtain g where "grow_file f (w32 (off + length buf)) = Some g" "file_ok g"
      using grow_file_eq [OF assms(4) w32_less] by blast
    then show ?thesis using assms(1-3) True mw by (simp add: tmpfs_write_def)
  next
    case False
    then show ?thesis using assms(1-3) mw [OF assms(4)] by (simp add: tmpfs_write_def)
  qed
  have "tf_size f < 2 ^ 32" using assms(4) by (simp add: file_ok_def)
  then have "o2 + sz - 2 ^ 32 < 2 ^ 32" using assms(8,9) by linarith
  then have w2: "w32 (o2 + sz) = o2 + sz - 2 ^ 32" using assms(10) by (simp add: w32_def mod_if)
  have "mem_read (tf_data f) o2 sz = None"
    using assms(4,8-10) by (auto simp: mem_read_def file_ok_def split: option.splits)
  then show "tmpfs_read p o2 sz s = None" using assms(1-3,9,11) w2 by (simp add: tmpfs_read_def)
qed

lemma tmpfs_offset_wraps_witness:
  "\<exists>s c. tmpfs_reach s \<and> file_data s c = Some [1, 1] \<and> tmpfs_write c (2 ^ 32 - 1) [1] s = None
     \<and> tmpfs_read c 1 (2 ^ 32 - 1) s = None"
proof -
  obtain c s n where c: "tmpfs_reach s" "nodes s c = Some n" "has_flag VFS_FLAG_FILE n" "file_data s c = Some []"
    using demo_file by blast
  have lt: "0 + length [1, 1 :: u8] < 2 ^ 32" by simp
  obtain t r where t: "tmpfs_write c 0 [1, 1] s = Some (r, t)" "tree_ok t" "file_data t c = Some [1, 1]"
      "\<exists>m. nodes t c = Some m \<and> v_flags m = v_flags n"
    using write_ok [OF tmpfs_reach_ok [OF c(1)] c(2) lt] c(3,4) by (auto simp: put_bytes_def)
  have rt: "tmpfs_reach t" by (rule tr_write [OF c(1,2) lt t(1)])
  obtain m where m: "nodes t c = Some m" "v_flags m = v_flags n" using t(4) by blast
  then have fl: "has_flag VFS_FLAG_FILE m" using c(3) by (simp add: has_flag_def)
  obtain q f where f: "file_of m t = Some (q, f)" "file_ok f"
    using file_node [OF t(2) m(1) file_flag_not_dir [OF t(2) m(1) fl]] by blast
  have "bytes_of f = [1, 1]" using t(3) m(1) f(1) by (simp add: file_data_def)
  then have sz: "tf_size f = 2" using file_ok_length [OF f(2)] by simp
  have "tmpfs_write c (2 ^ 32 - 1) [1] t = None \<and> tmpfs_read c 1 (2 ^ 32 - 1) t = None"
    by (rule tmpfs_offset_wraps [OF m(1) fl f]) (simp_all add: sz)
  then show ?thesis using rt t(3) by blast
qed

end
