(* ===== verification/Vfs.thy ===== *)
theory Vfs
  imports Tmpfs Creds
begin

text \<open>
  The virtual file system of \<^verbatim>\<open>kernel/filesystem/vfs.c\<close>: splitting and resolving paths, the mount
  table, opening, closing, creating and removing. The table of operations of a node is a \<open>vops\<close>, a
  record of functions as in C (a missing one is NULL); \<open>T\<close> gives the table that the pointer in a node
  stands for, and the registered file systems are a list of names and mount functions. A path is
  its characters; the copies into arrays of 256 bytes go through the kernel's \<open>strncpy\<close>
  (\<open>copy_str\<close>), and the tokens of a path are those of \<open>strtok\<close> with the delimiter \<^verbatim>\<open>/\<close>.
\<close>

subsection \<open>Operation tables\<close>

record vops =
  op_read :: "(nat \<Rightarrow> nat \<Rightarrow> nat \<Rightarrow> vfs \<Rightarrow> (int \<times> u8 list \<times> vfs) option) option"
  op_write :: "(nat \<Rightarrow> nat \<Rightarrow> u8 list \<Rightarrow> vfs \<Rightarrow> (int \<times> vfs) option) option"
  op_truncate :: "(nat \<Rightarrow> nat \<Rightarrow> vfs \<Rightarrow> (int \<times> vfs) option) option"
  op_unlink :: "(nat \<Rightarrow> u8 list \<Rightarrow> vfs \<Rightarrow> (int \<times> vfs) option) option"
  op_rmdir :: "(nat \<Rightarrow> u8 list \<Rightarrow> vfs \<Rightarrow> (int \<times> vfs) option) option"
  op_open :: "(nat \<Rightarrow> vfs \<Rightarrow> (int \<times> vfs) option) option"
  op_close :: "(nat \<Rightarrow> vfs \<Rightarrow> (int \<times> vfs) option) option"
  op_readdir :: "(nat \<Rightarrow> nat \<Rightarrow> vfs \<Rightarrow> (nat option \<times> vfs) option) option"
  op_finddir :: "(nat \<Rightarrow> u8 list \<Rightarrow> vfs \<Rightarrow> (nat option \<times> vfs) option) option"
  op_create :: "(nat \<Rightarrow> u8 list \<Rightarrow> vfs \<Rightarrow> (nat option \<times> vfs) option) option"
  op_mkdir :: "(nat \<Rightarrow> u8 list \<Rightarrow> vfs \<Rightarrow> (nat option \<times> vfs) option) option"

type_synonym op_tables = "nat \<Rightarrow> vops"

definition tmpfs_ops :: vops where
  "tmpfs_ops = \<lparr>op_read = Some tmpfs_read, op_write = Some tmpfs_write, op_truncate = Some tmpfs_truncate,
     op_unlink = Some tmpfs_unlink, op_rmdir = Some tmpfs_rmdir, op_open = Some (\<lambda>p s. Some (tmpfs_open p s)),
     op_close = Some (\<lambda>p s. Some (tmpfs_close p s)), op_readdir = Some tmpfs_readdir, op_finddir = Some tmpfs_finddir,
     op_create = Some tmpfs_create_file, op_mkdir = Some tmpfs_create_dir\<rparr>"

definition node_op :: "op_tables \<Rightarrow> (vops \<Rightarrow> 'f option) \<Rightarrow> vnode \<Rightarrow> 'f option" where
  "node_op T sel n = do { o1 \<leftarrow> v_ops n; sel (T o1) }"

subsection \<open>Paths\<close>

definition SLASH :: u8 where "SLASH = 0x2F"

definition split_path :: "u8 list \<Rightarrow> (u8 list \<times> u8 list) option" where
  "split_path path = do {
     tmp \<leftarrow> copy_str 256 path;
     slash \<leftarrow> strrchr (tmp @ [0]) 0x2F;
     Some (case slash of
       None \<Rightarrow> ([SLASH], tmp)
     | Some k \<Rightarrow> if k = 0 then ([SLASH], drop 1 tmp) else (take k tmp, drop (k + 1) tmp))
   }"

fun strip_slashes :: "u8 list \<Rightarrow> nat \<Rightarrow> u8 list" where
  "strip_slashes xs 0 = xs"
| "strip_slashes xs (Suc n) = (if 0 < n \<and> last xs = SLASH then strip_slashes (butlast xs) n else xs)"

definition vfs_normalize_mount_path :: "u8 list \<Rightarrow> u8 list option" where
  "vfs_normalize_mount_path path =
     (if path = [] then Some []
      else do { out \<leftarrow> copy_str 256 path; Some (strip_slashes out (length out)) })"

subsection \<open>The mount table\<close>

definition vfs_lookup_mount :: "u8 list \<Rightarrow> vfs \<Rightarrow> nat option" where
  "vfs_lookup_mount path s = map_of (vfs_mounts s) path"

fun replace_mount :: "u8 list \<Rightarrow> nat \<Rightarrow> (u8 list \<times> nat) list \<Rightarrow> (u8 list \<times> nat) list option" where
  "replace_mount k v [] = None"
| "replace_mount k v ((k', v') # ms) = (if k' = k then Some ((k', v) # ms) else map_option ((#) (k', v')) (replace_mount k v ms))"

definition vfs_register_mount :: "u8 list \<Rightarrow> nat \<Rightarrow> vfs \<Rightarrow> vfs option" where
  "vfs_register_mount path node s = do {
     normalized \<leftarrow> vfs_normalize_mount_path path;
     if normalized = [SLASH] then Some s
     else case replace_mount normalized node (vfs_mounts s) of
       Some ms \<Rightarrow> Some (s\<lparr>vfs_mounts := ms\<rparr>)
     | None \<Rightarrow> do { nm \<leftarrow> copy_str 256 normalized; Some (s\<lparr>vfs_mounts := (nm, node) # vfs_mounts s\<rparr>) }
   }"

subsection \<open>Releasing nodes\<close>

definition free_node :: "nat \<Rightarrow> vnode \<Rightarrow> vfs \<Rightarrow> vfs" where
  "free_node p n s = set_node p None (case v_data n of None \<Rightarrow> s | Some q \<Rightarrow> set_tdir q None (set_tfile q None s))"

definition vfs_put :: "nat option \<Rightarrow> vfs \<Rightarrow> vfs option" where
  "vfs_put node s = (case node of
     None \<Rightarrow> Some s
   | Some p \<Rightarrow> do {
       n \<leftarrow> nodes s p;
       Some (if has_flag VFS_FLAG_DISKIO n \<and> v_refcount n = 0 then free_node p n s else s)
     })"

definition vfs_close :: "op_tables \<Rightarrow> nat option \<Rightarrow> vfs \<Rightarrow> vfs option" where
  "vfs_close T node s = (case node of
     None \<Rightarrow> Some s
   | Some p \<Rightarrow> do {
       n0 \<leftarrow> nodes s p;
       s1 \<leftarrow> (case node_op T op_close n0 of None \<Rightarrow> Some s | Some f \<Rightarrow> do { (r, t) \<leftarrow> f p s; Some t });
       n \<leftarrow> nodes s1 p;
       let m = (if v_refcount n > 0 then n\<lparr>v_refcount := v_refcount n - 1\<rparr> else n);
       Some (if v_refcount m = 0 \<and> has_flag VFS_FLAG_DISKIO m then free_node p m s1 else set_node p (Some m) s1)
     })"

fun resolve_cleanup :: "nat list \<Rightarrow> nat option \<Rightarrow> vfs \<Rightarrow> vfs option" where
  "resolve_cleanup [] keep s = Some s"
| "resolve_cleanup (a # as) keep s = do {
     s1 \<leftarrow> (if Some a \<noteq> keep then vfs_put (Some a) s else Some s);
     resolve_cleanup as keep s1
   }"

subsection \<open>Resolving a path\<close>

definition DOT :: "u8 list" where "DOT = [0x2E]"
definition DOTDOT :: "u8 list" where "DOTDOT = [0x2E, 0x2E]"

definition up_path :: "u8 list \<Rightarrow> u8 list option" where
  "up_path resolved =
     (if length resolved > 1 then do {
        slash \<leftarrow> strrchr (resolved @ [0]) 0x2F;
        Some (case slash of None \<Rightarrow> resolved | Some k \<Rightarrow> if k = 0 then [SLASH] else take k resolved)
      } else Some resolved)"

text \<open>The path of the next token; \<open>None\<close> when it does not fit an array of 256 bytes.\<close>

definition down_path :: "u8 list \<Rightarrow> u8 list \<Rightarrow> u8 list option" where
  "down_path resolved token =
     (if length resolved > 1 \<and> length resolved + 1 \<ge> 256 then None
      else let nx = (if length resolved > 1 then resolved @ [SLASH] else [SLASH])
           in if length nx + length token \<ge> 256 then None else Some (nx @ token))"

text \<open>One step down from \<open>cur\<close>: the node, the nodes to release later, and the store; \<open>None\<close> inside is NULL.\<close>

definition resolve_child :: "op_tables \<Rightarrow> nat \<Rightarrow> nat \<Rightarrow> u8 list \<Rightarrow> u8 list \<Rightarrow> nat list \<Rightarrow> vfs
    \<Rightarrow> (nat option \<times> nat list \<times> vfs) option" where
  "resolve_child T cur up token next_path allocs s =
     (case vfs_lookup_mount next_path s of
        Some m \<Rightarrow> Some (Some m, allocs, s)
      | None \<Rightarrow> do {
          n \<leftarrow> nodes s cur;
          case node_op T op_finddir n of
            None \<Rightarrow> Some (None, allocs, s)
          | Some f \<Rightarrow> do {
              (c, s1) \<leftarrow> f cur token s;
              case c of
                None \<Rightarrow> Some (None, allocs, s1)
              | Some p \<Rightarrow> do {
                  m \<leftarrow> nodes s1 p;
                  let as' = (if has_flag VFS_FLAG_DISKIO m \<and> length allocs < 64 then allocs @ [p] else allocs);
                  Some (Some p, as', if v_parent m = None then set_node p (Some (m\<lparr>v_parent := Some up\<rparr>)) s1 else s1)
                }
            }
        })"

text \<open>The stack has its top first and at most 64 entries; a NULL result releases every node collected.\<close>

fun resolve_loop :: "op_tables \<Rightarrow> u8 list list \<Rightarrow> nat \<Rightarrow> nat list \<Rightarrow> nat list \<Rightarrow> u8 list \<Rightarrow> vfs
    \<Rightarrow> (nat option \<times> vfs) option" where
  "resolve_loop T [] cur stack allocs resolved s = do {
     s1 \<leftarrow> resolve_cleanup allocs (Some cur) s;
     Some (Some cur, s1)
   }"
| "resolve_loop T (tok # toks) cur stack allocs resolved s =
     (if tok = DOT then resolve_loop T toks cur stack allocs resolved s
      else if tok = DOTDOT then
        (if length stack > 1 then do {
           resolved' \<leftarrow> up_path resolved;
           resolve_loop T toks (hd (tl stack)) (tl stack) allocs resolved' s
         } else resolve_loop T toks cur stack allocs resolved s)
      else do {
        n \<leftarrow> nodes s cur;
        if \<not> has_flag VFS_FLAG_DIRECTORY n then do { s1 \<leftarrow> resolve_cleanup allocs None s; Some (None, s1) }
        else case down_path resolved tok of
          None \<Rightarrow> do { s1 \<leftarrow> resolve_cleanup allocs None s; Some (None, s1) }
        | Some next_path \<Rightarrow> do {
            (c, allocs', s1) \<leftarrow> resolve_child T cur (hd stack) tok next_path allocs s;
            case c of
              None \<Rightarrow> do { s2 \<leftarrow> resolve_cleanup allocs' None s1; Some (None, s2) }
            | Some p \<Rightarrow> resolve_loop T toks p (if length stack < 64 then p # stack else stack) allocs' next_path s1
          }
      })"

definition vfs_resolve_path :: "op_tables \<Rightarrow> u8 list \<Rightarrow> vfs \<Rightarrow> (nat option \<times> vfs) option" where
  "vfs_resolve_path T path s =
     (case vfs_root s of
        None \<Rightarrow> Some (None, s)
      | Some root \<Rightarrow>
          if path = [] \<or> hd path \<noteq> SLASH then Some (None, s)
          else do {
            temp \<leftarrow> copy_str 256 path;
            resolve_loop T (tokens {SLASH} temp) root [root] [] [SLASH] s
          })"

subsection \<open>Operations on paths and nodes\<close>

definition vfs_open :: "op_tables \<Rightarrow> u8 list \<Rightarrow> vfs \<Rightarrow> (nat option \<times> vfs) option" where
  "vfs_open T path s = do {
     (r, s1) \<leftarrow> vfs_resolve_path T path s;
     case r of
       None \<Rightarrow> Some (None, s1)
     | Some p \<Rightarrow> do {
         n \<leftarrow> nodes s1 p;
         (ok, s2) \<leftarrow> (case node_op T op_open n of None \<Rightarrow> Some (0, s1) | Some f \<Rightarrow> f p s1);
         if ok \<noteq> 0 then do { s3 \<leftarrow> vfs_put (Some p) s2; Some (None, s3) }
         else do { m \<leftarrow> nodes s2 p; Some (Some p, set_node p (Some (m\<lparr>v_refcount := w32 (v_refcount m + 1)\<rparr>)) s2) }
       }
   }"

definition vfs_read :: "op_tables \<Rightarrow> nat option \<Rightarrow> nat \<Rightarrow> nat \<Rightarrow> vfs \<Rightarrow> (int \<times> u8 list \<times> vfs) option" where
  "vfs_read T node off sz s = (case node of
     None \<Rightarrow> Some (-1, [], s)
   | Some p \<Rightarrow> do { n \<leftarrow> nodes s p; case node_op T op_read n of None \<Rightarrow> Some (-1, [], s) | Some f \<Rightarrow> f p off sz s })"

definition vfs_write :: "op_tables \<Rightarrow> nat option \<Rightarrow> nat \<Rightarrow> u8 list \<Rightarrow> vfs \<Rightarrow> (int \<times> vfs) option" where
  "vfs_write T node off buf s = (case node of
     None \<Rightarrow> Some (-1, s)
   | Some p \<Rightarrow> do { n \<leftarrow> nodes s p; case node_op T op_write n of None \<Rightarrow> Some (-1, s) | Some f \<Rightarrow> f p off buf s })"

definition vfs_truncate :: "op_tables \<Rightarrow> nat option \<Rightarrow> nat \<Rightarrow> vfs \<Rightarrow> (int \<times> vfs) option" where
  "vfs_truncate T node sz s = (case node of
     None \<Rightarrow> Some (-1, s)
   | Some p \<Rightarrow> do { n \<leftarrow> nodes s p; case node_op T op_truncate n of None \<Rightarrow> Some (-1, s) | Some f \<Rightarrow> f p sz s })"

definition vfs_remove :: "op_tables \<Rightarrow> (vops \<Rightarrow> (nat \<Rightarrow> u8 list \<Rightarrow> vfs \<Rightarrow> (int \<times> vfs) option) option) \<Rightarrow> u8 list \<Rightarrow> vfs
    \<Rightarrow> (int \<times> vfs) option" where
  "vfs_remove T sel path s =
     (if path = [] \<or> hd path \<noteq> SLASH then Some (-1, s)
      else do {
        (parent_path, nm) \<leftarrow> split_path path;
        (r, s1) \<leftarrow> vfs_open T parent_path s;
        case r of
          None \<Rightarrow> Some (-1, s1)
        | Some d \<Rightarrow> do {
            dn \<leftarrow> nodes s1 d;
            case node_op T sel dn of
              None \<Rightarrow> do { s2 \<leftarrow> vfs_close T (Some d) s1; Some (-1, s2) }
            | Some f \<Rightarrow> do { (res, s2) \<leftarrow> f d nm s1; s3 \<leftarrow> vfs_close T (Some d) s2; Some (res, s3) }
          }
      })"

definition vfs_rmdir :: "op_tables \<Rightarrow> u8 list \<Rightarrow> vfs \<Rightarrow> (int \<times> vfs) option" where
  "vfs_rmdir T = vfs_remove T op_rmdir"

definition vfs_unlink :: "op_tables \<Rightarrow> u8 list \<Rightarrow> vfs \<Rightarrow> (int \<times> vfs) option" where
  "vfs_unlink T = vfs_remove T op_unlink"

text \<open>Creation follows \<^verbatim>\<open>ops\<close> of the directory without testing it: \<open>None\<close> when it is NULL.\<close>

definition vfs_make :: "op_tables \<Rightarrow> (vops \<Rightarrow> (nat \<Rightarrow> u8 list \<Rightarrow> vfs \<Rightarrow> (nat option \<times> vfs) option) option) \<Rightarrow> u8 list \<Rightarrow> vfs
    \<Rightarrow> (nat option \<times> vfs) option" where
  "vfs_make T sel path s = do {
     (parent_path, nm) \<leftarrow> split_path path;
     (r, s1) \<leftarrow> vfs_open T parent_path s;
     case r of
       None \<Rightarrow> Some (None, s1)
     | Some d \<Rightarrow> do {
         dn \<leftarrow> nodes s1 d;
         o1 \<leftarrow> v_ops dn;
         case sel (T o1) of
           None \<Rightarrow> do { s2 \<leftarrow> vfs_close T (Some d) s1; Some (None, s2) }
         | Some f \<Rightarrow> do { (res, s2) \<leftarrow> f d nm s1; s3 \<leftarrow> vfs_close T (Some d) s2; Some (res, s3) }
       }
   }"

definition vfs_create :: "op_tables \<Rightarrow> u8 list \<Rightarrow> vfs \<Rightarrow> (nat option \<times> vfs) option" where
  "vfs_create T = vfs_make T op_create"

definition vfs_mkdir :: "op_tables \<Rightarrow> u8 list \<Rightarrow> vfs \<Rightarrow> (int \<times> vfs) option" where
  "vfs_mkdir T path s = do {
     (r, s1) \<leftarrow> vfs_make T op_mkdir path s;
     Some (if r = None then -1 else 0, s1)
   }"

subsection \<open>Mounting\<close>

text \<open>A registered file system is its name and its mount function, which may return NULL.\<close>

type_synonym fs_types = "(u8 list \<times> (u8 list \<Rightarrow> vfs \<Rightarrow> nat option \<times> vfs)) list"

definition vfs_register_fs :: "u8 list \<times> (u8 list \<Rightarrow> vfs \<Rightarrow> nat option \<times> vfs) \<Rightarrow> fs_types \<Rightarrow> fs_types" where
  "vfs_register_fs fs fss = fs # fss"

definition vfs_init :: "vfs \<Rightarrow> vfs" where
  "vfs_init s = s\<lparr>vfs_root := None, vfs_mounts := []\<rparr>"

definition vfs_create_virtual_mountpoint :: "nat \<Rightarrow> u8 list \<Rightarrow> vfs \<Rightarrow> (nat option \<times> vfs) option" where
  "vfs_create_virtual_mountpoint parent nm s =
     (if nm = [] then Some (None, s)
      else do {
        pn \<leftarrow> nodes s parent;
        if \<not> has_flag VFS_FLAG_DIRECTORY pn then Some (None, s)
        else do {
          nm' \<leftarrow> copy_str 256 nm;
          let p = fresh s;
          let n = \<lparr>v_name = nm', v_inode = 0, v_size = 0, v_flags = VFS_FLAG_DIRECTORY, v_uid = 0, v_gid = 0, v_mode = 0,
                   v_refcount = 1, v_data = None, v_ops = None, v_parent = Some parent, v_children = None,
                   v_next = v_children pn\<rparr>;
          Some (Some p, set_node p (Some n) (set_node parent (Some (pn\<lparr>v_children := Some p\<rparr>)) (s\<lparr>fresh := fresh s + 1\<rparr>)))
        }
      })"

text \<open>The walk along the children of the mounted root.\<close>

partial_function (option) reparent :: "nat \<Rightarrow> nat option \<Rightarrow> vfs \<Rightarrow> vfs option" where
  "reparent mp child s = (case child of
     None \<Rightarrow> Some s
   | Some c \<Rightarrow> (case nodes s c of
       None \<Rightarrow> None
     | Some n \<Rightarrow> reparent mp (v_next n) (set_node c (Some (n\<lparr>v_parent := Some mp\<rparr>)) s)))"

definition vfs_attach_mount :: "nat \<Rightarrow> nat \<Rightarrow> vfs \<Rightarrow> vfs option" where
  "vfs_attach_mount mp root s = do {
     m \<leftarrow> nodes s mp;
     r \<leftarrow> nodes s root;
     let n = r\<lparr>v_name := v_name m, v_parent := v_parent m, v_next := v_next m, v_refcount := v_refcount m\<rparr>;
     reparent mp (v_children n) (set_node mp (Some n) s)
   }"

text \<open>The directory to mount on, made when it does not exist; NULL when it cannot be.\<close>

definition mount_target :: "op_tables \<Rightarrow> u8 list \<Rightarrow> vfs \<Rightarrow> (nat option \<times> vfs) option" where
  "mount_target T path s = do {
     (mp, s1) \<leftarrow> vfs_resolve_path T path s;
     case mp of
       Some m \<Rightarrow> Some (Some m, s1)
     | None \<Rightarrow> do {
         (parent_path, nm) \<leftarrow> split_path path;
         (parent, s2) \<leftarrow> vfs_open T parent_path s1;
         case parent of
           None \<Rightarrow> Some (None, s2)
         | Some d \<Rightarrow> do {
             dn \<leftarrow> nodes s2 d;
             (newdir, s3) \<leftarrow> (case node_op T op_mkdir dn of None \<Rightarrow> Some (None, s2) | Some f \<Rightarrow> f d nm s2);
             (newdir', s4) \<leftarrow> (if newdir = None then vfs_create_virtual_mountpoint d nm s3 else Some (newdir, s3));
             s5 \<leftarrow> vfs_close T (Some d) s4;
             Some (newdir', s5)
           }
       }
   }"

definition mount_at :: "op_tables \<Rightarrow> nat option \<Rightarrow> u8 list \<Rightarrow> vfs \<Rightarrow> (int \<times> vfs) option" where
  "mount_at T root mountpoint s = (case root of
     None \<Rightarrow> Some (-1, s)
   | Some r \<Rightarrow>
       if mountpoint = [SLASH] then Some (0, s\<lparr>vfs_root := Some r\<rparr>)
       else if vfs_root s = None then Some (-1, s)
       else do {
         (mp, s1) \<leftarrow> mount_target T mountpoint s;
         case mp of
           None \<Rightarrow> Some (-1, s1)
         | Some m \<Rightarrow> do {
             mn \<leftarrow> nodes s1 m;
             if \<not> has_flag VFS_FLAG_DIRECTORY mn then Some (-1, s1)
             else do { s2 \<leftarrow> vfs_attach_mount m r s1; s3 \<leftarrow> vfs_register_mount mountpoint m s2; Some (0, s3) }
           }
       })"

definition vfs_mount :: "op_tables \<Rightarrow> fs_types \<Rightarrow> u8 list \<Rightarrow> u8 list \<Rightarrow> u8 list \<Rightarrow> vfs \<Rightarrow> (int \<times> vfs) option" where
  "vfs_mount T fss device mountpoint fs_type s = (case map_of fss fs_type of
     None \<Rightarrow> Some (-3, s)
   | Some mount \<Rightarrow> (case mount device s of (root, s1) \<Rightarrow> mount_at T root mountpoint s1))"

subsection \<open>Tokens and lengths\<close>

definition path_cost :: "u8 list list \<Rightarrow> nat" where
  "path_cost ts = (\<Sum>t\<leftarrow>ts. length t + 1)"

lemma path_cost_simps [simp]: "path_cost [] = 0" "path_cost (t # ts) = length t + 1 + path_cost ts"
  by (simp_all add: path_cost_def)

lemma tokens_cost: "path_cost (tokens D xs) \<le> length xs + 1 \<and> (xs \<noteq> [] \<longrightarrow> hd xs \<in> D \<longrightarrow> path_cost (tokens D xs) \<le> length xs)"
proof (induction D xs rule: tokens.induct)
  case (1 D xs)
  define w where "w = dropWhile (\<lambda>c. c \<in> D) xs"
  show ?case
  proof (cases "w = []")
    case True
    then show ?thesis by (subst (1 2) tokens.simps) (simp add: w_def)
  next
    case False
    define a b where "a = takeWhile (\<lambda>c. c \<notin> D) w" and "b = dropWhile (\<lambda>c. c \<notin> D) w"
    have ab: "length a + length b = length w" unfolding a_def b_def by (metis length_append takeWhile_dropWhile_id)
    have lw: "length w \<le> length xs" "xs \<noteq> [] \<Longrightarrow> hd xs \<in> D \<Longrightarrow> length w < length xs"
      unfolding w_def by (rule length_dropWhile_le) (cases xs; simp add: length_dropWhile_le less_Suc_eq_le)
    have hb: "b \<noteq> [] \<Longrightarrow> hd b \<in> D" unfolding b_def using hd_dropWhile [of "\<lambda>c. c \<notin> D" w] by simp
    have "path_cost (tokens D b) \<le> (if b = [] then 0 else length b)"
    proof (cases "b = []")
      case True
      have "tokens D [] = []" by (subst tokens.simps) simp
      then show ?thesis using True by simp
    next
      case bn: False
      then show ?thesis using "1.IH" [OF w_def False] hb by (simp add: b_def [symmetric])
    qed
    then have "path_cost (tokens D xs) \<le> length w + 1"
      using False ab by (subst tokens.simps) (auto simp: w_def [symmetric] a_def [symmetric] b_def [symmetric] Let_def split: if_splits)
    then show ?thesis using lw by fastforce
  qed
qed

lemma tokens_set: "t \<in> set (tokens D xs) \<Longrightarrow> set t \<subseteq> set xs - D"
proof (induction D xs rule: tokens.induct)
  case (1 D xs)
  define w where "w = dropWhile (\<lambda>c. c \<in> D) xs"
  have sw: "set w \<subseteq> set xs" unfolding w_def by (rule set_dropWhileD [THEN subsetI])
  show ?case
  proof (cases "w = []")
    case True
    then show ?thesis using "1.prems" by (subst (asm) tokens.simps) (simp add: w_def)
  next
    case False
    then have "t = takeWhile (\<lambda>c. c \<notin> D) w \<or> t \<in> set (tokens D (dropWhile (\<lambda>c. c \<notin> D) w))"
      using "1.prems" by (subst (asm) tokens.simps) (simp add: w_def [symmetric] Let_def)
    then show ?thesis
    proof
      assume "t = takeWhile (\<lambda>c. c \<notin> D) w"
      then show ?thesis using sw by (auto dest: set_takeWhileD)
    next
      assume "t \<in> set (tokens D (dropWhile (\<lambda>c. c \<notin> D) w))"
      then show ?thesis using "1.IH" [OF w_def False] sw by (fastforce dest: set_dropWhileD)
    qed
  qed
qed

lemma strrchr_loop_some:
  "0 \<notin> set xs \<Longrightarrow> c \<noteq> 0 \<Longrightarrow> \<exists>r. strrchr_loop (xs @ [0]) c k q = Some r \<and> (\<forall>j. r = Some j \<longrightarrow> q = Some j \<or> k \<le> j \<and> j < k + length xs)"
proof (induction xs arbitrary: k q)
  case (Cons a xs)
  then show ?case
    using Cons.IH [of "k + 1" "if sint a = c then Some k else q"] by (fastforce split: if_splits)
qed simp

definition cost :: "u8 list \<Rightarrow> nat" where
  "cost r = (if length r > 1 then length r else 0)"

lemma up_path_ok:
  assumes "0 \<notin> set r"
  shows "\<exists>r'. up_path r = Some r' \<and> 0 \<notin> set r' \<and> cost r' \<le> cost r \<and> (r \<noteq> [] \<longrightarrow> r' \<noteq> [])"
proof (cases "length r > 1")
  case False
  then show ?thesis using assms by (simp add: up_path_def)
next
  case True
  obtain q where q: "strrchr (r @ [0]) 0x2F = Some q" "\<And>j. q = Some j \<Longrightarrow> j < length r"
    using strrchr_loop_some [OF assms, of "0x2F" 0 None] by (auto simp: strrchr_def)
  let ?r = "case q of None \<Rightarrow> r | Some k \<Rightarrow> if k = 0 then [SLASH] else take k r"
  have "0 \<notin> set ?r" using assms by (auto simp: SLASH_def dest: in_set_takeD split: option.splits)
  moreover have "cost ?r \<le> cost r" using True q(2) by (auto simp: cost_def min_def split: option.splits)
  moreover have "?r \<noteq> []" using True q(2) by (cases q) auto
  ultimately show ?thesis using True q(1) by (auto simp: up_path_def)
qed

lemma down_path_ok:
  assumes "cost r + length t + 1 \<le> 255" "0 \<notin> set r" "0 \<notin> set t" "r \<noteq> []" "t \<noteq> []"
  shows "\<exists>r'. down_path r t = Some r' \<and> 0 \<notin> set r' \<and> r' \<noteq> [] \<and> cost r' \<le> cost r + length t + 1"
  using assms by (auto simp: down_path_def cost_def SLASH_def Let_def split: if_splits)

lemma tokens_nonempty: "t \<in> set (tokens D xs) \<Longrightarrow> t \<noteq> []"
proof (induction D xs rule: tokens.induct)
  case (1 D xs)
  define w where "w = dropWhile (\<lambda>c. c \<in> D) xs"
  show ?case
  proof (cases "w = []")
    case True
    then show ?thesis using "1.prems" by (subst (asm) tokens.simps) (simp add: w_def)
  next
    case False
    have "hd w \<notin> D" using hd_dropWhile [of "\<lambda>c. c \<in> D" xs] False by (simp add: w_def)
    then have "takeWhile (\<lambda>c. c \<notin> D) w \<noteq> []" using False by (cases w) auto
    moreover have "t = takeWhile (\<lambda>c. c \<notin> D) w \<or> t \<in> set (tokens D (dropWhile (\<lambda>c. c \<notin> D) w))"
      using "1.prems" False by (subst (asm) tokens.simps) (simp add: w_def [symmetric] Let_def)
    ultimately show ?thesis using "1.IH" [OF w_def False] by metis
  qed
qed

subsection \<open>The walk that a path describes\<close>

definition is_dir :: "vfs \<Rightarrow> nat \<Rightarrow> bool" where
  "is_dir s p \<longleftrightarrow> (case nodes s p of None \<Rightarrow> False | Some n \<Rightarrow> has_flag VFS_FLAG_DIRECTORY n)"

text \<open>The nodes from the current one up to the root, and the names still to follow.\<close>

fun walk :: "vfs \<Rightarrow> nat list \<Rightarrow> u8 list list \<Rightarrow> nat option" where
  "walk s st [] = Some (hd st)"
| "walk s st (t # ts) =
     (if t = DOT then walk s st ts
      else if t = DOTDOT then walk s (if length st > 1 then tl st else st) ts
      else if \<not> is_dir s (hd st) then None
      else case map_of (listing s (hd st)) t of None \<Rightarrow> None | Some c \<Rightarrow> walk s (c # st) ts)"

definition tmpfs_tree :: "op_tables \<Rightarrow> vfs \<Rightarrow> bool" where
  "tmpfs_tree T s \<longleftrightarrow> tree_ok s \<and> vfs_mounts s = [] \<and> T TMPFS_OPS = tmpfs_ops
     \<and> (\<forall>p n. nodes s p = Some n \<longrightarrow> v_ops n = Some TMPFS_OPS \<and> \<not> has_flag VFS_FLAG_DISKIO n)"

text \<open>Resolution fills in missing parent pointers.\<close>

definition parents_only :: "vfs \<Rightarrow> vfs \<Rightarrow> bool" where
  "parents_only s s' \<longleftrightarrow> (\<forall>p. case nodes s p of None \<Rightarrow> nodes s' p = None | Some n \<Rightarrow> \<exists>q. nodes s' p = Some (n\<lparr>v_parent := q\<rparr>))
     \<and> tfiles s' = tfiles s \<and> tdirs s' = tdirs s \<and> fresh s' = fresh s \<and> caller s' = caller s \<and> vfs_root s' = vfs_root s
     \<and> vfs_mounts s' = vfs_mounts s"

lemma same_parent: "\<exists>q. n = n\<lparr>v_parent := q\<rparr>" for n :: vnode
  by (rule exI [of _ "v_parent n"]) simp

lemma parents_only_refl [simp]: "parents_only s s"
  using same_parent by (auto simp: parents_only_def split: option.splits)

lemma parents_only_node:
  assumes "parents_only s s'"
  shows "nodes s p = Some n \<Longrightarrow> \<exists>q. nodes s' p = Some (n\<lparr>v_parent := q\<rparr>)" "nodes s p = None \<Longrightarrow> nodes s' p = None"
  using assms by (auto simp: parents_only_def dest!: spec [of _ p])

lemma parents_only_trans:
  assumes "parents_only s t" "parents_only t u"
  shows "parents_only s u"
proof -
  have "case nodes s p of None \<Rightarrow> nodes u p = None | Some n \<Rightarrow> \<exists>q. nodes u p = Some (n\<lparr>v_parent := q\<rparr>)" for p
  proof (cases "nodes s p")
    case None
    then show ?thesis using parents_only_node(2) [OF assms(2)] parents_only_node(2) [OF assms(1)] by simp
  next
    case (Some n)
    then obtain q where "nodes t p = Some (n\<lparr>v_parent := q\<rparr>)" using parents_only_node(1) [OF assms(1)] by blast
    then show ?thesis using Some parents_only_node(1) [OF assms(2)] by fastforce
  qed
  then show ?thesis using assms unfolding parents_only_def by simp
qed

lemma parents_only_set:
  "nodes s p = Some n \<Longrightarrow> parents_only s (set_node p (Some (n\<lparr>v_parent := q\<rparr>)) s)"
  using same_parent by (auto simp: parents_only_def split: option.splits)

lemma parents_only_back: "parents_only s s' \<Longrightarrow> nodes s' p = Some n' \<Longrightarrow> \<exists>n q. nodes s p = Some n \<and> n' = n\<lparr>v_parent := q\<rparr>"
  using parents_only_node [of s s' p] by (cases "nodes s p") auto

lemma parents_only_is_dir: "parents_only s s' \<Longrightarrow> is_dir s' p = is_dir s p"
  using parents_only_node [of s s' p] by (cases "nodes s p") (auto simp: is_dir_def has_flag_def)

lemma parents_only_listing:
  assumes "parents_only s s'"
  shows "listing s' p = listing s p"
proof -
  have nm: "v_name (the (nodes s' e)) = v_name (the (nodes s e))" for e
    using parents_only_node [OF assms, of e] by (cases "nodes s e") auto
  have "tdirs s' = tdirs s" using assms by (simp add: parents_only_def)
  then show ?thesis
    using parents_only_node [OF assms, of p] by (cases "nodes s p") (auto simp: listing_def dir_of_def nm split: option.splits)
qed

lemma parents_only_tree:
  assumes "parents_only s s'" "tmpfs_tree T s"
  shows "tmpfs_tree T s'"
proof -
  have f: "tfiles s' = tfiles s" "tdirs s' = tdirs s" "fresh s' = fresh s" "vfs_mounts s' = vfs_mounts s"
    using assms(1) by (simp_all add: parents_only_def)
  have b: "\<exists>n q. nodes s p = Some n \<and> n' = n\<lparr>v_parent := q\<rparr>" if "nodes s' p = Some n'" for p n'
    by (rule parents_only_back [OF assms(1) that])
  have ok: "nodes_ok s" "dirs_ok s" using assms(2) by (simp_all add: tmpfs_tree_def tree_ok_def)
  have "nodes_ok s'"
  proof (rule nodes_okI [OF ok(1)])
    show "node_ok s' p n'" if h: "nodes s' p = Some n'" for p n'
    proof -
      obtain n q where n: "nodes s p = Some n" "n' = n\<lparr>v_parent := q\<rparr>" using b [OF h] by blast
      then show ?thesis using nodes_okD [OF ok(1) n(1)] f by (simp add: node_ok_def has_flag_def)
    qed
    show "\<exists>m. nodes s p = Some m \<and> v_data m = v_data n'" if "nodes s' p = Some n'" for p n' using b [OF that] by auto
  qed
  moreover have "dirs_ok s'"
    by (rule dirs_ok_nodes [OF ok(2)]) (use f parents_only_node(1) [OF assms(1)] in fastforce)+
  moreover have "v_ops n' = Some TMPFS_OPS \<and> \<not> has_flag VFS_FLAG_DISKIO n'" if "nodes s' p = Some n'" for p n'
    using b [OF that] assms(2) by (auto simp: tmpfs_tree_def has_flag_def)
  ultimately show ?thesis using assms(2) f by (simp add: tmpfs_tree_def tree_ok_def)
qed

lemma walk_cong: "(\<And>p. is_dir s' p = is_dir s p) \<Longrightarrow> (\<And>p. listing s' p = listing s p) \<Longrightarrow> walk s' st ts = walk s st ts"
  by (induction ts arbitrary: st) (auto split: option.splits)

lemma resolve_child_ok:
  assumes t: "tmpfs_tree T s" and n: "is_dir s cur"
  shows "\<exists>s'. resolve_child T cur up tok np [] s = Some (map_of (listing s cur) tok, [], s') \<and> parents_only s s'"
proof -
  obtain m where m: "nodes s cur = Some m" "has_flag VFS_FLAG_DIRECTORY m" using n by (auto simp: is_dir_def split: option.splits)
  have ok: "tree_ok s" using t by (simp add: tmpfs_tree_def)
  have fd: "node_op T op_finddir m = Some tmpfs_finddir"
    using t m(1) by (auto simp: node_op_def tmpfs_tree_def tmpfs_ops_def)
  note f = tmpfs_finddir_eq [OF ok m, of tok]
  have mt: "vfs_lookup_mount np s = None" using t by (simp add: vfs_lookup_mount_def tmpfs_tree_def)
  show ?thesis
  proof (cases "map_of (listing s cur) tok")
    case None
    then show ?thesis using fd f mt m by (simp add: resolve_child_def)
  next
    case (Some c)
    then obtain k where k: "nodes s c = Some k" using listing_live [OF ok map_of_SomeD] by blast
    then have "\<not> has_flag VFS_FLAG_DISKIO k" using t by (auto simp: tmpfs_tree_def)
    then show ?thesis using fd f mt m Some k parents_only_set [OF k] by (simp add: resolve_child_def Let_def)
  qed
qed

lemma resolve_loop_ok:
  assumes "tmpfs_tree T s" "length st + length ts \<le> 64" "st \<noteq> []" "hd st = cur" "\<forall>p\<in>set st. nodes s p \<noteq> None"
    "cost r + path_cost ts \<le> 255" "0 \<notin> set r" "r \<noteq> []" "\<forall>t\<in>set ts. 0 \<notin> set t \<and> t \<noteq> []"
  shows "\<exists>s'. resolve_loop T ts cur st [] r s = Some (walk s st ts, s') \<and> parents_only s s'"
  using assms
proof (induction ts arbitrary: s cur st r)
  case Nil
  then show ?case by (auto intro: exI [of _ s])
next
  case (Cons t ts)
  show ?case
  proof (cases "t = DOT \<or> t = DOTDOT")
    case True
    show ?thesis
    proof (cases "t = DOTDOT \<and> length st > 1")
      case False
      then have "walk s st (t # ts) = walk s st ts" "resolve_loop T (t # ts) cur st [] r s = resolve_loop T ts cur st [] r s"
        using True by auto
      then show ?thesis using Cons.IH [OF Cons.prems(1) _ Cons.prems(3-5) _ Cons.prems(7,8)] Cons.prems(2,6,9) by auto
    next
      case up: True
      obtain r' where r': "up_path r = Some r'" "0 \<notin> set r'" "cost r' \<le> cost r" "r' \<noteq> []"
        using up_path_ok [OF Cons.prems(7)] Cons.prems(8) by blast
      have ne: "tl st \<noteq> []" using up by (cases st) auto
      have nd: "t \<noteq> DOT" using up by (auto simp: DOT_def DOTDOT_def)
      have "\<exists>s'. resolve_loop T ts (hd (tl st)) (tl st) [] r' s = Some (walk s (tl st) ts, s') \<and> parents_only s s'"
        using Cons.prems r' ne by (intro Cons.IH) (auto simp: list.set_sel)
      then show ?thesis using up r'(1) nd by simp
    qed
  next
    case False
    have cl: "nodes s cur \<noteq> None" using Cons.prems(3,4,5) by (cases st) auto
    then obtain n where n: "nodes s cur = Some n" by blast
    show ?thesis
    proof (cases "is_dir s cur")
      case False
      then have "\<not> has_flag VFS_FLAG_DIRECTORY n" using n by (simp add: is_dir_def)
      then show ?thesis using False \<open>\<not> (t = DOT \<or> t = DOTDOT)\<close> n Cons.prems(4) by (auto intro: exI [of _ s])
    next
      case dir: True
      then have fl: "has_flag VFS_FLAG_DIRECTORY n" using n by (simp add: is_dir_def)
      have tok: "0 \<notin> set t" "t \<noteq> []" using Cons.prems(9) by auto
      obtain np where np: "down_path r t = Some np" "0 \<notin> set np" "np \<noteq> []" "cost np \<le> cost r + length t + 1"
        using down_path_ok [of r t] Cons.prems(6,7,8) tok by auto
      obtain s1 where s1: "resolve_child T cur (hd st) t np [] s = Some (map_of (listing s cur) t, [], s1)" "parents_only s s1"
        using resolve_child_ok [OF Cons.prems(1) dir] by blast
      have st: "walk s1 st' ts = walk s st' ts" for st'
        by (rule walk_cong) (simp_all add: parents_only_is_dir [OF s1(2)] parents_only_listing [OF s1(2)])
      show ?thesis
      proof (cases "map_of (listing s cur) t")
        case None
        then show ?thesis using False n fl np(1) s1 dir Cons.prems(4) by (auto intro: exI [of _ s1])
      next
        case (Some c)
        have "tree_ok s" using Cons.prems(1) by (simp add: tmpfs_tree_def)
        then have c: "nodes s c \<noteq> None" using listing_live [OF _ map_of_SomeD [OF Some]] by auto
        have "\<exists>s'. resolve_loop T ts c (c # st) [] np s1 = Some (walk s1 (c # st) ts, s') \<and> parents_only s1 s'"
        proof (rule Cons.IH [OF parents_only_tree [OF s1(2) Cons.prems(1)]])
          show "length (c # st) + length ts \<le> 64" "c # st \<noteq> []" "hd (c # st) = c" "0 \<notin> set np" "np \<noteq> []"
            "\<forall>t\<in>set ts. 0 \<notin> set t \<and> t \<noteq> []" using Cons.prems(2,9) np(2,3) by simp_all
          show "cost np + path_cost ts \<le> 255" using np(4) Cons.prems(6) by simp
          show "\<forall>p\<in>set (c # st). nodes s1 p \<noteq> None"
          proof
            fix p assume "p \<in> set (c # st)"
            then have "nodes s p \<noteq> None" using c Cons.prems(5) by auto
            then show "nodes s1 p \<noteq> None" using parents_only_node(1) [OF s1(2)] by auto
          qed
        qed
        then obtain s' where "resolve_loop T ts c (c # st) [] np s1 = Some (walk s (c # st) ts, s')" "parents_only s1 s'"
          unfolding st by blast
        moreover have "length st < 64" using Cons.prems(2) by simp
        ultimately show ?thesis
          using False n fl np(1) s1 dir Some Cons.prems(4) parents_only_trans [OF s1(2)] by auto
      qed
    qed
  qed
qed

definition path_ok :: "u8 list \<Rightarrow> bool" where
  "path_ok path \<longleftrightarrow> path \<noteq> [] \<and> hd path = SLASH \<and> 0 \<notin> set path \<and> length path < 256 \<and> length (tokens {SLASH} path) \<le> 63"

lemma vfs_resolve_ok:
  assumes t: "tmpfs_tree T s" and r: "vfs_root s = Some root" "nodes s root \<noteq> None" and p: "path_ok path"
  shows "\<exists>s'. vfs_resolve_path T path s = Some (walk s [root] (tokens {SLASH} path), s') \<and> parents_only s s'"
proof -
  have c: "copy_str 256 path = Some path" using p by (simp add: path_ok_def copy_str_eq)
  have "path_cost (tokens {SLASH} path) \<le> 255" using tokens_cost [of "{SLASH}" path] p by (simp add: path_ok_def)
  moreover have "cost [SLASH] = 0" by (simp add: cost_def)
  moreover have "\<forall>t\<in>set (tokens {SLASH} path). 0 \<notin> set t \<and> t \<noteq> []"
    using tokens_set [of _ "{SLASH}" path] tokens_nonempty [of _ "{SLASH}" path] p unfolding path_ok_def by blast
  ultimately have "\<exists>s'. resolve_loop T (tokens {SLASH} path) root [root] [] [SLASH] s = Some (walk s [root] (tokens {SLASH} path), s') \<and> parents_only s s'"
    using p r(2) by (intro resolve_loop_ok [OF t]) (simp_all add: path_ok_def SLASH_def)
  then show ?thesis using r(1) p c by (simp add: vfs_resolve_path_def path_ok_def)
qed

text \<open>
  C28. Resolving an absolute path in a tmpfs tree gives the node that the names lead to one after
  the other, with \<^verbatim>\<open>.\<close> skipped and \<^verbatim>\<open>..\<close> going back the way it came and staying at the root, and NULL when
  a name is missing or a step leads through something that is not a directory. It always returns, and changes
  nothing but parent pointers that were NULL. The path has at most 63 names; the 64 entries of the stack
  hold no more.
\<close>

theorem vfs_resolve_spec:
  assumes "tmpfs_tree T s" "vfs_root s = Some root" "nodes s root \<noteq> None" "path_ok path"
  shows "\<exists>s'. vfs_resolve_path T path s = Some (walk s [root] (tokens {SLASH} path), s') \<and> parents_only s s'"
  by (rule vfs_resolve_ok [OF assms])

definition demo_T :: op_tables where "demo_T = (\<lambda>_. tmpfs_ops)"

definition demo_tree :: vfs where "demo_tree = demo_fs\<lparr>vfs_root := Some 1\<rparr>"

lemma demo_tree_ok: "tmpfs_tree demo_T demo_tree" "vfs_root demo_tree = Some 1" "nodes demo_tree 1 \<noteq> None" "is_dir demo_tree 1"
  "listing demo_tree 1 = []"
proof -
  have "tree_ok demo_fs" by (rule tmpfs_reach_ok [OF demo_root(1)])
  then have "tree_ok demo_tree" by (simp add: demo_tree_def tree_ok_def nodes_ok_def dirs_ok_def node_ok_def)
  then show "tmpfs_tree demo_T demo_tree"
    by (auto simp: tmpfs_tree_def demo_T_def demo_tree_def demo_fs_def tmpfs_mount_def empty_vfs_def has_flag_def vfs_flag_defs Let_def
        split: if_splits)
  show "vfs_root demo_tree = Some 1" by (simp add: demo_tree_def)
  obtain n where "nodes demo_fs 1 = Some n" "has_flag VFS_FLAG_DIRECTORY n" using demo_root(2) by blast
  then show "nodes demo_tree 1 \<noteq> None" "is_dir demo_tree 1" by (simp_all add: demo_tree_def is_dir_def)
  show "listing demo_tree 1 = []" using demo_root(3) by (auto simp: demo_tree_def listing_def dir_of_def split: option.splits)
qed

lemma vfs_resolve_spec_witness:
  "(\<exists>s'. vfs_resolve_path demo_T [0x2F, 0x2E, 0x2F, 0x2E, 0x2E] demo_tree = Some (Some 1, s'))
   \<and> (\<exists>s'. vfs_resolve_path demo_T [0x2F, 0x61] demo_tree = Some (None, s'))"
proof
  have t: "tokens {SLASH} [0x2F, 0x2E, 0x2F, 0x2E, 0x2E] = [DOT, DOTDOT]" "tokens {SLASH} [0x2F, 0x61] = [[0x61]]"
    by (simp_all add: tokens.simps SLASH_def DOT_def DOTDOT_def)
  have p: "path_ok [0x2F, 0x2E, 0x2F, 0x2E, 0x2E]" "path_ok [0x2F, 0x61]" unfolding path_ok_def t by (simp_all add: SLASH_def)
  have w: "walk demo_tree [1] [DOT, DOTDOT] = Some 1" "walk demo_tree [1] [[0x61]] = None"
    using demo_tree_ok(4,5) by (simp_all add: DOT_def DOTDOT_def)
  show "\<exists>s'. vfs_resolve_path demo_T [0x2F, 0x2E, 0x2F, 0x2E, 0x2E] demo_tree = Some (Some 1, s')"
    using vfs_resolve_spec [OF demo_tree_ok(1-3) p(1)] unfolding t w by blast
  show "\<exists>s'. vfs_resolve_path demo_T [0x2F, 0x61] demo_tree = Some (None, s')"
    using vfs_resolve_spec [OF demo_tree_ok(1-3) p(2)] unfolding t w by blast
qed

subsection \<open>Splitting a path\<close>

lemma tokens_skip1: "c \<in> D \<Longrightarrow> tokens D (c # xs) = tokens D xs"
  by (subst (1 2) tokens.simps) simp

lemma tokens_word:
  assumes "w \<noteq> []" "set w \<inter> D = {}"
  shows "tokens D w = [w]"
proof -
  have 1: "dropWhile (\<lambda>c. c \<in> D) w = w" using assms by (cases w) auto
  have 2: "takeWhile (\<lambda>c. c \<notin> D) w = w" "dropWhile (\<lambda>c. c \<notin> D) w = []"
    using assms(2) by (auto simp: takeWhile_eq_all_conv dropWhile_eq_Nil_conv)
  show ?thesis by (subst tokens.simps) (simp only: 1 2 Let_def assms(1) if_False tokens_Nil)
qed

lemma tokens_append: "c \<in> D \<Longrightarrow> tokens D (xs @ c # ys) = tokens D xs @ tokens D ys"
proof (induction D xs rule: tokens.induct)
  case (1 D xs)
  define w where "w = dropWhile (\<lambda>c. c \<in> D) xs"
  show ?case
  proof (cases "w = []")
    case True
    then have all: "\<forall>x\<in>set xs. x \<in> D" by (simp add: w_def)
    have "tokens D (zs @ c # ys) = tokens D ys" if "\<forall>x\<in>set zs. x \<in> D" for zs
      using that "1.prems" by (induction zs) (simp_all add: tokens_skip1)
    moreover have "tokens D xs = []" using True by (subst tokens.simps) (simp add: w_def)
    ultimately show ?thesis using all by simp
  next
    case False
    define a b where "a = takeWhile (\<lambda>c. c \<notin> D) w" and "b = dropWhile (\<lambda>c. c \<notin> D) w"
    have dw: "dropWhile (\<lambda>c. c \<in> D) (xs @ c # ys) = w @ c # ys"
      using False unfolding w_def by (induction xs) auto
    have tw: "takeWhile (\<lambda>c. c \<notin> D) (w @ c # ys) = a \<and> dropWhile (\<lambda>c. c \<notin> D) (w @ c # ys) = b @ c # ys"
      using "1.prems" unfolding a_def b_def by (induction w) auto
    have "tokens D xs = a # tokens D b" using False by (subst tokens.simps) (simp add: w_def [symmetric] a_def b_def Let_def)
    moreover have "tokens D (xs @ c # ys) = a # tokens D (b @ c # ys)"
      using tw by (subst tokens.simps) (simp add: dw Let_def)
    ultimately show ?thesis using "1.IH" [OF w_def False "1.prems"] by (simp add: b_def)
  qed
qed

lemma strrchr_loop_last:
  "0 \<notin> set nm \<Longrightarrow> SLASH \<notin> set nm \<Longrightarrow> strrchr_loop (nm @ [0]) 0x2F k q = Some q"
proof (induction nm arbitrary: k q)
  case (Cons a nm)
  have "sint a \<noteq> 0x2F"
  proof
    assume "sint a = 0x2F"
    then have "sint a = sint SLASH" by (simp add: SLASH_def)
    then have "a = SLASH" by (simp only: signed_word_eqI)
    then show False using Cons.prems by simp
  qed
  then show ?case using Cons by simp
qed simp

lemma strrchr_slash:
  "0 \<notin> set pp \<Longrightarrow> 0 \<notin> set nm \<Longrightarrow> SLASH \<notin> set nm \<Longrightarrow>
   strrchr_loop (pp @ SLASH # nm @ [0]) 0x2F k q = Some (Some (k + length pp))"
proof (induction pp arbitrary: k q)
  case Nil
  then show ?case using strrchr_loop_last [of nm] by (simp add: SLASH_def)
next
  case (Cons a pp)
  then show ?case by auto
qed

lemma split_path_ok:
  assumes "path = pp @ SLASH # nm" "0 \<notin> set path" "length path < 256" "SLASH \<notin> set nm"
  shows "split_path path = Some (if pp = [] then [SLASH] else pp, nm)"
proof -
  have c: "copy_str 256 path = Some path" using assms by (simp add: copy_str_eq)
  have "strrchr (path @ [0]) 0x2F = Some (Some (length pp))"
    using strrchr_slash [of pp nm 0 None] assms by (simp add: strrchr_def)
  then show ?thesis using c assms(1) by (simp add: split_path_def)
qed

lemma tokens_split:
  assumes "nm \<noteq> []" "SLASH \<notin> set nm"
  shows "tokens {SLASH} (pp @ SLASH # nm) = tokens {SLASH} (if pp = [] then [SLASH] else pp) @ [nm]"
proof -
  have "tokens {SLASH} nm = [nm]" using assms by (intro tokens_word) auto
  moreover have "tokens {SLASH} [SLASH] = []" by (simp add: tokens_skip1 tokens_Nil)
  ultimately show ?thesis by (simp add: tokens_append tokens_Nil)
qed

subsection \<open>Creating a file\<close>

lemma walk_live:
  assumes "tree_ok s"
  shows "walk s st ts = Some d \<Longrightarrow> st \<noteq> [] \<Longrightarrow> \<forall>p\<in>set st. nodes s p \<noteq> None \<Longrightarrow> nodes s d \<noteq> None"
proof (induction ts arbitrary: st)
  case Nil
  then show ?case by (cases st) auto
next
  case (Cons t ts)
  show ?case
  proof (cases "t = DOT \<or> t = DOTDOT")
    case True
    let ?st = "if t = DOTDOT \<and> length st > 1 then tl st else st"
    have "walk s ?st ts = Some d" using Cons.prems(1) True by (auto simp: DOT_def DOTDOT_def split: if_splits)
    moreover have "?st \<noteq> []" "\<forall>p\<in>set ?st. nodes s p \<noteq> None" using Cons.prems(2,3) by (cases st; auto)+
    ultimately show ?thesis by (rule Cons.IH)
  next
    case False
    then obtain c where c: "map_of (listing s (hd st)) t = Some c" "walk s (c # st) ts = Some d"
      using Cons.prems(1) by (auto split: if_splits option.splits)
    have "nodes s c \<noteq> None" using listing_live [OF assms map_of_SomeD [OF c(1)]] by auto
    then show ?thesis using Cons.IH [OF c(2)] Cons.prems(3) by simp
  qed
qed

lemma walk_made:
  assumes ok: "tree_ok s" and c: "nodes s c = None" and none: "map_of (listing s d) nm = None"
    and l: "listing s' d = (nm, c) # listing s d" "\<And>x. x \<noteq> d \<Longrightarrow> x \<noteq> c \<Longrightarrow> listing s' x = listing s x"
    and dir: "\<And>x. x \<noteq> c \<Longrightarrow> is_dir s' x = is_dir s x" and nm: "nm \<noteq> DOT" "nm \<noteq> DOTDOT" and d: "is_dir s d"
  shows "walk s st ts = Some x \<Longrightarrow> st \<noteq> [] \<Longrightarrow> \<forall>p\<in>set st. nodes s p \<noteq> None \<Longrightarrow>
    walk s' st ts = Some x \<and> (x = d \<longrightarrow> walk s' st (ts @ [nm]) = Some c)"
proof (induction ts arbitrary: st)
  case Nil
  have "d \<noteq> c" using c d by (auto simp: is_dir_def)
  then show ?case using Nil l(1) nm dir [of d] d by auto
next
  case (Cons t ts)
  show ?case
  proof (cases "t = DOT \<or> t = DOTDOT")
    case True
    let ?st = "if t = DOTDOT \<and> length st > 1 then tl st else st"
    have w: "walk u st (t # us) = walk u ?st us" for u us using True by (auto simp: DOT_def DOTDOT_def)
    have "?st \<noteq> []" "\<forall>p\<in>set ?st. nodes s p \<noteq> None" using Cons.prems(2,3) by (cases st; auto)+
    then show ?thesis using Cons.IH [of ?st] Cons.prems(1) unfolding w append_Cons by blast
  next
    case False
    then obtain e where e: "is_dir s (hd st)" "map_of (listing s (hd st)) t = Some e" "walk s (e # st) ts = Some x"
      using Cons.prems(1) by (auto split: if_splits option.splits)
    have hs: "hd st \<noteq> c" using Cons.prems(2,3) c by (cases st) auto
    have "map_of (listing s' (hd st)) t = Some e"
      using e(2) l hs none by (cases "hd st = d") auto
    moreover have "is_dir s' (hd st)" using dir [OF hs] e(1) by simp
    ultimately have w: "walk s' st (t # us) = walk s' (e # st) us" for us using False by simp
    have "nodes s e \<noteq> None" using listing_live [OF ok map_of_SomeD [OF e(2)]] by auto
    then show ?thesis using Cons.IH [OF e(3)] Cons.prems(3) unfolding w append_Cons by simp
  qed
qed

lemma set_count:
  fixes k :: nat
  assumes "tmpfs_tree T s" "nodes s p = Some n"
  shows "tmpfs_tree T (set_node p (Some (n\<lparr>v_refcount := k\<rparr>)) s)"
    "listing (set_node p (Some (n\<lparr>v_refcount := k\<rparr>)) s) q = listing s q"
    "is_dir (set_node p (Some (n\<lparr>v_refcount := k\<rparr>)) s) q = is_dir s q"
proof -
  define s' where s'_def: "s' = set_node p (Some (n\<lparr>v_refcount := k\<rparr>)) s"
  have "tree_ok s'" using assms(1,2) unfolding s'_def by (intro tree_ok_node [of s p n]) (simp_all add: tmpfs_tree_def)
  then show "tmpfs_tree T (set_node p (Some (n\<lparr>v_refcount := k\<rparr>)) s)" using assms(1,2) unfolding s'_def
    by (auto simp: tmpfs_tree_def has_flag_def)
  have "v_name (the (nodes s' e)) = v_name (the (nodes s e))" for e using assms(2) by (simp add: s'_def)
  then show "listing (set_node p (Some (n\<lparr>v_refcount := k\<rparr>)) s) q = listing s q"
    unfolding s'_def [symmetric] using assms(2) by (auto simp: s'_def listing_def dir_of_def split: option.splits)
  show "is_dir (set_node p (Some (n\<lparr>v_refcount := k\<rparr>)) s) q = is_dir s q" using assms(2) by (simp add: is_dir_def has_flag_def)
qed

definition kept :: "vfs \<Rightarrow> vfs \<Rightarrow> nat \<Rightarrow> bool" where
  "kept s s' p \<longleftrightarrow> (\<forall>n. nodes s p = Some n \<longrightarrow> (\<exists>q. nodes s' p = Some (n\<lparr>v_parent := q\<rparr>)))"

definition same_env :: "vfs \<Rightarrow> vfs \<Rightarrow> bool" where
  "same_env s s' \<longleftrightarrow> vfs_root s' = vfs_root s \<and> caller s' = caller s \<and> vfs_mounts s' = vfs_mounts s"

lemma vfs_open_ok:
  assumes t: "tmpfs_tree T s" and r: "vfs_root s = Some root" "nodes s root \<noteq> None" and p: "path_ok path"
    and w: "walk s [root] (tokens {SLASH} path) = Some d"
  shows "\<exists>s' n. vfs_open T path s = Some (Some d, set_node d (Some (n\<lparr>v_refcount := w32 (v_refcount n + 1)\<rparr>)) s')
    \<and> nodes s' d = Some n \<and> parents_only s s'"
proof -
  obtain s1 where s1: "vfs_resolve_path T path s = Some (Some d, s1)" "parents_only s s1"
    using vfs_resolve_ok [OF t r p] w by auto
  have "nodes s d \<noteq> None" using walk_live [OF _ w] t r(2) by (simp add: tmpfs_tree_def)
  then obtain n where n: "nodes s1 d = Some n" using parents_only_node(1) [OF s1(2)] by blast
  have "v_ops n = Some TMPFS_OPS" "T TMPFS_OPS = tmpfs_ops"
    using parents_only_tree [OF s1(2) t] n by (auto simp: tmpfs_tree_def)
  then have "node_op T op_open n = Some (\<lambda>p s. Some (tmpfs_open p s))" by (simp add: node_op_def tmpfs_ops_def)
  then show ?thesis using s1 n by (intro exI [of _ s1] exI [of _ n]) (simp add: vfs_open_def tmpfs_open_def)
qed

lemma vfs_close_ok:
  assumes t: "tmpfs_tree T s" and n: "nodes s p = Some n"
  shows "vfs_close T (Some p) s = Some (set_node p (Some (n\<lparr>v_refcount := v_refcount n - 1\<rparr>)) s)"
proof -
  have "v_ops n = Some TMPFS_OPS" "T TMPFS_OPS = tmpfs_ops" "\<not> has_flag VFS_FLAG_DISKIO n" using t n by (auto simp: tmpfs_tree_def)
  then have c: "vfs_close T (Some p) s = Some (set_node p (Some (if v_refcount n > 0 then n\<lparr>v_refcount := v_refcount n - 1\<rparr> else n)) s)"
    using n by (simp add: vfs_close_def node_op_def tmpfs_ops_def tmpfs_close_def has_flag_def Let_def)
  have "n\<lparr>v_refcount := v_refcount n - 1\<rparr> = n" if "\<not> v_refcount n > 0" using that by (cases n) simp
  then have "(if v_refcount n > 0 then n\<lparr>v_refcount := v_refcount n - 1\<rparr> else n) = n\<lparr>v_refcount := v_refcount n - 1\<rparr>"
    by presburger
  then show ?thesis unfolding c by (rule arg_cong)
qed

lemma create_env:
  assumes "tmpfs_create_file p nm s = Some (r, s')"
  shows "same_env s s'" "nodes s q = None \<Longrightarrow> nodes s' q = Some n \<Longrightarrow> v_ops n = Some TMPFS_OPS \<and> v_flags n = VFS_FLAG_FILE"
  using assms by (auto simp: tmpfs_create_file_def same_env_def new_tnode_def Let_def split: bind_splits if_splits)

lemma vfs_create_ok:
  assumes t: "tmpfs_tree T s" and r: "vfs_root s = Some root" "nodes s root \<noteq> None"
    and path: "path = pp @ SLASH # nm" "path_ok path" "SLASH \<notin> set nm" "nm \<noteq> []" "nm \<noteq> DOT" "nm \<noteq> DOTDOT"
    and pp': "pp' = (if pp = [] then [SLASH] else pp)" "path_ok pp'"
    and w: "walk s [root] (tokens {SLASH} pp') = Some d" and d: "nodes s d = Some dn" "has_flag VFS_FLAG_DIRECTORY dn" "v_refcount dn + 1 < 2 ^ 32"
    and none: "map_of (listing s d) nm = None"
  shows "\<exists>c s' n. vfs_create T path s = Some (Some c, s') \<and> tmpfs_tree T s' \<and> same_env s s' \<and> nodes s c = None \<and> nodes s' c = Some n
    \<and> has_flag VFS_FLAG_FILE n \<and> v_refcount n = 1 \<and> file_data s' c = Some [] \<and> listing s' d = (nm, c) # listing s d
    \<and> (\<forall>x. x \<noteq> c \<longrightarrow> kept s s' x) \<and> walk s' [root] (tokens {SLASH} path) = Some c \<and> walk s' [root] (tokens {SLASH} pp') = Some d"
proof -
  have sp: "split_path path = Some (pp', nm)"
    using split_path_ok [OF path(1)] path(2,3) pp'(1) by (simp add: path_ok_def)
  obtain s1 n1 where s1: "vfs_open T pp' s = Some (Some d, set_node d (Some (n1\<lparr>v_refcount := w32 (v_refcount n1 + 1)\<rparr>)) s1)"
    "nodes s1 d = Some n1" "parents_only s s1"
    using vfs_open_ok [OF t r pp'(2) w] by blast
  note t1 = parents_only_tree [OF s1(3) t]
  let ?n2 = "n1\<lparr>v_refcount := w32 (v_refcount n1 + 1)\<rparr>"
  let ?s2 = "set_node d (Some ?n2) s1"
  note t2 = set_count [OF t1 s1(2), of "w32 (v_refcount n1 + 1)"]
  obtain q where q: "n1 = dn\<lparr>v_parent := q\<rparr>" using parents_only_node(1) [OF s1(3) d(1)] s1(2) by auto
  have n2: "nodes ?s2 d = Some ?n2" "has_flag VFS_FLAG_DIRECTORY ?n2" using d(2) q by (simp_all add: has_flag_def)
  have "set nm \<subseteq> set path" "length nm < length path" using path(1) by auto
  then have nk: "name_ok nm" using path(2) by (auto simp: name_ok_def path_ok_def)
  have ok2: "tree_ok ?s2" using t2(1) by (simp add: tmpfs_tree_def)
  obtain c s3 n where c: "tmpfs_create_file d nm ?s2 = Some (Some c, s3)" "made ?s2 d nm c s3" "file_data s3 c = Some []"
    "nodes s3 c = Some n" "has_flag VFS_FLAG_FILE n" "v_refcount n = 1"
    using tmpfs_create_file_ok [OF ok2 n2 nk] by blast
  have cd: "c \<noteq> d" using c(2) n2(1) by (auto simp: made_def)
  have same3: "nodes s3 x = nodes ?s2 x" if "x \<noteq> c" for x using c(2) that by (simp add: made_def same_files_def)
  note env3 = create_env [OF c(1)]
  have c2: "nodes ?s2 c = None" using c(2) by (simp add: made_def)
  have t3: "tmpfs_tree T s3"
    unfolding tmpfs_tree_def
  proof (intro conjI allI impI)
    show "tree_ok s3" using c(2) by (simp add: made_def)
    show "vfs_mounts s3 = []" "T TMPFS_OPS = tmpfs_ops" using env3(1) t2(1) by (simp_all add: tmpfs_tree_def same_env_def)
    fix p m assume m: "nodes s3 p = Some m"
    show "v_ops m = Some TMPFS_OPS" "\<not> has_flag VFS_FLAG_DISKIO m"
      using m t2(1) same3 [of p] env3(2) [OF c2, of m] unfolding tmpfs_tree_def
      by (cases "p = c"; fastforce simp: has_flag_def vfs_flag_defs)+
  qed
  have n3: "nodes s3 d = Some ?n2" using same3 [of d] cd by simp
  let ?s4 = "set_node d (Some (?n2\<lparr>v_refcount := v_refcount ?n2 - 1\<rparr>)) s3"
  note cl = vfs_close_ok [OF t3 n3]
  note t4 = set_count [OF t3 n3, of "v_refcount ?n2 - 1"]
  have ops: "v_ops ?n2 = Some TMPFS_OPS" "T TMPFS_OPS = tmpfs_ops" using t1 s1(2) by (auto simp: tmpfs_tree_def)
  have cr: "vfs_create T path s = Some (Some c, ?s4)"
    using sp s1(1) ops c(1) cl by (simp add: vfs_create_def vfs_make_def tmpfs_ops_def)
  have "v_refcount ?n2 - 1 = v_refcount dn" using d(3) q by (simp add: w32_id)
  then have n4: "?n2\<lparr>v_refcount := v_refcount ?n2 - 1\<rparr> = dn\<lparr>v_parent := q\<rparr>" using q by simp
  have kept: "kept s ?s4 x" if "x \<noteq> c" for x
    using that n4 d(1) same3 [OF that] parents_only_node(1) [OF s1(3), of x] by (auto simp: kept_def)
  have l4: "listing ?s4 x = listing s3 x" for x by (rule t4(2))
  have lx: "listing ?s2 x = listing s x" for x unfolding t2(2) by (rule parents_only_listing [OF s1(3)])
  have cs: "nodes s c = None" using c2 parents_only_node(1) [OF s1(3), of c] cd by (cases "nodes s c") auto
  have ls: "listing ?s4 d = (nm, c) # listing s d" "x \<noteq> d \<Longrightarrow> x \<noteq> c \<Longrightarrow> listing ?s4 x = listing s x" for x
    using c(2) unfolding l4 made_def lx by auto
  have dir: "is_dir ?s4 x = is_dir s x" if "x \<noteq> c" for x
  proof -
    have "is_dir ?s4 x = is_dir ?s2 x" unfolding t4(3) using same3 [OF that] by (simp add: is_dir_def)
    then show ?thesis unfolding t2(3) using parents_only_is_dir [OF s1(3)] by simp
  qed
  have tk: "tokens {SLASH} path = tokens {SLASH} pp' @ [nm]" unfolding path(1) pp'(1) by (rule tokens_split [OF path(4,3)])
  have ok: "tree_ok s" using t by (simp add: tmpfs_tree_def)
  have isd: "is_dir s d" using d by (simp add: is_dir_def)
  from walk_made [OF ok cs none ls dir path(5,6) isd w] r(2)
  have "walk ?s4 [root] (tokens {SLASH} pp') = Some d" "walk ?s4 [root] (tokens {SLASH} path) = Some c" unfolding tk by simp_all
  moreover have "same_env s ?s4" using env3(1) s1(3) by (simp add: same_env_def parents_only_def)
  moreover have "nodes ?s4 c = Some n" using c(4) cd by simp
  moreover have "file_data ?s4 c = Some []" using c(3) cd by (simp add: file_data_def file_of_def)
  ultimately show ?thesis using cr t4(1) cs c(5,6) ls(1) kept by blast
qed

text \<open>
  C29. Creating a file at a path whose directory exists and does not have the name gives a new, empty
  file that the path resolves to from then on; the directory gets its entry in front, and every other
  node stays as it is, reference counts included.
\<close>

theorem vfs_create_roundtrip:
  assumes "tmpfs_tree T s" "vfs_root s = Some root" "nodes s root \<noteq> None"
    and "path = pp @ SLASH # nm" "path_ok path" "SLASH \<notin> set nm" "nm \<noteq> []" "nm \<noteq> DOT" "nm \<noteq> DOTDOT"
    and "pp' = (if pp = [] then [SLASH] else pp)" "path_ok pp'"
    and "walk s [root] (tokens {SLASH} pp') = Some d" "nodes s d = Some dn" "has_flag VFS_FLAG_DIRECTORY dn" "v_refcount dn + 1 < 2 ^ 32"
    and "map_of (listing s d) nm = None"
  shows "\<exists>c s' s''. vfs_create T path s = Some (Some c, s') \<and> nodes s c = None \<and> file_data s' c = Some []
    \<and> listing s' d = (nm, c) # listing s d \<and> (\<forall>x. x \<noteq> c \<longrightarrow> kept s s' x)
    \<and> vfs_resolve_path T path s' = Some (Some c, s'')"
proof -
  obtain c s' where c: "vfs_create T path s = Some (Some c, s')" "tmpfs_tree T s'" "same_env s s'" "nodes s c = None"
    "file_data s' c = Some []" "listing s' d = (nm, c) # listing s d" "\<forall>x. x \<noteq> c \<longrightarrow> kept s s' x"
    "walk s' [root] (tokens {SLASH} path) = Some c"
    using vfs_create_ok [OF assms] by blast
  have "root \<noteq> c" using assms(3) c(4) by auto
  then have "nodes s' root \<noteq> None" using c(7) assms(3) by (auto simp: kept_def)
  moreover have "vfs_root s' = Some root" using c(3) assms(2) by (simp add: same_env_def)
  ultimately show ?thesis using vfs_resolve_ok [OF c(2) _ _ assms(5)] c by auto
qed

lemma vfs_create_roundtrip_witness:
  "\<exists>c s' s''. vfs_create demo_T [0x2F, 0x61] demo_tree = Some (Some c, s') \<and> listing s' 1 = [([0x61], c)]
     \<and> vfs_resolve_path demo_T [0x2F, 0x61] s' = Some (Some c, s'')"
proof -
  obtain dn where dn: "nodes demo_tree 1 = Some dn" "has_flag VFS_FLAG_DIRECTORY dn" "v_refcount dn = 1"
    by (auto simp: demo_tree_def demo_fs_def tmpfs_mount_def empty_vfs_def has_flag_def vfs_flag_defs Let_def)
  have p: "path_ok [0x2F, 0x61]" "path_ok [SLASH]"
    by (simp_all add: path_ok_def SLASH_def tokens.simps)
  have w: "walk demo_tree [1] (tokens {SLASH} [SLASH]) = Some 1" by (simp add: tokens_skip1 tokens_Nil)
  have "\<exists>c s' s''. vfs_create demo_T [0x2F, 0x61] demo_tree = Some (Some c, s') \<and> nodes demo_tree c = None \<and> file_data s' c = Some []
    \<and> listing s' 1 = ([0x61], c) # listing demo_tree 1 \<and> (\<forall>x. x \<noteq> c \<longrightarrow> kept demo_tree s' x)
    \<and> vfs_resolve_path demo_T [0x2F, 0x61] s' = Some (Some c, s'')"
    by (rule vfs_create_roundtrip [OF demo_tree_ok(1-3) _ p(1) _ _ _ _ _ p(2) w dn(1,2), of "[]"])
      (simp_all add: SLASH_def DOT_def DOTDOT_def dn(3) demo_tree_ok(5) [unfolded One_nat_def])
  then show ?thesis using demo_tree_ok(5) by auto
qed

end
