(* ===== verification/Files.thy ===== *)
theory Files
  imports Vfs
begin

text \<open>
  File descriptors and the system calls on files: \<^verbatim>\<open>kernel/filesystem/user_fs/user_fs.c\<close> and, of
  \<^verbatim>\<open>kernel/syscall/syscall.c\<close>, \<^verbatim>\<open>build_abs_path\<close>, \<^verbatim>\<open>sys_open\<close>, \<^verbatim>\<open>sys_close\<close>, \<^verbatim>\<open>sys_dup\<close>, \<^verbatim>\<open>sys_read\<close>,
  \<^verbatim>\<open>sys_write\<close>, \<^verbatim>\<open>sys_lseek\<close>, \<^verbatim>\<open>sys_mkdir\<close>, \<^verbatim>\<open>sys_unlink\<close>, \<^verbatim>\<open>sys_rmdir\<close>, with what \<^verbatim>\<open>task_fork\<close> and \<^verbatim>\<open>task_exit\<close> do to
  the descriptors. A task is a number, its table maps a descriptor to the address of a handle. A call
  gives what it leaves in \<^verbatim>\<open>errno\<close>, or says that it left the request with the disk worker, that it went
  on to the terminal, or that the task was killed; \<open>None\<close> is an access through a NULL or dangling
  pointer, or outside the table. Whether a copy from or to user memory succeeds is an argument.
\<close>

definition FD_MAX :: nat where "FD_MAX = 64"
definition FIRST_FD :: nat where "FIRST_FD = 0"

record file_handle =
  fh_node :: "nat option"
  fh_flags :: u32
  fh_offset :: nat
  fh_refcount :: nat

record files =
  fs :: vfs
  handles :: "nat \<Rightarrow> file_handle option"
  fd_table :: "nat \<Rightarrow> nat \<Rightarrow> nat option"
  hfresh :: nat
  cwd :: "u8 list"

datatype call_result = Done int | Submitted | To_terminal | Killed

definition set_handle :: "nat \<Rightarrow> file_handle option \<Rightarrow> files \<Rightarrow> files" where
  "set_handle h f s = s\<lparr>handles := (handles s)(h := f)\<rparr>"

definition set_fd :: "nat \<Rightarrow> nat \<Rightarrow> nat option \<Rightarrow> files \<Rightarrow> files" where
  "set_fd t i v s = s\<lparr>fd_table := (fd_table s)(t := (fd_table s t)(i := v))\<rparr>"

lemma files_simps [simp]:
  "fs (set_handle h f s) = fs s" "fd_table (set_handle h f s) = fd_table s" "hfresh (set_handle h f s) = hfresh s"
  "handles (set_handle h f s) k = (if k = h then f else handles s k)" "cwd (set_handle h f s) = cwd s"
  "fs (set_fd t i v s) = fs s" "handles (set_fd t i v s) = handles s" "hfresh (set_fd t i v s) = hfresh s" "cwd (set_fd t i v s) = cwd s"
  "fd_table (set_fd t i v s) u j = (if u = t \<and> j = i then v else fd_table s u j)"
  by (simp_all add: set_handle_def set_fd_def)

subsection \<open>The table of descriptors\<close>

definition alloc_fd :: "nat \<Rightarrow> nat \<Rightarrow> files \<Rightarrow> (int \<times> files) option" where
  "alloc_fd t h s =
     (case find (\<lambda>i. fd_table s t i = None) [FIRST_FD..<FD_MAX] of
        None \<Rightarrow> Some (-1, s)
      | Some i \<Rightarrow> do {
          f \<leftarrow> handles s h;
          Some (int i, set_handle h (Some (f\<lparr>fh_refcount := w32 (fh_refcount f + 1)\<rparr>)) (set_fd t i (Some h) s))
        })"

text \<open>The last descriptor of a handle: a pipe or socket is closed and freed here, any other node by the file system.\<close>

definition close_node :: "op_tables \<Rightarrow> nat option \<Rightarrow> vfs \<Rightarrow> vfs option" where
  "close_node T node v = (case node of
     None \<Rightarrow> vfs_close T None v
   | Some p \<Rightarrow> do {
       n \<leftarrow> nodes v p;
       if has_flag (VFS_FLAG_PIPE OR VFS_FLAG_SOCKET) n then do {
         v1 \<leftarrow> (case node_op T op_close n of None \<Rightarrow> Some v | Some f \<Rightarrow> do { (r, u) \<leftarrow> f p v; Some u });
         Some (set_node p None v1)
       } else vfs_close T (Some p) v
     })"

definition close_fd :: "op_tables \<Rightarrow> nat \<Rightarrow> int \<Rightarrow> files \<Rightarrow> (int \<times> files) option" where
  "close_fd T t fd s =
     (if fd < 0 \<or> fd \<ge> int FD_MAX then Some (-1, s)
      else case fd_table s t (nat fd) of
        None \<Rightarrow> Some (-1, s)
      | Some h \<Rightarrow> do {
          f \<leftarrow> handles s h;
          let f1 = f\<lparr>fh_refcount := sub32 (fh_refcount f) 1\<rparr>;
          if fh_refcount f1 = 0 then do {
            v \<leftarrow> close_node T (fh_node f1) (fs s);
            Some (0, set_fd t (nat fd) None (set_handle h None (s\<lparr>fs := v\<rparr>)))
          } else Some (0, set_fd t (nat fd) None (set_handle h (Some f1) s))
        })"

text \<open>A negative descriptor is not caught here: the table is read in front of its start.\<close>

definition sys_close :: "op_tables \<Rightarrow> nat \<Rightarrow> int \<Rightarrow> files \<Rightarrow> (call_result \<times> files) option" where
  "sys_close T t fd s =
     (if fd \<ge> int FD_MAX then Some (Done (- EBADF), s)
      else if fd < 0 then None
      else if fd_table s t (nat fd) = None then Some (Done (- EBADF), s)
      else do { (r, s1) \<leftarrow> close_fd T t fd s; Some (Done 0, s1) })"

definition sys_dup :: "op_tables \<Rightarrow> nat \<Rightarrow> int \<Rightarrow> int \<Rightarrow> files \<Rightarrow> (call_result \<times> files) option" where
  "sys_dup T t oldfd newfd s =
     (if oldfd < 0 \<or> oldfd \<ge> int FD_MAX then Some (Done (- EBADF), s)
      else case fd_table s t (nat oldfd) of
        None \<Rightarrow> Some (Done (- EBADF), s)
      | Some h \<Rightarrow>
          if newfd < 0 then do { (r, s1) \<leftarrow> alloc_fd t h s; Some (Done r, s1) }
          else if newfd \<ge> int FD_MAX then Some (Done (- EBADF), s)
          else if newfd = oldfd then Some (Done newfd, s)
          else do {
            s1 \<leftarrow> (if fd_table s t (nat newfd) \<noteq> None then do { (r, u) \<leftarrow> close_fd T t newfd s; Some u } else Some s);
            let s2 = set_fd t (nat newfd) (fd_table s1 t (nat oldfd)) s1;
            g \<leftarrow> fd_table s2 t (nat newfd);
            f \<leftarrow> handles s2 g;
            Some (Done newfd, set_handle g (Some (f\<lparr>fh_refcount := w32 (fh_refcount f + 1)\<rparr>)) s2)
          })"

text \<open>What \<^verbatim>\<open>task_fork\<close> does after copying the table, and \<^verbatim>\<open>task_exit\<close>: every descriptor in turn.\<close>

fun fork_fds :: "nat \<Rightarrow> nat \<Rightarrow> nat \<Rightarrow> files \<Rightarrow> files option" where
  "fork_fds c i 0 s = Some s"
| "fork_fds c i (Suc n) s = do {
     s1 \<leftarrow> (case fd_table s c i of
        None \<Rightarrow> Some s
      | Some h \<Rightarrow> do { f \<leftarrow> handles s h; Some (set_handle h (Some (f\<lparr>fh_refcount := w32 (fh_refcount f + 1)\<rparr>)) s) });
     fork_fds c (i + 1) n s1
   }"

definition fork_table :: "nat \<Rightarrow> nat \<Rightarrow> files \<Rightarrow> files option" where
  "fork_table parent child s =
     fork_fds child 0 FD_MAX (s\<lparr>fd_table := (fd_table s)(child := fd_table s parent)\<rparr>)"

fun exit_fds :: "op_tables \<Rightarrow> nat \<Rightarrow> nat \<Rightarrow> nat \<Rightarrow> files \<Rightarrow> files option" where
  "exit_fds T t i 0 s = Some s"
| "exit_fds T t i (Suc n) s = do {
     s1 \<leftarrow> (if fd_table s t i \<noteq> None then do { (r, u) \<leftarrow> close_fd T t (int i) s; Some u } else Some s);
     exit_fds T t (i + 1) n s1
   }"

text \<open>The three descriptors that the kernel gives to init, on the slave of the first terminal.\<close>

fun init_fds :: "nat option \<Rightarrow> nat \<Rightarrow> nat \<Rightarrow> files \<Rightarrow> files" where
  "init_fds slave t 0 s = s"
| "init_fds slave t (Suc n) s =
     (let s1 = init_fds slave t n s; h = hfresh s1
      in set_fd t n (Some h) (set_handle h (Some \<lparr>fh_node = slave, fh_flags = (if n = 0 then O_RDONLY else O_WRONLY),
           fh_offset = 0, fh_refcount = 1\<rparr>) (s1\<lparr>hfresh := h + 1\<rparr>)))"

subsection \<open>Paths\<close>

definition build_abs_path :: "u8 list \<Rightarrow> u8 list \<Rightarrow> u8 list option" where
  "build_abs_path wd path =
     (if path \<noteq> [] \<and> hd path = SLASH then (if length path \<ge> 256 then None else Some path)
      else let extra = (if length wd > 1 then 1 else 0)
           in if length wd + extra + length path + 1 > 256 then None
              else Some (wd @ (if extra = 1 then [SLASH] else []) @ path))"

subsection \<open>Opening\<close>

definition perm_of :: "vfs \<Rightarrow> nat option \<Rightarrow> (vnode option \<Rightarrow> cred option \<Rightarrow> int) \<Rightarrow> int option" where
  "perm_of v node check = (case node of None \<Rightarrow> Some (check None (caller v)) | Some p \<Rightarrow> do { n \<leftarrow> nodes v p; Some (check (Some n) (caller v)) })"

definition open_finish :: "op_tables \<Rightarrow> nat \<Rightarrow> nat option \<Rightarrow> u32 \<Rightarrow> files \<Rightarrow> (call_result \<times> files) option" where
  "open_finish T t node fl s = do {
     isf \<leftarrow> (if fl AND O_TRUNC \<noteq> 0 \<and> fl AND 0x3 \<noteq> O_RDONLY then do { p \<leftarrow> node; n \<leftarrow> nodes (fs s) p; Some (has_flag VFS_FLAG_FILE n) }
             else Some False);
     (r, v) \<leftarrow> (if isf then vfs_truncate T node 0 (fs s) else Some (0, fs s));
     let s1 = s\<lparr>fs := v\<rparr>;
     if r \<noteq> 0 then do { v1 \<leftarrow> vfs_close T node v; Some (Done (- ENOSYS), s\<lparr>fs := v1\<rparr>) }
     else do {
       off \<leftarrow> (if fl AND O_APPEND \<noteq> 0 then do { p \<leftarrow> node; n \<leftarrow> nodes v p; Some (v_size n) } else Some 0);
       let h = hfresh s1;
       let s2 = set_handle h (Some \<lparr>fh_node = node, fh_flags = fl, fh_offset = off, fh_refcount = 0\<rparr>) (s1\<lparr>hfresh := h + 1\<rparr>);
       (fd, s3) \<leftarrow> alloc_fd t h s2;
       if fd < 0 then do { v1 \<leftarrow> vfs_close T node (fs s3); Some (Done (- EIO), set_handle h None (s3\<lparr>fs := v1\<rparr>)) }
       else Some (Done fd, s3)
     }
   }"

definition open_create :: "op_tables \<Rightarrow> u8 list \<Rightarrow> vfs \<Rightarrow> (int \<times> nat option \<times> vfs) option" where
  "open_create T abs_path v = do {
     (parent_path, nm) \<leftarrow> split_path abs_path;
     (parent, v1) \<leftarrow> vfs_resolve_path T parent_path v;
     ok \<leftarrow> (if parent \<noteq> None then perm_of v1 parent vfs_check_dir_write else Some 0);
     v2 \<leftarrow> vfs_put parent v1;
     if ok \<noteq> 0 then Some (- EACCES, None, v2)
     else do { (node, v3) \<leftarrow> vfs_create T abs_path v2; Some (0, node, v3) }
   }"

definition sys_open :: "op_tables \<Rightarrow> nat \<Rightarrow> u8 list \<Rightarrow> u32 \<Rightarrow> files \<Rightarrow> (call_result \<times> files) option" where
  "sys_open T t path fl s =
     (case build_abs_path (cwd s) path of
        None \<Rightarrow> Some (Done (- ENAMETOOLONG), s)
      | Some abs_path \<Rightarrow> do {
          (node, v) \<leftarrow> vfs_open T abs_path (fs s);
          let s1 = s\<lparr>fs := v\<rparr>;
          case node of
            None \<Rightarrow>
              if fl AND O_CREAT = 0 then Some (Done (- ENOENT), s1)
              else do {
                (e, created, v1) \<leftarrow> open_create T abs_path v;
                if e \<noteq> 0 then Some (Done e, s\<lparr>fs := v1\<rparr>) else open_finish T t created fl (s\<lparr>fs := v1\<rparr>)
              }
          | Some p \<Rightarrow> do {
              n \<leftarrow> nodes v p;
              c \<leftarrow> caller v;
              let e = open_existing_check n fl c;
              if e \<noteq> 0 then do { v1 \<leftarrow> vfs_close T (Some p) v; Some (Done e, s\<lparr>fs := v1\<rparr>) }
              else open_finish T t (Some p) fl s1
            }
        })"

subsection \<open>Reading, writing and moving\<close>

definition io_errno :: "int \<Rightarrow> int" where
  "io_errno r = (if r = -1 then - EIO else r)"

text \<open>\<open>copy_ok\<close>: the copy between the kernel's buffer and user memory succeeds. A read returns its bytes too.\<close>

definition sys_read :: "op_tables \<Rightarrow> nat \<Rightarrow> nat \<Rightarrow> nat \<Rightarrow> bool \<Rightarrow> files \<Rightarrow> (call_result \<times> u8 list \<times> files) option" where
  "sys_read T t fd n copy_ok s =
     (if fd \<ge> FD_MAX then Some (Done (- EBADF), [], s)
      else case fd_table s t fd of
        None \<Rightarrow> if fd = 0 then Some (To_terminal, [], s) else Some (Done (- EBADF), [], s)
      | Some h \<Rightarrow> do {
          f \<leftarrow> handles s h;
          if \<not> handle_readable (fh_flags f) then Some (Done (- EBADF), [], s)
          else do {
            p \<leftarrow> fh_node f;
            nd \<leftarrow> nodes (fs s) p;
            if has_flag VFS_FLAG_DISKIO nd then Some (Submitted, [], s)
            else do {
              (r, xs, v) \<leftarrow> vfs_read T (Some p) (fh_offset f) n (fs s);
              let s1 = s\<lparr>fs := v\<rparr>;
              if r < 0 then Some (Done (io_errno r), [], s1)
              else if \<not> copy_ok then Some (Done (- 14), [], s1)
              else Some (Done r, xs, set_handle h (Some (f\<lparr>fh_offset := w32 (fh_offset f + nat r)\<rparr>)) s1)
            }
          }
        })"

definition sys_write :: "op_tables \<Rightarrow> nat \<Rightarrow> nat \<Rightarrow> u8 list \<Rightarrow> bool \<Rightarrow> files \<Rightarrow> (call_result \<times> files) option" where
  "sys_write T t fd buf copy_ok s =
     (if fd \<ge> FD_MAX then Some (Done (- EBADF), s)
      else case fd_table s t fd of
        None \<Rightarrow> if fd = 1 \<or> fd = 2 then Some (To_terminal, s) else Some (Done (- EBADF), s)
      | Some h \<Rightarrow> do {
          f \<leftarrow> handles s h;
          if \<not> handle_writable (fh_flags f) then Some (Done (- EBADF), s)
          else do {
            p \<leftarrow> fh_node f;
            nd \<leftarrow> nodes (fs s) p;
            if has_flag VFS_FLAG_DISKIO nd then (if copy_ok then Some (Submitted, s) else Some (Done (- 14), s))
            else do {
              let f1 = (if fh_flags f AND O_APPEND \<noteq> 0 then f\<lparr>fh_offset := v_size nd\<rparr> else f);
              let s1 = set_handle h (Some f1) s;
              if \<not> copy_ok then Some (Done (- 14), s1)
              else do {
                (r, v) \<leftarrow> vfs_write T (Some p) (fh_offset f1) buf (fs s1);
                let s2 = s1\<lparr>fs := v\<rparr>;
                if r < 0 then Some (Done (io_errno r), s2)
                else Some (Done r, set_handle h (Some (f1\<lparr>fh_offset := w32 (fh_offset f1 + nat r)\<rparr>)) s2)
              }
            }
          }
        })"

definition sys_lseek :: "nat \<Rightarrow> int \<Rightarrow> int \<Rightarrow> int \<Rightarrow> files \<Rightarrow> (call_result \<times> files) option" where
  "sys_lseek t fd offset whence s =
     (if fd \<ge> int FD_MAX then Some (Killed, s)
      else if fd < 0 then None
      else case fd_table s t (nat fd) of
        None \<Rightarrow> Some (Killed, s)
      | Some h \<Rightarrow> do {
          f \<leftarrow> handles s h;
          if whence \<notin> {0, 1, 2} then Some (Killed, s)
          else do {
            base \<leftarrow> (if whence = 0 then Some 0 else if whence = 1 then Some (int (fh_offset f))
                    else do { p \<leftarrow> fh_node f; n \<leftarrow> nodes (fs s) p; Some (int (v_size n)) });
            let new_offset = base + offset;
            if new_offset < 0 then Some (Done (- EINVAL), s)
            else Some (Done (as_int (w32 (nat new_offset))), set_handle h (Some (f\<lparr>fh_offset := w32 (nat new_offset)\<rparr>)) s)
          }
        })"

subsection \<open>Directories\<close>

definition sys_mkdir :: "op_tables \<Rightarrow> u8 list \<Rightarrow> files \<Rightarrow> (call_result \<times> files) option" where
  "sys_mkdir T path s =
     (case build_abs_path (cwd s) path of
        None \<Rightarrow> Some (Done (- ENAMETOOLONG), s)
      | Some abs_path \<Rightarrow> do {
          (existing, v) \<leftarrow> vfs_resolve_path T abs_path (fs s);
          if existing \<noteq> None then do { v1 \<leftarrow> vfs_put existing v; Some (Done (- EEXIST), s\<lparr>fs := v1\<rparr>) }
          else do {
            (parent_path, nm) \<leftarrow> split_path abs_path;
            (parent, v1) \<leftarrow> vfs_resolve_path T parent_path v;
            ok \<leftarrow> (if parent \<noteq> None then perm_of v1 parent vfs_check_dir_write else Some 0);
            v2 \<leftarrow> vfs_put parent v1;
            if ok \<noteq> 0 then Some (Done (- EACCES), s\<lparr>fs := v2\<rparr>)
            else do { (r, v3) \<leftarrow> vfs_mkdir T abs_path v2; Some (Done (if r \<noteq> 0 then - EIO else 0), s\<lparr>fs := v3\<rparr>) }
          }
        })"

text \<open>Whether the caller may remove \<open>node\<close> from \<open>parent\<close>: write and search permission, and the sticky bit.\<close>

definition may_remove :: "vfs \<Rightarrow> nat \<Rightarrow> nat option \<Rightarrow> bool option" where
  "may_remove v node parent = (case parent of
     None \<Rightarrow> Some True
   | Some p \<Rightarrow> do {
       pn \<leftarrow> nodes v p;
       n \<leftarrow> nodes v node;
       c \<leftarrow> caller v;
       Some (vfs_check_dir_write (Some pn) (Some c) = 0 \<and>
         \<not> (v_mode pn AND S_ISVTX \<noteq> 0 \<and> c_euid c \<noteq> 0 \<and> c_euid c \<noteq> v_uid n \<and> c_euid c \<noteq> v_uid pn))
     })"

definition sys_unlink :: "op_tables \<Rightarrow> u8 list \<Rightarrow> files \<Rightarrow> (call_result \<times> files) option" where
  "sys_unlink T path s =
     (case build_abs_path (cwd s) path of
        None \<Rightarrow> Some (Done (- ENAMETOOLONG), s)
      | Some abs_path \<Rightarrow> do {
          (node, v) \<leftarrow> vfs_resolve_path T abs_path (fs s);
          case node of
            None \<Rightarrow> Some (Done (- ENOENT), s\<lparr>fs := v\<rparr>)
          | Some p \<Rightarrow> do {
              n \<leftarrow> nodes v p;
              if has_flag VFS_FLAG_DIRECTORY n then do { v1 \<leftarrow> vfs_put node v; Some (Done (- EISDIR), s\<lparr>fs := v1\<rparr>) }
              else do {
                (parent_path, nm) \<leftarrow> split_path abs_path;
                (parent, v1) \<leftarrow> vfs_resolve_path T parent_path v;
                ok \<leftarrow> may_remove v1 p parent;
                v2 \<leftarrow> vfs_put node v1;
                v3 \<leftarrow> vfs_put parent v2;
                if \<not> ok then Some (Done (- EACCES), s\<lparr>fs := v3\<rparr>)
                else do { (r, v4) \<leftarrow> vfs_unlink T abs_path v3; Some (Done (if r \<noteq> 0 then - EIO else 0), s\<lparr>fs := v4\<rparr>) }
              }
            }
        })"

text \<open>The loop over the entries ends at the first NULL, which a directory without an end never gives.\<close>

partial_function (option) has_entries :: "(nat \<Rightarrow> nat \<Rightarrow> vfs \<Rightarrow> (nat option \<times> vfs) option) \<Rightarrow> nat \<Rightarrow> nat \<Rightarrow> vfs
    \<Rightarrow> (bool \<times> vfs) option" where
  "has_entries rd p i v = (case rd p i v of
     None \<Rightarrow> None
   | Some (child, v1) \<Rightarrow> (case child of
       None \<Rightarrow> Some (False, v1)
     | Some c \<Rightarrow> (case nodes v1 c of
         None \<Rightarrow> None
       | Some n \<Rightarrow> (case vfs_put (Some c) v1 of
           None \<Rightarrow> None
         | Some v2 \<Rightarrow> if v_name n \<noteq> DOT \<and> v_name n \<noteq> DOTDOT then Some (True, v2) else has_entries rd p (w32 (i + 1)) v2))))"

definition dir_has_entries :: "op_tables \<Rightarrow> nat \<Rightarrow> vfs \<Rightarrow> (bool \<times> vfs) option" where
  "dir_has_entries T p v = do {
     n \<leftarrow> nodes v p;
     case node_op T op_readdir n of None \<Rightarrow> Some (False, v) | Some rd \<Rightarrow> has_entries rd p 0 v
   }"

definition sys_rmdir :: "op_tables \<Rightarrow> u8 list \<Rightarrow> files \<Rightarrow> (call_result \<times> files) option" where
  "sys_rmdir T path s =
     (case build_abs_path (cwd s) path of
        None \<Rightarrow> Some (Done (- ENAMETOOLONG), s)
      | Some abs_path \<Rightarrow> do {
          (node, v) \<leftarrow> vfs_resolve_path T abs_path (fs s);
          case node of
            None \<Rightarrow> Some (Done (- ENOENT), s\<lparr>fs := v\<rparr>)
          | Some p \<Rightarrow> do {
              n \<leftarrow> nodes v p;
              if \<not> has_flag VFS_FLAG_DIRECTORY n then do { v1 \<leftarrow> vfs_put node v; Some (Done (- ENOTDIR), s\<lparr>fs := v1\<rparr>) }
              else if node_op T op_rmdir n = None then do { v1 \<leftarrow> vfs_put node v; Some (Done (- ENOSYS), s\<lparr>fs := v1\<rparr>) }
              else do {
                (parent_path, nm) \<leftarrow> split_path abs_path;
                (parent, v1) \<leftarrow> vfs_resolve_path T parent_path v;
                ok \<leftarrow> may_remove v1 p parent;
                if \<not> ok then do { v2 \<leftarrow> vfs_put node v1; v3 \<leftarrow> vfs_put parent v2; Some (Done (- EACCES), s\<lparr>fs := v3\<rparr>) }
                else do {
                  v2 \<leftarrow> vfs_put parent v1;
                  (full, v3) \<leftarrow> dir_has_entries T p v2;
                  v4 \<leftarrow> vfs_put node v3;
                  if full then Some (Done (- ENOTEMPTY), s\<lparr>fs := v4\<rparr>)
                  else do { (r, v5) \<leftarrow> vfs_rmdir T abs_path v4; Some (Done (if r \<noteq> 0 then - EIO else 0), s\<lparr>fs := v5\<rparr>) }
                }
              }
            }
        })"

section \<open>The counts of the handles\<close>

text \<open>
  \<open>refs A s h\<close> are the descriptors, among those of \<open>A\<close>, that hold the handle. In \<open>fd_inv E A s\<close> the count
  of every handle is their number, no descriptor dangles, and only the handles of \<open>E\<close> may be without one.
\<close>

definition TASKS :: nat where "TASKS = 2 ^ 25"

definition refs :: "(nat \<times> nat) set \<Rightarrow> files \<Rightarrow> nat \<Rightarrow> (nat \<times> nat) set" where
  "refs A s h = {x \<in> A. fd_table s (fst x) (snd x) = Some h}"

definition fd_inv :: "nat set \<Rightarrow> (nat \<times> nat) set \<Rightarrow> files \<Rightarrow> bool" where
  "fd_inv E A s \<longleftrightarrow>
     (\<forall>t i h. fd_table s t i = Some h \<longrightarrow> t < TASKS \<and> i < FD_MAX \<and> handles s h \<noteq> None) \<and>
     (\<forall>h f. handles s h = Some f \<longrightarrow> h < hfresh s \<and> fh_refcount f = card (refs A s h) \<and> (h \<notin> E \<longrightarrow> refs A s h \<noteq> {}))"

lemma fd_invD:
  assumes "fd_inv E A s"
  shows "fd_table s t i = Some h \<Longrightarrow> t < TASKS \<and> i < FD_MAX \<and> handles s h \<noteq> None"
    "handles s h = Some f \<Longrightarrow> h < hfresh s \<and> fh_refcount f = card (refs A s h) \<and> (h \<notin> E \<longrightarrow> refs A s h \<noteq> {})"
  using assms by (auto simp: fd_inv_def)

lemma refs_finite:
  assumes "fd_inv E A s"
  shows "finite (refs B s h)" "card (refs B s h) < 2 ^ 32"
proof -
  have sub: "refs B s h \<subseteq> {..<TASKS} \<times> {..<FD_MAX}" using fd_invD(1) [OF assms] by (auto simp: refs_def)
  then show "finite (refs B s h)" by (rule finite_subset) simp
  have "card (refs B s h) \<le> card ({..<TASKS} \<times> {..<FD_MAX})" using sub by (rule card_mono [rotated]) simp
  also have "\<dots> < 2 ^ 32" by (simp add: card_cartesian_product TASKS_def FD_MAX_def)
  finally show "card (refs B s h) < 2 ^ 32" .
qed

lemma fd_inv_frame [simp]: "fd_inv E A (s\<lparr>fs := v\<rparr>) = fd_inv E A s" "refs A (s\<lparr>fs := v\<rparr>) h = refs A s h"
  by (simp_all add: fd_inv_def refs_def)

lemma refs_set_handle [simp]: "refs A (set_handle h f s) k = refs A s k" "refs A (s\<lparr>hfresh := n\<rparr>) k = refs A s k"
  by (simp_all add: refs_def)

lemma fd_inv_handle:
  assumes "fd_inv E A s" "handles s h = Some f" "fh_refcount g = fh_refcount f"
  shows "fd_inv E A (set_handle h (Some g) s)"
  using assms by (auto simp: fd_inv_def)

text \<open>A new handle has no descriptor yet.\<close>

lemma fd_inv_new:
  assumes i: "fd_inv {} A s" and f: "fh_refcount f = 0"
  shows "fd_inv {hfresh s} A (set_handle (hfresh s) (Some f) (s\<lparr>hfresh := hfresh s + 1\<rparr>))"
proof -
  have none: "handles s (hfresh s) = None" using fd_invD(2) [OF i, of "hfresh s"] by (cases "handles s (hfresh s)") auto
  then have "refs A s (hfresh s) = {}" using fd_invD(1) [OF i] by (force simp: refs_def)
  then show ?thesis using i f none unfolding fd_inv_def by (auto simp: less_Suc_eq)
qed

lemma refs_add:
  assumes "fd_table s t i = None" "(t, i) \<in> A"
  shows "refs A (set_fd t i (Some h) s) k = (if k = h then insert (t, i) (refs A s h) else refs A s k)"
  using assms by (auto simp: refs_def)

lemma fd_inv_add:
  assumes i: "fd_inv {h} A s" and e: "fd_table s t j = None" "(t, j) \<in> A" "t < TASKS" "j < FD_MAX" and f: "handles s h = Some f"
  shows "fd_inv {} A (set_handle h (Some (f\<lparr>fh_refcount := w32 (fh_refcount f + 1)\<rparr>)) (set_fd t j (Some h) s))"
proof -
  have n: "(t, j) \<notin> refs A s h" using e(1) by (simp add: refs_def)
  let ?s = "set_fd t j (Some h) s"
  have "card (insert (t, j) (refs A s h)) < 2 ^ 32"
  proof -
    have "insert (t, j) (refs A s h) \<subseteq> {..<TASKS} \<times> {..<FD_MAX}" using fd_invD(1) [OF i] e(3,4) by (auto simp: refs_def)
    then have "card (insert (t, j) (refs A s h)) \<le> card ({..<TASKS} \<times> {..<FD_MAX})" by (rule card_mono [rotated]) simp
    also have "\<dots> < 2 ^ 32" by (simp add: card_cartesian_product TASKS_def FD_MAX_def)
    finally show ?thesis .
  qed
  then have c: "w32 (fh_refcount f + 1) = card (insert (t, j) (refs A s h))"
    using fd_invD(2) [OF i f] refs_finite(1) [OF i, of A h] n by (simp add: w32_id)
  show ?thesis
    unfolding fd_inv_def
  proof (intro conjI allI impI)
    fix t' i' h' assume "fd_table (set_handle h (Some (f\<lparr>fh_refcount := w32 (fh_refcount f + 1)\<rparr>)) ?s) t' i' = Some h'"
    then show "t' < TASKS" "i' < FD_MAX" "handles (set_handle h (Some (f\<lparr>fh_refcount := w32 (fh_refcount f + 1)\<rparr>)) ?s) h' \<noteq> None"
      using fd_invD(1) [OF i, of t' i' h'] e f by (auto split: if_splits)
  next
    fix k g assume g: "handles (set_handle h (Some (f\<lparr>fh_refcount := w32 (fh_refcount f + 1)\<rparr>)) ?s) k = Some g"
    show "k < hfresh (set_handle h (Some (f\<lparr>fh_refcount := w32 (fh_refcount f + 1)\<rparr>)) ?s)"
      using g f fd_invD(2) [OF i, of k] by (auto split: if_splits)
    show "fh_refcount g = card (refs A (set_handle h (Some (f\<lparr>fh_refcount := w32 (fh_refcount f + 1)\<rparr>)) ?s) k)"
      "refs A (set_handle h (Some (f\<lparr>fh_refcount := w32 (fh_refcount f + 1)\<rparr>)) ?s) k \<noteq> {}"
      using g c fd_invD(2) [OF i, of k] by (auto simp: refs_add [OF e(1,2)] split: if_splits)
  qed
qed

lemma fd_inv_weaken: "fd_inv {} A s \<Longrightarrow> fd_inv E A s"
  by (auto simp: fd_inv_def)

text \<open>A handle that lost a descriptor, and was freed when it was the last.\<close>

lemma fd_inv_drop:
  assumes i: "fd_inv {} UNIV s" and t: "fd_table s t j = Some h" and f: "handles s h = Some f"
    and c: "fh_refcount f1 = sub32 (fh_refcount f) 1"
  shows "fd_inv {} UNIV (set_fd t j None (set_handle h (if fh_refcount f1 = 0 then None else Some f1) s))"
proof -
  let ?s = "set_fd t j None (set_handle h (if fh_refcount f1 = 0 then None else Some f1) s)"
  have m: "(t, j) \<in> refs UNIV s h" using t by (simp add: refs_def)
  have r: "refs UNIV ?s k = (if k = h then refs UNIV s h - {(t, j)} else refs UNIV s k)" for k
    using t by (auto simp: refs_def)
  have "fh_refcount f = card (refs UNIV s h)" using fd_invD(2) [OF i f] by simp
  moreover have "card (refs UNIV s h) = Suc (card (refs UNIV s h - {(t, j)}))"
    using m by (rule card.remove [OF refs_finite(1) [OF i]])
  moreover note refs_finite(2) [OF i, of UNIV h]
  ultimately have c1: "fh_refcount f1 = card (refs UNIV s h - {(t, j)})" unfolding c by (simp add: sub32_def)
  have e: "fh_refcount f1 = 0 \<longleftrightarrow> refs UNIV s h - {(t, j)} = {}"
    unfolding c1 using refs_finite(1) [OF i, of UNIV h] by (subst card_0_eq) simp_all
  show ?thesis
    unfolding fd_inv_def r
  proof (intro conjI allI impI)
    fix t' i' h' assume a: "fd_table ?s t' i' = Some h'"
    then have b: "fd_table s t' i' = Some h'" "(t', i') \<noteq> (t, j)" by (auto split: if_splits)
    show "t' < TASKS" "i' < FD_MAX" using fd_invD(1) [OF i b(1)] by simp_all
    have "(t', i') \<in> refs UNIV s h - {(t, j)}" if "h' = h" using b that by (simp add: refs_def)
    then have "h' = h \<Longrightarrow> fh_refcount f1 \<noteq> 0" using e by blast
    then show "handles ?s h' \<noteq> None" using fd_invD(1) [OF i b(1)] by auto
  next
    fix k g assume g: "handles ?s k = Some g"
    show "k < hfresh ?s" using g f fd_invD(2) [OF i, of k] by (auto split: if_splits)
    show "fh_refcount g = card (if k = h then refs UNIV s h - {(t, j)} else refs UNIV s k)"
      "(if k = h then refs UNIV s h - {(t, j)} else refs UNIV s k) \<noteq> {}"
      using g c1 e fd_invD(2) [OF i, of k] by (auto split: if_splits)
  qed
qed

lemma alloc_fd_inv:
  assumes i: "fd_inv {h} UNIV s" and t: "t < TASKS" and f: "handles s h = Some f"
    and a: "alloc_fd t h s = Some (r, s')"
  shows "(r = -1 \<and> s' = s) \<or> (0 \<le> r \<and> r < int FD_MAX \<and> fd_inv {} UNIV s' \<and> fd_table s t (nat r) = None
     \<and> s' = set_handle h (Some (f\<lparr>fh_refcount := w32 (fh_refcount f + 1)\<rparr>)) (set_fd t (nat r) (Some h) s))"
proof (cases "find (\<lambda>i. fd_table s t i = None) [FIRST_FD..<FD_MAX]")
  case None
  then show ?thesis using a by (simp add: alloc_fd_def)
next
  case (Some j)
  then have j: "fd_table s t j = None" "j < FD_MAX" by (auto simp: find_Some_iff)
  have "r = int j" "s' = set_handle h (Some (f\<lparr>fh_refcount := w32 (fh_refcount f + 1)\<rparr>)) (set_fd t j (Some h) s)"
    using a Some f by (auto simp: alloc_fd_def)
  then show ?thesis using fd_inv_add [OF i j(1) UNIV_I t j(2) f] j by simp
qed

lemma close_fd_inv:
  assumes i: "fd_inv {} UNIV s" and c: "close_fd T t fd s = Some (r, s')"
  shows "fd_inv {} UNIV s'" "fd_table s' u j = (if u = t \<and> int j = fd then None else fd_table s u j)"
    "fd_table s t (nat fd) \<noteq> None \<Longrightarrow> 0 \<le> fd \<Longrightarrow> r = 0"
proof -
  show "fd_inv {} UNIV s'"
  proof (cases "fd < 0 \<or> fd \<ge> int FD_MAX \<or> fd_table s t (nat fd) = None")
    case True
    then show ?thesis using c i by (auto simp: close_fd_def split: if_splits)
  next
    case False
    then obtain h where h: "fd_table s t (nat fd) = Some h" by auto
    obtain f where f: "handles s h = Some f" using fd_invD(1) [OF i h] by auto
    let ?f = "f\<lparr>fh_refcount := sub32 (fh_refcount f) 1\<rparr>"
    have *: "fd_inv {} UNIV (set_fd t (nat fd) None (set_handle h (if fh_refcount ?f = 0 then None else Some ?f) s))"
      by (rule fd_inv_drop [OF i h f]) simp
    show ?thesis
    proof (cases "fh_refcount ?f = 0")
      case True
      then obtain v where "s' = set_fd t (nat fd) None (set_handle h None (s\<lparr>fs := v\<rparr>))"
        using c h f False by (auto simp: close_fd_def Let_def split: bind_splits)
      then have "s' = (set_fd t (nat fd) None (set_handle h None s))\<lparr>fs := v\<rparr>" by (simp add: set_fd_def set_handle_def)
      then show ?thesis using * True by simp
    next
      case False2: False
      then show ?thesis using * c h f False by (auto simp: close_fd_def Let_def)
    qed
  qed
  have "int FD_MAX \<le> int j \<Longrightarrow> fd_table s u j = None" for u j using fd_invD(1) [OF i, of u j] by (cases "fd_table s u j") auto
  then show "fd_table s' u j = (if u = t \<and> int j = fd then None else fd_table s u j)"
    using c by (auto simp: close_fd_def Let_def split: if_splits option.splits bind_splits)
  show "fd_table s t (nat fd) \<noteq> None \<Longrightarrow> 0 \<le> fd \<Longrightarrow> r = 0"
    using c fd_invD(1) [OF i, of t "nat fd"]  by (auto simp: close_fd_def Let_def split: if_splits option.splits bind_splits)
qed

lemma bind_SomeE:
  assumes "Option.bind m f = Some y"
  obtains x where "m = Some x" "f x = Some y"
  using assms by (cases m) auto

lemma bind_pairE:
  assumes "Option.bind m (\<lambda>(a, b). f a b) = Some y"
  obtains a b where "m = Some (a, b)" "f a b = Some y"
  using assms by (cases m) auto

lemma sys_close_inv: "fd_inv {} UNIV s \<Longrightarrow> sys_close T t fd s = Some (r, s') \<Longrightarrow> fd_inv {} UNIV s'"
  by (auto simp: sys_close_def dest: close_fd_inv(1) split: if_splits bind_splits)

lemma sys_dup_inv:
  assumes i: "fd_inv {} UNIV s" and t: "t < TASKS" and d: "sys_dup T t old new s = Some (r, s')"
  shows "fd_inv {} UNIV s'"
proof (cases "old < 0 \<or> old \<ge> int FD_MAX \<or> fd_table s t (nat old) = None")
  case True
  then show ?thesis using d i by (auto simp: sys_dup_def split: if_splits)
next
  case False
  then obtain h where h: "fd_table s t (nat old) = Some h" by auto
  obtain f where f: "handles s h = Some f" using fd_invD(1) [OF i h] by auto
  consider "new < 0" | "\<not> new < 0" "new \<ge> int FD_MAX \<or> new = old" | "\<not> new < 0" "\<not> new \<ge> int FD_MAX" "new \<noteq> old" by blast
  then show ?thesis
  proof cases
    case 1
    then obtain q where "alloc_fd t h s = Some (q, s')" using d h False by (auto simp: sys_dup_def split: bind_splits)
    from alloc_fd_inv [OF fd_inv_weaken [OF i] t f this] show ?thesis using i by auto
  next
    case 2
    then show ?thesis using d h i False by (auto simp: sys_dup_def split: if_splits)
  next
    case 3
    obtain s1 where s1: "(if fd_table s t (nat new) \<noteq> None then do { (r, u) \<leftarrow> close_fd T t new s; Some u } else Some s) = Some s1"
      using d h False 3 by (auto simp: sys_dup_def split: bind_splits)
    have c: "fd_inv {} UNIV s1" "fd_table s1 t (nat new) = None" "fd_table s1 t (nat old) = Some h"
      using s1 i h 3 False close_fd_inv(1,2) [OF i, of T t new _ s1] by (auto split: if_splits bind_splits)
    obtain g where g: "handles s1 h = Some g" using fd_invD(1) [OF c(1,3)] by auto
    have "s' = set_handle h (Some (g\<lparr>fh_refcount := w32 (fh_refcount g + 1)\<rparr>)) (set_fd t (nat new) (Some h) s1)"
      using d h False 3 s1 g c by (simp add: sys_dup_def Let_def)
    moreover have "nat new < FD_MAX" using 3 by simp
    ultimately show ?thesis using fd_inv_add [OF fd_inv_weaken [OF c(1)] c(2) UNIV_I t _ g] by simp
  qed
qed

lemma open_finish_inv:
  assumes i: "fd_inv {} UNIV s" and t: "t < TASKS" and d: "open_finish T t node fl s = Some (r, s')"
  shows "fd_inv {} UNIV s'"
proof -
  let ?rest = "\<lambda>(q :: int) v. (if q \<noteq> 0 then do { v1 \<leftarrow> vfs_close T node v; Some (Done (- ENOSYS), s\<lparr>fs := v1\<rparr>) }
     else do {
       off \<leftarrow> (if fl AND O_APPEND \<noteq> 0 then do { p \<leftarrow> node; n \<leftarrow> nodes v p; Some (v_size n) } else Some 0);
       (fd, s3) \<leftarrow> alloc_fd t (hfresh (s\<lparr>fs := v\<rparr>)) (set_handle (hfresh (s\<lparr>fs := v\<rparr>)) (Some \<lparr>fh_node = node, fh_flags = fl, fh_offset = off, fh_refcount = 0\<rparr>)
         ((s\<lparr>fs := v\<rparr>)\<lparr>hfresh := hfresh (s\<lparr>fs := v\<rparr>) + 1\<rparr>));
       if fd < 0 then do { v1 \<leftarrow> vfs_close T node (fs s3); Some (Done (- EIO), set_handle (hfresh (s\<lparr>fs := v\<rparr>)) None (s3\<lparr>fs := v1\<rparr>)) }
       else Some (Done fd, s3)
     }) :: (call_result \<times> files) option"
  have "\<exists>q v. ?rest q v = Some (r, s')"
    using d unfolding open_finish_def Let_def by - (erule bind_SomeE, erule bind_pairE, rule exI, rule exI, assumption)
  then obtain q v where d1: "?rest q v = Some (r, s')" by blast
  show ?thesis
  proof (cases "q = 0")
    case False
    then show ?thesis using d1 i by (auto split: bind_splits)
  next
    case True
    let ?s1 = "s\<lparr>fs := v\<rparr>"
    obtain off fd s3 where o: "alloc_fd t (hfresh s) (set_handle (hfresh s) (Some \<lparr>fh_node = node, fh_flags = fl, fh_offset = off, fh_refcount = 0\<rparr>)
         (?s1\<lparr>hfresh := hfresh s + 1\<rparr>)) = Some (fd, s3)"
      and r: "(if fd < 0 then do { v1 \<leftarrow> vfs_close T node (fs s3); Some (Done (- EIO), set_handle (hfresh s) None (s3\<lparr>fs := v1\<rparr>)) }
       else Some (Done fd, s3)) = Some (r, s')"
    proof -
      have "?rest 0 v = Some (r, s')" using d1 True by simp
      then show thesis unfolding simp_thms if_False by - (erule bind_SomeE, erule bind_pairE, rule that, simp, simp cong: if_cong split del: if_split)
    qed
    let ?f = "\<lparr>fh_node = node, fh_flags = fl, fh_offset = off, fh_refcount = 0\<rparr>"
    let ?s2 = "set_handle (hfresh s) (Some ?f) (?s1\<lparr>hfresh := hfresh s + 1\<rparr>)"
    have i1: "fd_inv {} UNIV ?s1" using i by simp
    have n: "fd_inv {hfresh s} UNIV ?s2" using fd_inv_new [OF i1, of ?f] by simp
    have h2: "handles ?s2 (hfresh s) = Some ?f" by simp
    from alloc_fd_inv [OF n t h2 o] show ?thesis
    proof
      assume "fd = -1 \<and> s3 = ?s2"
      then obtain w where "s' = set_handle (hfresh s) None (?s2\<lparr>fs := w\<rparr>)" using r by (auto split: bind_splits)
      moreover have n: "handles s (hfresh s) = None" using fd_invD(2) [OF i, of "hfresh s"] by (cases "handles s (hfresh s)") auto
      moreover have "refs UNIV s (hfresh s) = {}" using fd_invD(1) [OF i, of _ _ "hfresh s"] n by (auto simp: refs_def)
      ultimately show ?thesis using i unfolding fd_inv_def by (auto simp: refs_def less_Suc_eq)
    next
      assume "0 \<le> fd \<and> fd < int FD_MAX \<and> fd_inv {} UNIV s3 \<and> fd_table ?s2 t (nat fd) = None
       \<and> s3 = set_handle (hfresh s) (Some (?f\<lparr>fh_refcount := w32 (fh_refcount ?f + 1)\<rparr>)) (set_fd t (nat fd) (Some (hfresh s)) ?s2)"
      then have "fd_inv {} UNIV s3" "0 \<le> fd" by blast+
      then show ?thesis using r by simp
    qed
  qed
qed

lemma sys_open_inv:
  assumes i: "fd_inv {} UNIV s" and t: "t < TASKS" and d: "sys_open T t path fl s = Some (r, s')"
  shows "fd_inv {} UNIV s'"
proof -
  have "fd_inv {} UNIV (s\<lparr>fs := v\<rparr>)" for v using i by simp
  note f = open_finish_inv [OF this t]
  show ?thesis using d i f unfolding sys_open_def Let_def by (auto split: option.splits bind_splits if_splits)
qed

text \<open>Reading, writing and moving change a handle's offset and the file system, nothing else.\<close>

definition same_fds :: "files \<Rightarrow> files \<Rightarrow> bool" where
  "same_fds s s' \<longleftrightarrow> fd_table s' = fd_table s \<and> hfresh s' = hfresh s
     \<and> (\<forall>h. map_option (\<lambda>f. (fh_node f, fh_flags f, fh_refcount f)) (handles s' h)
          = map_option (\<lambda>f. (fh_node f, fh_flags f, fh_refcount f)) (handles s h))"

lemma same_fds_intros [simp, intro]:
  "same_fds s s" "same_fds s s' \<Longrightarrow> same_fds s (s'\<lparr>fs := v\<rparr>)"
  "same_fds s s' \<Longrightarrow> handles s h = Some f \<Longrightarrow> same_fds s (set_handle h (Some (f\<lparr>fh_offset := n\<rparr>)) s')"
  by (simp_all add: same_fds_def fun_eq_iff)

lemma same_fds_self [simp]: "same_fds s s' \<Longrightarrow> handles s h = Some f \<Longrightarrow> same_fds s (set_handle h (Some f) s')"
  by (simp add: same_fds_def fun_eq_iff)

lemma same_fds_inv:
  assumes i: "fd_inv E A s" and e: "same_fds s s'"
  shows "fd_inv E A s'"
proof -
  have m: "map_option (\<lambda>f. (fh_node f, fh_flags f, fh_refcount f)) (handles s' h)
    = map_option (\<lambda>f. (fh_node f, fh_flags f, fh_refcount f)) (handles s h)" for h
    using e by (simp add: same_fds_def)
  have h: "(handles s' h = None) = (handles s h = None)" for h
    using m [of h] by (cases "handles s' h"; cases "handles s h") simp_all
  have c: "\<exists>g. handles s h = Some g \<and> fh_refcount g = fh_refcount f" if "handles s' h = Some f" for h f
    using m [of h] that by (cases "handles s h") simp_all
  have r: "refs A s' = refs A s" using e by (simp add: same_fds_def refs_def fun_eq_iff)
  show ?thesis unfolding fd_inv_def r h using fd_invD [OF i] c e by (fastforce simp: same_fds_def)
qed

lemma offset_calls_same:
  "sys_read T t k n ok s = Some (r, xs, s') \<Longrightarrow> same_fds s s'"
  "sys_write T t k buf ok s = Some (r, s') \<Longrightarrow> same_fds s s'"
  "sys_lseek t fd off whence s = Some (r, s') \<Longrightarrow> same_fds s s'"
  by (auto simp: sys_read_def sys_write_def sys_lseek_def Let_def split: if_splits option.splits bind_splits)

text \<open>While \<open>fork_fds\<close> runs, the child's descriptors from \<open>i\<close> on are not counted yet.\<close>

definition before :: "nat \<Rightarrow> nat \<Rightarrow> (nat \<times> nat) set" where
  "before c i = {x. fst x = c \<longrightarrow> snd x < i}"

lemma before_Suc: "before c (Suc i) = insert (c, i) (before c i)"
  by (auto simp: before_def less_Suc_eq)

lemma refs_insert: "refs (insert (t, j) A) s k = (if fd_table s t j = Some k then insert (t, j) (refs A s k) else refs A s k)"
  by (auto simp: refs_def)

lemma fork_step:
  assumes i: "fd_inv {} (before c j) s" and h: "fd_table s c j = Some h" and f: "handles s h = Some f"
  shows "fd_inv {} (before c (Suc j)) (set_handle h (Some (f\<lparr>fh_refcount := w32 (fh_refcount f + 1)\<rparr>)) s)"
proof -
  have n: "(c, j) \<notin> refs (before c j) s h" by (simp add: refs_def before_def)
  have "card (insert (c, j) (refs (before c j) s h)) < 2 ^ 32"
    using refs_finite(2) [OF i, of "before c (Suc j)" h] h by (simp add: before_Suc refs_insert)
  then have "w32 (fh_refcount f + 1) = card (insert (c, j) (refs (before c j) s h))"
    using fd_invD(2) [OF i f] refs_finite(1) [OF i, of "before c j" h] n by (simp add: w32_id)
  then show ?thesis using i h f unfolding fd_inv_def by (simp add: before_Suc refs_insert)
qed

lemma fork_fds_inv:
  "fd_inv {} (before c i) s \<Longrightarrow> fork_fds c i n s = Some s' \<Longrightarrow> fd_inv {} (before c (i + n)) s'"
proof (induction n arbitrary: i s)
  case 0
  then show ?case by simp
next
  case (Suc n)
  show ?case
  proof (cases "fd_table s c i")
    case None
    then have "fd_inv {} (before c (Suc i)) s" using Suc.prems(1) unfolding fd_inv_def by (simp add: before_Suc refs_insert)
    then show ?thesis using Suc.IH [of "Suc i" s] Suc.prems(2) None by simp
  next
    case (Some h)
    then obtain f where f: "handles s h = Some f" using Suc.prems(2) by (auto split: bind_splits)
    show ?thesis using Suc.IH [OF fork_step [OF Suc.prems(1) Some f, folded Suc_eq_plus1]] Suc.prems(2) Some f by simp
  qed
qed

lemma fork_table_inv:
  assumes i: "fd_inv {} UNIV s" and c: "c < TASKS" "\<And>j. fd_table s c j = None" and f: "fork_table p c s = Some s'"
  shows "fd_inv {} UNIV s'"
proof -
  let ?s = "s\<lparr>fd_table := (fd_table s)(c := fd_table s p)\<rparr>"
  have r: "refs (before c 0) ?s h = refs UNIV s h" for h using c(2) by (auto simp: refs_def before_def)
  have "fd_inv {} (before c 0) ?s" using i c(1) unfolding fd_inv_def r by auto
  then have i': "fd_inv {} (before c FD_MAX) s'" using fork_fds_inv [of c 0 ?s FD_MAX s'] f by (simp add: fork_table_def)
  have "refs (before c FD_MAX) s' h = refs UNIV s' h" for h using fd_invD(1) [OF i'] by (auto simp: refs_def before_def)
  then show ?thesis using i' by (simp add: fd_inv_def)
qed

lemma exit_fds_inv:
  "fd_inv {} UNIV s \<Longrightarrow> exit_fds T t i n s = Some s' \<Longrightarrow> fd_inv {} UNIV s' \<and>
     (\<forall>u j. fd_table s' u j = (if u = t \<and> i \<le> j \<and> j < i + n then None else fd_table s u j))"
proof (induction n arbitrary: i s)
  case 0
  then show ?case by auto
next
  case (Suc n)
  from Suc.prems(2) obtain s1 where s1: "(if fd_table s t i \<noteq> None then do { (r, u) \<leftarrow> close_fd T t (int i) s; Some u } else Some s) = Some s1"
    and e: "exit_fds T t (i + 1) n s1 = Some s'" by (auto split: bind_splits)
  have "fd_inv {} UNIV s1 \<and> (\<forall>u j. fd_table s1 u j = (if u = t \<and> j = i then None else fd_table s u j))"
    using s1 Suc.prems(1) close_fd_inv(1,2) [OF Suc.prems(1), of T t "int i" _ s1] by (auto split: if_splits bind_splits)
  then show ?case using Suc.IH [OF _ e] by (auto simp: less_Suc_eq_le)
qed

lemma set_handle_over: "set_handle h f (set_fd t i v (set_handle h g s)) = set_handle h f (set_fd t i v s)"
  by (simp add: set_handle_def set_fd_def)

lemma init_fds_inv:
  "fd_inv {} UNIV s \<Longrightarrow> t < TASKS \<Longrightarrow> \<forall>i. fd_table s t i = None \<Longrightarrow> n \<le> FD_MAX \<Longrightarrow>
     fd_inv {} UNIV (init_fds slave t n s) \<and> (\<forall>i\<ge>n. fd_table (init_fds slave t n s) t i = None)"
proof (induction n)
  case 0
  then show ?case by simp
next
  case (Suc n)
  let ?s = "init_fds slave t n s"
  let ?f = "\<lparr>fh_node = slave, fh_flags = (if n = 0 then O_RDONLY else O_WRONLY), fh_offset = 0, fh_refcount = 0\<rparr>"
  have i: "fd_inv {} UNIV ?s" "\<And>i. n \<le> i \<Longrightarrow> fd_table ?s t i = None" using Suc by auto
  let ?u = "set_handle (hfresh ?s) (Some ?f) (?s\<lparr>hfresh := hfresh ?s + 1\<rparr>)"
  have "fd_inv {} UNIV (set_handle (hfresh ?s) (Some (?f\<lparr>fh_refcount := w32 (fh_refcount ?f + 1)\<rparr>)) (set_fd t n (Some (hfresh ?s)) ?u))"
    by (rule fd_inv_add [OF fd_inv_new [OF i(1)]]) (use i(2) [of n] Suc.prems(2,4) in simp_all)
  moreover have "set_fd t n (Some (hfresh ?s)) (set_handle (hfresh ?s) (Some \<lparr>fh_node = slave, fh_flags = (if n = 0 then O_RDONLY else O_WRONLY), fh_offset = 0, fh_refcount = 1\<rparr>)
        (?s\<lparr>hfresh := hfresh ?s + 1\<rparr>)) =
     set_handle (hfresh ?s) (Some (?f\<lparr>fh_refcount := w32 (fh_refcount ?f + 1)\<rparr>)) (set_fd t n (Some (hfresh ?s)) ?u)"
    by (simp add: set_handle_def set_fd_def w32_id)
  ultimately show ?case using i by (simp add: Let_def)
qed

text \<open>What the tasks of the system can do to the descriptors; \<open>other\<close> is any call on the file system alone.\<close>

inductive fd_reach :: "op_tables \<Rightarrow> files \<Rightarrow> bool" for T where
  boot: "\<lbrakk>\<And>u i. fd_table s u i = None; \<And>h. handles s h = None; t < TASKS\<rbrakk> \<Longrightarrow> fd_reach T (init_fds slave t 3 s)"
| "open": "\<lbrakk>fd_reach T s; t < TASKS; sys_open T t path fl s = Some (r, s')\<rbrakk> \<Longrightarrow> fd_reach T s'"
| close: "\<lbrakk>fd_reach T s; sys_close T t fd s = Some (r, s')\<rbrakk> \<Longrightarrow> fd_reach T s'"
| dup: "\<lbrakk>fd_reach T s; t < TASKS; sys_dup T t old new s = Some (r, s')\<rbrakk> \<Longrightarrow> fd_reach T s'"
| read: "\<lbrakk>fd_reach T s; sys_read T t k n ok s = Some (r, xs, s')\<rbrakk> \<Longrightarrow> fd_reach T s'"
| "write": "\<lbrakk>fd_reach T s; sys_write T t k buf ok s = Some (r, s')\<rbrakk> \<Longrightarrow> fd_reach T s'"
| lseek: "\<lbrakk>fd_reach T s; sys_lseek t fd off whence s = Some (r, s')\<rbrakk> \<Longrightarrow> fd_reach T s'"
| fork: "\<lbrakk>fd_reach T s; c < TASKS; \<And>i. fd_table s c i = None; fork_table p c s = Some s'\<rbrakk> \<Longrightarrow> fd_reach T s'"
| exit: "\<lbrakk>fd_reach T s; exit_fds T t 0 FD_MAX s = Some s'\<rbrakk> \<Longrightarrow> fd_reach T s'"
| other: "fd_reach T s \<Longrightarrow> fd_reach T (s\<lparr>fs := v, cwd := w\<rparr>)"

lemma fd_reach_inv: "fd_reach T s \<Longrightarrow> fd_inv {} UNIV s"
proof (induction rule: fd_reach.induct)
  case (boot s t slave)
  have "fd_inv {} UNIV s" using boot by (simp add: fd_inv_def)
  then show ?case using init_fds_inv [of s t 3 slave] boot by (simp add: FD_MAX_def)
next
  case (other s v w)
  then show ?case by (simp add: fd_inv_def refs_def)
next
  case (fork s c p s')
  then show ?case using fork_table_inv by blast
qed (blast intro: sys_open_inv sys_close_inv sys_dup_inv same_fds_inv offset_calls_same dest: exit_fds_inv)+

definition holders :: "files \<Rightarrow> nat \<Rightarrow> (nat \<times> nat) set" where
  "holders s h = {(t, i). fd_table s t i = Some h}"

lemma holders_refs: "holders s h = refs UNIV s h"
  by (auto simp: holders_def refs_def)

lemma close_last:
  assumes i: "fd_inv {} UNIV s" and h: "fd_table s t j = Some h" and c: "close_fd T t (int j) s = Some (r, s')"
  shows "handles s' h = None \<longleftrightarrow> holders s h = {(t, j)}"
proof -
  note i' = close_fd_inv(1) [OF i c]
  have r: "holders s' h = holders s h - {(t, j)}"
    using close_fd_inv(2) [OF i c] by (auto simp: holders_def)
  have m: "(t, j) \<in> holders s h" using h by (simp add: holders_def)
  have "handles s' h = None \<longleftrightarrow> holders s' h = {}"
  proof
    assume "handles s' h = None"
    then show "holders s' h = {}" using fd_invD(1) [OF i', of _ _ h] by (auto simp: holders_def)
  next
    assume "holders s' h = {}"
    then show "handles s' h = None" using fd_invD(2) [OF i', of h] by (cases "handles s' h") (auto simp: holders_refs)
  qed
  then show ?thesis unfolding r using m by auto
qed

text \<open>
  C26. Whatever sequence of opens, closes, duplications, forks, exits, reads, writes and seeks the tasks
  make, the count of a handle is the number of descriptors, in all tasks, that hold it; no descriptor
  holds a freed handle and no handle is without a descriptor; closing a descriptor frees the handle
  exactly when it was the last one, and a task that exits keeps none.
\<close>

theorem fd_reach_counts:
  assumes "fd_reach T s"
  shows "(handles s h = Some f \<longrightarrow> fh_refcount f = card (holders s h) \<and> holders s h \<noteq> {})
    \<and> (handles s h = None \<longrightarrow> holders s h = {})
    \<and> (fd_table s t i = Some h \<longrightarrow> close_fd T t (int i) s = Some (r, s') \<longrightarrow>
         (handles s' h = None \<longleftrightarrow> holders s h = {(t, i)}) \<and> holders s' h = holders s h - {(t, i)})
    \<and> (exit_fds T t 0 FD_MAX s = Some s'' \<longrightarrow> fd_table s'' t j = None)"
proof (intro conjI impI)
  note i = fd_reach_inv [OF assms]
  show "fh_refcount f = card (holders s h)" "holders s h \<noteq> {}" if "handles s h = Some f"
    using fd_invD(2) [OF i that] by (simp_all add: holders_refs)
  show "holders s h = {}" if "handles s h = None" using fd_invD(1) [OF i, of _ _ h] that by (auto simp: holders_def)
  show "handles s' h = None \<longleftrightarrow> holders s h = {(t, i)}" if "fd_table s t i = Some h" "close_fd T t (int i) s = Some (r, s')"
    using close_last [OF i that] .
  show "holders s' h = holders s h - {(t, i)}" if "fd_table s t i = Some h" "close_fd T t (int i) s = Some (r, s')"
    using close_fd_inv(2) [OF i that(2)] by (auto simp: holders_def)
  show "fd_table s'' t j = None" if "exit_fds T t 0 FD_MAX s = Some s''"
    using exit_fds_inv [OF i that] fd_invD(1) [OF i, of t j] by (cases "fd_table s t j") auto
qed

definition demo_files :: files where
  "demo_files = init_fds (Some 1) 1 3 \<lparr>fs = demo_tree, handles = \<lambda>_. None, fd_table = \<lambda>_ _. None, hfresh = 1, cwd = [SLASH]\<rparr>"

lemma fd_reach_counts_witness:
  "\<exists>s. sys_dup demo_T 1 0 (-1) demo_files = Some (Done 3, s) \<and> map_option fh_refcount (handles s 1) = Some 2
     \<and> card (holders s 1) = 2 \<and> holders demo_files 1 = {(1, 0)}"
proof -
  have up: "[FIRST_FD..<FD_MAX] = 0 # 1 # 2 # 3 # [4..<64]" by (simp add: FIRST_FD_def FD_MAX_def upt_rec)
  have h: "fd_table demo_files = (\<lambda>_ _. None)(1 := (\<lambda>_. None)(0 := Some 1, 1 := Some 2, 2 := Some 3))"
    by (simp add: demo_files_def numeral_3_eq_3 Let_def set_fd_def set_handle_def fun_eq_iff)
  have f: "handles demo_files 1 = Some \<lparr>fh_node = Some 1, fh_flags = O_RDONLY, fh_offset = 0, fh_refcount = 1\<rparr>"
    by (simp add: demo_files_def numeral_3_eq_3 Let_def)
  define s where "s = set_handle 1 (Some \<lparr>fh_node = Some 1, fh_flags = O_RDONLY, fh_offset = 0, fh_refcount = 2\<rparr>) (set_fd 1 3 (Some 1) demo_files)"
  have w2: "w32 (Suc (Suc 0)) = 2" "w32 2 = 2" "Suc (Suc 0) = 2" by (simp_all add: w32_def)
  have d: "sys_dup demo_T 1 0 (-1) demo_files = Some (Done 3, s)"
    using f by (simp add: sys_dup_def FD_MAX_def h alloc_fd_def up [unfolded FD_MAX_def] w2 s_def)
  have r0: "fd_reach demo_T demo_files" unfolding demo_files_def by (rule fd_reach.boot) (simp_all add: TASKS_def)
  have r: "fd_reach demo_T s" by (rule fd_reach.dup [OF r0 _ d]) (simp add: TASKS_def)
  have c: "handles s 1 = Some \<lparr>fh_node = Some 1, fh_flags = O_RDONLY, fh_offset = 0, fh_refcount = 2\<rparr>" by (simp add: s_def)
  have "card (holders s 1) = 2" using conjunct1 [OF fd_reach_counts [OF r, of 1]] c by force
  moreover have "holders demo_files 1 = {(1, 0)}" by (auto simp: holders_def h split: if_splits)
  ultimately show ?thesis using d c by simp
qed

section \<open>A file that is created, removed and read\<close>

text \<open>The directory \<open>d\<close> at \<open>pp\<close> of a tmpfs tree, in which the caller may create and remove \<open>nm\<close>, at \<open>path\<close>.\<close>

definition dir_ok :: "vfs \<Rightarrow> nat \<Rightarrow> bool" where
  "dir_ok s d \<longleftrightarrow> (\<exists>dn c. nodes s d = Some dn \<and> has_flag VFS_FLAG_DIRECTORY dn \<and> v_refcount dn + 1 < 2 ^ 32 \<and> caller s = Some c
     \<and> vfs_check_dir_write (Some dn) (Some c) = 0 \<and> v_mode dn AND S_ISVTX = 0)"

definition at_dir :: "op_tables \<Rightarrow> vfs \<Rightarrow> nat \<Rightarrow> u8 list \<Rightarrow> u8 list \<Rightarrow> u8 list \<Rightarrow> nat \<Rightarrow> bool" where
  "at_dir T s root path pp nm d \<longleftrightarrow> tmpfs_tree T s \<and> vfs_root s = Some root \<and> nodes s root \<noteq> None
     \<and> (\<exists>pre. path = pre @ SLASH # nm \<and> pp = (if pre = [] then [SLASH] else pre)) \<and> path_ok path \<and> path_ok pp
     \<and> SLASH \<notin> set nm \<and> nm \<noteq> [] \<and> nm \<noteq> DOT \<and> nm \<noteq> DOTDOT \<and> walk s [root] (tokens {SLASH} pp) = Some d \<and> dir_ok s d"

lemma check_parent [simp]: "vfs_check_dir_write (Some (n\<lparr>v_parent := q\<rparr>)) c = vfs_check_dir_write (Some n) c"
  unfolding vfs_check_dir_write_def vfs_check_permission_def by (cases c) simp_all

lemma dir_ok_kept:
  assumes "dir_ok s d" "kept s s' d" "caller s' = caller s"
  shows "dir_ok s' d"
proof -
  obtain dn c where d: "nodes s d = Some dn" "has_flag VFS_FLAG_DIRECTORY dn" "v_refcount dn + 1 < 2 ^ 32" "caller s = Some c"
    "vfs_check_dir_write (Some dn) (Some c) = 0" "v_mode dn AND S_ISVTX = 0" using assms(1) by (auto simp: dir_ok_def)
  then obtain q where "nodes s' d = Some (dn\<lparr>v_parent := q\<rparr>)" using assms(2) by (auto simp: kept_def)
  moreover have "vfs_check_dir_write (Some (dn\<lparr>v_parent := q\<rparr>)) (Some c) = 0"
    using d(5) by simp
  ultimately show ?thesis using d assms(3) by (simp add: dir_ok_def has_flag_def)
qed

lemma parents_only_kept: "parents_only s s' \<Longrightarrow> kept s s' p"
  using parents_only_node(1) by (simp add: kept_def)

lemma walk_parents: "parents_only s s' \<Longrightarrow> walk s' st ts = walk s st ts"
  by (rule walk_cong) (simp_all add: parents_only_is_dir parents_only_listing)

lemma at_dir_parents:
  assumes a: "at_dir T s root path pp nm d" and p: "parents_only s s'"
  shows "at_dir T s' root path pp nm d"
proof -
  have "nodes s' root \<noteq> None" using a parents_only_node(1) [OF p] by (fastforce simp: at_dir_def)
  moreover have "dir_ok s' d" using dir_ok_kept [OF _ parents_only_kept [OF p]] a p by (simp add: at_dir_def parents_only_def)
  ultimately show ?thesis using a parents_only_tree [OF p] walk_parents [OF p] p
    by (simp add: at_dir_def parents_only_def)
qed

lemma at_dir_split:
  assumes "at_dir T s root path pp nm d"
  shows "split_path path = Some (pp, nm)" "tokens {SLASH} path = tokens {SLASH} pp @ [nm]" "name_ok nm"
    "build_abs_path w path = Some path"
proof -
  obtain pre where pre: "path = pre @ SLASH # nm" "pp = (if pre = [] then [SLASH] else pre)" using assms by (auto simp: at_dir_def)
  show "split_path path = Some (pp, nm)" using split_path_ok [OF pre(1)] pre(2) assms by (simp add: at_dir_def path_ok_def)
  show "tokens {SLASH} path = tokens {SLASH} pp @ [nm]" unfolding pre using assms by (intro tokens_split) (simp_all add: at_dir_def)
  have "set nm \<subseteq> set path" "length nm < length path" using pre(1) by auto
  then show "name_ok nm" using assms by (auto simp: name_ok_def path_ok_def at_dir_def)
  show "build_abs_path w path = Some path" using assms by (simp add: build_abs_path_def at_dir_def path_ok_def)
qed

lemma at_dir_resolve:
  assumes a: "at_dir T s root path pp nm d" and p: "path_ok p"
  shows "\<exists>s'. vfs_resolve_path T p s = Some (walk s [root] (tokens {SLASH} p), s') \<and> parents_only s s' \<and> at_dir T s' root path pp nm d"
proof -
  obtain s' where s': "vfs_resolve_path T p s = Some (walk s [root] (tokens {SLASH} p), s')" "parents_only s s'"
    using vfs_resolve_ok [OF _ _ _ p, of T s root] a by (auto simp: at_dir_def)
  then show ?thesis using at_dir_parents [OF a] by blast
qed

lemma tree_put: "tmpfs_tree T s \<Longrightarrow> nodes s p \<noteq> None \<Longrightarrow> vfs_put (Some p) s = Some s" "vfs_put None s = Some s"
  by (auto simp: vfs_put_def tmpfs_tree_def)

lemma walk_snoc:
  assumes "walk s st ts = Some d" "nm \<noteq> DOT" "nm \<noteq> DOTDOT"
  shows "walk s st (ts @ [nm]) = (if is_dir s d then map_of (listing s d) nm else None)"
  using assms(1)
proof (induction ts arbitrary: st)
  case Nil
  then show ?case using assms(2,3) by (auto split: option.splits)
next
  case (Cons t ts)
  then show ?case by (auto split: if_splits option.splits)
qed

lemma at_dir_walk:
  assumes "at_dir T s root path pp nm d"
  shows "walk s [root] (tokens {SLASH} path) = map_of (listing s d) nm" "walk s [root] (tokens {SLASH} pp) = Some d" "is_dir s d"
proof -
  show w: "walk s [root] (tokens {SLASH} pp) = Some d" and i: "is_dir s d" using assms by (auto simp: at_dir_def dir_ok_def is_dir_def)
  show "walk s [root] (tokens {SLASH} path) = map_of (listing s d) nm"
    unfolding at_dir_split(2) [OF assms] using walk_snoc [OF w] i assms by (simp add: at_dir_def)
qed

text \<open>Removing a file with a count of at most 1.\<close>

lemma vfs_unlink_ok:
  assumes a: "at_dir T s root path pp nm d" and c: "map_of (listing s d) nm = Some c" "nodes s c = Some n"
    and k: "\<not> has_flag VFS_FLAG_DIRECTORY n" "v_refcount n \<le> 1"
  shows "\<exists>s'. vfs_unlink T path s = Some (0, s') \<and> nodes s' c = None"
proof -
  obtain dn where dn: "nodes s d = Some dn" "has_flag VFS_FLAG_DIRECTORY dn" using a by (auto simp: at_dir_def dir_ok_def)
  have cd: "c \<noteq> d" using c(2) dn k(1) by auto
  have t: "tmpfs_tree T s" and r: "vfs_root s = Some root" "nodes s root \<noteq> None" "path_ok pp" using a by (simp_all add: at_dir_def)
  obtain s1 n1 where o: "vfs_open T pp s = Some (Some d, set_node d (Some (n1\<lparr>v_refcount := w32 (v_refcount n1 + 1)\<rparr>)) s1)"
    "nodes s1 d = Some n1" "parents_only s s1"
    using vfs_open_ok [OF t r at_dir_walk(2) [OF a]] by blast
  note t1 = parents_only_tree [OF o(3) t]
  let ?n = "n1\<lparr>v_refcount := w32 (v_refcount n1 + 1)\<rparr>"
  let ?s = "set_node d (Some ?n) s1"
  note t2 = set_count [OF t1 o(2), of "w32 (v_refcount n1 + 1)"]
  have fl: "has_flag VFS_FLAG_DIRECTORY ?n" using parents_only_node(1) [OF o(3) dn(1)] o(2) dn(2) by (auto simp: has_flag_def)
  have l: "map_of (listing ?s d) nm = Some c" unfolding t2(2) using parents_only_listing [OF o(3)] c(1) by simp
  obtain m where m: "nodes ?s c = Some m" "\<not> has_flag VFS_FLAG_DIRECTORY m" "\<not> v_refcount m > 1"
    using parents_only_node(1) [OF o(3) c(2)] cd k by (auto simp: has_flag_def)
  have ok2: "tree_ok ?s" using t2(1) by (simp add: tmpfs_tree_def)
  have nd: "nodes ?s d = Some ?n" by simp
  obtain s2 where u: "tmpfs_unlink d nm ?s = Some (0, s2)" "gone ?s d nm c s2"
    using tmpfs_unlink_ok [OF ok2 nd fl, of nm] l m by auto
  have ops: "v_ops ?n = Some TMPFS_OPS" "T TMPFS_OPS = tmpfs_ops" using t1 o(2) by (auto simp: tmpfs_tree_def)
  have n2: "nodes s2 d = Some ?n" "nodes s2 c = None" using u(2) cd by (auto simp: gone_def same_files_def)
  have "vfs_close T (Some d) s2 = Some (set_node d (Some (?n\<lparr>v_refcount := v_refcount ?n - 1\<rparr>)) s2)" if "v_refcount ?n > 0"
    using n2 ops that t1 o(2) by (auto simp: vfs_close_def node_op_def tmpfs_ops_def tmpfs_close_def Let_def tmpfs_tree_def has_flag_def)
  moreover have "vfs_close T (Some d) s2 = Some (set_node d (Some ?n) s2)" if "\<not> v_refcount ?n > 0"
    using n2 ops that t1 o(2) by (auto simp: vfs_close_def node_op_def tmpfs_ops_def tmpfs_close_def Let_def tmpfs_tree_def has_flag_def)
  ultimately obtain z where "vfs_close T (Some d) s2 = Some (set_node d z s2)" by blast
  then have "vfs_unlink T path s = Some (0, set_node d z s2)"
    using at_dir_split(1) [OF a] o(1) ops u(1) a by (simp add: vfs_unlink_def vfs_remove_def node_op_def tmpfs_ops_def at_dir_def path_ok_def)
  then show ?thesis using n2(2) cd by simp
qed

lemma at_dir_create:
  assumes a: "at_dir T s root path pp nm d" and none: "map_of (listing s d) nm = None"
  shows "\<exists>c s' n. vfs_create T path s = Some (Some c, s') \<and> at_dir T s' root path pp nm d \<and> map_of (listing s' d) nm = Some c
    \<and> nodes s' c = Some n \<and> has_flag VFS_FLAG_FILE n \<and> v_refcount n = 1"
proof -
  obtain pre where pre: "path = pre @ SLASH # nm" "pp = (if pre = [] then [SLASH] else pre)" using a by (auto simp: at_dir_def)
  obtain dn where dn: "nodes s d = Some dn" "has_flag VFS_FLAG_DIRECTORY dn" "v_refcount dn + 1 < 2 ^ 32"
    using a by (auto simp: at_dir_def dir_ok_def)
  have *: "tmpfs_tree T s" "vfs_root s = Some root" "nodes s root \<noteq> None" "path_ok path" "SLASH \<notin> set nm" "nm \<noteq> []" "nm \<noteq> DOT" "nm \<noteq> DOTDOT"
    "path_ok pp" "walk s [root] (tokens {SLASH} pp) = Some d" using a by (simp_all add: at_dir_def)
  obtain c s' n where c: "vfs_create T path s = Some (Some c, s')" "tmpfs_tree T s'" "same_env s s'" "nodes s c = None" "nodes s' c = Some n"
    "has_flag VFS_FLAG_FILE n" "v_refcount n = 1" "listing s' d = (nm, c) # listing s d" "\<forall>x. x \<noteq> c \<longrightarrow> kept s s' x"
    "walk s' [root] (tokens {SLASH} pp) = Some d"
    using vfs_create_ok [OF *(1-3) pre(1) *(4-8) pre(2) *(9,10) dn none] by blast
  have "root \<noteq> c" "d \<noteq> c" using c(4) *(3) dn(1) by auto
  then have k: "kept s s' root" "kept s s' d" using c(9) by blast+
  have "nodes s' root \<noteq> None" using k(1) *(3) by (auto simp: kept_def)
  moreover have "dir_ok s' d" using dir_ok_kept [OF _ k(2)] a c(3) by (simp add: at_dir_def same_env_def)
  ultimately have "at_dir T s' root path pp nm d" using a c(2,3,10) by (simp add: at_dir_def same_env_def)
  then show ?thesis using c(1,5-8) by auto
qed

lemma file_not_dir:
  assumes "has_flag VFS_FLAG_FILE n" "tmpfs_tree T s" "nodes s c = Some n"
  shows "\<not> has_flag VFS_FLAG_DIRECTORY n"
  using assms unfolding tmpfs_tree_def tree_ok_def nodes_ok_def node_ok_def
  by (auto simp: has_flag_def vfs_flag_defs)

definition O_NEW :: u32 where "O_NEW = O_CREAT OR O_RDWR"

lemma O_NEW_bits: "O_NEW AND O_TRUNC = 0" "O_NEW AND O_CREAT \<noteq> 0" "O_NEW AND O_APPEND = 0" "handle_readable O_NEW"
  by (simp_all add: O_NEW_def O_CREAT_def O_RDWR_def O_TRUNC_def O_APPEND_def handle_readable_def O_WRONLY_def)

lemma open_create_ok:
  assumes a: "at_dir T s root path pp nm d" and none: "map_of (listing s d) nm = None"
  shows "\<exists>c s' n. open_create T path s = Some (0, Some c, s') \<and> at_dir T s' root path pp nm d \<and> map_of (listing s' d) nm = Some c
    \<and> nodes s' c = Some n \<and> has_flag VFS_FLAG_FILE n \<and> v_refcount n = 1"
proof -
  have pp: "path_ok pp" using a by (simp add: at_dir_def)
  obtain s1 where s1: "vfs_resolve_path T pp s = Some (Some d, s1)" "parents_only s s1" "at_dir T s1 root path pp nm d"
    using at_dir_resolve [OF a pp] at_dir_walk(2) [OF a] by auto
  obtain dn c where d: "nodes s1 d = Some dn" "caller s1 = Some c" "vfs_check_dir_write (Some dn) (Some c) = 0"
    using s1(3) by (auto simp: at_dir_def dir_ok_def)
  have p: "vfs_put (Some d) s1 = Some s1" using tree_put(1) [of T s1 d] s1(3) d(1) by (simp add: at_dir_def)
  have "map_of (listing s1 d) nm = None" using none parents_only_listing [OF s1(2)] by simp
  from at_dir_create [OF s1(3) this] show ?thesis
    using at_dir_split(1) [OF a] s1(1) d p by (auto simp: open_create_def perm_of_def)
qed

lemma sys_open_new:
  assumes a: "at_dir T (fs s) root path pp nm d" and none: "map_of (listing (fs s) d) nm = None"
    and k: "fd_table s t k = None" "k < FD_MAX"
  shows "\<exists>fd s1 c n h f. sys_open T t path O_NEW s = Some (Done (int fd), s1) \<and> fd < FD_MAX \<and> at_dir T (fs s1) root path pp nm d
    \<and> map_of (listing (fs s1) d) nm = Some c \<and> nodes (fs s1) c = Some n \<and> has_flag VFS_FLAG_FILE n \<and> v_refcount n = 1
    \<and> fd_table s1 t fd = Some h \<and> handles s1 h = Some f \<and> fh_node f = Some c \<and> fh_flags f = O_NEW \<and> fh_refcount f = 1"
proof -
  have path: "path_ok path" using a by (simp add: at_dir_def)
  obtain v where v: "vfs_resolve_path T path (fs s) = Some (None, v)" "parents_only (fs s) v" "at_dir T v root path pp nm d"
    using at_dir_resolve [OF a path] at_dir_walk(1) [OF a] none by auto
  have none1: "map_of (listing v d) nm = None" using none parents_only_listing [OF v(2)] by simp
  have o: "vfs_open T path (fs s) = Some (None, v)" using v(1) by (simp add: vfs_open_def)
  obtain c v1 n where c: "open_create T path v = Some (0, Some c, v1)" "at_dir T v1 root path pp nm d" "map_of (listing v1 d) nm = Some c"
    "nodes v1 c = Some n" "has_flag VFS_FLAG_FILE n" "v_refcount n = 1"
    using open_create_ok [OF v(3) none1] by blast
  obtain fd where fd: "find (\<lambda>i. fd_table s t i = None) [FIRST_FD..<FD_MAX] = Some fd"
    using k by (cases "find (\<lambda>i. fd_table s t i = None) [FIRST_FD..<FD_MAX]") (auto simp: find_None_iff FIRST_FD_def)
  then have "fd < FD_MAX" by (auto simp: find_Some_iff)
  define s1 where "s1 = set_handle (hfresh s) (Some \<lparr>fh_node = Some c, fh_flags = O_NEW, fh_offset = 0, fh_refcount = w32 (0 + 1)\<rparr>)
    (set_fd t fd (Some (hfresh s)) (set_handle (hfresh s) (Some \<lparr>fh_node = Some c, fh_flags = O_NEW, fh_offset = 0, fh_refcount = 0\<rparr>)
      (s\<lparr>fs := v1, hfresh := hfresh s + 1\<rparr>)))"
  have "open_finish T t (Some c) O_NEW (s\<lparr>fs := v1\<rparr>) = Some (Done (int fd), s1)"
    using fd by (simp add: open_finish_def O_NEW_bits alloc_fd_def s1_def Let_def)
  then have "sys_open T t path O_NEW s = Some (Done (int fd), s1)"
    using at_dir_split(4) [OF a] o c(1) O_NEW_bits(2) by (simp add: sys_open_def)
  moreover have "fs s1 = v1" "fd_table s1 t fd = Some (hfresh s)"
    "handles s1 (hfresh s) = Some \<lparr>fh_node = Some c, fh_flags = O_NEW, fh_offset = 0, fh_refcount = w32 (0 + 1)\<rparr>"
    by (simp_all add: s1_def)
  moreover have "fh_node \<lparr>fh_node = Some c, fh_flags = O_NEW, fh_offset = 0, fh_refcount = w32 (0 + 1)\<rparr> = Some c"
    "fh_flags \<lparr>fh_node = Some c, fh_flags = O_NEW, fh_offset = 0, fh_refcount = w32 (0 + 1)\<rparr> = O_NEW"
    "fh_refcount \<lparr>fh_node = Some c, fh_flags = O_NEW, fh_offset = 0, fh_refcount = w32 (0 + 1)\<rparr> = 1" by (simp_all add: w32_def)
  ultimately show ?thesis using \<open>fd < FD_MAX\<close> c(2-6) by blast
qed

lemma sys_unlink_ok:
  assumes a: "at_dir T (fs s) root path pp nm d" and c: "map_of (listing (fs s) d) nm = Some c" "nodes (fs s) c = Some n"
    and n: "has_flag VFS_FLAG_FILE n" "v_refcount n \<le> 1"
  shows "\<exists>v. sys_unlink T path s = Some (Done 0, s\<lparr>fs := v\<rparr>) \<and> nodes v c = None"
proof -
  have path: "path_ok path" "path_ok pp" using a by (simp_all add: at_dir_def)
  obtain v where v: "vfs_resolve_path T path (fs s) = Some (Some c, v)" "parents_only (fs s) v" "at_dir T v root path pp nm d"
    using at_dir_resolve [OF a path(1)] at_dir_walk(1) [OF a] c by auto
  obtain v1 where v1: "vfs_resolve_path T pp v = Some (Some d, v1)" "parents_only v v1" "at_dir T v1 root path pp nm d"
    using at_dir_resolve [OF v(3) path(2)] at_dir_walk(2) [OF v(3)] by auto
  obtain q where q: "nodes v c = Some (n\<lparr>v_parent := q\<rparr>)" using parents_only_node(1) [OF v(2) c(2)] by blast
  then obtain q1 where q1: "nodes v1 c = Some (n\<lparr>v_parent := q1\<rparr>)" using parents_only_node(1) [OF v1(2)] by fastforce
  have nd: "\<not> has_flag VFS_FLAG_DIRECTORY n" using file_not_dir [OF n(1) _ c(2)] a by (auto simp: at_dir_def)
  obtain dn cr where d: "nodes v1 d = Some dn" "caller v1 = Some cr" "vfs_check_dir_write (Some dn) (Some cr) = 0" "v_mode dn AND S_ISVTX = 0"
    using v1(3) by (auto simp: at_dir_def dir_ok_def)
  have t1: "tmpfs_tree T v1" using v1(3) by (simp add: at_dir_def)
  have puts: "vfs_put (Some c) v1 = Some v1" "vfs_put (Some d) v1 = Some v1" using tree_put(1) [OF t1] q1 d(1) by simp_all
  have l: "map_of (listing v1 d) nm = Some c" using c(1) parents_only_listing [OF v(2)] parents_only_listing [OF v1(2)] by simp
  have nd1: "\<not> has_flag VFS_FLAG_DIRECTORY (n\<lparr>v_parent := q1\<rparr>)" "\<not> has_flag VFS_FLAG_DIRECTORY (n\<lparr>v_parent := q\<rparr>)"
    using nd by (simp_all add: has_flag_def)
  obtain v2 where v2: "vfs_unlink T path v1 = Some (0, v2)" "nodes v2 c = None"
    using vfs_unlink_ok [OF v1(3) l q1 nd1(1)] n(2) by auto
  have "may_remove v1 c (Some d) = Some True" using d q1 by (simp add: may_remove_def)
  then have "sys_unlink T path s = Some (Done 0, s\<lparr>fs := v2\<rparr>)"
    using at_dir_split(1,4) [OF a] v(1) q nd1(2) v1(1) puts v2(1) by (simp add: sys_unlink_def)
  then show ?thesis using v2(2) by blast
qed

text \<open>
  C27. A file that \<^verbatim>\<open>open\<close> creates in a tmpfs directory has the count 1 of its new node, and the descriptor
  is not counted: \<^verbatim>\<open>unlink\<close> takes the file for unused and frees its node while the descriptor still
  points to it. The next read, write or close through that descriptor follows the freed pointer.
\<close>

theorem created_file_dangles:
  assumes "at_dir T (fs s) root path pp nm d" "map_of (listing (fs s) d) nm = None"
    and "fd_table s t k = None" "k < FD_MAX"
  shows "\<exists>fd s1 v h f c. sys_open T t path O_NEW s = Some (Done (int fd), s1) \<and> sys_unlink T path s1 = Some (Done 0, s1\<lparr>fs := v\<rparr>)
    \<and> fd_table s1 t fd = Some h \<and> handles s1 h = Some f \<and> fh_node f = Some c \<and> nodes v c = None
    \<and> sys_read T t fd n ok (s1\<lparr>fs := v\<rparr>) = None \<and> sys_write T t fd buf ok (s1\<lparr>fs := v\<rparr>) = None
    \<and> sys_close T t (int fd) (s1\<lparr>fs := v\<rparr>) = None"
proof -
  obtain fd s1 c m h f where o: "sys_open T t path O_NEW s = Some (Done (int fd), s1)" "fd < FD_MAX" "at_dir T (fs s1) root path pp nm d"
    "map_of (listing (fs s1) d) nm = Some c" "nodes (fs s1) c = Some m" "has_flag VFS_FLAG_FILE m" "v_refcount m = 1"
    "fd_table s1 t fd = Some h" "handles s1 h = Some f" "fh_node f = Some c" "fh_flags f = O_NEW" "fh_refcount f = 1"
    using sys_open_new [OF assms] by blast
  obtain v where v: "sys_unlink T path s1 = Some (Done 0, s1\<lparr>fs := v\<rparr>)" "nodes v c = None"
    using sys_unlink_ok [OF o(3-6)] o(7) by auto
  have w: "handle_writable O_NEW" by (simp add: handle_writable_def O_NEW_def O_CREAT_def O_RDWR_def O_RDONLY_def)
  have "sys_read T t fd n ok (s1\<lparr>fs := v\<rparr>) = None"
    using o(2,8-11) O_NEW_bits(4) v(2) by (simp add: sys_read_def)
  moreover have "sys_write T t fd buf ok (s1\<lparr>fs := v\<rparr>) = None"
    using o(2,8-11) w v(2) by (simp add: sys_write_def)
  moreover have "sys_close T t (int fd) (s1\<lparr>fs := v\<rparr>) = None"
    using o(2,8-10,12) v(2) by (simp add: sys_close_def close_fd_def close_node_def sub32_def Let_def)
  ultimately show ?thesis using o(1,8-10) v by blast
qed

definition demo_user :: files where
  "demo_user = demo_files\<lparr>fs := demo_tree\<lparr>caller := Some (demo_cred\<lparr>c_euid := 0\<rparr>)\<rparr>\<rparr>"

lemma demo_user_ok: "at_dir demo_T (fs demo_user) 1 [0x2F, 0x61] [SLASH] [0x61] 1" "listing (fs demo_user) 1 = []"
  "fd_table demo_user 1 5 = None"
proof -
  let ?s = "demo_tree\<lparr>caller := Some (demo_cred\<lparr>c_euid := 0\<rparr>)\<rparr>"
  have f: "fs demo_user = ?s" by (simp add: demo_user_def)
  show "fd_table demo_user 1 5 = None" by (simp add: demo_user_def demo_files_def numeral_3_eq_3 Let_def)
  obtain dn where dn: "nodes ?s 1 = Some dn" "has_flag VFS_FLAG_DIRECTORY dn" "v_refcount dn = 1" "v_mode dn = S_IFDIR OR 0x1ED"
    by (auto simp: demo_tree_def demo_fs_def tmpfs_mount_def empty_vfs_def has_flag_def vfs_flag_defs Let_def)
  have "v_mode dn AND S_ISVTX = 0" unfolding dn(4) by (simp add: S_IFDIR_def S_ISVTX_def)
  moreover have "vfs_check_dir_write (Some dn) (Some (demo_cred\<lparr>c_euid := 0\<rparr>)) = 0"
    by (simp add: vfs_check_dir_write_def vfs_check_permission_def)
  ultimately have d: "dir_ok ?s 1" using dn by (simp add: dir_ok_def)
  have p: "path_ok [0x2F, 0x61]" "path_ok [SLASH]" by (simp_all add: path_ok_def SLASH_def tokens.simps)
  have w: "walk ?s [1] (tokens {SLASH} [SLASH]) = Some 1" by (simp add: tokens_skip1 tokens_Nil)
  have t: "tmpfs_tree demo_T ?s" using demo_tree_ok(1)
    by (simp add: tmpfs_tree_def tree_ok_def nodes_ok_def dirs_ok_def node_ok_def)
  show "at_dir demo_T (fs demo_user) 1 [0x2F, 0x61] [SLASH] [0x61] 1"
    unfolding at_dir_def f using demo_tree_ok(2,3) p w t d by (simp add: SLASH_def DOT_def DOTDOT_def)
  show "listing (fs demo_user) 1 = []" using demo_tree_ok(5) unfolding f by (auto simp: listing_def dir_of_def split: option.splits)
qed

lemma created_file_dangles_witness:
  "\<exists>fd s1 v. sys_open demo_T 1 [0x2F, 0x61] O_NEW demo_user = Some (Done (int fd), s1)
     \<and> sys_unlink demo_T [0x2F, 0x61] s1 = Some (Done 0, s1\<lparr>fs := v\<rparr>) \<and> sys_read demo_T 1 fd 10 True (s1\<lparr>fs := v\<rparr>) = None"
proof -
  have "map_of (listing (fs demo_user) 1) [0x61] = None" using demo_user_ok(2) by simp
  moreover have "5 < FD_MAX" by (simp add: FD_MAX_def)
  ultimately show ?thesis using created_file_dangles [OF demo_user_ok(1) _ demo_user_ok(3), of 10 True "[]"] by blast
qed

end
