(* ===== verification/Pty.thy ===== *)
theory Pty
  imports Ring Vnode
begin

text \<open>
  The terminals of \<^verbatim>\<open>kernel/pty/pty.c\<close>: the rings, the queues of waiting readers, the line discipline
  in both directions, the slave and master ends, and switching between the kernel's terminals. What
  a terminal shows is the bytes it was given to render (the interpretation of escape sequences is
  in the video driver); waking a task, delivering bytes to it and signalling it are recorded as events,
  in order. \<open>alive\<close> tells whether a task has a process number.
\<close>

definition PTY_RING_SIZE :: nat where "PTY_RING_SIZE = 65536"
definition PTY_LINE_SIZE :: nat where "PTY_LINE_SIZE = 4096"
definition PTY_MAX :: nat where "PTY_MAX = 16"
definition NUM_KERNEL_VTYS :: nat where "NUM_KERNEL_VTYS = 4"
definition PTY_FLAG_KERNEL_VTY :: u8 where "PTY_FLAG_KERNEL_VTY = 1"
definition PTY_FLAG_ALLOCATED :: u8 where "PTY_FLAG_ALLOCATED = 2"
definition SIG_INT :: int where "SIG_INT = 2"
definition SIG_HUP :: int where "SIG_HUP = 1"

subsection \<open>State\<close>

record term_state =
  cursor_col :: u32
  cursor_row :: u32
  fg_color :: u32
  bg_color :: u32
  ansi_fg :: u32
  ansi_bg :: u32
  ansi_bold :: u8
  scroll_region_top :: u32
  scroll_region_bottom :: u32
  saved_cursor_col :: u32
  saved_cursor_row :: u32
  cursor_visible :: u8
  in_alt_screen :: u8
  alt_cursor_col :: u32
  alt_cursor_row :: u32

record pty_attr =
  echo :: bool
  icanon :: bool
  isig :: bool
  onlcr :: bool
  cc_vintr :: u8
  cc_veof :: u8
  cc_verase :: u8
  cc_vkill :: u8

record pty_ring =
  rg_buf :: "u8 list"
  rg_read :: nat
  rg_write :: nat
  rg_len :: nat

text \<open>A waiting reader: its task, the address of its buffer in user memory (0 is NULL), and the size of the buffer.\<close>

record pty_input_waiter =
  w_task :: nat
  w_buf :: nat
  w_size :: nat

datatype pty_event = Deliver nat nat "u8 list" | Unblock nat | Signal int int

record pty =
  pt_flags :: u8
  pt_id :: nat
  attr :: pty_attr
  input_ring :: pty_ring
  output_ring :: pty_ring
  line_buf :: "u8 list"
  screen_buf :: "nat option"
  pt_term :: term_state
  foreground_pid :: int
  input_waiters :: "pty_input_waiter list"
  output_waiters :: "nat list"
  master_refcount :: nat
  slave_refcount :: nat
  shown :: "u8 list"
  events :: "pty_event list"

definition pflag :: "u8 \<Rightarrow> pty \<Rightarrow> bool" where
  "pflag f p \<longleftrightarrow> pt_flags p AND f \<noteq> 0"

definition log_event :: "pty_event \<Rightarrow> pty \<Rightarrow> pty" where
  "log_event e p = p\<lparr>events := events p @ [e]\<rparr>"

subsection \<open>The rings\<close>

definition empty_ring :: pty_ring where
  "empty_ring = \<lparr>rg_buf = replicate PTY_RING_SIZE 0, rg_read = 0, rg_write = 0, rg_len = 0\<rparr>"

definition pty_ring_write :: "u8 list \<Rightarrow> pty_ring \<Rightarrow> nat \<times> pty_ring" where
  "pty_ring_write xs r =
     (let space = sub32 PTY_RING_SIZE (rg_len r);
          k = (if length xs > space then space else length xs);
          (buf, wp) = ring_put (rg_buf r) PTY_RING_SIZE (rg_write r) (take k xs)
      in (k, r\<lparr>rg_buf := buf, rg_write := wp, rg_len := rg_len r + k\<rparr>))"

definition pty_ring_read :: "nat \<Rightarrow> pty_ring \<Rightarrow> u8 list \<times> pty_ring" where
  "pty_ring_read n r =
     (let k = (if n > rg_len r then rg_len r else n);
          (xs, rp) = ring_get (rg_buf r) PTY_RING_SIZE (rg_read r) k
      in (xs, r\<lparr>rg_read := rp, rg_len := rg_len r - k\<rparr>))"

definition put_out :: "u8 list \<Rightarrow> pty \<Rightarrow> pty" where
  "put_out xs p = p\<lparr>output_ring := snd (pty_ring_write xs (output_ring p))\<rparr>"

definition put_in :: "u8 list \<Rightarrow> pty \<Rightarrow> pty" where
  "put_in xs p = p\<lparr>input_ring := snd (pty_ring_write xs (input_ring p))\<rparr>"

subsection \<open>Waiters\<close>

definition pty_input_waiter_enqueue :: "pty_input_waiter \<Rightarrow> pty \<Rightarrow> pty" where
  "pty_input_waiter_enqueue w p = p\<lparr>input_waiters := input_waiters p @ [w]\<rparr>"

text \<open>The bytes for a reader leave the ring in pieces of at most 256.\<close>

function deliver_loop :: "nat \<Rightarrow> pty_ring \<Rightarrow> u8 list \<times> pty_ring" where
  "deliver_loop n r =
     (if n = 0 then ([], r)
      else let chunk = min n 256; (xs, r1) = pty_ring_read chunk r; (ys, r2) = deliver_loop (n - chunk) r1 in (xs @ ys, r2))"
  by auto

termination by (relation "measure fst") auto

declare deliver_loop.simps [simp del]

definition pty_input_wake_one :: "pty \<Rightarrow> pty" where
  "pty_input_wake_one p =
     (case input_waiters p of
        [] \<Rightarrow> p
      | w # ws \<Rightarrow>
          let avail = rg_len (input_ring p);
              to_read = (if w_size w < avail then w_size w else avail);
              p1 = p\<lparr>input_waiters := ws\<rparr>
          in if to_read > 0 \<and> w_buf w \<noteq> 0 then
               let (xs, r) = deliver_loop to_read (input_ring p)
               in log_event (Deliver (w_task w) (w_buf w) xs) (p1\<lparr>input_ring := r\<rparr>)
             else log_event (Deliver (w_task w) (w_buf w) []) p1)"

lemma wake_one_waiters [simp]: "input_waiters (pty_input_wake_one p) = tl (input_waiters p)"
  by (auto simp: pty_input_wake_one_def log_event_def Let_def split: list.splits prod.splits)

function pty_input_wake_all :: "pty \<Rightarrow> pty" where
  "pty_input_wake_all p = (if input_waiters p = [] then p else pty_input_wake_all (pty_input_wake_one p))"
  by auto

termination by (relation "measure (\<lambda>p. length (input_waiters p))") auto

declare pty_input_wake_all.simps [simp del]

definition pty_output_waiter_enqueue :: "nat \<Rightarrow> pty \<Rightarrow> pty" where
  "pty_output_waiter_enqueue t p = p\<lparr>output_waiters := output_waiters p @ [t]\<rparr>"

definition pty_output_wake_one :: "pty \<Rightarrow> pty" where
  "pty_output_wake_one p = (case output_waiters p of [] \<Rightarrow> p | t # ts \<Rightarrow> log_event (Unblock t) (p\<lparr>output_waiters := ts\<rparr>))"

definition pty_output_wake_all :: "pty \<Rightarrow> pty" where
  "pty_output_wake_all p = p\<lparr>output_waiters := [], events := events p @ map Unblock (output_waiters p)\<rparr>"

subsection \<open>Attributes\<close>

definition pty_default_attr :: pty_attr where
  "pty_default_attr = \<lparr>echo = True, icanon = True, isig = True, onlcr = True, cc_vintr = 3, cc_veof = 4, cc_verase = 8, cc_vkill = 21\<rparr>"

definition pty_default_term_state :: term_state where
  "pty_default_term_state = \<lparr>cursor_col = 0, cursor_row = 0, fg_color = 0xFFFFFFFF, bg_color = 0xFF000000, ansi_fg = 0xFFFFFFFF,
     ansi_bg = 0xFF000000, ansi_bold = 0, scroll_region_top = 0, scroll_region_bottom = 0, saved_cursor_col = 0, saved_cursor_row = 0,
     cursor_visible = 1, in_alt_screen = 0, alt_cursor_col = 0, alt_cursor_row = 0\<rparr>"

subsection \<open>The line discipline\<close>

text \<open>Active or not, a kernel terminal renders to its own screen.\<close>

definition pty_render_to_vty :: "u8 list \<Rightarrow> pty \<Rightarrow> pty" where
  "pty_render_to_vty xs p = (if \<not> pflag PTY_FLAG_KERNEL_VTY p then p else p\<lparr>shown := shown p @ xs\<rparr>)"

definition pty_ldisc_flush_line :: "pty \<Rightarrow> pty" where
  "pty_ldisc_flush_line p = pty_input_wake_one ((put_in (line_buf p) p)\<lparr>line_buf := []\<rparr>)"

text \<open>The echo: to the screen, or to the output ring with one reader of it woken.\<close>

definition pty_echo :: "u8 list \<Rightarrow> u8 list \<Rightarrow> pty \<Rightarrow> pty" where
  "pty_echo vty ring p =
     (if \<not> echo (attr p) then p
      else if pflag PTY_FLAG_KERNEL_VTY p then pty_render_to_vty vty p
      else pty_output_wake_one (put_out ring p))"

definition erase_seq :: "u8 list" where "erase_seq = [8, 0x20, 8]"

fun kill_line :: "nat \<Rightarrow> pty \<Rightarrow> pty" where
  "kill_line 0 p = p"
| "kill_line (Suc n) p =
     (let p1 = p\<lparr>line_buf := butlast (line_buf p)\<rparr>
      in kill_line n (if \<not> echo (attr p1) then p1
                      else if pflag PTY_FLAG_KERNEL_VTY p1 then pty_render_to_vty erase_seq p1 else put_out erase_seq p1))"

definition ldisc_intr :: "(int \<Rightarrow> bool) \<Rightarrow> pty \<Rightarrow> pty" where
  "ldisc_intr alive p =
     (let p1 = (if echo (attr p) then pty_render_to_vty [0x5E, 0x43, 0x0A] p else p);
          p2 = (if foreground_pid p1 > 0 \<and> alive (foreground_pid p1) then log_event (Signal (foreground_pid p1) SIG_INT) p1 else p1)
      in pty_input_wake_all (p2\<lparr>line_buf := []\<rparr>))"

definition ldisc_cooked :: "u8 \<Rightarrow> pty \<Rightarrow> pty" where
  "ldisc_cooked c p =
     (if c = cc_verase (attr p) \<or> c = 8 \<or> c = 0x7F then
        (if line_buf p \<noteq> [] then pty_echo erase_seq erase_seq (p\<lparr>line_buf := butlast (line_buf p)\<rparr>) else p)
      else if c = cc_vkill (attr p) then
        (let p1 = kill_line (length (line_buf p)) p
         in if echo (attr p1) \<and> \<not> pflag PTY_FLAG_KERNEL_VTY p1 then pty_output_wake_one p1 else p1)
      else if c = 0x0A \<or> c = 0x0D then
        (let p1 = (if length (line_buf p) < PTY_LINE_SIZE then p\<lparr>line_buf := line_buf p @ [0x0A]\<rparr> else p)
         in pty_ldisc_flush_line (pty_echo [0x0A] [0x0D, 0x0A] p1))
      else if length (line_buf p) < PTY_LINE_SIZE then pty_echo [c] [c] (p\<lparr>line_buf := line_buf p @ [c]\<rparr>)
      else p)"

definition pty_ldisc_input :: "(int \<Rightarrow> bool) \<Rightarrow> u8 \<Rightarrow> pty \<Rightarrow> pty" where
  "pty_ldisc_input alive c p =
     (if isig (attr p) \<and> c = cc_vintr (attr p) then ldisc_intr alive p
      else if icanon (attr p) \<and> c = cc_veof (attr p) then pty_ldisc_flush_line p
      else if icanon (attr p) then ldisc_cooked c p
      else pty_echo [c] [c] (pty_input_wake_one (put_in [c] p)))"

text \<open>The output of a kernel terminal: the parts between the line feeds, \<open>part\<close> being the one begun.\<close>

fun render_lines :: "u8 list \<Rightarrow> u8 list \<Rightarrow> pty \<Rightarrow> pty" where
  "render_lines part [] p = (if part \<noteq> [] then pty_render_to_vty part p else p)"
| "render_lines part (c # cs) p =
     (if c = 0x0A then
        render_lines [] cs (pty_render_to_vty [0x0D, 0x0A] (if part \<noteq> [] then pty_render_to_vty part p else p))
      else render_lines (part @ [c]) cs p)"

fun output_loop :: "u8 list \<Rightarrow> nat \<Rightarrow> pty \<Rightarrow> nat \<times> pty" where
  "output_loop [] consumed p = (consumed, p)"
| "output_loop (c # cs) consumed p =
     (let space = sub32 PTY_RING_SIZE (rg_len (output_ring p))
      in if c = 0x0A then
           (if space < 2 then (consumed, p) else output_loop cs (consumed + 1) (put_out [0x0D, 0x0A] p))
         else (if space < 1 then (consumed, p) else output_loop cs (consumed + 1) (put_out [c] p)))"

definition pty_ldisc_output :: "u8 list \<Rightarrow> pty \<Rightarrow> nat \<times> pty" where
  "pty_ldisc_output xs p =
     (if pflag PTY_FLAG_KERNEL_VTY p then
        (length xs, if \<not> onlcr (attr p) then pty_render_to_vty xs p else render_lines [] xs p)
      else
        (let (consumed, p1) = (if \<not> onlcr (attr p) then
                                 (let (k, r) = pty_ring_write xs (output_ring p) in (k, p\<lparr>output_ring := r\<rparr>))
                               else output_loop xs 0 p)
         in (consumed, if consumed > 0 then pty_output_wake_one p1 else p1)))"

subsection \<open>The two ends\<close>

datatype pty_result = Returns int | Blocks

text \<open>\<open>t\<close> is the running task and \<open>ub\<close> its \<^verbatim>\<open>current_user_buf\<close>; the bytes read are the second component.\<close>

definition pty_slave_read :: "nat \<Rightarrow> nat \<Rightarrow> nat \<Rightarrow> pty \<Rightarrow> pty_result \<times> u8 list \<times> pty" where
  "pty_slave_read t ub n p =
     (if n = 0 then (Returns 0, [], p)
      else if rg_len (input_ring p) > 0 then
        (let (xs, r) = pty_ring_read n (input_ring p) in (Returns (int (length xs)), xs, p\<lparr>input_ring := r\<rparr>))
      else if \<not> pflag PTY_FLAG_KERNEL_VTY p \<and> master_refcount p = 0 then (Returns 0, [], p)
      else (Blocks, [], pty_input_waiter_enqueue \<lparr>w_task = t, w_buf = ub, w_size = n\<rparr> p))"

definition pty_slave_write :: "u8 list \<Rightarrow> pty \<Rightarrow> int \<times> pty" where
  "pty_slave_write xs p = (if xs = [] then (0, p) else (let (k, p1) = pty_ldisc_output xs p in (as_int k, p1)))"

definition pty_free :: "pty \<Rightarrow> pty" where
  "pty_free p =
     (if \<not> pflag PTY_FLAG_ALLOCATED p then p
      else if pflag PTY_FLAG_KERNEL_VTY p then p
      else (pty_output_wake_all (pty_input_wake_all p))\<lparr>pt_flags := 0\<rparr>)"

definition pty_slave_close :: "pty \<Rightarrow> pty" where
  "pty_slave_close p =
     (let p1 = (if slave_refcount p > 0 then p\<lparr>slave_refcount := slave_refcount p - 1\<rparr> else p)
      in if slave_refcount p1 = 0 \<and> master_refcount p1 = 0 \<and> \<not> pflag PTY_FLAG_KERNEL_VTY p1 then pty_free p1 else p1)"

definition pty_master_read :: "nat \<Rightarrow> nat \<Rightarrow> pty \<Rightarrow> pty_result \<times> u8 list \<times> pty" where
  "pty_master_read t n p =
     (if n = 0 then (Returns 0, [], p)
      else if rg_len (output_ring p) > 0 then
        (let (xs, r) = pty_ring_read n (output_ring p) in (Returns (int (length xs)), xs, p\<lparr>output_ring := r\<rparr>))
      else if slave_refcount p = 0 then (Returns 0, [], p)
      else (Blocks, [], pty_output_waiter_enqueue t p))"

definition pty_master_write :: "(int \<Rightarrow> bool) \<Rightarrow> u8 list \<Rightarrow> pty \<Rightarrow> int \<times> pty" where
  "pty_master_write alive xs p = (if xs = [] then (0, p) else (as_int (length xs), fold (pty_ldisc_input alive) xs p))"

definition pty_master_close :: "(int \<Rightarrow> bool) \<Rightarrow> pty \<Rightarrow> pty" where
  "pty_master_close alive p =
     (let p1 = (if master_refcount p > 0 then p\<lparr>master_refcount := master_refcount p - 1\<rparr> else p);
          p2 = (if foreground_pid p1 > 0 \<and> alive (foreground_pid p1) then log_event (Signal (foreground_pid p1) SIG_HUP) p1 else p1);
          p3 = pty_input_wake_all p2
      in if slave_refcount p3 = 0 \<and> master_refcount p3 = 0 then pty_free p3 else p3)"

subsection \<open>The table and the active terminal\<close>

text \<open>
  \<open>console\<close> holds the variables of the terminal driver in \<^verbatim>\<open>vbe.c\<close>, under the names that the saved state
  gives them, and \<open>layer0\<close> the buffer it draws to.
\<close>

record ptys =
  pty_table :: "nat \<Rightarrow> pty"
  active_vty :: nat
  console :: term_state
  layer0 :: "nat option"

definition pty_save_term_state :: "ptys \<Rightarrow> term_state" where
  "pty_save_term_state s = (let g = console s in
     \<lparr>cursor_col = cursor_col g, cursor_row = cursor_row g, fg_color = fg_color g, bg_color = bg_color g, ansi_fg = ansi_fg g,
      ansi_bg = ansi_bg g, ansi_bold = ansi_bold g, scroll_region_top = scroll_region_top g,
      scroll_region_bottom = scroll_region_bottom g, saved_cursor_col = saved_cursor_col g, saved_cursor_row = saved_cursor_row g,
      cursor_visible = cursor_visible g, in_alt_screen = in_alt_screen g, alt_cursor_col = alt_cursor_col g, alt_cursor_row = alt_cursor_row g\<rparr>)"

definition pty_restore_term_state :: "term_state \<Rightarrow> ptys \<Rightarrow> ptys" where
  "pty_restore_term_state ts s = s\<lparr>console :=
     \<lparr>cursor_col = cursor_col ts, cursor_row = cursor_row ts, fg_color = fg_color ts, bg_color = bg_color ts, ansi_fg = ansi_fg ts,
      ansi_bg = ansi_bg ts, ansi_bold = ansi_bold ts, scroll_region_top = scroll_region_top ts,
      scroll_region_bottom = scroll_region_bottom ts, saved_cursor_col = saved_cursor_col ts, saved_cursor_row = saved_cursor_row ts,
      cursor_visible = cursor_visible ts, in_alt_screen = in_alt_screen ts, alt_cursor_col = alt_cursor_col ts, alt_cursor_row = alt_cursor_row ts\<rparr>\<rparr>"

definition set_pty :: "nat \<Rightarrow> pty \<Rightarrow> ptys \<Rightarrow> ptys" where
  "set_pty i p s = s\<lparr>pty_table := (pty_table s)(i := p)\<rparr>"

definition pty_switch_vty :: "nat \<Rightarrow> ptys \<Rightarrow> ptys" where
  "pty_switch_vty k s =
     (if k \<ge> NUM_KERNEL_VTYS \<or> k = active_vty s then s
      else
        let s1 = set_pty (active_vty s) ((pty_table s (active_vty s))\<lparr>pt_term := pty_save_term_state s\<rparr>) s;
            s2 = pty_restore_term_state (pt_term (pty_table s1 k)) s1
        in s2\<lparr>layer0 := screen_buf (pty_table s2 k), active_vty := k\<rparr>)"

definition zero_term_state :: term_state where
  "zero_term_state = pty_default_term_state\<lparr>fg_color := 0, bg_color := 0, ansi_fg := 0, ansi_bg := 0, cursor_visible := 0\<rparr>"

definition zero_pty :: pty where
  "zero_pty = \<lparr>pt_flags = 0, pt_id = 0,
     attr = \<lparr>echo = False, icanon = False, isig = False, onlcr = False, cc_vintr = 0, cc_veof = 0, cc_verase = 0, cc_vkill = 0\<rparr>,
     input_ring = empty_ring, output_ring = empty_ring, line_buf = [], screen_buf = None, pt_term = zero_term_state,
     foreground_pid = 0, input_waiters = [], output_waiters = [], master_refcount = 0, slave_refcount = 0, shown = [], events = []\<rparr>"

text \<open>Terminal \<open>i\<close> at the start, and one handed out; the nodes and the entry in devfs are not part of the state.\<close>

definition kernel_vty :: "nat \<Rightarrow> nat option \<Rightarrow> term_state \<Rightarrow> pty" where
  "kernel_vty i scr ts = zero_pty\<lparr>pt_id := i, pt_flags := PTY_FLAG_KERNEL_VTY OR PTY_FLAG_ALLOCATED, attr := pty_default_attr,
     screen_buf := scr, pt_term := ts, slave_refcount := 1, foreground_pid := -1\<rparr>"

text \<open>\<open>scr\<close> gives the buffers allocated for the terminals after the first.\<close>

definition pty_init :: "(nat \<Rightarrow> nat) \<Rightarrow> ptys \<Rightarrow> ptys" where
  "pty_init scr s = s\<lparr>pty_table := (\<lambda>i.
       if i = 0 then kernel_vty 0 (layer0 s) (pty_save_term_state s)
       else if i < NUM_KERNEL_VTYS then kernel_vty i (Some (scr i)) pty_default_term_state
       else zero_pty), active_vty := 0\<rparr>"

definition pty_alloc :: "ptys \<Rightarrow> nat option \<times> ptys" where
  "pty_alloc s = (case find (\<lambda>i. \<not> pflag PTY_FLAG_ALLOCATED (pty_table s i)) [NUM_KERNEL_VTYS..<PTY_MAX] of
     None \<Rightarrow> (None, s)
   | Some i \<Rightarrow> (Some i, set_pty i (zero_pty\<lparr>pt_id := i, pt_flags := PTY_FLAG_ALLOCATED, attr := pty_default_attr,
       pt_term := pty_default_term_state, slave_refcount := 1, master_refcount := 1\<rparr>) s))"

section \<open>The rings are byte streams\<close>

definition ring_inv :: "pty_ring \<Rightarrow> bool" where
  "ring_inv r \<longleftrightarrow> ring_ok (rg_buf r) PTY_RING_SIZE (rg_read r) (rg_write r) (rg_len r)"

definition ring_bytes :: "pty_ring \<Rightarrow> u8 list" where
  "ring_bytes r = ring_view (rg_buf r) (rg_read r) (rg_len r)"

lemma ring_len: "length (ring_bytes r) = rg_len r"
  by (simp add: ring_bytes_def)

lemma ring_inv_len: "ring_inv r \<Longrightarrow> rg_len r \<le> PTY_RING_SIZE"
  by (simp add: ring_inv_def ring_ok_def)

lemma pty_ring_write_ok:
  assumes "ring_inv r" "pty_ring_write xs r = (n, r')"
  shows "ring_inv r' \<and> n = min (length xs) (PTY_RING_SIZE - rg_len r) \<and> ring_bytes r' = ring_bytes r @ take n xs"
proof -
  have le: "rg_len r \<le> PTY_RING_SIZE" using assms(1) by (rule ring_inv_len)
  let ?k = "min (length xs) (PTY_RING_SIZE - rg_len r)"
  have k: "rg_len r + length (take ?k xs) \<le> PTY_RING_SIZE" "length (take ?k xs) = ?k" using le by simp_all
  from ring_put_ok [OF assms(1) [unfolded ring_inv_def] k(1)] obtain buf where
    b: "ring_put (rg_buf r) PTY_RING_SIZE (rg_write r) (take ?k xs) = (buf, (rg_read r + rg_len r + ?k) mod PTY_RING_SIZE)"
    "ring_ok buf PTY_RING_SIZE (rg_read r) ((rg_read r + rg_len r + ?k) mod PTY_RING_SIZE) (rg_len r + ?k)"
    "ring_view buf (rg_read r) (rg_len r + ?k) = ring_view (rg_buf r) (rg_read r) (rg_len r) @ take ?k xs"
    unfolding k(2) by blast
  have "(if length xs > sub32 PTY_RING_SIZE (rg_len r) then sub32 PTY_RING_SIZE (rg_len r) else length xs) = ?k"
    using le by (simp add: sub32_le min_def)
  then have "pty_ring_write xs r = (?k, r\<lparr>rg_buf := buf, rg_write := (rg_read r + rg_len r + ?k) mod PTY_RING_SIZE, rg_len := rg_len r + ?k\<rparr>)"
    unfolding pty_ring_write_def Let_def using b(1) by simp
  then show ?thesis using assms(2) b(2,3) by (auto simp: ring_inv_def ring_bytes_def)
qed

lemma pty_ring_read_ok:
  assumes "ring_inv r" "pty_ring_read n r = (xs, r')"
  shows "ring_inv r' \<and> xs = take n (ring_bytes r) \<and> ring_bytes r' = drop n (ring_bytes r) \<and> rg_len r' = rg_len r - n"
proof -
  let ?k = "min n (rg_len r)"
  have "?k \<le> rg_len r" by simp
  note g = ring_get_ok [OF assms(1) [unfolded ring_inv_def] this]
  have k: "(if n > rg_len r then rg_len r else n) = ?k" by simp
  have "pty_ring_read n r = (take ?k (ring_bytes r), r\<lparr>rg_read := (rg_read r + ?k) mod PTY_RING_SIZE, rg_len := rg_len r - ?k\<rparr>)"
    unfolding pty_ring_read_def Let_def k using g(1) by (simp add: ring_bytes_def)
  then have "xs = take ?k (ring_bytes r)" "r' = r\<lparr>rg_read := (rg_read r + ?k) mod PTY_RING_SIZE, rg_len := rg_len r - ?k\<rparr>"
    using assms(2) by simp_all
  moreover have "take ?k (ring_bytes r) = take n (ring_bytes r)" "drop ?k (ring_bytes r) = drop n (ring_bytes r)"
    by (simp_all add: min_def ring_len)
  ultimately show ?thesis using g(2,3) by (auto simp: ring_inv_def ring_bytes_def)
qed

interpretation pty_rings: byte_fifo ring_inv ring_bytes "\<lambda>_. PTY_RING_SIZE" pty_ring_write pty_ring_read
proof unfold_locales
  fix r r' :: pty_ring and xs :: "u8 list" and n
  assume i: "ring_inv r"
  show "ring_inv r' \<and> n = min (length xs) (PTY_RING_SIZE - length (ring_bytes r)) \<and> ring_bytes r' = ring_bytes r @ take n xs
      \<and> PTY_RING_SIZE = PTY_RING_SIZE" if "pty_ring_write xs r = (n, r')"
    using pty_ring_write_ok [OF i that] by (simp add: ring_len)
  show "ring_inv r' \<and> length xs = min n (length (ring_bytes r)) \<and> ring_bytes r = xs @ ring_bytes r' \<and> PTY_RING_SIZE = PTY_RING_SIZE"
    if "pty_ring_read n r = (xs, r')"
    using pty_ring_read_ok [OF i that] by (auto simp: ring_len)
qed

lemma deliver_loop_ok:
  "ring_inv r \<Longrightarrow> deliver_loop n r = (xs, r') \<Longrightarrow> ring_inv r' \<and> xs = take n (ring_bytes r) \<and> ring_bytes r' = drop n (ring_bytes r)"
proof (induction n r arbitrary: xs r' rule: deliver_loop.induct)
  case (1 n r)
  show ?case
  proof (cases "n = 0")
    case True
    then show ?thesis using 1 by (simp add: deliver_loop.simps)
  next
    case False
    obtain ys r1 where y: "pty_ring_read (min n 256) r = (ys, r1)" by fastforce
    obtain zs r2 where z: "deliver_loop (n - min n 256) r1 = (zs, r2)" by fastforce
    note Y = pty_ring_read_ok [OF "1.prems"(1) y]
    from "1.IH" [OF False refl y [symmetric] refl _ z] Y
    have Z: "ring_inv r2" "zs = take (n - min n 256) (ring_bytes r1)" "ring_bytes r2 = drop (n - min n 256) (ring_bytes r1)" by simp_all
    have "xs = ys @ zs" "r' = r2" using "1.prems"(2) False y z by (simp_all add: deliver_loop.simps [of n r] Let_def)
    moreover have "min n 256 + (n - min n 256) = n" by simp
    ultimately show ?thesis using Y Z by (metis drop_drop take_add add.commute)
  qed
qed

section \<open>What the line discipline does\<close>

definition pty_inv :: "pty \<Rightarrow> bool" where
  "pty_inv p \<longleftrightarrow> ring_inv (input_ring p) \<and> ring_inv (output_ring p) \<and> length (line_buf p) \<le> PTY_LINE_SIZE"

text \<open>Everything that has reached the readers, then what is still in the ring.\<close>

fun delivered_by :: "pty_event \<Rightarrow> u8 list" where
  "delivered_by (Deliver t a xs) = xs"
| "delivered_by e = []"

definition in_stream :: "pty \<Rightarrow> u8 list" where
  "in_stream p = concat (map delivered_by (events p)) @ ring_bytes (input_ring p)"

text \<open>The parts of a terminal that input leaves alone.\<close>

definition same_setup :: "pty \<Rightarrow> pty \<Rightarrow> bool" where
  "same_setup p p' \<longleftrightarrow> attr p' = attr p \<and> pt_flags p' = pt_flags p \<and> foreground_pid p' = foreground_pid p"

lemma same_setup_refl [simp]: "same_setup p p"
  by (simp add: same_setup_def)

lemma same_setup_trans: "same_setup p q \<Longrightarrow> same_setup q r \<Longrightarrow> same_setup p r"
  by (simp add: same_setup_def)

text \<open>\<open>moved p p' xs l\<close>: the readers' stream has grown by \<open>xs\<close>, the line is now \<open>l\<close>.\<close>

definition moved :: "pty \<Rightarrow> pty \<Rightarrow> u8 list \<Rightarrow> u8 list \<Rightarrow> bool" where
  "moved p p' xs l \<longleftrightarrow> pty_inv p' \<and> same_setup p p' \<and> in_stream p' = in_stream p @ xs \<and> line_buf p' = l
     \<and> rg_len (input_ring p') \<le> rg_len (input_ring p) + length xs"

lemma moved_refl: "pty_inv p \<Longrightarrow> moved p p [] (line_buf p)"
  by (simp add: moved_def)

lemma moved_trans: "moved p q xs l \<Longrightarrow> moved q r ys m \<Longrightarrow> moved p r (xs @ ys) m"
  by (auto simp: moved_def intro: same_setup_trans)

lemma wake_one_moved:
  assumes "pty_inv p"
  shows "moved p (pty_input_wake_one p) [] (line_buf p)" "output_ring (pty_input_wake_one p) = output_ring p"
proof -
  show "output_ring (pty_input_wake_one p) = output_ring p"
    by (auto simp: pty_input_wake_one_def log_event_def Let_def split: list.splits prod.splits)
  show "moved p (pty_input_wake_one p) [] (line_buf p)"
  proof (cases "input_waiters p")
    case Nil
    then show ?thesis using moved_refl [OF assms] by (simp add: pty_input_wake_one_def)
  next
    case (Cons w ws)
    obtain xs r where d: "deliver_loop (if w_size w < rg_len (input_ring p) then w_size w else rg_len (input_ring p)) (input_ring p) = (xs, r)"
      by fastforce
    have i: "ring_inv (input_ring p)" using assms by (simp add: pty_inv_def)
    note D = deliver_loop_ok [OF i d]
    have "xs @ ring_bytes r = ring_bytes (input_ring p)" using D by simp
    moreover from this have "rg_len r \<le> rg_len (input_ring p)" using ring_len [of r] ring_len [of "input_ring p"]
      by (metis le_add2 length_append)
    ultimately show ?thesis using assms D Cons d
      by (auto simp: moved_def pty_input_wake_one_def log_event_def Let_def pty_inv_def same_setup_def in_stream_def)
  qed
qed

lemma wake_all_moved: "pty_inv p \<Longrightarrow> moved p (pty_input_wake_all p) [] (line_buf p)"
proof (induction p rule: pty_input_wake_all.induct)
  case (1 p)
  show ?case
  proof (cases "input_waiters p = []")
    case True
    then show ?thesis using moved_refl [OF "1.prems"] by (simp add: pty_input_wake_all.simps)
  next
    case False
    note w = wake_one_moved(1) [OF "1.prems"]
    have "moved (pty_input_wake_one p) (pty_input_wake_all (pty_input_wake_one p)) [] (line_buf p)"
      using "1.IH" [OF False] w by (simp add: moved_def)
    from moved_trans [OF w this] show ?thesis using False by (simp add: pty_input_wake_all.simps [of p])
  qed
qed

lemma ring_write_inv: "ring_inv r \<Longrightarrow> ring_inv (snd (pty_ring_write xs r))"
  using pty_ring_write_ok [of r xs "fst (pty_ring_write xs r)" "snd (pty_ring_write xs r)"] by simp

lemma echo_moved:
  assumes "pty_inv p"
  shows "moved p (pty_echo a b p) [] (line_buf p)"
proof -
  have "in_stream (p\<lparr>output_ring := r\<rparr>) = in_stream p" "in_stream (p\<lparr>shown := x\<rparr>) = in_stream p"
    "in_stream (log_event (Unblock t) (p\<lparr>output_ring := r, output_waiters := ts\<rparr>)) = in_stream p" for r x t ts
    by (simp_all add: in_stream_def log_event_def)
  then show ?thesis using assms
    by (auto simp: moved_def pty_echo_def pty_render_to_vty_def pty_output_wake_one_def put_out_def pty_inv_def same_setup_def
        ring_write_inv log_event_def split: list.splits)
qed

lemma line_moved:
  assumes "pty_inv p" "length l \<le> PTY_LINE_SIZE"
  shows "moved p (p\<lparr>line_buf := l\<rparr>) [] l"
  using assms by (simp add: moved_def pty_inv_def same_setup_def in_stream_def)

lemma flush_moved:
  assumes i: "pty_inv p" and room: "rg_len (input_ring p) + length (line_buf p) \<le> PTY_RING_SIZE"
  shows "moved p (pty_ldisc_flush_line p) (line_buf p) []"
proof -
  obtain n r where w: "pty_ring_write (line_buf p) (input_ring p) = (n, r)" by fastforce
  have W: "ring_inv r" "n = length (line_buf p)" "ring_bytes r = ring_bytes (input_ring p) @ line_buf p"
    using pty_ring_write_ok [OF _ w] i room by (auto simp: pty_inv_def)
  have l: "rg_len r = rg_len (input_ring p) + length (line_buf p)"
    using W(3) ring_len [of r] ring_len [of "input_ring p"] by simp
  let ?q = "(put_in (line_buf p) p)\<lparr>line_buf := []\<rparr>"
  have "moved p ?q (line_buf p) []" using i W l
    by (simp add: moved_def put_in_def w pty_inv_def same_setup_def in_stream_def)
  moreover from this have "pty_inv ?q" by (simp add: moved_def)
  note wake_one_moved(1) [OF this]
  ultimately show ?thesis unfolding pty_ldisc_flush_line_def using moved_trans by fastforce
qed

lemma kill_line_moved:
  "pty_inv p \<Longrightarrow> length (line_buf p) = n \<Longrightarrow> moved p (kill_line n p) [] []"
proof (induction n arbitrary: p)
  case 0
  then show ?case using moved_refl by fastforce
next
  case (Suc n)
  let ?p = "p\<lparr>line_buf := butlast (line_buf p)\<rparr>"
  let ?q = "if \<not> echo (attr ?p) then ?p else if pflag PTY_FLAG_KERNEL_VTY ?p then pty_render_to_vty erase_seq ?p else put_out erase_seq ?p"
  have m: "moved p ?q [] (butlast (line_buf p))"
    using Suc.prems(1) by (auto simp: moved_def pty_inv_def same_setup_def in_stream_def pty_render_to_vty_def put_out_def ring_write_inv)
  then have "pty_inv ?q" "length (line_buf ?q) = n" using Suc.prems(2) by (simp_all add: moved_def)
  from Suc.IH [OF this] have "moved ?q (kill_line n ?q) [] []" .
  from moved_trans [OF m this] show ?case by (simp add: Let_def)
qed

subsection \<open>A line editor\<close>

text \<open>The reference: what a reader gets of the keys typed, and the line being edited.\<close>

definition edit_key :: "pty_attr \<Rightarrow> u8 list \<Rightarrow> u8 \<Rightarrow> u8 list \<times> u8 list" where
  "edit_key a l c =
     (if isig a \<and> c = cc_vintr a then ([], [])
      else if c = cc_veof a then (l, [])
      else if c = cc_verase a \<or> c = 8 \<or> c = 0x7F then ([], butlast l)
      else if c = cc_vkill a then ([], [])
      else if c = 0x0A \<or> c = 0x0D then (if length l < PTY_LINE_SIZE then l @ [0x0A] else l, [])
      else ([], if length l < PTY_LINE_SIZE then l @ [c] else l))"

fun edit :: "pty_attr \<Rightarrow> u8 list \<Rightarrow> u8 list \<Rightarrow> u8 list \<times> u8 list" where
  "edit a l [] = ([], l)"
| "edit a l (c # cs) = (let (o1, l1) = edit_key a l c; (o2, l2) = edit a l1 cs in (o1 @ o2, l2))"

lemma intr_moved:
  assumes "pty_inv p"
  shows "moved p (ldisc_intr alive p) [] []"
proof -
  let ?p1 = "if echo (attr p) then pty_render_to_vty [0x5E, 0x43, 0x0A] p else p"
  let ?p2 = "if foreground_pid ?p1 > 0 \<and> alive (foreground_pid ?p1) then log_event (Signal (foreground_pid ?p1) SIG_INT) ?p1 else ?p1"
  have m: "moved p (?p2\<lparr>line_buf := []\<rparr>) [] []"
    using assms by (auto simp: moved_def pty_inv_def same_setup_def in_stream_def pty_render_to_vty_def log_event_def)
  then have "pty_inv (?p2\<lparr>line_buf := []\<rparr>)" by (simp add: moved_def)
  from moved_trans [OF m wake_all_moved [OF this]] show ?thesis by (simp add: ldisc_intr_def Let_def)
qed

lemma input_step:
  assumes i: "pty_inv p" and c: "icanon (attr p)" and e: "edit_key (attr p) (line_buf p) c = (out, l)"
    and room: "rg_len (input_ring p) + length out \<le> PTY_RING_SIZE"
  shows "moved p (pty_ldisc_input alive c p) out l"
proof -
  have len: "length (line_buf p) \<le> PTY_LINE_SIZE" using i by (simp add: pty_inv_def)
  consider "isig (attr p)" "c = cc_vintr (attr p)"
    | "\<not> (isig (attr p) \<and> c = cc_vintr (attr p))" "c = cc_veof (attr p)"
    | "\<not> (isig (attr p) \<and> c = cc_vintr (attr p))" "c \<noteq> cc_veof (attr p)" by blast
  then show ?thesis
  proof cases
    case 1
    then show ?thesis using intr_moved [OF i] e by (simp add: pty_ldisc_input_def edit_key_def)
  next
    case 2
    then show ?thesis using flush_moved [OF i] e c room by (auto simp: pty_ldisc_input_def edit_key_def)
  next
    case 3
    have inp: "pty_ldisc_input alive c p = ldisc_cooked c p" using 3 c by (auto simp: pty_ldisc_input_def)
    consider (erase) "c = cc_verase (attr p) \<or> c = 8 \<or> c = 0x7F"
      | (kill) "\<not> (c = cc_verase (attr p) \<or> c = 8 \<or> c = 0x7F)" "c = cc_vkill (attr p)"
      | (nl) "\<not> (c = cc_verase (attr p) \<or> c = 8 \<or> c = 0x7F)" "c \<noteq> cc_vkill (attr p)" "c = 0x0A \<or> c = 0x0D"
      | (key) "\<not> (c = cc_verase (attr p) \<or> c = 8 \<or> c = 0x7F)" "c \<noteq> cc_vkill (attr p)" "\<not> (c = 0x0A \<or> c = 0x0D)" by blast
    then show ?thesis
    proof cases
      case erase
      have o: "out = []" "l = butlast (line_buf p)" using e 3 erase by (auto simp: edit_key_def)
      have "moved p (p\<lparr>line_buf := butlast (line_buf p)\<rparr>) [] (butlast (line_buf p))" using line_moved [OF i, of "butlast (line_buf p)"] len by simp
      moreover from this have "pty_inv (p\<lparr>line_buf := butlast (line_buf p)\<rparr>)" by (simp add: moved_def)
      note echo_moved [OF this, of erase_seq erase_seq]
      ultimately have "moved p (pty_echo erase_seq erase_seq (p\<lparr>line_buf := butlast (line_buf p)\<rparr>)) [] (butlast (line_buf p))"
        using moved_trans by fastforce
      then show ?thesis using moved_refl [OF i] erase unfolding inp o by (cases "line_buf p = []") (auto simp: ldisc_cooked_def)
    next
      case kill
      have o: "out = []" "l = []" using e 3 kill by (auto simp: edit_key_def)
      let ?q = "kill_line (length (line_buf p)) p"
      have m: "moved p ?q [] []" by (rule kill_line_moved [OF i refl])
      moreover have "moved ?q (pty_output_wake_one ?q) [] []" using m
        by (auto simp: moved_def pty_output_wake_one_def log_event_def pty_inv_def same_setup_def in_stream_def split: list.splits)
      ultimately have "moved p (pty_output_wake_one ?q) [] []" using moved_trans by fastforce
      then show ?thesis using m kill unfolding inp o by (auto simp: ldisc_cooked_def Let_def)
    next
      case nl
      let ?l = "if length (line_buf p) < PTY_LINE_SIZE then line_buf p @ [0x0A] else line_buf p"
      have o: "out = ?l" "l = []" using e 3 nl by (auto simp: edit_key_def)
      have l: "length ?l \<le> PTY_LINE_SIZE" using len by simp
      let ?q = "p\<lparr>line_buf := ?l\<rparr>"
      have m: "moved p ?q [] ?l" by (rule line_moved [OF i l])
      then have "pty_inv ?q" by (simp add: moved_def)
      note m2 = moved_trans [OF m echo_moved [OF this, of "[0x0A]" "[0x0D, 0x0A]"]]
      let ?r = "pty_echo [0x0A] [0x0D, 0x0A] ?q"
      have r: "pty_inv ?r" "line_buf ?r = ?l" "rg_len (input_ring ?r) \<le> rg_len (input_ring p)" using m2 by (simp_all add: moved_def)
      have "rg_len (input_ring ?r) + length (line_buf ?r) \<le> PTY_RING_SIZE" using r(2,3) room o by simp
      note m3 = moved_trans [OF m2 flush_moved [OF r(1) this]]
      have "(if length (line_buf p) < PTY_LINE_SIZE then p\<lparr>line_buf := line_buf p @ [0x0A]\<rparr> else p) = ?q" by simp
      then have "ldisc_cooked c p = pty_ldisc_flush_line ?r" using nl unfolding ldisc_cooked_def Let_def by auto
      then show ?thesis using m3 r(2) unfolding inp o by simp
    next
      case key
      have o: "out = []" "l = (if length (line_buf p) < PTY_LINE_SIZE then line_buf p @ [c] else line_buf p)"
        using e 3 key by (auto simp: edit_key_def)
      show ?thesis
      proof (cases "length (line_buf p) < PTY_LINE_SIZE")
        case True
        then have m: "moved p (p\<lparr>line_buf := line_buf p @ [c]\<rparr>) [] (line_buf p @ [c])" using line_moved [OF i, of "line_buf p @ [c]"] by simp
        then have "pty_inv (p\<lparr>line_buf := line_buf p @ [c]\<rparr>)" by (simp add: moved_def)
        from moved_trans [OF m echo_moved [OF this, of "[c]" "[c]"]]
        show ?thesis using True key unfolding inp o by (auto simp: ldisc_cooked_def)
      next
        case False
        then show ?thesis using moved_refl [OF i] key unfolding inp o by (auto simp: ldisc_cooked_def)
      qed
    qed
  qed
qed

lemma input_run:
  "pty_inv p \<Longrightarrow> icanon (attr p) \<Longrightarrow> edit (attr p) (line_buf p) cs = (out, l) \<Longrightarrow>
   rg_len (input_ring p) + length out \<le> PTY_RING_SIZE \<Longrightarrow> moved p (fold (pty_ldisc_input alive) cs p) out l"
proof (induction cs arbitrary: p out)
  case Nil
  then show ?case using moved_refl [OF Nil(1)] by simp
next
  case (Cons c cs)
  obtain o1 l1 where e1: "edit_key (attr p) (line_buf p) c = (o1, l1)" by fastforce
  obtain o2 l2 where e2: "edit (attr p) l1 cs = (o2, l2)" by (cases "edit (attr p) l1 cs") simp
  have o: "out = o1 @ o2" "l = l2" using Cons.prems(3) e1 e2 by simp_all
  let ?q = "pty_ldisc_input alive c p"
  have m: "moved p ?q o1 l1" using input_step [OF Cons.prems(1,2) e1] Cons.prems(4) o(1) by simp
  then have q: "pty_inv ?q" "attr ?q = attr p" "line_buf ?q = l1" "rg_len (input_ring ?q) \<le> rg_len (input_ring p) + length o1"
    by (simp_all add: moved_def same_setup_def)
  have "moved ?q (fold (pty_ldisc_input alive) cs ?q) o2 l"
    using Cons.IH [OF q(1), of o2] q Cons.prems(2,4) e2 o by simp
  from moved_trans [OF m this] show ?case using o by simp
qed

text \<open>
  C9. In canonical mode, whatever is typed at the master end of a terminal, readers get the lines that
  a line editor makes of it, each byte once and in order, over the bytes handed to waiting readers and
  those still in the ring; the line being edited is the editor's. This holds as long as the ring has
  room for what is committed.
\<close>

theorem pty_line_editor:
  assumes "pty_inv p" "icanon (attr p)" "edit (attr p) (line_buf p) cs = (out, l)"
    and "rg_len (input_ring p) + length out \<le> PTY_RING_SIZE"
  shows "\<exists>p'. pty_master_write alive cs p = (as_int (length cs), p') \<and> pty_inv p' \<and> in_stream p' = in_stream p @ out
    \<and> line_buf p' = l \<and> attr p' = attr p"
proof -
  have "pty_master_write alive cs p = (as_int (length cs), fold (pty_ldisc_input alive) cs p)"
    by (simp add: pty_master_write_def as_int_def)
  then show ?thesis using input_run [OF assms, of alive] by (auto simp: moved_def same_setup_def)
qed

definition demo_vty :: pty where
  "demo_vty = kernel_vty 0 None pty_default_term_state"

lemma demo_vty_inv: "pty_inv demo_vty" "rg_len (input_ring demo_vty) = 0" "attr demo_vty = pty_default_attr" "line_buf demo_vty = []"
  "in_stream demo_vty = []"
  by (simp_all add: demo_vty_def kernel_vty_def zero_pty_def empty_ring_def pty_inv_def ring_inv_def ring_ok_def PTY_RING_SIZE_def
      in_stream_def ring_bytes_def)

lemma pty_line_editor_witness:
  "\<exists>p'. pty_master_write (\<lambda>_. False) [0x61, 0x62, 8, 0x63, 0x0D, 0x64] demo_vty = (6, p') \<and> in_stream p' = [0x61, 0x63, 0x0A]
     \<and> line_buf p' = [0x64]"
proof -
  have e: "edit (attr demo_vty) (line_buf demo_vty) [0x61, 0x62, 8, 0x63, 0x0D, 0x64] = ([0x61, 0x63, 0x0A], [0x64])"
    by (simp add: demo_vty_inv edit_key_def pty_default_attr_def PTY_LINE_SIZE_def)
  have "icanon (attr demo_vty)" "rg_len (input_ring demo_vty) + length [0x61, 0x63, 0x0A :: u8] \<le> PTY_RING_SIZE"
    by (simp_all add: demo_vty_inv pty_default_attr_def PTY_RING_SIZE_def)
  from pty_line_editor [OF demo_vty_inv(1) this(1) e this(2), of "\<lambda>_. False"] demo_vty_inv(5)
  show ?thesis by (auto simp: as_int_def)
qed

subsection \<open>Output\<close>

definition nl_map :: "bool \<Rightarrow> u8 list \<Rightarrow> u8 list" where
  "nl_map b xs = concat (map (\<lambda>c. if b \<and> c = 0x0A then [0x0D, 0x0A] else [c]) xs)"

lemma nl_map_simps [simp]: "nl_map b [] = []" "nl_map b (c # cs) = (if b \<and> c = 0x0A then [0x0D, 0x0A] else [c]) @ nl_map b cs"
  "nl_map b (xs @ ys) = nl_map b xs @ nl_map b ys"
  by (simp_all add: nl_map_def)

lemma nl_map_False: "nl_map False xs = xs"
  by (induction xs) simp_all

lemma render_lines_shown:
  "pflag PTY_FLAG_KERNEL_VTY p \<Longrightarrow> render_lines part xs p = p\<lparr>shown := shown p @ part @ nl_map True xs\<rparr>"
proof (induction part xs p rule: render_lines.induct)
  case (1 part p)
  then show ?case by (auto simp: pty_render_to_vty_def)
next
  case (2 part c cs p)
  have f: "pflag PTY_FLAG_KERNEL_VTY (p\<lparr>shown := x\<rparr>)" for x using "2.prems" by (simp add: pflag_def)
  show ?case using 2 f by (simp add: pty_render_to_vty_def)
qed

lemma put_out_ok:
  assumes "ring_inv (output_ring p)" "rg_len (output_ring p) + length xs \<le> PTY_RING_SIZE"
  shows "ring_inv (output_ring (put_out xs p))" "ring_bytes (output_ring (put_out xs p)) = ring_bytes (output_ring p) @ xs"
    "rg_len (output_ring (put_out xs p)) = rg_len (output_ring p) + length xs" "put_out xs p = p\<lparr>output_ring := output_ring (put_out xs p)\<rparr>"
proof -
  obtain n r where w: "pty_ring_write xs (output_ring p) = (n, r)" by fastforce
  have W: "ring_inv r" "ring_bytes r = ring_bytes (output_ring p) @ xs" using pty_ring_write_ok [OF assms(1) w] assms(2) by auto
  then show "ring_inv (output_ring (put_out xs p))" "ring_bytes (output_ring (put_out xs p)) = ring_bytes (output_ring p) @ xs"
    "put_out xs p = p\<lparr>output_ring := output_ring (put_out xs p)\<rparr>" by (simp_all add: put_out_def w)
  show "rg_len (output_ring (put_out xs p)) = rg_len (output_ring p) + length xs"
    using W(2) ring_len [of r] ring_len [of "output_ring p"] by (simp add: put_out_def w)
qed

definition out_post :: "pty \<Rightarrow> u8 list \<Rightarrow> nat \<Rightarrow> pty_ring \<Rightarrow> bool" where
  "out_post p xs k r \<longleftrightarrow> k \<le> length xs \<and> ring_inv r \<and> ring_bytes r = ring_bytes (output_ring p) @ nl_map (onlcr (attr p)) (take k xs)
     \<and> (k < length xs \<longrightarrow> rg_len (output_ring p) + length (nl_map (onlcr (attr p)) (take (Suc k) xs)) > PTY_RING_SIZE)"

lemma output_loop_ok:
  "ring_inv (output_ring p) \<Longrightarrow> onlcr (attr p) \<Longrightarrow> \<exists>k r. output_loop xs n p = (n + k, p\<lparr>output_ring := r\<rparr>) \<and> out_post p xs k r"
proof (induction xs arbitrary: n p)
  case Nil
  then show ?case by (intro exI [of _ 0] exI [of _ "output_ring p"]) (simp add: out_post_def)
next
  case (Cons c cs)
  let ?ys = "if c = 0x0A then [0x0D, 0x0A] else [c]"
  have le: "rg_len (output_ring p) \<le> PTY_RING_SIZE" using ring_inv_len [OF Cons.prems(1)] .
  show ?case
  proof (cases "rg_len (output_ring p) + length ?ys \<le> PTY_RING_SIZE")
    case True
    let ?q = "put_out ?ys p"
    note q = put_out_ok [OF Cons.prems(1) True]
    have a: "attr ?q = attr p" by (simp add: put_out_def)
    have "onlcr (attr ?q)" using a Cons.prems(2) by simp
    from Cons.IH [OF q(1) this] obtain k r where
      k: "output_loop cs (n + 1) ?q = (n + 1 + k, ?q\<lparr>output_ring := r\<rparr>)" "out_post ?q cs k r" by blast
    have "output_loop (c # cs) n p = output_loop cs (n + 1) ?q" using True le by (auto simp: Let_def sub32_le)
    moreover have "?q\<lparr>output_ring := r\<rparr> = p\<lparr>output_ring := r\<rparr>" using q(4) by (simp add: put_out_def)
    moreover have "out_post p (c # cs) (Suc k) r" using k(2) q(2,3) a Cons.prems(2) unfolding out_post_def by auto
    ultimately show ?thesis using k(1) by (intro exI [of _ "Suc k"] exI [of _ r]) simp
  next
    case False
    then have "output_loop (c # cs) n p = (n, p)" using le by (auto simp: Let_def sub32_le split: if_splits)
    moreover have "out_post p (c # cs) 0 (output_ring p)" using False Cons.prems unfolding out_post_def by simp
    ultimately show ?thesis by (intro exI [of _ 0] exI [of _ "output_ring p"]) simp
  qed
qed

text \<open>
  C10. What a program writes to a terminal appears with every line feed preceded by a carriage return
  where the terminal asks for it: all of it on the screen of a kernel terminal, and for a terminal
  with a master end the longest front that fits the ring, whose length is the result; one waiting reader
  is woken exactly when something was taken.
\<close>

theorem pty_output_spec:
  assumes "pty_inv p" "pty_ldisc_output xs p = (k, p')"
  shows "if pflag PTY_FLAG_KERNEL_VTY p then k = length xs \<and> p' = p\<lparr>shown := shown p @ nl_map (onlcr (attr p)) xs\<rparr>
    else out_post p xs k (output_ring p') \<and>
      p' = (if k > 0 then pty_output_wake_one (p\<lparr>output_ring := output_ring p'\<rparr>) else p\<lparr>output_ring := output_ring p'\<rparr>)"
proof (cases "pflag PTY_FLAG_KERNEL_VTY p")
  case True
  then show ?thesis using assms(2) render_lines_shown [OF True, of "[]" xs]
    by (auto simp: pty_ldisc_output_def nl_map_False pty_render_to_vty_def split: if_splits)
next
  case False
  have i: "ring_inv (output_ring p)" using assms(1) by (simp add: pty_inv_def)
  have w: "output_ring (pty_output_wake_one q) = output_ring q" for q
    by (auto simp: pty_output_wake_one_def log_event_def split: list.splits)
  have "\<exists>k r. (if \<not> onlcr (attr p) then (let (k, r) = pty_ring_write xs (output_ring p) in (k, p\<lparr>output_ring := r\<rparr>)) else output_loop xs 0 p)
    = (k, p\<lparr>output_ring := r\<rparr>) \<and> out_post p xs k r"
  proof (cases "onlcr (attr p)")
    case True
    then show ?thesis using output_loop_ok [OF i True, of xs 0] by simp
  next
    case False
    obtain n r where r: "pty_ring_write xs (output_ring p) = (n, r)" by fastforce
    have "out_post p xs n r" using pty_ring_write_ok [OF i r] False by (auto simp: out_post_def nl_map_False)
    then show ?thesis using False r by auto
  qed
  then obtain j r where j: "(if \<not> onlcr (attr p) then (let (k, r) = pty_ring_write xs (output_ring p) in (k, p\<lparr>output_ring := r\<rparr>)) else output_loop xs 0 p)
    = (j, p\<lparr>output_ring := r\<rparr>)" "out_post p xs j r" by blast
  have "pty_ldisc_output xs p = (j, if j > 0 then pty_output_wake_one (p\<lparr>output_ring := r\<rparr>) else p\<lparr>output_ring := r\<rparr>)"
    unfolding pty_ldisc_output_def j(1) using False by simp
  then show ?thesis using assms(2) j(2) w False by auto
qed

lemma pty_output_spec_witness:
  "pty_ldisc_output [0x61, 0x0A] demo_vty = (2, demo_vty\<lparr>shown := [0x61, 0x0D, 0x0A]\<rparr>)"
proof -
  obtain k p' where o: "pty_ldisc_output [0x61, 0x0A] demo_vty = (k, p')" by fastforce
  have f: "pflag PTY_FLAG_KERNEL_VTY demo_vty" "shown demo_vty = []" "onlcr (attr demo_vty)"
    by (simp_all add: demo_vty_def kernel_vty_def pflag_def zero_pty_def PTY_FLAG_KERNEL_VTY_def PTY_FLAG_ALLOCATED_def pty_default_attr_def)
  from pty_output_spec [OF demo_vty_inv(1) o] show ?thesis using o f by simp
qed

subsection \<open>Readers left asleep\<close>

text \<open>
  A line wakes one waiting reader. When that reader's buffer is shorter than the line, the rest stays
  in the ring, and the next reader goes on sleeping although there are bytes for it.
\<close>

theorem pty_second_reader_sleeps:
  assumes "pty_inv p" "icanon (attr p)" "\<not> (isig (attr p) \<and> cc_vintr (attr p) = 0x0A)" "0x0A \<notin> {cc_veof (attr p), cc_verase (attr p), cc_vkill (attr p)}"
    and "input_waiters p = w # w2 # ws" "rg_len (input_ring p) = 0" "w_buf w \<noteq> 0" "0 < w_size w" "w_size w \<le> length (line_buf p)"
    and "length (line_buf p) < PTY_LINE_SIZE"
  shows "input_waiters (pty_ldisc_input alive 0x0A p) = w2 # ws"
    and "ring_bytes (input_ring (pty_ldisc_input alive 0x0A p)) = drop (w_size w) (line_buf p @ [0x0A])"
    and "rg_len (input_ring (pty_ldisc_input alive 0x0A p)) > 0"
proof -
  let ?q = "pty_echo [0x0A] [0x0D, 0x0A] (p\<lparr>line_buf := line_buf p @ [0x0A]\<rparr>)"
  have l: "pty_inv (p\<lparr>line_buf := line_buf p @ [0x0A]\<rparr>)" using line_moved [OF assms(1), of "line_buf p @ [0x0A]"] assms(10) by (simp add: moved_def)
  have q: "pty_inv ?q" "line_buf ?q = line_buf p @ [0x0A]" using echo_moved [OF l] by (simp_all add: moved_def)
  have q2: "input_waiters ?q = w # w2 # ws" "input_ring ?q = input_ring p" using assms(5)
    by (auto simp: pty_echo_def pty_render_to_vty_def pty_output_wake_one_def put_out_def log_event_def split: list.splits)
  have e: "ring_bytes (input_ring p) = []" using assms(6) ring_len [of "input_ring p"] by simp
  have inp: "pty_ldisc_input alive 0x0A p = pty_ldisc_flush_line ?q"
    using assms(2-4,10) by (auto simp: pty_ldisc_input_def ldisc_cooked_def Let_def)
  obtain n r where wr: "pty_ring_write (line_buf ?q) (input_ring ?q) = (n, r)" by fastforce
  have room: "length (line_buf p) < PTY_RING_SIZE" using assms(10) by (simp add: PTY_LINE_SIZE_def PTY_RING_SIZE_def)
  have W: "ring_inv r" "ring_bytes r = line_buf p @ [0x0A]"
    using pty_ring_write_ok [OF _ wr] q assms(1,6) q2 e room by (auto simp: pty_inv_def)
  have rl: "rg_len r = length (line_buf p) + 1" using W(2) ring_len [of r] by simp
  obtain xs r2 where d: "deliver_loop (w_size w) r = (xs, r2)" by fastforce
  note D = deliver_loop_ok [OF W(1) d]
  have fl: "pty_ldisc_flush_line ?q = log_event (Deliver (w_task w) (w_buf w) xs) ((?q\<lparr>input_ring := r, line_buf := [], input_waiters := w2 # ws\<rparr>)\<lparr>input_ring := r2\<rparr>)"
    using assms(7-9) q2 wr rl d unfolding pty_ldisc_flush_line_def pty_input_wake_one_def by (simp add: put_in_def Let_def)
  show "input_waiters (pty_ldisc_input alive 0x0A p) = w2 # ws" unfolding inp fl by (simp add: log_event_def)
  show b: "ring_bytes (input_ring (pty_ldisc_input alive 0x0A p)) = drop (w_size w) (line_buf p @ [0x0A])"
    unfolding inp fl using D W(2) by (simp add: log_event_def)
  show "rg_len (input_ring (pty_ldisc_input alive 0x0A p)) > 0"
    unfolding ring_len [symmetric] b using assms(9) by simp
qed

lemma pty_second_reader_sleeps_witness:
  "\<exists>p. map w_task (input_waiters p) = [5, 6] \<and> map w_task (input_waiters (pty_ldisc_input (\<lambda>_. False) 0x0A p)) = [6]
     \<and> ring_bytes (input_ring (pty_ldisc_input (\<lambda>_. False) 0x0A p)) = [0x62, 0x0A]"
proof -
  define p where "p = demo_vty\<lparr>line_buf := [0x61, 0x62], input_waiters := [\<lparr>w_task = 5, w_buf = 16, w_size = 1\<rparr>, \<lparr>w_task = 6, w_buf = 16, w_size = 9\<rparr>]\<rparr>"
  have p: "pty_inv p" "attr p = pty_default_attr" "input_waiters p = [\<lparr>w_task = 5, w_buf = 16, w_size = 1\<rparr>, \<lparr>w_task = 6, w_buf = 16, w_size = 9\<rparr>]"
    "line_buf p = [0x61, 0x62]" "rg_len (input_ring p) = 0"
    using demo_vty_inv by (simp_all add: p_def pty_inv_def PTY_LINE_SIZE_def)
  have a: "icanon (attr p)" "\<not> (isig (attr p) \<and> cc_vintr (attr p) = 0x0A)" "0x0A \<notin> {cc_veof (attr p), cc_verase (attr p), cc_vkill (attr p)}"
    by (simp_all add: p(2) pty_default_attr_def)
  note t = pty_second_reader_sleeps [OF p(1) a p(3) p(5), of "\<lambda>_. False"]
  have "input_waiters (pty_ldisc_input (\<lambda>_. False) 0x0A p) = [\<lparr>w_task = 6, w_buf = 16, w_size = 9\<rparr>]"
    "ring_bytes (input_ring (pty_ldisc_input (\<lambda>_. False) 0x0A p)) = [0x62, 0x0A]"
    using t p(4) by (simp_all add: PTY_LINE_SIZE_def)
  then show ?thesis using p(3) by (intro exI [of _ p]) simp
qed

end
