(* ===== verification/Socket.thy ===== *)
theory Socket
  imports Ring Vnode
begin

text \<open>
  Unix sockets: the data path, the table of bound sockets and the wait queues of
  \<^verbatim>\<open>kernel/schedule/schedule.c\<close>, and the calls of \<^verbatim>\<open>kernel/syscall/syscall.c\<close> that make, bind, connect,
  accept and shut them. A socket is named by its address in a store; \<open>None\<close> as a result is an
  access through a pointer to a socket that was freed. A call gets the socket that its
  descriptor leads to (\<open>None\<close> when it leads to none) and, where it makes a descriptor, the outcome
  \<open>fd\<close> of that; it gives what it leaves in \<^verbatim>\<open>errno\<close>. Wakings (with the result of the waiting call),
  deliveries and signals are recorded in order. \<open>addr\<close> is the address read from user memory: its family
  and path, \<open>None\<close> when the copy fails. Allocations succeed.
\<close>

definition SOCK_STREAM :: nat where "SOCK_STREAM = 1"
definition SOCK_DGRAM :: nat where "SOCK_DGRAM = 2"
definition SOCK_BUFFER_SIZE_ALLOC :: nat where "SOCK_BUFFER_SIZE_ALLOC = 4096"
definition SOCK_BACKLOG_MAX :: nat where "SOCK_BACKLOG_MAX = 8"
definition MAX_BOUND_SOCKETS :: nat where "MAX_BOUND_SOCKETS = 64"
definition AF_UNIX :: nat where "AF_UNIX = 1"

definition EFAULT :: int where "EFAULT = 14"
definition ENOSPC :: int where "ENOSPC = 28"
definition EPIPE :: int where "EPIPE = 32"
definition EOPNOTSUPP :: int where "EOPNOTSUPP = 95"
definition EAFNOSUPPORT :: int where "EAFNOSUPPORT = 106"
definition EPROTOTYPE :: int where "EPROTOTYPE = 107"
definition ENOTSOCK :: int where "ENOTSOCK = 108"
definition ECONNREFUSED :: int where "ECONNREFUSED = 111"
definition EADDRINUSE :: int where "EADDRINUSE = 112"
definition EDESTADDRREQ :: int where "EDESTADDRREQ = 121"
definition EMSGSIZE :: int where "EMSGSIZE = 122"
definition ENOTCONN :: int where "ENOTCONN = 128"

subsection \<open>State\<close>

datatype sock_state = SOCK_STATE_UNCONNECTED | SOCK_STATE_BOUND | SOCK_STATE_LISTENING | SOCK_STATE_CONNECTING
  | SOCK_STATE_CONNECTED | SOCK_STATE_CLOSED

record sock_waiter =
  sw_task :: nat
  sw_buf :: nat
  sw_size :: nat

record unix_socket =
  s_type :: nat
  s_state :: sock_state
  s_bound :: bool
  s_path :: "u8 list"
  s_buffer :: "u8 list"
  s_size :: nat
  s_read_pos :: nat
  s_write_pos :: nat
  s_len :: nat
  s_read_waiters :: "sock_waiter list"
  s_write_waiters :: "sock_waiter list"
  s_peer :: "nat option"
  s_backlog :: "nat list"
  s_backlog_max :: nat
  s_accept_waiters :: "sock_waiter list"
  s_connect_waiters :: "sock_waiter list"

datatype sock_event = Woken nat int | Delivered nat nat "u8 list" | Sigpipe nat

record sockets =
  socks :: "nat \<Rightarrow> unix_socket option"
  bound_sockets :: "nat list"
  sfresh :: nat
  sevents :: "sock_event list"

datatype sock_result = Result int | Sleeps

definition set_sock :: "nat \<Rightarrow> unix_socket option \<Rightarrow> sockets \<Rightarrow> sockets" where
  "set_sock p x s = s\<lparr>socks := (socks s)(p := x)\<rparr>"

definition sock_log :: "sock_event list \<Rightarrow> sockets \<Rightarrow> sockets" where
  "sock_log es s = s\<lparr>sevents := sevents s @ es\<rparr>"

lemma set_sock_simps [simp]:
  "socks (set_sock p x s) q = (if q = p then x else socks s q)" "bound_sockets (set_sock p x s) = bound_sockets s"
  "sfresh (set_sock p x s) = sfresh s" "sevents (set_sock p x s) = sevents s"
  "socks (sock_log es s) = socks s" "bound_sockets (sock_log es s) = bound_sockets s" "sfresh (sock_log es s) = sfresh s"
  "sevents (sock_log es s) = sevents s @ es"
  by (simp_all add: set_sock_def sock_log_def)

subsection \<open>The queues\<close>

definition sock_waiter_enqueue :: "sock_waiter list \<Rightarrow> sock_waiter \<Rightarrow> sock_waiter list" where
  "sock_waiter_enqueue ws w = ws @ [w]"

definition sock_waiter_dequeue :: "sock_waiter list \<Rightarrow> sock_waiter option \<times> sock_waiter list" where
  "sock_waiter_dequeue ws = (case ws of [] \<Rightarrow> (None, []) | w # ws' \<Rightarrow> (Some w, ws'))"

text \<open>The events of waking, and the queue that is left.\<close>

definition sock_wake_one :: "sock_waiter list \<Rightarrow> sock_event list \<times> sock_waiter list" where
  "sock_wake_one ws = (case sock_waiter_dequeue ws of (None, ws') \<Rightarrow> ([], ws') | (Some w, ws') \<Rightarrow> ([Woken (sw_task w) 0], ws'))"

fun sock_wake_all :: "sock_waiter list \<Rightarrow> sock_event list" where
  "sock_wake_all [] = []"
| "sock_wake_all (w # ws) = Woken (sw_task w) 0 # sock_wake_all ws"

subsection \<open>The table of bound sockets\<close>

definition unix_socket_lookup :: "u8 list \<Rightarrow> sockets \<Rightarrow> nat option" where
  "unix_socket_lookup path s =
     find (\<lambda>p. case socks s p of None \<Rightarrow> False | Some x \<Rightarrow> s_path x = path) (bound_sockets s)"

definition unix_socket_register :: "nat \<Rightarrow> sockets \<Rightarrow> int \<times> sockets" where
  "unix_socket_register p s =
     (if length (bound_sockets s) \<ge> MAX_BOUND_SOCKETS then (- ENOSPC, s) else (0, s\<lparr>bound_sockets := bound_sockets s @ [p]\<rparr>))"

text \<open>The last entry takes the place of the one removed.\<close>

fun swap_remove :: "nat \<Rightarrow> nat list \<Rightarrow> nat list" where
  "swap_remove p [] = []"
| "swap_remove p (q # qs) = (if q = p then (if qs = [] then [] else last qs # butlast qs) else q # swap_remove p qs)"

definition unix_socket_unregister :: "nat \<Rightarrow> sockets \<Rightarrow> sockets" where
  "unix_socket_unregister p s = s\<lparr>bound_sockets := swap_remove p (bound_sockets s)\<rparr>"

subsection \<open>The buffer\<close>

definition sock_get :: "nat \<Rightarrow> unix_socket \<Rightarrow> u8 list \<times> unix_socket" where
  "sock_get n x =
     (let k = (if n < s_len x then n else s_len x); (xs, rp) = ring_get (s_buffer x) (s_size x) (s_read_pos x) k
      in (xs, x\<lparr>s_read_pos := rp, s_len := s_len x - k\<rparr>))"

definition sock_put :: "u8 list \<Rightarrow> unix_socket \<Rightarrow> nat \<times> unix_socket" where
  "sock_put xs x =
     (let space = sub32 (s_size x) (s_len x); k = (if length xs < space then length xs else space);
          (buf, wp) = ring_put (s_buffer x) (s_size x) (s_write_pos x) (take k xs)
      in (k, x\<lparr>s_buffer := buf, s_write_pos := wp, s_len := s_len x + k\<rparr>))"

text \<open>A waiting reader is served in pieces of at most 256 bytes.\<close>

function sock_deliver :: "nat \<Rightarrow> unix_socket \<Rightarrow> u8 list \<times> unix_socket" where
  "sock_deliver n x =
     (if n = 0 then ([], x)
      else let chunk = min n 256; (xs, x1) = sock_get chunk x; (ys, x2) = sock_deliver (n - chunk) x1 in (xs @ ys, x2))"
  by auto

termination by (relation "measure fst") auto

declare sock_deliver.simps [simp del]

definition sock_read_wake_one :: "unix_socket \<Rightarrow> sock_event list \<times> unix_socket" where
  "sock_read_wake_one x =
     (case sock_waiter_dequeue (s_read_waiters x) of
        (None, ws) \<Rightarrow> ([], x)
      | (Some w, ws) \<Rightarrow>
          let x1 = x\<lparr>s_read_waiters := ws\<rparr>; to_read = (if sw_size w < s_len x then sw_size w else s_len x)
          in if to_read > 0 \<and> sw_buf w \<noteq> 0 then (let (xs, x2) = sock_deliver to_read x1 in ([Delivered (sw_task w) (sw_buf w) xs], x2))
             else ([Woken (sw_task w) 0], x1))"

subsection \<open>Reading, writing and closing\<close>

text \<open>\<open>t\<close> is the running task and \<open>ub\<close> its \<^verbatim>\<open>current_user_buf\<close>.\<close>

definition task_ipc_unix_socket_read :: "nat \<Rightarrow> nat \<Rightarrow> nat option \<Rightarrow> nat \<Rightarrow> sockets \<Rightarrow> (sock_result \<times> u8 list \<times> sockets) option" where
  "task_ipc_unix_socket_read t ub ep n s =
     (if n = 0 then Some (Result 0, [], s)
      else case ep of None \<Rightarrow> Some (Result (- EBADF), [], s)
      | Some p \<Rightarrow> do {
          x \<leftarrow> socks s p;
          if s_type x = SOCK_STREAM \<and> s_state x \<noteq> SOCK_STATE_CONNECTED then Some (Result (- ENOTCONN), [], s)
          else if s_len x > 0 then do {
            let (xs, x1) = sock_get n x;
            let (es, ws) = sock_wake_one (s_write_waiters x1);
            Some (Result (int (length xs)), xs, sock_log es (set_sock p (Some (x1\<lparr>s_write_waiters := ws\<rparr>)) s))
          } else do {
            gone \<leftarrow> (if s_type x = SOCK_STREAM then
                       (case s_peer x of None \<Rightarrow> Some True | Some q \<Rightarrow> do { y \<leftarrow> socks s q; Some (s_state y = SOCK_STATE_CLOSED) })
                     else Some False);
            if gone then Some (Result 0, [], s)
            else Some (Sleeps, [], set_sock p (Some (x\<lparr>s_read_waiters :=
                   sock_waiter_enqueue (s_read_waiters x) \<lparr>sw_task = t, sw_buf = ub, sw_size = n\<rparr>\<rparr>)) s)
          }
        })"

text \<open>The bytes go to the buffer of the peer, and one waiting reader of it is served.\<close>

definition sock_push :: "nat \<Rightarrow> unix_socket \<Rightarrow> u8 list \<Rightarrow> sockets \<Rightarrow> nat \<times> sockets" where
  "sock_push q y xs s =
     (let (k, y1) = sock_put xs y; (es, y2) = sock_read_wake_one y1 in (k, sock_log es (set_sock q (Some y2) s)))"

definition task_ipc_unix_socket_write :: "nat \<Rightarrow> nat option \<Rightarrow> u8 list \<Rightarrow> sockets \<Rightarrow> (sock_result \<times> sockets) option" where
  "task_ipc_unix_socket_write t ep xs s =
     (if xs = [] then Some (Result 0, s)
      else case ep of None \<Rightarrow> Some (Result (- EBADF), s)
      | Some p \<Rightarrow> do {
          x \<leftarrow> socks s p;
          if s_type x = SOCK_STREAM then
            if s_state x \<noteq> SOCK_STATE_CONNECTED \<or> s_peer x = None then Some (Result (- ENOTCONN), s)
            else do {
              q \<leftarrow> s_peer x;
              y \<leftarrow> socks s q;
              if s_state y = SOCK_STATE_CLOSED then Some (Result (- EPIPE), sock_log [Sigpipe t] s)
              else if s_len y < s_size y then do { let (k, s1) = sock_push q y xs s; Some (Result (int k), s1) }
              else Some (Sleeps, set_sock q (Some (y\<lparr>s_write_waiters :=
                     sock_waiter_enqueue (s_write_waiters y) \<lparr>sw_task = t, sw_buf = 0, sw_size = 0\<rparr>\<rparr>)) s)
            }
          else case s_peer x of
            None \<Rightarrow> Some (Result (- EDESTADDRREQ), s)
          | Some q \<Rightarrow> do {
              y \<leftarrow> socks s q;
              if w32 (s_len y + length xs) > s_size y then Some (Result (- EMSGSIZE), s)
              else do { let (k, s1) = sock_push q y xs s; Some (Result (int (length xs)), s1) }
            }
        })"

text \<open>The peer of a closed socket loses its pointer if it points back, and everyone who waits is woken.\<close>

definition close_peer :: "nat \<Rightarrow> nat \<Rightarrow> sockets \<Rightarrow> sockets option" where
  "close_peer p q s = do {
     y \<leftarrow> socks s q;
     let y1 = (if s_peer y = Some p then y\<lparr>s_peer := None\<rparr> else y);
     Some (sock_log (sock_wake_all (s_read_waiters y1) @ sock_wake_all (s_write_waiters y1))
       (set_sock q (Some (y1\<lparr>s_read_waiters := [], s_write_waiters := []\<rparr>)) s))
   }"

definition task_ipc_unix_socket_close :: "nat option \<Rightarrow> sockets \<Rightarrow> sockets option" where
  "task_ipc_unix_socket_close ep s =
     (case ep of None \<Rightarrow> Some s
      | Some p \<Rightarrow> do {
          x \<leftarrow> socks s p;
          let x1 = x\<lparr>s_state := SOCK_STATE_CLOSED, s_read_waiters := [], s_write_waiters := [], s_accept_waiters := [], s_connect_waiters := []\<rparr>;
          let s1 = sock_log (sock_wake_all (s_read_waiters x) @ sock_wake_all (s_write_waiters x) @ sock_wake_all (s_accept_waiters x)
                     @ sock_wake_all (s_connect_waiters x)) (set_sock p (Some x1) s);
          s2 \<leftarrow> (case s_peer x1 of None \<Rightarrow> Some s1 | Some q \<Rightarrow> close_peer p q s1);
          let s3 = (if s_bound x then unix_socket_unregister p s2 else s2);
          Some (set_sock p None s3)
        })"

subsection \<open>The calls\<close>

definition new_sock :: "nat \<Rightarrow> unix_socket" where
  "new_sock type = \<lparr>s_type = type, s_state = SOCK_STATE_UNCONNECTED, s_bound = False, s_path = [],
     s_buffer = replicate SOCK_BUFFER_SIZE_ALLOC 0, s_size = SOCK_BUFFER_SIZE_ALLOC, s_read_pos = 0, s_write_pos = 0, s_len = 0,
     s_read_waiters = [], s_write_waiters = [], s_peer = None, s_backlog = [], s_backlog_max = 0, s_accept_waiters = [], s_connect_waiters = []\<rparr>"

definition sock_alloc :: "nat \<Rightarrow> sockets \<Rightarrow> nat \<times> sockets" where
  "sock_alloc type s = (sfresh s, set_sock (sfresh s) (Some (new_sock type)) (s\<lparr>sfresh := sfresh s + 1\<rparr>))"

definition sys_socket :: "nat \<Rightarrow> nat \<Rightarrow> int \<Rightarrow> sockets \<Rightarrow> int \<times> sockets" where
  "sys_socket domain type fd s =
     (if domain \<noteq> AF_UNIX then (- EAFNOSUPPORT, s)
      else if type \<noteq> SOCK_STREAM \<and> type \<noteq> SOCK_DGRAM then (- EPROTOTYPE, s)
      else let (p, s1) = sock_alloc type s in if fd < 0 then (fd, set_sock p None s1) else (fd, s1))"

definition sys_bind :: "nat option \<Rightarrow> (nat \<times> u8 list) option \<Rightarrow> sockets \<Rightarrow> (int \<times> sockets) option" where
  "sys_bind sock addr s =
     (case sock of None \<Rightarrow> Some (- ENOTSOCK, s)
      | Some p \<Rightarrow> do {
          x \<leftarrow> socks s p;
          if s_bound x then Some (- EINVAL, s)
          else case addr of None \<Rightarrow> Some (- EFAULT, s)
          | Some (family, path) \<Rightarrow>
              if family \<noteq> AF_UNIX then Some (- EAFNOSUPPORT, s)
              else if unix_socket_lookup path s \<noteq> None then Some (- EADDRINUSE, s)
              else do {
                let x1 = x\<lparr>s_path := path, s_bound := True, s_state := SOCK_STATE_BOUND\<rparr>;
                let (r, s1) = unix_socket_register p (set_sock p (Some x1) s);
                if r \<noteq> 0 then Some (- ENOSPC, set_sock p (Some (x1\<lparr>s_bound := False, s_state := SOCK_STATE_UNCONNECTED\<rparr>)) s1)
                else Some (0, s1)
              }
        })"

definition sys_listen :: "nat option \<Rightarrow> nat \<Rightarrow> sockets \<Rightarrow> (int \<times> sockets) option" where
  "sys_listen sock backlog s =
     (case sock of None \<Rightarrow> Some (- ENOTSOCK, s)
      | Some p \<Rightarrow> do {
          x \<leftarrow> socks s p;
          if s_type x \<noteq> SOCK_STREAM then Some (- EOPNOTSUPP, s)
          else if \<not> s_bound x then Some (- EINVAL, s)
          else let m = (if backlog < SOCK_BACKLOG_MAX then backlog else SOCK_BACKLOG_MAX)
               in Some (0, set_sock p (Some (x\<lparr>s_backlog_max := (if m = 0 then 1 else m), s_state := SOCK_STATE_LISTENING\<rparr>)) s)
        })"

text \<open>The first of the backlog is joined to a new socket; the result is for the accepting task.\<close>

definition sock_accept_deliver :: "nat \<Rightarrow> int \<Rightarrow> sockets \<Rightarrow> (int \<times> sockets) option" where
  "sock_accept_deliver l fd s = do {
     x \<leftarrow> socks s l;
     client \<leftarrow> (case s_backlog x of [] \<Rightarrow> None | c # cs \<Rightarrow> Some c);
     let (server, s1) = sock_alloc SOCK_STREAM (set_sock l (Some (x\<lparr>s_backlog := tl (s_backlog x)\<rparr>)) s);
     c \<leftarrow> socks s1 client;
     let s2 = set_sock client (Some (c\<lparr>s_peer := Some server, s_state := SOCK_STATE_CONNECTED\<rparr>))
        (set_sock server (Some ((new_sock SOCK_STREAM)\<lparr>s_state := SOCK_STATE_CONNECTED, s_peer := Some client\<rparr>)) s1);
     x2 \<leftarrow> socks s2 l;
     let (es, ws) = sock_wake_one (s_connect_waiters x2);
     let s3 = sock_log es (set_sock l (Some (x2\<lparr>s_connect_waiters := ws\<rparr>)) s2);
     if fd < 0 then do {
       c3 \<leftarrow> socks s3 client;
       Some (fd, set_sock server None (set_sock client (Some (c3\<lparr>s_peer := None, s_state := SOCK_STATE_UNCONNECTED\<rparr>)) s3))
     } else Some (fd, s3)
   }"

definition sys_accept :: "nat \<Rightarrow> nat option \<Rightarrow> int \<Rightarrow> sockets \<Rightarrow> (sock_result \<times> sockets) option" where
  "sys_accept t sock fd s =
     (case sock of None \<Rightarrow> Some (Result (- ENOTSOCK), s)
      | Some l \<Rightarrow> do {
          x \<leftarrow> socks s l;
          if s_state x \<noteq> SOCK_STATE_LISTENING then Some (Result (- EINVAL), s)
          else if s_backlog x = [] then
            Some (Sleeps, set_sock l (Some (x\<lparr>s_accept_waiters := sock_waiter_enqueue (s_accept_waiters x) \<lparr>sw_task = t, sw_buf = 0, sw_size = 0\<rparr>\<rparr>)) s)
          else do { (r, s1) \<leftarrow> sock_accept_deliver l fd s; Some (Result r, s1) }
        })"

definition sys_connect :: "nat \<Rightarrow> nat option \<Rightarrow> (nat \<times> u8 list) option \<Rightarrow> int \<Rightarrow> sockets \<Rightarrow> (sock_result \<times> sockets) option" where
  "sys_connect t sock addr fd s =
     (case sock of None \<Rightarrow> Some (Result (- ENOTSOCK), s)
      | Some p \<Rightarrow> do {
          x \<leftarrow> socks s p;
          if s_state x = SOCK_STATE_CONNECTED then Some (Result 0, s)
          else case addr of None \<Rightarrow> Some (Result (- EFAULT), s)
          | Some (family, path) \<Rightarrow>
              if family \<noteq> AF_UNIX then Some (Result (- EAFNOSUPPORT), s)
              else case unix_socket_lookup path s of None \<Rightarrow> Some (Result (- ECONNREFUSED), s)
              | Some l \<Rightarrow>
                  if s_type x = SOCK_STREAM then do {
                    y \<leftarrow> socks s l;
                    if s_state y \<noteq> SOCK_STATE_LISTENING then Some (Result (- ECONNREFUSED), s)
                    else if length (s_backlog y) \<ge> s_backlog_max y then Some (Result (- ECONNREFUSED), s)
                    else do {
                      let s1 = set_sock l (Some (y\<lparr>s_backlog := s_backlog y @ [p]\<rparr>)) s;
                      x1 \<leftarrow> socks s1 p;
                      let s2 = set_sock p (Some (x1\<lparr>s_state := SOCK_STATE_CONNECTING\<rparr>)) s1;
                      y2 \<leftarrow> socks s2 l;
                      case sock_waiter_dequeue (s_accept_waiters y2) of
                        (Some w, ws) \<Rightarrow> do {
                          (r, s3) \<leftarrow> sock_accept_deliver l fd (set_sock l (Some (y2\<lparr>s_accept_waiters := ws\<rparr>)) s2);
                          Some (Result 0, sock_log [Woken (sw_task w) r] s3)
                        }
                      | (None, ws) \<Rightarrow> Some (Sleeps, set_sock l (Some (y2\<lparr>s_connect_waiters :=
                          sock_waiter_enqueue (s_connect_waiters y2) \<lparr>sw_task = t, sw_buf = 0, sw_size = 0\<rparr>\<rparr>)) s2)
                    }
                  }
                  else Some (Result 0, set_sock p (Some (x\<lparr>s_peer := Some l, s_state := SOCK_STATE_CONNECTED\<rparr>)) s)
        })"

definition sys_shutdown :: "nat option \<Rightarrow> sockets \<Rightarrow> (int \<times> sockets) option" where
  "sys_shutdown sock s =
     (case sock of None \<Rightarrow> Some (- ENOTSOCK, s)
      | Some p \<Rightarrow> do {
          x \<leftarrow> socks s p;
          let s1 = sock_log (sock_wake_all (s_read_waiters x) @ sock_wake_all (s_write_waiters x))
            (set_sock p (Some (x\<lparr>s_state := SOCK_STATE_CLOSED, s_read_waiters := [], s_write_waiters := []\<rparr>)) s);
          s2 \<leftarrow> (case s_peer x of None \<Rightarrow> Some s1
            | Some q \<Rightarrow> do {
                y \<leftarrow> socks s1 q;
                Some (sock_log (sock_wake_all (s_read_waiters y) @ sock_wake_all (s_write_waiters y))
                  (set_sock q (Some (y\<lparr>s_read_waiters := [], s_write_waiters := []\<rparr>)) s1))
              });
          Some (0, s2)
        })"

text \<open>
  \<open>fd0\<close> and \<open>fd1\<close> are the outcomes of making the descriptors; \<open>in_user\<close> tells whether the address is in user
  space, \<open>copy_ok\<close> is the outcome of copying to it.
\<close>

definition sys_socketpair :: "nat \<Rightarrow> bool \<Rightarrow> int \<Rightarrow> int \<Rightarrow> bool \<Rightarrow> sockets \<Rightarrow> (int \<times> sockets) option" where
  "sys_socketpair type in_user fd0 fd1 copy_ok s =
     (if type \<noteq> SOCK_STREAM \<and> type \<noteq> SOCK_DGRAM then Some (- EPROTOTYPE, s)
      else if \<not> in_user then Some (- EFAULT, s)
      else
        let (p, s1) = sock_alloc type s; (q, s2) = sock_alloc type s1;
            s3 = set_sock q (Some ((new_sock type)\<lparr>s_peer := Some p, s_state := SOCK_STATE_CONNECTED\<rparr>))
              (set_sock p (Some ((new_sock type)\<lparr>s_peer := Some q, s_state := SOCK_STATE_CONNECTED\<rparr>)) s2)
        in if fd0 < 0 then Some (fd0, set_sock q None (set_sock p None s3))
           else if fd1 < 0 then do { s4 \<leftarrow> task_ipc_unix_socket_close (Some p) s3; Some (fd1, set_sock q None s4) }
           else if \<not> copy_ok then do {
             s4 \<leftarrow> task_ipc_unix_socket_close (Some p) s3;
             s5 \<leftarrow> task_ipc_unix_socket_close (Some q) s4;
             Some (- EFAULT, s5)
           }
           else Some (0, s3))"

text \<open>
  The two calls on data do not ask whether their descriptor is a socket: on any other file, the private data of its
  file system is taken for a socket's.
\<close>

datatype sock_fd = Bad_fd | Sock_fd "nat option" | Other_fd

definition sys_send :: "nat \<Rightarrow> sock_fd \<Rightarrow> bool \<Rightarrow> u8 list option \<Rightarrow> sockets \<Rightarrow> (sock_result \<times> sockets) option" where
  "sys_send t fd in_user data s =
     (if fd = Bad_fd then Some (Result (- EBADF), s)
      else if \<not> in_user then Some (Result (- EFAULT), s)
      else case data of None \<Rightarrow> Some (Result (- EFAULT), s)
      | Some xs \<Rightarrow> (case fd of Sock_fd ep \<Rightarrow> task_ipc_unix_socket_write t ep xs s | _ \<Rightarrow> None))"

definition sys_recv :: "nat \<Rightarrow> sock_fd \<Rightarrow> bool \<Rightarrow> nat \<Rightarrow> nat \<Rightarrow> bool \<Rightarrow> sockets \<Rightarrow> (sock_result \<times> u8 list \<times> sockets) option" where
  "sys_recv t fd in_user buf n copy_ok s =
     (if fd = Bad_fd then Some (Result (- EBADF), [], s)
      else if \<not> in_user then Some (Result (- EFAULT), [], s)
      else case fd of Sock_fd ep \<Rightarrow> do {
          (r, xs, s1) \<leftarrow> task_ipc_unix_socket_read t buf ep n s;
          if xs \<noteq> [] \<and> \<not> copy_ok then Some (Result (- EFAULT), [], s1) else Some (r, xs, s1)
        }
      | _ \<Rightarrow> None)"

section \<open>The bytes of a socket\<close>

definition sock_ok :: "unix_socket \<Rightarrow> bool" where
  "sock_ok x \<longleftrightarrow> ring_ok (s_buffer x) (s_size x) (s_read_pos x) (s_write_pos x) (s_len x)"

definition sock_bytes :: "unix_socket \<Rightarrow> u8 list" where
  "sock_bytes x = ring_view (s_buffer x) (s_read_pos x) (s_len x)"

lemma sock_bytes_length: "length (sock_bytes x) = s_len x"
  by (simp add: sock_bytes_def)

lemma sock_put_ok:
  assumes "sock_ok x" "sock_put xs x = (n, x')"
  shows "sock_ok x' \<and> n = min (length xs) (s_size x - s_len x) \<and> sock_bytes x' = sock_bytes x @ take n xs \<and> s_size x' = s_size x
    \<and> (\<exists>b w l. x' = x\<lparr>s_buffer := b, s_write_pos := w, s_len := l\<rparr>)"
proof -
  have le: "s_len x \<le> s_size x" using assms(1) by (simp add: sock_ok_def ring_ok_def)
  let ?k = "min (length xs) (s_size x - s_len x)"
  have k: "s_len x + length (take ?k xs) \<le> s_size x" "length (take ?k xs) = ?k" using le by simp_all
  from ring_put_ok [OF assms(1) [unfolded sock_ok_def] k(1)] obtain buf where
    b: "ring_put (s_buffer x) (s_size x) (s_write_pos x) (take ?k xs) = (buf, (s_read_pos x + s_len x + ?k) mod s_size x)"
    "ring_ok buf (s_size x) (s_read_pos x) ((s_read_pos x + s_len x + ?k) mod s_size x) (s_len x + ?k)"
    "ring_view buf (s_read_pos x) (s_len x + ?k) = ring_view (s_buffer x) (s_read_pos x) (s_len x) @ take ?k xs"
    unfolding k(2) by blast
  have "(if length xs < sub32 (s_size x) (s_len x) then length xs else sub32 (s_size x) (s_len x)) = ?k"
    using le by (simp add: sub32_le min_def)
  then have "sock_put xs x = (?k, x\<lparr>s_buffer := buf, s_write_pos := (s_read_pos x + s_len x + ?k) mod s_size x, s_len := s_len x + ?k\<rparr>)"
    unfolding sock_put_def Let_def using b(1) by simp
  then have "n = ?k" "x' = x\<lparr>s_buffer := buf, s_write_pos := (s_read_pos x + s_len x + ?k) mod s_size x, s_len := s_len x + ?k\<rparr>"
    using assms(2) by simp_all
  moreover from this(2) have "\<exists>b w l. x' = x\<lparr>s_buffer := b, s_write_pos := w, s_len := l\<rparr>" by blast
  ultimately show ?thesis using b(2,3) by (auto simp: sock_ok_def sock_bytes_def)
qed

lemma sock_get_ok:
  assumes "sock_ok x" "sock_get n x = (xs, x')"
  shows "sock_ok x' \<and> xs = take n (sock_bytes x) \<and> sock_bytes x' = drop n (sock_bytes x) \<and> s_size x' = s_size x
    \<and> (\<exists>r l. x' = x\<lparr>s_read_pos := r, s_len := l\<rparr>)"
proof -
  let ?k = "min n (s_len x)"
  have "?k \<le> s_len x" by simp
  note g = ring_get_ok [OF assms(1) [unfolded sock_ok_def] this]
  have k: "(if n < s_len x then n else s_len x) = ?k" by simp
  have "sock_get n x = (take ?k (sock_bytes x), x\<lparr>s_read_pos := (s_read_pos x + ?k) mod s_size x, s_len := s_len x - ?k\<rparr>)"
    unfolding sock_get_def Let_def k using g(1) by (simp add: sock_bytes_def)
  then have e: "xs = take ?k (sock_bytes x)" "x' = x\<lparr>s_read_pos := (s_read_pos x + ?k) mod s_size x, s_len := s_len x - ?k\<rparr>"
    using assms(2) by simp_all
  have "\<exists>r l. x' = x\<lparr>s_read_pos := r, s_len := l\<rparr>" using e(2) by blast
  moreover have "take ?k (sock_bytes x) = take n (sock_bytes x)" "drop ?k (sock_bytes x) = drop n (sock_bytes x)"
    by (simp_all add: min_def sock_bytes_length)
  ultimately show ?thesis using g(2,3) e by (auto simp: sock_ok_def sock_bytes_def)
qed

interpretation sock_fifo: byte_fifo sock_ok sock_bytes s_size sock_put sock_get
proof unfold_locales
  fix x x' :: unix_socket and xs :: "u8 list" and n
  assume i: "sock_ok x"
  show "sock_ok x' \<and> n = min (length xs) (s_size x - length (sock_bytes x)) \<and> sock_bytes x' = sock_bytes x @ take n xs \<and> s_size x' = s_size x"
    if "sock_put xs x = (n, x')"
    using sock_put_ok [OF i that] by (simp add: sock_bytes_length)
  show "sock_ok x' \<and> length xs = min n (length (sock_bytes x)) \<and> sock_bytes x = xs @ sock_bytes x' \<and> s_size x' = s_size x"
    if "sock_get n x = (xs, x')"
    using sock_get_ok [OF i that] by (auto simp: sock_bytes_length)
qed

lemma sock_deliver_ok:
  "sock_ok x \<Longrightarrow> sock_deliver n x = (xs, x') \<Longrightarrow> sock_ok x' \<and> xs = take n (sock_bytes x) \<and> sock_bytes x' = drop n (sock_bytes x)
    \<and> s_size x' = s_size x \<and> (\<exists>r l. x' = x\<lparr>s_read_pos := r, s_len := l\<rparr>)"
proof (induction n x arbitrary: xs x' rule: sock_deliver.induct)
  case (1 n x)
  show ?case
  proof (cases "n = 0")
    case True
    have "\<exists>r l. x = x\<lparr>s_read_pos := r, s_len := l\<rparr>" by (rule exI [of _ "s_read_pos x"], rule exI [of _ "s_len x"]) simp
    then show ?thesis using True 1 by (simp add: sock_deliver.simps)
  next
    case False
    obtain ys x1 where y: "sock_get (min n 256) x = (ys, x1)" by fastforce
    obtain zs x2 where z: "sock_deliver (n - min n 256) x1 = (zs, x2)" by fastforce
    note Y = sock_get_ok [OF "1.prems"(1) y]
    from "1.IH" [OF False refl y [symmetric] refl _ z] Y
    have Z: "sock_ok x2" "zs = take (n - min n 256) (sock_bytes x1)" "sock_bytes x2 = drop (n - min n 256) (sock_bytes x1)" "s_size x2 = s_size x1"
      "\<exists>r l. x2 = x1\<lparr>s_read_pos := r, s_len := l\<rparr>" by simp_all
    have e: "xs = ys @ zs" "x' = x2" using "1.prems"(2) False y z by (simp_all add: sock_deliver.simps [of n x] Let_def)
    have "\<exists>r l. x' = x\<lparr>s_read_pos := r, s_len := l\<rparr>" using Y Z(5) e(2) by fastforce
    moreover have "min n 256 + (n - min n 256) = n" by simp
    then have "ys @ zs = take n (sock_bytes x)" "drop (n - min n 256) (drop (min n 256) (sock_bytes x)) = drop n (sock_bytes x)"
      using Y Z(2) by (metis take_add, metis drop_drop add.commute)
    ultimately show ?thesis using Y Z e by simp
  qed
qed

text \<open>The bytes that an event hands over.\<close>

fun handed :: "sock_event \<Rightarrow> u8 list" where
  "handed (Delivered t a xs) = xs"
| "handed e = []"

text \<open>What the data path leaves alone.\<close>

definition same_sock :: "unix_socket \<Rightarrow> unix_socket \<Rightarrow> bool" where
  "same_sock x y \<longleftrightarrow> s_type y = s_type x \<and> s_state y = s_state x \<and> s_bound y = s_bound x \<and> s_path y = s_path x \<and> s_size y = s_size x
     \<and> s_peer y = s_peer x \<and> s_backlog y = s_backlog x \<and> s_backlog_max y = s_backlog_max x"

text \<open>What the reader at the head of the queue gets of the bytes \<open>bs\<close>: as many as it asked for, straight into its buffer; a
  reader with nothing to take, or without a buffer, is only woken.\<close>

definition served :: "sock_waiter list \<Rightarrow> u8 list \<Rightarrow> sock_event list" where
  "served ws bs =
     (case ws of
        [] \<Rightarrow> []
      | w # _ \<Rightarrow>
          if take (sw_size w) bs \<noteq> [] \<and> sw_buf w \<noteq> 0 then [Delivered (sw_task w) (sw_buf w) (take (sw_size w) bs)]
          else [Woken (sw_task w) 0])"

lemma sock_read_wake_ok:
  assumes "sock_ok x" "sock_read_wake_one x = (es, x')"
  shows "sock_ok x' \<and> concat (map handed es) @ sock_bytes x' = sock_bytes x \<and> same_sock x x' \<and> es = served (s_read_waiters x) (sock_bytes x)
    \<and> s_read_waiters x' = drop 1 (s_read_waiters x) \<and> s_write_waiters x' = s_write_waiters x"
proof (cases "s_read_waiters x")
  case Nil
  then show ?thesis using assms by (auto simp: sock_read_wake_one_def sock_waiter_dequeue_def same_sock_def served_def)
next
  case (Cons w ws)
  define n where "n = min (sw_size w) (s_len x)"
  obtain xs x2 where d: "sock_deliver n (x\<lparr>s_read_waiters := ws\<rparr>) = (xs, x2)" by fastforce
  have "sock_ok (x\<lparr>s_read_waiters := ws\<rparr>)" using assms(1) by (simp add: sock_ok_def)
  note D = sock_deliver_ok [OF this d]
  have b: "sock_bytes (x\<lparr>s_read_waiters := ws\<rparr>) = sock_bytes x" by (simp add: sock_bytes_def)
  from D have s: "same_sock x x2" by (auto simp: same_sock_def)
  have t: "take (sw_size w) (sock_bytes x) = take n (sock_bytes x)" "take n (sock_bytes x) \<noteq> [] \<longleftrightarrow> 0 < n"
    using sock_bytes_length [of x] by (auto simp: n_def min_def)
  have m: "(if sw_size w < s_len x then sw_size w else s_len x) = n" by (simp add: n_def min_def)
  have w: "s_read_waiters x2 = ws" "s_write_waiters x2 = s_write_waiters x" using D by auto
  show ?thesis
  proof (cases "0 < n \<and> sw_buf w \<noteq> 0")
    case True
    then have "es = [Delivered (sw_task w) (sw_buf w) xs]" "x' = x2"
      using assms(2) Cons d by (auto simp: sock_read_wake_one_def sock_waiter_dequeue_def Let_def m)
    then show ?thesis using D b s w True Cons t by (simp add: served_def)
  next
    case False
    then have "es = [Woken (sw_task w) 0]" "x' = x\<lparr>s_read_waiters := ws\<rparr>"
      using assms(2) Cons by (auto simp: sock_read_wake_one_def sock_waiter_dequeue_def Let_def m)
    then show ?thesis using assms(1) b False Cons t by (auto simp: served_def same_sock_def sock_ok_def)
  qed
qed

lemma same_sock_trans: "same_sock x y \<Longrightarrow> same_sock y z \<Longrightarrow> same_sock x z"
  by (simp add: same_sock_def)

lemma sock_push_ok:
  assumes "sock_ok y" "sock_push q y xs s = (k, s')"
  shows "\<exists>y'. let es = served (s_read_waiters y) (sock_bytes y @ take k xs) in
      s' = sock_log es (set_sock q (Some y') s) \<and> sock_ok y' \<and> same_sock y y' \<and> k = min (length xs) (s_size y - s_len y)
    \<and> concat (map handed es) @ sock_bytes y' = sock_bytes y @ take k xs
    \<and> s_read_waiters y' = drop 1 (s_read_waiters y) \<and> s_write_waiters y' = s_write_waiters y"
proof -
  obtain j y1 where p: "sock_put xs y = (j, y1)" by fastforce
  obtain es y2 where w: "sock_read_wake_one y1 = (es, y2)" by fastforce
  note P = sock_put_ok [OF assms(1) p]
  then have s: "same_sock y y1" "s_read_waiters y1 = s_read_waiters y" "s_write_waiters y1 = s_write_waiters y" by (auto simp: same_sock_def)
  have "sock_ok y1" using P by simp
  note W = sock_read_wake_ok [OF this w]
  have k: "k = j" "s' = sock_log es (set_sock q (Some y2) s)" using assms(2) p w by (simp_all add: sock_push_def)
  have e: "es = served (s_read_waiters y) (sock_bytes y @ take k xs)" using W P s(2) k(1) by simp
  have "same_sock y y2" using same_sock_trans [OF s(1)] W by blast
  then show ?thesis unfolding Let_def e [symmetric] using P W k s by (intro exI [of _ y2]) auto
qed

text \<open>
  C11. Writing to a connected stream socket appends to what its peer will read, in order, as many bytes as
  the peer's buffer has room for, and returns their number. The first reader that waits on the peer, if there is one, leaves the queue and
  is handed the front of the peer's bytes, as many as it asked for (it is only woken when it asked for none or has no buffer); the
  rest stays in the buffer. With no room the writer goes to sleep at the end of the peer's queue of writers. No other socket changes.
\<close>

theorem socket_write_spec:
  assumes "socks s p = Some x" "s_type x = SOCK_STREAM" "s_state x = SOCK_STATE_CONNECTED" "s_peer x = Some q" "socks s q = Some y"
    and "s_state y \<noteq> SOCK_STATE_CLOSED" "sock_ok y" "xs \<noteq> []"
  shows "\<exists>r y' es. task_ipc_unix_socket_write t (Some p) xs s = Some (r, sock_log es (set_sock q (Some y') s)) \<and> sock_ok y' \<and> same_sock y y'
    \<and> (if s_len y < s_size y
       then r = Result (int (min (length xs) (s_size y - s_len y)))
         \<and> es = served (s_read_waiters y) (sock_bytes y @ take (s_size y - s_len y) xs)
         \<and> concat (map handed es) @ sock_bytes y' = sock_bytes y @ take (s_size y - s_len y) xs
         \<and> s_read_waiters y' = drop 1 (s_read_waiters y) \<and> s_write_waiters y' = s_write_waiters y
       else r = Sleeps \<and> es = [] \<and> sock_bytes y' = sock_bytes y \<and> s_read_waiters y' = s_read_waiters y
         \<and> s_write_waiters y' = s_write_waiters y @ [\<lparr>sw_task = t, sw_buf = 0, sw_size = 0\<rparr>])"
proof (cases "s_len y < s_size y")
  case True
  obtain k s1 where u: "sock_push q y xs s = (k, s1)" by fastforce
  define es where "es = served (s_read_waiters y) (sock_bytes y @ take k xs)"
  obtain y' where U: "s1 = sock_log es (set_sock q (Some y') s)" "sock_ok y'" "same_sock y y'" "k = min (length xs) (s_size y - s_len y)"
    "concat (map handed es) @ sock_bytes y' = sock_bytes y @ take k xs"
    "s_read_waiters y' = drop 1 (s_read_waiters y)" "s_write_waiters y' = s_write_waiters y"
    using sock_push_ok [OF assms(7) u] unfolding Let_def es_def [symmetric] by blast
  have "task_ipc_unix_socket_write t (Some p) xs s = Some (Result (int k), s1)"
    using assms True u by (simp add: task_ipc_unix_socket_write_def)
  moreover have k: "take k xs = take (s_size y - s_len y) xs" using U(4) by (simp add: min_def)
  ultimately show ?thesis using U True unfolding es_def k by (intro exI [of _ "Result (int k)"] exI [of _ y'] exI) (simp add: U(4))
next
  case False
  let ?y = "y\<lparr>s_write_waiters := sock_waiter_enqueue (s_write_waiters y) \<lparr>sw_task = t, sw_buf = 0, sw_size = 0\<rparr>\<rparr>"
  have "task_ipc_unix_socket_write t (Some p) xs s = Some (Sleeps, sock_log [] (set_sock q (Some ?y) s))"
    using assms False by (simp add: task_ipc_unix_socket_write_def sock_log_def)
  then show ?thesis using assms(7) False
    by (intro exI [of _ Sleeps] exI [of _ ?y] exI [of _ "[]"]) (simp add: sock_ok_def same_sock_def sock_bytes_def sock_waiter_enqueue_def)
qed

definition no_socks :: sockets where
  "no_socks = \<lparr>socks = \<lambda>_. None, bound_sockets = [], sfresh = 1, sevents = []\<rparr>"

definition demo_pair :: sockets where
  "demo_pair = set_sock 2 (Some ((new_sock SOCK_STREAM)\<lparr>s_peer := Some 1, s_state := SOCK_STATE_CONNECTED\<rparr>))
     (set_sock 1 (Some ((new_sock SOCK_STREAM)\<lparr>s_peer := Some 2, s_state := SOCK_STATE_CONNECTED\<rparr>)) (no_socks\<lparr>sfresh := 3\<rparr>))"

lemma new_sock_ok: "sock_ok (new_sock ty)" "sock_bytes (new_sock ty) = []" "s_len (new_sock ty) = 0" "s_size (new_sock ty) = 4096"
  by (simp_all add: sock_ok_def sock_bytes_def new_sock_def ring_ok_def SOCK_BUFFER_SIZE_ALLOC_def)

lemma socket_write_spec_witness:
  "\<exists>y. task_ipc_unix_socket_write 7 (Some 1) [5, 6, 8] (set_sock 2 (map_option (s_read_waiters_update (\<lambda>_. [\<lparr>sw_task = 9, sw_buf = 64, sw_size = 2\<rparr>])) (socks demo_pair 2)) demo_pair)
     = Some (Result 3, sock_log [Delivered 9 64 [5, 6]] (set_sock 2 (Some y) demo_pair)) \<and> sock_bytes y = [8] \<and> s_read_waiters y = []"
proof -
  let ?y0 = "(new_sock SOCK_STREAM)\<lparr>s_peer := Some 1, s_state := SOCK_STATE_CONNECTED\<rparr>"
  let ?y = "?y0\<lparr>s_read_waiters := [\<lparr>sw_task = 9, sw_buf = 64, sw_size = 2\<rparr>]\<rparr>"
  let ?x = "(new_sock SOCK_STREAM)\<lparr>s_peer := Some 2, s_state := SOCK_STATE_CONNECTED\<rparr>"
  let ?s = "set_sock 2 (Some ?y) demo_pair"
  have s: "socks ?s 1 = Some ?x" "socks ?s 2 = Some ?y" by (simp_all add: demo_pair_def)
  have x: "s_type ?x = SOCK_STREAM" "s_state ?x = SOCK_STATE_CONNECTED" "s_peer ?x = Some 2" by (simp_all add: new_sock_def)
  have y: "s_state ?y \<noteq> SOCK_STATE_CLOSED" "sock_ok ?y" "sock_bytes ?y = []" "s_len ?y = 0" "s_size ?y = 4096" "[5, 6, 8] \<noteq> ([] :: u8 list)"
    using new_sock_ok [of SOCK_STREAM] by (simp_all add: sock_ok_def sock_bytes_def)
  have e: "map_option (s_read_waiters_update (\<lambda>_. [\<lparr>sw_task = 9, sw_buf = 64, sw_size = 2\<rparr>])) (socks demo_pair 2) = Some ?y"
    "set_sock 2 z ?s = set_sock 2 z demo_pair" for z
    by (simp_all add: demo_pair_def set_sock_def)
  have b: "sock_bytes ?y = []" "sock_bytes ?y0 = []" using new_sock_ok(2) [of SOCK_STREAM] by (simp_all add: sock_bytes_def)
  from socket_write_spec [OF s(1) x s(2) y(1,2,6), of 7] obtain y' where
    "task_ipc_unix_socket_write 7 (Some 1) [5, 6, 8] ?s = Some (Result 3, sock_log [Delivered 9 64 [5, 6]] (set_sock 2 (Some y') demo_pair))"
    "sock_bytes y' = [8]" "s_read_waiters y' = []"
    unfolding e(2) y(4,5) b by (auto simp: served_def)
  then show ?thesis unfolding e(1) by blast
qed

section \<open>The table of bound sockets\<close>

lemma swap_remove_set: "distinct ps \<Longrightarrow> distinct (swap_remove p ps) \<and> set (swap_remove p ps) = set ps - {p}"
proof (induction p ps rule: swap_remove.induct)
  case (1 p)
  then show ?case by simp
next
  case (2 p q qs)
  show ?case
  proof (cases "q = p")
    case True
    show ?thesis
    proof (cases "qs = []")
      case False
      then have e: "qs = butlast qs @ [last qs]" by simp
      then have s: "set qs = insert (last qs) (set (butlast qs))" by (metis list.set(1) list.set(2) set_append Un_insert_right Un_empty_right)
      have "distinct (butlast qs @ [last qs])" using 2 e by simp
      then have "distinct (butlast qs)" "last qs \<notin> set (butlast qs)" by simp_all
      then show ?thesis using True False s "2.prems" by auto
    qed (use True in simp)
  next
    case False
    then show ?thesis using 2 by auto
  qed
qed

lemma swap_remove_length: "length (swap_remove p ps) \<le> length ps"
  by (induction p ps rule: swap_remove.induct) auto

text \<open>What the table depends on: of each live socket, whether it is bound and where.\<close>

definition binding :: "sockets \<Rightarrow> nat \<Rightarrow> (bool \<times> u8 list) option" where
  "binding s p = map_option (\<lambda>x. (s_bound x, s_path x)) (socks s p)"

definition table_ok :: "sockets \<Rightarrow> bool" where
  "table_ok s \<longleftrightarrow> distinct (bound_sockets s) \<and> length (bound_sockets s) \<le> MAX_BOUND_SOCKETS
     \<and> (\<forall>p. p \<in> set (bound_sockets s) \<longleftrightarrow> (\<exists>path. binding s p = Some (True, path)))
     \<and> (\<forall>p q path. binding s p = Some (True, path) \<longrightarrow> binding s q = Some (True, path) \<longrightarrow> p = q)
     \<and> (\<forall>p. binding s p \<noteq> None \<longrightarrow> p < sfresh s)"

text \<open>Steps that change no binding, but may use new addresses for sockets that are not bound.\<close>

definition same_table :: "sockets \<Rightarrow> sockets \<Rightarrow> bool" where
  "same_table s s' \<longleftrightarrow> bound_sockets s' = bound_sockets s \<and> sfresh s \<le> sfresh s'
     \<and> (\<forall>p. binding s' p = binding s p
        \<or> (binding s p = None \<or> (\<exists>path. binding s p = Some (False, path))) \<and>
          (binding s' p = None \<or> (\<exists>path. binding s' p = Some (False, path)) \<and> p < sfresh s'))"

lemma same_table_ok:
  assumes "table_ok s" "same_table s s'"
  shows "table_ok s'"
proof -
  have b: "(binding s' p = Some (True, path)) = (binding s p = Some (True, path))" for p path
    using assms(2) unfolding same_table_def by (metis (no_types) option.distinct(1) option.inject prod.inject)
  have "binding s' p \<noteq> None \<Longrightarrow> p < sfresh s'" for p
    using assms unfolding same_table_def table_ok_def by (metis less_le_trans)
  then show ?thesis using assms b unfolding table_ok_def same_table_def by auto
qed

lemma same_table_refl [simp]: "same_table s s"
  by (simp add: same_table_def)

lemma same_table_trans:
  assumes "same_table s t" "same_table t u"
  shows "same_table s u"
  unfolding same_table_def
proof (intro conjI allI)
  show "bound_sockets u = bound_sockets s" "sfresh s \<le> sfresh u" using assms by (auto simp: same_table_def)
  fix p
  have 1: "binding t p = binding s p \<or> (binding s p = None \<or> (\<exists>path. binding s p = Some (False, path))) \<and>
      (binding t p = None \<or> (\<exists>path. binding t p = Some (False, path)) \<and> p < sfresh t)" using assms(1) by (simp add: same_table_def)
  have 2: "binding u p = binding t p \<or> (binding t p = None \<or> (\<exists>path. binding t p = Some (False, path))) \<and>
      (binding u p = None \<or> (\<exists>path. binding u p = Some (False, path)) \<and> p < sfresh u)" using assms(2) by (simp add: same_table_def)
  have 3: "sfresh t \<le> sfresh u" using assms(2) by (simp add: same_table_def)
  show "binding u p = binding s p \<or> (binding s p = None \<or> (\<exists>path. binding s p = Some (False, path))) \<and>
      (binding u p = None \<or> (\<exists>path. binding u p = Some (False, path)) \<and> p < sfresh u)"
    using 1 2 3 by (metis less_le_trans)
qed

lemma binding_log [simp]: "binding (sock_log es s) p = binding s p"
  by (simp add: binding_def)

lemma same_table_log [simp]: "same_table s (sock_log es t) = same_table s t"
  by (simp add: same_table_def)

lemma same_table_set:
  assumes "same_table s t" "socks t p = Some x" "s_bound x' = s_bound x" "s_path x' = s_path x"
  shows "same_table s (set_sock p (Some x') t)"
proof -
  have "same_table t (set_sock p (Some x') t)" using assms(2-4) by (simp add: same_table_def binding_def)
  then show ?thesis by (rule same_table_trans [OF assms(1)])
qed

lemma same_table_drop:
  assumes "same_table s t" "\<forall>x. socks t p = Some x \<longrightarrow> \<not> s_bound x"
  shows "same_table s (set_sock p None t)"
proof -
  have "binding t p = None \<or> (\<exists>path. binding t p = Some (False, path))" using assms(2) by (cases "socks t p") (auto simp: binding_def)
  then have "same_table t (set_sock p None t)" by (auto simp: same_table_def binding_def)
  then show ?thesis by (rule same_table_trans [OF assms(1)])
qed

lemma table_fresh: "table_ok s \<Longrightarrow> socks s (sfresh s) = None"
  by (cases "socks s (sfresh s)") (auto simp: table_ok_def binding_def)

lemma same_table_alloc:
  assumes "table_ok s" "same_table s t" "sock_alloc ty t = (p, u)"
  shows "same_table s u" "p = sfresh t" "socks u p = Some (new_sock ty)"
proof -
  have "socks t (sfresh t) = None" using table_fresh [OF same_table_ok [OF assms(1,2)]] .
  then have "binding t (sfresh t) = None" by (simp add: binding_def)
  moreover have "binding u q = (if q = sfresh t then Some (False, []) else binding t q)" for q
    using assms(3) by (auto simp: sock_alloc_def binding_def new_sock_def)
  moreover have "bound_sockets u = bound_sockets t" "sfresh u = Suc (sfresh t)" using assms(3) by (auto simp: sock_alloc_def)
  ultimately have "same_table t u" by (simp add: same_table_def)
  then show "same_table s u" by (rule same_table_trans [OF assms(2)])
  show "p = sfresh t" "socks u p = Some (new_sock ty)" using assms(3) by (auto simp: sock_alloc_def)
qed

lemma same_sock_bound: "same_sock x y \<Longrightarrow> s_bound y = s_bound x \<and> s_path y = s_path x"
  by (simp add: same_sock_def)

lemma sock_get_bound: "sock_get n x = (xs, x') \<Longrightarrow> s_bound x' = s_bound x \<and> s_path x' = s_path x"
  by (auto simp: sock_get_def Let_def split: prod.splits)

lemma sock_put_bound: "sock_put xs x = (n, x') \<Longrightarrow> s_bound x' = s_bound x \<and> s_path x' = s_path x"
  by (auto simp: sock_put_def Let_def split: prod.splits)

lemma sock_deliver_bound: "sock_deliver n x = (xs, x') \<Longrightarrow> s_bound x' = s_bound x \<and> s_path x' = s_path x"
proof (induction n x arbitrary: xs x' rule: sock_deliver.induct)
  case (1 n x)
  show ?case
  proof (cases "n = 0")
    case False
    obtain ys x1 where y: "sock_get (min n 256) x = (ys, x1)" by fastforce
    obtain zs x2 where z: "sock_deliver (n - min n 256) x1 = (zs, x2)" by fastforce
    show ?thesis using "1.IH" [OF False refl y [symmetric] refl z] sock_get_bound [OF y] "1.prems" False y z
      by (simp add: sock_deliver.simps [of n x] Let_def)
  qed (use 1 in \<open>simp add: sock_deliver.simps\<close>)
qed

lemma sock_push_same:
  assumes "socks s q = Some y" "sock_push q y xs s = (k, s')"
  shows "same_table s s'"
proof -
  obtain j y1 where p: "sock_put xs y = (j, y1)" by fastforce
  obtain es y2 where w: "sock_read_wake_one y1 = (es, y2)" by fastforce
  have "s_bound y2 = s_bound y1 \<and> s_path y2 = s_path y1" using w sock_deliver_bound
    by (fastforce simp: sock_read_wake_one_def sock_waiter_dequeue_def Let_def split: list.splits if_splits prod.splits)
  then have "s_bound y2 = s_bound y" "s_path y2 = s_path y" using sock_put_bound [OF p] by simp_all
  from same_table_set [OF same_table_refl assms(1) this] show ?thesis using assms(2) p w by (auto simp: sock_push_def)
qed

lemma read_same: "task_ipc_unix_socket_read t ub ep n s = Some (r, xs, s') \<Longrightarrow> same_table s s'"
  by (auto simp: task_ipc_unix_socket_read_def Let_def dest!: sock_get_bound intro!: same_table_set
      split: if_splits option.splits bind_splits prod.splits)

lemma write_same: "task_ipc_unix_socket_write t ep xs s = Some (r, s') \<Longrightarrow> same_table s s'"
  by (auto simp: task_ipc_unix_socket_write_def Let_def dest: sock_push_same intro!: same_table_set
      split: if_splits option.splits bind_splits prod.splits)

lemma listen_same: "sys_listen sock n s = Some (r, s') \<Longrightarrow> same_table s s'"
  by (auto simp: sys_listen_def Let_def intro!: same_table_set split: if_splits option.splits bind_splits)

lemma shutdown_same:
  assumes "sys_shutdown sock s = Some (r, s')"
  shows "same_table s s'"
proof (cases sock)
  case None
  then show ?thesis using assms by (simp add: sys_shutdown_def)
next
  case (Some p)
  then obtain x where x: "socks s p = Some x" using assms by (auto simp: sys_shutdown_def split: bind_splits)
  let ?s = "sock_log (sock_wake_all (s_read_waiters x) @ sock_wake_all (s_write_waiters x))
            (set_sock p (Some (x\<lparr>s_state := SOCK_STATE_CLOSED, s_read_waiters := [], s_write_waiters := []\<rparr>)) s)"
  have 1: "same_table s ?s" using same_table_set [OF same_table_refl x] by simp
  show ?thesis
  proof (cases "s_peer x")
    case None
    then show ?thesis using 1 assms Some x by (auto simp: sys_shutdown_def Let_def)
  next
    case (Some q)
    then obtain y where y: "socks ?s q = Some y"
      "s' = sock_log (sock_wake_all (s_read_waiters y) @ sock_wake_all (s_write_waiters y))
        (set_sock q (Some (y\<lparr>s_read_waiters := [], s_write_waiters := []\<rparr>)) ?s)"
      using assms \<open>sock = Some p\<close> x unfolding sys_shutdown_def Let_def by (cases "socks ?s q") simp_all
    show ?thesis unfolding y(2) using same_table_set [OF 1 y(1)] by simp
  qed
qed

lemma accept_deliver_same:
  assumes "table_ok s" "sock_accept_deliver l fd s = Some (r, s')"
  shows "same_table s s'"
proof -
  obtain x where x: "socks s l = Some x" using assms(2) by (auto simp: sock_accept_deliver_def split: bind_splits)
  obtain client cs where b: "s_backlog x = client # cs" using assms(2) x by (cases "s_backlog x") (auto simp: sock_accept_deliver_def)
  let ?s0 = "set_sock l (Some (x\<lparr>s_backlog := tl (s_backlog x)\<rparr>)) s"
  obtain server s1 where a: "sock_alloc SOCK_STREAM ?s0 = (server, s1)" by fastforce
  have t0: "same_table s ?s0" by (rule same_table_set [OF same_table_refl x]) simp_all
  note t1 = same_table_alloc [OF assms(1) t0 a]
  obtain c where c: "socks s1 client = Some c"
    using assms(2) x b a by (cases "socks s1 client") (simp_all add: sock_accept_deliver_def Let_def)
  let ?c = "c\<lparr>s_peer := Some server, s_state := SOCK_STATE_CONNECTED\<rparr>"
  let ?n = "(new_sock SOCK_STREAM)\<lparr>s_state := SOCK_STATE_CONNECTED, s_peer := Some client\<rparr>"
  let ?s1 = "set_sock server (Some ?n) s1"
  have t2: "same_table s ?s1" by (rule same_table_set [OF t1(1,3)]) simp_all
  have t3: "same_table s (set_sock client (Some ?c) ?s1)"
  proof (cases "client = server")
    case True
    then have "c = new_sock SOCK_STREAM" using c t1(3) by simp
    then show ?thesis using same_table_set [OF t2, of client ?n ?c] True by simp
  next
    case False
    then show ?thesis using same_table_set [OF t2, of client c ?c] c by simp
  qed
  let ?s2 = "set_sock client (Some ?c) ?s1"
  obtain x2 where x2: "socks ?s2 l = Some x2"
    using assms(2) x b a c by (cases "socks ?s2 l") (simp_all add: sock_accept_deliver_def Let_def)
  obtain es ws where w: "sock_wake_one (s_connect_waiters x2) = (es, ws)" by fastforce
  let ?s3 = "sock_log es (set_sock l (Some (x2\<lparr>s_connect_waiters := ws\<rparr>)) ?s2)"
  have t4: "same_table s ?s3" using same_table_set [OF t3 x2] by simp
  have d: "(if fd < 0 then do { c3 \<leftarrow> socks ?s3 client;
       Some (fd, set_sock server None (set_sock client (Some (c3\<lparr>s_peer := None, s_state := SOCK_STATE_UNCONNECTED\<rparr>)) ?s3)) }
     else Some (fd, ?s3)) = Some (r, s')"
    using assms(2) x b a c x2 w by (simp add: sock_accept_deliver_def Let_def)
  show ?thesis
  proof (cases "fd < 0")
    case False
    then show ?thesis using d t4 by simp
  next
    case True
    then obtain c3 where c3: "socks ?s3 client = Some c3" using d by (cases "socks ?s3 client") simp_all
    let ?s4 = "set_sock client (Some (c3\<lparr>s_peer := None, s_state := SOCK_STATE_UNCONNECTED\<rparr>)) ?s3"
    have t5: "same_table s ?s4" using same_table_set [OF t4 c3] by simp
    have nb: "binding s server = None \<or> (\<exists>path. binding s server = Some (False, path))"
      using table_fresh [OF assms(1)] t1(2) by (simp add: binding_def)
    have "\<not> s_bound y" if "socks ?s4 server = Some y" for y
    proof -
      have "binding ?s4 server = binding s server \<or> binding ?s4 server = None \<or> (\<exists>path. binding ?s4 server = Some (False, path))"
        using t5 unfolding same_table_def by blast
      then show ?thesis using nb that unfolding binding_def by auto
    qed
    then have "same_table s (set_sock server None ?s4)" using same_table_drop [OF t5] by blast
    moreover have "s' = set_sock server None ?s4" using d True c3 by simp
    ultimately show ?thesis by simp
  qed
qed

lemma connect_same:
  assumes ok: "table_ok s" and c: "sys_connect t sock addr fd s = Some (r, s')"
  shows "same_table s s'"
proof (cases sock)
  case None
  then show ?thesis using c by (simp add: sys_connect_def)
next
  case (Some p)
  then obtain x where x: "socks s p = Some x" using c by (auto simp: sys_connect_def split: bind_splits)
  show ?thesis
  proof (cases "s_state x = SOCK_STATE_CONNECTED \<or> addr = None \<or> fst (the addr) \<noteq> AF_UNIX \<or> unix_socket_lookup (snd (the addr)) s = None")
    case True
    then show ?thesis using c Some x by (auto simp: sys_connect_def split: option.splits if_splits)
  next
    case False
    then obtain path l where a: "addr = Some (AF_UNIX, path)" "unix_socket_lookup path s = Some l" by auto
    show ?thesis
    proof (cases "s_type x = SOCK_STREAM")
      case False2: False
      then show ?thesis using c Some x a False same_table_set [OF same_table_refl x] by (auto simp: sys_connect_def)
    next
      case True
      then obtain y where y: "socks s l = Some y" using c Some x a False by (auto simp: sys_connect_def split: bind_splits)
      show ?thesis
      proof (cases "s_state y \<noteq> SOCK_STATE_LISTENING \<or> length (s_backlog y) \<ge> s_backlog_max y")
        case True2: True
        then show ?thesis using c Some x a y False True by (cases "s_state y = SOCK_STATE_LISTENING") (simp_all add: sys_connect_def)
      next
        case False2: False
        let ?s1 = "set_sock l (Some (y\<lparr>s_backlog := s_backlog y @ [p]\<rparr>)) s"
        have t1: "same_table s ?s1" by (rule same_table_set [OF same_table_refl y]) simp_all
        obtain x1 where x1: "socks ?s1 p = Some x1" using x by (cases "p = l") simp_all
        let ?s2 = "set_sock p (Some (x1\<lparr>s_state := SOCK_STATE_CONNECTING\<rparr>)) ?s1"
        have t2: "same_table s ?s2" by (rule same_table_set [OF t1 x1]) simp_all
        obtain y2 where y2: "socks ?s2 l = Some y2" by (cases "l = p") simp_all
        obtain w ws where w: "sock_waiter_dequeue (s_accept_waiters y2) = (w, ws)" by fastforce
        have t3: "same_table s (set_sock l (Some (y2\<lparr>s_accept_waiters := ws\<rparr>)) ?s2)" by (rule same_table_set [OF t2 y2]) simp_all
        have e: "(case sock_waiter_dequeue (s_accept_waiters y2) of
              (Some w, ws) \<Rightarrow> do {
                (r, s3) \<leftarrow> sock_accept_deliver l fd (set_sock l (Some (y2\<lparr>s_accept_waiters := ws\<rparr>)) ?s2);
                Some (Result 0, sock_log [Woken (sw_task w) r] s3)
              }
            | (None, ws) \<Rightarrow> Some (Sleeps, set_sock l (Some (y2\<lparr>s_connect_waiters :=
                sock_waiter_enqueue (s_connect_waiters y2) \<lparr>sw_task = t, sw_buf = 0, sw_size = 0\<rparr>\<rparr>)) ?s2)) = Some (r, s')"
          using c Some x a y x1 y2 False True False2 unfolding sys_connect_def by (simp add: Let_def)
        show ?thesis
        proof (cases w)
          case None
          then show ?thesis using e w same_table_set [OF t2 y2] by auto
        next
          case (Some v)
          then obtain r3 s3 where d: "sock_accept_deliver l fd (set_sock l (Some (y2\<lparr>s_accept_waiters := ws\<rparr>)) ?s2) = Some (r3, s3)"
            "s' = sock_log [Woken (sw_task v) r3] s3" using e w by (auto split: bind_splits)
          from accept_deliver_same [OF same_table_ok [OF ok t3] d(1)] show ?thesis
            unfolding d(2) using same_table_trans [OF t3] by simp
        qed
      qed
    qed
  qed
qed

lemma accept_same:
  assumes "table_ok s" "sys_accept t sock fd s = Some (r, s')"
  shows "same_table s s'"
  using assms accept_deliver_same [OF assms(1)]
  by (auto simp: sys_accept_def intro!: same_table_set split: option.splits if_splits bind_splits)

lemma socket_same:
  assumes "table_ok s"
  shows "same_table s (snd (sys_socket domain type fd s))"
proof -
  obtain p s1 where a: "sock_alloc type s = (p, s1)" by fastforce
  note t = same_table_alloc [OF assms same_table_refl a]
  have "same_table s (set_sock p None s1)" by (rule same_table_drop [OF t(1)]) (simp add: t(3) new_sock_def)
  then show ?thesis using t(1) a by (simp add: sys_socket_def)
qed

lemma table_okI:
  assumes "distinct (bound_sockets s)" "length (bound_sockets s) \<le> MAX_BOUND_SOCKETS"
    "\<And>p. p \<in> set (bound_sockets s) \<longleftrightarrow> (\<exists>path. binding s p = Some (True, path))"
    "\<And>p q path. binding s p = Some (True, path) \<Longrightarrow> binding s q = Some (True, path) \<Longrightarrow> p = q"
    "\<And>p. binding s p \<noteq> None \<Longrightarrow> p < sfresh s"
  shows "table_ok s"
  using assms unfolding table_ok_def by blast

lemma table_okD:
  assumes "table_ok s"
  shows "distinct (bound_sockets s)" "length (bound_sockets s) \<le> MAX_BOUND_SOCKETS"
    "p \<in> set (bound_sockets s) \<longleftrightarrow> (\<exists>path. binding s p = Some (True, path))"
    "binding s p = Some (True, path) \<Longrightarrow> binding s q = Some (True, path) \<Longrightarrow> p = q"
    "binding s p \<noteq> None \<Longrightarrow> p < sfresh s"
  using assms unfolding table_ok_def by blast+

lemma lookup_some:
  assumes "table_ok s"
  shows "unix_socket_lookup path s = Some p \<longleftrightarrow> binding s p = Some (True, path)"
proof -
  have P: "(case socks s q of None \<Rightarrow> False | Some x \<Rightarrow> s_path x = path) \<longleftrightarrow> (\<exists>b. binding s q = Some (b, path))" for q
    by (auto simp: binding_def split: option.splits)
  have f: "unix_socket_lookup path s = Some p \<Longrightarrow> binding s p = Some (True, path)" for p
    using table_okD(3) [OF assms, of p] unfolding unix_socket_lookup_def P by (auto simp: find_Some_iff)
  show ?thesis
  proof
    assume b: "binding s p = Some (True, path)"
    then have "p \<in> set (bound_sockets s)" using table_okD(3) [OF assms] by blast
    then have "unix_socket_lookup path s \<noteq> None" using b unfolding unix_socket_lookup_def P find_None_iff by blast
    then obtain q where "unix_socket_lookup path s = Some q" by blast
    with f [OF this] b show "unix_socket_lookup path s = Some p" using table_okD(4) [OF assms] by blast
  qed (rule f)
qed

lemma bind_table_ok:
  assumes ok: "table_ok s" and b: "sys_bind sock addr s = Some (r, s')"
  shows "table_ok s'"
proof (cases "s' = s")
  case False
  then obtain p x path where x: "sock = Some p" "socks s p = Some x" "\<not> s_bound x" "addr = Some (AF_UNIX, path)" "unix_socket_lookup path s = None"
    using b by (auto simp: sys_bind_def Let_def split: option.splits if_splits bind_splits)
  let ?x = "x\<lparr>s_path := path, s_bound := True, s_state := SOCK_STATE_BOUND\<rparr>"
  let ?s = "set_sock p (Some ?x) s"
  show ?thesis
  proof (cases "length (bound_sockets s) \<ge> MAX_BOUND_SOCKETS")
    case True
    then have s': "s' = set_sock p (Some (?x\<lparr>s_bound := False, s_state := SOCK_STATE_UNCONNECTED\<rparr>)) ?s"
      using b x by (auto simp: sys_bind_def unix_socket_register_def ENOSPC_def)
    have "same_table s s'" unfolding s' using x(2,3) table_okD(5) [OF ok, of p] by (auto simp: same_table_def binding_def)
    then show ?thesis by (rule same_table_ok [OF ok])
  next
    case False
    then have s': "s' = ?s\<lparr>bound_sockets := bound_sockets s @ [p]\<rparr>" using b x by (auto simp: sys_bind_def unix_socket_register_def)
    have bp: "binding s p = Some (False, s_path x)" using x(2,3) by (simp add: binding_def)
    have bs: "binding s' q = (if q = p then Some (True, path) else binding s q)" for q unfolding s' by (simp add: binding_def)
    have np: "p \<notin> set (bound_sockets s)" using table_okD(3) [OF ok, of p] bp by simp
    have nq: "binding s q \<noteq> Some (True, path)" for q using lookup_some [OF ok, of path q] x(5) by simp
    have bnd: "bound_sockets s' = bound_sockets s @ [p]" "sfresh s' = sfresh s" by (simp_all add: s')
    show ?thesis
    proof (rule table_okI)
      show "distinct (bound_sockets s')" using np table_okD(1) [OF ok] by (simp add: bnd)
      show "length (bound_sockets s') \<le> MAX_BOUND_SOCKETS" using False by (simp add: bnd)
      show "q \<in> set (bound_sockets s') \<longleftrightarrow> (\<exists>path. binding s' q = Some (True, path))" for q
        using table_okD(3) [OF ok, of q] unfolding bnd bs by auto
      show "q = q2" if "binding s' q = Some (True, path2)" "binding s' q2 = Some (True, path2)" for q q2 path2
        using that nq table_okD(4) [OF ok, of q path2 q2] unfolding bs by (auto split: if_splits)
      show "q < sfresh s'" if "binding s' q \<noteq> None" for q
        using that table_okD(5) [OF ok, of q] bp unfolding bs bnd by (auto split: if_splits)
    qed
  qed
qed (use ok in simp)

lemma close_table_ok:
  assumes ok: "table_ok s" and c: "task_ipc_unix_socket_close ep s = Some s'"
  shows "table_ok s'"
proof (cases ep)
  case None
  then show ?thesis using c ok by (simp add: task_ipc_unix_socket_close_def)
next
  case (Some p)
  then obtain x where x: "socks s p = Some x" using c by (auto simp: task_ipc_unix_socket_close_def split: bind_splits)
  let ?x = "x\<lparr>s_state := SOCK_STATE_CLOSED, s_read_waiters := [], s_write_waiters := [], s_accept_waiters := [], s_connect_waiters := []\<rparr>"
  let ?s1 = "sock_log (sock_wake_all (s_read_waiters x) @ sock_wake_all (s_write_waiters x) @ sock_wake_all (s_accept_waiters x)
                     @ sock_wake_all (s_connect_waiters x)) (set_sock p (Some ?x) s)"
  have t1: "same_table s ?s1" using same_table_set [OF same_table_refl x] by simp
  obtain s2 where s2: "(case s_peer ?x of None \<Rightarrow> Some ?s1 | Some q \<Rightarrow> close_peer p q ?s1) = Some s2"
    "s' = set_sock p None (if s_bound x then unix_socket_unregister p s2 else s2)"
    using c Some x unfolding task_ipc_unix_socket_close_def Let_def by (auto split: bind_splits)
  have t2: "same_table s s2"
  proof (cases "s_peer x")
    case None
    then show ?thesis using s2(1) t1 by simp
  next
    case (Some q)
    then obtain y where y: "socks ?s1 q = Some y" using s2(1) by (auto simp: close_peer_def split: bind_splits)
    then show ?thesis using s2(1) Some same_table_set [OF t1 y] by (auto simp: close_peer_def Let_def)
  qed
  note ok2 = same_table_ok [OF ok t2]
  have bs: "binding s' q = (if q = p then None else binding s2 q)" for q unfolding s2(2) by (simp add: binding_def unix_socket_unregister_def)
  have "set (bound_sockets s') = set (bound_sockets s2) - {p} \<and> distinct (bound_sockets s') \<and> length (bound_sockets s') \<le> MAX_BOUND_SOCKETS"
  proof (cases "s_bound x")
    case True
    then show ?thesis unfolding s2(2) using swap_remove_set [OF table_okD(1) [OF ok2], of p] swap_remove_length [of p "bound_sockets s2"] table_okD(2) [OF ok2]
      by (simp add: unix_socket_unregister_def)
  next
    case False
    then have "p \<notin> set (bound_sockets s2)" using table_okD(3) [OF ok, of p] x t2 by (simp add: same_table_def binding_def)
    then show ?thesis unfolding s2(2) using False table_okD(1,2) [OF ok2] by simp
  qed
  moreover have "sfresh s' = sfresh s2" unfolding s2(2) by (simp add: unix_socket_unregister_def)
  ultimately show ?thesis
  proof (intro table_okI)
    assume a: "set (bound_sockets s') = set (bound_sockets s2) - {p} \<and> distinct (bound_sockets s') \<and> length (bound_sockets s') \<le> MAX_BOUND_SOCKETS"
      and b: "sfresh s' = sfresh s2"
    show "distinct (bound_sockets s')" "length (bound_sockets s') \<le> MAX_BOUND_SOCKETS" using a by simp_all
    show "q \<in> set (bound_sockets s') \<longleftrightarrow> (\<exists>path. binding s' q = Some (True, path))" for q
      using a table_okD(3) [OF ok2, of q] unfolding bs by auto
    show "q = q2" if "binding s' q = Some (True, path2)" "binding s' q2 = Some (True, path2)" for q q2 path2
      using that table_okD(4) [OF ok2, of q path2 q2] unfolding bs by (auto split: if_splits)
    show "q < sfresh s'" if "binding s' q \<noteq> None" for q
      using that table_okD(5) [OF ok2, of q] b unfolding bs by (auto split: if_splits)
  qed
qed

lemma pair_table_ok:
  assumes ok: "table_ok s" and r: "sys_socketpair type u fd0 fd1 copy_ok s = Some (r, s')"
  shows "table_ok s'"
proof (cases "(type \<noteq> SOCK_STREAM \<and> type \<noteq> SOCK_DGRAM) \<or> \<not> u")
  case True
  then show ?thesis using r ok by (auto simp: sys_socketpair_def split: if_splits)
next
  case False
  then have cond: "(type \<noteq> SOCK_STREAM \<and> type \<noteq> SOCK_DGRAM) = False" "u = True" by auto
  obtain p s1 where p: "sock_alloc type s = (p, s1)" by fastforce
  obtain q s2 where q: "sock_alloc type s1 = (q, s2)" by fastforce
  note t1 = same_table_alloc [OF ok same_table_refl p]
  note t2 = same_table_alloc [OF ok t1(1) q]
  have pq: "p < sfresh s1" using p by (auto simp: sock_alloc_def)
  then have sp: "socks s2 p = Some (new_sock type)" using q t1(3) by (auto simp: sock_alloc_def)
  let ?sp = "set_sock p (Some ((new_sock type)\<lparr>s_peer := Some q, s_state := SOCK_STATE_CONNECTED\<rparr>)) s2"
  let ?s3 = "set_sock q (Some ((new_sock type)\<lparr>s_peer := Some p, s_state := SOCK_STATE_CONNECTED\<rparr>)) ?sp"
  have t3: "same_table s ?sp" by (rule same_table_set [OF t2(1) sp]) simp_all
  have t4: "same_table s ?s3" using pq t2(2,3) by (intro same_table_set [OF t3, of q "new_sock type"]) simp_all
  have drop: "table_ok (set_sock q None t)" if "table_ok t" "\<forall>x. socks t q = Some x \<longrightarrow> \<not> s_bound x" for t
    by (rule same_table_ok [OF that(1) same_table_drop [OF same_table_refl that(2)]])
  have nb: "\<not> s_bound (new_sock type)" by (simp add: new_sock_def)
  have both: "table_ok (set_sock q None (set_sock p None ?s3))"
    by (rule same_table_ok [OF ok], rule same_table_drop, rule same_table_drop [OF t4]) (auto simp: nb)
  show ?thesis
  proof (cases "fd0 < 0")
    case True
    then show ?thesis using r p q both unfolding sys_socketpair_def cond by simp
  next
    case f0: False
    show ?thesis
    proof (cases "fd1 < 0")
      case True
      then obtain s4 where s4: "task_ipc_unix_socket_close (Some p) ?s3 = Some s4" "s' = set_sock q None s4"
        using r f0 p q unfolding sys_socketpair_def cond by (auto split: bind_splits)
      have ok4: "table_ok s4" by (rule close_table_ok [OF same_table_ok [OF ok t4] s4(1)])
      have "p \<noteq> q" using pq t2(2) by simp
      then have "\<exists>y. socks s4 q = Some y \<and> \<not> s_bound y" using s4(1) nb
        by (auto simp: task_ipc_unix_socket_close_def close_peer_def Let_def)
      then show ?thesis unfolding s4(2) using drop [OF ok4] by auto
    next
      case f1: False
      show ?thesis
      proof (cases copy_ok)
        case True
        then show ?thesis using r f0 f1 p q same_table_ok [OF ok t4] unfolding sys_socketpair_def cond by simp
      next
        case c: False
        then obtain s4 where s4: "task_ipc_unix_socket_close (Some p) ?s3 = Some s4" "task_ipc_unix_socket_close (Some q) s4 = Some s'"
          using r f0 f1 p q unfolding sys_socketpair_def cond by (auto split: bind_splits)
        show ?thesis by (rule close_table_ok [OF close_table_ok [OF same_table_ok [OF ok t4] s4(1)] s4(2)])
      qed
    qed
  qed
qed

text \<open>What tasks can do to sockets; each call works on the socket that a descriptor leads to.\<close>

inductive sock_reach :: "sockets \<Rightarrow> bool" where
  start: "sock_reach no_socks"
| socket: "sock_reach s \<Longrightarrow> sock_reach (snd (sys_socket domain type fd s))"
| pair: "\<lbrakk>sock_reach s; sys_socketpair type u fd0 fd1 ok s = Some (r, s')\<rbrakk> \<Longrightarrow> sock_reach s'"
| bind: "\<lbrakk>sock_reach s; sys_bind sock addr s = Some (r, s')\<rbrakk> \<Longrightarrow> sock_reach s'"
| listen: "\<lbrakk>sock_reach s; sys_listen sock n s = Some (r, s')\<rbrakk> \<Longrightarrow> sock_reach s'"
| accept: "\<lbrakk>sock_reach s; sys_accept t sock fd s = Some (q, s')\<rbrakk> \<Longrightarrow> sock_reach s'"
| connect: "\<lbrakk>sock_reach s; sys_connect t sock addr fd s = Some (q, s')\<rbrakk> \<Longrightarrow> sock_reach s'"
| read: "\<lbrakk>sock_reach s; task_ipc_unix_socket_read t ub sock n s = Some (q, xs, s')\<rbrakk> \<Longrightarrow> sock_reach s'"
| "write": "\<lbrakk>sock_reach s; task_ipc_unix_socket_write t sock xs s = Some (q, s')\<rbrakk> \<Longrightarrow> sock_reach s'"
| shutdown: "\<lbrakk>sock_reach s; sys_shutdown sock s = Some (r, s')\<rbrakk> \<Longrightarrow> sock_reach s'"
| close: "\<lbrakk>sock_reach s; task_ipc_unix_socket_close sock s = Some s'\<rbrakk> \<Longrightarrow> sock_reach s'"

lemma sock_reach_table: "sock_reach s \<Longrightarrow> table_ok s"
proof (induction rule: sock_reach.induct)
  case start
  show ?case by (simp add: table_ok_def no_socks_def binding_def)
next
  case (socket s domain type fd)
  then show ?case using same_table_ok socket_same by blast
qed (blast intro: pair_table_ok bind_table_ok close_table_ok same_table_ok listen_same accept_same connect_same read_same write_same shutdown_same)+

text \<open>
  C12. In every state that the calls on sockets reach, looking a path up finds a socket exactly when
  that socket is live and bound to the path, and there is never more than one: closing a bound socket, or failing to
  bind, leaves nothing behind in the table, which has at most 64 entries.
\<close>

theorem sock_reach_lookup:
  assumes "sock_reach s"
  shows "(unix_socket_lookup path s = Some p \<longleftrightarrow> (\<exists>x. socks s p = Some x \<and> s_bound x \<and> s_path x = path))
    \<and> distinct (bound_sockets s) \<and> length (bound_sockets s) \<le> MAX_BOUND_SOCKETS
    \<and> set (bound_sockets s) = {p. \<exists>x. socks s p = Some x \<and> s_bound x}"
proof (intro conjI)
  note ok = sock_reach_table [OF assms]
  show "unix_socket_lookup path s = Some p \<longleftrightarrow> (\<exists>x. socks s p = Some x \<and> s_bound x \<and> s_path x = path)"
    unfolding lookup_some [OF ok] by (auto simp: binding_def)
  show "distinct (bound_sockets s)" "length (bound_sockets s) \<le> MAX_BOUND_SOCKETS" using table_okD(1,2) [OF ok] by blast+
  show "set (bound_sockets s) = {p. \<exists>x. socks s p = Some x \<and> s_bound x}"
    using table_okD(3) [OF ok] by (auto simp: binding_def)
qed

definition demo_bound :: sockets where
  "demo_bound = (let s = snd (sys_socket AF_UNIX SOCK_DGRAM 3 no_socks)
     in case sys_bind (Some 1) (Some (AF_UNIX, [0x61])) s of Some (r, s1) \<Rightarrow> snd (sys_socket AF_UNIX SOCK_DGRAM 4 s1) | None \<Rightarrow> s)"

lemma demo_bound_socks:
  "socks demo_bound = (\<lambda>_. None)(1 := Some ((new_sock SOCK_DGRAM)\<lparr>s_path := [0x61], s_bound := True, s_state := SOCK_STATE_BOUND\<rparr>),
     2 := Some (new_sock SOCK_DGRAM))" "sock_reach demo_bound"
proof -
  let ?s = "snd (sys_socket AF_UNIX SOCK_DGRAM 3 no_socks)"
  obtain r s1 where b: "sys_bind (Some 1) (Some (AF_UNIX, [0x61])) ?s = Some (r, s1)"
    by (simp add: sys_bind_def sys_socket_def sock_alloc_def no_socks_def unix_socket_lookup_def unix_socket_register_def new_sock_def MAX_BOUND_SOCKETS_def)
  have "sock_reach s1" by (rule sock_reach.bind [OF sock_reach.socket [OF sock_reach.start] b])
  then show "sock_reach demo_bound" unfolding demo_bound_def Let_def b using sock_reach.socket by simp
  show "socks demo_bound = (\<lambda>_. None)(1 := Some ((new_sock SOCK_DGRAM)\<lparr>s_path := [0x61], s_bound := True, s_state := SOCK_STATE_BOUND\<rparr>),
     2 := Some (new_sock SOCK_DGRAM))"
    by (simp add: demo_bound_def sys_bind_def sys_socket_def sock_alloc_def no_socks_def unix_socket_lookup_def unix_socket_register_def
        new_sock_def MAX_BOUND_SOCKETS_def fun_eq_iff Let_def)
qed

lemma sock_reach_lookup_witness:
  "unix_socket_lookup [0x61] demo_bound = Some 1 \<and> unix_socket_lookup [0x62] demo_bound \<noteq> Some 1 \<and> set (bound_sockets demo_bound) = {1}"
proof -
  note l = sock_reach_lookup [OF demo_bound_socks(2)]
  have "unix_socket_lookup [0x61] demo_bound = Some 1" using l [of "[0x61]" 1] by (simp add: demo_bound_socks(1) new_sock_def)
  moreover have "unix_socket_lookup [0x62] demo_bound \<noteq> Some 1" using l [of "[0x62]" 1] by (simp add: demo_bound_socks(1) new_sock_def)
  moreover have "set (bound_sockets demo_bound) = {1}" using l by (auto simp: demo_bound_socks(1) new_sock_def split: if_splits)
  ultimately show ?thesis by simp
qed

section \<open>Pointers to closed sockets\<close>

text \<open>
  C13. A socket that is freed may still be pointed to. A datagram socket connected to a bound one keeps its
  pointer when that one is closed, and its next write follows it. A stream socket waiting in
  a backlog stays there when its task dies and closes it, and the next accept follows that pointer.
\<close>

theorem closed_socket_dangles:
  assumes "socks s p = Some x" "s_state x \<noteq> SOCK_STATE_CONNECTED" "s_peer x = None" "unix_socket_lookup path s = Some l"
    and "socks s l = Some y" "s_peer y = None" "l \<noteq> p" "xs \<noteq> []" "p < sfresh s"
  shows "(s_type x = SOCK_DGRAM \<longrightarrow> (\<exists>s1 s2. sys_connect t (Some p) (Some (AF_UNIX, path)) fd s = Some (Result 0, s1)
      \<and> task_ipc_unix_socket_close (Some l) s1 = Some s2 \<and> task_ipc_unix_socket_write t (Some p) xs s2 = None))
    \<and> (s_type x = SOCK_STREAM \<longrightarrow> s_state y = SOCK_STATE_LISTENING \<longrightarrow> s_backlog y = [] \<longrightarrow> 0 < s_backlog_max y \<longrightarrow> s_accept_waiters y = [] \<longrightarrow>
      (\<exists>s1 s2. sys_connect t (Some p) (Some (AF_UNIX, path)) fd s = Some (Sleeps, s1)
        \<and> task_ipc_unix_socket_close (Some p) s1 = Some s2 \<and> sys_accept u (Some l) fd s2 = None))"
proof (intro conjI impI)
  assume ty: "s_type x = SOCK_DGRAM"
  then have ns: "s_type x \<noteq> SOCK_STREAM" by (simp add: SOCK_DGRAM_def SOCK_STREAM_def)
  let ?x = "x\<lparr>s_peer := Some l, s_state := SOCK_STATE_CONNECTED\<rparr>"
  have c: "sys_connect t (Some p) (Some (AF_UNIX, path)) fd s = Some (Result 0, set_sock p (Some ?x) s)"
    using assms ns by (simp add: sys_connect_def)
  obtain s2 where s2: "task_ipc_unix_socket_close (Some l) (set_sock p (Some ?x) s) = Some s2" "socks s2 p = Some ?x" "socks s2 l = None"
    using assms by (auto simp: task_ipc_unix_socket_close_def unix_socket_unregister_def Let_def)
  have "task_ipc_unix_socket_write t (Some p) xs s2 = None"
    using assms(8) ns s2(2,3) by (simp add: task_ipc_unix_socket_write_def)
  then show "\<exists>s1 s2. sys_connect t (Some p) (Some (AF_UNIX, path)) fd s = Some (Result 0, s1)
      \<and> task_ipc_unix_socket_close (Some l) s1 = Some s2 \<and> task_ipc_unix_socket_write t (Some p) xs s2 = None"
    using c s2(1) by blast
next
  assume a: "s_type x = SOCK_STREAM" "s_state y = SOCK_STATE_LISTENING" "s_backlog y = []" "0 < s_backlog_max y" "s_accept_waiters y = []"
  let ?y = "y\<lparr>s_backlog := [p], s_connect_waiters := sock_waiter_enqueue (s_connect_waiters y) \<lparr>sw_task = t, sw_buf = 0, sw_size = 0\<rparr>\<rparr>"
  let ?x = "x\<lparr>s_state := SOCK_STATE_CONNECTING\<rparr>"
  obtain s1 where s1: "sys_connect t (Some p) (Some (AF_UNIX, path)) fd s = Some (Sleeps, s1)" "socks s1 p = Some ?x" "socks s1 l = Some ?y" "sfresh s1 = sfresh s"
    using assms a by (auto simp: sys_connect_def sock_waiter_dequeue_def Let_def)
  obtain s2 where s2: "task_ipc_unix_socket_close (Some p) s1 = Some s2" "socks s2 p = None" "socks s2 l = Some ?y" "sfresh s2 = sfresh s"
    using assms s1(2-4) by (auto simp: task_ipc_unix_socket_close_def unix_socket_unregister_def Let_def)
  have f: "sys_accept u (Some l) fd s2 = None"
    using s2(2-4) assms(7,9) a(2) by (simp add: sys_accept_def sock_accept_deliver_def sock_alloc_def)
  show "\<exists>s1 s2. sys_connect t (Some p) (Some (AF_UNIX, path)) fd s = Some (Sleeps, s1)
        \<and> task_ipc_unix_socket_close (Some p) s1 = Some s2 \<and> sys_accept u (Some l) fd s2 = None"
    using s1(1) s2(1) f by blast
qed


definition demo_listen :: sockets where
  "demo_listen = \<lparr>socks = (\<lambda>_. None)(1 := Some ((new_sock SOCK_STREAM)\<lparr>s_path := [0x61], s_bound := True,
       s_state := SOCK_STATE_LISTENING, s_backlog_max := 1\<rparr>), 2 := Some (new_sock SOCK_STREAM)),
     bound_sockets = [1], sfresh = 3, sevents = []\<rparr>"

lemma closed_socket_dangles_witness:
  "(\<exists>s1 s2. sys_connect 7 (Some 2) (Some (AF_UNIX, [0x61])) 0 demo_bound = Some (Result 0, s1)
      \<and> task_ipc_unix_socket_close (Some 1) s1 = Some s2 \<and> task_ipc_unix_socket_write 7 (Some 2) [0x62] s2 = None)
    \<and> (\<exists>s1 s2. sys_connect 7 (Some 2) (Some (AF_UNIX, [0x61])) 0 demo_listen = Some (Sleeps, s1)
      \<and> task_ipc_unix_socket_close (Some 2) s1 = Some s2 \<and> sys_accept 8 (Some 1) 0 s2 = None)"
proof (rule conjI)
  let ?y = "(new_sock SOCK_DGRAM)\<lparr>s_path := [0x61], s_bound := True, s_state := SOCK_STATE_BOUND\<rparr>"
  have l: "unix_socket_lookup [0x61] demo_bound = Some 1"
    unfolding lookup_some [OF sock_reach_table [OF demo_bound_socks(2)]] by (simp add: binding_def demo_bound_socks(1) new_sock_def)
  have f: "2 < sfresh demo_bound"
    using table_okD(5) [OF sock_reach_table [OF demo_bound_socks(2)], of 2] by (simp add: binding_def demo_bound_socks(1) new_sock_def)
  have n: "s_state (new_sock SOCK_DGRAM) \<noteq> SOCK_STATE_CONNECTED" "s_peer (new_sock SOCK_DGRAM) = None" "s_peer ?y = None" "s_type (new_sock SOCK_DGRAM) = SOCK_DGRAM"
    by (simp_all add: new_sock_def)
  have m: "socks demo_bound 2 = Some (new_sock SOCK_DGRAM)" "socks demo_bound 1 = Some ?y"
    by (simp_all add: demo_bound_socks(1))
  show "\<exists>s1 s2. sys_connect 7 (Some 2) (Some (AF_UNIX, [0x61])) 0 demo_bound = Some (Result 0, s1)
      \<and> task_ipc_unix_socket_close (Some 1) s1 = Some s2 \<and> task_ipc_unix_socket_write 7 (Some 2) [0x62] s2 = None"
    using closed_socket_dangles [OF m(1) n(1,2) l m(2) n(3) _ _ f, of "[0x62]" 7 0] n(4) by simp
  let ?l = "(new_sock SOCK_STREAM)\<lparr>s_path := [0x61], s_bound := True, s_state := SOCK_STATE_LISTENING, s_backlog_max := 1\<rparr>"
  have d: "socks demo_listen 2 = Some (new_sock SOCK_STREAM)" "socks demo_listen 1 = Some ?l" "2 < sfresh demo_listen"
    "unix_socket_lookup [0x61] demo_listen = Some 1"
    by (simp_all add: demo_listen_def unix_socket_lookup_def)
  have e: "s_state (new_sock SOCK_STREAM) \<noteq> SOCK_STATE_CONNECTED" "s_peer (new_sock SOCK_STREAM) = None" "s_peer ?l = None"
    by (simp_all add: new_sock_def)
  show "\<exists>s1 s2. sys_connect 7 (Some 2) (Some (AF_UNIX, [0x61])) 0 demo_listen = Some (Sleeps, s1)
      \<and> task_ipc_unix_socket_close (Some 2) s1 = Some s2 \<and> sys_accept 8 (Some 1) 0 s2 = None"
    using closed_socket_dangles [OF d(1) e(1,2) d(4,2) e(3) _ _ d(3), of "[0x62]" 7 0 8] by (simp add: new_sock_def)
qed

end
