(* ===== verification/Fatname.thy ===== *)
theory Fatname
  imports Cstring "HOL-Library.Monad_Syntax"
begin

text \<open>
  Names and directory entries of FAT32 (\<^verbatim>\<open>kernel/filesystem/fat32/fat32.c\<close> and \<^verbatim>\<open>fat32.h\<close>): the 11
  bytes of a short name, long names spread over several entries, and the scan of a directory's
  entries for a name. A name is its bytes without the closing NUL; an entry of a directory is its 32 bytes
  on disk, whose fields are read and written at their offsets. \<open>None\<close> is a write
  outside of the array \<^verbatim>\<open>lfn_fragments\<close>.
\<close>

subsection \<open>Bytes\<close>

definition le16 :: "u8 list \<Rightarrow> nat \<Rightarrow> nat" where
  "le16 bs i = unat (bs ! i) + 256 * unat (bs ! (i + 1))"

definition le32 :: "u8 list \<Rightarrow> nat \<Rightarrow> nat" where
  "le32 bs i = le16 bs i + 65536 * le16 bs (i + 2)"

definition put16 :: "u8 list \<Rightarrow> nat \<Rightarrow> nat \<Rightarrow> u8 list" where
  "put16 bs i v = bs[i := of_nat v, i + 1 := of_nat (v div 256)]"

definition put32 :: "u8 list \<Rightarrow> nat \<Rightarrow> nat \<Rightarrow> u8 list" where
  "put32 bs i v = put16 (put16 bs i v) (i + 2) (v div 65536)"

definition upc :: "u8 \<Rightarrow> u8" where "upc c = word_of_int (toupper (uint c))"
definition lowc :: "u8 \<Rightarrow> u8" where "lowc c = word_of_int (tolower (uint c))"

definition DOTC :: u8 where "DOTC = 0x2E"
definition SPC :: u8 where "SPC = 0x20"

subsection \<open>Short names\<close>

fun fat32_strcasecmp :: "u8 list \<Rightarrow> u8 list \<Rightarrow> int" where
  "fat32_strcasecmp (a # as) (b # bs) =
     (let ca = toupper (uint a); cb = toupper (uint b) in if ca \<noteq> cb then ca - cb else fat32_strcasecmp as bs)"
| "fat32_strcasecmp (a # as) [] = toupper (uint a)"
| "fat32_strcasecmp [] (b # bs) = - toupper (uint b)"
| "fat32_strcasecmp [] [] = 0"

definition fat32_lfn_checksum :: "u8 list \<Rightarrow> u8" where
  "fat32_lfn_checksum name = foldl (\<lambda>sum c. (if sum AND 1 \<noteq> 0 then 0x80 else 0) + drop_bit 1 sum + c) 0 (take 11 name)"

definition char_8dot3 :: "u8 \<Rightarrow> bool" where
  "char_8dot3 c \<longleftrightarrow>
     (if 0x61 \<le> c \<and> c \<le> 0x7A then False
      else (0x41 \<le> c \<and> c \<le> 0x5A) \<or> (0x30 \<le> c \<and> c \<le> 0x39)
        \<or> c \<in> {0x21, 0x23, 0x24, 0x25, 0x26, 0x27, 0x28, 0x29, 0x2D, 0x40, 0x5E, 0x5F, 0x60, 0x7B, 0x7D, 0x7E} \<or> 128 \<le> c)"

text \<open>The part of a name before the first dot, and what starts with it.\<close>

definition name_base :: "u8 list \<Rightarrow> u8 list" where "name_base name = takeWhile (\<lambda>c. c \<noteq> DOTC) name"
definition name_dot :: "u8 list \<Rightarrow> u8 list" where "name_dot name = dropWhile (\<lambda>c. c \<noteq> DOTC) name"

definition fat32_name_is_8dot3 :: "u8 list \<Rightarrow> bool" where
  "fat32_name_is_8dot3 name =
     (if length (name_base name) < 1 \<or> length (name_base name) > 8 then False
      else if name_dot name \<noteq> [] \<and> (length (tl (name_dot name)) < 1 \<or> length (tl (name_dot name)) > 3) then False
      else if name_dot name \<noteq> [] \<and> DOTC \<in> set (tl (name_dot name)) then False
      else list_all (\<lambda>c. c = DOTC \<or> char_8dot3 c) name)"

definition pad :: "nat \<Rightarrow> u8 list \<Rightarrow> u8 list" where
  "pad n xs = xs @ replicate (n - length xs) SPC"

definition fat32_build_name_key :: "u8 list \<Rightarrow> u8 list" where
  "fat32_build_name_key name =
     pad 8 (map upc (take 8 (name_base name))) @ pad 3 (map upc (take 3 (tl (name_dot name))))"

definition fat32_name_from_entry :: "u8 list \<Rightarrow> u8 list" where
  "fat32_name_from_entry raw =
     map lowc (takeWhile (\<lambda>c. c \<noteq> SPC) (take 8 raw)) @
     (if list_all (\<lambda>c. c = SPC) (drop 8 (take 11 raw)) then []
      else DOTC # map lowc (takeWhile (\<lambda>c. c \<noteq> SPC) (drop 8 (take 11 raw))))"

subsection \<open>Generated short names\<close>

text \<open>The characters before the last dot, and those after it.\<close>

definition before_last_dot :: "u8 list \<Rightarrow> u8 list" where
  "before_last_dot name = (if DOTC \<in> set name then rev (tl (dropWhile (\<lambda>c. c \<noteq> DOTC) (rev name))) else name)"

definition after_last_dot :: "u8 list \<Rightarrow> u8 list" where
  "after_last_dot name = (if DOTC \<in> set name then rev (takeWhile (\<lambda>c. c \<noteq> DOTC) (rev name)) else [])"

definition strip_front :: "u8 list \<Rightarrow> u8 list" where
  "strip_front name = dropWhile (\<lambda>c. c = DOTC \<or> c = SPC) name"

definition short_base :: "u8 list \<Rightarrow> u8 list" where
  "short_base name =
     (let b = map upc (take 6 (filter (\<lambda>c. c \<noteq> SPC \<and> c \<noteq> DOTC) (before_last_dot (strip_front name))))
      in if b = [] then [0x5F] else b)"

definition short_ext :: "u8 list \<Rightarrow> u8 list" where
  "short_ext name = map upc (take 3 (filter (\<lambda>c. c \<noteq> SPC) (after_last_dot (strip_front name))))"

fun tail_digits :: "nat \<Rightarrow> u8 list" where
  "tail_digits n = (if n = 0 then [] else tail_digits (n div 10) @ [of_nat (0x30 + n mod 10)])"

declare tail_digits.simps [simp del]

definition tail_key :: "u8 list \<Rightarrow> nat \<Rightarrow> u8 list" where
  "tail_key name n =
     (let t = 0x7E # tail_digits n; m = min (length (short_base name)) (8 - length t)
      in take m (short_base name) @ t @ replicate (8 - (m + length t)) SPC @ pad 3 (short_ext name))"

subsection \<open>Directory entries\<close>

definition e_name :: "u8 list \<Rightarrow> u8 list" where "e_name e = take 11 e"
definition e_attr :: "u8 list \<Rightarrow> u8" where "e_attr e = e ! 11"
definition e_cluster :: "u8 list \<Rightarrow> nat" where "e_cluster e = 65536 * le16 e 20 + le16 e 26"
definition e_size :: "u8 list \<Rightarrow> nat" where "e_size e = le32 e 28"

definition l_order :: "u8 list \<Rightarrow> u8" where "l_order e = e ! 0"
definition l_checksum :: "u8 list \<Rightarrow> u8" where "l_checksum e = e ! 13"

text \<open>Where the 13 characters of an entry with a part of a long name stand: \<^verbatim>\<open>name1\<close>, \<^verbatim>\<open>name2\<close>, \<^verbatim>\<open>name3\<close>.\<close>

definition lfn_offsets :: "nat list" where
  "lfn_offsets = [1, 3, 5, 7, 9] @ [14, 16, 18, 20, 22, 24] @ [28, 30]"

definition FAT32_ATTR_VOLUME_ID :: u8 where "FAT32_ATTR_VOLUME_ID = 0x08"
definition FAT32_ATTR_DIRECTORY :: u8 where "FAT32_ATTR_DIRECTORY = 0x10"
definition FAT32_ATTR_ARCHIVE :: u8 where "FAT32_ATTR_ARCHIVE = 0x20"
definition FAT32_ATTR_LFN :: u8 where "FAT32_ATTR_LFN = 0x0F"

definition fat32_lfn_extract_chars :: "u8 list \<Rightarrow> u8 list" where
  "fat32_lfn_extract_chars e = map (\<lambda>i. if le16 e i = 0xFFFF \<or> le16 e i = 0 then 0 else of_nat (le16 e i mod 256)) lfn_offsets"

fun lfn_fill :: "nat list \<Rightarrow> u8 list \<Rightarrow> nat \<Rightarrow> u8 list \<Rightarrow> u8 list" where
  "lfn_fill [] name src e = e"
| "lfn_fill (i # is) name src e =
     (if src < length name then lfn_fill is name (src + 1) (put16 e i (unat (name ! src)))
      else if src = length name then lfn_fill is name (src + 1) (put16 e i 0)
      else lfn_fill is name src (put16 e i 0xFFFF))"

definition fat32_lfn_fill_entry :: "u8 list \<Rightarrow> nat \<Rightarrow> u8 list \<Rightarrow> u8 list" where
  "fat32_lfn_fill_entry name offset e = lfn_fill lfn_offsets name offset e"

text \<open>What \<^verbatim>\<open>fat32_write_dir_entries\<close> writes: entry \<open>k\<close> of a name in \<open>count\<close> parts, and the short entry.\<close>

definition lfn_count :: "u8 list \<Rightarrow> nat" where
  "lfn_count name = (if fat32_name_is_8dot3 name then 0 else (length name + 12) div 13)"

definition lfn_entry :: "u8 list \<Rightarrow> u8 list \<Rightarrow> nat \<Rightarrow> nat \<Rightarrow> u8 list" where
  "lfn_entry name key count k =
     (let seq = count - k; e = (replicate 32 0)[0 := (if k = 0 then of_nat seq OR 0x40 else of_nat seq),
          11 := FAT32_ATTR_LFN, 12 := 0, 13 := fat32_lfn_checksum key, 26 := 0, 27 := 0]
      in fat32_lfn_fill_entry name ((seq - 1) * 13) e)"

definition sfn_entry :: "u8 list \<Rightarrow> u8 \<Rightarrow> nat \<Rightarrow> nat \<Rightarrow> u8 list" where
  "sfn_entry key attr cl sz =
     put32 (put16 (put16 (key @ [attr] @ replicate 20 0) 20 (cl div 65536)) 26 cl) 28 sz"

definition dir_entry_at :: "u8 list \<Rightarrow> u8 list \<Rightarrow> u8 \<Rightarrow> nat \<Rightarrow> nat \<Rightarrow> nat \<Rightarrow> u8 list" where
  "dir_entry_at name key attr cl sz k =
     (if k < lfn_count name then lfn_entry name key (lfn_count name) k else sfn_entry key attr cl sz)"

subsection \<open>Scanning entries\<close>

text \<open>The parts of a long name seen so far, in the order of the entries.\<close>

record lfn =
  l_valid :: bool
  l_sum :: u8
  l_frags :: "u8 list list"

definition no_lfn :: lfn where "no_lfn = \<lparr>l_valid = False, l_sum = 0, l_frags = []\<rparr>"

definition lfn_reset :: "lfn \<Rightarrow> lfn" where "lfn_reset st = st\<lparr>l_valid := False, l_frags := []\<rparr>"

definition LFN_FRAGMENTS :: nat where "LFN_FRAGMENTS = 20"

definition lfn_collect :: "u8 list \<Rightarrow> lfn \<Rightarrow> lfn option" where
  "lfn_collect e st =
     (let st1 = (if l_order e AND 0x40 \<noteq> 0 then \<lparr>l_valid = True, l_sum = l_checksum e, l_frags = []\<rparr> else st)
      in if l_valid st1 \<and> l_checksum e = l_sum st1 then
           (if length (l_frags st1) \<ge> LFN_FRAGMENTS then None
            else Some (st1\<lparr>l_frags := l_frags st1 @ [fat32_lfn_extract_chars e]\<rparr>))
         else Some (lfn_reset st1))"

text \<open>The last part comes first; at most 255 characters, up to a NUL.\<close>

fun lfn_chars :: "nat \<Rightarrow> u8 list \<Rightarrow> u8 list" where
  "lfn_chars 0 cs = []"
| "lfn_chars (Suc n) [] = []"
| "lfn_chars (Suc n) (c # cs) = (if c = 0 then [] else c # lfn_chars n cs)"

definition lfn_name :: "lfn \<Rightarrow> u8 list" where
  "lfn_name st = lfn_chars 255 (concat (rev (l_frags st)))"

definition have_lfn :: "u8 list \<Rightarrow> lfn \<Rightarrow> bool" where
  "have_lfn e st \<longleftrightarrow> l_valid st \<and> l_frags st \<noteq> [] \<and> fat32_lfn_checksum (e_name e) = l_sum st"

definition entry_matches :: "u8 list \<Rightarrow> u8 list \<Rightarrow> lfn \<Rightarrow> bool" where
  "entry_matches name e st \<longleftrightarrow>
     (have_lfn e st \<and> fat32_strcasecmp name (lfn_name st) = 0) \<or> e_name e = fat32_build_name_key name"

datatype scan = Stop | Hit nat | More lfn

text \<open>
  The loop over the entries of a cluster that the functions on directories share; they differ in the
  entries they skip.
\<close>

fun scan_entries :: "(u8 list \<Rightarrow> bool) \<Rightarrow> u8 list \<Rightarrow> u8 list list \<Rightarrow> nat \<Rightarrow> lfn \<Rightarrow> scan option" where
  "scan_entries skip name [] i st = Some (More st)"
| "scan_entries skip name (e # es) i st =
     (if e ! 0 = 0 then Some Stop
      else if e ! 0 = 0xE5 then scan_entries skip name es (i + 1) (lfn_reset st)
      else if e_attr e AND 0x0F = 0x0F then do { st1 \<leftarrow> lfn_collect e st; scan_entries skip name es (i + 1) st1 }
      else if skip e then scan_entries skip name es (i + 1) (lfn_reset st)
      else if entry_matches name e st then Some (Hit i)
      else scan_entries skip name es (i + 1) (lfn_reset st))"

definition skip_find :: "u8 list \<Rightarrow> bool" where
  "skip_find e \<longleftrightarrow> e_attr e AND FAT32_ATTR_VOLUME_ID \<noteq> 0 \<or> e ! 0 = SPC"

definition skip_unlink :: "u8 list \<Rightarrow> bool" where
  "skip_unlink e \<longleftrightarrow> e_attr e AND FAT32_ATTR_VOLUME_ID \<noteq> 0"

definition skip_update :: "u8 list \<Rightarrow> bool" where
  "skip_update e \<longleftrightarrow> False"

text \<open>The same loop of \<^verbatim>\<open>fat32_readdir\<close>, which counts the entries instead; \<open>k\<close> are left to pass.\<close>

datatype iscan = IStop | IHit nat "u8 list" | IMore nat lfn

fun scan_index :: "u8 list list \<Rightarrow> nat \<Rightarrow> nat \<Rightarrow> lfn \<Rightarrow> iscan option" where
  "scan_index [] k i st = Some (IMore k st)"
| "scan_index (e # es) k i st =
     (if e ! 0 = 0 then Some IStop
      else if e ! 0 = 0xE5 then scan_index es k (i + 1) (lfn_reset st)
      else if e_attr e AND 0x0F = 0x0F then do { st1 \<leftarrow> lfn_collect e st; scan_index es k (i + 1) st1 }
      else if skip_find e then scan_index es k (i + 1) (lfn_reset st)
      else if k = 0 then Some (IHit i (if have_lfn e st then lfn_name st else fat32_name_from_entry (e_name e)))
      else scan_index es (k - 1) (i + 1) (lfn_reset st))"

text \<open>The short entry and the parts of its long name before it become free; the walk back ends with the cluster.\<close>

fun delete_back :: "u8 list list \<Rightarrow> nat \<Rightarrow> u8 list list" where
  "delete_back es 0 = es"
| "delete_back es (Suc j) =
     (if e_attr (es ! j) AND 0x0F = 0x0F \<and> es ! j ! 0 \<noteq> 0xE5 then
        (let es1 = es[j := (es ! j)[0 := 0xE5]]
         in if l_order (es1 ! j) AND 0x40 \<noteq> 0 then es1 else delete_back es1 j)
      else es)"

definition fat32_delete_lfn_chain :: "u8 list list \<Rightarrow> nat \<Rightarrow> u8 list list" where
  "fat32_delete_lfn_chain es i = delete_back (es[i := (es ! i)[0 := 0xE5]]) i"

section \<open>Bytes of an entry\<close>

lemma unat_u8 [simp]: "unat c < 256" for c :: u8
  using unsigned_less [of c] by simp

lemma put_length [simp]: "length (put16 bs i v) = length bs" "length (put32 bs i v) = length bs"
  by (simp_all add: put16_def put32_def)

lemma update_nth_out: "length bs \<le> j \<Longrightarrow> bs[i := v] ! j = bs ! j"
proof (induction bs arbitrary: i j)
  case (Cons b bs)
  then show ?case by (cases i; cases j) auto
qed simp

lemma put16_nth: "put16 bs i v ! j = (if j < length bs \<and> j = i + 1 then of_nat (v div 256) else if j < length bs \<and> j = i then of_nat v else bs ! j)"
  by (cases "j < length bs") (auto simp: put16_def nth_list_update update_nth_out)

lemma le16_put16: "i + 1 < length bs \<Longrightarrow> le16 (put16 bs i v) i = v mod 65536"
proof -
  assume "i + 1 < length bs"
  then have "le16 (put16 bs i v) i = v mod 256 + 256 * (v div 256 mod 256)"
    by (simp add: le16_def put16_nth unat_of_nat)
  also have "\<dots> = v mod 65536" using mod_mult2_eq [of v 256 256] by simp
  finally show ?thesis .
qed

lemma le16_put16_other: "j \<noteq> i \<Longrightarrow> j \<noteq> i + 1 \<Longrightarrow> j + 1 \<noteq> i \<Longrightarrow> le16 (put16 bs i v) j = le16 bs j"
  by (simp add: le16_def put16_nth)

lemma le32_put32: "i + 3 < length bs \<Longrightarrow> le32 (put32 bs i v) i = v mod 2 ^ 32"
proof -
  assume l: "i + 3 < length bs"
  then have "le16 (put32 bs i v) i = v mod 65536" "le16 (put32 bs i v) (i + 2) = v div 65536 mod 65536"
    by (simp_all add: put32_def le16_put16_other le16_put16)
  then show ?thesis using mod_mult2_eq [of v 65536 65536] by (simp add: le32_def)
qed

lemma le16_less: "le16 bs i < 65536"
  using unat_u8 [of "bs ! i"] unat_u8 [of "bs ! (i + 1)"] unfolding le16_def by linarith

lemma le32_less: "le32 bs i < 2 ^ 32"
  using le16_less [of bs i] le16_less [of bs "i + 2"] by (simp add: le32_def)

lemma le32_put32_other: "j + 4 \<le> i \<or> i + 4 \<le> j \<Longrightarrow> le32 (put32 bs i v) j = le32 bs j"
  by (auto simp: le32_def put32_def le16_put16_other)

section \<open>Parts of a long name\<close>

text \<open>What the parts hold: the characters, one NUL when there is room, and then \<^verbatim>\<open>0xFFFF\<close>.\<close>

definition lfn_unit :: "u8 list \<Rightarrow> nat \<Rightarrow> nat" where
  "lfn_unit name j = (if j < length name then unat (name ! j) else if j = length name then 0 else 0xFFFF)"

lemma lfn_fill_length [simp]: "length (lfn_fill is name src e) = length e"
  by (induction "is" name src e rule: lfn_fill.induct) simp_all

lemma lfn_fill_nth: "\<forall>i \<in> set is. j \<noteq> i \<and> j \<noteq> i + 1 \<Longrightarrow> lfn_fill is name src e ! j = e ! j"
  by (induction "is" name src e rule: lfn_fill.induct) (simp_all add: put16_nth)

lemma lfn_fill_le16: "\<forall>i \<in> set is. j + 1 < i \<or> i + 1 < j \<Longrightarrow> le16 (lfn_fill is name src e) j = le16 e j"
  unfolding le16_def by (subst (1 2) lfn_fill_nth) auto

lemma lfn_fill_units:
  assumes "sorted_wrt (\<lambda>a b. a + 2 \<le> b) is" "\<forall>i \<in> set is. i + 1 < length e" "src \<le> length name + 1"
  shows "map (le16 (lfn_fill is name src e)) is = map (\<lambda>k. lfn_unit name (src + k)) [0..<length is]"
  using assms
proof (induction "is" name src e rule: lfn_fill.induct)
  case (2 i "is" name src e)
  let ?v = "lfn_unit name src" and ?s = "if src \<le> length name then src + 1 else src"
  have e: "lfn_fill (i # is) name src e = lfn_fill is name ?s (put16 e i ?v)" by (simp add: lfn_unit_def)
  have h: "le16 (lfn_fill is name ?s (put16 e i ?v)) i = ?v"
  proof -
    have "?v < 65536" using unat_u8 [of "name ! src"] by (simp add: lfn_unit_def del: unat_u8)
    moreover have "\<forall>j \<in> set is. i + 1 < j \<or> j + 1 < i" using 2(4) by auto
    ultimately show ?thesis using 2(5) by (subst lfn_fill_le16) (auto simp: le16_put16)
  qed
  have sp: "sorted_wrt (\<lambda>a b. a + 2 \<le> b) is" "\<forall>j \<in> set is. j + 1 < length (put16 e i ?v)" using 2(4,5) by auto
  have "map (le16 (lfn_fill is name ?s (put16 e i ?v))) is = map (\<lambda>k. lfn_unit name (?s + k)) [0..<length is]"
    using 2(1) [OF _ sp(1)] 2(2) [OF _ _ sp(1)] 2(3) [OF _ _ sp(1)] sp(2) 2(6) by (auto simp: lfn_unit_def)
  also have "\<dots> = map (\<lambda>k. lfn_unit name (src + Suc k)) [0..<length is]" using 2(6) by (auto simp: lfn_unit_def)
  finally show ?case unfolding e using h by (simp add: upt_conv_Cons map_Suc_upt [symmetric] del: upt_Suc)
qed simp

lemma lfn_extract_fill:
  assumes "0 \<notin> set name" "off \<le> length name" "length e = 32"
  shows "fat32_lfn_extract_chars (fat32_lfn_fill_entry name off e) = take 13 (drop off name) @ replicate (13 - (length name - off)) 0"
proof -
  let ?e = "fat32_lfn_fill_entry name off e"
  have u: "map (le16 ?e) lfn_offsets = map (\<lambda>k. lfn_unit name (off + k)) [0..<13]"
  proof -
    have "sorted_wrt (\<lambda>a b. a + 2 \<le> b) lfn_offsets" "\<forall>i \<in> set lfn_offsets. i + 1 < length e" "length lfn_offsets = 13"
      using assms(3) by (simp_all add: lfn_offsets_def)
    from lfn_fill_units [OF this(1,2), of off name] this(3) assms(2) show ?thesis by (simp add: fat32_lfn_fill_entry_def del: upt_Suc)
  qed
  have "fat32_lfn_extract_chars ?e = map (\<lambda>v. if v = 0xFFFF \<or> v = 0 then 0 else of_nat (v mod 256)) (map (le16 ?e) lfn_offsets)"
    by (simp add: fat32_lfn_extract_chars_def)
  also have "\<dots> = map (\<lambda>k. if off + k < length name then name ! (off + k) else 0) [0..<13]"
  proof -
    have "(if lfn_unit name j = 0xFFFF \<or> lfn_unit name j = 0 then 0 else of_nat (lfn_unit name j mod 256)) = (if j < length name then name ! j else 0)" for j
    proof -
      have "unat (name ! j) \<noteq> 0xFFFF" using unat_u8 [of "name ! j"] by linarith
      moreover have "name ! j \<noteq> 0" if "j < length name" using assms(1) nth_mem [OF that] by auto
      ultimately show ?thesis by (auto simp: lfn_unit_def unat_eq_zero)
    qed
    then show ?thesis unfolding u by simp
  qed
  also have "\<dots> = take 13 (drop off name) @ replicate (13 - (length name - off)) 0"
    using assms(2) by (intro nth_equalityI) (auto simp: nth_append min_def)
  finally show ?thesis .
qed

lemma chunks_concat:
  "concat (map (\<lambda>j. take 13 (drop (13 * j) xs) @ replicate (13 - (length xs - 13 * j)) z) [0..<n]) = take (13 * n) xs @ replicate (13 * n - length xs) z"
proof (induction n)
  case (Suc n)
  show ?case
  proof (cases "13 * n \<le> length xs")
    case True
    then have "replicate (13 * n - length xs) z = []" "take (13 * Suc n) xs = take (13 * n) xs @ take 13 (drop (13 * n) xs)"
      by (simp_all add: take_add [symmetric] add.commute)
    moreover have "13 - (length xs - 13 * n) = 13 * Suc n - length xs" using True by arith
    ultimately show ?thesis using Suc by simp
  next
    case False
    then have "replicate (13 * Suc n - length xs) z = replicate (13 * n - length xs) z @ replicate 13 z"
      by (simp add: replicate_add [symmetric])
    then show ?thesis using Suc False by simp
  qed
qed simp

lemma lfn_chars_name: "0 \<notin> set name \<Longrightarrow> length name \<le> n \<Longrightarrow> lfn_chars n (name @ replicate k 0) = name"
proof (induction n "name @ replicate k (0 :: u8)" arbitrary: name rule: lfn_chars.induct)
  case (3 n c cs)
  then show ?case by (cases name) (cases k; auto)+
qed auto

lemma fat32_strcasecmp_zero: "fat32_strcasecmp a b = 0 \<longleftrightarrow> map (\<lambda>c. toupper (uint c)) a = map (\<lambda>c. toupper (uint c)) b"
  if "0 \<notin> set a" "0 \<notin> set b"
  using that
proof (induction a b rule: fat32_strcasecmp.induct)
  case (1 a as b bs)
  then show ?case by (auto simp: Let_def)
qed (auto simp: toupper_def islower_def uint_0_iff)


section \<open>Long names, written and read\<close>

lemma small_order:
  assumes "seq \<le> 20"
  shows "(of_nat seq OR 0x40 :: u8) \<notin> {0, 0xE5}" "(of_nat seq OR 0x40 :: u8) AND 0x40 \<noteq> 0"
    "seq \<noteq> 0 \<Longrightarrow> (of_nat seq :: u8) \<notin> {0, 0xE5}" "(of_nat seq :: u8) AND 0x40 = 0"
proof -
  have s: "seq \<in> set [0..<21]" using assms by auto
  have "\<forall>n \<in> set [0..<21]. (of_nat n OR 0x40 :: u8) \<notin> {0, 0xE5} \<and> (of_nat n OR 0x40 :: u8) AND 0x40 \<noteq> 0
      \<and> (n \<noteq> 0 \<longrightarrow> (of_nat n :: u8) \<notin> {0, 0xE5}) \<and> (of_nat n :: u8) AND 0x40 = 0"
    by code_simp
  with s show "(of_nat seq OR 0x40 :: u8) \<notin> {0, 0xE5}" "(of_nat seq OR 0x40 :: u8) AND 0x40 \<noteq> 0"
    "seq \<noteq> 0 \<Longrightarrow> (of_nat seq :: u8) \<notin> {0, 0xE5}" "(of_nat seq :: u8) AND 0x40 = 0" by blast+
qed

definition lfn_head :: "u8 list \<Rightarrow> nat \<Rightarrow> nat \<Rightarrow> u8 list" where
  "lfn_head key count k = (replicate 32 0)[0 := (if k = 0 then of_nat (count - k) OR 0x40 else of_nat (count - k)),
          11 := FAT32_ATTR_LFN, 12 := 0, 13 := fat32_lfn_checksum key, 26 := 0, 27 := 0]"

lemma lfn_entry_head: "lfn_entry name key count k = fat32_lfn_fill_entry name ((count - k - 1) * 13) (lfn_head key count k)"
  by (simp add: lfn_entry_def lfn_head_def Let_def)

lemma lfn_head_sel: "length (lfn_head key count k) = 32" "lfn_head key count k ! 0 = (if k = 0 then of_nat (count - k) OR 0x40 else of_nat (count - k))"
  "lfn_head key count k ! 11 = 0x0F" "lfn_head key count k ! 13 = fat32_lfn_checksum key"
  by (simp_all add: lfn_head_def FAT32_ATTR_LFN_def)

lemma lfn_entry_sel:
  "length (lfn_entry name key count k) = 32"
  "l_order (lfn_entry name key count k) = (if k = 0 then of_nat (count - k) OR 0x40 else of_nat (count - k))"
  "e_attr (lfn_entry name key count k) = 0x0F" "l_checksum (lfn_entry name key count k) = fat32_lfn_checksum key"
proof -
  show "length (lfn_entry name key count k) = 32" by (simp add: lfn_entry_head fat32_lfn_fill_entry_def lfn_head_sel)
  have "lfn_entry name key count k ! j = lfn_head key count k ! j" if "j \<in> {0, 11, 13}" for j
    using that unfolding lfn_entry_head fat32_lfn_fill_entry_def by (intro lfn_fill_nth) (auto simp: lfn_offsets_def)
  then show "l_order (lfn_entry name key count k) = (if k = 0 then of_nat (count - k) OR 0x40 else of_nat (count - k))"
    "e_attr (lfn_entry name key count k) = 0x0F" "l_checksum (lfn_entry name key count k) = fat32_lfn_checksum key"
    by (auto simp: l_order_def e_attr_def l_checksum_def lfn_head_sel)
qed

lemma lfn_entry_chars:
  assumes "0 \<notin> set name" "count = (length name + 12) div 13" "k < count"
  shows "fat32_lfn_extract_chars (lfn_entry name key count k) =
    take 13 (drop (13 * (count - k - 1)) name) @ replicate (13 - (length name - 13 * (count - k - 1))) 0"
proof -
  have "(count - k - 1) * 13 \<le> length name" using assms(2,3) by linarith
  then show ?thesis unfolding lfn_entry_head using lfn_extract_fill [OF assms(1)] by (simp add: lfn_head_sel mult.commute)
qed

lemma scan_lfn_entries:
  assumes "count \<le> 20" "0 < k" "k \<le> count"
  shows "scan_entries skip nm (map (lfn_entry name key count) [0..<k] @ es) i st =
    scan_entries skip nm es (i + k) \<lparr>l_valid = True, l_sum = fat32_lfn_checksum key,
      l_frags = map (\<lambda>j. fat32_lfn_extract_chars (lfn_entry name key count j)) [0..<k]\<rparr>"
  using assms(2,3)
proof (induction k arbitrary: es)
  case (Suc k)
  have o: "l_order (lfn_entry name key count k) \<notin> {0, 0xE5}" "(l_order (lfn_entry name key count k) AND 0x40 \<noteq> 0) = (k = 0)"
    unfolding lfn_entry_sel using small_order [of "count - k"] assms(1) Suc.prems by (cases "k = 0"; simp)+
  then have n: "lfn_entry name key count k ! 0 \<noteq> 0" "lfn_entry name key count k ! 0 \<noteq> 0xE5" by (simp_all add: l_order_def)
  have c: "lfn_collect (lfn_entry name key count k) st' = Some \<lparr>l_valid = True, l_sum = fat32_lfn_checksum key,
      l_frags = map (\<lambda>j. fat32_lfn_extract_chars (lfn_entry name key count j)) [0..<Suc k]\<rparr>"
    if "k \<noteq> 0 \<longrightarrow> st' = \<lparr>l_valid = True, l_sum = fat32_lfn_checksum key,
      l_frags = map (\<lambda>j. fat32_lfn_extract_chars (lfn_entry name key count j)) [0..<k]\<rparr>" for st'
    using that o(2) assms(1) Suc.prems by (cases "k = 0") (simp_all add: lfn_collect_def lfn_entry_sel(4) LFN_FRAGMENTS_def)
  have s: "scan_entries skip nm (lfn_entry name key count k # es) (i + k) st' = scan_entries skip nm es (i + k + 1)
     \<lparr>l_valid = True, l_sum = fat32_lfn_checksum key, l_frags = map (\<lambda>j. fat32_lfn_extract_chars (lfn_entry name key count j)) [0..<Suc k]\<rparr>"
    if "k \<noteq> 0 \<longrightarrow> st' = \<lparr>l_valid = True, l_sum = fat32_lfn_checksum key,
      l_frags = map (\<lambda>j. fat32_lfn_extract_chars (lfn_entry name key count j)) [0..<k]\<rparr>" for st'
    using n c [OF that] by (simp add: lfn_entry_sel(3))
  show ?case
  proof (cases "k = 0")
    case True
    then show ?thesis using s [of st] by simp
  next
    case False
    then show ?thesis using Suc.IH [of "lfn_entry name key count k # es"] Suc.prems(2) s by simp
  qed
qed simp

lemma lfn_name_entries:
  assumes "0 \<notin> set name" "length name \<le> 255" "count = (length name + 12) div 13"
  shows "lfn_name \<lparr>l_valid = True, l_sum = c, l_frags = map (\<lambda>j. fat32_lfn_extract_chars (lfn_entry name key count j)) [0..<count]\<rparr> = name"
proof -
  let ?f = "\<lambda>j. fat32_lfn_extract_chars (lfn_entry name key count j)"
  have "rev (map ?f [0..<count]) = map (\<lambda>j. ?f (count - 1 - j)) [0..<count]"
    by (rule nth_equalityI) (auto simp: rev_nth)
  also have "\<dots> = map (\<lambda>j. take 13 (drop (13 * j) name) @ replicate (13 - (length name - 13 * j)) 0) [0..<count]"
    using lfn_entry_chars [OF assms(1,3)] by auto
  finally have "concat (rev (map ?f [0..<count])) = take (13 * count) name @ replicate (13 * count - length name) 0"
    using chunks_concat [of name 0 count] by simp
  moreover have "length name \<le> 13 * count" using assms(3) by linarith
  ultimately show ?thesis using lfn_chars_name [OF assms(1,2)] by (simp add: lfn_name_def)
qed


lemma sfn_entry_sel:
  assumes "length key = 11"
  shows "length (sfn_entry key attr cl sz) = 32" "e_name (sfn_entry key attr cl sz) = key" "e_attr (sfn_entry key attr cl sz) = attr"
    "sfn_entry key attr cl sz ! 0 = key ! 0" "cl < 2 ^ 32 \<Longrightarrow> e_cluster (sfn_entry key attr cl sz) = cl" "sz < 2 ^ 32 \<Longrightarrow> e_size (sfn_entry key attr cl sz) = sz"
proof -
  let ?b = "key @ [attr] @ replicate 20 0" and ?e = "sfn_entry key attr cl sz"
  have l: "length ?b = 32" using assms by simp
  show "length ?e = 32" using l by (simp add: sfn_entry_def)
  have n: "?e ! j = ?b ! j" if "j < 12" for j using that by (simp add: sfn_entry_def put32_def put16_nth)
  show "e_attr ?e = attr" using assms by (simp add: e_attr_def n nth_append)
  show "?e ! 0 = key ! 0" using assms by (simp add: n nth_append)
  show "e_name ?e = key" using assms l n by (intro nth_equalityI) (simp_all add: e_name_def sfn_entry_def nth_append)
  have c: "le16 ?e 20 = cl div 65536 mod 65536" "le16 ?e 26 = cl mod 65536"
    using l by (simp_all add: sfn_entry_def put32_def le16_put16_other le16_put16)
  show "e_cluster ?e = cl" if "cl < 2 ^ 32"
  proof -
    have "cl div 65536 mod 65536 = cl div 65536" using that by (intro mod_less) (simp add: div_less_iff_less_mult)
    then show ?thesis using c by (simp add: e_cluster_def)
  qed
  show "e_size ?e = sz" if "sz < 2 ^ 32" using l that by (simp add: e_size_def sfn_entry_def le32_put32)
qed

lemma upc_same: "toupper (uint a) = toupper (uint b) \<Longrightarrow> upc a = upc b"
  by (simp add: upc_def)

lemma toupper_dot: "toupper (uint c) = 46 \<longleftrightarrow> c = DOTC" for c :: u8
proof -
  have "toupper (uint c) = 46 \<longleftrightarrow> uint c = 46" by (auto simp: toupper_def islower_def)
  also have "\<dots> \<longleftrightarrow> c = DOTC" by (simp add: DOTC_def word_uint_eq_iff)
  finally show ?thesis .
qed

lemma key_same_case:
  assumes "map (\<lambda>c. toupper (uint c)) nm = map (\<lambda>c. toupper (uint c)) name"
  shows "fat32_build_name_key nm = fat32_build_name_key name"
proof -
  have d: "(toupper (uint a) = toupper (uint b)) \<Longrightarrow> (a \<noteq> DOTC) = (b \<noteq> DOTC)" for a b :: u8 using toupper_dot by metis
  have "list_all2 (\<lambda>a b. toupper (uint a) = toupper (uint b)) nm name" using assms by (simp add: list_all2_conv_all_nth list_eq_iff_nth_eq)
  then have "map upc (name_base nm) = map upc (name_base name) \<and> map upc (name_dot nm) = map upc (name_dot name)"
    unfolding name_base_def name_dot_def
  proof (induction rule: list_all2_induct)
    case (Cons a as b bs)
    have "map upc as = map upc bs" using Cons(2) by (induction rule: list_all2_induct) (auto intro: upc_same)
    then show ?case using Cons d [of a b] upc_same [of a b] by auto
  qed simp
  then have "map upc (take 8 (name_base nm)) = map upc (take 8 (name_base name))"
    "map upc (take 3 (tl (name_dot nm))) = map upc (take 3 (tl (name_dot name)))"
    by (metis take_map, metis map_tl take_map)
  then show ?thesis by (simp add: fat32_build_name_key_def)
qed

lemma build_name_key_length: "length (fat32_build_name_key name) = 11"
  by (simp add: fat32_build_name_key_def pad_def)

section \<open>What a directory gives back\<close>

lemma lowc_upc: "char_8dot3 c \<Longrightarrow> upc c = c"
proof -
  assume a: "char_8dot3 c"
  have "\<not> (0x61 \<le> c \<and> c \<le> 0x7A)" using a by (auto simp: char_8dot3_def split: if_splits)
  then have "\<not> (97 \<le> uint c \<and> uint c \<le> 122)" by (simp add: word_le_def)
  then show ?thesis by (simp add: upc_def toupper_def islower_def)
qed

lemma char_8dot3_not_space: "char_8dot3 c \<Longrightarrow> c \<noteq> SPC"
  by (auto simp: char_8dot3_def SPC_def)

lemma takeWhile_pad: "SPC \<notin> set xs \<Longrightarrow> takeWhile (\<lambda>c. c \<noteq> SPC) (pad n xs) = xs"
  by (subst pad_def, subst takeWhile_append2) auto

text \<open>A name that fits 8.3 comes back in lower case.\<close>

lemma name_from_key:
  assumes "fat32_name_is_8dot3 name"
  shows "fat32_name_from_entry (fat32_build_name_key name) = map lowc name"
proof -
  let ?b = "name_base name" and ?d = "name_dot name"
  have g: "length ?b \<le> 8" "?d \<noteq> [] \<Longrightarrow> length (tl ?d) \<ge> 1" "length (tl ?d) \<le> 3" "?d \<noteq> [] \<Longrightarrow> DOTC \<notin> set (tl ?d)"
    "\<forall>c \<in> set name. c = DOTC \<or> char_8dot3 c"
    using assms by (auto simp: fat32_name_is_8dot3_def list_all_iff split: if_splits)
  have n: "name = ?b @ ?d" by (simp add: name_base_def name_dot_def)
  have d: "?d = [] \<or> ?d = DOTC # tl ?d"
  proof (cases ?d)
    case (Cons a list)
    then have "dropWhile (\<lambda>c. c \<noteq> DOTC) name \<noteq> []" by (simp add: name_dot_def)
    from hd_dropWhile [OF this] Cons show ?thesis by (simp add: name_dot_def)
  qed simp
  have cb: "\<forall>c \<in> set ?b. char_8dot3 c" using g(5) by (auto simp: name_base_def dest: set_takeWhileD)
  have ce: "\<forall>c \<in> set (tl ?d). char_8dot3 c" 
  proof
    fix c assume c: "c \<in> set (tl ?d)"
    then have "?d \<noteq> []" by auto
    moreover have "c \<in> set name" using c list.set_sel(2) [OF calculation c] by (subst n) simp
    ultimately show "char_8dot3 c" using g(4,5) c by (cases "c = DOTC") auto
  qed
  have ub: "map upc ?b = ?b" "map upc (tl ?d) = tl ?d" using cb ce by (auto intro!: map_idI lowc_upc)
  have sb: "SPC \<notin> set ?b" "SPC \<notin> set (tl ?d)" using cb ce char_8dot3_not_space by blast+
  have k: "fat32_build_name_key name = pad 8 ?b @ pad 3 (tl ?d)" using g(1,3) ub by (simp add: fat32_build_name_key_def)
  have l: "length (pad 8 ?b) = 8" "length (pad 3 (tl ?d)) = 3" using g(1,3) by (simp_all add: pad_def)
  have e: "list_all (\<lambda>c. c = SPC) (pad 3 (tl ?d)) \<longleftrightarrow> ?d = []"
    using g(2) sb(2) d by (cases "tl ?d") (auto simp: pad_def list_all_iff)
  have "fat32_name_from_entry (fat32_build_name_key name) =
    map lowc ?b @ (if ?d = [] then [] else DOTC # map lowc (tl ?d))"
    unfolding k fat32_name_from_entry_def using l e sb by (simp add: takeWhile_pad)
  also have "\<dots> = map lowc name"
  proof -
    have "lowc DOTC = DOTC" by (simp add: lowc_def DOTC_def tolower_def isupper_def)
    then have "(if ?d = [] then [] else DOTC # map lowc (tl ?d)) = map lowc ?d" using d by (metis list.simps(8,9))
    moreover have "map lowc name = map lowc ?b @ map lowc ?d" using arg_cong [OF n, of "map lowc"] by simp
    ultimately show ?thesis by simp
  qed
  finally show ?thesis .
qed

lemma scan_index_lfn_entries:
  assumes "count \<le> 20" "0 < k" "k \<le> count"
  shows "scan_index (map (lfn_entry name key count) [0..<k] @ es) n i st =
    scan_index es n (i + k) \<lparr>l_valid = True, l_sum = fat32_lfn_checksum key,
      l_frags = map (\<lambda>j. fat32_lfn_extract_chars (lfn_entry name key count j)) [0..<k]\<rparr>"
  using assms(2,3)
proof (induction k arbitrary: es)
  case (Suc k)
  have o: "l_order (lfn_entry name key count k) \<notin> {0, 0xE5}" "(l_order (lfn_entry name key count k) AND 0x40 \<noteq> 0) = (k = 0)"
    unfolding lfn_entry_sel using small_order [of "count - k"] assms(1) Suc.prems by (cases "k = 0"; simp)+
  then have n: "lfn_entry name key count k ! 0 \<noteq> 0" "lfn_entry name key count k ! 0 \<noteq> 0xE5" by (simp_all add: l_order_def)
  have c: "lfn_collect (lfn_entry name key count k) st' = Some \<lparr>l_valid = True, l_sum = fat32_lfn_checksum key,
      l_frags = map (\<lambda>j. fat32_lfn_extract_chars (lfn_entry name key count j)) [0..<Suc k]\<rparr>"
    if "k \<noteq> 0 \<longrightarrow> st' = \<lparr>l_valid = True, l_sum = fat32_lfn_checksum key,
      l_frags = map (\<lambda>j. fat32_lfn_extract_chars (lfn_entry name key count j)) [0..<k]\<rparr>" for st'
    using that o(2) assms(1) Suc.prems by (cases "k = 0") (simp_all add: lfn_collect_def lfn_entry_sel(4) LFN_FRAGMENTS_def)
  have s: "scan_index (lfn_entry name key count k # es) n (i + k) st' = scan_index es n (i + k + 1)
     \<lparr>l_valid = True, l_sum = fat32_lfn_checksum key, l_frags = map (\<lambda>j. fat32_lfn_extract_chars (lfn_entry name key count j)) [0..<Suc k]\<rparr>"
    if "k \<noteq> 0 \<longrightarrow> st' = \<lparr>l_valid = True, l_sum = fat32_lfn_checksum key,
      l_frags = map (\<lambda>j. fat32_lfn_extract_chars (lfn_entry name key count j)) [0..<k]\<rparr>" for st'
    using n c [OF that] by (simp add: lfn_entry_sel(3))
  show ?case
  proof (cases "k = 0")
    case True
    then show ?thesis using s [of st] by simp
  next
    case False
    then show ?thesis using Suc.IH [of "lfn_entry name key count k # es"] Suc.prems(2) s by simp
  qed
qed simp

text \<open>
  What is written for a file of a directory is found again: looking its name up, in any case, stops at its short entry,
  which holds the cluster and the size, and listing the directory gives the name back, a long one exactly and
  one that fits 8.3 in lower case.
\<close>

theorem dir_entries_roundtrip:
  assumes "0 \<notin> set name" "0 < length name" "length name \<le> 255" "length key = 11" "key ! 0 \<notin> {0, 0xE5, SPC}"
    and "fat32_name_is_8dot3 name \<longrightarrow> key = fat32_build_name_key name" "attr AND 0x08 = 0" "cl < 2 ^ 32" "sz < 2 ^ 32"
    and "map (\<lambda>c. toupper (uint c)) nm = map (\<lambda>c. toupper (uint c)) name"
  shows "scan_entries skip_find nm (map (dir_entry_at name key attr cl sz) [0..<lfn_count name + 1] @ es) i st = Some (Hit (i + lfn_count name))
    \<and> e_cluster (dir_entry_at name key attr cl sz (lfn_count name)) = cl \<and> e_size (dir_entry_at name key attr cl sz (lfn_count name)) = sz
    \<and> (l_valid st = False \<longrightarrow> scan_index (map (dir_entry_at name key attr cl sz) [0..<lfn_count name + 1] @ es) 0 i st =
         Some (IHit (i + lfn_count name) (if fat32_name_is_8dot3 name then map lowc name else name)))"
proof -
  let ?n = "lfn_count name" and ?s = "sfn_entry key attr cl sz"
  note S = sfn_entry_sel [OF assms(4), where attr = attr and cl = cl and sz = sz]
  have es: "map (dir_entry_at name key attr cl sz) [0..<?n + 1] @ es = map (lfn_entry name key ?n) [0..<?n] @ ?s # es"
    by (auto simp: dir_entry_at_def intro!: map_cong)
  have a: "attr AND 0x0F \<noteq> 0x0F"
  proof
    assume "attr AND 0x0F = 0x0F"
    then have "(attr AND 0x0F) AND 0x08 = 0x0F AND 0x08" by simp
    then show False using assms(7) by (simp add: and.assoc)
  qed
  have ns: "\<not> skip_find ?s" using assms(5,7) S by (simp add: skip_find_def FAT32_ATTR_VOLUME_ID_def)
  have hit: "scan_entries skip_find nm (?s # es) j st' = Some (Hit j)" if "entry_matches nm ?s st'" for j st'
    using that a assms(5) S(3,4) ns by simp
  have list: "scan_index (?s # es) 0 j st' = Some (IHit j (if have_lfn ?s st' then lfn_name st' else fat32_name_from_entry key))" for j st'
    using a assms(5) S(2,3,4) ns by simp
  have e: "dir_entry_at name key attr cl sz ?n = ?s" by (simp add: dir_entry_at_def)
  show ?thesis
  proof (cases "fat32_name_is_8dot3 name")
    case True
    then have n: "?n = 0" by (simp add: lfn_count_def)
    have "entry_matches nm ?s st" using assms(6) True key_same_case [OF assms(10)] S(2) by (simp add: entry_matches_def)
    then show ?thesis unfolding es e using n S(5,6) assms(6,8,9) True name_from_key [OF True] hit list by (auto simp: have_lfn_def)
  next
    case False
    then have n: "?n = (length name + 12) div 13" "0 < ?n" "?n \<le> 20" using assms(2,3) by (cases name; auto simp: lfn_count_def)+
    let ?st = "\<lparr>l_valid = True, l_sum = fat32_lfn_checksum key, l_frags = map (\<lambda>j. fat32_lfn_extract_chars (lfn_entry name key ?n j)) [0..<?n]\<rparr>"
    have nm: "lfn_name ?st = name" by (rule lfn_name_entries [OF assms(1,3) n(1)])
    have nz: "0 \<notin> set nm"
    proof
      assume "0 \<in> set nm"
      then have "toupper 0 \<in> set (map (\<lambda>c. toupper (uint c)) name)" unfolding assms(10) [symmetric] by force
      then obtain c where c: "c \<in> set name" "toupper (uint c) = 0" by (auto simp: toupper_def islower_def)
      then have "uint c = 0" using uint_nonnegative [of c] by (auto simp: toupper_def islower_def split: if_splits)
      then show False using c(1) assms(1) by (simp add: uint_0_iff)
    qed
    have h: "have_lfn ?s ?st" using n(2) S(2) by (simp add: have_lfn_def)
    have m: "entry_matches nm ?s ?st" using h nm fat32_strcasecmp_zero [OF nz assms(1)] assms(10) by (simp add: entry_matches_def)
    have i: "scan_index (map (lfn_entry name key ?n) [0..<?n] @ ?s # es) 0 i st = scan_index (?s # es) 0 (i + ?n) ?st"
      using n scan_index_lfn_entries by blast
    show ?thesis unfolding es e i
      using scan_lfn_entries [OF n(3) n(2) order_refl, of skip_find nm name key "?s # es" i st] hit [OF m] list h nm S(5,6) assms(8,9) False by simp
  qed
qed

definition ascii :: "string \<Rightarrow> u8 list" where "ascii cs = map of_char cs"

lemma dir_entries_roundtrip_witness:
  "\<exists>es. es ! 2 ! 11 = 0x20 \<and> scan_entries skip_find (ascii ''A LONG NAME.text'') es 4 no_lfn = Some (Hit 6)
    \<and> scan_index es 0 4 no_lfn = Some (IHit 6 (ascii ''a long name.text''))"
proof -
  let ?name = "ascii ''a long name.text''" and ?nm = "ascii ''A LONG NAME.text''"
  let ?key = "tail_key ?name 1"
  have k: "?key = ascii ''ALONGN~1TEX''" by code_simp
  have g: "0 \<notin> set ?name" "0 < length ?name" "length ?name \<le> 255" "length ?key = 11" "?key ! 0 \<notin> {0, 0xE5, SPC}" "\<not> fat32_name_is_8dot3 ?name"
    "lfn_count ?name = 2" "map (\<lambda>c. toupper (uint c)) ?nm = map (\<lambda>c. toupper (uint c)) ?name"
    unfolding k by code_simp+
  let ?es = "map (dir_entry_at ?name ?key 0x20 5 7) [0..<2 + 1] @ []"
  have a: "(0x20 :: u8) AND 0x08 = 0" by simp
  have "scan_entries skip_find ?nm ?es 4 no_lfn = Some (Hit 6) \<and> scan_index ?es 0 4 no_lfn = Some (IHit 6 ?name)"
    using dir_entries_roundtrip [OF g(1-5) _ a _ _ g(8), where cl = 5 and sz = 7 and es = "[]" and i = 4 and st = no_lfn] g(6,7) by (simp add: no_lfn_def del: upt_Suc)
  moreover have "?es ! 2 ! 11 = 0x20"
    using sfn_entry_sel(3) [OF g(4), where attr = "0x20" and cl = 5 and sz = 7] g(7) by (simp add: dir_entry_at_def e_attr_def nth_append del: upt_Suc)
  ultimately show ?thesis by blast
qed

section \<open>Two defects\<close>

lemma scan_overflow:
  assumes "\<forall>e \<in> set es. e ! 0 \<noteq> 0 \<and> e ! 0 \<noteq> 0xE5 \<and> e_attr e AND 0x0F = 0x0F \<and> l_checksum e = c \<and> l_order e AND 0x40 = 0"
    and "l_valid st" "l_sum st = c" "20 < length (l_frags st) + length es" "length (l_frags st) \<le> 20"
  shows "scan_entries skip nm (es @ post) i st = None \<and> scan_index (es @ post) k i st = None"
  using assms
proof (induction es arbitrary: st i)
  case (Cons e es)
  have e: "l_order e AND 0x40 = 0" "l_checksum e = l_sum st" "e ! 0 \<noteq> 0" "e ! 0 \<noteq> 0xE5" "e_attr e AND 0x0F = 0x0F"
    using Cons.prems(1,3) by auto
  show ?case
  proof (cases "length (l_frags st) = 20")
    case True
    then have "lfn_collect e st = None" using e Cons.prems(2) by (simp add: lfn_collect_def LFN_FRAGMENTS_def)
    then show ?thesis using e by simp
  next
    case False
    then have c: "lfn_collect e st = Some (st\<lparr>l_frags := l_frags st @ [fat32_lfn_extract_chars e]\<rparr>)"
      using e Cons.prems(2,5) by (simp add: lfn_collect_def LFN_FRAGMENTS_def)
    show ?thesis using e c Cons.IH [of "st\<lparr>l_frags := l_frags st @ [fat32_lfn_extract_chars e]\<rparr>"] Cons.prems False by simp
  qed
qed simp

text \<open>
  A directory with more than 20 entries of one long name, which the disk can hold, makes
  every scan write past the end of the array of its parts.
\<close>

theorem lfn_overflow:
  assumes "20 < length es" "\<forall>e \<in> set es. e ! 0 \<noteq> 0 \<and> e ! 0 \<noteq> 0xE5 \<and> e_attr e AND 0x0F = 0x0F \<and> l_checksum e = c"
    and "l_order (hd es) AND 0x40 \<noteq> 0" "\<forall>e \<in> set (tl es). l_order e AND 0x40 = 0"
  shows "scan_entries skip nm (es @ post) i st = None \<and> scan_index (es @ post) k i st = None"
proof -
  obtain e es' where es: "es = e # es'" using assms(1) by (cases es) auto
  let ?st = "\<lparr>l_valid = True, l_sum = c, l_frags = [fat32_lfn_extract_chars e]\<rparr>"
  have e: "e ! 0 \<noteq> 0" "e ! 0 \<noteq> 0xE5" "e_attr e AND 0x0F = 0x0F" "l_checksum e = c" "l_order e AND 0x40 \<noteq> 0" using assms(2,3) es by auto
  have "lfn_collect e st = Some ?st" using e by (simp add: lfn_collect_def LFN_FRAGMENTS_def)
  moreover have "scan_entries skip nm (es' @ post) (i + 1) ?st = None \<and> scan_index (es' @ post) k (i + 1) ?st = None"
    using assms es by (intro scan_overflow [of es' c]) auto
  ultimately show ?thesis using e es by simp
qed

definition demo_overflow :: "u8 list list" where
  "demo_overflow = map (\<lambda>k. (replicate 32 0x41)[0 := (if k = 0 then 0x55 else 0x15), 11 := 0x0F]) [0..<21]"

lemma lfn_overflow_witness:
  "scan_entries skip_find (ascii ''X'') demo_overflow 0 no_lfn = None \<and> length demo_overflow = 21"
proof -
  have d: "20 < length demo_overflow" "\<forall>e \<in> set demo_overflow. e ! 0 \<noteq> 0 \<and> e ! 0 \<noteq> 0xE5 \<and> e_attr e AND 0x0F = 0x0F \<and> l_checksum e = 0x41"
    "l_order (hd demo_overflow) AND 0x40 \<noteq> 0" "\<forall>e \<in> set (tl demo_overflow). l_order e AND 0x40 = 0" "length demo_overflow = 21"
    by code_simp+
  show ?thesis using lfn_overflow [OF d(1-4), where skip = skip_find and post = "[]"] d(5) by simp
qed

text \<open>
  Deleting a file frees its short entry and one part of its long name only: the test for the last part is made
  on the byte that has just been overwritten, whose value \<^verbatim>\<open>0xE5\<close> has the bit that it looks for. The other
  parts stay in the directory, marked used.
\<close>

theorem delete_leaves_parts:
  assumes "es = pre @ map (dir_entry_at name key attr cl sz) [0..<lfn_count name + 1] @ post" "length name \<le> 255" "length key = 11"
    and "k < lfn_count name"
  shows "fat32_delete_lfn_chain es (length pre + lfn_count name) ! (length pre + k) =
      (if k + 1 = lfn_count name then (lfn_entry name key (lfn_count name) k)[0 := 0xE5] else lfn_entry name key (lfn_count name) k)"
proof -
  let ?n = "lfn_count name" and ?i = "length pre + lfn_count name"
  have n: "?n \<le> 20" using assms(2) by (auto simp: lfn_count_def)
  have e: "es ! (length pre + j) = lfn_entry name key ?n j" "length pre + j < length es" if "j < ?n" for j
    using that by (simp_all add: assms(1) nth_append dir_entry_at_def del: upt_Suc)
  let ?es = "es[?i := (es ! ?i)[0 := 0xE5]]"
  obtain m where m: "?i = Suc m" "m = length pre + (?n - 1)" using assms(4) by (cases ?i) auto
  have lt: "?n - 1 < ?n" "?i \<noteq> m" using assms(4) m(1) by simp_all
  have em: "?es ! m = lfn_entry name key ?n (?n - 1)" "m < length ?es"
    using e [OF lt(1), folded m(2)] lt(2) by (simp_all del: One_nat_def)
  have o: "lfn_entry name key ?n (?n - 1) ! 0 \<noteq> 0xE5"
  proof -
    have "?n - (?n - 1) = 1" using assms(4) by simp
    then have "lfn_entry name key ?n (?n - 1) ! 0 = (if ?n - 1 = 0 then of_nat 1 OR 0x40 else of_nat 1)"
      using lfn_entry_sel(2) [of name key ?n "?n - 1"] by (simp only: l_order_def)
    then show ?thesis by simp
  qed
  have "fat32_delete_lfn_chain es ?i = ?es[m := (?es ! m)[0 := 0xE5]]"
    using em o by (simp add: fat32_delete_lfn_chain_def m(1) lfn_entry_sel l_order_def)
  then have r: "fat32_delete_lfn_chain es ?i ! j = (if j = m then (?es ! m)[0 := 0xE5] else ?es ! j)" for j
    using em(2) by (simp add: nth_list_update)
  show ?thesis
  proof (cases "k + 1 = ?n")
    case True
    then have "length pre + k = m" "?n - 1 = k" using m(2) by simp_all
    then show ?thesis unfolding r using em(1) True by simp
  next
    case False
    then have "length pre + k \<noteq> m" "length pre + k \<noteq> ?i" using m(2) assms(4) by linarith+
    then show ?thesis unfolding r using e [OF assms(4)] False by simp
  qed
qed

lemma delete_leaves_parts_witness:
  "\<exists>es. fat32_delete_lfn_chain es 2 ! 0 = es ! 0 \<and> es ! 0 ! 0 = 0x42 \<and> fat32_delete_lfn_chain es 2 ! 1 \<noteq> es ! 1"
proof -
  let ?name = "ascii ''a long name.text''"
  let ?key = "tail_key ?name 1" and ?es = "[] @ map (dir_entry_at (ascii ''a long name.text'') (tail_key (ascii ''a long name.text'') 1) 0x20 5 7) [0..<lfn_count (ascii ''a long name.text'') + 1] @ []"
  have g: "length ?name \<le> 255" "length ?key = 11" "lfn_count ?name = 2" by code_simp+
  have o: "lfn_entry ?name ?key 2 0 ! 0 = 0x42" "lfn_entry ?name ?key 2 1 ! 0 = 1"
    using lfn_entry_sel(2) [of ?name ?key 2] by (simp_all add: l_order_def)
  have es: "?es ! 0 = lfn_entry ?name ?key 2 0" "?es ! 1 = lfn_entry ?name ?key 2 1"
    unfolding g(3) by (simp_all add: dir_entry_at_def g(3) nth_append)
  have "fat32_delete_lfn_chain ?es 2 ! 0 = lfn_entry ?name ?key 2 0" "fat32_delete_lfn_chain ?es 2 ! 1 = (lfn_entry ?name ?key 2 1)[0 := 0xE5]"
    using delete_leaves_parts [OF refl g(1,2), where k = 0 and pre = "[]" and attr = "0x20" and cl = 5 and sz = 7 and post = "[]"] delete_leaves_parts [OF refl g(1,2), where k = 1 and pre = "[]" and attr = "0x20" and cl = 5 and sz = 7 and post = "[]"] g(3) by (simp_all add: eval_nat_numeral)
  moreover have "(lfn_entry ?name ?key 2 1)[0 := 0xE5] \<noteq> lfn_entry ?name ?key 2 1"
    using o(2) lfn_entry_sel(1) [of ?name ?key 2 1] by (auto dest: arg_cong [where f = "\<lambda>e. e ! 0"])
  ultimately show ?thesis unfolding es [symmetric] using o(1) es by metis
qed

end
