(* ===== verification/Fat32.thy ===== *)
theory Fat32
  imports Fatname Vnode Numconv
begin

text \<open>
  The FAT32 file system (\<^verbatim>\<open>kernel/filesystem/fat32/fat32.c\<close>): the volume, the window of the allocation table in
  memory, cluster chains, and the operations on files and directories. \<open>sectors\<close> is the drive as
  \<^verbatim>\<open>blkcache_read_sector\<close> and \<^verbatim>\<open>blkcache_write_sector\<close> show it while its transfers succeed, 512 bytes at each sector; the
  functions here ignore whether they do. A node
  comes with its \<^verbatim>\<open>fat32_node_info_t\<close>. \<open>None\<close> is an access outside of a buffer (as on a volume whose sectors do not have 512
  bytes, which the driver does not refuse), a division by zero, or a walk along a chain without end. Allocations succeed.
\<close>

definition FAT32_CLUSTER_END :: nat where "FAT32_CLUSTER_END = 0x0FFFFFF8"

record fat32 =
  read_only :: bool
  bytes_per_sector :: nat
  sectors_per_cluster :: nat
  table_count :: nat
  fat_size :: nat
  root_cluster :: nat
  fat_start_lba :: nat
  cluster_heap_start_lba :: nat
  fat_cache :: "u8 list option"
  fat_cache_start :: nat
  fat_cache_sectors :: nat
  fat_cache_dirty :: bool
  sectors :: "nat \<Rightarrow> u8 list"

record fat32_node =
  cluster_number :: nat
  node_size :: nat
  parent_cluster :: nat

definition cluster_size :: "fat32 \<Rightarrow> nat" where
  "cluster_size s = bytes_per_sector s * sectors_per_cluster s"

subsection \<open>The drive\<close>

definition blk_read :: "nat \<Rightarrow> nat \<Rightarrow> fat32 \<Rightarrow> u8 list" where
  "blk_read lba n s = concat (map (\<lambda>i. sectors s (w32 (lba + i))) [0..<n])"

definition blk_write :: "nat \<Rightarrow> u8 list \<Rightarrow> fat32 \<Rightarrow> fat32" where
  "blk_write lba xs s = s\<lparr>sectors := (sectors s)(lba := xs)\<rparr>"

text \<open>\<open>n\<close> sectors of a buffer, one after the other; the buffer advances by the volume's sector size.\<close>

fun blk_write_from :: "nat \<Rightarrow> nat \<Rightarrow> nat \<Rightarrow> u8 list \<Rightarrow> fat32 \<Rightarrow> fat32 option" where
  "blk_write_from 0 i lba buf s = Some s"
| "blk_write_from (Suc n) i lba buf s =
     (let k = i * bytes_per_sector s
      in if k + 512 > length buf then None
         else blk_write_from n (i + 1) lba buf (blk_write (w32 (lba + i)) (take 512 (drop k buf)) s))"

definition get32 :: "u8 list \<Rightarrow> nat \<Rightarrow> nat option" where
  "get32 bs i = (if i + 4 \<le> length bs then Some (le32 bs i) else None)"

definition set32 :: "u8 list \<Rightarrow> nat \<Rightarrow> nat \<Rightarrow> u8 list option" where
  "set32 bs i v = (if i + 4 \<le> length bs then Some (put32 bs i v) else None)"

subsection \<open>The allocation table\<close>

text \<open>The copies of the table get the window, from copy \<open>c\<close> on.\<close>

fun flush_copies :: "nat \<Rightarrow> nat \<Rightarrow> u8 list \<Rightarrow> fat32 \<Rightarrow> fat32 option" where
  "flush_copies 0 c buf s = Some s"
| "flush_copies (Suc n) c buf s = do {
     s1 \<leftarrow> blk_write_from (fat_cache_sectors s) 0 (w32 (fat_start_lba s + c * fat_size s + fat_cache_start s)) buf s;
     flush_copies n (c + 1) buf s1
   }"

definition fat32_flush_fat_cache :: "fat32 \<Rightarrow> fat32 option" where
  "fat32_flush_fat_cache s =
     (case fat_cache s of
        None \<Rightarrow> Some s
      | Some buf \<Rightarrow> if \<not> fat_cache_dirty s then Some s
          else do { s1 \<leftarrow> flush_copies (table_count s) 0 buf s; Some (s1\<lparr>fat_cache_dirty := False\<rparr>) })"

definition in_window :: "nat \<Rightarrow> fat32 \<Rightarrow> bool" where
  "in_window sec s \<longleftrightarrow> fat_cache_start s \<le> sec \<and> sec < w32 (fat_cache_start s + fat_cache_sectors s)"

text \<open>The window moves to be centred on a sector, within the table.\<close>

definition window_start :: "nat \<Rightarrow> fat32 \<Rightarrow> nat" where
  "window_start sec s =
     (let st = (if sec \<ge> fat_cache_sectors s div 2 then sec - fat_cache_sectors s div 2 else 0)
      in if w32 (st + fat_cache_sectors s) > fat_size s then sub32 (fat_size s) (fat_cache_sectors s) else st)"

definition move_window :: "nat \<Rightarrow> fat32 \<Rightarrow> fat32 option" where
  "move_window sec s = do {
     s1 \<leftarrow> fat32_flush_fat_cache s;
     let st = window_start sec s1;
     Some (s1\<lparr>fat_cache := Some (blk_read (w32 (fat_start_lba s1 + st)) (fat_cache_sectors s1) s1), fat_cache_start := st\<rparr>)
   }"

definition fat32_read_fat_entry :: "nat \<Rightarrow> fat32 \<Rightarrow> (nat \<times> fat32) option" where
  "fat32_read_fat_entry cl s =
     (let bps = bytes_per_sector s; off = w32 (cl * 4); sec = off div bps; idx = off mod bps
      in if bps = 0 then None
         else case fat_cache s of
           Some buf \<Rightarrow>
             if in_window sec s then do { v \<leftarrow> get32 buf ((sec - fat_cache_start s) * bps + idx); Some (v mod 2 ^ 28, s) }
             else do {
               s1 \<leftarrow> move_window sec s;
               buf1 \<leftarrow> fat_cache s1;
               v \<leftarrow> get32 buf1 (w32 (sub32 sec (fat_cache_start s1) * bps + idx));
               Some (v mod 2 ^ 28, s1)
             }
         | None \<Rightarrow> do { v \<leftarrow> get32 (sectors s (w32 (fat_start_lba s + sec))) idx; Some (v mod 2 ^ 28, s) })"

fun write_copies :: "nat \<Rightarrow> nat \<Rightarrow> nat \<Rightarrow> nat \<Rightarrow> nat \<Rightarrow> fat32 \<Rightarrow> fat32 option" where
  "write_copies 0 c sec idx v s = Some s"
| "write_copies (Suc n) c sec idx v s = do {
     let lba = w32 (fat_start_lba s + c * fat_size s + sec);
     buf \<leftarrow> set32 (sectors s lba) idx v;
     write_copies n (c + 1) sec idx v (blk_write lba buf s)
   }"

definition write_window :: "nat \<Rightarrow> nat \<Rightarrow> nat \<Rightarrow> fat32 \<Rightarrow> fat32 option" where
  "write_window sec idx v s = do {
     buf \<leftarrow> fat_cache s;
     buf1 \<leftarrow> set32 buf ((sec - fat_cache_start s) * bytes_per_sector s + idx) v;
     Some (s\<lparr>fat_cache := Some buf1, fat_cache_dirty := True\<rparr>)
   }"

definition fat32_write_fat_entry :: "nat \<Rightarrow> nat \<Rightarrow> fat32 \<Rightarrow> fat32 option" where
  "fat32_write_fat_entry cl val s =
     (let v = val mod 2 ^ 28; bps = bytes_per_sector s; off = w32 (cl * 4); sec = off div bps; idx = off mod bps
      in if bps = 0 then None
         else case fat_cache s of
           Some buf \<Rightarrow>
             if in_window sec s then write_window sec idx v s
             else do {
               (e, s1) \<leftarrow> fat32_read_fat_entry cl s;
               if in_window sec s1 then write_window sec idx v s1 else write_copies (table_count s1) 0 sec idx v s1
             }
         | None \<Rightarrow> write_copies (table_count s) 0 sec idx v s)"

text \<open>The first free cluster from \<open>cl\<close> on.\<close>

function alloc_from :: "nat \<Rightarrow> nat \<Rightarrow> fat32 \<Rightarrow> (nat \<times> fat32) option" where
  "alloc_from cl tot s =
     (if cl < tot then do {
        (v, s1) \<leftarrow> fat32_read_fat_entry cl s;
        if v = 0 then do { s2 \<leftarrow> fat32_write_fat_entry cl FAT32_CLUSTER_END s1; Some (cl, s2) }
        else alloc_from (cl + 1) tot s1
      } else Some (0, s))"
  by auto

termination by (relation "measure (\<lambda>(cl, tot, s). tot - cl)") auto

declare alloc_from.simps [simp del]

definition fat_total :: "fat32 \<Rightarrow> nat" where
  "fat_total s = w32 (fat_size s * bytes_per_sector s) div 4"

definition fat32_allocate_cluster :: "fat32 \<Rightarrow> (nat \<times> fat32) option" where
  "fat32_allocate_cluster s = alloc_from 2 (fat_total s) s"

subsection \<open>Clusters\<close>

definition cluster_lba :: "nat \<Rightarrow> fat32 \<Rightarrow> nat" where
  "cluster_lba cl s = w32 (cluster_heap_start_lba s + (cl - 2) * sectors_per_cluster s)"

definition fat32_read_cluster :: "nat \<Rightarrow> fat32 \<Rightarrow> u8 list option" where
  "fat32_read_cluster cl s =
     (if cl < 2 \<or> cl \<ge> FAT32_CLUSTER_END then Some (replicate (cluster_size s) 0)
      else if bytes_per_sector s \<noteq> 512 then None
      else Some (blk_read (cluster_lba cl s) (sectors_per_cluster s) s))"

definition fat32_write_cluster :: "nat \<Rightarrow> u8 list \<Rightarrow> fat32 \<Rightarrow> fat32 option" where
  "fat32_write_cluster cl buf s =
     (if cl < 2 \<or> cl \<ge> FAT32_CLUSTER_END then Some s
      else blk_write_from (sectors_per_cluster s) 0 (cluster_lba cl s) buf s)"

text \<open>At most \<open>lim\<close> clusters of a chain.\<close>

fun fat32_resolve_chain :: "nat \<Rightarrow> nat \<Rightarrow> fat32 \<Rightarrow> (nat list \<times> fat32) option" where
  "fat32_resolve_chain 0 cl s = Some ([], s)"
| "fat32_resolve_chain (Suc lim) cl s =
     (if 2 \<le> cl \<and> cl < FAT32_CLUSTER_END then do {
        (cl', s1) \<leftarrow> fat32_read_fat_entry cl s;
        (cls, s2) \<leftarrow> fat32_resolve_chain lim cl' s1;
        Some (cl # cls, s2)
      } else Some ([], s))"

subsection \<open>Reading a file\<close>

text \<open>The cluster that holds an offset; \<open>None\<close> in the pair is a chain that ends before it.\<close>

fun skip_clusters :: "nat \<Rightarrow> nat \<Rightarrow> fat32 \<Rightarrow> (nat option \<times> fat32) option" where
  "skip_clusters 0 cl s = Some (Some cl, s)"
| "skip_clusters (Suc n) cl s = do {
     (cl', s1) \<leftarrow> fat32_read_fat_entry cl s;
     if cl' < 2 \<or> cl' \<ge> FAT32_CLUSTER_END then Some (None, s1) else skip_clusters n cl' s1
   }"

text \<open>The length of the run of adjacent clusters at the front, at most \<open>m\<close>.\<close>

fun run_length :: "nat \<Rightarrow> nat list \<Rightarrow> nat" where
  "run_length m (c # d # cs) = (if d = c + 1 \<and> 1 < m then Suc (run_length (m - 1) (d # cs)) else 1)"
| "run_length m _ = 1"

definition max_run :: "fat32 \<Rightarrow> nat" where
  "max_run s = (if 255 div sectors_per_cluster s < 1 then 1 else 255 div sectors_per_cluster s)"

text \<open>The bytes of the runs of a piece of the chain; \<open>cofs\<close> is the offset in the first cluster, \<open>left\<close> what is still wanted.\<close>

function read_runs :: "nat list \<Rightarrow> nat \<Rightarrow> nat \<Rightarrow> fat32 \<Rightarrow> u8 list" where
  "read_runs cls cofs left s =
     (if left = 0 \<or> cls = [] then []
      else
        let run = run_length (max_run s) cls;
            run_bytes = (if run * cluster_size s - cofs > left then left else run * cluster_size s - cofs);
            data = blk_read (cluster_lba (hd cls) s) (run * sectors_per_cluster s mod 256) s
        in (if cofs = 0 \<and> run_bytes = run * cluster_size s then data else take run_bytes (drop cofs data))
           @ read_runs (drop run cls) 0 (left - run_bytes) s)"
  by auto

termination
proof (relation "measure (\<lambda>(cls, cofs, left, s). length cls)", goal_cases)
  case (2 cls cofs left s x xa xb)
  have "0 < run_length m cs" for m cs by (induction m cs rule: run_length.induct) auto
  then show ?case using 2 by auto
qed auto

declare read_runs.simps [simp del]

partial_function (option) read_loop :: "nat \<Rightarrow> nat \<Rightarrow> nat \<Rightarrow> fat32 \<Rightarrow> (u8 list \<times> fat32) option" where
  "read_loop cur cofs left s =
     (if left = 0 then Some ([], s)
      else do {
        (cls, s1) \<leftarrow> fat32_resolve_chain 128 cur s;
        if cls = [] then Some ([], s1)
        else do {
          let xs = read_runs cls cofs left s1;
          (cur', s2) \<leftarrow> fat32_read_fat_entry (last cls) s1;
          (ys, s3) \<leftarrow> read_loop cur' 0 (left - length xs) s2;
          Some (xs @ ys, s3)
        }
      })"

definition fat32_read :: "vnode \<Rightarrow> fat32_node \<Rightarrow> nat \<Rightarrow> nat \<Rightarrow> fat32 \<Rightarrow> (int \<times> u8 list \<times> fat32) option" where
  "fat32_read n ni off len s =
     (if \<not> has_flag VFS_FLAG_FILE n then Some (-1, [], s)
      else if off \<ge> v_size n then Some (0, [], s)
      else if bytes_per_sector s \<noteq> 512 \<or> sectors_per_cluster s = 0 then None
      else do {
        let len1 = (if w32 (off + len) > v_size n then v_size n - off else len);
        (c, s1) \<leftarrow> skip_clusters (off div cluster_size s) (cluster_number ni) s;
        case c of
          None \<Rightarrow> Some (0, [], s1)
        | Some cl \<Rightarrow> do {
            (xs, s2) \<leftarrow> read_loop cl (off mod cluster_size s) len1 s1;
            Some (as_int (length xs), xs, s2)
          }
      })"

subsection \<open>Directories\<close>

definition dir_entries :: "u8 list \<Rightarrow> u8 list list" where
  "dir_entries buf = map (\<lambda>i. take 32 (drop (32 * i) buf)) [0..<length buf div 32]"

text \<open>
  The walk over the clusters of a directory that the functions share. The result is the cluster where the
  entry stands, its place in it, and the entries of the cluster.
\<close>

partial_function (option) find_loop :: "(u8 list \<Rightarrow> bool) \<Rightarrow> u8 list \<Rightarrow> nat \<Rightarrow> lfn \<Rightarrow> fat32
    \<Rightarrow> ((nat \<times> nat \<times> u8 list list) option \<times> fat32) option" where
  "find_loop skip name cl st s =
     (if cl \<ge> FAT32_CLUSTER_END then Some (None, s)
      else do {
        buf \<leftarrow> fat32_read_cluster cl s;
        r \<leftarrow> scan_entries skip name (dir_entries buf) 0 st;
        (case r of
           Stop \<Rightarrow> Some (None, s)
         | Hit i \<Rightarrow> Some (Some (cl, i, dir_entries buf), s)
         | More st1 \<Rightarrow> do { (cl', s1) \<leftarrow> fat32_read_fat_entry cl s; find_loop skip name cl' st1 s1 })
      })"

text \<open>The node of an entry; \<^verbatim>\<open>name\<close> in the node has 256 bytes.\<close>

definition entry_node :: "u8 list \<Rightarrow> u8 list \<Rightarrow> nat \<Rightarrow> vnode \<times> fat32_node" where
  "entry_node name e cl =
     (let dir = (e_attr e AND FAT32_ATTR_DIRECTORY \<noteq> 0)
      in (\<lparr>v_name = take 255 name, v_inode = e_cluster e, v_size = e_size e,
            v_flags = (if dir then VFS_FLAG_DIRECTORY OR VFS_FLAG_DISKIO else VFS_FLAG_FILE OR VFS_FLAG_DISKIO),
            v_uid = 0, v_gid = 0,
            v_mode = (if dir then S_IFDIR OR 0x1ED else S_IFREG OR (if e_attr e AND 0x01 \<noteq> 0 then 0x124 else 0x1A4)),
            v_refcount = 0, v_data = None, v_ops = None, v_parent = None, v_children = None, v_next = None\<rparr>,
          \<lparr>cluster_number = e_cluster e, node_size = 0, parent_cluster = cl\<rparr>))"

definition fat32_finddir :: "fat32_node \<Rightarrow> u8 list \<Rightarrow> fat32 \<Rightarrow> ((vnode \<times> fat32_node) option \<times> fat32) option" where
  "fat32_finddir dir name s = do {
     (r, s1) \<leftarrow> find_loop skip_find name (cluster_number dir) no_lfn s;
     (case r of None \<Rightarrow> Some (None, s1) | Some (cl, i, es) \<Rightarrow> Some (Some (entry_node name (es ! i) cl), s1))
   }"

partial_function (option) readdir_loop :: "nat \<Rightarrow> nat \<Rightarrow> lfn \<Rightarrow> fat32 \<Rightarrow> ((vnode \<times> fat32_node) option \<times> fat32) option" where
  "readdir_loop cl k st s =
     (if cl \<ge> FAT32_CLUSTER_END then Some (None, s)
      else do {
        buf \<leftarrow> fat32_read_cluster cl s;
        r \<leftarrow> scan_index (dir_entries buf) k 0 st;
        (case r of
           IStop \<Rightarrow> Some (None, s)
         | IHit i name \<Rightarrow> Some (Some (entry_node name (dir_entries buf ! i) cl), s)
         | IMore k1 st1 \<Rightarrow> do { (cl', s1) \<leftarrow> fat32_read_fat_entry cl s; readdir_loop cl' k1 st1 s1 })
      })"

definition fat32_readdir :: "fat32_node \<Rightarrow> nat \<Rightarrow> fat32 \<Rightarrow> ((vnode \<times> fat32_node) option \<times> fat32) option" where
  "fat32_readdir dir k s = readdir_loop (cluster_number dir) k no_lfn s"

definition set_size :: "nat \<Rightarrow> nat \<Rightarrow> u8 list list \<Rightarrow> u8 list list" where
  "set_size i v es = es[i := put32 (es ! i) 28 v]"

definition fat32_unlink :: "vnode \<Rightarrow> fat32_node \<Rightarrow> u8 list \<Rightarrow> fat32 \<Rightarrow> (int \<times> fat32) option" where
  "fat32_unlink parent dir name s =
     (if \<not> has_flag VFS_FLAG_DIRECTORY parent then Some (-1, s)
      else if read_only s then Some (-1, s)
      else do {
        (r, s1) \<leftarrow> find_loop skip_unlink name (cluster_number dir) no_lfn s;
        (case r of
           None \<Rightarrow> Some (-1, s1)
         | Some (cl, i, es) \<Rightarrow>
             if e_attr (es ! i) AND FAT32_ATTR_DIRECTORY \<noteq> 0 then Some (-1, s1)
             else do { s2 \<leftarrow> fat32_write_cluster cl (concat (set_size i 0 (fat32_delete_lfn_chain es i))) s1; Some (0, s2) })
      })"

text \<open>Whether a cluster of a directory has an entry that counts; \<open>None\<close> goes on to the next cluster.\<close>

fun scan_empty :: "u8 list list \<Rightarrow> bool option" where
  "scan_empty [] = None"
| "scan_empty (e # es) =
     (if e ! 0 = 0 then Some True
      else if e ! 0 = 0xE5 \<or> e_attr e AND FAT32_ATTR_VOLUME_ID \<noteq> 0 \<or> e_attr e AND 0x0F = 0x0F \<or> e ! 0 = SPC then scan_empty es
      else if e ! 0 = DOTC \<and> (e ! 1 = SPC \<or> e ! 1 = DOTC) then scan_empty es
      else Some False)"

partial_function (option) fat32_dir_is_empty :: "nat \<Rightarrow> fat32 \<Rightarrow> (bool \<times> fat32) option" where
  "fat32_dir_is_empty cl s =
     (if cl \<ge> FAT32_CLUSTER_END then Some (True, s)
      else do {
        buf \<leftarrow> fat32_read_cluster cl s;
        (case scan_empty (dir_entries buf) of
           Some b \<Rightarrow> Some (b, s)
         | None \<Rightarrow> do { (cl', s1) \<leftarrow> fat32_read_fat_entry cl s; fat32_dir_is_empty cl' s1 })
      })"

definition fat32_rmdir :: "vnode \<Rightarrow> fat32_node \<Rightarrow> u8 list \<Rightarrow> fat32 \<Rightarrow> (int \<times> fat32) option" where
  "fat32_rmdir parent dir name s =
     (if \<not> has_flag VFS_FLAG_DIRECTORY parent then Some (-1, s)
      else if read_only s then Some (-1, s)
      else do {
        (r, s1) \<leftarrow> find_loop skip_unlink name (cluster_number dir) no_lfn s;
        (case r of
           None \<Rightarrow> Some (-1, s1)
         | Some (cl, i, es) \<Rightarrow>
             if e_attr (es ! i) AND FAT32_ATTR_DIRECTORY = 0 then Some (-1, s1)
             else do {
               (b, s2) \<leftarrow> fat32_dir_is_empty (e_cluster (es ! i)) s1;
               if \<not> b then Some (-1, s2)
               else do { s3 \<leftarrow> fat32_write_cluster cl (concat (set_size i 0 (fat32_delete_lfn_chain es i))) s2; Some (0, s3) }
             })
      })"

definition fat32_update_dir_entry :: "fat32_node \<Rightarrow> u8 list \<Rightarrow> nat \<Rightarrow> fat32 \<Rightarrow> fat32 option" where
  "fat32_update_dir_entry ni name new_size s = do {
     (r, s1) \<leftarrow> find_loop skip_update name (parent_cluster ni) no_lfn s;
     (case r of None \<Rightarrow> Some s1 | Some (cl, i, es) \<Rightarrow> fat32_write_cluster cl (concat (set_size i new_size es)) s1)
   }"

subsection \<open>Writing a file\<close>

text \<open>The next cluster of a chain; at its end a new one is joined to it (\<open>None\<close> in the pair: the volume is full).\<close>

definition next_or_extend :: "nat \<Rightarrow> fat32 \<Rightarrow> (nat option \<times> fat32) option" where
  "next_or_extend cl s = do {
     (nx, s1) \<leftarrow> fat32_read_fat_entry cl s;
     if nx \<ge> FAT32_CLUSTER_END then do {
       (c, s2) \<leftarrow> fat32_allocate_cluster s1;
       if c = 0 then Some (None, s2) else do { s3 \<leftarrow> fat32_write_fat_entry cl c s2; Some (Some c, s3) }
     } else Some (Some nx, s1)
   }"

fun write_skip :: "nat \<Rightarrow> nat \<Rightarrow> fat32 \<Rightarrow> (nat option \<times> fat32) option" where
  "write_skip 0 cl s = Some (Some cl, s)"
| "write_skip (Suc n) cl s = do {
     (nx, s1) \<leftarrow> next_or_extend cl s;
     (case nx of None \<Rightarrow> Some (None, s1) | Some c \<Rightarrow> write_skip n c s1)
   }"

text \<open>A cluster is read first unless all of it is written. The result is what was written.\<close>

partial_function (option) write_loop :: "nat \<Rightarrow> nat \<Rightarrow> u8 list \<Rightarrow> fat32 \<Rightarrow> (nat \<times> fat32) option" where
  "write_loop cl cofs xs s =
     (if xs = [] then Some (0, s)
      else do {
        buf \<leftarrow> (if cofs \<noteq> 0 \<or> length xs < cluster_size s then fat32_read_cluster cl s else Some (replicate (cluster_size s) 0));
        let chunk = (if cluster_size s - cofs > length xs then length xs else cluster_size s - cofs);
        s1 \<leftarrow> fat32_write_cluster cl (take cofs buf @ take chunk xs @ drop (cofs + chunk) buf) s;
        if chunk < length xs then do {
          (nx, s2) \<leftarrow> next_or_extend cl s1;
          (case nx of
             None \<Rightarrow> Some (chunk, s2)
           | Some c \<Rightarrow> do { (w, s3) \<leftarrow> write_loop c 0 (drop chunk xs) s2; Some (chunk + w, s3) })
        } else Some (chunk, s1)
      })"

definition first_cluster :: "fat32_node \<Rightarrow> fat32 \<Rightarrow> (nat \<times> fat32) option" where
  "first_cluster ni s = (if cluster_number ni < 2 then fat32_allocate_cluster s else Some (cluster_number ni, s))"

definition fat32_write :: "vnode \<Rightarrow> fat32_node \<Rightarrow> nat \<Rightarrow> u8 list \<Rightarrow> fat32 \<Rightarrow> (int \<times> vnode \<times> fat32_node \<times> fat32) option" where
  "fat32_write n ni off xs s =
     (if \<not> has_flag VFS_FLAG_FILE n then Some (-1, n, ni, s)
      else if read_only s then Some (-1, n, ni, s)
      else do {
        let n1 = (if w32 (off + length xs) > v_size n then n\<lparr>v_size := w32 (off + length xs)\<rparr> else n);
        (c, s1) \<leftarrow> first_cluster ni s;
        if c = 0 then Some (-1, n1, ni, s1)
        else if cluster_size s = 0 then None
        else do {
          let ni1 = ni\<lparr>cluster_number := c\<rparr>;
          (nx, s2) \<leftarrow> write_skip (off div cluster_size s) c s1;
          (case nx of
             None \<Rightarrow> Some (-1, n1, ni1, s2)
           | Some cl \<Rightarrow> do {
               (w, s3) \<leftarrow> write_loop cl (off mod cluster_size s) xs s2;
               s4 \<leftarrow> fat32_flush_fat_cache s3;
               s5 \<leftarrow> fat32_update_dir_entry ni1 (v_name n1) (v_size n1) s4;
               Some (as_int w, n1, ni1, s5)
             })
        }
      })"

definition fat32_truncate :: "vnode \<Rightarrow> fat32_node \<Rightarrow> nat \<Rightarrow> fat32 \<Rightarrow> (int \<times> vnode \<times> fat32_node \<times> fat32) option" where
  "fat32_truncate n ni sz s =
     (if \<not> has_flag VFS_FLAG_FILE n then Some (-1, n, ni, s)
      else if read_only s then Some (-1, n, ni, s)
      else do {
        s1 \<leftarrow> fat32_update_dir_entry ni (v_name n) sz s;
        Some (0, n\<lparr>v_size := sz\<rparr>, ni\<lparr>node_size := sz\<rparr>, s1)
      })"

subsection \<open>New entries\<close>

text \<open>Whether a short name is taken: an entry of this cluster has it, the directory ends, or (\<open>None\<close>) it goes on.\<close>

fun scan_key :: "u8 list \<Rightarrow> u8 list list \<Rightarrow> bool option" where
  "scan_key key [] = None"
| "scan_key key (e # es) =
     (if e ! 0 = 0 then Some False
      else if e ! 0 = 0xE5 then scan_key key es
      else if e_attr e AND 0x0F = 0x0F then scan_key key es
      else if e_name e = key then Some True
      else scan_key key es)"

partial_function (option) key_taken :: "u8 list \<Rightarrow> nat \<Rightarrow> fat32 \<Rightarrow> (bool \<times> fat32) option" where
  "key_taken key cl s =
     (if cl \<ge> FAT32_CLUSTER_END then Some (False, s)
      else do {
        buf \<leftarrow> fat32_read_cluster cl s;
        (case scan_key key (dir_entries buf) of
           Some False \<Rightarrow> Some (False, s)
         | Some True \<Rightarrow> do { (cl', s1) \<leftarrow> fat32_read_fat_entry cl s; Some (True, s1) }
         | None \<Rightarrow> do { (cl', s1) \<leftarrow> fat32_read_fat_entry cl s; key_taken key cl' s1 })
      })"

text \<open>\<open>n\<close> tails from \<open>tail\<close> on are tried; when all are taken the last one is used all the same.\<close>

fun try_tails :: "nat \<Rightarrow> nat \<Rightarrow> u8 list \<Rightarrow> nat \<Rightarrow> fat32 \<Rightarrow> (u8 list \<times> fat32) option" where
  "try_tails 0 tail name cl s = Some (tail_key name (tail - 1), s)"
| "try_tails (Suc n) tail name cl s = do {
     (found, s1) \<leftarrow> key_taken (tail_key name tail) cl s;
     if \<not> found then Some (tail_key name tail, s1) else try_tails n (tail + 1) name cl s1
   }"

definition fat32_generate_short_name :: "u8 list \<Rightarrow> nat \<Rightarrow> fat32 \<Rightarrow> (u8 list \<times> fat32) option" where
  "fat32_generate_short_name name cl s = try_tails 9999 1 name cl s"

text \<open>The run of free entries that is growing: its length, and the cluster and place of its first.\<close>

type_synonym free_run = "nat \<times> nat \<times> nat"

fun scan_free :: "nat \<Rightarrow> u8 list list \<Rightarrow> nat \<Rightarrow> nat \<Rightarrow> free_run \<Rightarrow> (nat \<times> nat) + free_run" where
  "scan_free n [] i cl run = Inr run"
| "scan_free n (e # es) i cl (run, rc, ri) =
     (if e ! 0 = 0 \<or> e ! 0 = 0xE5 then
        (let (rc1, ri1) = (if run = 0 then (cl, i) else (rc, ri))
         in if run + 1 \<ge> n then Inl (rc1, ri1) else scan_free n es (i + 1) cl (run + 1, rc1, ri1))
      else scan_free n es (i + 1) cl (0, rc, ri))"

text \<open>A directory without room gets a new cluster, cleared.\<close>

partial_function (option) slots_loop :: "nat \<Rightarrow> nat \<Rightarrow> free_run \<Rightarrow> fat32 \<Rightarrow> ((nat \<times> nat) option \<times> fat32) option" where
  "slots_loop n cl run s = do {
     buf \<leftarrow> fat32_read_cluster cl s;
     (case scan_free n (dir_entries buf) 0 cl run of
        Inl r \<Rightarrow> Some (Some r, s)
      | Inr run1 \<Rightarrow> do {
          (nx, s1) \<leftarrow> fat32_read_fat_entry cl s;
          if nx \<ge> FAT32_CLUSTER_END then do {
            (c, s2) \<leftarrow> fat32_allocate_cluster s1;
            if c = 0 then Some (None, s2)
            else do {
              s3 \<leftarrow> fat32_write_fat_entry cl c s2;
              s4 \<leftarrow> fat32_write_cluster c (replicate (cluster_size s3) 0) s3;
              slots_loop n c run1 s4
            }
          } else slots_loop n nx run1 s1
        })
   }"

definition fat32_find_free_slots :: "nat \<Rightarrow> nat \<Rightarrow> fat32 \<Rightarrow> ((nat \<times> nat) option \<times> fat32) option" where
  "fat32_find_free_slots cl n s = slots_loop n cl (0, cl, 0) s"

text \<open>\<open>n\<close> entries from number \<open>k\<close> on, at place \<open>idx\<close> of the cluster \<open>cl\<close> whose entries are \<open>es\<close>.\<close>

fun write_entries :: "(nat \<Rightarrow> u8 list) \<Rightarrow> nat \<Rightarrow> nat \<Rightarrow> nat \<Rightarrow> nat \<Rightarrow> u8 list list \<Rightarrow> fat32 \<Rightarrow> (nat \<times> fat32) option" where
  "write_entries ent 0 k cl idx es s = do { s1 \<leftarrow> fat32_write_cluster cl (concat es) s; Some (cl, s1) }"
| "write_entries ent (Suc n) k cl idx es s =
     (if idx \<ge> cluster_size s div 32 then do {
        s1 \<leftarrow> fat32_write_cluster cl (concat es) s;
        (cl', s2) \<leftarrow> fat32_read_fat_entry cl s1;
        buf \<leftarrow> fat32_read_cluster cl' s2;
        write_entries ent n (k + 1) cl' 1 ((dir_entries buf)[0 := ent k]) s2
      } else write_entries ent n (k + 1) cl (idx + 1) (es[idx := ent k]) s)"

definition fat32_write_dir_entries :: "nat \<Rightarrow> nat \<Rightarrow> u8 list \<Rightarrow> u8 list \<Rightarrow> u8 \<Rightarrow> nat \<Rightarrow> nat \<Rightarrow> fat32 \<Rightarrow> (nat \<times> fat32) option" where
  "fat32_write_dir_entries cl idx name key attr dcl sz s = do {
     buf \<leftarrow> fat32_read_cluster cl s;
     write_entries (dir_entry_at name key attr dcl sz) (lfn_count name + 1) 0 cl idx (dir_entries buf) s
   }"

definition short_name :: "u8 list \<Rightarrow> nat \<Rightarrow> fat32 \<Rightarrow> (u8 list \<times> fat32) option" where
  "short_name name cl s =
     (if \<not> fat32_name_is_8dot3 name then fat32_generate_short_name name cl s else Some (fat32_build_name_key name, s))"

definition new_node :: "u8 list \<Rightarrow> u32 \<Rightarrow> u32 \<Rightarrow> nat \<Rightarrow> nat \<Rightarrow> vnode \<times> fat32_node" where
  "new_node name flags mode cl pcl =
     (\<lparr>v_name = take 255 name, v_inode = 0, v_size = 0, v_flags = flags, v_uid = 0, v_gid = 0, v_mode = mode, v_refcount = 1,
        v_data = None, v_ops = None, v_parent = None, v_children = None, v_next = None\<rparr>,
      \<lparr>cluster_number = cl, node_size = 0, parent_cluster = pcl\<rparr>)"

definition fat32_create :: "fat32_node \<Rightarrow> u8 list \<Rightarrow> fat32 \<Rightarrow> ((vnode \<times> fat32_node) option \<times> fat32) option" where
  "fat32_create dir name s =
     (if read_only s then Some (None, s)
      else do {
        (key, s1) \<leftarrow> short_name name (cluster_number dir) s;
        (slot, s2) \<leftarrow> fat32_find_free_slots (cluster_number dir) (lfn_count name + 1) s1;
        (case slot of
           None \<Rightarrow> Some (None, s2)
         | Some (scl, idx) \<Rightarrow> do {
             (c, s3) \<leftarrow> fat32_allocate_cluster s2;
             if c = 0 then Some (None, s3)
             else do {
               (pcl, s4) \<leftarrow> fat32_write_dir_entries scl idx name key FAT32_ATTR_ARCHIVE c 0 s3;
               Some (Some (new_node name (VFS_FLAG_FILE OR VFS_FLAG_DISKIO) (S_IFREG OR 0x1A4) c pcl), s4)
             }
           })
      })"

text \<open>The first cluster of a new directory: the entries of the directory itself and of its parent.\<close>

definition dot_entry :: "u8 list \<Rightarrow> nat \<Rightarrow> u8 list" where
  "dot_entry dots cl = sfn_entry (pad 11 dots) FAT32_ATTR_DIRECTORY cl 0"

definition dot_entries :: "nat \<Rightarrow> nat \<Rightarrow> nat \<Rightarrow> u8 list" where
  "dot_entries csize cl pcl = dot_entry [DOTC] cl @ dot_entry [DOTC, DOTC] pcl @ replicate (csize - 64) 0"

definition fat32_mkdir :: "fat32_node \<Rightarrow> u8 list \<Rightarrow> fat32 \<Rightarrow> ((vnode \<times> fat32_node) option \<times> fat32) option" where
  "fat32_mkdir dir name s =
     (if read_only s then Some (None, s)
      else do {
        (c, s1) \<leftarrow> fat32_allocate_cluster s;
        if c = 0 then Some (None, s1)
        else do {
          s2 \<leftarrow> fat32_write_cluster c (dot_entries (cluster_size s) c (cluster_number dir)) s1;
          (key, s3) \<leftarrow> short_name name (cluster_number dir) s2;
          (slot, s4) \<leftarrow> fat32_find_free_slots (cluster_number dir) (lfn_count name + 1) s3;
          (case slot of
             None \<Rightarrow> Some (None, s4)
           | Some (scl, idx) \<Rightarrow> do {
               (pcl, s5) \<leftarrow> fat32_write_dir_entries scl idx name key FAT32_ATTR_DIRECTORY c 0 s4;
               Some (Some (new_node name (VFS_FLAG_DIRECTORY OR VFS_FLAG_DISKIO) (S_IFDIR OR 0x1ED) c (cluster_number dir)), s5)
             })
        }
      })"

subsection \<open>Mounting\<close>

definition MEMDRIVE_BASE :: nat where "MEMDRIVE_BASE = 0x80"

text \<open>The drive of a device string, and whether it is mounted read-only.\<close>

definition mount_drive :: "u8 list option \<Rightarrow> (nat \<times> bool) option" where
  "mount_drive device =
     (case device of
        None \<Rightarrow> Some (0, False)
      | Some dev \<Rightarrow>
          if dev = [] then Some (0, False)
          else if take 3 dev = [0x6D, 0x65, 0x6D] \<and> 3 < length dev \<and> 0x30 \<le> dev ! 3 \<and> dev ! 3 \<le> 0x39 then do {
            v \<leftarrow> atoi (drop 3 dev @ [0]);
            Some ((MEMDRIVE_BASE + nat (v mod 256)) mod 256, True)
          }
          else do { v \<leftarrow> atoi (dev @ [0]); Some (nat (v mod 256), False) })"

text \<open>The fields of the boot sector at their offsets in the packed structures.\<close>

definition fat32_parse_bpb :: "nat \<Rightarrow> u8 list \<Rightarrow> (nat \<Rightarrow> u8 list) \<Rightarrow> fat32" where
  "fat32_parse_bpb part boot d =
     (let st = w32 (part + le16 boot 14)
      in \<lparr>read_only = False, bytes_per_sector = le16 boot 11, sectors_per_cluster = unat (boot ! 13), table_count = unat (boot ! 16),
          fat_size = le32 boot 36, root_cluster = le32 boot 44, fat_start_lba = st,
          cluster_heap_start_lba = w32 (st + unat (boot ! 16) * le32 boot 36),
          fat_cache = None, fat_cache_start = 0, fat_cache_sectors = 0, fat_cache_dirty = False, sectors = d\<rparr>)"

definition boot_signature :: "u8 list \<Rightarrow> bool" where
  "boot_signature b \<longleftrightarrow> b ! 510 = 0x55 \<and> b ! 511 = 0xAA"

definition load_cache :: "fat32 \<Rightarrow> fat32" where
  "load_cache s =
     (let n = (if fat_size s > 64 then 64 else fat_size s)
      in s\<lparr>fat_cache := Some (blk_read (fat_start_lba s) n s), fat_cache_start := 0, fat_cache_sectors := n, fat_cache_dirty := False\<rparr>)"

text \<open>\<open>drives\<close> gives the sectors of each drive that can be read.\<close>

definition fat32_mount :: "u8 list option \<Rightarrow> (nat \<Rightarrow> (nat \<Rightarrow> u8 list) option) \<Rightarrow> (vnode \<times> fat32_node \<times> fat32) option option" where
  "fat32_mount device drives = do {
     (drive, ro) \<leftarrow> mount_drive device;
     (case drives drive of
        None \<Rightarrow> Some None
      | Some d \<Rightarrow>
          if \<not> boot_signature (d 0) then Some None
          else let part = le32 (d 0) 454
            in if \<not> boot_signature (d part) then Some None
               else let s = load_cache ((fat32_parse_bpb part (d part) d)\<lparr>read_only := ro\<rparr>)
                 in Some (Some (\<lparr>v_name = [0x2F], v_inode = 0, v_size = 0, v_flags = VFS_FLAG_DIRECTORY OR VFS_FLAG_DISKIO, v_uid = 0, v_gid = 0,
                        v_mode = S_IFDIR OR 0x1ED, v_refcount = 1, v_data = None, v_ops = None, v_parent = None, v_children = None, v_next = None\<rparr>,
                      \<lparr>cluster_number = root_cluster s, node_size = 0, parent_cluster = 0\<rparr>, s)))
   }"

definition fat32_open :: "vnode \<Rightarrow> int" where "fat32_open n = 0"
definition fat32_close :: "vnode \<Rightarrow> int" where "fat32_close n = 0"

end
