(* ===== verification/Fatvol.thy ===== *)
theory Fatvol
  imports Fat32
begin

text \<open>
  The volume of FAT32 as the rest of the driver may see it: a map from clusters to links and a map from clusters
  to bytes. The window of the table in memory, its write-back to the copies of the table and the place of entries and clusters on the drive are dealt with here.
\<close>

section \<open>Volumes\<close>

definition fat_area :: "fat32 \<Rightarrow> nat \<Rightarrow> bool" where
  "fat_area s l \<longleftrightarrow> fat_start_lba s \<le> l \<and> l < cluster_heap_start_lba s"

text \<open>
  What mounting a sound volume establishes: sectors of 512 bytes, tables in front of the clusters, all of them within the 2^28 sectors that a drive's address reaches, and a window within the first table that agrees with it unless it is dirty.
\<close>

definition fat_ok :: "fat32 \<Rightarrow> bool" where
  "fat_ok s \<longleftrightarrow> bytes_per_sector s = 512 \<and> 0 < sectors_per_cluster s \<and> sectors_per_cluster s \<le> 255 \<and> 0 < table_count s
    \<and> fat_start_lba s + table_count s * fat_size s \<le> cluster_heap_start_lba s
    \<and> cluster_heap_start_lba s + fat_size s * 128 * sectors_per_cluster s < 2 ^ 28
    \<and> 0 < fat_size s \<and> fat_size s * 128 \<le> FAT32_CLUSTER_END
    \<and> (\<forall>l. length (sectors s l) = 512)
    \<and> (case fat_cache s of None \<Rightarrow> True | Some b \<Rightarrow>
         0 < fat_cache_sectors s \<and> fat_cache_start s + fat_cache_sectors s \<le> fat_size s \<and> length b = 512 * fat_cache_sectors s
         \<and> (\<not> fat_cache_dirty s \<longrightarrow> (\<forall>j < fat_cache_sectors s. take 512 (drop (512 * j) b) = sectors s (fat_start_lba s + fat_cache_start s + j))))"

lemma fat_okD:
  assumes "fat_ok s"
  shows "bytes_per_sector s = 512" "0 < sectors_per_cluster s" "sectors_per_cluster s \<le> 255" "0 < table_count s"
    "fat_start_lba s + table_count s * fat_size s \<le> cluster_heap_start_lba s"
    "cluster_heap_start_lba s + fat_size s * 128 * sectors_per_cluster s < 2 ^ 28"
    "0 < fat_size s" "fat_size s * 128 \<le> FAT32_CLUSTER_END" "length (sectors s l) = 512"
    "fat_cache s = Some b \<Longrightarrow> 0 < fat_cache_sectors s" "fat_cache s = Some b \<Longrightarrow> fat_cache_start s + fat_cache_sectors s \<le> fat_size s"
    "fat_cache s = Some b \<Longrightarrow> length b = 512 * fat_cache_sectors s"
    "\<lbrakk>fat_cache s = Some b; \<not> fat_cache_dirty s; j < fat_cache_sectors s\<rbrakk> \<Longrightarrow>
       take 512 (drop (512 * j) b) = sectors s (fat_start_lba s + fat_cache_start s + j)"
  using assms unfolding fat_ok_def by (auto split: option.splits)

lemma fat_size_bound: "fat_ok s \<Longrightarrow> fat_size s < 2 ^ 21 \<and> fat_start_lba s + fat_size s \<le> cluster_heap_start_lba s \<and> cluster_heap_start_lba s < 2 ^ 32"
proof (intro conjI)
  assume ok: "fat_ok s"
  show "fat_size s < 2 ^ 21" using fat_okD(8) [OF ok] by (simp add: FAT32_CLUSTER_END_def)
  have "1 * fat_size s \<le> table_count s * fat_size s" using fat_okD(4) [OF ok] by (intro mult_right_mono) simp_all
  then show "fat_start_lba s + fat_size s \<le> cluster_heap_start_lba s" using fat_okD(5) [OF ok] by linarith
  have "(2 :: nat) ^ 28 < 2 ^ 32" by simp
  then show "cluster_heap_start_lba s < 2 ^ 32" using fat_okD(6) [OF ok] by linarith
qed

text \<open>The first table as the driver sees it, the window in front of the drive.\<close>

definition fat_sector :: "fat32 \<Rightarrow> nat \<Rightarrow> u8 list" where
  "fat_sector s k =
     (case fat_cache s of
        Some b \<Rightarrow> if fat_cache_start s \<le> k \<and> k < fat_cache_start s + fat_cache_sectors s
          then take 512 (drop (512 * (k - fat_cache_start s)) b) else sectors s (fat_start_lba s + k)
      | None \<Rightarrow> sectors s (fat_start_lba s + k))"

definition geom :: "fat32 \<Rightarrow> bool \<times> nat \<times> nat \<times> nat \<times> nat \<times> nat \<times> nat \<times> nat \<times> nat" where
  "geom s = (read_only s, bytes_per_sector s, sectors_per_cluster s, table_count s, fat_size s, root_cluster s, fat_start_lba s,
     cluster_heap_start_lba s, fat_cache_sectors s)"

lemma geomD:
  assumes "geom s' = geom s"
  shows "read_only s' = read_only s" "bytes_per_sector s' = bytes_per_sector s" "sectors_per_cluster s' = sectors_per_cluster s"
    "table_count s' = table_count s" "fat_size s' = fat_size s" "root_cluster s' = root_cluster s" "fat_start_lba s' = fat_start_lba s"
    "cluster_heap_start_lba s' = cluster_heap_start_lba s" "fat_cache_sectors s' = fat_cache_sectors s"
    "cluster_size s' = cluster_size s" "fat_total s' = fat_total s" "cluster_lba c s' = cluster_lba c s" "fat_area s' = fat_area s"
  using assms by (auto simp: geom_def cluster_size_def fat_total_def cluster_lba_def fat_area_def fun_eq_iff)

lemma geom_upd [simp]:
  "geom (s\<lparr>sectors := f\<rparr>) = geom s" "geom (s\<lparr>fat_cache := c\<rparr>) = geom s" "geom (s\<lparr>fat_cache_dirty := d\<rparr>) = geom s"
  "geom (s\<lparr>fat_cache_start := k\<rparr>) = geom s" "geom (blk_write l xs s) = geom s"
  by (simp_all add: geom_def blk_write_def)

lemma fat_total_val: "fat_ok s \<Longrightarrow> fat_total s = fat_size s * 128"
  using fat_size_bound [of s] by (auto simp: fat_total_def fat_okD(1) w32_def)

subsection \<open>Sectors\<close>

lemma blk_write_from_ok:
  assumes "bytes_per_sector s = 512" "512 * (i + n) \<le> length buf" "lba + i + n \<le> 2 ^ 32"
  shows "blk_write_from n i lba buf s =
    Some (s\<lparr>sectors := \<lambda>l. if lba + i \<le> l \<and> l < lba + i + n then take 512 (drop (512 * (l - lba)) buf) else sectors s l\<rparr>)"
  using assms
proof (induction n arbitrary: i s)
  case (Suc n)
  let ?s = "blk_write (lba + i) (take 512 (drop (512 * i) buf)) s"
  have w: "w32 (lba + i) = lba + i" using Suc.prems(3) by (intro w32_id) simp
  have "blk_write_from n (i + 1) lba buf ?s =
    Some (?s\<lparr>sectors := \<lambda>l. if lba + (i + 1) \<le> l \<and> l < lba + (i + 1) + n then take 512 (drop (512 * (l - lba)) buf) else sectors ?s l\<rparr>)"
    using Suc.prems by (intro Suc.IH) (simp_all add: blk_write_def)
  moreover have "?s\<lparr>sectors := \<lambda>l. if lba + (i + 1) \<le> l \<and> l < lba + (i + 1) + n then take 512 (drop (512 * (l - lba)) buf) else sectors ?s l\<rparr>
    = s\<lparr>sectors := \<lambda>l. if lba + i \<le> l \<and> l < lba + i + Suc n then take 512 (drop (512 * (l - lba)) buf) else sectors s l\<rparr>"
    by (auto simp: blk_write_def fun_eq_iff)
  ultimately show ?case using Suc.prems w by (simp add: Let_def mult.commute)
next
  case 0
  have "(\<lambda>l. if lba + i \<le> l \<and> l < lba + i + 0 then take 512 (drop (512 * (l - lba)) buf) else sectors s l) = sectors s"
  proof (rule ext)
    fix l
    have "\<not> (lba + i \<le> l \<and> l < lba + i + 0)" by linarith
    then show "(if lba + i \<le> l \<and> l < lba + i + 0 then take 512 (drop (512 * (l - lba)) buf) else sectors s l) = sectors s l" by (rule if_not_P)
  qed
  then show ?case by (simp del: add_0_right)
qed

lemma blk_read_nth_sector:
  assumes "\<And>l. length (sectors s l) = 512" "j < n" "lba + n \<le> 2 ^ 32"
  shows "take 512 (drop (512 * j) (blk_read lba n s)) = sectors s (lba + j)"
  using assms(2,3)
proof (induction n)
  case (Suc n)
  have l: "length (blk_read lba n s) = 512 * n" by (simp add: blk_read_def length_concat assms(1) sum_list_triv comp_def)
  have b: "blk_read lba (Suc n) s = blk_read lba n s @ sectors s (lba + n)"
    using Suc.prems(2) by (simp add: blk_read_def w32_id)
  show ?case
  proof (cases "j = n")
    case True
    then show ?thesis unfolding b using l assms(1) by simp
  next
    case False
    then have j: "j < n" using Suc.prems(1) by simp
    then have "take 512 (drop (512 * j) (blk_read lba (Suc n) s)) = take 512 (drop (512 * j) (blk_read lba n s))"
      unfolding b using l by simp
    then show ?thesis using Suc.IH j Suc.prems(2) by simp
  qed
qed simp

lemma blk_read_length: "(\<And>l. length (sectors s l) = 512) \<Longrightarrow> length (blk_read lba n s) = 512 * n"
  by (simp add: blk_read_def length_concat sum_list_triv comp_def)

text \<open>A buffer is the concatenation of its sectors.\<close>

lemma sectors_of_buffer: "length b = 512 * n \<Longrightarrow> concat (map (\<lambda>j. take 512 (drop (512 * j) b)) [0..<n]) = b"
proof (induction n arbitrary: b)
  case (Suc n)
  have "map (\<lambda>j. take 512 (drop (512 * j) b)) [0..<n] = map (\<lambda>j. take 512 (drop (512 * j) (take (512 * n) b))) [0..<n]"
    by (auto simp: drop_take)
  then have "concat (map (\<lambda>j. take 512 (drop (512 * j) b)) [0..<n]) = take (512 * n) b"
    using Suc.IH [of "take (512 * n) b"] Suc.prems by (simp del: map_eq_conv)
  then show ?case using Suc.prems by simp
qed simp

subsection \<open>Writing the window back\<close>

lemma flush_copies_ok:
  assumes "fat_ok s" "length buf = 512 * fat_cache_sectors s" "fat_cache_start s + fat_cache_sectors s \<le> fat_size s"
    and "c + n \<le> table_count s" "fat_cache s = Some buf" "fat_cache_dirty s"
  shows "\<exists>f. flush_copies n c buf s = Some (s\<lparr>sectors := f\<rparr>)
    \<and> (\<forall>l. f l = sectors s l \<or> fat_area s l) \<and> (\<forall>l. length (f l) = 512)
    \<and> (\<forall>k < fat_size s. \<forall>d. d < c \<longrightarrow> f (fat_start_lba s + d * fat_size s + k) = sectors s (fat_start_lba s + d * fat_size s + k))
    \<and> (\<forall>k < fat_size s. \<forall>d. c \<le> d \<and> d < c + n \<longrightarrow> f (fat_start_lba s + d * fat_size s + k) =
         (if fat_cache_start s \<le> k \<and> k < fat_cache_start s + fat_cache_sectors s then take 512 (drop (512 * (k - fat_cache_start s)) buf)
          else sectors s (fat_start_lba s + d * fat_size s + k)))"
  using assms
proof (induction n arbitrary: c s)
  case (Suc n)
  note ok = Suc.prems(1) and lb = Suc.prems(2) and st = Suc.prems(3)
  let ?lba = "fat_start_lba s + c * fat_size s + fat_cache_start s" and ?m = "fat_cache_sectors s"
  have "(c + 1) * fat_size s \<le> table_count s * fat_size s" using Suc.prems(4) by (intro mult_right_mono) simp_all
  then have top: "fat_start_lba s + c * fat_size s + fat_size s \<le> cluster_heap_start_lba s" using fat_okD(5) [OF ok] by (simp add: algebra_simps)
  then have bd: "?lba + 0 + ?m \<le> 2 ^ 32" using st fat_size_bound [OF ok] by linarith
  let ?f = "\<lambda>l. if ?lba + 0 \<le> l \<and> l < ?lba + 0 + ?m then take 512 (drop (512 * (l - ?lba)) buf) else sectors s l"
  have m: "0 < ?m \<Longrightarrow> ?lba < 2 ^ 32" using bd by simp
  have w: "blk_write_from ?m 0 (w32 ?lba) buf s = Some (s\<lparr>sectors := ?f\<rparr>)"
  proof -
    have "w32 ?lba = ?lba" using m fat_okD(10) [OF ok Suc.prems(5)] by (intro w32_id) simp
    then show ?thesis using blk_write_from_ok [OF fat_okD(1) [OF ok], of 0 ?m buf ?lba] lb bd by simp
  qed
  have len: "length (?f l) = 512" for l
  proof (cases "?lba + 0 \<le> l \<and> l < ?lba + 0 + ?m")
    case True
    then have "512 * (l - ?lba) + 512 \<le> length buf" using lb by linarith
    then show ?thesis using True by simp
  qed (use fat_okD(9) [OF ok] in auto)
  let ?s = "s\<lparr>sectors := ?f\<rparr>"
  have ok1: "fat_ok ?s" using ok len Suc.prems(5,6) by (auto simp: fat_ok_def)
  have "\<exists>f. flush_copies n (c + 1) buf ?s = Some (?s\<lparr>sectors := f\<rparr>)
    \<and> (\<forall>l. f l = sectors ?s l \<or> fat_area ?s l) \<and> (\<forall>l. length (f l) = 512)
    \<and> (\<forall>k < fat_size ?s. \<forall>d. d < c + 1 \<longrightarrow> f (fat_start_lba ?s + d * fat_size ?s + k) = sectors ?s (fat_start_lba ?s + d * fat_size ?s + k))
    \<and> (\<forall>k < fat_size ?s. \<forall>d. c + 1 \<le> d \<and> d < c + 1 + n \<longrightarrow> f (fat_start_lba ?s + d * fat_size ?s + k) =
         (if fat_cache_start ?s \<le> k \<and> k < fat_cache_start ?s + fat_cache_sectors ?s then take 512 (drop (512 * (k - fat_cache_start ?s)) buf)
          else sectors ?s (fat_start_lba ?s + d * fat_size ?s + k)))"
    by (rule Suc.IH [OF ok1]) (use Suc.prems in simp_all)
  then obtain f where f: "flush_copies n (c + 1) buf ?s = Some (?s\<lparr>sectors := f\<rparr>)" "\<And>l. f l = ?f l \<or> fat_area s l" "\<And>l. length (f l) = 512"
    "\<And>k d. k < fat_size s \<Longrightarrow> d < c + 1 \<Longrightarrow> f (fat_start_lba s + d * fat_size s + k) = ?f (fat_start_lba s + d * fat_size s + k)"
    "\<And>k d. k < fat_size s \<Longrightarrow> c + 1 \<le> d \<Longrightarrow> d < c + 1 + n \<Longrightarrow> f (fat_start_lba s + d * fat_size s + k) =
         (if fat_cache_start s \<le> k \<and> k < fat_cache_start s + ?m then take 512 (drop (512 * (k - fat_cache_start s)) buf)
          else ?f (fat_start_lba s + d * fat_size s + k))"
    by (auto simp: fat_area_def)
  have r: "flush_copies (Suc n) c buf s = Some (s\<lparr>sectors := f\<rparr>)" using w f(1) by simp
  have lo: "?f (fat_start_lba s + d * fat_size s + k) = sectors s (fat_start_lba s + d * fat_size s + k)" if "k < fat_size s" "d < c" for k d
  proof -
    have "(d + 1) * fat_size s \<le> c * fat_size s" using that(2) by (intro mult_right_mono) simp_all
    then have "fat_start_lba s + d * fat_size s + k < ?lba" using that(1) by (simp add: algebra_simps)
    then show ?thesis by simp
  qed
  have hi: "?f (fat_start_lba s + d * fat_size s + k) = sectors s (fat_start_lba s + d * fat_size s + k)" if "k < fat_size s" "c < d" for k d
  proof -
    have "(c + 1) * fat_size s \<le> d * fat_size s" using that(2) by (intro mult_right_mono) simp_all
    then have "?lba + ?m \<le> fat_start_lba s + d * fat_size s + k" using st by (simp add: algebra_simps)
    then show ?thesis by simp
  qed
  have mid: "?f (fat_start_lba s + c * fat_size s + k) = (if fat_cache_start s \<le> k \<and> k < fat_cache_start s + ?m then take 512 (drop (512 * (k - fat_cache_start s)) buf)
          else sectors s (fat_start_lba s + c * fat_size s + k))" for k
  proof -
    have "fat_start_lba s + c * fat_size s + k - ?lba = k - fat_cache_start s" by simp
    then show ?thesis by auto
  qed
  have ar: "f l = sectors s l \<or> fat_area s l" for l
  proof (cases "?lba + 0 \<le> l \<and> l < ?lba + 0 + ?m")
    case True
    then have "fat_area s l" using top st unfolding fat_area_def by linarith
    then show ?thesis ..
  next
    case False
    then have "?f l = sectors s l" by (rule if_not_P)
    then show ?thesis using f(2) [of l] by simp
  qed
  show ?case
  proof (intro exI [of _ f] conjI allI impI)
    fix k d assume k: "k < fat_size s"
    show "f (fat_start_lba s + d * fat_size s + k) = sectors s (fat_start_lba s + d * fat_size s + k)" if "d < c"
      using f(4) [OF k, of d] lo [OF k that] that by simp
    show "f (fat_start_lba s + d * fat_size s + k) =
         (if fat_cache_start s \<le> k \<and> k < fat_cache_start s + ?m then take 512 (drop (512 * (k - fat_cache_start s)) buf)
          else sectors s (fat_start_lba s + d * fat_size s + k))" if "c \<le> d \<and> d < c + Suc n"
    proof (cases "d = c")
      case True
      then show ?thesis using f(4) [OF k, of d] mid by simp
    next
      case False
      then show ?thesis using f(5) [OF k, of d] hi [OF k, of d] that by simp
    qed
  qed (use r f(3) ar in auto)
next
  case 0
  then show ?case using fat_okD(9) [OF 0(1)] by (intro exI [of _ "sectors s"]) auto
qed


subsection \<open>The abstract volume\<close>

text \<open>The table as a map from clusters to links, and what the clusters hold.\<close>

definition fat_view :: "fat32 \<Rightarrow> nat \<Rightarrow> nat" where
  "fat_view s cl = (if cl < fat_total s then le32 (fat_sector s (cl div 128)) (4 * (cl mod 128)) mod 2 ^ 28 else 0)"

definition data_cluster :: "fat32 \<Rightarrow> nat \<Rightarrow> bool" where
  "data_cluster s cl \<longleftrightarrow> 2 \<le> cl \<and> cl < fat_total s"

definition cluster_data :: "fat32 \<Rightarrow> nat \<Rightarrow> u8 list" where
  "cluster_data s cl = (if data_cluster s cl then blk_read (cluster_lba cl s) (sectors_per_cluster s) s else [])"

text \<open>A step that leaves links \<open>f\<close> and data \<open>d\<close>.\<close>

definition vol_step :: "fat32 \<Rightarrow> (nat \<Rightarrow> nat) \<Rightarrow> (nat \<Rightarrow> u8 list) \<Rightarrow> fat32 \<Rightarrow> bool" where
  "vol_step s f d s' \<longleftrightarrow> fat_ok s' \<and> geom s' = geom s \<and> fat_view s' = f \<and> cluster_data s' = d"

abbreviation vol_keeps :: "fat32 \<Rightarrow> fat32 \<Rightarrow> bool" where
  "vol_keeps s s' \<equiv> vol_step s (fat_view s) (cluster_data s) s'"

lemma cluster_lba_ok:
  assumes "fat_ok s" "data_cluster s cl" "j < sectors_per_cluster s"
  shows "cluster_lba cl s = cluster_heap_start_lba s + (cl - 2) * sectors_per_cluster s" "w32 (cluster_lba cl s + j) = cluster_lba cl s + j"
    "cluster_lba cl s + sectors_per_cluster s \<le> 2 ^ 32" "cluster_heap_start_lba s \<le> cluster_lba cl s" "\<not> fat_area s (cluster_lba cl s + j)"
proof -
  have "(cl - 2 + 1) * sectors_per_cluster s \<le> fat_size s * 128 * sectors_per_cluster s"
    using assms(2) fat_total_val [OF assms(1)] by (intro mult_right_mono) (auto simp: data_cluster_def)
  moreover have "(2 :: nat) ^ 28 < 2 ^ 32" by simp
  ultimately have b: "cluster_heap_start_lba s + (cl - 2) * sectors_per_cluster s + sectors_per_cluster s < 2 ^ 32"
    using fat_okD(6) [OF assms(1)] by (simp add: algebra_simps)
  then show c: "cluster_lba cl s = cluster_heap_start_lba s + (cl - 2) * sectors_per_cluster s"
    unfolding cluster_lba_def by (intro w32_id) linarith
  show "w32 (cluster_lba cl s + j) = cluster_lba cl s + j" using b assms(3) unfolding c by (intro w32_id) linarith
  show "cluster_lba cl s + sectors_per_cluster s \<le> 2 ^ 32" "cluster_heap_start_lba s \<le> cluster_lba cl s" "\<not> fat_area s (cluster_lba cl s + j)"
    using b unfolding c by (simp_all add: fat_area_def)
qed

lemma table_data:
  assumes "fat_ok s" "geom s' = geom s" "\<And>l. sectors s' l = sectors s l \<or> fat_area s l"
  shows "cluster_data s' = cluster_data s"
proof
  fix c
  note G = geomD [OF assms(2)]
  show "cluster_data s' c = cluster_data s c"
  proof (cases "data_cluster s c")
    case True
    have "sectors s' (w32 (cluster_lba c s + j)) = sectors s (w32 (cluster_lba c s + j))" if "j < sectors_per_cluster s" for j
      using cluster_lba_ok(2,5) [OF assms(1) True that] assms(3) [of "cluster_lba c s + j"] by simp
    then have "map (\<lambda>j. sectors s' (w32 (cluster_lba c s + j))) [0..<sectors_per_cluster s] = map (\<lambda>j. sectors s (w32 (cluster_lba c s + j))) [0..<sectors_per_cluster s]"
      by simp
    then show ?thesis using True by (simp only: cluster_data_def data_cluster_def G blk_read_def)
  next
    case False
    then have "\<not> data_cluster s' c" by (simp add: data_cluster_def G)
    then show ?thesis using False by (simp add: cluster_data_def)
  qed
qed

text \<open>Steps that only touch the tables and the window.\<close>

lemma table_step:
  assumes "fat_ok s'" "geom s' = geom s" "\<And>k. k < fat_size s \<Longrightarrow> fat_sector s' k = fat_sector s k" "\<And>l. sectors s' l = sectors s l \<or> fat_area s l"
    and "fat_ok s"
  shows "vol_keeps s s'"
proof -
  note G = geomD [OF assms(2)]
  have "fat_view s' c = fat_view s c" for c
  proof (cases "c < fat_total s")
    case True
    then have "c div 128 < fat_size s" using fat_total_val [OF assms(5)] by (simp add: div_less_iff_less_mult)
    then show ?thesis using True G(11) assms(3) by (simp add: fat_view_def)
  qed (simp add: fat_view_def G)
  moreover have "cluster_data s' = cluster_data s" by (rule table_data [OF assms(5,2,4)])
  ultimately show ?thesis using assms(1,2) by (auto simp: vol_step_def)
qed

section \<open>The window\<close>

lemma fat_sector_length: "fat_ok s \<Longrightarrow> length (fat_sector s k) = 512"
proof (cases "fat_cache s")
  case (Some b)
  assume ok: "fat_ok s"
  show ?thesis
  proof (cases "fat_cache_start s \<le> k \<and> k < fat_cache_start s + fat_cache_sectors s")
    case True
    then have "512 * (k - fat_cache_start s) + 512 \<le> length b" using fat_okD(12) [OF ok Some] by linarith
    then show ?thesis using True Some by (simp add: fat_sector_def)
  next
    case False
    then show ?thesis using Some fat_okD(9) [OF ok] by (auto simp: fat_sector_def)
  qed
qed (simp add: fat_sector_def fat_okD(9))

lemma fat_flush_ok:
  assumes ok: "fat_ok s"
  shows "\<exists>s'. fat32_flush_fat_cache s = Some s' \<and> vol_keeps s s' \<and> fat_cache s' = fat_cache s \<and> fat_cache_start s' = fat_cache_start s
    \<and> (\<forall>k < fat_size s. fat_sector s' k = fat_sector s k \<and> sectors s' (fat_start_lba s + k) = fat_sector s k)
    \<and> (\<forall>l. sectors s' l = sectors s l \<or> fat_area s l)
    \<and> (fat_cache_dirty s \<longrightarrow> (\<forall>b k d. fat_cache s = Some b \<longrightarrow> fat_cache_start s \<le> k \<longrightarrow> k < fat_cache_start s + fat_cache_sectors s \<longrightarrow> d < table_count s \<longrightarrow>
         sectors s' (fat_start_lba s + d * fat_size s + k) = fat_sector s k))"
proof (cases "fat_cache s")
  case None
  then show ?thesis using ok by (simp add: fat32_flush_fat_cache_def vol_step_def fat_sector_def)
next
  case (Some b)
  show ?thesis
  proof (cases "fat_cache_dirty s")
    case False
    have "sectors s (fat_start_lba s + k) = fat_sector s k" if "k < fat_size s" for k
      using fat_okD(13) [OF ok Some False, of "k - fat_cache_start s"] Some by (auto simp: fat_sector_def)
    then show ?thesis using ok Some False by (simp add: fat32_flush_fat_cache_def vol_step_def)
  next
    case True
    note st = fat_okD(11,12) [OF ok Some]
    have le: "0 + table_count s \<le> table_count s" by simp
    from flush_copies_ok [OF ok st(2,1) le Some True] obtain f where f: "flush_copies (table_count s) 0 b s = Some (s\<lparr>sectors := f\<rparr>)"
      "\<And>l. f l = sectors s l \<or> fat_area s l" "\<And>l. length (f l) = 512"
      "\<And>k d. k < fat_size s \<Longrightarrow> d < table_count s \<Longrightarrow> f (fat_start_lba s + d * fat_size s + k) =
         (if fat_cache_start s \<le> k \<and> k < fat_cache_start s + fat_cache_sectors s then take 512 (drop (512 * (k - fat_cache_start s)) b)
          else sectors s (fat_start_lba s + d * fat_size s + k))"
      by auto
    let ?s = "s\<lparr>sectors := f, fat_cache_dirty := False\<rparr>"
    have fl: "fat32_flush_fat_cache s = Some ?s" using Some True f(1) by (simp add: fat32_flush_fat_cache_def)
    have sec: "f (fat_start_lba s + k) = fat_sector s k" if "k < fat_size s" for k
      using f(4) [OF that fat_okD(4) [OF ok]] Some by (simp add: fat_sector_def)
    have cl: "take 512 (drop (512 * j) b) = f (fat_start_lba s + fat_cache_start s + j)" if "j < fat_cache_sectors s" for j
      using sec [of "fat_cache_start s + j"] that st(1) Some by (simp add: fat_sector_def add.assoc)
    have ok1: "fat_ok ?s" using ok f(3) cl Some unfolding fat_ok_def by simp
    have fs: "fat_sector ?s k = fat_sector s k" if "k < fat_size s" for k using sec [OF that] Some by (simp add: fat_sector_def)
    have "vol_keeps s ?s" using f(2) fs by (intro table_step [OF ok1 _ _ _ ok]) auto
    moreover have "f (fat_start_lba s + d * fat_size s + k) = fat_sector s k"
      if "fat_cache_start s \<le> k" "k < fat_cache_start s + fat_cache_sectors s" "d < table_count s" for k d
      using f(4) [of k d] that st(1) Some by (simp add: fat_sector_def)
    ultimately show ?thesis using fl fs sec f(2) Some by auto
  qed
qed

lemma window_start_ok:
  assumes "fat_ok s" "fat_cache s = Some b" "sec < fat_size s"
  shows "window_start sec s \<le> sec" "sec < window_start sec s + fat_cache_sectors s" "window_start sec s + fat_cache_sectors s \<le> fat_size s"
proof -
  let ?m = "fat_cache_sectors s" and ?st = "if sec \<ge> fat_cache_sectors s div 2 then sec - fat_cache_sectors s div 2 else 0"
  have m: "0 < ?m" "?m \<le> fat_size s" using fat_okD(10,11) [OF assms(1,2)] by simp_all
  have "?st + ?m < 2 ^ 32" using fat_size_bound [OF assms(1)] m assms(3) by auto
  then have w: "w32 (?st + ?m) = ?st + ?m" by (rule w32_id)
  have c: "sub32 (fat_size s) ?m = fat_size s - ?m" using m by (simp add: sub32_le)
  have h: "?m div 2 < ?m" using m by simp
  have ws: "window_start sec s = (if ?st + ?m > fat_size s then fat_size s - ?m else ?st)"
    unfolding window_start_def Let_def w c ..
  show "window_start sec s \<le> sec" "sec < window_start sec s + ?m" "window_start sec s + ?m \<le> fat_size s"
    unfolding ws using m assms(3) h by (auto split: if_splits)
qed

lemma move_window_ok:
  assumes ok: "fat_ok s" and c: "fat_cache s = Some b" and sec: "sec < fat_size s"
  shows "\<exists>s' b'. move_window sec s = Some s' \<and> vol_keeps s s' \<and> fat_cache s' = Some b' \<and> in_window sec s' \<and> (\<forall>k < fat_size s. fat_sector s' k = fat_sector s k)"
proof -
  obtain s1 where s1: "fat32_flush_fat_cache s = Some s1" "vol_keeps s s1" "fat_cache s1 = Some b"
    "\<And>k. k < fat_size s \<Longrightarrow> fat_sector s1 k = fat_sector s k \<and> sectors s1 (fat_start_lba s + k) = fat_sector s k"
    "\<And>l. sectors s1 l = sectors s l \<or> fat_area s l"
    using fat_flush_ok [OF ok] c by metis
  have ok1: "fat_ok s1" and g: "geom s1 = geom s" using s1(2) by (simp_all add: vol_step_def)
  note G = geomD [OF g]
  let ?st = "window_start sec s1" and ?m = "fat_cache_sectors s"
  have ws: "?st \<le> sec" "sec < ?st + ?m" "?st + ?m \<le> fat_size s" using window_start_ok [OF ok1 s1(3)] sec by (simp_all add: G)
  have b: "fat_start_lba s + ?st + ?m \<le> 2 ^ 32" using ws(3) fat_size_bound [OF ok] by linarith
  have m: "0 < ?m" using fat_okD(10) [OF ok c] .
  let ?b = "blk_read (fat_start_lba s + ?st) ?m s1" and ?s = "s1\<lparr>fat_cache := Some (blk_read (fat_start_lba s + ?st) ?m s1), fat_cache_start := ?st\<rparr>"
  have lw: "w32 (fat_start_lba s + ?st) = fat_start_lba s + ?st" using b m by (intro w32_id) linarith
  have mv: "move_window sec s = Some ?s" unfolding move_window_def using s1(1) lw by (simp add: G Let_def)
  have w: "take 512 (drop (512 * j) ?b) = sectors s1 (fat_start_lba s + ?st + j)" if "j < ?m" for j
    by (rule blk_read_nth_sector [OF fat_okD(9) [OF ok1] that b])
  have ok2: "fat_ok ?s" using ok1 ws m w blk_read_length [of s1 "fat_start_lba s + ?st" ?m] fat_okD(9) [OF ok1] unfolding fat_ok_def by (simp add: G)
  have fs: "fat_sector ?s k = fat_sector s k" if k: "k < fat_size s" for k
  proof (cases "?st \<le> k \<and> k < ?st + ?m")
    case True
    then have "k - ?st < ?m" by linarith
    then have "take 512 (drop (512 * (k - ?st)) ?b) = sectors s1 (fat_start_lba s + k)" using w True by simp
    then show ?thesis using True s1(4) [OF k] by (simp add: fat_sector_def G)
  next
    case False
    then show ?thesis using s1(4) [OF k] by (auto simp: fat_sector_def G)
  qed
  have vk: "vol_keeps s ?s" using g fs s1(5) by (intro table_step [OF ok2 _ _ _ ok]) simp_all
  have iw: "in_window sec ?s"
  proof -
    have "?st + ?m < 2 ^ 32" using ws(3) fat_size_bound [OF ok] by simp
    then show ?thesis using ws by (simp add: in_window_def G w32_id)
  qed
  show ?thesis using mv vk iw fs by (intro exI [of _ ?s] exI [of _ ?b]) simp
qed


section \<open>Entries of the table\<close>

lemma le32_take_drop: "i + 4 \<le> 512 \<Longrightarrow> k + 512 \<le> length b \<Longrightarrow> le32 (take 512 (drop k b)) i = le32 b (k + i)"
  by (simp add: le32_def le16_def add.assoc)

lemma put32_take_drop:
  assumes "i + 4 \<le> 512" "k + 512 \<le> length b"
  shows "take 512 (drop k (put32 b (k + i) v)) = put32 (take 512 (drop k b)) i v"
    "k' + 512 \<le> k \<or> k + 512 \<le> k' \<Longrightarrow> take 512 (drop k' (put32 b (k + i) v)) = take 512 (drop k' b)"
proof -
  show "take 512 (drop k (put32 b (k + i) v)) = put32 (take 512 (drop k b)) i v"
    using assms by (intro nth_equalityI) (auto simp: put32_def put16_nth)
  assume "k' + 512 \<le> k \<or> k + 512 \<le> k'"
  then show "take 512 (drop k' (put32 b (k + i) v)) = take 512 (drop k' b)"
    using assms by (intro nth_equalityI) (auto simp: put32_def put16_nth)
qed

text \<open>The place of an entry.\<close>

lemma entry_place:
  assumes "fat_ok s" "cl < fat_total s"
  shows "w32 (cl * 4) div 512 = cl div 128" "w32 (cl * 4) mod 512 = 4 * (cl mod 128)" "cl div 128 < fat_size s" "4 * (cl mod 128) + 4 \<le> 512"
proof -
  have "cl * 4 < 2 ^ 32" using assms fat_total_val [OF assms(1)] fat_size_bound [OF assms(1)] by simp
  then have w: "w32 (cl * 4) = cl * 4" by (rule w32_id)
  show "w32 (cl * 4) div 512 = cl div 128" "w32 (cl * 4) mod 512 = 4 * (cl mod 128)" unfolding w by (simp_all add: mod_mult_mult2 [of cl 4 128, simplified] mult.commute)
  show "cl div 128 < fat_size s" using assms(2) fat_total_val [OF assms(1)] by (simp add: div_less_iff_less_mult)
  have "cl mod 128 < 128" by simp
  then show "4 * (cl mod 128) + 4 \<le> 512" by linarith
qed

lemma window_get:
  assumes ok: "fat_ok s" and b: "fat_cache s = Some b" and iw: "in_window k s" and i: "i + 4 \<le> 512"
  shows "get32 b ((k - fat_cache_start s) * 512 + i) = Some (le32 (fat_sector s k) i)"
    "fat_cache_start s \<le> k" "k < fat_cache_start s + fat_cache_sectors s" "512 * (k - fat_cache_start s) + 512 \<le> length b"
proof -
  have bd: "fat_cache_start s + fat_cache_sectors s \<le> fat_size s" "length b = 512 * fat_cache_sectors s" using fat_okD(11,12) [OF ok b] .
  then have "w32 (fat_cache_start s + fat_cache_sectors s) = fat_cache_start s + fat_cache_sectors s"
    using fat_size_bound [OF ok] by (intro w32_id) simp
  then show k: "fat_cache_start s \<le> k" "k < fat_cache_start s + fat_cache_sectors s" using iw by (simp_all add: in_window_def)
  then show l: "512 * (k - fat_cache_start s) + 512 \<le> length b" using bd(2) by linarith
  show "get32 b ((k - fat_cache_start s) * 512 + i) = Some (le32 (fat_sector s k) i)"
    using k l i b le32_take_drop [OF i l] by (simp add: get32_def fat_sector_def mult.commute)
qed

lemma read_entry_ok:
  assumes ok: "fat_ok s" and cl: "cl < fat_total s"
  shows "\<exists>s'. fat32_read_fat_entry cl s = Some (fat_view s cl, s') \<and> vol_keeps s s' \<and> fat_cache_sectors s' = fat_cache_sectors s
    \<and> (\<forall>k < fat_size s. fat_sector s' k = fat_sector s k) \<and> (fat_cache s = None \<longleftrightarrow> fat_cache s' = None)
    \<and> (fat_cache s' \<noteq> None \<longrightarrow> in_window (cl div 128) s')"
proof -
  note P = entry_place [OF ok cl] and bps = fat_okD(1) [OF ok]
  have v: "fat_view s cl = le32 (fat_sector s (cl div 128)) (4 * (cl mod 128)) mod 2 ^ 28" using cl by (simp add: fat_view_def)
  have kk: "vol_keeps s s" using ok by (simp add: vol_step_def)
  show ?thesis
  proof (cases "fat_cache s")
    case None
    have "fat_start_lba s + cl div 128 < 2 ^ 32" using fat_size_bound [OF ok] P(3) by linarith
    then have "w32 (fat_start_lba s + cl div 128) = fat_start_lba s + cl div 128" by (rule w32_id)
    then have "fat32_read_fat_entry cl s = Some (fat_view s cl, s)" unfolding v fat32_read_fat_entry_def Let_def bps P(1,2)
      using None P(4) fat_okD(9) [OF ok] by (simp add: get32_def fat_sector_def)
    then show ?thesis using None kk by auto
  next
    case (Some b)
    show ?thesis
    proof (cases "in_window (cl div 128) s")
      case True
      have "fat32_read_fat_entry cl s = Some (fat_view s cl, s)" unfolding v fat32_read_fat_entry_def Let_def bps P(1,2)
        using Some True window_get(1) [OF ok Some True P(4)] by simp
      then show ?thesis using Some True kk by auto
    next
      case False
      obtain s' b' where m: "move_window (cl div 128) s = Some s'" "vol_keeps s s'" "fat_cache s' = Some b'" "in_window (cl div 128) s'"
        "\<forall>k < fat_size s. fat_sector s' k = fat_sector s k"
        using move_window_ok [OF ok Some P(3)] by blast
      have ok': "fat_ok s'" and g: "geom s' = geom s" using m(2) by (simp_all add: vol_step_def)
      note W = window_get [OF ok' m(3,4) P(4)]
      have su: "sub32 (cl div 128) (fat_cache_start s') = cl div 128 - fat_cache_start s'" using W(2) by (simp add: sub32_le)
      have "length b' \<le> 512 * fat_size s" using fat_okD(11,12) [OF ok' m(3)] geomD(5) [OF g] by simp
      moreover have "fat_size s < 2097152" using fat_size_bound [OF ok] by simp
      ultimately have "(cl div 128 - fat_cache_start s') * 512 + 4 * (cl mod 128) < 4294967296" using W(4) P(4) by linarith
      then have "(cl div 128 - fat_cache_start s') * 512 + 4 * (cl mod 128) < 2 ^ 32" by simp
      then have w: "w32 ((cl div 128 - fat_cache_start s') * 512 + 4 * (cl mod 128)) = (cl div 128 - fat_cache_start s') * 512 + 4 * (cl mod 128)"
        by (rule w32_id)
      have "fat32_read_fat_entry cl s = Some (fat_view s cl, s')" unfolding v fat32_read_fat_entry_def Let_def bps P(1,2)
        using Some False m(1,3) su w W(1) m(5) P(3) by simp
      then show ?thesis using m Some geomD(9) [OF g] by auto
    qed
  qed
qed

lemma read_entry_view:
  assumes "fat_ok s" "cl < fat_total s" "fat32_read_fat_entry cl s = Some (v, s')"
  shows "v = fat_view s cl" "vol_keeps s s'"
  using read_entry_ok [OF assms(1,2)] assms(3) by auto

lemma entry_step:
  assumes ok: "fat_ok s" and cl: "cl < fat_total s" and ok': "fat_ok s'" and g: "geom s' = geom s"
    and sec: "fat_sector s' (cl div 128) = put32 (fat_sector s (cl div 128)) (4 * (cl mod 128)) v"
    and oth: "\<And>k. k < fat_size s \<Longrightarrow> k \<noteq> cl div 128 \<Longrightarrow> fat_sector s' k = fat_sector s k"
    and disk: "\<And>l. sectors s' l = sectors s l \<or> fat_area s l" and v: "v < 2 ^ 28"
  shows "vol_step s ((fat_view s)(cl := v)) (cluster_data s) s'"
proof -
  note P = entry_place [OF ok] and G = geomD [OF g]
  have "fat_view s' c = ((fat_view s)(cl := v)) c" for c
  proof (cases "c < fat_total s")
    case c: True
    show ?thesis
    proof (cases "c div 128 = cl div 128")
      case True
      have l: "4 * (cl mod 128) + 3 < length (fat_sector s (cl div 128))" using P(4) [OF cl] fat_sector_length [OF ok] by simp
      show ?thesis
      proof (cases "c = cl")
        case True
        then show ?thesis using c sec le32_put32 [OF l] v by (simp add: fat_view_def G)
      next
        case False
        then have "c mod 128 \<noteq> cl mod 128" using True by (metis div_mult_mod_eq)
        then have "4 * (c mod 128) + 4 \<le> 4 * (cl mod 128) \<or> 4 * (cl mod 128) + 4 \<le> 4 * (c mod 128)" by linarith
        then show ?thesis using c sec True False le32_put32_other by (simp add: fat_view_def G)
      qed
    next
      case False
      then have "c \<noteq> cl" by auto
      then show ?thesis using c oth [OF P(3) [OF c] False] by (simp add: fat_view_def G)
    qed
  next
    case False
    then show ?thesis using cl by (auto simp: fat_view_def G)
  qed
  then show ?thesis using ok' g table_data [OF ok g disk] by (auto simp: vol_step_def)
qed

lemma write_window_ok:
  assumes ok: "fat_ok s" and cl: "cl < fat_total s" and b: "fat_cache s = Some b" and iw: "in_window (cl div 128) s" and v: "v < 2 ^ 28"
  shows "\<exists>s'. write_window (cl div 128) (4 * (cl mod 128)) v s = Some s' \<and> vol_step s ((fat_view s)(cl := v)) (cluster_data s) s'"
proof -
  let ?k = "cl div 128" and ?i = "4 * (cl mod 128)" and ?st = "fat_cache_start s"
  note P = entry_place [OF ok cl]
  note W = window_get [OF ok b iw P(4)]
  let ?b = "put32 b (512 * (?k - ?st) + ?i) v"
  let ?s = "s\<lparr>fat_cache := Some ?b, fat_cache_dirty := True\<rparr>"
  have i: "512 * (?k - ?st) + ?i + 4 \<le> length b" using W(4) P(4) by linarith
  have w: "write_window ?k ?i v s = Some ?s"
    using i b fat_okD(1) [OF ok] by (simp add: write_window_def set32_def mult.commute)
  have ok': "fat_ok ?s" using ok b fat_okD(10-12) [OF ok b] unfolding fat_ok_def by simp
  have sec: "fat_sector ?s ?k = put32 (fat_sector s ?k) ?i v"
    using W(2,3) b put32_take_drop(1) [OF P(4) W(4)] by (simp add: fat_sector_def)
  have oth: "fat_sector ?s k = fat_sector s k" if "k \<noteq> ?k" for k
  proof (cases "?st \<le> k \<and> k < ?st + fat_cache_sectors s")
    case True
    then have "512 * (k - ?st) + 512 \<le> 512 * (?k - ?st) \<or> 512 * (?k - ?st) + 512 \<le> 512 * (k - ?st)" using that W(2) by linarith
    then show ?thesis using True b put32_take_drop(2) [OF P(4) W(4)] by (simp add: fat_sector_def)
  next
    case False
    then show ?thesis using b by (auto simp: fat_sector_def)
  qed
  have "vol_step s ((fat_view s)(cl := v)) (cluster_data s) ?s"
    by (rule entry_step [OF ok cl ok' _ sec oth _ v]) simp_all
  then show ?thesis using w by blast
qed

lemma write_copies_ok:
  assumes "fat_ok s" "sec < fat_size s" "idx + 4 \<le> 512" "c + n \<le> table_count s" "fat_cache s = None"
  shows "\<exists>f. write_copies n c sec idx v s = Some (s\<lparr>sectors := f\<rparr>) \<and> (\<forall>l. length (f l) = 512)
    \<and> (\<forall>l. f l = (if \<exists>d. c \<le> d \<and> d < c + n \<and> l = fat_start_lba s + d * fat_size s + sec then put32 (sectors s l) idx v else sectors s l))"
  using assms
proof (induction n arbitrary: c s)
  case 0
  then show ?case using fat_okD(9) [OF 0(1)] by (intro exI [of _ "sectors s"]) auto
next
  case (Suc n)
  note ok = Suc.prems(1)
  let ?l = "fat_start_lba s + c * fat_size s + sec"
  have "(c + 1) * fat_size s \<le> table_count s * fat_size s" using Suc.prems(4) by (intro mult_right_mono) simp_all
  then have "?l < cluster_heap_start_lba s" using fat_okD(5) [OF ok] Suc.prems(2) by (simp add: algebra_simps)
  then have w: "w32 ?l = ?l" using fat_size_bound [OF ok] by (intro w32_id) linarith
  let ?s = "blk_write ?l (put32 (sectors s ?l) idx v) s"
  have ok1: "fat_ok ?s" using ok Suc.prems(5) unfolding fat_ok_def blk_write_def by simp
  have "\<exists>f. write_copies n (c + 1) sec idx v ?s = Some (?s\<lparr>sectors := f\<rparr>) \<and> (\<forall>l. length (f l) = 512)
    \<and> (\<forall>l. f l = (if \<exists>d. c + 1 \<le> d \<and> d < c + 1 + n \<and> l = fat_start_lba ?s + d * fat_size ?s + sec then put32 (sectors ?s l) idx v else sectors ?s l))"
    by (rule Suc.IH [OF ok1]) (use Suc.prems in \<open>simp_all add: blk_write_def\<close>)
  then obtain f where f: "write_copies n (c + 1) sec idx v ?s = Some (?s\<lparr>sectors := f\<rparr>)" "\<And>l. length (f l) = 512"
    "\<And>l. f l = (if \<exists>d. c + 1 \<le> d \<and> d < c + 1 + n \<and> l = fat_start_lba s + d * fat_size s + sec then put32 (sectors ?s l) idx v else sectors ?s l)"
    by (auto simp: blk_write_def)
  have r: "write_copies (Suc n) c sec idx v s = Some (s\<lparr>sectors := f\<rparr>)"
    using w f(1) Suc.prems(3) fat_okD(9) [OF ok] by (simp add: set32_def blk_write_def)
  have ne: "d = c" if "fat_start_lba s + d * fat_size s + sec = ?l" for d using that fat_okD(7) [OF ok] by simp
  have "f l = (if \<exists>d. c \<le> d \<and> d < c + Suc n \<and> l = fat_start_lba s + d * fat_size s + sec then put32 (sectors s l) idx v else sectors s l)" for l
  proof (cases "l = ?l")
    case True
    have "d = c" if "l = fat_start_lba s + d * fat_size s + sec" for d using ne [OF that [symmetric, unfolded True]] .
    then have "\<not> (\<exists>d. c + 1 \<le> d \<and> d < c + 1 + n \<and> l = fat_start_lba s + d * fat_size s + sec)" by (metis Suc_eq_plus1 not_less_eq_eq order_refl)
    then have "f l = sectors ?s l" unfolding f(3) [of l] by (rule if_not_P)
    then have "f l = put32 (sectors s l) idx v" using True by (simp add: blk_write_def)
    moreover have "\<exists>d. c \<le> d \<and> d < c + Suc n \<and> l = fat_start_lba s + d * fat_size s + sec" using True by (intro exI [of _ c]) simp
    ultimately show ?thesis by simp
  next
    case False
    then have A: "sectors ?s l = sectors s l" by (simp add: blk_write_def)
    have B: "(\<exists>d. c + 1 \<le> d \<and> d < c + 1 + n \<and> l = fat_start_lba s + d * fat_size s + sec) \<longleftrightarrow>
      (\<exists>d. c \<le> d \<and> d < c + Suc n \<and> l = fat_start_lba s + d * fat_size s + sec)"
    proof -
      have "c + 1 \<le> d" if "c \<le> d" "l = fat_start_lba s + d * fat_size s + sec" for d using that False by (cases "d = c") auto
      then show ?thesis by (metis add.assoc add.commute add_leD1 plus_1_eq_Suc)
    qed
    show ?thesis unfolding f(3) [of l] A B ..
  qed
  then show ?case using r f(2) by blast
qed

lemma write_copies_step:
  assumes ok: "fat_ok s" and cl: "cl < fat_total s" and b: "fat_cache s = None" and v: "v < 2 ^ 28"
  shows "\<exists>s'. write_copies (table_count s) 0 (cl div 128) (4 * (cl mod 128)) v s = Some s' \<and> vol_step s ((fat_view s)(cl := v)) (cluster_data s) s'"
proof -
  let ?k = "cl div 128" and ?i = "4 * (cl mod 128)"
  note P = entry_place [OF ok cl]
  have le: "0 + table_count s \<le> table_count s" by simp
  from write_copies_ok [OF ok P(3,4) le b, of v] obtain f where f: "write_copies (table_count s) 0 ?k ?i v s = Some (s\<lparr>sectors := f\<rparr>)" "\<And>l. length (f l) = 512"
    "\<And>l. f l = (if \<exists>d < table_count s. l = fat_start_lba s + d * fat_size s + ?k then put32 (sectors s l) ?i v else sectors s l)"
    by auto
  let ?s = "s\<lparr>sectors := f\<rparr>"
  have ok': "fat_ok ?s" using ok b f(2) unfolding fat_ok_def by simp
  have z: "\<exists>d < table_count s. fat_start_lba s + ?k = fat_start_lba s + d * fat_size s + ?k" using fat_okD(4) [OF ok] by (intro exI [of _ 0]) simp
  have sec: "fat_sector ?s ?k = put32 (fat_sector s ?k) ?i v" using b f(3) [of "fat_start_lba s + ?k"] z by (simp add: fat_sector_def)
  have oth: "fat_sector ?s k = fat_sector s k" if "k < fat_size s" "k \<noteq> ?k" for k
  proof -
    have "k \<noteq> d * fat_size s + ?k" for d
    proof
      assume k: "k = d * fat_size s + ?k"
      then have "d = 0" using that(1) by (cases d) auto
      with k that(2) show False by simp
    qed
    then have "\<not> (\<exists>d < table_count s. fat_start_lba s + k = fat_start_lba s + d * fat_size s + ?k)" by simp
    then have "f (fat_start_lba s + k) = sectors s (fat_start_lba s + k)" unfolding f(3) [of "fat_start_lba s + k"] by (rule if_not_P)
    then show ?thesis using b by (simp add: fat_sector_def)
  qed
  have ar: "f l = sectors s l \<or> fat_area s l" for l
  proof (cases "\<exists>d < table_count s. l = fat_start_lba s + d * fat_size s + ?k")
    case True
    then obtain d where d: "d < table_count s" "l = fat_start_lba s + d * fat_size s + ?k" by blast
    have "(d + 1) * fat_size s \<le> table_count s * fat_size s" using d(1) by (intro mult_right_mono) simp_all
    then have "fat_area s l" using d(2) P(3) fat_okD(5) [OF ok] by (simp add: fat_area_def algebra_simps)
    then show ?thesis ..
  next
    case False
    then have "f l = sectors s l" unfolding f(3) [of l] by (rule if_not_P)
    then show ?thesis ..
  qed
  have "vol_step s ((fat_view s)(cl := v)) (cluster_data s) ?s"
    by (rule entry_step [OF ok cl ok' _ sec oth _ v]) (use ar in simp_all)
  then show ?thesis using f(1) by blast
qed

lemma vol_step_trans: "vol_step s f d s1 \<Longrightarrow> vol_step s1 f' d' s2 \<Longrightarrow> vol_step s f' d' s2"
  by (simp add: vol_step_def)

lemma write_entry_ok:
  assumes ok: "fat_ok s" and cl: "cl < fat_total s"
  shows "\<exists>s'. fat32_write_fat_entry cl val s = Some s' \<and> vol_step s ((fat_view s)(cl := val mod 2 ^ 28)) (cluster_data s) s'"
proof -
  note P = entry_place [OF ok cl] and bps = fat_okD(1) [OF ok]
  let ?v = "val mod 2 ^ 28"
  have v: "?v < 2 ^ 28" by simp
  show ?thesis
  proof (cases "fat_cache s")
    case None
    then have "fat32_write_fat_entry cl val s = write_copies (table_count s) 0 (cl div 128) (4 * (cl mod 128)) ?v s"
      unfolding fat32_write_fat_entry_def Let_def bps P(1,2) by simp
    then show ?thesis using write_copies_step [OF ok cl None v] by simp
  next
    case (Some b)
    show ?thesis
    proof (cases "in_window (cl div 128) s")
      case True
      then have "fat32_write_fat_entry cl val s = write_window (cl div 128) (4 * (cl mod 128)) ?v s"
        unfolding fat32_write_fat_entry_def Let_def bps P(1,2) using Some by simp
      then show ?thesis using write_window_ok [OF ok cl Some True v] by simp
    next
      case False
      obtain s1 where s1: "fat32_read_fat_entry cl s = Some (fat_view s cl, s1)" "vol_keeps s s1" "fat_cache s1 \<noteq> None" "in_window (cl div 128) s1"
        using read_entry_ok [OF ok cl] Some by auto
      obtain b1 where b1: "fat_cache s1 = Some b1" using s1(3) by blast
      have ok1: "fat_ok s1" and g: "geom s1 = geom s" and vw: "fat_view s1 = fat_view s" "cluster_data s1 = cluster_data s"
        using s1(2) by (simp_all add: vol_step_def)
      have cl1: "cl < fat_total s1" using cl geomD(11) [OF g] by simp
      have "fat32_write_fat_entry cl val s = write_window (cl div 128) (4 * (cl mod 128)) ?v s1"
        unfolding fat32_write_fat_entry_def Let_def bps P(1,2) using Some False s1(1,4) by simp
      then show ?thesis using write_window_ok [OF ok1 cl1 b1 s1(4) v] vol_step_trans [OF s1(2)] by (auto simp: vw)
    qed
  qed
qed

section \<open>Allocation and clusters\<close>

lemma END_mod: "FAT32_CLUSTER_END mod 2 ^ 28 = FAT32_CLUSTER_END"
  by (simp add: FAT32_CLUSTER_END_def)

definition first_free :: "fat32 \<Rightarrow> nat \<Rightarrow> nat \<Rightarrow> bool" where
  "first_free s lo c \<longleftrightarrow> lo \<le> c \<and> c < fat_total s \<and> fat_view s c = 0 \<and> (\<forall>x. lo \<le> x \<and> x < c \<longrightarrow> fat_view s x \<noteq> 0)"

lemma alloc_from_ok:
  assumes "fat_ok s"
  shows "\<exists>c s'. alloc_from lo (fat_total s) s = Some (c, s') \<and>
    ((first_free s lo c \<and> vol_step s ((fat_view s)(c := FAT32_CLUSTER_END)) (cluster_data s) s')
     \<or> (c = 0 \<and> (\<forall>x. lo \<le> x \<and> x < fat_total s \<longrightarrow> fat_view s x \<noteq> 0) \<and> vol_keeps s s'))"
  using assms
proof (induction "fat_total s - lo" arbitrary: lo s)
  case 0
  then show ?case by (subst alloc_from.simps) (auto simp: vol_step_def)
next
  case (Suc n)
  then have lo: "lo < fat_total s" by simp
  obtain s1 where s1: "fat32_read_fat_entry lo s = Some (fat_view s lo, s1)" "vol_keeps s s1" using read_entry_ok [OF Suc.prems lo] by blast
  have ok1: "fat_ok s1" and g: "geom s1 = geom s" and v: "fat_view s1 = fat_view s" "cluster_data s1 = cluster_data s"
    using s1(2) by (simp_all add: vol_step_def)
  have t: "fat_total s1 = fat_total s" by (rule geomD(11) [OF g])
  show ?case
  proof (cases "fat_view s lo = 0")
    case True
    have "lo < fat_total s1" using lo t by simp
    from write_entry_ok [OF ok1 this, of FAT32_CLUSTER_END] obtain s2 where
      s2: "fat32_write_fat_entry lo FAT32_CLUSTER_END s1 = Some s2" "vol_step s1 ((fat_view s)(lo := FAT32_CLUSTER_END)) (cluster_data s) s2"
      unfolding END_mod v by blast
    have "alloc_from lo (fat_total s) s = Some (lo, s2)" using lo s1(1) s2(1) True by (subst alloc_from.simps) simp
    moreover have "first_free s lo lo" using lo True by (simp add: first_free_def)
    ultimately show ?thesis using vol_step_trans [OF s1(2) s2(2)] by blast
  next
    case False
    have a: "alloc_from lo (fat_total s) s = alloc_from (lo + 1) (fat_total s1) s1" using lo s1(1) False t by (subst alloc_from.simps) simp
    have ff: "first_free s1 (lo + 1) c \<Longrightarrow> first_free s lo c" for c
      using False v(1) t by (auto simp: first_free_def) (metis Suc_leI le_neq_implies_less)
    have "n = fat_total s1 - (lo + 1)" using Suc.hyps(2) t by simp
    from Suc.hyps(1) [OF this ok1] obtain c s' where r: "alloc_from (lo + 1) (fat_total s1) s1 = Some (c, s')"
      "(first_free s1 (lo + 1) c \<and> vol_step s1 ((fat_view s1)(c := FAT32_CLUSTER_END)) (cluster_data s1) s')
       \<or> (c = 0 \<and> (\<forall>x. lo + 1 \<le> x \<and> x < fat_total s1 \<longrightarrow> fat_view s1 x \<noteq> 0) \<and> vol_keeps s1 s')"
      by blast
    have all: "\<forall>x. lo \<le> x \<and> x < fat_total s \<longrightarrow> fat_view s x \<noteq> 0" if "\<forall>x. lo + 1 \<le> x \<and> x < fat_total s1 \<longrightarrow> fat_view s1 x \<noteq> 0"
      using that False v(1) t by (metis Suc_eq_plus1 Suc_leI le_neq_implies_less)
    show ?thesis unfolding a using r ff all vol_step_trans [OF s1(2)] unfolding v by blast
  qed
qed

lemma allocate_ok:
  assumes "fat_ok s"
  shows "\<exists>c s'. fat32_allocate_cluster s = Some (c, s') \<and>
    ((first_free s 2 c \<and> vol_step s ((fat_view s)(c := FAT32_CLUSTER_END)) (cluster_data s) s')
     \<or> (c = 0 \<and> (\<forall>x. 2 \<le> x \<and> x < fat_total s \<longrightarrow> fat_view s x \<noteq> 0) \<and> vol_keeps s s'))"
  unfolding fat32_allocate_cluster_def by (rule alloc_from_ok [OF assms])

lemma data_cluster_bounds: "fat_ok s \<Longrightarrow> data_cluster s c \<Longrightarrow> 2 \<le> c \<and> c < FAT32_CLUSTER_END"
  using fat_okD(8) [of s] fat_total_val [of s] by (simp add: data_cluster_def)

lemma cluster_data_length: "fat_ok s \<Longrightarrow> data_cluster s c \<Longrightarrow> length (cluster_data s c) = cluster_size s"
  by (simp add: cluster_data_def blk_read_length fat_okD cluster_size_def)

lemma read_cluster_ok: "fat_ok s \<Longrightarrow> data_cluster s c \<Longrightarrow> fat32_read_cluster c s = Some (cluster_data s c)"
  using data_cluster_bounds [of s c] by (simp add: fat32_read_cluster_def fat_okD(1) cluster_data_def)

lemma clusters_apart:
  assumes ok: "fat_ok s" and c: "data_cluster s c" and d: "data_cluster s d" and ne: "c \<noteq> d" and j: "j < sectors_per_cluster s"
  shows "cluster_lba d s + j < cluster_lba c s \<or> cluster_lba c s + sectors_per_cluster s \<le> cluster_lba d s + j"
proof -
  have lc: "cluster_lba c s = cluster_heap_start_lba s + (c - 2) * sectors_per_cluster s" by (rule cluster_lba_ok(1) [OF ok c j])
  have ld: "cluster_lba d s = cluster_heap_start_lba s + (d - 2) * sectors_per_cluster s" by (rule cluster_lba_ok(1) [OF ok d j])
  show ?thesis
  proof (cases "c < d")
    case True
    then have "(c - 2 + 1) * sectors_per_cluster s \<le> (d - 2) * sectors_per_cluster s"
      using c by (intro mult_right_mono) (auto simp: data_cluster_def)
    then show ?thesis unfolding lc ld by (simp add: algebra_simps)
  next
    case False
    then have "(d - 2 + 1) * sectors_per_cluster s \<le> (c - 2) * sectors_per_cluster s"
      using d ne by (intro mult_right_mono) (auto simp: data_cluster_def)
    then show ?thesis unfolding lc ld using j by (simp add: algebra_simps)
  qed
qed

lemma write_cluster_ok:
  assumes ok: "fat_ok s" and c: "data_cluster s c" and len: "length buf = cluster_size s"
  shows "\<exists>s'. fat32_write_cluster c buf s = Some s' \<and> vol_step s (fat_view s) ((cluster_data s)(c := buf)) s'"
proof -
  let ?n = "sectors_per_cluster s" and ?l = "cluster_lba c s"
  have n: "0 < ?n" by (rule fat_okD(2) [OF ok])
  note L = cluster_lba_ok [OF ok c]
  have l512: "length buf = 512 * ?n" using len fat_okD(1) [OF ok] by (simp add: cluster_size_def)
  let ?f = "\<lambda>l. if ?l + 0 \<le> l \<and> l < ?l + 0 + ?n then take 512 (drop (512 * (l - ?l)) buf) else sectors s l"
  let ?s = "s\<lparr>sectors := ?f\<rparr>"
  have w: "fat32_write_cluster c buf s = Some ?s"
    using data_cluster_bounds [OF ok c] blk_write_from_ok [OF fat_okD(1) [OF ok], of 0 ?n buf ?l] l512 L(3) [OF n] by (simp add: fat32_write_cluster_def)
  have out: "?f l = sectors s l" if "l < cluster_heap_start_lba s" for l using that L(4) [OF n] by auto
  have fl: "length (?f l) = 512" for l
  proof (cases "?l + 0 \<le> l \<and> l < ?l + 0 + ?n")
    case True
    then have "512 * (l - ?l) + 512 \<le> length buf" using l512 by linarith
    then show ?thesis using True by simp
  next
    case False
    then have "?f l = sectors s l" by (rule if_not_P)
    then show ?thesis using fat_okD(9) [OF ok, of l] by simp
  qed
  have tab: "?f (fat_start_lba s + k) = sectors s (fat_start_lba s + k)" if "k < fat_size s" for k
    using out that fat_size_bound [OF ok] by simp
  have ok': "fat_ok ?s"
  proof -
    have "?f (fat_start_lba s + fat_cache_start s + j) = sectors s (fat_start_lba s + fat_cache_start s + j)"
      if "fat_cache s = Some b" "j < fat_cache_sectors s" for b j
    proof -
      have "fat_cache_start s + j < fat_size s" using fat_okD(11) [OF ok that(1)] that(2) by linarith
      from tab [OF this] show ?thesis unfolding add.assoc .
    qed
    then show ?thesis using ok fl unfolding fat_ok_def by (auto split: option.splits simp del: if_split)
  qed
  have fs: "fat_sector ?s k = fat_sector s k" if "k < fat_size s" for k
    unfolding fat_sector_def using tab [OF that] by (auto split: option.splits)
  have "fat_view ?s x = fat_view s x" for x
  proof (cases "x < fat_total s")
    case True
    then have "x div 128 < fat_size s" using fat_total_val [OF ok] by (simp add: div_less_iff_less_mult)
    then show ?thesis using fs True by (simp add: fat_view_def fat_total_def)
  qed (simp add: fat_view_def fat_total_def)
  moreover have "cluster_data ?s x = ((cluster_data s)(c := buf)) x" for x
  proof (cases "data_cluster s x")
    case x: True
    define s' where "s' = ?s"
    have g: "geom s' = geom s" and sec: "sectors s' = ?f" by (simp_all add: s'_def)
    have b: "cluster_data ?s x = concat (map (\<lambda>i. ?f (w32 (cluster_lba x s + i))) [0..<?n])"
      unfolding s'_def [symmetric] cluster_data_def data_cluster_def blk_read_def geomD [OF g] sec
      using x by (simp only: data_cluster_def if_True simp_thms)
    show ?thesis
    proof (cases "x = c")
      case True
      have m: "map (\<lambda>i. ?f (w32 (?l + i))) [0..<?n] = map (\<lambda>i. take 512 (drop (512 * i) buf)) [0..<?n]"
        using L(2) by simp
      show ?thesis unfolding b unfolding True m sectors_of_buffer [OF l512] by simp
    next
      case False
      have m: "map (\<lambda>i. ?f (w32 (cluster_lba x s + i))) [0..<?n] = map (\<lambda>i. sectors s (w32 (cluster_lba x s + i))) [0..<?n]"
        using cluster_lba_ok(2) [OF ok x] clusters_apart [OF ok c x False [symmetric]] by force
      show ?thesis unfolding b m using x False by (simp add: cluster_data_def blk_read_def)
    qed
  next
    case False
    then show ?thesis using c by (auto simp: cluster_data_def data_cluster_def fat_total_def)
  qed
  ultimately have "vol_step s (fat_view s) ((cluster_data s)(c := buf)) ?s" using ok' by (auto simp: vol_step_def)
  then show ?thesis using w by blast
qed

text \<open>
  C37. The table of a volume is a map from clusters to links, and its clusters a map to their bytes, whatever the window in memory is on: an
  entry is read from the map, a write changes it at one place and the bytes of no cluster, writing a cluster changes
  the bytes of that one only, writing the window back changes neither, and a new cluster is the first that is free.
\<close>

theorem fat_volume_refines:
  assumes "fat_ok s" "cl < fat_total s" "data_cluster s c" "length buf = cluster_size s"
  shows "(\<exists>s'. fat32_read_fat_entry cl s = Some (fat_view s cl, s') \<and> vol_keeps s s')
    \<and> (\<exists>s'. fat32_write_fat_entry cl v s = Some s' \<and> vol_step s ((fat_view s)(cl := v mod 2 ^ 28)) (cluster_data s) s')
    \<and> (\<exists>s'. fat32_flush_fat_cache s = Some s' \<and> vol_keeps s s')
    \<and> fat32_read_cluster c s = Some (cluster_data s c)
    \<and> (\<exists>s'. fat32_write_cluster c buf s = Some s' \<and> vol_step s (fat_view s) ((cluster_data s)(c := buf)) s')
    \<and> (\<exists>a s'. fat32_allocate_cluster s = Some (a, s') \<and>
        (if \<exists>x. data_cluster s x \<and> fat_view s x = 0
         then data_cluster s a \<and> fat_view s a = 0 \<and> (\<forall>x. data_cluster s x \<and> fat_view s x = 0 \<longrightarrow> a \<le> x)
           \<and> vol_step s ((fat_view s)(a := FAT32_CLUSTER_END)) (cluster_data s) s'
         else a = 0 \<and> vol_keeps s s'))"
proof (intro conjI)
  show "\<exists>s'. fat32_read_fat_entry cl s = Some (fat_view s cl, s') \<and> vol_keeps s s'" using read_entry_ok [OF assms(1,2)] by blast
  show "\<exists>s'. fat32_write_fat_entry cl v s = Some s' \<and> vol_step s ((fat_view s)(cl := v mod 2 ^ 28)) (cluster_data s) s'"
    by (rule write_entry_ok [OF assms(1,2)])
  show "\<exists>s'. fat32_flush_fat_cache s = Some s' \<and> vol_keeps s s'" using fat_flush_ok [OF assms(1)] by blast
  show "fat32_read_cluster c s = Some (cluster_data s c)" by (rule read_cluster_ok [OF assms(1,3)])
  show "\<exists>s'. fat32_write_cluster c buf s = Some s' \<and> vol_step s (fat_view s) ((cluster_data s)(c := buf)) s'"
    by (rule write_cluster_ok [OF assms(1,3,4)])
  show "\<exists>a s'. fat32_allocate_cluster s = Some (a, s') \<and>
        (if \<exists>x. data_cluster s x \<and> fat_view s x = 0
         then data_cluster s a \<and> fat_view s a = 0 \<and> (\<forall>x. data_cluster s x \<and> fat_view s x = 0 \<longrightarrow> a \<le> x)
           \<and> vol_step s ((fat_view s)(a := FAT32_CLUSTER_END)) (cluster_data s) s'
         else a = 0 \<and> vol_keeps s s')"
    using allocate_ok [OF assms(1)] unfolding data_cluster_def first_free_def by (smt (verit, best) not_le)
qed

section \<open>A small volume\<close>

text \<open>A table of one sector, the root directory in cluster 2 with one file of 3 bytes in cluster 3.\<close>

definition demo_fat :: "u8 list" where
  "demo_fat = put32 (put32 (replicate 512 0) 8 FAT32_CLUSTER_END) 12 FAT32_CLUSTER_END"

definition demo_entry :: "u8 list" where
  "demo_entry = sfn_entry (fat32_build_name_key (ascii ''A'')) 0x20 3 3"

definition demo_sector :: "nat \<Rightarrow> u8 list" where
  "demo_sector l = (if l = 1 then demo_fat else if l = 2 then demo_entry @ replicate 480 0 else if l = 3 then [1, 2, 3] @ replicate 509 0 else replicate 512 0)"

definition demo_vol :: fat32 where
  "demo_vol = \<lparr>read_only = False, bytes_per_sector = 512, sectors_per_cluster = 1, table_count = 1, fat_size = 1, root_cluster = 2,
     fat_start_lba = 1, cluster_heap_start_lba = 2, fat_cache = Some demo_fat, fat_cache_start = 0, fat_cache_sectors = 1, fat_cache_dirty = False,
     sectors = demo_sector\<rparr>"

lemma demo_key0: "fat32_build_name_key (ascii ''A'') ! 0 = 0x41"
  by code_simp

lemma demo_entry_sel:
  "length demo_entry = 32" "demo_entry ! 0 = 0x41" "e_attr demo_entry = 0x20" "e_name demo_entry = fat32_build_name_key (ascii ''A'')"
  unfolding demo_entry_def
  using sfn_entry_sel(1,2,3,4) [OF build_name_key_length [of "ascii ''A''"]] demo_key0
  by (simp_all del: One_nat_def)

lemma demo_sector_length: "length (demo_sector l) = 512"
  by (simp add: demo_sector_def demo_fat_def demo_entry_sel)

lemma demo_ok: "fat_ok demo_vol"
  unfolding fat_ok_def by (simp add: demo_vol_def demo_sector_length demo_sector_def demo_entry_sel demo_fat_def FAT32_CLUSTER_END_def)

lemma demo_geom: "fat_total demo_vol = 128" "cluster_size demo_vol = 512" "data_cluster demo_vol c \<longleftrightarrow> 2 \<le> c \<and> c < 128" "read_only demo_vol = False"
  using fat_total_val [OF demo_ok] by (simp_all add: demo_vol_def cluster_size_def data_cluster_def)

lemma le32_zeros: "i + 4 \<le> n \<Longrightarrow> le32 (replicate n 0) i = 0"
  by (simp add: le32_def le16_def)

lemma demo_view: "c < 128 \<Longrightarrow> fat_view demo_vol c = (if c = 2 \<or> c = 3 then FAT32_CLUSTER_END else 0)"
proof -
  assume c: "c < 128"
  have s: "fat_sector demo_vol 0 = demo_fat" by (simp add: fat_sector_def demo_vol_def demo_fat_def)
  have "le32 demo_fat (4 * c) = (if c = 2 \<or> c = 3 then FAT32_CLUSTER_END else 0)"
  proof -
    have "c = 2 \<or> c = 3 \<or> 4 * c + 4 \<le> 8 \<or> 16 \<le> 4 * c" by linarith
    then show ?thesis
    proof (elim disjE)
      assume "c = 2" then show ?thesis by (simp add: demo_fat_def le32_put32_other le32_put32 FAT32_CLUSTER_END_def)
    next
      assume "c = 3" then show ?thesis by (simp add: demo_fat_def le32_put32 FAT32_CLUSTER_END_def)
    next
      assume a: "4 * c + 4 \<le> 8"
      then show ?thesis using le32_put32_other [of "4 * c" 12] le32_put32_other [of "4 * c" 8] le32_zeros [of "4 * c" 512]
        by (auto simp: demo_fat_def)
    next
      assume a: "16 \<le> 4 * c"
      then show ?thesis using le32_put32_other [of "4 * c" 12] le32_put32_other [of "4 * c" 8] le32_zeros [of "4 * c" 512] c
        by (auto simp: demo_fat_def)
    qed
  qed
  then show ?thesis using c s by (simp add: fat_view_def demo_geom FAT32_CLUSTER_END_def)
qed

lemma demo_data: "cluster_data demo_vol 2 = demo_entry @ replicate 480 0" "cluster_data demo_vol 3 = [1, 2, 3] @ replicate 509 0"
proof -
  have l: "cluster_lba 2 demo_vol = 2" "cluster_lba 3 demo_vol = 3" "sectors_per_cluster demo_vol = 1" "sectors demo_vol = demo_sector"
    by (simp_all add: cluster_lba_def demo_vol_def w32_def)
  show "cluster_data demo_vol 2 = demo_entry @ replicate 480 0" "cluster_data demo_vol 3 = [1, 2, 3] @ replicate 509 0"
    by (simp_all add: cluster_data_def demo_geom blk_read_def l w32_def demo_sector_def)
qed

lemma END_nz: "FAT32_CLUSTER_END \<noteq> 0"
  by (simp add: FAT32_CLUSTER_END_def)

lemma fat_volume_refines_witness:
  "(\<exists>s'. fat32_read_fat_entry 3 demo_vol = Some (FAT32_CLUSTER_END, s')) \<and> (\<exists>s'. fat32_allocate_cluster demo_vol = Some (4, s'))
    \<and> (\<exists>s'. fat32_write_fat_entry 3 4 demo_vol = Some s' \<and> fat_view s' 3 = 4)"
proof -
  have b: "3 < fat_total demo_vol" "data_cluster demo_vol 3" "length (replicate 512 0) = cluster_size demo_vol" by (simp_all add: demo_geom)
  note V = fat_volume_refines [OF demo_ok b, of 4]
  have f: "data_cluster demo_vol x \<and> fat_view demo_vol x = 0 \<longleftrightarrow> 4 \<le> x \<and> x < 128" for x
    using demo_view [of x] END_nz by (auto simp: demo_geom split: if_splits)
  have "\<exists>x. data_cluster demo_vol x \<and> fat_view demo_vol x = 0" unfolding f by (rule exI [of _ 4]) simp
  then obtain a s' where a: "fat32_allocate_cluster demo_vol = Some (a, s')" "4 \<le> a" "\<forall>x. 4 \<le> x \<and> x < 128 \<longrightarrow> a \<le> x"
    using V f by (smt (verit))
  then have "a = 4" by (metis (no_types) le_antisym le_refl numeral_less_iff semiring_norm(68,76,78,81))
  then have "\<exists>s'. fat32_allocate_cluster demo_vol = Some (4, s')" using a by blast
  moreover have "\<exists>s'. fat32_read_fat_entry 3 demo_vol = Some (FAT32_CLUSTER_END, s')" using V demo_view [of 3] by auto
  moreover have "\<exists>s'. fat32_write_fat_entry 3 4 demo_vol = Some s' \<and> fat_view s' 3 = 4" using V by (auto simp: vol_step_def)
  ultimately show ?thesis by blast
qed

end
