(* ===== verification/Fatfile.thy ===== *)
theory Fatfile
  imports Fatvol
begin

text \<open>
  Chains of clusters, reading a file through them, and growing and writing them.
\<close>

section \<open>Chains\<close>

text \<open>\<open>fchain s c cls\<close>: the links of the table lead from \<open>c\<close> through the clusters \<open>cls\<close> to the end of a chain.\<close>

fun fchain :: "fat32 \<Rightarrow> nat \<Rightarrow> nat list \<Rightarrow> bool" where
  "fchain s c [] \<longleftrightarrow> FAT32_CLUSTER_END \<le> c"
| "fchain s c (x # xs) \<longleftrightarrow> c = x \<and> data_cluster s x \<and> fchain s (fat_view s x) xs"

definition content :: "fat32 \<Rightarrow> nat list \<Rightarrow> u8 list" where
  "content s cls = concat (map (cluster_data s) cls)"

lemma vol_stepD:
  assumes "vol_step s f d s'"
  shows "fat_ok s'" "geom s' = geom s" "fat_view s' = f" "cluster_data s' = d" "fat_total s' = fat_total s" "data_cluster s' = data_cluster s"
    "cluster_size s' = cluster_size s" "sectors_per_cluster s' = sectors_per_cluster s" "max_run s' = max_run s" "read_only s' = read_only s"
  using assms geomD [of s' s] by (auto simp: vol_step_def data_cluster_def fun_eq_iff max_run_def)

lemma keeps_content: "vol_keeps s s' \<Longrightarrow> content s' cls = content s cls"
  by (simp add: content_def vol_stepD(4))

lemma fchain_cong: "\<lbrakk>fat_total s' = fat_total s; \<And>x. x \<in> set cls \<Longrightarrow> fat_view s' x = fat_view s x\<rbrakk> \<Longrightarrow> fchain s' c cls = fchain s c cls"
  by (induction cls arbitrary: c) (auto simp: data_cluster_def)

lemma keeps_fchain: "vol_keeps s s' \<Longrightarrow> fchain s' c cls = fchain s c cls"
  by (rule fchain_cong) (simp_all add: vol_stepD)

lemma fchain_data: "fchain s c cls \<Longrightarrow> x \<in> set cls \<Longrightarrow> data_cluster s x"
  by (induction cls arbitrary: c) auto

lemma fchain_drop: "fchain s c cls \<Longrightarrow> n < length cls \<Longrightarrow> fchain s (cls ! n) (drop n cls)"
proof (induction cls arbitrary: c n)
  case (Cons x xs)
  show ?case
  proof (cases n)
    case (Suc m)
    then show ?thesis using Cons.IH [of "fat_view s x" m] Cons.prems by simp
  qed (use Cons.prems in simp)
qed simp

lemma fchain_next: "fchain s c cls \<Longrightarrow> n < length cls \<Longrightarrow> fchain s (fat_view s (cls ! n)) (drop (Suc n) cls)"
  using fchain_drop [of s c cls n] by (simp add: Cons_nth_drop_Suc [symmetric])

lemma content_length: "fat_ok s \<Longrightarrow> \<forall>x \<in> set cls. data_cluster s x \<Longrightarrow> length (content s cls) = length cls * cluster_size s"
  by (induction cls) (simp_all add: content_def cluster_data_length)

lemma content_append: "content s (xs @ ys) = content s xs @ content s ys"
  by (simp add: content_def)

lemma data_total: "data_cluster s x \<Longrightarrow> x < fat_total s"
  by (simp add: data_cluster_def)

lemma read_link:
  assumes "fat_ok s" "data_cluster s x"
  shows "\<exists>s'. fat32_read_fat_entry x s = Some (fat_view s x, s') \<and> vol_keeps s s'"
  using read_entry_ok [OF assms(1) data_total [OF assms(2)]] by blast

lemma vol_keeps_trans: "vol_keeps s s1 \<Longrightarrow> vol_keeps s1 s2 \<Longrightarrow> vol_keeps s s2"
  by (simp add: vol_step_def)

lemma vol_keeps_refl: "fat_ok s \<Longrightarrow> vol_keeps s s"
  by (simp add: vol_step_def)

section \<open>Reading\<close>

lemma skip_clusters_ok:
  assumes "fat_ok s" "fchain s c cls" "n < length cls"
  shows "\<exists>s'. skip_clusters n c s = Some (Some (cls ! n), s') \<and> vol_keeps s s'"
  using assms
proof (induction n arbitrary: c cls s)
  case 0
  then show ?case by (cases cls) (auto simp: vol_keeps_refl)
next
  case (Suc n)
  obtain x y ys where x: "cls = x # y # ys" "c = x" using Suc.prems by (cases cls; cases "tl cls") auto
  have f: "data_cluster s x" "fchain s (fat_view s x) (y # ys)" "fat_view s x = y" "data_cluster s y" using Suc.prems(2) x by auto
  obtain s1 where s1: "fat32_read_fat_entry x s = Some (y, s1)" "vol_keeps s s1" using read_link [OF Suc.prems(1) f(1)] f(3) by auto
  have "fchain s1 y (y # ys)" unfolding keeps_fchain [OF s1(2)] using f by simp
  from Suc.IH [OF vol_stepD(1) [OF s1(2)] this] Suc.prems(3) x obtain s2 where
    s2: "skip_clusters n y s1 = Some (Some ((y # ys) ! n), s2)" "vol_keeps s1 s2" by auto
  show ?case using x s1 s2 data_cluster_bounds [OF Suc.prems(1) f(4)] vol_keeps_trans [OF s1(2) s2(2)] by simp
qed

lemma resolve_chain_ok:
  assumes "fat_ok s" "fchain s c cls"
  shows "\<exists>s'. fat32_resolve_chain lim c s = Some (take lim cls, s') \<and> vol_keeps s s'"
  using assms
proof (induction lim arbitrary: c cls s)
  case 0
  then show ?case by (simp add: vol_keeps_refl)
next
  case (Suc lim)
  show ?case
  proof (cases cls)
    case Nil
    then show ?thesis using Suc.prems by (simp add: vol_keeps_refl)
  next
    case (Cons x xs)
    then have f: "c = x" "data_cluster s x" "fchain s (fat_view s x) xs" using Suc.prems(2) by auto
    obtain s1 where s1: "fat32_read_fat_entry x s = Some (fat_view s x, s1)" "vol_keeps s s1" using read_link [OF Suc.prems(1) f(2)] by auto
    have "fchain s1 (fat_view s x) xs" unfolding keeps_fchain [OF s1(2)] by (rule f(3))
    from Suc.IH [OF vol_stepD(1) [OF s1(2)] this] obtain s2 where
      s2: "fat32_resolve_chain lim (fat_view s x) s1 = Some (take lim xs, s2)" "vol_keeps s1 s2" by auto
    show ?thesis using Cons f s1 s2 data_cluster_bounds [OF Suc.prems(1) f(2)] vol_keeps_trans [OF s1(2) s2(2)] by simp
  qed
qed

lemma run_length_ok:
  assumes "cs \<noteq> []"
  shows "0 < run_length m cs \<and> run_length m cs \<le> length cs \<and> (0 < m \<longrightarrow> run_length m cs \<le> m) \<and> (\<forall>i < run_length m cs. cs ! i = hd cs + i)"
  using assms
proof (induction m cs rule: run_length.induct)
  case (1 m c d cs)
  show ?case
  proof (cases "d = c + 1 \<and> 1 < m")
    case True
    then have ih: "0 < run_length (m - 1) (d # cs)" "run_length (m - 1) (d # cs) \<le> length (d # cs)" "run_length (m - 1) (d # cs) \<le> m - 1"
      "\<forall>i < run_length (m - 1) (d # cs). (d # cs) ! i = d + i" using 1 by auto
    have "(c # d # cs) ! i = c + i" if "i < Suc (run_length (m - 1) (d # cs))" for i
      using that ih(4) True by (cases i) auto
    then show ?thesis using True ih by auto
  next
    case False
    then have "run_length m (c # d # cs) = 1" by (auto simp del: One_nat_def)
    then show ?thesis by simp
  qed
qed simp_all

lemma blk_read_append: "blk_read lba (m + n) s = blk_read lba m s @ blk_read (w32 (lba + m)) n s"
proof -
  have "w32 (lba + m + i) = w32 (w32 (lba + m) + i)" for i by (simp add: w32_def mod_add_left_eq)
  then show ?thesis by (induction n) (simp_all add: blk_read_def add.assoc)
qed

lemma run_read:
  assumes "fat_ok s" "\<forall>i < r. data_cluster s (c + i)"
  shows "blk_read (cluster_lba c s) (r * sectors_per_cluster s) s = content s (map (\<lambda>i. c + i) [0..<r])"
  using assms
proof (induction r)
  case (Suc r)
  have d: "data_cluster s c" "data_cluster s (c + r)" using Suc.prems(2) [rule_format, of 0] Suc.prems(2) by auto
  have n: "0 < sectors_per_cluster s" by (rule fat_okD(2) [OF Suc.prems(1)])
  have e: "cluster_lba c s + r * sectors_per_cluster s = cluster_lba (c + r) s"
  proof -
    have "c + r - 2 = c - 2 + r" using d(1) by (simp add: data_cluster_def)
    then show ?thesis using cluster_lba_ok(1) [OF Suc.prems(1) d(1) n] cluster_lba_ok(1) [OF Suc.prems(1) d(2) n]
      by (simp add: add_mult_distrib)
  qed
  then have l: "w32 (cluster_lba c s + r * sectors_per_cluster s) = cluster_lba (c + r) s"
    using cluster_lba_ok(2) [OF Suc.prems(1) d(2) n] w32_id [of "cluster_lba (c + r) s"] cluster_lba_ok(3) [OF Suc.prems(1) d(2) n] n by simp
  have "blk_read (cluster_lba c s) (Suc r * sectors_per_cluster s) s =
    blk_read (cluster_lba c s) (r * sectors_per_cluster s) s @ blk_read (cluster_lba (c + r) s) (sectors_per_cluster s) s"
    using blk_read_append [of "cluster_lba c s" "r * sectors_per_cluster s" "sectors_per_cluster s" s] l by (simp add: add.commute)
  then show ?case using Suc d by (simp add: content_def cluster_data_def)
qed (simp add: blk_read_def content_def)

lemma read_runs_ok:
  assumes "fat_ok s" "\<forall>x \<in> set cls. data_cluster s x" "cofs < cluster_size s"
  shows "read_runs cls cofs left s = take left (drop cofs (content s cls))"
  using assms
proof (induction cls cofs left s rule: read_runs.induct)
  case (1 cls cofs left s)
  show ?case
  proof (cases "left = 0 \<or> cls = []")
    case True
    then show ?thesis by (subst read_runs.simps) (auto simp: content_def)
  next
    case False
    define run where "run = run_length (max_run s) cls"
    have sp: "0 < sectors_per_cluster s" "sectors_per_cluster s \<le> 255" by (rule fat_okD(2,3) [OF 1(2)])+
    have m: "max_run s = 255 div sectors_per_cluster s" "0 < max_run s" using sp by (auto simp: max_run_def div_greater_zero_iff)
    have r: "0 < run" "run \<le> length cls" "run \<le> max_run s" "\<forall>i < run. cls ! i = hd cls + i"
      using run_length_ok [of cls "max_run s"] False m(2) by (auto simp: run_def)
    have "run * sectors_per_cluster s \<le> 255 div sectors_per_cluster s * sectors_per_cluster s" using r(3) m(1) by simp
    then have md: "run * sectors_per_cluster s mod 256 = run * sectors_per_cluster s"
      using div_times_less_eq_dividend [of 255 "sectors_per_cluster s"] by (intro mod_less) linarith
    have tk: "take run cls = map (\<lambda>i. hd cls + i) [0..<run]" using r(2,4) by (intro nth_equalityI) auto
    have dc: "data_cluster s (hd cls + i)" if "i < run" for i
      using r(2) r(4) [rule_format, OF that] 1(3) that by (metis nth_mem order_less_le_trans)
    have data: "blk_read (cluster_lba (hd cls) s) (run * sectors_per_cluster s mod 256) s = content s (take run cls)"
      unfolding md tk by (rule run_read [OF 1(2)]) (use dc in blast)
    have len: "length (content s (take run cls)) = run * cluster_size s"
    proof -
      have "\<forall>x \<in> set (take run cls). data_cluster s x" using 1(3) by (auto dest: in_set_takeD)
      from content_length [OF 1(2) this] show ?thesis using r(2) by (simp add: min_def)
    qed
    let ?rb = "if run * cluster_size s - cofs > left then left else run * cluster_size s - cofs"
    have cs: "cofs < run * cluster_size s" using 1(4) r(1) by (metis (no_types) Suc_leI mult.commute mult_le_mono2 nat_mult_1_right order_less_le_trans One_nat_def)
    have rec: "read_runs (drop run cls) 0 (left - ?rb) s = take (left - ?rb) (drop 0 (content s (drop run cls)))"
    proof (rule 1(1) [OF False run_def refl refl])
      show "\<forall>x \<in> set (drop run cls). data_cluster s x" using 1(3) by (auto dest: in_set_dropD)
      show "0 < cluster_size s" using 1(4) by simp
    qed (rule 1(2))
    have u: "read_runs cls cofs left s =
      (if cofs = 0 \<and> ?rb = run * cluster_size s then content s (take run cls) else take ?rb (drop cofs (content s (take run cls))))
        @ read_runs (drop run cls) 0 (left - ?rb) s"
      using False unfolding read_runs.simps [of cls cofs left s] run_def [symmetric] data Let_def by simp
    have "(if cofs = 0 \<and> ?rb = run * cluster_size s then content s (take run cls) else take ?rb (drop cofs (content s (take run cls))))
      = take ?rb (drop cofs (content s (take run cls)))" using len by auto
    also have "take ?rb (drop cofs (content s (take run cls))) = take left (drop cofs (content s (take run cls)))" using len by auto
    finally have v: "read_runs cls cofs left s = take left (drop cofs (content s (take run cls))) @ take (left - ?rb) (content s (drop run cls))"
      unfolding u rec by simp
    have lr: "left - ?rb = left - length (drop cofs (content s (take run cls)))" using len by auto
    have "content s cls = content s (take run cls) @ content s (drop run cls)" using content_append [of s "take run cls" "drop run cls"] by simp
    then have "take left (drop cofs (content s cls)) = take left (drop cofs (content s (take run cls)) @ content s (drop run cls))"
      using cs len by simp
    then show ?thesis unfolding v lr by simp
  qed
qed

lemma fchain_rest:
  assumes "fchain s c cls" "0 < n" "n \<le> length cls"
  shows "fchain s (fat_view s (cls ! (n - 1))) (drop n cls)"
  using fchain_next [OF assms(1), of "n - 1"] assms(2,3) by simp

lemma read_loop_ok:
  assumes "fat_ok s" "fchain s c cls" "cofs < cluster_size s" "left + cofs \<le> length cls * cluster_size s"
  shows "\<exists>s'. read_loop c cofs left s = Some (take left (drop cofs (content s cls)), s') \<and> vol_keeps s s'"
  using assms
proof (induction "length cls" arbitrary: c cls cofs left s rule: less_induct)
  case less
  note ok = less.prems(1) and ch = less.prems(2)
  show ?case
  proof (cases "left = 0")
    case True
    then show ?thesis using ok by (subst read_loop.simps) (simp add: vol_keeps_refl)
  next
    case False
    then have ne: "cls \<noteq> []" using less.prems(4) by auto
    let ?n = "min 128 (length cls)" and ?xs = "take left (drop cofs (content s (take 128 cls)))"
    have n: "0 < ?n" "?n \<le> length cls" using ne by (cases cls; simp)+
    obtain s1 where s1: "fat32_resolve_chain 128 c s = Some (take 128 cls, s1)" "vol_keeps s s1" using resolve_chain_ok [OF ok ch] by blast
    have ok1: "fat_ok s1" by (rule vol_stepD(1) [OF s1(2)])
    have d: "\<forall>x \<in> set (take 128 cls). data_cluster s1 x" using fchain_data [OF ch] by (auto simp: vol_stepD(6) [OF s1(2)] dest: in_set_takeD)
    have rr: "read_runs (take 128 cls) cofs left s1 = ?xs"
      using read_runs_ok [OF ok1 d] less.prems(3) by (simp add: vol_stepD(7) [OF s1(2)] keeps_content [OF s1(2)])
    have la: "last (take 128 cls) = cls ! (?n - 1)" using ne by (subst last_conv_nth) (auto simp: min.commute)
    have "data_cluster s1 (cls ! (?n - 1))" unfolding vol_stepD(6) [OF s1(2)] using n by (intro fchain_data [OF ch] nth_mem) linarith
    from read_link [OF ok1 this] obtain s2 where
      s2: "fat32_read_fat_entry (cls ! (?n - 1)) s1 = Some (fat_view s (cls ! (?n - 1)), s2)" "vol_keeps s1 s2"
      unfolding vol_stepD(3) [OF s1(2)] by blast
    have k2: "vol_keeps s s2" by (rule vol_keeps_trans [OF s1(2) s2(2)])
    have ch2: "fchain s2 (fat_view s (cls ! (?n - 1))) (drop ?n cls)" unfolding keeps_fchain [OF k2] by (rule fchain_rest [OF ch n])
    have dd: "drop ?n cls = drop 128 cls" by (cases "length cls \<le> 128") auto
    have len: "length (content s (take 128 cls)) = ?n * cluster_size s"
    proof -
      have "\<forall>x \<in> set (take 128 cls). data_cluster s x" using fchain_data [OF ch] by (auto dest: in_set_takeD)
      from content_length [OF ok this] show ?thesis by (simp add: min.commute)
    qed
    have cs: "cofs < ?n * cluster_size s" using less.prems(3) n(1) by (metis (no_types) One_nat_def Suc_leI mult.commute mult_le_mono2 nat_mult_1_right order_less_le_trans)
    have left: "left - length ?xs + 0 \<le> length (drop ?n cls) * cluster_size s2"
    proof -
      have "length cls * cluster_size s = ?n * cluster_size s + length (drop ?n cls) * cluster_size s"
        using n(2) by (simp add: add_mult_distrib [symmetric])
      moreover have "left - min (a - cofs) left \<le> b" if "left + cofs \<le> a + b" "cofs < a" for a b :: nat using that by arith
      ultimately show ?thesis using less.prems(4) len cs vol_stepD(7) [OF k2] by simp
    qed
    have "\<exists>s3. read_loop (fat_view s (cls ! (?n - 1))) 0 (left - length ?xs) s2 =
        Some (take (left - length ?xs) (drop 0 (content s2 (drop ?n cls))), s3) \<and> vol_keeps s2 s3"
      by (rule less.hyps [OF _ vol_stepD(1) [OF k2] ch2 _ left]) (use n less.prems(3) vol_stepD(7) [OF k2] in auto)
    then obtain s3 where s3: "read_loop (fat_view s (cls ! (?n - 1))) 0 (left - length ?xs) s2 =
        Some (take (left - length ?xs) (content s (drop 128 cls)), s3)" "vol_keeps s2 s3"
      unfolding keeps_content [OF k2] dd by auto
    have "read_loop c cofs left s = Some (?xs @ take (left - length ?xs) (content s (drop 128 cls)), s3)"
      using False ne s1(1) rr la s2(1) s3(1) by (subst read_loop.simps) (simp add: Let_def)
    moreover have "?xs @ take (left - length ?xs) (content s (drop 128 cls)) = take left (drop cofs (content s cls))"
    proof -
      have "content s cls = content s (take 128 cls) @ content s (drop 128 cls)" using content_append [of s "take 128 cls" "drop 128 cls"] by simp
      moreover have "left - min (a - cofs) left = left + cofs - a" if "cofs < a" for a :: nat using that by arith
      ultimately show ?thesis using cs len by simp
    qed
    ultimately show ?thesis using vol_keeps_trans [OF k2 s3(2)] by auto
  qed
qed

text \<open>The bytes of a file: its clusters one after the other, up to its size.\<close>

definition file_bytes :: "fat32 \<Rightarrow> vnode \<Rightarrow> nat list \<Rightarrow> u8 list" where
  "file_bytes s n cls = take (v_size n) (content s cls)"

lemma fat32_read_bytes:
  assumes "fat_ok s" "has_flag VFS_FLAG_FILE n" "fchain s (cluster_number ni) cls" "v_size n \<le> length cls * cluster_size s"
    and "off + len < 2 ^ 32"
  shows "\<exists>s'. fat32_read n ni off len s =
      Some (as_int (length (take len (drop off (file_bytes s n cls)))), take len (drop off (file_bytes s n cls)), s') \<and> vol_keeps s s'"
proof (cases "off \<ge> v_size n")
  case True
  then show ?thesis using assms(1,2) by (simp add: fat32_read_def file_bytes_def as_int_def vol_keeps_refl)
next
  case False
  let ?cs = "cluster_size s"
  have sp: "0 < sectors_per_cluster s" "bytes_per_sector s = 512" using fat_okD(1,2) [OF assms(1)] by simp_all
  then have cs: "0 < ?cs" by (simp add: cluster_size_def)
  have w: "w32 (off + len) = off + len" by (rule w32_id [OF assms(5)])
  define len1 where "len1 = (if off + len > v_size n then v_size n - off else len)"
  have "off < length cls * ?cs" using False assms(4) by simp
  then have k: "off div ?cs < length cls" using cs by (simp add: div_less_iff_less_mult)
  obtain s1 where s1: "skip_clusters (off div ?cs) (cluster_number ni) s = Some (Some (cls ! (off div ?cs)), s1)" "vol_keeps s s1"
    using skip_clusters_ok [OF assms(1,3) k] by blast
  let ?d = "drop (off div ?cs) cls"
  have ch: "fchain s1 (cls ! (off div ?cs)) ?d" unfolding keeps_fchain [OF s1(2)] by (rule fchain_drop [OF assms(3) k])
  have le: "len1 + off mod ?cs \<le> length ?d * cluster_size s1"
  proof -
    have "off div ?cs * ?cs + off mod ?cs = off" by simp
    moreover have "length cls * ?cs = off div ?cs * ?cs + length ?d * ?cs" using k by (simp add: add_mult_distrib [symmetric])
    moreover have "len1 + off \<le> length cls * ?cs" using assms(4) False by (auto simp: len1_def)
    ultimately show ?thesis unfolding vol_stepD(7) [OF s1(2)] by linarith
  qed
  have "off mod ?cs < cluster_size s1" using cs vol_stepD(7) [OF s1(2)] by simp
  from read_loop_ok [OF vol_stepD(1) [OF s1(2)] ch this le] obtain s2 where
    s2: "read_loop (cls ! (off div ?cs)) (off mod ?cs) len1 s1 = Some (take len1 (drop (off mod ?cs) (content s ?d)), s2)" "vol_keeps s1 s2"
    unfolding keeps_content [OF s1(2)] by blast
  have c: "drop (off mod ?cs) (content s ?d) = drop off (content s cls)"
  proof -
    have "length (content s (take (off div ?cs) cls)) = off div ?cs * ?cs"
    proof -
      have "\<forall>x \<in> set (take (off div ?cs) cls). data_cluster s x" using fchain_data [OF assms(3)] by (auto dest: in_set_takeD)
      from content_length [OF assms(1) this] show ?thesis using k by simp
    qed
    moreover have "content s cls = content s (take (off div ?cs) cls) @ content s ?d"
      using content_append [of s "take (off div ?cs) cls" ?d] by simp
    moreover have "off - off div ?cs * ?cs = off mod ?cs" by (simp add: minus_div_mult_eq_mod)
    ultimately show ?thesis by simp
  qed
  have t: "take len1 (drop off (content s cls)) = take len (drop off (file_bytes s n cls))"
    using False by (auto simp: file_bytes_def len1_def drop_take min_def)
  have "fat32_read n ni off len s = Some (as_int (length (take len1 (drop off (content s cls)))), take len1 (drop off (content s cls)), s2)"
    using assms(2) False sp s1(1) s2(1) unfolding fat32_read_def w len1_def [symmetric] c by simp
  then show ?thesis unfolding t using vol_keeps_trans [OF s1(2) s2(2)] by blast
qed

text \<open>
  C38. Reading a file, whose size is no more than its chain can hold, at an offset whose sum with the length does not wrap around,
  gives the bytes that the chain holds at the offset, as many as are asked for up to the end of
  the file, however the clusters lie on the disk and whatever part of the table is in memory, and changes neither
  links nor data.
\<close>

theorem fat32_read_spec:
  assumes "fat_ok s" "has_flag VFS_FLAG_FILE n" "fchain s (cluster_number ni) cls" "v_size n \<le> length cls * cluster_size s"
    and "off + len < 2 ^ 32"
  shows "\<exists>s'. fat32_read n ni off len s =
      Some (as_int (length (take len (drop off (file_bytes s n cls)))), take len (drop off (file_bytes s n cls)), s') \<and> vol_keeps s s'"
  by (rule fat32_read_bytes [OF assms])

section \<open>Growing a chain\<close>

lemma fchain_append: "fchain s c (xs @ y # ys) \<Longrightarrow> fchain s y (y # ys)"
  by (induction xs arbitrary: c) auto

lemma fchain_distinct: "fat_ok s \<Longrightarrow> fchain s c cls \<Longrightarrow> distinct cls"
proof (induction "length cls" arbitrary: c cls rule: less_induct)
  case less
  have u: "xs = ys" if "fchain s x xs" "fchain s x ys" for x xs ys
    using that
  proof (induction xs arbitrary: x ys)
    case Nil
    then show ?case using data_cluster_bounds [OF less.prems(1), of x] by (cases ys) auto
  next
    case (Cons a xs)
    then show ?case using data_cluster_bounds [OF less.prems(1), of a] by (cases ys) auto
  qed
  show ?case
  proof (cases cls)
    case (Cons x xs)
    have "distinct xs" using less Cons by auto
    moreover have "x \<notin> set xs"
    proof
      assume "x \<in> set xs"
      then obtain as bs where xs: "xs = as @ x # bs" using split_list by metis
      have "fchain s x (x # bs)" using fchain_append [of s c "x # as" x bs] less.prems(2) Cons xs by simp
      moreover have "fchain s x (x # as @ x # bs)" using less.prems(2) Cons xs by simp
      ultimately have "x # bs = x # as @ x # bs" by (rule u)
      then show False by (auto dest: arg_cong [where f = length])
    qed
    ultimately show ?thesis using Cons by simp
  qed simp
qed

lemma fchain_link: "fat_ok s \<Longrightarrow> fchain s c cls \<Longrightarrow> x \<in> set cls \<Longrightarrow> 2 \<le> fat_view s x"
proof (induction cls arbitrary: c)
  case (Cons y ys)
  show ?case
  proof (cases "x = y")
    case True
    show ?thesis
    proof (cases ys)
      case Nil
      then show ?thesis using Cons.prems(2) True by (simp add: FAT32_CLUSTER_END_def)
    next
      case (Cons z zs)
      then have "fat_view s x = z" "data_cluster s z" using Cons.prems(2) True by auto
      then show ?thesis by (simp add: data_cluster_def)
    qed
  qed (use Cons in auto)
qed simp

lemma fchain_last: "fchain s c cls \<Longrightarrow> cls \<noteq> [] \<Longrightarrow> FAT32_CLUSTER_END \<le> fat_view s (last cls)"
  by (induction cls arbitrary: c) auto

lemma fchain_snoc:
  assumes "fchain s c (xs @ [x])" "distinct (xs @ [x, a])" "data_cluster s a" "fat_total s' = fat_total s"
    and "\<And>y. y \<in> set xs \<Longrightarrow> fat_view s' y = fat_view s y" "fat_view s' x = a" "FAT32_CLUSTER_END \<le> fat_view s' a"
  shows "fchain s' c (xs @ [x, a])"
  using assms
proof (induction xs arbitrary: c)
  case Nil
  then show ?case by (auto simp: data_cluster_def)
next
  case (Cons y ys)
  then show ?case by (auto simp: data_cluster_def)
qed

definition free_clusters :: "fat32 \<Rightarrow> nat set" where
  "free_clusters s = {x. data_cluster s x \<and> fat_view s x = 0}"

lemma finite_free [simp]: "finite (free_clusters s)"
proof (rule finite_subset)
  show "free_clusters s \<subseteq> {..<fat_total s}" by (auto simp: free_clusters_def data_cluster_def)
qed simp

text \<open>
  \<open>extends s c cls s' ns\<close>: the chain from \<open>c\<close> has grown by the clusters \<open>ns\<close>, which were free, and nothing else has
  changed in the table or the data.
\<close>

definition extends :: "fat32 \<Rightarrow> nat \<Rightarrow> nat list \<Rightarrow> fat32 \<Rightarrow> nat list \<Rightarrow> bool" where
  "extends s c cls s' ns \<longleftrightarrow> fat_ok s' \<and> geom s' = geom s \<and> cluster_data s' = cluster_data s \<and> fchain s' c (cls @ ns)
    \<and> free_clusters s' = free_clusters s - set ns \<and> set ns \<subseteq> free_clusters s \<and> distinct ns
    \<and> (\<forall>x. x \<notin> set cls \<and> x \<notin> set ns \<longrightarrow> fat_view s' x = fat_view s x)"

lemma extends_refl: "vol_keeps s s' \<Longrightarrow> fchain s c cls \<Longrightarrow> extends s c cls s' []"
  unfolding extends_def using keeps_fchain [of s s' c cls] by (simp add: vol_stepD free_clusters_def)

lemma extends_trans:
  assumes "extends s c cls s1 ns" "extends s1 c (cls @ ns) s2 ms"
  shows "extends s c cls s2 (ns @ ms)"
  using assms unfolding extends_def by auto

lemma extends_keeps: "extends s c cls s1 ns \<Longrightarrow> vol_keeps s1 s2 \<Longrightarrow> extends s c cls s2 ns"
  using extends_trans [of s c cls s1 ns s2 "[]"] extends_refl [of s1 s2 c "cls @ ns"] by (auto simp: extends_def)

lemma next_or_extend_ok:
  assumes ok: "fat_ok s" and ch: "fchain s c cls" and i: "i < length cls" and room: "i + 1 < length cls \<or> free_clusters s \<noteq> {}"
  shows "\<exists>s' ns. next_or_extend (cls ! i) s = Some (Some ((cls @ ns) ! (i + 1)), s') \<and> extends s c cls s' ns
    \<and> length (cls @ ns) = max (length cls) (i + 2)"
proof -
  let ?x = "cls ! i"
  have x: "data_cluster s ?x" using fchain_data [OF ch] i by simp
  obtain s1 where s1: "fat32_read_fat_entry ?x s = Some (fat_view s ?x, s1)" "vol_keeps s s1" using read_link [OF ok x] by blast
  note D = vol_stepD [OF s1(2)]
  show ?thesis
  proof (cases "i + 1 < length cls")
    case True
    have y: "fat_view s ?x = cls ! (i + 1)" "data_cluster s (cls ! (i + 1))"
      using fchain_next [OF ch i] True fchain_data [OF ch, of "cls ! (i + 1)"] by (simp_all add: Cons_nth_drop_Suc [symmetric])
    then have "next_or_extend ?x s = Some (Some ((cls @ []) ! (i + 1)), s1)"
      using s1(1) data_cluster_bounds [OF ok y(2)] by (simp add: next_or_extend_def)
    moreover have "length (cls @ []) = max (length cls) (i + 2)" using True by simp
    ultimately show ?thesis using extends_refl [OF s1(2) ch] by blast
  next
    case False
    then have e1: "i = length cls - 1" "cls \<noteq> []" using i by auto
    then have "last cls = ?x" by (simp add: last_conv_nth)
    moreover from this have "cls = butlast cls @ [?x]" using append_butlast_last_id [OF e1(2)] by simp
    ultimately have e: "i = length cls - 1" "cls \<noteq> []" "cls = butlast cls @ [?x]" "last cls = ?x" using e1 by blast+
    have l: "FAT32_CLUSTER_END \<le> fat_view s ?x" using fchain_last [OF ch e(2)] e(4) by simp
    obtain f where f: "data_cluster s f" "fat_view s f = 0" using room False by (auto simp: free_clusters_def)
    from allocate_ok [OF D(1)] obtain a s2 where s2: "fat32_allocate_cluster s1 = Some (a, s2)" "first_free s1 2 a"
      "vol_step s1 ((fat_view s)(a := FAT32_CLUSTER_END)) (cluster_data s) s2"
      using f unfolding D(3,4,5) data_cluster_def by blast
    note D2 = vol_stepD [OF s2(3)]
    have a: "data_cluster s a" "fat_view s a = 0" "a \<noteq> 0" using s2(2) D(3,5) by (auto simp: first_free_def data_cluster_def)
    have na: "a \<notin> set cls" using fchain_link [OF ok ch, of a] a(2) by auto
    have xt: "?x < fat_total s2" using x D(5) D2(5) by (simp add: data_cluster_def)
    have am: "a mod 2 ^ 28 = a" using data_cluster_bounds [OF ok a(1)] by (simp add: FAT32_CLUSTER_END_def)
    from write_entry_ok [OF D2(1) xt, of a] obtain s3 where s3: "fat32_write_fat_entry ?x a s2 = Some s3"
      "vol_step s2 ((fat_view s)(a := FAT32_CLUSTER_END, ?x := a)) (cluster_data s) s3"
      unfolding am D2(3,4) by blast
    note D3 = vol_stepD [OF s3(2)]
    have r: "next_or_extend ?x s = Some (Some a, s3)" using s1(1) l s2(1) a(3) s3(1) by (simp add: next_or_extend_def)
    have ax: "a \<noteq> ?x" using na i by auto
    have v3: "fat_view s3 = (fat_view s)(a := FAT32_CLUSTER_END, ?x := a)" by (rule D3(3))
    have dis: "distinct (butlast cls @ [?x, a])"
    proof -
      have "distinct (cls @ [a])" using fchain_distinct [OF ok ch] na by simp
      then show ?thesis by (subst (asm) e(3)) simp
    qed
    have "fchain s3 c (butlast cls @ [?x, a])"
    proof (rule fchain_snoc [OF _ dis a(1)])
      show "fchain s c (butlast cls @ [?x])" using ch e(3) by simp
      show "fat_total s3 = fat_total s" using D(5) D2(5) D3(5) by simp
      show "fat_view s3 y = fat_view s y" if "y \<in> set (butlast cls)" for y using that dis by (auto simp: v3)
      show "fat_view s3 ?x = a" "FAT32_CLUSTER_END \<le> fat_view s3 a" using ax by (simp_all add: v3)
    qed
    then have c3: "fchain s3 c (cls @ [a])" using e(3) by (metis append.assoc append_Cons append_Nil)
    have g: "geom s3 = geom s" using D(2) D2(2) D3(2) by simp
    have dc: "data_cluster s3 = data_cluster s" using D(6) D2(6) D3(6) by simp
    have fr: "free_clusters s3 = free_clusters s - set [a]" using l data_cluster_bounds [OF ok a(1)] a(3)
      by (auto simp: free_clusters_def dc v3 FAT32_CLUSTER_END_def)
    have "extends s c cls s3 [a]" using D3(1,4) g c3 fr a by (auto simp: extends_def free_clusters_def v3 i)
    moreover have "(cls @ [a]) ! (i + 1) = a" "length (cls @ [a]) = max (length cls) (i + 2)" using e(1,2) i by (auto simp: nth_append)
    ultimately show ?thesis using r by metis
  qed
qed

lemma extends_card:
  assumes "extends s c cls s' ns"
  shows "card (free_clusters s') + length ns = card (free_clusters s)"
proof -
  have "set ns \<subseteq> free_clusters s" "free_clusters s' = free_clusters s - set ns" "distinct ns" using assms by (auto simp: extends_def)
  then show ?thesis using card_mono [OF finite_free, of "set ns" s] by (simp add: card_Diff_subset distinct_card)
qed

lemma write_skip_ok:
  assumes "fat_ok s" "fchain s c cls" "i < length cls" "i + n < length cls + card (free_clusters s)"
  shows "\<exists>s' ns. write_skip n (cls ! i) s = Some (Some ((cls @ ns) ! (i + n)), s') \<and> extends s c cls s' ns
    \<and> length (cls @ ns) = max (length cls) (i + n + 1)"
  using assms
proof (induction n arbitrary: i cls s)
  case 0
  then show ?case using extends_refl [OF vol_keeps_refl [OF 0(1)] 0(2)] by (intro exI [of _ s] exI [of _ "[]"]) simp
next
  case (Suc n)
  have "i + 1 < length cls \<or> free_clusters s \<noteq> {}" using Suc.prems(4) by auto
  from next_or_extend_ok [OF Suc.prems(1-3) this] obtain s1 ms where s1: "next_or_extend (cls ! i) s = Some (Some ((cls @ ms) ! (i + 1)), s1)"
    "extends s c cls s1 ms" "length (cls @ ms) = max (length cls) (i + 2)" by blast
  have e: "fat_ok s1" "fchain s1 c (cls @ ms)" using s1(2) by (simp_all add: extends_def)
  have "i + 1 < length (cls @ ms)" "i + 1 + n < length (cls @ ms) + card (free_clusters s1)"
    using s1(3) Suc.prems(4) extends_card [OF s1(2)] by auto
  from Suc.IH [OF e this] obtain s2 ns where s2: "write_skip n ((cls @ ms) ! (i + 1)) s1 = Some (Some (((cls @ ms) @ ns) ! (i + 1 + n)), s2)"
    "extends s1 c (cls @ ms) s2 ns" "length ((cls @ ms) @ ns) = max (length (cls @ ms)) (i + 1 + n + 1)" by blast
  have "write_skip (Suc n) (cls ! i) s = Some (Some ((cls @ ms @ ns) ! (i + Suc n)), s2)" using s1(1) s2(1) by simp
  moreover have "length (cls @ ms @ ns) = max (length cls) (i + Suc n + 1)" using s1(3) s2(3) by simp
  ultimately show ?case using extends_trans [OF s1(2) s2(2)] by blast
qed

section \<open>Writing\<close>

definition splice :: "nat \<Rightarrow> u8 list \<Rightarrow> u8 list \<Rightarrow> u8 list" where
  "splice p xs ys = take p ys @ xs @ drop (p + length xs) ys"

lemma splice_Nil [simp]: "splice p [] ys = ys"
  by (simp add: splice_def)

lemma splice_length: "p + length xs \<le> length ys \<Longrightarrow> length (splice p xs ys) = length ys"
  by (simp add: splice_def)

lemma splice_splice:
  assumes "p + length xs \<le> length zs"
  shows "splice (p + length xs) ys (splice p xs zs) = splice p (xs @ ys) zs"
proof -
  have "min (length zs) p = p" using assms by simp
  then show ?thesis using assms by (simp add: splice_def add_ac)
qed

definition contents :: "(nat \<Rightarrow> u8 list) \<Rightarrow> nat list \<Rightarrow> u8 list" where
  "contents d cls = concat (map d cls)"

lemma content_contents: "content s cls = contents (cluster_data s) cls"
  by (simp add: content_def contents_def)

lemma contents_length: "\<forall>x \<in> set cls. length (d x) = n \<Longrightarrow> length (contents d cls) = length cls * n"
  by (induction cls) (simp_all add: contents_def)

lemma contents_upd:
  assumes "distinct cls" "i < length cls" "\<forall>x \<in> set cls. length (d x) = n"
  shows "contents (d(cls ! i := buf)) cls = take (i * n) (contents d cls) @ buf @ drop ((i + 1) * n) (contents d cls)"
    "take n (drop (i * n) (contents d cls)) = d (cls ! i)"
proof -
  have c: "cls = take i cls @ cls ! i # drop (i + 1) cls" using assms(2) by (simp add: id_take_nth_drop)
  have "distinct (take i cls @ cls ! i # drop (i + 1) cls)" using assms(1) c by simp
  then have n: "cls ! i \<notin> set (take i cls)" "cls ! i \<notin> set (drop (i + 1) cls)" by auto
  have eq: "map (d(cls ! i := buf)) (take i cls) = map d (take i cls)" "map (d(cls ! i := buf)) (drop (i + 1) cls) = map d (drop (i + 1) cls)"
    using n by auto
  have app: "contents e cls = contents e (take i cls) @ e (cls ! i) @ contents e (drop (i + 1) cls)" for e
    unfolding contents_def by (subst c) simp
  have l: "length (contents d (take i cls)) = i * n" "length (d (cls ! i)) = n"
    using contents_length [of "take i cls" d n] assms(2,3) by (auto dest: in_set_takeD)
  have u: "contents (d(cls ! i := buf)) cls = contents d (take i cls) @ buf @ contents d (drop (i + 1) cls)"
    unfolding app [of "d(cls ! i := buf)"] unfolding contents_def eq by simp
  show "contents (d(cls ! i := buf)) cls = take (i * n) (contents d cls) @ buf @ drop ((i + 1) * n) (contents d cls)"
    unfolding u app [of d] using l by simp
  show "take n (drop (i * n) (contents d cls)) = d (cls ! i)" unfolding app [of d] using l by simp
qed

lemma splice_in_cluster:
  assumes "o1 = take n (drop q ys)" "q + n \<le> length ys" "k + length xs \<le> n"
  shows "take q ys @ (take k o1 @ xs @ drop (k + length xs) o1) @ drop (q + n) ys = splice (q + k) xs ys"
proof -
  have "take q ys @ take k o1 = take (q + k) ys" using assms by (simp add: take_add min_def)
  moreover have "drop (k + length xs) o1 @ drop (q + n) ys = drop (q + k + length xs) ys"
  proof -
    have "drop (k + length xs) o1 = take (n - (k + length xs)) (drop (q + k + length xs) ys)"
      unfolding assms(1) drop_take by (simp add: add_ac)
    moreover have "drop (q + n) ys = drop (n - (k + length xs)) (drop (q + k + length xs) ys)" using assms(3) by (simp add: add.commute)
    ultimately show ?thesis by (simp only: append_take_drop_id)
  qed
  ultimately show ?thesis unfolding splice_def by (metis append.assoc)
qed

text \<open>The chain has grown by \<open>ns\<close>, and its bytes from \<open>p\<close> on are \<open>xs\<close>.\<close>

definition written :: "fat32 \<Rightarrow> nat \<Rightarrow> nat list \<Rightarrow> fat32 \<Rightarrow> nat list \<Rightarrow> nat \<Rightarrow> u8 list \<Rightarrow> bool" where
  "written s c cls s' ns p xs \<longleftrightarrow> fat_ok s' \<and> geom s' = geom s \<and> fchain s' c (cls @ ns)
    \<and> free_clusters s' = free_clusters s - set ns \<and> set ns \<subseteq> free_clusters s \<and> distinct ns
    \<and> (\<forall>x. x \<notin> set cls \<and> x \<notin> set ns \<longrightarrow> fat_view s' x = fat_view s x \<and> cluster_data s' x = cluster_data s x)
    \<and> content s' (cls @ ns) = splice p xs (content s (cls @ ns)) \<and> p + length xs \<le> length (content s (cls @ ns))"

lemma write_one:
  assumes ok: "fat_ok s" and ch: "fchain s c cls" and i: "i < length cls" and k: "cofs + length xs \<le> cluster_size s" "xs \<noteq> []"
    and buf: "buf = cluster_data s (cls ! i) \<or> (cofs = 0 \<and> length xs = cluster_size s \<and> length buf = cluster_size s)"
  shows "\<exists>s'. fat32_write_cluster (cls ! i) (take cofs buf @ xs @ drop (cofs + length xs) buf) s = Some s'
    \<and> vol_step s (fat_view s) ((cluster_data s)(cls ! i := take cofs buf @ xs @ drop (cofs + length xs) buf)) s'
    \<and> (\<forall>ms. distinct (cls @ ms) \<longrightarrow> (\<forall>x \<in> set ms. data_cluster s x) \<longrightarrow> content s' (cls @ ms) = splice (i * cluster_size s + cofs) xs (content s (cls @ ms)))"
proof -
  have x: "data_cluster s (cls ! i)" using fchain_data [OF ch] i by simp
  let ?b = "take cofs buf @ xs @ drop (cofs + length xs) buf"
  have lb: "length buf = cluster_size s" using buf cluster_data_length [OF ok x] by auto
  then have "length ?b = cluster_size s" using k by simp
  from write_cluster_ok [OF ok x this] obtain s' where s': "fat32_write_cluster (cls ! i) ?b s = Some s'"
    "vol_step s (fat_view s) ((cluster_data s)(cls ! i := ?b)) s'" by blast
  have "content s' (cls @ ms) = splice (i * cluster_size s + cofs) xs (content s (cls @ ms))"
    if d: "distinct (cls @ ms)" "\<forall>x \<in> set ms. data_cluster s x" for ms
  proof -
    let ?L = "cls @ ms" and ?n = "cluster_size s"
    have L: "i < length ?L" "?L ! i = cls ! i" using i by (simp_all add: nth_append)
    have dl: "\<forall>x \<in> set ?L. length (cluster_data s x) = ?n" using d(2) fchain_data [OF ch] cluster_data_length [OF ok] by auto
    note U = contents_upd [OF d(1) L(1) dl, unfolded L(2)]
    have len: "i * ?n + ?n \<le> length (contents (cluster_data s) ?L)"
      using contents_length [OF dl] L(1) mult_le_mono1 [of "i + 1" "length ?L" ?n] by simp
    have eq: "?b = take cofs (take ?n (drop (i * ?n) (contents (cluster_data s) ?L))) @ xs @ drop (cofs + length xs) (take ?n (drop (i * ?n) (contents (cluster_data s) ?L)))"
      unfolding U(2) using buf cluster_data_length [OF ok x] lb by auto
    have "content s' ?L = take (i * ?n) (contents (cluster_data s) ?L) @ ?b @ drop (i * ?n + ?n) (contents (cluster_data s) ?L)"
      unfolding content_contents vol_stepD(4) [OF s'(2)] U(1) by (simp add: add.commute)
    also have "\<dots> = splice (i * ?n + cofs) xs (contents (cluster_data s) ?L)"
      by (subst eq, rule splice_in_cluster [OF refl len k(1)])
    finally show ?thesis unfolding content_contents .
  qed
  then show ?thesis using s' by blast
qed

lemma written_extends:
  assumes w: "vol_step s (fat_view s) ((cluster_data s)(x := b)) s1" and x: "x \<in> set cls"
    and sp: "\<And>ms. distinct (cls @ ms) \<Longrightarrow> \<forall>y \<in> set ms. data_cluster s y \<Longrightarrow> content s1 (cls @ ms) = splice p xs (content s (cls @ ms))"
    and e: "extends s1 c cls s2 ns" and ok: "fat_ok s" and ch: "fchain s c cls" and len: "p + length xs \<le> length (content s cls)"
  shows "written s c cls s2 ns p xs"
proof -
  note D = vol_stepD [OF w]
  have fr: "free_clusters s1 = free_clusters s" by (simp add: free_clusters_def D)
  have E: "fat_ok s2" "geom s2 = geom s1" "cluster_data s2 = cluster_data s1" "fchain s2 c (cls @ ns)" "free_clusters s2 = free_clusters s1 - set ns"
    "set ns \<subseteq> free_clusters s1" "distinct ns" "\<And>y. y \<notin> set cls \<Longrightarrow> y \<notin> set ns \<Longrightarrow> fat_view s2 y = fat_view s1 y"
    using e by (auto simp: extends_def)
  have dn: "\<forall>y \<in> set ns. data_cluster s y" using E(6) unfolding fr by (auto simp: free_clusters_def)
  have "distinct (cls @ ns)" by (rule fchain_distinct [OF E(1,4)])
  from sp [OF this dn] have "content s2 (cls @ ns) = splice p xs (content s (cls @ ns))"
    unfolding content_contents E(3) .
  moreover have "cluster_data s2 y = cluster_data s y" if "y \<notin> set cls" for y using that x by (auto simp: E(3) D(4))
  ultimately show ?thesis using E D len x unfolding written_def fr by (auto simp: content_append)
qed

lemma written_trans:
  assumes "written s c cls s1 ms p xs" "written s1 c (cls @ ms) s2 ns (p + length xs) ys"
  shows "written s c cls s2 (ms @ ns) p (xs @ ys)"
proof -
  have A: "fat_ok s1" "geom s1 = geom s" "free_clusters s1 = free_clusters s - set ms" "set ms \<subseteq> free_clusters s" "distinct ms"
    "\<And>x. x \<notin> set cls \<Longrightarrow> x \<notin> set ms \<Longrightarrow> fat_view s1 x = fat_view s x \<and> cluster_data s1 x = cluster_data s x"
    "content s1 (cls @ ms) = splice p xs (content s (cls @ ms))" "p + length xs \<le> length (content s (cls @ ms))"
    using assms(1) by (auto simp: written_def)
  have B: "fat_ok s2" "geom s2 = geom s1" "fchain s2 c (cls @ ms @ ns)" "free_clusters s2 = free_clusters s1 - set ns" "set ns \<subseteq> free_clusters s1" "distinct ns"
    "\<And>x. x \<notin> set (cls @ ms) \<Longrightarrow> x \<notin> set ns \<Longrightarrow> fat_view s2 x = fat_view s1 x \<and> cluster_data s2 x = cluster_data s1 x"
    "content s2 (cls @ ms @ ns) = splice (p + length xs) ys (content s1 (cls @ ms @ ns))" "p + length xs + length ys \<le> length (content s1 (cls @ ms @ ns))"
    using assms(2) by (auto simp: written_def)
  have dis: "distinct (cls @ ms @ ns)" by (rule fchain_distinct [OF B(1,3)])
  have "cluster_data s1 x = cluster_data s x" if "x \<in> set ns" for x using A(6) [of x] dis that by auto
  then have cn: "content s1 ns = content s ns" by (simp add: content_def cong: map_cong)
  have c1: "content s1 (cls @ ms @ ns) = splice p xs (content s (cls @ ms @ ns))"
  proof -
    have "content s1 (cls @ ms @ ns) = splice p xs (content s (cls @ ms)) @ content s ns" using A(7) cn content_append [of _ "cls @ ms" ns] by simp
    also have "\<dots> = splice p xs (content s (cls @ ms) @ content s ns)" using A(8) by (simp add: splice_def)
    finally show ?thesis using content_append [of s "cls @ ms" ns] by simp
  qed
  have le: "p + length xs \<le> length (content s (cls @ ms @ ns))" using A(8) content_append [of s "cls @ ms" ns] by simp
  have "content s2 (cls @ ms @ ns) = splice p (xs @ ys) (content s (cls @ ms @ ns))"
    unfolding B(8) c1 by (rule splice_splice [OF le])
  moreover have "p + length (xs @ ys) \<le> length (content s (cls @ ms @ ns))" using B(9) splice_length [OF le] by (simp add: c1)
  ultimately show ?thesis unfolding written_def using A B by auto
qed

lemma write_loop_ok:
  assumes "fat_ok s" "fchain s c cls" "i < length cls" "cofs < cluster_size s"
    and "i * cluster_size s + cofs + length xs \<le> (length cls + card (free_clusters s)) * cluster_size s"
  shows "\<exists>s' ns. write_loop (cls ! i) cofs xs s = Some (length xs, s') \<and> written s c cls s' ns (i * cluster_size s + cofs) xs"
  using assms
proof (induction "length xs" arbitrary: i cofs xs cls s rule: less_induct)
  case less
  note ok = less.prems(1) and ch = less.prems(2) and i = less.prems(3)
  let ?n = "cluster_size s"
  have clen: "length (content s cls) = length cls * ?n" by (rule content_length [OF ok]) (use fchain_data [OF ch] in blast)
  have fit: "(i + 1) * ?n \<le> length cls * ?n" using i by (intro mult_right_mono) simp_all
  show ?case
  proof (cases "xs = []")
    case True
    have "written s c cls s [] (i * ?n + cofs) []"
      unfolding written_def using ok ch clen fit less.prems(4) by simp
    moreover have "write_loop (cls ! i) cofs xs s = Some (0, s)" using True by (subst write_loop.simps) simp
    ultimately show ?thesis using True by auto
  next
    case ne: False
    define k where "k = (if ?n - cofs > length xs then length xs else ?n - cofs)"
    have k: "0 < k" "k \<le> length xs" "cofs + k \<le> ?n" using ne less.prems(4) by (auto simp: k_def)
    obtain buf where buf: "(if cofs \<noteq> 0 \<or> length xs < ?n then fat32_read_cluster (cls ! i) s else Some (replicate ?n 0)) = Some buf"
      "buf = cluster_data s (cls ! i) \<or> (cofs = 0 \<and> length (take k xs) = ?n \<and> length buf = ?n)"
    proof (cases "cofs \<noteq> 0 \<or> length xs < ?n")
      case True
      have "data_cluster s (cls ! i)" using fchain_data [OF ch] i by simp
      from read_cluster_ok [OF ok this] show ?thesis using True that by simp
    next
      case False
      then have "length (take k xs) = ?n" by (auto simp: k_def)
      then show ?thesis using False that [of "replicate ?n 0"] by simp
    qed
    have lk: "length (take k xs) = k" "take k xs \<noteq> []" using k ne by auto
    obtain s1 where s1: "fat32_write_cluster (cls ! i) (take cofs buf @ take k xs @ drop (cofs + k) buf) s = Some s1"
      "vol_step s (fat_view s) ((cluster_data s)(cls ! i := take cofs buf @ take k xs @ drop (cofs + k) buf)) s1"
      "\<And>ms. distinct (cls @ ms) \<Longrightarrow> \<forall>x \<in> set ms. data_cluster s x \<Longrightarrow> content s1 (cls @ ms) = splice (i * ?n + cofs) (take k xs) (content s (cls @ ms))"
      using write_one [OF ok ch i _ lk(2) buf(2)] k(3) unfolding lk(1) by blast
    note D = vol_stepD [OF s1(2)]
    have ch1: "fchain s1 c cls" using ch fchain_cong [of s1 s cls c] by (simp add: D)
    have room: "i * ?n + cofs + k \<le> length (content s cls)" unfolding clen using fit k(3) by simp
    have fr: "free_clusters s1 = free_clusters s" by (simp add: free_clusters_def D)
    have un: "write_loop (cls ! i) cofs xs s =
      (if k < length xs then do {
          (nx, s2) \<leftarrow> next_or_extend (cls ! i) s1;
          (case nx of None \<Rightarrow> Some (k, s2) | Some c \<Rightarrow> do { (w, s3) \<leftarrow> write_loop c 0 (drop k xs) s2; Some (k + w, s3) })
        } else Some (k, s1))"
      using ne buf(1) s1(1) by (subst write_loop.simps) (simp add: Let_def k_def [symmetric])
    show ?thesis
    proof (cases "k < length xs")
      case False
      then have kk: "k = length xs" using k(2) by simp
      have "written s c cls s1 [] (i * ?n + cofs) (take k xs)"
        by (rule written_extends [OF s1(2) nth_mem [OF i] s1(3) extends_refl [OF vol_keeps_refl [OF D(1)] ch1] ok ch]) (use room lk(1) in auto)
      then show ?thesis using un kk by auto
    next
      case True
      then have kn: "cofs + k = ?n" using less.prems(4) by (auto simp: k_def split: if_splits)
      have "(i + 1) * ?n < (length cls + card (free_clusters s)) * ?n" using less.prems(5) True kn by simp
      then have "i + 1 < length cls + card (free_clusters s)" by (rule mult_less_cancel2 [THEN iffD1, THEN conjunct2])
      then have "i + 1 < length cls \<or> free_clusters s1 \<noteq> {}" unfolding fr by auto
      from next_or_extend_ok [OF D(1) ch1 i this] obtain s2 ms where s2: "next_or_extend (cls ! i) s1 = Some (Some ((cls @ ms) ! (i + 1)), s2)"
        "extends s1 c cls s2 ms" "length (cls @ ms) = max (length cls) (i + 2)" by blast
      have w2: "written s c cls s2 ms (i * ?n + cofs) (take k xs)"
        by (rule written_extends [OF s1(2) nth_mem [OF i] s1(3) s2(2) ok ch]) (use room lk(1) in auto)
      have W: "fat_ok s2" "geom s2 = geom s" "fchain s2 c (cls @ ms)" using w2 by (auto simp: written_def)
      have n2: "cluster_size s2 = ?n" by (rule geomD(10) [OF W(2)])
      have cap: "(i + 1) * ?n + 0 + length (drop k xs) \<le> (length (cls @ ms) + card (free_clusters s2)) * ?n"
        using less.prems(5) kn True extends_card [OF s2(2)] unfolding fr by (simp add: algebra_simps)
      have "\<exists>s3 ns. write_loop ((cls @ ms) ! (i + 1)) 0 (drop k xs) s2 = Some (length (drop k xs), s3)
          \<and> written s2 c (cls @ ms) s3 ns ((i + 1) * cluster_size s2 + 0) (drop k xs)"
        by (rule less.hyps [OF _ W(1,3)]) (use k True s2(3) less.prems(4) cap n2 in \<open>auto simp: n2\<close>)
      then obtain s3 ns where s3: "write_loop ((cls @ ms) ! (i + 1)) 0 (drop k xs) s2 = Some (length xs - k, s3)"
        "written s2 c (cls @ ms) s3 ns ((i + 1) * ?n) (drop k xs)" unfolding n2 by auto
      have "write_loop (cls ! i) cofs xs s = Some (length xs, s3)" unfolding un using True s2(1) s3(1) by simp
      moreover have "written s c cls s3 (ms @ ns) (i * ?n + cofs) xs"
      proof -
        have "(i + 1) * ?n = i * ?n + cofs + length (take k xs)" using kn lk(1) by simp
        from written_trans [OF w2 s3(2) [unfolded this]] show ?thesis by simp
      qed
      ultimately show ?thesis by blast
    qed
  qed
qed

definition demo_file :: vnode where
  "demo_file = \<lparr>v_name = ascii ''A'', v_inode = 3, v_size = 3, v_flags = VFS_FLAG_FILE, v_uid = 0, v_gid = 0, v_mode = 0, v_refcount = 1,
     v_data = None, v_ops = None, v_parent = None, v_children = None, v_next = None\<rparr>"

definition demo_info :: fat32_node where
  "demo_info = \<lparr>cluster_number = 3, node_size = 3, parent_cluster = 2\<rparr>"

lemma demo_file_flag: "has_flag VFS_FLAG_FILE demo_file"
  by (simp add: has_flag_def demo_file_def VFS_FLAG_FILE_def)

lemma demo_chain: "fchain demo_vol (cluster_number demo_info) [3]" "fchain demo_vol 2 [2]"
  by (simp_all add: demo_geom demo_view demo_info_def)

lemma demo_content: "content demo_vol [3] = [1, 2, 3] @ replicate 509 0"
  by (simp add: content_def demo_data)

lemma fat32_read_spec_witness: "\<exists>s'. fat32_read demo_file demo_info 1 5 demo_vol = Some (2, [2, 3], s')"
proof -
  have "v_size demo_file \<le> length [3 :: nat] * cluster_size demo_vol" by (simp add: demo_file_def demo_geom)
  from fat32_read_spec [OF demo_ok demo_file_flag demo_chain(1) this, of 1 5]
  show ?thesis by (auto simp: file_bytes_def demo_content demo_file_def as_int_def)
qed

end
