(* ===== verification/Fatdir.thy ===== *)
theory Fatdir
  imports Fatfile
begin

text \<open>
  Directories of FAT32 as lists of entries, and the operations that use them: what a lookup finds, the update of an entry, writing a file as a whole,
  deleting one.
\<close>

section \<open>Looking up a directory\<close>

text \<open>What the walk finds in the clusters \<open>cls\<close> of a directory whose bytes are \<open>d\<close>.\<close>

fun find_dir :: "(u8 list \<Rightarrow> bool) \<Rightarrow> u8 list \<Rightarrow> (nat \<Rightarrow> u8 list) \<Rightarrow> nat list \<Rightarrow> lfn \<Rightarrow> (nat \<times> nat \<times> u8 list list) option option" where
  "find_dir skip name d [] st = Some None"
| "find_dir skip name d (c # cs) st = do {
     r \<leftarrow> scan_entries skip name (dir_entries (d c)) 0 st;
     (case r of
        Stop \<Rightarrow> Some None
      | Hit i \<Rightarrow> Some (Some (c, i, dir_entries (d c)))
      | More st1 \<Rightarrow> find_dir skip name d cs st1)
   }"

lemma find_loop_ok:
  assumes "fat_ok s" "fchain s c cls"
  shows "case find_dir skip name (cluster_data s) cls st of
      None \<Rightarrow> find_loop skip name c st s = None
    | Some r \<Rightarrow> \<exists>s'. find_loop skip name c st s = Some (r, s') \<and> vol_keeps s s'"
  using assms
proof (induction cls arbitrary: c st s)
  case Nil
  then show ?case by (subst find_loop.simps) (simp add: vol_keeps_refl)
next
  case (Cons x xs)
  have f: "c = x" "data_cluster s x" "fchain s (fat_view s x) xs" using Cons.prems(2) by auto
  have u: "find_loop skip name c st s = do {
        r \<leftarrow> scan_entries skip name (dir_entries (cluster_data s x)) 0 st;
        (case r of
           Stop \<Rightarrow> Some (None, s)
         | Hit i \<Rightarrow> Some (Some (x, i, dir_entries (cluster_data s x)), s)
         | More st1 \<Rightarrow> do { (cl', s1) \<leftarrow> fat32_read_fat_entry x s; find_loop skip name cl' st1 s1 })
      }"
    using f(1) data_cluster_bounds [OF Cons.prems(1) f(2)] read_cluster_ok [OF Cons.prems(1) f(2)]
    by (subst find_loop.simps) (simp cong: scan.case_cong)
  obtain s1 where s1: "fat32_read_fat_entry x s = Some (fat_view s x, s1)" "vol_keeps s s1" using read_link [OF Cons.prems(1) f(2)] by blast
  have ch: "fchain s1 (fat_view s x) xs" unfolding keeps_fchain [OF s1(2)] by (rule f(3))
  show ?case
  proof (cases "scan_entries skip name (dir_entries (cluster_data s x)) 0 st")
    case None
    then show ?thesis unfolding u by simp
  next
    case (Some r)
    show ?thesis
    proof (cases r)
      case Stop
      then show ?thesis unfolding u using Some vol_keeps_refl [OF Cons.prems(1)] by simp
    next
      case (Hit i)
      then show ?thesis unfolding u using Some vol_keeps_refl [OF Cons.prems(1)] by simp
    next
      case (More st1)
      have "find_loop skip name c st s = find_loop skip name (fat_view s x) st1 s1" unfolding u using Some More s1(1) by simp
      moreover have "find_dir skip name (cluster_data s) (x # xs) st = find_dir skip name (cluster_data s1) xs st1"
        using Some More vol_stepD(4) [OF s1(2)] by simp
      ultimately show ?thesis using Cons.IH [OF vol_stepD(1) [OF s1(2)] ch, of st1] vol_keeps_trans [OF s1(2)]
        by (auto split: option.splits)
    qed
  qed
qed

lemma find_loop_some:
  assumes "fat_ok s" "fchain s c cls" "find_dir skip name (cluster_data s) cls st = Some r"
  shows "\<exists>s'. find_loop skip name c st s = Some (r, s') \<and> vol_keeps s s'"
  using find_loop_ok [OF assms(1,2), of skip name st] assms(3) by simp

lemma scan_hit: "scan_entries skip name es i st = Some (Hit k) \<Longrightarrow> i \<le> k \<and> k < i + length es"
proof (induction skip name es i st rule: scan_entries.induct)
  case (2 skip name e es i st)
  show ?case using 2 by (auto split: if_splits bind_splits)
qed simp

lemma dir_entries_concat: "length buf = 32 * m \<Longrightarrow> concat (dir_entries buf) = buf \<and> length (dir_entries buf) = m \<and> (\<forall>e \<in> set (dir_entries buf). length e = 32)"
proof (induction m arbitrary: buf)
  case (Suc m)
  have "map (\<lambda>i. take 32 (drop (32 * i) buf)) [0..<m] = map (\<lambda>i. take 32 (drop (32 * i) (take (32 * m) buf))) [0..<m]"
    by (auto simp: drop_take)
  then have d: "dir_entries buf = dir_entries (take (32 * m) buf) @ [drop (32 * m) buf]"
    using Suc.prems by (simp add: dir_entries_def del: map_eq_conv)
  show ?case unfolding d using Suc.IH [of "take (32 * m) buf"] Suc.prems by simp
qed (simp add: dir_entries_def)

lemma cluster_entries:
  assumes "fat_ok s" "data_cluster s c"
  shows "concat (dir_entries (cluster_data s c)) = cluster_data s c" "\<forall>e \<in> set (dir_entries (cluster_data s c)). length e = 32"
    "length (dir_entries (cluster_data s c)) = cluster_size s div 32"
proof -
  have "cluster_size s = 32 * (16 * sectors_per_cluster s)" by (simp add: cluster_size_def fat_okD(1) [OF assms(1)])
  then have "length (cluster_data s c) = 32 * (cluster_size s div 32)" using cluster_data_length [OF assms] by simp
  from dir_entries_concat [OF this] show "concat (dir_entries (cluster_data s c)) = cluster_data s c"
    "\<forall>e \<in> set (dir_entries (cluster_data s c)). length e = 32" "length (dir_entries (cluster_data s c)) = cluster_size s div 32" by blast+
qed

lemma concat_length_32: "\<forall>e \<in> set es. length e = 32 \<Longrightarrow> length (concat es) = 32 * length es"
  by (induction es) simp_all

lemma find_dir_hit:
  assumes "find_dir skip name d cls st = Some (Some (c, i, es))"
  shows "c \<in> set cls" "es = dir_entries (d c)" "i < length es"
  using assms
proof (induction cls arbitrary: st)
  case (Cons x xs)
  { case 1 then show ?case using Cons by (auto split: bind_splits scan.splits) }
  { case 2 then show ?case using Cons by (auto split: bind_splits scan.splits) }
  { case 3 then show ?case using Cons by (auto split: bind_splits scan.splits dest: scan_hit) }
qed simp_all

text \<open>Entries changed in place, and written back.\<close>

lemma delete_length [simp]: "length (fat32_delete_lfn_chain es i) = length es"
proof -
  have "length (delete_back es j) = length es" for es j by (induction es j rule: delete_back.induct) (simp_all add: Let_def)
  then show ?thesis by (simp add: fat32_delete_lfn_chain_def)
qed

lemma delete_entry_length:
  assumes "\<forall>e \<in> set es. length e = 32" "i < length es"
  shows "\<forall>e \<in> set (fat32_delete_lfn_chain es i). length e = 32"
proof -
  have b: "\<forall>e \<in> set (delete_back es j). length e = 32" if "\<forall>e \<in> set es. length e = 32" "j \<le> length es" for es j
    using that
  proof (induction es j rule: delete_back.induct)
    case (2 es j)
    have "length (es ! j) = 32" using 2 by simp
    then have "\<forall>e \<in> set (es[j := (es ! j)[0 := 0xE5]]). length e = 32" using 2(2) by (auto dest: set_update_subset_insert [THEN subsetD])
    then show ?case using 2 by (auto simp: Let_def)
  qed simp
  have "length (es ! i) = 32" using assms by simp
  then have "\<forall>e \<in> set (es[i := (es ! i)[0 := 0xE5]]). length e = 32" using assms(1) by (auto dest: set_update_subset_insert [THEN subsetD])
  then show ?thesis unfolding fat32_delete_lfn_chain_def by (rule b) (use assms(2) in simp)
qed

lemma set_size_length:
  assumes "\<forall>e \<in> set es. length e = 32" "i < length es"
  shows "\<forall>e \<in> set (set_size i v es). length e = 32" "length (set_size i v es) = length es"
proof -
  have "length (es ! i) = 32" using assms by simp
  then show "\<forall>e \<in> set (set_size i v es). length e = 32" unfolding set_size_def using assms(1) by (auto dest: set_update_subset_insert [THEN subsetD])
qed (simp add: set_size_def)

lemma write_entries_back:
  assumes "fat_ok s" "data_cluster s c" "length es = cluster_size s div 32" "\<forall>e \<in> set es. length e = 32"
  shows "\<exists>s'. fat32_write_cluster c (concat es) s = Some s' \<and> vol_step s (fat_view s) ((cluster_data s)(c := concat es)) s'"
proof -
  have "cluster_size s = 32 * (16 * sectors_per_cluster s)" by (simp add: cluster_size_def fat_okD(1) [OF assms(1)])
  then have "length (concat es) = cluster_size s" using concat_length_32 [OF assms(4)] assms(3) by simp
  from write_cluster_ok [OF assms(1,2) this] show ?thesis .
qed

lemma update_ok:
  assumes "fat_ok s" "fchain s (parent_cluster ni) pcls" "find_dir skip_update name (cluster_data s) pcls no_lfn \<noteq> None"
  shows "\<exists>s' d. fat32_update_dir_entry ni name v s = Some s' \<and> vol_step s (fat_view s) d s' \<and> (\<forall>x. x \<notin> set pcls \<longrightarrow> d x = cluster_data s x)"
proof -
  obtain r where r: "find_dir skip_update name (cluster_data s) pcls no_lfn = Some r" using assms(3) by blast
  obtain s1 where s1: "find_loop skip_update name (parent_cluster ni) no_lfn s = Some (r, s1)" "vol_keeps s s1"
    using find_loop_some [OF assms(1,2) r] by blast
  note D = vol_stepD [OF s1(2)]
  show ?thesis
  proof (cases r)
    case None
    then show ?thesis using s1 by (intro exI [of _ s1] exI [of _ "cluster_data s"]) (simp add: fat32_update_dir_entry_def)
  next
    case (Some t)
    obtain c i es where t: "r = Some (c, i, es)" using Some by (cases t) auto
    note H = find_dir_hit [OF r [unfolded t]]
    have dc: "data_cluster s c" by (rule fchain_data [OF assms(2) H(1)])
    note E = cluster_entries [OF assms(1) dc, folded H(2)]
    have "\<exists>s'. fat32_write_cluster c (concat (set_size i v es)) s1 = Some s' \<and>
        vol_step s1 (fat_view s1) ((cluster_data s1)(c := concat (set_size i v es))) s'"
      by (rule write_entries_back [OF D(1)]) (use dc E(3) set_size_length [OF E(2) H(3)] in \<open>simp_all add: D\<close>)
    then obtain s' where s': "fat32_write_cluster c (concat (set_size i v es)) s1 = Some s'"
      "vol_step s1 (fat_view s) ((cluster_data s)(c := concat (set_size i v es))) s'" unfolding D(3,4) by blast
    show ?thesis using s1(1) s'(1) t vol_step_trans [OF s1(2) s'(2)] H(1)
      by (intro exI [of _ s'] exI [of _ "(cluster_data s)(c := concat (set_size i v es))"]) (auto simp: fat32_update_dir_entry_def)
  qed
qed

lemma extends_written: "extends s c cls s' ns \<Longrightarrow> p \<le> length (content s (cls @ ns)) \<Longrightarrow> written s c cls s' ns p []"
  unfolding extends_def written_def by (simp add: content_contents)

lemma find_dir_cong: "(\<And>x. x \<in> set cls \<Longrightarrow> d x = d' x) \<Longrightarrow> find_dir skip name d cls st = find_dir skip name d' cls st"
proof (induction cls arbitrary: st)
  case (Cons c cs)
  have a: "d c = d' c" using Cons by simp
  have "find_dir skip name d cs = find_dir skip name d' cs" by (rule ext) (use Cons in simp)
  then show ?case by (simp add: a)
qed simp

section \<open>Writing and reading back\<close>

lemma fat32_write_ok:
  assumes "fat_ok s" "\<not> read_only s" "has_flag VFS_FLAG_FILE n" "fchain s (cluster_number ni) cls" "cls \<noteq> []" "xs \<noteq> []"
    and "off + length xs \<le> (length cls + card (free_clusters s)) * cluster_size s" "off + length xs < 2 ^ 31"
    and "fchain s (parent_cluster ni) pcls" "set pcls \<inter> set cls = {}" "find_dir skip_update (v_name n) (cluster_data s) pcls no_lfn \<noteq> None"
  shows "\<exists>s' ns. fat32_write n ni off xs s = Some (int (length xs), n\<lparr>v_size := max (v_size n) (off + length xs)\<rparr>, ni, s')
    \<and> fat_ok s' \<and> geom s' = geom s \<and> fchain s' (cluster_number ni) (cls @ ns) \<and> set ns \<subseteq> free_clusters s
    \<and> content s' (cls @ ns) = splice off xs (content s (cls @ ns)) \<and> off + length xs \<le> length (content s' (cls @ ns))
    \<and> (\<forall>x. x \<notin> set cls \<and> x \<notin> set ns \<longrightarrow> fat_view s' x = fat_view s x \<and> (x \<notin> set pcls \<longrightarrow> cluster_data s' x = cluster_data s x))"
proof -
  let ?n = "cluster_size s" and ?c = "cluster_number ni"
  have cs: "0 < ?n" using fat_okD(1,2) [OF assms(1)] by (simp add: cluster_size_def)
  have w: "w32 (off + length xs) = off + length xs" using assms(8) by (intro w32_id) simp
  obtain c1 cr where c1: "cls = ?c # cr" "data_cluster s ?c" using assms(4,5) by (cases cls) auto
  have fc: "first_cluster ni s = Some (?c, s)" "?c \<noteq> 0" using c1(2) by (auto simp: first_cluster_def data_cluster_def)
  let ?i = "off div ?n" and ?o = "off mod ?n"
  have split: "?i * ?n + ?o = off" by simp
  have lx: "0 < length xs" using assms(6) by simp
  have "?i * ?n < (length cls + card (free_clusters s)) * ?n" using split lx assms(7) by linarith
  then have ib: "0 + ?i < length cls + card (free_clusters s)" by simp
  have "0 < length cls" "cls ! 0 = ?c" using c1(1) by auto
  from write_skip_ok [OF assms(1,4) this(1) ib, unfolded this(2)] obtain s1 ms where s1: "write_skip ?i ?c s = Some (Some ((cls @ ms) ! ?i), s1)"
    "extends s ?c cls s1 ms" "length (cls @ ms) = max (length cls) (?i + 1)" by auto
  have E: "fat_ok s1" "geom s1 = geom s" "fchain s1 ?c (cls @ ms)" "set ms \<subseteq> free_clusters s" using s1(2) by (auto simp: extends_def)
  have n1: "cluster_size s1 = ?n" by (rule geomD(10) [OF E(2)])
  have cap: "?i * cluster_size s1 + ?o + length xs \<le> (length (cls @ ms) + card (free_clusters s1)) * cluster_size s1"
  proof -
    have e: "length (cls @ ms) + card (free_clusters s1) = length cls + card (free_clusters s)" using extends_card [OF s1(2)] by simp
    show ?thesis unfolding n1 e split by (rule assms(7))
  qed
  have "?i < length (cls @ ms)" "?o < cluster_size s1" using s1(3) cs by (simp_all add: n1)
  from write_loop_ok [OF E(1,3) this cap] obtain s2 ks where s2: "write_loop ((cls @ ms) ! ?i) ?o xs s1 = Some (length xs, s2)"
    "written s1 ?c (cls @ ms) s2 ks off xs" unfolding n1 split by blast
  let ?ns = "ms @ ks"
  have "(?i + 1) * ?n \<le> length (cls @ ms) * ?n" using s1(3) by (intro mult_right_mono) simp_all
  moreover have "length (content s (cls @ ms)) = length (cls @ ms) * ?n"
    using fchain_data [OF assms(4)] E(4) by (intro content_length [OF assms(1)]) (auto simp: free_clusters_def)
  moreover have "off < (?i + 1) * ?n" using split mod_less_divisor [OF cs, of off] unfolding add_mult_distrib mult_1 by linarith
  ultimately have "off \<le> length (content s (cls @ ms))" by linarith
  from written_trans [OF extends_written [OF s1(2) this], of s2 ks xs] s2(2) have W: "written s ?c cls s2 ?ns off xs" by simp
  have V: "fat_ok s2" "geom s2 = geom s" "fchain s2 ?c (cls @ ?ns)" "set ?ns \<subseteq> free_clusters s"
    "\<And>x. x \<notin> set cls \<Longrightarrow> x \<notin> set ?ns \<Longrightarrow> fat_view s2 x = fat_view s x \<and> cluster_data s2 x = cluster_data s x"
    "content s2 (cls @ ?ns) = splice off xs (content s (cls @ ?ns))" "off + length xs \<le> length (content s (cls @ ?ns))"
    using W by (auto simp: written_def)
  obtain s3 where s3: "fat32_flush_fat_cache s2 = Some s3" "vol_keeps s2 s3" using fat_flush_ok [OF V(1)] by blast
  note D3 = vol_stepD [OF s3(2)]
  have dj: "x \<notin> set cls \<and> x \<notin> set ?ns" if "x \<in> set pcls" for x
    using that assms(10) V(4) fchain_link [OF assms(1,9) that] by (auto simp: free_clusters_def)
  have pch: "fchain s3 (parent_cluster ni) pcls"
    using assms(9) fchain_cong [of s3 s pcls] dj V(5) D3(3,5) geomD(11) [OF V(2)] by auto
  have "find_dir skip_update (v_name n) (cluster_data s3) pcls no_lfn = find_dir skip_update (v_name n) (cluster_data s) pcls no_lfn"
    using dj V(5) by (intro find_dir_cong) (simp add: D3)
  then have "find_dir skip_update (v_name n) (cluster_data s3) pcls no_lfn \<noteq> None" using assms(11) by simp
  from update_ok [OF D3(1) pch this, of "max (v_size n) (off + length xs)"] obtain s4 d where
    s4: "fat32_update_dir_entry ni (v_name n) (max (v_size n) (off + length xs)) s3 = Some s4" "vol_step s3 (fat_view s3) d s4"
    "\<And>x. x \<notin> set pcls \<Longrightarrow> d x = cluster_data s3 x" by blast
  note D4 = vol_stepD [OF s4(2)]
  have ni: "ni\<lparr>cluster_number := ?c\<rparr> = ni" by simp
  have nn: "(if off + length xs > v_size n then n\<lparr>v_size := off + length xs\<rparr> else n) = n\<lparr>v_size := max (v_size n) (off + length xs)\<rparr>"
    by (simp add: max_def)
  have as: "as_int (length xs) = int (length xs)" using assms(8) by (simp add: as_int_def)
  have r: "fat32_write n ni off xs s = Some (int (length xs), n\<lparr>v_size := max (v_size n) (off + length xs)\<rparr>, ni, s4)"
    unfolding fat32_write_def w nn using assms(2,3) fc cs s1(1) s2(1) s3(1) s4(1) as by (simp add: ni Let_def)
  have c4: "content s4 (cls @ ?ns) = content s2 (cls @ ?ns)"
  proof -
    have "cluster_data s4 x = cluster_data s2 x" if "x \<in> set (cls @ ?ns)" for x using that dj [of x] s4(3) [of x] by (auto simp: D4 D3)
    then show ?thesis unfolding content_def by (metis map_cong)
  qed
  show ?thesis
  proof (intro exI [of _ s4] exI [of _ ?ns] conjI)
    show "fchain s4 ?c (cls @ ?ns)" using V(3) keeps_fchain [OF s3(2)] fchain_cong [of s4 s3] by (simp add: D4)
    show "content s4 (cls @ ?ns) = splice off xs (content s (cls @ ?ns))" unfolding c4 by (rule V(6))
    show "off + length xs \<le> length (content s4 (cls @ ?ns))" unfolding c4 V(6) using V(7) splice_length by simp
    show "\<forall>x. x \<notin> set cls \<and> x \<notin> set ?ns \<longrightarrow> fat_view s4 x = fat_view s x \<and> (x \<notin> set pcls \<longrightarrow> cluster_data s4 x = cluster_data s x)"
      using V(5) s4(3) by (simp add: D4 D3)
  qed (use r V D4 D3 in auto)
qed


lemma splice_read: "off + length xs \<le> length ys \<Longrightarrow> take (length xs) (drop off (splice off xs ys)) = xs"
  by (simp add: splice_def)

text \<open>
  C39. Writing to a file that has a cluster, on a writable volume with room, up to \<open>2 ^ 31\<close> bytes and with the chain of its directory apart from its own, puts the bytes at their offset into its chain, which grows by free clusters, and nothing else
  in it changes; reading there gives them back. Every chain that shares no cluster with the file's and its directory's keeps its links and its bytes.
\<close>

theorem fat32_write_read:
  assumes "fat_ok s" "\<not> read_only s" "has_flag VFS_FLAG_FILE n" "fchain s (cluster_number ni) cls" "cls \<noteq> []" "xs \<noteq> []"
    and "off + length xs \<le> (length cls + card (free_clusters s)) * cluster_size s" "off + length xs < 2 ^ 31"
    and "v_size n \<le> length cls * cluster_size s" "v_size n < 2 ^ 31"
    and "fchain s (parent_cluster ni) pcls" "set pcls \<inter> set cls = {}" "find_dir skip_update (v_name n) (cluster_data s) pcls no_lfn \<noteq> None"
  shows "\<exists>n' s' ns. fat32_write n ni off xs s = Some (int (length xs), n', ni, s') \<and> v_size n' = max (v_size n) (off + length xs)
    \<and> fchain s' (cluster_number ni) (cls @ ns) \<and> content s' (cls @ ns) = splice off xs (content s (cls @ ns)) \<and> set ns \<subseteq> free_clusters s
    \<and> (\<exists>s''. fat32_read n' ni off (length xs) s' = Some (int (length xs), xs, s''))
    \<and> (\<forall>c ds. fchain s c ds \<longrightarrow> set ds \<inter> (set cls \<union> set pcls) = {} \<longrightarrow> fchain s' c ds \<and> content s' ds = content s ds)"
proof -
  let ?n = "n\<lparr>v_size := max (v_size n) (off + length xs)\<rparr>"
  from fat32_write_ok [OF assms(1-8,11-13)] obtain s' ns where w: "fat32_write n ni off xs s = Some (int (length xs), ?n, ni, s')"
    "fat_ok s'" "geom s' = geom s" "fchain s' (cluster_number ni) (cls @ ns)" "set ns \<subseteq> free_clusters s"
    "content s' (cls @ ns) = splice off xs (content s (cls @ ns))" "off + length xs \<le> length (content s' (cls @ ns))"
    "\<And>x. x \<notin> set cls \<Longrightarrow> x \<notin> set ns \<Longrightarrow> fat_view s' x = fat_view s x \<and> (x \<notin> set pcls \<longrightarrow> cluster_data s' x = cluster_data s x)"
    by blast
  have len: "length (content s' (cls @ ns)) = length (cls @ ns) * cluster_size s'"
    using fchain_data [OF w(4)] by (intro content_length [OF w(2)]) blast
  have sz: "v_size ?n \<le> length (cls @ ns) * cluster_size s'"
    using w(7) assms(9) geomD(10) [OF w(3)] unfolding len by (simp add: add_mult_distrib)
  have fl: "has_flag VFS_FLAG_FILE ?n" using assms(3) by (simp add: has_flag_def)
  have lt: "off + length xs < 2 ^ 32" using assms(8) by simp
  have lc: "off + length xs \<le> length (content s (cls @ ns))"
  proof -
    have "\<forall>x \<in> set (cls @ ns). data_cluster s x" using fchain_data [OF assms(4)] w(5) by (auto simp: free_clusters_def)
    from content_length [OF assms(1) this] show ?thesis using w(7) len geomD(10) [OF w(3)] by simp
  qed
  have "take (length xs) (drop off (file_bytes s' ?n (cls @ ns))) = take (length xs) (drop off (content s' (cls @ ns)))"
    by (simp add: file_bytes_def drop_take min_def)
  also have "\<dots> = xs" unfolding w(6) by (rule splice_read [OF lc])
  finally have rb: "take (length xs) (drop off (file_bytes s' ?n (cls @ ns))) = xs" .
  have as: "as_int (length xs) = int (length xs)" using assms(8) by (simp add: as_int_def)
  obtain s'' where "fat32_read ?n ni off (length xs) s' = Some (int (length xs), xs, s'')"
    using fat32_read_bytes [OF w(2) fl w(4) sz lt] unfolding rb as by blast
  moreover have "fchain s' c ds \<and> content s' ds = content s ds" if c: "fchain s c ds" "set ds \<inter> (set cls \<union> set pcls) = {}" for c ds
  proof -
    have o: "x \<notin> set cls \<and> x \<notin> set ns \<and> x \<notin> set pcls" if "x \<in> set ds" for x
      using that c(2) w(5) fchain_link [OF assms(1) c(1) that] by (auto simp: free_clusters_def)
    have "fchain s' c ds" using c(1) fchain_cong [of s' s ds c] o w(8) geomD(11) [OF w(3)] by auto
    moreover have "content s' ds = content s ds" unfolding content_def by (metis o w(8) map_cong)
    ultimately show ?thesis ..
  qed
  ultimately show ?thesis using w(1,4-6) by (intro exI [of _ ?n] exI [of _ s'] exI [of _ ns]) auto
qed

section \<open>Mounting\<close>

text \<open>What a sound boot sector says of a volume at sector \<open>part\<close>.\<close>

definition sound_boot :: "nat \<Rightarrow> u8 list \<Rightarrow> bool" where
  "sound_boot part b \<longleftrightarrow> le16 b 11 = 512 \<and> b ! 13 \<noteq> 0 \<and> b ! 16 \<noteq> 0 \<and> 0 < le32 b 36 \<and> le32 b 36 * 128 \<le> FAT32_CLUSTER_END
    \<and> part + le16 b 14 + unat (b ! 16) * le32 b 36 + le32 b 36 * 128 * unat (b ! 13) < 2 ^ 28"

text \<open>
  Mounting a drive whose boot sector is sound gives a well-formed volume that shows the links of the first table on the drive; a
  memory drive is read-only, and a drive that cannot be read or has a wrong signature is not mounted.
\<close>

theorem fat32_mount_sound:
  assumes "mount_drive device = Some (drive, ro)" "\<And>d. drives drive = Some d \<Longrightarrow> \<forall>l. length (d l) = 512"
    and "\<And>d. drives drive = Some d \<Longrightarrow> sound_boot (le32 (d 0) 454) (d (le32 (d 0) 454))"
  shows "case drives drive of
      None \<Rightarrow> fat32_mount device drives = Some None
    | Some d \<Rightarrow>
        if boot_signature (d 0) \<and> boot_signature (d (le32 (d 0) 454)) then
          (\<exists>n ni s. fat32_mount device drives = Some (Some (n, ni, s)) \<and> fat_ok s \<and> read_only s = ro \<and> cluster_number ni = le32 (d (le32 (d 0) 454)) 44
            \<and> has_flag VFS_FLAG_DIRECTORY n
            \<and> (\<forall>c < fat_total s. fat_view s c = le32 (d (le32 (d 0) 454 + le16 (d (le32 (d 0) 454)) 14 + c div 128)) (4 * (c mod 128)) mod 2 ^ 28))
        else fat32_mount device drives = Some None"
proof (cases "drives drive")
  case None
  then show ?thesis using assms(1) by (simp add: fat32_mount_def)
next
  case (Some d)
  let ?p = "le32 (d 0) 454"
  let ?b = "d ?p"
  show ?thesis
  proof (cases "boot_signature (d 0) \<and> boot_signature ?b")
    case False
    then show ?thesis using assms(1) Some by (auto simp: fat32_mount_def Let_def)
  next
    case True
    have sb: "sound_boot ?p ?b" by (rule assms(3) [OF Some])
    have l: "\<forall>l. length (d l) = 512" by (rule assms(2) [OF Some])
    define s0 where "s0 = (fat32_parse_bpb ?p ?b d)\<lparr>read_only := ro\<rparr>"
    let ?s = "load_cache s0"
    have B: "le16 ?b 11 = 512" "0 < unat (?b ! 13)" "0 < unat (?b ! 16)" "0 < le32 ?b 36" "le32 ?b 36 * 128 \<le> FAT32_CLUSTER_END"
      "?p + le16 ?b 14 + unat (?b ! 16) * le32 ?b 36 + le32 ?b 36 * 128 * unat (?b ! 13) < 2 ^ 28"
      using sb by (auto simp: sound_boot_def unat_gt_0)
    have lt: "(2 :: nat) ^ 28 < 2 ^ 32" by simp
    have w: "w32 (?p + le16 ?b 14) = ?p + le16 ?b 14" "w32 (?p + le16 ?b 14 + unat (?b ! 16) * le32 ?b 36) = ?p + le16 ?b 14 + unat (?b ! 16) * le32 ?b 36"
      using B(6) lt by (intro w32_id; linarith)+
    have S0: "read_only s0 = ro" "bytes_per_sector s0 = 512" "sectors_per_cluster s0 = unat (?b ! 13)" "table_count s0 = unat (?b ! 16)"
      "fat_size s0 = le32 ?b 36" "root_cluster s0 = le32 ?b 44" "fat_start_lba s0 = ?p + le16 ?b 14"
      "cluster_heap_start_lba s0 = ?p + le16 ?b 14 + unat (?b ! 16) * le32 ?b 36" "sectors s0 = d"
      by (simp_all add: s0_def fat32_parse_bpb_def Let_def w B(1))
    define m where "m = (if fat_size s0 > 64 then 64 else fat_size s0)"
    have m: "0 < m" "m \<le> fat_size s0" using B(4) by (auto simp: m_def S0)
    have ls: "load_cache s0 = s0\<lparr>fat_cache := Some (blk_read (fat_start_lba s0) m s0), fat_cache_start := 0, fat_cache_sectors := m, fat_cache_dirty := False\<rparr>"
      by (simp add: load_cache_def m_def Let_def)
    have "1 * fat_size s0 \<le> unat (?b ! 16) * le32 ?b 36" unfolding S0 using B(3) by (intro mult_right_mono) simp_all
    then have top: "fat_start_lba s0 + m \<le> 2 ^ 32" using m(2) B(6) lt unfolding S0 by linarith
    have win: "take 512 (drop (512 * j) (blk_read (fat_start_lba s0) m s0)) = d (fat_start_lba s0 + j)" if "j < m" for j
      using blk_read_nth_sector [OF _ that top] l S0(9) by simp
    have len: "length (blk_read (fat_start_lba s0) m s0) = 512 * m" using blk_read_length [of s0] l S0(9) by simp
    have sp: "unat (?b ! 13) \<le> 255" using unat_u8 [of "?b ! 13"] by linarith
    have ok: "fat_ok ?s" unfolding ls fat_ok_def using B sp l m win len by (simp add: S0)
    have v: "fat_sector ?s k = d (?p + le16 ?b 14 + k)" for k
      unfolding ls fat_sector_def using win [of k] by (simp add: S0)
    have mt: "fat32_mount device drives = Some (Some (\<lparr>v_name = [0x2F], v_inode = 0, v_size = 0, v_flags = VFS_FLAG_DIRECTORY OR VFS_FLAG_DISKIO, v_uid = 0, v_gid = 0,
                        v_mode = S_IFDIR OR 0x1ED, v_refcount = 1, v_data = None, v_ops = None, v_parent = None, v_children = None, v_next = None\<rparr>,
                      \<lparr>cluster_number = root_cluster ?s, node_size = 0, parent_cluster = 0\<rparr>, ?s))"
      using assms(1) Some True unfolding fat32_mount_def Let_def s0_def by simp
    have "read_only ?s = ro" "root_cluster ?s = le32 ?b 44" by (simp_all add: ls S0)
    then show ?thesis using mt ok v Some True
      by (auto simp: has_flag_def VFS_FLAG_DIRECTORY_def VFS_FLAG_DISKIO_def fat_view_def)
  qed
qed

section \<open>Deleting\<close>

text \<open>
  C40. Deleting a file rewrites the one cluster of the directory in which its entry stands and returns 0; a name that is not there, or names a
  directory, gives -1 and changes nothing. The clusters of the file are never given back: no link of the table changes, so
  the free clusters are those from before.
\<close>

theorem fat32_unlink_leaks:
  assumes "fat_ok s" "has_flag VFS_FLAG_DIRECTORY parent" "\<not> read_only s" "fchain s (cluster_number dir) pcls"
    and "find_dir skip_unlink name (cluster_data s) pcls no_lfn = Some r"
  shows "case r of
      None \<Rightarrow> \<exists>s'. fat32_unlink parent dir name s = Some (-1, s') \<and> vol_keeps s s'
    | Some (c, i, es) \<Rightarrow>
        if e_attr (es ! i) AND FAT32_ATTR_DIRECTORY \<noteq> 0 then \<exists>s'. fat32_unlink parent dir name s = Some (-1, s') \<and> vol_keeps s s'
        else \<exists>s'. fat32_unlink parent dir name s = Some (0, s') \<and> c \<in> set pcls
          \<and> vol_step s (fat_view s) ((cluster_data s)(c := concat (set_size i 0 (fat32_delete_lfn_chain es i)))) s'
          \<and> free_clusters s' = free_clusters s"
proof -
  obtain s1 where s1: "find_loop skip_unlink name (cluster_number dir) no_lfn s = Some (r, s1)" "vol_keeps s s1"
    using find_loop_some [OF assms(1,4,5)] by blast
  note D = vol_stepD [OF s1(2)]
  show ?thesis
  proof (cases r)
    case None
    then show ?thesis using s1 assms(2,3) by (simp add: fat32_unlink_def)
  next
    case (Some t)
    obtain c i es where t: "r = Some (c, i, es)" using Some by (cases t) auto
    note H = find_dir_hit [OF assms(5) [unfolded t]]
    have dc: "data_cluster s c" by (rule fchain_data [OF assms(4) H(1)])
    note E = cluster_entries [OF assms(1) dc, folded H(2)]
    let ?es = "set_size i 0 (fat32_delete_lfn_chain es i)"
    have "\<forall>e \<in> set (fat32_delete_lfn_chain es i). length e = 32" by (rule delete_entry_length [OF E(2) H(3)])
    then have e: "\<forall>e \<in> set ?es. length e = 32" "length ?es = cluster_size s1 div 32"
      using set_size_length [of "fat32_delete_lfn_chain es i" i 0] H(3) E(3) by (simp_all add: D)
    have "data_cluster s1 c" using dc by (simp add: D)
    from write_entries_back [OF D(1) this e(2,1)] obtain s2 where s2: "fat32_write_cluster c (concat ?es) s1 = Some s2"
      "vol_step s1 (fat_view s) ((cluster_data s)(c := concat ?es)) s2" unfolding D(3,4) by blast
    have v: "vol_step s (fat_view s) ((cluster_data s)(c := concat ?es)) s2" by (rule vol_step_trans [OF s1(2) s2(2)])
    have "free_clusters s2 = free_clusters s" using vol_stepD [OF v] by (simp add: free_clusters_def)
    then show ?thesis using t s1 s2(1) v H(1) assms(2,3) by (auto simp: fat32_unlink_def)
  qed
qed

section \<open>Short names\<close>

text \<open>Whether a directory has a short name, up to its end.\<close>

fun key_in_dir :: "u8 list \<Rightarrow> (nat \<Rightarrow> u8 list) \<Rightarrow> nat list \<Rightarrow> bool" where
  "key_in_dir key d [] \<longleftrightarrow> False"
| "key_in_dir key d (c # cs) \<longleftrightarrow> (case scan_key key (dir_entries (d c)) of Some b \<Rightarrow> b | None \<Rightarrow> key_in_dir key d cs)"

lemma key_taken_ok:
  assumes "fat_ok s" "fchain s c cls"
  shows "\<exists>s'. key_taken key c s = Some (key_in_dir key (cluster_data s) cls, s') \<and> vol_keeps s s'"
  using assms
proof (induction cls arbitrary: c s)
  case Nil
  then show ?case by (subst key_taken.simps) (simp add: vol_keeps_refl)
next
  case (Cons x xs)
  have f: "c = x" "data_cluster s x" "fchain s (fat_view s x) xs" using Cons.prems(2) by auto
  obtain s1 where s1: "fat32_read_fat_entry x s = Some (fat_view s x, s1)" "vol_keeps s s1" using read_link [OF Cons.prems(1) f(2)] by blast
  have ch: "fchain s1 (fat_view s x) xs" unfolding keeps_fchain [OF s1(2)] by (rule f(3))
  have u: "key_taken key c s = (case scan_key key (dir_entries (cluster_data s x)) of
           Some False \<Rightarrow> Some (False, s) | Some True \<Rightarrow> Some (True, s1) | None \<Rightarrow> key_taken key (fat_view s x) s1)"
    using f(1) data_cluster_bounds [OF Cons.prems(1) f(2)] read_cluster_ok [OF Cons.prems(1) f(2)] s1(1)
    by (subst key_taken.simps) (simp cong: option.case_cong bool.case_cong)
  show ?case
  proof (cases "scan_key key (dir_entries (cluster_data s x))")
    case None
    then show ?thesis unfolding u using Cons.IH [OF vol_stepD(1) [OF s1(2)] ch] vol_keeps_trans [OF s1(2)] by (auto simp: vol_stepD(4) [OF s1(2)])
  next
    case (Some b)
    then show ?thesis unfolding u using s1(2) vol_keeps_refl [OF Cons.prems(1)] by (cases b) auto
  qed
qed

lemma try_tails_ok:
  assumes "fat_ok s" "fchain s c cls" "1 \<le> tail"
  shows "\<exists>key s'. try_tails n tail name c s = Some (key, s') \<and> vol_keeps s s'
    \<and> ((\<exists>k. tail \<le> k \<and> k < tail + n \<and> key = tail_key name k \<and> \<not> key_in_dir key (cluster_data s) cls
          \<and> (\<forall>j. tail \<le> j \<and> j < k \<longrightarrow> key_in_dir (tail_key name j) (cluster_data s) cls))
       \<or> (key = tail_key name (tail + n - 1) \<and> (\<forall>j. tail \<le> j \<and> j < tail + n \<longrightarrow> key_in_dir (tail_key name j) (cluster_data s) cls)))"
  using assms
proof (induction n arbitrary: tail s)
  case 0
  then show ?case by (auto simp: vol_keeps_refl)
next
  case (Suc n)
  let ?k = "\<lambda>j. key_in_dir (tail_key name j) (cluster_data s) cls"
  obtain s1 where s1: "key_taken (tail_key name tail) c s = Some (?k tail, s1)" "vol_keeps s s1" using key_taken_ok [OF Suc.prems(1,2)] by blast
  note D = vol_stepD [OF s1(2)]
  have ch: "fchain s1 c cls" unfolding keeps_fchain [OF s1(2)] by (rule Suc.prems(2))
  show ?case
  proof (cases "?k tail")
    case False
    then have "try_tails (Suc n) tail name c s = Some (tail_key name tail, s1)" using s1(1) by simp
    then show ?thesis using s1(2) False by (intro exI [of _ "tail_key name tail"] exI [of _ s1]) auto
  next
    case True
    then have e: "try_tails (Suc n) tail name c s = try_tails n (tail + 1) name c s1" using s1(1) by simp
    have all: "(\<forall>j. tail \<le> j \<and> j < k \<longrightarrow> ?k j)" if "\<forall>j. tail + 1 \<le> j \<and> j < k \<longrightarrow> ?k j" for k
      using that True by (metis Suc_eq_plus1 Suc_leI le_neq_implies_less)
    have "1 \<le> tail + 1" by simp
    from Suc.IH [OF D(1) ch this] obtain key s' where r: "try_tails n (tail + 1) name c s1 = Some (key, s')" "vol_keeps s1 s'"
      "(\<exists>k. tail + 1 \<le> k \<and> k < tail + 1 + n \<and> key = tail_key name k \<and> \<not> key_in_dir key (cluster_data s) cls
          \<and> (\<forall>j. tail + 1 \<le> j \<and> j < k \<longrightarrow> ?k j))
       \<or> (key = tail_key name (tail + 1 + n - 1) \<and> (\<forall>j. tail + 1 \<le> j \<and> j < tail + 1 + n \<longrightarrow> ?k j))"
      unfolding D(4) by blast
    have "(\<exists>k. tail \<le> k \<and> k < tail + Suc n \<and> key = tail_key name k \<and> \<not> key_in_dir key (cluster_data s) cls \<and> (\<forall>j. tail \<le> j \<and> j < k \<longrightarrow> ?k j))
       \<or> (key = tail_key name (tail + Suc n - 1) \<and> (\<forall>j. tail \<le> j \<and> j < tail + Suc n \<longrightarrow> ?k j))"
    proof -
      have 1: "tail + 1 + n = tail + Suc n" by simp
      from r(3) show ?thesis
      proof
        assume "\<exists>k. tail + 1 \<le> k \<and> k < tail + 1 + n \<and> key = tail_key name k \<and> \<not> key_in_dir key (cluster_data s) cls \<and> (\<forall>j. tail + 1 \<le> j \<and> j < k \<longrightarrow> ?k j)"
        then obtain k where k: "tail + 1 \<le> k" "k < tail + 1 + n" "key = tail_key name k" "\<not> key_in_dir key (cluster_data s) cls" "\<forall>j. tail + 1 \<le> j \<and> j < k \<longrightarrow> ?k j"
          by blast
        then show ?thesis using all [OF k(5)] by (intro disjI1 exI [of _ k]) auto
      next
        assume "key = tail_key name (tail + 1 + n - 1) \<and> (\<forall>j. tail + 1 \<le> j \<and> j < tail + 1 + n \<longrightarrow> ?k j)"
        then show ?thesis using all [of "tail + Suc n"] unfolding 1 by blast
      qed
    qed
    then show ?thesis unfolding e using r(1) vol_keeps_trans [OF s1(2) r(2)] by blast
  qed
qed

text \<open>
  The short name made for a long one is the first with a numeric tail that the directory does not have, unless all 9999 are taken:
  then the last of them is used a second time.
\<close>

theorem short_name_fresh:
  assumes "fat_ok s" "fchain s c cls"
  shows "\<exists>key s'. fat32_generate_short_name name c s = Some (key, s') \<and> vol_keeps s s'
    \<and> (if \<exists>k \<in> {1..9999}. \<not> key_in_dir (tail_key name k) (cluster_data s) cls
       then \<not> key_in_dir key (cluster_data s) cls \<and> (\<exists>k \<in> {1..9999}. key = tail_key name k \<and> (\<forall>j \<in> {1..<k}. key_in_dir (tail_key name j) (cluster_data s) cls))
       else key = tail_key name 9999)"
proof -
  from try_tails_ok [OF assms order_refl, of 9999 name] obtain key s' where r: "try_tails 9999 1 name c s = Some (key, s')" "vol_keeps s s'"
    "(\<exists>k. 1 \<le> k \<and> k < 1 + 9999 \<and> key = tail_key name k \<and> \<not> key_in_dir key (cluster_data s) cls
          \<and> (\<forall>j. 1 \<le> j \<and> j < k \<longrightarrow> key_in_dir (tail_key name j) (cluster_data s) cls))
       \<or> (key = tail_key name (1 + 9999 - 1) \<and> (\<forall>j. 1 \<le> j \<and> j < 1 + 9999 \<longrightarrow> key_in_dir (tail_key name j) (cluster_data s) cls))"
    by blast
  have g: "fat32_generate_short_name name c s = Some (key, s')" using r(1) by (simp add: fat32_generate_short_name_def)
  from r(3) show ?thesis
  proof
    assume "\<exists>k. 1 \<le> k \<and> k < 1 + 9999 \<and> key = tail_key name k \<and> \<not> key_in_dir key (cluster_data s) cls
          \<and> (\<forall>j. 1 \<le> j \<and> j < k \<longrightarrow> key_in_dir (tail_key name j) (cluster_data s) cls)"
    then obtain k where k0: "1 \<le> k \<and> k < 1 + 9999" "key = tail_key name k" "\<not> key_in_dir key (cluster_data s) cls"
      "\<forall>j. 1 \<le> j \<and> j < k \<longrightarrow> key_in_dir (tail_key name j) (cluster_data s) cls" by blast
    then have k: "k \<in> {1..9999}" "key = tail_key name k" "\<not> key_in_dir key (cluster_data s) cls"
      "\<forall>j \<in> {1..<k}. key_in_dir (tail_key name j) (cluster_data s) cls" by simp_all
    then have "\<exists>k \<in> {1..9999}. \<not> key_in_dir (tail_key name k) (cluster_data s) cls" by blast
    then show ?thesis using g r(2) k by (intro exI [of _ key] exI [of _ s']) auto
  next
    assume "key = tail_key name (1 + 9999 - 1) \<and> (\<forall>j. 1 \<le> j \<and> j < 1 + 9999 \<longrightarrow> key_in_dir (tail_key name j) (cluster_data s) cls)"
    then have k: "key = tail_key name 9999" "\<not> (\<exists>k \<in> {1..9999}. \<not> key_in_dir (tail_key name k) (cluster_data s) cls)" by auto
    then show ?thesis using g r(2) by (intro exI [of _ key] exI [of _ s']) simp
  qed
qed

section \<open>The small volume\<close>

lemma dir_entries_cons: "length e = 32 \<Longrightarrow> dir_entries (e @ rest) = e # dir_entries rest"
proof -
  assume e: "length e = 32"
  then have "length (e @ rest) div 32 = Suc (length rest div 32)" by simp
  moreover have "[0..<Suc (length rest div 32)] = 0 # map Suc [0..<length rest div 32]" by (metis map_Suc_upt upt_conv_Cons zero_less_Suc)
  moreover have "map (\<lambda>i. take 32 (drop (32 * i) (e @ rest))) (map Suc xs) = map (\<lambda>i. take 32 (drop (32 * i) rest)) xs" for xs
    using e by simp
  ultimately show ?thesis using e unfolding dir_entries_def by (simp only: list.map mult_0_right drop_0) simp
qed

lemma demo_entries: "\<exists>es. dir_entries (cluster_data demo_vol 2) = demo_entry # replicate 32 0 # es"
proof -
  have "replicate 480 (0 :: u8) = replicate 32 0 @ replicate 448 0" by (simp add: replicate_add [symmetric])
  then show ?thesis using dir_entries_cons [OF demo_entry_sel(1)] dir_entries_cons [of "replicate 32 0"] by (simp add: demo_data)
qed

lemma demo_find:
  assumes "\<not> skip demo_entry"
  shows "find_dir skip (ascii ''A'') (cluster_data demo_vol) [2] no_lfn = Some (Some (2, 0, dir_entries (cluster_data demo_vol 2)))"
proof -
  obtain es where es: "dir_entries (cluster_data demo_vol 2) = demo_entry # es" using demo_entries by blast
  have "scan_entries skip (ascii ''A'') (demo_entry # es) 0 no_lfn = Some (Hit 0)"
    unfolding scan_entries.simps(2) entry_matches_def demo_entry_sel using assms by simp
  then show ?thesis by (simp add: es)
qed

lemma demo_free: "free_clusters demo_vol = {4..<128}"
proof -
  have "data_cluster demo_vol x \<and> fat_view demo_vol x = 0 \<longleftrightarrow> 4 \<le> x \<and> x < 128" for x
    using demo_view [of x] END_nz by (auto simp: demo_geom split: if_splits)
  then show ?thesis unfolding free_clusters_def by (simp only: atLeastLessThan_def atLeast_def lessThan_def) blast
qed

lemma fat32_write_read_witness:
  "\<exists>n' s'. fat32_write demo_file demo_info 600 [9] demo_vol = Some (1, n', demo_info, s') \<and> v_size n' = 601
     \<and> (\<exists>s''. fat32_read n' demo_info 600 1 s' = Some (1, [9], s''))"
proof -
  have a: "\<not> read_only demo_vol" "[3 :: nat] \<noteq> []" "[9 :: u8] \<noteq> []"
    "600 + length [9 :: u8] \<le> (length [3 :: nat] + card (free_clusters demo_vol)) * cluster_size demo_vol" "600 + length [9 :: u8] < 2 ^ 31"
    "v_size demo_file \<le> length [3 :: nat] * cluster_size demo_vol" "v_size demo_file < 2 ^ 31"
    "fchain demo_vol (parent_cluster demo_info) [2]" "set [2 :: nat] \<inter> set [3] = {}"
    "find_dir skip_update (v_name demo_file) (cluster_data demo_vol) [2] no_lfn \<noteq> None"
    using demo_find [of skip_update] demo_chain(2) by (simp_all add: demo_geom demo_free demo_file_def demo_info_def skip_update_def)
  from fat32_write_read [OF demo_ok a(1) demo_file_flag demo_chain(1) a(2-10)]
  show ?thesis by (auto simp: demo_file_def)
qed

lemma fat32_unlink_leaks_witness:
  "\<exists>s'. fat32_unlink (demo_file\<lparr>v_flags := VFS_FLAG_DIRECTORY\<rparr>) \<lparr>cluster_number = 2, node_size = 0, parent_cluster = 0\<rparr> (ascii ''A'') demo_vol = Some (0, s')
     \<and> fat_view s' 3 = FAT32_CLUSTER_END \<and> free_clusters s' = {4..<128}"
proof -
  let ?es = "dir_entries (cluster_data demo_vol 2)"
  have p: "has_flag VFS_FLAG_DIRECTORY (demo_file\<lparr>v_flags := VFS_FLAG_DIRECTORY\<rparr>)" by (simp add: has_flag_def VFS_FLAG_DIRECTORY_def)
  have c: "fchain demo_vol (cluster_number \<lparr>cluster_number = 2, node_size = 0, parent_cluster = 0\<rparr>) [2]" using demo_chain(2) by simp
  have f: "find_dir skip_unlink (ascii ''A'') (cluster_data demo_vol) [2] no_lfn = Some (Some (2, 0, ?es))"
    by (rule demo_find) (simp add: skip_unlink_def demo_entry_sel FAT32_ATTR_VOLUME_ID_def)
  have e: "?es ! 0 = demo_entry" using demo_entries by auto
  have "\<not> read_only demo_vol" by (simp add: demo_geom)
  from fat32_unlink_leaks [OF demo_ok p this c f] show ?thesis
    by (auto simp: e demo_entry_sel FAT32_ATTR_DIRECTORY_def demo_free vol_step_def demo_view)
qed

lemma short_name_fresh_witness:
  "\<exists>s'. fat32_generate_short_name (ascii ''longer name.txt'') 2 demo_vol = Some (tail_key (ascii ''longer name.txt'') 1, s')"
proof -
  let ?n = "ascii ''longer name.txt''"
  obtain es where es: "dir_entries (cluster_data demo_vol 2) = demo_entry # replicate 32 0 # es" using demo_entries by blast
  have "tail_key ?n 1 \<noteq> fat32_build_name_key (ascii ''A'')" by code_simp
  then have "scan_key (tail_key ?n 1) (demo_entry # replicate 32 0 # es) = Some False" by (simp add: demo_entry_sel)
  then have k: "\<not> key_in_dir (tail_key ?n 1) (cluster_data demo_vol) [2]" by (simp add: es)
  from short_name_fresh [OF demo_ok demo_chain(2), of ?n] obtain key s' where r:
    "fat32_generate_short_name ?n 2 demo_vol = Some (key, s')"
    "\<exists>k \<in> {1..9999}. key = tail_key ?n k \<and> (\<forall>j \<in> {1..<k}. key_in_dir (tail_key ?n j) (cluster_data demo_vol) [2])"
    using k by (auto split: if_splits)
  from r(2) obtain k' where k': "k' \<in> {1..9999}" "key = tail_key ?n k'" "\<forall>j \<in> {1..<k'}. key_in_dir (tail_key ?n j) (cluster_data demo_vol) [2]" by blast
  then have "k' = 1" using k by (metis atLeastAtMost_iff atLeastLessThan_iff le_neq_implies_less order_refl)
  then show ?thesis using r(1) k'(2) by blast
qed

definition demo_mbr :: "u8 list" where
  "demo_mbr = (put32 (replicate 512 0) 454 1)[510 := 0x55, 511 := 0xAA]"

definition demo_boot :: "u8 list" where
  "demo_boot = (put32 (put32 (put16 (put16 (replicate 512 0) 11 512) 14 1) 36 1) 44 2)[13 := 1, 16 := 1, 510 := 0x55, 511 := 0xAA]"

definition demo_disk :: "nat \<Rightarrow> u8 list" where
  "demo_disk l = (if l = 0 then demo_mbr else if l = 1 then demo_boot else replicate 512 0)"

definition demo_drive :: "nat \<Rightarrow> (nat \<Rightarrow> u8 list) option" where
  "demo_drive k = (if k = 0 then Some demo_disk else None)"

lemma demo_boot_fields: "le16 demo_boot 11 = 512" "le16 demo_boot 14 = 1" "demo_boot ! 13 = 1" "demo_boot ! 16 = 1" "le32 demo_boot 36 = 1" "le32 demo_boot 44 = 2"
    "length demo_boot = 512" "boot_signature demo_boot" "boot_signature demo_mbr" "length demo_mbr = 512" "le32 demo_mbr 454 = 1"
  by (simp_all add: demo_boot_def demo_mbr_def le16_def le32_def put16_def put32_def boot_signature_def nth_list_update)

lemma fat32_mount_sound_witness:
  "\<exists>n ni s. fat32_mount None demo_drive = Some (Some (n, ni, s)) \<and> fat_ok s \<and> cluster_number ni = 2 \<and> \<not> read_only s"
proof -
  have a: "mount_drive None = Some (0, False)" by (simp add: mount_drive_def)
  have k: "demo_disk 0 = demo_mbr" "demo_disk 1 = demo_boot" by (simp_all add: demo_disk_def)
  have d: "demo_drive 0 = Some demo_disk" by (simp add: demo_drive_def)
  have l: "\<forall>l. length (demo_disk l) = 512" by (simp add: demo_disk_def demo_boot_fields)
  have b: "sound_boot 1 demo_boot" unfolding sound_boot_def by (simp add: demo_boot_fields FAT32_CLUSTER_END_def)
  have "\<exists>n ni s. fat32_mount None demo_drive = Some (Some (n, ni, s)) \<and> fat_ok s \<and> read_only s = False \<and> cluster_number ni = le32 demo_boot 44"
    using fat32_mount_sound [where drives = demo_drive, OF a] l b demo_boot_fields(8,9)
    unfolding d option.case(2) option.inject by (auto simp: k k(2) [simplified] demo_boot_fields(11))
  then show ?thesis unfolding demo_boot_fields by blast
qed

end
