(* ===== verification/Spec2Isabelle.thy ===== *)
theory Spec2Isabelle
  imports Prelude Heap Buddy Cstring Numconv Sortsearch Memops Sched Schedops Sync Ring Pipe Paging Usercopy Shm Addrspace Blkcache Vnode Creds Tmpfs Vfs Files Pty Socket Fatname Fat32 Fatvol Fatfile Fatdir
begin

text \<open>
  Verification library of the Serotonin kernel, a preemptive kernel for i686 with paging, a virtual file system, terminals,
  pipes, Unix sockets and shared memory. The theories follow the kernel's sources under \<^verbatim>\<open>kernel/\<close>; a definition has the
  name of the C function it models, and a helper that is a part of a function (a loop body, a lookup inlined several times) has a name of its
  own and stands before it.

  \<^bold>\<open>Conventions.\<close> A \<^verbatim>\<open>uint32_t\<close> is a word where the code works on its bits, and otherwise a natural number below \<open>2 ^ 32\<close> whose
  arithmetic goes through \<open>w32\<close> and \<open>sub32\<close> of \<open>Prelude\<close>. A \<^verbatim>\<open>struct\<close> is a record, an array or a linked list that is only
  walked is a list, and a structure whose links matter (free lists, run queues, hash chains, the order of use in a cache) keeps its
  pointers as the code does. A pointer to a heap object is a number that indexes a map, NULL is \<open>None\<close>, and an operation is a function
  from the state to its result and the new state. \<open>None\<close> as a result is an access that C leaves undefined (outside of a buffer, through NULL
  or a freed object) or a walk that does not end; errors that the code returns are values, and a panic is a value of an error type.

  \<^bold>\<open>Memory.\<close> \<open>Buddy\<close> (\<^verbatim>\<open>vmm.c\<close>: zones, \<^verbatim>\<open>zone_alloc_pages\<close>, \<^verbatim>\<open>zone_free_pages\<close>, \<^verbatim>\<open>alloc_pages\<close>, \<^verbatim>\<open>buddy_init\<close>) gives frames: a state
  reached by any sequence of allocations and releases has disjoint allocations, ends its walks and counts its free pages exactly. Its contract is
  the locale \<open>frame_allocator\<close>, interpreted as \<open>buddy\<close>. \<open>Paging\<close> (\<^verbatim>\<open>map_page\<close>, \<^verbatim>\<open>unmap_page\<close> and the walks of \<^verbatim>\<open>vmm.c\<close>) takes page tables from it and
  works through the self map and the window as the code does, over the processor's walk from \<open>cr3\<close>; the theorems show it to be a map from pages to
  frames. \<open>Addrspace\<close> (creation and destruction of address spaces, and the boot tables of \<^verbatim>\<open>paging_init.c\<close>), \<open>Shm\<close> (shared objects and
  their places in an address space) and \<open>Usercopy\<close> (\<^verbatim>\<open>copy_to_user\<close>, \<^verbatim>\<open>copy_from_user\<close>, page by page, equal to a copy byte by byte) build on it. \<open>Heap\<close>
  (\<^verbatim>\<open>kernel_malloc\<close> and \<^verbatim>\<open>kernel_free\<close> of \<^verbatim>\<open>kernel.c\<close>) has the contract \<open>block_allocator\<close>, interpreted as \<open>kh\<close>, and results for every
  branch, panics included.

  \<^bold>\<open>Library routines.\<close> \<open>Cstring\<close>, \<open>Numconv\<close> and \<open>Sortsearch\<close> (\<^verbatim>\<open>stdlib.c\<close>, \<^verbatim>\<open>string.c\<close>) and \<open>Memops\<close> (\<^verbatim>\<open>mem.c\<close>, with the alignment faults of its SSE
  instructions) relate the optimised routines to reference definitions on lists.

  \<^bold>\<open>Tasks.\<close> \<open>Sched\<close> and \<open>Schedops\<close> (\<^verbatim>\<open>schedule.c\<close>, \<^verbatim>\<open>sys_waitpid\<close>, the timer handler of \<^verbatim>\<open>irq.c\<close>): the run queue, with its links, tails and two levels of
  bitmaps, implements one queue per priority (locale \<open>ready_queue\<close>, interpretation \<open>rq\<close>); the lemmas on whole runs of the scheduler
  are about runs without \<^verbatim>\<open>fork\<close> in which no waiting or queued task is woken twice, which the kernel does not ensure. \<open>Sync\<close> has the locks and
  semaphores with the interleavings of the tasks that use them.

  \<^bold>\<open>Streams.\<close> \<open>Ring\<close> is the byte ring that \<open>Pipe\<close> (\<^verbatim>\<open>schedule.c\<close>), \<open>Pty\<close> (\<^verbatim>\<open>pty.c\<close>) and \<open>Socket\<close> (\<^verbatim>\<open>schedule.c\<close>, the socket calls of \<^verbatim>\<open>syscall.c\<close>) use; the locale
  \<open>byte_fifo\<close> states what they promise and is interpreted for the three of them (\<open>pipe\<close>, \<open>pty_rings\<close>, \<open>sock_fifo\<close>). For pipes the bytes read are those
  written, in order, over any sequence of operations, and an object is freed exactly when its last end is closed; for
  terminals the line discipline is an editor of lines; for sockets a write is split between the reader that waits and the buffer, and the
  table of paths agrees with the sockets that are bound and alive.

  \<^bold>\<open>Files.\<close> \<open>Vnode\<close> is the node of \<^verbatim>\<open>vfs.h\<close>. \<open>Creds\<close> (\<^verbatim>\<open>vfs_perm.c\<close> and the calls on users, groups, modes and owners), \<open>Tmpfs\<close> (\<^verbatim>\<open>tmpfs.c\<close> over a
  store of nodes), \<open>Vfs\<close> (\<^verbatim>\<open>vfs.c\<close>: paths, mounts, resolution, creation, opening and closing) and \<open>Files\<close> (descriptors, handles and the calls on them) are one
  stack: \<open>Vfs\<close> calls the operations of \<open>Tmpfs\<close>, \<open>Files\<close> those of \<open>Vfs\<close>. \<open>Blkcache\<close> (\<^verbatim>\<open>blkcache.c\<close>) is shown to be a bounded map of sectors, for every driver below.
  The FAT32 driver (\<^verbatim>\<open>fat32.c\<close>) is in five theories: \<open>Fatname\<close> (short and long names, directory entries, the scan of a directory),
  \<open>Fat32\<close> (every operation), \<open>Fatvol\<close> (the table and its window in memory refine a map from clusters to links, the clusters one to bytes),
  \<open>Fatfile\<close> (chains; a read gives the bytes of the chain, a write splices them in) and \<open>Fatdir\<close> (lookup, update, writing as a whole, mounting,
  deleting, short names).

  \<^bold>\<open>Invariants.\<close> \<open>heap_inv\<close>, \<open>zones_inv\<close>, \<open>rq_inv\<close>, \<open>pipe_inv\<close>, \<open>ring_inv\<close>, \<open>table_ok\<close>, \<open>blk_wf\<close> and \<open>fat_ok\<close> are what their operations keep; a theorem about
  reachable states is an induction over a relation named \<open>*_reach\<close>, whose rules are the calls that the theorem's text names.

  \<^bold>\<open>Bounds, fuel and termination.\<close> Loops are recursive functions with a measure where one exists. The walks along free lists of \<open>Buddy\<close> and the
  recursion of \<open>qsort\<close> run with fuel; what is proved is that the fuel the model gives (the pages of a zone, one more than the elements) is
  enough. Walks that a damaged structure could make endless (hash chains, cluster chains, the search for a task to run) are partial functions, and their theorems
  show that they return. The capacities are the code's: 256 cache entries in 64 chains, 256 priorities, 256 shared objects, rings of 65536
  bytes for terminals and 4096 for sockets, 64 bound sockets, 20 fragments of a long name. A FAT32 volume lies within the \<open>2 ^ 28\<close> sectors
  that a drive's address reaches.

  \<^bold>\<open>Not modelled.\<close> The drivers that talk to devices through ports and DMA (IDE, PCI, sound, network, keyboard, mouse, serial, clock), the
  video driver with its layers, and devfs above them: their effect is on hardware that the sources do not describe. The assembly of boot, interrupt entry and context switch, the
  processor's descriptor tables, the fault handlers and the translation buffer. Floating point conversion. The calls \<^verbatim>\<open>fork\<close> and \<^verbatim>\<open>execve\<close> as a
  whole (the copy of an address space and the ELF loader; what \<^verbatim>\<open>fork\<close> does to descriptors is in \<open>Files\<close>, the set-user-id part of \<^verbatim>\<open>execve\<close> in
  \<open>Creds\<close>), \<^verbatim>\<open>poll\<close>, \<^verbatim>\<open>select\<close>, and calls that only report. Allocation in the kernel heap is taken to succeed in the theories above it, since it panics
  instead of returning NULL. The user programs, the tests and the third-party code under \<^verbatim>\<open>user/\<close>.
\<close>

end
